(* ===== verification/Prelude.thy ===== *)
theory Prelude
  imports Main "HOL-Library.Word" "HOL-Library.Char_ord"
begin

text \<open>
  Shared vocabulary of the development: C strings, byte values, the outcomes of undefined
  memory accesses, the \<open>named_theorems\<close> collections the component theories feed, and the
  generic lemmas on lists, options and association lists that several components use.

  A C string is modelled by the list of its bytes before the terminating NUL
  (\<open>cstr\<close>); a byte is a \<open>char\<close>, \<open>byte c\<close> is its value between 0 and 255.
\<close>

unbundle bit_operations_syntax

named_theorems irc_char \<open>characterisations of the character classes and case maps\<close>
named_theorems ids_simps \<open>rewrites on lists of object identifiers\<close>

type_synonym cstr = string
type_synonym time_t = int

text \<open>What a pointer access outside its object leads to.\<close>

datatype ub = OutOfBounds | NullDeref | MissingArgument

abbreviation NUL :: char where
  "NUL \<equiv> CHR 0x00"

abbreviation byte :: "char \<Rightarrow> nat" where
  "byte c \<equiv> of_char c"

abbreviation chr :: "nat \<Rightarrow> char" where
  "chr n \<equiv> char_of n"

subsection \<open>C strings\<close>

text \<open>
  \<open>cut s\<close> is the C string that starts at the first byte of \<open>s\<close>: everything before the
  first NUL. \<open>at s i\<close> reads the byte at offset \<open>i\<close>, the terminating NUL included; \<open>rd\<close> is
  the same read with its bounds check: an offset past the terminator is outside the object.
\<close>

definition cut :: "string \<Rightarrow> cstr" where
  "cut s = takeWhile (\<lambda>c. c \<noteq> NUL) s"

definition at :: "cstr \<Rightarrow> nat \<Rightarrow> char" where
  "at s i = (if i < length s then s ! i else NUL)"

definition rd :: "cstr \<Rightarrow> nat \<Rightarrow> (char \<Rightarrow> ub + 'a) \<Rightarrow> ub + 'a" where
  "rd s i k = (if i \<le> length s then k (at s i) else Inl OutOfBounds)"

fun bind_ub :: "ub + 'a \<Rightarrow> ('a \<Rightarrow> ub + 'b) \<Rightarrow> ub + 'b" where
  "bind_ub (Inl e) k = Inl e"
| "bind_ub (Inr x) k = k x"

definition hd0 :: "cstr \<Rightarrow> char" where
  "hd0 s = (case s of [] \<Rightarrow> NUL | c # _ \<Rightarrow> c)"

text \<open>C's truth value of \<open>x & m\<close>.\<close>

definition has :: "32 word \<Rightarrow> 32 word \<Rightarrow> bool" where
  "has x m \<longleftrightarrow> x AND m \<noteq> 0"

lemma hd0_simps [simp]: "hd0 [] = NUL" "hd0 (c # s) = c"
  by (simp_all add: hd0_def)

lemma hd0_eq_NUL_Nil: "hd0 s \<noteq> NUL \<Longrightarrow> s \<noteq> []"
  by auto

lemma cut_Nil [simp]: "cut [] = []"
  by (simp add: cut_def)

lemma cut_Cons: "cut (c # s) = (if c = NUL then [] else c # cut s)"
  by (simp add: cut_def)

lemma NUL_notin_cut [simp]: "NUL \<notin> set (cut s)"
  by (auto simp: cut_def dest: set_takeWhileD)

lemma cut_id [simp]: "NUL \<notin> set s \<Longrightarrow> cut s = s"
  unfolding cut_def by (subst takeWhile_eq_all_conv) auto

lemma cut_cut [simp]: "cut (cut s) = cut s"
  by simp

lemma cut_unfold: "cut s = (if hd0 s = NUL then [] else hd0 s # cut (tl s))"
  by (cases s) (auto simp: cut_Cons)

lemma at_less [simp]: "i < length s \<Longrightarrow> at s i = s ! i"
  by (simp add: at_def)

lemma at_end [simp]: "at s (length s) = NUL"
  by (simp add: at_def)

lemma rd_in [simp]: "i \<le> length s \<Longrightarrow> rd s i k = k (at s i)"
  by (simp add: rd_def)

lemma at_eq_NUL_iff: "NUL \<notin> set s \<Longrightarrow> i \<le> length s \<Longrightarrow> at s i = NUL \<longleftrightarrow> i = length s"
  by (auto simp: at_def) (metis nth_mem)

lemma drop_at: "i < length s \<Longrightarrow> drop i s = at s i # drop (Suc i) s"
  by (simp add: Cons_nth_drop_Suc)

subsection \<open>Lists\<close>

lemma find_SomeD: "List.find P xs = Some x \<Longrightarrow> P x \<and> x \<in> set xs"
  by (auto simp: find_Some_iff)

subsection \<open>Bytes\<close>

lemma all_char: "(\<forall>c. P c) \<longleftrightarrow> (\<forall>n<256. P (chr n))"
  by (metis char_of_char nat_of_char_less_256)

lemma byte_eq_0 [simp]: "byte c = 0 \<longleftrightarrow> c = NUL"
  using of_char_eq_iff [of c NUL, where ?'a = nat] by simp

lemma chr_byte_eq: "chr n = c \<longleftrightarrow> n mod 256 = byte c"
  by (metis char_of_char char_of_mod_256 of_char_of)

end
