(* ===== verification/IrcChar.thy ===== *)
theory IrcChar
  imports Prelude
begin

text \<open>
  The character tables of \<open>src/match.c\<close> and the classification macros of
  \<open>include/irc_string.h\<close>. The two case tables are transcribed entry by entry; the attribute
  table \<open>CharAttrs\<close> is transcribed row by row for the default build (\<open>RFC1035_ANAL\<close> and
  \<open>ALLOW_DOT_IN_IDENT\<close> defined in \<open>include/config.h\<close>; \<open>UTF8\<close>, \<open>KOREAN\<close> and
  \<open>HEBREW_SUPPORT\<close> undefined, as in \<open>include/setup.h.in\<close>). The lemmas replace table
  look-ups by ranges of byte values, which is what the proofs of the other theories use.
\<close>

subsection \<open>Case tables\<close>

definition ToLowerTab :: "nat list" where
  "ToLowerTab =
    [0, 1, 2, 3, 4, 5, 6, 7, 8, 9, 10, 11, 12, 13, 14, 15,
     16, 17, 18, 19, 20, 21, 22, 23, 24, 25, 26, 27, 28, 29, 30, 31,
     32, 33, 34, 35, 36, 37, 38, 39, 40, 41, 42, 43, 44, 45, 46, 47,
     48, 49, 50, 51, 52, 53, 54, 55, 56, 57, 58, 59, 60, 61, 62, 63,
     64, 97, 98, 99, 100, 101, 102, 103, 104, 105, 106, 107, 108, 109, 110, 111,
     112, 113, 114, 115, 116, 117, 118, 119, 120, 121, 122, 91, 92, 93, 126, 95,
     96, 97, 98, 99, 100, 101, 102, 103, 104, 105, 106, 107, 108, 109, 110, 111,
     112, 113, 114, 115, 116, 117, 118, 119, 120, 121, 122, 123, 124, 125, 126, 127,
     128, 129, 130, 131, 132, 133, 134, 135, 136, 137, 138, 139, 140, 141, 142, 143,
     144, 145, 146, 147, 148, 149, 150, 151, 152, 153, 154, 155, 156, 157, 158, 159,
     160, 161, 162, 163, 164, 165, 166, 167, 168, 169, 170, 171, 172, 173, 174, 175,
     176, 177, 178, 179, 180, 181, 182, 183, 184, 185, 186, 187, 188, 189, 190, 191,
     192, 193, 194, 195, 196, 197, 198, 199, 200, 201, 202, 203, 204, 205, 206, 207,
     208, 209, 210, 211, 212, 213, 214, 215, 216, 217, 218, 219, 220, 221, 222, 223,
     224, 225, 226, 227, 228, 229, 230, 231, 232, 233, 234, 235, 236, 237, 238, 239,
     240, 241, 242, 243, 244, 245, 246, 247, 248, 249, 250, 251, 252, 253, 254, 255]"

definition ToUpperTab :: "nat list" where
  "ToUpperTab =
    [0, 1, 2, 3, 4, 5, 6, 7, 8, 9, 10, 11, 12, 13, 14, 15,
     16, 17, 18, 19, 20, 21, 22, 23, 24, 25, 26, 27, 28, 29, 30, 31,
     32, 33, 34, 35, 36, 37, 38, 39, 40, 41, 42, 43, 44, 45, 46, 47,
     48, 49, 50, 51, 52, 53, 54, 55, 56, 57, 58, 59, 60, 61, 62, 63,
     64, 65, 66, 67, 68, 69, 70, 71, 72, 73, 74, 75, 76, 77, 78, 79,
     80, 81, 82, 83, 84, 85, 86, 87, 88, 89, 90, 91, 92, 93, 94, 95,
     96, 65, 66, 67, 68, 69, 70, 71, 72, 73, 74, 75, 76, 77, 78, 79,
     80, 81, 82, 83, 84, 85, 86, 87, 88, 89, 90, 123, 124, 125, 94, 127,
     128, 129, 130, 131, 132, 133, 134, 135, 136, 137, 138, 139, 140, 141, 142, 143,
     144, 145, 146, 147, 148, 149, 150, 151, 152, 153, 154, 155, 156, 157, 158, 159,
     160, 161, 162, 163, 164, 165, 166, 167, 168, 169, 170, 171, 172, 173, 174, 175,
     176, 177, 178, 179, 180, 181, 182, 183, 184, 185, 186, 187, 188, 189, 190, 191,
     192, 193, 194, 195, 196, 197, 198, 199, 200, 201, 202, 203, 204, 205, 206, 207,
     208, 209, 210, 211, 212, 213, 214, 215, 216, 217, 218, 219, 220, 221, 222, 223,
     224, 225, 226, 227, 228, 229, 230, 231, 232, 233, 234, 235, 236, 237, 238, 239,
     240, 241, 242, 243, 244, 245, 246, 247, 248, 249, 250, 251, 252, 253, 254, 255]"

definition ToLower :: "char \<Rightarrow> char" where
  "ToLower c = chr (ToLowerTab ! byte c)"

definition ToUpper :: "char \<Rightarrow> char" where
  "ToUpper c = chr (ToUpperTab ! byte c)"

lemma length_case_tabs [simp]: "length ToLowerTab = 256" "length ToUpperTab = 256"
  by (simp_all add: ToLowerTab_def ToUpperTab_def)

lemma ToLowerTab_eq:
  "ToLowerTab = map (\<lambda>n. if 65 \<le> n \<and> n \<le> 90 then n + 32 else if n = 94 then 126 else n) [0..<256]"
  by (simp add: ToLowerTab_def upt_conv_Cons)

lemma ToUpperTab_eq:
  "ToUpperTab = map (\<lambda>n. if 97 \<le> n \<and> n \<le> 122 then n - 32 else if n = 126 then 94 else n) [0..<256]"
  by (simp add: ToUpperTab_def upt_conv_Cons)

lemma byte_ToLower [irc_char]:
  "byte (ToLower c) =
     (if 65 \<le> byte c \<and> byte c \<le> 90 then byte c + 32 else if byte c = 94 then 126 else byte c)"
  using nat_of_char_less_256 [of c] by (auto simp: ToLower_def ToLowerTab_eq)

lemma byte_ToUpper [irc_char]:
  "byte (ToUpper c) =
     (if 97 \<le> byte c \<and> byte c \<le> 122 then byte c - 32 else if byte c = 126 then 94 else byte c)"
  using nat_of_char_less_256 [of c] by (auto simp: ToUpper_def ToUpperTab_eq)

text \<open>The two tables induce the same equivalence on bytes.\<close>

lemma case_tabs_agree:
  fixes m n :: nat
  shows "(if 65 \<le> m \<and> m \<le> 90 then m + 32 else if m = 94 then 126 else m) =
         (if 65 \<le> n \<and> n \<le> 90 then n + 32 else if n = 94 then 126 else n) \<longleftrightarrow>
         (if 97 \<le> m \<and> m \<le> 122 then m - 32 else if m = 126 then 94 else m) =
         (if 97 \<le> n \<and> n \<le> 122 then n - 32 else if n = 126 then 94 else n)"
  by (auto split: if_splits)

lemma ToLower_eq_iff_ToUpper_eq: "ToLower a = ToLower b \<longleftrightarrow> ToUpper a = ToUpper b"
proof -
  have "byte (ToLower a) = byte (ToLower b) \<longleftrightarrow> byte (ToUpper a) = byte (ToUpper b)"
    unfolding byte_ToLower byte_ToUpper by (rule case_tabs_agree)
  then show ?thesis by simp
qed

lemma ToUpper_eq_NUL [simp]: "ToUpper c = NUL \<longleftrightarrow> c = NUL"
proof -
  have "byte (ToUpper c) = byte NUL \<longleftrightarrow> byte c = byte NUL"
    using byte_ToUpper [of c] by (auto split: if_splits)
  then show ?thesis by (simp only: of_char_eq_iff)
qed

lemma ToLower_eq_NUL [simp]: "ToLower c = NUL \<longleftrightarrow> c = NUL"
proof -
  have "byte (ToLower c) = byte NUL \<longleftrightarrow> byte c = byte NUL"
    using byte_ToLower [of c] by (auto split: if_splits)
  then show ?thesis by (simp only: of_char_eq_iff)
qed

lemma case_maps_NUL [simp]: "ToUpper NUL = NUL" "ToLower NUL = NUL"
  by simp_all

text \<open>The case maps on the bits of a byte: code equations that make evaluation cheap.\<close>

lemma ToLower_Char [code]:
  "ToLower (Char b0 b1 b2 b3 b4 b5 b6 b7) =
     (if \<not> b7 \<and> b6 \<and> \<not> b5 \<and> (b0 \<or> b1 \<or> b2 \<or> b3 \<or> b4) \<and>
         \<not> (b4 \<and> b3 \<and> (b0 \<and> b1 \<or> b2 \<and> \<not> b1))
      then Char b0 b1 b2 b3 b4 True b6 b7 else Char b0 b1 b2 b3 b4 b5 b6 b7)"
  by (rule of_char_eqI [where ?'a = nat], subst byte_ToLower)
    (cases b0; cases b1; cases b2; cases b3; cases b4; cases b5; cases b6; cases b7; simp)

lemma ToUpper_Char [code]:
  "ToUpper (Char b0 b1 b2 b3 b4 b5 b6 b7) =
     (if \<not> b7 \<and> b6 \<and> b5 \<and> (b0 \<or> b1 \<or> b2 \<or> b3 \<or> b4) \<and>
         \<not> (b4 \<and> b3 \<and> (b0 \<and> b1 \<or> b2 \<and> \<not> b1))
      then Char b0 b1 b2 b3 b4 False b6 b7 else Char b0 b1 b2 b3 b4 b5 b6 b7)"
  by (rule of_char_eqI [where ?'a = nat], subst byte_ToUpper)
    (cases b0; cases b1; cases b2; cases b3; cases b4; cases b5; cases b6; cases b7; simp)

subsection \<open>Character attributes\<close>

datatype char_attr =
    PRINT_C | CNTRL_C | ALPHA_C | PUNCT_C | DIGIT_C | SPACE_C | NICK_C | CHAN_C
  | KWILD_C | CHANPFX_C | USER_C | HOST_C | NONEOS_C | SERV_C | EOL_C

text \<open>
  The rows of \<open>CharAttrs[]\<close>: a row is the list of the attribute bits set in it. Runs of
  equal rows (digits, letters, bytes from 0x80 on) are written with \<open>replicate\<close>.
\<close>

definition CharAttrs_control :: "char_attr list list" where
  "CharAttrs_control =
     [CNTRL_C] # replicate 8 [CNTRL_C, NONEOS_C]
     @ [[CNTRL_C, SPACE_C, NONEOS_C],
        [CNTRL_C, SPACE_C, NONEOS_C, EOL_C],
        [CNTRL_C, SPACE_C, NONEOS_C],
        [CNTRL_C, SPACE_C, NONEOS_C],
        [CNTRL_C, SPACE_C, NONEOS_C, EOL_C]]
     @ replicate 18 [CNTRL_C, NONEOS_C]"

definition CharAttrs_punct :: "char_attr list list" where
  "CharAttrs_punct =
    [[PRINT_C, SPACE_C],                                                 \<comment> \<open>space\<close>
     [PRINT_C, KWILD_C, CHAN_C, NONEOS_C],                               \<comment> \<open>!\<close>
     [PRINT_C, CHAN_C, NONEOS_C],                                        \<comment> \<open>double quote\<close>
     [PRINT_C, CHANPFX_C, CHAN_C, NONEOS_C],                             \<comment> \<open>#\<close>
     [PRINT_C, CHAN_C, NONEOS_C, USER_C],                                \<comment> \<open>$\<close>
     [PRINT_C, CHAN_C, NONEOS_C],                                        \<comment> \<open>%\<close>
     [PRINT_C, CHANPFX_C, CHAN_C, NONEOS_C],                             \<comment> \<open>&\<close>
     [PRINT_C, CHAN_C, NONEOS_C],                                        \<comment> \<open>quote\<close>
     [PRINT_C, CHAN_C, NONEOS_C],                                        \<comment> \<open>(\<close>
     [PRINT_C, CHAN_C, NONEOS_C],                                        \<comment> \<open>)\<close>
     [PRINT_C, KWILD_C, CHAN_C, NONEOS_C, SERV_C],                       \<comment> \<open>*\<close>
     [PRINT_C, CHAN_C, NONEOS_C],                                        \<comment> \<open>+\<close>
     [PRINT_C, NONEOS_C],                                                \<comment> \<open>,\<close>
     [PRINT_C, NICK_C, CHAN_C, NONEOS_C, USER_C, HOST_C],                \<comment> \<open>-\<close>
     [PRINT_C, KWILD_C, CHAN_C, NONEOS_C, USER_C, HOST_C, SERV_C],       \<comment> \<open>.\<close>
     [PRINT_C, CHAN_C, NONEOS_C]]                                        \<comment> \<open>/\<close>"

definition CharAttrs_digits :: "char_attr list list" where
  "CharAttrs_digits =
     replicate 10 [PRINT_C, DIGIT_C, NICK_C, CHAN_C, NONEOS_C, USER_C, HOST_C]
     @ [[PRINT_C, CHAN_C, NONEOS_C, HOST_C],                             \<comment> \<open>:\<close>
        [PRINT_C, CHAN_C, NONEOS_C],                                     \<comment> \<open>;\<close>
        [PRINT_C, CHAN_C, NONEOS_C],                                     \<comment> \<open><\<close>
        [PRINT_C, CHAN_C, NONEOS_C],                                     \<comment> \<open>=\<close>
        [PRINT_C, CHAN_C, NONEOS_C],                                     \<comment> \<open>>\<close>
        [PRINT_C, KWILD_C, CHAN_C, NONEOS_C],                            \<comment> \<open>?\<close>
        [PRINT_C, KWILD_C, CHAN_C, NONEOS_C]]                            \<comment> \<open>@\<close>"

definition CharAttrs_letters :: "char_attr list list" where
  "CharAttrs_letters =
     replicate 26 [PRINT_C, ALPHA_C, NICK_C, CHAN_C, NONEOS_C, USER_C, HOST_C]
     @ [[PRINT_C, ALPHA_C, NICK_C, CHAN_C, NONEOS_C, USER_C],            \<comment> \<open>[\<close>
        [PRINT_C, ALPHA_C, NONEOS_C],                                    \<comment> \<open>backslash\<close>
        [PRINT_C, ALPHA_C, NICK_C, CHAN_C, NONEOS_C, USER_C],            \<comment> \<open>]\<close>
        [PRINT_C, ALPHA_C, NICK_C, CHAN_C, NONEOS_C, USER_C],            \<comment> \<open>^\<close>
        [PRINT_C, NICK_C, CHAN_C, NONEOS_C, USER_C],                     \<comment> \<open>underscore\<close>
        [PRINT_C, NICK_C, CHAN_C, NONEOS_C, USER_C]]                     \<comment> \<open>backquote\<close>
     @ replicate 26 [PRINT_C, ALPHA_C, NICK_C, CHAN_C, NONEOS_C, USER_C, HOST_C]
     @ [[PRINT_C, ALPHA_C, NICK_C, CHAN_C, NONEOS_C, USER_C],            \<comment> \<open>opening brace\<close>
        [PRINT_C, ALPHA_C, NICK_C, CHAN_C, NONEOS_C, USER_C],            \<comment> \<open>bar\<close>
        [PRINT_C, ALPHA_C, NICK_C, CHAN_C, NONEOS_C, USER_C],            \<comment> \<open>closing brace\<close>
        [PRINT_C, ALPHA_C, CHAN_C, NONEOS_C, USER_C],                    \<comment> \<open>tilde\<close>
        [CHAN_C, NONEOS_C]]                                              \<comment> \<open>del\<close>"

definition CharAttrs_high_80_DF :: "char_attr list list" where
  "CharAttrs_high_80_DF = replicate 32 [CHAN_C, NONEOS_C] @ [[NONEOS_C]] @ replicate 63 [CHAN_C, NONEOS_C]"

definition CharAttrs_high_E0_FA :: "char_attr list list" where
  "CharAttrs_high_E0_FA = replicate 27 [CHAN_C, NONEOS_C]"

definition CharAttrs_high_FB_FF :: "char_attr list list" where
  "CharAttrs_high_FB_FF = replicate 4 [CHAN_C, NONEOS_C] @ [[NONEOS_C]]"

definition CharAttrs :: "char_attr list list" where
  "CharAttrs = CharAttrs_control @ CharAttrs_punct @ CharAttrs_digits @ CharAttrs_letters
     @ CharAttrs_high_80_DF @ CharAttrs_high_E0_FA @ CharAttrs_high_FB_FF"

lemmas CharAttrs_defs = CharAttrs_def CharAttrs_control_def CharAttrs_punct_def CharAttrs_digits_def
  CharAttrs_letters_def CharAttrs_high_80_DF_def CharAttrs_high_E0_FA_def CharAttrs_high_FB_FF_def

lemma length_CharAttrs [simp]: "length CharAttrs = 256"
  by (simp add: CharAttrs_defs)

definition has_attr :: "char_attr \<Rightarrow> char \<Rightarrow> bool" where
  "has_attr a c \<longleftrightarrow> a \<in> set (CharAttrs ! byte c)"

definition "IsChanPrefix c \<longleftrightarrow> has_attr CHANPFX_C c"
definition "IsHostChar c \<longleftrightarrow> has_attr HOST_C c"
definition "IsUserChar c \<longleftrightarrow> has_attr USER_C c"
definition "IsChanChar c \<longleftrightarrow> has_attr CHAN_C c"
definition "IsKWildChar c \<longleftrightarrow> has_attr KWILD_C c"
definition "IsNickChar c \<longleftrightarrow> has_attr NICK_C c"
definition "IsServChar c \<longleftrightarrow> has_attr NICK_C c \<or> has_attr SERV_C c"
definition "IsCntrl c \<longleftrightarrow> has_attr CNTRL_C c"
definition "IsAlpha c \<longleftrightarrow> has_attr ALPHA_C c"
definition "IsSpace c \<longleftrightarrow> has_attr SPACE_C c"
definition "IsDigit c \<longleftrightarrow> has_attr DIGIT_C c"
definition "IsNonEOS c \<longleftrightarrow> has_attr NONEOS_C c"
definition "IsEol c \<longleftrightarrow> has_attr EOL_C c"

text \<open>A table column, as the list of its 256 truth values, gives the class as a range.\<close>

lemma has_attr_by_column:
  assumes "map (\<lambda>r. a \<in> set r) CharAttrs = map P [0..<256]"
  shows "has_attr a c \<longleftrightarrow> P (byte c)"
proof -
  have "map (\<lambda>r. a \<in> set r) CharAttrs ! byte c = map P [0..<256] ! byte c"
    by (simp only: assms)
  then show ?thesis by (simp add: has_attr_def)
qed

lemma IsSpace_iff [irc_char]: "IsSpace c \<longleftrightarrow> 9 \<le> byte c \<and> byte c \<le> 13 \<or> byte c = 32"
  unfolding IsSpace_def
  by (rule has_attr_by_column) code_simp

lemma IsDigit_iff [irc_char]: "IsDigit c \<longleftrightarrow> 48 \<le> byte c \<and> byte c \<le> 57"
  unfolding IsDigit_def
  by (rule has_attr_by_column) code_simp

lemma IsEol_iff [irc_char]: "IsEol c \<longleftrightarrow> byte c = 10 \<or> byte c = 13"
  unfolding IsEol_def
  by (rule has_attr_by_column) code_simp

lemma IsNonEOS_iff [irc_char]: "IsNonEOS c \<longleftrightarrow> byte c \<noteq> 0 \<and> byte c \<noteq> 32"
  unfolding IsNonEOS_def
  by (rule has_attr_by_column) code_simp

lemma IsChanChar_iff [irc_char]:
  "IsChanChar c \<longleftrightarrow> 32 < byte c \<and> byte c \<notin> {44, 92, 160, 255}"
  unfolding IsChanChar_def
  by (rule has_attr_by_column) code_simp

lemma IsChanPrefix_iff [irc_char]: "IsChanPrefix c \<longleftrightarrow> byte c = 35 \<or> byte c = 38"
  unfolding IsChanPrefix_def
  by (rule has_attr_by_column) code_simp

lemma IsNickChar_iff [irc_char]:
  "IsNickChar c \<longleftrightarrow> byte c = 45 \<or> 48 \<le> byte c \<and> byte c \<le> 57
     \<or> 65 \<le> byte c \<and> byte c \<le> 125 \<and> byte c \<noteq> 92"
  unfolding IsNickChar_def
  by (rule has_attr_by_column) code_simp

end
