(* ===== verification/IrcMatch.thy ===== *)
theory IrcMatch
  imports IrcChar
begin

text \<open>
  String comparison and wildcard matching, \<open>src/match.c\<close>: \<open>irccmp\<close>, \<open>ircncmp\<close>,
  \<open>collapse\<close> and the iterative \<open>match\<close> with its cap of 512 rounds, every pointer read
  bounds-checked. The specification of \<open>match\<close> is the recursive predicate \<open>glob\<close>.
\<close>

subsection \<open>Case-insensitive comparison\<close>

function irccmp :: "string \<Rightarrow> string \<Rightarrow> int" where
  "irccmp s1 s2 =
     (let res = int (byte (ToUpper (hd0 s1))) - int (byte (ToUpper (hd0 s2)))
      in if res \<noteq> 0 then res
         else if hd0 s1 = NUL then 0
         else irccmp (tl s1) (tl s2))"
  by pat_completeness auto
termination
  by (relation "measure (\<lambda>(s1, s2). length s1)") (auto dest: hd0_eq_NUL_Nil)

declare irccmp.simps [simp del]

abbreviation irc_eq :: "string \<Rightarrow> string \<Rightarrow> bool" where
  "irc_eq s t \<equiv> irccmp s t = 0"

definition irc_upper :: "string \<Rightarrow> cstr" where
  "irc_upper s = map ToUpper (cut s)"

lemma irc_upper_unfold:
  "irc_upper s = (if hd0 s = NUL then [] else ToUpper (hd0 s) # irc_upper (tl s))"
  unfolding irc_upper_def by (subst cut_unfold) simp

lemma irc_eq_iff: "irc_eq s t \<longleftrightarrow> irc_upper s = irc_upper t"
proof (induction s t rule: irccmp.induct)
  case (1 s t)
  have res: "int (byte (ToUpper (hd0 s))) - int (byte (ToUpper (hd0 t))) = 0 \<longleftrightarrow>
      ToUpper (hd0 s) = ToUpper (hd0 t)"
    by simp
  show ?case
  proof (cases "ToUpper (hd0 s) = ToUpper (hd0 t)")
    case True
    then have "hd0 s = NUL \<longleftrightarrow> hd0 t = NUL" by (metis ToUpper_eq_NUL)
    with True 1 show ?thesis
      by (simp add: irccmp.simps [of s t] irc_upper_unfold [of s] irc_upper_unfold [of t])
  next
    case False
    then have "irccmp s t \<noteq> 0" by (simp add: irccmp.simps [of s t])
    moreover from False have "irc_upper s \<noteq> irc_upper t"
      by (subst irc_upper_unfold, subst (2) irc_upper_unfold) auto
    ultimately show ?thesis by simp
  qed
qed

lemma irc_eq_refl [simp]: "irccmp s s = 0"
  by (simp add: irc_eq_iff)

lemma irc_eq_sym: "irc_eq s t \<Longrightarrow> irc_eq t s"
  by (simp add: irc_eq_iff)

lemma irc_eq_trans: "irc_eq s t \<Longrightarrow> irc_eq t u \<Longrightarrow> irc_eq s u"
  by (simp add: irc_eq_iff)


text \<open>
  The sign of the result is the lexicographic order of the upper-cased strings, byte by byte.
\<close>

lemma irccmp_less_iff: "irccmp s t < 0 \<longleftrightarrow> ord_class.lexordp (irc_upper s) (irc_upper t)"
proof (induction s t rule: irccmp.induct)
  case (1 s t)
  let ?a = "ToUpper (hd0 s)" and ?b = "ToUpper (hd0 t)"
  show ?case
  proof (cases "?a = ?b")
    case True
    then have "hd0 s = NUL \<longleftrightarrow> hd0 t = NUL" by (metis ToUpper_eq_NUL)
    with True 1 show ?thesis
      by (simp add: irccmp.simps [of s t] irc_upper_unfold [of s] irc_upper_unfold [of t])
  next
    case False
    then have "irccmp s t < 0 \<longleftrightarrow> ?a < ?b"
      by (simp add: irccmp.simps [of s t] less_char_def)
    with False show ?thesis
      by (auto simp: irc_upper_unfold [of s] irc_upper_unfold [of t] less_char_def)
  qed
qed

text \<open>
  \<open>ircncmp\<close> moves both pointers before it looks at the terminators; both offsets are equal
  throughout, so the loop is over the common offset \<open>i\<close>.
\<close>

function ircncmp_from :: "nat \<Rightarrow> cstr \<Rightarrow> cstr \<Rightarrow> int \<Rightarrow> ub + int" where
  "ircncmp_from i s1 s2 n =
     rd s1 i (\<lambda>c1. rd s2 i (\<lambda>c2.
       let res = int (byte (ToUpper c1)) - int (byte (ToUpper c2)) in
       if res \<noteq> 0 then Inr res
       else if n - 1 = 0 then Inr 0
       else if i < length s1 then
         rd s1 (Suc i) (\<lambda>d1. rd s2 (Suc i) (\<lambda>d2.
           if d1 = NUL \<and> d2 = NUL then Inr 0 else ircncmp_from (Suc i) s1 s2 (n - 1)))
       else Inl OutOfBounds))"
  by pat_completeness auto
termination
  by (relation "measure (\<lambda>(i, s1, s2, n). length s1 - i)") auto

declare ircncmp_from.simps [simp del]

definition ircncmp :: "string \<Rightarrow> string \<Rightarrow> int \<Rightarrow> ub + int" where
  "ircncmp s1 s2 n = ircncmp_from 0 (cut s1) (cut s2) n"

subsection \<open>The specification of wildcard matching\<close>

fun glob :: "cstr \<Rightarrow> cstr \<Rightarrow> bool" where
  "glob [] ns = (ns = [])"
| "glob (c # ms) [] = (c = CHR ''*'' \<and> glob ms [])"
| "glob (c # ms) (d # ns) =
     (if c = CHR ''*'' then glob ms (d # ns) \<or> glob (c # ms) ns
      else (c = CHR ''?'' \<or> ToLower c = ToLower d) \<and> glob ms ns)"

definition ceq :: "char \<Rightarrow> char \<Rightarrow> bool" where
  "ceq c d \<longleftrightarrow> c \<noteq> CHR ''*'' \<and> (c = CHR ''?'' \<or> ToLower c = ToLower d)"

lemma glob_ceq: "c \<noteq> CHR ''*'' \<Longrightarrow> glob (c # ms) (d # ns) \<longleftrightarrow> ceq c d \<and> glob ms ns"
  by (simp add: ceq_def)

lemma glob_star_drop:
  "glob (CHR ''*'' # r) ns \<longleftrightarrow> (\<exists>k\<le>length ns. glob r (drop k ns))"
proof (induction ns)
  case Nil
  then show ?case by simp
next
  case (Cons d ns)
  have "(\<exists>k\<le>length (d # ns). glob r (drop k (d # ns))) \<longleftrightarrow>
      glob r (d # ns) \<or> (\<exists>k\<le>length ns. glob r (drop k ns))"
    by (metis drop_0 drop_Suc_Cons le0 length_Cons not0_implies_Suc Suc_le_mono)
  with Cons show ?case by simp
qed

lemma glob_star_star: "glob (CHR ''*'' # CHR ''*'' # r) ns \<longleftrightarrow> glob (CHR ''*'' # r) ns"
  by (induction ns) auto

lemma glob_stars_drop:
  assumes "0 < j"
  shows "glob (replicate j (CHR ''*'') @ r) ns \<longleftrightarrow> (\<exists>k\<le>length ns. glob r (drop k ns))"
proof -
  have one: "glob (replicate (Suc i) (CHR ''*'') @ r) ns \<longleftrightarrow> glob (CHR ''*'' # r) ns" for i
  proof (induction i)
    case (Suc i)
    have "replicate (Suc (Suc i)) (CHR ''*'') @ r = CHR ''*'' # CHR ''*'' # (replicate i (CHR ''*'') @ r)"
      by simp
    with Suc show ?case by (metis append_Cons glob_star_star replicate_Suc)
  qed (simp only: replicate_Suc replicate_0 append_Cons append_Nil)
  obtain i where "j = Suc i" using assms by (cases j) auto
  then show ?thesis by (simp only: one glob_star_drop)
qed

text \<open>Collapsing runs of stars does not change what a mask matches.\<close>

lemma length_dropWhile_less_Suc [termination_simp]: "length (dropWhile P xs) < Suc (length xs)"
  by (simp add: length_dropWhile_le less_Suc_eq_le)

fun collapse :: "cstr \<Rightarrow> cstr" where
  "collapse [] = []"
| "collapse (c # cs) =
     (if c = CHR ''*'' then c # collapse (dropWhile (\<lambda>d. d = CHR ''*'') cs)
      else c # collapse cs)"

lemma glob_dropWhile_stars:
  "glob (CHR ''*'' # dropWhile (\<lambda>d. d = CHR ''*'') ms) ns \<longleftrightarrow> glob (CHR ''*'' # ms) ns"
proof -
  let ?P = "\<lambda>d. d = CHR ''*''"
  let ?j = "length (takeWhile ?P ms)" and ?r = "dropWhile ?P ms"
  have "replicate ?j (CHR ''*'') = takeWhile ?P ms"
    by (rule replicate_length_same) (auto dest: set_takeWhileD)
  then have split: "ms = replicate ?j (CHR ''*'') @ ?r"
    by (simp only: takeWhile_dropWhile_id)
  have "CHR ''*'' # ms = replicate (Suc ?j) (CHR ''*'') @ ?r"
    using arg_cong [OF split, of "(#) (CHR ''*'')"] by (simp only: replicate_Suc append_Cons)
  then have "glob (CHR ''*'' # ms) ns \<longleftrightarrow> glob (replicate (Suc ?j) (CHR ''*'') @ ?r) ns"
    by (rule arg_cong [where f = "\<lambda>m. glob m ns"])
  also have "\<dots> \<longleftrightarrow> glob (CHR ''*'' # ?r) ns"
    by (subst glob_stars_drop) (simp_all only: glob_star_drop zero_less_Suc)
  finally show ?thesis by simp
qed

lemma glob_Cons_cong:
  assumes "\<And>ks. glob ms ks = glob ms' ks"
  shows "glob (c # ms) ns = glob (c # ms') ns"
  by (induction ns) (auto simp: assms)

lemma glob_collapse: "glob (collapse ms) ns \<longleftrightarrow> glob ms ns"
proof (induction ms arbitrary: ns rule: collapse.induct)
  case (2 c cs)
  show ?case
  proof (cases "c = CHR ''*''")
    case True
    have "glob (c # collapse (dropWhile (\<lambda>d. d = CHR ''*'') cs)) ns \<longleftrightarrow>
        glob (c # dropWhile (\<lambda>d. d = CHR ''*'') cs) ns"
      by (rule glob_Cons_cong) (rule "2.IH"(1) [OF True])
    with True show ?thesis by (simp add: glob_dropWhile_stars del: glob.simps)
  next
    case False
    have "glob (c # collapse cs) ns \<longleftrightarrow> glob (c # cs) ns"
      by (rule glob_Cons_cong) (rule "2.IH"(2) [OF False])
    with False show ?thesis by (simp del: glob.simps)
  qed
qed simp

text \<open>A collapsed mask has no two adjacent stars, and collapsing it again changes nothing.\<close>

fun no_double_star :: "cstr \<Rightarrow> bool" where
  "no_double_star (c # d # cs) =
     (\<not> (c = CHR ''*'' \<and> d = CHR ''*'') \<and> no_double_star (d # cs))"
| "no_double_star _ = True"

lemma hd_collapse: "collapse ms = d # ds \<Longrightarrow> \<exists>es. ms = d # es"
  by (cases ms) (auto split: if_splits)

lemma no_double_star_Cons:
  "no_double_star (c # cs) \<longleftrightarrow>
     no_double_star cs \<and> (c = CHR ''*'' \<longrightarrow> (\<forall>d ds. cs = d # ds \<longrightarrow> d \<noteq> CHR ''*''))"
  by (cases cs) auto

lemma no_double_star_collapse: "no_double_star (collapse ms)"
proof (induction ms rule: collapse.induct)
  case (2 c cs)
  show ?case
  proof (cases "c = CHR ''*''")
    case True
    have "d \<noteq> CHR ''*''" if "collapse (dropWhile (\<lambda>d. d = CHR ''*'') cs) = d # ds" for d ds
      using hd_collapse [OF that] by (metis (mono_tags) dropWhile_eq_Cons_conv)
    moreover note "2.IH"(1) [OF True]
    moreover have "collapse (c # cs) = c # collapse (dropWhile (\<lambda>d. d = CHR ''*'') cs)"
      using True by simp
    ultimately show ?thesis by (simp only: no_double_star_Cons) blast
  next
    case False
    then have "collapse (c # cs) = c # collapse cs" by simp
    with "2.IH"(2) [OF False] False show ?thesis by (simp only: no_double_star_Cons) blast
  qed
qed simp

lemma collapse_id: "no_double_star ms \<Longrightarrow> collapse ms = ms"
proof (induction ms rule: collapse.induct)
  case (2 c cs)
  show ?case
  proof (cases "c = CHR ''*''")
    case True
    with "2.prems" have "dropWhile (\<lambda>d. d = CHR ''*'') cs = cs"
      by (cases cs) auto
    moreover from "2.prems" have "no_double_star cs"
      by (simp only: no_double_star_Cons)
    ultimately show ?thesis using "2.IH"(1) [OF True] True by simp
  next
    case False
    from "2.prems" have "no_double_star cs" by (simp only: no_double_star_Cons)
    with "2.IH"(2) [OF False] False show ?thesis by simp
  qed
qed simp


subsection \<open>The iterative matcher\<close>

text \<open>
  The four pointers of \<open>match\<close> as offsets: \<open>mp\<close>, \<open>np\<close> are \<open>m\<close>, \<open>n\<close>; \<open>mar\<close>, \<open>nar\<close>
  are the restart points \<open>ma\<close>, \<open>na\<close>. Every dereference goes through \<open>rd\<close>.
\<close>

record match_state =
  mp :: nat
  np :: nat
  mar :: nat
  nar :: nat
  wild :: bool

datatype match_ctl = Return bool | Continue match_state

definition MATCH_MAX_CALLS :: nat where
  "MATCH_MAX_CALLS = 512"

text \<open>\<open>while (*m == '*') m++;\<close>\<close>

function skip_stars :: "cstr \<Rightarrow> nat \<Rightarrow> ub + nat" where
  "skip_stars msk m =
     (if length msk < m then Inl OutOfBounds
      else if at msk m = CHR ''*'' then skip_stars msk (Suc m) else Inr m)"
  by pat_completeness auto
termination
  by (relation "measure (\<lambda>(msk, m). Suc (length msk) - m)") auto

declare skip_stars.simps [simp del]

text \<open>
  \<open>for (m--; (m > mask) && (*m == '?'); m--);\<close> followed by the read \<open>*m\<close>. The pointer
  \<open>mask - 1\<close> that an empty mask leads to is not an offset: the read behind it is out of bounds.
\<close>

fun back_over_quests :: "cstr \<Rightarrow> nat \<Rightarrow> nat" where
  "back_over_quests msk 0 = 0"
| "back_over_quests msk (Suc p) =
     (if at msk (Suc p) = CHR ''?'' then back_over_quests msk p else Suc p)"

definition scan_back :: "cstr \<Rightarrow> nat \<Rightarrow> ub + nat" where
  "scan_back msk m = (case m of 0 \<Rightarrow> Inl OutOfBounds | Suc p \<Rightarrow> Inr (back_over_quests msk p))"

definition restart :: "match_state \<Rightarrow> match_state" where
  "restart st = st\<lparr>mp := mar st, nar := Suc (nar st), np := Suc (nar st)\<rparr>"

text \<open>The three parts of the loop body, in order.\<close>

definition match_star :: "cstr \<Rightarrow> match_state \<Rightarrow> ub + match_state" where
  "match_star msk st =
     rd msk (mp st) (\<lambda>c.
       if c = CHR ''*'' then
         bind_ub (skip_stars msk (mp st)) (\<lambda>m'.
           Inr (st\<lparr>mp := m', wild := True, mar := m', nar := np st\<rparr>))
       else Inr st)"

definition match_ends :: "cstr \<Rightarrow> cstr \<Rightarrow> match_state \<Rightarrow> ub + match_ctl" where
  "match_ends msk name st =
     rd msk (mp st) (\<lambda>c. rd name (np st) (\<lambda>d.
       if c = NUL then
         (if d = NUL then Inr (Return True)
          else bind_ub (scan_back msk (mp st)) (\<lambda>p.
            if at msk p = CHR ''*'' \<and> 0 < p then Inr (Return True)
            else if \<not> wild st then Inr (Return False)
            else Inr (Continue (restart st))))
       else if d = NUL then
         bind_ub (skip_stars msk (mp st)) (\<lambda>m'. Inr (Return (at msk m' = NUL)))
       else Inr (Continue st)))"

definition match_advance :: "cstr \<Rightarrow> cstr \<Rightarrow> match_state \<Rightarrow> ub + match_ctl" where
  "match_advance msk name st =
     rd msk (mp st) (\<lambda>c. rd name (np st) (\<lambda>d.
       if ToLower c \<noteq> ToLower d \<and> c \<noteq> CHR ''?'' then
         (if \<not> wild st then Inr (Return False) else Inr (Continue (restart st)))
       else Inr (Continue (st\<lparr>mp := (if c \<noteq> NUL then Suc (mp st) else mp st),
                              np := (if d \<noteq> NUL then Suc (np st) else np st)\<rparr>))))"

definition match_body :: "cstr \<Rightarrow> cstr \<Rightarrow> match_state \<Rightarrow> ub + match_ctl" where
  "match_body msk name st =
     bind_ub (match_star msk st) (\<lambda>st1.
       bind_ub (match_ends msk name st1) (\<lambda>r.
         case r of Return b \<Rightarrow> Inr (Return b) | Continue st2 \<Rightarrow> match_advance msk name st2))"

fun match_loop :: "nat \<Rightarrow> cstr \<Rightarrow> cstr \<Rightarrow> match_state \<Rightarrow> ub + bool" where
  "match_loop 0 msk name st = Inr False"
| "match_loop (Suc calls) msk name st =
     bind_ub (match_body msk name st) (\<lambda>r.
       case r of Return b \<Rightarrow> Inr b | Continue st' \<Rightarrow> match_loop calls msk name st')"

definition match_init :: match_state where
  "match_init = \<lparr>mp = 0, np = 0, mar = 0, nar = 0, wild = False\<rparr>"

definition match_run :: "string \<Rightarrow> string \<Rightarrow> ub + bool" where
  "match_run msk name = match_loop MATCH_MAX_CALLS (cut msk) (cut name) match_init"

text \<open>The answer the callers see: the byte before an empty mask does not influence it.\<close>

definition match :: "string \<Rightarrow> string \<Rightarrow> bool" where
  "match msk name \<longleftrightarrow> match_run msk name = Inr True"

subsection \<open>The matcher implements \<open>glob\<close>\<close>

lemma skip_stars_ok:
  assumes "NUL \<notin> set M" "m \<le> length M"
  shows "\<exists>j. skip_stars M m = Inr (m + j) \<and> m + j \<le> length M \<and> at M (m + j) \<noteq> CHR ''*''
     \<and> drop m M = replicate j (CHR ''*'') @ drop (m + j) M"
  using assms(2)
proof (induction "length M - m" arbitrary: m)
  case 0
  then show ?case
    by (intro exI [of _ 0]) (auto simp: skip_stars.simps [of M m] at_def)
next
  case (Suc k)
  show ?case
  proof (cases "at M m = CHR ''*''")
    case True
    from Suc obtain j where j: "skip_stars M (Suc m) = Inr (Suc m + j)" "Suc m + j \<le> length M"
      "at M (Suc m + j) \<noteq> CHR ''*''" "drop (Suc m) M = replicate j (CHR ''*'') @ drop (Suc m + j) M"
      using Suc.hyps(1) [of "Suc m"] Suc.hyps(2) by force
    from True Suc have "drop m M = CHR ''*'' # drop (Suc m) M"
      by (simp add: drop_at)
    with j True Suc.prems show ?thesis
      by (intro exI [of _ "Suc j"]) (simp add: skip_stars.simps [of M m])
  next
    case False
    with Suc.prems show ?thesis
      by (intro exI [of _ 0]) (simp add: skip_stars.simps [of M m])
  qed
qed

lemma back_over_quests_le: "back_over_quests M p \<le> p"
  by (induction p) (auto intro: le_SucI)

lemma back_over_quests_between:
  "back_over_quests M p < i \<Longrightarrow> i \<le> p \<Longrightarrow> at M i = CHR ''?''"
  by (induction p) (auto split: if_splits simp: le_Suc_eq)

lemma back_over_quests_stop:
  "back_over_quests M p = 0 \<or> at M (back_over_quests M p) \<noteq> CHR ''?''"
  by (induction p) auto

text \<open>
  \<open>matched M N ma na k\<close>: from the restart points on, \<open>k\<close> bytes of the mask, none of them a
  star, have matched \<open>k\<close> bytes of the name.
\<close>

definition matched :: "cstr \<Rightarrow> cstr \<Rightarrow> nat \<Rightarrow> nat \<Rightarrow> nat \<Rightarrow> bool" where
  "matched M N ma na k \<longleftrightarrow> ma + k \<le> length M \<and> na + k \<le> length N \<and>
     (\<forall>i<k. ceq (M ! (ma + i)) (N ! (na + i)))"

lemma matched_0 [simp]: "matched M N ma na 0 \<longleftrightarrow> ma \<le> length M \<and> na \<le> length N"
  by (simp add: matched_def)

lemma matched_Suc:
  "matched M N ma na (Suc k) \<longleftrightarrow> matched M N ma na k \<and> ma + k < length M \<and> na + k < length N
     \<and> ceq (M ! (ma + k)) (N ! (na + k))"
  by (auto simp: matched_def less_Suc_eq)

lemma glob_drop_step:
  assumes "i < length M" "j < length N" "M ! i \<noteq> CHR ''*''"
  shows "glob (drop i M) (drop j N) \<longleftrightarrow> ceq (M ! i) (N ! j) \<and> glob (drop (Suc i) M) (drop (Suc j) N)"
  using assms by (simp add: drop_at glob_ceq del: glob.simps)

lemma glob_matched:
  "matched M N ma na k \<Longrightarrow>
     glob (drop ma M) (drop na N) \<longleftrightarrow> glob (drop (ma + k) M) (drop (na + k) N)"
proof (induction k)
  case (Suc k)
  then have "M ! (ma + k) \<noteq> CHR ''*''" by (simp add: matched_Suc ceq_def)
  with Suc glob_drop_step [of "ma + k" M "na + k" N] show ?case
    by (simp add: matched_Suc)
qed simp

lemma glob_seg_forces:
  assumes seg: "\<And>i. i < k \<Longrightarrow> M ! (ma + i) \<noteq> CHR ''*''" and "ma + k \<le> length M" "na \<le> length N"
    and "glob (drop ma M) (drop na N)"
  shows "na + k \<le> length N \<and> glob (drop (ma + k) M) (drop (na + k) N)"
  using assms
proof (induction k)
  case (Suc k)
  then have IH: "na + k \<le> length N" "glob (drop (ma + k) M) (drop (na + k) N)" by auto
  from Suc have ma: "ma + k < length M" "M ! (ma + k) \<noteq> CHR ''*''" by auto
  have "na + k < length N"
  proof (rule ccontr)
    assume "\<not> na + k < length N"
    with IH ma show False by (simp add: drop_at)
  qed
  with IH ma show ?case by (simp add: glob_drop_step)
qed simp

lemma matched_nostar: "matched M N ma na k \<Longrightarrow> i < k \<Longrightarrow> M ! (ma + i) \<noteq> CHR ''*''"
  by (simp add: matched_def ceq_def)

text \<open>\<open>from_on r N a\<close>: the rest \<open>r\<close> of the mask matches the name from some offset \<open>\<ge> a\<close> on.\<close>

definition from_on :: "cstr \<Rightarrow> cstr \<Rightarrow> nat \<Rightarrow> bool" where
  "from_on r N a \<longleftrightarrow> (\<exists>k\<ge>a. k \<le> length N \<and> glob r (drop k N))"

lemma from_on_step: "a \<le> length N \<Longrightarrow> from_on r N a \<longleftrightarrow> glob r (drop a N) \<or> from_on r N (Suc a)"
  unfolding from_on_def by (metis Suc_leD le_antisym not_less_eq_eq)

lemma from_on_star: "a \<le> length N \<Longrightarrow> glob (CHR ''*'' # r) (drop a N) \<longleftrightarrow> from_on r N a"
  unfolding glob_star_drop from_on_def
  by (auto simp: add.commute) (metis add.commute add_le_imp_le_diff le_add1 le_add_diff_inverse2 Nat.le_diff_conv2,
      metis add.commute diff_le_mono le_add_diff_inverse2)

definition match_inv :: "cstr \<Rightarrow> cstr \<Rightarrow> match_state \<Rightarrow> bool" where
  "match_inv M N st \<longleftrightarrow> mar st \<le> mp st \<and> np st = nar st + (mp st - mar st) \<and>
     matched M N (mar st) (nar st) (mp st - mar st) \<and>
     (if wild st then 0 < mar st \<and> M ! (mar st - 1) = CHR ''*'' \<and> at M (mar st) \<noteq> CHR ''*'' \<and>
        (glob M N \<longleftrightarrow> from_on (drop (mar st) M) N (nar st))
      else mar st = 0 \<and> nar st = 0)"

definition match_measure :: "cstr \<Rightarrow> cstr \<Rightarrow> match_state \<Rightarrow> nat" where
  "match_measure M N st = (length N - nar st) * Suc (length M) + (length M - mp st)"

lemma match_inv_bounds:
  assumes "match_inv M N st"
  shows "mp st \<le> length M" "np st \<le> length N" "nar st \<le> np st"
  using assms by (auto simp: match_inv_def matched_def)

lemma match_inv_residual:
  assumes inv: "match_inv M N st"
  shows "glob M N \<longleftrightarrow> glob (drop (mp st) M) (drop (np st) N) \<or>
           wild st \<and> from_on (drop (mar st) M) N (Suc (nar st))"
proof -
  have m: "glob (drop (mar st) M) (drop (nar st) N) \<longleftrightarrow> glob (drop (mp st) M) (drop (np st) N)"
    using inv glob_matched [of M N "mar st" "nar st" "mp st - mar st"] by (simp add: match_inv_def)
  have "nar st \<le> length N" using match_inv_bounds [OF inv] by simp
  with inv m from_on_step [of "nar st" N "drop (mar st) M"] show ?thesis
    by (auto simp: match_inv_def split: if_splits)
qed

text \<open>A later start needs the whole segment after the last star to fit into the name.\<close>

lemma later_start:
  assumes inv: "match_inv M N st" and later: "from_on (drop (mar st) M) N (Suc (nar st))"
  obtains k where "np st < k" "k \<le> length N" "glob (drop (mp st) M) (drop k N)"
proof -
  from later obtain k where k: "Suc (nar st) \<le> k" "k \<le> length N" "glob (drop (mar st) M) (drop k N)"
    by (auto simp: from_on_def)
  let ?d = "mp st - mar st"
  have "k + ?d \<le> length N \<and> glob (drop (mar st + ?d) M) (drop (k + ?d) N)"
    using inv k by (intro glob_seg_forces) (auto simp: match_inv_def matched_def ceq_def)
  moreover have "np st < k + ?d"
  proof -
    have "np st = nar st + ?d" using inv by (simp add: match_inv_def)
    with k(1) show ?thesis by simp
  qed
  ultimately show ?thesis using inv that by (simp add: match_inv_def)
qed

lemma match_star_ok:
  assumes inv: "match_inv M N st" and M: "NUL \<notin> set M"
  shows "\<exists>st'. match_star M st = Inr st' \<and> match_inv M N st' \<and> at M (mp st') \<noteq> CHR ''*'' \<and>
     match_measure M N st' \<le> match_measure M N st"
proof (cases "at M (mp st) = CHR ''*''")
  case False
  with match_inv_bounds [OF inv] inv show ?thesis by (simp add: match_star_def)
next
  case True
  obtain j where j: "skip_stars M (mp st) = Inr (mp st + j)" "mp st + j \<le> length M"
    "at M (mp st + j) \<noteq> CHR ''*''" "drop (mp st) M = replicate j (CHR ''*'') @ drop (mp st + j) M"
    using skip_stars_ok [OF M match_inv_bounds(1) [OF inv]] by blast
  let ?st = "st\<lparr>mp := mp st + j, wild := True, mar := mp st + j, nar := np st\<rparr>"
  from True j(3) have "0 < j" by (cases j) auto
  have here: "glob (drop (mp st) M) (drop k N) \<longleftrightarrow> from_on (drop (mp st + j) M) N k" if "k \<le> length N" for k
    using \<open>0 < j\<close> that from_on_star [OF that, of "drop (mp st + j) M"]
    by (simp only: j(4) glob_stars_drop glob_star_drop)
  have "glob M N \<longleftrightarrow> from_on (drop (mp st + j) M) N (np st)"
  proof
    assume "glob M N"
    then consider "glob (drop (mp st) M) (drop (np st) N)"
      | "from_on (drop (mar st) M) N (Suc (nar st))"
      using match_inv_residual [OF inv] by auto
    then show "from_on (drop (mp st + j) M) N (np st)"
    proof cases
      case 1
      with here match_inv_bounds(2) [OF inv] show ?thesis by simp
    next
      case 2
      then obtain k where "np st < k" "k \<le> length N" "glob (drop (mp st) M) (drop k N)"
        by (rule later_start [OF inv])
      with here [of k] show ?thesis unfolding from_on_def by (meson less_imp_le order_trans)
    qed
  next
    assume "from_on (drop (mp st + j) M) N (np st)"
    with here match_inv_bounds(2) [OF inv] match_inv_residual [OF inv] show "glob M N" by simp
  qed
  moreover have "M ! (mp st + j - 1) = CHR ''*''"
  proof -
    have "M ! (mp st + (j - 1)) = drop (mp st) M ! (j - 1)"
      using match_inv_bounds(1) [OF inv] by simp
    also have "\<dots> = CHR ''*''"
      using \<open>0 < j\<close> by (subst j(4)) (simp add: nth_append)
    finally show ?thesis using \<open>0 < j\<close> by simp
  qed
  ultimately have "match_inv M N ?st"
    using j \<open>0 < j\<close> match_inv_bounds [OF inv] by (simp add: match_inv_def)
  moreover have "match_measure M N ?st \<le> match_measure M N st"
    using match_inv_bounds [OF inv] unfolding match_measure_def
    by (intro add_mono mult_le_mono1) simp_all
  ultimately show ?thesis
    using True j match_inv_bounds [OF inv] by (simp add: match_star_def)
qed

lemma restart_ok:
  assumes inv: "match_inv M N st" and "wild st" "nar st < length N"
    and no: "\<not> glob (drop (mp st) M) (drop (np st) N)"
  shows "match_inv M N (restart st)" "match_measure M N (restart st) < match_measure M N st"
proof -
  show "match_inv M N (restart st)"
    using assms match_inv_residual [OF inv]
    by (auto simp: match_inv_def restart_def matched_def split: if_splits)
  have "length N - nar st = Suc (length N - Suc (nar st))" using assms by simp
  then show "match_measure M N (restart st) < match_measure M N st"
    by (simp add: match_measure_def restart_def)
qed

lemma match_ends_ok:
  assumes inv: "match_inv M N st" and nostar: "at M (mp st) \<noteq> CHR ''*''"
    and M: "NUL \<notin> set M" "M \<noteq> []" and N: "NUL \<notin> set N"
  shows "match_ends M N st = Inr (Return (glob M N)) \<or>
    (\<exists>st'. match_ends M N st = Inr (Continue st') \<and> match_inv M N st' \<and>
       at M (mp st') \<noteq> CHR ''*'' \<and> (mp st' < length M \<longrightarrow> np st' < length N) \<and>
       (mp st' = length M \<longrightarrow> wild st' \<and> mar st' = mp st') \<and>
       (st' = st \<and> mp st < length M \<or> match_measure M N st' < match_measure M N st))"
proof -
  note b = match_inv_bounds [OF inv]
  have nuls: "at M (mp st) = NUL \<longleftrightarrow> mp st = length M" "at N (np st) = NUL \<longleftrightarrow> np st = length N"
    using M N b by (simp_all add: at_eq_NUL_iff)
  consider (both) "mp st = length M" "np st = length N" | (mask) "mp st = length M" "np st < length N"
    | (name) "mp st < length M" "np st = length N" | (none) "mp st < length M" "np st < length N"
    using b by linarith
  then show ?thesis
  proof cases
    case both
    with nuls b match_inv_residual [OF inv] show ?thesis by (simp add: match_ends_def)
  next
    case none
    with nuls b nostar inv show ?thesis by (auto simp: match_ends_def)
  next
    case name
    obtain j where j: "skip_stars M (mp st) = Inr (mp st + j)" "mp st + j \<le> length M"
      "drop (mp st) M = replicate j (CHR ''*'') @ drop (mp st + j) M"
      using skip_stars_ok [OF M(1) b(1)] by blast
    from name nostar j(3) have "j = 0" by (cases j) (auto simp: drop_at)
    have "\<not> from_on (drop (mar st) M) N (Suc (nar st))" if "wild st"
    proof
      assume "from_on (drop (mar st) M) N (Suc (nar st))"
      then obtain k where "np st < k" "k \<le> length N" by (rule later_start [OF inv])
      with name show False by simp
    qed
    moreover have "\<not> glob (drop (mp st) M) []"
      using name nostar by (simp add: drop_at)
    ultimately have "\<not> glob M N"
      using match_inv_residual [OF inv] name by simp
    with name nuls b j \<open>j = 0\<close> show ?thesis by (simp add: match_ends_def)
  next
    case mask
    define p where "p = back_over_quests M (mp st - 1)"
    from mask M have "0 < mp st" by simp
    then have sb: "scan_back M (mp st) = Inr p"
      by (simp add: scan_back_def p_def split: nat.split)
    have no: "\<not> glob (drop (mp st) M) (drop (np st) N)" using mask by simp
    have quests: "M ! i = CHR ''?''" if "p < i" "i < mp st" for i
      using back_over_quests_between [of M "mp st - 1" i] that mask by (simp add: p_def)
    show ?thesis
    proof (cases "at M p = CHR ''*'' \<and> 0 < p")
      case True
      have "p < mp st"
        using back_over_quests_le [of M "mp st - 1"] \<open>0 < mp st\<close> unfolding p_def by linarith
      have p_lt: "p < mar st"
      proof (rule ccontr)
        assume "\<not> p < mar st"
        then have "M ! (mar st + (p - mar st)) \<noteq> CHR ''*''"
          using inv \<open>p < mp st\<close> by (intro matched_nostar) (auto simp: match_inv_def)
        with True \<open>\<not> p < mar st\<close> \<open>p < mp st\<close> mask show False by simp
      qed
      then have w: "wild st" using inv by (auto simp: match_inv_def split: if_splits)
      have q: "M ! (mar st + i) = CHR ''?''" if "i < mp st - mar st" for i
        using quests [of "mar st + i"] p_lt that by simp
      have "glob (drop (mar st) M) (drop (length N - (mp st - mar st)) N)"
      proof -
        have "mp st - mar st \<le> length N" using inv b by (simp add: match_inv_def)
        then have "matched M N (mar st) (length N - (mp st - mar st)) (mp st - mar st)"
          using inv mask q by (simp add: matched_def match_inv_def ceq_def)
        from glob_matched [OF this] show ?thesis
          using inv mask \<open>mp st - mar st \<le> length N\<close> by (simp add: match_inv_def)
      qed
      moreover have "nar st \<le> length N - (mp st - mar st)"
        using inv b by (simp add: match_inv_def)
      ultimately have "glob M N"
        using inv w by (auto simp: match_inv_def from_on_def)
      with True mask nuls b sb show ?thesis by (simp add: match_ends_def)
    next
      case False
      show ?thesis
      proof (cases "wild st")
        case True
        have "nar st < length N" using b mask by simp
        note r = restart_ok [OF inv True this no]
        have "mp (restart st) < length M \<longrightarrow> np (restart st) < length N"
          using inv mask by (auto simp: restart_def match_inv_def)
        moreover have "at M (mp (restart st)) \<noteq> CHR ''*''"
          using inv True by (simp add: match_inv_def restart_def)
        ultimately show ?thesis
          using True False mask nuls b sb r by (auto simp: match_ends_def) (auto simp: restart_def)
      next
        case nw: False
        with match_inv_residual [OF inv] no have "\<not> glob M N" by simp
        with False nw mask nuls b sb show ?thesis by (simp add: match_ends_def)
      qed
    qed
  qed
qed

lemma match_advance_ok:
  assumes inv: "match_inv M N st" and nostar: "at M (mp st) \<noteq> CHR ''*''"
    and M: "NUL \<notin> set M" and N: "NUL \<notin> set N"
    and c1: "mp st < length M \<longrightarrow> np st < length N" and c2: "mp st = length M \<longrightarrow> wild st \<and> mar st = mp st"
  shows "match_advance M N st = Inr (Return (glob M N)) \<or>
    (\<exists>st'. match_advance M N st = Inr (Continue st') \<and> match_inv M N st' \<and>
       match_measure M N st' \<le> match_measure M N st \<and>
       (mp st < length M \<longrightarrow> match_measure M N st' < match_measure M N st))"
proof -
  note b = match_inv_bounds [OF inv]
  show ?thesis
  proof (cases "mp st < length M")
    case True
    with c1 have n: "np st < length N" by simp
    with True M N have chars: "M ! mp st \<noteq> NUL" "N ! np st \<noteq> NUL" by (metis nth_mem)+
    have step: "glob (drop (mp st) M) (drop (np st) N) \<longleftrightarrow>
        ceq (M ! mp st) (N ! np st) \<and> glob (drop (Suc (mp st)) M) (drop (Suc (np st)) N)"
      using True n nostar by (intro glob_drop_step) simp_all
    show ?thesis
    proof (cases "ceq (M ! mp st) (N ! np st)")
      case eq: True
      let ?st = "st\<lparr>mp := Suc (mp st), np := Suc (np st)\<rparr>"
      have "Suc (mp st) - mar st = Suc (mp st - mar st)" using inv by (auto simp: match_inv_def)
      then have "match_inv M N ?st"
        using inv True n eq by (auto simp: match_inv_def matched_Suc split: if_splits)
      moreover have "match_measure M N ?st < match_measure M N st"
        using True by (simp add: match_measure_def)
      ultimately show ?thesis
        using True n eq chars by (auto simp: match_advance_def ceq_def)
    next
      case ne: False
      show ?thesis
      proof (cases "wild st")
        case w: True
        have "nar st < length N" using n b by simp
        from restart_ok [OF inv w this] step ne w True n nostar show ?thesis
          by (auto simp: match_advance_def ceq_def)
      next
        case False
        with step ne match_inv_residual [OF inv] True n nostar show ?thesis
          by (auto simp: match_advance_def ceq_def)
      qed
    qed
  next
    case False
    then have m: "mp st = length M" using b by simp
    with c2 have w: "wild st" "mar st = mp st" by auto
    show ?thesis
    proof (cases "np st = length N")
      case True
      with m inv have "match_inv M N (st\<lparr>mp := mp st, np := np st\<rparr>)"
        and "match_measure M N (st\<lparr>mp := mp st, np := np st\<rparr>) = match_measure M N st"
        by (auto simp: match_inv_def match_measure_def split: if_splits)
      with m True b show ?thesis by (simp add: match_advance_def)
    next
      case n: False
      then have lt: "np st < length N" using b by simp
      with N have "N ! np st \<noteq> NUL" by (metis nth_mem)
      then have d: "N ! np st \<noteq> NUL" "NUL \<noteq> ToLower (N ! np st)"
        using ToLower_eq_NUL [of "N ! np st"] by metis+
      have "nar st < length N" using lt b by simp
      from restart_ok [OF inv w(1) this] m lt have "match_inv M N (restart st)"
        "match_measure M N (restart st) < match_measure M N st" by simp_all
      with m lt w d show ?thesis by (auto simp: match_advance_def)
    qed
  qed
qed

lemma match_body_ok:
  assumes inv: "match_inv M N st" and M: "NUL \<notin> set M" "M \<noteq> []" and N: "NUL \<notin> set N"
  shows "match_body M N st = Inr (Return (glob M N)) \<or>
    (\<exists>st'. match_body M N st = Inr (Continue st') \<and> match_inv M N st' \<and>
       match_measure M N st' < match_measure M N st)"
proof -
  obtain st1 where st1: "match_star M st = Inr st1" "match_inv M N st1" "at M (mp st1) \<noteq> CHR ''*''"
    "match_measure M N st1 \<le> match_measure M N st"
    using match_star_ok [OF inv M(1)] by blast
  consider (ret) "match_ends M N st1 = Inr (Return (glob M N))"
    | (go) st2 where "match_ends M N st1 = Inr (Continue st2)" "match_inv M N st2"
      "at M (mp st2) \<noteq> CHR ''*''" "mp st2 < length M \<longrightarrow> np st2 < length N"
      "mp st2 = length M \<longrightarrow> wild st2 \<and> mar st2 = mp st2"
      "st2 = st1 \<and> mp st1 < length M \<or> match_measure M N st2 < match_measure M N st1"
    using match_ends_ok [OF st1(2,3) M N] by blast
  then show ?thesis
  proof cases
    case ret
    with st1 show ?thesis by (simp add: match_body_def)
  next
    case go
    from match_advance_ok [OF go(2,3) M(1) N go(4,5)] st1(1,4) go(1,6) show ?thesis
      by (auto simp: match_body_def)
  qed
qed

lemma match_init_inv: "match_inv M N match_init"
  by (simp add: match_inv_def match_init_def)

text \<open>Within any number of rounds the loop stays in bounds and never accepts wrongly.\<close>

lemma match_loop_sound:
  assumes "match_inv M N st" "NUL \<notin> set M" "M \<noteq> []" "NUL \<notin> set N"
  shows "\<exists>b. match_loop calls M N st = Inr b \<and> (b \<longrightarrow> glob M N)"
  using assms
proof (induction calls arbitrary: st)
  case (Suc calls)
  from match_body_ok [OF Suc.prems] Suc.IH Suc.prems(2-4) show ?case by fastforce
qed auto

lemma match_loop_complete:
  assumes "match_inv M N st" "NUL \<notin> set M" "M \<noteq> []" "NUL \<notin> set N"
    "match_measure M N st < calls"
  shows "match_loop calls M N st = Inr (glob M N)"
  using assms
proof (induction calls arbitrary: st)
  case (Suc calls)
  from match_body_ok [OF Suc.prems(1-4)] Suc.IH Suc.prems show ?case by fastforce
qed simp

lemma match_run_Nil: "cut msk = [] \<Longrightarrow>
    match_run msk name = (if cut name = [] then Inr True else Inl OutOfBounds)"
proof -
  assume e: "cut msk = []"
  have "at (cut name) 0 = NUL \<longleftrightarrow> cut name = []"
    by (metis NUL_notin_cut at_eq_NUL_iff le0 length_0_conv)
  then show ?thesis
    by (simp add: e match_run_def MATCH_MAX_CALLS_def match_body_def match_star_def match_ends_def
        match_init_def scan_back_def numeral_eq_Suc at_def)
qed

lemma glob_bounded_match:
  assumes "length (cut name) * Suc (length (cut msk)) + length (cut msk) < MATCH_MAX_CALLS"
  shows "match msk name \<longleftrightarrow> glob (cut msk) (cut name)"
proof (cases "cut msk = []")
  case True
  then show ?thesis by (simp add: match_def match_run_Nil)
next
  case False
  with match_loop_complete [OF match_init_inv, of "cut msk" "cut name" MATCH_MAX_CALLS] assms
  show ?thesis by (simp add: match_def match_run_def match_measure_def match_init_def)
qed

lemma match_imp_glob: "match msk name \<Longrightarrow> glob (cut msk) (cut name)"
proof (cases "cut msk = []")
  case True
  then show "match msk name \<Longrightarrow> ?thesis" by (simp add: match_def match_run_Nil split: if_splits)
next
  case False
  with match_loop_sound [OF match_init_inv, of "cut msk" "cut name" MATCH_MAX_CALLS]
  show "match msk name \<Longrightarrow> ?thesis" by (auto simp: match_def match_run_def)
qed

subsection \<open>Properties\<close>

text \<open>
  C31. \<open>match\<close> decides wildcard matching, case-insensitively on the IRC case
  map, for every mask and name whose sizes fit the round budget; and whatever the sizes, a
  positive answer is never wrong.
\<close>

theorem match_is_glob:
  "(match msk name \<longrightarrow> glob (cut msk) (cut name)) \<and>
   (length (cut name) * Suc (length (cut msk)) + length (cut msk) < MATCH_MAX_CALLS \<longrightarrow>
      (match msk name \<longleftrightarrow> glob (cut msk) (cut name)))"
  using match_imp_glob glob_bounded_match by blast

theorem match_is_glob_witness:
  "match ''*!*@*.Pt'' ''n!u@h.pT'' \<and> glob ''*!*@*.Pt'' ''n!u@h.pT''"
proof -
  have "match ''*!*@*.Pt'' ''n!u@h.pT''" by code_simp
  with match_is_glob [of "''*!*@*.Pt''" "''n!u@h.pT''"] show ?thesis by simp
qed

text \<open>
  \<open>match\<close> reads only inside its two strings, in every round, except
  when the mask is empty and the name is not: then it reads the byte before the mask.
\<close>

theorem match_memory_safe:
  "match_run msk name = Inl OutOfBounds \<longleftrightarrow> cut msk = [] \<and> cut name \<noteq> []"
proof (cases "cut msk = []")
  case False
  with match_loop_sound [OF match_init_inv, of "cut msk" "cut name" MATCH_MAX_CALLS]
  show ?thesis by (auto simp: match_run_def)
qed (simp add: match_run_Nil)

text \<open>
  The cap of 512 rounds is reachable: a mask of 23 characters and a name
  of 46 that match are reported as not matching.
\<close>

theorem match_gives_up:
  "glob ''*aaaaaaaaaaaaaaaaaaaaaaaaab'' (replicate 45 (CHR ''a'') @ ''b'') \<and>
   \<not> match ''*aaaaaaaaaaaaaaaaaaaaaaaaab'' (replicate 45 (CHR ''a'') @ ''b'')"
  by code_simp

text \<open>
  \<open>collapse\<close> leaves no two adjacent stars, changes nothing the second
  time, and the collapsed mask matches the same names.
\<close>

theorem collapse_canonical:
  "no_double_star (collapse msk) \<and> collapse (collapse msk) = collapse msk \<and>
   (glob (collapse msk) name \<longleftrightarrow> glob msk name)"
  by (simp add: no_double_star_collapse collapse_id glob_collapse)

text \<open>
  \<open>irccmp\<close> returns 0 exactly for strings equal up to the IRC case map, and a
  negative value exactly when the first is lexicographically smaller.
\<close>

theorem irccmp_order:
  "(irccmp s t = 0 \<longleftrightarrow> irc_upper s = irc_upper t) \<and>
   (irccmp s t < 0 \<longleftrightarrow> ord_class.lexordp (irc_upper s) (irc_upper t))"
  using irc_eq_iff irccmp_less_iff by blast

text \<open>
  Comparing two empty strings with \<open>ircncmp\<close> and any limit but 1 reads
  past both terminators.
\<close>

theorem ircncmp_overread: "n \<noteq> 1 \<Longrightarrow> ircncmp [] [] n = Inl OutOfBounds"
  by (simp add: ircncmp_def ircncmp_from.simps at_def)

theorem ircncmp_overread_witness: "ircncmp [] [] 5 = Inl OutOfBounds"
  using ircncmp_overread [of 5] by simp

end
