(* ===== verification/NameHash.thy ===== *)
theory NameHash
  imports IrcMatch
begin

text \<open>
  The interface that every chained hash table of the daemon relies on: a notion of equal names
  and a hash function that respects it. \<open>name_hash\<close> states the contract; its lemmas say what
  a table of chains (a function from bucket numbers to lists of objects) answers after an
  insertion at the head of a chain and after the removal of one object. The client, channel,
  whowas and watch tables interpret it.
\<close>

text \<open>Generic operations on a table of chains.\<close>

definition chain_add :: "nat \<Rightarrow> 'o \<Rightarrow> (nat \<Rightarrow> 'o list) \<Rightarrow> (nat \<Rightarrow> 'o list)" where
  "chain_add h x tab = tab(h := x # tab h)"

definition chain_del :: "nat \<Rightarrow> 'o \<Rightarrow> (nat \<Rightarrow> 'o list) \<Rightarrow> (nat \<Rightarrow> 'o list)" where
  "chain_del h x tab = tab(h := remove1 x (tab h))"

text \<open>Every object sits in the chain its name hashes to, and occurs there once.\<close>

definition wf_chains :: "(string \<Rightarrow> nat) \<Rightarrow> ('o \<Rightarrow> string) \<Rightarrow> (nat \<Rightarrow> 'o list) \<Rightarrow> bool" where
  "wf_chains hashf nm tab \<longleftrightarrow>
     (\<forall>h. distinct (tab h) \<and> (\<forall>x\<in>set (tab h). hashf (nm x) = h))"

definition in_table :: "'o \<Rightarrow> (nat \<Rightarrow> 'o list) \<Rightarrow> bool" where
  "in_table x tab \<longleftrightarrow> (\<exists>h. x \<in> set (tab h))"

lemma in_table_add [simp]: "in_table x (chain_add h y tab) \<longleftrightarrow> x = y \<or> in_table x tab"
  by (auto simp: in_table_def chain_add_def split: if_splits)

lemma wf_chains_empty [simp]: "wf_chains hashf nm (\<lambda>_. [])"
  by (simp add: wf_chains_def)

locale name_hash =
  fixes eqv :: "string \<Rightarrow> string \<Rightarrow> bool"
    and hashf :: "string \<Rightarrow> nat"
    and buckets :: nat
  assumes eqv_refl: "eqv a a"
    and eqv_sym: "eqv a b \<Longrightarrow> eqv b a"
    and eqv_trans: "eqv a b \<Longrightarrow> eqv b c \<Longrightarrow> eqv a c"
    and eqv_hash: "eqv a b \<Longrightarrow> hashf a = hashf b"
    and hash_bounded: "hashf a < buckets"
begin

lemma in_chain_iff:
  "wf_chains hashf nm tab \<Longrightarrow> x \<in> set (tab (hashf (nm x))) \<longleftrightarrow> in_table x tab"
  by (auto simp: wf_chains_def in_table_def)

lemma chain_add_wf:
  "wf_chains hashf nm tab \<Longrightarrow> \<not> in_table x tab \<Longrightarrow>
     wf_chains hashf nm (chain_add (hashf (nm x)) x tab)"
  by (auto simp: wf_chains_def chain_add_def in_table_def)

lemma chain_del_wf: "wf_chains hashf nm tab \<Longrightarrow> wf_chains hashf nm (chain_del h x tab)"
  by (auto simp: wf_chains_def chain_del_def)

lemma in_table_del:
  "wf_chains hashf nm tab \<Longrightarrow>
     in_table y (chain_del (hashf (nm x)) x tab) \<longleftrightarrow> in_table y tab \<and> y \<noteq> x"
proof -
  assume wf: "wf_chains hashf nm tab"
  have "y \<in> set (chain_del (hashf (nm x)) x tab k) \<longleftrightarrow> y \<in> set (tab k) \<and> y \<noteq> x" for k
    using wf by (auto simp: wf_chains_def chain_del_def)
  then show ?thesis by (auto simp: in_table_def)
qed

lemma found_sound:
  "List.find (\<lambda>x. eqv a (nm x)) (tab (hashf a)) = Some x \<Longrightarrow> eqv a (nm x) \<and> in_table x tab"
  by (auto dest!: find_SomeD simp: in_table_def)

lemma found_complete:
  assumes "wf_chains hashf nm tab"
  shows "List.find (\<lambda>x. eqv a (nm x)) (tab (hashf a)) = None \<longleftrightarrow>
           (\<forall>x. in_table x tab \<longrightarrow> \<not> eqv a (nm x))"
  using assms eqv_hash by (auto simp: find_None_iff in_table_def wf_chains_def)

lemma found_add:
  "List.find (\<lambda>x. eqv a (nm x)) (chain_add (hashf (nm y)) y tab (hashf a)) =
     (if eqv a (nm y) then Some y else List.find (\<lambda>x. eqv a (nm x)) (tab (hashf a)))"
  using eqv_hash [of a "nm y"] by (auto simp: chain_add_def)

text \<open>With pairwise different names, a look-up finds exactly the object of that name.\<close>

lemma found_unique:
  assumes "wf_chains hashf nm tab" "in_table x tab" "eqv a (nm x)"
    and uniq: "\<And>y. in_table y tab \<Longrightarrow> eqv (nm x) (nm y) \<Longrightarrow> y = x"
  shows "List.find (\<lambda>x. eqv a (nm x)) (tab (hashf a)) = Some x"
proof -
  from assms obtain y where y: "List.find (\<lambda>x. eqv a (nm x)) (tab (hashf a)) = Some y"
    using found_complete [OF assms(1), of a] by (cases "List.find (\<lambda>x. eqv a (nm x)) (tab (hashf a))") auto
  from found_sound [of a nm tab y] y have "eqv a (nm y)" "in_table y tab" by auto
  with assms(3) uniq have "y = x" by (metis eqv_sym eqv_trans)
  with y show ?thesis by simp
qed

lemma found_after_del:
  assumes "wf_chains hashf nm tab"
    and uniq: "\<And>y. in_table y tab \<Longrightarrow> eqv (nm x) (nm y) \<Longrightarrow> y = x" and "eqv a (nm x)"
  shows "List.find (\<lambda>x. eqv a (nm x)) (chain_del (hashf (nm x)) x tab (hashf a)) = None"
proof -
  have "\<not> eqv a (nm y)" if "in_table y (chain_del (hashf (nm x)) x tab)" for y
    using that assms in_table_del [OF assms(1), of y x] by (metis eqv_sym eqv_trans)
  with found_complete [OF chain_del_wf [OF assms(1)]] show ?thesis by blast
qed

end

end
