(* ===== verification/HashTab.thy ===== *)
theory HashTab
  imports NameHash
begin

text \<open>
  The client and channel hash tables, \<open>src/hash.c\<close>: the 32-bit hash functions, insertion,
  removal and look-up, the masked server look-up. A pointer is a number; the names behind
  the pointers are an argument \<open>nm\<close> (\<open>cptr->name\<close>, \<open>chptr->chname\<close>). A chain linked through
  \<open>hnext\<close> is the list of its pointers.
\<close>

subsection \<open>Hash functions\<close>

definition U_MAX :: nat where "U_MAX = 65536"
definition CH_MAX :: nat where "CH_MAX = 16384"
definition HOSTLEN :: nat where "HOSTLEN = 63"

text \<open>\<open>h = (h << 4) - (h + (unsigned char) ToLower(*name++))\<close> in unsigned 32-bit arithmetic.\<close>

definition hash_step :: "32 word \<Rightarrow> char \<Rightarrow> 32 word" where
  "hash_step h c = push_bit 4 h - (h + word_of_nat (byte (ToLower c)))"

fun hash_fold :: "32 word \<Rightarrow> cstr \<Rightarrow> 32 word" where
  "hash_fold h [] = h"
| "hash_fold h (c # s) = hash_fold (hash_step h c) s"

definition hash_nick_name :: "string \<Rightarrow> nat" where
  "hash_nick_name name = unat (hash_fold 0 (cut name) AND (word_of_nat U_MAX - 1))"

text \<open>\<open>while (*name && --i)\<close>: the counter is decremented before it is tested.\<close>

fun hash_channel_loop :: "nat \<Rightarrow> 32 word \<Rightarrow> cstr \<Rightarrow> 32 word" where
  "hash_channel_loop i h [] = h"
| "hash_channel_loop i h (c # s) =
     (if i - 1 = 0 then h else hash_channel_loop (i - 1) (hash_step h c) s)"

definition hash_channel_name :: "string \<Rightarrow> nat" where
  "hash_channel_name name = unat (hash_channel_loop 30 0 (cut name) AND (word_of_nat CH_MAX - 1))"

lemma hash_step_cong: "ToLower c = ToLower d \<Longrightarrow> hash_step h c = hash_step h d"
  by (simp add: hash_step_def)

lemma hash_fold_cong: "map ToLower s = map ToLower t \<Longrightarrow> hash_fold h s = hash_fold h t"
proof (induction h s arbitrary: t rule: hash_fold.induct)
  case (2 h c s)
  then obtain d t' where "t = d # t'" by (cases t) auto
  with 2 hash_step_cong [of c d h] show ?case by simp
qed simp

lemma hash_channel_loop_cong:
  "map ToLower s = map ToLower t \<Longrightarrow> hash_channel_loop i h s = hash_channel_loop i h t"
proof (induction i h s arbitrary: t rule: hash_channel_loop.induct)
  case (2 i h c s)
  then obtain d t' where "t = d # t'" by (cases t) auto
  with 2 hash_step_cong [of c d h] show ?case by simp
qed simp

text \<open>The loop counts 29 characters, not 30.\<close>

lemma hash_channel_loop_take: "0 < i \<Longrightarrow> hash_channel_loop i h s = hash_fold h (take (i - 1) s)"
proof (induction i h s rule: hash_channel_loop.induct)
  case (2 i h c s)
  then obtain k where i: "i = Suc k" by (cases i) auto
  with 2 show ?case by (cases k) simp_all
qed simp

lemma map_ToUpper_eq: "map ToUpper s = map ToUpper t \<longleftrightarrow> map ToLower s = map ToLower t"
proof (induction s arbitrary: t)
  case (Cons c s)
  then show ?case by (cases t) (simp_all add: ToLower_eq_iff_ToUpper_eq)
qed simp

lemma irc_eq_ToLower: "irc_eq s t \<longleftrightarrow> map ToLower (cut s) = map ToLower (cut t)"
  unfolding irc_eq_iff irc_upper_def by (rule map_ToUpper_eq)

lemma unat_and_pred_less: "0 < n \<Longrightarrow> n < 2 ^ 32 \<Longrightarrow> unat ((w :: 32 word) AND (word_of_nat n - 1)) < n"
proof -
  assume n: "0 < n" "n < 2 ^ 32"
  then have "(word_of_nat n :: 32 word) - 1 = word_of_nat (n - 1)"
    by (simp add: of_nat_diff)
  moreover have "unat (w AND word_of_nat (n - 1)) \<le> unat (word_of_nat (n - 1) :: 32 word)"
    by (rule word_and_le1 [THEN word_le_nat_alt [THEN iffD1]])
  moreover have "unat (word_of_nat (n - 1) :: 32 word) = n - 1"
    by (subst unat_of_nat) (use n in simp)
  ultimately have "unat (w AND (word_of_nat n - 1)) \<le> n - 1" by metis
  with n show ?thesis by linarith
qed

lemma hash_nick_name_less [simp]: "hash_nick_name s < U_MAX"
  unfolding hash_nick_name_def by (rule unat_and_pred_less) (simp_all add: U_MAX_def)

lemma hash_channel_name_less [simp]: "hash_channel_name s < CH_MAX"
  unfolding hash_channel_name_def by (rule unat_and_pred_less) (simp_all add: CH_MAX_def)

lemma hash_nick_name_cong: "irc_eq s t \<Longrightarrow> hash_nick_name s = hash_nick_name t"
  by (simp add: hash_nick_name_def irc_eq_ToLower hash_fold_cong [of "cut s" "cut t"])

lemma hash_channel_name_cong: "irc_eq s t \<Longrightarrow> hash_channel_name s = hash_channel_name t"
  by (simp add: hash_channel_name_def irc_eq_ToLower hash_channel_loop_cong [of "cut s" "cut t"])

interpretation nick_hash: name_hash irc_eq hash_nick_name U_MAX
  by unfold_locales (auto intro: irc_eq_sym irc_eq_trans hash_nick_name_cong)

interpretation chan_hash: name_hash irc_eq hash_channel_name CH_MAX
  by unfold_locales (auto intro: irc_eq_sym irc_eq_trans hash_channel_name_cong)

subsection \<open>Tables\<close>

text \<open>\<open>struct HashEntry\<close>: the head of the chain and two counters. A table is indexed by bucket.\<close>

record hash_entry =
  chain :: "nat list"
  links :: int
  hits :: int

type_synonym hash_table = "nat \<Rightarrow> hash_entry"

definition clear_hash_table :: hash_table where
  "clear_hash_table = (\<lambda>_. \<lparr>chain = [], links = 0, hits = 0\<rparr>)"

text \<open>\<open>init_hash\<close> clears both tables.\<close>

definition init_hash :: "hash_table \<times> hash_table" where
  "init_hash = (clear_hash_table, clear_hash_table)"

definition bucket_add :: "nat \<Rightarrow> nat \<Rightarrow> hash_table \<Rightarrow> hash_table" where
  "bucket_add h p tab =
     tab(h := \<lparr>chain = p # chain (tab h), links = links (tab h) + 1, hits = hits (tab h) + 1\<rparr>)"

text \<open>
  The removal loop walks the chain with a trailing pointer; when the object is found it is
  unlinked and the counter decremented if it is positive, otherwise nothing changes.
\<close>

fun unlink :: "nat \<Rightarrow> nat list \<Rightarrow> nat list option" where
  "unlink p [] = None"
| "unlink p (q # qs) = (if q = p then Some qs else map_option ((#) q) (unlink p qs))"

definition bucket_del :: "nat \<Rightarrow> nat \<Rightarrow> hash_table \<Rightarrow> hash_table" where
  "bucket_del h p tab =
     (case unlink p (chain (tab h)) of
        None \<Rightarrow> tab
      | Some qs \<Rightarrow> tab(h := (tab h)\<lparr>chain := qs,
                              links := (if 0 < links (tab h) then links (tab h) - 1 else links (tab h))\<rparr>))"

definition add_to_client_hash_table :: "string \<Rightarrow> nat \<Rightarrow> hash_table \<Rightarrow> hash_table" where
  "add_to_client_hash_table name cptr tab = bucket_add (hash_nick_name name) cptr tab"

definition add_to_channel_hash_table :: "string \<Rightarrow> nat \<Rightarrow> hash_table \<Rightarrow> hash_table" where
  "add_to_channel_hash_table name chptr tab = bucket_add (hash_channel_name name) chptr tab"

definition del_from_client_hash_table :: "string \<Rightarrow> nat \<Rightarrow> hash_table \<Rightarrow> hash_table" where
  "del_from_client_hash_table name cptr tab = bucket_del (hash_nick_name name) cptr tab"

definition del_from_channel_hash_table :: "string \<Rightarrow> nat \<Rightarrow> hash_table \<Rightarrow> hash_table" where
  "del_from_channel_hash_table name chptr tab = bucket_del (hash_channel_name name) chptr tab"

text \<open>\<open>hash_find_client\<close> and \<open>hash_find_channel\<close> return their second argument on a miss.\<close>

definition hash_find_client ::
  "(nat \<Rightarrow> string) \<Rightarrow> hash_table \<Rightarrow> string \<Rightarrow> nat option \<Rightarrow> nat option" where
  "hash_find_client nm tab name cptr =
     (case List.find (\<lambda>p. irccmp name (nm p) = 0) (chain (tab (hash_nick_name name))) of
        Some p \<Rightarrow> Some p | None \<Rightarrow> cptr)"

definition hash_find_channel ::
  "(nat \<Rightarrow> string) \<Rightarrow> hash_table \<Rightarrow> string \<Rightarrow> nat option \<Rightarrow> nat option" where
  "hash_find_channel nm tab name chptr =
     (case List.find (\<lambda>p. irccmp name (nm p) = 0) (chain (tab (hash_channel_name name))) of
        Some p \<Rightarrow> Some p | None \<Rightarrow> chptr)"

text \<open>
  \<open>hash_find_masked_server\<close>: the copy is cut to \<open>HOSTLEN\<close> bytes; for each dot from left to
  right the byte before it becomes a star and the string from there on is looked up.
\<close>

function masked_from :: "(cstr \<Rightarrow> nat option) \<Rightarrow> cstr \<Rightarrow> nat option" where
  "masked_from look p =
     (case dropWhile (\<lambda>c. c \<noteq> CHR ''.'') p of
        [] \<Rightarrow> None
      | dot # rest \<Rightarrow>
          (case look (CHR ''*'' # dot # rest) of Some s \<Rightarrow> Some s | None \<Rightarrow> masked_from look rest))"
  by pat_completeness auto
termination
proof (relation "measure (\<lambda>(look, p). length p)", goal_cases)
  case (2 look p dot rest)
  have "length (dropWhile (\<lambda>c. c \<noteq> CHR ''.'') p) \<le> length p" by (rule length_dropWhile_le)
  with 2 show ?case by simp
qed simp

declare masked_from.simps [simp del]

definition hash_find_masked_server :: "(nat \<Rightarrow> string) \<Rightarrow> hash_table \<Rightarrow> string \<Rightarrow> nat option" where
  "hash_find_masked_server nm tab name =
     (if hd0 name = CHR ''*'' \<or> hd0 name = CHR ''.'' then None
      else masked_from (\<lambda>s. hash_find_client nm tab s None) (take HOSTLEN (cut name)))"

text \<open>\<open>srv p\<close> stands for \<open>IsServer(p) || IsMe(p)\<close>.\<close>

definition hash_find_server ::
  "(nat \<Rightarrow> string) \<Rightarrow> (nat \<Rightarrow> bool) \<Rightarrow> hash_table \<Rightarrow> string \<Rightarrow> nat option" where
  "hash_find_server nm srv tab name =
     (case List.find (\<lambda>p. srv p \<and> irccmp name (nm p) = 0) (chain (tab (hash_nick_name name))) of
        Some p \<Rightarrow> Some p | None \<Rightarrow> hash_find_masked_server nm tab name)"

subsection \<open>Refinement to tables of chains\<close>

definition chains_of :: "hash_table \<Rightarrow> nat \<Rightarrow> nat list" where
  "chains_of tab h = chain (tab h)"

definition wf_hash_table :: "(string \<Rightarrow> nat) \<Rightarrow> (nat \<Rightarrow> string) \<Rightarrow> hash_table \<Rightarrow> bool" where
  "wf_hash_table hashf nm tab \<longleftrightarrow> wf_chains hashf nm (chains_of tab) \<and>
     (\<forall>h. links (tab h) = int (length (chain (tab h))))"

lemma unlink_eq: "unlink p qs = (if p \<in> set qs then Some (remove1 p qs) else None)"
  by (induction qs) auto

lemma chains_of_clear [simp]: "chains_of clear_hash_table = (\<lambda>_. [])"
  by (simp add: chains_of_def clear_hash_table_def fun_eq_iff)

lemma chains_of_add [simp]: "chains_of (bucket_add h p tab) = chain_add h p (chains_of tab)"
  by (auto simp: chains_of_def bucket_add_def chain_add_def fun_eq_iff)

lemma chains_of_del [simp]: "chains_of (bucket_del h p tab) = chain_del h p (chains_of tab)"
  by (auto simp: chains_of_def bucket_del_def chain_del_def fun_eq_iff unlink_eq remove1_idem)

lemma links_bucket_add:
  "(\<forall>h. links (tab h) = int (length (chain (tab h)))) \<Longrightarrow>
   links (bucket_add k p tab h) = int (length (chain (bucket_add k p tab h)))"
  by (simp add: bucket_add_def)

lemma links_bucket_del:
  "(\<forall>h. links (tab h) = int (length (chain (tab h)))) \<Longrightarrow>
   links (bucket_del k p tab h) = int (length (chain (bucket_del k p tab h)))"
  by (auto simp: bucket_del_def unlink_eq length_remove1 of_nat_diff Suc_le_eq
      dest: length_pos_if_in_set)

lemmas hash_op_defs = add_to_client_hash_table_def add_to_channel_hash_table_def
  del_from_client_hash_table_def del_from_channel_hash_table_def
  hash_find_client_def hash_find_channel_def

abbreviation "wf_client_table \<equiv> wf_hash_table hash_nick_name"
abbreviation "wf_channel_table \<equiv> wf_hash_table hash_channel_name"

lemma hash_find_client_chains:
  "hash_find_client nm tab name d =
     (case List.find (\<lambda>p. irc_eq name (nm p)) (chains_of tab (hash_nick_name name)) of
        Some p \<Rightarrow> Some p | None \<Rightarrow> d)"
  by (simp add: hash_find_client_def chains_of_def)

lemma hash_find_channel_chains:
  "hash_find_channel nm tab name d =
     (case List.find (\<lambda>p. irc_eq name (nm p)) (chains_of tab (hash_channel_name name)) of
        Some p \<Rightarrow> Some p | None \<Rightarrow> d)"
  by (simp add: hash_find_channel_def chains_of_def)

text \<open>What the masked look-up returns is a server filed under a star mask of a suffix.\<close>

lemma masked_from_sound:
  "masked_from look p = Some x \<Longrightarrow>
     \<exists>pre rest. p = pre @ CHR ''.'' # rest \<and> look (CHR ''*'' # CHR ''.'' # rest) = Some x"
proof (induction look p rule: masked_from.induct)
  case (1 look p)
  have tw: "p = takeWhile (\<lambda>c. c \<noteq> CHR ''.'') p @ dropWhile (\<lambda>c. c \<noteq> CHR ''.'') p" by simp
  show ?case
  proof (cases "dropWhile (\<lambda>c. c \<noteq> CHR ''.'') p")
    case Nil
    with "1.prems" show ?thesis by (simp add: masked_from.simps [of look p])
  next
    case (Cons dot rest)
    then have dot: "dot = CHR ''.''" by (metis (mono_tags) dropWhile_eq_Cons_conv)
    show ?thesis
    proof (cases "look (CHR ''*'' # dot # rest)")
      case None
      with 1 Cons obtain pre rest' where "rest = pre @ CHR ''.'' # rest'"
        "look (CHR ''*'' # CHR ''.'' # rest') = Some x"
        by (auto simp: masked_from.simps [of look p])
      with tw Cons show ?thesis by (metis append_Cons append_assoc)
    next
      case (Some s)
      with "1.prems" Cons dot tw show ?thesis
        by (auto simp: masked_from.simps [of look p])
    qed
  qed
qed

lemma hash_find_client_sound:
  "hash_find_client nm tab name None = Some p \<Longrightarrow>
     irc_eq name (nm p) \<and> in_table p (chains_of tab)"
  unfolding hash_find_client_chains
  using nick_hash.found_sound [of name nm "chains_of tab"] by (auto split: option.splits)

subsection \<open>Properties\<close>

text \<open>
  Names that \<open>irccmp\<close> takes for equal hash to the same bucket in both
  tables, and every bucket number is inside its table.
\<close>

theorem hash_respects_irccmp:
  "(irccmp s t = 0 \<longrightarrow> hash_nick_name s = hash_nick_name t \<and> hash_channel_name s = hash_channel_name t) \<and>
   hash_nick_name s < U_MAX \<and> hash_channel_name s < CH_MAX"
  using hash_nick_name_cong hash_channel_name_cong by simp

theorem hash_respects_irccmp_witness:
  "hash_nick_name ''Foo^'' = hash_nick_name ''fOO~'' \<and> hash_channel_name ''#Ab'' = hash_channel_name ''#aB''"
proof -
  have "irccmp ''Foo^'' ''fOO~'' = 0" "irccmp ''#Ab'' ''#aB'' = 0"
    by code_simp+
  with hash_respects_irccmp [of "''Foo^''" "''fOO~''"] hash_respects_irccmp [of "''#Ab''" "''#aB''"]
  show ?thesis by blast
qed

text \<open>The objects filed in a table, and what a look-up has to answer about a set of named objects.\<close>

definition filed :: "hash_table \<Rightarrow> nat set" where
  "filed tab = {p. in_table p (chains_of tab)}"

definition answers :: "(nat \<Rightarrow> string) \<Rightarrow> nat set \<Rightarrow> (string \<Rightarrow> nat option) \<Rightarrow> bool" where
  "answers nm ps look \<longleftrightarrow> (\<forall>name. case look name of
     Some p \<Rightarrow> p \<in> ps \<and> irccmp name (nm p) = 0 | None \<Rightarrow> (\<forall>p\<in>ps. irccmp name (nm p) \<noteq> 0))"

lemma client_answers:
  "wf_client_table nm tab \<Longrightarrow> answers nm (filed tab) (\<lambda>name. hash_find_client nm tab name None)"
  using nick_hash.found_complete [of nm "chains_of tab"] nick_hash.found_sound [of _ nm "chains_of tab"]
  by (fastforce simp: answers_def filed_def hash_find_client_chains wf_hash_table_def split: option.split)

lemma channel_answers:
  "wf_channel_table nm tab \<Longrightarrow> answers nm (filed tab) (\<lambda>name. hash_find_channel nm tab name None)"
  using chan_hash.found_complete [of nm "chains_of tab"] chan_hash.found_sound [of _ nm "chains_of tab"]
  by (fastforce simp: answers_def filed_def hash_find_channel_chains wf_hash_table_def split: option.split)

text \<open>
  C40. The tables of clients and of channels are sets of named objects. They start empty. Adding an object that is not there under its
  name files it and nothing else; removing an object under its name takes it out and nothing else;
  both keep every object in the bucket of its name, once, with the link counter equal to the length of the chain.
  In such a table a look-up answers an object filed under that name (up to case), and none only when there is none; after
  an addition it answers the new object for its name.
\<close>

theorem hash_tables_invariant:
  assumes "wf_client_table nm tab" "p \<notin> filed tab" "wf_channel_table cm ctab" "ch \<notin> filed ctab"
  shows "(wf_client_table nm (fst init_hash) \<and> filed (fst init_hash) = {} \<and>
    wf_channel_table cm (snd init_hash) \<and> filed (snd init_hash) = {}) \<and>
   (wf_client_table nm (add_to_client_hash_table (nm p) p tab) \<and>
     filed (add_to_client_hash_table (nm p) p tab) = insert p (filed tab) \<and>
     wf_channel_table cm (add_to_channel_hash_table (cm ch) ch ctab) \<and>
     filed (add_to_channel_hash_table (cm ch) ch ctab) = insert ch (filed ctab)) \<and>
   (wf_client_table nm (del_from_client_hash_table (nm q) q tab) \<and>
     filed (del_from_client_hash_table (nm q) q tab) = filed tab - {q} \<and>
     wf_channel_table cm (del_from_channel_hash_table (cm q) q ctab) \<and>
     filed (del_from_channel_hash_table (cm q) q ctab) = filed ctab - {q}) \<and>
   (answers nm (filed tab) (\<lambda>name. hash_find_client nm tab name None) \<and>
     answers cm (filed ctab) (\<lambda>name. hash_find_channel cm ctab name None)) \<and>
   (hash_find_client nm (add_to_client_hash_table (nm p) p tab) (nm p) None = Some p \<and>
     hash_find_channel cm (add_to_channel_hash_table (cm ch) ch ctab) (cm ch) None = Some ch)"
proof -
  have 1: "wf_client_table nm (fst init_hash) \<and> filed (fst init_hash) = {} \<and>
    wf_channel_table cm (snd init_hash) \<and> filed (snd init_hash) = {}"
    by (simp add: wf_hash_table_def init_hash_def filed_def in_table_def) (simp add: clear_hash_table_def)
  have 2: "wf_client_table nm (add_to_client_hash_table (nm p) p tab) \<and>
     filed (add_to_client_hash_table (nm p) p tab) = insert p (filed tab) \<and>
     wf_channel_table cm (add_to_channel_hash_table (cm ch) ch ctab) \<and>
     filed (add_to_channel_hash_table (cm ch) ch ctab) = insert ch (filed ctab)"
    using assms by (auto simp: wf_hash_table_def hash_op_defs links_bucket_add filed_def
      nick_hash.chain_add_wf chan_hash.chain_add_wf)
  have 3: "wf_client_table nm (del_from_client_hash_table (nm q) q tab) \<and>
     filed (del_from_client_hash_table (nm q) q tab) = filed tab - {q} \<and>
     wf_channel_table cm (del_from_channel_hash_table (cm q) q ctab) \<and>
     filed (del_from_channel_hash_table (cm q) q ctab) = filed ctab - {q}"
    using assms by (auto simp: wf_hash_table_def hash_op_defs links_bucket_del filed_def
      nick_hash.chain_del_wf chan_hash.chain_del_wf nick_hash.in_table_del chan_hash.in_table_del)
  have 4: "answers nm (filed tab) (\<lambda>name. hash_find_client nm tab name None) \<and>
     answers cm (filed ctab) (\<lambda>name. hash_find_channel cm ctab name None)"
    using client_answers channel_answers assms by blast
  have 5: "hash_find_client nm (add_to_client_hash_table (nm p) p tab) (nm p) None = Some p \<and>
     hash_find_channel cm (add_to_channel_hash_table (cm ch) ch ctab) (cm ch) None = Some ch"
    using nick_hash.found_add [of "nm p" nm p "chains_of tab"] chan_hash.found_add [of "cm ch" cm ch "chains_of ctab"]
    by (simp add: hash_find_client_chains hash_find_channel_chains hash_op_defs)
  from 1 2 3 4 5 show ?thesis by blast
qed

theorem hash_tables_invariant_witness:
  "let nm = (\<lambda>p::nat. if p = 7 then ''bob'' else ''ana''); t = add_to_client_hash_table ''bob'' 7 (fst init_hash) in
   wf_client_table nm t \<and> filed t = {7} \<and> filed (del_from_client_hash_table ''bob'' 7 t) = {}"
proof -
  let ?nm = "\<lambda>p::nat. if p = 7 then ''bob'' else ''ana''"
  have e: "wf_hash_table h ?nm clear_hash_table" "filed clear_hash_table = {}" for h
    by (simp_all add: wf_hash_table_def filed_def in_table_def) (simp add: clear_hash_table_def)
  have n: "p \<notin> filed clear_hash_table" for p by (simp add: e(2))
  have a: "wf_client_table ?nm (add_to_client_hash_table (?nm 7) 7 clear_hash_table)"
    "filed (add_to_client_hash_table (?nm 7) 7 clear_hash_table) = {7}"
    using hash_tables_invariant [OF e(1) n e(1) n, where p = 7 and ch = 7 and q = 7] e(2) by auto
  have "8 \<notin> filed (add_to_client_hash_table (?nm 7) 7 clear_hash_table)" using a(2) by simp
  from hash_tables_invariant [OF a(1) this e(1) n, where q = 7 and ch = 7] a
  have "filed (del_from_client_hash_table (?nm 7) 7 (add_to_client_hash_table (?nm 7) 7 clear_hash_table)) = {}" by auto
  with a show ?thesis by (simp add: init_hash_def)
qed

text \<open>
  A look-up after an insertion under any name answers the new client
  for exactly the names \<open>irccmp\<close>-equal to its own and is otherwise unchanged; in a well-formed
  table a look-up fails exactly when no filed client has an equal name; and after the removal of
  a client whose name nobody else holds, its name is not found any more.
\<close>

theorem hash_find_client_spec:
  "hash_find_client nm (add_to_client_hash_table (nm p) p tab) name d =
     (if irccmp name (nm p) = 0 then Some p else hash_find_client nm tab name d) \<and>
   (wf_client_table nm tab \<longrightarrow>
     (hash_find_client nm tab name None = None \<longleftrightarrow>
        (\<forall>q. in_table q (chains_of tab) \<longrightarrow> irccmp name (nm q) \<noteq> 0)) \<and>
     ((\<forall>q. in_table q (chains_of tab) \<longrightarrow> irccmp (nm p) (nm q) = 0 \<longrightarrow> q = p) \<longrightarrow>
        irccmp name (nm p) = 0 \<longrightarrow>
        hash_find_client nm (del_from_client_hash_table (nm p) p tab) name None = None))"
  using nick_hash.found_add [of name nm p "chains_of tab"]
    nick_hash.found_complete [of nm "chains_of tab" name]
    nick_hash.found_after_del [of nm "chains_of tab" p name]
  by (auto simp: hash_find_client_chains hash_op_defs wf_hash_table_def split: option.splits)

theorem hash_find_client_spec_witness:
  "hash_find_client (\<lambda>_. ''Bob'') (del_from_client_hash_table ''Bob'' 7
     (add_to_client_hash_table ''Bob'' 7 clear_hash_table)) ''BOB'' None = None"
proof -
  let ?nm = "\<lambda>_::nat. ''Bob''" and ?tab = "add_to_client_hash_table ''Bob'' 7 clear_hash_table"
  have wf: "wf_client_table ?nm ?tab"
    using nick_hash.chain_add_wf [of ?nm "\<lambda>_. []" 7]
    by (simp add: wf_hash_table_def hash_op_defs links_bucket_add in_table_def)
      (simp add: clear_hash_table_def bucket_add_def)
  have eq: "irccmp ''BOB'' ''Bob'' = 0" by code_simp
  have "\<forall>q. in_table q (chains_of ?tab) \<longrightarrow> irccmp (?nm 7) (?nm q) = 0 \<longrightarrow> q = 7"
    by (simp add: hash_op_defs) (simp add: in_table_def)
  with hash_find_client_spec [of ?nm 7 ?tab "''BOB''" None] wf eq show ?thesis by blast
qed

text \<open>
  \<open>hash_find_server\<close> answers either a server (or this one) of that
  name, or a client filed under \<open>*.suffix\<close> for a suffix of the first 63 bytes of the name.
\<close>

theorem hash_find_server_sound:
  assumes "hash_find_server nm srv tab name = Some p"
  shows "in_table p (chains_of tab) \<and>
    (srv p \<and> irccmp name (nm p) = 0 \<or>
     (\<exists>pre rest. take HOSTLEN (cut name) = pre @ CHR ''.'' # rest \<and>
        irccmp (''*.'' @ rest) (nm p) = 0))"
proof (cases "List.find (\<lambda>p. srv p \<and> irccmp name (nm p) = 0) (chain (tab (hash_nick_name name)))")
  case (Some q)
  with assms find_SomeD [OF Some] show ?thesis
    by (auto simp: hash_find_server_def in_table_def chains_of_def)
next
  case None
  with assms have "masked_from (\<lambda>s. hash_find_client nm tab s None) (take HOSTLEN (cut name)) = Some p"
    by (auto simp: hash_find_server_def hash_find_masked_server_def split: if_splits)
  then obtain pre rest where "take HOSTLEN (cut name) = pre @ CHR ''.'' # rest"
    "hash_find_client nm tab (''*.'' @ rest) None = Some p"
    using masked_from_sound by fastforce
  with hash_find_client_sound [of nm tab "''*.'' @ rest" p] show ?thesis by blast
qed

theorem hash_find_server_sound_witness:
  "\<exists>pre rest. take HOSTLEN (cut ''a.pt'') = pre @ CHR ''.'' # rest \<and>
     irccmp (''*.'' @ rest) ((\<lambda>_::nat. ''*.pt'') 3) = 0"
proof -
  let ?nm = "\<lambda>_::nat. ''*.pt''" and ?tab = "add_to_client_hash_table ''*.pt'' 3 clear_hash_table"
  have ne: "irccmp ''a.pt'' ''*.pt'' \<noteq> 0" by code_simp
  then have "List.find (\<lambda>p. True \<and> irccmp ''a.pt'' (?nm p) = 0) (chain (?tab h)) = None" for h
    by (simp add: find_None_iff)
  moreover have "hash_find_client ?nm ?tab ''*.pt'' None = Some 3"
    using nick_hash.found_add [of "''*.pt''" ?nm 3]
    by (simp add: hash_find_client_chains hash_op_defs del: nick_hash.found_add)
  ultimately have "hash_find_server ?nm (\<lambda>_. True) ?tab ''a.pt'' = Some 3"
    by (simp add: hash_find_server_def hash_find_masked_server_def masked_from.simps [of _ "''a.pt''"]
        HOSTLEN_def)
  with ne show ?thesis using hash_find_server_sound by blast
qed

text \<open>
  The channel hash depends on the first 29 characters of the name only
  (the comment above the function says 30).
\<close>

theorem hash_channel_name_29:
  "hash_channel_name name = unat (hash_fold 0 (take 29 (cut name)) AND (word_of_nat CH_MAX - 1))"
  by (simp add: hash_channel_name_def hash_channel_loop_take)

end
