(* ===== verification/CLib.thy ===== *)
theory CLib
  imports Prelude
begin

text \<open>
  The functions of the C standard library that the daemon calls, on C strings without their
  terminating NUL: searching (\<open>strchr\<close>, \<open>strrchr\<close>, \<open>strstr\<close>), comparison without case in the C
  locale (\<open>strcasecmp\<close>, \<open>strncasecmp\<close>), decimal printing (\<open>%d\<close>) and reading (\<open>atoi\<close>).
\<close>

subsection \<open>Searching\<close>

text \<open>\<open>strchr s c\<close> is the suffix of \<open>s\<close> that starts at the first \<open>c\<close>.\<close>

fun strchr :: "cstr \<Rightarrow> char \<Rightarrow> cstr option" where
  "strchr [] c = None"
| "strchr (d # s) c = (if d = c then Some (d # s) else strchr s c)"

fun strrchr :: "cstr \<Rightarrow> char \<Rightarrow> cstr option" where
  "strrchr [] c = None"
| "strrchr (d # s) c =
     (case strrchr s c of Some t \<Rightarrow> Some t | None \<Rightarrow> if d = c then Some (d # s) else None)"

fun strstr :: "cstr \<Rightarrow> cstr \<Rightarrow> bool" where
  "strstr [] w = (w = [])"
| "strstr (c # s) w = (take (length w) (c # s) = w \<or> strstr s w)"

lemma strchr_None_iff: "strchr s c = None \<longleftrightarrow> c \<notin> set s"
  by (induction s) auto

lemma strchr_SomeD: "strchr s c = Some t \<Longrightarrow> \<exists>p. s = p @ t \<and> c \<notin> set p \<and> hd0 t = c \<and> t \<noteq> []"
proof (induction s)
  case (Cons d s)
  show ?case
  proof (cases "d = c")
    case False
    with Cons obtain p where "s = p @ t" "c \<notin> set p" "hd0 t = c" "t \<noteq> []" by auto
    with False show ?thesis by (intro exI [of _ "d # p"]) auto
  qed (use Cons in auto)
qed simp

lemma strchr_append: "c \<notin> set p \<Longrightarrow> strchr (p @ c # t) c = Some (c # t)"
  by (induction p) auto

lemma strrchr_None_iff: "strrchr s c = None \<longleftrightarrow> c \<notin> set s"
  by (induction s) (auto split: option.splits)

lemma strrchr_append: "c \<notin> set t \<Longrightarrow> strrchr (p @ c # t) c = Some (c # t)"
  by (induction p) (auto simp: strrchr_None_iff [THEN iffD2])

lemma strrchr_SomeD: "strrchr s c = Some t \<Longrightarrow> \<exists>p u. s = p @ t \<and> t = c # u \<and> c \<notin> set u"
proof (induction s)
  case (Cons d s)
  show ?case
  proof (cases "strrchr s c")
    case None
    with Cons.prems have "d = c" "t = d # s" by (auto split: if_splits)
    with None show ?thesis by (auto simp: strrchr_None_iff)
  next
    case (Some t')
    with Cons.prems have "t' = t" by simp
    with Some Cons.IH obtain p u where "s = p @ t" "t = c # u" "c \<notin> set u" by blast
    then have "d # s = (d # p) @ t \<and> t = c # u \<and> c \<notin> set u" by simp
    then show ?thesis by blast
  qed
qed simp

lemma strstr_iff: "strstr s w \<longleftrightarrow> (\<exists>p q. s = p @ w @ q)"
proof (induction s)
  case (Cons c s)
  have "take (length w) (c # s) = w \<longleftrightarrow> (\<exists>q. c # s = w @ q)"
    by (metis append_eq_conv_conj append_take_drop_id)
  moreover have "(\<exists>p q. c # s = p @ w @ q) \<longleftrightarrow> (\<exists>q. c # s = w @ q) \<or> (\<exists>p q. s = p @ w @ q)"
    by (metis append_Cons append_Nil list.exhaust list.inject)
  ultimately show ?case using Cons by simp
qed simp

subsection \<open>Comparison without case\<close>

definition tolower :: "char \<Rightarrow> char" where
  "tolower c = (if 65 \<le> byte c \<and> byte c \<le> 90 then chr (byte c + 32) else c)"

definition strcasecmp_eq :: "cstr \<Rightarrow> cstr \<Rightarrow> bool" where
  "strcasecmp_eq s t \<longleftrightarrow> map tolower s = map tolower t"

definition strncasecmp_eq :: "cstr \<Rightarrow> cstr \<Rightarrow> nat \<Rightarrow> bool" where
  "strncasecmp_eq s t n \<longleftrightarrow> map tolower (take n s) = map tolower (take n t)"

definition strncmp_eq :: "cstr \<Rightarrow> cstr \<Rightarrow> nat \<Rightarrow> bool" where
  "strncmp_eq s t n \<longleftrightarrow> take n s = take n t"

text \<open>\<open>strcmp(s, t) < 0\<close>: the bytes compared as unsigned.\<close>

fun strcmp_less :: "cstr \<Rightarrow> cstr \<Rightarrow> bool" where
  "strcmp_less s [] = False"
| "strcmp_less [] (d # t) = True"
| "strcmp_less (c # s) (d # t) = (byte c < byte d \<or> c = d \<and> strcmp_less s t)"

lemma strcmp_less_irrefl: "\<not> strcmp_less s s"
  by (induction s) auto

lemma strcmp_less_trans: "strcmp_less s t \<Longrightarrow> strcmp_less t u \<Longrightarrow> strcmp_less s u"
proof (induction s t arbitrary: u rule: strcmp_less.induct)
  case (3 c s d t)
  then show ?case by (cases u) auto
next
  case (2 d t)
  then show ?case by (cases u) auto
qed simp

lemma strcmp_less_total: "s \<noteq> t \<Longrightarrow> \<not> strcmp_less s t \<Longrightarrow> strcmp_less t s"
proof (induction s t rule: strcmp_less.induct)
  case (3 c s d t)
  have "byte c = byte d \<Longrightarrow> c = d" by simp
  with 3 show ?case by (cases "byte c" "byte d" rule: linorder_cases) auto
next
  case (1 s)
  then show ?case by (cases s) auto
qed auto

subsection \<open>Numbers\<close>

fun dec_nat :: "nat \<Rightarrow> cstr" where
  "dec_nat n = (if n < 10 then [chr (48 + n)] else dec_nat (n div 10) @ [chr (48 + n mod 10)])"

declare dec_nat.simps [simp del]

definition dec :: "int \<Rightarrow> cstr" where
  "dec i = (if i < 0 then CHR ''-'' # dec_nat (nat (- i)) else dec_nat (nat i))"

text \<open>\<open>%lu\<close> of a signed 64-bit value.\<close>

definition lu :: "int \<Rightarrow> cstr" where "lu i = dec (i mod 2 ^ 64)"

lemma lu_pos: "0 \<le> i \<Longrightarrow> i < 2 ^ 63 \<Longrightarrow> lu i = dec i"
  by (simp add: lu_def)

definition is_digit :: "char \<Rightarrow> bool" where
  "is_digit c \<longleftrightarrow> 48 \<le> byte c \<and> byte c \<le> 57"

fun dec_value :: "nat \<Rightarrow> cstr \<Rightarrow> nat" where
  "dec_value acc [] = acc"
| "dec_value acc (c # s) = (if is_digit c then dec_value (10 * acc + (byte c - 48)) s else acc)"

text \<open>
  \<open>atoi s\<close> is \<open>(int) strtol (s, NULL, 10)\<close>: white space, an optional sign, digits; the value is
  clamped to 64 bits and cut to the low 32.
\<close>

definition strtol :: "cstr \<Rightarrow> int" where
  "strtol s =
     (let t = dropWhile (\<lambda>c. c = CHR '' '' \<or> (9 \<le> byte c \<and> byte c \<le> 13)) s;
          v = (if hd0 t = CHR ''-'' then - int (dec_value 0 (tl t))
               else if hd0 t = CHR ''+'' then int (dec_value 0 (tl t)) else int (dec_value 0 t))
      in max (- (2 ^ 63)) (min (2 ^ 63 - 1) v))"

definition atoi :: "cstr \<Rightarrow> int" where
  "atoi s = sint (word_of_int (strtol s) :: 32 word)"

lemma is_digit_chr: "d < 10 \<Longrightarrow> is_digit (chr (48 + d))"
  by (simp add: is_digit_def)

lemma dec_value_append:
  "\<forall>c\<in>set s. is_digit c \<Longrightarrow> dec_value acc (s @ t) = dec_value (dec_value acc s) t"
  by (induction acc s rule: dec_value.induct) auto

lemma dec_nat_digits: "c \<in> set (dec_nat n) \<Longrightarrow> is_digit c"
proof (induction n rule: dec_nat.induct)
  case (1 n)
  then show ?case
    by (cases "n < 10") (auto simp: dec_nat.simps [of n] is_digit_chr)
qed

lemma dec_nat_not_Nil [simp]: "dec_nat n \<noteq> []"
  by (subst dec_nat.simps) simp

lemma dec_value_dec_nat: "dec_value 0 (dec_nat n) = n"
proof (induction n rule: dec_nat.induct)
  case (1 n)
  show ?case
  proof (cases "n < 10")
    case True
    then show ?thesis by (simp add: dec_nat.simps [of n] is_digit_chr)
  next
    case False
    with 1 have "dec_value 0 (dec_nat (n div 10)) = n div 10" by simp
    with False show ?thesis
      by (simp add: dec_nat.simps [of n] dec_value_append dec_nat_digits is_digit_chr)
  qed
qed

text \<open>Decimal printing and reading are inverse, on 64 bits with \<open>strtol\<close> and on 32 with \<open>atoi\<close>.\<close>

lemma strtol_dec:
  assumes "- (2 ^ 63) \<le> i" "i < 2 ^ 63"
  shows "strtol (dec i) = i"
proof -
  have nd: "\<not> (c = CHR '' '' \<or> (9 \<le> byte c \<and> byte c \<le> 13)) \<and> c \<noteq> CHR ''-'' \<and> c \<noteq> CHR ''+''"
    if "is_digit c" for c using that by (auto simp: is_digit_def)
  have hd: "dropWhile (\<lambda>c. c = CHR '' '' \<or> (9 \<le> byte c \<and> byte c \<le> 13)) (dec_nat n) = dec_nat n
       \<and> hd0 (dec_nat n) \<noteq> CHR ''-'' \<and> hd0 (dec_nat n) \<noteq> CHR ''+''" for n
  proof (cases "dec_nat n")
    case (Cons c s)
    then have "is_digit c" using dec_nat_digits [of c n] by simp
    then have "dropWhile (\<lambda>c. c = CHR '' '' \<or> (9 \<le> byte c \<and> byte c \<le> 13)) (c # s) = c # s"
      "c \<noteq> CHR ''-'' \<and> c \<noteq> CHR ''+''"
      using nd [of c] by (auto simp flip: not_le)
    with Cons show ?thesis by simp
  qed simp
  show ?thesis using assms hd by (auto simp: strtol_def dec_def dec_value_dec_nat)
qed

lemma strtol_lu: "0 \<le> i \<Longrightarrow> i < 2 ^ 63 \<Longrightarrow> strtol (lu i) = i"
  using strtol_dec [of i] by (simp add: lu_pos)

lemma atoi_dec:
  assumes "- (2 ^ 31) \<le> i" "i < 2 ^ 31"
  shows "atoi (dec i) = i"
proof -
  have "strtol (dec i) = i" using assms by (intro strtol_dec) simp_all
  moreover have "signed_take_bit 31 i = i"
    using assms by (intro signed_take_bit_int_eq_self) simp_all
  ultimately show ?thesis by (simp add: atoi_def sint_sbintrunc')
qed

end
