(* ===== verification/TwoWay.thy ===== *)
theory TwoWay
  imports Prelude "HOL-Library.Multiset"
begin

text \<open>
  Several relations of the daemon are kept twice, once on each side: the members of a channel and
  the channels of a user, the invitations of a channel and those of a user, the watchers of a nick
  and the watch list of a client. \<open>two_way\<close> is the contract of such a pair of lists: linking puts
  one element on each side, unlinking removes the first occurrence on each side. The lemmas show
  that the two sides then always tell the same story, without duplicates.
\<close>

locale two_way =
  fixes left :: "'s \<Rightarrow> nat \<Rightarrow> nat list"
    and right :: "'s \<Rightarrow> nat \<Rightarrow> nat list"
    and link :: "nat \<Rightarrow> nat \<Rightarrow> 's \<Rightarrow> 's"
    and unlink :: "nat \<Rightarrow> nat \<Rightarrow> 's \<Rightarrow> 's"
  assumes left_link: "mset (left (link a b s) x) = (if x = a then add_mset b (mset (left s x)) else mset (left s x))"
    and right_link: "mset (right (link a b s) y) = (if y = b then add_mset a (mset (right s y)) else mset (right s y))"
    and left_unlink: "left (unlink a b s) x = (if x = a then remove1 b (left s x) else left s x)"
    and right_unlink: "right (unlink a b s) y = (if y = b then remove1 a (right s y) else right s y)"
begin

definition agree :: "'s \<Rightarrow> bool" where
  "agree s \<longleftrightarrow> (\<forall>a. distinct (left s a)) \<and> (\<forall>b. distinct (right s b)) \<and>
     (\<forall>a b. b \<in> set (left s a) \<longleftrightarrow> a \<in> set (right s b))"

lemma agreeD: "agree s \<Longrightarrow> b \<in> set (left s a) \<longleftrightarrow> a \<in> set (right s b)"
  by (simp add: agree_def)

lemma set_left_link: "set (left (link a b s) x) = (if x = a then insert b (set (left s x)) else set (left s x))"
proof -
  have "set_mset (mset (left (link a b s) x)) =
    set_mset (if x = a then add_mset b (mset (left s x)) else mset (left s x))"
    by (simp only: left_link)
  then show ?thesis by (simp split: if_splits)
qed

lemma set_right_link: "set (right (link a b s) y) = (if y = b then insert a (set (right s y)) else set (right s y))"
proof -
  have "set_mset (mset (right (link a b s) y)) =
    set_mset (if y = b then add_mset a (mset (right s y)) else mset (right s y))"
    by (simp only: right_link)
  then show ?thesis by (simp split: if_splits)
qed

lemma length_left_link: "length (left (link a b s) x) = length (left s x) + (if x = a then 1 else 0)"
  using arg_cong [OF left_link, of size a b s x] by (simp split: if_splits)

lemma length_right_link: "length (right (link a b s) y) = length (right s y) + (if y = b then 1 else 0)"
  using arg_cong [OF right_link, of size a b s y] by (simp split: if_splits)

lemma distinct_left_link:
  "distinct (left s x) \<Longrightarrow> b \<notin> set (left s a) \<Longrightarrow> distinct (left (link a b s) x)"
proof -
  assume a: "distinct (left s x)" "b \<notin> set (left s a)"
  have "mset (left (link a b s) x) = mset (if x = a then b # left s x else left s x)"
    by (simp add: left_link)
  then have "distinct (left (link a b s) x) \<longleftrightarrow> distinct (if x = a then b # left s x else left s x)"
    by (rule mset_eq_imp_distinct_iff)
  with a show ?thesis by (simp split: if_splits)
qed

lemma distinct_right_link:
  "distinct (right s y) \<Longrightarrow> a \<notin> set (right s b) \<Longrightarrow> distinct (right (link a b s) y)"
proof -
  assume a: "distinct (right s y)" "a \<notin> set (right s b)"
  have "mset (right (link a b s) y) = mset (if y = b then a # right s y else right s y)"
    by (simp add: right_link)
  then have "distinct (right (link a b s) y) \<longleftrightarrow> distinct (if y = b then a # right s y else right s y)"
    by (rule mset_eq_imp_distinct_iff)
  with a show ?thesis by (simp split: if_splits)
qed

theorem agree_link: "agree s \<Longrightarrow> b \<notin> set (left s a) \<Longrightarrow> agree (link a b s)"
  unfolding agree_def
  by (intro conjI allI distinct_left_link distinct_right_link) (auto simp: set_left_link set_right_link)

theorem agree_unlink: "agree s \<Longrightarrow> agree (unlink a b s)"
  by (auto simp: agree_def left_unlink right_unlink split: if_splits)

lemma in_unlink: "agree s \<Longrightarrow> y \<in> set (left (unlink a b s) x) \<longleftrightarrow> y \<in> set (left s x) \<and> (x, y) \<noteq> (a, b)"
  by (auto simp: agree_def left_unlink)

lemma in_unlink_right: "agree s \<Longrightarrow> x \<in> set (right (unlink a b s) y) \<longleftrightarrow> x \<in> set (right s y) \<and> (x, y) \<noteq> (a, b)"
  by (auto simp: agree_def right_unlink)

lemma length_unlink:
  "b \<in> set (left s a) \<Longrightarrow> length (left (unlink a b s) x) = length (left s x) - (if x = a then 1 else 0)"
  by (auto simp: left_unlink length_remove1)

lemma length_unlink_right:
  "a \<in> set (right s b) \<Longrightarrow> length (right (unlink a b s) y) = length (right s y) - (if y = b then 1 else 0)"
  by (auto simp: right_unlink length_remove1)

lemma unlink_absent: "agree s \<Longrightarrow> b \<notin> set (left s a) \<Longrightarrow> left (unlink a b s) = left s \<and> right (unlink a b s) = right s"
  by (auto simp: agree_def left_unlink right_unlink remove1_idem fun_eq_iff)

end

end
