(* ===== verification/ChanState.thy ===== *)
theory ChanState
  imports HashTab CLib TwoWay
begin

text \<open>
  The state behind \<open>src/channel.c\<close>: clients, channels and the globals they hang from. A pointer
  is a number, \<open>0\<close> the null pointer; \<open>clients\<close> and \<open>chans\<close> are the memory of the client and
  channel blocks, \<open>channel\<close> is the global list of live channels (linked through \<open>nextch\<close> and
  \<open>prevch\<close>), \<open>chan_table\<close> the channel hash table. A list linked through \<open>struct SLink\<close> is a list:
  a member link is a record of the fields members use, a link of \<open>invites\<close>, \<open>user->channel\<close> or
  \<open>user->invited\<close> is the pointer it holds. What is sent is appended to \<open>sent\<close>.
\<close>

subsection \<open>Constants\<close>

definition NICKLEN :: nat where "NICKLEN = 20"
definition USERLEN :: nat where "USERLEN = 10"
definition CHANNELLEN :: nat where "CHANNELLEN = 32"
definition KEYLEN :: nat where "KEYLEN = 23"
definition TOPICLEN :: nat where "TOPICLEN = 300"
definition MAXBANS :: int where "MAXBANS = 60"
definition BAN_NICK :: int where "BAN_NICK = 1"

definition CHFL_CHANOP :: "32 word" where "CHFL_CHANOP = 0x1"
definition CHFL_VOICE :: "32 word" where "CHFL_VOICE = 0x2"
definition CHFL_DEOPPED :: "32 word" where "CHFL_DEOPPED = 0x4"
definition CHFL_BAN :: "32 word" where "CHFL_BAN = 0x8"
definition CHFL_CHANADM :: "32 word" where "CHFL_CHANADM = 0x20"

abbreviation "MODE_CHANOP \<equiv> CHFL_CHANOP"
abbreviation "MODE_VOICE \<equiv> CHFL_VOICE"
abbreviation "MODE_DEOPPED \<equiv> CHFL_DEOPPED"
abbreviation "MODE_CHANADM \<equiv> CHFL_CHANADM"

definition MODE_PRIVATE :: "32 word" where "MODE_PRIVATE = 0x8"
definition MODE_SECRET :: "32 word" where "MODE_SECRET = 0x10"
definition MODE_MODERATED :: "32 word" where "MODE_MODERATED = 0x20"
definition MODE_TOPICLIMIT :: "32 word" where "MODE_TOPICLIMIT = 0x40"
definition MODE_INVITEONLY :: "32 word" where "MODE_INVITEONLY = 0x80"
definition MODE_NOPRIVMSGS :: "32 word" where "MODE_NOPRIVMSGS = 0x100"
definition MODE_KEY :: "32 word" where "MODE_KEY = 0x200"
definition MODE_BAN :: "32 word" where "MODE_BAN = 0x400"
definition MODE_LIMIT :: "32 word" where "MODE_LIMIT = 0x2000"
definition MODE_REGISTERED :: "32 word" where "MODE_REGISTERED = 0x4000"
definition MODE_REGONLY :: "32 word" where "MODE_REGONLY = 0x8000"
definition MODE_OPERONLY :: "32 word" where "MODE_OPERONLY = 0x10000"
definition MODE_ADMINONLY :: "32 word" where "MODE_ADMINONLY = 0x20000"
definition MODE_NOSPAM :: "32 word" where "MODE_NOSPAM = 0x40000"
definition MODE_NOFLOOD :: "32 word" where "MODE_NOFLOOD = 0x80000"
definition MODE_NOCOLORS :: "32 word" where "MODE_NOCOLORS = 0x100000"
definition MODE_NOQUITS :: "32 word" where "MODE_NOQUITS = 0x200000"
definition MODE_KNOCK :: "32 word" where "MODE_KNOCK = 0x400000"
definition MODE_FLOODLIMIT :: "32 word" where "MODE_FLOODLIMIT = 0x800000"
definition MODE_NOBOTS :: "32 word" where "MODE_NOBOTS = 0x1000000"
definition MODE_NONICKCH :: "32 word" where "MODE_NONICKCH = 0x2000000"
definition MODE_SSLONLY :: "32 word" where "MODE_SSLONLY = 0x4000000"
definition MODE_FLAGS :: "32 word" where "MODE_FLAGS = 0x1ffffff"
definition MODE_LOG :: "32 word" where "MODE_LOG = 0x10000000"
definition MODE_QUERY :: "32 word" where "MODE_QUERY = 0x10000000"
definition MODE_ADD :: "32 word" where "MODE_ADD = 0x40000000"
definition MODE_DEL :: "32 word" where "MODE_DEL = 0x20000000"

lemmas chfl_defs = CHFL_CHANOP_def CHFL_VOICE_def CHFL_DEOPPED_def CHFL_BAN_def CHFL_CHANADM_def

lemmas mode_defs = MODE_PRIVATE_def MODE_SECRET_def MODE_MODERATED_def MODE_TOPICLIMIT_def
  MODE_INVITEONLY_def MODE_NOPRIVMSGS_def MODE_KEY_def MODE_BAN_def MODE_LIMIT_def
  MODE_REGISTERED_def MODE_REGONLY_def MODE_OPERONLY_def MODE_ADMINONLY_def MODE_NOSPAM_def
  MODE_NOFLOOD_def MODE_NOCOLORS_def MODE_NOQUITS_def MODE_KNOCK_def MODE_FLOODLIMIT_def
  MODE_NOBOTS_def MODE_NONICKCH_def MODE_SSLONLY_def MODE_FLAGS_def MODE_LOG_def MODE_QUERY_def
  MODE_ADD_def MODE_DEL_def

subsection \<open>Data\<close>

record member =
  mb_cptr :: nat
  mb_flags :: "32 word"
  nmsg :: int
  lastmsg :: time_t
  lmsg :: "cstr option"
  lsize :: int
  lmsg_time :: time_t

record ban =
  banstr :: cstr
  bantype :: int
  who :: cstr
  "when" :: time_t

record chan_mode =
  md_mode :: "32 word"
  md_limit :: int
  md_key :: cstr
  md_msgs :: int
  md_per :: int

record chan =
  chname :: cstr
  mode :: chan_mode
  topic :: cstr
  topic_nick :: cstr
  topic_time :: time_t
  users :: int
  iusers :: int
  members :: "member list"
  invites :: "nat list"
  banlist :: "ban list"
  num_bed :: int
  channelts :: time_t

datatype status = STAT_CONNECTING | STAT_HANDSHAKE | STAT_ME | STAT_UNKNOWN | STAT_SERVER | STAT_CLIENT

text \<open>\<open>has_user\<close> says that \<open>client->user\<close> is not null; the fields of that block follow it.\<close>

record client =
  c_name :: cstr
  c_username :: cstr
  c_host :: cstr
  c_realhost :: cstr
  c_umodes :: "32 word"
  c_flags :: "32 word"
  c_status :: status
  local_flag :: bool
  c_since :: time_t
  has_user :: bool
  u_channel :: "nat list"
  u_invited :: "nat list"
  u_joined :: int
  u_away :: "cstr option"
  u_server :: cstr
  c_from :: nat
  last_join_time :: time_t
  last_leave_time :: time_t
  join_leave_count :: int
  oper_warn_count_down :: int
  last_knock :: time_t
  targets :: "8 word list"
  nexttarget :: time_t
  u_silence :: "cstr list"

record config =
  me_name :: cstr
  OperCanAlwaysSend :: bool
  OperCanAlwaysJoin :: bool
  OperByPass :: "cstr option"
  AllowChanCTCP :: bool
  ChanFloodTime :: int
  RestrictedChans :: bool
  MaxChansPerUser :: int
  spam_words :: "cstr list"
  FloodLimit_Msg :: "int \<Rightarrow> int \<Rightarrow> cstr"
  MaxChansPerRegUser :: int
  RestrictedChansMsg :: cstr
  secure_mode :: bool
  services_on :: bool
  SPAMNUM :: int
  SPAMTIME :: int
  OperKickProtection :: bool
  DefaultChanMode :: cstr
  CheckSpamOnTarget :: bool

text \<open>Whom a line goes to, and the line.\<close>

datatype target = ToOne nat | ToOps | ToServers | ToChanOps nat | ToChannel nat | ToMatchServs nat

record ircd =
  clients :: "nat \<Rightarrow> client"
  chans :: "nat \<Rightarrow> chan"
  channel :: "nat list"
  chan_table :: hash_table
  count_chan :: int
  CurrentTime :: time_t
  cfg :: config
  sent :: "(target \<times> cstr) list"

text \<open>\<open>FloodLimit_Msg\<close> stands for the configured format applied to its two numbers.\<close>

subsection \<open>Client predicates of \<open>client.h\<close>\<close>

definition UMODE_IDENTIFIED :: "32 word" where "UMODE_IDENTIFIED = 0x8"
definition UMODE_SSL :: "32 word" where "UMODE_SSL = 0x200"
definition UMODE_OPER :: "32 word" where "UMODE_OPER = 0x4000"
definition UMODE_LOCOP :: "32 word" where "UMODE_LOCOP = 0x8000"
definition UMODE_FLOODEX :: "32 word" where "UMODE_FLOODEX = 0x08000000"
definition UMODE_ADMIN :: "32 word" where "UMODE_ADMIN = 0x20000"
definition UMODE_TECHADMIN :: "32 word" where "UMODE_TECHADMIN = 0x40000"
definition UMODE_NETADMIN :: "32 word" where "UMODE_NETADMIN = 0x80000"
definition UMODE_BOT :: "32 word" where "UMODE_BOT = 0x200000"
definition UMODE_STEALTH :: "32 word" where "UMODE_STEALTH = 0x2000000"
definition FLAGS_SERVICE :: "32 word" where "FLAGS_SERVICE = 0x2000"

lemmas umode_defs = UMODE_IDENTIFIED_def UMODE_SSL_def UMODE_OPER_def UMODE_LOCOP_def UMODE_ADMIN_def
  UMODE_TECHADMIN_def UMODE_NETADMIN_def UMODE_BOT_def UMODE_STEALTH_def FLAGS_SERVICE_def

definition IsServer :: "client \<Rightarrow> bool" where "IsServer c \<longleftrightarrow> c_status c = STAT_SERVER"
definition IsClient :: "client \<Rightarrow> bool" where "IsClient c \<longleftrightarrow> c_status c = STAT_CLIENT"
definition IsPerson :: "client \<Rightarrow> bool" where "IsPerson c \<longleftrightarrow> IsClient c \<and> has_user c"
definition MyClient :: "client \<Rightarrow> bool" where "MyClient c \<longleftrightarrow> local_flag c \<and> IsClient c"
definition IsOper :: "client \<Rightarrow> bool" where "IsOper c \<longleftrightarrow> has (c_umodes c) UMODE_OPER"
definition IsAnOper :: "client \<Rightarrow> bool" where "IsAnOper c \<longleftrightarrow> has (c_umodes c) (UMODE_OPER OR UMODE_LOCOP)"
definition IsAdmin :: "client \<Rightarrow> bool" where "IsAdmin c \<longleftrightarrow> has (c_umodes c) UMODE_ADMIN"
definition IsTechAdmin :: "client \<Rightarrow> bool" where "IsTechAdmin c \<longleftrightarrow> has (c_umodes c) UMODE_TECHADMIN"
definition IsNetAdmin :: "client \<Rightarrow> bool" where "IsNetAdmin c \<longleftrightarrow> has (c_umodes c) UMODE_NETADMIN"
definition IsSsl :: "client \<Rightarrow> bool" where "IsSsl c \<longleftrightarrow> has (c_umodes c) UMODE_SSL"
definition IsStealth :: "client \<Rightarrow> bool" where "IsStealth c \<longleftrightarrow> has (c_umodes c) UMODE_STEALTH"
definition IsBot :: "client \<Rightarrow> bool" where "IsBot c \<longleftrightarrow> has (c_umodes c) UMODE_BOT"
definition IsIdentified :: "client \<Rightarrow> bool" where "IsIdentified c \<longleftrightarrow> has (c_umodes c) UMODE_IDENTIFIED"
definition IsService :: "client \<Rightarrow> bool" where "IsService c \<longleftrightarrow> has (c_flags c) FLAGS_SERVICE"

subsection \<open>Access to the store\<close>

definition upd_chan :: "nat \<Rightarrow> (chan \<Rightarrow> chan) \<Rightarrow> ircd \<Rightarrow> ircd" where
  "upd_chan ch f s = s\<lparr>chans := (chans s)(ch := f (chans s ch))\<rparr>"

definition upd_client :: "nat \<Rightarrow> (client \<Rightarrow> client) \<Rightarrow> ircd \<Rightarrow> ircd" where
  "upd_client cl f s = s\<lparr>clients := (clients s)(cl := f (clients s cl))\<rparr>"

definition send :: "target \<Rightarrow> cstr \<Rightarrow> ircd \<Rightarrow> ircd" where
  "send t m s = s\<lparr>sent := sent s @ [(t, m)]\<rparr>"

lemma upd_chan_sel [simp]:
  "chans (upd_chan ch f s) = (chans s)(ch := f (chans s ch))"
  "clients (upd_chan ch f s) = clients s" "channel (upd_chan ch f s) = channel s"
  "chan_table (upd_chan ch f s) = chan_table s" "count_chan (upd_chan ch f s) = count_chan s"
  "CurrentTime (upd_chan ch f s) = CurrentTime s" "cfg (upd_chan ch f s) = cfg s"
  "sent (upd_chan ch f s) = sent s"
  by (simp_all add: upd_chan_def)

lemma upd_client_sel [simp]:
  "clients (upd_client cl g s) = (clients s)(cl := g (clients s cl))"
  "chans (upd_client cl g s) = chans s" "channel (upd_client cl g s) = channel s"
  "chan_table (upd_client cl g s) = chan_table s" "count_chan (upd_client cl g s) = count_chan s"
  "CurrentTime (upd_client cl g s) = CurrentTime s" "cfg (upd_client cl g s) = cfg s"
  "sent (upd_client cl g s) = sent s"
  by (simp_all add: upd_client_def)

lemma send_sel [simp]:
  "clients (send t m s) = clients s" "chans (send t m s) = chans s" "channel (send t m s) = channel s"
  "chan_table (send t m s) = chan_table s" "count_chan (send t m s) = count_chan s"
  "CurrentTime (send t m s) = CurrentTime s" "cfg (send t m s) = cfg s"
  "sent (send t m s) = sent s @ [(t, m)]"
  by (simp_all add: send_def)

text \<open>\<open>find_user_link\<close> and \<open>find_channel_link\<close> of \<open>src/list.c\<close>.\<close>

definition find_user_link :: "member list \<Rightarrow> nat \<Rightarrow> member option" where
  "find_user_link ms p = (if p = 0 then None else List.find (\<lambda>m. mb_cptr m = p) ms)"

definition find_channel_link :: "nat list \<Rightarrow> nat \<Rightarrow> nat option" where
  "find_channel_link cs p = (if p = 0 then None else List.find (\<lambda>c. c = p) cs)"

definition IsMember :: "ircd \<Rightarrow> nat \<Rightarrow> nat \<Rightarrow> bool" where
  "IsMember s cl ch \<longleftrightarrow> cl \<noteq> 0 \<and> has_user (clients s cl) \<and>
     find_channel_link (u_channel (clients s cl)) ch \<noteq> None"

lemma find_user_link_None: "find_user_link ms p = None \<longleftrightarrow> p = 0 \<or> p \<notin> set (map mb_cptr ms)"
  by (auto simp: find_user_link_def find_None_iff)

lemma find_user_link_SomeD: "find_user_link ms p = Some m \<Longrightarrow> m \<in> set ms \<and> mb_cptr m = p \<and> p \<noteq> 0"
  by (auto simp: find_user_link_def dest!: find_SomeD split: if_splits)

lemma find_channel_link_None: "find_channel_link cs p = None \<longleftrightarrow> p = 0 \<or> p \<notin> set cs"
  by (auto simp: find_channel_link_def find_None_iff)

text \<open>A local registered user without channels, for concrete runs.\<close>

definition plain_user :: "cstr \<Rightarrow> cstr \<Rightarrow> cstr \<Rightarrow> client" where
  "plain_user n u h = \<lparr>c_name = n, c_username = u, c_host = h, c_realhost = h, c_umodes = 0, c_flags = 0,
     c_status = STAT_CLIENT, local_flag = True, c_since = 0, has_user = True,
     u_channel = [], u_invited = [], u_joined = 0, u_away = None, u_server = ''irc.pt'', c_from = 0,
     last_join_time = 0, last_leave_time = 0, join_leave_count = 0, oper_warn_count_down = 0, last_knock = 0,
     targets = replicate 10 0, nexttarget = 0, u_silence = []\<rparr>"

definition plain_config :: config where
  "plain_config = \<lparr>me_name = ''irc.pt'', OperCanAlwaysSend = False, OperCanAlwaysJoin = False,
     OperByPass = None, AllowChanCTCP = False, ChanFloodTime = 10, RestrictedChans = False,
     MaxChansPerUser = 10, spam_words = [], FloodLimit_Msg = (\<lambda>m p. ''slow down''),
     MaxChansPerRegUser = 0, RestrictedChansMsg = ''closed'', secure_mode = False, services_on = False,
     SPAMNUM = 20, SPAMTIME = 60, OperKickProtection = True, DefaultChanMode = ''+nt'',
     CheckSpamOnTarget = False\<rparr>"

end
