(* ===== verification/ChanMember.thy ===== *)
theory ChanMember
  imports ChanState
begin

text \<open>
  Membership, invitations and the life of a channel block, from \<open>src/channel.c\<close>: a user joins
  and leaves (\<open>add_user_to_channel\<close>, \<open>remove_user_from_channel\<close>), is invited (\<open>add_invite\<close>,
  \<open>del_invite\<close>), a channel is created (\<open>get_channel\<close>) and freed when its last user leaves
  (\<open>sub1_from_channel\<close>). \<open>chan_inv\<close> is the invariant of the whole store; \<open>chan_step\<close> the steps the
  command handlers take, each under the handler's guard.
\<close>

subsection \<open>The two sides of membership and of invitations\<close>

definition members_of :: "ircd \<Rightarrow> nat \<Rightarrow> nat list" where
  "members_of s ch = map mb_cptr (members (chans s ch))"

definition channels_of :: "ircd \<Rightarrow> nat \<Rightarrow> nat list" where
  "channels_of s cl = u_channel (clients s cl)"

definition invites_of :: "ircd \<Rightarrow> nat \<Rightarrow> nat list" where
  "invites_of s ch = invites (chans s ch)"

definition invited_of :: "ircd \<Rightarrow> nat \<Rightarrow> nat list" where
  "invited_of s cl = u_invited (clients s cl)"

text \<open>The links \<open>add_user_to_channel\<close> makes: both at the head of their list.\<close>

definition link_member :: "32 word \<Rightarrow> nat \<Rightarrow> nat \<Rightarrow> ircd \<Rightarrow> ircd" where
  "link_member fl ch cl s =
     upd_client cl (\<lambda>c. c\<lparr>u_channel := ch # u_channel c\<rparr>)
      (upd_chan ch (\<lambda>c. c\<lparr>members := \<lparr>mb_cptr = cl, mb_flags = fl, nmsg = 0, lastmsg = 0,
         lmsg = None, lsize = 0, lmsg_time = 0\<rparr> # members c\<rparr>) s)"

text \<open>The removal loops: the first member link of the client, the first link to the channel.\<close>

fun drop_member :: "nat \<Rightarrow> member list \<Rightarrow> member list" where
  "drop_member cl [] = []"
| "drop_member cl (m # ms) = (if mb_cptr m = cl then ms else m # drop_member cl ms)"

fun drop_link :: "nat \<Rightarrow> nat list \<Rightarrow> nat list" where
  "drop_link p [] = []"
| "drop_link p (q # qs) = (if q = p then qs else q # drop_link p qs)"

definition unlink_member :: "nat \<Rightarrow> nat \<Rightarrow> ircd \<Rightarrow> ircd" where
  "unlink_member ch cl s =
     upd_client cl (\<lambda>c. c\<lparr>u_channel := drop_link ch (u_channel c)\<rparr>)
       (upd_chan ch (\<lambda>c. c\<lparr>members := drop_member cl (members c)\<rparr>) s)"

subsection \<open>Operations\<close>

definition add_user_to_channel :: "nat \<Rightarrow> nat \<Rightarrow> 32 word \<Rightarrow> ircd \<Rightarrow> ircd" where
  "add_user_to_channel ch cl fl s =
     (if has_user (clients s cl) then
        upd_client cl (\<lambda>c. c\<lparr>u_joined := u_joined c + 1\<rparr>)
          (upd_chan ch (\<lambda>c. c\<lparr>users := users c + 1,
               iusers := (if IsStealth (clients s cl) then iusers c + 1 else iusers c)\<rparr>)
            (link_member fl ch cl s))
      else s)"

definition del_invite :: "nat \<Rightarrow> nat \<Rightarrow> ircd \<Rightarrow> ircd" where
  "del_invite cl ch s =
     upd_client cl (\<lambda>c. c\<lparr>u_invited := drop_link ch (u_invited c)\<rparr>)
       (upd_chan ch (\<lambda>c. c\<lparr>invites := drop_link cl (invites c)\<rparr>) s)"

definition link_invite :: "nat \<Rightarrow> nat \<Rightarrow> ircd \<Rightarrow> ircd" where
  "link_invite cl ch s =
     upd_client cl (\<lambda>c. c\<lparr>u_invited := u_invited c @ [ch]\<rparr>)
       (upd_chan ch (\<lambda>c. c\<lparr>invites := cl # invites c\<rparr>) s)"

text \<open>A list that is full loses its oldest invitation. With \<open>MaxChansPerUser\<close> of 0 or less the list may be empty
  here and the source reads through a null link; \<open>hd\<close> is then an unspecified channel, and the lemmas below hold
  whichever it is.\<close>

definition add_invite :: "nat \<Rightarrow> nat \<Rightarrow> ircd \<Rightarrow> ircd" where
  "add_invite cl ch s =
     (let s1 = del_invite cl ch s;
          inv = u_invited (clients s1 cl);
          s2 = (if MaxChansPerUser (cfg s1) \<le> int (length inv) then del_invite cl (hd inv) s1 else s1)
      in link_invite cl ch s2)"

text \<open>\<open>while ((tmp = chptr->invites)) del_invite(tmp->value.cptr, chptr)\<close>\<close>

function free_invites :: "nat \<Rightarrow> ircd \<Rightarrow> ircd" where
  "free_invites ch s =
     (case invites (chans s ch) of [] \<Rightarrow> s | cl # _ \<Rightarrow> free_invites ch (del_invite cl ch s))"
  by pat_completeness auto
termination
  by (relation "measure (\<lambda>(ch, s). length (invites (chans s ch)))") (auto simp: del_invite_def)

declare free_invites.simps [simp del]

definition free_bans_exceptions_denies :: "nat \<Rightarrow> ircd \<Rightarrow> ircd" where
  "free_bans_exceptions_denies ch s = upd_chan ch (\<lambda>c. c\<lparr>banlist := [], num_bed := 0\<rparr>) s"

text \<open>Unlinking the block from the global list and from the hash table.\<close>

definition free_channel :: "nat \<Rightarrow> ircd \<Rightarrow> ircd" where
  "free_channel ch s =
     s\<lparr>channel := drop_link ch (channel s),
       chan_table := del_from_channel_hash_table (chname (chans s ch)) ch (chan_table s),
       count_chan := count_chan s - 1\<rparr>"

definition keeps_empty :: "ircd \<Rightarrow> nat \<Rightarrow> bool" where
  "keeps_empty s ch \<longleftrightarrow>
     RestrictedChans (cfg s) \<and> has (md_mode (mode (chans s ch))) MODE_REGISTERED \<or>
     has (md_mode (mode (chans s ch))) (MODE_ADMINONLY OR MODE_OPERONLY OR MODE_LOG)"

definition sub1_from_channel :: "nat \<Rightarrow> ircd \<Rightarrow> ircd" where
  "sub1_from_channel ch s =
     (if users (chans s ch) - 1 \<le> 0 then
        (let s1 = upd_chan ch (\<lambda>c. c\<lparr>users := 0\<rparr>) s
         in if keeps_empty s1 ch then s1
            else free_channel ch (free_bans_exceptions_denies ch (free_invites ch s1)))
      else upd_chan ch (\<lambda>c. c\<lparr>users := users c - 1\<rparr>) s)"

definition remove_user_from_channel :: "nat \<Rightarrow> nat \<Rightarrow> ircd \<Rightarrow> ircd" where
  "remove_user_from_channel cl ch s =
     (let s1 = unlink_member ch cl s;
          s2 = upd_client cl (\<lambda>c. c\<lparr>u_joined := u_joined c - 1\<rparr>) s1;
          s3 = (if IsStealth (clients s2 cl) then upd_chan ch (\<lambda>c. c\<lparr>iusers := iusers c - 1\<rparr>) s2 else s2)
      in sub1_from_channel ch s3)"

text \<open>
  \<open>get_channel\<close>: a local client's name is cut to \<open>CHANNELLEN\<close> bytes; an existing channel is
  returned; with \<open>CREATE\<close> a block is allocated at the address \<open>new\<close> the allocator gives.
\<close>

definition new_chan :: "cstr \<Rightarrow> time_t \<Rightarrow> chan" where
  "new_chan name now = \<lparr>chname = name,
     mode = \<lparr>md_mode = 0, md_limit = 0, md_key = [], md_msgs = 0, md_per = 0\<rparr>,
     topic = [], topic_nick = [], topic_time = 0, users = 0, iusers = 0, members = [], invites = [],
     banlist = [], num_bed = 0, channelts = now\<rparr>"

text \<open>The state at start-up: no channel, the clients \<open>cls\<close>, the configuration.\<close>

definition boot :: "(nat \<Rightarrow> client) \<Rightarrow> config \<Rightarrow> time_t \<Rightarrow> ircd" where
  "boot cls conf now = \<lparr>clients = cls, chans = (\<lambda>_. new_chan [] 0), channel = [],
     chan_table = clear_hash_table, count_chan = 0, CurrentTime = now, cfg = conf, sent = []\<rparr>"

definition chan_name :: "ircd \<Rightarrow> nat \<Rightarrow> string" where
  "chan_name s ch = chname (chans s ch)"

definition get_channel :: "nat \<Rightarrow> nat \<Rightarrow> cstr \<Rightarrow> bool \<Rightarrow> ircd \<Rightarrow> ircd \<times> nat option" where
  "get_channel new cl name create s =
     (if name = [] then (s, None)
      else let nm = (if MyClient (clients s cl) \<and> CHANNELLEN < length name
                     then take CHANNELLEN name else name)
           in case hash_find_channel (chan_name s) (chan_table s) nm None of
                Some ch \<Rightarrow> (s, Some ch)
              | None \<Rightarrow>
                  if create then
                    (s\<lparr>chans := (chans s)(new := new_chan nm (CurrentTime s)),
                       channel := new # channel s,
                       chan_table := add_to_channel_hash_table nm new (chan_table s),
                       count_chan := count_chan s + 1\<rparr>, Some new)
                  else (s, None))"

subsection \<open>The lists as sets of links\<close>

lemma drop_link_eq: "drop_link p qs = remove1 p qs"
  by (induction qs) auto

lemma drop_member_eq: "map mb_cptr (drop_member cl ms) = remove1 cl (map mb_cptr ms)"
  by (induction ms) auto

interpretation mem: two_way members_of channels_of "link_member fl" unlink_member for fl
  by unfold_locales
    (simp_all add: members_of_def channels_of_def link_member_def unlink_member_def drop_link_eq drop_member_eq)

interpretation inv: two_way invites_of invited_of "\<lambda>ch cl. link_invite cl ch" "\<lambda>ch cl. del_invite cl ch"
  by unfold_locales
    (simp_all add: invites_of_def invited_of_def link_invite_def del_invite_def drop_link_eq)

subsection \<open>The invariant\<close>

text \<open>
  \<open>links_inv\<close>: the two sides of membership and invitation agree, every link of a user leads to
  a live channel, and the counters are the lengths of the lists they count. \<open>table_inv\<close>: the
  hash table files exactly the live channels, and no two of them have equal names.
\<close>

definition links_inv :: "ircd \<Rightarrow> bool" where
  "links_inv s \<longleftrightarrow> mem.agree s \<and> inv.agree s \<and>
     (\<forall>cl. set (channels_of s cl) \<subseteq> set (channel s)) \<and>
     (\<forall>cl. set (invited_of s cl) \<subseteq> set (channel s)) \<and>
     (\<forall>cl. channels_of s cl \<noteq> [] \<longrightarrow> has_user (clients s cl)) \<and>
     (\<forall>cl. u_joined (clients s cl) = int (length (channels_of s cl))) \<and>
     (\<forall>ch\<in>set (channel s). users (chans s ch) = int (length (members_of s ch)) \<and>
        num_bed (chans s ch) = int (length (banlist (chans s ch))))"

definition table_inv :: "ircd \<Rightarrow> bool" where
  "table_inv s \<longleftrightarrow> distinct (channel s) \<and> 0 \<notin> set (channel s) \<and>
     count_chan s = int (length (channel s)) \<and>
     wf_channel_table (chan_name s) (chan_table s) \<and>
     (\<forall>p. in_table p (chains_of (chan_table s)) \<longleftrightarrow> p \<in> set (channel s)) \<and>
     (\<forall>p\<in>set (channel s). \<forall>q\<in>set (channel s). irc_eq (chan_name s p) (chan_name s q) \<longrightarrow> p = q)"

definition chan_inv :: "ircd \<Rightarrow> bool" where
  "chan_inv s \<longleftrightarrow> links_inv s \<and> table_inv s"

lemma table_inv_cong:
  "channel t = channel s \<Longrightarrow> chan_table t = chan_table s \<Longrightarrow> count_chan t = count_chan s \<Longrightarrow>
   chan_name t = chan_name s \<Longrightarrow> table_inv t = table_inv s"
  by (simp add: table_inv_def)

lemma links_inv_cong:
  assumes "links_inv s" "channel t = channel s" "members_of t = members_of s" "channels_of t = channels_of s"
    "invites_of t = invites_of s" "invited_of t = invited_of s"
    "\<And>cl. has_user (clients t cl) = has_user (clients s cl)"
    "\<And>cl. u_joined (clients t cl) = u_joined (clients s cl)"
    "\<And>ch. users (chans t ch) = users (chans s ch)"
    "\<And>ch. ch \<in> set (channel s) \<Longrightarrow> num_bed (chans s ch) = int (length (banlist (chans s ch))) \<Longrightarrow>
       num_bed (chans t ch) = int (length (banlist (chans t ch)))"
  shows "links_inv t"
proof -
  have "mem.agree t = mem.agree s" "inv.agree t = inv.agree s"
    using assms(3-6) by (simp_all add: mem.agree_def inv.agree_def)
  with assms show ?thesis by (simp add: links_inv_def)
qed

text \<open>An update of a channel that touches none of these fields keeps the invariant.\<close>

lemma chan_inv_upd_chan:
  assumes "chan_inv s"
    "\<And>c. map mb_cptr (members (f c)) = map mb_cptr (members c)" "\<And>c. invites (f c) = invites c"
    "\<And>c. users (f c) = users c" "\<And>c. chname (f c) = chname c"
    "num_bed (chans s ch) = int (length (banlist (chans s ch))) \<Longrightarrow>
     num_bed (f (chans s ch)) = int (length (banlist (f (chans s ch))))"
  shows "chan_inv (upd_chan ch f s)"
proof -
  have "links_inv s" "table_inv s" using assms(1) by (simp_all add: chan_inv_def)
  have "links_inv (upd_chan ch f s)"
    by (rule links_inv_cong [OF \<open>links_inv s\<close>])
      (use assms in \<open>auto simp: members_of_def channels_of_def invites_of_def invited_of_def fun_eq_iff\<close>)
  moreover have "table_inv (upd_chan ch f s) = table_inv s"
    by (rule table_inv_cong) (use assms in \<open>auto simp: chan_name_def fun_eq_iff\<close>)
  ultimately show ?thesis using \<open>table_inv s\<close> by (simp add: chan_inv_def)
qed

lemma chan_inv_upd_client:
  assumes "chan_inv s" "\<And>c. u_channel (f c) = u_channel c" "\<And>c. u_invited (f c) = u_invited c"
    "\<And>c. has_user (f c) = has_user c" "\<And>c. u_joined (f c) = u_joined c"
  shows "chan_inv (upd_client cl f s)"
proof -
  have "links_inv s" "table_inv s" using assms(1) by (simp_all add: chan_inv_def)
  have "links_inv (upd_client cl f s)"
    by (rule links_inv_cong [OF \<open>links_inv s\<close>])
      (use assms in \<open>auto simp: members_of_def channels_of_def invites_of_def invited_of_def fun_eq_iff\<close>)
  moreover have "table_inv (upd_client cl f s) = table_inv s"
    by (rule table_inv_cong) (auto simp: chan_name_def fun_eq_iff)
  ultimately show ?thesis using \<open>table_inv s\<close> by (simp add: chan_inv_def)
qed

lemma chan_inv_send: "chan_inv s \<Longrightarrow> chan_inv (send t m s)"
proof -
  assume "chan_inv s"
  then have s: "links_inv s" "table_inv s" by (simp_all add: chan_inv_def)
  have "links_inv (send t m s)"
    by (rule links_inv_cong [OF s(1)])
      (auto simp: members_of_def channels_of_def invites_of_def invited_of_def fun_eq_iff)
  moreover have "table_inv (send t m s) = table_inv s"
    by (rule table_inv_cong) (auto simp: chan_name_def fun_eq_iff)
  ultimately show ?thesis using s by (simp add: chan_inv_def)
qed

subsection \<open>Every operation keeps the invariant\<close>

lemma agree_cong:
  "members_of t = members_of s \<Longrightarrow> channels_of t = channels_of s \<Longrightarrow> mem.agree t = mem.agree s"
  by (simp add: mem.agree_def)

lemma inv_agree_cong:
  "invites_of t = invites_of s \<Longrightarrow> invited_of t = invited_of s \<Longrightarrow> inv.agree t = inv.agree s"
  by (simp add: inv.agree_def)

lemma add_user_to_channel_inv:
  assumes "chan_inv s" "ch \<in> set (channel s)" "cl \<notin> set (members_of s ch)"
  shows "chan_inv (add_user_to_channel ch cl fl s)"
proof (cases "has_user (clients s cl)")
  case True
  let ?t = "add_user_to_channel ch cl fl s" and ?l = "link_member fl ch cl s"
  from assms have s: "links_inv s" "table_inv s" by (auto simp: chan_inv_def)
  have m: "members_of ?t = members_of ?l" and c: "channels_of ?t = channels_of ?l"
    and i: "invites_of ?t = invites_of s" "invited_of ?t = invited_of s"
    using True by (auto simp: add_user_to_channel_def link_member_def members_of_def channels_of_def
        invites_of_def invited_of_def fun_eq_iff)
  have "mem.agree ?t"
    using s(1) assms(3) mem.agree_link [of s cl ch fl] agree_cong [OF m c] by (simp add: links_inv_def)
  moreover have "inv.agree ?t"
    using s(1) inv_agree_cong [OF i] by (simp add: links_inv_def)
  moreover have "set (channels_of ?t x) \<subseteq> set (channel ?t)"
    "channels_of ?t x \<noteq> [] \<longrightarrow> has_user (clients ?t x)"
    "u_joined (clients ?t x) = int (length (channels_of ?t x))"
    "set (invited_of ?t x) \<subseteq> set (channel ?t)" for x
    using s(1) assms(2) True
    by (auto simp: links_inv_def add_user_to_channel_def link_member_def channels_of_def invited_of_def)
  moreover have "\<forall>ch\<in>set (channel ?t). users (chans ?t ch) = int (length (members_of ?t ch)) \<and>
        num_bed (chans ?t ch) = int (length (banlist (chans ?t ch)))"
    using s(1) assms(2) True
    by (auto simp: links_inv_def add_user_to_channel_def link_member_def members_of_def)
  ultimately have "links_inv ?t" by (simp add: links_inv_def)
  moreover have "table_inv ?t"
    using s(2) by (subst table_inv_cong [of _ s])
      (auto simp: add_user_to_channel_def link_member_def chan_name_def fun_eq_iff)
  ultimately show ?thesis by (simp add: chan_inv_def)
qed (use assms in \<open>simp add: add_user_to_channel_def\<close>)

lemma del_invite_sel [simp]:
  "channel (del_invite cl ch s) = channel s" "chan_table (del_invite cl ch s) = chan_table s"
  "count_chan (del_invite cl ch s) = count_chan s" "cfg (del_invite cl ch s) = cfg s"
  "CurrentTime (del_invite cl ch s) = CurrentTime s" "sent (del_invite cl ch s) = sent s"
  "members_of (del_invite cl ch s) = members_of s" "channels_of (del_invite cl ch s) = channels_of s"
  "chan_name (del_invite cl ch s) = chan_name s"
  "users (chans (del_invite cl ch s) x) = users (chans s x)"
  "mode (chans (del_invite cl ch s) x) = mode (chans s x)"
  "members (chans (del_invite cl ch s) x) = members (chans s x)"
  "num_bed (chans (del_invite cl ch s) x) = num_bed (chans s x)"
  "banlist (chans (del_invite cl ch s) x) = banlist (chans s x)"
  "has_user (clients (del_invite cl ch s) y) = has_user (clients s y)"
  "u_joined (clients (del_invite cl ch s) y) = u_joined (clients s y)"
  by (auto simp: del_invite_def members_of_def channels_of_def chan_name_def fun_eq_iff)

lemma del_invite_inv:
  assumes "chan_inv s"
  shows "chan_inv (del_invite cl ch s)"
proof -
  from assms have s: "links_inv s" "table_inv s" by (auto simp: chan_inv_def)
  have "set (invited_of (del_invite cl ch s) x) \<subseteq> set (channel s)" for x
    using s(1) by (auto simp: links_inv_def inv.right_unlink dest: notin_set_remove1 split: if_splits)
      (meson notin_set_remove1 subsetD)+
  then have "links_inv (del_invite cl ch s)"
    using s(1) inv.agree_unlink [where a = ch and b = cl and s = s] agree_cong [of "del_invite cl ch s" s]
    by (simp add: links_inv_def)
  moreover have "table_inv (del_invite cl ch s)"
    using s(2) by (subst table_inv_cong [of _ s]) simp_all
  ultimately show ?thesis by (simp add: chan_inv_def)
qed

lemma link_invite_inv:
  assumes "chan_inv s" "ch \<in> set (channel s)" "ch \<notin> set (invited_of s cl)"
  shows "chan_inv (link_invite cl ch s)"
proof -
  let ?t = "link_invite cl ch s"
  from assms have s: "links_inv s" "table_inv s" by (auto simp: chan_inv_def)
  have m: "members_of ?t = members_of s" "channels_of ?t = channels_of s" "channel ?t = channel s"
    by (auto simp: link_invite_def members_of_def channels_of_def fun_eq_iff)
  have "cl \<notin> set (invites_of s ch)"
    using s(1) assms(3) by (simp add: links_inv_def inv.agree_def)
  then have "inv.agree ?t"
    using s(1) by (intro inv.agree_link) (auto simp: links_inv_def)
  moreover have "set (invited_of ?t x) \<subseteq> set (channel s)" for x
    using s(1) assms(2) by (auto simp: links_inv_def inv.set_right_link split: if_splits)
  moreover have "users (chans ?t c) = users (chans s c)" "num_bed (chans ?t c) = num_bed (chans s c)"
    "banlist (chans ?t c) = banlist (chans s c)" for c
    by (auto simp: link_invite_def)
  moreover have "has_user (clients ?t c) = has_user (clients s c)" "u_joined (clients ?t c) = u_joined (clients s c)" for c
    by (auto simp: link_invite_def)
  ultimately have "links_inv ?t"
    using s(1) agree_cong [of ?t s] m by (simp add: links_inv_def)
  moreover have "table_inv ?t"
    using s(2) by (subst table_inv_cong [of _ s]) (auto simp: link_invite_def chan_name_def fun_eq_iff)
  ultimately show ?thesis by (simp add: chan_inv_def)
qed

lemma not_invited_after_del: "chan_inv s \<Longrightarrow> ch \<notin> set (invited_of (del_invite cl ch s) cl)"
  using inv.right_unlink [where a = ch and b = cl and s = s and y = cl] by (auto simp: chan_inv_def links_inv_def inv.agree_def)

lemma add_invite_inv:
  assumes "chan_inv s" "ch \<in> set (channel s)"
  shows "chan_inv (add_invite cl ch s)"
proof -
  let ?s1 = "del_invite cl ch s"
  let ?s2 = "if MaxChansPerUser (cfg ?s1) \<le> int (length (u_invited (clients ?s1 cl)))
    then del_invite cl (hd (u_invited (clients ?s1 cl))) ?s1 else ?s1"
  have s2: "chan_inv ?s2" using assms(1) by (simp add: del_invite_inv)
  moreover have "ch \<notin> set (invited_of ?s2 cl)"
    using not_invited_after_del [OF assms(1), of ch cl]
    by (auto simp: inv.right_unlink dest: notin_set_remove1 split: if_splits)
  moreover have "ch \<in> set (channel ?s2)" using assms(2) by simp
  ultimately have "chan_inv (link_invite cl ch ?s2)" by (intro link_invite_inv)
  then show ?thesis by (simp add: add_invite_def Let_def)
qed

lemma free_invites_inv:
  "chan_inv s \<Longrightarrow> chan_inv (free_invites ch s) \<and> invites_of (free_invites ch s) ch = [] \<and>
     channel (free_invites ch s) = channel s \<and> members_of (free_invites ch s) = members_of s \<and>
     channels_of (free_invites ch s) = channels_of s \<and> chan_table (free_invites ch s) = chan_table s \<and>
     chan_name (free_invites ch s) = chan_name s"
proof (induction ch s rule: free_invites.induct)
  case (1 ch s)
  show ?case
  proof (cases "invites (chans s ch)")
    case Nil
    with 1 show ?thesis by (simp add: free_invites.simps [of ch s] invites_of_def)
  next
    case (Cons cl cls)
    with 1 del_invite_inv [of s cl ch] show ?thesis by (simp add: free_invites.simps [of ch s])
  qed
qed

lemma free_invites_chans:
  "mode (chans (free_invites ch s) x) = mode (chans s x)" "users (chans (free_invites ch s) x) = users (chans s x)"
proof (induction ch s rule: free_invites.induct)
  case (1 ch s)
  case 1
  then show ?case by (cases "invites (chans s ch)") (simp_all add: free_invites.simps [of ch s] "1.IH")
next
  case (1 ch s)
  case 2
  then show ?case by (cases "invites (chans s ch)") (simp_all add: free_invites.simps [of ch s] "1.IH")
qed

lemma free_bans_inv: "chan_inv s \<Longrightarrow> chan_inv (free_bans_exceptions_denies ch s)"
  unfolding free_bans_exceptions_denies_def by (rule chan_inv_upd_chan) simp_all

lemma free_channel_inv:
  assumes "chan_inv s" "ch \<in> set (channel s)" "members_of s ch = []" "invites_of s ch = []"
  shows "chan_inv (free_channel ch s)"
proof -
  let ?t = "free_channel ch s"
  from assms have s: "links_inv s" "table_inv s" by (auto simp: chan_inv_def)
  have sel: "members_of ?t = members_of s" "channels_of ?t = channels_of s" "invites_of ?t = invites_of s"
    "invited_of ?t = invited_of s" "chan_name ?t = chan_name s"
    by (auto simp: free_channel_def members_of_def channels_of_def invites_of_def invited_of_def
        chan_name_def fun_eq_iff)
  from s(2) have d: "set (channel ?t) = set (channel s) - {ch}"
    by (simp add: free_channel_def table_inv_def drop_link_eq)
  have "ch \<notin> set (channels_of s x)" "ch \<notin> set (invited_of s x)" for x
    using s(1) assms(3,4) mem.agreeD [of s x ch] inv.agreeD [of s x ch] by (simp_all add: links_inv_def)
  then have "links_inv ?t"
    using s(1) agree_cong [of ?t s] inv_agree_cong [of ?t s] d
    by (auto simp: links_inv_def sel) (auto simp: free_channel_def)
  moreover have "table_inv ?t"
  proof -
    from s(2) have wf: "wf_channel_table (chan_name s) (chan_table s)" "distinct (channel s)"
      "\<forall>p. in_table p (chains_of (chan_table s)) \<longleftrightarrow> p \<in> set (channel s)"
      by (auto simp: table_inv_def)
    have t: "chan_table ?t = bucket_del (hash_channel_name (chan_name s ch)) ch (chan_table s)"
      by (simp add: free_channel_def hash_op_defs chan_name_def)
    have "wf_channel_table (chan_name ?t) (chan_table ?t)"
      using wf(1) by (simp add: t sel wf_hash_table_def chan_hash.chain_del_wf links_bucket_del)
    moreover have "in_table p (chains_of (chan_table ?t)) \<longleftrightarrow> p \<in> set (channel ?t)" for p
      using wf chan_hash.in_table_del [of "chan_name s" "chains_of (chan_table s)" p ch] d
      by (simp add: t wf_hash_table_def)
    moreover have "distinct (channel ?t)" "count_chan ?t = int (length (channel ?t))"
      using s(2) assms(2) length_pos_if_in_set [OF assms(2)]
      by (auto simp: free_channel_def drop_link_eq table_inv_def length_remove1 of_nat_diff Suc_le_eq)
    ultimately show ?thesis using s(2) d by (simp add: table_inv_def sel)
  qed
  ultimately show ?thesis by (simp add: chan_inv_def)
qed

text \<open>
  \<open>sub1_from_channel\<close> is called when the membership links are gone and the counter is still one
  too high.
\<close>

lemma sub1_from_channel_eq:
  assumes "chan_inv t" "ch \<in> set (channel t)" "t = upd_chan ch (\<lambda>c. c\<lparr>users := users c - 1\<rparr>) s"
  shows "sub1_from_channel ch s =
    (if members_of t ch = [] \<and> \<not> keeps_empty t ch
     then free_channel ch (free_bans_exceptions_denies ch (free_invites ch t)) else t)"
proof -
  have u: "users (chans t ch) = int (length (members_of t ch))"
    using assms(1,2) by (auto simp: chan_inv_def links_inv_def)
  have u': "users (chans s ch) - 1 = users (chans t ch)" by (simp add: assms(3))
  have z: "users (chans s ch) - 1 \<le> 0 \<longleftrightarrow> members_of t ch = []" using u u' by simp
  have t0: "upd_chan ch (\<lambda>c. c\<lparr>users := 0\<rparr>) s = t" if "members_of t ch = []"
  proof -
    have "users (chans s ch) - 1 = 0" using that u u' by simp
    then show ?thesis by (simp add: assms(3) upd_chan_def)
  qed
  show ?thesis
  proof (cases "members_of t ch = []")
    case True
    with z t0 show ?thesis by (simp add: sub1_from_channel_def Let_def)
  next
    case False
    with z assms(3) show ?thesis by (simp add: sub1_from_channel_def)
  qed
qed

lemma sub1_from_channel_inv:
  assumes "chan_inv t" "ch \<in> set (channel t)" "t = upd_chan ch (\<lambda>c. c\<lparr>users := users c - 1\<rparr>) s"
  shows "chan_inv (sub1_from_channel ch s)"
proof (cases "members_of t ch = [] \<and> \<not> keeps_empty t ch")
  case True
  let ?u = "free_bans_exceptions_denies ch (free_invites ch t)"
  have "chan_inv ?u" using assms(1) by (simp add: free_bans_inv free_invites_inv)
  moreover have "ch \<in> set (channel ?u)" "members_of ?u ch = []" "invites_of ?u ch = []"
    using True assms(2) free_invites_inv [OF assms(1), of ch]
    by (auto simp: free_bans_exceptions_denies_def members_of_def invites_of_def fun_eq_iff)
  ultimately have "chan_inv (free_channel ch ?u)" by (rule free_channel_inv)
  with True show ?thesis by (simp add: sub1_from_channel_eq [OF assms])
next
  case False
  with assms(1) show ?thesis by (auto simp: sub1_from_channel_eq [OF assms])
qed

text \<open>The store after the links, \<open>joined\<close>, \<open>iusers\<close> and \<open>users\<close> have been taken back.\<close>

definition left_channel :: "nat \<Rightarrow> nat \<Rightarrow> ircd \<Rightarrow> ircd" where
  "left_channel cl ch s =
     upd_client cl (\<lambda>c. c\<lparr>u_joined := u_joined c - 1\<rparr>)
       (upd_chan ch (\<lambda>c. c\<lparr>users := users c - 1,
            iusers := (if IsStealth (clients s cl) then iusers c - 1 else iusers c)\<rparr>)
         (unlink_member ch cl s))"

lemma left_channel_inv:
  assumes "chan_inv s" "ch \<in> set (channel s)" "cl \<in> set (members_of s ch)"
  shows "chan_inv (left_channel cl ch s)"
proof -
  let ?t = "left_channel cl ch s" and ?l = "unlink_member ch cl s"
  from assms have s: "links_inv s" "table_inv s" by (auto simp: chan_inv_def)
  have m: "members_of ?t = members_of ?l" and c: "channels_of ?t = channels_of ?l"
    and i: "invites_of ?t = invites_of s" "invited_of ?t = invited_of s"
    by (auto simp: left_channel_def unlink_member_def members_of_def channels_of_def invites_of_def
        invited_of_def fun_eq_iff)
  have ch: "ch \<in> set (channels_of s cl)" using s(1) assms(3) mem.agreeD [of s cl ch] by (simp add: links_inv_def)
  have cs: "channel ?t = channel s" by (simp add: left_channel_def unlink_member_def)
  have "mem.agree ?t"
    using s(1) mem.agree_unlink [of s ch cl] agree_cong [OF m c] by (simp add: links_inv_def)
  moreover have "inv.agree ?t"
    using s(1) inv_agree_cong [OF i] by (simp add: links_inv_def)
  moreover have "set (channels_of ?t x) \<subseteq> set (channel s)" for x
    using s(1) set_remove1_subset [of ch "channels_of s x"]
    unfolding c mem.right_unlink links_inv_def by (simp split: if_splits) blast
  moreover have "set (invited_of ?t x) \<subseteq> set (channel s)" for x
    using s(1) by (simp add: i links_inv_def)
  moreover have "channels_of ?t x \<noteq> [] \<longrightarrow> has_user (clients ?t x)" for x
  proof -
    have "channels_of ?t x \<noteq> [] \<Longrightarrow> channels_of s x \<noteq> []"
      unfolding c mem.right_unlink by (auto split: if_splits)
    then show ?thesis using s(1) by (auto simp: links_inv_def left_channel_def unlink_member_def)
  qed
  moreover have "u_joined (clients ?t x) = int (length (channels_of ?t x))" for x
    using s(1) mem.length_unlink_right [OF ch, of x] length_pos_if_in_set [OF ch]
    by (auto simp: c links_inv_def) (auto simp: left_channel_def unlink_member_def of_nat_diff Suc_le_eq)
  moreover have "\<forall>x\<in>set (channel s). users (chans ?t x) = int (length (members_of ?t x)) \<and>
      num_bed (chans ?t x) = int (length (banlist (chans ?t x)))"
    using s(1) mem.length_unlink [OF assms(3)] length_pos_if_in_set [OF assms(3)]
    by (auto simp: m links_inv_def) (auto simp: left_channel_def unlink_member_def of_nat_diff Suc_le_eq)
  ultimately have "links_inv ?t" by (simp add: links_inv_def cs)
  moreover have "table_inv ?t"
    using s(2) by (subst table_inv_cong [of _ s])
      (auto simp: left_channel_def unlink_member_def chan_name_def fun_eq_iff)
  ultimately show ?thesis by (simp add: chan_inv_def)
qed

lemma remove_user_from_channel_eq:
  "\<exists>t. remove_user_from_channel cl ch s = sub1_from_channel ch t \<and>
       left_channel cl ch s = upd_chan ch (\<lambda>c. c\<lparr>users := users c - 1\<rparr>) t"
  by (rule exI [of _ "(let s1 = unlink_member ch cl s;
          s2 = upd_client cl (\<lambda>c. c\<lparr>u_joined := u_joined c - 1\<rparr>) s1
      in if IsStealth (clients s2 cl) then upd_chan ch (\<lambda>c. c\<lparr>iusers := iusers c - 1\<rparr>) s2 else s2)"])
    (auto simp: remove_user_from_channel_def left_channel_def Let_def upd_chan_def upd_client_def
      unlink_member_def IsStealth_def intro!: ircd.equality)

lemma remove_user_from_channel_inv:
  assumes "chan_inv s" "ch \<in> set (channel s)" "cl \<in> set (members_of s ch)"
  shows "chan_inv (remove_user_from_channel cl ch s)"
proof -
  obtain t where t: "remove_user_from_channel cl ch s = sub1_from_channel ch t"
    "left_channel cl ch s = upd_chan ch (\<lambda>c. c\<lparr>users := users c - 1\<rparr>) t"
    using remove_user_from_channel_eq by blast
  moreover have "ch \<in> set (channel (left_channel cl ch s))"
    using assms(2) by (simp add: left_channel_def unlink_member_def)
  ultimately show ?thesis
    using sub1_from_channel_inv [OF left_channel_inv [OF assms] _ t(2)] by simp
qed

lemma dead_channel_empty:
  assumes "links_inv s" "ch \<notin> set (channel s)"
  shows "members_of s ch = [] \<and> invites_of s ch = []"
proof -
  have "x \<notin> set (members_of s ch)" "x \<notin> set (invites_of s ch)" for x
    using assms mem.agreeD [of s x ch] inv.agreeD [of s x ch] by (auto simp: links_inv_def)
  then show ?thesis by (metis list.set_intros(1) neq_Nil_conv)
qed

lemma hash_find_channel_live:
  assumes "table_inv s"
  shows "hash_find_channel (chan_name s) (chan_table s) name None = None \<longleftrightarrow>
           (\<forall>ch\<in>set (channel s). \<not> irc_eq name (chan_name s ch))"
    and "hash_find_channel (chan_name s) (chan_table s) name None = Some ch \<longleftrightarrow>
           ch \<in> set (channel s) \<and> irc_eq name (chan_name s ch)"
proof -
  let ?f = "List.find (\<lambda>p. irc_eq name (chan_name s p)) (chains_of (chan_table s) (hash_channel_name name))"
  have f: "hash_find_channel (chan_name s) (chan_table s) name None = ?f"
    by (simp add: hash_find_channel_chains split: option.splits)
  have wf: "wf_chains hash_channel_name (chan_name s) (chains_of (chan_table s))"
    and live: "\<And>p. in_table p (chains_of (chan_table s)) \<longleftrightarrow> p \<in> set (channel s)"
    using assms by (auto simp: table_inv_def wf_hash_table_def)
  show none: "hash_find_channel (chan_name s) (chan_table s) name None = None \<longleftrightarrow>
           (\<forall>ch\<in>set (channel s). \<not> irc_eq name (chan_name s ch))"
    using chan_hash.found_complete [OF wf, of name] live by (auto simp: f)
  show "hash_find_channel (chan_name s) (chan_table s) name None = Some ch \<longleftrightarrow>
           ch \<in> set (channel s) \<and> irc_eq name (chan_name s ch)"
  proof
    assume "hash_find_channel (chan_name s) (chan_table s) name None = Some ch"
    then show "ch \<in> set (channel s) \<and> irc_eq name (chan_name s ch)"
      using chan_hash.found_sound [of name "chan_name s" "chains_of (chan_table s)" ch] live by (simp add: f)
  next
    assume a: "ch \<in> set (channel s) \<and> irc_eq name (chan_name s ch)"
    have "y = ch" if "y \<in> set (channel s)" "irc_eq (chan_name s ch) (chan_name s y)" for y
      using that a assms by (auto simp: table_inv_def)
    then show "hash_find_channel (chan_name s) (chan_table s) name None = Some ch"
      using chan_hash.found_unique [OF wf, of ch name] a live by (simp add: f)
  qed
qed

lemma get_channel_inv:
  assumes "chan_inv s" "new \<notin> set (channel s)" "new \<noteq> 0"
  shows "chan_inv (fst (get_channel new cl name create s))"
proof -
  define nm where "nm = (if MyClient (clients s cl) \<and> CHANNELLEN < length name
                     then take CHANNELLEN name else name)"
  define t where "t = s\<lparr>chans := (chans s)(new := new_chan nm (CurrentTime s)),
                       channel := new # channel s,
                       chan_table := add_to_channel_hash_table nm new (chan_table s),
                       count_chan := count_chan s + 1\<rparr>"
  from assms have s: "links_inv s" "table_inv s" by (auto simp: chan_inv_def)
  have sel: "members_of t = members_of s" "channels_of t = channels_of s" "invites_of t = invites_of s"
    "invited_of t = invited_of s" "chan_name t = (chan_name s)(new := nm)"
    using dead_channel_empty [OF s(1) assms(2)]
    by (auto simp: t_def members_of_def channels_of_def invites_of_def invited_of_def chan_name_def
        new_chan_def fun_eq_iff)
  have "chan_inv t" if miss: "hash_find_channel (chan_name s) (chan_table s) nm None = None"
  proof -
    have "links_inv t"
      using s(1) agree_cong [of t s] inv_agree_cong [of t s] dead_channel_empty [OF s(1) assms(2)] assms(2)
      by (auto simp: links_inv_def sel) (auto simp: t_def new_chan_def)
    moreover have "table_inv t"
    proof -
      let ?tab = "chains_of (chan_table s)"
      have nin: "\<not> in_table new ?tab" using s(2) assms(2) by (simp add: table_inv_def)
      have tab: "chan_table t = bucket_add (hash_channel_name nm) new (chan_table s)"
        by (simp add: t_def hash_op_defs)
      have "wf_chains hash_channel_name (chan_name t) ?tab"
        using s(2) nin by (auto simp: table_inv_def wf_hash_table_def wf_chains_def sel in_table_def)
      then have "wf_chains hash_channel_name (chan_name t) (chain_add (hash_channel_name (chan_name t new)) new ?tab)"
        using nin by (rule chan_hash.chain_add_wf)
      then have "wf_channel_table (chan_name t) (chan_table t)"
        using s(2) by (simp add: tab wf_hash_table_def links_bucket_add sel table_inv_def)
      moreover have "\<not> irc_eq nm (chan_name s p)" "\<not> irc_eq (chan_name s p) nm" if "p \<in> set (channel s)" for p
        using miss that hash_find_channel_live(1) [OF s(2), of nm] chan_hash.eqv_sym by blast+
      moreover have "channel t = new # channel s" "count_chan t = count_chan s + 1"
        "in_table p (chains_of (chan_table t)) \<longleftrightarrow> p = new \<or> in_table p ?tab" for p
        by (simp_all add: t_def hash_op_defs)
      ultimately show ?thesis using s(2) assms(2,3) by (auto simp: table_inv_def sel)
    qed
    ultimately show ?thesis by (simp add: chan_inv_def)
  qed
  then show ?thesis using assms(1)
    by (auto simp: get_channel_def nm_def t_def Let_def split: option.splits)
qed

lemma boot_inv:
  assumes "\<And>cl. u_channel (cls cl) = [] \<and> u_invited (cls cl) = [] \<and> u_joined (cls cl) = 0"
  shows "chan_inv (boot cls conf now)"
proof -
  let ?s = "boot cls conf now"
  have sel: "members_of ?s ch = []" "channels_of ?s cl = []" "invites_of ?s ch = []" "invited_of ?s cl = []"
    "u_joined (clients ?s cl) = 0" for ch cl
    using assms by (auto simp: boot_def members_of_def channels_of_def invites_of_def invited_of_def new_chan_def)
  have "links_inv ?s"
    by (simp add: links_inv_def mem.agree_def inv.agree_def sel) (simp add: boot_def)
  moreover have "table_inv ?s"
    by (simp add: table_inv_def boot_def wf_hash_table_def in_table_def clear_hash_table_def)
      (simp add: chains_of_def wf_chains_def)
  ultimately show ?thesis by (simp add: chan_inv_def)
qed

lemma IsMember_iff:
  assumes "chan_inv s" "ch \<in> set (channel s)"
  shows "IsMember s cl ch \<longleftrightarrow> cl \<noteq> 0 \<and> cl \<in> set (members_of s ch)"
proof -
  have "0 \<notin> set (channel s)" using assms by (simp add: chan_inv_def table_inv_def)
  with assms(2) have "ch \<noteq> 0" by (intro notI) simp
  moreover have "cl \<in> set (members_of s ch) \<longleftrightarrow> ch \<in> set (channels_of s cl)"
    using assms mem.agreeD [of s cl ch] by (simp add: chan_inv_def links_inv_def)
  moreover have "channels_of s cl \<noteq> [] \<Longrightarrow> has_user (clients s cl)"
    using assms(1) by (simp add: chan_inv_def links_inv_def)
  then have "ch \<in> set (channels_of s cl) \<Longrightarrow> has_user (clients s cl)"
    by (cases "channels_of s cl") simp_all
  ultimately show ?thesis
    using find_channel_link_None [of "u_channel (clients s cl)" ch] by (auto simp: IsMember_def channels_of_def)
qed

lemma tick_inv: "chan_inv s \<Longrightarrow> chan_inv (s\<lparr>CurrentTime := now\<rparr>)"
proof -
  assume "chan_inv s"
  then have s: "links_inv s" "table_inv s" by (simp_all add: chan_inv_def)
  have "links_inv (s\<lparr>CurrentTime := now\<rparr>)"
    by (rule links_inv_cong [OF s(1)])
      (auto simp: members_of_def channels_of_def invites_of_def invited_of_def fun_eq_iff)
  moreover have "table_inv (s\<lparr>CurrentTime := now\<rparr>) = table_inv s"
    by (rule table_inv_cong) (auto simp: chan_name_def fun_eq_iff)
  ultimately show ?thesis using s by (simp add: chan_inv_def)
qed

lemma remove_user_result:
  assumes "chan_inv s" "ch \<in> set (channel s)" "cl \<in> set (members_of s ch)"
  shows "remove_user_from_channel cl ch s =
    (let t = left_channel cl ch s in
     if members_of t ch = [] \<and> \<not> keeps_empty t ch
     then free_channel ch (free_bans_exceptions_denies ch (free_invites ch t)) else t)"
proof -
  obtain t where t: "remove_user_from_channel cl ch s = sub1_from_channel ch t"
    "left_channel cl ch s = upd_chan ch (\<lambda>c. c\<lparr>users := users c - 1\<rparr>) t"
    using remove_user_from_channel_eq by blast
  have "ch \<in> set (channel (left_channel cl ch s))"
    using assms(2) by (simp add: left_channel_def unlink_member_def)
  from sub1_from_channel_eq [OF left_channel_inv [OF assms] this t(2)] t(1) show ?thesis
    by (simp add: Let_def)
qed

lemma left_channel_sel:
  "channel (left_channel cl ch s) = channel s"
  "members_of (left_channel cl ch s) ch = remove1 cl (members_of s ch)"
  "keeps_empty (left_channel cl ch s) ch = keeps_empty s ch"
  by (simp_all add: left_channel_def unlink_member_def members_of_def drop_member_eq keeps_empty_def)

lemma remove_user_links:
  assumes "chan_inv s" "ch \<in> set (channel s)" "cl \<in> set (members_of s ch)"
  shows "channels_of (remove_user_from_channel cl ch s) x = (if x = cl then remove1 ch (channels_of s x) else channels_of s x)"
    and "members_of (remove_user_from_channel cl ch s) y = (if y = ch then remove1 cl (members_of s y) else members_of s y)"
    and "chan_name (remove_user_from_channel cl ch s) = chan_name s"
proof -
  let ?t = "left_channel cl ch s"
  have t: "channels_of ?t x = (if x = cl then remove1 ch (channels_of s x) else channels_of s x)"
    "members_of ?t y = (if y = ch then remove1 cl (members_of s y) else members_of s y)" "chan_name ?t = chan_name s"
    by (auto simp: left_channel_def unlink_member_def members_of_def channels_of_def chan_name_def drop_link_eq
        drop_member_eq fun_eq_iff)
  have "channels_of (free_channel ch (free_bans_exceptions_denies ch u)) = channels_of u"
    "members_of (free_channel ch (free_bans_exceptions_denies ch u)) = members_of u"
    "chan_name (free_channel ch (free_bans_exceptions_denies ch u)) = chan_name u" for u
    by (auto simp: free_channel_def free_bans_exceptions_denies_def channels_of_def members_of_def chan_name_def fun_eq_iff)
  with free_invites_inv [OF left_channel_inv [OF assms], of ch] t
  show "channels_of (remove_user_from_channel cl ch s) x = (if x = cl then remove1 ch (channels_of s x) else channels_of s x)"
    "members_of (remove_user_from_channel cl ch s) y = (if y = ch then remove1 cl (members_of s y) else members_of s y)"
    "chan_name (remove_user_from_channel cl ch s) = chan_name s"
    by (auto simp: remove_user_result [OF assms] Let_def)
qed

end
