(* ===== verification/ChanBan.thy ===== *)
theory ChanBan
  imports ChanMember
begin

text \<open>
  Bans, from \<open>src/channel.c\<close>: the completion of a mask to \<open>nick!user@host\<close> (\<open>pretty_mask\<close>), the
  ban list (\<open>add_banid\<close>, \<open>del_banid\<close>) and its use (\<open>is_banned\<close>, \<open>nick_is_banned\<close>).
\<close>

subsection \<open>Masks\<close>

text \<open>\<open>BadPtr(s)\<close>: the pointer is null or the string empty.\<close>

definition BadPtr :: "cstr option \<Rightarrow> bool" where
  "BadPtr s \<longleftrightarrow> s = None \<or> s = Some []"

definition check_string :: "cstr option \<Rightarrow> cstr" where
  "check_string s = (if BadPtr s then ''*'' else takeWhile (\<lambda>c. \<not> IsSpace c) (the s))"

definition make_nick_user_host :: "cstr \<Rightarrow> cstr \<Rightarrow> cstr \<Rightarrow> cstr" where
  "make_nick_user_host nick name host =
     take NICKLEN nick @ ''!'' @ take USERLEN name @ ''@'' @ take HOSTLEN host"

text \<open>\<open>split_at s c\<close>: overwriting the first \<open>c\<close> of \<open>s\<close> by a NUL leaves two strings.\<close>

definition split_at :: "cstr \<Rightarrow> char \<Rightarrow> cstr \<times> cstr option" where
  "split_at s c = (case strchr s c of None \<Rightarrow> (s, None)
                   | Some t \<Rightarrow> (take (length s - length t) s, Some (tl t)))"

definition split_last :: "cstr \<Rightarrow> char \<Rightarrow> cstr \<times> cstr option" where
  "split_last s c = (case strrchr s c of None \<Rightarrow> (s, None)
                     | Some t \<Rightarrow> (take (length s - length t) s, Some (tl t)))"

definition pretty_mask :: "cstr \<Rightarrow> cstr" where
  "pretty_mask m =
     (case split_at m (CHR ''!'') of
        (cp, None) \<Rightarrow>
          (case split_last cp (CHR ''@'') of
             (cp', Some host) \<Rightarrow> make_nick_user_host ''*'' (check_string (Some cp')) (check_string (Some host))
           | (_, None) \<Rightarrow>
               if strchr cp (CHR ''.'') \<noteq> None then make_nick_user_host ''*'' ''*'' (check_string (Some cp))
               else make_nick_user_host (check_string (Some cp)) (check_string None) (check_string None))
      | (cp, Some usr) \<Rightarrow>
          (case split_last usr (CHR ''@'') of
             (usr', host) \<Rightarrow>
               make_nick_user_host (check_string (Some cp)) (check_string (Some usr')) (check_string host)))"

lemma split_at_append: "c \<notin> set p \<Longrightarrow> split_at (p @ c # t) c = (p, Some t)"
  by (simp add: split_at_def strchr_append)

lemma split_at_absent: "c \<notin> set p \<Longrightarrow> split_at p c = (p, None)"
  by (simp add: split_at_def strchr_None_iff [THEN iffD2])

lemma split_last_append: "c \<notin> set t \<Longrightarrow> split_last (p @ c # t) c = (p, Some t)"
  by (simp add: split_last_def strrchr_append)

lemma split_last_absent: "c \<notin> set p \<Longrightarrow> split_last p c = (p, None)"
  by (simp add: split_last_def strrchr_None_iff [THEN iffD2])

subsection \<open>The ban list\<close>

text \<open>
  The ban record is allocated with \<open>MyMalloc\<close> and \<open>bantype\<close> is written for nick bans only: for
  the others it keeps what the block held, \<open>junk\<close>. The result is the state, the return value
  and the caller's buffer, which \<open>collapse\<close> rewrites for local clients.
\<close>

definition is_nick_mask :: "cstr \<Rightarrow> bool" where
  "is_nick_mask banid = (case strchr banid (CHR ''!'') of None \<Rightarrow> False | Some t \<Rightarrow> tl t = ''*@*'')"

definition ban_who :: "client \<Rightarrow> cstr" where
  "ban_who c = (if IsPerson c then c_name c @ ''!'' @ c_username c @ ''@'' @ c_host c else c_name c)"

definition add_banid :: "int \<Rightarrow> nat \<Rightarrow> nat \<Rightarrow> cstr \<Rightarrow> ircd \<Rightarrow> ircd \<times> int \<times> cstr" where
  "add_banid junk cl ch banid s =
     (let cptr = clients s cl; chptr = chans s ch in
      if \<not> IsServer cptr \<and> MAXBANS \<le> num_bed chptr \<and> MyClient cptr then
        (send (ToOne cl) ('':'' @ me_name (cfg s) @ '' 478 '' @ c_name cptr @ '' '' @ chname chptr @ '' ''
           @ banid @ '' :Channel ban list is full'') s, -1, banid)
      else
        let banid' = (if MyClient cptr then collapse banid else banid) in
        if \<exists>b\<in>set (banlist chptr). match (banstr b) banid' then (s, -1, banid')
        else
          (upd_chan ch (\<lambda>c. c\<lparr>banlist := \<lparr>banstr = banid',
               bantype = (if is_nick_mask banid' then BAN_NICK else junk),
               who = ban_who cptr, when = CurrentTime s\<rparr> # banlist c,
             num_bed := num_bed c + 1\<rparr>) s, 0, banid'))"

text \<open>The removal loop, with a trailing pointer; \<open>None\<close> when no ban has that text.\<close>

fun drop_ban :: "cstr \<Rightarrow> ban list \<Rightarrow> ban list option" where
  "drop_ban banid [] = None"
| "drop_ban banid (b # bs) =
     (if irccmp banid (banstr b) = 0 then Some bs else map_option ((#) b) (drop_ban banid bs))"

definition del_banid :: "nat \<Rightarrow> cstr option \<Rightarrow> ircd \<Rightarrow> ircd \<times> int" where
  "del_banid ch banid s =
     (case banid of
        None \<Rightarrow> (s, -1)
      | Some m \<Rightarrow>
          (case drop_ban m (banlist (chans s ch)) of
             None \<Rightarrow> (s, -1)
           | Some bs \<Rightarrow>
               (upd_chan ch (\<lambda>c. c\<lparr>banlist := bs,
                   num_bed := (if 0 < num_bed c then num_bed c - 1 else 0)\<rparr>) s, 0)))"

definition is_banned :: "nat \<Rightarrow> nat \<Rightarrow> ircd \<Rightarrow> 32 word" where
  "is_banned cl ch s =
     (let cptr = clients s cl in
      if \<not> IsPerson cptr then 0
      else let m = make_nick_user_host (c_name cptr) (c_username cptr) (c_host cptr) in
        if \<exists>b\<in>set (banlist (chans s ch)). match (banstr b) m then CHFL_BAN else 0)"

definition nick_is_banned :: "nat \<Rightarrow> cstr \<Rightarrow> nat \<Rightarrow> ircd \<Rightarrow> bool" where
  "nick_is_banned ch nick cl s \<longleftrightarrow>
     IsPerson (clients s cl) \<and>
     (\<exists>b\<in>set (banlist (chans s ch)). bantype b = BAN_NICK \<and> match (banstr b) (nick @ ''!*@*''))"

subsection \<open>Lemmas\<close>

lemma drop_ban_None: "drop_ban m bs = None \<longleftrightarrow> (\<forall>b\<in>set bs. irccmp m (banstr b) \<noteq> 0)"
  by (induction bs) auto

lemma drop_ban_SomeD:
  "drop_ban m bs = Some bs' \<Longrightarrow>
     \<exists>p b q. bs = p @ b # q \<and> bs' = p @ q \<and> irccmp m (banstr b) = 0 \<and> (\<forall>x\<in>set p. irccmp m (banstr x) \<noteq> 0)"
proof (induction bs arbitrary: bs')
  case (Cons a bs)
  show ?case
  proof (cases "irccmp m (banstr a) = 0")
    case False
    with Cons.prems obtain cs where cs: "drop_ban m bs = Some cs" "bs' = a # cs" by auto
    with Cons.IH [OF cs(1)] obtain p b q where "bs = p @ b # q" "cs = p @ q"
      "irccmp m (banstr b) = 0" "\<forall>x\<in>set p. irccmp m (banstr x) \<noteq> 0" by blast
    with False cs(2) show ?thesis by (intro exI [of _ "a # p"]) auto
  qed (use Cons.prems in fastforce)
qed simp

lemma add_banid_inv: "chan_inv s \<Longrightarrow> chan_inv (fst (add_banid junk cl ch banid s))"
  by (auto simp: add_banid_def Let_def intro!: chan_inv_send chan_inv_upd_chan)

lemma del_banid_inv: "chan_inv s \<Longrightarrow> chan_inv (fst (del_banid ch banid s))"
  by (auto simp: del_banid_def split: option.splits dest!: drop_ban_SomeD intro!: chan_inv_upd_chan)

text \<open>No ban is matched, as a text, by an older one.\<close>

definition bans_irredundant :: "ban list \<Rightarrow> bool" where
  "bans_irredundant bs \<longleftrightarrow> sorted_wrt (\<lambda>newer older. \<not> match (banstr older) (banstr newer)) bs"

text \<open>A ban without question marks that matches the text of another mask covers that mask.\<close>

lemma glob_star_absorb:
  "glob (CHR ''*'' # ms) (drop k n) \<Longrightarrow> glob (CHR ''*'' # ms) n"
proof -
  assume "glob (CHR ''*'' # ms) (drop k n)"
  then obtain j where j: "j \<le> length n - k" "glob ms (drop (j + k) n)"
    unfolding glob_star_drop by auto
  show ?thesis
  proof (cases "k \<le> length n")
    case True
    with j show ?thesis unfolding glob_star_drop by (intro exI [of _ "j + k"]) auto
  next
    case False
    with j show ?thesis unfolding glob_star_drop by (intro exI [of _ "length n"]) auto
  qed
qed

lemma ToLower_wild:
  "ToLower c = ToLower (CHR ''*'') \<longleftrightarrow> c = CHR ''*''" "ToLower c = ToLower (CHR ''?'') \<longleftrightarrow> c = CHR ''?''"
proof -
  have inj: "byte c = byte d \<longleftrightarrow> c = d" for d by simp
  have "byte (ToLower c) = 42 \<longleftrightarrow> byte c = 42" "byte (ToLower c) = 63 \<longleftrightarrow> byte c = 63"
    by (auto simp: byte_ToLower split: if_splits)
  moreover have "byte (ToLower (CHR ''*'')) = 42" "byte (ToLower (CHR ''?'')) = 63"
    by (simp_all add: byte_ToLower)
  moreover have "byte (CHR ''*'') = 42" "byte (CHR ''?'') = 63" by simp_all
  ultimately show "ToLower c = ToLower (CHR ''*'') \<longleftrightarrow> c = CHR ''*''" "ToLower c = ToLower (CHR ''?'') \<longleftrightarrow> c = CHR ''?''"
    using inj by metis+
qed

lemma glob_literal:
  "c \<noteq> CHR ''*'' \<Longrightarrow> c \<noteq> CHR ''?'' \<Longrightarrow>
     glob (c # ms) n \<longleftrightarrow> (\<exists>e n'. n = e # n' \<and> ToLower c = ToLower e \<and> glob ms n')"
  by (cases n) auto

lemma glob_covers:
  "glob a b \<Longrightarrow> CHR ''?'' \<notin> set a \<Longrightarrow> glob b n \<Longrightarrow> glob a n"
proof (induction a b arbitrary: n rule: glob.induct)
  case (2 c ms)
  then show ?case by simp
next
  case (3 c ms d ns)
  show ?case
  proof (cases "c = CHR ''*''")
    case True
    consider "glob ms (d # ns)" | "glob (CHR ''*'' # ms) ns" using "3.prems"(1) True
      by (auto split: if_splits)
    then show ?thesis
    proof cases
      case 1
      then have "glob ms (drop 0 n)" using 3 True by auto
      then show ?thesis unfolding True glob_star_drop by blast
    next
      case 2
      obtain k where "glob ns (drop k n)"
      proof (cases "d = CHR ''*''")
        case True
        with "3.prems"(3) that show thesis by (auto simp only: glob_star_drop)
      next
        case False
        with "3.prems"(3) obtain e n' where "n = e # n'" "glob ns n'" by (cases n) auto
        with that [of 1] show thesis by simp
      qed
      then have "glob (CHR ''*'' # ms) (drop k n)" using "3.IH"(2) True 2 "3.prems"(2) by auto
      then show ?thesis unfolding True by (rule glob_star_absorb)
    qed
  next
    case False
    from "3.prems"(2) have q: "c \<noteq> CHR ''?''" by auto
    with False "3.prems"(1) have cd: "ToLower c = ToLower d" "glob ms ns" by auto
    with False q have d: "d \<noteq> CHR ''*''" "d \<noteq> CHR ''?''" by (metis ToLower_wild(1), metis ToLower_wild(2))
    with "3.prems"(3) obtain e n' where "n = e # n'" "ToLower d = ToLower e" "glob ns n'"
      using glob_literal [of d ns n] by blast
    with False q cd 3 show ?thesis by simp
  qed
qed auto

lemma bans_irredundant_Cons:
  "bans_irredundant (b # bs) \<longleftrightarrow> (\<forall>x\<in>set bs. \<not> match (banstr x) (banstr b)) \<and> bans_irredundant bs"
  by (simp add: bans_irredundant_def)

lemma bans_irredundant_remove: "bans_irredundant (p @ b # q) \<Longrightarrow> bans_irredundant (p @ q)"
  by (auto simp: bans_irredundant_def sorted_wrt_append)

lemma add_banid_ok:
  assumes "add_banid junk cl ch banid s = (t, 0, out)"
  shows "\<exists>b. banlist (chans t ch) = b # banlist (chans s ch) \<and> banstr b = out \<and>
     out = (if MyClient (clients s cl) then collapse banid else banid) \<and> clients t = clients s"
  using assms by (auto simp: add_banid_def Let_def split: if_splits)

lemma CHFL_BAN_nz [simp]: "CHFL_BAN \<noteq> 0"
  by (simp add: CHFL_BAN_def)

lemma is_banned_iff:
  "is_banned cl ch s = CHFL_BAN \<longleftrightarrow> IsPerson (clients s cl) \<and>
     (\<exists>b\<in>set (banlist (chans s ch)). match (banstr b)
        (make_nick_user_host (c_name (clients s cl)) (c_username (clients s cl)) (c_host (clients s cl))))"
  using CHFL_BAN_nz by (auto simp: is_banned_def Let_def)

lemma check_string_no_space: "\<forall>c\<in>set s. \<not> IsSpace c \<Longrightarrow> s \<noteq> [] \<Longrightarrow> check_string (Some s) = s"
  by (auto simp: check_string_def BadPtr_def takeWhile_eq_all_conv)

lemma check_string_None [simp]: "check_string None = ''*''"
  by (simp add: check_string_def BadPtr_def)

subsection \<open>Properties\<close>

text \<open>
  \<open>pretty_mask\<close> always yields \<open>nick!user@host\<close>, cut to the three field
  widths and so inside its static buffer of 99 bytes; a bare nick, a \<open>user@host\<close> and a host name
  with a dot are completed with stars, a full mask is kept (each part without white space, the
  nick without \<open>!\<close>, the host without \<open>@\<close>).
\<close>

theorem pretty_mask_forms:
  "(\<exists>n u h. pretty_mask m = n @ ''!'' @ u @ ''@'' @ h \<and>
      length n \<le> NICKLEN \<and> length u \<le> USERLEN \<and> length h \<le> HOSTLEN) \<and>
   (n \<noteq> [] \<and> u \<noteq> [] \<and> h \<noteq> [] \<and> (\<forall>c\<in>set (n @ u @ h). \<not> IsSpace c) \<and>
      CHR ''!'' \<notin> set (n @ u @ h) \<and> CHR ''@'' \<notin> set (n @ u @ h) \<longrightarrow>
      pretty_mask (n @ ''!'' @ u @ ''@'' @ h) = make_nick_user_host n u h \<and>
      pretty_mask (u @ ''@'' @ h) = make_nick_user_host ''*'' u h \<and>
      pretty_mask n = (if CHR ''.'' \<in> set n then make_nick_user_host ''*'' ''*'' n
                       else make_nick_user_host n ''*'' ''*''))"
proof (intro conjI allI impI)
  have "\<exists>n u h. make_nick_user_host a b c = n @ ''!'' @ u @ ''@'' @ h \<and>
      length n \<le> NICKLEN \<and> length u \<le> USERLEN \<and> length h \<le> HOSTLEN" for a b c
    unfolding make_nick_user_host_def by (intro exI conjI, rule refl) simp_all
  then show "\<exists>n u h. pretty_mask m = n @ ''!'' @ u @ ''@'' @ h \<and>
      length n \<le> NICKLEN \<and> length u \<le> USERLEN \<and> length h \<le> HOSTLEN"
    unfolding pretty_mask_def by (simp split: prod.split option.split)
  assume a: "n \<noteq> [] \<and> u \<noteq> [] \<and> h \<noteq> [] \<and> (\<forall>c\<in>set (n @ u @ h). \<not> IsSpace c) \<and>
    CHR ''!'' \<notin> set (n @ u @ h) \<and> CHR ''@'' \<notin> set (n @ u @ h)"
  then have cs: "check_string (Some n) = n" "check_string (Some u) = u" "check_string (Some h) = h"
    by (simp_all add: check_string_no_space)
  from a show "pretty_mask (n @ ''!'' @ u @ ''@'' @ h) = make_nick_user_host n u h"
    by (simp add: pretty_mask_def split_at_append split_last_append cs)
  from a show "pretty_mask (u @ ''@'' @ h) = make_nick_user_host ''*'' u h"
    by (simp add: pretty_mask_def split_at_absent split_last_append cs)
  from a show "pretty_mask n = (if CHR ''.'' \<in> set n then make_nick_user_host ''*'' ''*'' n
                       else make_nick_user_host n ''*'' ''*'')"
    by (simp add: pretty_mask_def split_at_absent split_last_absent cs strchr_None_iff)
qed

theorem pretty_mask_forms_witness:
  "pretty_mask ''bob!id@a.pt'' = ''bob!id@a.pt'' \<and> pretty_mask ''id@a.pt'' = ''*!id@a.pt'' \<and>
   pretty_mask ''bob'' = ''bob!*@*''"
proof -
  have "\<forall>c\<in>set (''bob'' @ ''id'' @ ''a.pt''). \<not> IsSpace c" by code_simp
  with pretty_mask_forms [of "''bob''" "''bob''" "''id''" "''a.pt''"] have
    "pretty_mask (''bob'' @ ''!'' @ ''id'' @ ''@'' @ ''a.pt'') = make_nick_user_host ''bob'' ''id'' ''a.pt'' \<and>
     pretty_mask (''id'' @ ''@'' @ ''a.pt'') = make_nick_user_host ''*'' ''id'' ''a.pt'' \<and>
     pretty_mask ''bob'' = make_nick_user_host ''bob'' ''*'' ''*''" by simp
  then show ?thesis by (simp add: make_nick_user_host_def NICKLEN_def USERLEN_def HOSTLEN_def)
qed

text \<open>
  Adding and deleting a ban keep the counter equal to the length of the
  list and the list free of masks whose text an older ban matches; a local client never grows a
  list of \<open>MAXBANS\<close> masks, and an addition that is refused leaves every channel as it was.
\<close>

theorem ban_list_invariant:
  assumes "num_bed (chans s ch) = int (length (banlist (chans s ch)))"
    and "bans_irredundant (banlist (chans s ch))"
  shows "(let (t, r, _) = add_banid junk cl ch banid s in
      num_bed (chans t ch) = int (length (banlist (chans t ch))) \<and> bans_irredundant (banlist (chans t ch)) \<and>
      (MyClient (clients s cl) \<and> MAXBANS \<le> num_bed (chans s ch) \<longrightarrow> r = -1) \<and>
      (r \<noteq> 0 \<longrightarrow> chans t = chans s)) \<and>
    (let (t, r) = del_banid ch m s in
      num_bed (chans t ch) = int (length (banlist (chans t ch))) \<and> bans_irredundant (banlist (chans t ch)) \<and>
      (r \<noteq> 0 \<longrightarrow> t = s))"
proof (rule conjI)
  show "let (t, r, _) = add_banid junk cl ch banid s in
      num_bed (chans t ch) = int (length (banlist (chans t ch))) \<and> bans_irredundant (banlist (chans t ch)) \<and>
      (MyClient (clients s cl) \<and> MAXBANS \<le> num_bed (chans s ch) \<longrightarrow> r = -1) \<and>
      (r \<noteq> 0 \<longrightarrow> chans t = chans s)"
    using assms by (auto simp: add_banid_def Let_def bans_irredundant_Cons IsServer_def MyClient_def IsClient_def)
  show "let (t, r) = del_banid ch m s in
      num_bed (chans t ch) = int (length (banlist (chans t ch))) \<and> bans_irredundant (banlist (chans t ch)) \<and>
      (r \<noteq> 0 \<longrightarrow> t = s)"
    using assms by (auto simp: del_banid_def split: option.splits dest!: drop_ban_SomeD intro: bans_irredundant_remove)
qed

theorem ban_list_invariant_witness:
  "let s = boot (\<lambda>_. plain_user ''op'' ''u'' ''h'') plain_config 0; t = fst (add_banid 0 1 5 ''*!*@bad.pt'' s)
   in num_bed (chans t 5) = int (length (banlist (chans t 5))) \<and> bans_irredundant (banlist (chans t 5))"
proof -
  let ?s = "boot (\<lambda>_. plain_user ''op'' ''u'' ''h'') plain_config 0"
  have "num_bed (chans ?s 5) = int (length (banlist (chans ?s 5)))" "bans_irredundant (banlist (chans ?s 5))"
    by (simp_all add: boot_def new_chan_def bans_irredundant_def)
  from ban_list_invariant [OF this, of 0 1 "''*!*@bad.pt''"] show ?thesis
    by (simp only: Let_def split_beta)
qed

text \<open>
  A user is banned only if the wildcard pattern of some ban of the channel
  accepts \<open>nick!user@host\<close>; every ban whose pattern accepts it within the round limit of the
  matcher is enforced; and an addition that succeeds bans everybody its (collapsed) mask matches.
\<close>

theorem is_banned_spec:
  fixes cl ch s
  defines "nuh \<equiv> make_nick_user_host (c_name (clients s cl)) (c_username (clients s cl)) (c_host (clients s cl))"
  shows "(is_banned cl ch s \<noteq> 0 \<longrightarrow> IsPerson (clients s cl) \<and>
            (\<exists>b\<in>set (banlist (chans s ch)). glob (cut (banstr b)) (cut nuh))) \<and>
         (IsPerson (clients s cl) \<and> b \<in> set (banlist (chans s ch)) \<and> glob (cut (banstr b)) (cut nuh) \<and>
            length (cut nuh) * Suc (length (cut (banstr b))) + length (cut (banstr b)) < MATCH_MAX_CALLS \<longrightarrow>
          is_banned cl ch s = CHFL_BAN) \<and>
         (IsPerson (clients s cl) \<and> add_banid junk opr ch m s = (t, 0, out) \<and> match out nuh \<longrightarrow>
          is_banned cl ch t = CHFL_BAN)"
proof (intro conjI impI)
  assume b: "is_banned cl ch s \<noteq> 0"
  then show "IsPerson (clients s cl)" by (simp add: is_banned_def Let_def split: if_splits)
  from b have "is_banned cl ch s = CHFL_BAN" by (simp add: is_banned_def Let_def split: if_splits)
  then show "\<exists>b\<in>set (banlist (chans s ch)). glob (cut (banstr b)) (cut nuh)"
    using match_imp_glob by (auto simp: is_banned_iff nuh_def)
next
  assume "IsPerson (clients s cl) \<and> b \<in> set (banlist (chans s ch)) \<and> glob (cut (banstr b)) (cut nuh) \<and>
            length (cut nuh) * Suc (length (cut (banstr b))) + length (cut (banstr b)) < MATCH_MAX_CALLS"
  then show "is_banned cl ch s = CHFL_BAN"
    using glob_bounded_match [of nuh "banstr b"] by (auto simp: is_banned_iff nuh_def)
next
  assume "IsPerson (clients s cl) \<and> add_banid junk opr ch m s = (t, 0, out) \<and> match out nuh"
  then show "is_banned cl ch t = CHFL_BAN"
    using add_banid_ok [of junk opr ch m s t out] by (auto simp: is_banned_iff nuh_def)
qed

theorem is_banned_spec_witness:
  "let s = fst (add_banid 0 1 5 ''*!*@b*'' (boot (\<lambda>_. plain_user ''ab'' ''u'' ''bad'') plain_config 0))
   in is_banned 1 5 s = CHFL_BAN"
proof -
  let ?s = "boot (\<lambda>_. plain_user ''ab'' ''u'' ''bad'') plain_config 0"
  obtain t r out where t: "add_banid 0 1 5 ''*!*@b*'' ?s = (t, r, out)" by (metis prod_cases3)
  have "r = 0 \<and> out = ''*!*@b*''"
    using t by (simp add: add_banid_def boot_def plain_user_def new_chan_def IsServer_def MyClient_def IsClient_def
        MAXBANS_def Let_def)
  moreover have "match ''*!*@b*'' ''ab!u@bad''" by code_simp
  moreover have "IsPerson (clients ?s 1)" "make_nick_user_host (c_name (clients ?s 1)) (c_username (clients ?s 1))
      (c_host (clients ?s 1)) = ''ab!u@bad''"
    by (simp_all add: boot_def plain_user_def IsPerson_def IsClient_def make_nick_user_host_def
        NICKLEN_def USERLEN_def HOSTLEN_def)
  ultimately show ?thesis using is_banned_spec [of 1 5 ?s _ 0 1 "''*!*@b*''" t out] t by (simp add: Let_def)
qed

text \<open>
  When \<open>add_banid\<close> refuses a mask because a ban without question marks
  matches its text, that ban already accepts everybody the mask accepts. With a question mark
  this fails: the ban \<open>?!*@*\<close> makes \<open>add_banid\<close> refuse \<open>*!*@*\<close>, and \<open>ab!u@h\<close> stays unbanned.
\<close>

theorem ban_refused_covered:
  "(match (banstr b) m \<and> CHR ''?'' \<notin> set (banstr b) \<and> glob (cut m) n \<longrightarrow> glob (cut (banstr b)) n) \<and>
   (let s = fst (add_banid 0 1 5 ''?!*@*'' (boot (\<lambda>_. plain_user ''ab'' ''u'' ''h'') plain_config 0)) in
      fst (snd (add_banid 0 1 5 ''*!*@*'' s)) = -1 \<and> glob ''*!*@*'' ''ab!u@h'' \<and> is_banned 1 5 s = 0)"
proof (rule conjI)
  have "set (cut (banstr b)) \<subseteq> set (banstr b)"
    by (auto simp: cut_def dest: set_takeWhileD)
  then show "match (banstr b) m \<and> CHR ''?'' \<notin> set (banstr b) \<and> glob (cut m) n \<longrightarrow> glob (cut (banstr b)) n"
    using match_imp_glob [of "banstr b" m] glob_covers [of "cut (banstr b)" "cut m" n] by blast
  have "match ''?!*@*'' ''*!*@*''" "\<not> match ''?!*@*'' ''ab!u@h''" "collapse ''?!*@*'' = ''?!*@*''"
    "collapse ''*!*@*'' = ''*!*@*''"
    by code_simp+
  then show "let s = fst (add_banid 0 1 5 ''?!*@*'' (boot (\<lambda>_. plain_user ''ab'' ''u'' ''h'') plain_config 0)) in
      fst (snd (add_banid 0 1 5 ''*!*@*'' s)) = -1 \<and> glob ''*!*@*'' ''ab!u@h'' \<and> is_banned 1 5 s = 0"
    by (simp add: add_banid_def boot_def plain_user_def new_chan_def IsServer_def MyClient_def IsClient_def
        IsPerson_def MAXBANS_def Let_def is_banned_def make_nick_user_host_def NICKLEN_def USERLEN_def HOSTLEN_def)
qed

theorem ban_refused_covered_witness:
  "glob ''*!*@*.pt'' ''x!y@a.pt''"
proof -
  have "match ''*!*@*.pt'' ''x!*@*.pt''" by code_simp
  then show ?thesis
    using ban_refused_covered [of "\<lparr>banstr = ''*!*@*.pt'', bantype = 0, who = [], when = 0\<rparr>"
        "''x!*@*.pt''" "''x!y@a.pt''"] by simp
qed

end
