(* ===== verification/ChanFlags.thy ===== *)
theory ChanFlags
  imports ChanBan
begin

text \<open>
  The flags of a member (\<open>change_chan_flag\<close>, \<open>set_deopped\<close> and the readers), the parsing of mode
  parameters (\<open>fix_key\<close>, \<open>fix_key_old\<close>, \<open>collapse_signs\<close>, \<open>isvalidopt\<close>, \<open>setfl\<close>), the default
  modes and the channel name check, from \<open>src/channel.c\<close>.
\<close>

subsection \<open>Member flags\<close>

text \<open>A write through the link \<open>find_user_link\<close> returned: the first link of that client.\<close>

fun upd_link :: "nat \<Rightarrow> (member \<Rightarrow> member) \<Rightarrow> member list \<Rightarrow> member list" where
  "upd_link p f [] = []"
| "upd_link p f (m # ms) = (if mb_cptr m = p then f m # ms else m # upd_link p f ms)"

definition upd_user_link :: "nat \<Rightarrow> nat \<Rightarrow> (member \<Rightarrow> member) \<Rightarrow> ircd \<Rightarrow> ircd" where
  "upd_user_link ch cl f s =
     (if find_user_link (members (chans s ch)) cl = None then s
      else upd_chan ch (\<lambda>c. c\<lparr>members := upd_link cl f (members c)\<rparr>) s)"

definition change_chan_flag :: "nat \<Rightarrow> nat \<Rightarrow> 32 word \<Rightarrow> ircd \<Rightarrow> ircd" where
  "change_chan_flag ch cl flag s =
     upd_user_link ch cl (\<lambda>m.
       if has flag MODE_ADD then
         (let fl = mb_flags m OR (flag AND MODE_FLAGS)
          in m\<lparr>mb_flags := (if has flag MODE_CHANOP then fl AND NOT MODE_DEOPPED else fl)\<rparr>)
       else m\<lparr>mb_flags := mb_flags m AND (NOT flag AND MODE_FLAGS)\<rparr>) s"

definition set_deopped :: "nat \<Rightarrow> nat \<Rightarrow> 32 word \<Rightarrow> ircd \<Rightarrow> ircd" where
  "set_deopped cl ch flag s =
     upd_user_link ch cl (\<lambda>m. if mb_flags m AND flag = 0 then m\<lparr>mb_flags := mb_flags m OR MODE_DEOPPED\<rparr> else m) s"

text \<open>The readers share one shape: the flags of the client's link, masked, or 0.\<close>

definition user_channel_mode :: "nat \<Rightarrow> nat \<Rightarrow> ircd \<Rightarrow> 32 word" where
  "user_channel_mode cl ch s =
     (if ch = 0 then 0
      else case find_user_link (members (chans s ch)) cl of None \<Rightarrow> 0 | Some lp \<Rightarrow> mb_flags lp)"

definition is_chan_op :: "nat \<Rightarrow> nat \<Rightarrow> ircd \<Rightarrow> 32 word" where
  "is_chan_op cl ch s =
     (if ch = 0 then 0
      else case find_user_link (members (chans s ch)) cl of None \<Rightarrow> 0 | Some lp \<Rightarrow> mb_flags lp AND CHFL_CHANOP)"

definition is_chan_adm :: "nat \<Rightarrow> nat \<Rightarrow> ircd \<Rightarrow> 32 word" where
  "is_chan_adm cl ch s =
     (if ch = 0 then 0
      else case find_user_link (members (chans s ch)) cl of None \<Rightarrow> 0 | Some lp \<Rightarrow> mb_flags lp AND CHFL_CHANADM)"

definition is_deopped :: "nat \<Rightarrow> nat \<Rightarrow> ircd \<Rightarrow> 32 word" where
  "is_deopped cl ch s =
     (if ch = 0 then 0
      else case find_user_link (members (chans s ch)) cl of None \<Rightarrow> 0 | Some lp \<Rightarrow> mb_flags lp AND CHFL_DEOPPED)"

definition has_voice :: "nat \<Rightarrow> nat \<Rightarrow> ircd \<Rightarrow> 32 word" where
  "has_voice cl ch s =
     (if ch = 0 then 0
      else case find_user_link (members (chans s ch)) cl of None \<Rightarrow> 0 | Some lp \<Rightarrow> mb_flags lp AND CHFL_VOICE)"

subsection \<open>Mode parameters\<close>

text \<open>\<open>init_new_cmodes\<close>: the bit of each letter of \<open>DefaultChanMode\<close>; other letters are ignored.\<close>

definition new_cmode_bit :: "char \<Rightarrow> 32 word" where
  "new_cmode_bit c =
     (if c = CHR ''i'' then MODE_INVITEONLY else if c = CHR ''n'' then MODE_NOPRIVMSGS
      else if c = CHR ''p'' then MODE_PRIVATE else if c = CHR ''s'' then MODE_SECRET
      else if c = CHR ''m'' then MODE_MODERATED else if c = CHR ''t'' then MODE_TOPICLIMIT
      else if c = CHR ''C'' then MODE_SSLONLY else if c = CHR ''R'' then MODE_REGONLY
      else if c = CHR ''K'' then MODE_KNOCK else if c = CHR ''O'' then MODE_OPERONLY
      else if c = CHR ''A'' then MODE_ADMINONLY else if c = CHR ''S'' then MODE_NOSPAM
      else if c = CHR ''d'' then MODE_NOFLOOD else if c = CHR ''c'' then MODE_NOCOLORS
      else if c = CHR ''q'' then MODE_NOQUITS else if c = CHR ''B'' then MODE_NOBOTS
      else if c = CHR ''N'' then MODE_NONICKCH else 0)"

fun init_new_cmodes :: "32 word \<Rightarrow> cstr \<Rightarrow> 32 word" where
  "init_new_cmodes new_cmodes [] = new_cmodes"
| "init_new_cmodes new_cmodes (c # s) = init_new_cmodes (new_cmodes OR new_cmode_bit c) s"

text \<open>The bytes are cut to seven bits; control bytes, blanks and colons are dropped.\<close>

definition low7 :: "char \<Rightarrow> char" where
  "low7 c = chr (byte c mod 128)"

fun fix_key :: "cstr \<Rightarrow> cstr" where
  "fix_key [] = []"
| "fix_key (c # s) =
     (let c' = low7 c in if c' \<noteq> CHR '':'' \<and> 32 < byte c' then c' # fix_key s else fix_key s)"

text \<open>In the older version a byte 128 becomes a NUL that stays in the buffer and ends the string.\<close>

fun fix_key_old_loop :: "cstr \<Rightarrow> string" where
  "fix_key_old_loop [] = []"
| "fix_key_old_loop (c # s) =
     (let c' = low7 c in
      if byte c' \<noteq> 10 \<and> c' \<noteq> CHR '':'' then c' # fix_key_old_loop s else fix_key_old_loop s)"

definition fix_key_old :: "cstr \<Rightarrow> cstr" where
  "fix_key_old arg = cut (fix_key_old_loop arg)"

text \<open>The first argument is the variable \<open>plus\<close>: the last sign seen.\<close>

fun collapse_signs_from :: "char \<Rightarrow> cstr \<Rightarrow> cstr" where
  "collapse_signs_from last_sign [] = []"
| "collapse_signs_from last_sign (c # s) =
     (let rest = collapse_signs_from (if c = CHR ''+'' \<or> c = CHR ''-'' then c else last_sign) s
      in if c \<noteq> last_sign then c # rest else rest)"

definition collapse_signs :: "cstr \<Rightarrow> cstr" where
  "collapse_signs s = collapse_signs_from NUL s"

definition errsent :: "32 word \<Rightarrow> 32 word \<Rightarrow> 32 word \<times> bool" where
  "errsent err errs = (if has err errs then (errs, True) else (errs OR err, False))"

text \<open>Mode \<open>+f msgs:per\<close>.\<close>

definition isvalidopt :: "cstr \<Rightarrow> bool" where
  "isvalidopt cp =
     (if \<exists>c\<in>set cp. \<not> IsDigit c \<and> c \<noteq> CHR '':'' then False
      else if strchr cp (CHR '':'') = None then False
      else strchr cp (CHR '':'') = strrchr cp (CHR '':''))"

text \<open>\<open>strchr\<close> and \<open>strrchr\<close> return the same position when the suffixes are the same.\<close>

definition setfl :: "nat \<Rightarrow> cstr \<Rightarrow> ircd \<Rightarrow> ircd \<times> bool" where
  "setfl ch cp s =
     (case split_at cp (CHR '':'') of
        (a, b) \<Rightarrow>
          (let xxi = atoi a; xyi = atoi (case b of None \<Rightarrow> [] | Some t \<Rightarrow> t) in
           if 99 < xxi \<or> 99 < xyi \<or> xxi \<le> 1 \<or> xyi = 0 then (s, False)
           else (upd_chan ch (\<lambda>c. c\<lparr>mode := (mode c)\<lparr>md_msgs := xxi, md_per := xyi\<rparr>\<rparr>) s, True)))"

definition check_channel_name :: "cstr \<Rightarrow> bool" where
  "check_channel_name name \<longleftrightarrow> (\<forall>c\<in>set name. IsChanChar c)"

text \<open>\<open>check_still_split\<close>: the globals it reads and writes.\<close>

record split_state =
  server_split_time :: time_t
  server_was_split :: bool
  got_server_pong :: bool
  cold_start :: bool
  count_server :: int
  count_total :: int

definition check_still_split ::
  "time_t \<Rightarrow> int \<Rightarrow> int \<Rightarrow> time_t \<Rightarrow> split_state \<Rightarrow> split_state" where
  "check_still_split SPLITDELAY SPLITNUM SPLITUSERS now s =
     (if server_split_time s + SPLITDELAY < now then
        if SPLITNUM \<le> count_server s \<and> got_server_pong s \<and> SPLITUSERS \<le> count_total s
        then s\<lparr>server_was_split := False, cold_start := False\<rparr>
        else s\<lparr>server_split_time := now, server_was_split := True\<rparr>
      else s)"

subsection \<open>Lemmas\<close>

lemma map_upd_link: "(\<And>m. mb_cptr (f m) = mb_cptr m) \<Longrightarrow> map mb_cptr (upd_link p f ms) = map mb_cptr ms"
  by (induction ms) auto

lemma find_upd_link:
  assumes "\<And>m. mb_cptr (f m) = mb_cptr m"
  shows "find_user_link (upd_link p f ms) q =
    (if p = q then map_option f (find_user_link ms q) else find_user_link ms q)"
proof -
  have "List.find (\<lambda>m. mb_cptr m = q) (upd_link p f ms) =
    (if p = q then map_option f (List.find (\<lambda>m. mb_cptr m = q) ms) else List.find (\<lambda>m. mb_cptr m = q) ms)"
    using assms by (induction ms) auto
  then show ?thesis by (auto simp: find_user_link_def)
qed

lemma upd_user_link_inv:
  "chan_inv s \<Longrightarrow> (\<And>m. mb_cptr (f m) = mb_cptr m) \<Longrightarrow> chan_inv (upd_user_link ch cl f s)"
  by (auto simp: upd_user_link_def intro!: chan_inv_upd_chan map_upd_link)

lemma user_channel_mode_upd:
  assumes "\<And>m. mb_cptr (f m) = mb_cptr m"
  shows "user_channel_mode q ch' (upd_user_link ch cl f s) =
    (if ch' = ch \<and> q = cl \<and> ch \<noteq> 0 then
       (case find_user_link (members (chans s ch)) cl of None \<Rightarrow> 0 | Some m \<Rightarrow> mb_flags (f m))
     else user_channel_mode q ch' s)"
  using assms by (auto simp: user_channel_mode_def upd_user_link_def find_upd_link split: option.splits)

lemma change_chan_flag_inv: "chan_inv s \<Longrightarrow> chan_inv (change_chan_flag ch cl flag s)"
  unfolding change_chan_flag_def by (rule upd_user_link_inv) (auto simp: Let_def)

lemma set_deopped_inv: "chan_inv s \<Longrightarrow> chan_inv (set_deopped cl ch flag s)"
  unfolding set_deopped_def by (rule upd_user_link_inv) auto

lemma flag_readers:
  "is_chan_op cl ch s = user_channel_mode cl ch s AND CHFL_CHANOP"
  "is_chan_adm cl ch s = user_channel_mode cl ch s AND CHFL_CHANADM"
  "is_deopped cl ch s = user_channel_mode cl ch s AND CHFL_DEOPPED"
  "has_voice cl ch s = user_channel_mode cl ch s AND CHFL_VOICE"
  by (simp_all add: is_chan_op_def is_chan_adm_def is_deopped_def has_voice_def user_channel_mode_def
      split: option.splits)

text \<open>The signed letters a mode string stands for.\<close>

fun signed_modes :: "char \<Rightarrow> cstr \<Rightarrow> (char \<times> char) list" where
  "signed_modes sg [] = []"
| "signed_modes sg (c # s) =
     (if c = CHR ''+'' \<or> c = CHR ''-'' then signed_modes c s else (sg, c) # signed_modes sg s)"

text \<open>No sign repeats the sign in force.\<close>

fun no_redundant_sign :: "char \<Rightarrow> cstr \<Rightarrow> bool" where
  "no_redundant_sign sg [] = True"
| "no_redundant_sign sg (c # s) =
     (if c = CHR ''+'' \<or> c = CHR ''-'' then c \<noteq> sg \<and> no_redundant_sign c s else no_redundant_sign sg s)"

lemma collapse_signs_from_spec:
  "p \<in> {NUL, CHR ''+'', CHR ''-''} \<Longrightarrow> NUL \<notin> set s \<Longrightarrow>
   signed_modes p (collapse_signs_from p s) = signed_modes p s \<and> no_redundant_sign p (collapse_signs_from p s)"
proof (induction s arbitrary: p)
  case (Cons c s)
  show ?case
  proof (cases "c \<in> {CHR ''+'', CHR ''-''}")
    case True
    then have "signed_modes c (collapse_signs_from c s) = signed_modes c s \<and>
        no_redundant_sign c (collapse_signs_from c s)"
      using Cons by (intro Cons.IH) auto
    with True show ?thesis by (cases "c = p") (simp_all add: Let_def)
  next
    case False
    then have "c \<noteq> p" using Cons.prems by auto
    moreover have "signed_modes p (collapse_signs_from p s) = signed_modes p s \<and>
        no_redundant_sign p (collapse_signs_from p s)"
      using Cons by (intro Cons.IH) auto
    ultimately show ?thesis using False by (simp add: Let_def)
  qed
qed simp

lemma setfl_True:
  "setfl ch cp s = (t, True) \<Longrightarrow> \<exists>m p. 2 \<le> m \<and> m \<le> 99 \<and> p \<noteq> 0 \<and> p \<le> 99 \<and>
     t = upd_chan ch (\<lambda>c. c\<lparr>mode := (mode c)\<lparr>md_msgs := m, md_per := p\<rparr>\<rparr>) s"
proof -
  assume a: "setfl ch cp s = (t, True)"
  obtain x y where xy: "split_at cp (CHR '':'') = (x, y)" by fastforce
  let ?m = "atoi x" and ?p = "atoi (case y of None \<Rightarrow> [] | Some t \<Rightarrow> t)"
  from a have "2 \<le> ?m \<and> ?m \<le> 99 \<and> ?p \<noteq> 0 \<and> ?p \<le> 99 \<and>
     t = upd_chan ch (\<lambda>c. c\<lparr>mode := (mode c)\<lparr>md_msgs := ?m, md_per := ?p\<rparr>\<rparr>) s"
    unfolding setfl_def xy Let_def by (simp split: if_splits)
  then show ?thesis by blast
qed

lemma setfl_inv: "chan_inv s \<Longrightarrow> chan_inv (fst (setfl ch cp s))"
  by (auto simp: setfl_def Let_def split: prod.splits intro!: chan_inv_upd_chan)

subsection \<open>Properties\<close>

text \<open>
  With \<open>MODE_ADD\<close> exactly the named flag bits are added to the member's
  link, and an operator is no longer marked deopped; without it exactly those bits are cleared.
  No other member of any channel changes, and changing a flag keeps the channel store consistent.
\<close>

theorem chan_flag_change:
  fixes s ch cl flag
  defines "t \<equiv> change_chan_flag ch cl flag s"
  assumes "ch \<noteq> 0" "find_user_link (members (chans s ch)) cl \<noteq> None"
  shows "user_channel_mode cl ch t =
      (if has flag MODE_ADD then
         (if has flag MODE_CHANOP
          then (user_channel_mode cl ch s OR (flag AND MODE_FLAGS)) AND NOT MODE_DEOPPED
          else user_channel_mode cl ch s OR (flag AND MODE_FLAGS))
       else user_channel_mode cl ch s AND NOT flag AND MODE_FLAGS) \<and>
    (has flag MODE_ADD \<and> has flag MODE_CHANOP \<longrightarrow> is_chan_op cl ch t \<noteq> 0 \<and> is_deopped cl ch t = 0) \<and>
    ((q, ch') \<noteq> (cl, ch) \<longrightarrow> user_channel_mode q ch' t = user_channel_mode q ch' s) \<and>
    (chan_inv s \<longrightarrow> chan_inv t)"
proof -
  from assms obtain m where m: "find_user_link (members (chans s ch)) cl = Some m" by auto
  then have u: "user_channel_mode cl ch s = mb_flags m" using assms by (simp add: user_channel_mode_def)
  have t: "user_channel_mode cl ch t =
      (if has flag MODE_ADD then
         (if has flag MODE_CHANOP
          then (user_channel_mode cl ch s OR (flag AND MODE_FLAGS)) AND NOT MODE_DEOPPED
          else user_channel_mode cl ch s OR (flag AND MODE_FLAGS))
       else user_channel_mode cl ch s AND NOT flag AND MODE_FLAGS)"
    unfolding t_def change_chan_flag_def
    by (subst user_channel_mode_upd) (use assms m u in \<open>auto simp: Let_def and.assoc\<close>)
  have "is_chan_op cl ch t \<noteq> 0 \<and> is_deopped cl ch t = 0" if "has flag MODE_ADD" "has flag MODE_CHANOP"
  proof -
    have "flag AND 1 \<noteq> 0" using that(2) by (simp add: has_def CHFL_CHANOP_def)
    then have b: "bit flag 0" by (auto simp: and_one_eq bit_0 odd_iff_mod_2_eq_one)
    have "bit (is_chan_op cl ch t) 0"
      using b by (simp add: flag_readers t that bit_simps chfl_defs MODE_FLAGS_def)
    moreover have "is_deopped cl ch t = 0"
      by (rule bit_eqI) (simp add: flag_readers t that bit_simps)
    ultimately show ?thesis by (auto simp: bit_simps)
  qed
  moreover have "user_channel_mode q ch' t = user_channel_mode q ch' s" if "(q, ch') \<noteq> (cl, ch)"
    unfolding t_def change_chan_flag_def
    by (subst user_channel_mode_upd) (use that in \<open>auto simp: Let_def\<close>)
  ultimately show ?thesis using t change_chan_flag_inv by (auto simp: t_def)
qed

theorem chan_flag_change_witness:
  "let s = add_user_to_channel 5 3 MODE_DEOPPED (boot (\<lambda>_. plain_user ''op'' ''u'' ''h'') plain_config 0);
       t = change_chan_flag 5 3 (MODE_ADD OR MODE_CHANOP) s
   in is_chan_op 3 5 t \<noteq> 0 \<and> is_deopped 3 5 t = 0"
proof -
  let ?s = "add_user_to_channel 5 3 MODE_DEOPPED (boot (\<lambda>_. plain_user ''op'' ''u'' ''h'') plain_config 0)"
  have "find_user_link (members (chans ?s 5)) 3 \<noteq> None"
    by (simp add: add_user_to_channel_def link_member_def boot_def plain_user_def find_user_link_def)
  moreover have "has (MODE_ADD OR MODE_CHANOP) MODE_ADD" "has (MODE_ADD OR MODE_CHANOP) MODE_CHANOP"
    by (simp_all add: has_def chfl_defs mode_defs)
  ultimately show ?thesis using chan_flag_change [of 5 ?s 3 "MODE_ADD OR MODE_CHANOP"] by (simp add: Let_def)
qed

text \<open>
  \<open>collapse_signs\<close> keeps the sequence of signed mode letters a mode
  string stands for and leaves no sign that repeats the sign in force.
\<close>

theorem collapse_signs_spec:
  "NUL \<notin> set s \<Longrightarrow> signed_modes NUL (collapse_signs s) = signed_modes NUL s \<and>
     no_redundant_sign NUL (collapse_signs s)"
  unfolding collapse_signs_def by (rule collapse_signs_from_spec) simp_all

theorem collapse_signs_spec_witness:
  "signed_modes NUL (collapse_signs ''+o+v-b'') = [(CHR ''+'', CHR ''o''), (CHR ''+'', CHR ''v''), (CHR ''-'', CHR ''b'')]"
  using collapse_signs_spec [of "''+o+v-b''"] by simp

lemma low7_simps: "byte (low7 c) < 128" "low7 (low7 c) = low7 c"
  by (simp_all add: low7_def)

text \<open>
  A key cleaned by \<open>fix_key\<close> has only bytes between 33 and 127, no colon (so it
  can travel as a middle parameter), is no longer than the argument, and cleaning is idempotent;
  the older \<open>fix_key_old\<close> also ends its result at a byte 128, and lets blanks and control bytes
  through.
\<close>

theorem fix_key_clean:
  "(\<forall>c\<in>set (fix_key k). 32 < byte c \<and> byte c < 128 \<and> c \<noteq> CHR '':'') \<and>
   length (fix_key k) \<le> length k \<and> fix_key (fix_key k) = fix_key k \<and>
   (\<forall>c\<in>set (fix_key_old k). byte c < 128 \<and> byte c \<noteq> 10 \<and> byte c \<noteq> 0 \<and> c \<noteq> CHR '':'') \<and>
   fix_key_old (p @ chr 128 # k) = fix_key_old p \<and> fix_key_old ''a b'' = ''a b''"
proof (intro conjI)
  show "\<forall>c\<in>set (fix_key k). 32 < byte c \<and> byte c < 128 \<and> c \<noteq> CHR '':''"
    by (induction k) (auto simp: Let_def low7_simps)
  show "length (fix_key k) \<le> length k"
    by (induction k) (auto simp: Let_def)
  show "fix_key (fix_key k) = fix_key k"
    by (induction k) (auto simp: Let_def low7_simps)
  have "\<forall>c\<in>set (fix_key_old_loop k). byte c < 128 \<and> byte c \<noteq> 10 \<and> c \<noteq> CHR '':''"
    by (induction k) (auto simp: Let_def low7_simps)
  moreover have "set (cut s) \<subseteq> set s" for s
    by (auto simp: cut_def dest: set_takeWhileD)
  moreover have "byte c \<noteq> 0" if "c \<in> set (cut s)" for c s
    using that NUL_notin_cut [of s] by (metis byte_eq_0)
  ultimately show "\<forall>c\<in>set (fix_key_old k). byte c < 128 \<and> byte c \<noteq> 10 \<and> byte c \<noteq> 0 \<and> c \<noteq> CHR '':''"
    unfolding fix_key_old_def by (metis subsetD)
  have nul: "low7 (chr 128) = NUL" by (simp add: low7_def chr_byte_eq)
  have app: "fix_key_old_loop (p @ q) = fix_key_old_loop p @ fix_key_old_loop q" for p q
    by (induction p) (simp_all add: Let_def)
  have "cut (x @ NUL # y) = cut x" for x y
    by (induction x) (simp_all add: cut_Cons)
  then show "fix_key_old (p @ chr 128 # k) = fix_key_old p"
    by (simp add: fix_key_old_def app nul)
  show "fix_key_old ''a b'' = ''a b''" by code_simp
qed

theorem fix_key_clean_witness:
  "32 < byte (CHR ''k'') \<and> CHR ''k'' \<noteq> CHR '':''"
proof -
  have "fix_key ''k :'' = ''k''" by code_simp
  moreover have "\<forall>c\<in>set (fix_key ''k :''). 32 < byte c \<and> byte c < 128 \<and> c \<noteq> CHR '':''"
    using fix_key_clean [of "''k :''" "[]"] by (rule conjunct1)
  ultimately have "\<forall>c\<in>set ''k''. 32 < byte c \<and> byte c < 128 \<and> c \<noteq> CHR '':''" by (simp only:)
  then show ?thesis by simp
qed

end
