(* ===== verification/ChanBurst.thy ===== *)
theory ChanBurst
  imports ChanFlags
begin

text \<open>
  Telling another server about a channel, from \<open>src/channel.c\<close>: the mode string
  (\<open>channel_modes\<close>), the member list in \<open>NJOIN\<close> lines with an operator first and the ban list in
  \<open>MODE\<close> lines (\<open>send_mode_list\<close>, \<open>send_channel_modes\<close>).
\<close>

definition MODEBUFLEN :: nat where "MODEBUFLEN = 200"
definition BUFSIZE :: nat where "BUFSIZE = 512"

subsection \<open>The mode string\<close>

definition f_param :: "int \<Rightarrow> int \<Rightarrow> cstr" where
  "f_param msgs per = dec msgs @ '':'' @ dec per @ '' ''"

text \<open>
  The letters in the order of the code. The result is \<open>mbuf\<close> and \<open>pbuf\<close>; \<open>ircsprintf\<close> overwrites
  \<open>pbuf\<close>, \<open>strcat\<close> appends to it. The blank after the key stands outside the \<open>if\<close>.
\<close>

definition flag_char :: "32 word \<Rightarrow> 32 word \<Rightarrow> char \<Rightarrow> cstr" where
  "flag_char m b c = (if has m b then [c] else [])"

definition channel_modes :: "nat \<Rightarrow> nat \<Rightarrow> bool \<Rightarrow> cstr \<Rightarrow> ircd \<Rightarrow> cstr \<times> cstr" where
  "channel_modes cl ch is_list pbuf s =
     (let md = mode (chans s ch); m = md_mode md; cptr = clients s cl;
          priv = IsMember s cl ch \<or> IsServer cptr;
          mbuf1 = ''+'' @ flag_char m MODE_SECRET (CHR ''s'') @ flag_char m MODE_PRIVATE (CHR ''p'') @
            flag_char m MODE_MODERATED (CHR ''m'') @ flag_char m MODE_TOPICLIMIT (CHR ''t'') @
            flag_char m MODE_INVITEONLY (CHR ''i'') @ flag_char m MODE_NOPRIVMSGS (CHR ''n'');
          (mbuf2, pbuf2) =
            (if md_limit md \<noteq> 0
             then (mbuf1 @ ''l'', if priv \<or> is_list then dec (md_limit md) @ '' '' else pbuf)
             else (mbuf1, pbuf));
          (mbuf3, pbuf3) =
            (if md_key md \<noteq> []
             then (mbuf2 @ ''k'', (if priv then pbuf2 @ md_key md else pbuf2) @ '' '')
             else (mbuf2, pbuf2));
          mbuf4 = mbuf3 @ flag_char m MODE_REGISTERED (CHR ''r'') @ flag_char m MODE_SSLONLY (CHR ''C'') @
            flag_char m MODE_REGONLY (CHR ''R'') @ flag_char m MODE_KNOCK (CHR ''K'') @
            flag_char m MODE_OPERONLY (CHR ''O'') @ flag_char m MODE_ADMINONLY (CHR ''A'') @
            flag_char m MODE_NOBOTS (CHR ''B'') @ flag_char m MODE_NOSPAM (CHR ''S'') @
            flag_char m MODE_NOFLOOD (CHR ''d'') @ flag_char m MODE_NOCOLORS (CHR ''c'') @
            flag_char m MODE_NOQUITS (CHR ''q'') @ flag_char m MODE_NONICKCH (CHR ''N'')
      in if md_msgs md \<noteq> 0
         then (mbuf4 @ ''f'',
               if priv \<or> IsOper cptr \<or> is_list then pbuf3 @ f_param (md_msgs md) (md_per md) else pbuf3)
         else (mbuf4, pbuf3))"

subsection \<open>The ban list\<close>

text \<open>
  \<open>send_mode_list\<close> works on the global buffers \<open>modebuf\<close> and \<open>parabuf\<close>; \<open>ml_out\<close> collects the
  contents of the two at each line sent.
\<close>

record mode_lines =
  ml_modebuf :: cstr
  ml_parabuf :: cstr
  ml_count :: nat
  ml_out :: "(cstr \<times> cstr) list"

definition send_mode_step :: "char \<Rightarrow> cstr \<Rightarrow> mode_lines \<Rightarrow> mode_lines" where
  "send_mode_step flag nm st =
     (let fits = length (ml_parabuf st) + length nm + 10 < MODEBUFLEN;
          st1 = (if fits then st\<lparr>ml_parabuf := ml_parabuf st @ '' '' @ nm, ml_count := ml_count st + 1,
                                 ml_modebuf := ml_modebuf st @ [flag]\<rparr> else st);
          to_send = (\<not> fits \<and> ml_parabuf st \<noteq> [] \<or> ml_count st1 = 3)
      in if to_send then
           (if ml_count st1 \<noteq> 3
            then st1\<lparr>ml_out := ml_out st1 @ [(ml_modebuf st1, ml_parabuf st1)],
                     ml_parabuf := nm, ml_modebuf := ''+'' @ [flag], ml_count := 0\<rparr>
            else st1\<lparr>ml_out := ml_out st1 @ [(ml_modebuf st1, ml_parabuf st1)],
                     ml_parabuf := [], ml_modebuf := ''+'', ml_count := 0\<rparr>)
         else st1)"

definition send_mode_list :: "cstr \<Rightarrow> cstr \<Rightarrow> cstr list \<Rightarrow> char \<Rightarrow> mode_lines" where
  "send_mode_list modebuf parabuf masks flag =
     foldl (\<lambda>st nm. send_mode_step flag nm st)
       \<lparr>ml_modebuf = modebuf, ml_parabuf = parabuf, ml_count = (if parabuf \<noteq> [] then 1 else 0), ml_out = []\<rparr>
       masks"

text \<open>The lines of the ban burst: those sent on the way and the rest \<open>send_channel_modes\<close> flushes.\<close>

definition ban_burst :: "cstr list \<Rightarrow> (cstr \<times> cstr) list" where
  "ban_burst masks =
     (let st = send_mode_list ''+'' [] masks (CHR ''b'')
      in ml_out st @ (if 1 < length (ml_modebuf st) \<or> ml_parabuf st \<noteq> []
                      then [(ml_modebuf st, ml_parabuf st)] else []))"

subsection \<open>The member list\<close>

text \<open>
  The walk over the member links, with the operator \<open>anop\<close> first. A link is its position in the
  list, \<open>None\<close> the null pointer; \<open>n\<close> is the length of the list.
\<close>

definition link_at :: "nat \<Rightarrow> nat \<Rightarrow> nat option" where
  "link_at n i = (if i < n then Some i else None)"

definition next_link :: "nat \<Rightarrow> nat option \<Rightarrow> nat option \<Rightarrow> nat option" where
  "next_link n l skip =
     (let l1 = (if l = None \<or> l = skip then link_at n 0 else link_at n (Suc (the l)))
      in if l1 \<noteq> None \<and> l1 = skip then link_at n (Suc (the l1)) else l1)"

fun visit :: "nat \<Rightarrow> nat \<Rightarrow> nat option \<Rightarrow> nat option \<Rightarrow> nat option \<Rightarrow> nat list" where
  "visit 0 n anop l skip = []"
| "visit (Suc fuel) n anop l skip =
     (case anop of
        Some a \<Rightarrow> a # visit fuel n None (Some a) (Some a)
      | None \<Rightarrow> (case next_link n l skip of None \<Rightarrow> [] | Some i \<Rightarrow> i # visit fuel n None (Some i) skip))"

fun find_op :: "nat \<Rightarrow> member list \<Rightarrow> nat option" where
  "find_op i [] = None"
| "find_op i (m # ms) =
     (if mb_cptr m = 0 then None
      else if has (mb_flags m) MODE_CHANOP then Some i else find_op (Suc i) ms)"

definition burst_order :: "member list \<Rightarrow> member list" where
  "burst_order ms =
     map (\<lambda>i. ms ! i) (visit (length ms + 2) (length ms) (find_op 0 ms) None None)"

definition member_token :: "(nat \<Rightarrow> client) \<Rightarrow> member \<Rightarrow> cstr" where
  "member_token cls m =
     (if has (mb_flags m) MODE_CHANADM then ''.'' else []) @
     (if has (mb_flags m) MODE_CHANOP then ''@'' else []) @
     (if has (mb_flags m) MODE_VOICE then ''+'' else []) @ c_name (cls (mb_cptr m)) @ '' ''"

text \<open>
  A line is sent as soon as it is longer than \<open>BUFSIZE - 80\<close>; the test for a trailing blank looks
  at the byte just written, the NUL, so the blank is sent.
\<close>

fun njoin_lines :: "(nat \<Rightarrow> client) \<Rightarrow> cstr \<Rightarrow> cstr \<Rightarrow> nat \<Rightarrow> member list \<Rightarrow> cstr list" where
  "njoin_lines cls hdr buf n [] = (if n \<noteq> 0 then [buf] else [])"
| "njoin_lines cls hdr buf n (m # ms) =
     (let buf' = buf @ member_token cls m
      in if BUFSIZE - 80 < length buf' then buf' # njoin_lines cls hdr hdr 0 ms
         else njoin_lines cls hdr buf' (Suc n) ms)"

definition njoin_header :: "ircd \<Rightarrow> nat \<Rightarrow> cstr" where
  "njoin_header s ch = '':'' @ me_name (cfg s) @ '' NJOIN '' @ lu (channelts (chans s ch)) @ '' '' @
     chname (chans s ch) @ '' ''"

text \<open>The first header carries the modes and their parameters, the others a \<open>0\<close>.\<close>

definition first_header :: "nat \<Rightarrow> nat \<Rightarrow> ircd \<Rightarrow> cstr" where
  "first_header cl ch s =
     (let (modebuf, parabuf) = channel_modes cl ch False [] s;
          parabuf' = (if parabuf \<noteq> [] then parabuf @ '' '' else parabuf)
      in njoin_header s ch @ modebuf @ '' '' @ parabuf' @ '':'')"

definition next_header :: "nat \<Rightarrow> ircd \<Rightarrow> cstr" where
  "next_header ch s = njoin_header s ch @ ''0 :''"

definition send_channel_modes :: "nat \<Rightarrow> nat \<Rightarrow> ircd \<Rightarrow> ircd" where
  "send_channel_modes cl ch s =
     (if hd0 (chname (chans s ch)) \<noteq> CHR ''#'' then s
      else
        let lines = njoin_lines (clients s) (next_header ch s) (first_header cl ch s) 0
                      (burst_order (members (chans s ch)));
            bans = ban_burst (map banstr (banlist (chans s ch)));
            line = (\<lambda>(mb, pb). '':'' @ me_name (cfg s) @ '' MODE '' @ chname (chans s ch) @ '' '' @ mb @ '' '' @ pb)
        in s\<lparr>sent := sent s @ map (Pair (ToOne cl)) lines @ map (\<lambda>b. (ToOne cl, line b)) bans\<rparr>)"

subsection \<open>The walk visits every member once\<close>

lemma visit_plain: "n - i \<le> fuel \<Longrightarrow> i < n \<Longrightarrow> visit fuel n None (Some i) None = [Suc i..<n]"
proof (induction fuel arbitrary: i)
  case (Suc fuel)
  show ?case
  proof (cases "Suc i < n")
    case True
    with Suc have "visit fuel n None (Some (Suc i)) None = [Suc (Suc i)..<n]" by simp
    with True show ?thesis by (simp add: next_link_def link_at_def upt_conv_Cons)
  qed (simp add: next_link_def link_at_def)
qed simp

lemma visit_skip:
  "n - i \<le> fuel \<Longrightarrow> i < n \<Longrightarrow> i \<noteq> a \<Longrightarrow>
   visit fuel n None (Some i) (Some a) = filter (\<lambda>j. j \<noteq> a) [Suc i..<n]"
proof (induction fuel arbitrary: i)
  case (Suc fuel)
  show ?case
  proof (cases "Suc i = a \<and> a < n")
    case True
    show ?thesis
    proof (cases "Suc a < n")
      case T: True
      with Suc True have "visit fuel n None (Some (Suc a)) (Some a) = filter (\<lambda>j. j \<noteq> a) [Suc (Suc a)..<n]" by simp
      with True T Suc.prems show ?thesis
        by (auto simp add: next_link_def link_at_def upt_conv_Cons [of "a"] upt_conv_Cons [of "Suc a"])
    next
      case F: False
      with True Suc.prems show ?thesis
        by (simp add: next_link_def link_at_def upt_conv_Cons [of "Suc i"])
    qed
  next
    case False
    show ?thesis
    proof (cases "Suc i < n")
      case T: True
      with Suc False have "visit fuel n None (Some (Suc i)) (Some a) = filter (\<lambda>j. j \<noteq> a) [Suc (Suc i)..<n]" by auto
      with False T Suc.prems show ?thesis
        by (auto simp add: next_link_def link_at_def upt_conv_Cons [of "Suc i"])
    next
      case F: False
      with Suc.prems show ?thesis by (simp add: next_link_def link_at_def)
    qed
  qed
qed simp

lemma visit_none: "visit (n + 2) n None None None = [0..<n]"
proof (cases n)
  case (Suc k)
  then show ?thesis using visit_plain [of n 0 "n + 1"]
    by (simp add: next_link_def link_at_def upt_conv_Cons del: upt_Suc)
qed (simp add: next_link_def link_at_def)

lemma visit_first:
  assumes "a < n"
  shows "visit (n + 2) n (Some a) None None = a # filter (\<lambda>j. j \<noteq> a) [0..<n]"
proof -
  obtain k where n: "n = Suc k" using assms by (cases n) auto
  have "visit (Suc n) n None (Some a) (Some a) = filter (\<lambda>j. j \<noteq> a) [0..<n]"
  proof (cases "a = 0")
    case True
    show ?thesis
    proof (cases "Suc 0 < n")
      case T: True
      then show ?thesis using True visit_skip [of n "Suc 0" n a]
        by (simp add: next_link_def link_at_def upt_conv_Cons [of 0] upt_conv_Cons [of "Suc 0"])
    next
      case F: False
      with n True show ?thesis by (simp add: next_link_def link_at_def)
    qed
  next
    case False
    then show ?thesis using visit_skip [of n 0 n a] n
      by (simp add: next_link_def link_at_def upt_conv_Cons [of 0] del: upt_Suc)
  qed
  then show ?thesis by simp
qed

lemma find_op_Some:
  "find_op i ms = Some a \<Longrightarrow> i \<le> a \<and> a - i < length ms \<and> has (mb_flags (ms ! (a - i))) MODE_CHANOP \<and>
     (\<forall>j<a - i. \<not> has (mb_flags (ms ! j)) MODE_CHANOP)"
proof (induction i ms rule: find_op.induct)
  case (2 i m ms)
  show ?case
  proof (cases "has (mb_flags m) MODE_CHANOP")
    case True
    with 2 show ?thesis by (auto split: if_splits)
  next
    case False
    with 2 have IH: "Suc i \<le> a" "a - Suc i < length ms" "has (mb_flags (ms ! (a - Suc i))) MODE_CHANOP"
      "\<forall>j<a - Suc i. \<not> has (mb_flags (ms ! j)) MODE_CHANOP"
      by (auto split: if_splits)
    then obtain k where "a = Suc i + k" using le_Suc_ex by blast
    with IH False show ?thesis by (auto simp: less_Suc_eq_0_disj nth_Cons' )
  qed
qed simp

lemma filter_neq_upt: "a < n \<Longrightarrow> filter (\<lambda>j. j \<noteq> a) [0..<n] = [0..<a] @ [Suc a..<n]"
proof -
  assume a: "a < n"
  then have "[0..<n] = [0..<a] @ a # [Suc a..<n]"
    by (metis upt_add_eq_append upt_conv_Cons le0 less_imp_add_positive add_0)
  then show ?thesis by (auto simp: filter_id_conv)
qed

lemma burst_order_eq:
  "burst_order ms = (case find_op 0 ms of None \<Rightarrow> ms | Some a \<Rightarrow> ms ! a # take a ms @ drop (Suc a) ms)"
proof (cases "find_op 0 ms")
  case None
  then show ?thesis
    using visit_none [of "length ms"] by (simp only: burst_order_def map_nth option.case)
next
  case (Some a)
  then have a: "a < length ms" using find_op_Some [of 0 ms a] by simp
  have "map ((!) ms) [0..<a] = take a ms" "map ((!) ms) [Suc a..<length ms] = drop (Suc a) ms"
    using a by (auto intro!: nth_equalityI)
  with Some a show ?thesis
    using visit_first [OF a] by (simp add: burst_order_def filter_neq_upt del: visit.simps add_2_eq_Suc')
qed

lemma mset_burst_order: "mset (burst_order ms) = mset ms"
proof (cases "find_op 0 ms")
  case (Some a)
  then have a: "a < length ms" using find_op_Some [of 0 ms a] by simp
  then have "mset ms = mset (take a ms @ ms ! a # drop (Suc a) ms)" by (simp add: id_take_nth_drop [symmetric])
  with Some show ?thesis by (simp add: burst_order_eq)
qed (simp add: burst_order_eq)

subsection \<open>What the lines contain\<close>

text \<open>The lines a list of groups of tokens stands for: the first header, then the short one.\<close>

fun lines_of :: "cstr \<Rightarrow> cstr \<Rightarrow> cstr list list \<Rightarrow> cstr list" where
  "lines_of h hdr [] = []"
| "lines_of h hdr (g # gs) = (h @ concat g) # map (\<lambda>g. hdr @ concat g) gs"

lemma lines_of_hdr: "lines_of h h gs = map (\<lambda>g. h @ concat g) gs"
  by (cases gs) simp_all

lemma njoin_lines_groups:
  "\<exists>gs. (\<forall>g\<in>set gs. g \<noteq> []) \<and> concat gs = g0 @ map (member_token cls) ms \<and>
     njoin_lines cls hdr (h @ concat g0) (length g0) ms = lines_of h hdr gs"
proof (induction ms arbitrary: h g0)
  case Nil
  show ?case by (cases "g0 = []") (auto intro: exI [of _ "[]"] exI [of _ "[g0]"])
next
  case (Cons m ms)
  let ?g = "g0 @ [member_token cls m]"
  show ?case
  proof (cases "BUFSIZE - 80 < length (h @ concat ?g)")
    case True
    obtain gs where gs: "\<forall>g\<in>set gs. g \<noteq> []" "concat gs = map (member_token cls) ms"
      "njoin_lines cls hdr (hdr @ concat []) (length ([]::cstr list)) ms = lines_of hdr hdr gs"
      using Cons.IH [of "[]" hdr] by auto
    then have "njoin_lines cls hdr (h @ concat g0) (length g0) (m # ms) = lines_of h hdr (?g # gs)"
      using True by (simp add: Let_def lines_of_hdr)
    with gs show ?thesis by (intro exI [of _ "?g # gs"]) simp
  next
    case False
    from Cons.IH [of ?g h] obtain gs where "\<forall>g\<in>set gs. g \<noteq> []"
      "concat gs = ?g @ map (member_token cls) ms"
      "njoin_lines cls hdr (h @ concat ?g) (length ?g) ms = lines_of h hdr gs" by blast
    with False show ?thesis by (intro exI [of _ gs]) (simp add: Let_def)
  qed
qed

lemma njoin_lines_length:
  "length buf \<le> BUFSIZE - 80 \<Longrightarrow> length hdr \<le> BUFSIZE - 80 \<Longrightarrow>
   (\<forall>m\<in>set ms. length (member_token cls m) \<le> k) \<Longrightarrow>
   l \<in> set (njoin_lines cls hdr buf n ms) \<Longrightarrow> length l \<le> BUFSIZE - 80 + k"
proof (induction ms arbitrary: buf n)
  case (Cons m ms)
  then have "length (buf @ member_token cls m) \<le> BUFSIZE - 80 + k" by simp
  moreover note Cons.IH [of hdr 0] Cons.IH [of "buf @ member_token cls m" "Suc n"] Cons.prems
  ultimately show ?case by (auto simp: Let_def not_less split: if_splits)
qed (auto split: if_splits)

text \<open>The blank-separated words of a text.\<close>

fun words_from :: "cstr \<Rightarrow> cstr \<Rightarrow> cstr list" where
  "words_from acc [] = (if acc = [] then [] else [acc])"
| "words_from acc (c # s) =
     (if c = CHR '' '' then (if acc = [] then words_from [] s else acc # words_from [] s)
      else words_from (acc @ [c]) s)"

abbreviation words :: "cstr \<Rightarrow> cstr list" where
  "words s \<equiv> words_from [] s"

lemma words_from_blank: "words_from acc (s @ CHR '' '' # t) = words_from acc s @ words t"
  by (induction acc s rule: words_from.induct) auto

lemma words_from_one: "CHR '' '' \<notin> set s \<Longrightarrow> acc @ s \<noteq> [] \<Longrightarrow> words_from acc s = [acc @ s]"
  by (induction s arbitrary: acc) auto

definition good_mask :: "cstr \<Rightarrow> bool" where
  "good_mask m \<longleftrightarrow> m \<noteq> [] \<and> CHR '' '' \<notin> set m \<and> length m + 10 < MODEBUFLEN"

definition good_line :: "cstr \<times> cstr \<Rightarrow> bool" where
  "good_line l \<longleftrightarrow> fst l = ''+'' @ replicate (length (words (snd l))) (CHR ''b'') \<and>
     words (snd l) \<noteq> [] \<and> length (words (snd l)) \<le> 4 \<and> length (snd l) < MODEBUFLEN"

definition burst_inv :: "cstr list \<Rightarrow> mode_lines \<Rightarrow> bool" where
  "burst_inv dn st \<longleftrightarrow> concat (map (words \<circ> snd) (ml_out st)) @ words (ml_parabuf st) = dn \<and>
     (\<forall>l\<in>set (ml_out st). good_line l) \<and>
     ml_modebuf st = ''+'' @ replicate (length (words (ml_parabuf st))) (CHR ''b'') \<and>
     ml_count st \<le> 2 \<and> ml_count st \<le> length (words (ml_parabuf st)) \<and>
     length (words (ml_parabuf st)) \<le> ml_count st + 1 \<and> length (ml_parabuf st) < MODEBUFLEN \<and>
     (words (ml_parabuf st) = [] \<longleftrightarrow> ml_parabuf st = [])"

lemma burst_inv_step:
  assumes inv: "burst_inv dn st" and m: "good_mask m"
  shows "burst_inv (dn @ [m]) (send_mode_step (CHR ''b'') m st)"
proof -
  have wm: "words m = [m]" using m words_from_one [of m "[]"] by (simp add: good_mask_def)
  have app: "words (ml_parabuf st @ '' '' @ m) = words (ml_parabuf st) @ [m]"
    using words_from_blank [of "[]" "ml_parabuf st" m] wm by simp
  note d = burst_inv_def good_line_def send_mode_step_def Let_def
  show ?thesis
  proof (cases "length (ml_parabuf st) + length m + 10 < MODEBUFLEN")
    case fits: True
    show ?thesis
    proof (cases "ml_count st + 1 = 3")
      case True
      with fits inv app show ?thesis
        by (auto simp: d replicate_append_same [symmetric] split: if_splits)
    next
      case False
      with fits inv app show ?thesis
        by (auto simp: d replicate_append_same [symmetric])
    qed
  next
    case False
    with m have "ml_parabuf st \<noteq> []" by (auto simp: good_mask_def)
    with False inv m wm show ?thesis by (auto simp: d good_mask_def)
  qed
qed

lemma burst_inv_fold:
  "burst_inv dn st \<Longrightarrow> (\<forall>m\<in>set ms. good_mask m) \<Longrightarrow>
   burst_inv (dn @ ms) (foldl (\<lambda>st nm. send_mode_step (CHR ''b'') nm st) st ms)"
proof (induction ms arbitrary: dn st)
  case (Cons m ms)
  then have "burst_inv (dn @ [m]) (send_mode_step (CHR ''b'') m st)"
    by (intro burst_inv_step) simp_all
  with Cons have "burst_inv ((dn @ [m]) @ ms)
      (foldl (\<lambda>st nm. send_mode_step (CHR ''b'') nm st) (send_mode_step (CHR ''b'') m st) ms)"
    by (intro Cons.IH) simp_all
  then show ?case by simp
qed simp

lemma ban_burst_spec:
  assumes "\<forall>m\<in>set ms. good_mask m"
  shows "concat (map (words \<circ> snd) (ban_burst ms)) = ms \<and> (\<forall>l\<in>set (ban_burst ms). good_line l)"
proof -
  let ?st0 = "\<lparr>ml_modebuf = ''+'', ml_parabuf = [], ml_count = 0, ml_out = []\<rparr>"
  have "burst_inv [] ?st0" by (simp add: burst_inv_def MODEBUFLEN_def)
  from burst_inv_fold [OF this assms]
  have inv: "burst_inv ms (send_mode_list ''+'' [] ms (CHR ''b''))"
    by (simp add: send_mode_list_def)
  then show ?thesis
    by (auto simp: ban_burst_def Let_def burst_inv_def good_line_def)
qed

lemma member_token_length:
  "length (c_name (cls (mb_cptr m))) \<le> NICKLEN \<Longrightarrow> length (member_token cls m) \<le> 24"
  by (auto simp: member_token_def NICKLEN_def)

lemma burst_op_first:
  assumes "\<forall>m\<in>set ms. mb_cptr m \<noteq> 0" "\<exists>m\<in>set ms. has (mb_flags m) MODE_CHANOP"
  shows "has (mb_flags (hd (burst_order ms))) MODE_CHANOP"
proof -
  have "find_op i ms \<noteq> None" for i
    using assms by (induction ms arbitrary: i) auto
  then obtain a where "find_op 0 ms = Some a" by blast
  then show ?thesis using find_op_Some [of 0 ms a] by (simp add: burst_order_eq)
qed

text \<open>A channel with a plain member, a voiced operator and one ban, for concrete runs.\<close>

definition demo_state :: ircd where
  "demo_state = upd_chan 5 (\<lambda>c. c\<lparr>chname := ''#c'', members :=
       [\<lparr>mb_cptr = 2, mb_flags = 0, nmsg = 0, lastmsg = 0, lmsg = None, lsize = 0, lmsg_time = 0\<rparr>,
        \<lparr>mb_cptr = 3, mb_flags = 3, nmsg = 0, lastmsg = 0, lmsg = None, lsize = 0, lmsg_time = 0\<rparr>],
       banlist := [\<lparr>banstr = ''*!*@x'', bantype = 0, who = [], when = 0\<rparr>], num_bed := 1, users := 2\<rparr>)
     (boot (\<lambda>p. (plain_user (if p = 2 then ''bob'' else ''op'') ''u'' ''h'')\<lparr>u_channel := [5], u_joined := 1\<rparr>)
        plain_config 0)"

lemma demo_state_sel:
  "chname (chans demo_state 5) = ''#c''" "sent demo_state = []" "cfg demo_state = plain_config"
  "map mb_cptr (members (chans demo_state 5)) = [2, 3]"
  "burst_order (members (chans demo_state 5)) =
     [\<lparr>mb_cptr = 3, mb_flags = 3, nmsg = 0, lastmsg = 0, lmsg = None, lsize = 0, lmsg_time = 0\<rparr>,
      \<lparr>mb_cptr = 2, mb_flags = 0, nmsg = 0, lastmsg = 0, lmsg = None, lsize = 0, lmsg_time = 0\<rparr>]"
  "map banstr (banlist (chans demo_state 5)) = [''*!*@x'']"
  "c_name (clients demo_state 2) = ''bob''" "c_name (clients demo_state 3) = ''op''"
  by (simp_all add: demo_state_def boot_def plain_user_def burst_order_eq has_def chfl_defs)

lemma demo_headers:
  "first_header 7 5 demo_state = '':irc.pt NJOIN 0 #c + :''"
  "next_header 5 demo_state = '':irc.pt NJOIN 0 #c 0 :''"
  by (simp_all add: first_header_def next_header_def njoin_header_def demo_state_def boot_def plain_user_def
      plain_config_def channel_modes_def new_chan_def flag_char_def has_def lu_def dec_def dec_nat.simps [of 0]
      chr_byte_eq)

subsection \<open>Properties\<close>

text \<open>
  To introduce a channel, every member is sent exactly once, in \<open>NJOIN\<close> lines
  none of which is empty: first the first operator of the list, if there is one, then the others
  in list order.
\<close>

theorem member_burst:
  assumes "hd0 (chname (chans s ch)) = CHR ''#''" "\<forall>m\<in>set (members (chans s ch)). mb_cptr m \<noteq> 0"
  shows "\<exists>gs bans. sent (send_channel_modes cl ch s) =
      sent s @ map (Pair (ToOne cl)) (lines_of (first_header cl ch s) (next_header ch s) gs) @ bans \<and>
    (\<forall>g\<in>set gs. g \<noteq> []) \<and>
    concat gs = map (member_token (clients s)) (burst_order (members (chans s ch))) \<and>
    mset (burst_order (members (chans s ch))) = mset (members (chans s ch)) \<and>
    ((\<exists>m\<in>set (members (chans s ch)). has (mb_flags m) MODE_CHANOP) \<longrightarrow>
       has (mb_flags (hd (burst_order (members (chans s ch))))) MODE_CHANOP)"
proof -
  obtain gs where "\<forall>g\<in>set gs. g \<noteq> []"
    "concat gs = map (member_token (clients s)) (burst_order (members (chans s ch)))"
    "njoin_lines (clients s) (next_header ch s) (first_header cl ch s) 0 (burst_order (members (chans s ch))) =
       lines_of (first_header cl ch s) (next_header ch s) gs"
    using njoin_lines_groups [of "[]" "clients s" "burst_order (members (chans s ch))" "next_header ch s"
        "first_header cl ch s"] by auto
  with assms(1) mset_burst_order burst_op_first [OF assms(2)] show ?thesis
    by (intro exI [of _ gs] exI) (auto simp: send_channel_modes_def Let_def)
qed

theorem member_burst_witness:
  "\<exists>gs. concat gs = [''@+op '', ''bob ''] \<and> (\<forall>g\<in>set gs. g \<noteq> [])"
proof -
  have "hd0 (chname (chans demo_state 5)) = CHR ''#''" "\<forall>m\<in>set (members (chans demo_state 5)). mb_cptr m \<noteq> 0"
    by (simp_all add: demo_state_def)
  from member_burst [OF this, of 7] obtain gs where "\<forall>g\<in>set gs. g \<noteq> []"
    "concat gs = map (member_token (clients demo_state)) (burst_order (members (chans demo_state 5)))" by blast
  then show ?thesis
    by (intro exI [of _ gs]) (simp add: demo_state_sel member_token_def has_def chfl_defs)
qed

text \<open>
  When the two headers leave the 80 reserved bytes free and the members'
  nicks are within \<open>NICKLEN\<close>, every \<open>NJOIN\<close> line fits the buffer of \<open>BUFSIZE\<close> bytes with its NUL.
\<close>

theorem member_burst_fits:
  assumes "length (first_header cl ch s) \<le> BUFSIZE - 80" "length (next_header ch s) \<le> BUFSIZE - 80"
    and "\<forall>m\<in>set (members (chans s ch)). length (c_name (clients s (mb_cptr m))) \<le> NICKLEN"
    and "l \<in> set (njoin_lines (clients s) (next_header ch s) (first_header cl ch s) 0
                    (burst_order (members (chans s ch))))"
  shows "length l < BUFSIZE"
proof -
  have "set (burst_order (members (chans s ch))) = set (members (chans s ch))"
    using mset_burst_order by (rule mset_eq_setD)
  with assms(3) have "\<forall>m\<in>set (burst_order (members (chans s ch))). length (member_token (clients s) m) \<le> 24"
    using member_token_length by blast
  from njoin_lines_length [OF assms(1,2) this assms(4)] show ?thesis by (simp add: BUFSIZE_def)
qed

theorem member_burst_fits_witness:
  "length '':irc.pt NJOIN 0 #c + :@+op bob '' < BUFSIZE"
proof -
  have "\<forall>m\<in>set (members (chans demo_state 5)). length (c_name (clients demo_state (mb_cptr m))) \<le> NICKLEN"
    by (simp add: demo_state_def boot_def plain_user_def NICKLEN_def)
  moreover have "'':irc.pt NJOIN 0 #c + :@+op bob '' \<in> set (njoin_lines (clients demo_state)
      (next_header 5 demo_state) (first_header 7 5 demo_state) 0 (burst_order (members (chans demo_state 5))))"
    by (simp add: demo_state_sel demo_headers member_token_def has_def chfl_defs BUFSIZE_def)
  ultimately show ?thesis
    using member_burst_fits [of 7 5 demo_state "'':irc.pt NJOIN 0 #c + :@+op bob ''"]
    by (simp add: demo_headers BUFSIZE_def)
qed

text \<open>
  C3. The ban list reaches the other server whole: the blank-separated
  parameters of the \<open>MODE\<close> lines are the masks in list order, each once, provided the masks are
  not empty, hold no blank and have fewer than 190 bytes; each line has as many \<open>b\<close> letters as
  masks, at most four of them (the counter is not set to 1 for the mask carried over), and its
  parameters fit \<open>parabuf\<close>.
\<close>

theorem ban_burst_complete:
  assumes "hd0 (chname (chans s ch)) = CHR ''#''"
    and "\<forall>b\<in>set (banlist (chans s ch)). banstr b \<noteq> [] \<and> CHR '' '' \<notin> set (banstr b) \<and> length (banstr b) < 190"
  shows "\<exists>njoins lines. sent (send_channel_modes cl ch s) = sent s @ njoins @
      map (\<lambda>(mb, pb). (ToOne cl, '':'' @ me_name (cfg s) @ '' MODE '' @ chname (chans s ch) @ '' '' @ mb @ '' '' @ pb)) lines \<and>
    concat (map (words \<circ> snd) lines) = map banstr (banlist (chans s ch)) \<and>
    (\<forall>(mb, pb)\<in>set lines. mb = ''+'' @ replicate (length (words pb)) (CHR ''b'') \<and>
       0 < length (words pb) \<and> length (words pb) \<le> 4 \<and> length pb < MODEBUFLEN)"
proof -
  have "\<forall>m\<in>set (map banstr (banlist (chans s ch))). good_mask m"
    using assms(2) by (auto simp: good_mask_def MODEBUFLEN_def)
  from ban_burst_spec [OF this] assms(1) show ?thesis
    by (intro exI [of _ "ban_burst (map banstr (banlist (chans s ch)))"] exI)
      (auto simp: send_channel_modes_def Let_def good_line_def case_prod_beta)
qed

theorem ban_burst_complete_witness:
  "\<exists>lines :: (cstr \<times> cstr) list. concat (map (words \<circ> snd) lines) = [''*!*@x''] \<and> (\<forall>(mb, pb)\<in>set lines. length (words pb) \<le> 4)"
proof -
  have "hd0 (chname (chans demo_state 5)) = CHR ''#''"
    "\<forall>b\<in>set (banlist (chans demo_state 5)). banstr b \<noteq> [] \<and> CHR '' '' \<notin> set (banstr b) \<and> length (banstr b) < 190"
    by (simp_all add: demo_state_def)
  from ban_burst_complete [OF this, of 7] obtain lines where
    "concat (map (words \<circ> snd) lines) = map banstr (banlist (chans demo_state 5))"
    "\<forall>(mb, pb)\<in>set lines. mb = ''+'' @ replicate (length (words pb)) (CHR ''b'') \<and>
       0 < length (words pb) \<and> length (words pb) \<le> 4 \<and> length pb < MODEBUFLEN" by blast
  then show ?thesis unfolding demo_state_sel by (intro exI [of _ lines]) auto
qed

text \<open>
  \<open>channel_modes\<close> formats the parameter of \<open>+f\<close> into six bytes: a limit
  of \<open>10:10\<close>, which \<open>isvalidopt\<close> and \<open>setfl\<close> accept, already needs seven with the NUL. Accepted
  message counts are between 2 and 99 and periods at most 99 and not 0, but a period can be
  negative, since \<open>atoi\<close> wraps: \<open>5:4294967291\<close> sets it to -5.
\<close>

theorem flood_limit_overflow:
  "(isvalidopt ''10:10'' \<and> snd (setfl ch ''10:10'' s) \<and>
      length (f_param (md_msgs (mode (chans (fst (setfl ch ''10:10'' s)) ch)))
                      (md_per (mode (chans (fst (setfl ch ''10:10'' s)) ch)))) + 1 = 7) \<and>
   (isvalidopt ''5:4294967291'' \<and> snd (setfl ch ''5:4294967291'' s) \<and>
      md_per (mode (chans (fst (setfl ch ''5:4294967291'' s)) ch)) = -5) \<and>
   (setfl ch cp s = (t, True) \<longrightarrow>
      2 \<le> md_msgs (mode (chans t ch)) \<and> md_msgs (mode (chans t ch)) \<le> 99 \<and>
      md_per (mode (chans t ch)) \<noteq> 0 \<and> md_per (mode (chans t ch)) \<le> 99)"
proof (intro conjI impI)
  have a: "atoi ''10'' = 10" "atoi ''5'' = 5" "atoi ''4294967291'' = -5"
    by (simp_all add: atoi_def strtol_def is_digit_def)
  have d: "dec 10 = ''10''" by code_simp
  have sp: "split_at ''10:10'' (CHR '':'') = (''10'', Some ''10'')"
    "split_at ''5:4294967291'' (CHR '':'') = (''5'', Some ''4294967291'')"
    by code_simp+
  show "isvalidopt ''10:10''" "isvalidopt ''5:4294967291''" by code_simp+
  show "snd (setfl ch ''10:10'' s)" "snd (setfl ch ''5:4294967291'' s)"
    "md_per (mode (chans (fst (setfl ch ''5:4294967291'' s)) ch)) = -5"
    "length (f_param (md_msgs (mode (chans (fst (setfl ch ''10:10'' s)) ch)))
                      (md_per (mode (chans (fst (setfl ch ''10:10'' s)) ch)))) + 1 = 7"
    by (simp_all add: setfl_def sp a d f_param_def)
  assume "setfl ch cp s = (t, True)"
  from setfl_True [OF this] show "2 \<le> md_msgs (mode (chans t ch))" "md_msgs (mode (chans t ch)) \<le> 99"
    "md_per (mode (chans t ch)) \<noteq> 0" "md_per (mode (chans t ch)) \<le> 99" by auto
qed

theorem flood_limit_overflow_witness:
  "let t = fst (setfl 5 ''5:10'' demo_state) in 2 \<le> md_msgs (mode (chans t 5)) \<and> md_per (mode (chans t 5)) \<le> 99"
proof -
  have sp: "split_at ''5:10'' (CHR '':'') = (''5'', Some ''10'')" by code_simp
  have "atoi ''10'' = 10" "atoi ''5'' = 5" by (simp_all add: atoi_def strtol_def is_digit_def)
  then have "setfl 5 ''5:10'' demo_state = (fst (setfl 5 ''5:10'' demo_state), True)"
    by (simp add: setfl_def sp)
  with flood_limit_overflow [of 5 demo_state "''5:10''"] show ?thesis unfolding Let_def by blast
qed

end
