(* ===== verification/ChanMode.thy ===== *)
theory ChanMode
  imports ChanBurst
begin

text \<open>
  The MODE command on a channel: \<open>set_channel_mode\<close> of \<open>src/channel.c\<close>. One definition per group of
  mode letters, a loop over the letters, and the line announced at the end. The file defines
  \<open>OLD_NON_RED\<close>: setting a mode that is set, or clearing one that is clear, does nothing.
\<close>

subsection \<open>State of the loop\<close>

definition SM_ERR_NOOPS :: "32 word" where "SM_ERR_NOOPS = 0x2"
definition SM_ERR_UNKNOWN :: "32 word" where "SM_ERR_UNKNOWN = 0x4"
definition SM_ERR_RPL_B :: "32 word" where "SM_ERR_RPL_B = 0x10"
definition SM_ERR_NOTONCHANNEL :: "32 word" where "SM_ERR_NOTONCHANNEL = 0x40"
definition SM_ERR_RESTRICTED :: "32 word" where "SM_ERR_RESTRICTED = 0x80"
definition MAXMODEPARAMS :: nat where "MAXMODEPARAMS = 6"

text \<open>
  The locals of the function: \<open>errors_sent\<close>, \<open>opcnt\<close>, \<open>len\<close>, whether \<open>keychange\<close>, \<open>limitset\<close> and
  \<open>floodset\<close> are above zero, \<open>whatt\<close> with the sign \<open>plus\<close>, the letters whose \<open>done_\<close> flag is set, the
  arguments left, and the texts written to \<open>modebuf\<close> and \<open>parabuf\<close>.
\<close>

record smode =
  sm_s :: ircd
  errors_sent :: "32 word"
  opcnt :: nat
  sm_len :: nat
  keychange :: bool
  limitset :: bool
  floodset :: bool
  whatt :: "32 word"
  plus_sign :: char
  done_letters :: "char list"
  sm_args :: "cstr list"
  modebuf :: cstr
  parabuf :: cstr

text \<open>
  What does not change in a call: the client the command came through, its source, the channel,
  \<open>isok\<close>, \<open>isdeop\<close>, the flag of \<open>IsRestricted(sptr)\<close>, the look-ups of \<open>find_client\<close> and
  \<open>get_history\<close>, and the indeterminate value \<open>add_banid\<close> may store.
\<close>

record mode_ctx =
  x_cptr :: nat
  x_sptr :: nat
  x_ch :: nat
  isok :: bool
  isdeop :: bool
  restricted :: bool
  look :: "cstr \<Rightarrow> nat option"
  history :: "cstr \<Rightarrow> nat option"
  x_junk :: int

definition find_chasing :: "(cstr \<Rightarrow> nat option) \<Rightarrow> (cstr \<Rightarrow> nat option) \<Rightarrow> nat \<Rightarrow> cstr \<Rightarrow> ircd \<Rightarrow> ircd \<times> nat option" where
  "find_chasing lk hist sptr user s =
     (case lk user of
        Some w \<Rightarrow> (s, Some w)
      | None \<Rightarrow>
          (case hist user of
             Some w \<Rightarrow> (s, Some w)
           | None \<Rightarrow> (send (ToOne sptr) ('':'' @ me_name (cfg s) @ '' 401 '' @ c_name (clients s sptr) @ '' '' @ user @
                        '' :No such nick/channel'') s, None)))"

subsection \<open>Writing\<close>

definition sm_send :: "target \<Rightarrow> cstr \<Rightarrow> smode \<Rightarrow> smode" where
  "sm_send t m st = st\<lparr>sm_s := send t m (sm_s st)\<rparr>"

definition sm_upd :: "(ircd \<Rightarrow> ircd) \<Rightarrow> smode \<Rightarrow> smode" where
  "sm_upd f st = st\<lparr>sm_s := f (sm_s st)\<rparr>"

definition local_src :: "mode_ctx \<Rightarrow> smode \<Rightarrow> bool" where
  "local_src x st \<longleftrightarrow> MyClient (clients (sm_s st) (x_sptr x))"

definition adding :: "smode \<Rightarrow> bool" where "adding st \<longleftrightarrow> whatt st = MODE_ADD"
definition removing :: "smode \<Rightarrow> bool" where "removing st \<longleftrightarrow> whatt st = MODE_DEL"
definition querying :: "smode \<Rightarrow> bool" where "querying st \<longleftrightarrow> whatt st = MODE_QUERY"

text \<open>\<open>:me num name text\<close> to the source.\<close>

definition reply :: "mode_ctx \<Rightarrow> cstr \<Rightarrow> cstr \<Rightarrow> smode \<Rightarrow> smode" where
  "reply x num txt st =
     sm_send (ToOne (x_sptr x)) ('':'' @ me_name (cfg (sm_s st)) @ '' '' @ num @ '' '' @
       c_name (clients (sm_s st) (x_sptr x)) @ '' '' @ txt) st"

text \<open>A reply to a local source, once per kind of error.\<close>

definition complain :: "mode_ctx \<Rightarrow> 32 word \<Rightarrow> (smode \<Rightarrow> smode) \<Rightarrow> smode \<Rightarrow> smode" where
  "complain x err say st =
     (if local_src x st then
        (let (e, told) = errsent err (errors_sent st)
         in if told then st else (say st)\<lparr>errors_sent := e\<rparr>)
      else st)"

definition chan_of :: "mode_ctx \<Rightarrow> smode \<Rightarrow> chan" where
  "chan_of x st = chans (sm_s st) (x_ch x)"

definition no_ops :: "mode_ctx \<Rightarrow> smode \<Rightarrow> smode" where
  "no_ops x st = complain x SM_ERR_NOOPS (reply x ''482'' (chname (chan_of x st) @ '' :You're not channel operator'')) st"

text \<open>In \<open>k\<close> and \<open>b\<close> the kind of error is noted before the source is looked at.\<close>

definition no_ops_noted :: "mode_ctx \<Rightarrow> smode \<Rightarrow> smode" where
  "no_ops_noted x st =
     (let (e, told) = errsent SM_ERR_NOOPS (errors_sent st); st1 = st\<lparr>errors_sent := e\<rparr>
      in if told \<or> \<not> local_src x st then st1
         else reply x ''482'' (chname (chan_of x st) @ '' :You're not channel operator'') st1)"

definition put :: "char \<Rightarrow> char \<Rightarrow> smode \<Rightarrow> smode" where
  "put sg c st = st\<lparr>modebuf := modebuf st @ [sg, c]\<rparr>"

definition put_param :: "cstr \<Rightarrow> nat \<Rightarrow> smode \<Rightarrow> smode" where
  "put_param p n st = st\<lparr>parabuf := parabuf st @ p @ '' '', sm_len := sm_len st + n\<rparr>"

definition set_mode_bits :: "mode_ctx \<Rightarrow> (chan_mode \<Rightarrow> chan_mode) \<Rightarrow> smode \<Rightarrow> smode" where
  "set_mode_bits x f st = sm_upd (upd_chan (x_ch x) (\<lambda>c. c\<lparr>mode := f (mode c)\<rparr>)) st"

definition fits :: "smode \<Rightarrow> nat \<Rightarrow> bool" where
  "fits st n \<longleftrightarrow> sm_len st + n + 2 < MODEBUFLEN"

subsection \<open>Letters with a nick\<close>

definition mode_a :: "mode_ctx \<Rightarrow> smode \<Rightarrow> smode" where
  "mode_a x st =
     (if querying st then st
      else case sm_args st of [] \<Rightarrow> st
      | a # rest \<Rightarrow>
        let arg = check_string (Some a);
            (s1, found) = find_chasing (look x) (history x) (x_sptr x) arg (sm_s st);
            st1 = st\<lparr>sm_args := rest, sm_s := s1\<rparr>
        in case found of None \<Rightarrow> st1
        | Some wh \<Rightarrow>
          let w = clients s1 wh in
          if \<not> has_user w then st1
          else if local_src x st1 \<and> (\<not> removing st1 \<or> wh \<noteq> x_sptr x) then st1
          else if \<not> isok x then no_ops x st1
          else if \<not> IsMember s1 wh (x_ch x) \<or> local_src x st1 \<and> IsStealth w then
            (if local_src x st1 then reply x ''441'' (arg @ '' '' @ chname (chan_of x st1) @ '' :They aren't on that channel'') st1
             else st1)
          else if \<not> fits st1 (length arg) then st1
          else
            let st2 = put_param (c_name w) (length arg + 1) (put (plus_sign st1) (CHR ''a'') st1)
            in sm_upd (change_chan_flag (x_ch x) wh (MODE_CHANADM OR whatt st2)) (st2\<lparr>opcnt := opcnt st2 + 1\<rparr>))"

text \<open>The change itself, once the client is known and a deopped source has marked it.\<close>

definition ov_change :: "char \<Rightarrow> mode_ctx \<Rightarrow> cstr \<Rightarrow> nat \<Rightarrow> smode \<Rightarrow> smode" where
  "ov_change c x arg wh st =
     (let w = clients (sm_s st) wh; the_mode = (if c = CHR ''o'' then MODE_CHANOP else MODE_VOICE) in
      if \<not> isok x then no_ops x st
      else if local_src x st \<and> removing st \<and> is_chan_adm wh (x_ch x) (sm_s st) \<noteq> 0 \<and>
              is_chan_adm (x_sptr x) (x_ch x) (sm_s st) = 0
        then reply x ''485'' (c_name w @ '' :Cannot kick/deop channel administrator on '' @ chname (chan_of x st)) st
      else if \<not> fits st (length arg) then st
      else
        let st1 = put_param (c_name w) (length arg + 1) (put (plus_sign st) c st)
        in sm_upd (change_chan_flag (x_ch x) wh (the_mode OR whatt st1)) (st1\<lparr>opcnt := opcnt st1 + 1\<rparr>))"

definition mode_ov :: "char \<Rightarrow> mode_ctx \<Rightarrow> smode \<Rightarrow> smode" where
  "mode_ov c x st =
     (let src = clients (sm_s st) (x_sptr x); mine = local_src x st;
          eaten = st\<lparr>sm_args := tl (sm_args st)\<rparr>
      in if mine \<and> (\<not> IsMember (sm_s st) (x_sptr x) (x_ch x) \<or> IsStealth src) then
           complain x SM_ERR_NOTONCHANNEL
             (reply x ''442'' (chname (chan_of x st) @ '' :You're not on that channel'')) eaten
         else if mine \<and> restricted x \<and> adding st then
           complain x SM_ERR_RESTRICTED
             (reply x ''NOTICE'' ('':*** Notice -- You are restricted and cannot chanop others'')) eaten
         else if querying st then st
         else case sm_args st of [] \<Rightarrow> st
         | a # rest \<Rightarrow>
           let arg = check_string (Some a); st0 = st\<lparr>sm_args := rest\<rparr> in
           if mine \<and> MAXMODEPARAMS \<le> opcnt st then st0
           else
             let (s1, found) = find_chasing (look x) (history x) (x_sptr x) arg (sm_s st0);
                 st1 = st0\<lparr>sm_s := s1\<rparr>
             in case found of None \<Rightarrow> st1
             | Some wh \<Rightarrow>
               let w = clients s1 wh; the_mode = (if c = CHR ''o'' then MODE_CHANOP else MODE_VOICE) in
               if \<not> has_user w then st1
               else if \<not> IsMember s1 wh (x_ch x) \<or> IsStealth w then
                 (if mine then reply x ''441'' (arg @ '' '' @ chname (chan_of x st1) @ '' :They aren't on that channel'') st1
                  else st1)
               else if wh = x_sptr x \<and> c = CHR ''o'' \<and> adding st1 then st1
               else
                 let st2 = (if isdeop x \<and> c = CHR ''o'' \<and> adding st1
                            then sm_upd (set_deopped wh (x_ch x) the_mode) st1 else st1)
                 in ov_change c x arg wh st2)"

subsection \<open>Key, bans, limits\<close>

text \<open>The argument of \<open>k\<close>, if there is one to use, and the arguments left.\<close>

definition key_arg :: "mode_ctx \<Rightarrow> smode \<Rightarrow> (cstr \<times> cstr list) option" where
  "key_arg x st =
     (case sm_args st of
        [] \<Rightarrow> (if removing st then Some (''*'', []) else None)
      | a # rest \<Rightarrow>
          Some (if removing st then check_string (Some a)
                else if local_src x st then fix_key (check_string (Some a))
                else fix_key_old (check_string (Some a)), rest))"

definition mode_k :: "mode_ctx \<Rightarrow> smode \<Rightarrow> smode" where
  "mode_k x st =
     (if querying st then st
      else case key_arg x st of None \<Rightarrow> st
      | Some (arg0, rest) \<Rightarrow>
        let st0 = st\<lparr>sm_args := rest\<rparr> in
        if keychange st then st0
        else
          let st1 = st0\<lparr>keychange := True\<rparr> in
          if arg0 = [] then st1
          else if \<not> isok x then no_ops_noted x st1
          else
            let arg = take KEYLEN arg0; tmp = length arg; key = md_key (mode (chan_of x st1)) in
            if \<not> fits st1 tmp then st1
            else if adding st1 \<and> key \<noteq> [] \<and> key = arg then st1
            else
              let pre = '':'' @ c_name (clients (sm_s st1) (x_sptr x)) @ '' MODE '' @ chname (chan_of x st1);
                  st2 = (if adding st1 \<and> key \<noteq> []
                         then sm_send (ToMatchServs (x_ch x)) (pre @ '' -k '' @ key)
                                (sm_send (ToChannel (x_ch x)) (pre @ '' -k '' @ key) st1)
                         else st1)
              in if removing st2 \<and> arg \<noteq> ''*'' \<and> arg \<noteq> key then st2
                 else
                   let text = (if removing st2 \<and> arg = ''*'' then key else arg);
                       st3 = put_param text (tmp + 1) (put (plus_sign st2) (CHR ''k'') st2)
                   in set_mode_bits x (\<lambda>m. m\<lparr>md_key := (if removing st3 then [] else text)\<rparr>) st3)"

definition ban_reply :: "mode_ctx \<Rightarrow> smode \<Rightarrow> smode" where
  "ban_reply x st =
     (let s = sm_s st; chn = chname (chan_of x st);
          line = (\<lambda>b. '':'' @ me_name (cfg s) @ '' 367 '' @ c_name (clients s (x_cptr x)) @ '' '' @ chn @ '' '' @
                    banstr b @ '' '' @ who b @ '' '' @ dec (when b))
      in reply x ''368'' (chn @ '' :End of Channel Ban List'')
           (foldl (\<lambda>t b. sm_send (ToOne (x_cptr x)) (line b) t) st (banlist (chan_of x st))))"

definition mode_b :: "mode_ctx \<Rightarrow> smode \<Rightarrow> smode" where
  "mode_b x st =
     (if querying st \<or> sm_args st = [] then complain x SM_ERR_RPL_B (ban_reply x) st
      else
        let arg = check_string (Some (hd (sm_args st))); mine = local_src x st;
            st0 = st\<lparr>sm_args := tl (sm_args st)\<rparr>
        in if mine \<and> MAXMODEPARAMS \<le> opcnt st then st0
           else if \<not> isok x then no_ops_noted x st0
           else if mine \<and> hd0 arg = CHR '':'' \<and> adding st then st0\<lparr>sm_args := tl (sm_args st0)\<rparr>
           else
             let arg1 = (if mine then collapse (pretty_mask arg) else arg); tmp = length arg1 in
             if \<not> fits st0 tmp then st0
             else
               let (s1, res, text) =
                     (if adding st then add_banid (x_junk x) (x_sptr x) (x_ch x) arg1 (sm_s st0)
                      else (let (t, r) = del_banid (x_ch x) (Some arg1) (sm_s st0) in (t, r, arg1)));
                   st1 = st0\<lparr>sm_s := s1\<rparr>
               in if res \<noteq> 0 then st1
                  else put_param text (tmp + 1) (put (plus_sign st1) (CHR ''b'') (st1\<lparr>opcnt := opcnt st1 + 1\<rparr>)))"

text \<open>The argument of a parameter that is not looked at is skipped when one was to be added.\<close>

definition skip_arg :: "smode \<Rightarrow> smode" where
  "skip_arg st = (if adding st then st\<lparr>sm_args := tl (sm_args st)\<rparr> else st)"

definition mode_f :: "mode_ctx \<Rightarrow> smode \<Rightarrow> smode" where
  "mode_f x st =
     (if querying st then st
      else if \<not> isok x then skip_arg st
      else if floodset st then skip_arg st
      else
        let st0 = st\<lparr>floodset := True\<rparr> in
        if adding st then
          (case sm_args st of
             [] \<Rightarrow> if local_src x st then reply x ''461'' (''MODE +f :Not enough parameters'') st0 else st0
           | a # rest \<Rightarrow>
             let arg = check_string (Some a); st1 = st0\<lparr>sm_args := rest\<rparr> in
             if \<not> fits st1 (length arg) then st1
             else if length arg < 3 \<or> \<not> isvalidopt arg then st1
             else
               let (s2, okay) = setfl (x_ch x) arg (sm_s st1); st2 = st1\<lparr>sm_s := s2\<rparr> in
               if \<not> okay then st2
               else put_param arg (length arg + 1) (put (CHR ''+'') (CHR ''f'')
                      (set_mode_bits x (\<lambda>m. m\<lparr>md_mode := md_mode m OR MODE_FLOODLIMIT\<rparr>) st2)))
        else
          put (CHR ''-'') (CHR ''f'')
            (set_mode_bits x (\<lambda>m. m\<lparr>md_msgs := 0, md_per := 0, md_mode := md_mode m AND NOT MODE_FLOODLIMIT\<rparr>) st0))"

definition mode_l :: "mode_ctx \<Rightarrow> smode \<Rightarrow> smode" where
  "mode_l x st =
     (if querying st then st
      else if \<not> isok x then skip_arg st
      else if limitset st then skip_arg st
      else
        let st0 = st\<lparr>limitset := True\<rparr> in
        if adding st then
          (case sm_args st of
             [] \<Rightarrow> if local_src x st then reply x ''461'' (''MODE +l :Not enough parameters'') st0 else st0
           | a # rest \<Rightarrow>
             let nusers = atoi (check_string (Some a)); st1 = st0\<lparr>sm_args := rest\<rparr> in
             if nusers \<le> 0 then st1
             else
               let arg = dec nusers in
               if \<not> fits st1 (length arg) then st1
               else put_param arg (length arg + 1) (put (CHR ''+'') (CHR ''l'')
                      (set_mode_bits x (\<lambda>m. m\<lparr>md_limit := nusers, md_mode := md_mode m OR MODE_LIMIT\<rparr>) st1)))
        else
          put (CHR ''-'') (CHR ''l'')
            (set_mode_bits x (\<lambda>m. m\<lparr>md_limit := 0, md_mode := md_mode m AND NOT MODE_LIMIT\<rparr>) st0))"

subsection \<open>Letters without a parameter\<close>

text \<open>
  The body the cases of these letters share: who may use the letter, what is said to the others, one change
  per letter and command for a local source, and what is done (for \<open>i\<close>) before the flag is cleared.
  A letter under the sign \<open>=\<close> falls into the branch of \<open>-\<close>.
\<close>

definition flag_letter ::
  "char \<Rightarrow> 32 word \<Rightarrow> bool \<Rightarrow> (smode \<Rightarrow> smode) \<Rightarrow> (smode \<Rightarrow> smode) \<Rightarrow> mode_ctx \<Rightarrow> smode \<Rightarrow> smode" where
  "flag_letter c fl allowed refuse_it clearing x st =
     (if \<not> allowed then refuse_it st
      else if local_src x st \<and> c \<in> set (done_letters st) then st
      else
        let st1 = (if local_src x st then st\<lparr>done_letters := c # done_letters st\<rparr> else st)
        in if \<not> fits st1 0 then st1
           else if adding st1 then
             (if has (md_mode (mode (chan_of x st1))) fl then st1
              else put (CHR ''+'') c (set_mode_bits x (\<lambda>m. m\<lparr>md_mode := md_mode m OR fl\<rparr>)
                     (st1\<lparr>sm_len := sm_len st1 + 2\<rparr>)))
           else
             let st2 = clearing st1 in
             if has (md_mode (mode (chan_of x st2))) fl
             then put (CHR ''-'') c (set_mode_bits x (\<lambda>m. m\<lparr>md_mode := md_mode m AND NOT fl\<rparr>)
                    (st2\<lparr>sm_len := sm_len st2 + 2\<rparr>))
             else st2)"

definition no_privileges :: "mode_ctx \<Rightarrow> smode \<Rightarrow> smode" where
  "no_privileges x st = complain x SM_ERR_NOOPS (reply x ''481'' '':Permission Denied- You're not an IRC operator'') st"

definition mode_i :: "mode_ctx \<Rightarrow> smode \<Rightarrow> smode" where
  "mode_i x st =
     (if querying st then st
      else flag_letter (CHR ''i'') MODE_INVITEONLY (isok x) (no_ops x) (sm_upd (free_invites (x_ch x))) x st)"

definition mode_m :: "mode_ctx \<Rightarrow> smode \<Rightarrow> smode" where
  "mode_m x st = flag_letter (CHR ''m'') MODE_MODERATED (isok x) (no_ops x) id x st"

definition mode_n :: "mode_ctx \<Rightarrow> smode \<Rightarrow> smode" where
  "mode_n x st = flag_letter (CHR ''n'') MODE_NOPRIVMSGS (isok x) (no_ops x) id x st"

definition mode_p :: "mode_ctx \<Rightarrow> smode \<Rightarrow> smode" where
  "mode_p x st = flag_letter (CHR ''p'') MODE_PRIVATE (isok x) (no_ops x) id x st"

definition mode_s :: "mode_ctx \<Rightarrow> smode \<Rightarrow> smode" where
  "mode_s x st = flag_letter (CHR ''s'') MODE_SECRET (isok x) (no_ops x) id x st"

definition mode_t :: "mode_ctx \<Rightarrow> smode \<Rightarrow> smode" where
  "mode_t x st = flag_letter (CHR ''t'') MODE_TOPICLIMIT (isok x) (no_ops x) id x st"

definition mode_C :: "mode_ctx \<Rightarrow> smode \<Rightarrow> smode" where
  "mode_C x st = flag_letter (CHR ''C'') MODE_SSLONLY (isok x) (no_ops x) id x st"

definition mode_R :: "mode_ctx \<Rightarrow> smode \<Rightarrow> smode" where
  "mode_R x st = flag_letter (CHR ''R'') MODE_REGONLY (isok x) (no_ops x) id x st"

definition mode_K :: "mode_ctx \<Rightarrow> smode \<Rightarrow> smode" where
  "mode_K x st = flag_letter (CHR ''K'') MODE_KNOCK (isok x) (no_ops x) id x st"

definition mode_r :: "mode_ctx \<Rightarrow> smode \<Rightarrow> smode" where
  "mode_r x st =
     flag_letter (CHR ''r'') MODE_REGISTERED (IsService (clients (sm_s st) (x_sptr x))) (no_ops x) id x st"

definition mode_O :: "mode_ctx \<Rightarrow> smode \<Rightarrow> smode" where
  "mode_O x st =
     (let src = clients (sm_s st) (x_sptr x) in
      flag_letter (CHR ''O'') MODE_OPERONLY (IsOper src \<or> IsService src \<or> IsServer src) (no_privileges x) id x st)"

definition mode_A :: "mode_ctx \<Rightarrow> smode \<Rightarrow> smode" where
  "mode_A x st =
     (let src = clients (sm_s st) (x_sptr x) in
      flag_letter (CHR ''A'') MODE_ADMINONLY
        (IsAdmin src \<or> IsTechAdmin src \<or> IsNetAdmin src \<or> IsService src \<or> IsServer src) (no_privileges x) id x st)"

definition mode_S :: "mode_ctx \<Rightarrow> smode \<Rightarrow> smode" where
  "mode_S x st = flag_letter (CHR ''S'') MODE_NOSPAM (isok x) (no_ops x) id x st"

definition mode_d :: "mode_ctx \<Rightarrow> smode \<Rightarrow> smode" where
  "mode_d x st = flag_letter (CHR ''d'') MODE_NOFLOOD (isok x) (no_ops x) id x st"

definition mode_c :: "mode_ctx \<Rightarrow> smode \<Rightarrow> smode" where
  "mode_c x st = flag_letter (CHR ''c'') MODE_NOCOLORS (isok x) (no_ops x) id x st"

definition mode_q :: "mode_ctx \<Rightarrow> smode \<Rightarrow> smode" where
  "mode_q x st = flag_letter (CHR ''q'') MODE_NOQUITS (isok x) (no_ops x) id x st"

definition mode_B :: "mode_ctx \<Rightarrow> smode \<Rightarrow> smode" where
  "mode_B x st = flag_letter (CHR ''B'') MODE_NOBOTS (isok x) (no_ops x) id x st"

definition mode_N :: "mode_ctx \<Rightarrow> smode \<Rightarrow> smode" where
  "mode_N x st = flag_letter (CHR ''N'') MODE_NONICKCH (isok x) (no_ops x) id x st"

subsection \<open>The loop\<close>

definition unknown_letter :: "char \<Rightarrow> mode_ctx \<Rightarrow> smode \<Rightarrow> smode" where
  "unknown_letter c x st =
     (if querying st then st
      else complain x SM_ERR_UNKNOWN (reply x ''472'' ([c] @ '' :is unknown mode char to me'')) st)"

definition mode_letter :: "mode_ctx \<Rightarrow> char \<Rightarrow> smode \<Rightarrow> smode" where
  "mode_letter x c st =
     (if c = CHR ''+'' then st\<lparr>whatt := MODE_ADD, plus_sign := CHR ''+''\<rparr>
      else if c = CHR ''-'' then st\<lparr>whatt := MODE_DEL, plus_sign := CHR ''-''\<rparr>
      else if c = CHR ''='' then st\<lparr>whatt := MODE_QUERY, plus_sign := CHR ''=''\<rparr>
      else if c = CHR ''a'' then mode_a x st
      else if c = CHR ''o'' \<or> c = CHR ''v'' then mode_ov c x st
      else if c = CHR ''k'' then mode_k x st
      else if c = CHR ''b'' then mode_b x st
      else if c = CHR ''f'' then mode_f x st
      else if c = CHR ''l'' then mode_l x st
      else if c = CHR ''i'' then mode_i x st
      else if c = CHR ''m'' then mode_m x st
      else if c = CHR ''n'' then mode_n x st
      else if c = CHR ''p'' then mode_p x st
      else if c = CHR ''s'' then mode_s x st
      else if c = CHR ''t'' then mode_t x st
      else if c = CHR ''C'' then mode_C x st
      else if c = CHR ''R'' then mode_R x st
      else if c = CHR ''K'' then mode_K x st
      else if c = CHR ''r'' then mode_r x st
      else if c = CHR ''O'' then mode_O x st
      else if c = CHR ''A'' then mode_A x st
      else if c = CHR ''S'' then mode_S x st
      else if c = CHR ''d'' then mode_d x st
      else if c = CHR ''c'' then mode_c x st
      else if c = CHR ''q'' then mode_q x st
      else if c = CHR ''B'' then mode_B x st
      else if c = CHR ''N'' then mode_N x st
      else unknown_letter c x st)"

subsection \<open>What a letter can do\<close>

text \<open>
  Every handler is a sequence of the following effects. \<open>frame\<close> is what none of them touches, and
  \<open>neutral\<close> is an operation that keeps the store consistent and leaves the flag modes alone.
\<close>

definition simple_bit :: "char \<Rightarrow> 32 word" where
  "simple_bit c = (if c = CHR ''r'' then MODE_REGISTERED else new_cmode_bit c)"

definition letter_bit :: "char \<Rightarrow> 32 word" where
  "letter_bit c = (if c = CHR ''f'' then MODE_FLOODLIMIT else if c = CHR ''l'' then MODE_LIMIT else simple_bit c)"

fun apply_letter :: "char \<times> char \<Rightarrow> 32 word \<Rightarrow> 32 word" where
  "apply_letter (sg, c) m = (if sg = CHR ''+'' then m OR letter_bit c else m AND NOT (letter_bit c))"

definition frame :: "smode \<Rightarrow> smode \<Rightarrow> bool" where
  "frame st st' \<longleftrightarrow> whatt st' = whatt st \<and> plus_sign st' = plus_sign st \<and> (\<exists>n. sm_args st' = drop n (sm_args st))"

text \<open>
  Only messages were added, of the given kind; \<open>to_source\<close> are the replies, \<open>key_line\<close> is the line of its own that
  takes the old key away when another one is set.
\<close>

definition sends_only :: "(target \<times> cstr \<Rightarrow> bool) \<Rightarrow> ircd \<Rightarrow> ircd \<Rightarrow> bool" where
  "sends_only p s s' \<longleftrightarrow> (\<exists>ms. s' = s\<lparr>sent := sent s @ ms\<rparr> \<and> list_all p ms)"

definition to_asker :: "nat \<Rightarrow> nat \<Rightarrow> target \<times> cstr \<Rightarrow> bool" where
  "to_asker sptr cptr m \<longleftrightarrow> fst m = ToOne sptr \<or> fst m = ToOne cptr"

definition key_line :: "nat \<Rightarrow> nat \<Rightarrow> ircd \<Rightarrow> target \<times> cstr \<Rightarrow> bool" where
  "key_line sptr ch s m \<longleftrightarrow> (fst m = ToChannel ch \<or> fst m = ToMatchServs ch) \<and>
     (\<exists>key. snd m = '':'' @ c_name (clients s sptr) @ '' MODE '' @ chname (chans s ch) @ '' -k '' @ key)"

abbreviation to_source :: "mode_ctx \<Rightarrow> target \<times> cstr \<Rightarrow> bool" where
  "to_source x \<equiv> to_asker (x_sptr x) (x_cptr x)"

definition mode_says :: "mode_ctx \<Rightarrow> ircd \<Rightarrow> target \<times> cstr \<Rightarrow> bool" where
  "mode_says x s m \<longleftrightarrow> to_source x m \<or> key_line (x_sptr x) (x_ch x) s m"

definition same_names :: "ircd \<Rightarrow> ircd \<Rightarrow> bool" where
  "same_names s s' \<longleftrightarrow> (\<forall>c. c_name (clients s' c) = c_name (clients s c)) \<and> (\<forall>h. chname (chans s' h) = chname (chans s h))"

definition flag_modes :: "nat \<Rightarrow> ircd \<Rightarrow> 32 word" where
  "flag_modes ch s = md_mode (mode (chans s ch))"

definition neutral :: "nat \<Rightarrow> nat \<Rightarrow> (ircd \<Rightarrow> ircd) \<Rightarrow> bool" where
  "neutral w ch f \<longleftrightarrow> (\<forall>s. (chan_inv s \<longrightarrow> chan_inv (f s)) \<and> flag_modes ch (f s) = flag_modes ch s \<and>
     (\<exists>ms. sent (f s) = sent s @ ms \<and> list_all (\<lambda>m. fst m = ToOne w) ms) \<and> same_names s (f s))"

definition signs :: "char set" where "signs = {CHR ''+'', CHR ''-''}"

definition may_set :: "mode_ctx \<Rightarrow> char \<Rightarrow> smode \<Rightarrow> bool" where
  "may_set x c st =
     (let src = clients (sm_s st) (x_sptr x) in
      if c = CHR ''r'' then IsService src
      else if c = CHR ''O'' then IsOper src \<or> IsService src \<or> IsServer src
      else if c = CHR ''A'' then IsAdmin src \<or> IsTechAdmin src \<or> IsNetAdmin src \<or> IsService src \<or> IsServer src
      else isok x)"

inductive mode_effect :: "mode_ctx \<Rightarrow> smode \<Rightarrow> smode \<Rightarrow> bool" for x where
  quiet: "frame st st' \<Longrightarrow> sends_only (to_source x) (sm_s st) (sm_s st') \<Longrightarrow> modebuf st' = modebuf st \<Longrightarrow> mode_effect x st st'"
| mark: "isdeop x \<Longrightarrow> mode_effect x st (sm_upd (set_deopped w (x_ch x) f) st)"
| sign: "(w, sg) \<in> {(MODE_ADD, CHR ''+''), (MODE_DEL, CHR ''-''), (MODE_QUERY, CHR ''='')} \<Longrightarrow>
    mode_effect x st (st\<lparr>whatt := w, plus_sign := sg\<rparr>)"
| other: "isok x \<Longrightarrow> neutral (x_sptr x) (x_ch x) f \<Longrightarrow> frame st st' \<Longrightarrow> sends_only (mode_says x (sm_s st)) (f (sm_s st)) (sm_s st') \<Longrightarrow>
    modebuf st' = modebuf st @ out \<Longrightarrow>
    out = [] \<or> out = [plus_sign st, c] \<and> c \<in> set ''aovkb'' \<and> whatt st \<noteq> MODE_QUERY \<Longrightarrow> mode_effect x st st'"
| bits: "isok x \<or> may_set x c st \<Longrightarrow> frame st st' \<Longrightarrow>
    sm_s st' = upd_chan (x_ch x) (\<lambda>c. c\<lparr>mode := f (mode c)\<rparr>) (sm_s st) \<Longrightarrow>
    \<forall>m. md_mode (f m) = apply_letter (sg, c) (md_mode m) \<Longrightarrow> sg \<in> signs \<Longrightarrow> letter_bit c \<noteq> 0 \<Longrightarrow>
    modebuf st' = modebuf st @ [sg, c] \<Longrightarrow> mode_effect x st st'"
| trans: "mode_effect x st st1 \<Longrightarrow> mode_effect x st1 st2 \<Longrightarrow> mode_effect x st st2"

named_theorems effects

lemma frame_sel:
  "frame st st' \<Longrightarrow> whatt st' = whatt st" "frame st st' \<Longrightarrow> plus_sign st' = plus_sign st"
  by (simp_all add: frame_def)

lemma drop_0_ex [simp]: "\<exists>n. xs = drop n xs"
  by (rule exI [of _ 0]) simp

lemma drop_tl_ex [simp]: "\<exists>n. tl xs = drop n xs" "\<exists>n. tl (tl xs) = drop n xs"
  by (rule exI [of _ 1], simp add: drop_Suc) (rule exI [of _ 2], simp add: drop_Suc numeral_2_eq_2)

lemma drop_Cons_ex [simp]: "\<exists>n. xs = drop n (a # xs)"
  by (rule exI [of _ 1]) simp

lemma to_source_simps [simp]: "to_source x (ToOne (x_sptr x), m)" "to_source x (ToOne (x_cptr x), m)"
    "mode_says x s (ToOne (x_sptr x), m)"
  by (simp_all add: to_asker_def mode_says_def)

lemma sends_only_refl [simp]: "sends_only p s s"
  by (simp add: sends_only_def) (rule exI [of _ "[]"], simp)

lemma sends_only_send: "sends_only p s t \<Longrightarrow> p (a, m) \<Longrightarrow> sends_only p s (send a m t)"
  unfolding sends_only_def send_def
  by (elim exE conjE, rule_tac x = "ms @ [(a, m)]" in exI) auto

lemma sends_only_trans: "sends_only p s t \<Longrightarrow> sends_only p t u \<Longrightarrow> sends_only p s u"
  by (fastforce simp: sends_only_def)

lemma sends_only_weaken: "sends_only (to_source x) s t \<Longrightarrow> sends_only (mode_says x u) s t"
  by (auto simp: sends_only_def mode_says_def list_all_iff)

lemma sends_only_upd_chan:
  assumes "sends_only p s t"
  shows "sends_only p (upd_chan ch f s) (upd_chan ch f t)"
proof -
  from assms obtain ms where "t = s\<lparr>sent := sent s @ ms\<rparr>" "list_all p ms" by (auto simp: sends_only_def)
  then show ?thesis unfolding sends_only_def by (intro exI [of _ ms]) (simp add: upd_chan_def)
qed

lemmas smode_ops = frame_def sm_send_def sm_upd_def reply_def put_def put_param_def set_mode_bits_def

lemma complain_quiet [simp]:
  "frame st (say st) \<Longrightarrow> frame st (complain x err say st)"
  "sends_only p s (sm_s st) \<Longrightarrow> sends_only p s (sm_s (say st)) \<Longrightarrow> sends_only p s (sm_s (complain x err say st))"
  "modebuf (say st) = modebuf st \<Longrightarrow> modebuf (complain x err say st) = modebuf st"
  "whatt (say st) = whatt st \<Longrightarrow> whatt (complain x err say st) = whatt st"
  "plus_sign (say st) = plus_sign st \<Longrightarrow> plus_sign (complain x err say st) = plus_sign st"
  "sm_args (say st) = sm_args st \<Longrightarrow> sm_args (complain x err say st) = sm_args st"
  by (auto simp: complain_def frame_def Let_def split: prod.split)

lemma reply_sel [simp]:
  "frame st (reply x num txt st) = True" "modebuf (reply x num txt st) = modebuf st"
  "sends_only p s (sm_s st) \<Longrightarrow> \<forall>m. p (ToOne (x_sptr x), m) \<Longrightarrow> sends_only p s (sm_s (reply x num txt st))" "sm_args (reply x num txt st) = sm_args st"
  "whatt (reply x num txt st) = whatt st" "plus_sign (reply x num txt st) = plus_sign st"
  by (simp_all add: smode_ops sends_only_send)

lemma no_ops_sel [simp]:
  "modebuf (no_ops x st) = modebuf st" "sends_only p s (sm_s st) \<Longrightarrow> \<forall>m. p (ToOne (x_sptr x), m) \<Longrightarrow> sends_only p s (sm_s (no_ops x st))"
  "sm_args (no_ops x st) = sm_args st" "whatt (no_ops x st) = whatt st" "plus_sign (no_ops x st) = plus_sign st"
  "modebuf (no_ops_noted x st) = modebuf st" "sends_only p s (sm_s st) \<Longrightarrow> \<forall>m. p (ToOne (x_sptr x), m) \<Longrightarrow> sends_only p s (sm_s (no_ops_noted x st))"
  "sm_args (no_ops_noted x st) = sm_args st" "whatt (no_ops_noted x st) = whatt st"
  "plus_sign (no_ops_noted x st) = plus_sign st"
  by (auto simp: no_ops_def no_ops_noted_def complain_def Let_def split: prod.split)

lemma find_chasing_cases:
  "find_chasing lk hist (x_sptr x) user s = (s', r) \<Longrightarrow> sends_only (to_source x) s s' \<and> (r \<noteq> None \<longrightarrow> s' = s)"
  by (auto simp: find_chasing_def sends_only_send split: option.splits)

lemma neutralI:
  assumes "\<And>s. chan_inv s \<Longrightarrow> chan_inv (f s)"
    and f: "\<And>s. md_mode (mode (chans (f s) ch)) = md_mode (mode (chans s ch)) \<and>
      (sent (f s) = sent s \<or> (\<exists>m. sent (f s) = sent s @ [(ToOne w, m)])) \<and> same_names s (f s)"
  shows "neutral w ch f"
proof -
  have "\<exists>ms. sent (f s) = sent s @ ms \<and> list_all (\<lambda>m. fst m = ToOne w) ms" for s
  proof (cases "sent (f s) = sent s")
    case False
    then obtain m where "sent (f s) = sent s @ [(ToOne w, m)]" using f by blast
    then show ?thesis by (intro exI [of _ "[(ToOne w, m)]"]) simp
  qed (intro exI [of _ "[]"], simp)
  with assms show ?thesis by (simp add: neutral_def flag_modes_def)
qed

lemma free_invites_said: "sent (free_invites ch s) = sent s \<and> same_names s (free_invites ch s)"
proof (induction ch s rule: free_invites.induct)
  case (1 ch s)
  then show ?case
    by (subst (1 2) free_invites.simps) (auto simp: del_invite_def same_names_def split: list.split)
qed

lemma neutral_ops [simp]:
  "neutral w0 ch (change_chan_flag ch w f)"
  "neutral w0 ch (free_invites ch)"
  "neutral cl ch (\<lambda>s. fst (add_banid j cl ch b s))"
  "neutral w0 ch (\<lambda>s. fst (del_banid ch m s))"
  "neutral w0 ch (\<lambda>s. fst (setfl ch cp s))"
  "neutral w0 ch (upd_chan ch (\<lambda>c. c\<lparr>mode := (mode c)\<lparr>md_key := k\<rparr>\<rparr>))"
proof -
  show "neutral w0 ch (change_chan_flag ch w f)"
    by (rule neutralI, erule change_chan_flag_inv) (simp add: change_chan_flag_def upd_user_link_def same_names_def split: option.split)
  show "neutral w0 ch (free_invites ch)"
    by (rule neutralI, erule free_invites_inv [THEN conjunct1]) (simp add: free_invites_chans free_invites_said)
  show "neutral cl ch (\<lambda>s. fst (add_banid j cl ch b s))"
    by (rule neutralI, erule add_banid_inv) (auto simp: same_names_def send_def Let_def add_banid_def Let_def)
  show "neutral w0 ch (\<lambda>s. fst (del_banid ch m s))"
    by (rule neutralI, erule del_banid_inv) (auto simp: same_names_def Let_def del_banid_def Let_def split: option.split)
  show "neutral w0 ch (\<lambda>s. fst (setfl ch cp s))"
    by (rule neutralI, erule setfl_inv) (auto simp: same_names_def Let_def setfl_def Let_def split: option.split prod.split)
  show "neutral w0 ch (upd_chan ch (\<lambda>c. c\<lparr>mode := (mode c)\<lparr>md_key := k\<rparr>\<rparr>))"
    by (rule neutralI, rule chan_inv_upd_chan) (simp_all add: same_names_def)
qed

lemma effect_split:
  "(b \<Longrightarrow> mode_effect x st p) \<Longrightarrow> (\<not> b \<Longrightarrow> mode_effect x st q) \<Longrightarrow> mode_effect x st (if b then p else q)"
  by simp

lemma mode_a_effect: "mode_effect x st (mode_a x st)"
proof (cases "querying st \<or> sm_args st = []")
  case True
  then show ?thesis by (intro quiet) (auto simp: mode_a_def frame_def)
next
  case False
  then obtain a rest where a: "\<not> querying st" "sm_args st = a # rest" by (cases "sm_args st") auto
  obtain s1 found where f: "find_chasing (look x) (history x) (x_sptr x) (check_string (Some a)) (sm_s st) = (s1, found)"
    by fastforce
  note fc = find_chasing_cases [OF f]
  show ?thesis
  proof (cases found)
    case None
    then show ?thesis using a f fc by (intro quiet) (auto simp: mode_a_def frame_def)
  next
    case (Some w)
    with fc have "s1 = sm_s st" by simp
    then show ?thesis using a Some f
      apply (simp add: mode_a_def Let_def split del: if_split)
      apply (intro effect_split; (rule quiet; auto split: if_split simp: frame_def; fail)?)
      apply (rule other [of x "change_chan_flag (x_ch x) w (MODE_CHANADM OR whatt st)" _ _ "[plus_sign st, CHR ''a'']"])
      apply (auto simp: smode_ops querying_def)
      done
  qed
qed

lemma ov_change_effect:
  assumes "c \<in> set ''ov''" "\<not> querying st"
  shows "mode_effect x st (ov_change c x arg wh st)"
  unfolding ov_change_def Let_def
  apply (intro effect_split; (rule quiet; auto split: if_split simp: frame_def; fail)?)
   apply (rule other [of x "change_chan_flag (x_ch x) wh ((if c = CHR ''o'' then MODE_CHANOP else MODE_VOICE) OR whatt st)" _ _
      "[plus_sign st, c]" c])
  using assms apply (auto simp: smode_ops querying_def)
  done

lemma mode_ov_effect:
  assumes "c \<in> set ''ov''"
  shows "mode_effect x st (mode_ov c x st)"
proof (cases "local_src x st \<and> (\<not> IsMember (sm_s st) (x_sptr x) (x_ch x) \<or>
    IsStealth (clients (sm_s st) (x_sptr x)) \<or> restricted x \<and> adding st) \<or> querying st \<or> sm_args st = []")
  case True
  then show ?thesis
    unfolding mode_ov_def Let_def
    by (intro effect_split; (rule quiet; auto simp: frame_def complain_def Let_def split: prod.splits; fail)?)
      (auto intro!: quiet simp: frame_def)
next
  case False
  then obtain a rest where a: "\<not> querying st" "sm_args st = a # rest" by (cases "sm_args st") auto
  obtain s1 found where f: "find_chasing (look x) (history x) (x_sptr x) (check_string (Some a)) (sm_s st) = (s1, found)"
    by fastforce
  note fc = find_chasing_cases [OF f]
  show ?thesis
  proof (cases found)
    case None
    have "mode_ov c x st = (if local_src x st \<and> MAXMODEPARAMS \<le> opcnt st then st\<lparr>sm_args := rest\<rparr>
        else st\<lparr>sm_args := rest, sm_s := s1\<rparr>)"
      using None a f False by (cases "local_src x st") (auto simp: mode_ov_def Let_def)
    then show ?thesis using fc by (auto intro!: quiet simp: frame_def a)
  next
    case (Some w)
    with fc have s1: "s1 = sm_s st" by simp
    define the_mode where "the_mode = (if c = CHR ''o'' then MODE_CHANOP else MODE_VOICE)"
    define st1 where "st1 = st\<lparr>sm_args := rest\<rparr>"
    define st2 where "st2 = (if isdeop x \<and> c = CHR ''o'' \<and> adding st1
      then sm_upd (set_deopped w (x_ch x) the_mode) st1 else st1)"
    have 1: "mode_effect x st st1" by (rule quiet) (auto simp: st1_def frame_def a)
    have 2: "mode_effect x st1 st2" unfolding st2_def by (intro effect_split mark) (auto intro: quiet simp: frame_def)
    have "\<not> querying st2" using a by (simp add: st2_def st1_def sm_upd_def querying_def)
    then have 3: "mode_effect x st2 (ov_change c x (check_string (Some a)) w st2)" by (rule ov_change_effect [OF assms])
    have q: "mode_effect x st st1" "mode_effect x st (reply x n t st1)" for n t
      by (auto intro!: quiet simp: st1_def frame_def a)
    have "mode_ov c x st = (if local_src x st \<and> MAXMODEPARAMS \<le> opcnt st then st1
        else if \<not> has_user (clients (sm_s st) w) then st1
        else if \<not> IsMember (sm_s st) w (x_ch x) \<or> IsStealth (clients (sm_s st) w) then
          (if local_src x st then reply x ''441'' (check_string (Some a) @ '' '' @ chname (chan_of x st1) @
             '' :They aren't on that channel'') st1 else st1)
        else if w = x_sptr x \<and> c = CHR ''o'' \<and> adding st1 then st1
        else ov_change c x (check_string (Some a)) w st2)"
      using False a f Some s1 unfolding st2_def the_mode_def st1_def
      by (cases "local_src x st") (auto simp: mode_ov_def Let_def)
    then show ?thesis using q trans [OF trans [OF 1 2] 3] by simp
  qed
qed

lemma mode_k_effect: "mode_effect x st (mode_k x st)"
proof (cases "querying st \<or> key_arg x st = None")
  case True
  then show ?thesis by (intro quiet) (auto simp: mode_k_def frame_def)
next
  case False
  then obtain arg0 rest where a: "\<not> querying st" "key_arg x st = Some (arg0, rest)" by auto
  then have r: "\<exists>n. rest = drop n (sm_args st)" by (auto simp: key_arg_def split: list.splits if_splits)
  define st1 where "st1 = st\<lparr>sm_args := rest, keychange := True\<rparr>"
  define arg where "arg = take KEYLEN arg0"
  define key where "key = md_key (mode (chan_of x st1))"
  define pre where "pre = '':'' @ c_name (clients (sm_s st1) (x_sptr x)) @ '' MODE '' @ chname (chan_of x st1)"
  define st2 where "st2 = (if adding st1 \<and> key \<noteq> []
      then sm_send (ToMatchServs (x_ch x)) (pre @ '' -k '' @ key)
             (sm_send (ToChannel (x_ch x)) (pre @ '' -k '' @ key) st1) else st1)"
  define kt where "kt = (if removing st2 \<and> arg = ''*'' then key else arg)"
  define st3 where "st3 = put_param kt (length arg + 1) (put (plus_sign st2) (CHR ''k'') st2)"
  define new where "new = (if removing st3 then [] else kt)"
  have eq: "mode_k x st =
      (if keychange st then st\<lparr>sm_args := rest\<rparr> else if arg0 = [] then st1
       else if \<not> isok x then no_ops_noted x st1
       else if \<not> fits st1 (length arg) then st1
       else if adding st1 \<and> key \<noteq> [] \<and> key = arg then st1
       else if removing st2 \<and> arg \<noteq> ''*'' \<and> arg \<noteq> key then st2
       else set_mode_bits x (\<lambda>m. m\<lparr>md_key := new\<rparr>) st3)"
    by (simp only: mode_k_def Let_def a if_False option.case prod.case new_def st3_def kt_def st2_def pre_def
        key_def arg_def st1_def)
  have 1: "frame st st1" "sends_only (mode_says x (sm_s st)) (sm_s st) (sm_s st1)" "sends_only (to_source x) (sm_s st) (sm_s st1)" "modebuf st1 = modebuf st" "whatt st1 = whatt st"
    "plus_sign st1 = plus_sign st"
    using r by (auto simp: st1_def frame_def)
  then have 2: "frame st st2" "sends_only (mode_says x (sm_s st)) (sm_s st) (sm_s st2)" "modebuf st2 = modebuf st" "whatt st2 = whatt st"
    "plus_sign st2 = plus_sign st"
    by (auto simp: st2_def st1_def frame_def sm_send_def pre_def mode_says_def key_line_def chan_of_def intro!: sends_only_send)
  have 3: "frame st st3" "modebuf st3 = modebuf st @ [plus_sign st, CHR ''k'']" "sm_s st3 = sm_s st2"
    using 2 by (auto simp: st3_def smode_ops)
  have s: "sends_only (mode_says x (sm_s st)) (upd_chan (x_ch x) (\<lambda>c. c\<lparr>mode := (mode c)\<lparr>md_key := new\<rparr>\<rparr>) (sm_s st))
      (upd_chan (x_ch x) (\<lambda>c. c\<lparr>mode := (mode c)\<lparr>md_key := new\<rparr>\<rparr>) (sm_s st2))"
    using 2(2) by (rule sends_only_upd_chan)
  have 4: "mode_effect x st st2" if "removing st2"
  proof -
    have "st2 = st1" using that by (auto simp: st2_def adding_def removing_def MODE_ADD_def MODE_DEL_def sm_send_def)
    then show ?thesis using 1 by (auto intro: quiet)
  qed
  show ?thesis unfolding eq
    apply (intro effect_split; (rule quiet; use 1 r in \<open>auto simp: frame_def\<close>; fail)?)
     apply (rule 4, simp)
    apply (rule other [of x "upd_chan (x_ch x) (\<lambda>c. c\<lparr>mode := (mode c)\<lparr>md_key := new\<rparr>\<rparr>)" _ _
      "[plus_sign st, CHR ''k'']"])
    using 3 s a apply (auto simp: smode_ops querying_def)
    done
qed

lemma mode_b_effect: "mode_effect x st (mode_b x st)"
proof -
  define arg where "arg = check_string (Some (hd (sm_args st)))"
  define st0 where "st0 = st\<lparr>sm_args := tl (sm_args st)\<rparr>"
  define arg1 where "arg1 = (if local_src x st then collapse (pretty_mask arg) else arg)"
  define f where "f = (\<lambda>s. fst (if adding st then add_banid (x_junk x) (x_sptr x) (x_ch x) arg1 s
      else (let (t, r) = del_banid (x_ch x) (Some arg1) s in (t, r, arg1))))"
  obtain s1 res txt1 where e: "(if adding st then add_banid (x_junk x) (x_sptr x) (x_ch x) arg1 (sm_s st0)
      else (let (t, r) = del_banid (x_ch x) (Some arg1) (sm_s st0) in (t, r, arg1))) = (s1, res, txt1)"
    by (metis prod_cases3)
  define st1 where "st1 = st0\<lparr>sm_s := s1\<rparr>"
  define st2 where "st2 = put_param txt1 (length arg1 + 1) (put (plus_sign st1) (CHR ''b'') (st1\<lparr>opcnt := opcnt st1 + 1\<rparr>))"
  have n: "neutral (x_sptr x) (x_ch x) f" by (cases "adding st") (simp_all add: f_def split_def Let_def)
  have s1: "s1 = f (sm_s st)" using e by (simp add: f_def st0_def split: if_splits)
  have 1: "frame st st0" "frame st st1" "frame st st2" "modebuf st0 = modebuf st" "modebuf st1 = modebuf st"
    "modebuf st2 = modebuf st @ [plus_sign st, CHR ''b'']" "sm_s st0 = sm_s st" "sm_s st1 = f (sm_s st)"
    "sm_s st2 = f (sm_s st)"
    by (auto simp: st2_def st1_def st0_def smode_ops s1)
  have fold: "sends_only (to_source x) s (sm_s (foldl (\<lambda>t b. sm_send (ToOne p) (line b) t) st bs)) \<and>
      modebuf (foldl (\<lambda>t b. sm_send (ToOne p) (line b) t) st bs) = modebuf st \<and>
      frame st (foldl (\<lambda>t b. sm_send (ToOne p) (line b) t) st bs)"
    if "sends_only (to_source x) s (sm_s st)" "\<forall>m. to_source x (ToOne p, m)" for s st bs p and line :: "ban \<Rightarrow> cstr"
    using that
  proof (induction bs arbitrary: st)
    case (Cons b bs)
    from Cons.IH [of "sm_send (ToOne p) (line b) st"] Cons.prems show ?case
      by (simp add: smode_ops sends_only_send)
  qed (simp add: frame_def)
  have cut: "(case (if adding st then add_banid (x_junk x) (x_sptr x) (x_ch x) arg1 (sm_s st0)
      else (let (t, r) = del_banid (x_ch x) (Some arg1) (sm_s st0) in (t, r, arg1))) of (s1, res, tx) \<Rightarrow> g s1 res tx) = g s1 res txt1"
    for g :: "ircd \<Rightarrow> int \<Rightarrow> cstr \<Rightarrow> smode" by (simp only: e prod.case)
  show ?thesis
  proof (cases "querying st \<or> sm_args st = []")
    case True
    have "frame st (ban_reply x st)" "sends_only (to_source x) (sm_s st) (sm_s (ban_reply x st))"
      "modebuf (ban_reply x st) = modebuf st"
      using fold [OF sends_only_refl, where p = "x_cptr x"] by (auto simp: ban_reply_def Let_def frame_def)
    with True show ?thesis by (intro quiet) (auto simp: mode_b_def)
  next
    case False
    have "mode_b x st = (if local_src x st \<and> MAXMODEPARAMS \<le> opcnt st then st0
        else if \<not> isok x then no_ops_noted x st0
        else if local_src x st \<and> hd0 arg = CHR '':'' \<and> adding st then st0\<lparr>sm_args := tl (sm_args st0)\<rparr>
        else if \<not> fits st0 (length arg1) then st0 else if res \<noteq> 0 then st1 else st2)"
      unfolding mode_b_def Let_def if_not_P [OF False] arg_def [symmetric] st0_def [symmetric] arg1_def [symmetric]
      by (simp only: cut [unfolded Let_def] st1_def st2_def)
    then show ?thesis
      apply (simp only:)
      apply (intro effect_split; (rule quiet; use 1 in \<open>auto simp: frame_def st0_def\<close>; fail)?)
       apply (rule other [OF _ n 1(2), of "[]"])
          apply (auto simp: 1)[4]
      apply (rule other [OF _ n 1(3), of "[plus_sign st, CHR ''b'']"])
      using False apply (auto simp: 1 querying_def)
      done
  qed
qed

lemma skip_arg_quiet: "mode_effect x st (skip_arg st)"
  by (rule quiet) (auto simp: skip_arg_def frame_def)

lemma letter_bits: "letter_bit (CHR ''f'') = MODE_FLOODLIMIT" "letter_bit (CHR ''l'') = MODE_LIMIT"
  "MODE_FLOODLIMIT \<noteq> 0" "MODE_LIMIT \<noteq> 0" "CHR ''+'' \<in> signs" "CHR ''-'' \<in> signs"
  by (simp_all add: letter_bit_def signs_def mode_defs)

lemma mode_f_effect: "mode_effect x st (mode_f x st)"
proof (cases "adding st \<and> sm_args st \<noteq> []")
  case False
  then show ?thesis
    unfolding mode_f_def Let_def
    apply -
    apply (intro effect_split skip_arg_quiet; (rule quiet; auto simp: frame_def split: list.splits; fail)?)
    apply (rule bits [of _ "CHR ''f''" _ _ "\<lambda>m. m\<lparr>md_msgs := 0, md_per := 0, md_mode := md_mode m AND NOT MODE_FLOODLIMIT\<rparr>" "CHR ''-''"])
    apply (auto simp: smode_ops letter_bits)
    done
next
  case True
  then obtain a rest where a: "adding st" "sm_args st = a # rest" by (cases "sm_args st") auto
  define arg where "arg = check_string (Some a)"
  define st1 where "st1 = st\<lparr>floodset := True, sm_args := rest\<rparr>"
  obtain s2 okay where s: "setfl (x_ch x) arg (sm_s st) = (s2, okay)" by fastforce
  define st2 where "st2 = st1\<lparr>sm_s := s2\<rparr>"
  define st3 where "st3 = put_param arg (length arg + 1) (put (CHR ''+'') (CHR ''f'')
    (set_mode_bits x (\<lambda>m. m\<lparr>md_mode := md_mode m OR MODE_FLOODLIMIT\<rparr>) st2))"
  have eq: "mode_f x st = (if querying st then st else if \<not> isok x then skip_arg st
      else if floodset st then skip_arg st else if \<not> fits st1 (length arg) then st1
      else if length arg < 3 \<or> \<not> isvalidopt arg then st1 else if \<not> okay then st2 else st3)"
    using a s by (simp add: mode_f_def Let_def st3_def st2_def st1_def arg_def)
  have q: "mode_effect x st st1" by (rule quiet) (auto simp: st1_def frame_def a)
  have 2: "mode_effect x st st2" if "isok x"
    using that by (rule other [of x "\<lambda>s. fst (setfl (x_ch x) arg s)" _ _ "[]"]) (auto simp: st2_def st1_def frame_def a s)
  have "mode_effect x st2 st3" if "isok x"
    using that
    by (intro bits [of _ "CHR ''f''" _ _ "\<lambda>m. m\<lparr>md_mode := md_mode m OR MODE_FLOODLIMIT\<rparr>" "CHR ''+''"])
      (auto simp: st3_def smode_ops letter_bits)
  with 2 have 3: "mode_effect x st st3" if "isok x" using that by (blast intro: trans)
  show ?thesis unfolding eq
    by (intro effect_split skip_arg_quiet q) (use 2 3 in \<open>auto intro: quiet simp: frame_def\<close>)
qed

lemma mode_l_effect: "mode_effect x st (mode_l x st)"
proof (cases "adding st \<and> sm_args st \<noteq> []")
  case False
  then show ?thesis
    unfolding mode_l_def Let_def
    apply -
    apply (intro effect_split skip_arg_quiet; (rule quiet; auto simp: frame_def split: list.splits; fail)?)
    apply (rule bits [of _ "CHR ''l''" _ _ "\<lambda>m. m\<lparr>md_limit := 0, md_mode := md_mode m AND NOT MODE_LIMIT\<rparr>" "CHR ''-''"])
    apply (auto simp: smode_ops letter_bits)
    done
next
  case True
  then obtain a rest where a: "adding st" "sm_args st = a # rest" by (cases "sm_args st") auto
  define n where "n = atoi (check_string (Some a))"
  define st1 where "st1 = st\<lparr>limitset := True, sm_args := rest\<rparr>"
  define st2 where "st2 = put_param (dec n) (length (dec n) + 1) (put (CHR ''+'') (CHR ''l'')
    (set_mode_bits x (\<lambda>m. m\<lparr>md_limit := n, md_mode := md_mode m OR MODE_LIMIT\<rparr>) st1))"
  have eq: "mode_l x st = (if querying st then st else if \<not> isok x then skip_arg st
      else if limitset st then skip_arg st else if n \<le> 0 then st1
      else if \<not> fits st1 (length (dec n)) then st1 else st2)"
    using a by (simp add: mode_l_def Let_def st2_def st1_def n_def)
  have q: "mode_effect x st st1" by (rule quiet) (auto simp: st1_def frame_def a)
  have "mode_effect x st1 st2" if "isok x"
    using that
    by (intro bits [of _ "CHR ''l''" _ _ "\<lambda>m. m\<lparr>md_limit := n, md_mode := md_mode m OR MODE_LIMIT\<rparr>" "CHR ''+''"])
      (auto simp: st2_def smode_ops letter_bits)
  with q have 2: "mode_effect x st st2" if "isok x" using that by (blast intro: trans)
  show ?thesis unfolding eq
    by (intro effect_split skip_arg_quiet q) (use 2 in \<open>auto intro: quiet simp: frame_def\<close>)
qed

lemma simple_letters:
  assumes "simple_bit c \<noteq> 0"
  shows "letter_bit c = simple_bit c" "letter_bit c \<noteq> 0" "c \<notin> {CHR ''+'', CHR ''-'', CHR ''=''}"
proof -
  have "c \<noteq> CHR ''f''" "c \<noteq> CHR ''l''" "c \<notin> {CHR ''+'', CHR ''-'', CHR ''=''}"
    using assms by (auto simp: simple_bit_def new_cmode_bit_def)
  with assms show "letter_bit c = simple_bit c" "letter_bit c \<noteq> 0" "c \<notin> {CHR ''+'', CHR ''-'', CHR ''=''}"
    by (auto simp: letter_bit_def)
qed

lemma flag_letter_effect:
  assumes c: "fl = simple_bit c" "simple_bit c \<noteq> 0"
    and a: "allowed \<Longrightarrow> isok x \<or> may_set x c st" "\<not> allowed \<Longrightarrow> mode_effect x st (refuse_it st)"
    and cl: "\<And>st1. allowed \<Longrightarrow> mode_effect x st1 (clearing st1) \<and> (isok x \<or> sm_s (clearing st1) = sm_s st1)"
  shows "mode_effect x st (flag_letter c fl allowed refuse_it clearing x st)"
proof -
  note l = simple_letters [OF c(2)]
  define st1 where "st1 = (if local_src x st then st\<lparr>done_letters := c # done_letters st\<rparr> else st)"
  define st2 where "st2 = clearing st1"
  have 1: "mode_effect x st st1" by (rule quiet) (auto simp: st1_def frame_def)
  have same: "sm_s st1 = sm_s st" by (simp add: st1_def)
  have 2: "mode_effect x st1 st2" "isok x \<or> sm_s st2 = sm_s st" if allowed
    using cl [of st1] that by (simp_all add: st2_def same)
  define st3 where "st3 = put (CHR ''+'') c (set_mode_bits x (\<lambda>m. m\<lparr>md_mode := md_mode m OR fl\<rparr>)
      (st1\<lparr>sm_len := sm_len st1 + 2\<rparr>))"
  define st4 where "st4 = put (CHR ''-'') c (set_mode_bits x (\<lambda>m. m\<lparr>md_mode := md_mode m AND NOT fl\<rparr>)
      (st2\<lparr>sm_len := sm_len st2 + 2\<rparr>))"
  have may: "isok x \<or> may_set x c st1" "isok x \<or> may_set x c st2" if allowed
    using a(1) 2(2) that by (auto simp: may_set_def same Let_def)
  have 3: "mode_effect x st1 st3" if allowed
    using may(1) [OF that]
    by (intro bits [of _ c _ _ "\<lambda>m. m\<lparr>md_mode := md_mode m OR fl\<rparr>" "CHR ''+''"])
      (auto simp: st3_def smode_ops letter_bits l c)
  have 4: "mode_effect x st2 st4" if allowed
    using may(2) [OF that]
    by (intro bits [of _ c _ _ "\<lambda>m. m\<lparr>md_mode := md_mode m AND NOT fl\<rparr>" "CHR ''-''"])
      (auto simp: st4_def smode_ops letter_bits l c)
  have "flag_letter c fl allowed refuse_it clearing x st =
      (if \<not> allowed then refuse_it st else if local_src x st \<and> c \<in> set (done_letters st) then st
       else if \<not> fits st1 0 then st1
       else if adding st1 then (if has (md_mode (mode (chan_of x st1))) fl then st1 else st3)
       else if has (md_mode (mode (chan_of x st2))) fl then st4 else st2)"
    by (simp only: flag_letter_def Let_def st4_def st3_def st2_def st1_def)
  moreover have "mode_effect x st st" by (rule quiet) (auto simp: frame_def)
  moreover have "mode_effect x st st3" "mode_effect x st st2" "mode_effect x st st4" if allowed
    using 1 2(1) 3 4 that by (blast intro: trans)+
  ultimately show ?thesis using 1 a(2) by simp
qed

lemma no_privileges_quiet: "mode_effect x st (no_ops x st)" "mode_effect x st (no_privileges x st)"
  "mode_effect x st (unknown_letter c x st)" "mode_effect x st (id st)"
  by (rule quiet; auto simp: frame_def no_privileges_def unknown_letter_def; fail)+

lemma clearing_ok: "isok x \<Longrightarrow> mode_effect x st (sm_upd (free_invites (x_ch x)) st)"
  by (rule other [of x "free_invites (x_ch x)" _ _ "[]"]) (simp_all add: smode_ops)

lemma mode_letter_effect: "mode_effect x st (mode_letter x c st)"
  unfolding mode_letter_def
  apply (intro effect_split mode_a_effect mode_ov_effect mode_k_effect mode_b_effect mode_f_effect mode_l_effect no_privileges_quiet)
  apply (auto intro!: sign)[3]
  apply simp
  unfolding mode_i_def mode_m_def mode_n_def mode_p_def mode_s_def mode_t_def mode_C_def mode_R_def mode_K_def mode_r_def
    mode_O_def mode_A_def mode_S_def mode_d_def mode_c_def mode_q_def mode_B_def mode_N_def Let_def
  apply (intro effect_split, rule quiet, simp_all add: frame_def)
  apply (rule flag_letter_effect; simp add: simple_bit_def new_cmode_bit_def mode_defs may_set_def Let_def no_privileges_quiet [simplified] clearing_ok)+
  done

lemma effect_args: "mode_effect x st st' \<Longrightarrow> \<exists>n. sm_args st' = drop n (sm_args st)"
proof (induction rule: mode_effect.induct)
  case (trans st st1 st2)
  then show ?case by (auto simp: drop_drop)
qed (auto simp: frame_def sm_upd_def)

subsection \<open>The command\<close>

definition word_cost :: "cstr list \<Rightarrow> nat" where "word_cost ws = sum_list (map (\<lambda>w. Suc (length w)) ws)"

lemma word_cost_drop: "word_cost (drop n ws) \<le> word_cost ws"
proof -
  have "word_cost ws = word_cost (take n ws) + word_cost (drop n ws)"
    by (metis append_take_drop_id map_append sum_list_append word_cost_def)
  then show ?thesis by simp
qed

text \<open>The letters one after the other; at the end of a word the next argument left is the next word.\<close>

function mode_loop :: "mode_ctx \<Rightarrow> cstr \<Rightarrow> smode \<Rightarrow> smode" where
  "mode_loop x [] st = (case sm_args st of [] \<Rightarrow> st | a # rest \<Rightarrow> mode_loop x a (st\<lparr>sm_args := rest\<rparr>))"
| "mode_loop x (c # wd) st = mode_loop x wd (mode_letter x c st)"
  by pat_completeness auto
termination
proof (relation "measure (\<lambda>(x, wd, st). length wd + word_cost (sm_args st))")
  fix x c wd st
  obtain n where "sm_args (mode_letter x c st) = drop n (sm_args st)"
    using effect_args [OF mode_letter_effect] by blast
  with word_cost_drop [of n "sm_args st"]
  show "((x, wd, mode_letter x c st), x, c # wd, st) \<in> measure (\<lambda>(x, wd, st). length wd + word_cost (sm_args st))"
    by simp
qed (simp_all add: word_cost_def)

text \<open>
  \<open>secure\<close> stands for \<open>SecureModes && services_on\<close>, \<open>lk\<close> and \<open>hist\<close> for \<open>find_client\<close> and
  \<open>get_history\<close>, \<open>restr\<close> for \<open>IsRestricted(sptr)\<close>, \<open>junk\<close> for what \<open>add_banid\<close> may leave in a ban.
\<close>

definition mode_context ::
  "(cstr \<Rightarrow> nat option) \<Rightarrow> (cstr \<Rightarrow> nat option) \<Rightarrow> bool \<Rightarrow> int \<Rightarrow> nat \<Rightarrow> nat \<Rightarrow> nat \<Rightarrow> ircd \<Rightarrow> mode_ctx" where
  "mode_context lk hist restr junk cptr sptr ch s =
     (let src = clients s sptr; fl = user_channel_mode sptr ch s;
          ischop = IsServer src \<or> IsService src \<or> has fl CHFL_CHANOP;
          deop = \<not> ischop \<and> \<not> IsServer src \<and> has fl CHFL_DEOPPED
      in \<lparr>x_cptr = cptr, x_sptr = sptr, x_ch = ch,
          isok = ischop \<or> \<not> deop \<and> IsServer (clients s cptr) \<and> channelts (chans s ch) \<noteq> 0 \<or> IsService src,
          isdeop = deop, restricted = restr, look = lk, history = hist, x_junk = junk\<rparr>)"

definition smode_start :: "cstr list \<Rightarrow> ircd \<Rightarrow> smode" where
  "smode_start args s =
     \<lparr>sm_s = s, errors_sent = 0, opcnt = 0, sm_len = 0, keychange = False, limitset = False, floodset = False,
      whatt = MODE_ADD, plus_sign = CHR ''+'', done_letters = [], sm_args = args, modebuf = [], parabuf = []\<rparr>"

definition mode_run :: "mode_ctx \<Rightarrow> cstr list \<Rightarrow> ircd \<Rightarrow> smode" where
  "mode_run x parv s = mode_loop x [] (smode_start parv s)"

definition announce :: "mode_ctx \<Rightarrow> smode \<Rightarrow> ircd" where
  "announce x st =
     (let s = sm_s st; line = collapse_signs (modebuf st);
          msg = '':'' @ c_name (clients s (x_sptr x)) @ '' MODE '' @ chname (chans s (x_ch x)) @ '' '' @ line @ '' '' @ parabuf st
      in if line = [] then s
         else send (ToMatchServs (x_ch x)) msg (send (ToChannel (x_ch x)) msg s))"

definition set_channel_mode ::
  "bool \<Rightarrow> (cstr \<Rightarrow> nat option) \<Rightarrow> (cstr \<Rightarrow> nat option) \<Rightarrow> bool \<Rightarrow> int \<Rightarrow> nat \<Rightarrow> nat \<Rightarrow> nat \<Rightarrow> cstr list \<Rightarrow> ircd \<Rightarrow> ircd" where
  "set_channel_mode secure lk hist restr junk cptr sptr ch parv s =
     (if secure \<and> MyClient (clients s sptr) \<and> \<not> has (md_mode (mode (chans s ch))) MODE_REGISTERED
      then send (ToOne sptr) (''You can only set modes on registered channels ('' @ chname (chans s ch) @ '')'') s
      else
        let x = mode_context lk hist restr junk cptr sptr ch s
        in announce x (mode_run x parv s))"

lemma mode_loop_effect: "mode_effect x st (mode_loop x wd st)"
proof (induction x wd st rule: mode_loop.induct)
  case (1 x st)
  show ?case
  proof (cases "sm_args st")
    case Nil
    then show ?thesis by (simp add: quiet frame_def)
  next
    case (Cons a rest)
    have "mode_effect x st (st\<lparr>sm_args := rest\<rparr>)" by (rule quiet) (auto simp: frame_def Cons)
    from trans [OF this 1 [OF Cons]] show ?thesis by (simp add: Cons)
  qed
next
  case (2 x c wd st)
  from trans [OF mode_letter_effect 2] show ?case by simp
qed

lemma sends_only_inv: "sends_only p s t \<Longrightarrow> chan_inv s \<Longrightarrow> chan_inv t"
proof -
  assume "sends_only p s t" "chan_inv s"
  then obtain ms where t: "t = s\<lparr>sent := sent s @ ms\<rparr>" by (auto simp: sends_only_def)
  have "chan_inv (s\<lparr>sent := sent s @ ms\<rparr>)" for ms
  proof (induction ms rule: rev_induct)
    case (snoc m ms)
    from chan_inv_send [OF this, of "fst m" "snd m"] show ?case by (simp add: send_def)
  qed (use \<open>chan_inv s\<close> in simp)
  then show ?thesis by (simp add: t)
qed

lemma sends_only_flags: "sends_only p s t \<Longrightarrow> flag_modes ch t = flag_modes ch s"
  by (auto simp: sends_only_def flag_modes_def)

lemma set_deopped_neutral: "neutral w0 ch (set_deopped w ch f)"
  by (rule neutralI, erule set_deopped_inv) (simp add: set_deopped_def upd_user_link_def same_names_def split: option.split)

lemma effect_inv: "mode_effect x st st' \<Longrightarrow> chan_inv (sm_s st) \<Longrightarrow> chan_inv (sm_s st')"
proof (induction rule: mode_effect.induct)
  case (bits c st st' f sg)
  then show ?case by (auto intro: chan_inv_upd_chan)
next
  case (mark st w f)
  then show ?case by (simp add: sm_upd_def set_deopped_inv)
qed (auto simp: neutral_def intro: sends_only_inv)

definition letters_text :: "(char \<times> char) list \<Rightarrow> cstr" where
  "letters_text ls = concat (map (\<lambda>(sg, c). [sg, c]) ls)"

definition good_letters :: "(char \<times> char) list \<Rightarrow> bool" where
  "good_letters ls \<longleftrightarrow> (\<forall>(sg, c)\<in>set ls. sg \<in> signs \<and> c \<notin> signs \<and> c \<noteq> NUL)"

definition sign_ok :: "smode \<Rightarrow> bool" where
  "sign_ok st \<longleftrightarrow> (whatt st, plus_sign st) \<in> {(MODE_ADD, CHR ''+''), (MODE_DEL, CHR ''-''), (MODE_QUERY, CHR ''='')}"

lemma signed_modes_text: "good_letters ls \<Longrightarrow> signed_modes sg (letters_text ls) = ls"
proof (induction ls arbitrary: sg)
  case (Cons l ls)
  then show ?case by (cases l) (auto simp: good_letters_def letters_text_def signs_def)
qed (simp add: letters_text_def)

lemma letters_text_NUL: "good_letters ls \<Longrightarrow> NUL \<notin> set (letters_text ls)"
proof (induction ls)
  case (Cons l ls)
  then show ?case by (cases l) (auto simp: good_letters_def letters_text_def signs_def)
qed (simp add: letters_text_def)

lemma letter_bit_values:
  "letter_bit (CHR ''+'') = 0" "letter_bit (CHR ''-'') = 0" "letter_bit NUL = 0"
  "letter_bit (CHR ''a'') = 0" "letter_bit (CHR ''o'') = 0" "letter_bit (CHR ''v'') = 0"
  "letter_bit (CHR ''k'') = 0" "letter_bit (CHR ''b'') = 0"
  by (simp_all add: letter_bit_def simple_bit_def new_cmode_bit_def)

lemma letter_bit_sign: "letter_bit c \<noteq> 0 \<Longrightarrow> c \<notin> signs \<and> c \<noteq> NUL"
  by (auto simp: letter_bit_values signs_def)

lemma aovkb_letter: "c \<in> set ''aovkb'' \<Longrightarrow> letter_bit c = 0 \<and> c \<notin> signs \<and> c \<noteq> NUL"
  by (auto simp: letter_bit_values signs_def)

definition wrote :: "nat \<Rightarrow> smode \<Rightarrow> smode \<Rightarrow> (char \<times> char) list \<Rightarrow> bool" where
  "wrote ch st st' ls \<longleftrightarrow> modebuf st' = modebuf st @ letters_text ls \<and> good_letters ls \<and>
     flag_modes ch (sm_s st') = fold apply_letter ls (flag_modes ch (sm_s st))"

lemma wrote_none: "modebuf st' = modebuf st \<Longrightarrow> flag_modes ch (sm_s st') = flag_modes ch (sm_s st) \<Longrightarrow> \<exists>ls. wrote ch st st' ls"
  by (rule exI [of _ "[]"]) (simp add: wrote_def letters_text_def good_letters_def)

lemma wrote_one:
  "modebuf st' = modebuf st @ [sg, c] \<Longrightarrow> sg \<in> signs \<Longrightarrow> c \<notin> signs \<Longrightarrow> c \<noteq> NUL \<Longrightarrow>
   flag_modes ch (sm_s st') = apply_letter (sg, c) (flag_modes ch (sm_s st)) \<Longrightarrow> \<exists>ls. wrote ch st st' ls"
  by (rule exI [of _ "[(sg, c)]"]) (simp add: wrote_def letters_text_def good_letters_def)

lemma wrote_append: "wrote ch st st1 l1 \<Longrightarrow> wrote ch st1 st2 l2 \<Longrightarrow> wrote ch st st2 (l1 @ l2)"
  by (auto simp: wrote_def letters_text_def good_letters_def)

lemma effect_wrote:
  "mode_effect x st st' \<Longrightarrow> sign_ok st \<Longrightarrow> sign_ok st' \<and> (\<exists>ls. wrote (x_ch x) st st' ls)"
proof (induction rule: mode_effect.induct)
  case (quiet st st')
  then show ?case by (auto simp: sign_ok_def frame_sel sends_only_flags intro!: wrote_none)
next
  case (mark st w f)
  then show ?case
    using set_deopped_neutral [of "x_sptr x" "x_ch x" w f] by (auto simp: sign_ok_def sm_upd_def neutral_def intro!: wrote_none)
next
  case (sign w sg st)
  then show ?case by (auto simp: sign_ok_def intro!: wrote_none)
next
  case (other f st st' out c)
  then have flags: "flag_modes (x_ch x) (sm_s st') = flag_modes (x_ch x) (sm_s st)"
    by (simp add: sends_only_flags neutral_def)
  have "sign_ok st'" using other by (simp add: sign_ok_def frame_sel)
  moreover have "\<exists>ls. wrote (x_ch x) st st' ls"
  proof (cases "out = []")
    case False
    then have c: "out = [plus_sign st, c]" "c \<in> set ''aovkb''" "whatt st \<noteq> MODE_QUERY" using other by auto
    then have "plus_sign st \<in> signs" using other.prems by (auto simp: sign_ok_def signs_def)
    then show ?thesis
      using aovkb_letter [OF c(2)] flags other.hyps(5) c(1)
      by (intro wrote_one [of st' st "plus_sign st" c]) auto
  qed (use flags other in \<open>auto intro!: wrote_none\<close>)
  ultimately show ?case by blast
next
  case (bits c st st' f sg)
  then show ?case using letter_bit_sign [of c]
    by (auto simp: sign_ok_def frame_sel flag_modes_def simp del: apply_letter.simps intro!: wrote_one)
next
  case (trans st st1 st2)
  then show ?case by (blast intro: wrote_append)
qed

definition says :: "mode_ctx \<Rightarrow> ircd \<Rightarrow> ircd \<Rightarrow> bool" where
  "says x s s' \<longleftrightarrow> same_names s s' \<and> (\<exists>ms. sent s' = sent s @ ms \<and> list_all (mode_says x s) ms)"

lemma says_trans: "says x s t \<Longrightarrow> says x t u \<Longrightarrow> says x s u"
  by (fastforce simp: says_def same_names_def mode_says_def key_line_def list_all_iff)

lemma says_same: "sent t = sent s \<Longrightarrow> same_names s t \<Longrightarrow> says x s t"
  by (simp add: says_def)

lemma says_neutral: "neutral (x_sptr x) (x_ch x) f \<Longrightarrow> says x s (f s)"
  by (fastforce simp: says_def neutral_def mode_says_def to_asker_def list_all_iff)

lemma says_sends: "sends_only (mode_says x s) t u \<Longrightarrow> same_names s t \<Longrightarrow> says x t u"
  by (auto simp: says_def sends_only_def same_names_def mode_says_def key_line_def list_all_iff)

lemma effect_says: "mode_effect x st st' \<Longrightarrow> says x (sm_s st) (sm_s st')"
proof (induction rule: mode_effect.induct)
  case (quiet st st')
  have "same_names (sm_s st) (sm_s st)" by (simp add: same_names_def)
  then show ?case by (rule says_sends [OF sends_only_weaken [OF quiet(2)]])
next
  case (mark st w f)
  show ?case using says_neutral [OF set_deopped_neutral] by (simp add: sm_upd_def)
next
  case (other f st st' out c)
  then have "says x (sm_s st) (f (sm_s st))" "same_names (sm_s st) (f (sm_s st))"
    by (auto simp: says_neutral neutral_def)
  with says_sends [OF other(4)] show ?case by (blast intro: says_trans)
next
  case (trans st st1 st2)
  then show ?case by (blast intro: says_trans)
qed (auto intro!: says_same simp: same_names_def)

definition powerless :: "mode_ctx \<Rightarrow> ircd \<Rightarrow> bool" where
  "powerless x s \<longleftrightarrow> (let src = clients s (x_sptr x) in \<not> isok x \<and> \<not> isdeop x \<and> \<not> IsServer src \<and> \<not> IsService src \<and>
     \<not> IsOper src \<and> \<not> IsAdmin src \<and> \<not> IsTechAdmin src \<and> \<not> IsNetAdmin src)"

lemma effect_powerless:
  "mode_effect x st st' \<Longrightarrow> powerless x (sm_s st) \<Longrightarrow> sends_only (to_source x) (sm_s st) (sm_s st') \<and> modebuf st' = modebuf st"
proof (induction rule: mode_effect.induct)
  case (bits c st st' f sg)
  then show ?case by (auto simp: powerless_def may_set_def Let_def split: if_splits)
next
  case (trans st st1 st2)
  then have "powerless x (sm_s st1)" by (auto simp: powerless_def sends_only_def)
  with trans show ?case by (auto intro: sends_only_trans)
qed (auto simp: powerless_def Let_def)

lemma mode_run_start: "sm_s (smode_start parv s) = s" "modebuf (smode_start parv s) = []" "sign_ok (smode_start parv s)"
  by (simp_all add: smode_start_def sign_ok_def)

lemma mode_run_effect: "mode_effect x (smode_start parv s) (mode_run x parv s)"
  by (simp only: mode_run_def mode_loop_effect)

lemma announce_sel:
  "chans (announce x st) = chans (sm_s st)" "clients (announce x st) = clients (sm_s st)"
  by (simp_all add: announce_def Let_def)

lemma set_mode_inv:
  assumes "chan_inv s"
  shows "chan_inv (set_channel_mode secure lk hist restr junk cptr sptr ch parv s)"
proof -
  have "chan_inv (sm_s (mode_run x parv s))" for x
    using effect_inv [OF mode_run_effect] assms by (simp add: mode_run_start)
  then show ?thesis
    using assms by (auto simp: set_channel_mode_def announce_def Let_def intro: chan_inv_send)
qed

section \<open>Properties\<close>

text \<open>
  C16. Only operators change a channel. A user who is not an operator of the
  channel (nor marked as deopped by a server), who is no server, service, IRC operator or administrator, and
  whose commands do not come through a server (or the channel has no timestamp), changes nothing with
  a \<open>MODE\<close> command, whatever its letters and arguments: the only effect is replies to that user.
\<close>

theorem mode_needs_op:
  assumes "\<not> has (user_channel_mode sptr ch s) CHFL_CHANOP" "\<not> has (user_channel_mode sptr ch s) CHFL_DEOPPED"
    and "\<not> IsServer (clients s cptr) \<or> channelts (chans s ch) = 0"
    and "\<not> IsServer (clients s sptr)" "\<not> IsService (clients s sptr)" "\<not> IsOper (clients s sptr)"
      "\<not> IsAdmin (clients s sptr)" "\<not> IsTechAdmin (clients s sptr)" "\<not> IsNetAdmin (clients s sptr)"
  shows "\<exists>ms. set_channel_mode secure lk hist restr junk cptr sptr ch parv s = s\<lparr>sent := sent s @ ms\<rparr> \<and>
    (\<forall>m\<in>set ms. fst m \<in> {ToOne sptr, ToOne cptr})"
proof -
  define x where "x = mode_context lk hist restr junk cptr sptr ch s"
  have x: "x_sptr x = sptr" "x_cptr x = cptr" "powerless x s"
    using assms by (auto simp: x_def mode_context_def powerless_def Let_def)
  have "sends_only (to_source x) s (sm_s (mode_run x parv s)) \<and> modebuf (mode_run x parv s) = []"
    using effect_powerless [OF mode_run_effect, of x parv s] x(3) by (simp add: mode_run_start)
  then have 1: "sends_only (to_source x) s (announce x (mode_run x parv s))"
    by (simp add: announce_def collapse_signs_def)
  have 2: "sends_only (to_source x) s (send (ToOne sptr) m s)" for m
    by (rule sends_only_send) (simp_all add: to_asker_def x)
  show ?thesis
    using 1 2 by (auto simp: set_channel_mode_def x_def [symmetric] sends_only_def to_asker_def x Let_def list_all_iff)
qed

theorem mode_needs_op_witness:
  "let s = boot (\<lambda>_. plain_user ''bob'' ''u'' ''h'') plain_config 0 in
   \<exists>ms. set_channel_mode False (\<lambda>_. None) (\<lambda>_. None) False 0 2 2 5 [''+mo'', ''ana''] s = s\<lparr>sent := sent s @ ms\<rparr> \<and>
     (\<forall>m\<in>set ms. fst m \<in> {ToOne 2, ToOne 2})"
  unfolding Let_def
  by (rule mode_needs_op)
    (simp_all add: boot_def new_chan_def user_channel_mode_def plain_user_def has_def IsServer_def IsService_def IsOper_def
      IsAdmin_def IsTechAdmin_def IsNetAdmin_def find_user_link_def)

text \<open>
  C17. What is announced is what was done. What a \<open>MODE\<close> command sends is replies to its sender, lines
  \<open>-k key\<close> that take an old key away, and last, when its mode string is not empty, one line with that
  string, to the members and to the servers. The mode string, replayed letter by letter on the flag modes the channel had before
  (\<open>+\<close> sets a letter's bit, \<open>-\<close> clears it), gives the flag modes it has afterwards, so when nothing is
  announced they have not changed, and a letter that was refused is not announced; the string repeats no sign.
\<close>

theorem mode_line_replays:
  assumes "set_channel_mode secure lk hist restr junk cptr sptr ch parv s = t"
  shows "\<exists>said modes params.
     sent t = sent s @ said @
       (let line = '':'' @ c_name (clients s sptr) @ '' MODE '' @ chname (chans s ch) @ '' '' @ modes @ '' '' @ params
        in if modes = [] then [] else [(ToChannel ch, line), (ToMatchServs ch, line)]) \<and>
     list_all (\<lambda>m. to_asker sptr cptr m \<or> key_line sptr ch s m) said \<and>
     md_mode (mode (chans t ch)) = fold apply_letter (signed_modes NUL modes) (md_mode (mode (chans s ch))) \<and>
     no_redundant_sign NUL modes"
proof (cases "secure \<and> MyClient (clients s sptr) \<and> \<not> has (md_mode (mode (chans s ch))) MODE_REGISTERED")
  case True
  then have "t = send (ToOne sptr) (''You can only set modes on registered channels ('' @ chname (chans s ch) @ '')'') s"
    using assms by (simp add: set_channel_mode_def)
  then show ?thesis
    by (intro exI [of _ "[(ToOne sptr, ''You can only set modes on registered channels ('' @ chname (chans s ch) @ '')'')]"] exI [of _ "[]"])
      (simp add: send_def to_asker_def)
next
  case False
  define x where "x = mode_context lk hist restr junk cptr sptr ch s"
  have x: "x_sptr x = sptr" "x_ch x = ch" "x_cptr x = cptr" by (auto simp: x_def mode_context_def Let_def)
  define st where "st = mode_run x parv s"
  have "\<exists>ls. wrote (x_ch x) (smode_start parv s) st ls"
    using effect_wrote [OF mode_run_effect mode_run_start(3), of x parv s] unfolding st_def by (rule conjunct2)
  then obtain ls where "wrote ch (smode_start parv s) st ls" by (auto simp only: x)
  then have ls: "modebuf st = letters_text ls" "good_letters ls"
    "md_mode (mode (chans (sm_s st) ch)) = fold apply_letter ls (md_mode (mode (chans s ch)))"
    by (simp_all only: wrote_def mode_run_start append_Nil flag_modes_def)
  then have "NUL \<notin> set (modebuf st)" using letters_text_NUL by simp
  from collapse_signs_from_spec [OF _ this, of NUL]
  have c: "signed_modes NUL (collapse_signs (modebuf st)) = ls" "no_redundant_sign NUL (collapse_signs (modebuf st))"
    using signed_modes_text [OF ls(2)] by (simp_all add: collapse_signs_def ls(1))
  have "says x s (sm_s st)" using effect_says [OF mode_run_effect, of x parv s] by (simp only: mode_run_start st_def)
  then obtain ms where ms: "sent (sm_s st) = sent s @ ms" "list_all (mode_says x s) ms"
    and n: "c_name (clients (sm_s st) sptr) = c_name (clients s sptr)" "chname (chans (sm_s st) ch) = chname (chans s ch)"
    by (auto simp: says_def same_names_def)
  have t: "t = announce x st"
    using False assms by (simp only: set_channel_mode_def Let_def x_def st_def if_False)
  have "chans t = chans (sm_s st)" by (simp add: t announce_sel)
  moreover have "list_all (\<lambda>m. to_asker sptr cptr m \<or> key_line sptr ch s m) ms"
    using ms(2) by (simp add: list_all_iff mode_says_def x)
  ultimately show ?thesis
    using c ls(3) ms(1)
    by (intro exI [of _ ms] exI [of _ "collapse_signs (modebuf st)"] exI [of _ "parabuf st"])
      (simp add: t announce_def x Let_def send_def n)
qed

text \<open>An operator asks for \<open>+m-n\<close>; the channel had \<open>+n\<close>.\<close>

theorem mode_line_replays_witness:
  "let s = upd_chan 5 (\<lambda>c. c\<lparr>chname := ''#a'', mode := (mode c)\<lparr>md_mode := MODE_NOPRIVMSGS\<rparr>\<rparr>)
        (add_user_to_channel 5 2 CHFL_CHANOP (boot (\<lambda>_. plain_user ''bob'' ''u'' ''h'') plain_config 0));
      t = set_channel_mode False (\<lambda>_. None) (\<lambda>_. None) False 0 2 2 5 [''+m-n''] s in
   md_mode (mode (chans t 5)) = MODE_MODERATED \<and>
   (\<exists>said modes params.
     sent t = sent s @ said @
       (let line = '':bob MODE #a '' @ modes @ '' '' @ params
        in if modes = [] then [] else [(ToChannel 5, line), (ToMatchServs 5, line)]) \<and>
     list_all (\<lambda>m. to_asker 2 2 m \<or> key_line 2 5 s m) said \<and>
     md_mode (mode (chans t 5)) = fold apply_letter (signed_modes NUL modes) MODE_NOPRIVMSGS)"
proof -
  define s where "s = upd_chan 5 (\<lambda>c. c\<lparr>chname := ''#a'', mode := (mode c)\<lparr>md_mode := MODE_NOPRIVMSGS\<rparr>\<rparr>)
        (add_user_to_channel 5 2 CHFL_CHANOP (boot (\<lambda>_. plain_user ''bob'' ''u'' ''h'') plain_config 0))"
  have n: "c_name (clients s 2) = ''bob''" "chname (chans s 5) = ''#a''" "md_mode (mode (chans s 5)) = MODE_NOPRIVMSGS"
    by (simp_all add: s_def add_user_to_channel_def link_member_def boot_def plain_user_def)
  have "md_mode (mode (chans (set_channel_mode False (\<lambda>_. None) (\<lambda>_. None) False 0 2 2 5 [''+m-n''] s) 5)) = MODE_MODERATED"
    unfolding s_def by code_simp
  moreover note mode_line_replays [OF refl, of False "\<lambda>_. None" "\<lambda>_. None" False 0 2 2 5 "[''+m-n'']" s, unfolded n]
  ultimately show ?thesis unfolding s_def [symmetric] Let_def by (auto simp only: append.simps)
qed

lemma dec_value_zeros: "dec_value 0 (replicate n (CHR ''0'') @ s) = dec_value 0 s"
  by (induction n) (simp_all add: is_digit_def)

lemma atoi_zeros: "atoi (replicate (Suc n) (CHR ''0'') @ ''5'') = 5"
  using dec_value_zeros [of "Suc n" "''5''"]
  by (simp add: atoi_def strtol_def is_digit_def)

text \<open>A flood limit of 190 characters: zeros, then \<open>5:5\<close>.\<close>

definition long_limit :: cstr where "long_limit = replicate 187 (CHR ''0'') @ ''5:5''"

lemma long_limit_valid:
  "length long_limit = 190" "check_string (Some long_limit) = long_limit" "isvalidopt long_limit"
  "setfl ch long_limit s = (upd_chan ch (\<lambda>c. c\<lparr>mode := (mode c)\<lparr>md_msgs := 5, md_per := 5\<rparr>\<rparr>) s, True)"
proof -
  have split: "split_at long_limit (CHR '':'') = (replicate 187 (CHR ''0'') @ ''5'', Some ''5'')"
    using split_at_append [of "CHR '':''" "replicate 187 (CHR ''0'') @ ''5''" "''5''"] by (simp add: long_limit_def)
  have five: "atoi ''5'' = 5" by (simp add: atoi_def strtol_def is_digit_def)
  have "atoi (replicate 187 (CHR ''0'') @ ''5'') = 5" using atoi_zeros [of 186] by (simp add: numeral_eq_Suc)
  with split five show "setfl ch long_limit s = (upd_chan ch (\<lambda>c. c\<lparr>mode := (mode c)\<lparr>md_msgs := 5, md_per := 5\<rparr>\<rparr>) s, True)"
    by (simp add: setfl_def)
  show "length long_limit = 190" by (simp add: long_limit_def)
  show "check_string (Some long_limit) = long_limit"
    by (rule check_string_no_space) (auto simp: long_limit_def IsSpace_iff)
  have "strchr long_limit (CHR '':'') = Some '':5''" "strrchr long_limit (CHR '':'') = Some '':5''"
    using strchr_append [of "CHR '':''" "replicate 187 (CHR ''0'') @ ''5''" "''5''"]
      strrchr_append [of "CHR '':''" "''5''" "replicate 187 (CHR ''0'') @ ''5''"]
    by (simp_all add: long_limit_def)
  then show "isvalidopt long_limit" by (auto simp: isvalidopt_def long_limit_def IsDigit_iff)
qed

text \<open>
  A channel operator can write past \<open>parabuf\<close>. The parameter of \<open>-k *\<close> is counted as
  one character, but the channel's whole key is copied: after a \<open>+f\<close> with a limit of 190 characters the text
  in the array of 200 has 215.
\<close>

theorem mode_param_overflow:
  assumes "isok x" "length (md_key (mode (chans s (x_ch x)))) = KEYLEN"
  shows "length (parabuf (mode_run x [''+f-k'', long_limit, ''*''] s)) = MODEBUFLEN + 15"
proof -
  define s1 where "s1 = upd_chan (x_ch x) (\<lambda>c. c\<lparr>mode := (mode c)\<lparr>md_mode := md_mode (mode c) OR MODE_FLOODLIMIT\<rparr>\<rparr>)
    (upd_chan (x_ch x) (\<lambda>c. c\<lparr>mode := (mode c)\<lparr>md_msgs := 5, md_per := 5\<rparr>\<rparr>) s)"
  define st0 where "st0 = smode_start [long_limit, ''*''] s"
  define st1 where "st1 = st0\<lparr>floodset := True, sm_args := [''*''], sm_s := s1, modebuf := ''+f'',
    parabuf := long_limit @ '' '', sm_len := 191\<rparr>"
  have f: "mode_f x st0 = st1"
    using assms(1)
    by (simp add: mode_f_def st0_def st1_def smode_start_def querying_def adding_def mode_defs Let_def fits_def
        MODEBUFLEN_def long_limit_valid put_def put_param_def set_mode_bits_def sm_upd_def s1_def)
  define st2 where "st2 = st1\<lparr>whatt := MODE_DEL, plus_sign := CHR ''-''\<rparr>"
  have k: "length (parabuf (mode_k x st2)) = 215" "sm_args (mode_k x st2) = []"
    using assms
    by (simp_all add: mode_k_def st2_def st1_def st0_def smode_start_def querying_def adding_def removing_def mode_defs Let_def fits_def
        MODEBUFLEN_def KEYLEN_def long_limit_valid put_def put_param_def set_mode_bits_def sm_upd_def s1_def key_arg_def
        check_string_no_space IsSpace_iff chan_of_def)
  have "mode_run x [''+f-k'', long_limit, ''*''] s = mode_k x st2"
    using k(2) f by (simp add: mode_run_def smode_start_def mode_letter_def st0_def st2_def)
  with k show ?thesis by (simp add: MODEBUFLEN_def)
qed

theorem mode_param_overflow_witness:
  "let s = upd_chan 5 (\<lambda>c. c\<lparr>mode := (mode c)\<lparr>md_key := replicate 23 (CHR ''k'')\<rparr>\<rparr>)
        (add_user_to_channel 5 2 CHFL_CHANOP (boot (\<lambda>_. plain_user ''bob'' ''u'' ''h'') plain_config 0));
      x = mode_context (\<lambda>_. None) (\<lambda>_. None) False 0 2 2 5 s
   in isok x \<and> length (parabuf (mode_run x [''+f-k'', long_limit, ''*''] s)) = MODEBUFLEN + 15"
proof -
  let ?s = "upd_chan 5 (\<lambda>c. c\<lparr>mode := (mode c)\<lparr>md_key := replicate 23 (CHR ''k'')\<rparr>\<rparr>)
        (add_user_to_channel 5 2 CHFL_CHANOP (boot (\<lambda>_. plain_user ''bob'' ''u'' ''h'') plain_config 0))"
  let ?x = "mode_context (\<lambda>_. None) (\<lambda>_. None) False 0 2 2 5 ?s"
  have "isok ?x" "x_ch ?x = 5"
    by (simp_all add: mode_context_def user_channel_mode_def add_user_to_channel_def link_member_def boot_def plain_user_def
        new_chan_def has_def chfl_defs Let_def find_user_link_def IsStealth_def)
  moreover have "length (md_key (mode (chans ?s 5))) = KEYLEN" by (simp add: KEYLEN_def)
  ultimately show ?thesis using mode_param_overflow [of ?x ?s] by (simp add: Let_def)
qed

end
