(* ===== verification/ChanAccess.thy ===== *)
theory ChanAccess
  imports ChanFlags
begin

text \<open>
  Who may speak in a channel and who may enter it, from \<open>src/channel.c\<close>: the spam word filter
  (\<open>spam_words_init\<close>, \<open>is_spam\<close>), the message rate limit (\<open>check_for_chan_flood\<close>), \<open>can_send\<close> and
  \<open>can_join\<close>.
\<close>

subsection \<open>The spam filter\<close>

text \<open>\<open>strtok(s, ",")\<close> until the end: the non-empty pieces between commas.\<close>

fun strtok_comma :: "cstr \<Rightarrow> cstr \<Rightarrow> cstr list" where
  "strtok_comma acc [] = (if acc = [] then [] else [acc])"
| "strtok_comma acc (c # s) =
     (if c = CHR '','' then (if acc = [] then strtok_comma [] s else acc # strtok_comma [] s)
      else strtok_comma (acc @ [c]) s)"

text \<open>\<open>spam_words\<close> has 32 slots, the last one used holds the null pointer.\<close>

definition spam_words_init :: "cstr \<Rightarrow> ub + cstr list" where
  "spam_words_init spwords =
     (let ws = map (map ToUpper) (strtok_comma [] spwords)
      in if length ws < 32 then Inr ws else Inl OutOfBounds)"

text \<open>The text is shorter than the 512 bytes of \<open>auxbuf\<close>: it comes from one line of input.\<close>

definition is_spam :: "cstr list \<Rightarrow> cstr \<Rightarrow> int" where
  "is_spam sw txt = (if \<exists>w\<in>set sw. strstr (map ToUpper txt) w then -1 else 0)"

subsection \<open>The rate limit\<close>

definition check_for_chan_flood :: "nat \<Rightarrow> nat \<Rightarrow> member \<Rightarrow> ircd \<Rightarrow> ircd \<times> bool" where
  "check_for_chan_flood cl ch lp s =
     (let md = mode (chans s ch); now = CurrentTime s in
      if md_msgs md \<le> 1 \<or> md_per md < 1 then (s, False)
      else if md_per md \<le> now - lastmsg lp then
        (upd_user_link ch cl (\<lambda>m. m\<lparr>lastmsg := now, nmsg := 1\<rparr>) s, False)
      else
        let s1 = upd_user_link ch cl (\<lambda>m. m\<lparr>nmsg := nmsg m + 1, lastmsg := now\<rparr>) s in
        if md_msgs md \<le> nmsg lp + 1 then
          (upd_client cl (\<lambda>c. c\<lparr>c_since := now + 10\<rparr>)
             (send (ToOne cl) ('':'' @ me_name (cfg s) @ '' 404 '' @ c_name (clients s cl) @ '' '' @
                chname (chans s ch) @ '' :Cannot send to channel ('' @
                FloodLimit_Msg (cfg s) (md_msgs md) (md_per md) @ '')'') s1), True)
        else (s1, False))"

subsection \<open>Speaking\<close>

text \<open>A word that starts at the first \<open>#\<close> of the message names another channel than this one.\<close>

definition names_other_channel :: "cstr \<Rightarrow> cstr \<Rightarrow> bool" where
  "names_other_channel chn msg =
     (case strchr msg (CHR ''#'') of
        None \<Rightarrow> False
      | Some cp \<Rightarrow>
          (let n = (case strchr cp (CHR '' '') of None \<Rightarrow> length cp | Some ep \<Rightarrow> length cp - length ep)
           in n \<noteq> length chn \<or> \<not> strncasecmp_eq cp chn n))"

definition ctcp_refused :: "client \<Rightarrow> cstr \<Rightarrow> bool" where
  "ctcp_refused cptr msg \<longleftrightarrow> hd0 msg = CHR 0x01 \<and> \<not> IsOper cptr \<and>
     \<not> strncmp_eq (tl msg) ''ACTION '' 7 \<and> \<not> strncmp_eq (tl msg) ''SOUND '' 6"

text \<open>The repeated message check of mode \<open>+d\<close>.\<close>

definition check_repeat :: "nat \<Rightarrow> nat \<Rightarrow> cstr \<Rightarrow> member \<Rightarrow> ircd \<Rightarrow> ircd \<times> int" where
  "check_repeat cl ch msg lp s =
     (if (\<exists>l. lmsg lp = Some l \<and> lsize lp = int (length msg) \<and>
             CurrentTime s - lmsg_time lp < ChanFloodTime (cfg s) \<and> l = msg)
      then (s, uint MODE_NOFLOOD)
      else (upd_user_link ch cl (\<lambda>m. m\<lparr>lmsg := Some msg, lsize := int (length msg),
              lmsg_time := CurrentTime s\<rparr>) s, 0))"

definition can_send :: "nat \<Rightarrow> nat \<Rightarrow> cstr \<Rightarrow> ircd \<Rightarrow> ircd \<times> int" where
  "can_send cl ch msg s =
     (let cptr = clients s cl; m = md_mode (mode (chans s ch));
          lp = find_user_link (members (chans s ch)) cl in
      if MyClient cptr \<and> IsStealth cptr then (s, uint MODE_NOPRIVMSGS)
      else if IsService cptr \<or> IsTechAdmin cptr \<or> OperCanAlwaysSend (cfg s) \<and> IsOper cptr then (s, 0)
      else if has m MODE_NOPRIVMSGS \<and> lp = None then (s, uint MODE_NOPRIVMSGS)
      else if lp \<noteq> None \<and> has (mb_flags (the lp)) (CHFL_CHANOP OR CHFL_VOICE) then (s, 0)
      else if has m MODE_MODERATED then (s, uint MODE_MODERATED)
      else if is_banned cl ch s = CHFL_BAN then (s, uint MODE_BAN)
      else if \<not> MyClient cptr then (s, 0)
      else
        let (s1, flooded) = (if has m MODE_FLOODLIMIT \<and> lp \<noteq> None then check_for_chan_flood cl ch (the lp) s
                             else (s, False)) in
        if flooded then (s1, uint MODE_FLOODLIMIT)
        else if \<not> AllowChanCTCP (cfg s) \<and> ctcp_refused cptr msg then (s1, -1)
        else if has m MODE_NOSPAM \<and> is_spam (spam_words (cfg s)) msg \<noteq> 0 then (s1, uint MODE_NOSPAM)
        else if has m MODE_NOSPAM \<and> names_other_channel (chname (chans s ch)) msg then (s1, uint MODE_NOSPAM)
        else if has m MODE_NOFLOOD \<and> lp \<noteq> None then
          check_repeat cl ch msg (the (find_user_link (members (chans s1 ch)) cl)) s1
        else (s1, 0))"

subsection \<open>Entering\<close>

definition ERR_CHANNELISFULL :: int where "ERR_CHANNELISFULL = 471"
definition ERR_INVITEONLYCHAN :: int where "ERR_INVITEONLYCHAN = 473"
definition ERR_BANNEDFROMCHAN :: int where "ERR_BANNEDFROMCHAN = 474"
definition ERR_BADCHANNELKEY :: int where "ERR_BADCHANNELKEY = 475"
definition ERR_NEEDREGGEDNICK :: int where "ERR_NEEDREGGEDNICK = 477"
definition ERR_SSLREQUIRED :: int where "ERR_SSLREQUIRED = 515"

lemmas join_err_defs = ERR_CHANNELISFULL_def ERR_INVITEONLYCHAN_def ERR_BANNEDFROMCHAN_def
  ERR_BADCHANNELKEY_def ERR_NEEDREGGEDNICK_def ERR_SSLREQUIRED_def

text \<open>The notice to the operators when \<open>MODE_KNOCK\<close> is set, then the error code.\<close>

definition refuse :: "nat \<Rightarrow> nat \<Rightarrow> cstr \<Rightarrow> int \<Rightarrow> ircd \<Rightarrow> ircd \<times> int" where
  "refuse cl ch letter err s =
     (if has (md_mode (mode (chans s ch))) MODE_KNOCK then
        send (ToChanOps ch) ('':'' @ me_name (cfg s) @ '' NOTICE @'' @ chname (chans s ch) @ '' :'' @
          c_name (clients s cl) @ '' failed to join (+'' @ letter @ '') channel '' @ chname (chans s ch)) s
      else s, err)"

text \<open>The two notices of an operator who enters with the bypass key.\<close>

definition bypass_notices :: "nat \<Rightarrow> nat \<Rightarrow> ircd \<Rightarrow> ircd" where
  "bypass_notices cl ch s =
     (let c = clients s cl;
          txt = c_name c @ '' ('' @ c_username c @ ''@'' @ c_realhost c @ '') joining '' @
            chname (chans s ch) @ '' with Oper bypass''
      in send ToServers ('':'' @ me_name (cfg s) @ '' GLOBOPS :Oper '' @ txt)
           (send ToOps (''Oper '' @ txt) s))"

text \<open>
  \<open>*flags |= ban_or_exception\<close> at the end adds the 0 that \<open>is_banned\<close> returned, so the flags
  argument stays as it was and is left out.
\<close>

definition can_join :: "nat \<Rightarrow> nat \<Rightarrow> cstr option \<Rightarrow> ircd \<Rightarrow> ircd \<times> int" where
  "can_join cl ch key s =
     (let sptr = clients s cl; md = mode (chans s ch); m = md_mode md in
      if IsService sptr then (s, 0)
      else if OperCanAlwaysJoin (cfg s) \<and> IsOper sptr \<and> \<not> has m MODE_ADMINONLY then (s, 0)
      else if IsOper sptr \<and> key \<noteq> None \<and> OperByPass (cfg s) \<noteq> None \<and>
              irccmp (the (OperByPass (cfg s))) (the key) = 0 then (bypass_notices cl ch s, 0)
      else if md_key md = [] \<and> ch \<in> set (u_invited sptr) then (s, 0)
      else if md_key md = [] \<and> has m MODE_INVITEONLY then refuse cl ch ''i'' ERR_INVITEONLYCHAN s
      else if has m MODE_ADMINONLY \<and> \<not> (IsAdmin sptr \<or> IsTechAdmin sptr \<or> IsNetAdmin sptr)
        then refuse cl ch ''A'' ERR_INVITEONLYCHAN s
      else if has m MODE_OPERONLY \<and> \<not> IsOper sptr then refuse cl ch ''O'' ERR_INVITEONLYCHAN s
      else if \<not> IsSsl sptr \<and> has m MODE_SSLONLY then refuse cl ch ''C'' ERR_SSLREQUIRED s
      else if \<not> IsIdentified sptr \<and> has m MODE_REGONLY then refuse cl ch ''R'' ERR_NEEDREGGEDNICK s
      else if has m MODE_NOBOTS \<and> IsBot sptr then refuse cl ch ''B'' ERR_INVITEONLYCHAN s
      else if md_key md \<noteq> [] \<and> (BadPtr key \<or> irccmp (md_key md) (the key) \<noteq> 0)
        then refuse cl ch ''k'' ERR_BADCHANNELKEY s
      else if md_limit md \<noteq> 0 \<and> md_limit md \<le> users (chans s ch) then refuse cl ch ''l'' ERR_CHANNELISFULL s
      else if is_banned cl ch s = CHFL_BAN then refuse cl ch ''b'' ERR_BANNEDFROMCHAN s
      else (s, 0))"

subsection \<open>Lemmas\<close>

lemma check_for_chan_flood_inv: "chan_inv s \<Longrightarrow> chan_inv (fst (check_for_chan_flood cl ch lp s))"
  by (auto simp: check_for_chan_flood_def Let_def
      intro!: upd_user_link_inv chan_inv_upd_client chan_inv_send)

lemma check_repeat_inv: "chan_inv s \<Longrightarrow> chan_inv (fst (check_repeat cl ch msg lp s))"
  by (simp add: check_repeat_def upd_user_link_inv)

lemmas fst_if = if_distrib [of fst]
lemmas inv_if = if_distrib [of chan_inv]

lemma can_send_inv: "chan_inv s \<Longrightarrow> chan_inv (fst (can_send cl ch msg s))"
  using check_for_chan_flood_inv [of s cl ch]
  by (simp add: can_send_def Let_def case_prod_beta fst_if inv_if check_repeat_inv cong: if_weak_cong)

lemma refuse_sel [simp]:
  "snd (refuse cl ch l e s) = e" "clients (fst (refuse cl ch l e s)) = clients s"
  "chans (fst (refuse cl ch l e s)) = chans s" "channel (fst (refuse cl ch l e s)) = channel s"
  by (simp_all add: refuse_def)

lemma refuse_inv: "chan_inv s \<Longrightarrow> chan_inv (fst (refuse cl ch l e s))"
  by (simp add: refuse_def chan_inv_send)

lemma bypass_notices_inv: "chan_inv s \<Longrightarrow> chan_inv (bypass_notices cl ch s)"
  by (simp add: bypass_notices_def Let_def chan_inv_send)

lemma bypass_notices_sel [simp]:
  "clients (bypass_notices cl ch s) = clients s" "chans (bypass_notices cl ch s) = chans s"
  "channel (bypass_notices cl ch s) = channel s"
  by (simp_all add: bypass_notices_def Let_def)

lemma can_join_sel [simp]:
  "clients (fst (can_join cl ch key s)) = clients s" "chans (fst (can_join cl ch key s)) = chans s"
  "channel (fst (can_join cl ch key s)) = channel s"
  by (simp_all add: can_join_def Let_def fst_if if_distrib [of clients] if_distrib [of chans]
      if_distrib [of channel] cong: if_weak_cong)

lemma can_join_inv: "chan_inv s \<Longrightarrow> chan_inv (fst (can_join cl ch key s))"
  by (simp add: can_join_def Let_def fst_if inv_if refuse_inv bypass_notices_inv cong: if_weak_cong)

text \<open>A run of messages of one member at the given times, and which of them the limit blocks.\<close>

fun flood_run :: "nat \<Rightarrow> nat \<Rightarrow> time_t list \<Rightarrow> ircd \<Rightarrow> bool list" where
  "flood_run cl ch [] s = []"
| "flood_run cl ch (t # ts) s =
     (let s1 = s\<lparr>CurrentTime := t\<rparr>;
          (s2, b) = check_for_chan_flood cl ch (the (find_user_link (members (chans s1 ch)) cl)) s1
      in b # flood_run cl ch ts s2)"

fun gaps_below :: "int \<Rightarrow> time_t \<Rightarrow> time_t list \<Rightarrow> bool" where
  "gaps_below per t [] = True"
| "gaps_below per t (u # us) = (u - t < per \<and> gaps_below per u us)"

lemma find_after_upd:
  assumes "find_user_link (members (chans s ch)) cl = Some lp" "\<And>m. mb_cptr (f m) = mb_cptr m"
  shows "find_user_link (members (chans (upd_user_link ch cl f s) ch)) cl = Some (f lp)"
  using assms by (simp add: upd_user_link_def find_upd_link)

lemma mode_upd_user_link [simp]: "mode (chans (upd_user_link ch cl f s) x) = mode (chans s x)"
  by (simp add: upd_user_link_def)

lemma flood_run_continues:
  assumes "1 < md_msgs (mode (chans s ch))" "1 \<le> md_per (mode (chans s ch))"
    "find_user_link (members (chans s ch)) cl = Some lp"
    "gaps_below (md_per (mode (chans s ch))) (lastmsg lp) ts"
  shows "flood_run cl ch ts s =
    map (\<lambda>i. md_msgs (mode (chans s ch)) \<le> nmsg lp + int i + 1) [0..<length ts]"
  using assms
proof (induction ts arbitrary: s lp)
  case (Cons t ts)
  let ?s1 = "s\<lparr>CurrentTime := t\<rparr>" and ?f = "\<lambda>m. m\<lparr>nmsg := nmsg m + 1, lastmsg := t\<rparr>"
  let ?s2 = "fst (check_for_chan_flood cl ch lp ?s1)"
  have gap: "t - lastmsg lp < md_per (mode (chans s ch))" using Cons.prems by simp
  have b: "snd (check_for_chan_flood cl ch lp ?s1) = (md_msgs (mode (chans s ch)) \<le> nmsg lp + 1)"
    using Cons.prems gap by (simp add: check_for_chan_flood_def Let_def)
  have ch2: "chans ?s2 = chans (upd_user_link ch cl ?f ?s1)"
    using Cons.prems gap by (simp add: check_for_chan_flood_def Let_def)
  have link: "find_user_link (members (chans ?s2 ch)) cl = Some (?f lp)"
    unfolding ch2 by (rule find_after_upd) (use Cons.prems in simp_all)
  have md: "mode (chans ?s2 ch) = mode (chans s ch)" by (simp add: ch2)
  have "flood_run cl ch ts ?s2 =
      map (\<lambda>i. md_msgs (mode (chans ?s2 ch)) \<le> nmsg (?f lp) + int i + 1) [0..<length ts]"
    by (rule Cons.IH [OF _ _ link]) (use Cons.prems in \<open>simp_all add: md\<close>)
  moreover have "[0..<length (t # ts)] = 0 # map Suc [0..<length ts]"
    by (simp add: map_Suc_upt upt_conv_Cons del: upt_Suc)
  ultimately show ?case using Cons.prems(3) b
    by (simp add: md case_prod_beta Let_def o_def add.assoc add.commute)
qed simp

lemma strstr_upper: "strstr (map ToUpper txt) w \<longleftrightarrow> (\<exists>p q. map ToUpper txt = p @ w @ q)"
  by (rule strstr_iff)

lemma strtok_comma_spec:
  "CHR '','' \<notin> set acc \<Longrightarrow> (\<forall>w\<in>set (strtok_comma acc s). w \<noteq> [] \<and> CHR '','' \<notin> set w) \<and>
     concat (strtok_comma acc s) = acc @ filter (\<lambda>c. c \<noteq> CHR '','') s"
proof (induction s arbitrary: acc)
  case (Cons c s)
  show ?case
  proof (cases "c = CHR '',''")
    case True
    with Cons.IH [of "[]"] Cons.prems show ?thesis by simp
  next
    case False
    with Cons.prems have "CHR '','' \<notin> set (acc @ [c])" by simp
    from Cons.IH [OF this] False show ?thesis by simp
  qed
qed simp

subsection \<open>Properties\<close>

lemma is_banned_cases: "is_banned cl ch s = 0 \<or> is_banned cl ch s = CHFL_BAN"
  by (simp add: is_banned_def Let_def)

lemma mode_codes [simp]:
  "uint MODE_NOPRIVMSGS \<noteq> 0" "uint MODE_MODERATED \<noteq> 0" "uint MODE_BAN \<noteq> 0" "uint MODE_FLOODLIMIT \<noteq> 0"
  "uint MODE_NOSPAM \<noteq> 0" "uint MODE_NOFLOOD \<noteq> 0"
  by (simp_all add: mode_defs)

lemma join_codes [simp]:
  "ERR_CHANNELISFULL \<noteq> 0" "ERR_INVITEONLYCHAN \<noteq> 0" "ERR_BANNEDFROMCHAN \<noteq> 0" "ERR_BADCHANNELKEY \<noteq> 0"
  "ERR_NEEDREGGEDNICK \<noteq> 0" "ERR_SSLREQUIRED \<noteq> 0"
  by (simp_all add: join_err_defs)

text \<open>The restrictions of a channel that apply to everybody without a privilege.\<close>

definition admits :: "nat \<Rightarrow> nat \<Rightarrow> cstr option \<Rightarrow> ircd \<Rightarrow> bool" where
  "admits cl ch key s \<longleftrightarrow>
     (let u = clients s cl; md = mode (chans s ch); on = has (md_mode md) in
      (if md_key md = [] then \<not> on MODE_INVITEONLY
       else \<exists>k. key = Some k \<and> k \<noteq> [] \<and> irccmp (md_key md) k = 0) \<and>
      (on MODE_ADMINONLY \<longrightarrow> IsAdmin u \<or> IsTechAdmin u \<or> IsNetAdmin u) \<and>
      (on MODE_OPERONLY \<longrightarrow> IsOper u) \<and> (on MODE_SSLONLY \<longrightarrow> IsSsl u) \<and>
      (on MODE_REGONLY \<longrightarrow> IsIdentified u) \<and> (on MODE_NOBOTS \<longrightarrow> \<not> IsBot u) \<and>
      (md_limit md \<noteq> 0 \<longrightarrow> users (chans s ch) < md_limit md) \<and> is_banned cl ch s \<noteq> CHFL_BAN)"

lemma key_ok: "BadPtr key \<or> irccmp mk (the key) \<noteq> 0 \<longleftrightarrow> \<not> (\<exists>k. key = Some k \<and> k \<noteq> [] \<and> irccmp mk k = 0)"
  by (cases key) (auto simp: BadPtr_def)

lemma if_0: "(if c then a else b) = (0::int) \<longleftrightarrow> (if c then a = 0 else b = 0)"
  by simp

lemma if_True_False: "(if c then True else P) \<longleftrightarrow> c \<or> P" "(if c then False else P) \<longleftrightarrow> \<not> c \<and> P"
  by simp_all

lemma can_join_zero:
  "snd (can_join cl ch key s) = 0 \<longleftrightarrow>
      IsService (clients s cl) \<or>
      OperCanAlwaysJoin (cfg s) \<and> IsOper (clients s cl) \<and> \<not> has (md_mode (mode (chans s ch))) MODE_ADMINONLY \<or>
      IsOper (clients s cl) \<and> key \<noteq> None \<and> OperByPass (cfg s) \<noteq> None \<and>
        irccmp (the (OperByPass (cfg s))) (the key) = 0 \<or>
      md_key (mode (chans s ch)) = [] \<and> ch \<in> set (u_invited (clients s cl)) \<or>
      admits cl ch key s"
  unfolding can_join_def admits_def Let_def key_ok not_le [symmetric]
  by (simp only: if_distrib [of snd] refuse_sel snd_conv if_0 join_codes if_True_False simp_thms)
    (simp only: de_Morgan_conj not_not if_bool_eq_disj imp_conv_disj disj_assoc conj_assoc, blast)

subsection \<open>Properties\<close>

text \<open>
  C2. Who gets into a channel: services; operators where the configuration lets
  them, unless the channel is \<open>+A\<close>; operators with the bypass key; invited users when no key is
  set; and everybody else exactly when no restriction in force applies to them: the key, or
  invite-only when there is no key (with a key, \<open>+i\<close> is not enforced), \<open>+A\<close>, \<open>+O\<close>, \<open>+C\<close>, \<open>+R\<close>,
  \<open>+B\<close>, the user limit and the bans. The check itself changes no client and no channel.
\<close>

theorem can_join_policy:
  "(snd (can_join cl ch key s) = 0 \<longleftrightarrow>
      IsService (clients s cl) \<or>
      OperCanAlwaysJoin (cfg s) \<and> IsOper (clients s cl) \<and> \<not> has (md_mode (mode (chans s ch))) MODE_ADMINONLY \<or>
      IsOper (clients s cl) \<and> (\<exists>k b. key = Some k \<and> OperByPass (cfg s) = Some b \<and> irccmp b k = 0) \<or>
      md_key (mode (chans s ch)) = [] \<and> ch \<in> set (u_invited (clients s cl)) \<or>
      admits cl ch key s) \<and>
   clients (fst (can_join cl ch key s)) = clients s \<and> chans (fst (can_join cl ch key s)) = chans s"
proof -
  have "key \<noteq> None \<and> OperByPass (cfg s) \<noteq> None \<and> irccmp (the (OperByPass (cfg s))) (the key) = 0 \<longleftrightarrow>
      (\<exists>k b. key = Some k \<and> OperByPass (cfg s) = Some b \<and> irccmp b k = 0)"
    by (cases key; cases "OperByPass (cfg s)") auto
  then show ?thesis by (simp only: can_join_zero can_join_sel simp_thms)
qed

definition speak_state :: ircd where
  "speak_state = add_user_to_channel 5 3 0 (upd_chan 5 (\<lambda>c. c\<lparr>chname := ''#c'',
     mode := (mode c)\<lparr>md_mode := MODE_FLOODLIMIT, md_msgs := 3, md_per := 10\<rparr>\<rparr>)
       (boot (\<lambda>p. plain_user ''bob'' ''u'' ''h'') plain_config 0))"

lemma speak_state_sel:
  "mode (chans speak_state 5) = \<lparr>md_mode = MODE_FLOODLIMIT, md_limit = 0, md_key = [], md_msgs = 3, md_per = 10\<rparr>"
  "banlist (chans speak_state 5) = []" "cfg speak_state = plain_config"
  "find_user_link (members (chans speak_state 5)) 3 =
     Some \<lparr>mb_cptr = 3, mb_flags = 0, nmsg = 0, lastmsg = 0, lmsg = None, lsize = 0, lmsg_time = 0\<rparr>"
  "c_umodes (clients speak_state 3) = 0" "c_flags (clients speak_state 3) = 0"
  "local_flag (clients speak_state 3)" "c_status (clients speak_state 3) = STAT_CLIENT"
  "find_user_link (members (chans speak_state 5)) 4 = None"
  by (simp_all add: speak_state_def add_user_to_channel_def link_member_def boot_def plain_user_def
      new_chan_def find_user_link_def)

theorem can_join_policy_witness:
  "snd (can_join 4 5 None speak_state) = 0"
proof -
  have "admits 4 5 None speak_state"
    by (simp add: admits_def Let_def speak_state_sel has_def mode_defs is_banned_def chfl_defs)
  with can_join_policy [of 4 5 None speak_state] show ?thesis by blast
qed

definition may_speak :: "nat \<Rightarrow> nat \<Rightarrow> ircd \<Rightarrow> bool" where
  "may_speak cl ch s \<longleftrightarrow>
     (let u = clients s cl; m = md_mode (mode (chans s ch)); lp = find_user_link (members (chans s ch)) cl in
      IsService u \<or> IsTechAdmin u \<or> OperCanAlwaysSend (cfg s) \<and> IsOper u \<or>
      (has m MODE_NOPRIVMSGS \<longrightarrow> lp \<noteq> None) \<and>
      ((\<exists>l. lp = Some l \<and> has (mb_flags l) (CHFL_CHANOP OR CHFL_VOICE)) \<or>
       \<not> has m MODE_MODERATED \<and> is_banned cl ch s \<noteq> CHFL_BAN))"

lemma can_send_cases:
  "snd (can_send cl ch msg s) = 0 \<Longrightarrow>
     \<not> (MyClient (clients s cl) \<and> IsStealth (clients s cl)) \<and> may_speak cl ch s"
  unfolding can_send_def may_speak_def Let_def
  by (cases "find_user_link (members (chans s ch)) cl") (auto split: if_splits)

lemma can_send_remote:
  "\<not> MyClient (clients s cl) \<Longrightarrow> snd (can_send cl ch msg s) = 0 \<longleftrightarrow> may_speak cl ch s"
  unfolding can_send_def may_speak_def Let_def
  by (cases "find_user_link (members (chans s ch)) cl") simp_all

text \<open>
  A message is let through only for services, technical administrators and
  (if so configured) operators, or when the sender, a member if the channel is \<open>+n\<close>, is an
  operator of the channel or voiced there, or else the channel is not moderated and the sender
  not banned; a local stealth user never gets through. For senders on other servers this is
  exactly the condition. Whatever the answer, the channel store stays consistent.
\<close>

theorem can_send_policy:
  "(snd (can_send cl ch msg s) = 0 \<longrightarrow>
      \<not> (MyClient (clients s cl) \<and> IsStealth (clients s cl)) \<and> may_speak cl ch s) \<and>
   (\<not> MyClient (clients s cl) \<longrightarrow> (snd (can_send cl ch msg s) = 0 \<longleftrightarrow> may_speak cl ch s)) \<and>
   (chan_inv s \<longrightarrow> chan_inv (fst (can_send cl ch msg s)))"
  using can_send_cases can_send_remote can_send_inv by blast

theorem can_send_policy_witness:
  "may_speak 3 5 speak_state \<and> snd (can_send 3 5 ''hello'' speak_state) = 0"
proof -
  have "snd (can_send 3 5 ''hello'' speak_state) = 0"
    by (simp add: can_send_def Let_def speak_state_sel has_def mode_defs umode_defs chfl_defs MyClient_def
        IsStealth_def IsService_def IsTechAdmin_def IsClient_def plain_config_def is_banned_def
        check_for_chan_flood_def ctcp_refused_def)
  with can_send_policy [of 3 5 "''hello''" speak_state] show ?thesis by blast
qed

text \<open>
  With \<open>+f msgs:per\<close>, in a run of messages of one member that starts at
  least \<open>per\<close> seconds after his last one and has no gap of \<open>per\<close> seconds, exactly the first
  \<open>msgs - 1\<close> messages pass and all later ones are blocked, blocked ones counting too.
\<close>

theorem flood_limit_window:
  assumes "1 < md_msgs (mode (chans s ch))" "1 \<le> md_per (mode (chans s ch))"
    and "find_user_link (members (chans s ch)) cl = Some lp"
    and "md_per (mode (chans s ch)) \<le> t - lastmsg lp"
    and "gaps_below (md_per (mode (chans s ch))) t ts"
  shows "flood_run cl ch (t # ts) s = map (\<lambda>i. md_msgs (mode (chans s ch)) \<le> int i + 1) [0..<length (t # ts)]"
proof -
  let ?s1 = "s\<lparr>CurrentTime := t\<rparr>" and ?f = "\<lambda>m. m\<lparr>lastmsg := t, nmsg := 1\<rparr>"
  let ?s2 = "upd_user_link ch cl ?f ?s1"
  have c: "check_for_chan_flood cl ch lp ?s1 = (?s2, False)"
    using assms by (simp add: check_for_chan_flood_def Let_def)
  have link: "find_user_link (members (chans ?s2 ch)) cl = Some (?f lp)"
    by (rule find_after_upd) (use assms in simp_all)
  have "flood_run cl ch ts ?s2 =
      map (\<lambda>i. md_msgs (mode (chans ?s2 ch)) \<le> nmsg (?f lp) + int i + 1) [0..<length ts]"
    by (rule flood_run_continues [OF _ _ link]) (use assms in simp_all)
  moreover have "[0..<length (t # ts)] = 0 # map Suc [0..<length ts]"
    by (simp add: map_Suc_upt upt_conv_Cons del: upt_Suc)
  ultimately show ?thesis using assms c by (simp add: case_prod_beta Let_def o_def add.commute add.left_commute)
qed

theorem flood_limit_window_witness:
  "flood_run 3 5 [100, 101, 105, 109] speak_state = [False, False, True, True]"
  using flood_limit_window [of speak_state 5 3 _ 100 "[101, 105, 109]"]
  by (simp add: speak_state_sel upt_conv_Cons)

text \<open>
  The configured list is cut at its commas into non-empty words in upper case;
  a message is spam exactly when one of them occurs in it, in any case. A list of 32 words or
  more overruns the table.
\<close>

theorem spam_filter:
  "(case spam_words_init spwords of
      Inr sw \<Rightarrow> (\<forall>w\<in>set sw. w \<noteq> []) \<and> concat sw = map ToUpper (filter (\<lambda>c. c \<noteq> CHR '','') spwords) \<and>
         (is_spam sw txt = -1 \<longleftrightarrow> (\<exists>w\<in>set sw. \<exists>p q. map ToUpper txt = p @ w @ q)) \<and>
         (is_spam sw txt = 0 \<longleftrightarrow> \<not> (\<exists>w\<in>set sw. \<exists>p q. map ToUpper txt = p @ w @ q))
    | Inl e \<Rightarrow> e = OutOfBounds \<and> 32 \<le> length (strtok_comma [] spwords))"
proof -
  have "concat (map (map ToUpper) ws) = map ToUpper (concat ws)" for ws
    by (simp add: map_concat)
  then show ?thesis
    using strtok_comma_spec [of "[]" spwords]
    by (auto simp: spam_words_init_def Let_def is_spam_def strstr_upper)
qed

theorem spam_filter_witness:
  "\<exists>sw. spam_words_init ''www.,Free'' = Inr sw \<and> is_spam sw ''get FREE x'' = -1 \<and> concat sw = ''WWW.FREE''"
proof -
  have "spam_words_init ''www.,Free'' = Inr [''WWW.'', ''FREE'']" by code_simp
  moreover have "is_spam [''WWW.'', ''FREE''] ''get FREE x'' = -1" by code_simp
  moreover have "map ToUpper (filter (\<lambda>c. c \<noteq> CHR '','') ''www.,Free'') = ''WWW.FREE''" by code_simp
  ultimately show ?thesis using spam_filter [of "''www.,Free''" "''get FREE x''"] by simp
qed

end
