(* ===== verification/Private.thy ===== *)
theory Private
  imports ChanAccess
begin

text \<open>
  What limits private messages: the target limit (\<open>check_target_limit\<close> of \<open>src/m_message.c\<close>) and the
  silence lists of \<open>src/m_silence.c\<close>.
\<close>

subsection \<open>The target limit\<close>

definition MAXTARGETS :: nat where "MAXTARGETS = 10"
definition TARGET_DELAY :: int where "TARGET_DELAY = 128"
definition UMODE_ZOMBIE :: "32 word" where "UMODE_ZOMBIE = 0x4"

text \<open>One byte of the target's address stands for it.\<close>

definition target_hash :: "nat \<Rightarrow> 8 word" where
  "target_hash addr = (let tmp = drop_bit 8 (word_of_nat addr AND 0xffff00) :: 32 word in ucast (drop_bit 12 (tmp * tmp)))"

text \<open>
  The hash is moved to the front of \<open>targets\<close>; a new one pushes the last out. The result is \<open>True\<close>
  when too many targets are addressed.
\<close>

definition to_front :: "8 word \<Rightarrow> 8 word list \<Rightarrow> 8 word list" where
  "to_front h ts = h # takeWhile (\<lambda>x. x \<noteq> h) ts @ tl (dropWhile (\<lambda>x. x \<noteq> h) ts)"

definition push_target :: "8 word \<Rightarrow> 8 word list \<Rightarrow> 8 word list" where
  "push_target h ts = h # butlast ts"

definition too_fast :: "nat \<Rightarrow> cstr \<Rightarrow> cstr \<Rightarrow> ircd \<Rightarrow> ircd" where
  "too_fast cl name fmsg s =
     (let now = CurrentTime s; nt = nexttarget (clients s cl) in
      if nt - now < TARGET_DELAY + 8 then
        let s1 = upd_client cl (\<lambda>c. c\<lparr>nexttarget := nexttarget c + 2\<rparr>) s;
            s2 = (if CheckSpamOnTarget (cfg s1) \<and> (strchr fmsg (CHR ''#'') \<noteq> None \<or> is_spam (spam_words (cfg s1)) fmsg \<noteq> 0)
                  then upd_client cl (\<lambda>c. c\<lparr>c_umodes := c_umodes c OR UMODE_ZOMBIE\<rparr>) s1
                  else send (ToOne cl) ('':'' @ me_name (cfg s1) @ '' 439 '' @ c_name (clients s1 cl) @ '' '' @ name @
                         '' :Message target change too fast. Please wait '' @
                         dec (nexttarget (clients s1 cl) - now) @ '' seconds'') s1);
            s3 = upd_client cl (\<lambda>c. c\<lparr>c_since := now + 10\<rparr>) s2
        in send ToOps (''Target limit triggered for '' @ c_name (clients s3 cl)) s3
      else s)"

definition next_slot :: "time_t \<Rightarrow> time_t \<Rightarrow> time_t" where
  "next_slot now nt = max (nt + TARGET_DELAY) (now - TARGET_DELAY * (int MAXTARGETS - 1))"

definition check_target_limit :: "nat \<Rightarrow> nat \<Rightarrow> cstr \<Rightarrow> bool \<Rightarrow> cstr \<Rightarrow> ircd \<Rightarrow> ircd \<times> bool" where
  "check_target_limit cl target name created fmsg s =
     (let h = target_hash target; ts = targets (clients s cl); nt = nexttarget (clients s cl); now = CurrentTime s in
      if h \<in> set ts then (upd_client cl (\<lambda>c. c\<lparr>targets := to_front h ts\<rparr>) s, False)
      else if \<not> created \<and> now < nt then (too_fast cl name fmsg s, True)
      else (upd_client cl (\<lambda>c. c\<lparr>targets := push_target h ts,
              nexttarget := (if created then nt else next_slot now nt)\<rparr>) s, False))"

subsection \<open>Silence lists\<close>

definition MAXSILES :: nat where "MAXSILES = 10"
definition MAXSILELENGTH :: nat where "MAXSILELENGTH = 128"

definition is_silenced :: "nat \<Rightarrow> nat \<Rightarrow> ircd \<Rightarrow> ircd \<times> bool" where
  "is_silenced src acptr s =
     (let c = clients s src; a = clients s acptr; sender = c_name c @ ''!'' @ c_username c @ ''@'' @ c_host c in
      if \<not> has_user a \<or> \<not> has_user c then (s, False)
      else case List.find (\<lambda>m. match m sender) (u_silence a) of
        None \<Rightarrow> (s, False)
      | Some m \<Rightarrow>
          (if local_flag c then s
           else send (ToOne (c_from c)) ('':'' @ c_name a @ '' SILENCE '' @ c_name c @ '' :'' @ m) s, True))"

text \<open>The results 0 and 1 or -1 become booleans: whether the list was changed.\<close>

definition del_silence :: "nat \<Rightarrow> cstr \<Rightarrow> ircd \<Rightarrow> ircd \<times> bool" where
  "del_silence cl m s =
     (if m \<in> set (u_silence (clients s cl))
      then (upd_client cl (\<lambda>c. c\<lparr>u_silence := remove1 m (u_silence c)\<rparr>) s, True) else (s, False))"

text \<open>The loop of \<open>add_silence\<close> over the entries: \<open>Inl True\<close> is a full list, \<open>Inl False\<close> a covered mask.\<close>

fun silence_scan :: "bool \<Rightarrow> cstr \<Rightarrow> nat \<Rightarrow> nat \<Rightarrow> cstr list \<Rightarrow> bool option" where
  "silence_scan mine m len cnt [] = None"
| "silence_scan mine m len cnt (e # es) =
     (let len' = len + length e; cnt' = cnt + 1 in
      if mine then
        (if MAXSILELENGTH < len' \<or> MAXSILES \<le> cnt' then Some True
         else if match e m then Some False else silence_scan mine m len' cnt' es)
      else if e = m then Some False else silence_scan mine m len' cnt es)"

definition add_silence :: "nat \<Rightarrow> cstr \<Rightarrow> ircd \<Rightarrow> ircd \<times> bool" where
  "add_silence cl m s =
     (case silence_scan (MyClient (clients s cl)) m 0 0 (u_silence (clients s cl)) of
        Some True \<Rightarrow> (send (ToOne cl) ('':'' @ me_name (cfg s) @ '' 511 '' @ c_name (clients s cl) @ '' '' @ m @
                        '' :Your silence list is full'') s, False)
      | Some False \<Rightarrow> (s, False)
      | None \<Rightarrow> (upd_client cl (\<lambda>c. c\<lparr>u_silence := m # u_silence c\<rparr>) s, True))"

text \<open>
  \<open>m_silence\<close>; \<open>lk\<close> stands for \<open>find_person\<close>. From a local client the mask is made
  pretty; from a remote one the second parameter is taken as it is.
\<close>

definition list_silence :: "nat \<Rightarrow> nat \<Rightarrow> ircd \<Rightarrow> ircd" where
  "list_silence sptr acptr s =
     (let a = clients s acptr; me = me_name (cfg s) in
      if \<not> has_user a then s
      else send (ToOne sptr) ('':'' @ me @ '' 272 '' @ c_name a @ '' :End of /SILENCE list.'')
        (foldl (\<lambda>t m. send (ToOne sptr) ('':'' @ me @ '' 271 '' @ c_name (clients s sptr) @ '' '' @ c_name a @ '' '' @ m) t)
           s (u_silence a)))"

definition silence_local :: "(cstr \<Rightarrow> nat option) \<Rightarrow> nat \<Rightarrow> cstr list \<Rightarrow> ircd \<Rightarrow> ircd" where
  "silence_local lk sptr parv s =
     (if length parv < 2 \<or> parv ! 1 = [] then list_silence sptr sptr s
      else case lk (parv ! 1) of Some a \<Rightarrow> list_silence sptr a s
      | None \<Rightarrow>
        let p = parv ! 1; signed = hd0 p \<in> {CHR ''-'', CHR ''+''}; cp = (if signed then tl p else p);
            c = (if signed then hd0 p else CHR ''+'')
        in if \<not> signed \<and> (\<forall>w\<in>set ''@.!*''. w \<notin> set p) then
             send (ToOne sptr) ('':'' @ me_name (cfg s) @ '' 401 '' @ parv ! 0 @ '' '' @ p @ '' :No such nick/channel'') s
           else
             let m = pretty_mask cp;
                 (s1, changed) = (if c = CHR ''-'' then del_silence sptr m s else add_silence sptr m s)
             in if \<not> changed then s1
                else
                  let s2 = send (ToOne sptr) ('':'' @ parv ! 0 @ '' SILENCE '' @ [c] @ m) s1
                  in if c = CHR ''-''
                     then send ToServers ('':'' @ c_name (clients s2 sptr) @ '' SILENCE * -'' @ m) s2 else s2)"

definition silence_remote :: "(cstr \<Rightarrow> nat option) \<Rightarrow> nat \<Rightarrow> cstr list \<Rightarrow> ircd \<Rightarrow> ircd" where
  "silence_remote lk sptr parv s =
     (if length parv < 3 \<or> parv ! 2 = [] then
        send (ToOne sptr) ('':'' @ me_name (cfg s) @ '' 461 '' @ parv ! 0 @ '' SILENCE :Not enough parameters'') s
      else
        let line = '':'' @ parv ! 0 @ '' SILENCE '' @ parv ! 1 @ '' :'' @ parv ! 2 in
        if hd0 (parv ! 2) = CHR ''-'' then
          (let (s1, changed) = del_silence sptr (tl (parv ! 2)) s in if changed then send ToServers line s1 else s1)
        else case lk (parv ! 1) of
          None \<Rightarrow> send (ToOne sptr) ('':'' @ me_name (cfg s) @ '' 401 '' @ parv ! 0 @ '' '' @ parv ! 1 @ '' :No such nick/channel'') s
        | Some a \<Rightarrow>
            let s1 = fst (add_silence sptr (parv ! 2) s)
            in if MyClient (clients s1 a) then s1 else send (ToOne a) line s1)"

definition m_silence :: "(cstr \<Rightarrow> nat option) \<Rightarrow> nat \<Rightarrow> cstr list \<Rightarrow> ircd \<Rightarrow> ircd" where
  "m_silence lk sptr parv s =
     (if MyClient (clients s sptr) then silence_local lk sptr parv s else silence_remote lk sptr parv s)"

subsection \<open>Lemmas\<close>

lemma too_fast_next: "nexttarget (clients s cl) \<le> nexttarget (clients (too_fast cl name fmsg s) cl)"
  by (simp add: too_fast_def Let_def)

text \<open>How many new targets a series of messages gets through: the time, target, name and text of each.\<close>

fun new_targets :: "nat \<Rightarrow> (time_t \<times> nat \<times> cstr \<times> cstr) list \<Rightarrow> ircd \<Rightarrow> nat" where
  "new_targets cl [] s = 0"
| "new_targets cl ((now, target, name, fmsg) # rest) s =
     (let (s1, refused) = check_target_limit cl target name False fmsg (s\<lparr>CurrentTime := now\<rparr>);
          new = target_hash target \<notin> set (targets (clients s cl))
      in (if new \<and> \<not> refused then 1 else 0) + new_targets cl rest s1)"

lemma target_step:
  assumes "check_target_limit cl target name False fmsg (s\<lparr>CurrentTime := now\<rparr>) = (s1, refused)"
    "target_hash target \<notin> set (targets (clients s cl)) \<and> \<not> refused"
  shows "nexttarget (clients s cl) \<le> now" "nexttarget (clients s1 cl) = next_slot now (nexttarget (clients s cl))"
  using assms by (auto simp: check_target_limit_def Let_def split: if_splits)

lemma target_step_other:
  assumes "check_target_limit cl target name False fmsg (s\<lparr>CurrentTime := now\<rparr>) = (s1, refused)"
    "\<not> (target_hash target \<notin> set (targets (clients s cl)) \<and> \<not> refused)"
  shows "nexttarget (clients s cl) \<le> nexttarget (clients s1 cl)"
  using assms too_fast_next [of "s\<lparr>CurrentTime := now\<rparr>" cl name fmsg]
  by (auto simp: check_target_limit_def Let_def split: if_splits)

lemma new_targets_after:
  "\<forall>c\<in>set cs. fst c \<le> t1 \<Longrightarrow> int (new_targets cl cs s) * TARGET_DELAY \<le> max 0 (t1 - nexttarget (clients s cl) + TARGET_DELAY)"
proof (induction cs arbitrary: s)
  case (Cons c cs)
  obtain now target name fmsg where c: "c = (now, target, name, fmsg)" by (cases c)
  obtain s1 refused where s1: "check_target_limit cl target name False fmsg (s\<lparr>CurrentTime := now\<rparr>) = (s1, refused)" by fastforce
  have IH: "int (new_targets cl cs s1) * TARGET_DELAY \<le> max 0 (t1 - nexttarget (clients s1 cl) + TARGET_DELAY)"
    using Cons by simp
  show ?case
  proof (cases "target_hash target \<notin> set (targets (clients s cl)) \<and> \<not> refused")
    case True
    from target_step [OF s1 True] have "nexttarget (clients s cl) \<le> t1"
      "nexttarget (clients s cl) + TARGET_DELAY \<le> nexttarget (clients s1 cl)"
      using Cons.prems by (auto simp: c next_slot_def)
    then show ?thesis using IH True s1 by (simp add: c Let_def TARGET_DELAY_def algebra_simps)
  next
    case False
    then show ?thesis using IH target_step_other [OF s1 False] s1 by (auto simp: c Let_def)
  qed
qed (simp add: TARGET_DELAY_def)

section \<open>Properties\<close>

text \<open>
  The target limit holds. Whatever a local user sends in a stretch of \<open>n\<close> seconds
  (times \<open>t0\<close> to \<open>t0 + n\<close>), at most \<open>11 + n div 128\<close> messages to new targets get through: one more than
  the \<open>MAXTARGETS = 10\<close> the configuration promises at once, and one every \<open>TARGET_DELAY\<close> seconds after that.
\<close>

theorem target_rate:
  assumes "\<forall>c\<in>set cs. t0 \<le> fst c \<and> fst c \<le> t0 + n" "0 \<le> n"
  shows "int (new_targets cl cs s) \<le> int MAXTARGETS + 1 + n div TARGET_DELAY"
  using assms(1)
proof (induction cs arbitrary: s)
  case (Cons c cs)
  obtain now target name fmsg where c: "c = (now, target, name, fmsg)" by (cases c)
  obtain s1 refused where s1: "check_target_limit cl target name False fmsg (s\<lparr>CurrentTime := now\<rparr>) = (s1, refused)" by fastforce
  show ?case
  proof (cases "target_hash target \<notin> set (targets (clients s cl)) \<and> \<not> refused")
    case True
    from target_step(2) [OF s1 True] have "t0 - 1152 \<le> nexttarget (clients s1 cl)"
      using Cons.prems by (auto simp: c next_slot_def MAXTARGETS_def TARGET_DELAY_def)
    moreover have "int (new_targets cl cs s1) * TARGET_DELAY \<le> max 0 (t0 + n - nexttarget (clients s1 cl) + TARGET_DELAY)"
      using Cons.prems by (intro new_targets_after) auto
    ultimately have "int (new_targets cl cs s1) \<le> 10 + n div 128"
      using assms(2) by (simp add: TARGET_DELAY_def)
    then show ?thesis using True s1 by (simp add: c Let_def MAXTARGETS_def TARGET_DELAY_def)
  next
    case False
    then show ?thesis using Cons s1 by (auto simp: c Let_def)
  qed
qed (use assms(2) in \<open>simp add: MAXTARGETS_def TARGET_DELAY_def\<close>)

text \<open>Eleven messages in one second to eleven users do get through.\<close>

definition eleven :: "(time_t \<times> nat \<times> cstr \<times> cstr) list" where
  "eleven = map (\<lambda>addr. (2000, addr, ''x'', ''hi''))
     [16384, 32768, 49152, 65536, 81920, 98304, 114688, 131072, 147456, 163840, 180224]"

lemma eleven_hashes:
  "target_hash 16384 = 1" "target_hash 32768 = 4" "target_hash 49152 = 9" "target_hash 65536 = 16"
  "target_hash 81920 = 25" "target_hash 98304 = 36" "target_hash 114688 = 49" "target_hash 131072 = 64"
  "target_hash 147456 = 81" "target_hash 163840 = 100" "target_hash 180224 = 121"
  by (simp_all add: target_hash_def Let_def)

lemma new_targets_step:
  "target_hash addr \<notin> set (targets (clients s cl)) \<Longrightarrow> nexttarget (clients s cl) \<le> now \<Longrightarrow>
   new_targets cl ((now, addr, name, fmsg) # rest) s =
     Suc (new_targets cl rest (upd_client cl (\<lambda>c. c\<lparr>targets := push_target (target_hash addr) (targets c),
        nexttarget := next_slot now (nexttarget c)\<rparr>) (s\<lparr>CurrentTime := now\<rparr>)))"
  by (simp add: check_target_limit_def Let_def upd_client_def)

lemma burst_of_targets:
  assumes "\<forall>c\<in>set cs. fst c = now" "distinct (map (\<lambda>c. target_hash (fst (snd c))) cs)" "length cs \<le> 11"
    "\<forall>c\<in>set cs. target_hash (fst (snd c)) \<notin> set (targets (clients s cl))"
    "nexttarget (clients s cl) + TARGET_DELAY * (int (length cs) - 1) \<le> now"
  shows "new_targets cl cs s = length cs"
  using assms
proof (induction cs arbitrary: s)
  case (Cons c cs)
  obtain addr name fmsg where c: "c = (now, addr, name, fmsg)" using Cons.prems(1) by (cases c) auto
  let ?s = "upd_client cl (\<lambda>c. c\<lparr>targets := push_target (target_hash addr) (targets c),
        nexttarget := next_slot now (nexttarget c)\<rparr>) (s\<lparr>CurrentTime := now\<rparr>)"
  have "new_targets cl cs ?s = length cs"
  proof (rule Cons.IH)
    show "\<forall>c\<in>set cs. target_hash (fst (snd c)) \<notin> set (targets (clients ?s cl))"
      using Cons.prems(2,4) by (auto simp: c push_target_def dest: in_set_butlastD intro: rev_image_eqI)
  qed (use Cons.prems in \<open>auto simp: next_slot_def TARGET_DELAY_def MAXTARGETS_def\<close>)
  then show ?case
    using Cons.prems(4,5) unfolding c by (subst new_targets_step) (auto simp: TARGET_DELAY_def)
qed simp

lemma eleven_sent: "new_targets 1 eleven (boot (\<lambda>_. plain_user ''bob'' ''u'' ''h'') plain_config 0) = 11"
  using burst_of_targets [of eleven 2000 "boot (\<lambda>_. plain_user ''bob'' ''u'' ''h'') plain_config 0" 1]
  by (simp add: eleven_def eleven_hashes boot_def plain_user_def TARGET_DELAY_def)

theorem target_rate_witness:
  "let s = boot (\<lambda>_. plain_user ''bob'' ''u'' ''h'') plain_config 0 in
   new_targets 1 eleven s = 11 \<and> int (new_targets 1 eleven s) \<le> int MAXTARGETS + 1 + 0 div TARGET_DELAY"
  unfolding Let_def
proof
  show "int (new_targets 1 eleven (boot (\<lambda>_. plain_user ''bob'' ''u'' ''h'') plain_config 0)) \<le> int MAXTARGETS + 1 + 0 div TARGET_DELAY"
    by (rule target_rate [of _ 2000]) (simp_all add: eleven_def)
qed (rule eleven_sent)

lemma find_silence: "List.find P xs = None \<longleftrightarrow> (\<forall>x\<in>set xs. \<not> P x)"
  by (auto simp: find_None_iff)

lemma silence_scan_local:
  "silence_scan True m len cnt es = None \<Longrightarrow> cnt < MAXSILES \<Longrightarrow>
   cnt + length es < MAXSILES \<and> (\<forall>e\<in>set es. \<not> match e m)"
proof (induction es arbitrary: len cnt)
  case (Cons e es)
  then show ?case using Cons.IH [of "len + length e" "Suc cnt"] by (auto simp: Let_def split: if_splits)
qed simp

lemma silence_scan_SomeD:
  "silence_scan mine m len cnt es = Some False \<Longrightarrow> \<exists>e\<in>set es. e = m \<or> match e m"
  by (induction mine m len cnt es rule: silence_scan.induct) (auto simp: Let_def split: if_splits)

text \<open>
  What a silence does. When a local user's new silence mask is accepted, the list
  still has at most \<open>MAXSILES\<close> entries, no older entry covered the mask, and from then on every sender whose
  \<open>nick!user@host\<close> the mask matches is silenced, and nobody else besides those the list silenced before;
  when it is not accepted, the list is as before and either it is full or an entry covers the mask.
\<close>

theorem silence_effect:
  assumes "MyClient (clients s cl)" "has_user (clients s cl)" "add_silence cl m s = (s', ok)"
  shows "if ok
     then length (u_silence (clients s' cl)) \<le> MAXSILES \<and> (\<forall>e\<in>set (u_silence (clients s cl)). \<not> match e m) \<and>
       (has_user (clients s src) \<longrightarrow> snd (is_silenced src cl s') =
          (match m (c_name (clients s src) @ ''!'' @ c_username (clients s src) @ ''@'' @ c_host (clients s src)) \<or>
           snd (is_silenced src cl s)))
     else clients s' = clients s \<and> (silence_scan True m 0 0 (u_silence (clients s cl)) = Some True \<or>
       (\<exists>e\<in>set (u_silence (clients s cl)). e = m \<or> match e m))"
proof (cases ok)
  case True
  then have scan: "silence_scan True m 0 0 (u_silence (clients s cl)) = None"
    and s': "s' = upd_client cl (\<lambda>c. c\<lparr>u_silence := m # u_silence c\<rparr>) s"
    using assms by (auto simp: add_silence_def split: option.splits bool.splits)
  from silence_scan_local [OF scan] have len: "length (u_silence (clients s cl)) < MAXSILES"
    "\<forall>e\<in>set (u_silence (clients s cl)). \<not> match e m" by (simp_all add: MAXSILES_def)
  have "snd (is_silenced src cl s') =
      (match m (c_name (clients s src) @ ''!'' @ c_username (clients s src) @ ''@'' @ c_host (clients s src)) \<or>
       snd (is_silenced src cl s))" if "has_user (clients s src)"
    using that assms(2) by (auto simp: s' is_silenced_def Let_def split: option.splits)
  with len True show ?thesis by (simp add: s')
next
  case False
  then show ?thesis
    using assms silence_scan_SomeD [of True m 0 0 "u_silence (clients s cl)"]
    by (auto simp: add_silence_def split: option.splits bool.splits)
qed

theorem silence_effect_witness:
  "let s = boot (\<lambda>p. plain_user (if p = 1 then ''ana'' else ''bob'') ''u'' ''h'') plain_config 0;
       s' = fst (add_silence 1 ''bob!*@*'' s)
   in snd (is_silenced 2 1 s') = (match ''bob!*@*'' ''bob!u@h'' \<or> snd (is_silenced 2 1 s))"
proof -
  let ?s = "boot (\<lambda>p. plain_user (if p = 1 then ''ana'' else ''bob'') ''u'' ''h'') plain_config 0"
  have "add_silence 1 ''bob!*@*'' ?s = (fst (add_silence 1 ''bob!*@*'' ?s), True)"
    by (simp add: add_silence_def boot_def plain_user_def)
  from silence_effect [OF _ _ this, of 2] show ?thesis
    by (simp add: boot_def plain_user_def MyClient_def IsClient_def Let_def)
qed

end
