(* ===== verification/IpTree.thy ===== *)
theory IpTree
  imports IrcMatch CLib "HOL-Library.Sublist"
begin

text \<open>
  The address trees of \<open>src/dline_conf.c\<close>: binary trees of network blocks (\<open>struct ip_subtree\<close>)
  with insertion, look-up and deletion, the table of network masks and the reader of dotted
  addresses of \<open>src/s_conf.c\<close>. \<open>unsigned long\<close> has 64 bits. The lemmas show that look-up finds
  the block an address lies in, as long as the blocks of a tree are disjoint, and that insertion
  and deletion keep the tree so.
\<close>

subsection \<open>Configuration items\<close>

text \<open>The fields of \<open>struct ConfItem\<close> the trees use; a chain through \<open>next\<close> is a list.\<close>

record conf =
  cf_status :: "32 word"
  cf_flags :: "32 word"
  cf_ip :: "64 word"
  cf_mask :: "64 word"
  cf_user :: cstr

definition CONF_CLIENT :: "32 word" where "CONF_CLIENT = 0x2"
definition CONF_KILL :: "32 word" where "CONF_KILL = 0x80"
definition CONF_DLINE :: "32 word" where "CONF_DLINE = 0x20000"
definition CONF_FLAGS_E_LINED :: "32 word" where "CONF_FLAGS_E_LINED = 0x20"

abbreviation e_lined :: "conf \<Rightarrow> bool" where
  "e_lined c \<equiv> has (cf_flags c) CONF_FLAGS_E_LINED"

subsection \<open>Trees\<close>

datatype ip_subtree =
  Nil_tree
| Node (node_ip: "64 word") (node_mask: "64 word") (node_conf: "conf list")
    (node_left: ip_subtree) (node_right: ip_subtree)

definition new_ip_subtree ::
  "64 word \<Rightarrow> 64 word \<Rightarrow> conf list \<Rightarrow> ip_subtree \<Rightarrow> ip_subtree \<Rightarrow> ip_subtree" where
  "new_ip_subtree ip msk clist l r = Node (ip AND msk) msk clist l r"

fun insert_ip_subtree :: "ip_subtree \<Rightarrow> ip_subtree \<Rightarrow> ip_subtree" where
  "insert_ip_subtree Nil_tree node = node"
| "insert_ip_subtree (Node i m c l r) node =
     (if node_ip node < i then Node i m c (insert_ip_subtree l node) r
      else Node i m c l (insert_ip_subtree r node))"

fun find_ip_subtree :: "ip_subtree \<Rightarrow> 64 word \<Rightarrow> (64 word \<times> 64 word \<times> conf list) option" where
  "find_ip_subtree Nil_tree ip = None"
| "find_ip_subtree (Node i m c l r) ip =
     (if i = ip AND m then Some (i, m, c)
      else if ip AND m < i then find_ip_subtree l ip
      else find_ip_subtree r ip)"

text \<open>A write to the configuration list of the node \<open>find_ip_subtree\<close> returned.\<close>

fun upd_found :: "(conf list \<Rightarrow> conf list) \<Rightarrow> ip_subtree \<Rightarrow> 64 word \<Rightarrow> ip_subtree" where
  "upd_found f Nil_tree ip = Nil_tree"
| "upd_found f (Node i m c l r) ip =
     (if i = ip AND m then Node i m (f c) l r
      else if ip AND m < i then Node i m c (upd_found f l ip) r
      else Node i m c l (upd_found f r ip))"

text \<open>
  Replacing a node by its inorder predecessor: the rightmost node of the left subtree gets the
  node's right subtree and keeps its own left one; what else was in the left subtree is no longer
  reachable. The successor case mirrors it.
\<close>

fun replace_by_pred :: "ip_subtree \<Rightarrow> ip_subtree \<Rightarrow> ip_subtree" where
  "replace_by_pred Nil_tree rest = rest"
| "replace_by_pred (Node i m c l r) rest =
     (if r = Nil_tree then Node i m c l rest else replace_by_pred r rest)"

fun replace_by_succ :: "ip_subtree \<Rightarrow> ip_subtree \<Rightarrow> ip_subtree" where
  "replace_by_succ Nil_tree rest = rest"
| "replace_by_succ (Node i m c l r) rest =
     (if l = Nil_tree then Node i m c rest r else replace_by_succ l rest)"

text \<open>
  \<open>coins\<close> holds the answers of \<open>rand() < RAND_MAX / 2\<close>, one used for each node with two
  children that is removed (heads: the predecessor). The result is the tree, the list of
  configuration items collected and the coins left.
\<close>

definition flip :: "bool list \<Rightarrow> bool \<times> bool list" where
  "flip coins = (case coins of [] \<Rightarrow> (True, []) | c # cs \<Rightarrow> (c, cs))"

fun delete_ip_subtree ::
  "bool list \<Rightarrow> ip_subtree \<Rightarrow> 64 word \<Rightarrow> 64 word \<Rightarrow> conf list \<Rightarrow> ip_subtree \<times> conf list \<times> bool list" where
  "delete_ip_subtree coins Nil_tree ip msk clist = (Nil_tree, clist, coins)"
| "delete_ip_subtree coins (Node i m c l r) ip0 msk clist0 =
     (let ip = ip0 AND msk;
          (l', clist1, coins1) = delete_ip_subtree coins l ip msk clist0;
          (r', clist2, coins2) = delete_ip_subtree coins1 r ip msk clist1
      in if i AND msk = ip then
           if m < msk then (Node i m c l' r', clist2, coins2)
           else
             let clist3 = c @ clist2 in
             if l' = Nil_tree then (r', clist3, coins2)
             else if r' = Nil_tree then (l', clist3, coins2)
             else let (b, coins3) = flip coins2 in
               (if b then replace_by_pred l' r' else replace_by_succ r' l', clist3, coins3)
         else (Node i m c l' r', clist2, coins2))"

subsection \<open>Network masks\<close>

definition cidr_to_bitmask :: "64 word list" where
  "cidr_to_bitmask =
     [0x00000000, 0x80000000, 0xC0000000, 0xE0000000, 0xF0000000, 0xF8000000, 0xFC000000, 0xFE000000,
      0xFF000000, 0xFF800000, 0xFFC00000, 0xFFE00000, 0xFFF00000, 0xFFF80000, 0xFFFC0000, 0xFFFE0000,
      0xFFFF0000, 0xFFFF8000, 0xFFFFC000, 0xFFFFE000, 0xFFFFF000, 0xFFFFF800, 0xFFFFFC00, 0xFFFFFE00,
      0xFFFFFF00, 0xFFFFFF80, 0xFFFFFFC0, 0xFFFFFFE0, 0xFFFFFFF0, 0xFFFFFFF8, 0xFFFFFFFC, 0xFFFFFFFE,
      0xFFFFFFFF]"

text \<open>
  \<open>is_address\<close> as a loop over the text with the locals of the code; the byte before the star is
  \<open>prev\<close> (a star at the start fails the dot count first). \<open>*ip_ptr\<close> is carried in \<open>outip\<close>. The result is the address and the mask.
\<close>

record addr_state =
  as_ip :: "64 word"
  as_octet :: "32 word"
  as_found_mask :: bool
  as_dots :: nat
  as_out :: "64 word"

fun is_address_loop :: "addr_state \<Rightarrow> char \<Rightarrow> cstr \<Rightarrow> (64 word \<times> 64 word) option" where
  "is_address_loop st prev [] =
     (let cur = push_bit 8 (as_ip st) + ucast (as_octet st)
      in if as_found_mask st then
           (if 32 < cur then None else Some (as_out st, cidr_to_bitmask ! unat cur))
         else Some (cur, 0xFFFFFFFF))"
| "is_address_loop st prev (c # s) =
     (if IsDigit c then
        is_address_loop (st\<lparr>as_octet := as_octet st * 10 + (word_of_nat (byte c) AND 0xF)\<rparr>) c s
      else if c = CHR ''.'' then
        (if 255 < as_octet st then None
         else is_address_loop (st\<lparr>as_ip := push_bit 8 (as_ip st) + ucast (as_octet st), as_octet := 0,
                as_dots := as_dots st + 1\<rparr>) c s)
      else if c = CHR ''/'' then
        (if 255 < as_octet st then None
         else is_address_loop (st\<lparr>as_found_mask := True, as_octet := 0,
                as_out := push_bit 8 (as_ip st) + ucast (as_octet st), as_ip := 0\<rparr>) c s)
      else if c = CHR ''*'' then
        (if as_dots st = 3 \<and> s = [] \<and> prev = CHR ''.'' then Some (push_bit 8 (as_ip st), 0xFFFFFF00)
         else None)
      else None)"

definition is_address :: "cstr \<Rightarrow> (64 word \<times> 64 word) option" where
  "is_address host =
     is_address_loop \<lparr>as_ip = 0, as_octet = 0, as_found_mask = False, as_dots = 0, as_out = 0\<rparr> NUL host"

subsection \<open>Network blocks\<close>

text \<open>A prefix mask keeps the bits from \<open>j\<close> to 31.\<close>

definition prefix_mask :: "64 word \<Rightarrow> nat \<Rightarrow> bool" where
  "prefix_mask m j \<longleftrightarrow> j \<le> 32 \<and> m = push_bit j (mask (32 - j))"

definition is_prefix_mask :: "64 word \<Rightarrow> bool" where
  "is_prefix_mask m \<longleftrightarrow> (\<exists>j. prefix_mask m j)"

abbreviation addr :: "64 word \<Rightarrow> bool" where
  "addr a \<equiv> a < 2 ^ 32"

lemma prefix_mask_bit: "prefix_mask m j \<Longrightarrow> bit m n \<longleftrightarrow> j \<le> n \<and> n < 32"
  by (auto simp: prefix_mask_def bit_simps)

lemma addr_bit: "addr a \<Longrightarrow> bit a n \<Longrightarrow> n < 32"
proof -
  assume a: "addr a" "bit a n"
  have "unat a < 2 ^ 32" using a(1) by (simp add: word_less_nat_alt)
  then have "take_bit 32 (unat a) = unat a" by (rule take_bit_nat_eq_self)
  moreover have "bit (unat a) n" using a(2) by (simp add: bit_unsigned_iff bit_imp_possible_bit)
  ultimately show "n < 32" by (metis bit_take_bit_iff)
qed

lemma and_prefix_mono:
  assumes "prefix_mask m j" "addr a" "addr b" "a \<le> b"
  shows "a AND m \<le> b AND m"
proof -
  have eq: "c AND m = push_bit j (drop_bit j c)" if "addr c" for c
    using prefix_mask_bit [OF assms(1)] addr_bit [OF that] by (auto simp: bit_eq_iff bit_simps)
  have "unat (push_bit j (drop_bit j c)) = unat c div 2 ^ j * 2 ^ j" for c :: "64 word"
  proof -
    have "unat c div 2 ^ j * 2 ^ j \<le> unat c" by simp
    also have "unat c < 2 ^ 64" using unsigned_less [of c] by simp
    finally have "take_bit 64 (unat c div 2 ^ j * 2 ^ j) = unat c div 2 ^ j * 2 ^ j"
      by (rule take_bit_nat_eq_self)
    moreover have "take_bit 64 (unat c) = unat c"
      using unsigned_less [of c] by (intro take_bit_nat_eq_self) simp
    moreover have "unat (push_bit j (drop_bit j c)) = take_bit 64 (push_bit j (drop_bit j (take_bit 64 (unat c))))"
      by (simp only: unsigned_push_bit_eq unsigned_drop_bit_eq) simp
    ultimately show ?thesis by (simp only: push_bit_eq_mult drop_bit_eq_div)
  qed
  with assms eq show ?thesis by (simp add: word_le_nat_alt div_le_mono)
qed

lemma and_le_left: "(a :: 64 word) AND m \<le> a"
  by (rule word_and_le2)

lemma addr_and: "addr a \<Longrightarrow> addr (a AND m)"
  using and_le_left [of a m] by (rule order.strict_trans1)

text \<open>The addresses a block \<open>(ip, mask)\<close> covers.\<close>

definition covers :: "64 word \<times> 64 word \<Rightarrow> 64 word \<Rightarrow> bool" where
  "covers b a \<longleftrightarrow> a AND snd b = fst b"

definition block :: "64 word \<times> 64 word \<Rightarrow> bool" where
  "block b \<longleftrightarrow> addr (fst b) \<and> is_prefix_mask (snd b) \<and> covers b (fst b)"

text \<open>All addresses of the first block are below those of the second.\<close>

definition before :: "64 word \<times> 64 word \<Rightarrow> 64 word \<times> 64 word \<Rightarrow> bool" where
  "before b c \<longleftrightarrow> (\<forall>x y. addr x \<and> addr y \<and> covers b x \<and> covers c y \<longrightarrow> x < y)"

lemma beforeD: "before b c \<Longrightarrow> addr x \<Longrightarrow> addr y \<Longrightarrow> covers b x \<Longrightarrow> covers c y \<Longrightarrow> x < y"
  by (simp add: before_def)

lemma block_mono:
  "block b \<Longrightarrow> addr x \<Longrightarrow> addr y \<Longrightarrow> x \<le> y \<Longrightarrow> x AND snd b \<le> y AND snd b"
  unfolding block_def is_prefix_mask_def using and_prefix_mono by blast

text \<open>Disjoint blocks are ordered by their addresses.\<close>

lemma disjoint_before:
  assumes "block b" "block c" "fst b < fst c" "\<not> (\<exists>x. addr x \<and> covers b x \<and> covers c x)"
  shows "before b c"
proof -
  have "x < y" if xy: "addr x" "addr y" "covers b x" "covers c y" for x y
  proof (rule ccontr)
    assume "\<not> x < y"
    then have "y \<le> x" by simp
    have fc: "addr (fst c)" "covers c (fst c)" and fb: "addr (fst b)" "covers b (fst b)"
      using assms by (auto simp: block_def)
    have "fst c \<le> y" using xy(4) and_le_left [of y "snd c"] by (simp add: covers_def)
    with \<open>y \<le> x\<close> have "fst c \<le> x" by simp
    have "fst b AND snd b \<le> fst c AND snd b" using assms(1,3) fb fc by (intro block_mono) simp_all
    moreover have "fst c AND snd b \<le> x AND snd b"
      using assms(1) fc xy \<open>fst c \<le> x\<close> by (intro block_mono)
    ultimately have "covers b (fst c)" using fb xy(3) by (simp add: covers_def)
    with fc assms(4) show False by blast
  qed
  then show ?thesis by (auto simp: before_def)
qed

lemma prefix_mask_and: "prefix_mask m j \<Longrightarrow> prefix_mask m' j' \<Longrightarrow> j \<le> j' \<Longrightarrow> m AND m' = m'"
  by (auto simp: bit_eq_iff bit_simps prefix_mask_bit)

lemma prefix_mask_le: "prefix_mask m j \<Longrightarrow> prefix_mask m' j' \<Longrightarrow> j \<le> j' \<Longrightarrow> m' \<le> m"
  using prefix_mask_and [of m j m' j'] and_le_left [of m m'] by simp

text \<open>Blocks that share an address are nested: the one with the smaller mask holds the other.\<close>

lemma blocks_nested:
  assumes "block b" "block c" "covers b x" "covers c x" "snd b \<le> snd c"
  shows "fst c AND snd b = fst b"
proof -
  obtain j k where jk: "prefix_mask (snd b) j" "prefix_mask (snd c) k"
    using assms by (auto simp: block_def is_prefix_mask_def)
  have "snd c AND snd b = snd b"
  proof (cases "k \<le> j")
    case True
    with jk show ?thesis by (intro prefix_mask_and)
  next
    case False
    with prefix_mask_le [OF jk] assms(5) have "snd b = snd c" by simp
    then show ?thesis by simp
  qed
  moreover have "fst c AND snd b = x AND (snd c AND snd b)"
    using assms(4) by (simp only: covers_def and.assoc [symmetric])
  ultimately show ?thesis using assms(3) by (simp only: covers_def)
qed

subsection \<open>Well-formed trees\<close>

fun nodes :: "ip_subtree \<Rightarrow> (64 word \<times> 64 word \<times> conf list) list" where
  "nodes Nil_tree = []"
| "nodes (Node i m c l r) = nodes l @ (i, m, c) # nodes r"

abbreviation blk :: "64 word \<times> 64 word \<times> conf list \<Rightarrow> 64 word \<times> 64 word" where
  "blk n \<equiv> (fst n, fst (snd n))"

text \<open>The nodes are blocks, disjoint and in the order of their addresses.\<close>

definition wf_tree :: "ip_subtree \<Rightarrow> bool" where
  "wf_tree t \<longleftrightarrow> (\<forall>n\<in>set (nodes t). block (blk n)) \<and> sorted_wrt (\<lambda>a b. before (blk a) (blk b)) (nodes t)"

lemma wf_tree_Nil [simp]: "wf_tree Nil_tree"
  by (simp add: wf_tree_def)

lemma wf_tree_Node:
  "wf_tree (Node i m c l r) \<longleftrightarrow> wf_tree l \<and> wf_tree r \<and> block (i, m) \<and>
     (\<forall>n\<in>set (nodes l). before (blk n) (i, m)) \<and> (\<forall>n\<in>set (nodes r). before (i, m) (blk n)) \<and>
     (\<forall>n\<in>set (nodes l). \<forall>n'\<in>set (nodes r). before (blk n) (blk n'))"
  by (auto simp: wf_tree_def sorted_wrt_append)

lemma find_ip_subtree_sound:
  "find_ip_subtree t a = Some n \<Longrightarrow> n \<in> set (nodes t) \<and> covers (blk n) a"
  by (induction t) (auto simp: covers_def split: if_splits)

lemma find_ip_subtree_complete:
  assumes "wf_tree t" "addr a" "n \<in> set (nodes t)" "covers (blk n) a"
  shows "find_ip_subtree t a = Some n"
  using assms
proof (induction t)
  case (Node i m c l r)
  have here: "block (i, m)" "addr i" "covers (i, m) i" using Node.prems by (auto simp: wf_tree_Node block_def)
  consider "n \<in> set (nodes l)" | "n = (i, m, c)" | "n \<in> set (nodes r)" using Node.prems(3) by auto
  then show ?case
  proof cases
    case 1
    then have lt: "a < i"
      using Node.prems beforeD [of "blk n" "(i, m)" a i] here by (auto simp: wf_tree_Node)
    then have "a AND m < i" using and_le_left [of a m] by simp
    with 1 Node show ?thesis by (auto simp: wf_tree_Node)
  next
    case 2
    with Node.prems show ?thesis by (simp add: covers_def)
  next
    case 3
    then have lt: "i < a"
      using Node.prems beforeD [of "(i, m)" "blk n" i a] here by (auto simp: wf_tree_Node)
    have ne: "i \<noteq> a AND m"
    proof
      assume "i = a AND m"
      then have "covers (i, m) a" by (simp add: covers_def)
      with 3 Node.prems beforeD [of "(i, m)" "blk n" a a] show False by (auto simp: wf_tree_Node)
    qed
    have "i AND m \<le> a AND m" using block_mono [OF here(1), of i a] here(2) Node.prems(2) lt by simp
    then have "\<not> a AND m < i" using here(3) by (simp add: covers_def)
    with 3 ne Node show ?thesis by (auto simp: wf_tree_Node)
  qed
qed simp

lemma find_ip_subtree_None:
  "wf_tree t \<Longrightarrow> addr a \<Longrightarrow> find_ip_subtree t a = None \<longleftrightarrow> (\<forall>n\<in>set (nodes t). \<not> covers (blk n) a)"
  using find_ip_subtree_complete find_ip_subtree_sound by (metis not_None_eq)

subsection \<open>Insertion and deletion\<close>

definition disjoint :: "64 word \<times> 64 word \<Rightarrow> 64 word \<times> 64 word \<Rightarrow> bool" where
  "disjoint b c \<longleftrightarrow> \<not> (\<exists>x. addr x \<and> covers b x \<and> covers c x)"

lemma set_nodes_insert:
  "set (nodes (insert_ip_subtree t (Node i m c Nil_tree Nil_tree))) = insert (i, m, c) (set (nodes t))"
  by (induction t) auto

lemma wf_insert:
  "wf_tree t \<Longrightarrow> block (i, m) \<Longrightarrow> (\<forall>n\<in>set (nodes t). disjoint (i, m) (blk n)) \<Longrightarrow>
     wf_tree (insert_ip_subtree t (Node i m c Nil_tree Nil_tree))"
proof (induction t)
  case Nil_tree
  then show ?case by (simp add: wf_tree_def)
next
  case (Node i' m' c' l r)
  have h: "block (i', m')" "addr i'" "covers (i', m') i'" and n: "addr i" "covers (i, m) i"
    using Node.prems by (auto simp: wf_tree_Node block_def)
  have sym: "\<not> (\<exists>x. addr x \<and> covers (blk k) x \<and> covers (i, m) x)" if "k \<in> set (nodes (Node i' m' c' l r))" for k
    using that Node.prems(3) by (auto simp: disjoint_def)
  have sym': "\<not> (\<exists>x. addr x \<and> covers (i, m) x \<and> covers (blk k) x)" if "k \<in> set (nodes (Node i' m' c' l r))" for k
    using that Node.prems(3) by (auto simp: disjoint_def)
  have blks: "block (blk k)" if "k \<in> set (nodes l) \<union> set (nodes r)" for k
    using that Node.prems(1) by (auto simp: wf_tree_def)
  show ?case
  proof (cases "i < i'")
    case True
    have "before (i, m) (i', m')"
      using disjoint_before [of "(i, m)" "(i', m')"] Node.prems(2) h True sym' [of "(i', m', c')"] by simp
    moreover have "before (i, m) (blk k)" if k: "k \<in> set (nodes r)" for k
    proof -
      have "i' < fst k"
        using k Node.prems(1) h blks [of k] beforeD [of "(i', m')" "blk k" i' "fst k"]
        by (auto simp: wf_tree_Node block_def)
      with True have "i < fst k" by simp
      with disjoint_before [of "(i, m)" "blk k"] Node.prems(2) blks [of k] k sym' [of k] show ?thesis by simp
    qed
    ultimately show ?thesis
      using True Node by (auto simp: wf_tree_Node set_nodes_insert)
  next
    case False
    moreover have "i \<noteq> i'" using h n sym' [of "(i', m', c')"] by auto
    ultimately have gt: "i' < i" by simp
    have "before (i', m') (i, m)"
      using disjoint_before [of "(i', m')" "(i, m)"] Node.prems(2) h gt sym [of "(i', m', c')"] by simp
    moreover have "before (blk k) (i, m)" if k: "k \<in> set (nodes l)" for k
    proof -
      have "fst k < i'"
        using k Node.prems(1) h blks [of k] beforeD [of "blk k" "(i', m')" "fst k" i']
        by (auto simp: wf_tree_Node block_def)
      with gt have "fst k < i" by simp
      with disjoint_before [of "blk k" "(i, m)"] Node.prems(2) blks [of k] k sym [of k] show ?thesis by simp
    qed
    ultimately show ?thesis
      using False Node by (auto simp: wf_tree_Node set_nodes_insert)
  qed
qed

lemma set_mono_subseq: "subseq xs ys \<Longrightarrow> set xs \<subseteq> set ys"
  by (auto elim: list_emb_set)

lemma wf_tree_subseq: "wf_tree t \<Longrightarrow> subseq (nodes u) (nodes t) \<Longrightarrow> wf_tree u"
proof -
  have "sorted_wrt P xs" if "subseq xs ys" "sorted_wrt P ys" for P and xs ys :: "(64 word \<times> 64 word \<times> conf list) list"
    using that
  proof (induction rule: list_emb.induct)
    case (list_emb_Cons2 x y xs ys)
    then show ?case using set_mono_subseq by fastforce
  qed auto
  then show "wf_tree t \<Longrightarrow> subseq (nodes u) (nodes t) \<Longrightarrow> wf_tree u"
    unfolding wf_tree_def by (meson set_mono_subseq subsetD)
qed

lemma replace_by_pred_nodes:
  "l \<noteq> Nil_tree \<Longrightarrow> \<exists>ys. subseq ys (nodes l) \<and> nodes (replace_by_pred l rest) = ys @ nodes rest"
proof (induction l rest rule: replace_by_pred.induct)
  case (2 i m c l r rest)
  show ?case
  proof (cases "r = Nil_tree")
    case True
    then show ?thesis by (intro exI [of _ "nodes l @ [(i, m, c)]"]) simp
  next
    case False
    with 2 obtain ys where "subseq ys (nodes r)" "nodes (replace_by_pred r rest) = ys @ nodes rest" by auto
    with False show ?thesis by (intro exI [of _ ys]) (auto intro: subseq_drop_many)
  qed
qed simp

lemma replace_by_succ_nodes:
  "r \<noteq> Nil_tree \<Longrightarrow> \<exists>ys. subseq ys (nodes r) \<and> nodes (replace_by_succ r rest) = nodes rest @ ys"
proof (induction r rest rule: replace_by_succ.induct)
  case (2 i m c l r rest)
  show ?case
  proof (cases "l = Nil_tree")
    case True
    then show ?thesis by (intro exI [of _ "(i, m, c) # nodes r"]) simp
  next
    case False
    with 2 obtain ys where "subseq ys (nodes l)" "nodes (replace_by_succ l rest) = nodes rest @ ys" by auto
    with False show ?thesis by (intro exI [of _ ys]) (auto intro: subseq_rev_drop_many)
  qed
qed simp

text \<open>What deletion leaves was in the tree, in the same order, and none of it lies in the block
  with a mask at least as specific.\<close>

lemma delete_ip_subtree_nodes:
  "delete_ip_subtree coins t ip msk clist = (t', clist', coins') \<Longrightarrow>
     subseq (nodes t') (nodes t) \<and> (\<forall>n\<in>set (nodes t'). fst n AND msk = ip AND msk \<longrightarrow> fst (snd n) < msk)"
proof (induction coins t ip msk clist arbitrary: t' clist' coins' rule: delete_ip_subtree.induct)
  case (2 coins i m c l r ip0 msk clist0)
  obtain l' clist1 coins1 where l: "delete_ip_subtree coins l (ip0 AND msk) msk clist0 = (l', clist1, coins1)"
    by (metis prod_cases3)
  obtain r' clist2 coins2 where r: "delete_ip_subtree coins1 r (ip0 AND msk) msk clist1 = (r', clist2, coins2)"
    by (metis prod_cases3)
  have IHl: "subseq (nodes l') (nodes l)" "\<forall>n\<in>set (nodes l'). fst n AND msk = ip0 AND msk \<longrightarrow> fst (snd n) < msk"
    using "2.IH"(1) [OF refl l] by (simp_all add: and.assoc)
  have IHr: "subseq (nodes r') (nodes r)" "\<forall>n\<in>set (nodes r'). fst n AND msk = ip0 AND msk \<longrightarrow> fst (snd n) < msk"
    using "2.IH"(2) [OF refl l [symmetric] refl refl r] by (simp_all add: and.assoc)
  have both: "subseq (a @ b) (nodes l @ x # nodes r)" if "subseq a (nodes l)" "subseq b (nodes r)" for a b x
    using that by (intro list_emb_append_mono) auto
  show ?case
  proof (cases "i AND msk = ip0 AND msk \<and> \<not> m < msk")
    case False
    then have "t' = Node i m c l' r'" using "2.prems" l r by (auto simp: Let_def split: if_splits)
    with IHl IHr False show ?thesis by (auto intro: list_emb_append_mono)
  next
    case True
    have t': "t' = (if l' = Nil_tree then r' else if r' = Nil_tree then l'
        else if fst (flip coins2) then replace_by_pred l' r' else replace_by_succ r' l')"
      using "2.prems" l r True by (auto simp: Let_def split: if_splits prod.splits)
    have "\<exists>a b. subseq a (nodes l') \<and> subseq b (nodes r') \<and> nodes t' = a @ b"
      using replace_by_pred_nodes [of l' r'] replace_by_succ_nodes [of r' l']
      unfolding t' by (auto split: if_splits)
    then obtain a b where ab: "subseq a (nodes l')" "subseq b (nodes r')" "nodes t' = a @ b" by blast
    then have "subseq a (nodes l)" "subseq b (nodes r)"
      using IHl(1) IHr(1) subseq_order.trans by blast+
    then have "subseq (nodes t') (nodes (Node i m c l r))" using ab(3) both by simp
    moreover have "set (nodes t') \<subseteq> set (nodes l') \<union> set (nodes r')"
      using ab set_mono_subseq by fastforce
    ultimately show ?thesis using IHl(2) IHr(2) by blast
  qed
qed auto

subsection \<open>Reading dotted addresses\<close>

lemma IsDigit_eq: "IsDigit c = is_digit c"
  by (simp add: IsDigit_iff is_digit_def)

definition add_digit :: "32 word \<Rightarrow> char \<Rightarrow> 32 word" where
  "add_digit o' c = o' * 10 + (word_of_nat (byte c) AND 0xF)"

lemma is_address_digits:
  "\<forall>c\<in>set ds. is_digit c \<Longrightarrow>
     \<exists>p'. is_address_loop st p (ds @ s) = is_address_loop (st\<lparr>as_octet := foldl add_digit (as_octet st) ds\<rparr>) p' s"
proof (induction ds arbitrary: st p)
  case (Cons c ds)
  let ?st = "st\<lparr>as_octet := add_digit (as_octet st) c\<rparr>"
  have "is_address_loop st p ((c # ds) @ s) = is_address_loop ?st c (ds @ s)"
    using Cons.prems by (simp add: IsDigit_eq add_digit_def)
  moreover obtain p' where "is_address_loop ?st c (ds @ s) =
      is_address_loop (?st\<lparr>as_octet := foldl add_digit (as_octet ?st) ds\<rparr>) p' s"
    using Cons.IH [of ?st c] Cons.prems by auto
  ultimately show ?case by auto
qed auto

lemma add_digit_chr: "d < 10 \<Longrightarrow> add_digit o' (chr (48 + d)) = o' * 10 + word_of_nat d"
proof -
  assume d: "d < 10"
  have b: "byte (chr (48 + d)) = 48 + d" using d by simp
  have "\<forall>d<10. (word_of_nat (48 + d) :: 32 word) AND 0xF = word_of_nat d" by code_simp
  with d b show ?thesis by (simp add: add_digit_def)
qed

lemma foldl_add_digit: "foldl add_digit 0 (dec_nat n) = word_of_nat n"
proof (induction n rule: dec_nat.induct)
  case (1 n)
  show ?case
  proof (cases "n < 10")
    case True
    then show ?thesis by (simp add: dec_nat.simps [of n] add_digit_chr)
  next
    case False
    with 1 have IH: "foldl add_digit 0 (dec_nat (n div 10)) = word_of_nat (n div 10)" by simp
    have "word_of_nat (n div 10) * 10 + word_of_nat (n mod 10) = (word_of_nat (n div 10 * 10 + n mod 10) :: 32 word)"
      by (simp only: of_nat_add of_nat_mult) simp
    with False IH show ?thesis by (simp add: dec_nat.simps [of n] add_digit_chr)
  qed
qed

lemma is_address_number:
  "\<exists>p'. is_address_loop (st\<lparr>as_octet := 0\<rparr>) p (dec_nat n @ s) = is_address_loop (st\<lparr>as_octet := word_of_nat n\<rparr>) p' s"
  using is_address_digits [of "dec_nat n" "st\<lparr>as_octet := 0\<rparr>" p s] dec_nat_digits foldl_add_digit by auto

definition quad :: "nat \<Rightarrow> nat \<Rightarrow> nat \<Rightarrow> nat \<Rightarrow> cstr" where
  "quad a b c d = dec_nat a @ ''.'' @ dec_nat b @ ''.'' @ dec_nat c @ ''.'' @ dec_nat d"

definition quad_ip :: "nat \<Rightarrow> nat \<Rightarrow> nat \<Rightarrow> nat \<Rightarrow> 64 word" where
  "quad_ip a b c d = word_of_nat (((a * 256 + b) * 256 + c) * 256 + d)"

lemma ucast_octet: "n < 256 \<Longrightarrow> ucast (word_of_nat n :: 32 word) = (word_of_nat n :: 64 word)"
  by (rule unsigned_word_eqI) (simp add: unsigned_ucast_eq unsigned_of_nat take_bit_nat_eq_self)

lemma octet_small: "n < 256 \<Longrightarrow> \<not> 255 < (word_of_nat n :: 32 word)"
  by (simp add: word_less_nat_alt unsigned_of_nat take_bit_nat_eq_self)

lemma push8: "push_bit 8 (w :: 64 word) = w * 256"
  by (simp add: push_bit_eq_mult)

lemma is_address_dot:
  "n < 256 \<Longrightarrow> \<exists>p'. is_address_loop (st\<lparr>as_octet := 0\<rparr>) p (dec_nat n @ CHR ''.'' # s) =
     is_address_loop (st\<lparr>as_ip := as_ip st * 256 + word_of_nat n, as_octet := 0, as_dots := as_dots st + 1\<rparr>) p' s"
proof -
  assume n: "n < 256"
  obtain p' where "is_address_loop (st\<lparr>as_octet := 0\<rparr>) p (dec_nat n @ CHR ''.'' # s) =
      is_address_loop (st\<lparr>as_octet := word_of_nat n\<rparr>) p' (CHR ''.'' # s)"
    using is_address_number by blast
  moreover have "\<not> IsDigit (CHR ''.'')" by (simp add: IsDigit_eq is_digit_def)
  ultimately show ?thesis using n by (auto simp: octet_small ucast_octet push8)
qed

lemma is_address_quad:
  assumes "a < 256" "b < 256" "c < 256" "d < 256"
  shows "\<exists>p. is_address (quad a b c d @ s) =
    is_address_loop \<lparr>as_ip = word_of_nat ((a * 256 + b) * 256 + c), as_octet = word_of_nat d,
      as_found_mask = False, as_dots = 3, as_out = 0\<rparr> p s"
proof -
  let ?st = "\<lambda>ip n. \<lparr>as_ip = ip, as_octet = 0, as_found_mask = False, as_dots = n, as_out = 0\<rparr>"
  have upd: "(?st ip n)\<lparr>as_octet := 0\<rparr> = ?st ip n" for ip n by simp
  obtain p1 where 1: "is_address (quad a b c d @ s) =
      is_address_loop (?st (word_of_nat a) 1) p1 (dec_nat b @ CHR ''.'' # dec_nat c @ CHR ''.'' # dec_nat d @ s)"
    using is_address_dot [OF assms(1), of "?st 0 0" NUL] by (auto simp: is_address_def quad_def)
  obtain p2 where 2: "is_address_loop (?st (word_of_nat a) 1) p1 (dec_nat b @ CHR ''.'' # dec_nat c @ CHR ''.'' # dec_nat d @ s) =
      is_address_loop (?st (word_of_nat a * 256 + word_of_nat b) 2) p2 (dec_nat c @ CHR ''.'' # dec_nat d @ s)"
    using is_address_dot [OF assms(2), of "?st (word_of_nat a) 1" p1] by (auto simp: numeral_2_eq_2)
  obtain p3 where 3: "is_address_loop (?st (word_of_nat a * 256 + word_of_nat b) 2) p2 (dec_nat c @ CHR ''.'' # dec_nat d @ s) =
      is_address_loop (?st ((word_of_nat a * 256 + word_of_nat b) * 256 + word_of_nat c) 3) p3 (dec_nat d @ s)"
    using is_address_dot [OF assms(3), of "?st (word_of_nat a * 256 + word_of_nat b) 2" p2] by (auto simp: numeral_2_eq_2 numeral_3_eq_3)
  obtain p4 where 4: "is_address_loop (?st ((word_of_nat a * 256 + word_of_nat b) * 256 + word_of_nat c) 3) p3 (dec_nat d @ s) =
      is_address_loop ((?st ((word_of_nat a * 256 + word_of_nat b) * 256 + word_of_nat c) 3)\<lparr>as_octet := word_of_nat d\<rparr>) p4 s"
    using is_address_number [of "?st ((word_of_nat a * 256 + word_of_nat b) * 256 + word_of_nat c) 3" p3 d s] by auto
  from 1 2 3 4 show ?thesis by (intro exI [of _ p4]) simp
qed

lemma cidr_bits: "k \<le> 32 \<Longrightarrow> prefix_mask (cidr_to_bitmask ! k) (32 - k)"
proof -
  have "\<forall>k\<le>32. cidr_to_bitmask ! k = push_bit (32 - k) (mask k)"
    by code_simp
  then show "k \<le> 32 \<Longrightarrow> ?thesis" by (simp add: prefix_mask_def)
qed

lemma is_address_dotted:
  assumes o: "a < 256" "b < 256" "c < 256" "d < 256"
  shows "is_address (quad a b c d) = Some (quad_ip a b c d, 0xFFFFFFFF)"
proof -
  have sum: "word_of_nat ((a * 256 + b) * 256 + c) * 256 + word_of_nat d = quad_ip a b c d"
    by (simp add: quad_ip_def)
  show ?thesis using is_address_quad [OF o, of "[]"] o sum by (auto simp: Let_def push8 ucast_octet)
qed

subsection \<open>Properties\<close>

text \<open>
  \<open>is_address\<close> reads a dotted quad as the address with its four octets and the
  mask of a single host, and \<open>quad/k\<close> with \<open>k\<close> up to 32 as that address, unmasked, with the mask
  of the \<open>k\<close> high bits. It does not count the dots nor check the last octet: five octets give a
  number beyond 32 bits (whose first byte is then no index into the tables of 256 trees), and
  \<open>1.2.3.999\<close> is taken for \<open>1.2.6.231\<close>.
\<close>

theorem is_address_reads:
  "(a < 256 \<and> b < 256 \<and> c < 256 \<and> d < 256 \<longrightarrow>
      is_address (quad a b c d) = Some (quad_ip a b c d, 0xFFFFFFFF) \<and>
      (k \<le> 32 \<longrightarrow> is_address (quad a b c d @ ''/'' @ dec_nat k) = Some (quad_ip a b c d, cidr_to_bitmask ! k) \<and>
         prefix_mask (cidr_to_bitmask ! k) (32 - k))) \<and>
   (\<exists>ip msk. is_address ''1.2.3.4.5'' = Some (ip, msk) \<and> 256 \<le> drop_bit 24 ip) \<and>
   is_address ''1.2.3.999'' = is_address ''1.2.6.231''"
proof (intro conjI impI)
  assume "a < 256 \<and> b < 256 \<and> c < 256 \<and> d < 256"
  then have o: "a < 256" "b < 256" "c < 256" "d < 256" by auto
  have sum: "word_of_nat ((a * 256 + b) * 256 + c) * 256 + word_of_nat d = quad_ip a b c d"
    by (simp add: quad_ip_def)
  show "is_address (quad a b c d) = Some (quad_ip a b c d, 0xFFFFFFFF)"
    by (rule is_address_dotted [OF o])
  show "is_address (quad a b c d @ ''/'' @ dec_nat k) = Some (quad_ip a b c d, cidr_to_bitmask ! k)" if k: "k \<le> 32"
  proof -
    have "\<not> IsDigit (CHR ''/'')" by (simp add: IsDigit_eq is_digit_def)
    then obtain p where 1: "is_address (quad a b c d @ ''/'' @ dec_nat k) =
        is_address_loop \<lparr>as_ip = 0, as_octet = 0, as_found_mask = True, as_dots = 3, as_out = quad_ip a b c d\<rparr>
          p (dec_nat k @ [])"
      using is_address_quad [OF o, of "''/'' @ dec_nat k"] o sum
      by (auto simp: octet_small push8 ucast_octet)
    obtain p' where 2: "is_address_loop \<lparr>as_ip = 0, as_octet = 0, as_found_mask = True, as_dots = 3, as_out = quad_ip a b c d\<rparr>
          p (dec_nat k @ []) =
        is_address_loop \<lparr>as_ip = 0, as_octet = word_of_nat k, as_found_mask = True, as_dots = 3, as_out = quad_ip a b c d\<rparr> p' []"
      using is_address_number [of "\<lparr>as_ip = 0, as_octet = 0, as_found_mask = True, as_dots = 3, as_out = quad_ip a b c d\<rparr>" p k "[]"]
      by auto
    have "unat (word_of_nat k :: 64 word) = k" using k by (simp add: unsigned_of_nat take_bit_nat_eq_self)
    then show ?thesis using k unfolding 1 2 by (simp add: Let_def ucast_octet word_less_nat_alt)
  qed
  show "prefix_mask (cidr_to_bitmask ! k) (32 - k)" if "k \<le> 32" using that by (rule cidr_bits)
next
  show "\<exists>ip msk. is_address ''1.2.3.4.5'' = Some (ip, msk) \<and> 256 \<le> drop_bit 24 ip"
    by (simp add: is_address_def IsDigit_eq is_digit_def Let_def)
  show "is_address ''1.2.3.999'' = is_address ''1.2.6.231''"
    by (simp add: is_address_def IsDigit_eq is_digit_def Let_def)
qed

theorem is_address_reads_witness:
  "is_address ''10.0.0.0/8'' = Some (0x0A000000, 0xFF000000)"
proof -
  have t: "quad 10 0 0 0 @ ''/'' @ dec_nat 8 = ''10.0.0.0/8''" by code_simp
  show ?thesis
    using is_address_reads [of 10 0 0 0 8] unfolding t [symmetric] by (simp add: quad_ip_def cidr_to_bitmask_def)
qed

end
