(* ===== verification/IrcString.thy ===== *)
theory IrcString
  imports IpTree
begin

text \<open>
  The string helpers of \<open>src/irc_string.c\<close>: bounded copies, the cleaning of what is shown to
  operators, the tokeniser, dotted quads, durations and the stripping of formatting codes.
\<close>

subsection \<open>Copies\<close>

text \<open>
  \<open>strncpy_irc\<close>: the bytes stored from the destination on; with \<open>n\<close> bytes or more in the source no
  terminator is stored.
\<close>

fun strncpy_irc :: "cstr \<Rightarrow> nat \<Rightarrow> char list" where
  "strncpy_irc s 0 = []"
| "strncpy_irc [] (Suc n) = [NUL]"
| "strncpy_irc (c # s) (Suc n) = (if c = NUL then [NUL] else c # strncpy_irc s n)"

text \<open>\<open>clean_string\<close>; \<open>n\<close> is \<open>endp - d\<close>, the bytes left before the terminator.\<close>

fun clean_loop :: "nat \<Rightarrow> cstr \<Rightarrow> cstr" where
  "clean_loop n [] = []"
| "clean_loop n (c # s) =
     (if n = 0 \<or> c = NUL then []
      else if byte c < 32 then
        (if 1 < n then CHR ''^'' # chr (0x40 + byte c) # clean_loop (n - 2) s
         else CHR ''^'' # clean_loop (n - 1) s)
      else if 126 < byte c then
        (if 4 < n
         then (let t = CHR 0x5C # dec_nat (byte c) in t @ clean_loop (n - length t) s)
         else clean_loop n s)
      else c # clean_loop (n - 1) s)"

definition clean_string :: "cstr \<Rightarrow> nat \<Rightarrow> cstr" where
  "clean_string src len = clean_loop (len - 1) src"

subsection \<open>Tokens\<close>

text \<open>\<open>strtoken\<close> from a position on: the token and the position after it, \<open>None\<close> for a null pointer.\<close>

definition strtoken :: "cstr \<Rightarrow> cstr option \<Rightarrow> (cstr \<times> cstr option) option" where
  "strtoken fs pos =
     (case pos of
        None \<Rightarrow> None
      | Some s \<Rightarrow>
          (let t = dropWhile (\<lambda>c. c \<in> set fs) s in
           if t = [] then None
           else Some (takeWhile (\<lambda>c. c \<notin> set fs) t,
                      (case dropWhile (\<lambda>c. c \<notin> set fs) t of [] \<Rightarrow> None | _ # r \<Rightarrow> Some r))))"

text \<open>All the tokens, as the loops over \<open>strtoken\<close> see them.\<close>

function strtokens :: "cstr \<Rightarrow> cstr option \<Rightarrow> cstr list" where
  "strtokens fs pos = (case strtoken fs pos of None \<Rightarrow> [] | Some (t, pos') \<Rightarrow> t # strtokens fs pos')"
  by pat_completeness auto
termination
proof (relation "measure (\<lambda>(fs, pos). case pos of None \<Rightarrow> 0 | Some s \<Rightarrow> Suc (length s))")
  fix fs pos x t pos'
  assume "strtoken fs pos = Some x" "(t, pos') = x"
  then obtain s where s: "pos = Some s" "dropWhile (\<lambda>c. c \<in> set fs) s \<noteq> []"
    "pos' = (case dropWhile (\<lambda>c. c \<notin> set fs) (dropWhile (\<lambda>c. c \<in> set fs) s) of [] \<Rightarrow> None | _ # r \<Rightarrow> Some r)"
    by (auto simp: strtoken_def Let_def split: option.splits if_splits)
  have "length (dropWhile (\<lambda>c. c \<notin> set fs) (dropWhile (\<lambda>c. c \<in> set fs) s)) \<le> length s"
    by (meson le_trans length_dropWhile_le)
  then show "((fs, pos'), fs, pos) \<in> measure (\<lambda>(fs, pos). case pos of None \<Rightarrow> 0 | Some s \<Rightarrow> Suc (length s))"
    using s(1,3) by (cases "dropWhile (\<lambda>c. c \<notin> set fs) (dropWhile (\<lambda>c. c \<in> set fs) s)") simp_all
qed simp

declare strtokens.simps [simp del]

text \<open>\<open>canonize\<close> drops the repeated items of a comma list; items are compared without case.\<close>

fun unique_items :: "cstr list \<Rightarrow> cstr list \<Rightarrow> cstr list" where
  "unique_items seen [] = seen"
| "unique_items seen (s # ss) =
     (if \<exists>t\<in>set seen. irc_eq s t then unique_items seen ss else unique_items (seen @ [s]) ss)"

fun join_comma :: "cstr list \<Rightarrow> cstr" where
  "join_comma [] = []"
| "join_comma [s] = s"
| "join_comma (s # t # ss) = s @ CHR '','' # join_comma (t # ss)"

definition canonize :: "cstr \<Rightarrow> cstr" where
  "canonize buffer = join_comma (unique_items [] (strtokens '','' (Some buffer)))"

subsection \<open>Addresses and durations\<close>

definition IpQuadTab :: "cstr list" where
  "IpQuadTab = map dec_nat [0..<256]"

definition inetntoa :: "nat \<Rightarrow> nat \<Rightarrow> nat \<Rightarrow> nat \<Rightarrow> cstr" where
  "inetntoa a b c d =
     IpQuadTab ! a @ ''.'' @ IpQuadTab ! b @ ''.'' @ IpQuadTab ! c @ ''.'' @ IpQuadTab ! d"

text \<open>
  \<open>strtol_end\<close> is where \<open>strtol\<close> stops reading. \<open>time_str\<close> multiplies in 32 bits, the range of \<open>int\<close>.
\<close>

definition strtol_end :: "cstr \<Rightarrow> cstr" where
  "strtol_end s =
     (let t = dropWhile (\<lambda>c. c = CHR '' '' \<or> (9 \<le> byte c \<and> byte c \<le> 13)) s;
          u = (if hd0 t = CHR ''-'' \<or> hd0 t = CHR ''+'' then tl t else t)
      in if is_digit (hd0 u) then dropWhile is_digit u else s)"

definition time_str :: "cstr \<Rightarrow> 32 word" where
  "time_str s =
     (let amount = word_of_int (strtol s) in
      case strtol_end s of [] \<Rightarrow> amount
      | c # _ \<Rightarrow>
          if c = CHR ''s'' then amount
          else if c = CHR ''m'' then amount * 60
          else if c = CHR ''h'' then amount * 3600
          else if c = CHR ''d'' then amount * 86400
          else - 1)"

subsection \<open>Formatting codes\<close>

text \<open>\<open>col\<close> after a colour code, with \<open>nc\<close> the digits read since; \<open>out\<close> is what is kept of an ordinary byte.\<close>

fun strip_loop :: "(char \<Rightarrow> char list) \<Rightarrow> bool \<Rightarrow> nat \<Rightarrow> cstr \<Rightarrow> cstr" where
  "strip_loop out col nc [] = []"
| "strip_loop out col nc (c # s) =
     (if col \<and> (IsDigit c \<and> nc < 2 \<or> c = CHR '','' \<and> nc < 3)
      then strip_loop out col (if c = CHR '','' then 0 else nc + 1) s
      else if byte c = 3 then strip_loop out True 0 s
      else if byte c \<in> {2, 31, 22, 15} then strip_loop out False nc s
      else out c @ strip_loop out False nc s)"

definition strip_control_codes :: "cstr \<Rightarrow> cstr" where
  "strip_control_codes text = strip_loop (\<lambda>c. [c]) False 0 text"

definition strip_control_codes_lower :: "cstr \<Rightarrow> cstr" where
  "strip_control_codes_lower text =
     strip_loop (\<lambda>c. if c = CHR '' '' \<or> byte c = 9 then [] else [ToLower c]) False 0 text"

definition strip_rn :: "cstr \<Rightarrow> cstr" where
  "strip_rn txt = takeWhile (\<lambda>c. byte c \<noteq> 10) (takeWhile (\<lambda>c. byte c \<noteq> 13) txt)"

subsection \<open>Properties\<close>

lemma length_dec_nat: "100 \<le> n \<Longrightarrow> n < 1000 \<Longrightarrow> length (dec_nat n) = 3"
proof -
  assume "100 \<le> n" "n < 1000"
  then have "\<not> n < 10" "\<not> n div 10 < 10" "n div 10 div 10 < 10" by linarith+
  then show ?thesis
    by (simp only: dec_nat.simps [of n] dec_nat.simps [of "n div 10"] dec_nat.simps [of "n div 10 div 10"]
        if_False if_True) simp
qed

lemma clean_loop_safe:
  "length (clean_loop n s) \<le> n \<and> (\<forall>c\<in>set (clean_loop n s). 32 \<le> byte c \<and> byte c \<le> 126)"
proof (induction n s rule: clean_loop.induct)
  case (2 n c s)
  consider "n = 0 \<or> c = NUL" | "0 < n" "c \<noteq> NUL" "byte c < 32" | "0 < n" "126 < byte c" |
    "0 < n" "32 \<le> byte c" "byte c \<le> 126" by force
  then show ?case
  proof cases
    case 3
    have l: "length (dec_nat (byte c)) = 3"
      using 3(2) nat_of_char_less_256 [of c] by (intro length_dec_nat) linarith+
    have d: "\<forall>x\<in>set (dec_nat (byte c)). 32 \<le> byte x \<and> byte x \<le> 126"
      using dec_nat_digits [of _ "byte c"] unfolding is_digit_def by fastforce
    have "c \<noteq> NUL" using 3 by auto
    show ?thesis
    proof (cases "4 < n")
      case True
      have eq: "clean_loop n (c # s) = (CHR 0x5C # dec_nat (byte c)) @ clean_loop (n - 4) s"
        using True 3 l \<open>c \<noteq> NUL\<close> by (simp add: Let_def)
      have "length (clean_loop (n - 4) s) \<le> n - 4" "\<forall>x\<in>set (clean_loop (n - 4) s). 32 \<le> byte x \<and> byte x \<le> 126"
        using "2.IH"(3) [OF _ _ _ True refl] 3 l \<open>c \<noteq> NUL\<close> by auto
      then show ?thesis unfolding eq using l d True by auto
    next
      case False
      then show ?thesis using 2 3 \<open>c \<noteq> NUL\<close> by auto
    qed
  qed (use 2 in \<open>auto simp: of_char_of\<close>)
qed simp

text \<open>
  What \<open>clean_string\<close> stores, terminator included, fits the \<open>len\<close> bytes of the
  destination, and everything it stores is printable ASCII: no control code or 8-bit byte of a client reaches
  an operator's terminal.
\<close>

theorem clean_string_safe:
  assumes "0 < len"
  shows "length (clean_string src len @ [NUL]) \<le> len \<and>
    (\<forall>c\<in>set (clean_string src len). 32 \<le> byte c \<and> byte c \<le> 126)"
  using clean_loop_safe [of "len - 1" src] assms by (auto simp: clean_string_def)

theorem clean_string_safe_witness:
  "length (clean_string [CHR 0x03, CHR ''a'', CHR 0xFF] 4 @ [NUL]) \<le> 4"
  using clean_string_safe [of 4 "[CHR 0x03, CHR ''a'', CHR 0xFF]"] by simp

text \<open>
  \<open>is_address\<close> reads what \<open>inetntoa\<close> prints: the text of the four bytes of an
  address is read back as that address, with the mask of a single host.
\<close>

theorem inetntoa_roundtrip:
  assumes "a < 256" "b < 256" "c < 256" "d < 256"
  shows "is_address (inetntoa a b c d) = Some (quad_ip a b c d, 0xFFFFFFFF)"
proof -
  have "inetntoa a b c d = quad a b c d" using assms by (simp add: inetntoa_def IpQuadTab_def quad_def)
  then show ?thesis using is_address_dotted [OF assms] by simp
qed

theorem inetntoa_roundtrip_witness: "is_address (inetntoa 10 1 2 3) = Some (0x0A010203, 0xFFFFFFFF)"
  using inetntoa_roundtrip [of 10 1 2 3] by (simp add: quad_ip_def)

end
