(* ===== verification/ChanCmd.thy ===== *)
theory ChanCmd
  imports ChanMode Private IrcString
begin

text \<open>
  The channel commands of \<open>src/channel.c\<close>: \<open>PART\<close>, \<open>KICK\<close>, \<open>KNOCK\<close>, \<open>TOPIC\<close>, \<open>INVITE\<close> and \<open>SAMODE\<close>.
  A handler gets the connection \<open>cptr\<close>, the source \<open>sptr\<close> and the parameters; \<open>parv ! 0\<close> is the name of
  the source. \<open>lk\<close> stands for \<open>find_client\<close> or \<open>find_person\<close>, \<open>hist\<close> for \<open>get_history\<close>.
\<close>

subsection \<open>Helpers\<close>

definition UMODE_REGMSG :: "32 word" where "UMODE_REGMSG = 0x01000000"
definition UMODE_SADMIN :: "32 word" where "UMODE_SADMIN = 0x10"
definition FLAGS_SPATH :: "32 word" where "FLAGS_SPATH = 0x10000"
definition IsZombie :: "client \<Rightarrow> bool" where "IsZombie c \<longleftrightarrow> has (c_umodes c) UMODE_ZOMBIE"
definition IsRegMsg :: "client \<Rightarrow> bool" where "IsRegMsg c \<longleftrightarrow> has (c_umodes c) UMODE_REGMSG"
definition IsSAdmin :: "client \<Rightarrow> bool" where "IsSAdmin c \<longleftrightarrow> has (c_umodes c) UMODE_SADMIN"
definition IsServicesPath :: "client \<Rightarrow> bool" where "IsServicesPath c \<longleftrightarrow> has (c_flags c) FLAGS_SPATH"
definition MyConnect :: "client \<Rightarrow> bool" where "MyConnect c \<longleftrightarrow> local_flag c"
definition IsPrivileged :: "client \<Rightarrow> bool" where "IsPrivileged c \<longleftrightarrow> IsAnOper c \<or> IsServer c"
definition IsChannelName :: "cstr \<Rightarrow> bool" where "IsChannelName nm \<longleftrightarrow> hd0 nm \<in> {CHR ''#'', CHR ''&''}"

text \<open>\<open>:me num name text\<close> to a client.\<close>

definition numeric :: "nat \<Rightarrow> cstr \<Rightarrow> cstr \<Rightarrow> cstr \<Rightarrow> ircd \<Rightarrow> ircd" where
  "numeric cl num name txt s = send (ToOne cl) ('':'' @ me_name (cfg s) @ '' '' @ num @ '' '' @ name @ '' '' @ txt) s"

definition need_more :: "nat \<Rightarrow> cstr \<Rightarrow> cstr \<Rightarrow> ircd \<Rightarrow> ircd" where
  "need_more cl name cmd s = numeric cl ''461'' name (cmd @ '' :Not enough parameters'') s"

text \<open>\<open>if ((p = strchr(name, ','))) *p = '\0'\<close>\<close>

definition first_item :: "cstr \<Rightarrow> cstr" where
  "first_item s = takeWhile (\<lambda>c. c \<noteq> CHR '','') s"

text \<open>What \<open>get_channel\<close> leaves of a name, and the channel it finds.\<close>

definition chan_arg :: "nat \<Rightarrow> cstr \<Rightarrow> ircd \<Rightarrow> cstr" where
  "chan_arg cl name s = (if MyClient (clients s cl) then take CHANNELLEN name else name)"

definition lookup_channel :: "cstr \<Rightarrow> ircd \<Rightarrow> nat option" where
  "lookup_channel name s = hash_find_channel (chan_name s) (chan_table s) name None"

text \<open>To the members if the source is visible, to the source alone if it is not and is local.\<close>

definition tell_channel :: "nat \<Rightarrow> nat \<Rightarrow> cstr \<Rightarrow> ircd \<Rightarrow> ircd" where
  "tell_channel ch cl m s =
     (if \<not> IsStealth (clients s cl) then send (ToChannel ch) m s
      else if MyClient (clients s cl) then send (ToOne cl) m s else s)"

subsection \<open>PART\<close>

definition OPER_SPAM_COUNTDOWN :: int where "OPER_SPAM_COUNTDOWN = 5"
definition JOIN_LEAVE_COUNT_EXPIRE_TIME :: int where "JOIN_LEAVE_COUNT_EXPIRE_TIME = 120"

text \<open>The count of quick joins and leaves, kept by \<open>PART\<close> and \<open>JOIN 0\<close>.\<close>

definition note_leave :: "nat \<Rightarrow> ircd \<Rightarrow> ircd" where
  "note_leave cl s =
     (let c = clients s cl; now = CurrentTime s; k = join_leave_count c in
      if \<not> MyConnect c \<or> IsAnOper c then s
      else if SPAMNUM (cfg s) \<noteq> 0 \<and> SPAMNUM (cfg s) \<le> k then
        upd_client cl (\<lambda>c. c\<lparr>oper_warn_count_down := OPER_SPAM_COUNTDOWN\<rparr>)
          (send ToOps (''User '' @ c_name c @ '' ('' @ c_username c @ ''@'' @ c_host c @ '') is a possible spambot'') s)
      else
        let t_delta = now - last_leave_time c; gone = t_delta div JOIN_LEAVE_COUNT_EXPIRE_TIME;
            k' = (if JOIN_LEAVE_COUNT_EXPIRE_TIME < t_delta then (if k < gone then 0 else k - gone)
                  else if now - last_join_time c < SPAMTIME (cfg s) then k + 1 else k)
        in upd_client cl (\<lambda>c. c\<lparr>join_leave_count := k', last_leave_time := now\<rparr>) s)"

definition part_one :: "nat \<Rightarrow> cstr \<Rightarrow> cstr \<Rightarrow> ircd \<Rightarrow> ircd" where
  "part_one sptr src name0 s =
     (let name = chan_arg sptr name0 s in
      case lookup_channel name s of
        None \<Rightarrow> numeric sptr ''403'' src (name @ '' :No such channel'') s
      | Some ch \<Rightarrow>
          if \<not> IsMember s sptr ch then numeric sptr ''442'' src (name @ '' :You're not on that channel'') s
          else
            let line = '':'' @ src @ '' PART '' @ name
            in remove_user_from_channel sptr ch (tell_channel ch sptr line (send (ToMatchServs ch) line s)))"

definition m_part :: "nat \<Rightarrow> cstr list \<Rightarrow> ircd \<Rightarrow> ircd" where
  "m_part sptr parv s =
     (if length parv < 2 \<or> parv ! 1 = [] then need_more sptr (parv ! 0) ''PART'' s
      else
        let names = strtokens '','' (Some (parv ! 1)); s1 = (if names \<noteq> [] then note_leave sptr s else s)
        in foldl (\<lambda>t name. part_one sptr (parv ! 0) name t) s1 names)"

subsection \<open>KICK\<close>

text \<open>
  The tests on a local source, once the target is known to be on the channel. The first value says that
  the command ends here; a refusal that does not end it is only sent.
\<close>

definition cant_kick :: "nat \<Rightarrow> cstr \<Rightarrow> cstr \<Rightarrow> nat \<Rightarrow> ircd \<Rightarrow> ircd" where
  "cant_kick sptr src user ch s =
     numeric sptr ''485'' src (user @ '' :Cannot kick/deop channel administrator on '' @ chname (chans s ch)) s"

definition kick_refused :: "nat \<Rightarrow> nat \<Rightarrow> cstr \<Rightarrow> cstr \<Rightarrow> nat \<Rightarrow> nat \<Rightarrow> ircd \<Rightarrow> ircd \<times> bool" where
  "kick_refused cptr sptr src user wh ch s =
     (let me = clients s sptr; w = clients s wh; md = md_mode (mode (chans s ch));
          refuse_it = cant_kick sptr src user ch
      in if OperKickProtection (cfg s) \<and> \<not> IsOper me \<and> IsOper w then
           (refuse_it (send (ToOne wh) ('':'' @ me_name (cfg s) @ '' NOTICE '' @ c_name w @ '' :'' @ src @
              '' is trying to kick you from '' @ chname (chans s ch)) s), True)
         else
           let s1 = (if IsService w \<and> \<not> IsService me \<and> IsSAdmin me then refuse_it s else s);
               s2 = (if has md MODE_OPERONLY \<and> \<not> IsOper me \<and> \<not> IsService me then refuse_it s1 else s1);
               s3 = (if has md MODE_ADMINONLY \<and> \<not> IsAdmin me \<and> \<not> IsService me then refuse_it s2 else s2)
           in if \<not> IsServer (clients s cptr) \<and> \<not> IsService me \<and> is_chan_adm wh ch s \<noteq> 0 \<and> is_chan_adm sptr ch s = 0 \<or>
                 IsService w
              then (refuse_it s3, True) else (s3, False))"

definition kick_member :: "nat \<Rightarrow> cstr \<Rightarrow> cstr \<Rightarrow> cstr \<Rightarrow> nat \<Rightarrow> nat \<Rightarrow> ircd \<Rightarrow> ircd" where
  "kick_member sptr src name comment wh ch s =
     (let line = '':'' @ src @ '' KICK '' @ name @ '' '' @ c_name (clients s wh) @ '' :'' @ comment;
          s1 = send (ToMatchServs ch) line (send (ToChannel ch) line s);
          s2 = (if MyClient (clients s1 wh) then upd_client wh (\<lambda>c. c\<lparr>c_since := CurrentTime s1 + 10\<rparr>) s1 else s1)
      in remove_user_from_channel wh ch s2)"

definition kick_target ::
  "(cstr \<Rightarrow> nat option) \<Rightarrow> (cstr \<Rightarrow> nat option) \<Rightarrow> nat \<Rightarrow> nat \<Rightarrow> cstr \<Rightarrow> cstr \<Rightarrow> cstr \<Rightarrow> cstr \<Rightarrow> nat \<Rightarrow> ircd \<Rightarrow> ircd" where
  "kick_target lk hist cptr sptr src user name comment ch s1 =
     (let me = clients s1 sptr; (s2, found) = find_chasing lk hist sptr user s1
      in case found of None \<Rightarrow> s2
         | Some wh \<Rightarrow>
           let missing = numeric sptr ''441'' src (user @ '' '' @ name @ '' :They aren't on that channel'')
           in if MyClient me \<and> IsStealth (clients s2 wh) then missing s2
              else if \<not> IsMember s2 wh ch then missing s2
              else
                let (s3, stop) = (if MyClient me then kick_refused cptr sptr src user wh ch s2 else (s2, False))
                in if stop then s3 else kick_member sptr src name comment wh ch s3)"

definition m_kick ::
  "(cstr \<Rightarrow> nat option) \<Rightarrow> (cstr \<Rightarrow> nat option) \<Rightarrow> nat \<Rightarrow> nat \<Rightarrow> cstr list \<Rightarrow> ircd \<Rightarrow> ircd" where
  "m_kick lk hist cptr sptr parv s =
     (if length parv < 3 \<or> parv ! 1 = [] then need_more sptr (parv ! 0) ''KICK'' s
      else
        let me = clients s sptr; src = parv ! 0;
            s1 = (if IsServer me then send ToOps (''KICK from '' @ src @ '' for '' @ parv ! 1 @ '' '' @ parv ! 2) s else s);
            comment = take TOPICLEN (if length parv = 3 \<or> parv ! 3 = [] then src else parv ! 3);
            name = chan_arg sptr (first_item (parv ! 1)) s1
        in case (if name = [] then None else lookup_channel name s1) of
             None \<Rightarrow> numeric sptr ''403'' src (name @ '' :No such channel'') s1
           | Some ch \<Rightarrow>
               if \<not> IsServer me \<and> \<not> IsService me \<and> is_chan_op sptr ch s1 = 0 \<and>
                  (MyConnect me \<or> channelts (chans s1 ch) = 0)
               then numeric sptr ''482'' src (chname (chans s1 ch) @ '' :You're not channel operator'') s1
               else kick_target lk hist cptr sptr src (first_item (parv ! 2)) name comment ch s1)"

subsection \<open>KNOCK\<close>

definition PACE_WAIT :: int where "PACE_WAIT = 0"
definition KNOCK_DELAY :: int where "KNOCK_DELAY = 300"

text \<open>
  \<open>last_used\<close> is the static variable of the function. The refusal of a banned user has one argument
  less than its format: what the formatter then reads is undefined.
\<close>

definition knock_notice :: "nat \<Rightarrow> cstr \<Rightarrow> ircd \<Rightarrow> ircd" where
  "knock_notice sptr txt s =
     send (ToOne sptr) ('':'' @ me_name (cfg s) @ '' NOTICE '' @ c_name (clients s sptr) @ '' :*** Notice -- '' @ txt) s"

definition m_knock :: "nat \<Rightarrow> cstr list \<Rightarrow> time_t \<Rightarrow> ircd \<Rightarrow> ub + (ircd \<times> time_t)" where
  "m_knock sptr parv last_used s =
     (if length parv < 2 then Inr (need_more sptr (parv ! 0) ''KNOCK'' s, last_used)
      else
        let name = first_item (parv ! 1); me = clients s sptr; now = CurrentTime s in
        case (if IsChannelName name then lookup_channel name s else None) of
          None \<Rightarrow> Inr (numeric sptr ''403'' (parv ! 0) (name @ '' :No such channel'') s, last_used)
        | Some ch \<Rightarrow>
            let c = chans s ch; md = mode c in
            if \<not> (has (md_mode md) MODE_INVITEONLY \<or> md_key md \<noteq> [] \<or> md_limit md \<noteq> 0 \<and> md_limit md \<le> users c)
            then Inr (knock_notice sptr ''Channel is open!'' s, last_used)
            else if has (md_mode md) MODE_SECRET \<or> is_banned sptr ch s = CHFL_BAN then Inl MissingArgument
            else if IsMember s sptr ch then Inr (knock_notice sptr ''You are on channel already!'' s, last_used)
            else if \<not> IsAnOper me \<and> now < last_used + PACE_WAIT then Inr (s, last_used)
            else
              let used = (if IsAnOper me then last_used else now) in
              if \<not> IsAnOper me \<and> now < last_knock me + KNOCK_DELAY
              then Inr (knock_notice sptr (''Wait '' @ dec (KNOCK_DELAY - (now - last_knock me)) @ '' seconds before another knock'') s, used)
              else
                let s1 = knock_notice sptr ''Your KNOCK has been delivered''
                           (upd_client sptr (\<lambda>c. c\<lparr>last_knock := now\<rparr>) s);
                    msg = ''KNOCK: '' @ chname c @ '' ('' @ c_name me @ '' ['' @ c_username me @ ''@'' @ c_host me @
                            ''] has asked for an invite)''
                in Inr (if has_user me then send (ToChanOps ch) msg s1 else s1, used))"

subsection \<open>TOPIC\<close>

text \<open>Setting a topic, once the source may: \<open>tnick\<close> and \<open>ttime\<close> come with a server's \<open>TOPIC\<close>.\<close>

definition set_topic :: "nat \<Rightarrow> nat \<Rightarrow> cstr \<Rightarrow> nat \<Rightarrow> cstr option \<Rightarrow> time_t \<Rightarrow> cstr \<Rightarrow> ircd \<Rightarrow> ircd" where
  "set_topic cptr sptr src ch tnick ttime new s =
     (let c = chans s ch; on = services_on (cfg s) in
      if IsServer (clients s sptr) \<and>
         (ttime = topic_time c \<or> \<not> on \<and> topic_time c \<noteq> 0 \<and> topic_time c \<le> ttime \<or>
          on \<and> \<not> IsServicesPath (clients s cptr)) then s
      else if topic c = new then upd_chan ch (\<lambda>c. c\<lparr>topic_time := ttime\<rparr>) s
      else
        let s1 = upd_chan ch (\<lambda>c. c\<lparr>topic := take TOPICLEN new,
                   topic_nick := take NICKLEN (case tnick of Some n \<Rightarrow> n | None \<Rightarrow> c_name (clients s sptr)),
                   topic_time := (if ttime \<noteq> 0 then ttime else CurrentTime s)\<rparr>) s;
            c1 = chans s1 ch
        in send (ToChannel ch) ('':'' @ src @ '' TOPIC '' @ chname c1 @ '' :'' @ topic c1)
             (send (ToMatchServs ch) ('':'' @ src @ '' TOPIC '' @ chname c1 @ '' '' @ topic_nick c1 @ '' '' @
                lu (topic_time c1) @ '' :'' @ topic c1) s1))"

definition show_topic :: "nat \<Rightarrow> cstr \<Rightarrow> nat \<Rightarrow> ircd \<Rightarrow> ircd" where
  "show_topic sptr src ch s =
     (let c = chans s ch in
      if topic c = [] then numeric sptr ''331'' src (chname c @ '' :No topic is set.'') s
      else numeric sptr ''333'' src (chname c @ '' '' @ topic_nick c @ '' '' @ lu (topic_time c))
             (numeric sptr ''332'' src (chname c @ '' :'' @ topic c) s))"

definition m_topic :: "nat \<Rightarrow> nat \<Rightarrow> cstr list \<Rightarrow> ircd \<Rightarrow> ircd" where
  "m_topic cptr sptr parv s =
     (let me = clients s sptr; src = parv ! 0 in
      if IsZombie me then s
      else if length parv < 2 then need_more sptr src ''TOPIC'' s
      else
        let name = first_item (parv ! 1) in
        case (if IsChannelName name then lookup_channel name s else None) of
          None \<Rightarrow> numeric sptr ''403'' src (name @ '' :No such channel'') s
        | Some ch \<Rightarrow>
            if \<not> IsService me \<and> \<not> IsServer me \<and> \<not> IsMember s sptr ch
            then numeric sptr ''442'' src (name @ '' :You're not on that channel'') s
            else
              let full = IsServer (clients s cptr) \<and> 4 < length parv;
                  tnick = (if full then Some (parv ! 2) else None);
                  ttime = (if full then strtol (parv ! 3) else 0)
              in if length parv = 2 then show_topic sptr src ch s
                 else if \<not> has (md_mode (mode (chans s ch))) MODE_TOPICLIMIT \<or> is_chan_op sptr ch s \<noteq> 0 \<or>
                         IsService me \<or> IsServer me
                   then set_topic cptr sptr src ch tnick ttime (if full then parv ! 4 else parv ! 2) s
                 else numeric sptr ''482'' src (chname (chans s ch) @ '' :You're not channel operator'') s)"

subsection \<open>INVITE\<close>

text \<open>Who may invite: \<open>Inl\<close> is a refusal, \<open>Inr\<close> says whether the channel needs an invitation.\<close>

definition invite_needed :: "nat \<Rightarrow> nat \<Rightarrow> ircd \<Rightarrow> unit + bool" where
  "invite_needed sptr ch s =
     (let md = md_mode (mode (chans s ch)); me = clients s sptr in
      if has md (MODE_OPERONLY OR MODE_ADMINONLY)
      then (if \<not> IsOper me \<and> \<not> IsService me then Inl () else Inr True)
      else if has md (MODE_INVITEONLY OR MODE_NOBOTS)
      then (if is_chan_op sptr ch s = 0 \<and> \<not> IsService me then Inl () else Inr True)
      else Inr False)"

definition deliver_invite :: "nat \<Rightarrow> nat \<Rightarrow> cstr \<Rightarrow> cstr \<Rightarrow> nat \<Rightarrow> bool \<Rightarrow> ircd \<Rightarrow> ircd" where
  "deliver_invite sptr acptr src chan ch need s =
     (let s1 = (if MyConnect (clients s acptr) \<and> need then add_invite acptr ch s else s)
      in send (ToOne acptr) ('':'' @ src @ '' INVITE '' @ c_name (clients s1 acptr) @ '' :'' @ chan) s1)"

text \<open>The replies to a local source; the second value says that the target limit stops the command.\<close>

definition invite_replies :: "nat \<Rightarrow> nat \<Rightarrow> cstr \<Rightarrow> nat \<Rightarrow> bool \<Rightarrow> ircd \<Rightarrow> ircd \<times> bool" where
  "invite_replies sptr acptr src ch need s =
     (let a = clients s acptr; cn = chname (chans s ch);
          s1 = numeric sptr ''341'' src (c_name a @ '' '' @ cn) s;
          s2 = (case u_away a of None \<Rightarrow> s1 | Some w \<Rightarrow> numeric sptr ''301'' src (c_name a @ '' :'' @ w) s1);
          (s3, stop) = check_target_limit sptr acptr (c_name a) False cn s2
      in if stop then (s3, True)
         else if need \<and> has (md_mode (mode (chans s3 ch))) MODE_PRIVATE \<and> has_user a
           then (send (ToChanOps ch) ('':'' @ c_name (clients s3 sptr) @ '' PRIVMSG @'' @ cn @ '' :INVITE: '' @ cn @ '' ('' @
                   c_name (clients s3 sptr) @ '' invited '' @ c_name a @ '' ['' @ c_username a @ ''@'' @ c_host a @ ''])'') s3, False)
         else (s3, False))"

definition m_invite :: "(cstr \<Rightarrow> nat option) \<Rightarrow> nat \<Rightarrow> cstr list \<Rightarrow> ircd \<Rightarrow> ircd" where
  "m_invite lk sptr parv s =
     (let me = clients s sptr; src = parv ! 0;
          local_only = (\<lambda>f t. if MyClient (clients t sptr) then f t else t) in
      if IsZombie me then s
      else if length parv < 3 \<or> parv ! 1 = [] then need_more sptr src ''INVITE'' s
      else if \<not> has_user me then s
      else case lk (parv ! 1) of
        None \<Rightarrow> numeric sptr ''401'' src (parv ! 1 @ '' :No such nick/channel'') s
      | Some acptr \<Rightarrow>
        if \<not> IsService me \<and> \<not> IsIdentified me \<and> (IsRegMsg (clients s acptr) \<or> secure_mode (cfg s)) then s
        else
          let (s1, silenced) = is_silenced sptr acptr s; name = parv ! 2 in
          if silenced then s1
          else if \<not> check_channel_name name then numeric sptr ''479'' src (name @ '' :Illegal channel name'') s1
          else if \<not> IsChannelName name then local_only (numeric sptr ''403'' src (name @ '' :No such channel'')) s1
          else if \<not> MyConnect (clients s1 acptr) \<and> hd0 name = CHR ''&'' then s1
          else case lookup_channel name s1 of
            None \<Rightarrow> local_only (numeric sptr ''403'' src (name @ '' :No such channel'')) s1
          | Some ch \<Rightarrow>
            if \<not> IsService me \<and> \<not> IsMember s1 sptr ch
            then local_only (numeric sptr ''442'' src (name @ '' :You're not on that channel'')) s1
            else if IsMember s1 acptr ch \<and> \<not> IsStealth (clients s1 acptr)
            then local_only (numeric sptr ''443'' src (parv ! 1 @ '' '' @ name @ '' :is already on channel'')) s1
            else case invite_needed sptr ch s1 of
              Inl _ \<Rightarrow> local_only (numeric sptr ''482'' src (name @ '' :You're not channel operator'')) s1
            | Inr need \<Rightarrow>
                if MyConnect me then
                  (let (s2, stop) = invite_replies sptr acptr src ch need s1
                   in if stop then s2 else deliver_invite sptr acptr src name ch need s2)
                else deliver_invite sptr acptr src name ch need s1)"

subsection \<open>SAMODE\<close>

text \<open>
  \<open>me\<close> is the address of the client structure of this server. The line to the other servers has no
  place for the modes; they went out with the channel's \<open>MODE\<close>.
\<close>

definition m_samode ::
  "(cstr \<Rightarrow> nat option) \<Rightarrow> (cstr \<Rightarrow> nat option) \<Rightarrow> int \<Rightarrow> nat \<Rightarrow> nat \<Rightarrow> nat \<Rightarrow> cstr list \<Rightarrow> ircd \<Rightarrow> ircd" where
  "m_samode lk hist junk me cptr sptr parv s =
     (if \<not> IsPrivileged (clients s cptr)
      then numeric sptr ''481'' (parv ! 0) '':Permission Denied- You're not an IRC operator'' s
      else if length parv < 3 then s
      else case lookup_channel (parv ! 1) s of None \<Rightarrow> s
      | Some ch \<Rightarrow>
        if \<not> check_channel_name (parv ! 1) then s
        else
          let args = drop 2 parv;
              st = mode_run (mode_context lk hist False junk me me ch s) args s;
              modes = collapse_signs (modebuf st); params = parabuf st;
              used = c_name (clients s sptr) @ '' used SAMODE ('' @ chname (chans s ch) @ '' '' @ modes @
                (if params \<noteq> [] then '' '' else []) @ params @ '')'';
              s1 = set_channel_mode False lk hist False junk me me ch args s;
              s2 = send (ToMatchServs ch) ('':'' @ me_name (cfg s1) @ '' MODE '' @ chname (chans s1 ch) @ '' '') s1
          in if MyClient (clients s2 sptr)
             then send ToOps (''from '' @ me_name (cfg s2) @ '': '' @ used)
                    (send ToServers ('':'' @ me_name (cfg s2) @ '' GLOBOPS :'' @ used) s2)
             else s2)"

subsection \<open>Lemmas\<close>

named_theorems keeps

lemma send_keeps [keeps]: "chan_inv s \<Longrightarrow> chan_inv (send t m s)"
  by (rule chan_inv_send)

lemma notices_keep [keeps]:
  "chan_inv s \<Longrightarrow> chan_inv (numeric cl num nm txt s)" "chan_inv s \<Longrightarrow> chan_inv (need_more cl nm cmd s)"
  "chan_inv s \<Longrightarrow> chan_inv (tell_channel ch cl m s)" "chan_inv s \<Longrightarrow> chan_inv (cant_kick cl src user ch s)"
  "chan_inv s \<Longrightarrow> chan_inv (knock_notice cl txt s)"
  by (auto simp: numeric_def need_more_def tell_channel_def cant_kick_def knock_notice_def intro: keeps)

lemma note_leave_keeps [keeps]: "chan_inv s \<Longrightarrow> chan_inv (note_leave cl s)"
  by (auto simp: note_leave_def Let_def intro!: keeps chan_inv_upd_client)

text \<open>Case splits of a handler under the invariant.\<close>

lemma inv_splits:
  "(b \<Longrightarrow> chan_inv p) \<Longrightarrow> (\<not> b \<Longrightarrow> chan_inv q) \<Longrightarrow> chan_inv (if b then p else q)"
  "(x = None \<Longrightarrow> chan_inv p) \<Longrightarrow> (\<And>y. x = Some y \<Longrightarrow> chan_inv (f y)) \<Longrightarrow> chan_inv (case x of None \<Rightarrow> p | Some y \<Rightarrow> f y)"
  "(\<And>y. z = Inl y \<Longrightarrow> chan_inv (g y)) \<Longrightarrow> (\<And>y. z = Inr y \<Longrightarrow> chan_inv (h y)) \<Longrightarrow>
    chan_inv (case z of Inl y \<Rightarrow> g y | Inr y \<Rightarrow> h y)"
  by (auto split: option.split sum.split)

text \<open>What a step that only talks leaves alone.\<close>

definition same_store :: "ircd \<Rightarrow> ircd \<Rightarrow> bool" where
  "same_store s t \<longleftrightarrow> chans t = chans s \<and> channel t = channel s \<and> chan_table t = chan_table s \<and>
     channels_of t = channels_of s \<and> (\<forall>cl. has_user (clients t cl) = has_user (clients s cl) \<and>
       MyClient (clients t cl) = MyClient (clients s cl))"

lemma same_store_refl [simp]: "same_store s s"
  by (simp add: same_store_def)

lemma same_store_trans: "same_store s t \<Longrightarrow> same_store t u \<Longrightarrow> same_store s u"
  by (simp add: same_store_def)

lemma same_store_send [simp]: "same_store s (send a m t) = same_store s t"
  by (simp add: same_store_def channels_of_def fun_eq_iff)

lemma same_store_notices [simp]:
  "same_store s (numeric cl num nm txt t) = same_store s t" "same_store s (need_more cl nm cmd t) = same_store s t"
  "same_store s (tell_channel ch cl m t) = same_store s t" "same_store s (cant_kick cl src user ch t) = same_store s t"
  "same_store s (knock_notice cl txt t) = same_store s t"
  by (simp_all add: numeric_def need_more_def tell_channel_def cant_kick_def knock_notice_def)

lemma same_store_note_leave: "same_store s (note_leave cl s)"
  by (auto simp: same_store_def note_leave_def Let_def channels_of_def fun_eq_iff MyClient_def IsClient_def)

lemma same_store_iff:
  assumes "same_store s t"
  shows "members_of t = members_of s" "chan_name t = chan_name s" "IsMember t cl ch = IsMember s cl ch"
    "lookup_channel name t = lookup_channel name s" "chan_arg cl name t = chan_arg cl name s" "channel t = channel s"
    "channels_of t = channels_of s"
proof -
  have u: "u_channel (clients t cl) = u_channel (clients s cl)" for cl
    using assms by (simp add: same_store_def channels_of_def fun_eq_iff)
  show "members_of t = members_of s" "chan_name t = chan_name s" using assms
    by (simp_all add: same_store_def members_of_def chan_name_def fun_eq_iff)
  with assms show "lookup_channel name t = lookup_channel name s"
    by (simp add: lookup_channel_def same_store_def)
  show "IsMember t cl ch = IsMember s cl ch" "chan_arg cl name t = chan_arg cl name s"
    "channel t = channel s" "channels_of t = channels_of s"
    using assms by (simp_all add: same_store_def IsMember_def u chan_arg_def)
qed

lemma find_chasing_keeps: "chan_inv s \<Longrightarrow> chan_inv (fst (find_chasing lk hist cl user s))"
  by (auto simp: find_chasing_def intro: keeps split: option.split)

lemma lookup_live: "chan_inv s \<Longrightarrow> lookup_channel name s = Some ch \<longleftrightarrow> ch \<in> set (channel s) \<and> irc_eq name (chan_name s ch)"
  using hash_find_channel_live(2) [of s name ch] by (simp add: lookup_channel_def chan_inv_def)

text \<open>A member of a channel leaves it after some talk.\<close>

lemma leave_keeps:
  assumes "chan_inv s" "lookup_channel name s = Some ch" "IsMember s cl ch" "chan_inv t" "same_store s t"
  shows "chan_inv (remove_user_from_channel cl ch t)" "ch \<in> set (channel t)" "cl \<in> set (members_of t ch)"
proof -
  have live: "ch \<in> set (channel s)" using assms(1,2) lookup_live by blast
  then have "cl \<in> set (members_of s ch)" using IsMember_iff [OF assms(1) live] assms(3) by simp
  with live show 1: "ch \<in> set (channel t)" "cl \<in> set (members_of t ch)" using same_store_iff [OF assms(5)] by simp_all
  show "chan_inv (remove_user_from_channel cl ch t)" by (rule remove_user_from_channel_inv [OF assms(4) 1])
qed

lemma part_one_keeps [keeps]: "chan_inv s \<Longrightarrow> chan_inv (part_one sptr src name s)"
  unfolding part_one_def Let_def
  by (auto intro!: keeps leave_keeps(1) [of s] split: option.split)

lemma m_part_keeps: "chan_inv s \<Longrightarrow> chan_inv (m_part sptr parv s)"
proof -
  have "chan_inv s \<Longrightarrow> chan_inv (foldl (\<lambda>t name. part_one sptr src name t) s names)" for src names s
    by (induction names arbitrary: s) (auto intro: keeps)
  then show "chan_inv s \<Longrightarrow> chan_inv (m_part sptr parv s)"
    by (simp add: m_part_def Let_def keeps)
qed

lemma kick_refused_keeps:
  "kick_refused cptr sptr src user wh ch s = (t, stop) \<Longrightarrow> (chan_inv s \<longrightarrow> chan_inv t) \<and> same_store s t"
  by (auto simp: kick_refused_def Let_def intro!: keeps split: if_splits)

lemma kick_member_keeps:
  assumes "chan_inv s" "lookup_channel name s = Some ch" "IsMember s wh ch"
  shows "chan_inv (kick_member sptr src nm comment wh ch s)"
  unfolding kick_member_def Let_def
  using assms
  by (intro leave_keeps(1) [OF assms])
    (auto intro!: keeps chan_inv_upd_client simp: same_store_def channels_of_def fun_eq_iff MyClient_def IsClient_def)

lemma find_chasing_same: "same_store s (fst (find_chasing lk hist cl user s))"
  by (auto simp: find_chasing_def split: option.split)

lemma kick_target_keeps:
  assumes "chan_inv s" "lookup_channel nm s = Some ch"
  shows "chan_inv (kick_target lk hist cptr sptr src user name comment ch s)"
proof -
  obtain s2 found where f: "find_chasing lk hist sptr user s = (s2, found)" by fastforce
  have 2: "chan_inv s2" "same_store s s2"
    using find_chasing_keeps [OF assms(1), of lk hist sptr user] find_chasing_same [of s lk hist sptr user] f by simp_all
  have kick: "chan_inv (let (s3, stop) = (if b then kick_refused cptr sptr src user wh ch s2 else (s2, False))
      in if stop then s3 else kick_member sptr src name comment wh ch s3)" if "IsMember s2 wh ch" for b wh
  proof -
    obtain s3 stop where s3: "(if b then kick_refused cptr sptr src user wh ch s2 else (s2, False)) = (s3, stop)" by fastforce
    have "chan_inv s3" "same_store s2 s3"
      using s3 2(1) kick_refused_keeps by (auto split: if_splits)
    then show ?thesis
      using kick_member_keeps [of s3 nm ch wh] that assms(2)
      by (simp add: s3 same_store_iff [of s2 s3] same_store_iff [OF 2(2)])
  qed
  show ?thesis
    unfolding kick_target_def Let_def f prod.case
    by (intro inv_splits kick [unfolded Let_def] keeps) (use 2(1) in simp_all)
qed

lemma m_kick_keeps:
  assumes "chan_inv s"
  shows "chan_inv (m_kick lk hist cptr sptr parv s)"
proof -
  define s1 where "s1 = (if IsServer (clients s sptr)
    then send ToOps (''KICK from '' @ parv ! 0 @ '' for '' @ parv ! 1 @ '' '' @ parv ! 2) s else s)"
  have 1: "chan_inv s1" using assms by (auto simp: s1_def intro: keeps)
  define name where "name = chan_arg sptr (first_item (parv ! 1)) s1"
  show ?thesis
    unfolding m_kick_def Let_def s1_def [symmetric] name_def [symmetric]
    by (intro inv_splits keeps kick_target_keeps [of s1 name]) (use assms 1 in \<open>simp_all split: if_splits\<close>)
qed

lemma set_topic_keeps: "chan_inv s \<Longrightarrow> chan_inv (set_topic cptr sptr src ch tnick ttime new s)"
  by (auto simp: set_topic_def Let_def intro!: keeps chan_inv_upd_chan)

lemma m_topic_keeps: "chan_inv s \<Longrightarrow> chan_inv (m_topic cptr sptr parv s)"
  by (auto simp: m_topic_def show_topic_def Let_def intro!: keeps set_topic_keeps split: option.split)

lemma target_limit_keeps: "chan_inv s \<Longrightarrow> chan_inv (fst (check_target_limit cl target name created fmsg s))"
  by (auto simp: check_target_limit_def too_fast_def Let_def intro!: keeps chan_inv_upd_client)

lemma is_silenced_keeps: "chan_inv s \<Longrightarrow> chan_inv (fst (is_silenced src acptr s))"
  by (auto simp: is_silenced_def Let_def intro!: keeps split: option.split)

lemma target_limit_channel: "channel (fst (check_target_limit cl target name created fmsg s)) = channel s"
  by (simp add: check_target_limit_def too_fast_def Let_def)

lemma invite_replies_keeps:
  assumes "chan_inv s"
  shows "chan_inv (fst (invite_replies sptr a src ch need s))" "channel (fst (invite_replies sptr a src ch need s)) = channel s"
proof -
  define s1 where "s1 = numeric sptr ''341'' src (c_name (clients s a) @ '' '' @ chname (chans s ch)) s"
  define s2 where "s2 = (case u_away (clients s a) of None \<Rightarrow> s1
    | Some w \<Rightarrow> numeric sptr ''301'' src (c_name (clients s a) @ '' :'' @ w) s1)"
  have 2: "chan_inv s2" "channel s2 = channel s"
    using assms by (auto simp: s2_def s1_def intro!: keeps split: option.split) (auto simp: numeric_def split: option.split)
  obtain s3 stop where 3: "check_target_limit sptr a (c_name (clients s a)) False (chname (chans s ch)) s2 = (s3, stop)"
    by fastforce
  have "chan_inv s3" "channel s3 = channel s"
    using target_limit_keeps [OF 2(1)] target_limit_channel 2(2) 3 by (metis fst_conv)+
  then show "chan_inv (fst (invite_replies sptr a src ch need s))" "channel (fst (invite_replies sptr a src ch need s)) = channel s"
    unfolding invite_replies_def Let_def s1_def [symmetric] s2_def [symmetric] 3
    by (auto intro: keeps)
qed

lemma deliver_invite_keeps: "chan_inv t \<Longrightarrow> ch \<in> set (channel t) \<Longrightarrow> chan_inv (deliver_invite sptr a src nm ch need t)"
  by (auto simp: deliver_invite_def Let_def intro!: keeps add_invite_inv)

lemma m_invite_keeps:
  assumes "chan_inv s"
  shows "chan_inv (m_invite lk sptr parv s)"
proof -
  have go: "chan_inv (if MyConnect me then
                  (let (s2, stop) = invite_replies sptr acptr src ch need s1
                   in if stop then s2 else deliver_invite sptr acptr src name ch need s2)
                else deliver_invite sptr acptr src name ch need s1)"
    if "chan_inv s1" "lookup_channel nm s1 = Some ch" for me acptr src ch need s1 name nm
  proof -
    obtain s2 stop where 2: "invite_replies sptr acptr src ch need s1 = (s2, stop)" by fastforce
    have "ch \<in> set (channel s1)" using that lookup_live by blast
    with invite_replies_keeps [OF that(1), of sptr acptr src ch need] 2 that(1)
    show ?thesis by (auto intro: deliver_invite_keeps)
  qed
  have rest: "chan_inv (fst (is_silenced sptr a s))" for a by (rule is_silenced_keeps [OF assms])
  show ?thesis
    unfolding m_invite_def Let_def split_beta
    by (intro inv_splits(3) inv_splits(2) go [unfolded Let_def split_beta] inv_splits(1) keeps)
      (use assms rest in simp_all)
qed

lemma m_knock_keeps: "chan_inv s \<Longrightarrow> m_knock sptr parv used s = Inr (t, used') \<Longrightarrow> chan_inv t"
  by (auto simp: m_knock_def Let_def intro!: keeps chan_inv_upd_client split: option.splits if_splits)

lemma m_samode_keeps: "chan_inv s \<Longrightarrow> chan_inv (m_samode lk hist junk me cptr sptr parv s)"
  by (auto simp: m_samode_def Let_def intro!: keeps set_mode_inv split: option.split)

text \<open>The bundle of the commands.\<close>

lemmas commands_keep = m_part_keeps m_kick_keeps m_topic_keeps m_invite_keeps m_samode_keeps m_knock_keeps

lemma chan_arg_same: "MyClient (clients t cl) = MyClient (clients s cl) \<Longrightarrow> chan_arg cl name t = chan_arg cl name s"
  by (simp add: chan_arg_def)

lemma remove_user_MyClient: "chan_inv s \<Longrightarrow> ch \<in> set (channel s) \<Longrightarrow> cl \<in> set (members_of s ch) \<Longrightarrow>
   MyClient (clients (remove_user_from_channel cl ch s) x) = MyClient (clients s x)"
proof -
  have i: "MyClient (clients (free_invites ch s) x) = MyClient (clients s x)" for s
  proof (induction ch s rule: free_invites.induct)
    case (1 ch s)
    have "MyClient (clients (del_invite cl ch s) x) = MyClient (clients s x)" for cl
      by (simp add: del_invite_def MyClient_def IsClient_def)
    then show ?case by (cases "invites (chans s ch)") (simp_all add: free_invites.simps [of ch s] "1.IH")
  qed
  show "chan_inv s \<Longrightarrow> ch \<in> set (channel s) \<Longrightarrow> cl \<in> set (members_of s ch) \<Longrightarrow> ?thesis"
    by (simp add: remove_user_result Let_def free_channel_def free_bans_exceptions_denies_def i)
      (auto simp: left_channel_def unlink_member_def MyClient_def IsClient_def)
qed

text \<open>One name of \<open>PART\<close>: exactly the live channel of that name is left, if the source is on it.\<close>

lemma part_one_links:
  assumes "chan_inv s" "sptr \<noteq> 0"
  shows "set (channels_of (part_one sptr src name s) sptr) =
      {ch \<in> set (channels_of s sptr). \<not> irc_eq (chan_arg sptr name s) (chan_name s ch)}" (is "?A = ?B")
    and "x \<noteq> sptr \<Longrightarrow> channels_of (part_one sptr src name s) x = channels_of s x"
    and "chan_name (part_one sptr src name s) = chan_name s"
    and "MyClient (clients (part_one sptr src name s) sptr) = MyClient (clients s sptr)"
proof -
  let ?nm = "chan_arg sptr name s"
  have mine: "ch \<in> set (channels_of s sptr) \<Longrightarrow> ch \<in> set (channel s)" for ch
    using assms(1) by (auto simp: chan_inv_def links_inv_def)
  have member: "ch \<in> set (channel s) \<Longrightarrow> IsMember s sptr ch \<longleftrightarrow> ch \<in> set (channels_of s sptr)" for ch
    using IsMember_iff [OF assms(1), of ch sptr] assms mem.agreeD [of s sptr ch] by (simp add: chan_inv_def links_inv_def)
  have "?A = ?B \<and> (x \<noteq> sptr \<longrightarrow> channels_of (part_one sptr src name s) x = channels_of s x) \<and>
      chan_name (part_one sptr src name s) = chan_name s \<and>
      MyClient (clients (part_one sptr src name s) sptr) = MyClient (clients s sptr)"
  proof (cases "\<exists>ch. lookup_channel ?nm s = Some ch \<and> IsMember s sptr ch")
    case True
    then obtain ch where ch: "lookup_channel ?nm s = Some ch" "IsMember s sptr ch" by blast
    define t where "t = tell_channel ch sptr ('':'' @ src @ '' PART '' @ ?nm) (send (ToMatchServs ch) ('':'' @ src @ '' PART '' @ ?nm) s)"
    have t: "same_store s t" "chan_inv t" using assms(1) by (auto simp: t_def intro: keeps)
    note l = leave_keeps [OF assms(1) ch t(2,1)]
    have p: "part_one sptr src name s = remove_user_from_channel sptr ch t"
      using ch by (simp add: part_one_def Let_def t_def)
    have d: "distinct (channels_of s sptr)" using assms(1) by (simp add: chan_inv_def links_inv_def mem.agree_def)
    have only: "ch' = ch" if "ch' \<in> set (channels_of s sptr)" "irc_eq ?nm (chan_name s ch')" for ch'
      using lookup_live [OF assms(1), of ?nm ch'] mine [OF that(1)] that(2) ch(1) by simp
    have "irc_eq ?nm (chan_name s ch)" using lookup_live [OF assms(1)] ch(1) by blast
    with only d show ?thesis
      using remove_user_links [OF t(2) l(2,3)] same_store_iff [OF t(1)] remove_user_MyClient [OF t(2) l(2,3)] t(1)
      by (auto simp: p same_store_def)
  next
    case False
    have ss: "same_store s (part_one sptr src name s)"
      using False by (auto simp: part_one_def Let_def split: option.split)
    have "\<not> irc_eq ?nm (chan_name s ch)" if "ch \<in> set (channels_of s sptr)" for ch
      using False lookup_live [OF assms(1), of ?nm ch] mine [OF that] member [of ch] that by auto
    moreover have "channels_of (part_one sptr src name s) = channels_of s"
      "chan_name (part_one sptr src name s) = chan_name s"
      "MyClient (clients (part_one sptr src name s) sptr) = MyClient (clients s sptr)"
      using same_store_iff [OF ss] ss by (simp_all add: same_store_def)
    ultimately show ?thesis by auto
  qed
  then show "?A = ?B" "x \<noteq> sptr \<Longrightarrow> channels_of (part_one sptr src name s) x = channels_of s x"
    "chan_name (part_one sptr src name s) = chan_name s"
    "MyClient (clients (part_one sptr src name s) sptr) = MyClient (clients s sptr)" by blast+
qed

lemma part_names_links:
  assumes "chan_inv s" "sptr \<noteq> 0"
  shows "set (channels_of (foldl (\<lambda>t name. part_one sptr src name t) s names) sptr) =
      {ch \<in> set (channels_of s sptr). \<forall>name\<in>set names. \<not> irc_eq (chan_arg sptr name s) (chan_name s ch)} \<and>
    (\<forall>x. x \<noteq> sptr \<longrightarrow> channels_of (foldl (\<lambda>t name. part_one sptr src name t) s names) x = channels_of s x)"
  using assms(1)
proof (induction names arbitrary: s)
  case (Cons name names)
  note p = part_one_links [OF Cons.prems assms(2), where src = src and name = name]
  from Cons.IH [OF part_one_keeps [OF Cons.prems], of sptr src name] p
  show ?case by (auto simp: chan_arg_same [OF p(4)])
qed simp

text \<open>A room: the operator \<open>op\<close> and \<open>bob\<close> on \<open>#c\<close>, which has mode \<open>+O\<close>.\<close>

definition start :: ircd where
  "start = boot (\<lambda>p. plain_user (if p = 3 then ''op'' else ''bob'') ''u'' ''h'') plain_config 0"

definition room :: ircd where
  "room = upd_chan 5 (\<lambda>c. c\<lparr>mode := (mode c)\<lparr>md_mode := MODE_OPERONLY\<rparr>\<rparr>)
     (add_user_to_channel 5 2 0 (add_user_to_channel 5 3 CHFL_CHANOP (fst (get_channel 5 3 ''#c'' True start))))"

lemma start_get:
  "channel (fst (get_channel 5 3 ''#c'' True start)) = [5]" "clients (fst (get_channel 5 3 ''#c'' True start)) = clients start"
  "chans (fst (get_channel 5 3 ''#c'' True start)) 5 = new_chan ''#c'' 0" "cfg (fst (get_channel 5 3 ''#c'' True start)) = plain_config"
  "chan_inv (fst (get_channel 5 3 ''#c'' True start))"
proof -
  have free: "hash_find_channel (chan_name start) (chan_table start) ''#c'' None = None"
    by (simp add: start_def boot_def hash_find_channel_def clear_hash_table_def)
  then show "channel (fst (get_channel 5 3 ''#c'' True start)) = [5]"
    "clients (fst (get_channel 5 3 ''#c'' True start)) = clients start"
    "chans (fst (get_channel 5 3 ''#c'' True start)) 5 = new_chan ''#c'' 0"
    "cfg (fst (get_channel 5 3 ''#c'' True start)) = plain_config"
    by (simp_all add: get_channel_def Let_def CHANNELLEN_def) (simp_all add: start_def boot_def)
  have "chan_inv start" unfolding start_def by (rule boot_inv) (simp add: plain_user_def)
  then show "chan_inv (fst (get_channel 5 3 ''#c'' True start))"
    by (rule get_channel_inv) (simp_all add: start_def boot_def)
qed

lemma room_sel:
  "map mb_cptr (members (chans room 5)) = [2, 3]" "map mb_flags (members (chans room 5)) = [0, CHFL_CHANOP]"
  "md_mode (mode (chans room 5)) = MODE_OPERONLY" "channel room = [5]" "chan_name room 5 = ''#c''" "cfg room = plain_config"
  "clients room 3 = (plain_user ''op'' ''u'' ''h'')\<lparr>u_channel := [5], u_joined := 1\<rparr>"
  "clients room 2 = (plain_user ''bob'' ''u'' ''h'')\<lparr>u_channel := [5], u_joined := 1\<rparr>"
  by (simp_all add: room_def add_user_to_channel_def link_member_def start_get chan_name_def new_chan_def)
    (simp_all add: start_def boot_def plain_user_def new_chan_def start_get)

lemma room_members: "members (chans room 5) =
  [\<lparr>mb_cptr = 2, mb_flags = 0, nmsg = 0, lastmsg = 0, lmsg = None, lsize = 0, lmsg_time = 0\<rparr>,
   \<lparr>mb_cptr = 3, mb_flags = CHFL_CHANOP, nmsg = 0, lastmsg = 0, lmsg = None, lsize = 0, lmsg_time = 0\<rparr>]"
  by (simp add: room_def add_user_to_channel_def link_member_def start_get new_chan_def)
    (simp add: start_def boot_def plain_user_def)

lemma room_inv: "chan_inv room"
proof -
  let ?s1 = "fst (get_channel 5 3 ''#c'' True start)"
  have "chan_inv (add_user_to_channel 5 3 CHFL_CHANOP ?s1)"
    by (rule add_user_to_channel_inv) (simp_all add: start_get members_of_def new_chan_def)
  then have "chan_inv (add_user_to_channel 5 2 0 (add_user_to_channel 5 3 CHFL_CHANOP ?s1))"
    by (rule add_user_to_channel_inv)
      (simp_all add: start_get members_of_def new_chan_def add_user_to_channel_def link_member_def)
  then show ?thesis unfolding room_def by (rule chan_inv_upd_chan) simp_all
qed

lemma room_lookup: "lookup_channel ''#c'' room = Some 5"
  by (simp add: lookup_live [OF room_inv] room_sel)

section \<open>Properties\<close>

text \<open>
  C13. Who can be kicked by a local user. The target, a visible member of the channel, is
  removed exactly when the source is an operator of the channel, the protection of IRC operators does not
  apply, the target is no channel administrator (or the source is one too) and no service. The modes
  \<open>+O\<close> and \<open>+A\<close> do not matter: their tests in the handler only send a refusal.
\<close>

theorem kick_policy:
  assumes "chan_inv s" "MyClient (clients s sptr)" "\<not> IsService (clients s sptr)" "\<not> IsServer (clients s cptr)"
    and "3 \<le> length parv" "name = chan_arg sptr (first_item (parv ! 1)) s" "name \<noteq> []" "lookup_channel name s = Some ch"
    and "lk (first_item (parv ! 2)) = Some wh" "IsMember s wh ch" "\<not> IsStealth (clients s wh)"
  shows "wh \<in> set (members_of (m_kick lk hist cptr sptr parv s) ch) \<longleftrightarrow>
    \<not> (is_chan_op sptr ch s \<noteq> 0 \<and>
       \<not> (OperKickProtection (cfg s) \<and> \<not> IsOper (clients s sptr) \<and> IsOper (clients s wh)) \<and>
       \<not> (is_chan_adm wh ch s \<noteq> 0 \<and> is_chan_adm sptr ch s = 0) \<and> \<not> IsService (clients s wh))"
proof -
  define user where "user = first_item (parv ! 2)"
  have live: "ch \<in> set (channel s)" "wh \<in> set (members_of s ch)"
    using assms(1,8,10) lookup_live IsMember_iff by blast+
  have loc: "\<not> IsServer (clients s sptr)" "MyConnect (clients s sptr)"
    using assms(2) by (auto simp: MyClient_def IsClient_def IsServer_def MyConnect_def)
  have "first_item (parv ! 1) \<noteq> []" using assms(6,7) by (auto simp: chan_arg_def split: if_splits)
  then have ne: "parv ! 1 \<noteq> []" by (auto simp: first_item_def)
  have found: "find_chasing lk hist sptr user s = (s, Some wh)" using assms(9) by (simp add: find_chasing_def user_def)
  obtain s3 stop where r: "kick_refused cptr sptr (parv ! 0) user wh ch s = (s3, stop)" by fastforce
  have stop: "stop \<longleftrightarrow> OperKickProtection (cfg s) \<and> \<not> IsOper (clients s sptr) \<and> IsOper (clients s wh) \<or>
      is_chan_adm wh ch s \<noteq> 0 \<and> is_chan_adm sptr ch s = 0 \<or> IsService (clients s wh)"
    using r assms(3,4) by (auto simp: kick_refused_def Let_def split: if_splits)
  note same = kick_refused_keeps [OF r]
  have "kick_target lk hist cptr sptr (parv ! 0) user name cm ch s =
      (if stop then s3 else kick_member sptr (parv ! 0) name cm wh ch s3)" for cm
    using assms(2,10,11) found r by (simp add: kick_target_def Let_def)
  moreover have "m_kick lk hist cptr sptr parv s = (if is_chan_op sptr ch s = 0
      then numeric sptr ''482'' (parv ! 0) (chname (chans s ch) @ '' :You're not channel operator'') s
      else kick_target lk hist cptr sptr (parv ! 0) user name
        (take TOPICLEN (if length parv = 3 \<or> parv ! 3 = [] then parv ! 0 else parv ! 3)) ch s)"
    using assms(3,5,7,8) loc ne
    by (simp add: m_kick_def Let_def assms(6) [symmetric] user_def [symmetric] del: One_nat_def)
  ultimately have kick: "m_kick lk hist cptr sptr parv s = (if is_chan_op sptr ch s = 0
      then numeric sptr ''482'' (parv ! 0) (chname (chans s ch) @ '' :You're not channel operator'') s
      else if stop then s3 else kick_member sptr (parv ! 0) name
        (take TOPICLEN (if length parv = 3 \<or> parv ! 3 = [] then parv ! 0 else parv ! 3)) wh ch s3)"
    by simp
  have m3: "members_of s3 = members_of s" "channel s3 = channel s" and inv3: "chan_inv s3"
    using same assms(1) same_store_iff by auto
  have "wh \<notin> set (members_of (kick_member sptr src nm cm wh ch s3) ch)" for src nm cm
  proof -
    define t where "t = (let line = '':'' @ src @ '' KICK '' @ nm @ '' '' @ c_name (clients s3 wh) @ '' :'' @ cm;
          s1 = send (ToMatchServs ch) line (send (ToChannel ch) line s3)
      in if MyClient (clients s1 wh) then upd_client wh (\<lambda>c. c\<lparr>c_since := CurrentTime s1 + 10\<rparr>) s1 else s1)"
    have t: "chan_inv t" "members_of t = members_of s3" "channel t = channel s3"
      using inv3 by (auto simp: t_def Let_def members_of_def intro!: keeps chan_inv_upd_client)
    have "distinct (members_of s3 ch)" using inv3 by (simp add: chan_inv_def links_inv_def mem.agree_def)
    moreover have "kick_member sptr src nm cm wh ch s3 = remove_user_from_channel wh ch t"
      by (simp only: kick_member_def t_def Let_def)
    ultimately show ?thesis
      using remove_user_links(2) [of t ch wh ch] t m3 live by simp
  qed
  moreover have "members_of (numeric sptr n nm tx s) = members_of s" for n nm tx
    by (rule same_store_iff) simp
  ultimately show ?thesis
    using kick stop live(2) m3(1) by (cases "is_chan_op sptr ch s = 0"; cases stop) simp_all
qed

theorem kick_policy_witness:
  "2 \<notin> set (members_of (m_kick (\<lambda>_. Some 2) (\<lambda>_. None) 3 3 [''op'', ''#c'', ''bob''] room) 5)"
  by (subst kick_policy [where name = "''#c''" and wh = 2, OF room_inv])
    (simp_all add: room_lookup room_members room_sel MyClient_def IsClient_def IsService_def has_def IsServer_def chan_arg_def
      first_item_def IsMember_def find_channel_link_def is_chan_op_def is_chan_adm_def find_user_link_def IsStealth_def
      IsOper_def chfl_defs CHANNELLEN_def plain_user_def)

text \<open>
  \<open>PART\<close> leaves exactly the channels it names. After the command with a comma list, the
  source is on the channels it was on, less those whose names (compared without case, and cut to the
  length of a channel name for a local user) are in the list; nobody else's channels change.
\<close>

theorem part_leaves_named:
  assumes "chan_inv s" "sptr \<noteq> 0" "2 \<le> length parv" "parv ! 1 \<noteq> []"
  shows "set (u_channel (clients (m_part sptr parv s) sptr)) =
      {ch \<in> set (u_channel (clients s sptr)). \<forall>name\<in>set (strtokens '','' (Some (parv ! 1))).
         irccmp (chan_arg sptr name s) (chname (chans s ch)) \<noteq> 0} \<and>
    (\<forall>x. x \<noteq> sptr \<longrightarrow> u_channel (clients (m_part sptr parv s) x) = u_channel (clients s x))"
proof -
  define names where "names = strtokens '','' (Some (parv ! 1))"
  define s1 where "s1 = (if names \<noteq> [] then note_leave sptr s else s)"
  have 1: "chan_inv s1" "same_store s s1" using assms(1) by (simp_all add: s1_def note_leave_keeps same_store_note_leave)
  have "m_part sptr parv s = foldl (\<lambda>t name. part_one sptr (parv ! 0) name t) s1 names"
    using assms(3,4) by (simp add: m_part_def Let_def s1_def names_def)
  then show ?thesis
    using part_names_links [OF 1(1) assms(2), of "parv ! 0" names]
    by (simp add: channels_of_def [symmetric] chan_name_def [symmetric] names_def [symmetric] same_store_iff [OF 1(2)]
        del: One_nat_def)
qed

theorem part_leaves_named_witness:
  "u_channel (clients (m_part 2 [''bob'', ''#x,#C''] room) 2) = []"
proof -
  have "strtokens '','' (Some ''#x,#C'') = [''#x'', ''#C'']"
    by (simp add: strtokens.simps strtoken_def)
  moreover have "irccmp ''#C'' ''#c'' = 0"
    by (simp add: irc_eq_iff irc_upper_def ToUpper_Char)
  moreover have "chname (chans room 5) = ''#c''" using room_sel(5) by (simp add: chan_name_def)
  ultimately have "set (u_channel (clients (m_part 2 [''bob'', ''#x,#C''] room) 2)) = {}"
    using part_leaves_named [OF room_inv, of 2 "[''bob'', ''#x,#C'']"]
    by (simp add: room_sel chan_arg_def CHANNELLEN_def)
  then show ?thesis by simp
qed

text \<open>
  What a user's \<open>TOPIC\<close> does. It changes the channel exactly when the source is a
  member (or a service) and the channel has no mode \<open>+t\<close> or the source is an operator (or a service);
  then the topic is the text cut to \<open>TOPICLEN\<close> bytes, set by the source and now. But when the text is the
  topic the channel has, the only change is that the time of the topic becomes 0.
\<close>

theorem topic_policy:
  assumes "\<not> IsZombie (clients s sptr)" "\<not> IsServer (clients s sptr)" "\<not> IsServer (clients s cptr)" "3 \<le> length parv"
    and "IsChannelName (first_item (parv ! 1))" "lookup_channel (first_item (parv ! 1)) s = Some ch"
  shows "let t = m_topic cptr sptr parv s; c = chans s ch; new = parv ! 2 in
    if (IsService (clients s sptr) \<or> IsMember s sptr ch) \<and>
       (\<not> has (md_mode (mode c)) MODE_TOPICLIMIT \<or> is_chan_op sptr ch s \<noteq> 0 \<or> IsService (clients s sptr))
    then chans t = (chans s)(ch := if topic c = new then c\<lparr>topic_time := 0\<rparr>
       else c\<lparr>topic := take TOPICLEN new, topic_nick := take NICKLEN (c_name (clients s sptr)), topic_time := CurrentTime s\<rparr>)
    else chans t = chans s"
  using assms
  by (simp add: m_topic_def Let_def set_topic_def numeric_def del: One_nat_def)

theorem topic_policy_witness:
  "let s = upd_chan 5 (\<lambda>c. c\<lparr>topic := ''hi'', topic_time := 77\<rparr>) room in
   topic_time (chans (m_topic 2 2 [''bob'', ''#c'', ''hi''] s) 5) = 0"
proof -
  let ?s = "upd_chan 5 (\<lambda>c. c\<lparr>topic := ''hi'', topic_time := 77\<rparr>) room"
  have "chan_inv ?s" by (rule chan_inv_upd_chan [OF room_inv]) simp_all
  then have "lookup_channel ''#c'' ?s = Some 5"
    by (simp add: lookup_live) (use room_sel(4,5) in \<open>simp add: chan_name_def\<close>)
  then show ?thesis
    using topic_policy [of ?s 2 2 "[''bob'', ''#c'', ''hi'']" 5]
    by (simp add: room_sel plain_user_def IsZombie_def UMODE_ZOMBIE_def IsServer_def IsService_def has_def first_item_def
        IsChannelName_def IsMember_def find_channel_link_def mode_defs Let_def)
qed

text \<open>
  A \<open>KNOCK\<close> can crash the server. When the channel is closed (invite only, with a key, or
  full) and secret, or the source is banned, the refusal is formatted with one argument less than its
  format has: the formatter reads an argument that was never passed. In every other case the command is
  well-defined.
\<close>

theorem knock_missing_argument:
  assumes "2 \<le> length parv" "name = first_item (parv ! 1)"
  shows "m_knock sptr parv used s = Inl MissingArgument \<longleftrightarrow>
    (\<exists>ch. IsChannelName name \<and> lookup_channel name s = Some ch \<and>
       (has (md_mode (mode (chans s ch))) MODE_INVITEONLY \<or> md_key (mode (chans s ch)) \<noteq> [] \<or>
        md_limit (mode (chans s ch)) \<noteq> 0 \<and> md_limit (mode (chans s ch)) \<le> users (chans s ch)) \<and>
       (has (md_mode (mode (chans s ch))) MODE_SECRET \<or> is_banned sptr ch s = CHFL_BAN))"
  using assms by (auto simp: m_knock_def Let_def split: option.split)

theorem knock_missing_argument_witness:
  "let s = upd_chan 5 (\<lambda>c. c\<lparr>mode := (mode c)\<lparr>md_mode := MODE_SECRET OR MODE_INVITEONLY\<rparr>\<rparr>) room in
   m_knock 4 [''eve'', ''#c''] 0 s = Inl MissingArgument"
proof -
  let ?s = "upd_chan 5 (\<lambda>c. c\<lparr>mode := (mode c)\<lparr>md_mode := MODE_SECRET OR MODE_INVITEONLY\<rparr>\<rparr>) room"
  have "chan_inv ?s" by (rule chan_inv_upd_chan [OF room_inv]) simp_all
  then have "lookup_channel ''#c'' ?s = Some 5"
    by (simp add: lookup_live) (use room_sel(4,5) in \<open>simp add: chan_name_def\<close>)
  then show ?thesis
    using knock_missing_argument [of "[''eve'', ''#c'']" "''#c''" 4 0 ?s]
    by (simp add: first_item_def IsChannelName_def mode_defs has_def Let_def)
qed

end
