(* ===== verification/ChanNames.thy ===== *)
theory ChanNames
  imports ChanCmd
begin

text \<open>
  \<open>m_names\<close> of \<open>src/channel.c\<close>: who is shown to whom. \<open>AdminWithDot\<close> is the configuration item,
  \<open>mename\<close> the server name the replies carry, \<open>all_clients\<close> the global client list.
\<close>

subsection \<open>Visibility\<close>

definition UMODE_INVISIBLE :: "32 word" where "UMODE_INVISIBLE = 0x2"
definition IsInvisible :: "client \<Rightarrow> bool" where "IsInvisible c \<longleftrightarrow> has (c_umodes c) UMODE_INVISIBLE"
definition PubChannel :: "chan \<Rightarrow> bool" where "PubChannel c \<longleftrightarrow> \<not> has (md_mode (mode c)) (MODE_PRIVATE OR MODE_SECRET)"
definition SecretChannel :: "chan \<Rightarrow> bool" where "SecretChannel c \<longleftrightarrow> has (md_mode (mode c)) MODE_SECRET"
definition ShowChannel :: "ircd \<Rightarrow> nat \<Rightarrow> nat \<Rightarrow> bool" where
  "ShowChannel s v ch \<longleftrightarrow> PubChannel (chans s ch) \<or> IsMember s v ch \<or> IsAnOper (clients s v)"

definition shown_to :: "ircd \<Rightarrow> nat \<Rightarrow> nat \<Rightarrow> nat \<Rightarrow> bool" where
  "shown_to s sptr ch cl \<longleftrightarrow>
     \<not> (IsInvisible (clients s cl) \<and> \<not> IsMember s sptr ch \<and> \<not> IsAnOper (clients s sptr)) \<and>
     \<not> (IsStealth (clients s cl) \<and> cl \<noteq> sptr)"

subsection \<open>The reply\<close>

definition name_mark :: "bool \<Rightarrow> 32 word \<Rightarrow> cstr" where
  "name_mark dot fl = (if dot \<and> has fl CHFL_CHANADM then ''.'' else []) @
     (if has fl CHFL_CHANOP then ''@'' else if has fl CHFL_VOICE then ''+'' else [])"

definition names_header :: "chan \<Rightarrow> cstr" where
  "names_header c =
     (if PubChannel c then CHR ''='' else if SecretChannel c then CHR ''@'' else CHR ''*'') # '' '' @ chname c @ '' :''"

text \<open>
  The buffer, its length as the code counts it, the \<open>flag\<close> of the last line, and the lines sent.
\<close>

record names_buf =
  nb_buf :: cstr
  nb_idx :: nat
  nb_flag :: bool
  nb_lines :: "cstr list"

definition add_name :: "nat \<Rightarrow> cstr \<Rightarrow> nat \<Rightarrow> cstr \<Rightarrow> cstr \<Rightarrow> names_buf \<Rightarrow> names_buf" where
  "add_name mlen hdr hidx mark name b =
     (let buf = nb_buf b @ mark @ take NICKLEN name @ '' ''; idx = nb_idx b + length mark + length name + 1 in
      if BUFSIZE - 3 < mlen + idx + NICKLEN
      then \<lparr>nb_buf = hdr, nb_idx = hidx, nb_flag = False, nb_lines = nb_lines b @ [buf]\<rparr>
      else b\<lparr>nb_buf := buf, nb_idx := idx, nb_flag := True\<rparr>)"

definition names_start :: "cstr \<Rightarrow> nat \<Rightarrow> bool \<Rightarrow> names_buf" where
  "names_start hdr hidx flag = \<lparr>nb_buf = hdr, nb_idx = hidx, nb_flag = flag, nb_lines = []\<rparr>"

definition names_result :: "names_buf \<Rightarrow> cstr list" where
  "names_result b = nb_lines b @ (if nb_flag b then [nb_buf b] else [])"

definition channel_names :: "bool \<Rightarrow> nat \<Rightarrow> nat \<Rightarrow> nat \<Rightarrow> ircd \<Rightarrow> cstr list" where
  "channel_names dot mlen sptr ch s =
     (let c = chans s ch; hdr = names_header c; hidx = length (chname c) + 4 in
      names_result (foldl (\<lambda>b m. if shown_to s sptr ch (mb_cptr m)
          then add_name mlen hdr hidx (name_mark dot (mb_flags m)) (c_name (clients s (mb_cptr m))) b else b)
        (names_start hdr hidx True) (members c)))"

text \<open>The clients of the second part: on no secret channel and on none already listed.\<close>

definition elsewhere :: "ircd \<Rightarrow> nat \<Rightarrow> nat \<Rightarrow> bool" where
  "elsewhere s sptr cl \<longleftrightarrow>
     IsPerson (clients s cl) \<and> \<not> IsInvisible (clients s cl) \<and> \<not> IsStealth (clients s cl) \<and>
     (\<forall>ch\<in>set (u_channel (clients s cl)). \<not> PubChannel (chans s ch) \<and> \<not> IsMember s sptr ch \<and> \<not> SecretChannel (chans s ch))"

definition other_names :: "nat \<Rightarrow> nat \<Rightarrow> nat list \<Rightarrow> ircd \<Rightarrow> cstr list" where
  "other_names mlen sptr all_clients s =
     names_result (foldl (\<lambda>b cl. if elsewhere s sptr cl then add_name mlen ''* * :'' 5 [] (c_name (clients s cl)) b else b)
       (names_start ''* * :'' 5 False) all_clients)"

text \<open>Where a list of more than one comma is cut, if it has one: the guard against abuse.\<close>

definition TRUNCATED_NAMES :: nat where "TRUNCATED_NAMES = 20"

fun second_comma :: "nat \<Rightarrow> nat \<Rightarrow> cstr \<Rightarrow> nat option" where
  "second_comma k commas [] = None"
| "second_comma k commas (c # s) =
     (let commas' = (if c = CHR '','' then commas + 1 else commas)
      in if 1 < commas' then Some (k + 1) else second_comma (k + 1) commas' s)"

definition names_all :: "bool \<Rightarrow> nat \<Rightarrow> nat \<Rightarrow> nat list \<Rightarrow> ircd \<Rightarrow> cstr list" where
  "names_all dot mlen sptr all_clients s =
     concat (map (\<lambda>ch. if ShowChannel s sptr ch then channel_names dot mlen sptr ch s else []) (channel s)) @
     other_names mlen sptr all_clients s"

definition names_one :: "bool \<Rightarrow> nat \<Rightarrow> nat \<Rightarrow> cstr \<Rightarrow> ircd \<Rightarrow> cstr list" where
  "names_one dot mlen sptr name s =
     (case lookup_channel name s of
        Some ch \<Rightarrow> if ShowChannel s sptr ch then channel_names dot mlen sptr ch s else []
      | None \<Rightarrow> [])"

definition m_names :: "bool \<Rightarrow> cstr \<Rightarrow> cstr \<Rightarrow> nat list \<Rightarrow> nat \<Rightarrow> cstr list \<Rightarrow> ircd \<Rightarrow> ircd" where
  "m_names dot mename client_name all_clients sptr parv s =
     (let src = parv ! 0; para = (if 1 < length parv then parv ! 1 else []); mlen = length mename + NICKLEN + 7;
          say = (\<lambda>num txt t. send (ToOne sptr) ('':'' @ mename @ '' '' @ num @ '' '' @ src @ '' '' @ txt) t);
          list_all = (\<lambda>ls t. foldl (\<lambda>t l. say ''353'' l t) t ls);
          name = first_item para
      in if \<not> MyConnect (clients s sptr) then s
         else case second_comma 0 0 para of
           Some k \<Rightarrow>
             send (ToOne sptr) ('':'' @ mename @ '' 407 '' @ c_name (clients s sptr) @ '' NAMES :Too many recipients. Only 1 processed'')
               (send ToOps (''POSSIBLE /names abuser '' @ take (min k TRUNCATED_NAMES) para @ '' ['' @ client_name @ '']'') s)
         | None \<Rightarrow>
             if \<not> check_channel_name name then say ''479'' (name @ '' :Illegal channel name'') s
             else if name = [] then say ''366'' ''* :End of /NAMES list.'' (list_all (names_all dot mlen sptr all_clients s) s)
             else say ''366'' (name @ '' :End of /NAMES list.'') (list_all (names_one dot mlen sptr name s) s))"

subsection \<open>Lemmas\<close>

text \<open>The text of a reply: its lines without the header, one after the other.\<close>

lemma m_names_same: "same_store s (m_names dot mename cname cls sptr parv s)"
proof -
  have "same_store s (foldl (\<lambda>t l. send (ToOne sptr) (f l) t) t ls) = same_store s t" for t f and ls :: "cstr list"
    by (induction ls arbitrary: t) simp_all
  then show ?thesis by (simp add: m_names_def Let_def split: option.split)
qed

lemma m_names_keeps: "chan_inv s \<Longrightarrow> chan_inv (m_names dot mename cname cls sptr parv s)"
proof -
  have "chan_inv t \<Longrightarrow> chan_inv (foldl (\<lambda>t l. send (ToOne sptr) (f l) t) t ls)" for t f and ls :: "cstr list"
    by (induction ls arbitrary: t) (simp_all add: keeps)
  then show "chan_inv s \<Longrightarrow> ?thesis" by (auto simp: m_names_def Let_def intro!: keeps split: option.split)
qed

text \<open>The words of a list of lines that all start with the header.\<close>

definition body_of :: "cstr \<Rightarrow> cstr list \<Rightarrow> cstr" where
  "body_of hdr ls = concat (map (drop (length hdr)) ls)"

definition nb_ok :: "cstr \<Rightarrow> names_buf \<Rightarrow> bool" where
  "nb_ok hdr b \<longleftrightarrow> take (length hdr) (nb_buf b) = hdr \<and> (\<forall>l\<in>set (nb_lines b). take (length hdr) l = hdr) \<and>
     (nb_flag b \<or> nb_buf b = hdr)"

lemma add_name_ok:
  "nb_ok hdr b \<Longrightarrow> nb_ok hdr (add_name mlen hdr hidx mark name b) \<and>
   body_of hdr (nb_lines (add_name mlen hdr hidx mark name b) @ [nb_buf (add_name mlen hdr hidx mark name b)]) =
   body_of hdr (nb_lines b @ [nb_buf b]) @ mark @ take NICKLEN name @ '' ''"
proof -
  assume b: "nb_ok hdr b"
  then obtain r where "nb_buf b = hdr @ r" by (metis append_take_drop_id nb_ok_def)
  with b show ?thesis by (auto simp: add_name_def nb_ok_def body_of_def Let_def)
qed

lemma fold_names:
  "nb_ok hdr b \<Longrightarrow>
   (let b' = foldl (\<lambda>b m. if P m then add_name mlen hdr hidx (mk m) (nm m) b else b) b ms
    in nb_ok hdr b' \<and> body_of hdr (nb_lines b' @ [nb_buf b']) =
       body_of hdr (nb_lines b @ [nb_buf b]) @ concat (map (\<lambda>m. mk m @ take NICKLEN (nm m) @ '' '') (filter P ms)))"
proof (induction ms arbitrary: b)
  case Nil
  then show ?case by simp
next
  case (Cons m ms)
  show ?case
  proof (cases "P m")
    case True
    note a = add_name_ok [OF Cons.prems, of mlen hidx "mk m" "nm m"]
    show ?thesis using Cons.IH [OF conjunct1 [OF a]] conjunct2 [OF a] True by (simp add: Let_def)
  next
    case False
    then show ?thesis using Cons.IH [OF Cons.prems] by simp
  qed
qed

lemma result_body:
  "nb_ok hdr b \<Longrightarrow> body_of hdr (names_result b) = body_of hdr (nb_lines b @ [nb_buf b])"
  "nb_ok hdr b \<Longrightarrow> l \<in> set (names_result b) \<Longrightarrow> take (length hdr) l = hdr"
  by (auto simp: nb_ok_def names_result_def body_of_def split: if_splits)

text \<open>The count the code keeps is the length of the buffer, and no line outgrows it.\<close>

definition nb_fits :: "nat \<Rightarrow> nat \<Rightarrow> names_buf \<Rightarrow> bool" where
  "nb_fits mlen k b \<longleftrightarrow> nb_idx b = length (nb_buf b) \<and> mlen + nb_idx b + NICKLEN \<le> BUFSIZE - 3 \<and>
     (\<forall>l\<in>set (nb_lines b). mlen + length l \<le> BUFSIZE - 2 + k)"

lemma add_name_fits:
  assumes "nb_fits mlen k b" "length nm \<le> NICKLEN" "length mk \<le> k" "hidx = length hdr" "mlen + hidx + NICKLEN \<le> BUFSIZE - 3"
  shows "nb_fits mlen k (add_name mlen hdr hidx mk nm b)"
  using assms by (auto simp: nb_fits_def add_name_def Let_def BUFSIZE_def)

lemma fold_fits:
  assumes "nb_fits mlen k b" "\<And>m. m \<in> set ms \<Longrightarrow> P m \<Longrightarrow> length (nm m) \<le> NICKLEN \<and> length (mk m) \<le> k"
    and "hidx = length hdr" "mlen + hidx + NICKLEN \<le> BUFSIZE - 3"
  shows "nb_fits mlen k (foldl (\<lambda>b m. if P m then add_name mlen hdr hidx (mk m) (nm m) b else b) b ms)"
  using assms(1,2)
proof (induction ms arbitrary: b)
  case (Cons m ms)
  show ?case
    by (simp, intro conjI impI; rule Cons.IH)
      (use Cons.prems add_name_fits [OF Cons.prems(1) _ _ assms(3,4), of "nm m" "mk m"] in auto)
qed simp

lemma result_fits: "nb_fits mlen k b \<Longrightarrow> l \<in> set (names_result b) \<Longrightarrow> mlen + length l \<le> BUFSIZE - 2 + k"
  by (auto simp: nb_fits_def names_result_def BUFSIZE_def split: if_splits)

lemma name_mark_len: "length (name_mark dot fl) \<le> (if dot then 2 else 1)"
  by (simp add: name_mark_def)

lemma names_header_len: "length (names_header c) = length (chname c) + 4"
  by (simp add: names_header_def)

text \<open>
  C14. NAMES of a private or secret channel gives an outsider who is no operator no line
  at all. Otherwise the reply lines all begin with the channel's header and, the headers removed
  and joined, are exactly the members that are to be shown, in order, each with its marks and one
  blank: no stealth member but the asker, no invisible member to an outsider, nobody lost or
  repeated where a line is full. With names of at most \<open>NICKLEN\<close> a line and its prefix have at most
  \<open>BUFSIZE\<close> - 1 characters, one more with \<open>AdminWithDot\<close>.
\<close>

theorem names_reply:
  assumes "lookup_channel name s = Some ch"
  shows "(\<not> ShowChannel s sptr ch \<longrightarrow> names_one dot mlen sptr name s = []) \<and>
    (ShowChannel s sptr ch \<longrightarrow> body_of (names_header (chans s ch)) (names_one dot mlen sptr name s) =
      concat (map (\<lambda>m. name_mark dot (mb_flags m) @ take NICKLEN (c_name (clients s (mb_cptr m))) @ '' '')
        (filter (\<lambda>m. shown_to s sptr ch (mb_cptr m)) (members (chans s ch))))) \<and>
    (\<forall>l\<in>set (names_one dot mlen sptr name s). take (length (names_header (chans s ch))) l = names_header (chans s ch)) \<and>
    (mlen + (length (chname (chans s ch)) + 4) + NICKLEN \<le> BUFSIZE - 3 \<and> (\<forall>cl. length (c_name (clients s cl)) \<le> NICKLEN) \<longrightarrow>
      (\<forall>l\<in>set (names_one dot mlen sptr name s). mlen + length l \<le> BUFSIZE - (if dot then 0 else 1)))"
proof -
  let ?h = "names_header (chans s ch)" and ?n = "length (chname (chans s ch)) + 4"
  let ?f = "foldl (\<lambda>b m. if shown_to s sptr ch (mb_cptr m)
          then add_name mlen ?h ?n (name_mark dot (mb_flags m)) (c_name (clients s (mb_cptr m))) b else b)
        (names_start ?h ?n True) (members (chans s ch))"
  have one: "names_one dot mlen sptr name s = (if ShowChannel s sptr ch then names_result ?f else [])"
    using assms by (simp add: names_one_def channel_names_def Let_def)
  have start: "nb_ok ?h (names_start ?h ?n True)" by (simp add: nb_ok_def names_start_def)
  note f = fold_names [where P = "\<lambda>m. shown_to s sptr ch (mb_cptr m)" and mk = "\<lambda>m. name_mark dot (mb_flags m)" and
      nm = "\<lambda>m. c_name (clients s (mb_cptr m))" and ms = "members (chans s ch)" and mlen = mlen and hidx = ?n,
      OF start, unfolded Let_def]
  have a: "\<not> ShowChannel s sptr ch \<longrightarrow> names_one dot mlen sptr name s = []" using one by simp
  have b: "ShowChannel s sptr ch \<longrightarrow> body_of ?h (names_one dot mlen sptr name s) =
      concat (map (\<lambda>m. name_mark dot (mb_flags m) @ take NICKLEN (c_name (clients s (mb_cptr m))) @ '' '')
        (filter (\<lambda>m. shown_to s sptr ch (mb_cptr m)) (members (chans s ch))))"
    using one f result_body(1) [OF conjunct1 [OF f]] by (simp add: body_of_def names_start_def)
  have c: "\<forall>l\<in>set (names_one dot mlen sptr name s). take (length ?h) l = ?h"
    using one result_body(2) [OF conjunct1 [OF f]] by simp
  have d: "\<forall>l\<in>set (names_one dot mlen sptr name s). mlen + length l \<le> BUFSIZE - (if dot then 0 else 1)"
    if n: "mlen + ?n + NICKLEN \<le> BUFSIZE - 3" and nick: "\<forall>cl. length (c_name (clients s cl)) \<le> NICKLEN"
  proof
    have "nb_fits mlen (if dot then 2 else 1) ?f"
      by (rule fold_fits) (use n nick name_mark_len in \<open>auto simp: nb_fits_def names_start_def names_header_len\<close>)
    from result_fits [OF this]
    show "mlen + length l \<le> BUFSIZE - (if dot then 0 else 1)" if "l \<in> set (names_one dot mlen sptr name s)" for l
      using that one by (fastforce simp: BUFSIZE_def split: if_splits)
  qed
  from a b c d show ?thesis by blast
qed

theorem names_reply_witness:
  "body_of (names_header (chans room 5)) (names_one False 30 2 ''#c'' room) = ''bob @op ''"
proof -
  have pub: "ShowChannel room 2 5"
    by (simp add: ShowChannel_def PubChannel_def room_sel MODE_OPERONLY_def MODE_PRIVATE_def MODE_SECRET_def has_def)
  have "shown_to room 2 5 2" "shown_to room 2 5 3"
    by (simp_all add: shown_to_def IsInvisible_def IsStealth_def room_sel plain_user_def has_def)
  then show ?thesis using names_reply [OF room_lookup, of 2 False 30] pub
    by (simp add: room_members name_mark_def room_sel plain_user_def has_def CHFL_CHANOP_def CHFL_VOICE_def NICKLEN_def)
qed

end
