(* ===== verification/ChanJoin.thy ===== *)
theory ChanJoin
  imports ChanNames
begin

text \<open>
  \<open>m_join\<close> of \<open>src/channel.c\<close>, as built: \<open>ANTI_SPAMBOT\<close> without \<open>WARN_ONLY\<close>, no split code. \<open>alloc\<close>
  stands for the address the allocator gives a new channel block beside the live ones, \<open>ncm\<close> for the
  global \<open>new_cmodes\<close>; \<open>dot\<close>, \<open>mename\<close>, \<open>cname\<close> and \<open>everyone\<close> are the parameters of \<open>m_names\<close>.
\<close>

subsection \<open>The list of names\<close>

text \<open>
  \<open>jbuf\<close> is the bytes below the index \<open>i\<close>; \<open>*jbuf = '\0'\<close> clears its first byte and leaves \<open>i\<close>.
\<close>

definition clear_first :: "string \<Rightarrow> string" where
  "clear_first jb = (case jb of [] \<Rightarrow> [] | _ # t \<Rightarrow> NUL # t)"

text \<open>One name; the first value says that the buffer is full, which ends the loop.\<close>

definition join_item :: "nat \<Rightarrow> cstr \<Rightarrow> cstr \<Rightarrow> string \<Rightarrow> ircd \<Rightarrow> bool \<times> ircd \<times> string" where
  "join_item sptr src name jb s =
     (let me = clients s sptr; zero = (hd0 name = CHR ''0'' \<and> atoi name = 0 \<and> \<not> MyConnect me);
          jb' = (if zero then clear_first jb else jb) in
      if \<not> check_channel_name name then (False, numeric sptr ''479'' src (name @ '' :Illegal channel name'') s, jb)
      else if hd0 name = CHR ''&'' \<and> \<not> MyConnect me then (False, s, jb)
      else if \<not> zero \<and> \<not> IsChannelName name then
        (False, if MyClient me then numeric sptr ''403'' src (name @ '' :No such channel'') s else s, jb)
      else if BUFSIZE \<le> length jb' + length name + 2 then (True, s, jb')
      else (False, s, jb' @ (if hd0 jb' \<noteq> NUL then '','' else []) @ name))"

fun join_list :: "nat \<Rightarrow> cstr \<Rightarrow> cstr list \<Rightarrow> string \<Rightarrow> ircd \<Rightarrow> ircd \<times> string" where
  "join_list sptr src [] jb s = (s, jb)"
| "join_list sptr src (name # names) jb s =
     (case join_item sptr src name jb s of (full, t, jb') \<Rightarrow>
        if full then (t, jb') else join_list sptr src names jb' t)"

definition joined_names :: "string \<Rightarrow> cstr list" where
  "joined_names jb = strtokens '','' (Some (takeWhile (\<lambda>c. c \<noteq> NUL) jb))"

subsection \<open>\<open>JOIN 0\<close>\<close>

lemma u_channel_free_invites: "u_channel (clients (free_invites ch s) cl) = u_channel (clients s cl)"
proof (induction ch s rule: free_invites.induct)
  case (1 ch s)
  have "u_channel (clients (del_invite x ch s) cl) = u_channel (clients s cl)" for x
    by (simp add: del_invite_def)
  then show ?case by (cases "invites (chans s ch)") (simp_all add: free_invites.simps [of ch s] "1.IH")
qed

lemma u_channel_remove:
  "u_channel (clients (remove_user_from_channel cl ch s) cl) = drop_link ch (u_channel (clients s cl))"
  by (simp add: remove_user_from_channel_def sub1_from_channel_def Let_def free_channel_def
      free_bans_exceptions_denies_def u_channel_free_invites unlink_member_def)

lemma u_channel_tell [simp]: "clients (tell_channel ch cl m s) = clients s"
  by (simp add: tell_channel_def)

function part_all :: "nat \<Rightarrow> cstr \<Rightarrow> ircd \<Rightarrow> ircd" where
  "part_all sptr src s =
     (case u_channel (clients s sptr) of
        [] \<Rightarrow> s
      | ch # _ \<Rightarrow> part_all sptr src (remove_user_from_channel sptr ch
          (tell_channel ch sptr ('':'' @ src @ '' PART '' @ chname (chans s ch)) s)))"
  by pat_completeness auto
termination
  by (relation "measure (\<lambda>(sptr, src, s). length (u_channel (clients s sptr)))")
    (auto simp: u_channel_remove)

declare part_all.simps [simp del]

definition join_zero :: "nat \<Rightarrow> cstr \<Rightarrow> ircd \<Rightarrow> ircd" where
  "join_zero sptr src s =
     (if u_channel (clients s sptr) = [] then s
      else send ToServers ('':'' @ src @ '' JOIN 0'') (note_leave sptr (part_all sptr src s)))"

subsection \<open>One channel\<close>

text \<open>The refusals of a local user that do not depend on the channel's modes.\<close>

definition too_many :: "nat \<Rightarrow> ircd \<Rightarrow> bool" where
  "too_many sptr s \<longleftrightarrow>
     (let me = clients s sptr; k = u_joined me; per = MaxChansPerUser (cfg s); reg = MaxChansPerRegUser (cfg s) in
      (per \<le> k \<and> (reg = 0 \<or> \<not> IsIdentified me) \<or> reg \<noteq> 0 \<and> IsIdentified me \<and> reg \<le> k) \<and>
      \<not> IsService me \<and> (\<not> IsAnOper me \<or> per * 10 \<le> k))"

definition spambot :: "nat \<Rightarrow> ircd \<Rightarrow> bool" where
  "spambot sptr s \<longleftrightarrow> SPAMNUM (cfg s) \<noteq> 0 \<and> SPAMNUM (cfg s) \<le> join_leave_count (clients s sptr)"

definition note_spambot :: "nat \<Rightarrow> cstr \<Rightarrow> ircd \<Rightarrow> ircd" where
  "note_spambot sptr name s =
     (let c = clients s sptr; k = (if 0 < oper_warn_count_down c then oper_warn_count_down c - 1 else 0) in
      if k = 0 then
        upd_client sptr (\<lambda>c. c\<lparr>oper_warn_count_down := OPER_SPAM_COUNTDOWN\<rparr>)
          (send ToOps (''User '' @ c_name c @ '' ('' @ c_username c @ ''@'' @ c_host c @ '') trying to join '' @ name @
             '' is a possible spambot'') s)
      else upd_client sptr (\<lambda>c. c\<lparr>oper_warn_count_down := k\<rparr>) s)"

definition join_error :: "int \<Rightarrow> cstr" where
  "join_error e =
     (if e = ERR_CHANNELISFULL then '' :Cannot join channel (+l)''
      else if e = ERR_INVITEONLYCHAN then '' :Cannot join channel (+i)''
      else if e = ERR_BANNEDFROMCHAN then '' :Cannot join channel (+b)''
      else if e = ERR_BADCHANNELKEY then '' :Cannot join channel (+k)''
      else if e = ERR_NEEDREGGEDNICK then '' :You need a registered and identified nick to join that channel.''
      else '' :You need to connect via SSL to join that Channel'')"

text \<open>The \<open>SJOIN\<close> for the other servers; a founder sets the time stamp.\<close>

definition announce_join :: "nat \<Rightarrow> cstr \<Rightarrow> cstr \<Rightarrow> nat \<Rightarrow> bool \<Rightarrow> ircd \<Rightarrow> ircd" where
  "announce_join sptr src name ch founder s =
     (let line = (\<lambda>t modes nick. '':'' @ me_name (cfg t) @ '' SJOIN '' @ lu (channelts (chans t ch)) @ '' '' @ name @ '' '' @
            modes @ '' :'' @ nick) in
      if MyClient (clients s sptr) \<and> founder then
        let s1 = upd_chan ch (\<lambda>c. c\<lparr>channelts := CurrentTime s\<rparr>) s
        in send (ToMatchServs ch) (line s1 (DefaultChanMode (cfg s)) (''@'' @ src)) s1
      else if MyClient (clients s sptr) then send (ToMatchServs ch) (line s ''+'' src) s
      else send (ToMatchServs ch) ('':'' @ src @ '' SJOIN :'' @ name) s)"

definition join_topic :: "nat \<Rightarrow> cstr \<Rightarrow> cstr \<Rightarrow> nat \<Rightarrow> ircd \<Rightarrow> ircd" where
  "join_topic sptr src name ch s =
     (let c = chans s ch in
      if topic c = [] then s
      else numeric sptr ''333'' src (name @ '' '' @ topic_nick c @ '' '' @ lu (topic_time c))
             (numeric sptr ''332'' src (name @ '' :'' @ topic c) s))"

text \<open>The mode line of a new channel, and the way in.\<close>

definition founder_modes :: "32 word \<Rightarrow> nat \<Rightarrow> ircd \<Rightarrow> ircd" where
  "founder_modes ncm ch s =
     send (ToChannel ch) ('':'' @ me_name (cfg s) @ '' MODE '' @ chname (chans s ch) @ '' '' @ DefaultChanMode (cfg s))
       (upd_chan ch (\<lambda>c. c\<lparr>mode := (mode c)\<lparr>md_mode := md_mode (mode c) OR ncm\<rparr>\<rparr>) s)"

definition enter_channel ::
  "bool \<Rightarrow> cstr \<Rightarrow> cstr \<Rightarrow> nat list \<Rightarrow> 32 word \<Rightarrow> nat \<Rightarrow> cstr \<Rightarrow> cstr \<Rightarrow> nat \<Rightarrow> bool \<Rightarrow> ircd \<Rightarrow> ircd" where
  "enter_channel dot mename cname everyone ncm sptr src name ch founder s =
     (let s3 = tell_channel ch sptr ('':'' @ src @ '' JOIN :'' @ name)
          (announce_join sptr src name ch founder (add_user_to_channel ch sptr (if founder then CHFL_CHANOP else 0) s));
          s4 = (if founder \<and> \<not> IsStealth (clients s3 sptr) then founder_modes ncm ch s3 else s3)
      in if \<not> MyClient (clients s3 sptr) then s3
         else m_names dot mename cname everyone sptr [src, name]
                (join_topic sptr src name ch (del_invite sptr ch s4)))"

text \<open>The channel is found or created, its own restrictions are checked.\<close>

definition join_open ::
  "bool \<Rightarrow> cstr \<Rightarrow> cstr \<Rightarrow> nat list \<Rightarrow> 32 word \<Rightarrow> (nat list \<Rightarrow> nat) \<Rightarrow> nat \<Rightarrow> cstr \<Rightarrow> cstr \<Rightarrow> cstr option \<Rightarrow> bool \<Rightarrow> nat \<Rightarrow> ircd \<Rightarrow>
     ircd + (ircd \<times> nat)" where
  "join_open dot mename cname everyone ncm alloc sptr src name key founder num s =
     (case get_channel (alloc (channel s)) sptr name True s of
        (s2, None) \<Rightarrow>
          Inr (send (ToOne sptr) ('':'' @ me_name (cfg s) @ '' NOTICE '' @ src @ '' :You cannot join '' @ name @
            '' due to network split'') s2, num - 1)
      | (s2, Some ch) \<Rightarrow>
          if IsMember s2 sptr ch then Inr (s2, num)
          else
            let (s3, err) = (if MyConnect (clients s sptr) then can_join sptr ch key s2 else (s2, 0))
            in if err \<noteq> 0 then Inr (numeric sptr (dec err) src (name @ join_error err) s3, num - 1)
               else Inr (enter_channel dot mename cname everyone ncm sptr src name ch founder s3, num))"

text \<open>
  The outcome of one name: \<open>Inl\<close> ends the command. The number is \<open>successful_join_count\<close>.
\<close>

definition join_one ::
  "bool \<Rightarrow> cstr \<Rightarrow> cstr \<Rightarrow> nat list \<Rightarrow> 32 word \<Rightarrow> (nat list \<Rightarrow> nat) \<Rightarrow> nat \<Rightarrow> cstr \<Rightarrow> cstr \<Rightarrow> cstr option \<Rightarrow> nat \<Rightarrow> ircd \<Rightarrow>
     ircd + (ircd \<times> nat)" where
  "join_one dot mename cname everyone ncm alloc sptr src name0 key num s =
     (if hd0 name0 = CHR ''0'' \<and> atoi name0 = 0 then Inr (join_zero sptr src s, num)
      else
        let me = clients s sptr; mine = MyConnect me; name = chan_arg sptr name0 s;
            founder = (mine \<and> lookup_channel name s = None);
            num1 = (if mine \<and> \<not> founder then num + 1 else num)
        in if founder \<and> RestrictedChans (cfg s) \<and> \<not> IsOper me then
             Inl (send (ToOne sptr) ('':'' @ me_name (cfg s) @ '' NOTICE '' @ src @ '' :'' @ RestrictedChansMsg (cfg s)) s)
           else if mine \<and> too_many sptr s then
             Inl ((if num \<noteq> 0 then upd_client sptr (\<lambda>c. c\<lparr>last_join_time := CurrentTime s\<rparr>) else id)
                    (numeric sptr ''405'' src (name @ '' :You have joined too many channels'') s))
           else if mine \<and> spambot sptr s then Inl (note_spambot sptr name s)
           else
             let s1 = (if \<not> mine \<and> lookup_channel name s = None
                  then send ToOps (''User on '' @ u_server me @ '' remotely JOINing new channel'') s else s)
             in join_open dot mename cname everyone ncm alloc sptr src name key founder num1 s1)"

fun join_loop ::
  "bool \<Rightarrow> cstr \<Rightarrow> cstr \<Rightarrow> nat list \<Rightarrow> 32 word \<Rightarrow> (nat list \<Rightarrow> nat) \<Rightarrow> nat \<Rightarrow> cstr \<Rightarrow> cstr list \<Rightarrow> cstr list \<Rightarrow> nat \<Rightarrow> ircd \<Rightarrow> ircd" where
  "join_loop dot mename cname everyone ncm alloc sptr src [] keys num s =
     (if MyConnect (clients s sptr) \<and> num \<noteq> 0
      then upd_client sptr (\<lambda>c. c\<lparr>last_join_time := CurrentTime s\<rparr>) s else s)"
| "join_loop dot mename cname everyone ncm alloc sptr src (name # names) keys num s =
     (case join_one dot mename cname everyone ncm alloc sptr src name (case keys of [] \<Rightarrow> None | k # _ \<Rightarrow> Some k) num s of
        Inl t \<Rightarrow> t
      | Inr (t, num') \<Rightarrow> join_loop dot mename cname everyone ncm alloc sptr src names (drop 1 keys) num' t)"

definition m_join ::
  "bool \<Rightarrow> cstr \<Rightarrow> cstr \<Rightarrow> nat list \<Rightarrow> 32 word \<Rightarrow> (nat list \<Rightarrow> nat) \<Rightarrow> nat \<Rightarrow> cstr list \<Rightarrow> ircd \<Rightarrow> ircd" where
  "m_join dot mename cname everyone ncm alloc sptr parv s =
     (let me = clients s sptr; src = parv ! 0 in
      if \<not> has_user me then s
      else if length parv < 2 \<or> parv ! 1 = [] then need_more sptr src ''JOIN'' s
      else if secure_mode (cfg s) \<and> MyClient me \<and> \<not> IsIdentified me then
        numeric sptr ''477'' src ('' :You need a registered and identified nick to join that channel.'') s
      else
        let (s1, jb) = join_list sptr src (strtokens '','' (Some (parv ! 1))) [] s;
            keys = (if 2 < length parv then strtokens '','' (Some (parv ! 2)) else [])
        in join_loop dot mename cname everyone ncm alloc sptr src (joined_names jb) keys 0 s1)"

subsection \<open>The invariant\<close>

text \<open>What a client is, the number of its channels aside.\<close>

definition ident :: "ircd \<Rightarrow> nat \<Rightarrow> config \<times> 32 word \<times> 32 word \<times> status \<times> bool \<times> bool" where
  "ident s cl = (let c = clients s cl in (cfg s, c_umodes c, c_flags c, c_status c, local_flag c, has_user c))"

lemma ident_cong: "clients t = clients s \<Longrightarrow> cfg t = cfg s \<Longrightarrow> ident t cl = ident s cl"
  by (simp add: ident_def)

lemma ident_sel [simp]:
  "ident (send a m s) cl = ident s cl" "ident (numeric x num nm txt s) cl = ident s cl"
  "ident (tell_channel ch x m s) cl = ident s cl" "ident (upd_chan ch f s) cl = ident s cl"
  "ident (need_more x nm cmd s) cl = ident s cl"
  by (simp_all add: ident_def numeric_def tell_channel_def need_more_def)

lemma ident_upd_client:
  "(\<And>c. c_umodes (f c) = c_umodes c \<and> c_flags (f c) = c_flags c \<and> c_status (f c) = c_status c \<and>
      local_flag (f c) = local_flag c \<and> has_user (f c) = has_user c) \<Longrightarrow> ident (upd_client x f s) cl = ident s cl"
  by (simp add: ident_def Let_def)

lemma ident_del_invite [simp]: "ident (del_invite x ch s) cl = ident s cl"
  by (simp add: del_invite_def ident_upd_client)

lemma joined_del_invite [simp]: "u_joined (clients (del_invite x ch s) cl) = u_joined (clients s cl)"
  by (simp add: del_invite_def)

lemma free_invites_client [simp]:
  "ident (free_invites ch s) cl = ident s cl" "u_joined (clients (free_invites ch s) cl) = u_joined (clients s cl)"
proof (induction ch s rule: free_invites.induct)
  case (1 ch s)
  show "ident (free_invites ch s) cl = ident s cl" "u_joined (clients (free_invites ch s) cl) = u_joined (clients s cl)"
    by (cases "invites (chans s ch)"; simp add: free_invites.simps [of ch s] "1.IH")+
qed

lemma sub1_client [simp]:
  "ident (sub1_from_channel ch s) cl = ident s cl" "u_joined (clients (sub1_from_channel ch s) cl) = u_joined (clients s cl)"
proof -
  have "ident (free_channel ch t) cl = ident t cl" for t by (rule ident_cong) (simp_all add: free_channel_def)
  then show "ident (sub1_from_channel ch s) cl = ident s cl"
    "u_joined (clients (sub1_from_channel ch s) cl) = u_joined (clients s cl)"
    by (simp_all add: sub1_from_channel_def Let_def free_bans_exceptions_denies_def) (simp add: free_channel_def)
qed

lemma remove_user_client:
  "ident (remove_user_from_channel x ch s) cl = ident s cl"
  "u_joined (clients (remove_user_from_channel x ch s) cl) = u_joined (clients s cl) - (if cl = x then 1 else 0)"
  by (simp_all add: remove_user_from_channel_def Let_def unlink_member_def ident_upd_client)

lemma add_user_client:
  "ident (add_user_to_channel ch x fl s) cl = ident s cl"
  "u_joined (clients (add_user_to_channel ch x fl s) cl) \<le> u_joined (clients s cl) + 1"
  by (simp_all add: add_user_to_channel_def link_member_def ident_upd_client)

lemma m_names_clients: "clients (m_names dot me cn cls x parv s) = clients s" "cfg (m_names dot me cn cls x parv s) = cfg s"
proof -
  have "clients (foldl (\<lambda>t l. send (ToOne x) (f l) t) t ls) = clients t"
    "cfg (foldl (\<lambda>t l. send (ToOne x) (f l) t) t ls) = cfg t" for t f and ls :: "cstr list"
    by (induction ls arbitrary: t) simp_all
  then show "clients (m_names dot me cn cls x parv s) = clients s" "cfg (m_names dot me cn cls x parv s) = cfg s"
    by (simp_all add: m_names_def Let_def split: option.split)
qed

text \<open>The list of names is built by talking only.\<close>

lemma join_item_clients:
  "join_item x src name jb s = (full, t, jb') \<Longrightarrow> clients t = clients s \<and> cfg t = cfg s \<and> chans t = chans s \<and> (chan_inv s \<longrightarrow> chan_inv t)"
  by (auto simp: join_item_def Let_def numeric_def intro!: keeps split: if_splits)

lemma join_list_clients:
  "join_list x src names jb s = (t, jb') \<Longrightarrow> clients t = clients s \<and> cfg t = cfg s \<and> chans t = chans s \<and> (chan_inv s \<longrightarrow> chan_inv t)"
proof (induction names arbitrary: jb s)
  case (Cons name names)
  obtain full u jb'' where i: "join_item x src name jb s = (full, u, jb'')" by (metis prod_cases3)
  from Cons.IH [of jb'' u] Cons.prems join_item_clients [OF i] show ?case by (auto simp: i split: if_splits)
qed simp

lemma head_leaves:
  assumes "chan_inv s" "u_channel (clients s x) = ch # chs" "x \<noteq> 0"
  shows "ch \<in> set (channel s)" "x \<in> set (members_of s ch)"
proof -
  have "ch \<in> set (channels_of s x)" using assms(2) by (simp add: channels_of_def)
  then show "ch \<in> set (channel s)" "x \<in> set (members_of s ch)"
    using assms(1) mem.agreeD [of s x ch] by (auto simp: chan_inv_def links_inv_def)
qed

lemma tell_same [simp]: "members_of (tell_channel ch x m s) = members_of s" "channel (tell_channel ch x m s) = channel s"
  by (simp_all add: tell_channel_def members_of_def fun_eq_iff)

lemma part_all_keeps:
  "chan_inv s \<Longrightarrow> x \<noteq> 0 \<Longrightarrow> chan_inv (part_all x src s) \<and> u_channel (clients (part_all x src s) x) = [] \<and>
     u_joined (clients (part_all x src s) x) \<le> u_joined (clients s x) \<and> ident (part_all x src s) cl = ident s cl"
proof (induction x src s rule: part_all.induct)
  case (1 x src s)
  show ?case
  proof (cases "u_channel (clients s x)")
    case Nil
    with 1 show ?thesis by (simp add: part_all.simps [of x src s])
  next
    case (Cons ch chs)
    let ?t = "tell_channel ch x ('':'' @ src @ '' PART '' @ chname (chans s ch)) s"
    have "chan_inv (remove_user_from_channel x ch ?t)"
      using head_leaves [OF "1.prems"(1) Cons "1.prems"(2)] "1.prems"(1)
      by (intro remove_user_from_channel_inv) (auto intro: keeps)
    with "1.IH" [OF Cons] "1.prems"(2) Cons show ?thesis
      by (simp add: part_all.simps [of x src s] remove_user_client)
  qed
qed

lemma note_leave_client [simp]:
  "u_joined (clients (note_leave x s) cl) = u_joined (clients s cl)" "ident (note_leave x s) cl = ident s cl"
  by (simp_all add: note_leave_def Let_def ident_upd_client)

lemma join_zero_keeps:
  assumes "chan_inv s" "x \<noteq> 0"
  shows "chan_inv (join_zero x src s)" "u_joined (clients (join_zero x src s) x) \<le> u_joined (clients s x)"
    "ident (join_zero x src s) cl = ident s cl"
  using part_all_keeps [OF assms, of src] assms(1)
  by (auto simp: join_zero_def intro: keeps)

lemma enter_steps:
  "chan_inv s \<Longrightarrow> chan_inv (announce_join x src name ch founder s)"
  "chan_inv s \<Longrightarrow> chan_inv (founder_modes ncm ch s)"
  "chan_inv s \<Longrightarrow> chan_inv (join_topic x src name ch s)"
  by (auto simp: announce_join_def founder_modes_def join_topic_def Let_def intro!: keeps chan_inv_upd_chan)

lemma enter_steps_clients [simp]:
  "clients (announce_join x src name ch founder t) = clients t" "cfg (announce_join x src name ch founder t) = cfg t"
  "clients (join_topic x src name ch t) = clients t" "cfg (join_topic x src name ch t) = cfg t"
  "clients (founder_modes ncm ch t) = clients t" "cfg (founder_modes ncm ch t) = cfg t"
  by (simp_all add: announce_join_def join_topic_def founder_modes_def numeric_def Let_def)

lemma enter_channel_keeps:
  assumes "chan_inv s" "ch \<in> set (channel s)" "x \<notin> set (members_of s ch)"
  shows "chan_inv (enter_channel dot me cn cls ncm x src name ch founder s)"
proof -
  define s3 where "s3 = tell_channel ch x ('':'' @ src @ '' JOIN :'' @ name)
          (announce_join x src name ch founder (add_user_to_channel ch x (if founder then CHFL_CHANOP else 0) s))"
  have 3: "chan_inv s3" unfolding s3_def
    by (intro keeps enter_steps add_user_to_channel_inv assms)
  define s4 where "s4 = (if founder \<and> \<not> IsStealth (clients s3 x) then founder_modes ncm ch s3 else s3)"
  have "chan_inv s4" using 3 enter_steps(2) by (simp add: s4_def)
  then show ?thesis
    unfolding enter_channel_def Let_def s3_def [symmetric] s4_def [symmetric]
    using 3 by (intro inv_splits m_names_keeps enter_steps del_invite_inv)
qed

lemma enter_channel_client:
  "u_joined (clients (enter_channel dot me cn cls ncm x src name ch founder s) x) \<le> u_joined (clients s x) + 1"
  "ident (enter_channel dot me cn cls ncm x src name ch founder s) cl = ident s cl"
proof -
  define s1 where "s1 = add_user_to_channel ch x (if founder then CHFL_CHANOP else 0) s"
  have 1: "ident s1 cl = ident s cl" "u_joined (clients s1 x) \<le> u_joined (clients s x) + 1"
    by (simp_all add: s1_def add_user_client)
  define s3 where "s3 = tell_channel ch x ('':'' @ src @ '' JOIN :'' @ name) (announce_join x src name ch founder s1)"
  have 3: "ident s3 cl = ident s1 cl" "clients s3 = clients s1" by (simp_all add: s3_def) (simp add: ident_def)
  define s4 where "s4 = (if founder \<and> \<not> IsStealth (clients s3 x) then founder_modes ncm ch s3 else s3)"
  have 4: "ident s4 cl = ident s3 cl" "clients s4 = clients s3" by (simp_all add: s4_def) (simp add: ident_def)
  have n: "ident (m_names dot me cn cls x parv t) cl = ident t cl" for me parv t
    by (simp add: ident_def m_names_clients)
  have j: "ident (join_topic x src name ch t) cl = ident t cl" for t by (simp add: ident_def)
  show "ident (enter_channel dot me cn cls ncm x src name ch founder s) cl = ident s cl"
    unfolding enter_channel_def Let_def s1_def [symmetric] s3_def [symmetric] s4_def [symmetric]
    by (simp add: n j 4 3 1)
  show "u_joined (clients (enter_channel dot me cn cls ncm x src name ch founder s) x) \<le> u_joined (clients s x) + 1"
    unfolding enter_channel_def Let_def s1_def [symmetric] s3_def [symmetric] s4_def [symmetric]
    using 1(2) by (simp add: m_names_clients 4 3)
qed

lemma get_channel_facts:
  assumes "chan_inv s" "new \<notin> set (channel s)" "new \<noteq> 0" "get_channel new cl name create s = (t, r)"
  shows "chan_inv t" "clients t = clients s" "cfg t = cfg s" "r = Some ch \<Longrightarrow> ch \<in> set (channel t)"
proof -
  show "chan_inv t" using get_channel_inv [OF assms(1-3), of cl name create] assms(4) by simp
  show "clients t = clients s" "cfg t = cfg s"
    using assms(4) by (auto simp: get_channel_def Let_def split: if_splits option.splits)
  have "lookup_channel nm s = Some c \<Longrightarrow> c \<in> set (channel s)" for nm c
    using lookup_live [OF assms(1)] by blast
  then show "r = Some ch \<Longrightarrow> ch \<in> set (channel t)"
    using assms(4) by (auto simp: get_channel_def Let_def lookup_channel_def split: if_splits option.splits)
qed

lemma can_join_cfg: "cfg (fst (can_join cl ch key s)) = cfg s"
  by (simp add: can_join_def Let_def fst_if if_distrib [of cfg] refuse_def bypass_notices_def cong: if_weak_cong)

text \<open>The most channels a user who is no service can be on.\<close>

definition joined_limit :: "nat \<Rightarrow> ircd \<Rightarrow> int" where
  "joined_limit cl s =
     (let me = clients s cl; per = MaxChansPerUser (cfg s); reg = MaxChansPerRegUser (cfg s);
          own = (if reg \<noteq> 0 \<and> IsIdentified me then reg else per)
      in if IsAnOper me then max own (per * 10) else own)"

lemma room_left: "\<not> too_many cl s \<Longrightarrow> \<not> IsService (clients s cl) \<Longrightarrow> u_joined (clients s cl) < joined_limit cl s"
  by (auto simp: too_many_def joined_limit_def Let_def max_def split: if_splits)

lemma joined_limit_ident: "ident t cl = ident s cl \<Longrightarrow> joined_limit cl t = joined_limit cl s"
  by (simp add: ident_def joined_limit_def Let_def IsIdentified_def IsAnOper_def)

lemma ident_fields:
  assumes "ident t cl = ident s cl"
  shows "MyConnect (clients t cl) = MyConnect (clients s cl)" "IsService (clients t cl) = IsService (clients s cl)"
    "MyClient (clients t cl) = MyClient (clients s cl)" "cfg t = cfg s"
  using assms by (simp_all add: ident_def Let_def MyConnect_def IsService_def MyClient_def IsClient_def)

text \<open>What every outcome of a name has in common: the invariant, the identity, the limit.\<close>

definition join_ok :: "nat \<Rightarrow> ircd \<Rightarrow> ircd \<Rightarrow> bool" where
  "join_ok x s t \<longleftrightarrow> chan_inv t \<and> ident t x = ident s x \<and>
     (MyConnect (clients s x) \<and> \<not> IsService (clients s x) \<longrightarrow>
        u_joined (clients t x) \<le> max (u_joined (clients s x)) (joined_limit x s))"

lemma join_ok_quiet: "chan_inv t \<Longrightarrow> ident t x = ident s x \<Longrightarrow> u_joined (clients t x) \<le> u_joined (clients s x) \<Longrightarrow> join_ok x s t"
  by (auto simp: join_ok_def max_def)

lemma join_ok_trans: "join_ok x s t \<Longrightarrow> join_ok x t u \<Longrightarrow> join_ok x s u"
  using joined_limit_ident [of t x s] ident_fields [of t x s] by (auto simp: join_ok_def)

definition outcome :: "ircd + (ircd \<times> nat) \<Rightarrow> ircd" where
  "outcome r = (case r of Inl t \<Rightarrow> t | Inr p \<Rightarrow> fst p)"

lemma outcome_simps [simp]: "outcome (Inl t) = t" "outcome (Inr (t, n)) = t"
  by (simp_all add: outcome_def)

text \<open>The part of a name that opens the channel, once the limits are passed.\<close>

lemma join_open_ok:
  assumes "chan_inv s1" "x \<noteq> 0" "alloc (channel s1) \<notin> set (channel s1)" "alloc (channel s1) \<noteq> 0"
    and "MyConnect (clients s1 x) \<Longrightarrow> \<not> too_many x s1"
  shows "join_ok x s1 (outcome (join_open dot me cn cls ncm alloc x src name key founder n s1))"
proof -
  obtain s2 r where 2: "get_channel (alloc (channel s1)) x name True s1 = (s2, r)" by fastforce
  note g = get_channel_facts [OF assms(1,3,4) 2]
  have i2: "ident s2 x = ident s1 x" "u_joined (clients s2 x) = u_joined (clients s1 x)" using g(2,3) by (simp_all add: ident_def)
  show ?thesis
  proof (cases r)
    case None
    then show ?thesis using g(1) i2 by (simp add: join_open_def 2 join_ok_quiet keeps)
  next
    case (Some ch)
    have live: "ch \<in> set (channel s2)" using g(4) Some by simp
    define s3 where "s3 = fst (if MyConnect (clients s1 x) then can_join x ch key s2 else (s2, 0))"
    define err where "err = snd (if MyConnect (clients s1 x) then can_join x ch key s2 else (s2, 0))"
    have p: "(if MyConnect (clients s1 x) then can_join x ch key s2 else (s2, 0)) = (s3, err)" by (simp add: s3_def err_def)
    have 3: "chan_inv s3" "clients s3 = clients s2" "chans s3 = chans s2" "channel s3 = channel s2" "cfg s3 = cfg s2"
      using g(1) can_join_inv can_join_cfg by (simp_all add: s3_def)
    have i3: "ident s3 x = ident s2 x" using 3 by (simp add: ident_def)
    show ?thesis
    proof (cases "IsMember s2 x ch")
      case True
      then show ?thesis using g(1) i2 by (simp add: join_open_def 2 Some join_ok_quiet)
    next
      case False
      then have "x \<notin> set (members_of s3 ch)"
        using IsMember_iff [OF g(1) live] assms(2) 3 by (simp add: members_of_def)
      then have e: "chan_inv (enter_channel dot me cn cls ncm x src name ch founder s3)"
        using 3 live by (intro enter_channel_keeps) simp_all
      have "join_ok x s1 (enter_channel dot me cn cls ncm x src name ch founder s3)"
      proof -
        have "u_joined (clients s1 x) < joined_limit x s1" if "MyConnect (clients s1 x)" "\<not> IsService (clients s1 x)"
          using room_left [of x s1] assms(5) that by simp
        then show ?thesis
          using e enter_channel_client [of dot me cn cls ncm x src name ch founder s3] 3(2) i2 i3
          by (fastforce simp: join_ok_def)
      qed
      moreover have "join_ok x s1 (numeric x (dec err) src (name @ join_error err) s3)"
        using 3 i2 i3 by (intro join_ok_quiet keeps) (simp_all add: numeric_def)
      ultimately show ?thesis using False by (simp add: join_open_def 2 Some p)
    qed
  qed
qed

lemma join_one_ok:
  assumes "chan_inv s" "x \<noteq> 0" "\<And>xs. alloc xs \<notin> set xs \<and> alloc xs \<noteq> 0"
  shows "join_ok x s (outcome (join_one dot me cn cls ncm alloc x src name0 key n s))"
proof -
  have z: "join_ok x s (join_zero x src s)"
    by (rule join_ok_quiet [OF join_zero_keeps(1) [OF assms(1,2)] join_zero_keeps(3) [OF assms(1,2)] join_zero_keeps(2) [OF assms(1,2)]])
  have q: "join_ok x s t" if "chan_inv t" "ident t x = ident s x" "u_joined (clients t x) = u_joined (clients s x)" for t
    using that by (simp add: join_ok_quiet)
  have note_sp: "join_ok x s (note_spambot x nm s)" for nm
    using assms(1) by (intro q) (auto simp: note_spambot_def Let_def ident_upd_client intro!: keeps chan_inv_upd_client)
  have many: "join_ok x s ((if n \<noteq> 0 then upd_client x (\<lambda>c. c\<lparr>last_join_time := CurrentTime s\<rparr>) else id) (numeric x a b c s))" for a b c
    using assms(1) by (intro q) (auto simp: ident_upd_client numeric_def intro!: keeps chan_inv_upd_client)
  have closed: "join_ok x s (send a m s)" for a m using assms(1) by (intro q) (auto intro: keeps)
  show ?thesis
  proof (cases "hd0 name0 = CHR ''0'' \<and> atoi name0 = 0")
    case True
    then show ?thesis using z by (simp add: join_one_def)
  next
    case False
    define mine where "mine = MyConnect (clients s x)"
    define name where "name = chan_arg x name0 s"
    define founder where "founder = (mine \<and> lookup_channel name s = None)"
    define num1 where "num1 = (if mine \<and> \<not> founder then n + 1 else n)"
    define s1 where "s1 = (if \<not> mine \<and> lookup_channel name s = None
        then send ToOps (''User on '' @ u_server (clients s x) @ '' remotely JOINing new channel'') s else s)"
    have s1: "chan_inv s1" "clients s1 = clients s" "cfg s1 = cfg s" using assms(1) by (auto simp: s1_def intro: keeps)
    have t1: "too_many x s1 = too_many x s" using s1 by (simp add: too_many_def)
    have o: "join_ok x s (outcome (join_open dot me cn cls ncm alloc x src name key founder num1 s1))"
      if "\<not> (mine \<and> too_many x s)"
    proof (rule join_ok_trans)
      show "join_ok x s s1" using s1 by (intro q) (simp_all add: ident_def)
      show "join_ok x s1 (outcome (join_open dot me cn cls ncm alloc x src name key founder num1 s1))"
        using that t1 s1(1) assms(2,3) by (intro join_open_ok) (simp_all add: mine_def s1(2))
    qed
    have eq: "join_one dot me cn cls ncm alloc x src name0 key n s =
       (if founder \<and> RestrictedChans (cfg s) \<and> \<not> IsOper (clients s x) then
             Inl (send (ToOne x) ('':'' @ me_name (cfg s) @ '' NOTICE '' @ src @ '' :'' @ RestrictedChansMsg (cfg s)) s)
           else if mine \<and> too_many x s then
             Inl ((if n \<noteq> 0 then upd_client x (\<lambda>c. c\<lparr>last_join_time := CurrentTime s\<rparr>) else id)
                    (numeric x ''405'' src (name @ '' :You have joined too many channels'') s))
           else if mine \<and> spambot x s then Inl (note_spambot x name s)
           else join_open dot me cn cls ncm alloc x src name key founder num1 s1)"
      unfolding join_one_def if_not_P [OF False] Let_def mine_def name_def founder_def num1_def s1_def ..
    show ?thesis unfolding eq using o closed many note_sp by (auto simp del: id_apply)
  qed
qed

lemma join_loop_ok:
  assumes "chan_inv s" "x \<noteq> 0" "\<And>xs. alloc xs \<notin> set xs \<and> alloc xs \<noteq> 0"
  shows "join_ok x s (join_loop dot me cn cls ncm alloc x src names keys n s)"
  using assms(1)
proof (induction names arbitrary: s keys n)
  case Nil
  then show ?case by (auto simp: ident_upd_client intro!: join_ok_quiet keeps chan_inv_upd_client)
next
  case (Cons name names)
  let ?r = "join_one dot me cn cls ncm alloc x src name (case keys of [] \<Rightarrow> None | k # _ \<Rightarrow> Some k) n s"
  have r: "join_ok x s (outcome ?r)" by (rule join_one_ok [OF Cons.prems assms(2,3)])
  show ?case
  proof (cases ?r)
    case (Inl t)
    then show ?thesis using r by simp
  next
    case (Inr p)
    obtain t n' where p: "p = (t, n')" by fastforce
    have "join_ok x s t" using r Inr p by simp
    moreover from this have "join_ok x t (join_loop dot me cn cls ncm alloc x src names (drop 1 keys) n' t)"
      by (intro Cons.IH) (simp add: join_ok_def)
    ultimately show ?thesis using Inr p join_ok_trans by simp
  qed
qed

lemma m_join_ok:
  assumes "chan_inv s" "x \<noteq> 0" "\<And>xs. alloc xs \<notin> set xs \<and> alloc xs \<noteq> 0"
  shows "join_ok x s (m_join dot me cn cls ncm alloc x parv s)"
proof -
  have q: "join_ok x s s" "join_ok x s (need_more x src cmd s)" "join_ok x s (numeric x a b c s)" for src cmd a b c
    using assms(1) by (auto intro!: join_ok_quiet keeps simp: need_more_def numeric_def)
  obtain s1 jb where 1: "join_list x (parv ! 0) (strtokens '','' (Some (parv ! 1))) [] s = (s1, jb)" by fastforce
  note l = join_list_clients [OF 1]
  have "join_ok x s s1" using l assms(1) by (intro join_ok_quiet) (simp_all add: ident_def)
  then have "join_ok x s (join_loop dot me cn cls ncm alloc x (parv ! 0) names keys 0 s1)" for names keys
    by (rule join_ok_trans) (rule join_loop_ok, use l assms in simp_all)
  with q show ?thesis unfolding m_join_def Let_def 1 prod.case by (simp split: if_split)
qed

lemma m_join_keeps:
  "chan_inv s \<Longrightarrow> x \<noteq> 0 \<Longrightarrow> (\<And>xs. alloc xs \<notin> set xs \<and> alloc xs \<noteq> 0) \<Longrightarrow> chan_inv (m_join dot me cn cls ncm alloc x parv s)"
  using m_join_ok by (simp add: join_ok_def)

text \<open>An allocator, for concrete runs.\<close>

definition above :: "nat list \<Rightarrow> nat" where
  "above xs = Suc (foldr max xs 0)"

lemma above_fresh: "above xs \<notin> set xs \<and> above xs \<noteq> 0"
proof -
  have "x \<in> set xs \<Longrightarrow> x \<le> foldr max xs 0" for x by (induction xs) auto
  then show ?thesis by (fastforce simp: above_def)
qed

section \<open>Properties\<close>

text \<open>
  C15. No \<open>JOIN\<close>, whatever its list of names and keys, brings a local user who is no service
  above the limit of channels: \<open>MaxChansPerRegUser\<close> for identified users where it is set,
  \<open>MaxChansPerUser\<close> for the others, at least ten times the latter for operators.
\<close>

theorem join_limit:
  assumes "chan_inv s" "sptr \<noteq> 0" "\<And>xs. alloc xs \<notin> set xs \<and> alloc xs \<noteq> 0"
    and "MyConnect (clients s sptr)" "\<not> IsService (clients s sptr)"
    and "u_joined (clients s sptr) \<le> joined_limit sptr s"
  shows "u_joined (clients (m_join dot mename cname everyone ncm alloc sptr parv s) sptr) \<le> joined_limit sptr s"
  using m_join_ok [OF assms(1-3), of dot mename cname everyone ncm parv] assms(4-6) by (simp add: join_ok_def)

theorem join_limit_witness:
  "u_joined (clients (m_join False ''irc.pt'' ''h'' [2, 3] 0 above 2 [''bob'', ''#c,#a,#b,#c,0,x''] room) 2) \<le> 10"
proof -
  have "MyConnect (clients room 2)" "\<not> IsService (clients room 2)" "u_joined (clients room 2) \<le> joined_limit 2 room"
    "joined_limit 2 room = 10"
    by (simp_all add: room_sel plain_user_def MyConnect_def IsService_def joined_limit_def plain_config_def has_def Let_def IsAnOper_def)
  with join_limit [OF room_inv, of 2 above] above_fresh show ?thesis by simp
qed

text \<open>
  \<open>JOIN 0\<close> after a channel name, in the line of a remote user, undoes the line: the
  buffer of names is cleared but its index is kept, so what follows is written behind the NUL and
  nothing of the line is done, the \<open>0\<close> included. Only as the first name it parts all channels.
\<close>

theorem remote_join_zero:
  assumes "join_list sptr src (names @ [''0'']) [] s = (t, jb)"
    and "\<not> MyConnect (clients s sptr)" "names \<noteq> []" "\<And>n. n \<in> set names \<Longrightarrow> check_channel_name n \<and> hd0 n = CHR ''#''"
    and "(\<Sum>n\<leftarrow>names. length n + 1) + 3 < BUFSIZE"
  shows "joined_names jb = []"
proof -
  have step: "join_list sptr src (ns @ [''0'']) buf s =
      (s, clear_first (foldl (\<lambda>b n. b @ (if hd0 b \<noteq> NUL then '','' else []) @ n) buf ns) @ ''0'')"
    if "\<forall>n\<in>set ns. check_channel_name n \<and> hd0 n = CHR ''#''" "buf = [] \<or> hd0 buf = CHR ''#''" "ns \<noteq> [] \<or> buf \<noteq> []"
      "length buf + (\<Sum>n\<leftarrow>ns. length n + 1) + 3 < BUFSIZE" for ns buf
    using that
  proof (induction ns arbitrary: buf)
    case Nil
    have "check_channel_name ''0''" by code_simp
    then have "join_item sptr src ''0'' buf s = (False, s, clear_first buf @ ''0'')"
      using Nil assms(2) by (cases buf) (auto simp: join_item_def Let_def clear_first_def atoi_def strtol_def)
    then show ?case by simp
  next
    case (Cons n ns)
    have i: "join_item sptr src n buf s = (False, s, buf @ (if hd0 buf \<noteq> NUL then '','' else []) @ n)"
      using Cons.prems assms(2) by (auto simp: join_item_def Let_def IsChannelName_def)
    have n: "hd0 n = CHR ''#''" "n \<noteq> []" using Cons.prems(1) by auto
    let ?buf = "buf @ (if hd0 buf \<noteq> NUL then '','' else []) @ n"
    have "hd0 ?buf = CHR ''#''" using n Cons.prems(2) by (cases buf) auto
    then show ?case using Cons.prems n by (subst append_Cons) (simp only: join_list.simps i prod.case if_False foldl.simps, intro Cons.IH; simp)
  qed
  have h: "hd0 (foldl (\<lambda>b n. b @ (if hd0 b \<noteq> NUL then '','' else []) @ n) buf ns) = CHR ''#''"
    if "hd0 buf = CHR ''#''" for buf ns
    using that
  proof (induction ns arbitrary: buf)
    case (Cons n ns)
    then have "hd0 (buf @ (if hd0 buf \<noteq> NUL then '','' else []) @ n) = CHR ''#''" by (cases buf) simp_all
    from Cons.IH [OF this] show ?case by simp
  qed simp
  define acc where "acc = foldl (\<lambda>b n. b @ (if hd0 b \<noteq> NUL then '','' else []) @ n) [] names"
  have "jb = clear_first acc @ ''0''" using assms step [of names "[]"] by (simp add: acc_def)
  moreover have "hd0 acc = CHR ''#''"
  proof -
    obtain n ns where "names = n # ns" using assms(3) by (cases names) simp_all
    then show ?thesis using assms(4) [of n] h [of n ns] by (simp add: acc_def)
  qed
  ultimately show ?thesis
    by (cases acc) (simp_all add: clear_first_def joined_names_def strtokens.simps strtoken_def)
qed

theorem remote_join_zero_witness:
  "joined_names (snd (join_list 2 ''bob'' [''#a'', ''0''] [] (upd_client 2 (\<lambda>c. c\<lparr>local_flag := False\<rparr>) room))) = []"
proof (rule remote_join_zero [where names = "[''#a'']" and sptr = 2 and src = "''bob''"])
  let ?s = "upd_client 2 (\<lambda>c. c\<lparr>local_flag := False\<rparr>) room"
  show "join_list 2 ''bob'' ([''#a''] @ [''0'']) [] ?s =
      (fst (join_list 2 ''bob'' [''#a'', ''0''] [] ?s), snd (join_list 2 ''bob'' [''#a'', ''0''] [] ?s))" by simp
  show "\<not> MyConnect (clients ?s 2)" by (simp add: MyConnect_def)
  have "check_channel_name ''#a''" by code_simp
  then show "check_channel_name n \<and> hd0 n = CHR ''#''" if "n \<in> set [''#a'']" for n using that by simp
qed (simp_all add: BUFSIZE_def)

end
