(* ===== verification/ChanSjoin.thy ===== *)
theory ChanSjoin
  imports ChanJoin
begin

text \<open>
  \<open>m_sjoin\<close> and \<open>m_njoin\<close> of \<open>src/channel.c\<close> (without \<open>TS5\<close>, \<open>HALFOPS\<close> and \<open>SERVERHIDE\<close>): a server
  announces a channel with its time stamp, its modes and some members; the time stamps decide whose modes
  and whose operators stand. \<open>stale\<close> is the byte behind the NUL of an empty list of members, which the test
  for an operator reads. The numeric codes of the counters \<open>total_ignoreops\<close> and \<open>total_hackops\<close> are left out.
\<close>

subsection \<open>The modes of the line\<close>

definition sj_flag :: "char \<Rightarrow> 32 word" where
  "sj_flag c =
     (if c = CHR ''i'' then MODE_INVITEONLY else if c = CHR ''n'' then MODE_NOPRIVMSGS
      else if c = CHR ''p'' then MODE_PRIVATE else if c = CHR ''s'' then MODE_SECRET
      else if c = CHR ''m'' then MODE_MODERATED else if c = CHR ''t'' then MODE_TOPICLIMIT
      else if c = CHR ''r'' then MODE_REGISTERED else if c = CHR ''R'' then MODE_REGONLY
      else if c = CHR ''C'' then MODE_SSLONLY else if c = CHR ''K'' then MODE_KNOCK
      else if c = CHR ''O'' then MODE_OPERONLY else if c = CHR ''A'' then MODE_ADMINONLY
      else if c = CHR ''S'' then MODE_NOSPAM else if c = CHR ''d'' then MODE_NOFLOOD
      else if c = CHR ''c'' then MODE_NOCOLORS else if c = CHR ''q'' then MODE_NOQUITS
      else if c = CHR ''B'' then MODE_NOBOTS else if c = CHR ''N'' then MODE_NONICKCH else 0)"

definition no_mode :: chan_mode where
  "no_mode = \<lparr>md_mode = 0, md_limit = 0, md_key = [], md_msgs = 0, md_per = 0\<rparr>"

text \<open>
  \<open>ps\<close> are the parameters from \<open>parv[4]\<close> on; after each one used another must be left, or the line is
  dropped (\<open>None\<close>). Without a colon \<open>f\<close> uses none.
\<close>

definition split_colon :: "cstr \<Rightarrow> (cstr \<times> cstr) option" where
  "split_colon s = (case strchr s (CHR '':'') of None \<Rightarrow> None | Some r \<Rightarrow> Some (take (length s - length r) s, tl r))"

fun sj_modes :: "cstr \<Rightarrow> cstr list \<Rightarrow> chan_mode \<Rightarrow> (chan_mode \<times> cstr list) option" where
  "sj_modes [] ps md = Some (md, ps)"
| "sj_modes (c # ms) ps md =
     (if c = CHR ''k'' then
        (if length ps < 2 then None else sj_modes ms (tl ps) (md\<lparr>md_key := take KEYLEN (hd ps)\<rparr>))
      else if c = CHR ''l'' then
        (if length ps < 2 then None else sj_modes ms (tl ps) (md\<lparr>md_limit := atoi (hd ps)\<rparr>))
      else if c = CHR ''f'' then
        (case split_colon (hd ps) of
           None \<Rightarrow> sj_modes ms ps md
         | Some (a, b) \<Rightarrow>
             if length ps < 2 then None else sj_modes ms (tl ps) (md\<lparr>md_msgs := atoi a, md_per := atoi b\<rparr>))
      else sj_modes ms ps (md\<lparr>md_mode := md_mode md OR sj_flag c\<rparr>))"

subsection \<open>Whose time stamp, whose modes\<close>

text \<open>\<open>chptr->channelts\<close>, \<open>tstosend\<close>, \<open>keep_our_modes\<close> and \<open>keep_new_modes\<close>.\<close>

definition sj_resolve :: "bool \<Rightarrow> time_t \<Rightarrow> time_t \<Rightarrow> bool \<Rightarrow> bool \<Rightarrow> time_t \<times> time_t \<times> bool \<times> bool" where
  "sj_resolve isnew newts oldts doesop haveops =
     (if isnew then (newts, newts, True, True)
      else if newts = 0 \<or> oldts = 0 then (0, 0, True, True)
      else if newts = oldts then (oldts, oldts, True, True)
      else if newts < oldts then
        (if haveops \<and> \<not> doesop then (oldts, oldts, \<not> doesop, True) else (newts, newts, \<not> doesop, True))
      else if doesop \<and> \<not> haveops then (newts, newts, True, \<not> haveops)
      else (oldts, oldts, True, \<not> haveops))"

definition sj_merge :: "bool \<Rightarrow> bool \<Rightarrow> chan_mode \<Rightarrow> chan_mode \<Rightarrow> chan_mode" where
  "sj_merge keep_our keep_new old md =
     (if \<not> keep_new then old
      else if keep_our then
        \<lparr>md_mode = md_mode md OR md_mode old, md_limit = max (md_limit md) (md_limit old),
         md_key = (if strcmp_less (md_key md) (md_key old) then md_key old else md_key md),
         md_msgs = (if md_msgs old \<noteq> 0 then md_msgs old else md_msgs md),
         md_per = (if md_per old \<noteq> 0 then md_per old else md_per md)\<rparr>
      else md)"

subsection \<open>The mode lines for the clients\<close>

text \<open>\<open>what\<close> (0 is \<open>None\<close>), \<open>modebuf\<close> up to \<open>mbuf\<close>, \<open>parabuf\<close> and \<open>pargs\<close>.\<close>

record sj_buf =
  sj_what :: "char option"
  sj_mbuf :: cstr
  sj_pbuf :: cstr
  sj_pargs :: nat

definition sj_empty :: sj_buf where "sj_empty = \<lparr>sj_what = None, sj_mbuf = [], sj_pbuf = [], sj_pargs = 0\<rparr>"

definition sj_put :: "char \<Rightarrow> char \<Rightarrow> sj_buf \<Rightarrow> sj_buf" where
  "sj_put sg c b = b\<lparr>sj_what := Some sg, sj_mbuf := sj_mbuf b @ (if sj_what b \<noteq> Some sg then [sg] else []) @ [c]\<rparr>"

definition sj_para :: "cstr \<Rightarrow> sj_buf \<Rightarrow> sj_buf" where
  "sj_para p b = b\<lparr>sj_pbuf := sj_pbuf b @ p @ '' '', sj_pargs := sj_pargs b + 1\<rparr>"

definition sj_letters :: "(32 word \<times> char) list" where
  "sj_letters =
     [(MODE_PRIVATE, CHR ''p''), (MODE_SECRET, CHR ''s''), (MODE_MODERATED, CHR ''m''), (MODE_NOPRIVMSGS, CHR ''n''),
      (MODE_TOPICLIMIT, CHR ''t''), (MODE_INVITEONLY, CHR ''i''), (MODE_REGISTERED, CHR ''r''), (MODE_REGONLY, CHR ''R''),
      (MODE_SSLONLY, CHR ''C''), (MODE_KNOCK, CHR ''K''), (MODE_OPERONLY, CHR ''O''), (MODE_ADMINONLY, CHR ''A''),
      (MODE_NOBOTS, CHR ''B''), (MODE_NOSPAM, CHR ''S''), (MODE_NOFLOOD, CHR ''d''), (MODE_NOCOLORS, CHR ''c''),
      (MODE_NOQUITS, CHR ''q''), (MODE_NONICKCH, CHR ''N'')]"

text \<open>The removals leave out \<open>K\<close>.\<close>

definition sj_removals :: "(32 word \<times> char) list" where
  "sj_removals =
     [(MODE_PRIVATE, CHR ''p''), (MODE_SECRET, CHR ''s''), (MODE_MODERATED, CHR ''m''), (MODE_NOPRIVMSGS, CHR ''n''),
      (MODE_TOPICLIMIT, CHR ''t''), (MODE_INVITEONLY, CHR ''i''), (MODE_REGISTERED, CHR ''r''), (MODE_REGONLY, CHR ''R''),
      (MODE_SSLONLY, CHR ''C''), (MODE_OPERONLY, CHR ''O''), (MODE_ADMINONLY, CHR ''A''),
      (MODE_NOBOTS, CHR ''B''), (MODE_NOSPAM, CHR ''S''), (MODE_NOFLOOD, CHR ''d''), (MODE_NOCOLORS, CHR ''c''),
      (MODE_NOQUITS, CHR ''q''), (MODE_NONICKCH, CHR ''N'')]"

definition sj_bits :: "char \<Rightarrow> (32 word \<times> char) list \<Rightarrow> 32 word \<Rightarrow> 32 word \<Rightarrow> sj_buf \<Rightarrow> sj_buf" where
  "sj_bits sg tab yes no b = foldl (\<lambda>b (m, c). if has yes m \<and> \<not> has no m then sj_put sg c b else b) b tab"

text \<open>The letters with a parameter.\<close>

definition sets_flood :: "chan_mode \<Rightarrow> chan_mode \<Rightarrow> bool" where
  "sets_flood old md \<longleftrightarrow> md_msgs md \<noteq> 0 \<and> (md_msgs md \<noteq> md_msgs old \<or> md_per md \<noteq> md_per old)"

definition sj_set_params :: "chan_mode \<Rightarrow> chan_mode \<Rightarrow> sj_buf \<Rightarrow> sj_buf" where
  "sj_set_params old md b2 =
     (let b3 = (if md_msgs old \<noteq> 0 \<and> md_msgs md = 0 then sj_put (CHR ''-'') (CHR ''f'') b2 else b2);
          b4 = (if md_limit old \<noteq> 0 \<and> md_limit md = 0 then sj_put (CHR ''-'') (CHR ''l'') b3 else b3);
          b5 = (if md_key old \<noteq> [] \<and> md_key md = [] then sj_para (md_key old) (sj_put (CHR ''-'') (CHR ''k'') b4) else b4);
          b6 = (if sets_flood old md
                then sj_para (dec (md_msgs md) @ '':'' @ dec (md_per md)) (sj_put (CHR ''+'') (CHR ''f'') b5) else b5);
          b7 = (if md_limit md \<noteq> 0 \<and> md_limit old \<noteq> md_limit md
                then sj_para (dec (md_limit md)) (sj_put (CHR ''+'') (CHR ''l'') b6) else b6)
      in if md_key md \<noteq> [] \<and> md_key old \<noteq> md_key md
         then sj_para (md_key md) (sj_put (CHR ''+'') (CHR ''k'') b7) else b7)"

text \<open>\<open>numeric\<close> has 16 bytes; the flood limit is printed into it with a blank behind.\<close>

definition sj_announce :: "chan_mode \<Rightarrow> chan_mode \<Rightarrow> ub + sj_buf" where
  "sj_announce old md =
     (let b1 = sj_bits (CHR ''+'') sj_letters (md_mode md) (md_mode old) sj_empty;
          b2 = sj_bits (CHR ''-'') sj_removals (md_mode old) (md_mode md) b1
      in if sets_flood old md \<and> 15 \<le> length (dec (md_msgs md) @ '':'' @ dec (md_per md)) then Inl OutOfBounds
         else Inr (sj_set_params old md b2))"

definition sjoin_sendit :: "cstr \<Rightarrow> nat \<Rightarrow> sj_buf \<Rightarrow> ircd \<Rightarrow> ircd" where
  "sjoin_sendit src ch b s =
     send (ToChannel ch) ('':'' @ src @ '' MODE '' @ chname (chans s ch) @ '' '' @ sj_mbuf b @ '' '' @ sj_pbuf b) s"

text \<open>One letter with a name; with \<open>MAXMODEPARAMS\<close> of them the line is sent and a new one starts.\<close>

definition sj_named :: "cstr \<Rightarrow> nat \<Rightarrow> sj_buf \<Rightarrow> char \<Rightarrow> char \<Rightarrow> cstr \<Rightarrow> sj_buf \<times> ircd \<Rightarrow> sj_buf \<times> ircd" where
  "sj_named src ch fresh sg c nm st =
     (let b = sj_para nm (sj_put sg c (fst st)) in
      if MAXMODEPARAMS \<le> sj_pargs b then (fresh, sjoin_sendit src ch b (snd st)) else (b, snd st))"

definition sj_ranks :: "(32 word \<times> char) list" where
  "sj_ranks = [(CHFL_CHANADM, CHR ''a''), (CHFL_CHANOP, CHR ''o''), (CHFL_VOICE, CHR ''v'')]"

definition sj_rank_letters ::
  "cstr \<Rightarrow> nat \<Rightarrow> sj_buf \<Rightarrow> char \<Rightarrow> 32 word \<Rightarrow> cstr \<Rightarrow> sj_buf \<times> ircd \<Rightarrow> sj_buf \<times> ircd" where
  "sj_rank_letters src ch fresh sg fl nm st =
     foldl (\<lambda>st (m, c). if has fl m then sj_named src ch fresh sg c nm st else st) st sj_ranks"

text \<open>The loss of every rank on the channel.\<close>

definition sj_deop :: "cstr \<Rightarrow> nat \<Rightarrow> sj_buf \<Rightarrow> ircd \<Rightarrow> sj_buf \<times> ircd" where
  "sj_deop src ch b s =
     (let (b', t) = foldl (\<lambda>st m. sj_rank_letters src ch sj_empty (CHR ''-'') (mb_flags m) (c_name (clients s (mb_cptr m))) st)
            (b\<lparr>sj_what := None\<rparr>, s) (members (chans s ch))
      in (b', upd_chan ch (\<lambda>c. c\<lparr>members := map (\<lambda>m. m\<lparr>mb_flags :=
            mb_flags m AND NOT (CHFL_CHANADM OR CHFL_CHANOP OR CHFL_VOICE)\<rparr>) (members c)\<rparr>) t))"

subsection \<open>The members of the line\<close>

definition sj_prefix :: "char \<Rightarrow> bool" where "sj_prefix c \<longleftrightarrow> c \<in> {CHR ''.'', CHR ''@'', CHR ''+''}"

definition sj_rank :: "cstr \<Rightarrow> 32 word" where
  "sj_rank w =
     (let p = takeWhile sj_prefix w in
      (if CHR ''.'' \<in> set p then CHFL_CHANADM else 0) OR (if CHR ''@'' \<in> set p then CHFL_CHANOP else 0) OR
      (if CHR ''+'' \<in> set p then CHFL_VOICE else 0))"

definition sj_given :: "bool \<Rightarrow> cstr \<Rightarrow> 32 word" where
  "sj_given keep_new w =
     (let fl = sj_rank w in
      if keep_new then fl else if has fl CHFL_CHANOP \<and> \<not> has fl CHFL_CHANADM then CHFL_DEOPPED else 0)"

text \<open>The \<open>+\<close> that starts each line of the second buffer counts as its sign.\<close>

definition sj_plus :: sj_buf where "sj_plus = sj_empty\<lparr>sj_what := Some (CHR ''+''), sj_mbuf := ''+''\<rparr>"

definition sj_enter :: "cstr \<Rightarrow> cstr \<Rightarrow> nat \<Rightarrow> nat \<Rightarrow> 32 word \<Rightarrow> ircd \<Rightarrow> ircd" where
  "sj_enter nick name ch a fl s =
     (if IsMember s a ch then s
      else
        let s1 = add_user_to_channel ch a fl s
        in if IsStealth (clients s1 a) then s1 else send (ToChannel ch) ('':'' @ nick @ '' JOIN :'' @ name) s1)"

text \<open>
  The loop over the words: \<open>b\<close> the mode line, \<open>t\<close> what stands in \<open>sjbuf\<close> (512 bytes), \<open>people\<close>.
\<close>

fun sj_users ::
  "(cstr \<Rightarrow> nat option) \<Rightarrow> (cstr \<Rightarrow> nat option) \<Rightarrow> nat \<Rightarrow> nat \<Rightarrow> cstr \<Rightarrow> cstr \<Rightarrow> nat \<Rightarrow> bool \<Rightarrow>
     cstr list \<Rightarrow> sj_buf \<Rightarrow> cstr \<Rightarrow> nat \<Rightarrow> ircd \<Rightarrow> ub + (sj_buf \<times> cstr \<times> nat \<times> ircd)" where
  "sj_users lk hist cptr sptr src name ch keep_new [] b t people s = Inr (b, t, people, s)"
| "sj_users lk hist cptr sptr src name ch keep_new (w # ws) b t people s =
     (let nick = dropWhile sj_prefix w; fl = sj_given keep_new w in
      case find_chasing lk hist sptr nick s of
        (s1, None) \<Rightarrow> sj_users lk hist cptr sptr src name ch keep_new ws b t people s1
      | (s1, Some a) \<Rightarrow>
          if c_from (clients s1 a) \<noteq> cptr then sj_users lk hist cptr sptr src name ch keep_new ws b t people s1
          else
            let s2 = sj_enter nick name ch a fl s1; word = (if keep_new then w else nick);
                (b', s3) = sj_rank_letters src ch sj_plus (CHR ''+'') fl nick (b, s2)
            in if BUFSIZE < length t + length word + 1 then Inl OutOfBounds
               else sj_users lk hist cptr sptr src name ch keep_new ws b' (t @ word @ '' '') (Suc people) s3)"

subsection \<open>The handler\<close>

text \<open>The parsed line, once the channel is there: \<open>isnew\<close> says that it was made just now.\<close>

record sjoin_line =
  sl_src :: cstr
  sl_ts :: time_t
  sl_name :: cstr
  sl_modes :: cstr
  sl_mode :: chan_mode
  sl_users :: cstr

definition sj_doesop :: "char \<Rightarrow> cstr \<Rightarrow> bool" where
  "sj_doesop stale us \<longleftrightarrow> (case us of [] \<Rightarrow> stale = CHR ''@'' | c # r \<Rightarrow> c = CHR ''@'' \<or> hd0 r = CHR ''@'')"

definition sj_haveops :: "nat \<Rightarrow> ircd \<Rightarrow> bool" where
  "sj_haveops ch s \<longleftrightarrow> (\<exists>m\<in>set (members (chans s ch)). has (mb_flags m) CHFL_CHANOP)"

definition ts_notice :: "cstr \<Rightarrow> nat \<Rightarrow> cstr \<Rightarrow> ircd \<Rightarrow> ircd" where
  "ts_notice olds ch news s =
     (let nm = chname (chans s ch) in
      send (ToChannel ch) ('':'' @ me_name (cfg s) @ '' NOTICE '' @ nm @ '' :*** Notice -- TS for '' @ nm @
        '' changed from '' @ olds @ '' to '' @ news) s)"

text \<open>The modes and the ranks as the time stamps decide them, announced to the members.\<close>

definition sj_settle :: "bool \<Rightarrow> bool \<Rightarrow> time_t \<Rightarrow> sjoin_line \<Rightarrow> nat \<Rightarrow> ircd \<Rightarrow> ub + ircd" where
  "sj_settle keep_our keep_new oldts l ch s =
     (let old = mode (chans s ch); new = sj_merge keep_our keep_new old (sl_mode l) in
      case sj_announce old new of
        Inl u \<Rightarrow> Inl u
      | Inr b \<Rightarrow>
          let s1 = upd_chan ch (\<lambda>c. c\<lparr>mode := new\<rparr>) s;
              (b2, s2) = (if keep_our then (b, s1) else sj_deop (sl_src l) ch b s1);
              s3 = (if keep_our then s2 else ts_notice (lu oldts) ch (lu (sl_ts l)) s2)
          in Inr (if sj_mbuf b2 \<noteq> [] then sjoin_sendit (sl_src l) ch b2 s3 else s3))"

definition sj_header :: "bool \<Rightarrow> time_t \<Rightarrow> nat \<Rightarrow> sjoin_line \<Rightarrow> nat \<Rightarrow> ircd \<Rightarrow> cstr" where
  "sj_header keep_new ts sptr l ch s =
     (let (mb, pb) = (if hd0 (sl_modes l) \<noteq> CHR ''0'' \<and> keep_new then channel_modes sptr ch False [] s else (''0'', []))
      in '':'' @ sl_src l @ '' SJOIN '' @ lu ts @ '' '' @ sl_name l @ '' '' @ mb @ '' '' @ pb @ '' :'')"

definition sj_apply ::
  "(cstr \<Rightarrow> nat option) \<Rightarrow> (cstr \<Rightarrow> nat option) \<Rightarrow> char \<Rightarrow> nat \<Rightarrow> nat \<Rightarrow> bool \<Rightarrow> sjoin_line \<Rightarrow> nat \<Rightarrow> ircd \<Rightarrow> ub + ircd" where
  "sj_apply lk hist stale cptr sptr isnew l ch s =
     (let oldts = channelts (chans s ch);
          s1 = (if \<not> isnew \<and> sl_ts l = 0 \<and> oldts \<noteq> 0
                then send ToOps (''Server '' @ c_name (clients s sptr) @ '' changing TS on '' @ sl_name l @ '' from '' @ lu oldts @ '' to 0'')
                       (ts_notice (lu oldts) ch ''0'' s)
                else s);
          (ts, tosend, keep_our, keep_new) =
            sj_resolve isnew (sl_ts l) oldts (sj_doesop stale (sl_users l)) (sj_haveops ch s1);
          s2 = upd_chan ch (\<lambda>c. c\<lparr>channelts := ts\<rparr>) s1
      in case sj_settle keep_our keep_new oldts l ch s2 of
           Inl u \<Rightarrow> Inl u
         | Inr s3 \<Rightarrow>
             let hdr = sj_header keep_new tosend sptr l ch s3 in
             if BUFSIZE \<le> length hdr then Inl OutOfBounds
             else
               case sj_users lk hist cptr sptr (sl_src l) (sl_name l) ch keep_new
                      (strtokens '' '' (Some (sl_users l))) sj_plus hdr 0 s3 of
                 Inl u \<Rightarrow> Inl u
               | Inr (b, t, people, s4) \<Rightarrow>
                   let s5 = (if sj_pargs b \<noteq> 0 then sjoin_sendit (sl_src l) ch b s4 else s4)
                   in Inr (if people \<noteq> 0 then send (ToMatchServs ch) (butlast t) s5 else s5))"

definition m_sjoin ::
  "(cstr \<Rightarrow> nat option) \<Rightarrow> (cstr \<Rightarrow> nat option) \<Rightarrow> (nat list \<Rightarrow> nat) \<Rightarrow> char \<Rightarrow> nat \<Rightarrow> nat \<Rightarrow> cstr list \<Rightarrow> ircd \<Rightarrow> ub + ircd" where
  "m_sjoin lk hist alloc stale cptr sptr parv s =
     (if IsClient (clients s sptr) \<or> length parv < 5 then Inr s
      else if \<not> IsChannelName (parv ! 2) \<or> \<not> check_channel_name (parv ! 2) \<or> hd0 (parv ! 2) = CHR ''&'' then Inr s
      else
        case sj_modes (parv ! 3) (drop 4 parv) no_mode of
          None \<Rightarrow> Inr s
        | Some (md, ps) \<Rightarrow>
            let isnew = (lookup_channel (parv ! 2) s = None);
                l = \<lparr>sl_src = parv ! 0, sl_ts = strtol (parv ! 1), sl_name = parv ! 2, sl_modes = parv ! 3,
                     sl_mode = md, sl_users = hd ps\<rparr>
            in case get_channel (alloc (channel s)) sptr (parv ! 2) True s of
                 (s1, None) \<Rightarrow> Inl NullDeref
               | (s1, Some ch) \<Rightarrow> sj_apply lk hist stale cptr sptr isnew l ch s1)"

text \<open>\<open>m_njoin\<close> sets the letter later \<open>JOIN\<close>s of the same call are relayed with, which are none.\<close>

definition m_njoin ::
  "(cstr \<Rightarrow> nat option) \<Rightarrow> (cstr \<Rightarrow> nat option) \<Rightarrow> (nat list \<Rightarrow> nat) \<Rightarrow> char \<Rightarrow> nat \<Rightarrow> nat \<Rightarrow> cstr list \<Rightarrow> ircd \<Rightarrow> ub + ircd" where
  "m_njoin lk hist alloc stale cptr sptr parv s = m_sjoin lk hist alloc stale cptr sptr parv s"

subsection \<open>The invariant\<close>

text \<open>A step that only adds lines to those sent.\<close>

definition talks :: "ircd \<Rightarrow> ircd \<Rightarrow> bool" where "talks s t \<longleftrightarrow> (\<exists>ms. t = s\<lparr>sent := sent s @ ms\<rparr>)"

lemma talks_refl [simp]: "talks s s"
  unfolding talks_def by (rule exI [of _ "[]"]) simp

lemma talks_trans: "talks s t \<Longrightarrow> talks t u \<Longrightarrow> talks s u"
  by (auto simp: talks_def)

lemma talks_send: "talks s t \<Longrightarrow> talks s (send a m t)"
  by (auto simp: talks_def send_def)

lemma talks_sel:
  assumes "talks s t"
  shows "clients t = clients s" "chans t = chans s" "channel t = channel s" "chan_table t = chan_table s" "cfg t = cfg s"
    "CurrentTime t = CurrentTime s" "chan_inv t = chan_inv s"
proof -
  from assms obtain ms where t: "t = s\<lparr>sent := sent s @ ms\<rparr>" by (auto simp: talks_def)
  show "clients t = clients s" "chans t = chans s" "channel t = channel s" "chan_table t = chan_table s" "cfg t = cfg s"
    "CurrentTime t = CurrentTime s" by (simp_all add: t)
  have "members_of t = members_of s" "channels_of t = channels_of s" "invites_of t = invites_of s"
    "invited_of t = invited_of s" "chan_name t = chan_name s"
    by (auto simp: t members_of_def channels_of_def invites_of_def invited_of_def chan_name_def fun_eq_iff)
  then show "chan_inv t = chan_inv s"
    by (simp add: chan_inv_def links_inv_def table_inv_def mem.agree_def inv.agree_def) (simp add: t)
qed

lemma find_chasing_talks: "find_chasing lk hist x user s = (t, r) \<Longrightarrow> talks s t"
  by (auto simp: find_chasing_def intro: talks_send split: option.splits)

lemma sj_named_talks: "talks s (snd st) \<Longrightarrow> talks s (snd (sj_named src ch fresh sg c nm st))"
  by (simp add: sj_named_def sjoin_sendit_def Let_def talks_send)

lemma sj_rank_talks: "talks s (snd st) \<Longrightarrow> talks s (snd (sj_rank_letters src ch fresh sg fl nm st))"
  by (simp add: sj_rank_letters_def sj_ranks_def sj_named_talks)

text \<open>What settling the modes does to the store: the modes, and the ranks if ours do not stand.\<close>

definition settled :: "bool \<Rightarrow> chan_mode \<Rightarrow> nat \<Rightarrow> ircd \<Rightarrow> ircd" where
  "settled keep_our md ch s =
     upd_chan ch (\<lambda>c. c\<lparr>mode := md, members := (if keep_our then members c
        else map (\<lambda>m. m\<lparr>mb_flags := mb_flags m AND NOT (CHFL_CHANADM OR CHFL_CHANOP OR CHFL_VOICE)\<rparr>) (members c))\<rparr>) s"

lemma upd_chan_talks: "talks s t \<Longrightarrow> talks (upd_chan ch f s) (upd_chan ch f t)"
proof -
  assume "talks s t"
  then obtain ms where "t = s\<lparr>sent := sent s @ ms\<rparr>" by (auto simp: talks_def)
  then have "upd_chan ch f t = (upd_chan ch f s)\<lparr>sent := sent (upd_chan ch f s) @ ms\<rparr>" by (simp add: upd_chan_def)
  then show ?thesis unfolding talks_def by blast
qed

lemma sendit_talks: "talks s t \<Longrightarrow> talks s (sjoin_sendit src ch b t)" "talks s t \<Longrightarrow> talks s (ts_notice o1 ch n t)"
  by (simp_all add: sjoin_sendit_def ts_notice_def Let_def talks_send)

lemma sj_settle_talks:
  assumes "sj_settle keep_our keep_new oldts l ch s = Inr t"
  shows "talks (settled keep_our (sj_merge keep_our keep_new (mode (chans s ch)) (sl_mode l)) ch s) t"
proof -
  let ?new = "sj_merge keep_our keep_new (mode (chans s ch)) (sl_mode l)"
  let ?s1 = "upd_chan ch (\<lambda>c. c\<lparr>mode := ?new\<rparr>) s"
  obtain b where b: "sj_announce (mode (chans s ch)) ?new = Inr b"
    using assms by (auto simp: sj_settle_def Let_def split: sum.splits)
  let ?clear = "\<lambda>c :: chan. c\<lparr>members := map (\<lambda>m. m\<lparr>mb_flags := mb_flags m AND NOT (CHFL_CHANADM OR CHFL_CHANOP OR CHFL_VOICE)\<rparr>) (members c)\<rparr>"
  have fold: "talks s0 (snd st) \<Longrightarrow> talks s0 (snd (foldl (\<lambda>st m. sj_rank_letters src ch sj_empty (CHR ''-'') (mb_flags m) (nm m) st) st ms))"
    for s0 st src nm and ms :: "member list"
    by (induction ms arbitrary: st) (simp_all add: sj_rank_talks)
  have deop: "talks (upd_chan ch ?clear ?s1) (snd (sj_deop src ch b ?s1))" for src b
    using upd_chan_talks [OF fold [of ?s1 "(b\<lparr>sj_what := None\<rparr>, ?s1)"]] by (simp add: sj_deop_def case_prod_beta)
  have eq: "upd_chan ch ?clear ?s1 = settled False ?new ch s"
    by (simp add: settled_def upd_chan_def)
  show ?thesis
  proof (cases keep_our)
    case True
    then have "settled keep_our ?new ch s = ?s1" by (simp add: settled_def upd_chan_def)
    then show ?thesis using assms b True
      by (auto simp: sj_settle_def Let_def intro!: sendit_talks talks_refl)
  next
    case False
    then show ?thesis using assms b deop [of "sl_src l" b] eq
      by (auto simp: sj_settle_def Let_def case_prod_beta intro!: sendit_talks)
  qed
qed

lemma settled_inv: "chan_inv s \<Longrightarrow> chan_inv (settled keep_our md ch s)"
  unfolding settled_def by (rule chan_inv_upd_chan) (auto simp: comp_def)

text \<open>The users of the line.\<close>

lemma sj_enter_keeps:
  assumes "chan_inv s" "ch \<in> set (channel s)" "a \<noteq> 0"
  shows "chan_inv (sj_enter nick name ch a fl s)" "channel (sj_enter nick name ch a fl s) = channel s"
proof -
  show "chan_inv (sj_enter nick name ch a fl s)"
    using assms IsMember_iff [OF assms(1,2), of a] add_user_to_channel_inv [OF assms(1,2), of a fl]
    by (auto simp: sj_enter_def Let_def intro: keeps)
  show "channel (sj_enter nick name ch a fl s) = channel s"
    by (simp add: sj_enter_def Let_def add_user_to_channel_def link_member_def)
qed

definition real :: "(cstr \<Rightarrow> nat option) \<Rightarrow> bool" where "real lk \<longleftrightarrow> (\<forall>n. lk n \<noteq> Some 0)"

lemma find_chasing_real: "real lk \<Longrightarrow> real hist \<Longrightarrow> find_chasing lk hist x user s = (t, Some a) \<Longrightarrow> a \<noteq> 0"
  by (rule notI) (auto simp: find_chasing_def real_def split: option.splits)

lemma sj_users_keeps:
  assumes "real lk" "real hist"
  shows "chan_inv s \<Longrightarrow> ch \<in> set (channel s) \<Longrightarrow>
    sj_users lk hist cptr sptr src name ch keep_new ws b t people s = Inr (b', t', p', s') \<Longrightarrow>
    chan_inv s' \<and> channel s' = channel s"
proof (induction ws arbitrary: b t people s)
  case (Cons w ws)
  let ?nick = "dropWhile sj_prefix w" and ?fl = "sj_given keep_new w"
  obtain s1 r where f: "find_chasing lk hist sptr ?nick s = (s1, r)" by fastforce
  note t1 = talks_sel [OF find_chasing_talks [OF f]]
  show ?case
  proof (cases r)
    case None
    then show ?thesis using Cons.IH [of s1] Cons.prems f t1 by (simp add: Let_def)
  next
    case (Some a)
    then have a: "a \<noteq> 0" using find_chasing_real [OF assms] f by blast
    let ?s2 = "sj_enter ?nick name ch a ?fl s1"
    obtain b2 s3 where r: "sj_rank_letters src ch sj_plus (CHR ''+'') ?fl ?nick (b, ?s2) = (b2, s3)" by fastforce
    have t3: "talks ?s2 s3" using sj_rank_talks [of ?s2 "(b, ?s2)" src ch sj_plus "CHR ''+''" ?fl ?nick] r by simp
    have e: "chan_inv ?s2" "channel ?s2 = channel s"
      using sj_enter_keeps [of s1 ch a] a Cons.prems(1,2) t1 by simp_all
    have "chan_inv s3 \<and> channel s3 = channel s" using talks_sel [OF t3] e by simp
    then show ?thesis
      using Cons.IH [of s1] Cons.IH [of s3] Cons.prems f Some r t1
      by (auto simp: Let_def split: if_splits)
  qed
qed simp

lemma sj_apply_keeps:
  assumes "real lk" "real hist" "chan_inv s" "ch \<in> set (channel s)"
    "sj_apply lk hist stale cptr sptr isnew l ch s = Inr t"
  shows "chan_inv t"
proof -
  let ?oldts = "channelts (chans s ch)"
  define s1 where "s1 = (if \<not> isnew \<and> sl_ts l = 0 \<and> ?oldts \<noteq> 0
      then send ToOps (''Server '' @ c_name (clients s sptr) @ '' changing TS on '' @ sl_name l @ '' from '' @ lu ?oldts @ '' to 0'')
             (ts_notice (lu ?oldts) ch ''0'' s)
      else s)"
  have 1: "talks s s1" by (auto simp: s1_def ts_notice_def Let_def intro!: talks_send)
  obtain ts tosend ko kn where res: "sj_resolve isnew (sl_ts l) ?oldts (sj_doesop stale (sl_users l)) (sj_haveops ch s1) = (ts, tosend, ko, kn)"
    by (metis prod_cases4)
  let ?s2 = "upd_chan ch (\<lambda>c. c\<lparr>channelts := ts\<rparr>) s1"
  have 2: "chan_inv ?s2" using assms(3) talks_sel [OF 1] by (intro chan_inv_upd_chan) simp_all
  obtain s3 where 3: "sj_settle ko kn ?oldts l ch ?s2 = Inr s3"
    using assms(5) by (auto simp: sj_apply_def Let_def s1_def [symmetric] res split: sum.splits)
  note t3 = talks_sel [OF sj_settle_talks [OF 3]]
  have inv3: "chan_inv s3" using t3 settled_inv [OF 2] by simp
  have ch3: "ch \<in> set (channel s3)" using assms(4) t3 talks_sel [OF 1] by (simp add: settled_def)
  obtain b u p s4 where 4: "sj_users lk hist cptr sptr (sl_src l) (sl_name l) ch kn
      (strtokens '' '' (Some (sl_users l))) sj_plus (sj_header kn tosend sptr l ch s3) 0 s3 = Inr (b, u, p, s4)"
    and t: "t = (let s5 = (if sj_pargs b \<noteq> 0 then sjoin_sendit (sl_src l) ch b s4 else s4)
        in if p \<noteq> 0 then send (ToMatchServs ch) (butlast u) s5 else s5)"
    using assms(5) by (auto simp: sj_apply_def Let_def s1_def [symmetric] res 3 split: sum.splits if_splits)
  have "talks s4 t" by (auto simp: t Let_def sjoin_sendit_def intro!: talks_send)
  then show ?thesis using sj_users_keeps [OF assms(1,2) inv3 ch3 4] talks_sel by blast
qed

lemma m_sjoin_keeps:
  assumes "real lk" "real hist" "\<And>xs. alloc xs \<notin> set xs \<and> alloc xs \<noteq> 0" "chan_inv s"
    "m_sjoin lk hist alloc stale cptr sptr parv s = Inr t"
  shows "chan_inv t"
proof -
  obtain s1 r where g: "get_channel (alloc (channel s)) sptr (parv ! 2) True s = (s1, r)" by fastforce
  have new: "alloc (channel s) \<notin> set (channel s)" "alloc (channel s) \<noteq> 0" using assms(3) by auto
  note f = get_channel_facts [OF assms(4) new g]
  show ?thesis
    using assms(4,5) f sj_apply_keeps [OF assms(1,2) f(1)]
    by (auto simp: m_sjoin_def Let_def g split: if_splits option.splits)
qed

subsection \<open>What the line does to the channel\<close>

text \<open>The modes and the time stamp stay while the users enter; the members only grow.\<close>

definition ranked :: "32 word \<Rightarrow> bool" where "ranked fl \<longleftrightarrow> has fl (CHFL_CHANADM OR CHFL_CHANOP OR CHFL_VOICE)"

lemma sj_enter_chan:
  "mode (chans (sj_enter nick name ch a fl s) x) = mode (chans s x)"
  "channelts (chans (sj_enter nick name ch a fl s) x) = channelts (chans s x)"
  "set (members (chans s x)) \<subseteq> set (members (chans (sj_enter nick name ch a fl s) x))"
  "m \<in> set (members (chans (sj_enter nick name ch a fl s) x)) \<Longrightarrow> m \<in> set (members (chans s x)) \<or> mb_flags m = fl"
  by (auto simp: sj_enter_def Let_def add_user_to_channel_def link_member_def split: if_splits)

lemma sj_users_chan:
  "sj_users lk hist cptr sptr src name ch kn ws b t people s = Inr (b', t', p', s') \<Longrightarrow>
    mode (chans s' x) = mode (chans s x) \<and> channelts (chans s' x) = channelts (chans s x) \<and>
    set (members (chans s x)) \<subseteq> set (members (chans s' x)) \<and>
    (\<forall>m\<in>set (members (chans s' x)). m \<in> set (members (chans s x)) \<or> (\<exists>w\<in>set ws. mb_flags m = sj_given kn w))"
proof (induction ws arbitrary: b t people s)
  case (Cons w ws)
  let ?nick = "dropWhile sj_prefix w" and ?fl = "sj_given kn w"
  obtain s1 r where f: "find_chasing lk hist sptr ?nick s = (s1, r)" by fastforce
  note t1 = talks_sel(2) [OF find_chasing_talks [OF f]]
  show ?case
  proof (cases "\<exists>a. r = Some a \<and> c_from (clients s1 a) = cptr")
    case False
    then have "sj_users lk hist cptr sptr src name ch kn ws b t people s1 = Inr (b', t', p', s')"
      using Cons.prems f by (cases r) (auto simp: Let_def)
    from Cons.IH [OF this] t1 show ?thesis by auto
  next
    case True
    then obtain a where a: "r = Some a" "c_from (clients s1 a) = cptr" by blast
    let ?s2 = "sj_enter ?nick name ch a ?fl s1"
    obtain b2 s3 where r: "sj_rank_letters src ch sj_plus (CHR ''+'') ?fl ?nick (b, ?s2) = (b2, s3)" by fastforce
    have t3: "chans s3 = chans ?s2" using sj_rank_talks [of ?s2 "(b, ?s2)" src ch sj_plus "CHR ''+''" ?fl ?nick] r talks_sel(2) by simp
    have "sj_users lk hist cptr sptr src name ch kn ws b2 (t @ (if kn then w else ?nick) @ '' '') (Suc people) s3 = Inr (b', t', p', s')"
      using Cons.prems f a r by (auto simp: Let_def split: if_splits)
    note I = Cons.IH [OF this]
    note e = sj_enter_chan [where nick = ?nick and name = name and ch = ch and a = a and fl = ?fl and s = s1 and x = x]
    have M: "mode (chans s' x) = mode (chans s x)" "channelts (chans s' x) = channelts (chans s x)"
      using I e(1,2) t1 t3 by simp_all
    have sub: "set (members (chans s x)) \<subseteq> set (members (chans s' x))" using I e(3) t1 t3 by auto
    have "m \<in> set (members (chans s x)) \<or> (\<exists>w\<in>set (w # ws). mb_flags m = sj_given kn w)"
      if "m \<in> set (members (chans s' x))" for m
    proof -
      have "m \<in> set (members (chans ?s2 x)) \<or> (\<exists>w\<in>set ws. mb_flags m = sj_given kn w)" using I that t3 by auto
      then show ?thesis using e(4) [of m] t1 by auto
    qed
    with M sub show ?thesis by blast
  qed
qed simp

lemma settled_sel:
  "mode (chans (settled ko md ch s) ch) = md" "channelts (chans (settled ko md ch s) x) = channelts (chans s x)"
  "members (chans (settled True md ch s) x) = members (chans s x)"
  by (simp_all add: settled_def)

lemma has_cleared: "\<not> has (x AND NOT k) k"
  unfolding has_def not_not by (rule bit_eqI) (simp add: bit_simps)

lemma sj_apply_chan:
  assumes "sj_apply lk hist stale cptr sptr isnew l ch s = Inr t"
    and "sj_resolve isnew (sl_ts l) (channelts (chans s ch)) (sj_doesop stale (sl_users l)) (sj_haveops ch s) = (ts, tosend, ko, kn)"
  shows "channelts (chans t ch) = ts" "mode (chans t ch) = sj_merge ko kn (mode (chans s ch)) (sl_mode l)"
    "ko \<Longrightarrow> set (members (chans s ch)) \<subseteq> set (members (chans t ch))"
    "m \<in> set (members (chans t ch)) \<Longrightarrow>
       (if ko then m \<in> set (members (chans s ch)) else \<not> ranked (mb_flags m)) \<or> (\<exists>w. mb_flags m = sj_given kn w)"
proof -
  let ?oldts = "channelts (chans s ch)"
  define s1 where "s1 = (if \<not> isnew \<and> sl_ts l = 0 \<and> ?oldts \<noteq> 0
      then send ToOps (''Server '' @ c_name (clients s sptr) @ '' changing TS on '' @ sl_name l @ '' from '' @ lu ?oldts @ '' to 0'')
             (ts_notice (lu ?oldts) ch ''0'' s)
      else s)"
  have 1: "chans s1 = chans s" by (simp add: s1_def ts_notice_def Let_def)
  then have res: "sj_resolve isnew (sl_ts l) ?oldts (sj_doesop stale (sl_users l)) (sj_haveops ch s1) = (ts, tosend, ko, kn)"
    using assms(2) by (simp add: sj_haveops_def)
  let ?s2 = "upd_chan ch (\<lambda>c. c\<lparr>channelts := ts\<rparr>) s1"
  let ?md = "sj_merge ko kn (mode (chans s ch)) (sl_mode l)"
  obtain s3 where 3: "sj_settle ko kn ?oldts l ch ?s2 = Inr s3"
    using assms(1) by (auto simp: sj_apply_def Let_def s1_def [symmetric] res split: sum.splits)
  have t3: "chans s3 = chans (settled ko ?md ch ?s2)" using talks_sel(2) [OF sj_settle_talks [OF 3]] 1 by simp
  obtain b u p s4 where 4: "sj_users lk hist cptr sptr (sl_src l) (sl_name l) ch kn
      (strtokens '' '' (Some (sl_users l))) sj_plus (sj_header kn tosend sptr l ch s3) 0 s3 = Inr (b, u, p, s4)"
    and t: "t = (let s5 = (if sj_pargs b \<noteq> 0 then sjoin_sendit (sl_src l) ch b s4 else s4)
        in if p \<noteq> 0 then send (ToMatchServs ch) (butlast u) s5 else s5)"
    using assms(1) by (auto simp: sj_apply_def Let_def s1_def [symmetric] res 3 split: sum.splits if_splits)
  have t4: "chans t = chans s4" by (simp add: t Let_def sjoin_sendit_def)
  note u = sj_users_chan [OF 4, of ch]
  show "channelts (chans t ch) = ts" "mode (chans t ch) = ?md"
    using u t4 by (simp_all add: t3 settled_sel)
  show "ko \<Longrightarrow> set (members (chans s ch)) \<subseteq> set (members (chans t ch))"
    using u t4 1 by (simp add: t3 settled_def)
  assume m: "m \<in> set (members (chans t ch))"
  have "m \<in> set (members (chans s3 ch)) \<or> (\<exists>w. mb_flags m = sj_given kn w)" using u t4 m by auto
  moreover have "if ko then m \<in> set (members (chans s ch)) else \<not> ranked (mb_flags m)" if "m \<in> set (members (chans s3 ch))"
  proof (cases ko)
    case True
    then show ?thesis using that 1 by (simp add: t3 settled_def)
  next
    case False
    have "\<not> ranked (fl AND NOT (CHFL_CHANADM OR CHFL_CHANOP OR CHFL_VOICE))" for fl :: "32 word"
      unfolding ranked_def by (rule has_cleared)
    then show ?thesis using that False by (auto simp: t3 settled_def)
  qed
  ultimately show "(if ko then m \<in> set (members (chans s ch)) else \<not> ranked (mb_flags m)) \<or> (\<exists>w. mb_flags m = sj_given kn w)" by blast
qed

lemma sj_given_plain: "\<not> ranked (sj_given False w)"
  by (auto simp: sj_given_def ranked_def has_def Let_def chfl_defs)

text \<open>A line that comes from a server and names a live channel reaches \<open>sj_apply\<close>.\<close>

lemma m_sjoin_live:
  assumes "m_sjoin lk hist alloc stale cptr sptr parv s = Inr t" "lookup_channel (parv ! 2) s = Some ch"
    and "\<not> IsClient (clients s sptr)" "5 \<le> length parv" "IsChannelName (parv ! 2)" "check_channel_name (parv ! 2)" "hd0 (parv ! 2) \<noteq> CHR ''&''"
    and "sj_modes (parv ! 3) (drop 4 parv) no_mode = Some (md, ps)"
  shows "sj_apply lk hist stale cptr sptr False
     \<lparr>sl_src = parv ! 0, sl_ts = strtol (parv ! 1), sl_name = parv ! 2, sl_modes = parv ! 3, sl_mode = md, sl_users = hd ps\<rparr> ch s = Inr t"
proof -
  have "parv ! 2 \<noteq> []" using assms(5) by (auto simp: IsChannelName_def)
  then have "get_channel (alloc (channel s)) sptr (parv ! 2) True s = (s, Some ch)"
    using assms(2,3) by (simp add: get_channel_def lookup_channel_def MyClient_def)
  then show ?thesis using assms by (simp add: m_sjoin_def Let_def)
qed

subsection \<open>A concrete net\<close>

text \<open>The room with a time stamp, the server \<open>hub\<close> and \<open>eve\<close> behind it.\<close>

definition net :: ircd where
  "net = upd_client 4 (\<lambda>c. c\<lparr>c_name := ''eve'', c_from := 9, local_flag := False\<rparr>)
     (upd_client 9 (\<lambda>c. c\<lparr>c_name := ''hub'', c_status := STAT_SERVER\<rparr>) (upd_chan 5 (\<lambda>c. c\<lparr>channelts := 100\<rparr>) room))"

definition net_find :: "cstr \<Rightarrow> nat option" where
  "net_find n = (if n = ''eve'' then Some 4 else if n = ''op'' then Some 3 else if n = ''bob'' then Some 2 else None)"

lemma room_other: "p \<noteq> 2 \<Longrightarrow> p \<noteq> 3 \<Longrightarrow> clients room p = plain_user ''bob'' ''u'' ''h''"
  by (simp add: room_def add_user_to_channel_def link_member_def start_get) (simp add: start_def boot_def)

lemma room_mode: "mode (chans room 5) = no_mode\<lparr>md_mode := MODE_OPERONLY\<rparr>"
  by (simp add: room_def add_user_to_channel_def link_member_def start_get new_chan_def no_mode_def)

lemma net_sel:
  "chname (chans net 5) = ''#c''" "channelts (chans net 5) = 100" "channel net = [5]" "cfg net = plain_config"
  "mode (chans net 5) = no_mode\<lparr>md_mode := MODE_OPERONLY\<rparr>" "members (chans net 5) = members (chans room 5)"
  "c_status (clients net 9) = STAT_SERVER" "c_from (clients net 4) = 9" "c_umodes (clients net 4) = 0"
  "u_channel (clients net 4) = []" "has_user (clients net 4)" "c_name (clients net 9) = ''hub''"
  "lookup_channel ''#c'' net = Some 5"
proof -
  have n: "chan_name net = chan_name room" "chan_table net = chan_table room"
    by (auto simp: net_def chan_name_def fun_eq_iff)
  then show "lookup_channel ''#c'' net = Some 5" using room_lookup by (simp add: lookup_channel_def)
  show "chname (chans net 5) = ''#c''" using room_sel(5) by (simp add: net_def chan_name_def)
qed (simp_all add: net_def room_sel room_members room_other room_mode plain_user_def)

lemma net_inv: "chan_inv net"
  unfolding net_def by (intro chan_inv_upd_client chan_inv_upd_chan room_inv) simp_all

lemma sj_bits_same [simp]: "sj_bits sg tab x x b = b"
  by (induction tab arbitrary: b) (auto simp: sj_bits_def)

lemma sj_announce_same: "sj_announce md md = Inr sj_empty"
  by (simp add: sj_announce_def sj_set_params_def sets_flood_def Let_def)

text \<open>\<open>sjbuf\<close> is large enough for the words if it is for the line that came in.\<close>

lemma sj_users_total:
  "length t + (\<Sum>w\<leftarrow>ws. length w + 1) \<le> BUFSIZE \<Longrightarrow> \<exists>r. sj_users lk hist cptr sptr src name ch kn ws b t people s = Inr r"
proof (induction ws arbitrary: b t people s)
  case (Cons w ws)
  let ?nick = "dropWhile sj_prefix w" and ?fl = "sj_given kn w"
  have len: "length (if kn then w else ?nick) \<le> length w" by (simp add: length_dropWhile_le)
  obtain s1 r where f: "find_chasing lk hist sptr ?nick s = (s1, r)" by fastforce
  obtain b2 s3 where r: "\<And>a. r = Some a \<Longrightarrow> sj_rank_letters src ch sj_plus (CHR ''+'') ?fl ?nick (b, sj_enter ?nick name ch a ?fl s1) = (b2, s3)"
    by (cases r) (auto, metis surj_pair)
  have go: "\<exists>r. sj_users lk hist cptr sptr src name ch kn ws b' t' p' s' = Inr r" if "length t' \<le> length t + length w + 1" for b' t' p' s'
    using that Cons.prems by (intro Cons.IH) simp
  show ?case
    using go [of t] go [of "t @ (if kn then w else ?nick) @ '' ''"] f r len Cons.prems
    by (auto simp: Let_def split: option.split if_splits)
qed simp

definition par_len :: "chan_mode \<Rightarrow> nat" where
  "par_len md = length (dec (md_limit md)) + length (md_key md) + length (dec (md_msgs md)) + length (dec (md_per md)) + 4"

lemma channel_modes_len:
  "length (fst (channel_modes cl ch False [] s)) \<le> 22"
  "length (snd (channel_modes cl ch False [] s)) \<le> par_len (mode (chans s ch))"
proof -
  have "length (flag_char m b c) \<le> 1" for m b c by (simp add: flag_char_def)
  note f = this [of "md_mode (mode (chans s ch))"]
  show "length (fst (channel_modes cl ch False [] s)) \<le> 22"
    using f [of MODE_SECRET "CHR ''s''"] f [of MODE_PRIVATE "CHR ''p''"] f [of MODE_MODERATED "CHR ''m''"]
      f [of MODE_TOPICLIMIT "CHR ''t''"] f [of MODE_INVITEONLY "CHR ''i''"] f [of MODE_NOPRIVMSGS "CHR ''n''"]
      f [of MODE_REGISTERED "CHR ''r''"] f [of MODE_SSLONLY "CHR ''C''"] f [of MODE_REGONLY "CHR ''R''"]
      f [of MODE_KNOCK "CHR ''K''"] f [of MODE_OPERONLY "CHR ''O''"] f [of MODE_ADMINONLY "CHR ''A''"]
      f [of MODE_NOBOTS "CHR ''B''"] f [of MODE_NOSPAM "CHR ''S''"] f [of MODE_NOFLOOD "CHR ''d''"]
      f [of MODE_NOCOLORS "CHR ''c''"] f [of MODE_NOQUITS "CHR ''q''"] f [of MODE_NONICKCH "CHR ''N''"]
    by (simp add: channel_modes_def Let_def del: One_nat_def)
  show "length (snd (channel_modes cl ch False [] s)) \<le> par_len (mode (chans s ch))"
    by (simp add: channel_modes_def Let_def par_len_def f_param_def)
qed

lemma sj_apply_total:
  assumes "sj_resolve isnew (sl_ts l) (channelts (chans s ch)) (sj_doesop stale (sl_users l)) (sj_haveops ch s) = (ts, tosend, ko, kn)"
    and "sj_announce (mode (chans s ch)) (sj_merge ko kn (mode (chans s ch)) (sl_mode l)) = Inr b0"
    and "length (sl_src l) + length (lu tosend) + length (sl_name l) + 36 +
      par_len (sj_merge ko kn (mode (chans s ch)) (sl_mode l)) + (\<Sum>w\<leftarrow>strtokens '' '' (Some (sl_users l)). length w + 1) < BUFSIZE"
  shows "\<exists>t. sj_apply lk hist stale cptr sptr isnew l ch s = Inr t"
proof -
  let ?oldts = "channelts (chans s ch)" and ?md = "sj_merge ko kn (mode (chans s ch)) (sl_mode l)"
  define s1 where "s1 = (if \<not> isnew \<and> sl_ts l = 0 \<and> ?oldts \<noteq> 0
      then send ToOps (''Server '' @ c_name (clients s sptr) @ '' changing TS on '' @ sl_name l @ '' from '' @ lu ?oldts @ '' to 0'')
             (ts_notice (lu ?oldts) ch ''0'' s)
      else s)"
  have 1: "chans s1 = chans s" by (simp add: s1_def ts_notice_def Let_def)
  then have res: "sj_resolve isnew (sl_ts l) ?oldts (sj_doesop stale (sl_users l)) (sj_haveops ch s1) = (ts, tosend, ko, kn)"
    using assms(1) by (simp add: sj_haveops_def)
  let ?s2 = "upd_chan ch (\<lambda>c. c\<lparr>channelts := ts\<rparr>) s1"
  have "\<exists>s3. sj_settle ko kn ?oldts l ch ?s2 = Inr s3"
    using assms(2) 1 by (simp add: sj_settle_def Let_def case_prod_beta)
  then obtain s3 where 3: "sj_settle ko kn ?oldts l ch ?s2 = Inr s3" by blast
  have md: "mode (chans s3 ch) = ?md" using talks_sel(2) [OF sj_settle_talks [OF 3]] 1 by (simp add: settled_sel)
  let ?h = "sj_header kn tosend sptr l ch s3"
  have h: "length ?h \<le> length (sl_src l) + length (lu tosend) + length (sl_name l) + 36 + par_len ?md"
    using channel_modes_len [of sptr ch s3] md
    by (cases kn; cases "channel_modes sptr ch False [] s3") (simp_all add: sj_header_def par_len_def)
  have fits: "length ?h + (\<Sum>w\<leftarrow>strtokens '' '' (Some (sl_users l)). length w + 1) \<le> BUFSIZE"
    using assms(3) h by linarith
  obtain b u p s4 where 4: "sj_users lk hist cptr sptr (sl_src l) (sl_name l) ch kn
      (strtokens '' '' (Some (sl_users l))) sj_plus ?h 0 s3 = Inr (b, u, p, s4)"
    using sj_users_total [OF fits] by (metis prod_cases4)
  show ?thesis using assms(3) h 4 by (simp add: sj_apply_def Let_def s1_def [symmetric] res 3)
qed

lemma later_run:
  "\<exists>t. m_sjoin net_find (\<lambda>_. None) above NUL 9 9 [''hub'', ''200'', ''#c'', ''+i'', ''@eve''] net = Inr t"
proof -
  have p: "check_channel_name ''#c''" by code_simp
  have ts: "strtol ''200'' = 200" by (simp add: strtol_def is_digit_def)
  have lu: "length (lu 100) = 3" by (simp add: lu_def dec_def dec_nat.simps)
  have w: "strtokens '' '' (Some ''@eve'') = [''@eve'']" by (simp add: strtokens.simps strtoken_def)
  have g: "get_channel new 9 ''#c'' True net = (net, Some 5)" for new
    using net_sel(13) by (simp add: get_channel_def lookup_channel_def CHANNELLEN_def)
  let ?l = "\<lparr>sl_src = ''hub'', sl_ts = 200, sl_name = ''#c'', sl_modes = ''+i'',
      sl_mode = no_mode\<lparr>md_mode := MODE_INVITEONLY\<rparr>, sl_users = ''@eve''\<rparr>"
  have "\<exists>t. sj_apply net_find (\<lambda>_. None) NUL 9 9 False ?l 5 net = Inr t"
    by (rule sj_apply_total [where ts = 100 and tosend = 100 and ko = True and kn = False and ?b0.0 = sj_empty])
      (simp_all add: sj_merge_def sj_announce_same par_len_def no_mode_def dec_def dec_nat.simps sj_resolve_def sj_doesop_def sj_haveops_def net_sel room_members has_def CHFL_CHANOP_def lu w BUFSIZE_def)
  then show ?thesis
    by (simp add: m_sjoin_def p ts g sj_flag_def no_mode_def net_sel IsClient_def IsChannelName_def)
qed

section \<open>Properties\<close>

text \<open>
  C10. No take-over of an older channel: a server line that names a live channel with operators
  and carries a higher time stamp (both not 0) changes neither the time stamp nor a mode, removes nobody and
  gives no rank: every ranked member after it was there before with the same flags. Who comes in marked as
  an operator comes in without.
\<close>

theorem sjoin_no_takeover:
  assumes "m_sjoin lk hist alloc stale cptr sptr parv s = Inr t" "lookup_channel (parv ! 2) s = Some ch"
    and "0 < channelts (chans s ch)" "channelts (chans s ch) < strtol (parv ! 1)" "sj_haveops ch s"
  shows "channelts (chans t ch) = channelts (chans s ch) \<and> mode (chans t ch) = mode (chans s ch) \<and>
    set (members (chans s ch)) \<subseteq> set (members (chans t ch)) \<and>
    (\<forall>m\<in>set (members (chans t ch)). ranked (mb_flags m) \<longrightarrow> m \<in> set (members (chans s ch)))"
proof (cases "IsClient (clients s sptr) \<or> length parv < 5 \<or> \<not> IsChannelName (parv ! 2) \<or> \<not> check_channel_name (parv ! 2) \<or>
    hd0 (parv ! 2) = CHR ''&'' \<or> sj_modes (parv ! 3) (drop 4 parv) no_mode = None")
  case True
  then have "t = s" using assms(1) by (auto simp: m_sjoin_def split: if_splits)
  then show ?thesis by simp
next
  case False
  then obtain md ps where "sj_modes (parv ! 3) (drop 4 parv) no_mode = Some (md, ps)" by auto
  from m_sjoin_live [OF assms(1,2) _ _ _ _ _ this] False
  have a: "sj_apply lk hist stale cptr sptr False
     \<lparr>sl_src = parv ! 0, sl_ts = strtol (parv ! 1), sl_name = parv ! 2, sl_modes = parv ! 3, sl_mode = md, sl_users = hd ps\<rparr> ch s = Inr t"
    (is "sj_apply _ _ _ _ _ _ ?l _ _ = _") by simp
  have res: "sj_resolve False (sl_ts ?l) (channelts (chans s ch)) (sj_doesop stale (sl_users ?l)) (sj_haveops ch s) =
      (channelts (chans s ch), channelts (chans s ch), True, False)"
    using assms(3-5) by (simp add: sj_resolve_def)
  note c = sj_apply_chan [OF a res]
  have "m \<in> set (members (chans s ch))" if m: "m \<in> set (members (chans t ch))" "ranked (mb_flags m)" for m
    using c(4) [OF m(1)] m(2) sj_given_plain by auto
  with c(1-3) show ?thesis by (auto simp: sj_merge_def)
qed

theorem sjoin_no_takeover_witness:
  "\<exists>t. m_sjoin net_find (\<lambda>_. None) above NUL 9 9 [''hub'', ''200'', ''#c'', ''+i'', ''@eve''] net = Inr t \<and>
     channelts (chans t 5) = 100 \<and> md_mode (mode (chans t 5)) = MODE_OPERONLY"
proof -
  obtain t where t: "m_sjoin net_find (\<lambda>_. None) above NUL 9 9 [''hub'', ''200'', ''#c'', ''+i'', ''@eve''] net = Inr t"
    using later_run by blast
  have "strtol ''200'' = 200" "sj_haveops 5 net"
    by (simp_all add: strtol_def is_digit_def sj_haveops_def net_sel room_members has_def CHFL_CHANOP_def)
  with sjoin_no_takeover [OF t] show ?thesis by (auto simp: t net_sel)
qed

lemma strcmp_less_asym: "strcmp_less s t \<Longrightarrow> \<not> strcmp_less t s"
  using strcmp_less_trans strcmp_less_irrefl by blast

lemma key_max: "(if strcmp_less k k' then k' else k) = (if strcmp_less k' k then k else k')"
  using strcmp_less_asym strcmp_less_total by metis

lemma merge_both:
  "md_mode (sj_merge True True m m') = md_mode (sj_merge True True m' m)"
  "md_limit (sj_merge True True m m') = md_limit (sj_merge True True m' m)"
  "md_key (sj_merge True True m m') = md_key (sj_merge True True m' m)"
  by (simp_all add: sj_merge_def or.commute max.commute key_max)

text \<open>
  C11. Two servers that had the same channel on both sides of a split and send each other its time
  stamp, modes and members, an operator first if there is one, agree afterwards on the time stamp, the flags,
  the limit and the key. The time stamp is that of one of the two, or 0 if one was 0; with operators on the
  older side, or on neither, it is the older one.
\<close>

theorem sjoin_converges:
  assumes "sj_apply lkA histA stA cA pA False lB a sA = Inr tA" "sj_apply lkB histB stB cB pB False lA b sB = Inr tB"
    and "sl_ts lA = channelts (chans sA a)" "sl_mode lA = mode (chans sA a)" "sj_doesop stB (sl_users lA) = sj_haveops a sA"
    and "sl_ts lB = channelts (chans sB b)" "sl_mode lB = mode (chans sB b)" "sj_doesop stA (sl_users lB) = sj_haveops b sB"
  shows "channelts (chans tA a) = channelts (chans tB b) \<and>
    md_mode (mode (chans tA a)) = md_mode (mode (chans tB b)) \<and>
    md_limit (mode (chans tA a)) = md_limit (mode (chans tB b)) \<and> md_key (mode (chans tA a)) = md_key (mode (chans tB b)) \<and>
    channelts (chans tA a) \<in> {0, channelts (chans sA a), channelts (chans sB b)} \<and>
    (0 < channelts (chans sA a) \<and> channelts (chans sA a) < channelts (chans sB b) \<and> (sj_haveops a sA \<or> \<not> sj_haveops b sB) \<longrightarrow>
       channelts (chans tA a) = channelts (chans sA a))"
proof -
  let ?x = "channelts (chans sA a)" and ?y = "channelts (chans sB b)"
  let ?p = "sj_haveops a sA" and ?q = "sj_haveops b sB"
  obtain ts1 so1 ko1 kn1 where r1: "sj_resolve False ?y ?x ?q ?p = (ts1, so1, ko1, kn1)" by (metis prod_cases4)
  obtain ts2 so2 ko2 kn2 where r2: "sj_resolve False ?x ?y ?p ?q = (ts2, so2, ko2, kn2)" by (metis prod_cases4)
  have A: "channelts (chans tA a) = ts1" "mode (chans tA a) = sj_merge ko1 kn1 (mode (chans sA a)) (mode (chans sB b))"
    using sj_apply_chan(1,2) [OF assms(1), of ts1 so1 ko1 kn1] r1 assms(6-8) by simp_all
  have B: "channelts (chans tB b) = ts2" "mode (chans tB b) = sj_merge ko2 kn2 (mode (chans sB b)) (mode (chans sA a))"
    using sj_apply_chan(1,2) [OF assms(2), of ts2 so2 ko2 kn2] r2 assms(3-5) by simp_all
  have ts: "ts1 = ts2" "ts1 \<in> {0, ?x, ?y}" "0 < ?x \<and> ?x < ?y \<and> (?p \<or> \<not> ?q) \<longrightarrow> ts1 = ?x"
    using r1 r2 by (auto simp: sj_resolve_def split: if_splits)
  have "ko1 \<and> kn1 \<and> ko2 \<and> kn2 \<or> ko1 \<and> \<not> kn1 \<and> \<not> ko2 \<and> kn2 \<or> \<not> ko1 \<and> kn1 \<and> ko2 \<and> \<not> kn2"
    using r1 r2 by (auto simp: sj_resolve_def split: if_splits)
  then have modes: "md_mode (mode (chans tA a)) = md_mode (mode (chans tB b))" "md_limit (mode (chans tA a)) = md_limit (mode (chans tB b))"
    "md_key (mode (chans tA a)) = md_key (mode (chans tB b))"
    unfolding A(2) B(2) by (auto simp: merge_both) (auto simp: sj_merge_def)
  show ?thesis by (intro conjI modes) (use ts A(1) B(1) in simp_all)
qed

text \<open>The flood limit is the exception: each side keeps its own.\<close>

theorem sjoin_flood_diverges:
  assumes "md_msgs m \<noteq> 0" "md_msgs m' \<noteq> 0" "md_msgs m \<noteq> md_msgs m'"
  shows "md_msgs (sj_merge True True m m') = md_msgs m \<and> md_msgs (sj_merge True True m' m) = md_msgs m'"
  using assms by (simp add: sj_merge_def)

text \<open>The other side of the split: the channel is younger there and has no operator.\<close>

definition far :: ircd where
  "far = upd_chan 5 (\<lambda>c. c\<lparr>channelts := 300, members := map (\<lambda>m. m\<lparr>mb_flags := 0\<rparr>) (members c)\<rparr>) net"

theorem sjoin_converges_witness:
  "\<exists>tA tB. sj_apply net_find (\<lambda>_. None) NUL 9 9 False
      \<lparr>sl_src = ''hub'', sl_ts = 300, sl_name = ''#c'', sl_modes = ''+O'', sl_mode = mode (chans far 5), sl_users = ''eve''\<rparr> 5 net = Inr tA \<and>
    sj_apply net_find (\<lambda>_. None) NUL 9 9 False
      \<lparr>sl_src = ''hub'', sl_ts = 100, sl_name = ''#c'', sl_modes = ''+O'', sl_mode = mode (chans net 5), sl_users = ''@op''\<rparr> 5 far = Inr tB \<and>
    channelts (chans tA 5) = 100 \<and> channelts (chans tB 5) = 100"
proof -
  let ?lB = "\<lparr>sl_src = ''hub'', sl_ts = 300, sl_name = ''#c'', sl_modes = ''+O'', sl_mode = mode (chans far 5), sl_users = ''eve''\<rparr>"
  let ?lA = "\<lparr>sl_src = ''hub'', sl_ts = 100, sl_name = ''#c'', sl_modes = ''+O'', sl_mode = mode (chans net 5), sl_users = ''@op''\<rparr>"
  have m: "mode (chans far 5) = mode (chans net 5)" by (simp add: far_def)
  have same: "sj_merge ko kn x x = x" if "md_key x = []" for ko kn x using that by (simp add: sj_merge_def strcmp_less_irrefl)
  have lu: "length (lu 100) = 3" by (simp add: lu_def dec_def dec_nat.simps)
  have w: "strtokens '' '' (Some ''@op'') = [''@op'']" "strtokens '' '' (Some ''eve'') = [''eve'']"
    by (simp_all add: strtokens.simps strtoken_def)
  have ops: "sj_haveops 5 net" "\<not> sj_haveops 5 far"
    by (simp_all add: sj_haveops_def far_def net_sel room_members has_def CHFL_CHANOP_def)
  have c: "channelts (chans far 5) = 300" by (simp add: far_def)
  have "\<exists>tA. sj_apply net_find (\<lambda>_. None) NUL 9 9 False ?lB 5 net = Inr tA"
    by (rule sj_apply_total [where ts = 100 and tosend = 100 and ko = True and kn = False and ?b0.0 = sj_empty])
      (simp_all add: m same sj_announce_same par_len_def no_mode_def dec_def dec_nat.simps sj_resolve_def sj_doesop_def ops net_sel lu w BUFSIZE_def)
  moreover have "\<exists>tB. sj_apply net_find (\<lambda>_. None) NUL 9 9 False ?lA 5 far = Inr tB"
    by (rule sj_apply_total [where ts = 100 and tosend = 100 and ko = False and kn = True and ?b0.0 = sj_empty])
      (simp_all add: m c same sj_announce_same par_len_def no_mode_def dec_def dec_nat.simps sj_resolve_def sj_doesop_def ops net_sel lu w BUFSIZE_def)
  ultimately obtain tA tB where t: "sj_apply net_find (\<lambda>_. None) NUL 9 9 False ?lB 5 net = Inr tA"
    "sj_apply net_find (\<lambda>_. None) NUL 9 9 False ?lA 5 far = Inr tB" by blast
  have "channelts (chans tA 5) = channelts (chans tB 5) \<and> channelts (chans tA 5) = 100"
    using sjoin_converges [OF t] by (simp add: c sj_doesop_def ops net_sel)
  with t show ?thesis by auto
qed

subsection \<open>The mode word\<close>

text \<open>Flags are single bits.\<close>

definition single :: "32 word \<Rightarrow> bool" where "single m \<longleftrightarrow> (\<exists>k<32. m = push_bit k 1)"

lemma single_has: "single m \<Longrightarrow> has x m \<longleftrightarrow> (\<exists>n. bit m n \<and> bit x n)"
proof -
  have "n < 32" if "bit m n" for n using bit_imp_le_length [OF that] by simp
  then show ?thesis by (auto simp: has_def bit_eq_iff bit_simps)
qed

lemma single_bit: "single m \<Longrightarrow> bit m n \<Longrightarrow> has x m = bit x n"
  by (auto simp: single_def single_has bit_simps)

lemma single_and: "single m \<Longrightarrow> (if has x m then m else 0) = x AND m"
  by (rule bit_eqI) (auto simp: single_bit bit_simps)

lemma letters_single: "\<forall>(m, c)\<in>set sj_letters. single m \<and> sj_flag c = m \<and> c \<notin> {CHR ''k'', CHR ''l'', CHR ''f'', CHR ''+'', CHR ''-''}"
proof -
  have k: "single (push_bit k 1)" if "k < 32" for k using that by (auto simp: single_def)
  show ?thesis
    by (simp add: sj_letters_def sj_flag_def mode_defs)
      (use k [of 0] k [of 1] k [of 2] k [of 3] k [of 4] k [of 5] k [of 6] k [of 7] k [of 8] k [of 9] k [of 10] k [of 11] k [of 12]
        k [of 13] k [of 14] k [of 15] k [of 16] k [of 17] k [of 18] k [of 19] k [of 20] k [of 21] k [of 22] k [of 23] k [of 24] k [of 25] k [of 26] in simp)
qed

definition all_flags :: "32 word" where "all_flags = foldr (\<lambda>(m, c) a. m OR a) sj_letters 0"

lemma sj_modes_flag:
  assumes "(m, c) \<in> set sj_letters"
  shows "sj_modes (flag_char x m c @ ms) ps md = sj_modes ms ps (md\<lparr>md_mode := md_mode md OR x AND m\<rparr>)"
proof -
  have c: "single m" "sj_flag c = m" "c \<noteq> CHR ''k''" "c \<noteq> CHR ''l''" "c \<noteq> CHR ''f''"
    using bspec [OF letters_single assms] by auto
  have "x AND m = 0" if "\<not> has x m" using that by (simp add: has_def)
  moreover have "x AND m = m" if "has x m" using that single_and [OF c(1), of x] by simp
  ultimately show ?thesis using c by (simp add: flag_char_def)
qed

text \<open>The parameters, in the order of their letters.\<close>

definition mode_params :: "chan_mode \<Rightarrow> cstr list" where
  "mode_params md = (if md_limit md \<noteq> 0 then [dec (md_limit md)] else []) @ (if md_key md \<noteq> [] then [md_key md] else []) @
     (if md_msgs md \<noteq> 0 then [dec (md_msgs md) @ '':'' @ dec (md_per md)] else [])"

lemma mode_params_text:
  assumes "IsServer (clients s cl)"
  shows "snd (channel_modes cl ch False [] s) = concat (map (\<lambda>p. p @ '' '') (mode_params (mode (chans s ch))))"
  using assms by (simp add: channel_modes_def Let_def mode_params_def f_param_def)

lemma dec_no_colon: "CHR '':'' \<notin> set (dec i)"
proof -
  have "CHR '':'' \<notin> set (dec_nat n)" for n using dec_nat_digits [of "CHR '':''" n] by (auto simp: is_digit_def)
  then show ?thesis by (simp add: dec_def)
qed

lemma split_colon_dec: "split_colon (dec i @ '':'' @ dec j) = Some (dec i, dec j)"
proof -
  have "strchr (a @ '':'' @ b) (CHR '':'') = Some ('':'' @ b)" if "CHR '':'' \<notin> set a" for a b
    using that by (induction a) auto
  then show ?thesis using dec_no_colon by (simp add: split_colon_def)
qed

definition in_range :: "chan_mode \<Rightarrow> bool" where
  "in_range md \<longleftrightarrow> (\<forall>i\<in>{md_limit md, md_msgs md, md_per md}. - (2 ^ 31) \<le> i \<and> i < 2 ^ 31) \<and> length (md_key md) \<le> KEYLEN"

lemma mode_word_read:
  assumes "in_range (mode (chans s ch))"
  shows "sj_modes (fst (channel_modes cl ch False [] s)) (mode_params (mode (chans s ch)) @ [us]) no_mode =
    Some ((mode (chans s ch))\<lparr>md_mode := md_mode (mode (chans s ch)) AND all_flags,
       md_per := (if md_msgs (mode (chans s ch)) \<noteq> 0 then md_per (mode (chans s ch)) else 0)\<rparr>, [us])"
proof -
  obtain m limit key msgs per where md: "mode (chans s ch) = \<lparr>md_mode = m, md_limit = limit, md_key = key, md_msgs = msgs, md_per = per\<rparr>"
    by (cases "mode (chans s ch)") (simp add: chan_mode.defs)
  have mem: "(b, c) \<in> set sj_letters \<Longrightarrow> sj_modes (flag_char m b c @ ms) ps md = sj_modes ms ps (md\<lparr>md_mode := md_mode md OR m AND b\<rparr>)"
    for b c ms ps md by (rule sj_modes_flag)
  have r: "atoi (dec limit) = limit" "atoi (dec msgs) = msgs" "atoi (dec per) = per" "take KEYLEN key = key"
    using assms by (auto simp: md in_range_def intro: atoi_dec)
  have all: "m AND all_flags = m AND MODE_SECRET OR m AND MODE_PRIVATE OR m AND MODE_MODERATED OR m AND MODE_TOPICLIMIT OR
      m AND MODE_INVITEONLY OR m AND MODE_NOPRIVMSGS OR m AND MODE_REGISTERED OR m AND MODE_SSLONLY OR m AND MODE_REGONLY OR
      m AND MODE_KNOCK OR m AND MODE_OPERONLY OR m AND MODE_ADMINONLY OR m AND MODE_NOBOTS OR m AND MODE_NOSPAM OR
      m AND MODE_NOFLOOD OR m AND MODE_NOCOLORS OR m AND MODE_NOQUITS OR m AND MODE_NONICKCH"
    by (rule bit_eqI) (auto simp: all_flags_def sj_letters_def bit_simps)
  have last: "(b, c) \<in> set sj_letters \<Longrightarrow> sj_modes (flag_char m b c) ps md = Some (md\<lparr>md_mode := md_mode md OR m AND b\<rparr>, ps)"
    for b c ps md using mem [of b c "[]"] by simp
  note tab = sj_letters_def
  show ?thesis
    by (cases "limit = 0"; cases "key = []"; cases "msgs = 0")
      (simp_all add: channel_modes_def Let_def md mem last tab no_mode_def all mode_params_def r split_colon_dec [simplified] sj_flag_def or.assoc)
qed

text \<open>
  The modes a server writes in a burst are the modes the other side reads: the mode word of
  \<open>channel_modes\<close> with its parameters, read by \<open>m_sjoin\<close>, gives back every flag that has a letter, the limit,
  the key and the flood limit, and leaves the list of members as the next parameter.
\<close>

text \<open>How a client that keeps the flags of the channel reads a mode line.\<close>

definition read_letter :: "char \<times> char \<Rightarrow> 32 word \<Rightarrow> 32 word" where
  "read_letter p m = (if fst p = CHR ''+'' then m OR sj_flag (snd p) else m AND NOT (sj_flag (snd p)))"

definition read_line :: "cstr \<Rightarrow> 32 word \<Rightarrow> 32 word" where
  "read_line line m = fold read_letter (signed_modes (CHR ''+'') line) m"

definition last_sign :: "cstr \<Rightarrow> char option" where
  "last_sign s = (let xs = filter (\<lambda>c. c = CHR ''+'' \<or> c = CHR ''-'') s in if xs = [] then None else Some (last xs))"

definition sj_wf :: "sj_buf \<Rightarrow> bool" where
  "sj_wf b \<longleftrightarrow> sj_what b = last_sign (sj_mbuf b) \<and> (sj_what b = None \<longrightarrow> sj_mbuf b = [])"

lemma signed_append:
  "signed_modes sg (s @ t) = signed_modes sg s @ signed_modes (case last_sign s of None \<Rightarrow> sg | Some g \<Rightarrow> g) t"
  by (induction s arbitrary: sg) (auto simp: last_sign_def Let_def)

lemma sj_put_reads:
  assumes "sj_wf b" "sg = CHR ''+'' \<or> sg = CHR ''-''" "c \<noteq> CHR ''+''" "c \<noteq> CHR ''-''"
  shows "sj_wf (sj_put sg c b)" "read_line (sj_mbuf (sj_put sg c b)) m = read_letter (sg, c) (read_line (sj_mbuf b) m)"
proof -
  have w: "last_sign (s @ t) = (case last_sign t of None \<Rightarrow> last_sign s | Some g \<Rightarrow> Some g)" for s t
    by (auto simp: last_sign_def Let_def)
  show "sj_wf (sj_put sg c b)"
    using assms by (auto simp: sj_wf_def sj_put_def w) (auto simp: last_sign_def)
  show "read_line (sj_mbuf (sj_put sg c b)) m = read_letter (sg, c) (read_line (sj_mbuf b) m)"
    using assms by (auto simp: sj_wf_def sj_put_def read_line_def signed_append) (auto simp: last_sign_def)
qed

lemma sj_para_sel [simp]: "sj_mbuf (sj_para p b) = sj_mbuf b" "sj_wf (sj_para p b) = sj_wf b"
  by (simp_all add: sj_para_def sj_wf_def)

text \<open>A pass over a table sets (clears) the bits of its flags that differ.\<close>

lemma sj_bits_reads:
  assumes "\<forall>(k, c)\<in>set tab. single k \<and> sj_flag c = k \<and> c \<noteq> CHR ''+'' \<and> c \<noteq> CHR ''-''" "sg = CHR ''+'' \<or> sg = CHR ''-''" "sj_wf b"
  shows "sj_wf (sj_bits sg tab yes no b) \<and>
    (\<forall>n. bit (read_line (sj_mbuf (sj_bits sg tab yes no b)) m) n \<longleftrightarrow>
      (if (\<exists>(k, c)\<in>set tab. bit k n) \<and> bit yes n \<and> \<not> bit no n then sg = CHR ''+'' else bit (read_line (sj_mbuf b) m) n))"
  using assms(1,3)
proof (induction tab arbitrary: b)
  case Nil
  then show ?case by (simp add: sj_bits_def)
next
  case (Cons e tab)
  obtain k c where e: "e = (k, c)" by fastforce
  have k: "single k" "sj_flag c = k" "c \<noteq> CHR ''+''" "c \<noteq> CHR ''-''" using Cons.prems(1) by (auto simp: e)
  let ?b = "if has yes k \<and> \<not> has no k then sj_put sg c b else b"
  note p = sj_put_reads [OF Cons.prems(2) assms(2) k(3,4)]
  have wf: "sj_wf ?b" using Cons.prems(2) p(1) by simp
  have rd: "bit (read_line (sj_mbuf ?b) m) n \<longleftrightarrow>
      (if bit k n \<and> bit yes n \<and> \<not> bit no n then sg = CHR ''+'' else bit (read_line (sj_mbuf b) m) n)" if "n < 32" for n
    using assms(2) k that single_bit [OF k(1), of n yes] single_bit [OF k(1), of n no]
    by (cases "bit k n") (auto simp: p(2) read_letter_def bit_simps)
  have step: "sj_bits sg (e # tab) yes no b = sj_bits sg tab yes no ?b" by (simp add: sj_bits_def e)
  have big: "bit w n \<Longrightarrow> n < 32" for w :: "32 word" and n using bit_imp_le_length [of w n] by simp
  have tab: "\<forall>(k, c)\<in>set tab. single k \<and> sj_flag c = k \<and> c \<noteq> CHR ''+'' \<and> c \<noteq> CHR ''-''" using Cons.prems(1) by simp
  note I = Cons.IH [OF tab wf]
  have "bit (read_line (sj_mbuf (sj_bits sg tab yes no ?b)) m) n \<longleftrightarrow>
      (if (\<exists>(k, c)\<in>set (e # tab). bit k n) \<and> bit yes n \<and> \<not> bit no n then sg = CHR ''+'' else bit (read_line (sj_mbuf b) m) n)" for n
  proof (cases "n < 32")
    case True
    then show ?thesis using I rd [OF True] by (cases "bit k n") (auto simp: e)
  next
    case False
    then have "\<not> bit w n" for w :: "32 word" using big by blast
    then show ?thesis by simp
  qed
  then show ?case unfolding step using I by blast
qed

lemma bit_flags: "bit (foldr (\<lambda>(m, c) a. m OR a) tab (0 :: 32 word)) n \<longleftrightarrow> (\<exists>(k, c)\<in>set tab. bit k n)"
  by (induction tab) (auto simp: bit_simps)

lemma removal_flags: "foldr (\<lambda>(m, c) a. m OR a) sj_removals 0 = all_flags AND NOT MODE_KNOCK"
  by (simp add: sj_removals_def all_flags_def sj_letters_def mode_defs)

lemma read_plain: "sj_flag c = 0 \<Longrightarrow> read_letter (sg, c) m = m"
  by (simp add: read_letter_def)

text \<open>
  C12. The mode line that settles the modes tells the members what changed: a client that knew
  the old flags and reads the line knows the new ones, for every flag with a letter but \<open>K\<close>, whose removal
  is not announced.
\<close>

theorem sjoin_mode_line:
  assumes "sj_announce old md = Inr b"
  shows "read_line (sj_mbuf b) (md_mode old) AND all_flags = (md_mode md OR md_mode old AND MODE_KNOCK) AND all_flags"
proof -
  let ?b1 = "sj_bits (CHR ''+'') sj_letters (md_mode md) (md_mode old) sj_empty"
  let ?b2 = "sj_bits (CHR ''-'') sj_removals (md_mode old) (md_mode md) ?b1"
  let ?R = "read_line (sj_mbuf ?b2) (md_mode old)"
  have tabs: "\<forall>(k, c)\<in>set sj_letters. single k \<and> sj_flag c = k \<and> c \<noteq> CHR ''+'' \<and> c \<noteq> CHR ''-''"
    using letters_single by auto
  have "set sj_removals \<subseteq> set sj_letters" by (auto simp: sj_removals_def sj_letters_def)
  then have tabs': "\<forall>(k, c)\<in>set sj_removals. single k \<and> sj_flag c = k \<and> c \<noteq> CHR ''+'' \<and> c \<noteq> CHR ''-''"
    using tabs by blast
  have wf0: "sj_wf sj_empty" "read_line (sj_mbuf sj_empty) m = m" for m
    by (simp_all add: sj_wf_def sj_empty_def last_sign_def read_line_def)
  note r1 = sj_bits_reads [OF tabs _ wf0(1), of "CHR ''+''" "md_mode md" "md_mode old" "md_mode old", simplified]
  note r2 = sj_bits_reads [OF tabs' _ conjunct1 [OF r1], of "CHR ''-''" "md_mode old" "md_mode md" "md_mode old", simplified]
  have R: "?R AND all_flags = (md_mode md OR md_mode old AND MODE_KNOCK) AND all_flags"
  proof (rule bit_eqI)
    fix n
    have a: "(\<exists>(k, c)\<in>set sj_letters. bit k n) \<longleftrightarrow> bit all_flags n" by (simp add: all_flags_def bit_flags)
    have r: "(\<exists>(k, c)\<in>set sj_removals. bit k n) \<longleftrightarrow> bit all_flags n \<and> \<not> bit MODE_KNOCK n"
      if "n < 32" using that by (simp add: removal_flags bit_flags [symmetric] bit_simps)
    show "bit (?R AND all_flags) n \<longleftrightarrow> bit ((md_mode md OR md_mode old AND MODE_KNOCK) AND all_flags) n"
    proof (cases "n < 32")
      case True
      then show ?thesis using r1 r2 a r wf0(2) by (auto simp: bit_simps)
    next
      case False
      then show ?thesis using bit_imp_le_length [of "all_flags" n] by (auto simp: bit_simps)
    qed
  qed
  define P where "P x \<longleftrightarrow> sj_wf x \<and> read_line (sj_mbuf x) (md_mode old) = ?R" for x
  have P2: "P ?b2" using r2 by (simp add: P_def)
  have put: "P x \<Longrightarrow> sg = CHR ''+'' \<or> sg = CHR ''-'' \<Longrightarrow> c \<in> {CHR ''f'', CHR ''l'', CHR ''k''} \<Longrightarrow> P (sj_put sg c x)" for x sg c
  proof -
    assume a: "P x" "sg = CHR ''+'' \<or> sg = CHR ''-''" "c \<in> {CHR ''f'', CHR ''l'', CHR ''k''}"
    have c: "c \<noteq> CHR ''+''" "c \<noteq> CHR ''-''" "sj_flag c = 0" using a(3) by (elim insertE emptyE; simp add: sj_flag_def)+
    have x: "sj_wf x" "read_line (sj_mbuf x) (md_mode old) = ?R" using a(1) unfolding P_def by blast+
    note p = sj_put_reads [OF x(1) a(2) c(1,2)]
    show "P (sj_put sg c x)" unfolding P_def p(2) x(2) using p(1) read_plain [OF c(3)] by blast
  qed
  have para': "P x \<Longrightarrow> P (sj_para p x)" for p x by (simp add: P_def)
  have opt: "P x \<Longrightarrow> (q \<Longrightarrow> P y) \<Longrightarrow> P (if q then y else x)" for q x y by simp
  obtain q where q: "sj_announce old md = (if q then Inl OutOfBounds else Inr (sj_set_params old md ?b2))"
    by (simp add: sj_announce_def Let_def)
  then have "b = sj_set_params old md ?b2" using assms by (simp split: if_splits)
  moreover have "P (sj_set_params old md ?b2)"
    unfolding sj_set_params_def Let_def by (intro opt para' put P2; simp)
  ultimately have "P b" by simp
  then show ?thesis using R by (simp add: P_def)
qed

theorem sjoin_mode_line_witness:
  "\<exists>b. sj_announce (no_mode\<lparr>md_mode := MODE_SECRET OR MODE_KNOCK\<rparr>) (no_mode\<lparr>md_mode := MODE_PRIVATE\<rparr>) = Inr b \<and>
     sj_mbuf b = ''+p-s'' \<and> read_line (sj_mbuf b) (MODE_SECRET OR MODE_KNOCK) AND all_flags = MODE_PRIVATE OR MODE_KNOCK"
proof -
  let ?old = "no_mode\<lparr>md_mode := MODE_SECRET OR MODE_KNOCK\<rparr>" and ?new = "no_mode\<lparr>md_mode := MODE_PRIVATE\<rparr>"
  obtain b where b: "sj_announce ?old ?new = Inr b" "sj_mbuf b = ''+p-s''"
    by (simp add: sj_announce_def sj_set_params_def sets_flood_def sj_bits_def sj_letters_def sj_removals_def mode_defs has_def no_mode_def sj_put_def sj_empty_def)
  have f: "(MODE_PRIVATE OR MODE_KNOCK) AND all_flags = MODE_PRIVATE OR MODE_KNOCK"
    by (simp add: all_flags_def sj_letters_def mode_defs)
  have "read_line (sj_mbuf b) (md_mode ?old) AND all_flags = (md_mode ?new OR md_mode ?old AND MODE_KNOCK) AND all_flags"
    by (rule sjoin_mode_line [OF b(1)])
  then show ?thesis using b f by (simp add: no_mode_def mode_defs)
qed

end
