(* ===== verification/ChanSteps.thy ===== *)
theory ChanSteps
  imports ChanSjoin
begin

text \<open>
  The channel store as a transition system: the steps the command handlers take on it, each with
  the guard its handler checks first, and what holds in every state reachable from start-up.
\<close>

inductive chan_step :: "ircd \<Rightarrow> ircd \<Rightarrow> bool" where
  Create: "new \<notin> set (channel s) \<Longrightarrow> new \<noteq> 0 \<Longrightarrow> chan_step s (fst (get_channel new cl name create s))"
| Join: "ch \<in> set (channel s) \<Longrightarrow> cl \<noteq> 0 \<Longrightarrow> \<not> IsMember s cl ch \<Longrightarrow> chan_step s (add_user_to_channel ch cl fl s)"
| Leave: "ch \<in> set (channel s) \<Longrightarrow> IsMember s cl ch \<Longrightarrow> chan_step s (remove_user_from_channel cl ch s)"
| Invite: "ch \<in> set (channel s) \<Longrightarrow> chan_step s (add_invite cl ch s)"
| Uninvite: "chan_step s (del_invite cl ch s)"
| Ban: "chan_step s (fst (add_banid junk cl ch m s))"
| Unban: "chan_step s (fst (del_banid ch mo s))"
| Flag: "chan_step s (change_chan_flag ch cl flag s)"
| Deop: "chan_step s (set_deopped cl ch flag s)"
| Mode: "chan_step s (upd_chan ch (\<lambda>c. c\<lparr>mode := md\<rparr>) s)"
| Command: "chan_step s (set_channel_mode secure lk hist restr junk cptr sptr ch parv s)"
| Speak: "chan_step s (fst (can_send cl ch msg s))"
| Knock: "chan_step s (fst (can_join cl ch key s))"
| Umode: "chan_step s (upd_client cl (\<lambda>c. c\<lparr>c_umodes := um\<rparr>) s)"
| Parts: "chan_step s (m_part cl parv s)"
| Kicks: "chan_step s (m_kick lk hist cptr cl parv s)"
| Topics: "chan_step s (m_topic cptr cl parv s)"
| Invites: "chan_step s (m_invite lk cl parv s)"
| Knocks: "m_knock cl parv used s = Inr (t, used') \<Longrightarrow> chan_step s t"
| Samodes: "chan_step s (m_samode lk hist junk me cptr cl parv s)"
| Names: "chan_step s (m_names dot mename cname everyone cl parv s)"
| Joins: "cl \<noteq> 0 \<Longrightarrow> (\<And>xs. alloc xs \<notin> set xs \<and> alloc xs \<noteq> 0) \<Longrightarrow>
    chan_step s (m_join dot mename cname everyone ncm alloc cl parv s)"
| Sjoins: "real lk \<Longrightarrow> real hist \<Longrightarrow> (\<And>xs. alloc xs \<notin> set xs \<and> alloc xs \<noteq> 0) \<Longrightarrow>
    m_sjoin lk hist alloc stale cptr cl parv s = Inr t \<Longrightarrow> chan_step s t"
| Tick: "chan_step s (s\<lparr>CurrentTime := now\<rparr>)"

definition quiet :: "(nat \<Rightarrow> client) \<Rightarrow> bool" where
  "quiet cls \<longleftrightarrow> (\<forall>cl. u_channel (cls cl) = [] \<and> u_invited (cls cl) = [] \<and> u_joined (cls cl) = 0)"

inductive chan_reach :: "ircd \<Rightarrow> bool" where
  Boot: "quiet cls \<Longrightarrow> chan_reach (boot cls conf now)"
| Step: "chan_reach s \<Longrightarrow> chan_step s t \<Longrightarrow> chan_reach t"

subsection \<open>Invariant\<close>

lemma chan_step_inv: "chan_step s t \<Longrightarrow> chan_inv s \<Longrightarrow> chan_inv t"
proof (induction rule: chan_step.induct)
  case (Join ch s cl fl)
  then show ?case using IsMember_iff [of s ch cl] by (intro add_user_to_channel_inv) auto
next
  case (Leave ch s cl)
  then show ?case using IsMember_iff [of s ch cl] by (intro remove_user_from_channel_inv) auto
qed (auto intro: get_channel_inv add_invite_inv del_invite_inv add_banid_inv del_banid_inv
    change_chan_flag_inv set_deopped_inv chan_inv_upd_chan chan_inv_upd_client can_send_inv can_join_inv tick_inv set_mode_inv
    commands_keep m_names_keeps m_join_keeps m_sjoin_keeps)

lemma chan_reach_inv: "chan_reach s \<Longrightarrow> chan_inv s"
  by (induction rule: chan_reach.induct) (auto simp: quiet_def intro: boot_inv chan_step_inv)

lemmas chan_reach_links = chan_reach_inv [unfolded chan_inv_def links_inv_def mem.agree_def inv.agree_def]

inductive_cases chan_reachE: "chan_reach s"

subsection \<open>Freeing a channel\<close>

text \<open>A concrete run: user 3 creates \<open>#c\<close> at address 5 and joins it.\<close>

definition run_conf :: config where "run_conf = plain_config"

definition run0 :: ircd where "run0 = boot (\<lambda>_. plain_user ''bob'' ''u'' ''h'') run_conf 0"

definition run1 :: ircd where "run1 = fst (get_channel 5 3 ''#c'' True run0)"

definition run2 :: ircd where "run2 = add_user_to_channel 5 3 CHFL_CHANOP run1"

lemma run_reach: "chan_reach run0" "chan_reach run1" "chan_reach run2"
proof -
  show r0: "chan_reach run0"
    unfolding run0_def by (rule Boot) (simp add: quiet_def plain_user_def)
  have "chan_step run0 run1" unfolding run1_def by (rule Create) (simp_all add: run0_def boot_def)
  with r0 show r1: "chan_reach run1" by (rule Step)
  have "chan_step run1 run2" unfolding run2_def
    by (rule Join) (simp_all add: run1_def run0_def boot_def get_channel_def hash_find_channel_def clear_hash_table_def
        IsMember_def plain_user_def find_channel_link_def Let_def)
  with r1 show "chan_reach run2" by (rule Step)
qed

lemma run_sel:
  "channel run2 = [5]" "members_of run2 5 = [3]" "u_invited (clients run2 cl) = []" "cfg run2 = plain_config"
  "md_mode (mode (chans run2 5)) = 0" "clients run1 = (\<lambda>_. plain_user ''bob'' ''u'' ''h'')"
  "has_user (clients run2 4)" "c_umodes (clients run2 4) = 0"
  by (simp_all add: run2_def run1_def run0_def boot_def get_channel_def hash_find_channel_def clear_hash_table_def
      add_user_to_channel_def link_member_def plain_user_def members_of_def new_chan_def run_conf_def Let_def)

subsection \<open>Properties\<close>

text \<open>
  C1. In every reachable state the two sides of membership and of
  invitation agree, no user and no invitation points to a freed channel, the counters \<open>users\<close>,
  \<open>joined\<close>, \<open>num_bed\<close> and \<open>Count.chan\<close> are the lengths of their lists, no two live channels have
  equal names, and a look-up by name finds exactly the live channel of that name.
\<close>

theorem channel_store_consistent:
  assumes "chan_reach s"
  shows "(cl \<in> set (members_of s ch) \<longleftrightarrow> ch \<in> set (u_channel (clients s cl))) \<and>
    (cl \<in> set (invites (chans s ch)) \<longleftrightarrow> ch \<in> set (u_invited (clients s cl))) \<and>
    distinct (members_of s ch) \<and> distinct (u_channel (clients s cl)) \<and>
    set (u_channel (clients s cl)) \<union> set (u_invited (clients s cl)) \<subseteq> set (channel s) \<and>
    u_joined (clients s cl) = int (length (u_channel (clients s cl))) \<and>
    (ch \<in> set (channel s) \<longrightarrow> users (chans s ch) = int (length (members_of s ch)) \<and>
       num_bed (chans s ch) = int (length (banlist (chans s ch)))) \<and>
    count_chan s = int (length (channel s)) \<and> distinct (channel s) \<and>
    (hash_find_channel (chan_name s) (chan_table s) name None = Some ch \<longleftrightarrow>
       ch \<in> set (channel s) \<and> irccmp name (chan_name s ch) = 0)"
  using chan_reach_inv [OF assms] hash_find_channel_live(2) [of s name ch]
  by (simp add: chan_inv_def links_inv_def table_inv_def mem.agree_def inv.agree_def channels_of_def
      invites_of_def invited_of_def)

theorem channel_store_consistent_witness:
  "5 \<in> set (u_channel (clients run2 3)) \<and> users (chans run2 5) = 1 \<and> count_chan run2 = 1"
  using channel_store_consistent [OF run_reach(3), of 3 5] by (simp add: run_sel)

text \<open>
  When the last user leaves a channel of a reachable state, the channel goes
  (list, hash table, invitations, bans) unless it is registered under \<open>RestrictedChans\<close> or has one
  of the modes \<open>+A\<close>, \<open>+O\<close> or is a log channel; when others stay, or it is kept, it stays live with
  the remaining members in their order.
\<close>

theorem last_leave_frees:
  assumes "chan_reach s" "ch \<in> set (channel s)" "cl \<in> set (members_of s ch)"
  defines "t \<equiv> remove_user_from_channel cl ch s"
  shows "members_of t ch = remove1 cl (members_of s ch) \<and>
    (ch \<in> set (channel t) \<longleftrightarrow> members_of s ch \<noteq> [cl] \<or> keeps_empty s ch) \<and>
    set (channel t) \<union> {ch} = set (channel s) \<and>
    (ch \<notin> set (channel t) \<longrightarrow> banlist (chans t ch) = [] \<and>
       hash_find_channel (chan_name t) (chan_table t) (chan_name t ch) None = None \<and>
       (\<forall>u. ch \<notin> set (u_invited (clients t u)) \<and> ch \<notin> set (u_channel (clients t u))))"
proof -
  have inv: "chan_inv s" using assms(1) by (rule chan_reach_inv)
  let ?l = "left_channel cl ch s"
  have linv: "chan_inv ?l" using inv assms(2,3) by (rule left_channel_inv)
  have tinv: "chan_inv t" unfolding t_def using inv assms(2,3) by (rule remove_user_from_channel_inv)
  have d: "distinct (members_of s ch)" "distinct (channel s)"
    using inv by (auto simp: chan_inv_def links_inv_def mem.agree_def table_inv_def)
  have last: "remove1 cl (members_of s ch) = [] \<longleftrightarrow> members_of s ch = [cl]"
    using assms(3) by (cases "members_of s ch") auto
  have t: "t = (if members_of s ch = [cl] \<and> \<not> keeps_empty s ch
     then free_channel ch (free_bans_exceptions_denies ch (free_invites ch ?l)) else ?l)"
    unfolding t_def remove_user_result [OF inv assms(2,3)] Let_def left_channel_sel last ..
  note fi = free_invites_inv [OF linv, of ch]
  have mem: "members_of t ch = remove1 cl (members_of s ch)"
  proof (cases "members_of s ch = [cl] \<and> \<not> keeps_empty s ch")
    case True
    have "members_of (free_channel ch (free_bans_exceptions_denies ch u)) = members_of u" for u
      by (auto simp: free_channel_def free_bans_exceptions_denies_def members_of_def fun_eq_iff)
    with True t fi show ?thesis by (simp add: left_channel_sel)
  qed (use t left_channel_sel in auto)
  have ch: "set (channel t) = (if members_of s ch = [cl] \<and> \<not> keeps_empty s ch
      then set (channel s) - {ch} else set (channel s))"
    using t fi d(2) by (simp add: free_channel_def free_bans_exceptions_denies_def drop_link_eq left_channel_sel)
  have gone: "banlist (chans t ch) = []" if "ch \<notin> set (channel t)"
    using t ch that assms(2) by (auto simp: free_channel_def free_bans_exceptions_denies_def split: if_splits)
  have hash: "hash_find_channel (chan_name t) (chan_table t) (chan_name t ch) None = None" if "ch \<notin> set (channel t)"
  proof -
    have "chan_name (left_channel cl ch s) = chan_name s"
      "chan_name (free_channel ch (free_bans_exceptions_denies ch u)) = chan_name u" for u
      by (auto simp: left_channel_def unlink_member_def free_channel_def free_bans_exceptions_denies_def
          chan_name_def fun_eq_iff)
    then have n: "chan_name t = chan_name s" using t fi by simp
    have "\<not> irc_eq (chan_name t ch) (chan_name t c)" if "c \<in> set (channel t)" for c
    proof -
      have "c \<in> set (channel s)" "c \<noteq> ch"
        using that ch \<open>ch \<notin> set (channel t)\<close> by (auto split: if_splits)
      with inv assms(2) show ?thesis unfolding n by (auto simp: chan_inv_def table_inv_def)
    qed
    with tinv show ?thesis
      using hash_find_channel_live(1) [of t "chan_name t ch"] by (simp add: chan_inv_def)
  qed
  have refs: "ch \<notin> set (u_invited (clients t u)) \<and> ch \<notin> set (u_channel (clients t u))" if "ch \<notin> set (channel t)" for u
    using tinv that by (auto simp: chan_inv_def links_inv_def channels_of_def invited_of_def)
  show ?thesis using mem ch gone hash refs assms(2) by auto
qed

theorem last_leave_frees_witness:
  "5 \<notin> set (channel (remove_user_from_channel 3 5 run2))"
proof -
  have "\<not> keeps_empty run2 5" by (simp add: keeps_empty_def run_sel plain_config_def has_def)
  then show ?thesis
    using last_leave_frees [OF run_reach(3), of 5 3] by (simp add: run_sel)
qed

text \<open>
  An invitation appends the channel to the user's list and the user to the
  channel's, once; if the list was full the oldest other invitation is given up on both sides, so
  the list never exceeds \<open>MaxChansPerUser\<close>; and the invited user can then enter a channel
  without a key.
\<close>

theorem invite_list_bounded:
  assumes "chan_reach s" "ch \<in> set (channel s)"
    and "int (length (u_invited (clients s cl))) \<le> MaxChansPerUser (cfg s)" "0 < MaxChansPerUser (cfg s)"
  defines "t \<equiv> add_invite cl ch s"
  shows "int (length (u_invited (clients t cl))) \<le> MaxChansPerUser (cfg t) \<and>
    last (u_invited (clients t cl)) = ch \<and> cl \<in> set (invites (chans t ch)) \<and>
    set (u_invited (clients t cl)) \<subseteq> insert ch (set (u_invited (clients s cl))) \<and>
    (md_key (mode (chans t ch)) = [] \<longrightarrow> snd (can_join cl ch key t) = 0)"
proof -
  define u where "u = drop_link ch (u_invited (clients s cl))"
  let ?full = "MaxChansPerUser (cfg s) \<le> int (length u)"
  have t: "u_invited (clients t cl) = (if ?full then drop_link (hd u) u else u) @ [ch]"
    by (simp add: t_def add_invite_def Let_def link_invite_def del_invite_def u_def)
  have c: "cfg t = cfg s" by (simp add: t_def add_invite_def Let_def link_invite_def)
  have len: "length u \<le> length (u_invited (clients s cl))"
    by (simp add: u_def drop_link_eq length_remove1)
  have "?full \<Longrightarrow> length (drop_link (hd u) u) = length u - 1" "?full \<Longrightarrow> u \<noteq> []"
    using assms(4) by (cases u; simp)+
  then have "int (length (u_invited (clients t cl))) \<le> MaxChansPerUser (cfg t)"
    using t c len assms(3,4) by (cases u) auto
  moreover have "last (u_invited (clients t cl)) = ch" using t by simp
  moreover have "cl \<in> set (invites (chans t ch))"
    by (simp add: t_def add_invite_def Let_def link_invite_def)
  moreover have "set u \<subseteq> set (u_invited (clients s cl))" "set (drop_link (hd u) u) \<subseteq> set u"
    by (simp_all add: u_def drop_link_eq set_remove1_subset)
  then have "set (u_invited (clients t cl)) \<subseteq> insert ch (set (u_invited (clients s cl)))"
    using t by auto
  moreover have "snd (can_join cl ch key t) = 0" if "md_key (mode (chans t ch)) = []"
    using that t by (subst can_join_zero) simp
  ultimately show ?thesis by blast
qed

theorem invite_list_bounded_witness:
  "last (u_invited (clients (add_invite 4 5 run2) 4)) = 5 \<and> 4 \<in> set (invites (chans (add_invite 4 5 run2) 5))"
  using invite_list_bounded [OF run_reach(3), of 5 4] by (simp add: run_sel plain_config_def)

text \<open>
  \<open>iusers\<close> is counted with the stealth flag the user has when joining
  and when leaving: a user who joins a channel in stealth mode, loses the mode (as \<open>SVSMODE\<close> can
  make happen) and leaves, leaves \<open>iusers\<close> one too high while \<open>users\<close> is as before.
\<close>

theorem stealth_count_drifts:
  fixes s ch cl fl
  assumes "chan_inv s" "ch \<in> set (channel s)" "members_of s ch \<noteq> []" "cl \<notin> set (members_of s ch)"
    and "has_user (clients s cl)" "IsStealth (clients s cl)"
  defines "t \<equiv> remove_user_from_channel cl ch
    (upd_client cl (\<lambda>c. c\<lparr>c_umodes := c_umodes c AND NOT UMODE_STEALTH\<rparr>) (add_user_to_channel ch cl fl s))"
  shows "users (chans t ch) = users (chans s ch) \<and> iusers (chans t ch) = iusers (chans s ch) + 1"
proof -
  let ?a = "add_user_to_channel ch cl fl s"
  let ?b = "upd_client cl (\<lambda>c. c\<lparr>c_umodes := c_umodes c AND NOT UMODE_STEALTH\<rparr>) ?a"
  have b: "chan_inv ?b"
    using add_user_to_channel_inv [OF assms(1,2,4)] by (intro chan_inv_upd_client) simp_all
  have ch: "ch \<in> set (channel ?b)" and cl: "cl \<in> set (members_of ?b ch)"
    using assms(2,5) by (simp_all add: add_user_to_channel_def link_member_def members_of_def)
  have m: "members_of ?b ch = cl # members_of s ch"
    using assms(5) by (simp add: add_user_to_channel_def link_member_def members_of_def)
  have ns: "\<not> IsStealth (clients ?b cl)"
    by (simp add: IsStealth_def has_def and.assoc)
  have "t = left_channel cl ch ?b"
    using remove_user_result [OF b ch cl] assms(3) m by (simp add: t_def left_channel_sel)
  then show ?thesis
    using ns assms(5,6) by (simp add: left_channel_def unlink_member_def add_user_to_channel_def link_member_def)
qed

theorem stealth_count_drifts_witness:
  "let s = upd_client 4 (\<lambda>c. c\<lparr>c_umodes := UMODE_STEALTH\<rparr>) run2;
       t = remove_user_from_channel 4 5
         (upd_client 4 (\<lambda>c. c\<lparr>c_umodes := c_umodes c AND NOT UMODE_STEALTH\<rparr>) (add_user_to_channel 5 4 0 s))
   in iusers (chans t 5) = iusers (chans s 5) + 1"
proof -
  let ?s = "upd_client 4 (\<lambda>c. c\<lparr>c_umodes := UMODE_STEALTH\<rparr>) run2"
  have "chan_inv ?s" using chan_reach_inv [OF run_reach(3)] by (intro chan_inv_upd_client) simp_all
  moreover have "members_of ?s 5 = [3]" using run_sel(2) by (simp add: members_of_def)
  ultimately show ?thesis
    using stealth_count_drifts [of ?s 5 4 0]
    by (simp add: run_sel IsStealth_def has_def UMODE_STEALTH_def Let_def)
qed

end
