(* ===== verification/Dline.thy ===== *)
theory Dline
  imports IpTree
begin

text \<open>
  D-lines (addresses that may not connect) with their exceptions, and the K-, E- and I-lines by
  address, \<open>src/dline_conf.c\<close>: 256 trees indexed by the first byte of the address, an "oracle"
  word per tree that has every bit some entry can have, and the list \<open>leftover\<close> of exceptions
  that have no D-line yet.
\<close>

subsection \<open>State\<close>

record dlines =
  Dline :: "nat \<Rightarrow> ip_subtree"
  dl_oracle :: "nat \<Rightarrow> 64 word"
  leftover :: "conf list"
  ip_Kline :: "nat \<Rightarrow> ip_subtree"
  ike_oracle :: "nat \<Rightarrow> 64 word"
  coins :: "bool list"

definition first_octet :: "64 word \<Rightarrow> nat" where
  "first_octet ip = unat (drop_bit 24 ip)"

definition clear_Dline_table :: "bool list \<Rightarrow> dlines" where
  "clear_Dline_table cs = \<lparr>Dline = (\<lambda>_. Nil_tree), dl_oracle = (\<lambda>_. 0), leftover = [],
     ip_Kline = (\<lambda>_. Nil_tree), ike_oracle = (\<lambda>_. 0), coins = cs\<rparr>"

text \<open>\<open>zap_Dlines\<close> frees everything the trees and \<open>leftover\<close> hold and clears the oracles.\<close>

definition zap_Dlines :: "dlines \<Rightarrow> dlines" where
  "zap_Dlines st = st\<lparr>dl_oracle := (\<lambda>_. 0), Dline := (\<lambda>_. Nil_tree), ike_oracle := (\<lambda>_. 0),
     ip_Kline := (\<lambda>_. Nil_tree), leftover := []\<rparr>"

subsection \<open>D-lines\<close>

definition trim_Dlines :: "conf list \<Rightarrow> conf list" where
  "trim_Dlines cl = filter e_lined cl"

definition find_exception :: "conf list \<Rightarrow> 64 word \<Rightarrow> conf option" where
  "find_exception lo ip = List.find (\<lambda>c. cf_ip c = ip AND cf_mask c) lo"

text \<open>After the first entry of the list.\<close>

fun insert_second :: "conf \<Rightarrow> conf list \<Rightarrow> conf list" where
  "insert_second c [] = [c]"
| "insert_second c (d # ds) = d # c # ds"

definition as_exception :: "conf \<Rightarrow> conf" where
  "as_exception c = c\<lparr>cf_status := CONF_DLINE, cf_flags := CONF_FLAGS_E_LINED\<rparr>"

definition add_dline :: "conf \<Rightarrow> dlines \<Rightarrow> dlines" where
  "add_dline conf0 st =
     (let c = as_exception conf0; h = first_octet (cf_ip c) in
      case find_ip_subtree (Dline st h) (cf_ip c) of
        None \<Rightarrow> st\<lparr>leftover := c # leftover st\<rparr>
      | Some _ \<Rightarrow> st\<lparr>Dline := (Dline st)(h := upd_found (insert_second c) (Dline st h) (cf_ip c))\<rparr>)"

fun rescan_dlines :: "conf list \<Rightarrow> dlines \<Rightarrow> conf list \<times> dlines" where
  "rescan_dlines [] st = ([], st)"
| "rescan_dlines (s # rest) st =
     (let (rest', st1) = rescan_dlines rest st in
      if find_ip_subtree (Dline st1 (first_octet (cf_ip s))) (cf_ip s) \<noteq> None
      then (rest', add_dline s st1)
      else (s # rest', st1))"

definition all_ones :: "64 word" where "all_ones = 0xFFFFFFFF"

definition add_Dline :: "conf \<Rightarrow> dlines \<Rightarrow> dlines" where
  "add_Dline conf0 st =
     (let c = (if cf_mask conf0 = 0 then conf0\<lparr>cf_mask := all_ones\<rparr> else conf0);
          ip = cf_ip c; m = cf_mask c; h = first_octet ip;
          broader = (case find_ip_subtree (Dline st h) ip of None \<Rightarrow> False | Some (_, nm, _) \<Rightarrow> nm \<le> m)
      in if broader then st
         else if find_exception (leftover st) ip \<noteq> None then st
         else
           let (t, clist, coins') = delete_ip_subtree (coins st) (Dline st h) ip m [];
               node = new_ip_subtree ip m (c # trim_Dlines clist) Nil_tree Nil_tree;
               st1 = st\<lparr>dl_oracle := (dl_oracle st)(h := dl_oracle st h OR ((all_ones - m) + ip)),
                        Dline := (Dline st)(h := insert_ip_subtree t node), coins := coins'\<rparr>;
               (lo, st2) = rescan_dlines (leftover st1) st1
           in st2\<lparr>leftover := lo\<rparr>)"

definition match_Dline :: "dlines \<Rightarrow> 64 word \<Rightarrow> conf option" where
  "match_Dline st ip =
     (let h = first_octet ip in
      if dl_oracle st h AND ip \<noteq> ip then None
      else case find_ip_subtree (Dline st h) ip of
        None \<Rightarrow> None
      | Some (_, _, cl) \<Rightarrow>
          (case List.find (\<lambda>c. e_lined c \<and> cf_ip c = ip AND cf_mask c) cl of
             Some e \<Rightarrow> Some e
           | None \<Rightarrow>
               (case cl of [] \<Rightarrow> None
                | d # _ \<Rightarrow> if cf_ip d AND cf_mask d = ip AND cf_mask d then Some d else None)))"

text \<open>What \<open>report_dlines\<close> prints: the letter and the item, tree by tree, in order.\<close>

fun walk_the_dlines :: "ip_subtree \<Rightarrow> (char \<times> conf) list" where
  "walk_the_dlines Nil_tree = []"
| "walk_the_dlines (Node i m c l r) =
     walk_the_dlines l @
     map (\<lambda>s. (if e_lined s then CHR ''d'' else CHR ''D'', s)) (filter (\<lambda>s. has (cf_status s) CONF_DLINE) c) @
     walk_the_dlines r"

definition report_dlines :: "dlines \<Rightarrow> (char \<times> conf) list" where
  "report_dlines st = concat (map (\<lambda>i. walk_the_dlines (Dline st i)) [0..<256])"

subsection \<open>K- and E-lines by address\<close>

text \<open>\<open>int mask\<close> compared with an \<open>unsigned long\<close>: the low 32 bits, sign-extended.\<close>

definition int_mask :: "64 word \<Rightarrow> 64 word" where
  "int_mask m = signed_take_bit 31 m"

definition trim_ip_Klines :: "conf list \<Rightarrow> 64 word \<Rightarrow> conf list" where
  "trim_ip_Klines cl m = filter (\<lambda>c. e_lined c \<or> cf_mask c < int_mask m) cl"

definition trim_ip_Elines :: "conf list \<Rightarrow> 64 word \<Rightarrow> conf list" where
  "trim_ip_Elines cl m = filter (\<lambda>c. cf_mask c < int_mask m) cl"

text \<open>
  The common part of the two: no node yet, or an entry put into the node's list. \<open>stop\<close> is the
  test for an entry that makes the new one superfluous, \<open>trim\<close> the clearing of the list for \<open>*@\<close>.
\<close>

definition add_ip_line ::
  "(conf \<Rightarrow> bool) \<Rightarrow> (conf list \<Rightarrow> 64 word \<Rightarrow> conf list) \<Rightarrow> conf \<Rightarrow> dlines \<Rightarrow> dlines" where
  "add_ip_line stop trim c st =
     (let ip = cf_ip c; m = cf_mask c; h = first_octet ip;
          ora = (ike_oracle st)(h := ike_oracle st h OR ((all_ones - m) + ip))
      in case find_ip_subtree (ip_Kline st h) ip of
           None \<Rightarrow>
             (let (t, clist, coins') = delete_ip_subtree (coins st) (ip_Kline st h) ip m [];
                  clist' = (if cf_user c = ''*'' then trim clist 0 else clist);
                  node = new_ip_subtree ip m (c # clist') Nil_tree Nil_tree
              in st\<lparr>ike_oracle := ora, ip_Kline := (ip_Kline st)(h := insert_ip_subtree t node), coins := coins'\<rparr>)
         | Some (_, _, cl) \<Rightarrow>
             if \<exists>s\<in>set cl. stop s then st
             else
               st\<lparr>ike_oracle := ora,
                  ip_Kline := (ip_Kline st)(h := upd_found
                    (\<lambda>cl. c # (if cf_user c \<noteq> ''*'' then cl else trim cl m)) (ip_Kline st h) ip)\<rparr>)"

definition add_ip_Kline :: "conf \<Rightarrow> dlines \<Rightarrow> dlines" where
  "add_ip_Kline conf0 st =
     (let c = (if cf_mask conf0 = 0 then conf0\<lparr>cf_mask := all_ones\<rparr> else conf0)
      in add_ip_line (\<lambda>s. (has (cf_status s) CONF_KILL \<or> e_lined s) \<and> cf_user s = ''*'' \<and> cf_mask s < cf_mask c)
           trim_ip_Klines c st)"

definition add_ip_Eline :: "conf \<Rightarrow> dlines \<Rightarrow> dlines" where
  "add_ip_Eline c st =
     add_ip_line (\<lambda>s. e_lined s \<and> cf_user s = ''*'' \<and> cf_mask s < cf_mask c) trim_ip_Elines c st"

text \<open>The scan for the winner: \<open>kline\<close> stands for \<open>winnertype == 'K'\<close>.\<close>

fun scan_ip_Kline :: "64 word \<Rightarrow> cstr \<Rightarrow> conf option \<Rightarrow> bool \<Rightarrow> conf list \<Rightarrow> conf option" where
  "scan_ip_Kline ip name winner kline [] = winner"
| "scan_ip_Kline ip name winner kline (s # cl) =
     (if cf_ip s \<noteq> ip AND cf_mask s then scan_ip_Kline ip name winner kline cl
      else if e_lined s \<and> match (cf_user s) name then Some s
      else if has (cf_status s) CONF_KILL \<and> match (cf_user s) name then scan_ip_Kline ip name (Some s) True cl
      else if has (cf_status s) CONF_CLIENT \<and> match (cf_user s) name \<and> \<not> kline \<and>
              \<not> (\<exists>w. winner = Some w \<and> cf_mask s \<le> cf_mask w)
        then scan_ip_Kline ip name (Some s) kline cl
      else scan_ip_Kline ip name winner kline cl)"

definition match_ip_Kline :: "dlines \<Rightarrow> 64 word \<Rightarrow> cstr option \<Rightarrow> conf option" where
  "match_ip_Kline st ip name =
     (let h = first_octet ip in
      if ike_oracle st h AND ip \<noteq> ip then None
      else if ip_Kline st h = Nil_tree then None
      else case find_ip_subtree (ip_Kline st h) ip of
        None \<Rightarrow> None
      | Some (_, _, cl) \<Rightarrow> (case name of None \<Rightarrow> None | Some n \<Rightarrow> scan_ip_Kline ip n None False cl))"

subsection \<open>Lemmas\<close>

lemma upd_found_blks: "map blk (nodes (upd_found f t a)) = map blk (nodes t)"
  by (induction t) auto

lemma in_nodes_upd_found:
  "n \<in> set (nodes (upd_found f t a)) \<Longrightarrow>
     n \<in> set (nodes t) \<or> (\<exists>i m c. n = (i, m, f c) \<and> (i, m, c) \<in> set (nodes t))"
  by (induction t) (auto split: if_splits)

lemma find_upd_found:
  "find_ip_subtree (upd_found f t a) a = map_option (\<lambda>(i, m, c). (i, m, f c)) (find_ip_subtree t a)"
  by (induction t) auto

lemma wf_tree_blks: "map blk (nodes t) = map blk (nodes u) \<Longrightarrow> wf_tree t = wf_tree u"
proof -
  have "wf_tree t \<longleftrightarrow> (\<forall>b\<in>set (map blk (nodes t)). block b) \<and> sorted_wrt before (map blk (nodes t))" for t
    by (simp add: wf_tree_def sorted_wrt_map)
  then show "map blk (nodes t) = map blk (nodes u) \<Longrightarrow> ?thesis" by (simp only:)
qed

text \<open>The list of a D-line node: the D-line itself, then exceptions.\<close>

definition dline_list :: "64 word \<Rightarrow> 64 word \<Rightarrow> conf list \<Rightarrow> bool" where
  "dline_list i m cl \<longleftrightarrow> (\<exists>d es. cl = d # es \<and> \<not> e_lined d \<and> cf_ip d AND cf_mask d = i \<and> cf_mask d = m \<and>
     (\<forall>e\<in>set es. e_lined e))"

text \<open>
  The invariant: every tree is well-formed, its nodes carry lists of that shape, and the oracle
  word has every bit of every address the nodes cover.
\<close>

definition tree_ok :: "nat \<Rightarrow> dlines \<Rightarrow> bool" where
  "tree_ok h st \<longleftrightarrow> wf_tree (Dline st h) \<and>
     (\<forall>(i, m, cl)\<in>set (nodes (Dline st h)). dline_list i m cl \<and>
        (\<forall>a. addr a \<and> covers (i, m) a \<longrightarrow> dl_oracle st h AND a = a))"

definition dlines_ok :: "dlines \<Rightarrow> bool" where
  "dlines_ok st \<longleftrightarrow> (\<forall>h. tree_ok h st) \<and> (\<forall>c\<in>set (leftover st). e_lined c)"

lemma insert_second_list: "dline_list i m cl \<Longrightarrow> e_lined c \<Longrightarrow> dline_list i m (insert_second c cl)"
  by (auto simp: dline_list_def)

lemma e_lined_as_exception [simp]: "e_lined (as_exception c)"
  by (simp add: as_exception_def has_def CONF_FLAGS_E_LINED_def)

lemma add_dline_ok: "dlines_ok st \<Longrightarrow> dlines_ok (add_dline c st)"
proof -
  assume ok: "dlines_ok st"
  let ?c = "as_exception c" and ?h = "first_octet (cf_ip c)"
  have ip: "cf_ip ?c = cf_ip c" by (simp add: as_exception_def)
  have "tree_ok h (st\<lparr>Dline := (Dline st)(?h := upd_found (insert_second ?c) (Dline st ?h) (cf_ip c))\<rparr>)" for h
  proof (cases "h = ?h")
    case True
    let ?t = "upd_found (insert_second ?c) (Dline st ?h) (cf_ip c)"
    have t: "tree_ok ?h st" using ok by (simp add: dlines_ok_def)
    then have "wf_tree ?t" using wf_tree_blks [OF upd_found_blks] by (simp add: tree_ok_def)
    moreover have "dline_list i m cl \<and> (\<forall>a. addr a \<and> covers (i, m) a \<longrightarrow> dl_oracle st ?h AND a = a)"
      if "(i, m, cl) \<in> set (nodes ?t)" for i m cl
    proof -
      from in_nodes_upd_found [OF that] obtain cl0 where n: "(i, m, cl0) \<in> set (nodes (Dline st ?h))"
        "cl = cl0 \<or> cl = insert_second ?c cl0" by auto
      then have "dline_list i m cl0" "\<forall>a. addr a \<and> covers (i, m) a \<longrightarrow> dl_oracle st ?h AND a = a"
        using t unfolding tree_ok_def by blast+
      then show ?thesis using n(2) insert_second_list by auto
    qed
    ultimately show ?thesis using True by (auto simp: tree_ok_def)
  next
    case False
    then show ?thesis using ok by (simp add: dlines_ok_def tree_ok_def)
  qed
  moreover have "tree_ok h (st\<lparr>leftover := lo\<rparr>) = tree_ok h st" for h lo
    by (simp add: tree_ok_def)
  ultimately show ?thesis
    using ok by (auto simp: add_dline_def Let_def ip dlines_ok_def split: option.splits)
qed

lemma rescan_dlines_ok:
  "dlines_ok st \<Longrightarrow> rescan_dlines cs st = (lo, st') \<Longrightarrow> dlines_ok st' \<and> set lo \<subseteq> set cs"
proof (induction cs arbitrary: lo st')
  case (Cons c cs)
  obtain lo1 st1 where r: "rescan_dlines cs st = (lo1, st1)" by fastforce
  with Cons have "dlines_ok st1" "set lo1 \<subseteq> set cs" by auto
  with Cons.prems r show ?case by (auto split: if_splits simp: add_dline_ok)
qed simp

text \<open>The trees only gain exceptions by a rescan: who is found before is found after.\<close>

definition same_blocks :: "dlines \<Rightarrow> dlines \<Rightarrow> bool" where
  "same_blocks st st' \<longleftrightarrow> (\<forall>h. map blk (nodes (Dline st h)) = map blk (nodes (Dline st' h))) \<and>
     dl_oracle st' = dl_oracle st"

lemma add_dline_blocks: "same_blocks st (add_dline c st)"
  by (auto simp: same_blocks_def add_dline_def Let_def upd_found_blks split: option.splits)

lemma rescan_dlines_blocks: "rescan_dlines cs st = (lo, st') \<Longrightarrow> same_blocks st st'"
proof (induction cs arbitrary: lo st')
  case (Cons c cs)
  obtain lo1 st1 where r: "rescan_dlines cs st = (lo1, st1)" by fastforce
  with Cons have "same_blocks st st1" by auto
  with Cons.prems r add_dline_blocks [of st1 c] show ?case by (auto split: if_splits simp: same_blocks_def)
qed (simp add: same_blocks_def)

text \<open>An address covered by a node of its tree is matched.\<close>

lemma match_Dline_covered:
  assumes "dlines_ok st" "addr a" "b \<in> set (map blk (nodes (Dline st (first_octet a))))" "covers b a"
  shows "\<exists>c. match_Dline st a = Some c \<and> (cf_ip c AND cf_mask c = a AND cf_mask c \<or> e_lined c \<and> cf_ip c = a AND cf_mask c)"
proof -
  obtain i m cl where n: "(i, m, cl) \<in> set (nodes (Dline st (first_octet a)))" "b = (i, m)" using assms(3) by auto
  have ok: "tree_ok (first_octet a) st" using assms(1) by (simp add: dlines_ok_def)
  then have "find_ip_subtree (Dline st (first_octet a)) a = Some (i, m, cl)"
    using n assms(2,4) by (intro find_ip_subtree_complete) (auto simp: tree_ok_def)
  moreover have "dl_oracle st (first_octet a) AND a = a" "dline_list i m cl"
    using ok n assms(2,4) by (auto simp: tree_ok_def)
  moreover have "a AND m = i" using assms(4) n(2) by (simp add: covers_def)
  ultimately show ?thesis
    by (auto simp: match_Dline_def Let_def dline_list_def split: option.splits dest!: find_SomeD)
qed

text \<open>Removing the more specific blocks makes room for a new one.\<close>

lemma delete_makes_room:
  assumes wf: "wf_tree t" and b: "block (i, m)"
    and nb: "\<And>n. find_ip_subtree t i = Some n \<Longrightarrow> \<not> fst (snd n) \<le> m"
    and d: "delete_ip_subtree cs t i m cl = (t', cl', cs')"
  shows "wf_tree t' \<and> (\<forall>n\<in>set (nodes t'). n \<in> set (nodes t) \<and> disjoint (i, m) (blk n))"
proof -
  note dn = delete_ip_subtree_nodes [OF d]
  have "wf_tree t'" using wf dn wf_tree_subseq by blast
  moreover have "n \<in> set (nodes t)" if "n \<in> set (nodes t')" for n
    using that dn set_mono_subseq by blast
  moreover have "disjoint (i, m) (blk n)" if n: "n \<in> set (nodes t')" for n
  proof (rule ccontr)
    assume "\<not> disjoint (i, m) (blk n)"
    then obtain x where x: "addr x" "covers (i, m) x" "covers (blk n) x" by (auto simp: disjoint_def)
    have bn: "block (blk n)" and nt: "n \<in> set (nodes t)"
      using n \<open>wf_tree t'\<close> \<open>\<And>n. n \<in> set (nodes t') \<Longrightarrow> n \<in> set (nodes t)\<close> by (auto simp: wf_tree_def)
    have im: "i AND m = i" "addr i" using b by (simp_all add: block_def covers_def)
    show False
    proof (cases "m \<le> fst (snd n)")
      case True
      then have "fst n AND m = i" using blocks_nested [OF b bn x(2,3)] by simp
      with dn n im True show False by auto
    next
      case False
      then have le: "fst (snd n) \<le> m" by simp
      then have "i AND fst (snd n) = fst n" using blocks_nested [OF bn b x(3,2)] by simp
      then have "covers (blk n) i" by (simp add: covers_def)
      then have "find_ip_subtree t i = Some n" using wf im(2) nt by (intro find_ip_subtree_complete)
      with nb le show False by blast
    qed
  qed
  ultimately show ?thesis by blast
qed

text \<open>The oracle value of a masked block has every bit of every address in it.\<close>

lemma oracle_covers:
  assumes "block (i, m)" "addr a" "covers (i, m) a"
  shows "((all_ones - m) + i) AND a = a"
proof -
  obtain j where j: "prefix_mask m j" using assms(1) by (auto simp: block_def is_prefix_mask_def)
  have im: "i AND m = i" "addr i" "a AND m = i" using assms by (simp_all add: block_def covers_def)
  have bits: "bit all_ones n \<longleftrightarrow> n < 32" for n
  proof -
    have "all_ones = mask 32" by (simp add: all_ones_def mask_eq_exp_minus_1)
    then show ?thesis unfolding \<open>all_ones = mask 32\<close> by (auto simp add: bit_mask_iff)
  qed
  have mn: "m AND (all_ones AND NOT m) = 0" "m OR (all_ones AND NOT m) = all_ones"
    by (auto simp: bit_eq_iff bit_simps bits prefix_mask_bit [OF j])
  then have "m + (all_ones AND NOT m) = all_ones" by (metis disjunctive_add_eq_or)
  then have sub: "all_ones - m = all_ones AND NOT m" by (metis add_diff_cancel_left')
  have "(all_ones AND NOT m) AND i = 0"
    using im(1) by (auto simp: bit_eq_iff bit_simps)
  then have "(all_ones - m) + i = (all_ones AND NOT m) OR i"
    unfolding sub by (rule disjunctive_add_eq_or)
  moreover have "bit a n \<Longrightarrow> n < 32 \<and> (bit m n \<longrightarrow> bit i n)" for n
    using im(3) addr_bit [OF assms(2)] by (metis bit_and_iff)
  ultimately show ?thesis by (auto simp: bit_eq_iff bit_simps bits)
qed

text \<open>A D-line as the configuration file gives it: masked, with a network mask (0 meaning all).\<close>

definition dmask :: "conf \<Rightarrow> 64 word" where
  "dmask c = (if cf_mask c = 0 then all_ones else cf_mask c)"

definition good_dline :: "conf \<Rightarrow> bool" where
  "good_dline c \<longleftrightarrow> block (cf_ip c, dmask c) \<and> \<not> e_lined c"

lemma dlines_ok_leftover: "dlines_ok st \<Longrightarrow> (\<forall>c\<in>set lo. e_lined c) \<Longrightarrow> dlines_ok (st\<lparr>leftover := lo\<rparr>)"
  by (simp add: dlines_ok_def tree_ok_def)

text \<open>The state between the insertion of the node and the rescan.\<close>

lemma add_Dline_steps:
  assumes ok: "dlines_ok st" and good: "good_dline c"
  shows "add_Dline c st = st \<and>
      ((\<exists>n. find_ip_subtree (Dline st (first_octet (cf_ip c))) (cf_ip c) = Some n \<and> fst (snd n) \<le> dmask c) \<or>
       find_exception (leftover st) (cf_ip c) \<noteq> None)
    \<or> (\<exists>st1 lo st2. dlines_ok st1 \<and> leftover st1 = leftover st \<and>
        (cf_ip c, dmask c) \<in> set (map blk (nodes (Dline st1 (first_octet (cf_ip c))))) \<and>
        rescan_dlines (leftover st1) st1 = (lo, st2) \<and> add_Dline c st = st2\<lparr>leftover := lo\<rparr>)"
proof -
  let ?c = "c\<lparr>cf_mask := dmask c\<rparr>" and ?h = "first_octet (cf_ip c)" and ?m = "dmask c"
  have c: "(if cf_mask c = 0 then c\<lparr>cf_mask := all_ones\<rparr> else c) = ?c" by (simp add: dmask_def)
  have sel: "cf_mask ?c = ?m" "cf_ip ?c = cf_ip c" by simp_all
  have b: "block (cf_ip c, ?m)" and ne: "\<not> e_lined ?c" using good by (simp_all add: good_dline_def)
  have masked: "cf_ip c AND ?m = cf_ip c" using b by (simp add: block_def covers_def)
  have tok: "tree_ok ?h st" using ok by (simp add: dlines_ok_def)
  define broader where "broader \<longleftrightarrow>
    (case find_ip_subtree (Dline st ?h) (cf_ip c) of None \<Rightarrow> False | Some (_, nm, _) \<Rightarrow> nm \<le> ?m)"
  obtain t clist cs where d: "delete_ip_subtree (coins st) (Dline st ?h) (cf_ip c) ?m [] = (t, clist, cs)"
    by (metis prod_cases3)
  define st1 where "st1 = st\<lparr>dl_oracle := (dl_oracle st)(?h := dl_oracle st ?h OR ((all_ones - ?m) + cf_ip c)),
    Dline := (Dline st)(?h := insert_ip_subtree t (Node (cf_ip c) ?m (?c # trim_Dlines clist) Nil_tree Nil_tree)),
    coins := cs\<rparr>"
  obtain lo st2 where r: "rescan_dlines (leftover st) st1 = (lo, st2)" by fastforce
  have add: "add_Dline c st = (if broader then st else if find_exception (leftover st) (cf_ip c) \<noteq> None then st
      else st2\<lparr>leftover := lo\<rparr>)"
    using d r unfolding add_Dline_def c Let_def sel broader_def st1_def new_ip_subtree_def masked by simp
  show ?thesis
  proof (cases "broader \<or> find_exception (leftover st) (cf_ip c) \<noteq> None")
    case True
    then show ?thesis unfolding add broader_def by (auto split: option.splits)
  next
    case False
    have nb: "\<not> fst (snd n) \<le> ?m" if "find_ip_subtree (Dline st ?h) (cf_ip c) = Some n" for n
      using that False by (cases n) (auto simp: broader_def)
    have room: "wf_tree t" "\<And>n. n \<in> set (nodes t) \<Longrightarrow> n \<in> set (nodes (Dline st ?h)) \<and> disjoint (cf_ip c, ?m) (blk n)"
      using delete_makes_room [OF _ b nb d] tok by (auto simp: tree_ok_def)
    have "tree_ok h st1" for h
    proof (cases "h = ?h")
      case True
      have "wf_tree (Dline st1 ?h)" using wf_insert [OF room(1) b] room(2) by (simp add: st1_def)
      moreover have "dline_list (cf_ip c) ?m (?c # trim_Dlines clist)"
        using ne masked by (simp add: dline_list_def trim_Dlines_def)
      moreover have "dl_oracle st1 ?h AND a = a" if "addr a" "covers (cf_ip c, ?m) a" for a
        using oracle_covers [OF b that] by (simp add: st1_def bit_eq_iff bit_simps) blast
      moreover have "dline_list i m cl \<and> (\<forall>a. addr a \<and> covers (i, m) a \<longrightarrow> dl_oracle st1 ?h AND a = a)"
        if "(i, m, cl) \<in> set (nodes t)" for i m cl
      proof -
        have "(i, m, cl) \<in> set (nodes (Dline st ?h))" using room(2) that by blast
        then have "dline_list i m cl" "\<forall>a. addr a \<and> covers (i, m) a \<longrightarrow> dl_oracle st ?h AND a = a"
          using tok unfolding tree_ok_def by blast+
        then show ?thesis by (simp add: st1_def bit_eq_iff bit_simps) blast
      qed
      ultimately show ?thesis
        using True unfolding tree_ok_def by (auto simp: st1_def set_nodes_insert)
    next
      case False
      then show ?thesis using ok by (simp add: dlines_ok_def tree_ok_def st1_def)
    qed
    moreover have "leftover st1 = leftover st" by (simp add: st1_def)
    ultimately have "dlines_ok st1" using ok by (simp add: dlines_ok_def)
    moreover have "(cf_ip c, ?m) \<in> set (map blk (nodes (Dline st1 ?h)))"
      by (simp add: st1_def set_nodes_insert)
    ultimately show ?thesis
      using False r add \<open>leftover st1 = leftover st\<close> by auto
  qed
qed

lemma add_Dline_ok:
  assumes "dlines_ok st" "good_dline c"
  shows "dlines_ok (add_Dline c st)"
  using add_Dline_steps [OF assms]
proof
  assume "\<exists>st1 lo st2. dlines_ok st1 \<and> leftover st1 = leftover st \<and>
        (cf_ip c, dmask c) \<in> set (map blk (nodes (Dline st1 (first_octet (cf_ip c))))) \<and>
        rescan_dlines (leftover st1) st1 = (lo, st2) \<and> add_Dline c st = st2\<lparr>leftover := lo\<rparr>"
  then obtain st1 lo st2 where st: "dlines_ok st1" "leftover st1 = leftover st"
    "rescan_dlines (leftover st1) st1 = (lo, st2)" "add_Dline c st = st2\<lparr>leftover := lo\<rparr>" by blast
  from rescan_dlines_ok [OF st(1,3)] st(2) assms(1)
  have "dlines_ok st2" "\<forall>x\<in>set lo. e_lined x" by (auto simp: dlines_ok_def)
  with st(4) show ?thesis by (simp add: dlines_ok_leftover)
qed (use assms(1) in simp)

lemma nested_covers:
  assumes "block b" "block c" "covers b x" "covers c x" "snd b \<le> snd c" "covers c a"
  shows "covers b a"
proof -
  obtain j k where jk: "prefix_mask (snd b) j" "prefix_mask (snd c) k"
    using assms by (auto simp: block_def is_prefix_mask_def)
  have m: "snd c AND snd b = snd b"
  proof (cases "k \<le> j")
    case False
    with prefix_mask_le [OF jk] assms(5) have "snd b = snd c" by simp
    then show ?thesis by simp
  qed (use jk prefix_mask_and in blast)
  have "a AND snd b = (a AND snd c) AND snd b" by (simp only: and.assoc m)
  also have "\<dots> = fst c AND snd b" using assms(6) by (simp only: covers_def)
  also have "\<dots> = fst b" using blocks_nested [OF assms(1-5)] .
  finally show ?thesis by (simp only: covers_def)
qed

definition dconf :: "64 word \<Rightarrow> 64 word \<Rightarrow> conf" where
  "dconf ip m = \<lparr>cf_status = CONF_DLINE, cf_flags = 0, cf_ip = ip, cf_mask = m, cf_user = []\<rparr>"

text \<open>Four D-lines of network 10: 10.50.0.0/24 first, 10.10, 10.20 and 10.60 around it.\<close>

definition four_dlines :: dlines where
  "four_dlines = add_Dline (dconf 0x0A3C0000 0xFFFF0000) (add_Dline (dconf 0x0A140000 0xFFFF0000)
     (add_Dline (dconf 0x0A0A0000 0xFFFF0000) (add_Dline (dconf 0x0A320000 0xFFFFFF00) (clear_Dline_table []))))"

subsection \<open>Properties\<close>

text \<open>
  C18. In a consistent table, adding a D-line for a masked block keeps the table
  consistent, and unless an unplaced exception covers the block's address the look-up of every
  address of the block (with the block's first octet) then answers an entry that covers it.
  This holds whichever way the coin falls for the nodes removed on the way.
\<close>

theorem dline_enforced:
  assumes "dlines_ok st" "good_dline c" "find_exception (leftover st) (cf_ip c) = None"
    and "addr a" "covers (cf_ip c, dmask c) a" "first_octet a = first_octet (cf_ip c)"
  shows "dlines_ok (add_Dline c st) \<and>
    (\<exists>d. match_Dline (add_Dline c st) a = Some d \<and> cf_ip d AND cf_mask d = a AND cf_mask d \<or>
         (\<exists>e. match_Dline (add_Dline c st) a = Some e \<and> e_lined e \<and> cf_ip e = a AND cf_mask e))"
proof -
  have ok: "dlines_ok (add_Dline c st)" using assms(1,2) by (rule add_Dline_ok)
  let ?h = "first_octet (cf_ip c)"
  have bc: "block (cf_ip c, dmask c)" using assms(2) by (simp add: good_dline_def)
  have "\<exists>b\<in>set (map blk (nodes (Dline (add_Dline c st) ?h))). covers b a"
    using add_Dline_steps [OF assms(1,2)]
  proof
    assume "\<exists>st1 lo st2. dlines_ok st1 \<and> leftover st1 = leftover st \<and>
        (cf_ip c, dmask c) \<in> set (map blk (nodes (Dline st1 ?h))) \<and>
        rescan_dlines (leftover st1) st1 = (lo, st2) \<and> add_Dline c st = st2\<lparr>leftover := lo\<rparr>"
    then obtain st1 lo st2 where st: "(cf_ip c, dmask c) \<in> set (map blk (nodes (Dline st1 ?h)))"
      "rescan_dlines (leftover st1) st1 = (lo, st2)" "add_Dline c st = st2\<lparr>leftover := lo\<rparr>" by blast
    have "map blk (nodes (Dline st1 ?h)) = map blk (nodes (Dline (add_Dline c st) ?h))"
      using rescan_dlines_blocks [OF st(2)] by (simp add: same_blocks_def st(3))
    with st(1) assms(5) show ?thesis by (metis (no_types, lifting))
  next
    assume same: "add_Dline c st = st \<and>
      ((\<exists>n. find_ip_subtree (Dline st ?h) (cf_ip c) = Some n \<and> fst (snd n) \<le> dmask c) \<or>
       find_exception (leftover st) (cf_ip c) \<noteq> None)"
    with assms(3) obtain n where n: "find_ip_subtree (Dline st ?h) (cf_ip c) = Some n" "fst (snd n) \<le> dmask c"
      by auto
    from find_ip_subtree_sound [OF n(1)] have nin: "n \<in> set (nodes (Dline st ?h))" "covers (blk n) (cf_ip c)" by auto
    then have "block (blk n)" using assms(1) by (auto simp: dlines_ok_def tree_ok_def wf_tree_def)
    then have "covers (blk n) a"
      using nested_covers [of "blk n" "(cf_ip c, dmask c)" "cf_ip c" a] bc nin(2) n(2) assms(5)
      by (simp add: block_def)
    then show ?thesis using nin(1) same by auto
  qed
  then obtain b where "b \<in> set (map blk (nodes (Dline (add_Dline c st) (first_octet a))))" "covers b a"
    using assms(6) by auto
  from match_Dline_covered [OF ok assms(4) this] ok show ?thesis by auto
qed

lemma dlines_ok_clear: "dlines_ok (clear_Dline_table cs)"
  by (simp add: dlines_ok_def tree_ok_def clear_Dline_table_def)

lemma good_dconf: "k \<le> 32 \<Longrightarrow> m = cidr_to_bitmask ! k \<Longrightarrow> m \<noteq> 0 \<Longrightarrow> addr i \<Longrightarrow> i AND m = i \<Longrightarrow> good_dline (dconf i m)"
  using cidr_bits by (auto simp: good_dline_def dconf_def dmask_def block_def is_prefix_mask_def covers_def has_def)

theorem dline_enforced_witness:
  "match_Dline (add_Dline (dconf 0x0A320000 0xFFFF0000) (clear_Dline_table [])) 0x0A320102 \<noteq> None"
proof -
  have "good_dline (dconf 0x0A320000 0xFFFF0000)"
    by (rule good_dconf [of 16]) (simp_all add: cidr_to_bitmask_def)
  moreover have "find_exception (leftover (clear_Dline_table [])) (cf_ip (dconf 0x0A320000 0xFFFF0000)) = None"
    by (simp add: find_exception_def clear_Dline_table_def)
  moreover have "covers (cf_ip (dconf 0x0A320000 0xFFFF0000), dmask (dconf 0x0A320000 0xFFFF0000)) 0x0A320102"
    "first_octet 0x0A320102 = first_octet (cf_ip (dconf 0x0A320000 0xFFFF0000))"
    by (simp_all add: covers_def dconf_def dmask_def first_octet_def)
  ultimately show ?thesis
    using dline_enforced [OF dlines_ok_clear, of "dconf 0x0A320000 0xFFFF0000" "[]" "0x0A320102"] by auto
qed

text \<open>
  An exception added for a block inside a D-line is honoured: the look-up of
  every address it covers under that D-line then answers an exception. The table stays
  consistent, and an exception without a D-line is kept aside and waives later D-lines for its
  address.
\<close>

theorem dline_exceptions:
  assumes "dlines_ok st"
  shows "dlines_ok (add_dline e st) \<and>
    (find_ip_subtree (Dline st (first_octet (cf_ip e))) (cf_ip e) = Some n \<and> addr a \<and> covers (blk n) a \<and>
       first_octet a = first_octet (cf_ip e) \<and> a AND cf_mask e = cf_ip e \<longrightarrow>
     (\<exists>x. match_Dline (add_dline e st) a = Some x \<and> e_lined x \<and> cf_ip x = a AND cf_mask x)) \<and>
    (find_ip_subtree (Dline st (first_octet (cf_ip e))) (cf_ip e) = None \<and> cf_ip c AND cf_mask e = cf_ip e \<longrightarrow>
       (let t = add_dline e st in find_exception (leftover t) (cf_ip c) \<noteq> None \<and> add_Dline c t = t))"
proof (intro conjI impI)
  show ok: "dlines_ok (add_dline e st)" using assms by (rule add_dline_ok)
  let ?e = "as_exception e" and ?h = "first_octet (cf_ip e)"
  have e: "cf_ip ?e = cf_ip e" "cf_mask ?e = cf_mask e" by (simp_all add: as_exception_def)
  show "\<exists>x. match_Dline (add_dline e st) a = Some x \<and> e_lined x \<and> cf_ip x = a AND cf_mask x"
    if h: "find_ip_subtree (Dline st ?h) (cf_ip e) = Some n \<and> addr a \<and> covers (blk n) a \<and>
       first_octet a = ?h \<and> a AND cf_mask e = cf_ip e"
  proof -
    obtain i m cl where n: "n = (i, m, cl)" by (metis prod_cases3)
    have t: "add_dline e st = st\<lparr>Dline := (Dline st)(?h := upd_found (insert_second ?e) (Dline st ?h) (cf_ip e))\<rparr>"
      using h by (simp add: add_dline_def Let_def e)
    have tok: "tree_ok ?h (add_dline e st)" using ok by (simp add: dlines_ok_def)
    have "find_ip_subtree (Dline (add_dline e st) ?h) (cf_ip e) = Some (i, m, insert_second ?e cl)"
      using h n by (simp add: t find_upd_found)
    from find_ip_subtree_sound [OF this]
    have nin: "(i, m, insert_second ?e cl) \<in> set (nodes (Dline (add_dline e st) ?h))" by blast
    then have f: "find_ip_subtree (Dline (add_dline e st) ?h) a = Some (i, m, insert_second ?e cl)"
      using tok h n by (intro find_ip_subtree_complete) (auto simp: tree_ok_def)
    have o: "dl_oracle (add_dline e st) ?h AND a = a"
      using tok nin h n by (auto simp: tree_ok_def)
    have "?e \<in> set (insert_second ?e cl)" by (cases cl) simp_all
    then have "\<exists>x\<in>set (insert_second ?e cl). e_lined x \<and> cf_ip x = a AND cf_mask x"
      using h e by (intro bexI [of _ ?e]) simp_all
    then obtain x where x: "List.find (\<lambda>c. e_lined c \<and> cf_ip c = a AND cf_mask c) (insert_second ?e cl) = Some x"
      by (cases "List.find (\<lambda>c. e_lined c \<and> cf_ip c = a AND cf_mask c) (insert_second ?e cl)")
        (auto simp: find_None_iff)
    with f o h find_SomeD [OF x] show ?thesis by (simp add: match_Dline_def Let_def)
  qed
  show "let t = add_dline e st in find_exception (leftover t) (cf_ip c) \<noteq> None \<and> add_Dline c t = t"
    if "find_ip_subtree (Dline st ?h) (cf_ip e) = None \<and> cf_ip c AND cf_mask e = cf_ip e"
  proof -
    have "find_exception (leftover (add_dline e st)) (cf_ip c) \<noteq> None"
      using that by (simp add: add_dline_def Let_def e find_exception_def)
    then show ?thesis by (auto simp: Let_def add_Dline_def)
  qed
qed

theorem dline_exceptions_witness:
  "\<exists>x. match_Dline (add_dline (dconf 0x0A320100 0xFFFFFF00)
      (add_Dline (dconf 0x0A320000 0xFFFF0000) (clear_Dline_table []))) 0x0A320102 = Some x \<and> e_lined x"
proof -
  let ?st = "add_Dline (dconf 0x0A320000 0xFFFF0000) (clear_Dline_table [])"
  have "good_dline (dconf 0x0A320000 0xFFFF0000)"
    by (rule good_dconf [of 16]) (simp_all add: cidr_to_bitmask_def)
  then have ok: "dlines_ok ?st" using add_Dline_ok dlines_ok_clear by blast
  have f: "map_option blk (find_ip_subtree (Dline ?st (first_octet 0x0A320100)) 0x0A320100) = Some (0x0A320000, 0xFFFF0000)"
    by code_simp
  then obtain n where "find_ip_subtree (Dline ?st (first_octet 0x0A320100)) 0x0A320100 = Some n"
    "blk n = (0x0A320000, 0xFFFF0000)" by blast
  then show ?thesis
    using dline_exceptions [OF ok, of "dconf 0x0A320100 0xFFFFFF00" n "0x0A320102"]
    by (auto simp: dconf_def covers_def first_octet_def)
qed

text \<open>
  Three ways an address ban is lost. Adding 10.50.0.0/16 over 10.50.0.0/24 in a
  table that also bans 10.10, 10.20 and 10.60 drops the ban of 10.10: the predecessor that
  replaces the removed node is not its direct child, and the rest of the left subtree is cut off.
  A D-line added for the unmasked address 1.2.3.5 with a 24 bit mask (as for an online nick) is
  not found for 1.2.3.5 itself, as the carry clears oracle bits. And with 64-bit longs the trimming of
  K-lines under a broader \<open>*@\<close> line with a network mask removes nothing, since the mask passed as \<open>int\<close> is
  sign-extended.
\<close>

theorem dline_losses:
  "(match_Dline four_dlines 0x0A0A0001 \<noteq> None \<and>
    match_Dline (add_Dline (dconf 0x0A320000 0xFFFF0000) four_dlines) 0x0A0A0001 = None) \<and>
   match_Dline (add_Dline (dconf 0x01020305 0xFFFFFF00) (clear_Dline_table [])) 0x01020305 = None \<and>
   ((\<forall>c\<in>set cl. addr (cf_mask c)) \<and> 0 < k \<and> k \<le> 32 \<longrightarrow> trim_ip_Klines cl (cidr_to_bitmask ! k) = cl)"
proof (intro conjI impI)
  show "match_Dline four_dlines 0x0A0A0001 \<noteq> None" by code_simp
  show "match_Dline (add_Dline (dconf 0x0A320000 0xFFFF0000) four_dlines) 0x0A0A0001 = None" by code_simp
  show "match_Dline (add_Dline (dconf 0x01020305 0xFFFFFF00) (clear_Dline_table [])) 0x01020305 = None"
    by code_simp
  assume a: "(\<forall>c\<in>set cl. addr (cf_mask c)) \<and> 0 < k \<and> k \<le> 32"
  have "\<forall>k\<le>32. 0 < k \<longrightarrow> 2 ^ 32 \<le> int_mask (cidr_to_bitmask ! k)" by code_simp
  with a have "2 ^ 32 \<le> int_mask (cidr_to_bitmask ! k)" by blast
  with a show "trim_ip_Klines cl (cidr_to_bitmask ! k) = cl"
    by (auto simp: trim_ip_Klines_def filter_id_conv intro: order.strict_trans2)
qed

theorem dline_losses_witness:
  "trim_ip_Klines [dconf 0x0A0A0000 0xFFFFFF00] (cidr_to_bitmask ! 16) = [dconf 0x0A0A0000 0xFFFFFF00]"
  using dline_losses [of "[dconf 0x0A0A0000 0xFFFFFF00]" 16] by (simp add: dconf_def)

end
