(* ===== verification/Dbuf.thy ===== *)
theory Dbuf
  imports IrcChar
begin

text \<open>
  The byte queues of a connection, \<open>src/dbuf.c\<close>: a chain of 1024 byte buffers with the pool they
  come from. \<open>byte_queue\<close> is the contract its callers rely on; \<open>dbuf_getmsg\<close> takes whole lines off
  the front.
\<close>

definition DBUF_SIZE :: nat where "DBUF_SIZE = 1024"

subsection \<open>State\<close>

text \<open>
  A buffer: the offset of \<open>start\<close> and the bytes from \<open>start\<close> to \<open>end\<close>. A queue: the chain from
  \<open>head\<close> (\<open>tail\<close> is its last buffer) and the \<open>length\<close> field. The pool: the two counters, the number
  of buffers on the free list, and the number of buffers obtained from \<open>MyMalloc\<close> and not freed.
\<close>

record buffer =
  b_start :: nat
  b_bytes :: "char list"

record dbuf =
  bufs :: "buffer list"
  dlen :: nat

record pool =
  DBufUsedCount :: int
  DBufCount :: int
  free_list :: nat
  allocated :: nat

text \<open>\<open>INITIAL_DBUFS\<close> and \<open>DBUF_USUAL_MAX_COUNT\<close> are compile-time settings.\<close>

definition b_end :: "buffer \<Rightarrow> nat" where
  "b_end d = b_start d + length (b_bytes d)"

definition dbuf_init :: "nat \<Rightarrow> pool" where
  "dbuf_init INITIAL_DBUFS = \<lparr>DBufUsedCount = 0, DBufCount = int INITIAL_DBUFS,
     free_list = Suc INITIAL_DBUFS, allocated = Suc INITIAL_DBUFS\<rparr>"

definition dbuf_alloc :: "pool \<Rightarrow> pool" where
  "dbuf_alloc p =
     (if 0 < free_list p
      then p\<lparr>free_list := free_list p - 1, DBufUsedCount := DBufUsedCount p + 1\<rparr>
      else p\<lparr>allocated := allocated p + 1, DBufCount := DBufCount p + 1, DBufUsedCount := DBufUsedCount p + 1\<rparr>)"

definition dbuf_free :: "int \<Rightarrow> pool \<Rightarrow> pool" where
  "dbuf_free DBUF_USUAL_MAX_COUNT p =
     (if DBUF_USUAL_MAX_COUNT < DBufUsedCount p
      then p\<lparr>allocated := allocated p - 1, DBufUsedCount := DBufUsedCount p - 1\<rparr>
      else p\<lparr>free_list := free_list p + 1, DBufUsedCount := DBufUsedCount p - 1\<rparr>)"

definition count_dbuf_memory :: "nat \<Rightarrow> pool \<Rightarrow> int \<times> int" where
  "count_dbuf_memory sz p = (DBufCount p * int sz, DBufUsedCount p * int sz)"

definition dbuf_empty :: dbuf where
  "dbuf_empty = \<lparr>bufs = [], dlen = 0\<rparr>"

text \<open>\<open>dbuf_malloc_error\<close>: scrap the whole content.\<close>

definition dbuf_malloc_error :: "int \<Rightarrow> dbuf \<times> pool \<Rightarrow> dbuf \<times> pool" where
  "dbuf_malloc_error mx s = (dbuf_empty, foldl (\<lambda>p _. dbuf_free mx p) (snd s) (bufs (fst s)))"

subsection \<open>Operations\<close>

text \<open>
  The loop of \<open>dbuf_put\<close> from the link \<open>h\<close> on: the buffer there, or a new one at the end of the
  chain, takes as many bytes as it has room for.
\<close>

function put_loop :: "buffer list \<Rightarrow> char list \<Rightarrow> pool \<Rightarrow> buffer list \<times> pool" where
  "put_loop ds [] p = (ds, p)"
| "put_loop [] (c # cs) p =
     (let n = min DBUF_SIZE (length (c # cs));
          (ds, p') = put_loop [] (drop n (c # cs)) (dbuf_alloc p)
      in (\<lparr>b_start = 0, b_bytes = take n (c # cs)\<rparr> # ds, p'))"
| "put_loop (d # ds) (c # cs) p =
     (let n = min (DBUF_SIZE - b_end d) (length (c # cs));
          (ds', p') = put_loop ds (drop n (c # cs)) p
      in (d\<lparr>b_bytes := b_bytes d @ take n (c # cs)\<rparr> # ds', p'))"
  by pat_completeness auto
termination
  by (relation "measures [\<lambda>(ds, cs, p). length ds, \<lambda>(ds, cs, p). length cs]") (auto simp: DBUF_SIZE_def)

definition dbuf_put :: "char list \<Rightarrow> dbuf \<times> pool \<Rightarrow> dbuf \<times> pool" where
  "dbuf_put bytes s =
     (let dyn = fst s;
          (pre, at_h) = (if dlen dyn = 0 then ([], bufs dyn) else (butlast (bufs dyn), [last (bufs dyn)]));
          (ds, p) = put_loop at_h bytes (snd s)
      in (\<lparr>bufs = pre @ ds, dlen = dlen dyn + length bytes\<rparr>, p))"

definition dbuf_map :: "dbuf \<Rightarrow> char list option" where
  "dbuf_map dyn = (if dlen dyn = 0 then None else Some (b_bytes (hd (bufs dyn))))"

text \<open>The loop of \<open>dbuf_delete\<close>; \<open>mx\<close> is \<open>DBUF_USUAL_MAX_COUNT\<close>.\<close>

fun delete_loop :: "int \<Rightarrow> nat \<Rightarrow> buffer list \<Rightarrow> nat \<Rightarrow> pool \<Rightarrow> buffer list \<times> nat \<times> pool" where
  "delete_loop mx n [] len p = ([], len, p)"
| "delete_loop mx n (db # ds) len p =
     (if n = 0 then (db # ds, len, p)
      else
        let chunk = min (length (b_bytes db)) n;
            db' = db\<lparr>b_start := b_start db + chunk, b_bytes := drop chunk (b_bytes db)\<rparr>
        in if b_bytes db' = [] then delete_loop mx (n - chunk) ds (len - chunk) (dbuf_free mx p)
           else (db' # ds, len - chunk, p))"

definition dbuf_delete :: "int \<Rightarrow> nat \<Rightarrow> dbuf \<times> pool \<Rightarrow> dbuf \<times> pool" where
  "dbuf_delete mx n s =
     (let dyn = fst s; n' = min n (dlen dyn);
          (ds, len, p) = delete_loop mx n' (bufs dyn) (dlen dyn) (snd s)
      in (\<lparr>bufs = ds, dlen = (if ds = [] then 0 else len)\<rparr>, p))"

text \<open>\<open>dbuf_get\<close>: map and delete until enough bytes were moved or the queue is empty.\<close>

function dbuf_get :: "int \<Rightarrow> nat \<Rightarrow> dbuf \<times> pool \<Rightarrow> char list \<times> dbuf \<times> pool" where
  "dbuf_get mx n s =
     (if n = 0 then ([], s)
      else case dbuf_map (fst s) of
        None \<Rightarrow> ([], s)
      | Some b \<Rightarrow>
          (let chunk = min (length b) n in
           if chunk = 0 then ([], s)
           else let (r, s') = dbuf_get mx (n - chunk) (dbuf_delete mx chunk s) in (take chunk b @ r, s')))"
  by pat_completeness auto
termination
  by (relation "measure (\<lambda>(mx, n, s). n)") auto

declare dbuf_get.simps [simp del]

text \<open>
  In the code a chunk of length 0 would loop for ever; no buffer of a well-formed queue is empty.
  \<open>dbuf_flush\<close> drops line terminators from the front, buffer by buffer.
\<close>

function flush_loop :: "int \<Rightarrow> buffer list \<Rightarrow> nat \<Rightarrow> pool \<Rightarrow> buffer list \<times> nat \<times> pool" where
  "flush_loop mx [] len p = ([], 0, p)"
| "flush_loop mx (db # ds) len p =
     (if b_bytes db \<noteq> [] \<and> IsEol (hd (b_bytes db)) then
        (if tl (b_bytes db) = []
         then (if ds = [] then ([], 0, dbuf_free mx p) else flush_loop mx ds (len - 1) (dbuf_free mx p))
         else flush_loop mx (db\<lparr>b_start := b_start db + 1, b_bytes := tl (b_bytes db)\<rparr> # ds) (len - 1) p)
      else (db # ds, len, p))"
  by pat_completeness auto
termination
  by (relation "measures [\<lambda>(mx, ds, len, p). length ds, \<lambda>(mx, ds, len, p). length (b_bytes (hd ds))]") auto

definition dbuf_flush :: "int \<Rightarrow> dbuf \<times> pool \<Rightarrow> dbuf \<times> pool" where
  "dbuf_flush mx s =
     (if bufs (fst s) = [] then s
      else let (ds, len, p) = flush_loop mx (bufs (fst s)) (dlen (fst s)) (snd s)
           in (\<lparr>bufs = ds, dlen = len\<rparr>, p))"

fun getmsg_loop :: "buffer list \<Rightarrow> nat \<Rightarrow> char list \<Rightarrow> char list option" where
  "getmsg_loop [] len acc = None"
| "getmsg_loop (d # ds) len acc =
     (if len = 0 then None
      else
        let seg = take len (b_bytes d); pre = takeWhile (\<lambda>c. \<not> IsEol c) seg
        in if length pre < length seg then Some (acc @ pre)
           else if ds = [] then None
           else getmsg_loop ds (len - length pre) (acc @ pre))"

definition dbuf_getmsg :: "int \<Rightarrow> nat \<Rightarrow> dbuf \<times> pool \<Rightarrow> char list option \<times> dbuf \<times> pool" where
  "dbuf_getmsg mx n s =
     (let s1 = dbuf_flush mx s in
      if bufs (fst s) = [] \<or> dlen (fst s1) = 0 then (None, s1)
      else case getmsg_loop (bufs (fst s1)) (min n (dlen (fst s1))) [] of
        None \<Rightarrow> (None, s1)
      | Some m \<Rightarrow> (Some m, dbuf_flush mx (dbuf_delete mx (length m) s1)))"

subsection \<open>The contract of a byte queue\<close>

datatype queue_op = Put "char list" | Get nat

text \<open>The bytes a sequence of operations puts in.\<close>

fun put_bytes :: "queue_op list \<Rightarrow> char list" where
  "put_bytes [] = []"
| "put_bytes (Put b # ops) = b @ put_bytes ops"
| "put_bytes (Get n # ops) = put_bytes ops"

locale byte_queue =
  fixes ok :: "'s \<Rightarrow> bool"
    and content :: "'s \<Rightarrow> char list"
    and put :: "char list \<Rightarrow> 's \<Rightarrow> 's"
    and get :: "nat \<Rightarrow> 's \<Rightarrow> char list \<times> 's"
  assumes put_law: "ok s \<Longrightarrow> ok (put b s) \<and> content (put b s) = content s @ b"
    and get_law: "ok s \<Longrightarrow> ok (snd (get n s)) \<and> fst (get n s) = take n (content s) \<and>
      content (snd (get n s)) = drop n (content s)"
begin

fun run :: "queue_op list \<Rightarrow> 's \<Rightarrow> char list \<times> 's" where
  "run [] s = ([], s)"
| "run (Put b # ops) s = run ops (put b s)"
| "run (Get n # ops) s = (let (r, s') = get n s; (rs, t) = run ops s' in (r @ rs, t))"

text \<open>First in, first out: nothing is lost, duplicated or reordered.\<close>

lemma run_fifo: "ok s \<Longrightarrow> ok (snd (run ops s)) \<and> fst (run ops s) @ content (snd (run ops s)) = content s @ put_bytes ops"
proof (induction ops arbitrary: s rule: put_bytes.induct)
  case (2 b ops)
  then show ?case using put_law [of s b] by simp
next
  case (3 n ops)
  obtain r s' where g: "get n s = (r, s')" by fastforce
  then have "ok s'" "r = take n (content s)" "content s' = drop n (content s)" using get_law [of s n] 3 by auto
  with 3 g show ?case by (auto simp: split_beta)
qed simp

end

subsection \<open>The model is a byte queue\<close>

definition bytes_of :: "buffer list \<Rightarrow> char list" where
  "bytes_of ds = concat (map b_bytes ds)"

definition content :: "dbuf \<times> pool \<Rightarrow> char list" where
  "content s = bytes_of (bufs (fst s))"

definition good_buffers :: "buffer list \<Rightarrow> bool" where
  "good_buffers ds \<longleftrightarrow> (\<forall>d\<in>set ds. b_bytes d \<noteq> [] \<and> b_end d \<le> DBUF_SIZE)"

text \<open>
  No buffer is empty or overfull, \<open>length\<close> counts the bytes, and the pool counts its buffers:
  those in use are at least the ones of this queue, those in use or on the free list are the ones
  allocated.
\<close>

definition pool_ok :: "nat \<Rightarrow> pool \<Rightarrow> bool" where
  "pool_ok k p \<longleftrightarrow> int k \<le> DBufUsedCount p \<and> int (allocated p) = DBufUsedCount p + int (free_list p)"

definition queue_ok :: "dbuf \<times> pool \<Rightarrow> bool" where
  "queue_ok s \<longleftrightarrow> good_buffers (bufs (fst s)) \<and> dlen (fst s) = length (content s) \<and>
     pool_ok (length (bufs (fst s))) (snd s)"

lemma bytes_of_simps [simp]: "bytes_of [] = []" "bytes_of (d # ds) = b_bytes d @ bytes_of ds"
  "bytes_of (ds @ es) = bytes_of ds @ bytes_of es"
  by (simp_all add: bytes_of_def)

lemma good_buffers_simps [simp]: "good_buffers []"
  "good_buffers (d # ds) \<longleftrightarrow> b_bytes d \<noteq> [] \<and> b_end d \<le> DBUF_SIZE \<and> good_buffers ds"
  "good_buffers (ds @ es) \<longleftrightarrow> good_buffers ds \<and> good_buffers es"
  by (auto simp: good_buffers_def)

lemma bytes_of_Nil_iff: "good_buffers ds \<Longrightarrow> bytes_of ds = [] \<longleftrightarrow> ds = []"
  by (cases ds) auto

lemma pool_ok_alloc: "pool_ok k p \<Longrightarrow> pool_ok (Suc k) (dbuf_alloc p)"
  by (auto simp: pool_ok_def dbuf_alloc_def of_nat_diff)

lemma pool_ok_free: "pool_ok (Suc k) p \<Longrightarrow> pool_ok k (dbuf_free mx p)"
  by (auto simp: pool_ok_def dbuf_free_def of_nat_diff)

text \<open>The put loop starts at the last buffer or at the end of the chain.\<close>

lemma put_loop_spec:
  "put_loop ds bytes p = (ds', p') \<Longrightarrow> tl ds = [] \<Longrightarrow> good_buffers ds \<Longrightarrow> pool_ok (k + length ds) p \<Longrightarrow>
     good_buffers ds' \<and> bytes_of ds' = bytes_of ds @ bytes \<and> pool_ok (k + length ds') p'"
proof (induction ds bytes p arbitrary: ds' p' k rule: put_loop.induct)
  case (2 c cs p)
  let ?n = "min DBUF_SIZE (length (c # cs))"
  obtain es q where r: "put_loop [] (drop ?n (c # cs)) (dbuf_alloc p) = (es, q)" by fastforce
  then have IH: "good_buffers es" "bytes_of es = drop ?n (c # cs)" "pool_ok (Suc k + length es) q"
    using "2.IH" [OF refl r, of "Suc k"] "2.prems" by (simp_all add: pool_ok_alloc)
  have res: "ds' = \<lparr>b_start = 0, b_bytes = take ?n (c # cs)\<rparr> # es" "p' = q"
    using "2.prems"(1) r by (simp_all add: Let_def)
  moreover have "take ?n (c # cs) \<noteq> []" by (simp add: DBUF_SIZE_def)
  ultimately show ?case using IH by (simp add: b_end_def del: take_Suc_Cons)
next
  case (3 d ds c cs p)
  let ?n = "min (DBUF_SIZE - b_end d) (length (c # cs))" and ?bs = "c # cs"
  obtain es q where r: "put_loop ds (drop ?n ?bs) p = (es, q)" by fastforce
  have ds: "ds = []" using "3.prems" by simp
  then have IH: "good_buffers es" "bytes_of es = drop ?n ?bs" "pool_ok (Suc k + length es) q"
    using "3.IH" [OF refl r, of "Suc k"] "3.prems" by simp_all
  have res: "ds' = d\<lparr>b_bytes := b_bytes d @ take ?n ?bs\<rparr> # es" "p' = q"
    using "3.prems"(1) r by (simp_all add: Let_def)
  have "length (take ?n ?bs) \<le> DBUF_SIZE - b_end d" by (simp only: length_take min.cobounded1 min.coboundedI1)
  moreover have "b_end d \<le> DBUF_SIZE" using "3.prems"(3) by simp
  ultimately have "b_end d + length (take ?n ?bs) \<le> DBUF_SIZE" by linarith
  then show ?case using res IH ds "3.prems"(3) by (simp add: b_end_def del: take_Suc_Cons)
qed simp

lemma dbuf_put_spec:
  assumes "queue_ok s"
  shows "queue_ok (dbuf_put bytes s) \<and> content (dbuf_put bytes s) = content s @ bytes"
proof -
  obtain ds len p where s: "s = (\<lparr>bufs = ds, dlen = len\<rparr>, p)" by (metis dbuf.cases prod.exhaust)
  define pre where "pre = (if len = 0 then [] else butlast ds)"
  define at_h where "at_h = (if len = 0 then ds else [last ds])"
  have "len = 0 \<longleftrightarrow> ds = []" using assms bytes_of_Nil_iff [of ds] by (auto simp: queue_ok_def content_def s)
  then have ds: "ds = pre @ at_h" "tl at_h = []" by (auto simp: pre_def at_h_def)
  obtain es q where r: "put_loop at_h bytes p = (es, q)" by fastforce
  have "good_buffers at_h" "good_buffers pre" "pool_ok (length pre + length at_h) p"
    using assms ds(1) by (auto simp: queue_ok_def s)
  with put_loop_spec [OF r ds(2)] have
    "good_buffers es" "bytes_of es = bytes_of at_h @ bytes" "pool_ok (length pre + length es) q" by blast+
  moreover have "dbuf_put bytes s = (\<lparr>bufs = pre @ es, dlen = len + length bytes\<rparr>, q)"
    using r by (simp add: dbuf_put_def s Let_def pre_def at_h_def split: if_splits)
  ultimately show ?thesis
    using assms \<open>good_buffers pre\<close> by (simp add: queue_ok_def content_def s ds(1))
qed

lemma delete_loop_spec:
  "delete_loop mx n ds len p = (ds', len', p') \<Longrightarrow> good_buffers ds \<Longrightarrow> pool_ok (k + length ds) p \<Longrightarrow>
   len = length (bytes_of ds) \<Longrightarrow>
     good_buffers ds' \<and> bytes_of ds' = drop n (bytes_of ds) \<and> pool_ok (k + length ds') p' \<and>
     len' = length (bytes_of ds')"
proof (induction mx n ds len p arbitrary: ds' len' p' rule: delete_loop.induct)
  case (2 mx n db ds len p)
  let ?c = "min (length (b_bytes db)) n"
  let ?db = "db\<lparr>b_start := b_start db + ?c, b_bytes := drop ?c (b_bytes db)\<rparr>"
  show ?case
  proof (cases "n = 0")
    case False
    show ?thesis
    proof (cases "length (b_bytes db) \<le> n")
      case True
      then have c: "?c = length (b_bytes db)" by simp
      have r: "delete_loop mx (n - ?c) ds (len - ?c) (dbuf_free mx p) = (ds', len', p')"
        using "2.prems"(1) False c by (simp add: Let_def)
      have pk: "pool_ok (k + length ds) (dbuf_free mx p)"
        using "2.prems"(3) pool_ok_free by simp
      have "good_buffers ds' \<and> bytes_of ds' = drop (n - ?c) (bytes_of ds) \<and> pool_ok (k + length ds') p' \<and>
          len' = length (bytes_of ds')"
        by (rule "2.IH" [OF False refl refl _ r _ pk]) (use "2.prems" c in simp_all)
      then show ?thesis using c True by simp
    next
      case False': False
      then have "ds' = ?db # ds" "len' = len - ?c" "p' = p"
        using "2.prems"(1) False by (auto simp: Let_def)
      moreover have "?c = n" "drop n (b_bytes db) \<noteq> []" using False' by simp_all
      ultimately show ?thesis using "2.prems" False' by (simp add: b_end_def)
    qed
  qed (use 2 in auto)
qed simp

lemma dbuf_delete_spec:
  assumes "queue_ok s"
  shows "queue_ok (dbuf_delete mx n s) \<and> content (dbuf_delete mx n s) = drop n (content s)"
proof -
  obtain ds len p where s: "s = (\<lparr>bufs = ds, dlen = len\<rparr>, p)" by (metis dbuf.cases prod.exhaust)
  obtain es l q where r: "delete_loop mx (min n len) ds len p = (es, l, q)" by (metis prod_cases3)
  from assms have a: "good_buffers ds" "len = length (bytes_of ds)" "pool_ok (0 + length ds) p"
    by (auto simp: queue_ok_def content_def s)
  from delete_loop_spec [OF r a(1,3,2)] have
    "good_buffers es" "bytes_of es = drop (min n len) (bytes_of ds)" "pool_ok (length es) q" "l = length (bytes_of es)"
    by auto
  with a r show ?thesis by (auto simp: dbuf_delete_def s Let_def queue_ok_def content_def min_def)
qed

lemma dbuf_get_spec:
  "queue_ok s \<Longrightarrow> queue_ok (snd (dbuf_get mx n s)) \<and> fst (dbuf_get mx n s) = take n (content s) \<and>
     content (snd (dbuf_get mx n s)) = drop n (content s)"
proof (induction mx n s rule: dbuf_get.induct)
  case (1 mx n s)
  obtain ds len p where s: "s = (\<lparr>bufs = ds, dlen = len\<rparr>, p)" by (metis dbuf.cases prod.exhaust)
  show ?case
  proof (cases "n = 0 \<or> ds = []")
    case True
    then have "n = 0 \<or> content s = []" "dbuf_map (fst s) = None \<or> n = 0"
      using 1 by (auto simp: dbuf_map_def s queue_ok_def content_def)
    moreover from this have "dbuf_get mx n s = ([], s)" by (subst dbuf_get.simps) auto
    ultimately show ?thesis using 1 by auto
  next
    case False
    then obtain d ds' where ds: "ds = d # ds'" by (cases ds) auto
    have d: "b_bytes d \<noteq> []" "len \<noteq> 0" using 1 ds by (auto simp: queue_ok_def content_def s)
    let ?c = "min (length (b_bytes d)) n"
    have c: "?c \<noteq> 0" using d False by simp
    have m: "dbuf_map (fst s) = Some (b_bytes d)" using d ds by (simp add: dbuf_map_def s)
    note del = dbuf_delete_spec [OF "1.prems", of mx ?c]
    obtain r t where g: "dbuf_get mx (n - ?c) (dbuf_delete mx ?c s) = (r, t)" by (meson surj_pair)
    from "1.IH" [OF _ m refl c] False del g have
      IH: "queue_ok t" "r = take (n - ?c) (drop ?c (content s))" "content t = drop (n - ?c) (drop ?c (content s))"
      by auto
    have cont: "take ?c (b_bytes d) = take ?c (content s)" by (simp add: content_def s ds)
    have "dbuf_get mx n s = (take ?c (b_bytes d) @ r, t)"
      by (subst dbuf_get.simps) (use False m c g in \<open>simp only: if_False Let_def option.case split_beta fst_conv snd_conv de_Morgan_disj simp_thms\<close>)
    moreover have "take ?c (content s) @ r = take n (content s)"
      unfolding IH(2) by (metis le_add_diff_inverse min.cobounded2 take_add)
    ultimately show ?thesis using IH cont by (auto simp: drop_drop)
  qed
qed

text \<open>
  What the operations of one queue do to the counters: \<open>DBufUsedCount\<close> follows the number of buffers of the queue, so
  the difference, the buffers of all other queues, stays what it was; \<open>DBufCount\<close> never falls, and the blocks
  really allocated grow by no more than it does.
\<close>

definition other_used :: "dbuf \<times> pool \<Rightarrow> int" where
  "other_used s = DBufUsedCount (snd s) - int (length (bufs (fst s)))"

definition counters_from :: "pool \<Rightarrow> pool \<Rightarrow> bool" where
  "counters_from p q \<longleftrightarrow> DBufCount p \<le> DBufCount q \<and>
     int (allocated q) - int (allocated p) \<le> DBufCount q - DBufCount p"

definition queue_exact :: "int \<Rightarrow> pool \<Rightarrow> dbuf \<times> pool \<Rightarrow> bool" where
  "queue_exact others p s \<longleftrightarrow> queue_ok s \<and> other_used s = others \<and> counters_from p (snd s)"

lemma counters_refl: "counters_from p p"
  by (simp add: counters_from_def)

lemma counters_alloc: "counters_from p q \<Longrightarrow> counters_from p (dbuf_alloc q)"
  by (auto simp: counters_from_def dbuf_alloc_def)

lemma counters_free: "counters_from p q \<Longrightarrow> counters_from p (dbuf_free mx q)"
  by (auto simp: counters_from_def dbuf_free_def)

lemma used_alloc: "DBufUsedCount (dbuf_alloc p) = DBufUsedCount p + 1"
  and used_free: "DBufUsedCount (dbuf_free mx p) = DBufUsedCount p - 1"
  by (simp_all add: dbuf_alloc_def dbuf_free_def)

lemma put_loop_counters:
  "counters_from r p \<Longrightarrow> (case put_loop ds bytes p of (ds', p') \<Rightarrow>
     counters_from r p' \<and> DBufUsedCount p' - int (length ds') = DBufUsedCount p - int (length ds))"
proof (induction ds bytes p rule: put_loop.induct)
  case (2 c cs p)
  show ?case using "2.IH" [OF refl counters_alloc [OF "2.prems"]]
    by (simp add: Let_def used_alloc split_beta)
next
  case (3 d ds c cs p)
  show ?case using "3.IH" [OF refl "3.prems"] by (simp add: Let_def split_beta)
qed simp

lemma delete_loop_counters:
  "counters_from r p \<Longrightarrow> (case delete_loop mx n ds len p of (ds', len', p') \<Rightarrow>
     counters_from r p' \<and> DBufUsedCount p' - int (length ds') = DBufUsedCount p - int (length ds))"
proof (induction mx n ds len p rule: delete_loop.induct)
  case (2 mx n db ds len p)
  show ?case
  proof (cases "n \<noteq> 0 \<and> length (b_bytes db) \<le> n")
    case True
    then show ?thesis using "2.IH" [OF _ refl refl _ counters_free [OF "2.prems"]]
      by (simp add: Let_def used_free split_beta)
  qed (use 2 in \<open>auto simp: Let_def\<close>)
qed simp

lemma dbuf_put_exact: "queue_exact k c s \<Longrightarrow> queue_exact k c (dbuf_put bytes s)"
proof -
  assume a: "queue_exact k c s"
  obtain ds len p where s: "s = (\<lparr>bufs = ds, dlen = len\<rparr>, p)" by (metis dbuf.cases prod.exhaust)
  define pre where "pre = (if len = 0 then [] else butlast ds)"
  define at_h where "at_h = (if len = 0 then ds else [last ds])"
  have q: "queue_ok s" "counters_from c p" using a by (auto simp: queue_exact_def s)
  then have "len = 0 \<longleftrightarrow> ds = []" using bytes_of_Nil_iff [of ds] by (auto simp: queue_ok_def content_def s)
  then have ds: "ds = pre @ at_h" by (auto simp: pre_def at_h_def)
  obtain es q' where r: "put_loop at_h bytes p = (es, q')" by fastforce
  have "dbuf_put bytes s = (\<lparr>bufs = pre @ es, dlen = len + length bytes\<rparr>, q')"
    using r by (simp add: dbuf_put_def s Let_def pre_def at_h_def split: if_splits)
  moreover have "counters_from c q'" "DBufUsedCount q' - int (length es) = DBufUsedCount p - int (length at_h)"
    using put_loop_counters [OF q(2), of at_h bytes] r by auto
  ultimately show ?thesis
    using a dbuf_put_spec [OF q(1), of bytes] by (simp add: queue_exact_def other_used_def s ds)
qed

lemma dbuf_delete_exact: "queue_exact k c s \<Longrightarrow> queue_exact k c (dbuf_delete mx n s)"
proof -
  assume a: "queue_exact k c s"
  obtain ds len p where s: "s = (\<lparr>bufs = ds, dlen = len\<rparr>, p)" by (metis dbuf.cases prod.exhaust)
  have q: "queue_ok s" "counters_from c p" using a by (auto simp: queue_exact_def s)
  obtain es l q' where r: "delete_loop mx (min n len) ds len p = (es, l, q')" by (metis prod_cases3)
  then have "counters_from c q'" "DBufUsedCount q' - int (length es) = DBufUsedCount p - int (length ds)"
    using delete_loop_counters [OF q(2), where mx = mx and n = "min n len" and ds = ds and len = len] by auto
  with a r dbuf_delete_spec [OF q(1), of mx n] show ?thesis
    by (simp add: queue_exact_def other_used_def dbuf_delete_def s)
qed

lemma dbuf_get_exact: "queue_exact k r s \<Longrightarrow> queue_exact k r (snd (dbuf_get mx n s))"
proof (induction mx n s rule: dbuf_get.induct)
  case (1 mx n s)
  show ?case
    by (subst dbuf_get.simps)
      (use 1 dbuf_delete_exact [OF "1.prems"] in \<open>auto simp: Let_def split_beta split: option.split\<close>)
qed

interpretation dq: byte_queue "queue_exact k r" content dbuf_put "dbuf_get mx" for k r mx
  by unfold_locales
    (use dbuf_put_exact dbuf_get_exact dbuf_put_spec dbuf_get_spec in \<open>auto simp only: queue_exact_def\<close>)

subsection \<open>Whole lines\<close>

declare flush_loop.simps(2) [simp del]

lemma flush_loop_spec:
  "flush_loop mx ds len p = (ds', len', p') \<Longrightarrow> good_buffers ds \<Longrightarrow> pool_ok (length ds) p \<Longrightarrow>
   len = length (bytes_of ds) \<Longrightarrow>
     good_buffers ds' \<and> bytes_of ds' = dropWhile IsEol (bytes_of ds) \<and> pool_ok (length ds') p' \<and>
     len' = length (bytes_of ds')"
proof (induction mx ds len p arbitrary: ds' len' p' rule: flush_loop.induct)
  case (2 mx db ds len p)
  obtain c cs where b: "b_bytes db = c # cs" using "2.prems"(2) by (cases "b_bytes db") auto
  let ?db = "db\<lparr>b_start := b_start db + 1, b_bytes := cs\<rparr>"
  show ?case
  proof (cases "IsEol c")
    case True
    then have eol: "b_bytes db \<noteq> [] \<and> IsEol (hd (b_bytes db))" using b by simp
    show ?thesis
    proof (cases "cs = []")
      case nil: True
      then have t: "tl (b_bytes db) = []" using b by simp
      have pk: "pool_ok (length ds) (dbuf_free mx p)" using "2.prems"(3) pool_ok_free by simp
      show ?thesis
      proof (cases "ds = []")
        case True
        then show ?thesis using "2.prems" b nil eol pk by (auto simp: flush_loop.simps(2))
      next
        case False
        have r: "flush_loop mx ds (len - 1) (dbuf_free mx p) = (ds', len', p')"
          using "2.prems"(1) eol t False by (simp add: flush_loop.simps(2))
        show ?thesis using "2.IH"(1) [OF eol t False r _ pk] "2.prems" b nil eol by simp
      qed
    next
      case False
      then have t: "tl (b_bytes db) \<noteq> []" using b by simp
      have "flush_loop mx (?db # ds) (len - 1) p = (ds', len', p')"
        using trans [OF flush_loop.simps(2) [symmetric] "2.prems"(1)] eol t b by (simp only: if_True if_False list.sel simp_thms)
      then have r: "flush_loop mx (db\<lparr>b_start := b_start db + 1, b_bytes := tl (b_bytes db)\<rparr> # ds) (len - 1) p =
          (ds', len', p')" using b by simp
      have "good_buffers (?db # ds)" "len - 1 = length (bytes_of (?db # ds))"
        "bytes_of (db # ds) = c # bytes_of (?db # ds)" "pool_ok (length (?db # ds)) p"
        using "2.prems"(2-4) b False by (simp_all add: b_end_def)
      with "2.IH"(2) [OF eol t r] True b show ?thesis by simp
    qed
  next
    case False
    then show ?thesis using "2.prems" b by (auto simp: flush_loop.simps(2))
  qed
qed simp

lemma dbuf_flush_spec:
  assumes "queue_ok s"
  shows "queue_ok (dbuf_flush mx s) \<and> content (dbuf_flush mx s) = dropWhile IsEol (content s)"
proof -
  obtain ds len p where s: "s = (\<lparr>bufs = ds, dlen = len\<rparr>, p)" by (metis dbuf.cases prod.exhaust)
  obtain es l q where r: "flush_loop mx ds len p = (es, l, q)" by (metis prod_cases3)
  from assms have a: "good_buffers ds" "len = length (bytes_of ds)" "pool_ok (length ds) p"
    by (auto simp: queue_ok_def content_def s)
  from flush_loop_spec [OF r a(1,3,2)] r assms show ?thesis
    by (auto simp: dbuf_flush_def s Let_def queue_ok_def content_def)
qed

lemma takeWhile_length_less: "length (takeWhile P xs) < length xs \<longleftrightarrow> (\<exists>x\<in>set xs. \<not> P x)"
  by (induction xs) auto

lemma getmsg_loop_spec:
  "getmsg_loop ds len acc =
     (let seg = take len (bytes_of ds)
      in if \<exists>c\<in>set seg. IsEol c then Some (acc @ takeWhile (\<lambda>c. \<not> IsEol c) seg) else None)"
proof (induction ds len acc rule: getmsg_loop.induct)
  case (2 d ds len acc)
  let ?seg = "take len (b_bytes d)"
  show ?case
  proof (cases "len = 0 \<or> (\<exists>c\<in>set ?seg. IsEol c)")
    case True
    then show ?thesis by (auto simp: Let_def takeWhile_length_less takeWhile_append1)
  next
    case False
    then have *: "takeWhile (\<lambda>c. \<not> IsEol c) ?seg = ?seg"
      "takeWhile (\<lambda>c. \<not> IsEol c) (?seg @ ys) = ?seg @ takeWhile (\<lambda>c. \<not> IsEol c) ys" for ys
      by (auto intro: takeWhile_append2)
    have len: "len - length ?seg = len - length (b_bytes d)" by simp
    show ?thesis
    proof (cases "ds = []")
      case True
      then show ?thesis using False by (auto simp: Let_def takeWhile_length_less)
    next
      case ne: False
      have "getmsg_loop (d # ds) len acc = getmsg_loop ds (len - length (b_bytes d)) (acc @ ?seg)"
        using False ne by (simp only: getmsg_loop.simps Let_def * len if_False less_irrefl de_Morgan_disj simp_thms)
      moreover have "\<not> length (takeWhile (\<lambda>c. \<not> IsEol c) ?seg) < length ?seg"
        by (simp only: *(1) less_irrefl not_False_eq_True)
      with "2.IH" [OF _ refl refl _ ne] False have
        "getmsg_loop ds (len - length (b_bytes d)) (acc @ ?seg) =
          (let seg = take (len - length (b_bytes d)) (bytes_of ds)
           in if \<exists>c\<in>set seg. IsEol c then Some ((acc @ ?seg) @ takeWhile (\<lambda>c. \<not> IsEol c) seg) else None)"
        by (simp only: *(1) len de_Morgan_disj simp_thms)
      ultimately show ?thesis using False by (auto simp: Let_def *(2))
    qed
  qed
qed simp

text \<open>\<open>dbuf_getmsg\<close> on the content: the first line, when its terminator is within the limit.\<close>

lemma dbuf_getmsg_spec:
  assumes "queue_ok s"
  shows "queue_ok (snd (dbuf_getmsg mx n s)) \<and>
    (let c = dropWhile IsEol (content s); line = takeWhile (\<lambda>x. \<not> IsEol x) c
     in if \<exists>x\<in>set (take n c). IsEol x
        then fst (dbuf_getmsg mx n s) = Some line \<and>
          content (snd (dbuf_getmsg mx n s)) = dropWhile IsEol (drop (length line) c)
        else fst (dbuf_getmsg mx n s) = None \<and> content (snd (dbuf_getmsg mx n s)) = c)"
proof -
  let ?s = "dbuf_flush mx s" and ?c = "dropWhile IsEol (content s)"
  let ?line = "takeWhile (\<lambda>x. \<not> IsEol x) ?c"
  have f: "queue_ok ?s" "content ?s = ?c" using dbuf_flush_spec [OF assms] by blast+
  have len: "dlen (fst ?s) = length ?c" "bytes_of (bufs (fst ?s)) = ?c"
    using f by (auto simp: queue_ok_def content_def)
  have empty: "bufs (fst s) = [] \<Longrightarrow> ?c = []" by (simp add: content_def)
  show ?thesis
  proof (cases "\<exists>x\<in>set (take n ?c). IsEol x")
    case True
    then have tw: "takeWhile (\<lambda>x. \<not> IsEol x) (take n ?c) = ?line"
      by (metis append_take_drop_id takeWhile_append1)
    have "?c \<noteq> []" using True by (cases "?c") simp_all
    have b: "bufs (fst s) \<noteq> []" using empty \<open>?c \<noteq> []\<close> by blast
    have l: "dlen (fst ?s) \<noteq> 0" using len(1) \<open>?c \<noteq> []\<close> by (metis length_0_conv)
    have t: "take (min n (length ?c)) ?c = take n ?c" by (simp add: min_def)
    have msg: "getmsg_loop (bufs (fst ?s)) (min n (length ?c)) [] = Some ?line"
      using True by (simp only: getmsg_loop_spec len Let_def t tw if_True append_Nil)
    then have g: "dbuf_getmsg mx n s = (Some ?line, dbuf_flush mx (dbuf_delete mx (length ?line) ?s))"
      using b l msg [folded len(1)] unfolding dbuf_getmsg_def Let_def by simp
    show ?thesis
      using dbuf_delete_spec [OF f(1), of mx "length ?line"] dbuf_flush_spec [of "dbuf_delete mx (length ?line) ?s" mx]
      by (simp add: g True f(2) Let_def)
  next
    case False
    then have *: "getmsg_loop (bufs (fst ?s)) k [] = None" if "k \<le> n" for k
    proof -
      have "\<not> (\<exists>x\<in>set (take k ?c). IsEol x)" using set_take_subset_set_take [OF that, of ?c] False by blast
      then show ?thesis by (simp only: getmsg_loop_spec len Let_def if_False)
    qed
    have "dbuf_getmsg mx n s = (None, ?s)"
      by (simp only: dbuf_getmsg_def Let_def * [OF min.cobounded1] option.case if_cancel)
    with False f show ?thesis by (simp only: Let_def if_False fst_conv snd_conv)
  qed
qed

text \<open>\<open>k\<close> calls of \<open>dbuf_getmsg\<close>, each with a buffer of \<open>n\<close> bytes, as the reader of a connection makes them.\<close>

fun read_msgs :: "int \<Rightarrow> nat \<Rightarrow> nat \<Rightarrow> dbuf \<times> pool \<Rightarrow> char list option list \<times> dbuf \<times> pool" where
  "read_msgs mx n 0 s = ([], s)"
| "read_msgs mx n (Suc k) s =
     (let (m, s') = dbuf_getmsg mx n s; (ms, t) = read_msgs mx n k s' in (m # ms, t))"

lemma puts_spec:
  "queue_ok s \<Longrightarrow> queue_ok (foldl (\<lambda>s b. dbuf_put b s) s bs) \<and>
     content (foldl (\<lambda>s b. dbuf_put b s) s bs) = content s @ concat bs"
proof (induction bs arbitrary: s)
  case (Cons b bs)
  then show ?case using dbuf_put_spec [of s b] by simp
qed simp

definition line_ok :: "nat \<Rightarrow> char list \<times> char list \<Rightarrow> bool" where
  "line_ok n l \<longleftrightarrow> fst l \<noteq> [] \<and> length (fst l) < n \<and> list_all (\<lambda>c. \<not> IsEol c) (fst l) \<and>
     snd l \<noteq> [] \<and> list_all IsEol (snd l)"

lemma dropWhile_lines:
  "list_all (line_ok n) ls \<Longrightarrow> dropWhile IsEol (concat (map (\<lambda>l. fst l @ snd l) ls)) = concat (map (\<lambda>l. fst l @ snd l) ls)"
proof (cases ls)
  case (Cons l ls')
  moreover assume "list_all (line_ok n) ls"
  ultimately show ?thesis by (cases "fst l") (auto simp: line_ok_def)
qed simp

lemma read_msgs_lines:
  "queue_ok s \<Longrightarrow> list_all (line_ok n) ls \<Longrightarrow> content s = concat (map (\<lambda>l. fst l @ snd l) ls) \<Longrightarrow>
     fst (read_msgs mx n (length ls) s) = map (Some \<circ> fst) ls \<and> content (snd (read_msgs mx n (length ls) s)) = []"
proof (induction ls arbitrary: s)
  case (Cons l ls)
  let ?rest = "concat (map (\<lambda>l. fst l @ snd l) ls)"
  obtain line e where l: "l = (line, e)" by fastforce
  have lo: "line \<noteq> []" "length line < n" "list_all (\<lambda>c. \<not> IsEol c) line" "e \<noteq> []" "list_all IsEol e"
    using Cons.prems(2) by (auto simp: l line_ok_def)
  obtain c e' where e: "e = c # e'" "IsEol c" using lo(4,5) by (cases e) auto
  have c: "dropWhile IsEol (content s) = line @ e @ ?rest"
    using dropWhile_lines [OF Cons.prems(2)] Cons.prems(3) by (simp add: l)
  have tw: "takeWhile (\<lambda>x. \<not> IsEol x) (line @ e @ ?rest) = line"
    using lo(3) e by (subst takeWhile_append2) (auto simp: list_all_iff)
  have "c \<in> set (take n (line @ e @ ?rest))"
    using lo(2) e by (cases "n - length line") auto
  then have ex: "\<exists>x\<in>set (take n (line @ e @ ?rest)). IsEol x" using e(2) by blast
  obtain m s' where g: "dbuf_getmsg mx n s = (m, s')" by (meson surj_pair)
  have "dropWhile IsEol (e @ ?rest) = ?rest"
    using dropWhile_lines Cons.prems(2) lo(5) by (auto simp: dropWhile_append2 list_all_iff)
  with dbuf_getmsg_spec [OF Cons.prems(1), of mx n] have s': "queue_ok s'" "m = Some line" "content s' = ?rest"
    unfolding c tw Let_def g using ex by simp_all
  then show ?case using Cons.IH [OF s'(1) _ s'(3)] Cons.prems(2) by (simp add: g l split_beta)
qed simp

text \<open>
  C19. A connection queue is first in, first out: for every sequence of \<open>dbuf_put\<close> and
  \<open>dbuf_get\<close> calls starting from a well-formed queue, the bytes read followed by the bytes still queued
  are the bytes that were queued followed by the bytes written, and the queue stays well-formed: no empty or
  overfull buffer, \<open>length\<close> exact, every allocated buffer in use or on the free list. \<open>DBufUsedCount\<close> changes by exactly
  the number of buffers the queue gained or lost. \<open>DBufCount\<close> is only an upper account: it never falls, although
  \<open>dbuf_free\<close> gives blocks back, and it grows by at least what the allocated blocks grow.
\<close>

theorem dbuf_fifo:
  assumes "queue_ok s" and "snd (dq.run mx ops s) = t"
  shows "queue_ok t \<and> fst (dq.run mx ops s) @ content t = content s @ put_bytes ops \<and>
    DBufUsedCount (snd t) - DBufUsedCount (snd s) = int (length (bufs (fst t))) - int (length (bufs (fst s))) \<and>
    DBufCount (snd s) \<le> DBufCount (snd t) \<and>
    int (allocated (snd t)) - int (allocated (snd s)) \<le> DBufCount (snd t) - DBufCount (snd s)"
proof -
  have "queue_exact (other_used s) (snd s) s" using assms(1) by (simp add: queue_exact_def counters_refl)
  from dq.run_fifo [OF this, of mx ops] show ?thesis
    unfolding assms(2) queue_exact_def counters_from_def other_used_def by linarith
qed

theorem dbuf_fifo_witness:
  "let r = dq.run 8 [Put ''abc'', Get 2, Put ''d'', Get 9] (dbuf_empty, dbuf_init 2)
   in queue_ok (snd r) \<and> fst r @ content (snd r) = ''abcd'' \<and>
     DBufUsedCount (snd (snd r)) = int (length (bufs (fst (snd r)))) \<and>
     int (allocated (snd (snd r))) \<le> DBufCount (snd (snd r)) + 1"
proof -
  have "queue_ok (dbuf_empty, dbuf_init 2)" "content (dbuf_empty, dbuf_init 2) = []"
    by (simp_all add: queue_ok_def content_def dbuf_empty_def pool_ok_def dbuf_init_def)
  from dbuf_fifo [OF this(1) refl, of 8 "[Put ''abc'', Get 2, Put ''d'', Get 9]"] this(2) show ?thesis
    by (auto simp: Let_def dbuf_init_def dbuf_empty_def)
qed

text \<open>
  \<open>dbuf_getmsg\<close> drops leading line terminators; if a terminator then occurs within
  the first \<open>n\<close> bytes it returns the bytes before it and drops the line with all the terminators after it, so
  that the next byte queued starts a line; otherwise it returns nothing and keeps the rest of the queue. It never
  yields an empty line, whatever buffers the line is spread over.
\<close>

theorem dbuf_getmsg_line:
  assumes "queue_ok s" and "c = dropWhile IsEol (content s)" and "line = takeWhile (\<lambda>x. \<not> IsEol x) c"
  shows "queue_ok (snd (dbuf_getmsg mx n s)) \<and>
    (if \<exists>x\<in>set (take n c). IsEol x
     then line \<noteq> [] \<and> length line < n \<and> fst (dbuf_getmsg mx n s) = Some line \<and>
       content (snd (dbuf_getmsg mx n s)) = dropWhile IsEol (drop (length line) c)
     else fst (dbuf_getmsg mx n s) = None \<and> content (snd (dbuf_getmsg mx n s)) = c)"
proof -
  have "line \<noteq> [] \<and> length line < n" if "\<exists>x\<in>set (take n c). IsEol x"
  proof
    have "c \<noteq> []" using that by (cases c) simp_all
    then obtain y ys where y: "c = y # ys" "\<not> IsEol y"
      using assms(2) by (metis dropWhile_eq_Cons_conv neq_Nil_conv)
    then show "line \<noteq> []" by (simp add: assms(3))
    have "line = takeWhile (\<lambda>x. \<not> IsEol x) (take n c)"
      using that unfolding assms(3) by (metis append_take_drop_id takeWhile_append1)
    moreover have "length (takeWhile (\<lambda>x. \<not> IsEol x) (take n c)) < length (take n c)"
      using that by (simp only: takeWhile_length_less not_not)
    ultimately show "length line < n" by simp
  qed
  with dbuf_getmsg_spec [OF assms(1), of mx n, folded assms(2), unfolded Let_def, folded assms(3)] show ?thesis
    by (simp only: simp_thms if_True if_False split: if_split_asm)
qed

theorem dbuf_getmsg_line_witness:
  "let s = dbuf_put ''hi, there'' (dbuf_put [CHR 0x0D, CHR 0x0A] (dbuf_empty, dbuf_init 2)) in
   fst (dbuf_getmsg 8 512 s) = None \<and> content (snd (dbuf_getmsg 8 512 s)) = ''hi, there''"
proof -
  have e: "queue_ok (dbuf_empty, dbuf_init 2)" "content (dbuf_empty, dbuf_init 2) = []"
    by (simp_all add: queue_ok_def content_def dbuf_empty_def pool_ok_def dbuf_init_def)
  let ?s = "dbuf_put ''hi, there'' (dbuf_put [CHR 0x0D, CHR 0x0A] (dbuf_empty, dbuf_init 2))"
  have s: "queue_ok ?s" "content ?s = CHR 0x0D # CHR 0x0A # ''hi, there''"
    using dbuf_put_spec e by auto
  have "dropWhile IsEol (content ?s) = ''hi, there''" unfolding s(2) by code_simp
  moreover have "\<not> (\<exists>x\<in>set (take 512 ''hi, there''). IsEol x)" by code_simp
  ultimately show ?thesis using dbuf_getmsg_line [OF s(1) refl refl, of 8 512] by (simp only: Let_def if_False)
qed

text \<open>
  However the input is cut into chunks, lines shorter than the reader's buffer come
  out whole, one per call and in order, and nothing is left over.
\<close>

theorem dbuf_line_framing:
  assumes "queue_ok s" and "content s = []" and "list_all (line_ok n) ls"
    and "concat chunks = concat (map (\<lambda>l. fst l @ snd l) ls)"
  shows "let (ms, t) = read_msgs mx n (length ls) (foldl (\<lambda>s b. dbuf_put b s) s chunks)
    in ms = map (Some \<circ> fst) ls \<and> content t = []"
proof -
  let ?s = "foldl (\<lambda>s b. dbuf_put b s) s chunks"
  have "queue_ok ?s" "content ?s = concat (map (\<lambda>l. fst l @ snd l) ls)"
    using puts_spec [OF assms(1), of chunks] assms(2,4) by simp_all
  from read_msgs_lines [OF this(1) assms(3) this(2), of mx] show ?thesis unfolding split_beta Let_def .
qed

theorem dbuf_line_framing_witness:
  "let (ms, t) = read_msgs 8 512 2 (foldl (\<lambda>s b. dbuf_put b s) (dbuf_empty, dbuf_init 2)
      [''PI'', ''NG'' @ [CHR 0x0D], CHR 0x0A # ''QU'', ''IT'' @ [CHR 0x0A]])
   in ms = [Some ''PING'', Some ''QUIT''] \<and> content t = []"
proof -
  let ?ls = "[(''PING'', [CHR 0x0D, CHR 0x0A]), (''QUIT'', [CHR 0x0A])]"
  have e: "queue_ok (dbuf_empty, dbuf_init 2)" "content (dbuf_empty, dbuf_init 2) = []"
    by (simp_all add: queue_ok_def content_def dbuf_empty_def pool_ok_def dbuf_init_def)
  have "list_all (line_ok 512) ?ls" by code_simp
  from dbuf_line_framing [OF e this, of "[''PI'', ''NG'' @ [CHR 0x0D], CHR 0x0A # ''QU'', ''IT'' @ [CHR 0x0A]]" 8]
  show ?thesis by (simp add: numeral_2_eq_2)
qed

end
