(* ===== verification/CmdTree.thy ===== *)
theory CmdTree
  imports CLib IrcMatch "HOL-Library.Sublist"
begin

text \<open>
  The command table of \<open>include/msg.h\<close> and the prefix tree \<open>src/parse.c\<close> makes of it:
  \<open>init_tree_parse\<close> sorts the table and builds the tree, \<open>tree_parse\<close> looks a command word up.
  A pointer into the table is the index of the entry; the table from \<open>mptr\<close> on is the list of the
  indexed names.
\<close>

subsection \<open>The command table\<close>

record message =
  m_cmd :: cstr
  m_func :: cstr
  m_count :: "32 word"
  m_parameters :: nat
  m_flags :: "8 word"
  allow_unregistered_use :: bool
  reset_idle :: bool
  m_bytes :: "64 word"

definition MAXPARA :: nat where "MAXPARA = 15"

definition msg :: "cstr \<Rightarrow> cstr \<Rightarrow> nat \<Rightarrow> bool \<Rightarrow> bool \<Rightarrow> message" where
  "msg c f p u r = \<lparr>m_cmd = c, m_func = f, m_count = 0, m_parameters = p, m_flags = 1,
     allow_unregistered_use = u, reset_idle = r, m_bytes = 0\<rparr>"

text \<open>A row with \<open>MAXPARA\<close> parameters, for registered users only, that does not reset the idle time.\<close>

abbreviation cmd15 :: "cstr \<Rightarrow> cstr \<Rightarrow> message" where
  "cmd15 c f \<equiv> msg c f 15 False False"

text \<open>
  \<open>msgtab\<close> as \<open>config.h\<close> configures it: \<open>IDLE_FROM_MSG\<close>, \<open>POST_REGISTER\<close> and \<open>LWALLOPS\<close> set,
  \<open>IDLE_CHECK\<close>, \<open>USE_KNOCK\<close> and \<open>LTRACE\<close> not.
\<close>

definition msgtab_user :: "message list" where
  "msgtab_user =
    [msg ''PRIVMSG'' ''m_private'' 15 False True, msg ''NICK'' ''m_nick'' 15 True False,
     msg ''SNICK'' ''m_nick'' 15 True False, msg ''NNICK'' ''m_nnick'' 15 True False,
     cmd15 ''NOTICE'' ''m_notice'', cmd15 ''JOIN'' ''m_join'', cmd15 ''MODE'' ''m_mode'',
     cmd15 ''SAMODE'' ''m_samode'', msg ''QUIT'' ''m_quit'' 15 True False, cmd15 ''PART'' ''m_part'',
     cmd15 ''TOPIC'' ''m_topic'', cmd15 ''INVITE'' ''m_invite'', cmd15 ''KICK'' ''m_kick'',
     cmd15 ''WALLOPS'' ''m_wallops'', msg ''POST'' ''m_post'' 15 True False,
     msg ''GLOBOPS'' ''m_globops'' 1 False False, msg ''LOCOPS'' ''m_locops'' 1 False False,
     msg ''LWALLOPS'' ''m_locops'' 1 False False, cmd15 ''PONG'' ''m_pong'', cmd15 ''PING'' ''m_ping'',
     cmd15 ''UNDLINE'' ''m_undline'', msg ''ERROR'' ''m_error'' 15 True False, cmd15 ''KILL'' ''m_kill'',
     cmd15 ''FLOODEX'' ''m_floodex'', msg ''USER'' ''m_user'' 15 True False, cmd15 ''AWAY'' ''m_away'',
     msg ''ISON'' ''m_ison'' 1 False False, msg ''SERVER'' ''m_server'' 15 True False,
     cmd15 ''SQUIT'' ''m_squit'', cmd15 ''WHOIS'' ''m_whois'', cmd15 ''WHO'' ''m_who'',
     cmd15 ''WHOWAS'' ''m_whowas'', cmd15 ''LIST'' ''m_list'', cmd15 ''NAMES'' ''m_names'',
     msg ''USERHOST'' ''m_userhost'' 1 False False]"

definition msgtab_services :: "message list" where
  "msgtab_services =
    [cmd15 ''TRACE'' ''m_trace'', msg ''PASS'' ''m_pass'' 15 True False, cmd15 ''LUSERS'' ''m_lusers'',
     cmd15 ''TIME'' ''m_time'', cmd15 ''OPER'' ''m_oper'', cmd15 ''CONNECT'' ''m_connect'',
     cmd15 ''VERSION'' ''m_version'', cmd15 ''STATS'' ''m_stats'', cmd15 ''LINKS'' ''m_links'',
     msg ''ADMIN'' ''m_admin'' 15 True False, cmd15 ''USERS'' ''m_users'', cmd15 ''HELP'' ''m_helpsys'',
     cmd15 ''HELPSYS'' ''m_helpsys'', cmd15 ''INFO'' ''m_info'', cmd15 ''MOTD'' ''m_motd'',
     msg ''SVINFO'' ''m_svinfo'' 15 True False, cmd15 ''SJOIN'' ''m_sjoin'', cmd15 ''NJOIN'' ''m_njoin'',
     msg ''CAPAB'' ''m_capab'' 15 True False, cmd15 ''CLOSE'' ''m_close'', cmd15 ''KLINE'' ''m_kline'',
     cmd15 ''UNKLINE'' ''m_unkline'', cmd15 ''DLINE'' ''m_dline'', cmd15 ''GLINE'' ''m_gline'',
     cmd15 ''UNGLINE'' ''m_ungline'', cmd15 ''SXLINE'' ''m_sxline'', cmd15 ''UNSXLINE'' ''m_unsxline'',
     cmd15 ''SVLINE'' ''m_svline'', cmd15 ''UNSVLINE'' ''m_unsvline'', cmd15 ''ZLINE'' ''m_zline'',
     cmd15 ''UNZLINE'' ''m_unzline'', cmd15 ''SQLINE'' ''m_sqline'', cmd15 ''UNSQLINE'' ''m_unsqline'',
     cmd15 ''SILENCE'' ''m_silence'', msg ''WATCH'' ''m_watch'' 1 False False, cmd15 ''REHASH'' ''m_rehash'',
     cmd15 ''RESTART'' ''m_restart'', cmd15 ''DIE'' ''m_die'', cmd15 ''HTM'' ''m_htm'',
     cmd15 ''SET'' ''m_set'', cmd15 ''SVSINFO'' ''m_svsinfo'', cmd15 ''SVSJOIN'' ''m_svsjoin'',
     cmd15 ''SVSPART'' ''m_svspart'', cmd15 ''SVSMODE'' ''m_svsmode'', cmd15 ''SVSNICK'' ''m_svsnick'',
     cmd15 ''SVSGUEST'' ''m_svsguest'', msg ''NICKSERV'' ''m_nickserv'' 1 False False,
     msg ''NS'' ''m_nickserv'' 1 False False, msg ''CHANSERV'' ''m_chanserv'' 1 False False,
     msg ''CS'' ''m_chanserv'' 1 False False, msg ''MEMOSERV'' ''m_memoserv'' 1 False False,
     msg ''MS'' ''m_memoserv'' 1 False False, msg ''NEWSSERV'' ''m_newsserv'' 1 False False,
     msg ''NWS'' ''m_newsserv'' 1 False False, msg ''OPERSERV'' ''m_operserv'' 1 False False,
     msg ''OS'' ''m_operserv'' 1 False False, msg ''HELPSERV'' ''m_helpserv'' 1 False False,
     msg ''HS'' ''m_helpserv'' 1 False False, msg ''STATSERV'' ''m_statserv'' 1 False False,
     msg ''BOTSERV'' ''m_botserv'' 1 False False, msg ''BS'' ''m_botserv'' 1 False False,
     msg ''IDENTIFY'' ''m_identify'' 1 False False, msg ''DCONF'' ''m_dconf'' 4 False False,
     cmd15 ''SANOTICE'' ''m_sanotice'', cmd15 ''NEWMASK'' ''m_newmask'', cmd15 ''MAP'' ''m_map'',
     cmd15 ''IRCOPS'' ''m_ircops'', cmd15 ''NEWS'' ''m_news'', cmd15 ''ZOMBIE'' ''m_zombie'',
     cmd15 ''UNZOMBIE'' ''m_unzombie'', cmd15 ''DCCDENY'' ''m_dccdeny'', cmd15 ''DCCALLOW'' ''m_dccallow'',
     cmd15 ''SVSADMIN'' ''m_svsadmin'', cmd15 ''CMSG'' ''m_cmsg'', cmd15 ''CPRIVMSG'' ''m_cmsg'',
     cmd15 ''CNOTICE'' ''m_cnotice'', cmd15 ''REDIRECT'' ''m_redirect'',
     msg ''LNOTICE'' ''m_lnotice'' 1 False False, msg ''RNOTICE'' ''m_rnotice'' 3 False False,
     cmd15 ''CODEPAGE'' ''m_codepage'', cmd15 ''VLINK'' ''m_vlink'', cmd15 ''LOST'' ''m_lost'',
     cmd15 ''IMODE'' ''m_imode'', cmd15 ''BOTS'' ''m_bots'', cmd15 ''ZOMBIES'' ''m_zombies'',
     cmd15 ''DCCDENYS'' ''m_dccdenys'', cmd15 ''HELPERS'' ''m_helpers'', cmd15 ''SETNAME'' ''m_setname'',
     cmd15 ''CHGHOST'' ''m_chghost'', msg ''LOGIN'' ''m_login'' 15 True False, cmd15 ''HVC'' ''m_hvc'']"

definition msgtab :: "message list" where
  "msgtab = msgtab_user @ msgtab_services"

subsection \<open>Sorting\<close>

text \<open>\<open>qsort\<close> orders the table by \<open>mcmp\<close>, which is \<open>strcmp\<close>.\<close>

fun insert_msg :: "message \<Rightarrow> message list \<Rightarrow> message list" where
  "insert_msg m [] = [m]"
| "insert_msg m (x # xs) = (if strcmp_less (m_cmd x) (m_cmd m) then x # insert_msg m xs else m # x # xs)"

definition qsort_msgs :: "message list \<Rightarrow> message list" where
  "qsort_msgs ms = foldr insert_msg ms []"

subsection \<open>The tree\<close>

text \<open>\<open>final\<close>: null, the pointer 1 (\<open>Whole\<close>), or the rest of the name; with the \<open>msg\<close> set along with it.\<close>

datatype final = Null | Whole nat | Rest cstr nat

datatype mtree = MTree (final_of: final) (pointers: "char \<Rightarrow> mtree option")

type_synonym entries = "(nat \<times> cstr) list"

definition letters :: "char list" where
  "letters = map chr [65..<91]"

text \<open>
  \<open>do_msg_tree\<close> returns the tree and the entries from the returned \<open>mptr\<close> on; \<open>letter_loop\<close> is its loop
  over the letters. The fuel is the room left in \<open>newpref[64]\<close> below a prefix: a prefix of length \<open>n\<close> is
  built with fuel \<open>64 - n\<close>, and \<open>None\<close> stands for the \<open>exit\<close>, for a read through the null \<open>cmd\<close> of the
  sentinel and for a prefix that does not fit \<open>newpref\<close>.
\<close>

function (sequential) do_msg_tree :: "nat \<Rightarrow> cstr \<Rightarrow> entries \<Rightarrow> (mtree \<times> entries) option"
and letter_loop :: "nat \<Rightarrow> cstr \<Rightarrow> char list \<Rightarrow> entries \<Rightarrow> (char \<Rightarrow> mtree option) \<Rightarrow>
  ((char \<Rightarrow> mtree option) \<times> entries) option" where
  "do_msg_tree 0 pre ms = None"
| "do_msg_tree (Suc k) pre [] = None"
| "do_msg_tree (Suc k) pre ((i, cmd) # rest) =
     (let lp = length pre in
      if lp = 0 \<or> strncmp_eq cmd pre lp then
        (if rest = [] \<or> lp \<noteq> 0 \<and> \<not> strncmp_eq (snd (hd rest)) pre lp
         then Some (MTree (Rest (drop lp cmd) i) (\<lambda>_. None), rest)
         else
           let exact = irc_eq cmd pre in
           case letter_loop k pre letters (if exact then rest else (i, cmd) # rest) (\<lambda>_. None) of
             None \<Rightarrow> None
           | Some (ptrs, ms') \<Rightarrow> Some (MTree (if exact then Whole i else Null) ptrs, ms'))
      else None)"
| "letter_loop k pre [] ms f = Some (f, ms)"
| "letter_loop k pre (c # cs) [] f = None"
| "letter_loop k pre (c # cs) ((i, cmd) # rest) f =
     (if at cmd (length pre) = c then
        (case do_msg_tree k (pre @ [c]) ((i, cmd) # rest) of
           None \<Rightarrow> None
         | Some (t, ms') \<Rightarrow>
             if ms' = [] \<or> \<not> strncmp_eq (snd (hd ms')) pre (length pre) then Some (f(c := Some t), ms')
             else letter_loop k pre cs ms' (f(c := Some t)))
      else letter_loop k pre cs ((i, cmd) # rest) f)"
  by pat_completeness auto
termination
  by (relation "measures
      [\<lambda>x. case x of Inl (k, pre, ms) \<Rightarrow> k | Inr (k, pre, cs, ms, f) \<Rightarrow> k,
       \<lambda>x. case x of Inl (k, pre, ms) \<Rightarrow> 0 | Inr (k, pre, cs, ms, f) \<Rightarrow> length cs]") auto

definition entries_of :: "message list \<Rightarrow> entries" where
  "entries_of tab = enumerate 0 (map m_cmd tab)"

text \<open>The sorted table and the tree; a rest that is not empty makes the server exit.\<close>

definition init_tree_parse :: "message list \<Rightarrow> (message list \<times> mtree) option" where
  "init_tree_parse tab =
     (let sorted_tab = qsort_msgs tab in
      case do_msg_tree 64 [] (entries_of sorted_tab) of
        Some (t, []) \<Rightarrow> Some (sorted_tab, t)
      | _ \<Rightarrow> None)"

text \<open>\<open>r &= 0xdf\<close>, on a signed \<open>char\<close>: bytes from 128 on are below \<open>'A'\<close>.\<close>

definition up :: "char \<Rightarrow> char" where
  "up c = chr (byte c AND 0xDF)"

definition is_capital :: "char \<Rightarrow> bool" where
  "is_capital c \<longleftrightarrow> 65 \<le> byte c \<and> byte c \<le> 90"

fun tree_parse :: "mtree \<Rightarrow> cstr \<Rightarrow> nat option" where
  "tree_parse t [] = None"
| "tree_parse t (c # w) =
     (if \<not> is_capital (up c) then None
      else case pointers t (up c) of
        None \<Rightarrow> None
      | Some t' \<Rightarrow>
          (case final_of t' of
             Whole i \<Rightarrow> if w = [] then Some i else tree_parse t' w
           | Rest s i \<Rightarrow> if irc_eq s w then Some i else tree_parse t' w
           | Null \<Rightarrow> tree_parse t' w))"

subsection \<open>Names and their order\<close>

lemma up_Char [code]: "up (Char b0 b1 b2 b3 b4 b5 b6 b7) = Char b0 b1 b2 b3 b4 False b6 b7"
  by (rule of_char_eqI [where ?'a = nat], simp add: up_def)
    (cases b0; cases b1; cases b2; cases b3; cases b4; cases b5; cases b6; cases b7; (simp; code_simp)?)

lemma byte_up_capital: "is_capital (up c) \<Longrightarrow> byte c = byte (up c) \<or> byte c = byte (up c) + 32"
proof (cases c)
  case (Char b0 b1 b2 b3 b4 b5 b6 b7)
  moreover assume "is_capital (up c)"
  ultimately show ?thesis by (cases b5) (simp_all add: up_Char is_capital_def)
qed

lemma up_capital: "is_capital d \<Longrightarrow> ToLower d = ToLower c \<longleftrightarrow> up c = d"
proof
  note * = byte_up_capital [of c]
  assume d: "is_capital d"
  show "ToLower d = ToLower c" if "up c = d"
  proof -
    have "byte (ToLower d) = byte (ToLower c)"
      using * d unfolding that byte_ToLower is_capital_def by auto
    then show ?thesis by simp
  qed
  have "list_all (\<lambda>n. up (chr n) = chr n \<and> up (chr (n + 32)) = chr n) [65..<91]" by code_simp
  moreover have "byte d \<in> set [65..<91]"
    using d unfolding is_capital_def set_upt atLeastLessThan_iff by linarith
  ultimately have **: "up (chr (byte d)) = chr (byte d)" "up (chr (byte d + 32)) = chr (byte d)"
    by (metis (mono_tags, lifting) list_all_iff)+
  assume "ToLower d = ToLower c"
  then have "byte (ToLower d) = byte (ToLower c)" by simp
  then have "byte c = byte d \<or> byte c = byte d + 32"
    using d unfolding byte_ToLower is_capital_def by (auto split: if_splits)
  then have "up (chr (byte c)) = chr (byte d)" using ** by (elim disjE) (simp_all only:)
  then show "up c = d" by simp
qed

lemma NUL_not_capital [simp]: "\<not> is_capital NUL"
  by (simp add: is_capital_def)

definition capital_name :: "cstr \<Rightarrow> bool" where
  "capital_name s \<longleftrightarrow> s \<noteq> [] \<and> length s < 64 \<and> list_all is_capital s"

lemma capitals_no_NUL: "list_all is_capital s \<Longrightarrow> NUL \<notin> set s"
  by (auto simp: list_all_iff)

lemma irc_eq_Nil: "NUL \<notin> set s \<Longrightarrow> irc_eq s [] \<longleftrightarrow> s = []"
  by (simp add: irc_eq_iff irc_upper_def)

lemma irc_eq_Cons:
  "is_capital d \<Longrightarrow> NUL \<notin> set s \<Longrightarrow> NUL \<notin> set (c # w) \<Longrightarrow>
   irc_eq (d # s) (c # w) \<longleftrightarrow> up c = d \<and> irc_eq s w"
  using up_capital [of d c]
  by (auto simp: irc_eq_iff irc_upper_def ToLower_eq_iff_ToUpper_eq cut_Cons is_capital_def)

lemma irc_eq_capitals: "list_all is_capital s \<Longrightarrow> list_all is_capital t \<Longrightarrow> irc_eq s t \<longleftrightarrow> s = t"
proof (induction s arbitrary: t)
  case Nil
  then show ?case using irc_eq_Nil [of t] capitals_no_NUL [of t] irc_eq_sym by blast
next
  case (Cons d s)
  have up: "up c = c" if "is_capital c" for c using up_capital [OF that, of c] by simp
  note capitals_no_NUL [simp]
  show ?case
  proof (cases t)
    case Nil
    then show ?thesis using irc_eq_Nil [of "d # s"] capitals_no_NUL [of "d # s"] Cons.prems by auto
  next
    case (Cons c w)
    with Cons.prems have c: "is_capital d" "is_capital c" "NUL \<notin> set s" "NUL \<notin> set (c # w)" "up c = c"
      and l: "list_all is_capital s" "list_all is_capital w"
      using up capitals_no_NUL [of s] capitals_no_NUL [of "c # w"] by auto
    show ?thesis unfolding Cons irc_eq_Cons [OF c(1,3,4)] Cons.IH [OF l] c(5) by auto
  qed
qed

lemma strcmp_less_drop:
  "strncmp_eq s p (length p) \<Longrightarrow> strncmp_eq t p (length p) \<Longrightarrow>
   strcmp_less s t \<longleftrightarrow> strcmp_less (drop (length p) s) (drop (length p) t)"
proof (induction p arbitrary: s t)
  case (Cons a p)
  then obtain s' t' where "s = a # s'" "t = a # t'" by (cases s; cases t) (auto simp: strncmp_eq_def)
  with Cons show ?case by (simp add: strncmp_eq_def)
qed simp

definition sorted_msgs :: "message list \<Rightarrow> bool" where
  "sorted_msgs ms \<longleftrightarrow> sorted_wrt (\<lambda>a b. strcmp_less (m_cmd a) (m_cmd b)) ms"

lemma set_insert_msg: "set (insert_msg m xs) = insert m (set xs)"
  by (induction xs) auto

lemma insert_msg_sorted:
  "sorted_msgs xs \<Longrightarrow> m_cmd m \<notin> m_cmd ` set xs \<Longrightarrow> sorted_msgs (insert_msg m xs)"
proof (induction xs)
  case (Cons x xs)
  then show ?case
    using strcmp_less_total [of "m_cmd m" "m_cmd x"] strcmp_less_trans
    by (auto simp: sorted_msgs_def set_insert_msg)
qed (simp add: sorted_msgs_def)

lemma qsort_msgs_sorted:
  "distinct (map m_cmd ms) \<Longrightarrow> sorted_msgs (qsort_msgs ms) \<and> set (qsort_msgs ms) = set ms \<and>
     length (qsort_msgs ms) = length ms"
proof (induction ms)
  case (Cons m ms)
  have "length (insert_msg m xs) = Suc (length xs)" for xs by (induction xs) auto
  with Cons show ?case by (auto simp: qsort_msgs_def insert_msg_sorted set_insert_msg)
qed (simp add: qsort_msgs_def sorted_msgs_def)

subsection \<open>The tree finds the commands\<close>

text \<open>The part of the look-up at a node once its letter is consumed.\<close>

definition at_node :: "mtree \<Rightarrow> cstr \<Rightarrow> nat option" where
  "at_node t w =
     (case final_of t of
        Whole i \<Rightarrow> if w = [] then Some i else tree_parse t w
      | Rest s i \<Rightarrow> if irc_eq s w then Some i else tree_parse t w
      | Null \<Rightarrow> tree_parse t w)"

lemma tree_parse_Cons:
  "tree_parse t (c # w) =
     (if is_capital (up c) then (case pointers t (up c) of None \<Rightarrow> None | Some t' \<Rightarrow> at_node t' w) else None)"
  by (simp add: at_node_def split: option.split)

declare tree_parse.simps(2) [simp del]

lemma tree_parse_leaf [simp]: "tree_parse (MTree f (\<lambda>_. None)) w = None"
  by (cases w) (simp_all add: tree_parse_Cons)

definition find_entry :: "nat \<Rightarrow> entries \<Rightarrow> cstr \<Rightarrow> nat option" where
  "find_entry lp g w = map_option fst (List.find (\<lambda>e. irc_eq (drop lp (snd e)) w) g)"

definition has_prefix :: "cstr \<Rightarrow> nat \<times> cstr \<Rightarrow> bool" where
  "has_prefix pre e \<longleftrightarrow> strncmp_eq (snd e) pre (length pre)"

text \<open>
  A group: the entries with the prefix \<open>pre\<close>, in order, their names capital and short enough for the
  fuel \<open>k\<close>.
\<close>

definition group :: "nat \<Rightarrow> cstr \<Rightarrow> entries \<Rightarrow> bool" where
  "group k pre g \<longleftrightarrow> sorted_wrt (\<lambda>a b. strcmp_less (snd a) (snd b)) g \<and>
     list_all (\<lambda>e. has_prefix pre e \<and> list_all is_capital (snd e) \<and> length (snd e) < k + length pre) g"

definition ends :: "cstr \<Rightarrow> entries \<Rightarrow> bool" where
  "ends pre r \<longleftrightarrow> r = [] \<or> pre \<noteq> [] \<and> \<not> has_prefix pre (hd r)"

lemma group_Cons: "group k pre (e # g) \<Longrightarrow> group k pre g"
  by (simp add: group_def)

lemma has_prefix_iff: "has_prefix pre e \<longleftrightarrow> prefix pre (snd e)"
  by (auto simp: has_prefix_def strncmp_eq_def prefix_def) (metis append_take_drop_id)

lemma has_prefix_drop: "has_prefix pre e \<Longrightarrow> snd e = pre @ drop (length pre) (snd e)"
  by (auto simp: has_prefix_iff prefix_def)

lemma has_prefix_snoc:
  "has_prefix pre e \<Longrightarrow> length pre < length (snd e) \<Longrightarrow> has_prefix (pre @ [c]) e \<longleftrightarrow> at (snd e) (length pre) = c"
  by (auto simp: has_prefix_iff prefix_def at_def nth_append neq_Nil_conv split: if_splits)

lemma has_prefix_snocD: "has_prefix (pre @ [c]) e \<Longrightarrow> has_prefix pre e"
  by (auto simp: has_prefix_iff dest: append_prefixD)

abbreviation letter :: "cstr \<Rightarrow> nat \<times> cstr \<Rightarrow> char" where
  "letter pre e \<equiv> at (snd e) (length pre)"

lemma group_letters:
  assumes "group k pre g" and "list_all (\<lambda>e. length pre < length (snd e)) g"
  shows "sorted_wrt (\<lambda>a b. byte (letter pre a) \<le> byte (letter pre b)) g"
proof -
  have "byte (letter pre a) \<le> byte (letter pre b)"
    if "a \<in> set g" "b \<in> set g" "strcmp_less (snd a) (snd b)" for a b
  proof -
    have p: "has_prefix pre a" "has_prefix pre b" "length pre < length (snd a)" "length pre < length (snd b)"
      using that assms by (auto simp: group_def list_all_iff)
    then have "strcmp_less (drop (length pre) (snd a)) (drop (length pre) (snd b))"
      using that(3) strcmp_less_drop [of "snd a" pre "snd b"] by (simp add: has_prefix_def)
    then show ?thesis unfolding drop_at [OF p(3)] drop_at [OF p(4)] by auto
  qed
  moreover have "sorted_wrt (\<lambda>a b. strcmp_less (snd a) (snd b)) g" using assms(1) by (simp only: group_def)
  ultimately show ?thesis by (rule sorted_wrt_mono_rel)
qed

lemma split_letter:
  "sorted_wrt (\<lambda>a b. byte (l a) \<le> byte (l b)) g \<Longrightarrow> \<forall>e\<in>set g. l e \<in> set (c # cs) \<Longrightarrow>
   \<forall>d\<in>set cs. byte c < byte d \<Longrightarrow> g = filter (\<lambda>e. l e = c) g @ filter (\<lambda>e. l e \<noteq> c) g"
proof (induction g)
  case (Cons e g)
  show ?case
  proof (cases "l e = c")
    case False
    then have "byte c < byte (l e)" using Cons.prems(2,3) by auto
    then have "\<forall>x\<in>set (e # g). l x \<noteq> c" using Cons.prems(1) False by force
    then show ?thesis by (simp add: filter_id_conv)
  qed (use Cons in auto)
qed simp

lemma find_entry_snoc:
  assumes "group k pre g" and "list_all (\<lambda>e. length pre < length (snd e)) g"
    and "NUL \<notin> set (c # w)"
  shows "find_entry (length pre) g (c # w) =
    (if is_capital (up c) then find_entry (Suc (length pre)) (filter (\<lambda>e. letter pre e = up c) g) w else None)"
proof -
  have e: "irc_eq (drop (length pre) (snd e)) (c # w) \<longleftrightarrow>
      up c = letter pre e \<and> irc_eq (drop (Suc (length pre)) (snd e)) w \<and> is_capital (up c)" if "e \<in> set g" for e
  proof -
    have l: "length pre < length (snd e)" "list_all is_capital (snd e)"
      using assms that by (auto simp: group_def list_all_iff)
    then have "is_capital (letter pre e)" "NUL \<notin> set (drop (Suc (length pre)) (snd e))"
      using capitals_no_NUL [OF l(2)] by (auto simp: list_all_iff dest: in_set_dropD)
    then show ?thesis
      using irc_eq_Cons assms(3) unfolding drop_at [OF l(1)] by auto
  qed
  have "List.find (\<lambda>e. irc_eq (drop (length pre) (snd e)) (c # w)) g =
    (if is_capital (up c) then
      List.find (\<lambda>e. irc_eq (drop (Suc (length pre)) (snd e)) w) (filter (\<lambda>e. letter pre e = up c) g) else None)"
    using e by (induction g) auto
  then show ?thesis by (simp add: find_entry_def)
qed

text \<open>What a correct node is, and that the loop over the letters makes one for each letter in use.\<close>

definition node_ok :: "nat \<Rightarrow> entries \<Rightarrow> mtree \<Rightarrow> bool" where
  "node_ok lp g t \<longleftrightarrow> (\<forall>w. NUL \<notin> set w \<longrightarrow> at_node t w = find_entry lp g w)"

definition builds :: "nat \<Rightarrow> bool" where
  "builds k \<longleftrightarrow> (\<forall>pre g r. pre \<noteq> [] \<longrightarrow> g \<noteq> [] \<longrightarrow> group k pre g \<longrightarrow> ends pre r \<longrightarrow>
     (\<exists>t. do_msg_tree k pre (g @ r) = Some (t, r) \<and> node_ok (length pre) g t))"

lemma letter_loop_ok:
  assumes "builds k"
  shows "group (Suc k) pre g \<Longrightarrow> list_all (\<lambda>e. length pre < length (snd e)) g \<Longrightarrow> g \<noteq> [] \<Longrightarrow>
    \<forall>e\<in>set g. letter pre e \<in> set cs \<Longrightarrow> sorted_wrt (\<lambda>c d. byte c < byte d) cs \<Longrightarrow> ends pre r \<Longrightarrow>
    \<exists>f'. letter_loop k pre cs (g @ r) f = Some (f', r) \<and>
      (\<forall>c. let h = filter (\<lambda>e. letter pre e = c) g in
        if h = [] then f' c = f c else \<exists>t. f' c = Some t \<and> node_ok (Suc (length pre)) h t)"
proof (induction cs arbitrary: g f)
  case (Cons c cs)
  let ?h = "filter (\<lambda>e. letter pre e = c) g" and ?rest = "filter (\<lambda>e. letter pre e \<noteq> c) g"
  have g: "g = ?h @ ?rest"
    using split_letter [OF group_letters [OF Cons.prems(1,2)] Cons.prems(4)] Cons.prems(5) by simp
  have rest: "group (Suc k) pre ?rest" "list_all (\<lambda>e. length pre < length (snd e)) ?rest"
    using Cons.prems(1,2) by (auto simp: group_def list_all_iff sorted_wrt_filter)
  have rest': "\<forall>e\<in>set ?rest. letter pre e \<in> set cs" "sorted_wrt (\<lambda>c d. byte c < byte d) cs"
    using Cons.prems(4,5) by (simp_all only: list.set set_filter sorted_wrt.simps) blast
  have fil: "filter (\<lambda>e. letter pre e = d) ?rest = (if d = c then [] else filter (\<lambda>e. letter pre e = d) g)" for d
    by (auto intro: filter_cong)
  obtain e g' where e: "g = e # g'" using Cons.prems(3) by (cases g) auto
  show ?case
  proof (cases "?h = []")
    case True
    then have "?rest = g" using g by simp
    moreover have "letter pre e \<noteq> c" using True e by (auto split: if_splits)
    ultimately have "letter_loop k pre (c # cs) (g @ r) f = letter_loop k pre cs (?rest @ r) f"
      using e by (cases e) simp
    with Cons.IH [OF rest _ rest' Cons.prems(6), of f] Cons.prems(3) \<open>?rest = g\<close> show ?thesis by simp
  next
    case False
    have "e = hd ?h" using g e False by (metis hd_append2 list.sel(1))
    then have le: "letter pre e = c" using hd_in_set [OF False] by simp
    have h: "group k (pre @ [c]) ?h"
      using Cons.prems(1,2) by (auto simp: group_def list_all_iff sorted_wrt_filter has_prefix_snoc)
    have en: "ends (pre @ [c]) (?rest @ r)"
    proof (cases "?rest = []")
      case True
      then show ?thesis using Cons.prems(6) has_prefix_snocD [of pre c "hd r"] by (auto simp: ends_def)
    next
      case rf: False
      then have "hd ?rest \<in> set ?rest" by (rule hd_in_set)
      then have "\<not> has_prefix (pre @ [c]) (hd ?rest)"
        using Cons.prems(1,2) by (auto simp: group_def list_all_iff has_prefix_snoc)
      then show ?thesis using rf by (simp add: ends_def)
    qed
    then obtain t where t: "do_msg_tree k (pre @ [c]) (?h @ ?rest @ r) = Some (t, ?rest @ r)"
      "node_ok (Suc (length pre)) ?h t"
      using assms [unfolded builds_def, rule_format, OF _ False h en] by auto
    have step: "letter_loop k pre (c # cs) (g @ r) f =
        (if ?rest @ r = [] \<or> \<not> strncmp_eq (snd (hd (?rest @ r))) pre (length pre) then Some (f(c := Some t), ?rest @ r)
         else letter_loop k pre cs (?rest @ r) (f(c := Some t)))"
    proof -
      have one: "letter_loop k pre (c # cs) (e # q) f =
          (if R = [] \<or> \<not> strncmp_eq (snd (hd R)) pre (length pre) then Some (f(c := Some t), R)
           else letter_loop k pre cs R (f(c := Some t)))"
        if "do_msg_tree k (pre @ [c]) (e # q) = Some (t, R)" for q R
        using that le by (cases e) simp
      have "?h @ ?rest @ r = e # g' @ r" "g @ r = e # g' @ r" using g e by (metis append.assoc append_Cons)+
      then show ?thesis using one t(1) by (simp only:)
    qed
    show ?thesis
    proof (cases "?rest = []")
      case True
      have "?rest @ r = [] \<or> \<not> strncmp_eq (snd (hd (?rest @ r))) pre (length pre)"
        using True Cons.prems(6) by (auto simp: ends_def has_prefix_def)
      then have "letter_loop k pre (c # cs) (g @ r) f = Some (f(c := Some t), r)" using step True by simp
      moreover have "filter (\<lambda>e. letter pre e = d) g = []" if "d \<noteq> c" for d
        using fil [of d] that True by simp
      ultimately show ?thesis using t(2) False by (auto simp: Let_def)
    next
      case rf: False
      have "list_all (has_prefix pre) ?rest" using rest(1) by (auto simp: group_def list_all_iff)
      then have "has_prefix pre (hd ?rest)" using hd_in_set [OF rf] by (simp only: list_all_iff)
      then have eq: "letter_loop k pre (c # cs) (g @ r) f = letter_loop k pre cs (?rest @ r) (f(c := Some t))"
        using step rf by (simp add: has_prefix_def)
      from Cons.IH [OF rest rf rest' Cons.prems(6), of "f(c := Some t)", folded eq] obtain f' where
        f': "letter_loop k pre (c # cs) (g @ r) f = Some (f', r)"
        "\<And>d. let h = filter (\<lambda>e. letter pre e = d) ?rest in
          if h = [] then f' d = (f(c := Some t)) d else \<exists>t. f' d = Some t \<and> node_ok (Suc (length pre)) h t"
        by blast
      have "let h = filter (\<lambda>e. letter pre e = d) g in
        if h = [] then f' d = f d else \<exists>t. f' d = Some t \<and> node_ok (Suc (length pre)) h t" for d
        using f'(2) [of d] t(2) False unfolding fil by (cases "d = c") (auto simp: Let_def)
      with f'(1) show ?thesis by blast
    qed
  qed
next
  case Nil
  then show ?case by (cases g) auto
qed

lemma letters_ok: "sorted_wrt (\<lambda>c d. byte c < byte d) letters" "set letters = {c. is_capital c}"
proof -
  show "sorted_wrt (\<lambda>c d. byte c < byte d) letters" by code_simp
  have "c \<in> chr ` {65..<91} \<longleftrightarrow> is_capital c" for c
    unfolding is_capital_def image_iff
    using nat_of_char_less_256 [of c] by (auto intro: bexI [of _ "byte c"])
  then show "set letters = {c. is_capital c}" by (auto simp only: letters_def set_map set_upt mem_Collect_eq)
qed

lemma branch_ok:
  assumes "builds k" and g: "group (Suc k) pre g" and e: "g = e # e' # g'" and "ends pre r"
  shows "\<exists>t. do_msg_tree (Suc k) pre (g @ r) = Some (t, r) \<and> node_ok (length pre) g t \<and>
    (\<forall>w. w \<noteq> [] \<longrightarrow> at_node t w = tree_parse t w)"
proof -
  let ?exact = "irc_eq (snd e) pre"
  let ?h = "if ?exact then e' # g' else g"
  have pre: "has_prefix pre x" "list_all is_capital (snd x)" "has_prefix pre x \<longrightarrow> list_all is_capital pre" if "x \<in> set g" for x
    using g that by (auto simp: group_def list_all_iff has_prefix_iff prefix_def)
  have ex: "?exact \<longleftrightarrow> snd e = pre" using pre [of e] e irc_eq_capitals by auto
  have lt: "strcmp_less (snd e) (snd x)" if "x \<in> set (e' # g')" for x
    using g that unfolding group_def e by auto
  have long: "length pre < length (snd x)" if "x \<in> set ?h" for x
  proof -
    have "x \<in> set g" using that e by (auto split: if_splits)
    then obtain s where s: "snd x = pre @ s" using pre(1) [of x] by (auto simp: has_prefix_iff prefix_def)
    obtain s' where s': "snd e = pre @ s'" using pre(1) [of e] e by (auto simp: has_prefix_iff prefix_def)
    have "s \<noteq> []"
    proof
      assume "s = []"
      show False
      proof (cases "x = e")
        case True
        then show False using \<open>s = []\<close> s ex that lt [of e] strcmp_less_irrefl e by (auto split: if_splits)
      next
        case False
        then have "strcmp_less (snd e) (snd x)" using lt that e by (auto split: if_splits)
        then have "strcmp_less s' []"
          using strcmp_less_drop [of "snd e" pre "snd x"] s s' \<open>s = []\<close> by (simp add: strncmp_eq_def)
        then show False by simp
      qed
    qed
    then show ?thesis using s by simp
  qed
  have h: "group (Suc k) pre ?h" "list_all (\<lambda>e. length pre < length (snd e)) ?h" "?h \<noteq> []"
    "\<forall>x\<in>set ?h. letter pre x \<in> set letters"
  proof -
    show "group (Suc k) pre ?h" using g e group_Cons [of "Suc k" pre e "e' # g'"] by simp
    show "list_all (\<lambda>e. length pre < length (snd e)) ?h" using long unfolding list_all_iff by blast
    show "?h \<noteq> []" using e by simp
    show "\<forall>x\<in>set ?h. letter pre x \<in> set letters"
    proof
      fix x assume x: "x \<in> set ?h"
      then have "list_all is_capital (snd x)" using pre(2) [of x] e by (auto split: if_splits)
      then show "letter pre x \<in> set letters"
        unfolding letters_ok using long [OF x] nth_mem [OF long [OF x]] by (simp add: list_all_iff)
    qed
  qed
  obtain f where f: "letter_loop k pre letters (?h @ r) (\<lambda>_. None) = Some (f, r)"
    "\<And>c. let h = filter (\<lambda>e. letter pre e = c) ?h in
        if h = [] then f c = None else \<exists>t. f c = Some t \<and> node_ok (Suc (length pre)) h t"
    using letter_loop_ok [OF assms(1) h letters_ok(1) assms(4), of "\<lambda>_. None"] by blast
  let ?t = "MTree (if ?exact then Whole (fst e) else Null) f"
  have "strncmp_eq (snd e) pre (length pre)" "strncmp_eq (snd e') pre (length pre)"
    using pre(1) [of e] pre(1) [of e'] e by (simp_all add: has_prefix_def)
  then have run: "do_msg_tree (Suc k) pre (g @ r) = Some (?t, r)"
    using f(1) unfolding e by (cases e) (cases ?exact; simp add: Let_def)
  have "at_node ?t w = find_entry (length pre) g w" if w: "NUL \<notin> set w" for w
  proof -
    have noexact: "find_entry (length pre) g w = find_entry (length pre) ?h w" if "\<not> (?exact \<and> w = [])"
    proof (cases ?exact)
      case True
      then have "drop (length pre) (snd e) = []" "w \<noteq> []" using ex that by auto
      then have "\<not> irc_eq (drop (length pre) (snd e)) w"
        using irc_eq_Nil [OF w] irc_eq_sym by metis
      then show ?thesis using True e by (simp add: find_entry_def)
    qed simp
    show ?thesis
    proof (cases w)
      case Nil
      show ?thesis
      proof (cases ?exact)
        case True
        then show ?thesis using ex e Nil by (simp add: at_node_def find_entry_def)
      next
        case False
        have "\<not> irc_eq (drop (length pre) (snd x)) []" if "x \<in> set g" for x
        proof -
          have "NUL \<notin> set (drop (length pre) (snd x))"
            using capitals_no_NUL [OF pre(2) [OF that]] by (auto dest: in_set_dropD)
          then show ?thesis using irc_eq_Nil long [of x] that False by simp
        qed
        then have "List.find (\<lambda>x. irc_eq (drop (length pre) (snd x)) []) g = None"
          unfolding find_None_iff by blast
        then show ?thesis using False Nil by (simp add: at_node_def find_entry_def)
      qed
    next
      case (Cons c w')
      then have "at_node ?t w = tree_parse ?t (c # w')" by (simp add: at_node_def)
      also have "\<dots> = find_entry (length pre) ?h (c # w')"
        unfolding tree_parse_Cons find_entry_snoc [OF h(1,2) w [unfolded Cons]]
        using f(2) [of "up c"] w Cons by (auto simp: Let_def node_ok_def find_entry_def split: if_splits)
      finally show ?thesis using noexact Cons by simp
    qed
  qed
  moreover have "at_node ?t w = tree_parse ?t w" if "w \<noteq> []" for w using that by (simp add: at_node_def)
  ultimately show ?thesis using run by (auto simp: node_ok_def)
qed

lemma builds_all: "builds k"
proof (induction k)
  case 0
  have "\<not> group 0 pre g" if "g \<noteq> []" for pre g
    using that by (cases g) (auto simp: group_def has_prefix_iff dest: prefix_length_le)
  then show ?case by (auto simp: builds_def)
next
  case (Suc k)
  show ?case unfolding builds_def
  proof (intro allI impI)
    fix pre g r
    assume a: "pre \<noteq> []" "g \<noteq> []" "group (Suc k) pre g" "ends pre r"
    show "\<exists>t. do_msg_tree (Suc k) pre (g @ r) = Some (t, r) \<and> node_ok (length pre) g t"
    proof (cases "tl g")
      case Nil
      then obtain e where e: "g = [e]" using a(2) by (cases g) auto
      have "has_prefix pre e" using a(3) e by (simp add: group_def)
      then have "do_msg_tree (Suc k) pre (g @ r) = Some (MTree (Rest (drop (length pre) (snd e)) (fst e)) (\<lambda>_. None), r)"
        using a(1,4) e by (cases e) (auto simp: has_prefix_def ends_def)
      moreover have "node_ok (length pre) g (MTree (Rest (drop (length pre) (snd e)) (fst e)) (\<lambda>_. None))"
        by (simp add: node_ok_def at_node_def find_entry_def e)
      ultimately show ?thesis by blast
    next
      case (Cons e' g')
      then obtain e where "g = e # e' # g'" using a(2) by (cases g) auto
      from branch_ok [OF Suc a(3) this a(4)] show ?thesis by blast
    qed
  qed
qed

lemma find_enumerate:
  "case find_entry 0 (enumerate n ns) w of
     None \<Rightarrow> \<forall>s\<in>set ns. \<not> irc_eq s w
   | Some i \<Rightarrow> n \<le> i \<and> i < n + length ns \<and> irc_eq (ns ! (i - n)) w"
proof (induction ns arbitrary: n)
  case (Cons s ns)
  show ?case
  proof (cases "irc_eq s w")
    case False
    then have eq: "find_entry 0 (enumerate n (s # ns)) w = find_entry 0 (enumerate (Suc n) ns) w"
      by (simp add: find_entry_def)
    show ?thesis
    proof (cases "find_entry 0 (enumerate (Suc n) ns) w")
      case None
      then show ?thesis unfolding eq using Cons [of "Suc n"] False by simp
    next
      case (Some i)
      then have "Suc n \<le> i" "i < Suc n + length ns" "irc_eq (ns ! (i - Suc n)) w" using Cons [of "Suc n"] by simp_all
      moreover from this(1) have "i - n = Suc (i - Suc n)" by simp
      ultimately show ?thesis unfolding eq using Some by simp
    qed
  qed (simp add: find_entry_def)
qed (simp add: find_entry_def)

lemma entries_group:
  assumes "sorted_msgs tab" and "\<forall>m\<in>set tab. capital_name (m_cmd m)"
  shows "group 64 [] (entries_of tab)"
proof -
  have "snd ` set (entries_of tab) = m_cmd ` set tab"
    by (metis entries_of_def list.set_map map_snd_enumerate)
  then have "\<forall>e\<in>set (entries_of tab). capital_name (snd e)" using assms(2) by (metis imageE imageI)
  moreover have "sorted_wrt (\<lambda>a b. strcmp_less (snd a) (snd b)) (entries_of tab)"
  proof -
    have "sorted_wrt strcmp_less (map snd (entries_of tab))"
      using assms(1) by (simp add: entries_of_def sorted_msgs_def sorted_wrt_map)
    then show ?thesis by (simp only: sorted_wrt_map)
  qed
  ultimately show ?thesis
    unfolding group_def list_all_iff capital_name_def has_prefix_iff by simp
qed

text \<open>The table of the server is good.\<close>

definition good_table :: "message list \<Rightarrow> bool" where
  "good_table tab \<longleftrightarrow> 2 \<le> length tab \<and> distinct (map m_cmd tab) \<and> list_all (\<lambda>m. capital_name (m_cmd m)) tab"

lemma msgtab_good: "good_table msgtab"
  by code_simp

lemma command_tree:
  assumes "good_table tab" and "NUL \<notin> set w"
  shows "\<exists>tab' t. init_tree_parse tab = Some (tab', t) \<and> set tab' = set tab \<and>
    (case tree_parse t w of
       None \<Rightarrow> \<forall>m\<in>set tab. \<not> irc_eq (m_cmd m) w
     | Some i \<Rightarrow> i < length tab' \<and> irc_eq (m_cmd (tab' ! i)) w)"
proof -
  let ?tab = "qsort_msgs tab"
  have s: "sorted_msgs ?tab" "set ?tab = set tab" "length ?tab = length tab"
    using qsort_msgs_sorted assms(1) by (auto simp: good_table_def)
  have names: "\<forall>m\<in>set ?tab. capital_name (m_cmd m)" using assms(1) s(2) by (simp add: good_table_def list_all_iff)
  have g: "group (Suc 63) [] (entries_of ?tab)" using entries_group [OF s(1) names] by simp
  have "2 \<le> length (entries_of ?tab)" using assms(1) s(3) by (simp add: good_table_def entries_of_def)
  then obtain e e' g' where e: "entries_of ?tab = e # e' # g'"
    by (metis Suc_le_length_iff numeral_2_eq_2)
  obtain t where t: "do_msg_tree 64 [] (entries_of ?tab) = Some (t, [])" "node_ok 0 (entries_of ?tab) t"
    "\<And>w. w \<noteq> [] \<Longrightarrow> at_node t w = tree_parse t w"
    using branch_ok [OF builds_all g e, of "[]"] by (auto simp: ends_def)
  have "tree_parse t w = find_entry 0 (entries_of ?tab) w"
  proof (cases "w = []")
    case True
    have "find_entry 0 (entries_of ?tab) [] = None"
    proof -
      have "\<not> irc_eq s []" if "s \<in> m_cmd ` set ?tab" for s
        using that names irc_eq_Nil capitals_no_NUL by (auto simp: capital_name_def)
      moreover have "snd e \<in> m_cmd ` set ?tab" if "e \<in> set (entries_of ?tab)" for e
        using that by (metis entries_of_def image_eqI list.set_map map_snd_enumerate)
      ultimately show ?thesis by (auto simp: find_entry_def find_None_iff)
    qed
    then show ?thesis using True by simp
  next
    case False
    then show ?thesis using t(2) t(3) [OF False] assms(2) unfolding node_ok_def by metis
  qed
  moreover have "case find_entry 0 (entries_of ?tab) w of
       None \<Rightarrow> \<forall>m\<in>set tab. \<not> irc_eq (m_cmd m) w
     | Some i \<Rightarrow> i < length ?tab \<and> irc_eq (m_cmd (?tab ! i)) w"
    using find_enumerate [where n = 0 and ns = "map m_cmd ?tab" and w = w] s(2)
    by (auto simp: entries_of_def split: option.splits)
  moreover have "init_tree_parse tab = Some (?tab, t)" using t(1) by (simp add: init_tree_parse_def Let_def)
  ultimately show ?thesis using s(2) by auto
qed

text \<open>
  C30. For a command table whose names are distinct words of capital letters shorter than
  \<open>newpref[64]\<close>, \<open>init_tree_parse\<close> succeeds, and \<open>tree_parse\<close> on the tree it builds agrees with a search of
  the table up to case: it returns an entry whose name equals the word, and nothing when there is none.
  The server's own table (the witness) has these properties.
\<close>

theorem command_lookup:
  assumes "good_table tab" and "NUL \<notin> set w"
  shows "\<exists>tab' t. init_tree_parse tab = Some (tab', t) \<and> set tab' = set tab \<and>
    (case tree_parse t w of
       None \<Rightarrow> \<forall>m\<in>set tab. \<not> irc_eq (m_cmd m) w
     | Some i \<Rightarrow> i < length tab' \<and> irc_eq (m_cmd (tab' ! i)) w)"
  by (rule command_tree [OF assms])

theorem command_lookup_witness:
  "\<exists>tab' t. init_tree_parse msgtab = Some (tab', t) \<and> set tab' = set msgtab \<and>
    (case tree_parse t ''PrivMsg'' of
       None \<Rightarrow> \<forall>m\<in>set msgtab. \<not> irc_eq (m_cmd m) ''PrivMsg''
     | Some i \<Rightarrow> i < length tab' \<and> irc_eq (m_cmd (tab' ! i)) ''PrivMsg'')"
  by (rule command_lookup [OF msgtab_good]) simp

end
