(* ===== verification/Parse.thy ===== *)
theory Parse
  imports ChanState CmdTree IrcString
begin

text \<open>
  One line of input, \<open>src/parse.c\<close>: the prefix gives the source, the word after it the command, the
  rest the parameters; then the handler of the command runs. \<open>cancel_clients\<close> and \<open>remove_unknown\<close>
  deal with prefixes that cannot be right, \<open>do_numeric\<close> relays the numeric replies of other servers.
\<close>

subsection \<open>State\<close>

text \<open>
  The client block of \<open>ChanState\<close> with the fields the parser reads: \<open>from\<close>, the local link a client is
  reached through, the flags \<open>FLAGS_DEADSOCKET\<close> and \<open>FLAGS_KILLED\<close> (in \<open>c_flags\<close>), \<open>tsinfo\<close>, \<open>hvc\<close>,
  \<open>FLAGS2_DOINGLIST\<close>, \<open>user->last\<close>, \<open>user->server\<close> and \<open>receiveM\<close>.
\<close>

record pclient = client +
  c_does_ts :: bool
  c_hvc :: bool
  c_doing_list :: bool
  u_last :: time_t
  receiveM_of :: nat

text \<open>What the parser sends: the lines, the notices to operators with mode \<open>IMODE_DEBUG\<close>, the exits.\<close>

datatype event =
    SendOne nat cstr
  | SendServers cstr
  | SendPrefix nat nat cstr
  | SendChannel nat nat nat cstr
  | OpsDebug cstr
  | ExitClient nat nat cstr

record pstate =
  pc :: "nat \<Rightarrow> pclient"
  client_tab :: hash_table
  pchan_name :: "nat \<Rightarrow> cstr"
  pchan_tab :: hash_table
  p_msgtab :: "message list"
  msg_tree_root :: mtree
  is_unpf :: "32 word"
  is_wrdi :: "32 word"
  is_empt :: "32 word"
  is_num :: "32 word"
  is_unco :: "32 word"
  p_now :: time_t
  p_me :: cstr
  hvc_enabled :: bool
  p_events :: "event list"

definition FLAGS_DEADSOCKET :: "32 word" where "FLAGS_DEADSOCKET = 0x2"
definition FLAGS_KILLED :: "32 word" where "FLAGS_KILLED = 0x4"
definition CLIENT_EXITED :: int where "CLIENT_EXITED = -2"
definition ERR_UNKNOWNCOMMAND :: int where "ERR_UNKNOWNCOMMAND = 421"
definition ERR_NOTREGISTERED :: int where "ERR_NOTREGISTERED = 451"

definition base :: "pstate \<Rightarrow> nat \<Rightarrow> client" where
  "base st p = client.truncate (pc st p)"

definition IsMe :: "client \<Rightarrow> bool" where "IsMe c \<longleftrightarrow> c_status c = STAT_ME"
definition IsConnecting :: "client \<Rightarrow> bool" where "IsConnecting c \<longleftrightarrow> c_status c = STAT_CONNECTING"
definition IsHandshake :: "client \<Rightarrow> bool" where "IsHandshake c \<longleftrightarrow> c_status c = STAT_HANDSHAKE"
definition IsRegistered :: "client \<Rightarrow> bool" where
  "IsRegistered c \<longleftrightarrow> c_status c = STAT_SERVER \<or> c_status c = STAT_CLIENT"
definition IsDead :: "client \<Rightarrow> bool" where "IsDead c \<longleftrightarrow> has (c_flags c) FLAGS_DEADSOCKET"

definition emit :: "event \<Rightarrow> pstate \<Rightarrow> pstate" where
  "emit e st = st\<lparr>p_events := p_events st @ [e]\<rparr>"

definition pname :: "pstate \<Rightarrow> nat \<Rightarrow> cstr" where
  "pname st p = c_name (pc st p)"

definition upd_pc :: "nat \<Rightarrow> (pclient \<Rightarrow> pclient) \<Rightarrow> pstate \<Rightarrow> pstate" where
  "upd_pc p f st = st\<lparr>pc := (pc st)(p := f (pc st p))\<rparr>"

definition find_client :: "pstate \<Rightarrow> cstr \<Rightarrow> nat option" where
  "find_client st name = hash_find_client (pname st) (client_tab st) name None"

definition find_server :: "pstate \<Rightarrow> cstr \<Rightarrow> nat option" where
  "find_server st name =
     hash_find_server (pname st) (\<lambda>p. IsServer (base st p) \<or> IsMe (base st p)) (client_tab st) name"

text \<open>\<open>exit_client\<close> as the parser sees it: the exit happens and its result follows its header comment.\<close>

definition exit_client :: "nat \<Rightarrow> nat \<Rightarrow> cstr \<Rightarrow> pstate \<Rightarrow> pstate \<times> int" where
  "exit_client cptr sptr comment st =
     (emit (ExitClient cptr sptr comment) st, if cptr = sptr then CLIENT_EXITED else 0)"

subsection \<open>The parts of a line\<close>

abbreviation skip_blanks :: "cstr \<Rightarrow> cstr" where
  "skip_blanks s \<equiv> dropWhile (\<lambda>c. c = CHR '' '') s"

text \<open>The prefix after a colon, cut to the size of \<open>sender\<close>, and the text after it.\<close>

definition split_prefix :: "cstr \<Rightarrow> cstr \<times> cstr" where
  "split_prefix line =
     (case skip_blanks line of
        [] \<Rightarrow> ([], [])
      | c # s \<Rightarrow>
          if c = CHR '':''
          then (take HOSTLEN (takeWhile (\<lambda>d. d \<noteq> CHR '' '') s),
                skip_blanks (dropWhile (\<lambda>d. d \<noteq> CHR '' '') s))
          else ([], c # s))"

text \<open>A numeric: three digits and a blank.\<close>

definition is_numeric :: "cstr \<Rightarrow> bool" where
  "is_numeric ch \<longleftrightarrow> IsDigit (at ch 0) \<and> IsDigit (at ch 1) \<and> IsDigit (at ch 2) \<and> at ch 3 = CHR '' ''"

definition split_command :: "cstr \<Rightarrow> cstr \<times> cstr option" where
  "split_command ch =
     (takeWhile (\<lambda>c. c \<noteq> CHR '' '') ch,
      case dropWhile (\<lambda>c. c \<noteq> CHR '' '') ch of [] \<Rightarrow> None | _ # s \<Rightarrow> Some s)"

text \<open>The parameters from \<open>para[i]\<close> on; the last one the command takes gets the rest of the line.\<close>

function split_args :: "nat \<Rightarrow> nat \<Rightarrow> cstr \<Rightarrow> cstr list" where
  "split_args paramcount i s =
     (case skip_blanks s of
        [] \<Rightarrow> []
      | c # t \<Rightarrow>
          if c = CHR '':'' then [t]
          else if paramcount \<le> Suc i then [c # t]
          else takeWhile IsNonEOS (c # t) # split_args paramcount (Suc i) (dropWhile IsNonEOS (c # t)))"
  by pat_completeness auto
termination
  by (relation "measure (\<lambda>(paramcount, i, s). paramcount - i)") auto

declare split_args.simps [simp del]

definition params :: "nat \<Rightarrow> cstr option \<Rightarrow> cstr list" where
  "params paramcount s = (case s of None \<Rightarrow> [] | Some t \<Rightarrow> split_args (min paramcount MAXPARA) 1 t)"

subsection \<open>Prefixes that cannot be right\<close>

text \<open>\<open>gcn\<close> stands for \<open>get_client_name\<close>.\<close>

definition cancel_clients :: "(pstate \<Rightarrow> nat \<Rightarrow> bool \<Rightarrow> cstr) \<Rightarrow> nat \<Rightarrow> nat \<Rightarrow> pstate \<Rightarrow> pstate \<times> int" where
  "cancel_clients gcn cptr sptr st =
     (let s = base st sptr; c = base st cptr;
          sfrom = pname st (c_from (pc st sptr))
      in if IsServer s \<or> IsMe s then
           let st1 = emit (OpsDebug (''Message for '' @ c_name s @ ''['' @ sfrom @ ''] from '' @ gcn st cptr True)) st
           in if IsServer c then
                (emit (OpsDebug (''Not dropping server '' @ c_name c @ '' ('' @ c_name s @ '') for Fake Direction'')) st1, -1)
              else if IsClient c then
                (emit (OpsDebug (''Would have dropped client '' @ c_name c @ '' ('' @ c_username c @ ''@'' @ c_host c @
                   '') ['' @ u_server (pc st cptr) @ '' from '' @ pname st (c_from (pc st cptr)) @ '']'')) st1, -1)
              else (st1, -1)
         else if IsServer c then
           let notice = ''Message for '' @ c_name s @ ''['' @ c_username s @ ''@'' @ c_host s @ ''!'' @ sfrom @ ''] from '' @ gcn st cptr True
           in if c_does_ts (pc st cptr) then
                ((if has_user s then emit (OpsDebug (notice @ '' (TS, ignored)'')) st else st), 0)
              else
                let st1 = (if has_user s then emit (OpsDebug notice) st else st);
                    st2 = emit (SendServers ('':'' @ p_me st @ '' KILL '' @ c_name s @ '' :'' @ p_me st @ '' ('' @
                       c_name s @ ''['' @ sfrom @ ''] != '' @ c_name c @ '', Fake Prefix)'')) st1;
                    st3 = upd_pc sptr (\<lambda>x. x\<lparr>c_flags := c_flags x OR FLAGS_KILLED\<rparr>) st2
                in exit_client cptr sptr ''Fake Prefix'' st3
         else exit_client cptr cptr ''Fake prefix'' st)"

definition remove_unknown :: "(pstate \<Rightarrow> nat \<Rightarrow> bool \<Rightarrow> cstr) \<Rightarrow> nat \<Rightarrow> cstr \<Rightarrow> cstr \<Rightarrow> pstate \<Rightarrow> pstate" where
  "remove_unknown gcn cptr psender pbuffer st =
     (let c = base st cptr in
      if \<not> IsRegistered c then st
      else if IsClient c then
        emit (OpsDebug (''Weirdness: Unknown client prefix ('' @ pbuffer @ '') from '' @ gcn st cptr False @
           '', Ignoring '' @ psender)) st
      else if \<not> IsServer c then st
      else if CHR ''.'' \<notin> set psender then
        emit (SendOne cptr ('':'' @ p_me st @ '' KILL '' @ psender @ '' :'' @ p_me st @ '' ('' @ psender @ ''(?) <- '' @
           c_name c @ '')'')) st
      else
        emit (SendOne cptr ('':'' @ p_me st @ '' SQUIT '' @ psender @ '' :(Unknown prefix ('' @ pbuffer @ '') from '' @
           gcn st cptr False @ '')''))
         (emit (OpsDebug (''Unknown prefix ('' @ pbuffer @ '') from '' @ gcn st cptr False @ '', Squitting '' @ psender)) st))"

subsection \<open>Numeric replies\<close>

definition numeric_target :: "nat \<Rightarrow> nat \<Rightarrow> cstr \<Rightarrow> cstr \<Rightarrow> cstr \<Rightarrow> pstate \<Rightarrow> cstr \<Rightarrow> pstate" where
  "numeric_target cptr sptr p0 numeric buffer st nick =
     (let line = (\<lambda>nm. '':'' @ p0 @ '' '' @ numeric @ '' '' @ nm @ buffer) in
      case find_client st nick of
        Some a \<Rightarrow>
          (if \<not> IsMe (base st a) \<and> IsPerson (base st a) then emit (SendPrefix a sptr (line nick)) st
           else if IsServer (base st a) \<and> c_from (pc st a) \<noteq> cptr then emit (SendPrefix a sptr (line nick)) st
           else st)
      | None \<Rightarrow>
          (case find_server st nick of
             Some a \<Rightarrow>
               (if \<not> IsMe (base st a) \<and> c_from (pc st a) \<noteq> cptr then emit (SendPrefix a sptr (line nick)) st else st)
           | None \<Rightarrow>
               (case hash_find_channel (pchan_name st) (pchan_tab st) nick None of
                  Some ch \<Rightarrow> emit (SendChannel cptr sptr ch (line (pchan_name st ch))) st
                | None \<Rightarrow> st)))"

definition do_numeric :: "cstr \<Rightarrow> nat \<Rightarrow> nat \<Rightarrow> cstr list \<Rightarrow> pstate \<Rightarrow> pstate \<times> int" where
  "do_numeric numeric0 cptr sptr parv st =
     (if parv = [] \<or> \<not> IsServer (base st sptr) then (st, 0)
      else
        let numeric = (if hd0 numeric0 = CHR ''0'' then CHR ''1'' # tl numeric0 else numeric0) in
        if length parv > 1 then
          let buffer = concat (map (\<lambda>p. '' '' @ p) (butlast (drop 2 parv))) @ '' :'' @ last parv
          in (foldl (numeric_target cptr sptr (hd parv) numeric buffer) st (strtokens '','' (Some (parv ! 1))), 0)
        else (st, 0))"

subsection \<open>One line\<close>

text \<open>
  Who the line is from: the connection itself, unless a server names another client. The result is the
  source and \<open>para[0]\<close>, or the state and value to return.
\<close>

definition line_source ::
  "(pstate \<Rightarrow> nat \<Rightarrow> bool \<Rightarrow> cstr) \<Rightarrow> nat \<Rightarrow> cstr \<Rightarrow> cstr \<Rightarrow> pstate \<Rightarrow> (nat \<times> cstr) + (pstate \<times> int)" where
  "line_source gcn cptr sender pbuffer st =
     (if sender \<noteq> [] \<and> IsServer (base st cptr) then
        (let f = find_client st sender;
             from = (case f of
                Some p \<Rightarrow> if match (pname st p) sender then f else find_server st sender
              | None \<Rightarrow> find_server st sender)
         in case from of
              None \<Rightarrow> Inr (remove_unknown gcn cptr sender pbuffer (st\<lparr>is_unpf := is_unpf st + 1\<rparr>), -1)
            | Some p \<Rightarrow>
                if c_from (pc st p) \<noteq> cptr
                then Inr (cancel_clients gcn cptr p (st\<lparr>is_wrdi := is_wrdi st + 1\<rparr>))
                else Inl (p, sender))
      else Inl (cptr, pname st cptr))"

text \<open>The last part: the command \<open>k\<close> of the table with the parameters \<open>parv\<close>; \<open>run\<close> is \<open>mptr->func\<close>.\<close>

type_synonym handler = "cstr \<Rightarrow> nat \<Rightarrow> nat \<Rightarrow> cstr list \<Rightarrow> pstate \<Rightarrow> pstate \<times> int"

definition dispatch :: "handler \<Rightarrow> nat \<Rightarrow> nat \<Rightarrow> nat \<Rightarrow> cstr \<Rightarrow> cstr list \<Rightarrow> pstate \<Rightarrow> pstate \<times> int" where
  "dispatch run k cptr from cmd parv st0 =
     (let m = p_msgtab st0 ! k;
          st = st0\<lparr>p_msgtab := (p_msgtab st0)[k := m\<lparr>m_count := m_count m + 1\<rparr>]\<rparr>;
          c = base st cptr
      in if (\<not> IsRegistered c \<or> hvc_enabled st \<and> c_hvc (pc st cptr)) \<and> \<not> allow_unregistered_use m then
           (if IsHandshake c \<or> IsConnecting c \<or> IsServer c then (st, -1)
            else (emit (SendOne from ('':'' @ p_me st @ '' '' @ dec ERR_NOTREGISTERED @ '' '' @
                    (if pname st from = [] then ''*'' else pname st from) @ '' '' @ cmd @ '' :Register first.'')) st, -1))
         else
           let st1 = (if IsClient c \<and> reset_idle m then upd_pc from (\<lambda>x. x\<lparr>u_last := p_now st\<rparr>) st else st)
           in if c_doing_list (pc st cptr) \<and> m_func m \<noteq> ''m_list'' then (st1, -1)
              else run (m_func m) cptr from parv st1)"

text \<open>
  \<open>FLOOD_DELAY\<close>, with \<open>NO_OPER_FLOOD\<close> and without \<open>TRUE_NO_OPER_FLOOD\<close> as configured: a command puts \<open>since\<close> of the
  connection forward by two seconds and one more per 120 bytes; for an operator by one, but for every fifth
  message. The division of C rounds towards zero.
\<close>

definition flood_penalty :: "pclient \<Rightarrow> int \<Rightarrow> int" where
  "flood_penalty x i =
     (if has (c_umodes x) UMODE_OPER \<or> has (c_umodes x) UMODE_LOCOP then (if receiveM_of x mod 5 \<noteq> 0 then 1 else 0)
      else 2 + (if 0 \<le> i then i div 120 else - (- i div 120)))"

definition flood_delay :: "nat \<Rightarrow> message \<Rightarrow> int \<Rightarrow> pstate \<Rightarrow> pstate" where
  "flood_delay cptr m i st =
     (if m_flags m AND 1 \<noteq> 0 \<and> \<not> IsServer (base st cptr) \<and> \<not> has (c_umodes (pc st cptr)) UMODE_FLOODEX
      then upd_pc cptr (\<lambda>x. x\<lparr>c_since := c_since x + flood_penalty x i\<rparr>) st else st)"

text \<open>
  \<open>parse\<close> on a line already translated from the client's code page (\<open>codepage_to_unicode\<close>), with
  \<open>bufend\<close> the length of the line as the caller gives it.
\<close>

definition parse ::
  "handler \<Rightarrow> (pstate \<Rightarrow> nat \<Rightarrow> bool \<Rightarrow> cstr) \<Rightarrow> nat \<Rightarrow> cstr \<Rightarrow> nat \<Rightarrow> pstate \<Rightarrow> pstate \<times> int" where
  "parse run gcn cptr pbuffer bufend st =
     (if IsDead (base st cptr) then (st, -1)
      else
        let (sender, ch) = split_prefix pbuffer in
        case line_source gcn cptr sender pbuffer st of
          Inr r \<Rightarrow> r
        | Inl (from, para0) \<Rightarrow>
            if ch = [] then (st\<lparr>is_empt := is_empt st + 1\<rparr>, -1)
            else if is_numeric ch then
              do_numeric (take 3 ch) cptr from (para0 # params MAXPARA (Some (drop 4 ch))) (st\<lparr>is_num := is_num st + 1\<rparr>)
            else
              let (cmd, s) = split_command ch in
              case tree_parse (msg_tree_root st) cmd of
                None \<Rightarrow>
                  (let st1 = (if IsPerson (base st from)
                      then emit (SendOne from ('':'' @ p_me st @ '' '' @ dec ERR_UNKNOWNCOMMAND @ '' '' @ pname st from @
                        '' '' @ cmd @ '' :Unknown command'')) st else st)
                   in (st1\<lparr>is_unco := is_unco st1 + 1\<rparr>, -1))
              | Some k \<Rightarrow>
                  (let m = p_msgtab st ! k;
                       i = int bufend - int (length pbuffer) + int (length (case s of None \<Rightarrow> cmd | Some t \<Rightarrow> t));
                       st1 = st\<lparr>p_msgtab := (p_msgtab st)[k := m\<lparr>m_bytes := m_bytes m + word_of_int i\<rparr>]\<rparr>
                   in dispatch run k cptr from cmd (para0 # params (m_parameters m) s) (flood_delay cptr m i st1)))"

subsection \<open>Lemmas\<close>

lemma length_split_args: "length (split_args n i s) \<le> max 1 (n - i)"
proof (induction n i s rule: split_args.induct)
  case (1 n i s)
  show ?case
  proof (cases "skip_blanks s")
    case (Cons c t)
    have "length (split_args n (Suc i) (dropWhile IsNonEOS (c # t))) \<le> max 1 (n - Suc i)"
      if "c \<noteq> CHR '':''" "\<not> n \<le> Suc i" using 1 [OF Cons that] .
    then show ?thesis by (subst split_args.simps) (auto simp: Cons)
  next
    case Nil
    show ?thesis by (subst split_args.simps) (simp add: Nil)
  qed
qed

lemma length_params: "length (params n s) < MAXPARA"
proof (cases s)
  case (Some t)
  have "max 1 (min n MAXPARA - 1) < MAXPARA" by (simp add: MAXPARA_def)
  from le_less_trans [OF length_split_args this] show ?thesis by (simp only: Some params_def option.case)
qed (simp add: params_def MAXPARA_def)

lemma line_source_Inl:
  "line_source gcn cptr sender pbuffer st = Inl (from, p0) \<Longrightarrow>
     from = cptr \<or> IsServer (base st cptr) \<and> c_from (pc st from) = cptr"
  by (auto simp: line_source_def Let_def split: if_splits option.splits)

text \<open>What the parser guarantees to a handler it runs.\<close>

definition authentic :: "pstate \<Rightarrow> nat \<Rightarrow> nat \<Rightarrow> bool" where
  "authentic st cptr from \<longleftrightarrow> from = cptr \<or> IsServer (base st cptr) \<and> c_from (pc st from) = cptr"

definition permitted :: "pstate \<Rightarrow> nat \<Rightarrow> nat \<Rightarrow> bool" where
  "permitted st cptr k \<longleftrightarrow>
     IsRegistered (base st cptr) \<and> \<not> (hvc_enabled st \<and> c_hvc (pc st cptr)) \<or> allow_unregistered_use (p_msgtab st ! k)"

text \<open>The command runs with the given parameters, and its result is the result; or no handler is run.\<close>

lemma dispatch_once:
  "(\<exists>r. \<forall>run. dispatch run k cptr from cmd parv st = r) \<or>
   permitted st cptr k \<and> k < length (p_msgtab st) \<and> (\<exists>st'. \<forall>run. dispatch run k cptr from cmd parv st = run (m_func (p_msgtab st ! k)) cptr from parv st') \<or>
   length (p_msgtab st) \<le> k"
  by (cases "k < length (p_msgtab st)") (auto simp: dispatch_def Let_def permitted_def base_def)

lemma flood_delay_sel:
  "p_msgtab (flood_delay cptr m i st) = p_msgtab st" "hvc_enabled (flood_delay cptr m i st) = hvc_enabled st"
  "c_hvc (pc (flood_delay cptr m i st) c) = c_hvc (pc st c)"
  "IsRegistered (base (flood_delay cptr m i st) c) = IsRegistered (base st c)"
  by (auto simp: flood_delay_def upd_pc_def base_def IsRegistered_def client.defs)

lemma flood_delay_permitted:
  assumes "k < length (p_msgtab st)" "allow_unregistered_use m' = allow_unregistered_use (p_msgtab st ! k)"
  shows "permitted (flood_delay cptr m i (st\<lparr>p_msgtab := (p_msgtab st)[k := m']\<rparr>)) c k = permitted st c k"
proof -
  have "IsRegistered (base (st\<lparr>p_msgtab := t\<rparr>) c) = IsRegistered (base st c)" for t by (simp add: base_def)
  then show ?thesis using assms by (simp add: permitted_def flood_delay_sel)
qed

text \<open>
  The name in \<open>para[0]\<close>: that of the connection, that of the source up to case, or one that the wildcard name
  \<open>*.suffix\<close> of a server covers.
\<close>

definition names_source :: "pstate \<Rightarrow> nat \<Rightarrow> nat \<Rightarrow> cstr \<Rightarrow> bool" where
  "names_source st cptr from p0 \<longleftrightarrow> from = cptr \<and> p0 = pname st cptr \<or> irccmp p0 (pname st from) = 0 \<or>
     (\<exists>pre rest. take HOSTLEN (cut p0) = pre @ CHR ''.'' # rest \<and> irccmp (''*.'' @ rest) (pname st from) = 0)"

lemma line_source_names:
  assumes "line_source gcn cptr sender pbuffer st = Inl (from, p0)"
  shows "names_source st cptr from p0"
proof (cases "sender \<noteq> [] \<and> IsServer (base st cptr)")
  case True
  then have "p0 = sender" "find_client st sender = Some from \<or> find_server st sender = Some from"
    using assms by (auto simp: line_source_def Let_def split: if_splits option.splits)
  moreover have "irccmp sender (pname st from) = 0" if "find_client st sender = Some from"
    using hash_find_client_sound that by (auto simp: find_client_def irc_eq_iff [symmetric])
  ultimately show ?thesis
    using hash_find_server_sound unfolding names_source_def find_server_def by blast
qed (use assms in \<open>auto simp: line_source_def names_source_def\<close>)

text \<open>The line a sender writes: a prefix, a command, words and a last parameter.\<close>

definition word :: "cstr \<Rightarrow> bool" where
  "word w \<longleftrightarrow> w \<noteq> [] \<and> CHR '' '' \<notin> set w \<and> NUL \<notin> set w \<and> hd w \<noteq> CHR '':''"

fun put_args :: "cstr list \<Rightarrow> cstr \<Rightarrow> cstr" where
  "put_args [] final_arg = '' :'' @ final_arg"
| "put_args (a # as) final_arg = '' '' @ a @ put_args as final_arg"

definition put_line :: "cstr \<Rightarrow> cstr \<Rightarrow> cstr list \<Rightarrow> cstr \<Rightarrow> cstr" where
  "put_line sender cmd as final_arg =
     (if sender = [] then [] else '':'' @ sender @ '' '') @ cmd @ put_args as final_arg"

lemma IsNonEOS_blank [simp]: "IsNonEOS (CHR '' '') = False"
  by (simp add: IsNonEOS_iff)

lemma IsNonEOS_eq: "IsNonEOS c \<longleftrightarrow> c \<noteq> NUL \<and> c \<noteq> CHR '' ''"
  using of_char_eq_iff [of c "CHR '' ''", where ?'a = nat] by (simp add: IsNonEOS_iff)

lemma word_nonEOS: "CHR '' '' \<notin> set w \<Longrightarrow> NUL \<notin> set w \<Longrightarrow> \<forall>c\<in>set w. IsNonEOS c"
  by (auto simp: IsNonEOS_eq)

lemma put_args_blank: "put_args as f = CHR '' '' # tl (put_args as f)"
  by (cases as) auto

lemma split_args_put: "list_all word as \<Longrightarrow> i + length as < n \<Longrightarrow> split_args n i (put_args as f) = as @ [f]"
proof (induction as arbitrary: i)
  case Nil
  then show ?case by (subst split_args.simps) simp
next
  case (Cons a as)
  obtain c w where a: "a = c # w" "c \<noteq> CHR '':''" "c \<noteq> CHR '' ''" "CHR '' '' \<notin> set a" "NUL \<notin> set a"
    using Cons.prems(1) by (cases a) (auto simp: word_def)
  have "skip_blanks (put_args (a # as) f) = c # w @ put_args as f" using a by simp
  moreover have "takeWhile IsNonEOS (a @ put_args as f) = a" "dropWhile IsNonEOS (a @ put_args as f) = put_args as f"
    using word_nonEOS [OF a(4,5)] put_args_blank [of as f]
    by (metis IsNonEOS_blank append_Nil2 takeWhile.simps(2) takeWhile_append2,
        metis IsNonEOS_blank dropWhile.simps(2) dropWhile_append2)
  ultimately show ?case using Cons a by (subst split_args.simps) simp
qed


lemma until_mark:
  assumes "x \<notin> set s"
  shows "takeWhile (\<lambda>y. y \<noteq> x) (s @ x # t) = s" "dropWhile (\<lambda>y. y \<noteq> x) (s @ x # t) = x # t"
  using assms by (induction s) auto

lemma split_prefix_put:
  assumes "word cmd" and "length sender \<le> HOSTLEN" and "CHR '' '' \<notin> set sender" and "NUL \<notin> set sender"
  shows "split_prefix (put_line sender cmd as f) = (sender, cmd @ put_args as f)"
proof -
  obtain c w where c: "cmd = c # w" "c \<noteq> CHR '':''" "c \<noteq> CHR '' ''" using assms(1) by (cases cmd) (auto simp: word_def)
  show ?thesis
  proof (cases "sender = []")
    case True
    then show ?thesis using c by (simp add: split_prefix_def put_line_def)
  next
    case False
    then show ?thesis using c until_mark [OF assms(3)] assms(2) by (simp add: split_prefix_def put_line_def)
  qed
qed

lemma split_command_put:
  assumes "word cmd"
  shows "split_command (cmd @ put_args as f) = (cmd, Some (tl (put_args as f)))"
proof -
  have "CHR '' '' \<notin> set cmd" using assms by (auto simp: word_def)
  moreover obtain t where "put_args as f = CHR '' '' # t" using put_args_blank by blast
  ultimately show ?thesis using until_mark [of "CHR '' ''" cmd] by (simp add: split_command_def)
qed

lemma split_args_tl_blank: "split_args n i (CHR '' '' # s) = split_args n i s"
  by (subst (1 2) split_args.simps) simp

text \<open>
  A line written as an optional prefix, a command word, parameter words and a last
  parameter after a colon (any text, blanks and colons included) is read back as exactly that prefix, command
  and parameters, for a command that takes more than the words given. \<open>tl\<close> drops the blank after the command.
\<close>

theorem line_roundtrip:
  assumes "word cmd" and "list_all word as" and "Suc (length as) < min n MAXPARA"
    and "length sender \<le> HOSTLEN" and "CHR '' '' \<notin> set sender" and "NUL \<notin> set sender"
  shows "split_prefix (put_line sender cmd as final_arg) = (sender, cmd @ put_args as final_arg) \<and>
    split_command (cmd @ put_args as final_arg) = (cmd, Some (tl (put_args as final_arg))) \<and>
    params n (Some (tl (put_args as final_arg))) = as @ [final_arg]"
proof -
  have "split_args (min n MAXPARA) 1 (put_args as final_arg) = as @ [final_arg]"
    using split_args_put [OF assms(2)] assms(3) by simp
  then have "split_args (min n MAXPARA) 1 (tl (put_args as final_arg)) = as @ [final_arg]"
    by (metis put_args_blank split_args_tl_blank)
  then show ?thesis
    using split_prefix_put [OF assms(1,4-6)] split_command_put [OF assms(1)] by (simp add: params_def)
qed

theorem line_roundtrip_witness:
  "split_prefix '':Ana PRIVMSG #pt :boa tarde'' = (''Ana'', ''PRIVMSG #pt :boa tarde'') \<and>
   params 15 (Some ''#pt :boa tarde'') = [''#pt'', ''boa tarde'']"
proof -
  have h: "word ''PRIVMSG''" "list_all word [''#pt'']" "Suc (length [''#pt'']) < min 15 MAXPARA"
    "length ''Ana'' \<le> HOSTLEN" "CHR '' '' \<notin> set ''Ana''" "NUL \<notin> set ''Ana''"
    by (simp_all add: word_def MAXPARA_def HOSTLEN_def)
  show ?thesis using line_roundtrip [OF h, of "''boa tarde''"] by (simp add: put_line_def)
qed

text \<open>
  C20. What a handler can rely on. Either \<open>parse\<close> runs no handler, or it runs exactly one, once, as its last step, and
  returns what that returns: a handler of the table, for the connection the line came from; with a source that is that
  connection, or, when the connection is a server, a client reached through it; with at most 15 parameters, the first
  being the name of the source (as the line writes it: the same up to case, or a server name that the wildcard name of the source
  covers); and only if the connection is registered (and past the host check) or the command may be used before
  registration.
\<close>

theorem parse_authentic:
  assumes "\<And>w k. NUL \<notin> set w \<Longrightarrow> tree_parse (msg_tree_root st) w = Some k \<Longrightarrow> k < length (p_msgtab st)"
    and "NUL \<notin> set pbuffer"
  shows "(\<exists>r. \<forall>run. parse run gcn cptr pbuffer bufend st = r) \<or>
    (\<exists>k from p0 args st'. k < length (p_msgtab st) \<and> authentic st cptr from \<and> permitted st cptr k \<and>
      names_source st cptr from p0 \<and> Suc (length args) \<le> MAXPARA \<and>
      (\<forall>run. parse run gcn cptr pbuffer bufend st = run (m_func (p_msgtab st ! k)) cptr from (p0 # args) st'))"
proof (cases "line_source gcn cptr (fst (split_prefix pbuffer)) pbuffer st")
  case (Inr r)
  then show ?thesis
    by (intro disjI1 exI [of _ "if IsDead (base st cptr) then (st, -1) else r"]) (auto simp: parse_def split_beta)
next
  case (Inl fp)
  obtain src p0 where fp: "fp = (src, p0)" by fastforce
  have auth: "authentic st cptr src" using line_source_Inl Inl fp by (auto simp: authentic_def)
  have named: "names_source st cptr src p0" using line_source_names Inl fp by blast
  define ch where "ch = snd (split_prefix pbuffer)"
  define cmd where "cmd = fst (split_command ch)"
  show ?thesis
  proof (cases "IsDead (base st cptr) \<or> ch = [] \<or> is_numeric ch \<or> tree_parse (msg_tree_root st) cmd = None")
    case True
    then show ?thesis using Inl
      by (intro disjI1 exI [of _ "parse (\<lambda>_ _ _ _ s. (s, 0)) gcn cptr pbuffer bufend st"])
        (auto simp: parse_def split_beta fp ch_def cmd_def Let_def)
  next
    case False
    then obtain k where k: "tree_parse (msg_tree_root st) cmd = Some k" by blast
    have "NUL \<notin> set (skip_blanks pbuffer)" using assms(2) by (auto dest: set_dropWhileD)
    then have "NUL \<notin> set cmd"
      by (auto simp: cmd_def ch_def split_command_def split_prefix_def
        dest!: set_takeWhileD set_dropWhileD split: list.splits if_splits)
    then have l: "k < length (p_msgtab st)" using k by (rule assms(1))
    define m s i where "m = p_msgtab st ! k" and "s = snd (split_command ch)"
      and "i = int bufend - int (length pbuffer) + int (length (case s of None \<Rightarrow> cmd | Some t \<Rightarrow> t))"
    define st1 where "st1 = flood_delay cptr m i (st\<lparr>p_msgtab := (p_msgtab st)[k := m\<lparr>m_bytes := m_bytes m + word_of_int i\<rparr>]\<rparr>)"
    define args where "args = params (m_parameters m) s"
    have p: "parse run gcn cptr pbuffer bufend st = dispatch run k cptr src cmd (p0 # args) st1" for run
      using Inl False k unfolding args_def st1_def i_def s_def m_def cmd_def
      by (simp add: parse_def split_beta fp ch_def [symmetric] Let_def)
    have tab: "p_msgtab st1 = (p_msgtab st)[k := m\<lparr>m_bytes := m_bytes m + word_of_int i\<rparr>]" "permitted st1 cptr k = permitted st cptr k"
      "m_func (p_msgtab st1 ! k) = m_func (p_msgtab st ! k)"
      using l by (simp_all add: st1_def flood_delay_sel flood_delay_permitted m_def)
    have "k < length (p_msgtab st1)" using l by (simp add: tab)
    then consider r where "\<And>run. dispatch run k cptr src cmd (p0 # args) st1 = r"
      | st' where "permitted st cptr k"
        "\<And>run. dispatch run k cptr src cmd (p0 # args) st1 = run (m_func (p_msgtab st ! k)) cptr src (p0 # args) st'"
      using dispatch_once [of k cptr src cmd "p0 # args" st1] unfolding tab(2,3) by (auto simp: not_le [symmetric])
    then show ?thesis
    proof cases
      case 1
      show ?thesis unfolding p by (intro disjI1 exI [of _ r] allI 1)
    next
      case 2
      show ?thesis unfolding p
        by (intro disjI2 exI [of _ k] exI [of _ src] exI [of _ p0] exI [of _ args] exI [of _ st'] conjI allI 2 l auth named)
          (use length_params [of "m_parameters m" s] in \<open>simp add: args_def\<close>)
    qed
  qed
qed

text \<open>A server that has just started, with no client but the connection 1.\<close>

definition first_state :: "message list \<Rightarrow> mtree \<Rightarrow> status \<Rightarrow> pstate" where
  "first_state tab t stat = \<lparr>pc = (\<lambda>_. \<lparr>c_name = ''Ana'', c_username = ''ana'', c_host = ''h'', c_realhost = ''h'',
     c_umodes = 0, c_flags = 0, c_status = stat, local_flag = True, c_since = 0, has_user = True,
     u_channel = [], u_invited = [], u_joined = 0, u_away = None, u_server = ''irc.pt'', c_from = 1,
     last_join_time = 0, last_leave_time = 0, join_leave_count = 0, oper_warn_count_down = 0, last_knock = 0,
     targets = replicate 10 0, nexttarget = 0, u_silence = [],
     c_does_ts = True, c_hvc = False, c_doing_list = False, u_last = 0, receiveM_of = 0\<rparr>),
     client_tab = clear_hash_table, pchan_name = (\<lambda>_. []), pchan_tab = clear_hash_table, p_msgtab = tab,
     msg_tree_root = t, is_unpf = 0, is_wrdi = 0, is_empt = 0, is_num = 0, is_unco = 0, p_now = 0,
     p_me = ''irc.pt'', hvc_enabled = False, p_events = []\<rparr>"

theorem parse_authentic_witness:
  "\<exists>tab t. init_tree_parse msgtab = Some (tab, t) \<and>
     (let st = first_state tab t STAT_CLIENT in
      (\<exists>r. \<forall>run. parse run (\<lambda>_ _ _. []) 1 ''PING x'' 6 st = r) \<or>
      (\<exists>k from p0 args st'. k < length tab \<and> authentic st 1 from \<and> permitted st 1 k \<and>
        names_source st 1 from p0 \<and> Suc (length args) \<le> MAXPARA \<and>
        (\<forall>run. parse run (\<lambda>_ _ _. []) 1 ''PING x'' 6 st = run (m_func (tab ! k)) 1 from (p0 # args) st')))"
proof -
  obtain tab t where i: "init_tree_parse msgtab = Some (tab, t)" using command_tree [OF msgtab_good, of "[]"] by auto
  let ?st = "first_state tab t STAT_CLIENT"
  have t: "p_msgtab ?st = tab" "msg_tree_root ?st = t" by (simp_all add: first_state_def)
  have "k < length tab" if "NUL \<notin> set w" "tree_parse t w = Some k" for w k
    using command_tree [OF msgtab_good that(1)] i that(2) by auto
  with parse_authentic [of ?st "''PING x''" "\<lambda>_ _ _. []" 1 6] i show ?thesis
    unfolding t Let_def by (intro exI [of _ tab] exI [of _ t] conjI) auto
qed

end
