(* ===== verification/ChanWire.thy ===== *)
theory ChanWire
  imports ChanSjoin Parse
begin

text \<open>
  The burst between two servers, from end to end: what \<open>send_channel_modes\<close> writes (\<open>src/channel.c\<close>) is
  split by \<open>parse\<close> (\<open>src/parse.c\<close>) into the parameters \<open>m_njoin\<close> gets, and these are the channel.
\<close>

lemma split_args_words:
  "list_all word as \<Longrightarrow> i + length as < n \<Longrightarrow>
    split_args n i (concat (map (\<lambda>a. a @ '' '') as) @ t) = as @ split_args n (i + length as) t"
proof (induction as arbitrary: i)
  case (Cons a as)
  then obtain c w where a: "a = c # w" "c \<noteq> CHR '':''" "c \<noteq> CHR '' ''" "word a" by (cases a) (auto simp: word_def)
  let ?r = "concat (map (\<lambda>a. a @ '' '') as) @ t"
  have e: "\<forall>x\<in>set a. IsNonEOS x" using a(4) by (auto simp: word_def IsNonEOS_eq)
  then have "takeWhile IsNonEOS (a @ '' '' @ ?r) = a" "dropWhile IsNonEOS (a @ '' '' @ ?r) = '' '' @ ?r"
    by (simp_all add: takeWhile_append2 dropWhile_append2)
  moreover have "skip_blanks (a @ '' '' @ ?r) = c # w @ '' '' @ ?r" using a by simp
  ultimately have "split_args n i (a @ '' '' @ ?r) = a # split_args n (Suc i) ('' '' @ ?r)"
    using Cons.prems(2) a by (subst split_args.simps) simp
  then show ?case using Cons by (simp add: split_args_tl_blank)
qed simp

lemma split_args_last: "split_args n i (CHR '':'' # t) = [t]"
  by (subst split_args.simps) simp

lemma word_dec: "word (dec i)"
proof -
  have d: "c \<in> set (dec_nat n) \<Longrightarrow> c \<noteq> CHR '' '' \<and> c \<noteq> NUL \<and> c \<noteq> CHR '':''" for c n
    using dec_nat_digits [of c n] by (auto simp: is_digit_def)
  have "hd (dec_nat n) \<noteq> CHR '':''" for n using d [of "hd (dec_nat n)" n] dec_nat_not_Nil by (metis list.set_sel(1))
  then show ?thesis using d by (auto simp: word_def dec_def)
qed

lemma word_flood: "word (dec i @ '':'' @ dec j)"
  using word_dec [of i] word_dec [of j] by (auto simp: word_def)

lemma flag_char_mem: "x \<in> set (flag_char m b c) \<longleftrightarrow> has m b \<and> x = c"
  by (auto simp: flag_char_def)

lemma word_modes: "word (fst (channel_modes cl ch False [] s))"
  by (simp add: word_def channel_modes_def Let_def flag_char_mem)

lemma words_params: "md_key md = [] \<or> word (md_key md) \<Longrightarrow> list_all word (mode_params md)"
  using word_dec word_flood by (auto simp: mode_params_def)

text \<open>
  C21. A server understands the burst of another: the first line of \<open>send_channel_modes\<close>, with any
  list of members behind it, is split by \<open>parse\<close> into the prefix, the command \<open>NJOIN\<close> and parameters from
  which \<open>m_njoin\<close> reads the channel's time stamp, its name, every flag that has a letter, its limit, key and
  flood limit, and that list of members.
\<close>

theorem burst_understood:
  assumes "IsServer (clients s cl)" "in_range (mode (chans s ch))" "md_key (mode (chans s ch)) = [] \<or> word (md_key (mode (chans s ch)))"
    and "word (chname (chans s ch))" "0 \<le> channelts (chans s ch)" "channelts (chans s ch) < 2 ^ 63"
    and "me_name (cfg s) \<noteq> []" "length (me_name (cfg s)) \<le> HOSTLEN" "CHR '' '' \<notin> set (me_name (cfg s))"
  defines "md \<equiv> mode (chans s ch)"
  shows "\<exists>rest. split_prefix (first_header cl ch s @ us) = (me_name (cfg s), ''NJOIN '' @ rest) \<and>
    split_command (''NJOIN '' @ rest) = (''NJOIN'', Some rest) \<and>
    (let parv = me_name (cfg s) # params 15 (Some rest) in
       strtol (parv ! 1) = channelts (chans s ch) \<and> parv ! 2 = chname (chans s ch) \<and>
       sj_modes (parv ! 3) (drop 4 parv) no_mode =
         Some (md\<lparr>md_mode := md_mode md AND all_flags, md_per := (if md_msgs md \<noteq> 0 then md_per md else 0)\<rparr>, [us]))"
proof -
  define mb where "mb = fst (channel_modes cl ch False [] s)"
  let ?pb = "concat (map (\<lambda>p. p @ '' '') (mode_params md))"
  let ?as = "[lu (channelts (chans s ch)), chname (chans s ch), mb] @ mode_params md"
  define rest where "rest = concat (map (\<lambda>a. a @ '' '') ?as) @ (if ?pb \<noteq> [] then '' '' else []) @ '':'' @ us"
  have cm: "channel_modes cl ch False [] s = (mb, ?pb)"
    using mode_params_text [OF assms(1), of ch] by (cases "channel_modes cl ch False [] s") (simp add: mb_def md_def)
  have line: "first_header cl ch s @ us = '':'' @ me_name (cfg s) @ '' '' @ ''NJOIN '' @ rest"
    by (simp add: first_header_def njoin_header_def cm rest_def)
  have "takeWhile (\<lambda>d. d \<noteq> CHR '' '') (me_name (cfg s) @ '' '' @ t) = me_name (cfg s)"
    "dropWhile (\<lambda>d. d \<noteq> CHR '' '') (me_name (cfg s) @ '' '' @ t) = '' '' @ t" for t
    using assms(9) by (subst takeWhile_append2 dropWhile_append2; auto)+
  then have 1: "split_prefix (first_header cl ch s @ us) = (me_name (cfg s), ''NJOIN '' @ rest)"
    using assms(7,8) unfolding line by (simp add: split_prefix_def)
  have 2: "split_command (''NJOIN '' @ rest) = (''NJOIN'', Some rest)" by (simp add: split_command_def)
  have w: "list_all word ?as"
    using words_params assms(3,4) word_modes word_dec by (simp add: mb_def md_def lu_def)
  have len: "1 + length ?as < min 15 MAXPARA" by (simp add: MAXPARA_def mode_params_def)
  have tail: "split_args n i ((if ?pb \<noteq> [] then '' '' else []) @ '':'' @ us) = [us]" for n i
    by (simp add: split_args_tl_blank split_args_last)
  have 3: "params 15 (Some rest) = ?as @ [us]"
    using split_args_words [OF w len] tail unfolding rest_def params_def by (simp del: map_append)
  have 4: "sj_modes mb (mode_params md @ [us]) no_mode =
      Some (md\<lparr>md_mode := md_mode md AND all_flags, md_per := (if md_msgs md \<noteq> 0 then md_per md else 0)\<rparr>, [us])"
    using mode_word_read [OF assms(2), of cl us] by (simp add: mb_def md_def)
  show ?thesis
    using 1 2 4 strtol_lu [OF assms(5)] assms(6) by (intro exI [of _ rest]) (simp add: 3 Let_def)
qed

theorem burst_understood_witness:
  "\<exists>rest. split_prefix (first_header 9 5 net @ ''@op'') = (me_name (cfg net), ''NJOIN '' @ rest) \<and>
    (let parv = me_name (cfg net) # params 15 (Some rest) in
       strtol (parv ! 1) = 100 \<and> parv ! 2 = ''#c'' \<and>
       sj_modes (parv ! 3) (drop 4 parv) no_mode = Some (no_mode\<lparr>md_mode := MODE_OPERONLY\<rparr>, [''@op'']))"
proof -
  have "IsServer (clients net 9)" "in_range (mode (chans net 5))" "md_key (mode (chans net 5)) = []" "word (chname (chans net 5))"
    "me_name (cfg net) \<noteq> []" "length (me_name (cfg net)) \<le> HOSTLEN" "CHR '' '' \<notin> set (me_name (cfg net))"
    by (simp_all add: net_sel IsServer_def in_range_def no_mode_def word_def plain_config_def HOSTLEN_def)
  with burst_understood [of net 9 5 "''@op''"] show ?thesis
    by (simp add: net_sel no_mode_def all_flags_def sj_letters_def mode_defs Let_def) blast
qed

end
