(* ===== verification/Watch.thy ===== *)
theory Watch
  imports ChanCmd ChanBurst IrcString
begin

text \<open>
  Watch lists: the watch table of \<open>src/hash.c\<close> and the command of \<open>src/m_watch.c\<close>. A watch block
  holds a nick and the clients that watch it; a client holds the blocks of the nicks it watches.
  Blocks are numbers; \<open>watchTable\<close> maps a bucket to its chain, \<open>w_top\<close> is the next block
  \<open>MyMalloc\<close> returns. \<open>lk\<close> stands for \<open>find_person\<close>. What follows a null pointer is \<open>Inl NullDeref\<close>.
\<close>

subsection \<open>Data\<close>

definition WATCHHASHSIZE :: nat where "WATCHHASHSIZE = 10007"
definition MAXWATCH :: int where "MAXWATCH = 128"

record watch =
  w_nick :: cstr
  w_lasttime :: time_t
  w_watch :: "nat list"

text \<open>
  Client fields that only these lists use are maps of the state; \<open>user_bytes\<close> is what \<open>%s\<close> prints for
  a pointer to the user block.
\<close>

record wstate =
  w_irc :: ircd
  wmem :: "nat \<Rightarrow> watch"
  watchTable :: "nat \<Rightarrow> nat list"
  w_top :: nat
  watch_list :: "nat \<Rightarrow> nat list"
  watches :: "nat \<Rightarrow> int"
  c_info :: "nat \<Rightarrow> cstr"
  tsinfo :: "nat \<Rightarrow> time_t"
  lasttime :: "nat \<Rightarrow> time_t"
  user_bytes :: "nat \<Rightarrow> cstr"

definition watch_bucket :: "cstr \<Rightarrow> nat" where
  "watch_bucket nick = hash_nick_name nick mod WATCHHASHSIZE"

definition nick_of :: "wstate \<Rightarrow> nat \<Rightarrow> cstr" where
  "nick_of s p = w_nick (wmem s p)"

definition watchers :: "wstate \<Rightarrow> nat \<Rightarrow> nat list" where
  "watchers s p = w_watch (wmem s p)"

text \<open>\<open>%d\<close> of a 64-bit time.\<close>

definition d32 :: "int \<Rightarrow> cstr" where
  "d32 i = dec (sint (word_of_int i :: 32 word))"

definition wsend :: "target \<Rightarrow> cstr \<Rightarrow> wstate \<Rightarrow> wstate" where
  "wsend t m s = s\<lparr>w_irc := send t m (w_irc s)\<rparr>"

definition wnumeric :: "nat \<Rightarrow> cstr \<Rightarrow> cstr \<Rightarrow> cstr \<Rightarrow> wstate \<Rightarrow> wstate" where
  "wnumeric p num name txt s = s\<lparr>w_irc := numeric p num name txt (w_irc s)\<rparr>"

subsection \<open>The table\<close>

definition clear_watch_hash_table :: "wstate \<Rightarrow> wstate" where
  "clear_watch_hash_table s = s\<lparr>watchTable := (\<lambda>_. [])\<rparr>"

definition count_watch_memory :: "nat \<Rightarrow> wstate \<Rightarrow> nat \<times> nat" where
  "count_watch_memory sizeof_watch s =
     (let ps = concat (map (watchTable s) [0..<WATCHHASHSIZE])
      in (length ps, sum_list (map (\<lambda>p. sizeof_watch + length (nick_of s p)) ps)))"

definition hash_get_watch :: "cstr \<Rightarrow> wstate \<Rightarrow> nat option" where
  "hash_get_watch name s = List.find (\<lambda>p. strcasecmp_eq (nick_of s p) name) (watchTable s (watch_bucket name))"

text \<open>The block of a nick, made when there is none.\<close>

definition new_watch :: "cstr \<Rightarrow> wstate \<Rightarrow> wstate" where
  "new_watch nick s =
     s\<lparr>wmem := (wmem s)(w_top s := \<lparr>w_nick = nick, w_lasttime = CurrentTime (w_irc s), w_watch = []\<rparr>),
       watchTable := chain_add (watch_bucket nick) (w_top s) (watchTable s), w_top := Suc (w_top s)\<rparr>"

definition link_watch :: "nat \<Rightarrow> nat \<Rightarrow> wstate \<Rightarrow> wstate" where
  "link_watch p c s =
     s\<lparr>wmem := (wmem s)(p := (wmem s p)\<lparr>w_watch := c # w_watch (wmem s p)\<rparr>),
       watch_list := (watch_list s)(c := p # watch_list s c), watches := (watches s)(c := watches s c + 1)\<rparr>"

definition add_to_watch_hash_table :: "cstr \<Rightarrow> nat \<Rightarrow> wstate \<Rightarrow> wstate" where
  "add_to_watch_hash_table nick c s =
     (let (p, s1) = (case hash_get_watch nick s of Some p \<Rightarrow> (p, s) | None \<Rightarrow> (w_top s, new_watch nick s))
      in if c \<in> set (watchers s1 p) then s1 else link_watch p c s1)"

text \<open>The texts of \<open>form_str\<close> for a client that is (not) there.\<close>

definition watch_tail :: "nat \<Rightarrow> cstr" where
  "watch_tail rpl =
     (if rpl = 600 then '':logged online'' else if rpl = 601 then '':logged offline''
      else if rpl = 602 then '':stopped watching'' else if rpl = 604 then '':is online'' else '':is offline'')"

definition watch_reply :: "nat \<Rightarrow> nat \<Rightarrow> cstr \<Rightarrow> cstr \<Rightarrow> cstr \<Rightarrow> cstr \<Rightarrow> time_t \<Rightarrow> wstate \<Rightarrow> wstate" where
  "watch_reply p rpl name nick user host t =
     wnumeric p (dec_nat rpl) name (nick @ '' '' @ user @ '' '' @ host @ '' '' @ d32 t @ '' '' @ watch_tail rpl)"

definition hash_check_watch :: "nat \<Rightarrow> nat \<Rightarrow> wstate \<Rightarrow> wstate" where
  "hash_check_watch cptr rpl s =
     (let c = clients (w_irc s) cptr; now = CurrentTime (w_irc s) in
      case hash_get_watch (c_name c) s of
        None \<Rightarrow> s
      | Some p \<Rightarrow>
          fold (\<lambda>d t. watch_reply d rpl (c_name (clients (w_irc s) d)) (c_name c)
                  (if IsPerson c then c_username c else ''<N/A>'') (if IsPerson c then c_host c else ''<N/A>'') now t)
            (watchers s p) (s\<lparr>wmem := (wmem s)(p := (wmem s p)\<lparr>w_lasttime := now\<rparr>)\<rparr>))"

text \<open>
  The links on both sides: the first of each. On the client's side a missing link is reported;
  \<open>cptr->user\<close> is printed with \<open>%s\<close>.
\<close>

definition drop_watcher :: "nat \<Rightarrow> nat \<Rightarrow> wstate \<Rightarrow> wstate" where
  "drop_watcher p c s = s\<lparr>wmem := (wmem s)(p := (wmem s p)\<lparr>w_watch := remove1 c (w_watch (wmem s p))\<rparr>)\<rparr>"

definition drop_watched :: "nat \<Rightarrow> nat \<Rightarrow> wstate \<Rightarrow> wstate" where
  "drop_watched p c s = s\<lparr>watch_list := (watch_list s)(c := remove1 p (watch_list s c))\<rparr>"

text \<open>A block without watchers leaves its chain; the walk looks for its predecessor.\<close>

definition free_watch :: "nat \<Rightarrow> nat \<Rightarrow> wstate \<Rightarrow> ub + wstate" where
  "free_watch h p s =
     (if watchers s p \<noteq> [] then Inr s
      else case unlink p (watchTable s h) of None \<Rightarrow> Inl NullDeref
           | Some ps \<Rightarrow> Inr (s\<lparr>watchTable := (watchTable s)(h := ps)\<rparr>))"

definition del_from_watch_hash_table :: "cstr \<Rightarrow> nat \<Rightarrow> wstate \<Rightarrow> ub + wstate" where
  "del_from_watch_hash_table nick c s =
     (case hash_get_watch nick s of
        None \<Rightarrow> Inr s
      | Some p \<Rightarrow>
          if c \<notin> set (watchers s p) then Inr s
          else
            let s1 = drop_watcher p c s;
                s2 = (if p \<in> set (watch_list s1 c) then drop_watched p c s1
                      else wsend ToOps (''WATCH debug error: del_from_watch_hash_table found a watch entry with no client counterpoint processing nick ''
                             @ nick @ '' on client '' @ user_bytes s1 c @ ''!'') s1)
            in bind_ub (free_watch (watch_bucket nick) p s2)
                 (\<lambda>s3. Inr (s3\<lparr>watches := (watches s3)(c := watches s3 c - 1)\<rparr>)))"

fun del_watches :: "nat \<Rightarrow> nat list \<Rightarrow> wstate \<Rightarrow> ub + wstate" where
  "del_watches c [] s = Inr s"
| "del_watches c (p # ps) s =
     bind_ub
       (if c \<in> set (watchers s p) then free_watch (watch_bucket (nick_of s p)) p (drop_watcher p c s)
        else Inr (wsend ToOps (''WATCH Debug error: hash_del_watch_list found a WATCH entry with no table counterpoint processing client ''
                @ c_name (clients (w_irc s) c) @ ''!'') s))
       (del_watches c ps)"

definition hash_del_watch_list :: "nat \<Rightarrow> wstate \<Rightarrow> ub + wstate" where
  "hash_del_watch_list c s =
     (if watch_list s c = [] then Inr s
      else bind_ub (del_watches c (watch_list s c) (s\<lparr>watch_list := (watch_list s)(c := [])\<rparr>))
             (\<lambda>s1. Inr (s1\<lparr>watches := (watches s1)(c := 0)\<rparr>)))"

subsection \<open>The command\<close>

definition show_watch :: "(cstr \<Rightarrow> nat option) \<Rightarrow> nat \<Rightarrow> cstr \<Rightarrow> nat \<Rightarrow> nat \<Rightarrow> wstate \<Rightarrow> wstate" where
  "show_watch lk cptr name rpl1 rpl2 s =
     (let me = c_name (clients (w_irc s) cptr) in
      case lk name of
        Some a \<Rightarrow> (let c = clients (w_irc s) a in watch_reply cptr rpl1 me (c_name c) (c_username c) (c_host c) (lasttime s a) s)
      | None \<Rightarrow> watch_reply cptr rpl2 me name ''*'' ''*'' 0 s)"

text \<open>The nicks are gathered in a buffer that is sent when the next one might not fit.\<close>

fun watch_lines :: "nat \<Rightarrow> cstr \<Rightarrow> nat \<Rightarrow> cstr list \<Rightarrow> cstr list" where
  "watch_lines base buf n [] = [buf]"
| "watch_lines base buf n (nick # nicks) =
     (if BUFSIZE - 2 < n + length nick + 1 then buf # watch_lines base ('' '' @ nick) (base + (length nick + 1)) nicks
      else watch_lines base (buf @ '' '' @ nick) (n + (length nick + 1)) nicks)"

definition end_of_watch :: "nat \<Rightarrow> cstr \<Rightarrow> char \<Rightarrow> wstate \<Rightarrow> wstate" where
  "end_of_watch sptr name c = wnumeric sptr ''607'' name ('':End of WATCH '' @ [c])"

definition watch_status :: "nat \<Rightarrow> cstr \<Rightarrow> char \<Rightarrow> wstate \<Rightarrow> ub + wstate" where
  "watch_status sptr name c s =
     bind_ub
       (case hash_get_watch (c_name (clients (w_irc s) sptr)) s of
          None \<Rightarrow> Inr 0
        | Some p \<Rightarrow> if watchers s p = [] then Inl NullDeref else Inr (length (watchers s p)))
       (\<lambda>n. let s1 = wnumeric sptr ''603'' name ('':You have '' @ dec (watches s sptr) @ '' and are on '' @ dec_nat n @ '' WATCH entries'') s
            in case map (nick_of s) (watch_list s sptr) of
                 [] \<Rightarrow> Inr (end_of_watch sptr name c s1)
               | nick # nicks \<Rightarrow>
                   let base = length name + length (me_name (cfg (w_irc s))) + 10
                   in Inr (end_of_watch sptr name c
                        (fold (\<lambda>l. wnumeric sptr ''606'' name ('':'' @ l)) (watch_lines base nick (base + length nick) nicks) s1)))"

text \<open>\<open>ToUpper\<close> of the letter is never zero, so offline nicks are always shown.\<close>

definition watch_show_list :: "(cstr \<Rightarrow> nat option) \<Rightarrow> nat \<Rightarrow> cstr \<Rightarrow> char \<Rightarrow> wstate \<Rightarrow> wstate" where
  "watch_show_list lk sptr name c s =
     end_of_watch sptr name c
       (fold (\<lambda>p t.
          case lk (nick_of s p) of
            Some a \<Rightarrow> (let d = clients (w_irc s) a in watch_reply sptr 604 name (c_name d) (c_username d) (c_host d) (tsinfo s a) t)
          | None \<Rightarrow> if ToUpper c \<noteq> NUL then watch_reply sptr 605 name (nick_of s p) ''*'' ''*'' (w_lasttime (wmem s p)) t else t)
        (watch_list s sptr) s)"

definition watch_item :: "(cstr \<Rightarrow> nat option) \<Rightarrow> nat \<Rightarrow> nat \<Rightarrow> cstr \<Rightarrow> cstr \<Rightarrow> wstate \<Rightarrow> ub + wstate" where
  "watch_item lk cptr sptr name tok s =
     (let t = takeWhile (\<lambda>c. c \<noteq> CHR ''!'') tok; c = hd0 t in
      if c = CHR ''+'' then
        (if tl t \<noteq> [] \<and> watches s sptr \<ge> MAXWATCH
         then Inr (wnumeric sptr ''512'' (c_name (clients (w_irc s) cptr))
                (tl t @ '' :Maximum size for WATCH-list is '' @ dec MAXWATCH @ '' entries'') s)
         else let s1 = (if tl t \<noteq> [] then add_to_watch_hash_table (tl t) sptr s else s)
              in Inr (show_watch lk sptr (tl t) 604 605 s1))
      else if c = CHR ''-'' then
        bind_ub (del_from_watch_hash_table (tl t) sptr s) (\<lambda>s1. Inr (show_watch lk sptr (tl t) 602 602 s1))
      else if c = CHR ''C'' \<or> c = CHR ''c'' then hash_del_watch_list sptr s
      else if c = CHR ''S'' \<or> c = CHR ''s'' then watch_status sptr name c s
      else if c = CHR ''L'' \<or> c = CHR ''l'' then Inr (watch_show_list lk sptr name c s)
      else Inr s)"

fun watch_items :: "(cstr \<Rightarrow> nat option) \<Rightarrow> nat \<Rightarrow> nat \<Rightarrow> cstr \<Rightarrow> cstr list \<Rightarrow> wstate \<Rightarrow> ub + wstate" where
  "watch_items lk cptr sptr name [] s = Inr s"
| "watch_items lk cptr sptr name (t # ts) s = bind_ub (watch_item lk cptr sptr name t s) (watch_items lk cptr sptr name ts)"

definition m_watch :: "(cstr \<Rightarrow> nat option) \<Rightarrow> nat \<Rightarrow> nat \<Rightarrow> cstr list \<Rightarrow> wstate \<Rightarrow> ub + wstate" where
  "m_watch lk cptr sptr parv s =
     watch_items lk cptr sptr (parv ! 0) (strtokens '', '' (Some (if length parv < 2 then ''l'' else parv ! 1))) s"

subsection \<open>The two contracts\<close>

lemma byte_tolower: "byte (tolower c) = (if 65 \<le> byte c \<and> byte c \<le> 90 then byte c + 32 else byte c)"
  using nat_of_char_less_256 [of c] by (auto simp: tolower_def)

lemma ToLower_tolower: "ToLower (tolower c) = ToLower c"
proof -
  have "byte (ToLower (tolower c)) = byte (ToLower c)" unfolding byte_ToLower byte_tolower by auto
  then show ?thesis by simp
qed

lemma tolower_eq_NUL: "tolower c = NUL \<longleftrightarrow> c = NUL"
proof -
  have "byte (tolower c) = byte NUL \<longleftrightarrow> byte c = byte NUL" using byte_tolower [of c] by (auto split: if_splits)
  then show ?thesis by (simp only: of_char_eq_iff)
qed

lemma map_tolower_cut: "map tolower (cut s) = cut (map tolower s)"
  by (simp add: cut_def takeWhile_map tolower_eq_NUL comp_def)

lemma strcasecmp_irc_eq: "strcasecmp_eq s t \<Longrightarrow> irc_eq s t"
proof -
  assume "strcasecmp_eq s t"
  then have "map tolower (cut s) = map tolower (cut t)" by (simp add: strcasecmp_eq_def map_tolower_cut)
  then have "map (ToLower \<circ> tolower) (cut s) = map (ToLower \<circ> tolower) (cut t)" by (metis map_map)
  then show ?thesis by (simp add: irc_eq_ToLower comp_def ToLower_tolower)
qed

lemma watch_bucket_cong: "strcasecmp_eq s t \<Longrightarrow> watch_bucket s = watch_bucket t"
  using hash_nick_name_cong [OF strcasecmp_irc_eq] by (simp add: watch_bucket_def)

interpretation watch_hash: name_hash strcasecmp_eq watch_bucket WATCHHASHSIZE
  by unfold_locales (erule watch_bucket_cong | simp add: strcasecmp_eq_def watch_bucket_def WATCHHASHSIZE_def)+

definition unlink_watch :: "nat \<Rightarrow> nat \<Rightarrow> wstate \<Rightarrow> wstate" where
  "unlink_watch p c s = drop_watched p c (drop_watcher p c s)"

interpretation wl: two_way watchers watch_list link_watch unlink_watch
  by unfold_locales (simp_all add: watchers_def link_watch_def unlink_watch_def drop_watched_def drop_watcher_def)

subsection \<open>The invariant\<close>

text \<open>
  Every block is in the chain of its nick, no two blocks have the same nick, the blocks of the table are those
  with a watcher, and both sides agree. \<open>X\<close> are blocks allowed to be without watchers for the moment.
\<close>

definition watch_inv :: "nat set \<Rightarrow> wstate \<Rightarrow> bool" where
  "watch_inv X s \<longleftrightarrow> wf_chains watch_bucket (nick_of s) (watchTable s) \<and>
     (\<forall>p q. in_table p (watchTable s) \<longrightarrow> in_table q (watchTable s) \<longrightarrow> strcasecmp_eq (nick_of s p) (nick_of s q) \<longrightarrow> p = q) \<and>
     (\<forall>p. in_table p (watchTable s) \<longleftrightarrow> watchers s p \<noteq> [] \<or> p \<in> X) \<and>
     (\<forall>p. in_table p (watchTable s) \<longrightarrow> p < w_top s) \<and> wl.agree s"

lemma watch_invI:
  assumes "wf_chains watch_bucket (nick_of s) (watchTable s)"
    and "\<And>p q. in_table p (watchTable s) \<Longrightarrow> in_table q (watchTable s) \<Longrightarrow> strcasecmp_eq (nick_of s p) (nick_of s q) \<Longrightarrow> p = q"
    and "\<And>p. in_table p (watchTable s) \<longleftrightarrow> watchers s p \<noteq> [] \<or> p \<in> X" "\<And>p. in_table p (watchTable s) \<Longrightarrow> p < w_top s" "wl.agree s"
  shows "watch_inv X s"
  unfolding watch_inv_def using assms by blast

lemma watch_invD:
  assumes "watch_inv X s"
  shows "wf_chains watch_bucket (nick_of s) (watchTable s)"
    "in_table p (watchTable s) \<Longrightarrow> in_table q (watchTable s) \<Longrightarrow> strcasecmp_eq (nick_of s p) (nick_of s q) \<Longrightarrow> p = q"
    "in_table p (watchTable s) \<longleftrightarrow> watchers s p \<noteq> [] \<or> p \<in> X" "in_table p (watchTable s) \<Longrightarrow> p < w_top s" "wl.agree s"
  using assms unfolding watch_inv_def by blast+

definition watch_ok :: "wstate \<Rightarrow> bool" where
  "watch_ok s \<longleftrightarrow> watch_inv {} s \<and> (\<forall>c. watches s c = int (length (watch_list s c)))"

lemma watch_eq_sym: "strcasecmp_eq a b = strcasecmp_eq b a"
  by (auto simp: strcasecmp_eq_def)

lemma get_watch_iff:
  assumes "watch_inv X s"
  shows "hash_get_watch n s = Some p \<longleftrightarrow> in_table p (watchTable s) \<and> strcasecmp_eq (nick_of s p) n"
proof -
  have f: "hash_get_watch n s = List.find (\<lambda>p. strcasecmp_eq n (nick_of s p)) (watchTable s (watch_bucket n))"
    by (simp add: hash_get_watch_def watch_eq_sym)
  have wf: "wf_chains watch_bucket (nick_of s) (watchTable s)" and u: "\<And>p q. in_table p (watchTable s) \<Longrightarrow> in_table q (watchTable s) \<Longrightarrow>
      strcasecmp_eq (nick_of s p) (nick_of s q) \<Longrightarrow> q = p"
    using assms by (auto simp: watch_inv_def)
  note e = watch_eq_sym [of "nick_of s p" n]
  show ?thesis
  proof
    assume "hash_get_watch n s = Some p"
    from watch_hash.found_sound [where nm = "nick_of s" and tab = "watchTable s", OF this [unfolded f]] show "in_table p (watchTable s) \<and> strcasecmp_eq (nick_of s p) n"
      by (simp add: e)
  next
    assume "in_table p (watchTable s) \<and> strcasecmp_eq (nick_of s p) n"
    with u show "hash_get_watch n s = Some p" unfolding f e by (intro watch_hash.found_unique [OF wf]) auto
  qed
qed

lemma get_watch_None:
  assumes "watch_inv X s" "hash_get_watch n s = None"
  shows "in_table p (watchTable s) \<Longrightarrow> \<not> strcasecmp_eq (nick_of s p) n"
  using get_watch_iff [OF assms(1), of n p] assms(2) by auto

lemma inv_found: "watch_inv {} s \<Longrightarrow> in_table p (watchTable s) \<Longrightarrow> watch_inv {p} s"
  by (auto simp: watch_inv_def)

lemma inv_filled: "watch_inv {p} s \<Longrightarrow> watchers s p \<noteq> [] \<Longrightarrow> watch_inv {} s"
  by (auto simp: watch_inv_def)

lemma wl_agree_cong: "watchers t = watchers s \<Longrightarrow> watch_list t = watch_list s \<Longrightarrow> wl.agree t = wl.agree s"
  by (simp add: wl.agree_def)

lemma inv_new:
  assumes "watch_inv {} s" "hash_get_watch n s = None"
  shows "watch_inv {w_top s} (new_watch n s)" "watchers (new_watch n s) = watchers s" "watch_list (new_watch n s) = watch_list s"
proof -
  let ?p = "w_top s" and ?t = "new_watch n s"
  have fresh: "\<not> in_table ?p (watchTable s)" using assms(1) by (auto simp: watch_inv_def)
  then have e: "watchers s ?p = []" using assms(1) by (auto simp: watch_inv_def)
  then show w: "watchers ?t = watchers s" by (auto simp: watchers_def new_watch_def fun_eq_iff)
  show wl: "watch_list ?t = watch_list s" by (simp add: new_watch_def)
  have nick: "nick_of ?t q = (if q = ?p then n else nick_of s q)" for q by (simp add: nick_of_def new_watch_def)
  have tab: "watchTable ?t = chain_add (watch_bucket (nick_of ?t ?p)) ?p (watchTable s)" by (simp add: nick) (simp add: new_watch_def)
  have "wf_chains watch_bucket (nick_of ?t) (watchTable s)"
    using assms(1) fresh by (auto simp: watch_inv_def wf_chains_def in_table_def nick)
  from watch_hash.chain_add_wf [OF this fresh] have wf: "wf_chains watch_bucket (nick_of ?t) (watchTable ?t)" by (simp add: tab)
  have top: "w_top ?t = Suc ?p" by (simp add: new_watch_def)
  have no: "in_table q (watchTable s) \<Longrightarrow> \<not> strcasecmp_eq (nick_of s q) n \<and> \<not> strcasecmp_eq n (nick_of s q)" for q
    using get_watch_None [OF assms] watch_eq_sym by metis
  have "\<forall>q r. in_table q (watchTable ?t) \<longrightarrow> in_table r (watchTable ?t) \<longrightarrow> strcasecmp_eq (nick_of ?t q) (nick_of ?t r) \<longrightarrow> q = r"
    using assms(1) no unfolding tab in_table_add by (auto simp: nick watch_inv_def split: if_splits)
  moreover have "in_table q (watchTable ?t) \<longleftrightarrow> watchers ?t q \<noteq> [] \<or> q \<in> {?p}" "in_table q (watchTable ?t) \<Longrightarrow> q < w_top ?t" for q
    using assms(1) by (auto simp: w top tab watch_inv_def less_Suc_eq)
  moreover have "wl.agree ?t" using assms(1) wl_agree_cong [OF w wl] by (simp add: watch_inv_def)
  ultimately show "watch_inv {?p} ?t" using wf unfolding watch_inv_def by blast
qed

lemma link_watch_sel [simp]:
  "nick_of (link_watch p c s) = nick_of s" "watchTable (link_watch p c s) = watchTable s" "w_top (link_watch p c s) = w_top s"
  "watch_list (link_watch p c s) = (watch_list s)(c := p # watch_list s c)"
  "watches (link_watch p c s) = (watches s)(c := watches s c + 1)" "w_irc (link_watch p c s) = w_irc s"
  "watchers (link_watch p c s) q = (if q = p then c # watchers s p else watchers s q)"
  by (auto simp: link_watch_def nick_of_def watchers_def fun_eq_iff)

lemma inv_link: "watch_inv {p} s \<Longrightarrow> c \<notin> set (watchers s p) \<Longrightarrow> watch_inv {} (link_watch p c s)"
  using wl.agree_link [of s c p] by (auto simp: watch_inv_def)

lemma unlink_watch_sel [simp]:
  "nick_of (unlink_watch p c s) = nick_of s" "watchTable (unlink_watch p c s) = watchTable s" "w_top (unlink_watch p c s) = w_top s"
  "watch_list (unlink_watch p c s) = (watch_list s)(c := remove1 p (watch_list s c))"
  "watches (unlink_watch p c s) = watches s" "w_irc (unlink_watch p c s) = w_irc s"
  "watchers (unlink_watch p c s) q = (if q = p then remove1 c (watchers s p) else watchers s q)"
  by (auto simp: unlink_watch_def drop_watched_def drop_watcher_def nick_of_def watchers_def fun_eq_iff)

lemma inv_unlink: "watch_inv {} s \<Longrightarrow> c \<in> set (watchers s p) \<Longrightarrow> watch_inv {p} (unlink_watch p c s)"
  using wl.agree_unlink [of s p c] by (auto simp: watch_inv_def)

definition untabled :: "wstate \<Rightarrow> wstate" where "untabled s = s\<lparr>watchTable := \<lambda>_. []\<rparr>"

text \<open>Removing an empty block succeeds and touches nothing but the table.\<close>

lemma inv_free:
  assumes "watch_inv {p} s" "h = watch_bucket (nick_of s p)"
  obtains t where "free_watch h p s = Inr t" "watch_inv {} t" "untabled t = untabled s"
proof (cases "watchers s p = []")
  case True
  have i: "in_table p (watchTable s)" "wf_chains watch_bucket (nick_of s) (watchTable s)" using watch_invD(3) [OF assms(1), of p] watch_invD(1) [OF assms(1)] by auto
  then have m: "p \<in> set (watchTable s h)" using watch_hash.in_chain_iff [OF i(2), of p] by (simp add: assms(2))
  let ?t = "s\<lparr>watchTable := chain_del h p (watchTable s)\<rparr>"
  have sel: "nick_of ?t = nick_of s" "watchers ?t = watchers s" "watch_list ?t = watch_list s"
    by (simp_all add: nick_of_def watchers_def fun_eq_iff)
  have tab: "in_table q (watchTable ?t) \<longleftrightarrow> in_table q (watchTable s) \<and> q \<noteq> p" for q
    by (simp add: assms(2) watch_hash.in_table_del [OF i(2)])
  have "wf_chains watch_bucket (nick_of ?t) (watchTable ?t)" using watch_hash.chain_del_wf [OF i(2)] by (simp add: sel)
  then have "watch_inv {} ?t"
  proof (rule watch_invI)
    show "q = r" if "in_table q (watchTable ?t)" "in_table r (watchTable ?t)" "strcasecmp_eq (nick_of ?t q) (nick_of ?t r)" for q r
      using that watch_invD(2) [OF assms(1)] unfolding tab sel by blast
    show "in_table q (watchTable ?t) \<longleftrightarrow> watchers ?t q \<noteq> [] \<or> q \<in> {}" for q
      using watch_invD(3) [OF assms(1), of q] True unfolding tab sel by blast
    show "in_table q (watchTable ?t) \<Longrightarrow> q < w_top ?t" for q
      using watch_invD(4) [OF assms(1), of q] unfolding tab by simp
    show "wl.agree ?t" using watch_invD(5) [OF assms(1)] wl_agree_cong [OF sel(2,3)] by simp
  qed
  moreover have "free_watch h p s = Inr ?t" using m True by (simp add: free_watch_def unlink_eq chain_del_def)
  ultimately show thesis by (intro that [of ?t]) (simp_all add: untabled_def)
next
  case False
  then show thesis using assms(1) inv_filled by (intro that [of s]) (auto simp: free_watch_def)
qed

subsection \<open>The operations\<close>

lemma add_watch_inv:
  assumes "watch_inv {} s"
  obtains p where "watch_inv {} (add_to_watch_hash_table n c s)"
    "strcasecmp_eq (nick_of (add_to_watch_hash_table n c s) p) n"
    "\<And>q. in_table q (watchTable s) \<Longrightarrow> nick_of (add_to_watch_hash_table n c s) q = nick_of s q"
    "\<And>d. set (watch_list (add_to_watch_hash_table n c s) d) = (if d = c then insert p (set (watch_list s d)) else set (watch_list s d))"
    "\<And>d. watches s d = int (length (watch_list s d)) \<Longrightarrow>
       watches (add_to_watch_hash_table n c s) d = int (length (watch_list (add_to_watch_hash_table n c s) d))"
proof -
  let ?t = "add_to_watch_hash_table n c s"
  obtain p s1 where ps: "(case hash_get_watch n s of Some p \<Rightarrow> (p, s) | None \<Rightarrow> (w_top s, new_watch n s)) = (p, s1)" by fastforce
  have "watch_inv {p} s1 \<and> strcasecmp_eq (nick_of s1 p) n \<and> watch_list s1 = watch_list s \<and> watches s1 = watches s \<and>
    (\<forall>q. in_table q (watchTable s) \<longrightarrow> nick_of s1 q = nick_of s q)"
  proof (cases "hash_get_watch n s")
    case None
    then have [simp]: "p = w_top s" "s1 = new_watch n s" using ps by simp_all
    have "q < w_top s" if "in_table q (watchTable s)" for q using watch_invD(4) [OF assms that] .
    then show ?thesis using inv_new [OF assms None] by (auto simp: new_watch_def nick_of_def strcasecmp_eq_def)
  next
    case (Some q)
    then show ?thesis using ps inv_found [OF assms, of q] get_watch_iff [OF assms, of n q] by simp
  qed
  then have s1: "watch_inv {p} s1" "strcasecmp_eq (nick_of s1 p) n" "watch_list s1 = watch_list s" "watches s1 = watches s"
    "\<And>q. in_table q (watchTable s) \<Longrightarrow> nick_of s1 q = nick_of s q" by blast+
  have t: "?t = (if c \<in> set (watchers s1 p) then s1 else link_watch p c s1)"
    using ps by (simp add: add_to_watch_hash_table_def)
  have ag: "c \<in> set (watchers s1 p) \<longleftrightarrow> p \<in> set (watch_list s c)"
    using s1(1,3) wl.agreeD [of s1 c p] by (simp add: watch_inv_def)
  show thesis
  proof (rule that [of p])
    show "watch_inv {} ?t"
      using inv_link [OF s1(1)] inv_filled [OF s1(1)] by (cases "watchers s1 p = []") (simp_all add: t)
  qed (use s1 ag in \<open>auto simp: t\<close>)
qed

lemma untabled_sel:
  assumes "untabled t = untabled s"
  shows "nick_of t = nick_of s" "watchers t = watchers s" "watch_list t = watch_list s" "watches t = watches s" "w_irc t = w_irc s"
proof -
  have "wmem t = wmem s" "watch_list t = watch_list s" "watches t = watches s" "w_irc t = w_irc s"
    using arg_cong [OF assms, of wmem] arg_cong [OF assms, of watch_list] arg_cong [OF assms, of watches] arg_cong [OF assms, of w_irc]
    by (simp_all add: untabled_def)
  then show "nick_of t = nick_of s" "watchers t = watchers s" "watch_list t = watch_list s" "watches t = watches s" "w_irc t = w_irc s"
    by (simp_all add: nick_of_def watchers_def fun_eq_iff)
qed

text \<open>Removing a watch never dereferences a null pointer, and never meets the two debug messages.\<close>

lemma del_watch_inv:
  assumes "watch_inv {} s"
  obtains t where "del_from_watch_hash_table n c s = Inr t" "watch_inv {} t" "nick_of t = nick_of s" "w_irc t = w_irc s"
    "\<And>d p. p \<in> set (watch_list t d) \<longleftrightarrow> p \<in> set (watch_list s d) \<and> \<not> (d = c \<and> strcasecmp_eq (nick_of s p) n)"
    "\<And>d. watches s d = int (length (watch_list s d)) \<Longrightarrow> watches t d = int (length (watch_list t d))"
proof -
  note ag = watch_invD(5) [OF assms]
  have tabled: "in_table p (watchTable s)" if "p \<in> set (watch_list s d)" for p d
    using that watch_invD(3) [OF assms, of p] wl.agreeD [OF ag, of d p] by auto
  have same: "p = q" if "in_table q (watchTable s)" "strcasecmp_eq (nick_of s q) n" "p \<in> set (watch_list s d)" "strcasecmp_eq (nick_of s p) n" for p q d
    using get_watch_iff [OF assms, of n] tabled that by (metis option.inject)
  show thesis
  proof (cases "\<exists>p. hash_get_watch n s = Some p \<and> c \<in> set (watchers s p)")
    case False
    then have "del_from_watch_hash_table n c s = Inr s" by (auto simp: del_from_watch_hash_table_def split: option.split)
    moreover have "\<not> strcasecmp_eq (nick_of s p) n" if "p \<in> set (watch_list s c)" for p
      using that False tabled get_watch_iff [OF assms, of n p] wl.agreeD [OF ag, of c p] by blast
    ultimately show thesis using assms by (intro that [of s]) auto
  next
    case True
    then obtain p where p: "hash_get_watch n s = Some p" "c \<in> set (watchers s p)" by blast
    then have n: "in_table p (watchTable s)" "strcasecmp_eq (nick_of s p) n" using get_watch_iff [OF assms] by auto
    let ?u = "unlink_watch p c s"
    have w: "p \<in> set (watch_list s c)" using wl.agreeD [OF ag] p(2) by blast
    obtain t where t: "free_watch (watch_bucket n) p ?u = Inr t" "watch_inv {} t" "untabled t = untabled ?u"
      using inv_unlink [OF assms p(2)] watch_bucket_cong [OF n(2)] by (auto intro: inv_free [of p ?u "watch_bucket n"])
    let ?t = "t\<lparr>watches := (watches t)(c := watches t c - 1)\<rparr>"
    have "watch_list (drop_watcher p c s) = watch_list s" by (simp add: drop_watcher_def)
    with p w have del: "del_from_watch_hash_table n c s = Inr ?t"
      using t(1) by (simp add: del_from_watch_hash_table_def unlink_watch_def Let_def)
    note sel = untabled_sel [OF t(3)]
    have sel2: "nick_of ?t = nick_of t" "watchers ?t = watchers t" "watch_list ?t = watch_list t" "watchTable ?t = watchTable t" "w_top ?t = w_top t"
      by (simp_all add: nick_of_def watchers_def fun_eq_iff)
    have inv: "watch_inv {} ?t" using t(2) unfolding watch_inv_def wl_agree_cong [OF sel2(2,3)] sel2 .
    have dist: "distinct (watch_list s c)" using ag by (simp add: wl.agree_def)
    show thesis
    proof (rule that [OF del inv])
      show "nick_of ?t = nick_of s" "w_irc ?t = w_irc s" unfolding sel2 by (simp_all add: sel)
      show "q \<in> set (watch_list ?t d) \<longleftrightarrow> q \<in> set (watch_list s d) \<and> \<not> (d = c \<and> strcasecmp_eq (nick_of s q) n)" for d q
        unfolding sel2 using same [OF n, of q c] n(2) dist by (auto simp: sel)
      show "watches ?t d = int (length (watch_list ?t d))" if "watches s d = int (length (watch_list s d))" for d
        using that w unfolding sel2 by (auto simp: sel length_remove1 of_nat_diff Suc_le_eq dest: length_pos_if_in_set)
    qed
  qed
qed

definition with_list :: "nat \<Rightarrow> nat list \<Rightarrow> wstate \<Rightarrow> wstate" where
  "with_list c ps s = s\<lparr>watch_list := (watch_list s)(c := ps)\<rparr>"

lemma del_watches_inv:
  assumes "watch_inv {} (with_list c ps s)"
  shows "\<exists>t. del_watches c ps s = Inr t \<and> watch_inv {} (with_list c [] t) \<and> nick_of t = nick_of s \<and> w_irc t = w_irc s \<and>
    watch_list t = watch_list s \<and> watches t = watches s"
  using assms
proof (induction ps arbitrary: s)
  case (Cons p ps)
  let ?v = "with_list c (p # ps) s" and ?u = "drop_watcher p c s"
  have w: "watchers ?v = watchers s" by (simp add: watchers_def with_list_def fun_eq_iff)
  have c: "c \<in> set (watchers s p)"
    using wl.agreeD [OF watch_invD(5) [OF Cons.prems], of c p] by (simp add: w) (simp add: with_list_def)
  have vu: "unlink_watch p c ?v = with_list c ps ?u"
    by (simp add: unlink_watch_def drop_watched_def drop_watcher_def with_list_def)
  have i: "watch_inv {p} (with_list c ps ?u)" using inv_unlink [OF Cons.prems, of c p] c by (simp add: w vu)
  have nick: "nick_of (with_list c ps ?u) = nick_of s" by (simp add: nick_of_def with_list_def drop_watcher_def fun_eq_iff)
  obtain t where t: "free_watch (watch_bucket (nick_of s p)) p (with_list c ps ?u) = Inr t" "watch_inv {} t" "untabled t = untabled (with_list c ps ?u)"
    using inv_free [OF i refl] by (metis nick)
  let ?h = "watch_bucket (nick_of s p)"
  have f: "free_watch ?h p (with_list c ps ?u) = map_sum id (with_list c ps) (free_watch ?h p ?u)"
    by (auto simp: free_watch_def watchers_def with_list_def split: option.split)
  then obtain t' where t': "free_watch ?h p ?u = Inr t'" "t = with_list c ps t'"
    using t(1) by (cases "free_watch ?h p ?u") auto
  have "untabled t' = untabled ?u"
    using t'(1) by (auto simp: free_watch_def untabled_def split: if_splits option.splits)
  note sel = untabled_sel [OF this]
  have "nick_of t' = nick_of s" "w_irc t' = w_irc s" "watch_list t' = watch_list s" "watches t' = watches s"
    by (simp_all add: sel) (simp_all add: drop_watcher_def nick_of_def fun_eq_iff)
  then show ?case using Cons.IH [of t'] t(2) t' c by auto
qed (simp add: with_list_def)

lemma del_list_inv:
  assumes "watch_inv {} s"
  obtains t where "hash_del_watch_list c s = Inr t" "watch_inv {} t" "nick_of t = nick_of s" "w_irc t = w_irc s"
    "watch_list t = (watch_list s)(c := [])"
    "\<And>d. watches s d = int (length (watch_list s d)) \<Longrightarrow> watches t d = int (length (watch_list t d))"
proof (cases "watch_list s c = []")
  case True
  then show thesis using assms by (intro that [of s]) (auto simp: hash_del_watch_list_def)
next
  case False
  have "with_list c (watch_list s c) (s\<lparr>watch_list := (watch_list s)(c := [])\<rparr>) = s" by (simp add: with_list_def)
  with assms del_watches_inv [of c "watch_list s c" "s\<lparr>watch_list := (watch_list s)(c := [])\<rparr>"]
  obtain t where t: "del_watches c (watch_list s c) (s\<lparr>watch_list := (watch_list s)(c := [])\<rparr>) = Inr t" "watch_inv {} (with_list c [] t)"
    "nick_of t = nick_of s" "w_irc t = w_irc s" "watch_list t = (watch_list s)(c := [])" "watches t = watches s"
    by (auto simp: nick_of_def fun_eq_iff)
  have "with_list c [] t = t" using t(5) by (simp add: with_list_def)
  then have i: "watch_inv {} t" using t(2) by simp
  let ?t = "t\<lparr>watches := (watches t)(c := 0)\<rparr>"
  have sel2: "nick_of ?t = nick_of t" "watchers ?t = watchers t" "watch_list ?t = watch_list t" "watchTable ?t = watchTable t" "w_top ?t = w_top t"
    by (simp_all add: nick_of_def watchers_def fun_eq_iff)
  have "watch_inv {} ?t" using i unfolding watch_inv_def wl_agree_cong [OF sel2(2,3)] sel2 .
  moreover have "hash_del_watch_list c s = Inr ?t" using False t(1) by (simp add: hash_del_watch_list_def)
  ultimately show thesis by (intro that [of ?t]) (simp_all only: sel2, auto simp: t)
qed

subsection \<open>Who watches whom\<close>

definition watching :: "wstate \<Rightarrow> nat \<Rightarrow> cstr \<Rightarrow> bool" where
  "watching s c n \<longleftrightarrow> (\<exists>p. hash_get_watch n s = Some p \<and> c \<in> set (watchers s p))"

lemma watching_list:
  assumes "watch_inv {} s"
  shows "watching s c n \<longleftrightarrow> (\<exists>p\<in>set (watch_list s c). strcasecmp_eq (nick_of s p) n)"
proof -
  have "c \<in> set (watchers s p) \<longleftrightarrow> p \<in> set (watch_list s c)" for p using wl.agreeD [OF watch_invD(5) [OF assms]] .
  moreover have "in_table p (watchTable s)" if "p \<in> set (watch_list s c)" for p
    using that calculation [of p] watch_invD(3) [OF assms, of p] by auto
  ultimately show ?thesis unfolding watching_def get_watch_iff [OF assms] by blast
qed

lemma watch_ok_list_tabled:
  assumes "watch_inv {} s" "p \<in> set (watch_list s c)" shows "in_table p (watchTable s)"
  using assms(2) wl.agreeD [OF watch_invD(5) [OF assms(1)], of c p] watch_invD(3) [OF assms(1), of p] by auto

lemma watch_eq_trans: "strcasecmp_eq a b \<Longrightarrow> strcasecmp_eq a c = strcasecmp_eq b c"
  by (simp add: strcasecmp_eq_def)

lemma add_watch_spec:
  assumes "watch_ok s"
  shows "watch_ok (add_to_watch_hash_table n c s)"
    "watching (add_to_watch_hash_table n c s) d m \<longleftrightarrow> watching s d m \<or> d = c \<and> strcasecmp_eq n m"
    "watches (add_to_watch_hash_table n c s) c \<le> watches s c + 1"
proof -
  let ?t = "add_to_watch_hash_table n c s"
  have i: "watch_inv {} s" and w: "\<And>d. watches s d = int (length (watch_list s d))" using assms by (auto simp: watch_ok_def)
  obtain p where p: "watch_inv {} ?t" "strcasecmp_eq (nick_of ?t p) n" "\<And>q. in_table q (watchTable s) \<Longrightarrow> nick_of ?t q = nick_of s q"
    "\<And>d. set (watch_list ?t d) = (if d = c then insert p (set (watch_list s d)) else set (watch_list s d))"
    "\<And>d. watches ?t d = int (length (watch_list ?t d))"
    using add_watch_inv [OF i, of n c] w by metis
  show ok: "watch_ok ?t" using p(1,5) by (simp add: watch_ok_def)
  have nick: "nick_of ?t q = nick_of s q" if "q \<in> set (watch_list s d)" for q
    using p(3) watch_ok_list_tabled [OF i that] by blast
  show "watching ?t d m \<longleftrightarrow> watching s d m \<or> d = c \<and> strcasecmp_eq n m"
    unfolding watching_list [OF p(1)] watching_list [OF i] p(4) using nick watch_eq_trans [OF p(2), of m] by auto
  have "distinct (watch_list ?t c)" "distinct (watch_list s c)"
    using watch_invD(5) [OF p(1)] watch_invD(5) [OF i] by (simp_all add: wl.agree_def)
  then have "length (watch_list ?t c) \<le> Suc (length (watch_list s c))"
    using p(4) [of c] by (metis card_insert_le_m1 distinct_card diff_Suc_1 zero_less_Suc le_refl)
  then show "watches ?t c \<le> watches s c + 1" by (simp add: p(5) w)
qed

lemma del_watch_spec:
  assumes "watch_ok s"
  obtains t where "del_from_watch_hash_table n c s = Inr t" "watch_ok t" "w_irc t = w_irc s" "watches t c \<le> watches s c"
    "\<And>d m. watching t d m \<longleftrightarrow> watching s d m \<and> \<not> (d = c \<and> strcasecmp_eq n m)"
proof -
  have i: "watch_inv {} s" and w: "\<And>d. watches s d = int (length (watch_list s d))" using assms by (auto simp: watch_ok_def)
  obtain t where t: "del_from_watch_hash_table n c s = Inr t" "watch_inv {} t" "nick_of t = nick_of s" "w_irc t = w_irc s"
    "\<And>d p. p \<in> set (watch_list t d) \<longleftrightarrow> p \<in> set (watch_list s d) \<and> \<not> (d = c \<and> strcasecmp_eq (nick_of s p) n)"
    "\<And>d. watches t d = int (length (watch_list t d))"
    using del_watch_inv [OF i, of n c] w by metis
  have e: "strcasecmp_eq (nick_of s p) n \<longleftrightarrow> strcasecmp_eq n m" if "strcasecmp_eq (nick_of s p) m" for p m
    using that by (auto simp: strcasecmp_eq_def)
  have "distinct (watch_list t c)" "distinct (watch_list s c)" "set (watch_list t c) \<subseteq> set (watch_list s c)"
    using watch_invD(5) [OF t(2)] watch_invD(5) [OF i] t(5) by (auto simp: wl.agree_def)
  then have "length (watch_list t c) \<le> length (watch_list s c)" by (metis List.finite_set card_mono distinct_card)
  then show thesis
    using t(1,2,4,6) w by (intro that [of t])
      (auto simp: watch_ok_def watching_list [OF t(2)] watching_list [OF i] t(3,5) e)
qed

lemma del_list_spec:
  assumes "watch_ok s"
  obtains t where "hash_del_watch_list c s = Inr t" "watch_ok t" "w_irc t = w_irc s" "watches t c = 0"
    "\<And>d m. watching t d m \<longleftrightarrow> watching s d m \<and> d \<noteq> c"
proof -
  have i: "watch_inv {} s" and w: "\<And>d. watches s d = int (length (watch_list s d))" using assms by (auto simp: watch_ok_def)
  obtain t where t: "hash_del_watch_list c s = Inr t" "watch_inv {} t" "nick_of t = nick_of s" "w_irc t = w_irc s"
    "watch_list t = (watch_list s)(c := [])" "\<And>d. watches t d = int (length (watch_list t d))"
    using del_list_inv [OF i, of c] w by metis
  then show thesis
    by (intro that [of t]) (auto simp: watch_ok_def watching_list [OF t(2)] watching_list [OF i] split: if_splits)
qed

subsection \<open>Replies leave the lists alone\<close>

definition wtalks :: "wstate \<Rightarrow> wstate \<Rightarrow> bool" where
  "wtalks s t \<longleftrightarrow> (\<exists>x. t = s\<lparr>w_irc := x\<rparr>)"

lemma wtalks_refl [simp]: "wtalks s s"
  unfolding wtalks_def by (rule exI [of _ "w_irc s"]) simp

lemma wtalks_trans: "wtalks s t \<Longrightarrow> wtalks t u \<Longrightarrow> wtalks s u"
  by (auto simp: wtalks_def)

lemma wtalks_fold: "(\<And>x t. wtalks t (f x t)) \<Longrightarrow> wtalks s (fold f xs s)"
proof (induction xs arbitrary: s)
  case (Cons x xs)
  have "wtalks (f x s) (fold f xs (f x s))" using Cons by blast
  then show ?case using wtalks_trans [OF Cons.prems] by simp
qed simp

lemma wtalks_replies [simp]: "wtalks s (wnumeric p num name txt s)" "wtalks s (watch_reply p rpl name nick user host t s)"
  "wtalks s (show_watch lk p nick r1 r2 s)" "wtalks s (end_of_watch p name c s)"
  by (auto simp: wtalks_def wnumeric_def watch_reply_def show_watch_def end_of_watch_def Let_def split: option.split)

lemma wtalks_show_list [simp]: "wtalks s (watch_show_list lk p name c s)"
proof -
  let ?f = "\<lambda>p' t. case lk (nick_of s p') of
            Some a \<Rightarrow> (let d = clients (w_irc s) a in watch_reply p 604 name (c_name d) (c_username d) (c_host d) (tsinfo s a) t)
          | None \<Rightarrow> if ToUpper c \<noteq> NUL then watch_reply p 605 name (nick_of s p') ''*'' ''*'' (w_lasttime (wmem s p')) t else t"
  have "wtalks t (?f x t)" for x t by (auto simp: Let_def split: option.split)
  then have "wtalks s (fold ?f (watch_list s p) s)" by (rule wtalks_fold)
  then show ?thesis unfolding watch_show_list_def by (rule wtalks_trans) simp
qed

lemma wtalks_keeps:
  assumes "wtalks s t"
  shows "watch_ok t = watch_ok s" "watching t = watching s" "watches t = watches s" "watch_list t = watch_list s"
proof -
  obtain x where x: "t = s\<lparr>w_irc := x\<rparr>" using assms by (auto simp: wtalks_def)
  have sel: "nick_of t = nick_of s" "watchers t = watchers s" "watch_list t = watch_list s" "watchTable t = watchTable s" "w_top t = w_top s" "watches t = watches s"
    by (simp_all add: x nick_of_def watchers_def fun_eq_iff)
  show "watch_ok t = watch_ok s" unfolding watch_ok_def watch_inv_def wl_agree_cong [OF sel(2,3)] sel ..
  show "watches t = watches s" "watch_list t = watch_list s" by (simp_all add: sel)
  show "watching t = watching s" by (simp add: watching_def hash_get_watch_def sel fun_eq_iff)
qed

subsection \<open>The command keeps the invariant\<close>

text \<open>What one command may do to the lists of the others, and to the length of one's own.\<close>

definition own_list :: "nat \<Rightarrow> wstate \<Rightarrow> wstate \<Rightarrow> bool" where
  "own_list c s t \<longleftrightarrow> watch_ok t \<and> (watches s c \<le> MAXWATCH \<longrightarrow> watches t c \<le> MAXWATCH) \<and>
     (\<forall>d m. d \<noteq> c \<longrightarrow> watching t d m = watching s d m)"

lemma own_list_trans: "own_list c s t \<Longrightarrow> own_list c t u \<Longrightarrow> own_list c s u"
  by (auto simp: own_list_def)

lemma own_list_wtalks: "watch_ok s \<Longrightarrow> wtalks s t \<Longrightarrow> own_list c s t"
  by (simp add: own_list_def wtalks_keeps)

lemma watch_status_own:
  assumes "watch_ok s"
  obtains t where "watch_status sptr name c s = Inr t" "own_list sptr s t"
proof -
  have i: "watch_inv {} s" using assms by (simp add: watch_ok_def)
  have "watchers s p \<noteq> []" if "hash_get_watch n s = Some p" for n p
    using that get_watch_iff [OF i] watch_invD(3) [OF i, of p] by auto
  then obtain n where n: "(case hash_get_watch (c_name (clients (w_irc s) sptr)) s of None \<Rightarrow> Inr 0
        | Some p \<Rightarrow> if watchers s p = [] then Inl NullDeref else Inr (length (watchers s p))) = Inr n"
    by (cases "hash_get_watch (c_name (clients (w_irc s) sptr)) s") auto
  let ?s1 = "wnumeric sptr ''603'' name ('':You have '' @ dec (watches s sptr) @ '' and are on '' @ dec_nat n @ '' WATCH entries'') s"
  have f: "wtalks s (fold (\<lambda>l. wnumeric sptr ''606'' name ('':'' @ l)) ls ?s1)" for ls
    by (rule wtalks_trans [OF _ wtalks_fold]) simp_all
  have e: "wtalks u v \<Longrightarrow> wtalks u (end_of_watch sptr name c v)" for u v by (rule wtalks_trans [OF _ wtalks_replies(4)])
  show thesis
  proof (cases "map (nick_of s) (watch_list s sptr)")
    case Nil
    then have "watch_status sptr name c s = Inr (end_of_watch sptr name c ?s1)" by (simp add: watch_status_def n)
    then show thesis using e [of s ?s1] by (intro that own_list_wtalks assms) auto
  next
    case (Cons nick nicks)
    let ?b = "length name + length (me_name (cfg (w_irc s))) + 10"
    have "watch_status sptr name c s = Inr (end_of_watch sptr name c
        (fold (\<lambda>l. wnumeric sptr ''606'' name ('':'' @ l)) (watch_lines ?b nick (?b + length nick) nicks) ?s1))"
      by (simp add: watch_status_def n Cons Let_def)
    then show thesis using e [OF f] by (intro that own_list_wtalks assms) auto
  qed
qed

lemma watch_item_own:
  assumes ok: "watch_ok s"
  obtains t where "watch_item lk cptr sptr name tok s = Inr t" "own_list sptr s t"
proof -
  let ?t = "takeWhile (\<lambda>c. c \<noteq> CHR ''!'') tok"
  consider (plus) "hd0 ?t = CHR ''+''" | (minus) "hd0 ?t = CHR ''-''" | (clear) "hd0 ?t = CHR ''C'' \<or> hd0 ?t = CHR ''c''"
    | (stat) "hd0 ?t = CHR ''S'' \<or> hd0 ?t = CHR ''s''" | (listing) "hd0 ?t = CHR ''L'' \<or> hd0 ?t = CHR ''l''"
    | (none) "hd0 ?t \<notin> set ''+-CcSsLl''" by auto
  then show thesis
  proof cases
    case plus
    let ?a = "add_to_watch_hash_table (tl ?t) sptr s"
    note a = add_watch_spec [OF ok, of "tl ?t" sptr]
    have own: "own_list sptr s (if tl ?t \<noteq> [] then ?a else s)" if "\<not> (tl ?t \<noteq> [] \<and> watches s sptr \<ge> MAXWATCH)"
      using a that ok by (auto simp: own_list_def)
    show thesis
    proof (cases "tl ?t \<noteq> [] \<and> watches s sptr \<ge> MAXWATCH")
      case True
      let ?e = "wnumeric sptr ''512'' (c_name (clients (w_irc s) cptr))
          (tl ?t @ '' :Maximum size for WATCH-list is '' @ dec MAXWATCH @ '' entries'') s"
      have "watch_item lk cptr sptr name tok s = Inr ?e" using plus True by (simp add: watch_item_def Let_def)
      moreover have "own_list sptr s ?e" by (rule own_list_wtalks [OF ok]) simp
      ultimately show thesis by (rule that)
    next
      case False
      have "watch_item lk cptr sptr name tok s = Inr (show_watch lk sptr (tl ?t) 604 605 (if tl ?t \<noteq> [] then ?a else s))"
        using plus False by (cases "tl ?t = []") (simp_all add: watch_item_def Let_def)
      moreover have "own_list sptr s (show_watch lk sptr (tl ?t) 604 605 (if tl ?t \<noteq> [] then ?a else s))"
        using own [OF False] by (rule own_list_trans) (rule own_list_wtalks, use ok a(1) in simp_all)
      ultimately show thesis by (rule that)
    qed
  next
    case minus
    obtain u where u: "del_from_watch_hash_table (tl ?t) sptr s = Inr u" "watch_ok u" "watches u sptr \<le> watches s sptr"
      "\<And>d m. watching u d m \<longleftrightarrow> watching s d m \<and> \<not> (d = sptr \<and> strcasecmp_eq (tl ?t) m)"
      by (rule del_watch_spec [OF ok]) blast
    have "own_list sptr s u" using u by (auto simp: own_list_def)
    then have "own_list sptr s (show_watch lk sptr (tl ?t) 602 602 u)"
      by (rule own_list_trans) (simp add: own_list_wtalks u(2))
    then show thesis using minus u(1) by (intro that) (simp_all add: watch_item_def Let_def)
  next
    case clear
    obtain u where u: "hash_del_watch_list sptr s = Inr u" "watch_ok u" "watches u sptr = 0"
      "\<And>d m. watching u d m \<longleftrightarrow> watching s d m \<and> d \<noteq> sptr"
      by (rule del_list_spec [OF ok, of sptr]) blast
    then have "own_list sptr s u" by (auto simp: own_list_def MAXWATCH_def)
    then show thesis using clear u(1) by (intro that) (auto simp: watch_item_def Let_def)
  next
    case stat
    obtain u where "watch_status sptr name (hd0 ?t) s = Inr u" "own_list sptr s u" by (rule watch_status_own [OF ok])
    then show thesis using stat by (intro that) (auto simp: watch_item_def Let_def)
  next
    case listing
    then show thesis by (intro that [of "watch_show_list lk sptr name (hd0 ?t) s"]) (auto simp: watch_item_def Let_def own_list_wtalks ok)
  next
    case none
    then show thesis by (intro that [of s]) (auto simp: watch_item_def Let_def own_list_wtalks ok)
  qed
qed

lemma watch_items_own:
  "watch_ok s \<Longrightarrow> \<exists>t. watch_items lk cptr sptr name ts s = Inr t \<and> own_list sptr s t"
proof (induction ts arbitrary: s)
  case Nil
  then show ?case by (simp add: own_list_wtalks)
next
  case (Cons tok ts)
  obtain u where u: "watch_item lk cptr sptr name tok s = Inr u" "own_list sptr s u" by (rule watch_item_own [OF Cons.prems])
  then have "watch_ok u" by (simp add: own_list_def)
  from Cons.IH [OF this] show ?case using u own_list_trans by fastforce
qed

subsection \<open>Properties\<close>

text \<open>
  C22. The watch table is a set of pairs of a client and a nick, up to case: adding inserts a pair, removing
  takes out exactly that pair, dropping a list takes out the pairs of one client; none of them ever follows a null
  pointer or meets the inconsistencies the debug messages report, and the counters stay right.
\<close>

theorem watch_table_is_a_set:
  assumes "watch_ok s"
  shows "watch_ok (add_to_watch_hash_table n c s) \<and>
    (\<forall>d m. watching (add_to_watch_hash_table n c s) d m \<longleftrightarrow> watching s d m \<or> d = c \<and> strcasecmp_eq n m) \<and>
    (\<exists>t. del_from_watch_hash_table n c s = Inr t \<and> watch_ok t \<and> w_irc t = w_irc s \<and>
      (\<forall>d m. watching t d m \<longleftrightarrow> watching s d m \<and> \<not> (d = c \<and> strcasecmp_eq n m))) \<and>
    (\<exists>t. hash_del_watch_list c s = Inr t \<and> watch_ok t \<and> w_irc t = w_irc s \<and> watches t c = 0 \<and>
      (\<forall>d m. watching t d m \<longleftrightarrow> watching s d m \<and> d \<noteq> c))"
proof -
  obtain t u where "del_from_watch_hash_table n c s = Inr t" "watch_ok t" "w_irc t = w_irc s"
    "\<And>d m. watching t d m \<longleftrightarrow> watching s d m \<and> \<not> (d = c \<and> strcasecmp_eq n m)"
    "hash_del_watch_list c s = Inr u" "watch_ok u" "w_irc u = w_irc s" "watches u c = 0"
    "\<And>d m. watching u d m \<longleftrightarrow> watching s d m \<and> d \<noteq> c"
    by (rule del_watch_spec [OF assms, of n c], rule del_list_spec [OF assms, of c]) blast
  then show ?thesis using add_watch_spec(1,2) [OF assms] by simp
qed

text \<open>
  However a user words the WATCH command, it finds the lists in order and leaves them in order, never
  lets a list of at most MAXWATCH nicks grow past MAXWATCH, and never touches what somebody else watches.
\<close>

theorem watch_command:
  assumes "watch_ok s"
  shows "\<exists>t. m_watch lk cptr sptr parv s = Inr t \<and> watch_ok t \<and>
    (watches s sptr \<le> MAXWATCH \<longrightarrow> watches t sptr \<le> MAXWATCH) \<and>
    (\<forall>d m. d \<noteq> sptr \<longrightarrow> watching t d m = watching s d m)"
  using watch_items_own [OF assms] unfolding m_watch_def own_list_def by blast

subsection \<open>Notifications and lists\<close>

lemma fold_replies:
  "sent (w_irc (fold (\<lambda>d t. watch_reply d rpl (f d) nick user host now t) ds s)) =
     sent (w_irc s) @ map (\<lambda>d. (ToOne d, '':'' @ me_name (cfg (w_irc s)) @ '' '' @ dec_nat rpl @ '' '' @ f d @ '' '' @
        nick @ '' '' @ user @ '' '' @ host @ '' '' @ d32 now @ '' '' @ watch_tail rpl)) ds"
proof (induction ds arbitrary: s)
  case (Cons d ds)
  have "cfg (w_irc (watch_reply d rpl (f d) nick user host now s)) = cfg (w_irc s)"
    by (simp add: watch_reply_def wnumeric_def numeric_def)
  then show ?case using Cons by (simp add: watch_reply_def wnumeric_def numeric_def)
qed simp

text \<open>
  When a nick comes or goes, exactly the clients that watch it are told, each of them once, with the
  nick and the time; nothing else is sent and nobody's list changes.
\<close>

theorem watchers_are_told:
  assumes "watch_ok s"
  shows "\<exists>ds. distinct ds \<and> set ds = {d. watching s d (c_name (clients (w_irc s) cptr))} \<and>
    sent (w_irc (hash_check_watch cptr rpl s)) = sent (w_irc s) @
      map (\<lambda>d. (ToOne d, '':'' @ me_name (cfg (w_irc s)) @ '' '' @ dec_nat rpl @ '' '' @ c_name (clients (w_irc s) d) @ '' '' @
        c_name (clients (w_irc s) cptr) @ '' '' @
        (if IsPerson (clients (w_irc s) cptr) then c_username (clients (w_irc s) cptr) else ''<N/A>'') @ '' '' @
        (if IsPerson (clients (w_irc s) cptr) then c_host (clients (w_irc s) cptr) else ''<N/A>'') @ '' '' @
        d32 (CurrentTime (w_irc s)) @ '' '' @ watch_tail rpl)) ds \<and>
    watch_list (hash_check_watch cptr rpl s) = watch_list s"
proof (cases "hash_get_watch (c_name (clients (w_irc s) cptr)) s")
  case None
  then show ?thesis by (intro exI [of _ "[]"]) (simp add: hash_check_watch_def watching_def Let_def)
next
  case (Some p)
  let ?c = "clients (w_irc s) cptr" and ?s = "s\<lparr>wmem := (wmem s)(p := (wmem s p)\<lparr>w_lasttime := CurrentTime (w_irc s)\<rparr>)\<rparr>"
  let ?t = "fold (\<lambda>d t. watch_reply d rpl (c_name (clients (w_irc s) d)) (c_name ?c)
    (if IsPerson ?c then c_username ?c else ''<N/A>'') (if IsPerson ?c then c_host ?c else ''<N/A>'') (CurrentTime (w_irc s)) t) (watchers s p) ?s"
  have t: "hash_check_watch cptr rpl s = ?t" using Some by (simp add: hash_check_watch_def Let_def)
  have "wtalks ?s ?t" by (rule wtalks_fold) simp
  then have "watch_list ?t = watch_list s" by (simp add: wtalks_keeps)
  moreover have "distinct (watchers s p)" using assms by (simp add: watch_ok_def watch_inv_def wl.agree_def)
  moreover have "set (watchers s p) = {d. watching s d (c_name ?c)}" using Some by (simp add: watching_def)
  ultimately show ?thesis unfolding t fold_replies by (intro exI [of _ "watchers s p"]) simp
qed

definition watch_line :: "cstr \<Rightarrow> cstr \<Rightarrow> cstr \<Rightarrow> cstr" where
  "watch_line me name l = '':'' @ me @ '' 606 '' @ name @ '' :'' @ l"

lemma watch_lines_fit:
  assumes "n = base + length buf" "\<forall>x\<in>set nicks. base + length x + 1 \<le> BUFSIZE - 2" "base + length buf \<le> BUFSIZE - 2" "l \<in> set (watch_lines base buf n nicks)"
  shows "base + length l \<le> BUFSIZE - 2"
  using assms
proof (induction base buf n nicks rule: watch_lines.induct)
  case (2 base buf n nick nicks)
  then show ?case by (cases "BUFSIZE - 2 < n + length nick + 1") auto
qed simp

lemma watch_lines_all: "concat (watch_lines base buf n nicks) = buf @ concat (map (\<lambda>x. '' '' @ x) nicks)"
  by (induction base buf n nicks rule: watch_lines.induct) auto

text \<open>
  The list a user asks for comes in lines that hold every nick, in order; if a nick leaves room for one
  on a line, no line comes closer than four bytes to BUFSIZE.
\<close>

theorem watch_list_lines:
  assumes "base = length name + length me + 10" "\<forall>x\<in>set (nick # nicks). base + length x + 1 \<le> BUFSIZE - 2"
  shows "concat (watch_lines base nick (base + length nick) nicks) = nick @ concat (map (\<lambda>x. '' '' @ x) nicks) \<and>
    (\<forall>l\<in>set (watch_lines base nick (base + length nick) nicks). length (watch_line me name l) \<le> BUFSIZE - 4)"
proof -
  have "length (watch_line me name l) \<le> BUFSIZE - 4" if "l \<in> set (watch_lines base nick (base + length nick) nicks)" for l
    using watch_lines_fit [OF refl _ _ that] assms by (auto simp: watch_line_def)
  then show ?thesis by (simp add: watch_lines_all)
qed

subsection \<open>A concrete table\<close>

definition w0 :: wstate where
  "w0 = \<lparr>w_irc = room, wmem = (\<lambda>_. \<lparr>w_nick = '''', w_lasttime = 0, w_watch = []\<rparr>), watchTable = (\<lambda>_. []), w_top = 1,
     watch_list = (\<lambda>_. []), watches = (\<lambda>_. 0), c_info = (\<lambda>_. ''''), tsinfo = (\<lambda>_. 0), lasttime = (\<lambda>_. 0), user_bytes = (\<lambda>_. '''')\<rparr>"

lemma w0_ok: "watch_ok w0"
  by (simp add: watch_ok_def watch_inv_def wl.agree_def watchers_def in_table_def w0_def)

definition w1 :: wstate where "w1 = add_to_watch_hash_table ''BOB'' 3 w0"

lemma w1_ok: "watch_ok w1" unfolding w1_def by (rule add_watch_spec(1) [OF w0_ok])

lemma bob_eq: "strcasecmp_eq ''BOB'' ''bob''" by code_simp

lemma w1_watching: "watching w1 d m \<longleftrightarrow> d = 3 \<and> strcasecmp_eq ''BOB'' m"
  unfolding w1_def add_watch_spec(2) [OF w0_ok] by (simp add: watching_def hash_get_watch_def w0_def)

lemma w1_irc: "w_irc w1 = room"
  by (simp add: w1_def add_to_watch_hash_table_def hash_get_watch_def new_watch_def link_watch_def w0_def)

theorem watch_table_is_a_set_witness:
  "watching w1 3 ''bob'' \<and> (\<exists>t. del_from_watch_hash_table ''bob'' 3 w1 = Inr t \<and> watch_ok t \<and> \<not> watching t 3 ''bob'')"
proof -
  have "strcasecmp_eq ''bob'' ''bob''" by (simp add: strcasecmp_eq_def)
  moreover have "watching w1 3 ''bob''" by (simp add: w1_watching bob_eq)
  ultimately show ?thesis using watch_table_is_a_set [OF w1_ok, of "''bob''" 3] by blast
qed

theorem watch_command_witness:
  "\<exists>t. m_watch (\<lambda>_. None) 2 2 [''bob'', ''+op,-x,C,s,l''] w1 = Inr t \<and> watch_ok t \<and> watches t 2 \<le> MAXWATCH \<and> watching t 3 ''bob''"
proof -
  have "watches w1 2 = 0"
    by (simp add: w1_def add_to_watch_hash_table_def hash_get_watch_def new_watch_def link_watch_def w0_def)
  then show ?thesis using watch_command [OF w1_ok, of "\<lambda>_. None" 2 2 "[''bob'', ''+op,-x,C,s,l'']"] w1_watching [of 3 "''bob''"] bob_eq
    by (auto simp: MAXWATCH_def)
qed

theorem watchers_are_told_witness:
  "\<exists>ds. distinct ds \<and> set ds = {3} \<and> fst ` set (sent (w_irc (hash_check_watch 2 600 w1))) \<supseteq> ToOne ` set ds"
proof -
  have "c_name (clients (w_irc w1) 2) = ''bob''" by (simp add: w1_irc room_sel plain_user_def)
  moreover have "{d. watching w1 d ''bob''} = {3}" using bob_eq by (auto simp: w1_watching)
  ultimately show ?thesis using watchers_are_told [OF w1_ok, of 2 600] by (elim exE conjE) (rule exI, auto simp: image_Un image_image)
qed

theorem watch_list_lines_witness:
  "concat (watch_lines 19 ''abc'' 22 [''de'', ''f'']) = ''abc de f'' \<and>
     (\<forall>l\<in>set (watch_lines 19 ''abc'' 22 [''de'', ''f'']). length (watch_line ''irc.pt'' ''bob'' l) \<le> 508)"
  using watch_list_lines [of 19 "''bob''" "''irc.pt''" "''abc''" "[''de'', ''f'']"] by (simp add: BUFSIZE_def)

end
