(* ===== verification/Throttle.thy ===== *)
theory Throttle
  imports CLib
begin

text \<open>
  The throttle on connections from one address, \<open>src/throttle.c\<close>. The table maps a bucket to its chain; an
  address is a 32-bit word (without IPV6). A string printed through a null pointer is \<open>Inl NullDeref\<close>.
\<close>

subsection \<open>Data\<close>

definition THROTTLE_HITLIMIT :: int where "THROTTLE_HITLIMIT = -1"
definition THROTTLE_SENTWARN :: int where "THROTTLE_SENTWARN = -2"

record throttle =
  th_ip :: "32 word"
  th_last :: time_t
  th_connected :: "cstr option"
  th_count :: int

record clones =
  throttles :: "nat \<Rightarrow> throttle list"
  CheckClonesLimit :: int
  CheckClonesPeriod :: int
  th_now :: time_t
  th_ops :: "cstr list"

text \<open>The bytes of an address; \<open>count\<close> is a \<open>short\<close>.\<close>

definition octet :: "nat \<Rightarrow> 32 word \<Rightarrow> nat" where
  "octet i a = unat (drop_bit (8 * i) a AND 0xff)"

definition short :: "int \<Rightarrow> int" where
  "short i = sint (word_of_int i :: 16 word)"

text \<open>\<open>remove_clone_check\<close> adds the bytes, \<open>check_clones\<close> combines them with exclusive or.\<close>

definition sum_bucket :: "32 word \<Rightarrow> nat" where
  "sum_bucket a = (octet 0 a + octet 1 a + octet 2 a + octet 3 a) mod 256"

definition xor_bucket :: "32 word \<Rightarrow> nat" where
  "xor_bucket a = (octet 0 a XOR octet 1 a XOR octet 2 a XOR octet 3 a) mod 256"

subsection \<open>Operations\<close>

fun lower_count :: "32 word \<Rightarrow> throttle list \<Rightarrow> throttle list" where
  "lower_count a [] = []"
| "lower_count a (t # ts) =
     (if th_ip t = a then (if 1 < th_count t then t\<lparr>th_count := short (th_count t - 1)\<rparr> else t) # ts
      else t # lower_count a ts)"

definition remove_clone_check :: "32 word \<Rightarrow> clones \<Rightarrow> clones" where
  "remove_clone_check a s =
     (if a = 0 then s
      else s\<lparr>throttles := (throttles s)(sum_bucket a := lower_count a (throttles s (sum_bucket a)))\<rparr>)"

definition expired :: "clones \<Rightarrow> throttle \<Rightarrow> bool" where
  "expired s t \<longleftrightarrow> th_last t + CheckClonesPeriod s < th_now s"

text \<open>The scan drops the expired records in front of the one it looks for.\<close>

fun scan :: "clones \<Rightarrow> 32 word \<Rightarrow> throttle list \<Rightarrow> throttle list \<times> throttle list" where
  "scan s a [] = ([], [])"
| "scan s a (t # ts) =
     (if th_ip t = a then ([], t # ts)
      else let (ks, rest) = scan s a ts in (if expired s t then ks else t # ks, rest))"

definition printed :: "cstr option \<Rightarrow> (cstr \<Rightarrow> ub + 'a) \<Rightarrow> ub + 'a" where
  "printed p k = (case p of None \<Rightarrow> Inl NullDeref | Some t \<Rightarrow> k t)"

definition keep_name :: "cstr option \<Rightarrow> throttle \<Rightarrow> throttle" where
  "keep_name remote t = (if remote \<noteq> None \<and> th_connected t = None then t\<lparr>th_connected := remote\<rparr> else t)"

text \<open>A record that has not expired: the answer, the record, the notice to the operators.\<close>

definition count_clone :: "clones \<Rightarrow> cstr option \<Rightarrow> cstr \<Rightarrow> throttle \<Rightarrow> ub + int \<times> throttle \<times> cstr list" where
  "count_clone s remote realhost t =
     (let u = keep_name remote (t\<lparr>th_last := th_now s\<rparr>) in
      if 0 \<le> th_count u then
        (let n = short (th_count u + 1)
         in Inr (0, u\<lparr>th_count := (if n = CheckClonesLimit s then THROTTLE_HITLIMIT else n)\<rparr>, []))
      else if th_count u = THROTTLE_HITLIMIT then
        printed (th_connected u) (\<lambda>n. Inr (-1, u\<lparr>th_count := THROTTLE_SENTWARN\<rparr>,
          [''Throttling connections from '' @ n @ '' ('' @ realhost @ '')'']))
      else Inr (0, u, []))"

definition renew :: "(32 word \<Rightarrow> cstr) \<Rightarrow> clones \<Rightarrow> cstr option \<Rightarrow> throttle \<Rightarrow> ub + int \<times> throttle \<times> cstr list" where
  "renew ntoa s remote t =
     (let u = keep_name remote (t\<lparr>th_last := th_now s, th_count := 1\<rparr>) in
      if th_count t = THROTTLE_SENTWARN then
        printed (th_connected t) (\<lambda>n. Inr (0, u, [''Resetting throttle from '' @ n @ '' ('' @ ntoa (th_ip t) @ '')'']))
      else Inr (0, u, []))"

definition check_clones :: "(32 word \<Rightarrow> cstr) \<Rightarrow> 32 word \<Rightarrow> cstr \<Rightarrow> cstr option \<Rightarrow> clones \<Rightarrow> ub + clones \<times> int" where
  "check_clones ntoa a realhost remote s =
     (if a = 0 then Inr (s, 0)
      else
        let h = xor_bucket a; (ks, rest) = scan s a (throttles s h) in
        case rest of
          [] \<Rightarrow> Inr (s\<lparr>throttles := (throttles s)(h := \<lparr>th_ip = a, th_last = th_now s, th_connected = remote, th_count = 1\<rparr> # ks)\<rparr>, 0)
        | t # ts \<Rightarrow>
            bind_ub (if \<not> expired s t then count_clone s remote realhost t else renew ntoa s remote t)
              (\<lambda>(r, u, msgs). Inr (s\<lparr>throttles := (throttles s)(h := ks @ u # ts), th_ops := th_ops s @ msgs\<rparr>, r)))"

subsection \<open>The record of an address\<close>

definition throttle_ok :: "clones \<Rightarrow> bool" where
  "throttle_ok s \<longleftrightarrow> (\<forall>h. distinct (map th_ip (throttles s h)) \<and>
     (\<forall>t\<in>set (throttles s h). xor_bucket (th_ip t) = h \<and> th_connected t \<noteq> None))"

definition record_of :: "clones \<Rightarrow> 32 word \<Rightarrow> throttle option" where
  "record_of s a = List.find (\<lambda>t. th_ip t = a) (throttles s (xor_bucket a))"

lemma scan_None: "scan s a ts = (ks, []) \<Longrightarrow> a \<notin> th_ip ` set ts \<and> set ks \<subseteq> set ts \<and> (distinct (map th_ip ts) \<longrightarrow> distinct (map th_ip ks))"
proof (induction ts arbitrary: ks)
  case (Cons t ts)
  then show ?case by (fastforce split: if_splits prod.splits)
qed simp

lemma scan_Some:
  "scan s a ts = (ks, t # rest) \<Longrightarrow>
     th_ip t = a \<and> a \<notin> th_ip ` set ks \<and> set ks \<union> {t} \<union> set rest \<subseteq> set ts \<and> List.find (\<lambda>t. th_ip t = a) ts = Some t \<and>
     (distinct (map th_ip ts) \<longrightarrow> distinct (map th_ip (ks @ t # rest)))"
proof (induction ts arbitrary: ks)
  case (Cons u ts)
  show ?case
  proof (cases "th_ip u = a")
    case False
    obtain ks' where ks': "scan s a ts = (ks', t # rest)" "ks = (if expired s u then ks' else u # ks')"
      using Cons.prems False by (auto split: prod.splits)
    show ?thesis using Cons.IH [OF ks'(1)] False by (auto simp: ks'(2))
  qed (use Cons.prems in auto)
qed simp

lemma find_split: "a \<notin> th_ip ` set ks \<Longrightarrow> th_ip u = a \<Longrightarrow> List.find (\<lambda>t. th_ip t = a) (ks @ u # ts) = Some u"
  by (induction ks) auto

lemma count_clone_keeps: "count_clone s remote host t = Inr (r, u, msgs) \<Longrightarrow>
    th_ip u = th_ip t \<and> (th_connected t \<noteq> None \<longrightarrow> th_connected u \<noteq> None)"
  by (auto simp: count_clone_def keep_name_def printed_def Let_def split: if_splits option.splits)

lemma renew_keeps: "renew ntoa s remote t = Inr (r, u, msgs) \<Longrightarrow>
    th_ip u = th_ip t \<and> (th_connected t \<noteq> None \<longrightarrow> th_connected u \<noteq> None)"
  by (auto simp: renew_def keep_name_def printed_def Let_def split: if_splits option.splits)

lemma count_clone_total: "th_connected t \<noteq> None \<Longrightarrow> \<exists>r u msgs. count_clone s (Some n) host t = Inr (r, u, msgs)"
  by (cases "th_connected t") (simp_all add: count_clone_def keep_name_def printed_def Let_def)

lemma renew_total: "th_connected t \<noteq> None \<Longrightarrow> \<exists>r u msgs. renew ntoa s (Some n) t = Inr (r, u, msgs)"
  by (cases "th_connected t") (simp_all add: renew_def keep_name_def printed_def Let_def)

lemma check_clones_ok:
  assumes "throttle_ok s" "check_clones ntoa a host (Some n) s = Inr (t, r)"
  shows "throttle_ok t"
proof (cases "a = 0")
  case False
  let ?h = "xor_bucket a"
  obtain ks rest where sc: "scan s a (throttles s ?h) = (ks, rest)" by fastforce
  have d: "distinct (map th_ip (throttles s ?h))" "\<forall>t\<in>set (throttles s ?h). xor_bucket (th_ip t) = ?h \<and> th_connected t \<noteq> None"
    using assms(1) by (auto simp: throttle_ok_def)
  have "\<exists>ts. throttles t = (throttles s)(?h := ts) \<and> distinct (map th_ip ts) \<and> (\<forall>t\<in>set ts. xor_bucket (th_ip t) = ?h \<and> th_connected t \<noteq> None)"
  proof (cases rest)
    case Nil
    let ?u = "\<lparr>th_ip = a, th_last = th_now s, th_connected = Some n, th_count = 1\<rparr>"
    have "throttles t = (throttles s)(?h := ?u # ks)" using False assms(2) sc by (auto simp: check_clones_def Let_def Nil)
    then show ?thesis using scan_None [OF sc [unfolded Nil]] d by (intro exI [of _ "?u # ks"]) auto
  next
    case (Cons v vs)
    from scan_Some [OF sc [unfolded Cons]] have v: "th_ip v = a" "set ks \<union> {v} \<union> set vs \<subseteq> set (throttles s ?h)"
      "distinct (map th_ip (ks @ v # vs))" using d(1) by auto
    obtain r' u msgs where u: "(if \<not> expired s v then count_clone s (Some n) host v else renew ntoa s (Some n) v) = Inr (r', u, msgs)"
      "throttles t = (throttles s)(?h := ks @ u # vs)"
      using assms(2) False sc
      by (cases "if \<not> expired s v then count_clone s (Some n) host v else renew ntoa s (Some n) v") (auto simp: check_clones_def Let_def Cons)
    have "th_ip u = a \<and> th_connected u \<noteq> None"
      using u(1) count_clone_keeps [of s "Some n" host v r' u msgs] renew_keeps [of ntoa s "Some n" v r' u msgs] v d(2)
      by (auto split: if_splits)
    then show ?thesis using u(2) v d(2) by (intro exI [of _ "ks @ u # vs"]) auto
  qed
  then show ?thesis using assms(1) by (auto simp: throttle_ok_def split: if_splits)
qed (use assms in \<open>simp add: check_clones_def\<close>)

text \<open>What one connection does to the record of its address; it is never stuck on a missing name.\<close>

lemma check_clones_record:
  assumes "throttle_ok s" "a \<noteq> 0"
  shows "\<exists>t r. check_clones ntoa a host (Some n) s = Inr (t, r) \<and> CheckClonesLimit t = CheckClonesLimit s \<and>
    CheckClonesPeriod t = CheckClonesPeriod s \<and>
    (case record_of s a of
       None \<Rightarrow> r = 0 \<and> record_of t a = Some \<lparr>th_ip = a, th_last = th_now s, th_connected = Some n, th_count = 1\<rparr>
     | Some v \<Rightarrow> (\<exists>u msgs. (if \<not> expired s v then count_clone s (Some n) host v else renew ntoa s (Some n) v) = Inr (r, u, msgs) \<and>
         record_of t a = Some u))"
proof -
  let ?h = "xor_bucket a"
  obtain ks rest where sc: "scan s a (throttles s ?h) = (ks, rest)" by fastforce
  show ?thesis
  proof (cases rest)
    case Nil
    from scan_None [OF sc [unfolded Nil]] have "record_of s a = None" by (auto simp: record_of_def find_None_iff)
    then show ?thesis using assms(2) sc by (simp add: check_clones_def Let_def Nil record_of_def)
  next
    case (Cons v vs)
    from scan_Some [OF sc [unfolded Cons]] have v: "th_ip v = a" "a \<notin> th_ip ` set ks" "v \<in> set (throttles s ?h)" "record_of s a = Some v"
      by (auto simp: record_of_def)
    obtain r u msgs where u: "(if \<not> expired s v then count_clone s (Some n) host v else renew ntoa s (Some n) v) = Inr (r, u, msgs)"
      using v(3) assms(1) count_clone_total [of v s n host] renew_total [of v ntoa s n] unfolding throttle_ok_def
      by (cases "expired s v") auto
    have "th_ip u = a" using u count_clone_keeps renew_keeps v(1) by (auto split: if_splits)
    then have "List.find (\<lambda>t. th_ip t = a) (ks @ u # vs) = Some u" by (rule find_split [OF v(2)])
    then have rec: "record_of (s\<lparr>throttles := (throttles s)(?h := ks @ u # vs), th_ops := th_ops s @ msgs\<rparr>) a = Some u"
      by (simp add: record_of_def)
    have "check_clones ntoa a host (Some n) s = Inr (s\<lparr>throttles := (throttles s)(?h := ks @ u # vs), th_ops := th_ops s @ msgs\<rparr>, r)"
      using assms(2) sc u by (auto simp: check_clones_def Let_def Cons)
    with rec u show ?thesis unfolding v(4) option.case by (intro exI conjI) auto
  qed
qed

subsection \<open>A sequence of connections from one address\<close>

fun connects :: "(32 word \<Rightarrow> cstr) \<Rightarrow> 32 word \<Rightarrow> cstr \<Rightarrow> cstr \<Rightarrow> time_t list \<Rightarrow> clones \<Rightarrow> ub + int list" where
  "connects ntoa a host n [] s = Inr []"
| "connects ntoa a host n (t # ts) s =
     bind_ub (check_clones ntoa a host (Some n) (s\<lparr>th_now := t\<rparr>))
       (\<lambda>(s1, r). bind_ub (connects ntoa a host n ts s1) (\<lambda>rs. Inr (r # rs)))"

text \<open>The count after \<open>j\<close> connections.\<close>

definition count_after :: "int \<Rightarrow> nat \<Rightarrow> int" where
  "count_after lim j = (if int j < lim then int j else if int j = lim then THROTTLE_HITLIMIT else THROTTLE_SENTWARN)"

lemma short_id: "- (2 ^ 15) \<le> i \<Longrightarrow> i < 2 ^ 15 \<Longrightarrow> short i = i"
  unfolding short_def by (simp add: sint_sbintrunc' signed_take_bit_int_eq_self)

lemma count_clone_after:
  assumes "1 \<le> j" "2 \<le> CheckClonesLimit s" "CheckClonesLimit s < 2 ^ 15" "th_count t = count_after (CheckClonesLimit s) j" "th_connected t \<noteq> None"
  shows "\<exists>u msgs. count_clone s remote host t = Inr (if int j = CheckClonesLimit s then -1 else 0, u, msgs) \<and>
    th_last u = th_now s \<and> th_count u = count_after (CheckClonesLimit s) (Suc j)"
proof -
  have k: "keep_name remote (t\<lparr>th_last := th_now s\<rparr>) = t\<lparr>th_last := th_now s\<rparr>" using assms(5) by (auto simp: keep_name_def)
  obtain nm where nm: "th_connected t = Some nm" using assms(5) by auto
  have sh: "int j < CheckClonesLimit s \<Longrightarrow> short (int j + 1) = int j + 1"
    using assms(3) by (intro short_id) simp_all
  consider "int j < CheckClonesLimit s" | "int j = CheckClonesLimit s" | "int j > CheckClonesLimit s" by linarith
  then show ?thesis
    by cases (use assms sh in \<open>auto simp: count_clone_def k nm printed_def count_after_def Let_def THROTTLE_HITLIMIT_def THROTTLE_SENTWARN_def\<close>)
qed

fun close_times :: "int \<Rightarrow> time_t \<Rightarrow> time_t list \<Rightarrow> bool" where
  "close_times p t [] = True"
| "close_times p t (u # us) \<longleftrightarrow> u \<le> t + p \<and> close_times p u us"

lemma connects_after:
  assumes "throttle_ok s" "a \<noteq> 0" "1 \<le> j" "2 \<le> CheckClonesLimit s" "CheckClonesLimit s < 2 ^ 15"
    and "record_of s a = Some v" "th_count v = count_after (CheckClonesLimit s) j" "close_times (CheckClonesPeriod s) (th_last v) ts"
  shows "connects ntoa a host n ts s = Inr (map (\<lambda>k. if int k = CheckClonesLimit s then -1 else 0) [j..<j + length ts])"
  using assms
proof (induction ts arbitrary: j s v)
  case (Cons t ts)
  let ?s = "s\<lparr>th_now := t\<rparr>"
  have sel: "throttle_ok ?s" "record_of ?s a = Some v" "\<not> expired ?s v" "th_connected v \<noteq> None"
    using Cons.prems by (auto simp: throttle_ok_def record_of_def expired_def dest!: find_SomeD)
  obtain s1 r u msgs where r: "check_clones ntoa a host (Some n) ?s = Inr (s1, r)" "count_clone ?s (Some n) host v = Inr (r, u, msgs)"
    "record_of s1 a = Some u" "CheckClonesLimit s1 = CheckClonesLimit s" "CheckClonesPeriod s1 = CheckClonesPeriod s"
    using check_clones_record [OF sel(1) Cons.prems(2), of ntoa host n] sel(2,3) by auto
  obtain u' msgs' where u: "count_clone ?s (Some n) host v = Inr (if int j = CheckClonesLimit s then -1 else 0, u', msgs')"
    "th_last u' = t" "th_count u' = count_after (CheckClonesLimit s) (Suc j)"
    using count_clone_after [of j ?s v "Some n" host] Cons.prems(3-5,7) sel(4) by auto
  have e: "r = (if int j = CheckClonesLimit s then -1 else 0)" "u = u'" using r(2) u(1) by auto
  have "connects ntoa a host n ts s1 = Inr (map (\<lambda>k. if int k = CheckClonesLimit s1 then -1 else 0) [Suc j..<Suc j + length ts])"
  proof (rule Cons.IH)
    show "throttle_ok s1" by (rule check_clones_ok [OF sel(1) r(1)])
    show "th_count u = count_after (CheckClonesLimit s1) (Suc j)" using u(3) e(2) r(4) by simp
  qed (use Cons.prems r u e in simp_all)
  moreover have "[j..<j + length (t # ts)] = j # [Suc j..<Suc j + length ts]" by (simp add: upt_conv_Cons del: upt_Suc)
  ultimately show ?case using r(1,4) e(1) by (simp del: upt_Suc)
qed simp

subsection \<open>Properties\<close>

text \<open>
  A new address that keeps connecting, never longer than the period apart: the connection after the limit
  is refused, the one after that and all later ones are let in again.
\<close>

theorem throttle_refuses_once:
  assumes "throttle_ok s" "a \<noteq> 0" "record_of s a = None" "2 \<le> CheckClonesLimit s" "CheckClonesLimit s < 2 ^ 15"
    and "close_times (CheckClonesPeriod s) t ts"
  shows "connects ntoa a host n (t # ts) s =
    Inr (map (\<lambda>k. if int k = CheckClonesLimit s then -1 else 0) [0..<Suc (length ts)])"
proof -
  let ?s = "s\<lparr>th_now := t\<rparr>"
  let ?v = "\<lparr>th_ip = a, th_last = t, th_connected = Some n, th_count = 1\<rparr>"
  have sel: "throttle_ok ?s" "record_of ?s a = None" using assms by (auto simp: throttle_ok_def record_of_def)
  obtain s1 where r: "check_clones ntoa a host (Some n) ?s = Inr (s1, 0)" "record_of s1 a = Some ?v"
    "CheckClonesLimit s1 = CheckClonesLimit s" "CheckClonesPeriod s1 = CheckClonesPeriod s"
    using check_clones_record [OF sel(1) assms(2), of ntoa host n] sel(2) by auto
  have "connects ntoa a host n ts s1 = Inr (map (\<lambda>k. if int k = CheckClonesLimit s1 then -1 else 0) [1..<1 + length ts])"
    using check_clones_ok [OF sel(1) r(1)] assms r by (intro connects_after [where v = ?v]) (simp_all add: count_after_def)
  then show ?thesis using r assms(4) by (simp add: upt_conv_Cons del: upt_Suc)
qed

text \<open>
  \<open>remove_clone_check\<close> finds the record of an address only when its two hash functions agree: for all
  other addresses it changes nothing.
\<close>

theorem remove_clone_check_misses:
  assumes "throttle_ok s"
  shows "remove_clone_check a s =
    (if a = 0 \<or> sum_bucket a \<noteq> xor_bucket a then s
     else s\<lparr>throttles := (throttles s)(xor_bucket a := lower_count a (throttles s (xor_bucket a)))\<rparr>)"
proof (cases "a = 0 \<or> sum_bucket a = xor_bucket a")
  case False
  have "lower_count a ts = ts" if "\<forall>t\<in>set ts. th_ip t \<noteq> a" for ts using that by (induction ts) auto
  moreover have "\<forall>t\<in>set (throttles s (sum_bucket a)). th_ip t \<noteq> a" using assms False by (auto simp: throttle_ok_def)
  ultimately show ?thesis using False by (simp add: remove_clone_check_def)
qed (auto simp: remove_clone_check_def)

subsection \<open>Concrete runs\<close>

definition no_clones :: clones where
  "no_clones = \<lparr>throttles = (\<lambda>_. []), CheckClonesLimit = 2, CheckClonesPeriod = 60, th_now = 0, th_ops = []\<rparr>"

lemma no_clones_ok: "throttle_ok no_clones"
  by (simp add: throttle_ok_def no_clones_def)

theorem throttle_refuses_once_witness:
  "connects (\<lambda>_. ''1.2.3.4'') 0x01020304 ''h'' ''n'' [0, 5, 10, 15] no_clones = Inr [0, 0, -1, 0]"
  using throttle_refuses_once [OF no_clones_ok, where a = "0x01020304" and t = 0 and ts = "[5, 10, 15]" and ntoa = "\<lambda>_. ''1.2.3.4''"
      and host = "''h''" and n = "''n''"]
  by (simp add: no_clones_def record_of_def upt_conv_Cons)

definition one_clone :: clones where
  "one_clone = no_clones\<lparr>throttles := (\<lambda>_. [])(4 := [\<lparr>th_ip = 0x01020304, th_last = 0, th_connected = Some ''n'', th_count = 5\<rparr>])\<rparr>"

theorem remove_clone_check_misses_witness: "remove_clone_check 0x01020304 one_clone = one_clone"
proof -
  have b: "sum_bucket 0x01020304 = 10" "xor_bucket 0x01020304 = 4"
    by (simp_all add: sum_bucket_def xor_bucket_def octet_def)
  then have "throttle_ok one_clone" by (simp add: throttle_ok_def one_clone_def no_clones_def)
  from remove_clone_check_misses [OF this, of "0x01020304"] show ?thesis by (simp add: b)
qed

end
