(* ===== verification/Whowas.thy ===== *)
theory Whowas
  imports ChanCmd
begin

text \<open>
  The history of nicknames, \<open>src/whowas.c\<close>: a ring of entries that are linked by the hash of their name and by
  the client that still is online. An entry is its index in \<open>WHOWAS\<close>; the doubly linked lists are lists of
  indices, the client \<open>0\<close> is the null pointer. \<open>myctime\<close> (date printing) and \<open>hunt\<close> (forwarding by
  \<open>hunt_server\<close>) are arguments.
\<close>

subsection \<open>Data\<close>

definition NICKNAMEHISTORYLENGTH :: nat where "NICKNAMEHISTORYLENGTH = 3000"
definition WW_MAX :: nat where "WW_MAX = 65536"
definition WHOIS_WAIT :: int where "WHOIS_WAIT = 1"

record whowas =
  hashv :: int
  ww_name :: cstr
  ww_username :: cstr
  ww_realhost :: cstr
  ww_hostname :: cstr
  ww_realname :: cstr
  servername :: cstr
  logoff :: time_t
  online :: nat

text \<open>\<open>c_whowas\<close> is \<open>cptr->whowas\<close>, \<open>c_realname\<close> is \<open>cptr->info\<close>, \<open>last_used\<close> the static of \<open>m_whowas\<close>.\<close>

record wwstate =
  ww_irc :: ircd
  WHOWAS :: "nat \<Rightarrow> whowas"
  WHOWASHASH :: "nat \<Rightarrow> nat list"
  whowas_next :: nat
  c_whowas :: "nat \<Rightarrow> nat list"
  c_realname :: "nat \<Rightarrow> cstr"
  last_used :: time_t

definition hash_whowas_name :: "cstr \<Rightarrow> nat" where
  "hash_whowas_name name = unat (hash_fold 0 (cut name) AND (word_of_nat WW_MAX - 1))"

definition initwhowas :: "wwstate \<Rightarrow> wwstate" where
  "initwhowas s =
     s\<lparr>WHOWAS := (\<lambda>_. \<lparr>hashv = -1, ww_name = [], ww_username = [], ww_realhost = [], ww_hostname = [], ww_realname = [],
                      servername = [], logoff = 0, online = 0\<rparr>),
       WHOWASHASH := (\<lambda>_. [])\<rparr>"

subsection \<open>Operations\<close>

text \<open>An entry that is reused leaves its lists first.\<close>

definition drop_entry :: "nat \<Rightarrow> wwstate \<Rightarrow> wwstate" where
  "drop_entry i s =
     (let w = WHOWAS s i in
      if hashv w \<noteq> -1 then
        s\<lparr>c_whowas := (if online w \<noteq> 0 then (c_whowas s)(online w := remove1 i (c_whowas s (online w))) else c_whowas s),
          WHOWASHASH := (WHOWASHASH s)(nat (hashv w) := remove1 i (WHOWASHASH s (nat (hashv w))))\<rparr>
      else s)"

definition new_entry :: "nat \<Rightarrow> bool \<Rightarrow> wwstate \<Rightarrow> whowas" where
  "new_entry cptr onl s =
     (let c = clients (ww_irc s) cptr in
      \<lparr>hashv = int (hash_whowas_name (c_name c)), ww_name = take NICKLEN (c_name c), ww_username = c_username c,
       ww_realhost = c_realhost c, ww_hostname = c_host c, ww_realname = c_realname s cptr, servername = u_server c,
       logoff = CurrentTime (ww_irc s), online = (if onl then cptr else 0)\<rparr>)"

definition add_history :: "nat \<Rightarrow> bool \<Rightarrow> wwstate \<Rightarrow> ub + wwstate" where
  "add_history cptr onl s =
     (let i = whowas_next s; s1 = drop_entry i s; e = new_entry cptr onl s; h = nat (hashv e) in
      if \<not> has_user (clients (ww_irc s) cptr) then Inl NullDeref
      else Inr (s1\<lparr>WHOWAS := (WHOWAS s)(i := e),
                  c_whowas := (if onl then (c_whowas s1)(cptr := i # c_whowas s1 cptr) else c_whowas s1),
                  WHOWASHASH := (WHOWASHASH s1)(h := i # WHOWASHASH s1 h),
                  whowas_next := (if Suc i = NICKNAMEHISTORYLENGTH then 0 else Suc i)\<rparr>))"

fun off_loop :: "nat \<Rightarrow> nat list \<Rightarrow> wwstate \<Rightarrow> wwstate" where
  "off_loop cptr [] s = s"
| "off_loop cptr (i # is) s =
     off_loop cptr is
       (s\<lparr>WHOWAS := (WHOWAS s)(i := (WHOWAS s i)\<lparr>online := 0\<rparr>), c_whowas := (c_whowas s)(cptr := remove1 i (c_whowas s cptr))\<rparr>)"

definition off_history :: "nat \<Rightarrow> wwstate \<Rightarrow> wwstate" where
  "off_history cptr s = off_loop cptr (c_whowas s cptr) s"

definition get_history :: "cstr \<Rightarrow> time_t \<Rightarrow> wwstate \<Rightarrow> nat" where
  "get_history nick timelimit s =
     (case List.find (\<lambda>i. irccmp nick (ww_name (WHOWAS s i)) = 0 \<and> \<not> logoff (WHOWAS s i) < CurrentTime (ww_irc s) - timelimit)
             (WHOWASHASH s (hash_whowas_name nick)) of
        None \<Rightarrow> 0
      | Some i \<Rightarrow> online (WHOWAS s i))"

definition count_whowas_memory :: "nat \<Rightarrow> wwstate \<Rightarrow> nat \<times> nat" where
  "count_whowas_memory sizeof_whowas s =
     (let u = length (filter (\<lambda>i. hashv (WHOWAS s i) \<noteq> -1) [0..<NICKNAMEHISTORYLENGTH]) in (u, u * sizeof_whowas))"

subsection \<open>The command\<close>

definition wwnumeric :: "nat \<Rightarrow> cstr \<Rightarrow> cstr \<Rightarrow> cstr \<Rightarrow> wwstate \<Rightarrow> wwstate" where
  "wwnumeric p num name txt s = s\<lparr>ww_irc := numeric p num name txt (ww_irc s)\<rparr>"

definition show_entry :: "(time_t \<Rightarrow> cstr) \<Rightarrow> nat \<Rightarrow> cstr \<Rightarrow> whowas \<Rightarrow> wwstate \<Rightarrow> wwstate" where
  "show_entry myctime sptr name w s =
     wwnumeric sptr ''312'' name (ww_name w @ '' '' @ servername w @ '' :'' @ myctime (logoff w))
       (wwnumeric sptr ''314'' name
          (ww_name w @ '' '' @ ww_username w @ '' '' @
           (if IsOper (clients (ww_irc s) sptr) then ww_realhost w else ww_hostname w) @ '' * :'' @ ww_realname w) s)"

text \<open>The walk, with the number of entries shown so far.\<close>

fun whowas_loop :: "(time_t \<Rightarrow> cstr) \<Rightarrow> nat \<Rightarrow> cstr \<Rightarrow> cstr \<Rightarrow> int \<Rightarrow> nat list \<Rightarrow> int \<Rightarrow> wwstate \<Rightarrow> wwstate \<times> int" where
  "whowas_loop myctime sptr name nick mx [] cur s = (s, cur)"
| "whowas_loop myctime sptr name nick mx (i # is) cur s =
     (let w = WHOWAS s i; (s1, cur1) = (if irccmp nick (ww_name w) = 0 then (show_entry myctime sptr name w s, cur + 1) else (s, cur))
      in if 0 < mx \<and> mx \<le> cur1 then (s1, cur1) else whowas_loop myctime sptr name nick mx is cur1 s1)"

definition m_whowas ::
  "(time_t \<Rightarrow> cstr) \<Rightarrow> (nat \<Rightarrow> nat \<Rightarrow> cstr list \<Rightarrow> wwstate \<Rightarrow> wwstate \<times> bool) \<Rightarrow> nat \<Rightarrow> nat \<Rightarrow> cstr list \<Rightarrow> wwstate \<Rightarrow> wwstate" where
  "m_whowas myctime hunt cptr sptr parv s =
     (if length parv < 2 then wwnumeric sptr ''431'' (parv ! 0) '':No nickname given'' s
      else
        let mx = (if 2 < length parv then atoi (parv ! 2) else -1);
            (s1, gone) = (if 3 < length parv then hunt cptr sptr parv s else (s, False));
            c = clients (ww_irc s1) sptr; paced = \<not> IsAnOper c \<and> \<not> MyConnect c in
        if gone then s1
        else if paced \<and> CurrentTime (ww_irc s1) < last_used s1 + WHOIS_WAIT then s1
        else
          let s2 = (if paced then s1\<lparr>last_used := CurrentTime (ww_irc s1)\<rparr> else s1);
              mx2 = (if \<not> MyConnect c \<and> 20 < mx then 20 else mx);
              nick = first_item (parv ! 1);
              (s3, found) = whowas_loop myctime sptr (parv ! 0) nick mx2 (WHOWASHASH s2 (hash_whowas_name nick)) 0 s2;
              s4 = (if found = 0 then wwnumeric sptr ''406'' (parv ! 0) (nick @ '' :There was no such nickname'') s3 else s3)
          in wwnumeric sptr ''369'' (parv ! 0) (nick @ '' :End of WHOWAS'') s4)"

subsection \<open>The ring\<close>

abbreviation N where "N \<equiv> NICKNAMEHISTORYLENGTH"

lemma N_pos [simp]: "0 < N" "N \<noteq> 0"
  by (simp_all add: NICKNAMEHISTORYLENGTH_def)

text \<open>The indices from the newest entry to the one that is reused next.\<close>

definition ring :: "nat \<Rightarrow> nat list" where
  "ring n = map (\<lambda>k. (n + N - 1 - k) mod N) [0..<N]"

definition succ_index :: "nat \<Rightarrow> nat" where
  "succ_index n = (if Suc n = N then 0 else Suc n)"

lemma succ_index_less: "n < N \<Longrightarrow> succ_index n < N"
  by (simp add: succ_index_def)

lemma ring_last: "n < N \<Longrightarrow> ring n = map (\<lambda>k. (n + N - 1 - k) mod N) [0..<N - 1] @ [n]"
proof -
  assume n: "n < N"
  have "[0..<N] = [0..<N - 1] @ [N - 1]" by (metis N_pos(1) Suc_diff_1 upt_Suc_append zero_le)
  then show ?thesis using n by (simp add: ring_def)
qed

lemma ring_step:
  assumes "n < N"
  shows "ring (succ_index n) = n # butlast (ring n)"
proof -
  have "[0..<N] = 0 # map Suc [0..<N - 1]" by (metis N_pos(1) Suc_diff_1 map_Suc_upt upt_conv_Cons)
  moreover have shift: "(succ_index n + N - 1 - Suc k) mod N = (n + N - 1 - k) mod N" if "k < N - 1" for k
  proof (cases "Suc n = N")
    case True
    then have "n + N - 1 - k = (succ_index n + N - 1 - Suc k) + N" using that by (simp add: succ_index_def)
    then show ?thesis by simp
  next
    case False
    have "succ_index n + N - 1 - Suc k = n + N - 1 - k" using that False by (simp add: succ_index_def)
    then show ?thesis by simp
  qed
  moreover have "(succ_index n + N - 1) mod N = n" using assms by (cases "Suc n = N") (simp_all add: succ_index_def)
  ultimately show ?thesis using assms by (simp add: ring_last butlast_append) (simp add: ring_def)
qed

lemma set_ring: "n < N \<Longrightarrow> set (ring n) = {0..<N}"
proof -
  assume n: "n < N"
  have "i \<in> set (ring n)" if "i < N" for i
  proof (cases "i < n")
    case True
    then have "(n + N - 1 - (n - 1 - i)) mod N = i" using that by (simp add: mod_if)
    moreover have "n - 1 - i < N" using n by simp
    ultimately show ?thesis unfolding ring_def set_map by (intro image_eqI [of _ _ "n - 1 - i"]) auto
  next
    case False
    then have "(n + N - 1 - (n + N - 1 - i)) mod N = i" "n + N - 1 - i < N" using that by simp_all
    then show ?thesis unfolding ring_def set_map by (intro image_eqI [of _ _ "n + N - 1 - i"]) auto
  qed
  then show ?thesis by (auto simp: ring_def)
qed

lemma length_ring [simp]: "length (ring n) = N"
  by (simp add: ring_def)

lemma distinct_ring: "n < N \<Longrightarrow> distinct (ring n)"
  using card_distinct [of "ring n"] by (simp add: set_ring)

subsection \<open>The invariant\<close>

definition used :: "wwstate \<Rightarrow> nat \<Rightarrow> bool" where
  "used s i \<longleftrightarrow> hashv (WHOWAS s i) \<noteq> -1"

definition ww_ok :: "wwstate \<Rightarrow> bool" where
  "ww_ok s \<longleftrightarrow> whowas_next s < N \<and>
     (\<forall>i<N. used s i \<longrightarrow> hashv (WHOWAS s i) = int (hash_whowas_name (ww_name (WHOWAS s i)))) \<and>
     (\<forall>h. WHOWASHASH s h = filter (\<lambda>i. hashv (WHOWAS s i) = int h) (ring (whowas_next s))) \<and>
     (\<forall>c. c \<noteq> 0 \<longrightarrow> c_whowas s c = filter (\<lambda>i. used s i \<and> online (WHOWAS s i) = c) (ring (whowas_next s))) \<and>
     ((\<forall>i<N. used s i) \<or> (\<forall>i<N. used s i \<longleftrightarrow> i < whowas_next s))"

text \<open>The specification: the entries from the newest to the oldest.\<close>

definition history :: "wwstate \<Rightarrow> whowas list" where
  "history s = map (WHOWAS s) (filter (used s) (ring (whowas_next s)))"

lemma filter_last: "n < N \<Longrightarrow> filter P (ring n) = filter P (butlast (ring n)) @ (if P n then [n] else [])"
  by (simp add: ring_last butlast_append)

lemma notin_butlast: "n < N \<Longrightarrow> n \<notin> set (butlast (ring n))"
  using distinct_ring [of n] by (simp add: ring_last butlast_append)

lemma filter_update:
  assumes "n < N" "\<And>i. i \<noteq> n \<Longrightarrow> P' i = P i"
  shows "filter P' (ring (succ_index n)) = (if P' n then [n] else []) @ filter P (butlast (ring n))"
proof -
  have "filter P' (butlast (ring n)) = filter P (butlast (ring n))"
    using notin_butlast [OF assms(1)] assms(2) by (intro filter_cong refl) metis
  then show ?thesis by (simp add: ring_step [OF assms(1)])
qed

lemma remove_last: "n < N \<Longrightarrow> P n \<Longrightarrow> remove1 n (filter P (ring n)) = filter P (butlast (ring n))"
  using notin_butlast [of n] by (simp add: filter_last [of n P] remove1_append)

lemma init_ok: "whowas_next s = 0 \<Longrightarrow> c_whowas s = (\<lambda>_. []) \<Longrightarrow> ww_ok (initwhowas s) \<and> history (initwhowas s) = []"
  by (simp add: ww_ok_def initwhowas_def used_def history_def)

text \<open>What one more entry does: it is put in front, and the oldest is dropped when the ring is full.\<close>

lemma add_history_ok:
  assumes ok: "ww_ok s" and u: "has_user (clients (ww_irc s) cptr)" and nm: "length (c_name (clients (ww_irc s) cptr)) \<le> NICKLEN"
    and c: "cptr \<noteq> 0"
  obtains t where "add_history cptr onl s = Inr t" "ww_ok t" "history t = new_entry cptr onl s # take (N - 1) (history s)" "ww_irc t = ww_irc s"
proof -
  let ?i = "whowas_next s" and ?e = "new_entry cptr onl s" and ?s1 = "drop_entry (whowas_next s) s"
  let ?h = "nat (hashv ?e)"
  define t where "t = ?s1\<lparr>WHOWAS := (WHOWAS s)(?i := ?e), c_whowas := (if onl then (c_whowas ?s1)(cptr := ?i # c_whowas ?s1 cptr) else c_whowas ?s1),
      WHOWASHASH := (WHOWASHASH ?s1)(?h := ?i # WHOWASHASH ?s1 ?h), whowas_next := succ_index ?i\<rparr>"
  have i: "?i < N" and hv: "\<And>j. j < N \<Longrightarrow> used s j \<Longrightarrow> hashv (WHOWAS s j) = int (hash_whowas_name (ww_name (WHOWAS s j)))"
    and hash: "\<And>h. WHOWASHASH s h = filter (\<lambda>j. hashv (WHOWAS s j) = int h) (ring ?i)"
    and cl: "\<And>d. d \<noteq> 0 \<Longrightarrow> c_whowas s d = filter (\<lambda>j. used s j \<and> online (WHOWAS s j) = d) (ring ?i)"
    and fill: "(\<forall>j<N. used s j) \<or> (\<forall>j<N. used s j \<longleftrightarrow> j < ?i)"
    using ok by (auto simp: ww_ok_def)
  have e: "hashv ?e = int (hash_whowas_name (ww_name ?e))" "hashv ?e = int ?h" "?e = ?e\<lparr>online := (if onl then cptr else 0)\<rparr>"
    using nm by (simp_all add: new_entry_def Let_def)
  have on: "online ?e = (if onl then cptr else 0)" by (simp add: new_entry_def Let_def)
  have add: "add_history cptr onl s = Inr t" using u by (simp add: add_history_def Let_def succ_index_def t_def)
  have W: "WHOWAS t = (WHOWAS s)(?i := ?e)" "whowas_next t = succ_index ?i"
    "WHOWASHASH t = (WHOWASHASH ?s1)(?h := ?i # WHOWASHASH ?s1 ?h)" "c_whowas t = (if onl then (c_whowas ?s1)(cptr := ?i # c_whowas ?s1 cptr) else c_whowas ?s1)"
    by (simp_all add: t_def)
  have us: "used t j \<longleftrightarrow> j = ?i \<or> used s j" for j using e(1) by (simp add: used_def W)
  have s1: "WHOWASHASH ?s1 h = filter (\<lambda>j. hashv (WHOWAS s j) = int h) (butlast (ring ?i))" for h
  proof (cases "hashv (WHOWAS s ?i) = int h")
    case True
    then show ?thesis using remove_last [OF i, of "\<lambda>j. hashv (WHOWAS s j) = int h"] by (simp add: drop_entry_def Let_def hash)
  next
    case False
    moreover have "hashv (WHOWAS s ?i) \<noteq> -1 \<Longrightarrow> nat (hashv (WHOWAS s ?i)) \<noteq> h" using hv [OF i] False by (simp add: used_def)
    moreover have "WHOWASHASH ?s1 h = WHOWASHASH s h" using calculation by (auto simp: drop_entry_def Let_def)
    ultimately show ?thesis using filter_last [OF i, of "\<lambda>j. hashv (WHOWAS s j) = int h"] by (simp add: hash)
  qed
  have s2: "c_whowas ?s1 d = filter (\<lambda>j. used s j \<and> online (WHOWAS s j) = d) (butlast (ring ?i))" if "d \<noteq> 0" for d
  proof (cases "used s ?i \<and> online (WHOWAS s ?i) = d")
    case True
    then show ?thesis using remove_last [OF i, of "\<lambda>j. used s j \<and> online (WHOWAS s j) = d"] that
      by (simp add: drop_entry_def Let_def cl used_def)
  next
    case False
    then show ?thesis using filter_last [OF i, of "\<lambda>j. used s j \<and> online (WHOWAS s j) = d"] that
      by (auto simp: drop_entry_def Let_def cl used_def)
  qed
  have okt: "ww_ok t" unfolding ww_ok_def W(2)
  proof (intro conjI allI impI)
    show "succ_index ?i < N" by (rule succ_index_less [OF i])
    show "hashv (WHOWAS t j) = int (hash_whowas_name (ww_name (WHOWAS t j)))" if "j < N" "used t j" for j
      using that(2) unfolding us W by (cases "j = ?i") (use that(1) hv e(1) in auto)
    show "WHOWASHASH t h = filter (\<lambda>j. hashv (WHOWAS t j) = int h) (ring (succ_index ?i))" for h
      using e(2) by (simp add: W filter_update [OF i, of _ "\<lambda>j. hashv (WHOWAS s j) = int h"] s1)
    show "c_whowas t d = filter (\<lambda>j. used t j \<and> online (WHOWAS t j) = d) (ring (succ_index ?i))" if "d \<noteq> 0" for d
      using that c on by (simp add: us W filter_update [OF i, of _ "\<lambda>j. used s j \<and> online (WHOWAS s j) = d"] s2)
    show "(\<forall>j<N. used t j) \<or> (\<forall>j<N. used t j = (j < succ_index ?i))"
      using fill i unfolding us succ_index_def by (cases "Suc ?i = N") (auto simp: less_Suc_eq)
  qed
  have hist: "history t = ?e # take (N - 1) (history s)"
  proof -
    let ?b = "filter (used s) (butlast (ring ?i))"
    have "map (WHOWAS t) ?b = map (WHOWAS s) ?b" using notin_butlast [OF i] by (auto simp: W)
    then have h: "history t = ?e # map (WHOWAS s) ?b"
      by (simp add: history_def filter_update [OF i, of _ "used s"] us W)
    have len: "length ?b \<le> N - 1" by (metis length_butlast length_filter_le length_ring)
    show ?thesis
    proof (cases "used s ?i")
      case True
      then have "\<forall>j<N. used s j" using fill i by blast
      then have "?b = butlast (ring ?i)" using set_ring [OF i] in_set_butlastD [of _ "ring ?i"] by (intro filter_True) auto
      then have "length ?b = N - 1" by simp
      then show ?thesis using True h by (simp add: history_def filter_last [OF i])
    next
      case False
      then show ?thesis using h len by (simp add: history_def filter_last [OF i])
    qed
  qed
  have "ww_irc t = ww_irc s" by (simp add: t_def drop_entry_def Let_def)
  then show thesis by (rule that [OF add okt hist])
qed

text \<open>A client that leaves: its entries forget it.\<close>

lemma off_loop_sel:
  "WHOWAS (off_loop c is s) i = (if i \<in> set is then (WHOWAS s i)\<lparr>online := 0\<rparr> else WHOWAS s i) \<and>
   WHOWASHASH (off_loop c is s) = WHOWASHASH s \<and> whowas_next (off_loop c is s) = whowas_next s \<and> ww_irc (off_loop c is s) = ww_irc s \<and>
   (d \<noteq> c \<longrightarrow> c_whowas (off_loop c is s) d = c_whowas s d) \<and> (c_whowas s c = is \<longrightarrow> c_whowas (off_loop c is s) c = [])"
  by (induction c "is" s arbitrary: i d rule: off_loop.induct) auto

lemma off_history_ok:
  assumes ok: "ww_ok s" and c: "c \<noteq> 0"
  shows "ww_ok (off_history c s)" "history (off_history c s) = map (\<lambda>e. if online e = c then e\<lparr>online := 0\<rparr> else e) (history s)"
proof -
  let ?t = "off_history c s" and ?r = "ring (whowas_next s)"
  have n: "whowas_next s < N" using ok by (simp add: ww_ok_def)
  have cl: "\<And>d. d \<noteq> 0 \<Longrightarrow> c_whowas s d = filter (\<lambda>j. used s j \<and> online (WHOWAS s j) = d) ?r"
    and hash: "\<And>h. WHOWASHASH s h = filter (\<lambda>j. hashv (WHOWAS s j) = int h) ?r" using ok by (auto simp: ww_ok_def)
  have sel: "WHOWASHASH ?t = WHOWASHASH s" "whowas_next ?t = whowas_next s" "c_whowas ?t c = []" "d \<noteq> c \<Longrightarrow> c_whowas ?t d = c_whowas s d" for d
    by (simp_all add: off_history_def off_loop_sel)
  have W: "WHOWAS ?t i = (if i < N \<and> used s i \<and> online (WHOWAS s i) = c then (WHOWAS s i)\<lparr>online := 0\<rparr> else WHOWAS s i)" for i
    using set_ring [OF n] by (auto simp: off_history_def off_loop_sel cl [OF c])
  have u: "used ?t i = used s i" "hashv (WHOWAS ?t i) = hashv (WHOWAS s i)" "ww_name (WHOWAS ?t i) = ww_name (WHOWAS s i)" for i
    by (simp_all add: used_def W)
  have on: "i \<in> set ?r \<Longrightarrow> (used s i \<and> online (WHOWAS ?t i) = d) = (used s i \<and> online (WHOWAS s i) = d \<and> d \<noteq> c)" if "d \<noteq> 0" for i d
    using that set_ring [OF n] by (auto simp: W)
  have "c_whowas ?t d = filter (\<lambda>j. used ?t j \<and> online (WHOWAS ?t j) = d) ?r" if "d \<noteq> 0" for d
  proof -
    have "filter (\<lambda>j. used ?t j \<and> online (WHOWAS ?t j) = d) ?r = filter (\<lambda>j. used s j \<and> online (WHOWAS s j) = d \<and> d \<noteq> c) ?r"
      unfolding u by (rule filter_cong [OF refl on [OF that]])
    then show ?thesis using that sel(3,4) by (cases "d = c") (simp_all add: cl)
  qed
  then show "ww_ok ?t" using ok unfolding ww_ok_def u sel by blast
  have "WHOWAS ?t i = (if online (WHOWAS s i) = c then (WHOWAS s i)\<lparr>online := 0\<rparr> else WHOWAS s i)" if "i \<in> set (filter (used s) ?r)" for i
    using that set_ring [OF n] by (auto simp: W)
  then show "history ?t = map (\<lambda>e. if online e = c then e\<lparr>online := 0\<rparr> else e) (history s)"
    by (simp add: history_def sel fun_eq_iff [of "used ?t", simplified u] cong: map_cong filter_cong) (simp add: u cong: filter_cong)
qed

subsection \<open>Looking up the history\<close>

definition matches :: "wwstate \<Rightarrow> cstr \<Rightarrow> whowas list" where
  "matches s nick = filter (\<lambda>e. irc_eq nick (ww_name e)) (history s)"

lemma hash_whowas_cong: "irc_eq a b \<Longrightarrow> hash_whowas_name a = hash_whowas_name b"
  by (simp add: hash_whowas_name_def irc_eq_ToLower hash_fold_cong [of "cut a" "cut b"])

lemma chain_matches:
  assumes "ww_ok s"
  shows "map (WHOWAS s) (filter (\<lambda>i. irc_eq nick (ww_name (WHOWAS s i))) (WHOWASHASH s (hash_whowas_name nick))) = matches s nick"
proof -
  have n: "whowas_next s < N" using assms by (simp add: ww_ok_def)
  have "(hashv (WHOWAS s i) = int (hash_whowas_name nick) \<and> irc_eq nick (ww_name (WHOWAS s i))) = (used s i \<and> irc_eq nick (ww_name (WHOWAS s i)))"
    if "i \<in> set (ring (whowas_next s))" for i
    using that assms set_ring [OF n] hash_whowas_cong [of nick "ww_name (WHOWAS s i)"] by (auto simp: ww_ok_def used_def)
  then have "filter (\<lambda>i. irc_eq nick (ww_name (WHOWAS s i))) (WHOWASHASH s (hash_whowas_name nick)) =
      filter (\<lambda>i. irc_eq nick (ww_name (WHOWAS s i))) (filter (used s) (ring (whowas_next s)))"
    using assms by (simp add: ww_ok_def conj_commute cong: filter_cong)
  then show ?thesis by (simp add: matches_def history_def filter_map comp_def)
qed

lemma find_filter: "List.find (\<lambda>x. P x \<and> Q x) xs = List.find Q (filter P xs)"
  by (induction xs) auto

lemma find_map: "List.find P (map f xs) = map_option f (List.find (\<lambda>x. P (f x)) xs)"
  by (induction xs) auto

lemma get_history_matches:
  assumes "ww_ok s"
  shows "get_history nick limit s =
    (case List.find (\<lambda>e. CurrentTime (ww_irc s) - limit \<le> logoff e) (matches s nick) of None \<Rightarrow> 0 | Some e \<Rightarrow> online e)"
  unfolding chain_matches [OF assms, symmetric]
  by (simp add: get_history_def find_filter find_map not_less split: option.split)

definition entry_lines :: "(time_t \<Rightarrow> cstr) \<Rightarrow> ircd \<Rightarrow> nat \<Rightarrow> cstr \<Rightarrow> whowas \<Rightarrow> (target \<times> cstr) list" where
  "entry_lines myctime d p name w =
     [(ToOne p, '':'' @ me_name (cfg d) @ '' 314 '' @ name @ '' '' @ ww_name w @ '' '' @ ww_username w @ '' '' @
         (if IsOper (clients d p) then ww_realhost w else ww_hostname w) @ '' * :'' @ ww_realname w),
      (ToOne p, '':'' @ me_name (cfg d) @ '' 312 '' @ name @ '' '' @ ww_name w @ '' '' @ servername w @ '' :'' @ myctime (logoff w))]"

lemma show_entry_sel:
  "sent (ww_irc (show_entry f p name w s)) = sent (ww_irc s) @ entry_lines f (ww_irc s) p name w"
  "cfg (ww_irc (show_entry f p name w s)) = cfg (ww_irc s)" "clients (ww_irc (show_entry f p name w s)) = clients (ww_irc s)"
  "WHOWAS (show_entry f p name w s) = WHOWAS s"
  by (simp_all add: show_entry_def wwnumeric_def numeric_def entry_lines_def)

lemma entry_lines_cong: "cfg d = cfg e \<Longrightarrow> clients d = clients e \<Longrightarrow> entry_lines f d p name = entry_lines f e p name"
  by (simp add: entry_lines_def fun_eq_iff)

text \<open>At most \<open>mx\<close> entries are shown if that is positive, all of them otherwise.\<close>

definition shown :: "int \<Rightarrow> 'a list \<Rightarrow> 'a list" where
  "shown mx es = (if 0 < mx then take (nat mx) es else es)"

definition shows_entries :: "(time_t \<Rightarrow> cstr) \<Rightarrow> nat \<Rightarrow> cstr \<Rightarrow> int \<Rightarrow> wwstate \<Rightarrow> whowas list \<Rightarrow> wwstate \<times> int \<Rightarrow> bool" where
  "shows_entries f p name cur s es r \<longleftrightarrow>
     sent (ww_irc (fst r)) = sent (ww_irc s) @ concat (map (entry_lines f (ww_irc s) p name) es) \<and> snd r = cur + int (length es) \<and>
     cfg (ww_irc (fst r)) = cfg (ww_irc s) \<and> clients (ww_irc (fst r)) = clients (ww_irc s)"

lemma shows_entries_Cons:
  "shows_entries f p name (cur + 1) (show_entry f p name w s) es r \<Longrightarrow> shows_entries f p name cur s (w # es) r"
  using entry_lines_cong [of "ww_irc (show_entry f p name w s)" "ww_irc s" f p name]
  by (simp add: shows_entries_def show_entry_sel)

lemma whowas_loop_spec:
  fixes nick
  assumes "0 < mx \<longrightarrow> cur < mx"
  defines "P \<equiv> (\<lambda>w. irc_eq nick (ww_name w))"
  shows "shows_entries f p name cur s (let es = filter P (map (WHOWAS s) ids) in if 0 < mx then take (nat (mx - cur)) es else es)
    (whowas_loop f p name nick mx ids cur s)"
  using assms(1)
proof (induction ids arbitrary: cur s)
  case (Cons i ids)
  let ?w = "WHOWAS s i"
  show ?case
  proof (cases "P ?w")
    case False
    then have "whowas_loop f p name nick mx (i # ids) cur s = whowas_loop f p name nick mx ids cur s"
      using Cons.prems by (auto simp: Let_def P_def)
    then show ?thesis using Cons.IH [OF Cons.prems] False by simp
  next
    case True
    let ?s = "show_entry f p name ?w s"
    have loop: "whowas_loop f p name nick mx (i # ids) cur s =
        (if 0 < mx \<and> mx \<le> cur + 1 then (?s, cur + 1) else whowas_loop f p name nick mx ids (cur + 1) ?s)"
      using True by (simp add: Let_def P_def)
    have one: "shows_entries f p name (cur + 1) ?s [] (?s, cur + 1)" by (simp add: shows_entries_def)
    show ?thesis
    proof (cases "0 < mx \<and> mx \<le> cur + 1")
      case stop: True
      then have "mx = cur + 1" using Cons.prems by linarith
      then have "nat (mx - cur) = 1" by simp
      then show ?thesis using stop True shows_entries_Cons [OF one] by (simp add: loop Let_def del: whowas_loop.simps)
    next
      case go: False
      have t: "nat (mx - cur) = Suc (nat (mx - (cur + 1)))" if "0 < mx" using that go by simp
      have "0 < mx \<longrightarrow> cur + 1 < mx" using go by linarith
      from shows_entries_Cons [OF Cons.IH [OF this, of ?s]] show ?thesis
        using True go t by (cases "0 < mx") (auto simp: loop Let_def show_entry_sel simp del: whowas_loop.simps)
    qed
  qed
qed (simp add: shows_entries_def)

subsection \<open>Properties\<close>

text \<open>
  C25. The ring with its two kinds of links is a list of at most NICKNAMEHISTORYLENGTH entries, the newest first:
  a new entry goes in front and the oldest falls out, a client that leaves is forgotten by all its entries, and a look-up
  finds the newest entry of that name, up to case, that is young enough.
\<close>

theorem whowas_is_a_log:
  assumes "ww_ok s" "cptr \<noteq> 0" "has_user (clients (ww_irc s) cptr)" "length (c_name (clients (ww_irc s) cptr)) \<le> NICKLEN"
  shows "(\<exists>t. add_history cptr onl s = Inr t \<and> ww_ok t \<and>
      history t = new_entry cptr onl s # take (NICKNAMEHISTORYLENGTH - 1) (history s)) \<and>
    ww_ok (off_history cptr s) \<and>
    history (off_history cptr s) = map (\<lambda>e. if online e = cptr then e\<lparr>online := 0\<rparr> else e) (history s) \<and>
    get_history nick limit s =
      (case List.find (\<lambda>e. CurrentTime (ww_irc s) - limit \<le> logoff e) (filter (\<lambda>e. irc_eq nick (ww_name e)) (history s)) of
         None \<Rightarrow> 0 | Some e \<Rightarrow> online e)"
proof -
  obtain t where "add_history cptr onl s = Inr t" "ww_ok t" "history t = new_entry cptr onl s # take (N - 1) (history s)"
    using add_history_ok [OF assms(1,3,4,2)] by blast
  moreover note off_history_ok [OF assms(1,2)] get_history_matches [OF assms(1), of nick limit]
  ultimately show ?thesis by (simp add: matches_def)
qed

text \<open>
  A local user who asks for a nick is shown its entries from the newest on, as many as asked for, each on two
  lines, or is told that there are none, and then gets the end of the list; the history is not changed.
\<close>

theorem whowas_reply:
  assumes "ww_ok s" "MyConnect (clients (ww_irc s) sptr)" "2 \<le> length parv" "length parv \<le> 3"
  defines "nick \<equiv> first_item (parv ! 1)"
  defines "es \<equiv> shown (if length parv = 3 then atoi (parv ! 2) else -1) (filter (\<lambda>e. irc_eq nick (ww_name e)) (history s))"
  defines "hdr \<equiv> (\<lambda>num. '':'' @ me_name (cfg (ww_irc s)) @ '' '' @ num @ '' '' @ parv ! 0 @ '' '' @ nick)"
  shows "sent (ww_irc (m_whowas myctime hunt cptr sptr parv s)) =
    sent (ww_irc s) @ concat (map (entry_lines myctime (ww_irc s) sptr (parv ! 0)) es) @
      (if es = [] then [(ToOne sptr, hdr ''406'' @ '' :There was no such nickname'')] else []) @
      [(ToOne sptr, hdr ''369'' @ '' :End of WHOWAS'')]"
proof -
  define mx where "mx = (if length parv = 3 then atoi (parv ! 2) else -1)"
  obtain t n where t: "whowas_loop myctime sptr (parv ! 0) nick mx (WHOWASHASH s (hash_whowas_name nick)) 0 s = (t, n)" by fastforce
  have "filter (\<lambda>w. irc_eq nick (ww_name w)) (map (WHOWAS s) (WHOWASHASH s (hash_whowas_name nick))) = matches s nick"
    using chain_matches [OF assms(1), of nick] by (simp add: filter_map comp_def)
  then have r: "sent (ww_irc t) = sent (ww_irc s) @ concat (map (entry_lines myctime (ww_irc s) sptr (parv ! 0)) es)"
    "n = int (length es)" "cfg (ww_irc t) = cfg (ww_irc s)"
    using whowas_loop_spec [where mx = mx and cur = 0 and nick = nick and f = myctime and p = sptr and name = "parv ! 0" and s = s
        and ids = "WHOWASHASH s (hash_whowas_name nick)"] t
    by (simp_all add: es_def shown_def matches_def shows_entries_def Let_def flip: mx_def)
  have "m_whowas myctime hunt cptr sptr parv s =
      wwnumeric sptr ''369'' (parv ! 0) (nick @ '' :End of WHOWAS'')
        (if n = 0 then wwnumeric sptr ''406'' (parv ! 0) (nick @ '' :There was no such nickname'') t else t)"
    using assms(2-4) t by (auto simp: m_whowas_def Let_def nick_def mx_def split: prod.splits)
  then show ?thesis using r by (simp add: wwnumeric_def numeric_def hdr_def)
qed

subsection \<open>A concrete history\<close>

definition h0 :: wwstate where
  "h0 = initwhowas \<lparr>ww_irc = room, WHOWAS = (\<lambda>_. undefined), WHOWASHASH = (\<lambda>_. []), whowas_next = 0, c_whowas = (\<lambda>_. []),
     c_realname = (\<lambda>_. ''real''), last_used = 0\<rparr>"

lemma h0_sel: "ww_ok h0" "history h0 = []" "ww_irc h0 = room" "c_realname h0 = (\<lambda>_. ''real'')"
  unfolding h0_def using init_ok by (simp_all) (simp_all add: initwhowas_def)

lemma bob_sel: "c_name (clients room 2) = ''bob''" "has_user (clients room 2)" "MyConnect (clients room 2)" "IsOper (clients room 2) = False"
  by (simp_all add: room_sel plain_user_def MyConnect_def IsOper_def has_def)

theorem whowas_is_a_log_witness:
  "\<exists>t. add_history 2 True h0 = Inr t \<and> ww_ok t \<and> map ww_name (history t) = [''bob''] \<and> get_history ''BOB'' 0 h0 = 0"
  using whowas_is_a_log [OF h0_sel(1), of 2 True "''BOB''" 0] by (auto simp: h0_sel bob_sel NICKLEN_def new_entry_def Let_def)

theorem whowas_reply_witness:
  "map snd (sent (ww_irc (m_whowas (\<lambda>_. ''now'') (\<lambda>c p v s. (s, False)) 2 2 [''bob'', ''eve''] h0))) =
     map snd (sent room) @ ['':irc.pt 406 bob eve :There was no such nickname'', '':irc.pt 369 bob eve :End of WHOWAS'']"
  using whowas_reply [OF h0_sel(1), of 2 "[''bob'', ''eve'']" "\<lambda>_. ''now''" "\<lambda>c p v s. (s, False)" 2]
  by (simp add: h0_sel bob_sel room_sel plain_config_def shown_def first_item_def plain_user_def MyConnect_def)

end
