(* ===== verification/Flud.thy ===== *)
theory Flud
  imports ChanCmd
begin

text \<open>
  Protection against CTCP floods, \<open>src/flud.c\<close>. A target is a client or a channel; it keeps who sends to it, and each
  sender keeps its targets. \<open>time(&now)\<close> is the field \<open>fl_now\<close>, the three limits are settings. A sender is a
  registered user, so its user block is there when it is announced.
\<close>

subsection \<open>Is it a CTCP?\<close>

abbreviation CTCP :: char where "CTCP \<equiv> CHR 0x01"

function check_for_ctcp :: "cstr \<Rightarrow> ub + int" where
  "check_for_ctcp str =
     (case strchr str CTCP of
        None \<Rightarrow> Inr 0
      | Some p \<Rightarrow>
          (case ircncmp (tl p) ''ACTION'' 6 of
             Inl e \<Rightarrow> Inl e
           | Inr r \<Rightarrow>
               if r \<noteq> 0 then Inr 1
               else case strchr (tl p) CTCP of None \<Rightarrow> Inr 0 | Some q \<Rightarrow> check_for_ctcp (tl q)))"
  by pat_completeness auto
termination
proof (relation "measure length", goal_cases)
  case (2 str p r q)
  then have "length (tl q) < length (tl p)" "length (tl p) < length str"
    by (cases p; cases q; auto dest!: strchr_SomeD)+
  then show ?case by simp
qed simp

declare check_for_ctcp.simps [simp del]

subsection \<open>Data\<close>

datatype flud_target = FludClient nat | FludChan nat

record fludbot =
  fluder :: nat
  fl_count :: int
  first_msg :: time_t
  last_msg :: time_t

record flud_state =
  fl_irc :: ircd
  fluders :: "flud_target \<Rightarrow> fludbot list"
  fludblock :: "flud_target \<Rightarrow> time_t"
  fludees :: "nat \<Rightarrow> flud_target list"
  FLUDBLOCK :: int
  FLUDNUM :: int
  FLUDTIME :: int
  fl_now :: time_t
  is_flud :: int

definition fl_send :: "target \<Rightarrow> cstr \<Rightarrow> flud_state \<Rightarrow> flud_state" where
  "fl_send t m s = s\<lparr>fl_irc := send t m (fl_irc s)\<rparr>"

fun target_name :: "flud_state \<Rightarrow> flud_target \<Rightarrow> cstr" where
  "target_name s (FludClient c) = c_name (clients (fl_irc s) c)"
| "target_name s (FludChan ch) = chname (chans (fl_irc s) ch)"

subsection \<open>Operations\<close>

definition announce_fluder :: "flud_target \<Rightarrow> nat \<Rightarrow> flud_state \<Rightarrow> flud_state" where
  "announce_fluder t c s =
     (let f = clients (fl_irc s) c in
      fl_send ToOps (''Flooder '' @ c_name f @ '' ['' @ c_username f @ ''@'' @ c_host f @ ''] on '' @ u_server f @ '' target: '' @ target_name s t) s)"

definition remove_fluder_reference :: "nat \<Rightarrow> fludbot list \<Rightarrow> fludbot list" where
  "remove_fluder_reference c fs = filter (\<lambda>f. fluder f \<noteq> c) fs"

definition remove_fludee_reference :: "flud_target \<Rightarrow> flud_target list \<Rightarrow> flud_target list" where
  "remove_fludee_reference t ts = filter (\<lambda>u. u \<noteq> t) ts"

definition stale :: "flud_state \<Rightarrow> fludbot \<Rightarrow> bool" where
  "stale s f \<longleftrightarrow> last_msg f < fl_now s - FLUDTIME s"

text \<open>The senders that have been quiet are forgotten, on both sides.\<close>

definition forget_sender :: "flud_target \<Rightarrow> nat \<Rightarrow> flud_state \<Rightarrow> flud_state" where
  "forget_sender t c s = s\<lparr>fludees := (fludees s)(c := remove_fludee_reference t (fludees s c))\<rparr>"

definition collect_garbage :: "flud_target \<Rightarrow> flud_state \<Rightarrow> flud_state" where
  "collect_garbage t s =
     (let s1 = fold (\<lambda>f. forget_sender t (fluder f)) (filter (stale s) (fluders s t)) s
      in s1\<lparr>fluders := (fluders s1)(t := filter (\<lambda>f. \<not> stale s f) (fluders s t))\<rparr>)"

definition note_message :: "nat \<Rightarrow> time_t \<Rightarrow> fludbot \<Rightarrow> fludbot" where
  "note_message c now f = (if fluder f = c then f\<lparr>last_msg := now, fl_count := fl_count f + 1\<rparr> else f)"

definition weight :: "flud_state \<Rightarrow> fludbot \<Rightarrow> int" where
  "weight s f = (if first_msg f < fl_now s - FLUDTIME s then 1 else fl_count f)"

definition count_message :: "flud_target \<Rightarrow> nat \<Rightarrow> bool \<Rightarrow> flud_state \<Rightarrow> flud_state \<times> int" where
  "count_message t c blocking s =
     (let fs = map (note_message c (fl_now s)) (fluders s t); n = sum_list (map (weight s) fs) in
      if c \<in> fluder ` set fs then (s\<lparr>fluders := (fluders s)(t := fs)\<rparr>, n)
      else
        let f = \<lparr>fluder = c, fl_count = 1, first_msg = fl_now s, last_msg = fl_now s\<rparr>;
            s1 = s\<lparr>fluders := (fluders s)(t := f # fs), fludees := (fludees s)(c := t # fludees s c)\<rparr>
        in (if blocking then announce_fluder t c s1 else s1, n + 1))"

definition raise_alarm :: "flud_target \<Rightarrow> flud_state \<Rightarrow> flud_state" where
  "raise_alarm t s =
     (let me = me_name (cfg (fl_irc s)); nm = target_name s t;
          msg = '':'' @ me @ '' NOTICE '' @ nm @ '' :*** Notice -- Server flood protection activated for '' @ nm;
          s1 = fl_send (case t of FludClient c \<Rightarrow> ToOne c | FludChan ch \<Rightarrow> ToChannel ch) msg (s\<lparr>is_flud := is_flud s + 1\<rparr>)
      in fold (\<lambda>f. announce_fluder t (fluder f)) (fluders s1 t) s1)"

definition check_for_flud :: "nat \<Rightarrow> flud_target option \<Rightarrow> flud_state \<Rightarrow> flud_state \<times> bool" where
  "check_for_flud c to s =
     (if FLUDBLOCK s = 0 then (s, False)
      else case to of
        None \<Rightarrow> (s, False)
      | Some t \<Rightarrow>
          if (case t of FludClient d \<Rightarrow> \<not> MyConnect (clients (fl_irc s) d) | FludChan _ \<Rightarrow> False)
          then (fl_send ToOps ''check_for_flud() called for non-local client'' s, False)
          else
            let blocking = (fludblock s t > fl_now s - FLUDBLOCK s);
                s1 = (if \<not> blocking then collect_garbage t s else s);
                (s2, n) = count_message t c blocking s1;
                alarm = \<not> blocking \<and> FLUDNUM s < n;
                s3 = (if alarm then raise_alarm t s2 else s2)
            in if blocking \<or> alarm then (s3\<lparr>fludblock := (fludblock s3)(t := fl_now s)\<rparr>, True) else (s3, False))"

text \<open>The heads of the lists that are freed dangle in the source; their owners are freed next. Here they are empty.\<close>

definition free_fluders :: "flud_target option \<Rightarrow> flud_state \<Rightarrow> flud_state" where
  "free_fluders to s =
     (case to of
        None \<Rightarrow> fl_send ToOps ''free_fluders(NULL, NULL)'' s
      | Some t \<Rightarrow>
          if (case t of FludClient d \<Rightarrow> \<not> MyConnect (clients (fl_irc s) d) | FludChan _ \<Rightarrow> False) then s
          else let s1 = fold (\<lambda>f. forget_sender t (fluder f)) (fluders s t) s in s1\<lparr>fluders := (fluders s1)(t := [])\<rparr>)"

definition forget_target :: "nat \<Rightarrow> flud_target \<Rightarrow> flud_state \<Rightarrow> flud_state" where
  "forget_target c t s =
     (case t of
        FludClient d \<Rightarrow>
          if \<not> MyConnect (clients (fl_irc s) d) then fl_send ToOps ''free_fludees() encountered non-local client'' s
          else s\<lparr>fluders := (fluders s)(t := remove_fluder_reference c (fluders s t))\<rparr>
      | FludChan _ \<Rightarrow> s\<lparr>fluders := (fluders s)(t := remove_fluder_reference c (fluders s t))\<rparr>)"

definition free_fludees :: "nat \<Rightarrow> flud_state \<Rightarrow> flud_state" where
  "free_fludees c s =
     (if c = 0 then fl_send ToOps ''free_fludees(NULL)'' s
      else let s1 = fold (forget_target c) (fludees s c) s in s1\<lparr>fludees := (fludees s1)(c := [])\<rparr>)"

subsection \<open>CTCP texts\<close>

text \<open>The specification: the texts between the first and the second, the third and the fourth mark, and so on.\<close>

function ctcp_texts :: "cstr \<Rightarrow> cstr list" where
  "ctcp_texts s =
     (case dropWhile (\<lambda>c. c \<noteq> CTCP) s of
        [] \<Rightarrow> []
      | _ # r \<Rightarrow> takeWhile (\<lambda>c. c \<noteq> CTCP) r # ctcp_texts (tl (dropWhile (\<lambda>c. c \<noteq> CTCP) r)))"
  by pat_completeness auto
termination
proof (relation "measure length", goal_cases)
  case (2 s x r)
  have "length (tl (dropWhile (\<lambda>c. c \<noteq> CTCP) r)) \<le> length r"
    using length_dropWhile_le [of "\<lambda>c. c \<noteq> CTCP" r] by simp
  moreover have "length (x # r) \<le> length s" unfolding 2 [symmetric] by (rule length_dropWhile_le)
  ultimately show ?case by simp
qed simp

declare ctcp_texts.simps [simp del]

definition is_action :: "cstr \<Rightarrow> bool" where
  "is_action t \<longleftrightarrow> map ToUpper (take 6 t) = ''ACTION''"

lemma ircncmp_from_word:
  assumes "NUL \<notin> set w" "i + n = length w" "0 < n" "i \<le> length s" "NUL \<notin> set s"
  shows "\<exists>r. ircncmp_from i s w (int n) = Inr r \<and> (r = 0 \<longleftrightarrow> map ToUpper (take n (drop i s)) = map ToUpper (drop i w))"
  using assms(2-4)
proof (induction n arbitrary: i)
  case (Suc n)
  have w: "i < length w" "drop i w = w ! i # drop (Suc i) w" "w ! i \<noteq> NUL"
  proof -
    show "i < length w" using Suc.prems by simp
    then show "drop i w = w ! i # drop (Suc i) w" "w ! i \<noteq> NUL" using assms(1) nth_mem [of i w] by (metis Cons_nth_drop_Suc)+
  qed
  show ?case
  proof (cases "i < length s")
    case False
    then have "at s i = NUL" "drop i s = []" by (simp_all add: at_def)
    moreover have "ToUpper (w ! i) \<noteq> NUL" "NUL \<noteq> ToUpper (w ! i)" using w(3) ToUpper_eq_NUL [of "w ! i"] by metis+
    ultimately show ?thesis using Suc.prems w by (subst ircncmp_from.simps) (simp add: Let_def)
  next
    case True
    have d: "drop i s = s ! i # drop (Suc i) s" using True by (simp add: Cons_nth_drop_Suc)
    show ?thesis
    proof (cases "ToUpper (s ! i) = ToUpper (w ! i)")
      case False
      then show ?thesis using Suc.prems w True d by (subst ircncmp_from.simps) (simp add: Let_def)
    next
      case eq: True
      show ?thesis
      proof (cases "n = 0")
        case True
        then show ?thesis using Suc.prems w \<open>i < length s\<close> d eq by (subst ircncmp_from.simps) (simp add: Let_def)
      next
        case False
        then have "at w (Suc i) \<noteq> NUL" using Suc.prems assms(1) nth_mem [of "Suc i" w] by (auto simp: at_def simp del: nth_mem)
        then have "ircncmp_from i s w (int (Suc n)) = ircncmp_from (Suc i) s w (int n)"
          using Suc.prems w \<open>i < length s\<close> eq False by (subst ircncmp_from.simps) (simp add: Let_def)
        moreover have "Suc i + n = length w" "0 < n" "Suc i \<le> length s" using Suc.prems False \<open>i < length s\<close> by simp_all
        ultimately show ?thesis using Suc.IH [of "Suc i"] eq w d by simp
      qed
    qed
  qed
qed simp

lemma ircncmp_action:
  assumes "NUL \<notin> set p"
  shows "\<exists>r. ircncmp p ''ACTION'' 6 = Inr r \<and> (r = 0 \<longleftrightarrow> is_action p)"
proof -
  have "map ToUpper ''ACTION'' = ''ACTION''" by code_simp
  moreover have "cut ''ACTION'' = ''ACTION''" by (simp add: cut_def)
  ultimately show ?thesis
    using ircncmp_from_word [of "''ACTION''" 0 6 p] assms by (simp add: ircncmp_def is_action_def)
qed

lemma take_takeWhile_comm: "take n (takeWhile P xs) = takeWhile P (take n xs)"
proof (induction xs arbitrary: n)
  case (Cons x xs)
  then show ?case by (cases n) simp_all
qed simp

lemma is_action_takeWhile: "is_action (takeWhile (\<lambda>c. c \<noteq> CTCP) p) = is_action p"
proof -
  let ?t = "takeWhile (\<lambda>c. c \<noteq> CTCP) (take 6 p)"
  have "?t = take 6 p" if "map ToUpper (take 6 p) = ''ACTION''"
  proof -
    have "CTCP \<notin> set (take 6 p)"
    proof
      assume "CTCP \<in> set (take 6 p)"
      then have "ToUpper CTCP \<in> set ''ACTION''" using that by (metis image_eqI list.set_map)
      moreover have "ToUpper CTCP = CTCP" by code_simp
      ultimately show False by simp
    qed
    then show ?thesis by (subst takeWhile_eq_all_conv) auto
  qed
  moreover have "?t = take 6 p" if "map ToUpper ?t = ''ACTION''"
  proof -
    have "length ?t = 6" using arg_cong [OF that, of length] by simp
    then show ?thesis by (metis length_take min.cobounded2 take_all takeWhile_eq_take)
  qed
  ultimately show ?thesis unfolding is_action_def take_takeWhile_comm by metis
qed

lemma strchr_dropWhile: "strchr s c = (case dropWhile (\<lambda>d. d \<noteq> c) s of [] \<Rightarrow> None | x # t \<Rightarrow> Some (x # t))"
  by (induction s) auto

lemma check_for_ctcp_spec:
  "NUL \<notin> set s \<Longrightarrow> check_for_ctcp s = Inr (if \<exists>t\<in>set (ctcp_texts s). \<not> is_action t then 1 else 0)"
proof (induction s rule: ctcp_texts.induct)
  case (1 s)
  let ?P = "\<lambda>c. c \<noteq> CTCP"
  show ?case
  proof (cases "dropWhile ?P s")
    case Nil
    then have "strchr s CTCP = None" "ctcp_texts s = []"
      by (simp_all only: strchr_dropWhile [of s] ctcp_texts.simps [of s] list.case)
    then show ?thesis by (simp add: check_for_ctcp.simps [of s])
  next
    case (Cons x r)
    have sub: "set (x # r) \<subseteq> set s" unfolding Cons [symmetric] using set_dropWhileD by fast
    then have r: "NUL \<notin> set r" using "1.prems" by auto
    obtain k where k: "ircncmp r ''ACTION'' 6 = Inr k" "k = 0 \<longleftrightarrow> is_action (takeWhile ?P r)"
      using ircncmp_action [OF r] is_action_takeWhile by metis
    have "set (tl (dropWhile ?P r)) \<subseteq> set r" 
    proof
      fix y
      assume "y \<in> set (tl (dropWhile ?P r))"
      then have "y \<in> set (dropWhile ?P r)" by (cases "dropWhile ?P r") simp_all
      then show "y \<in> set r" by (simp add: set_dropWhileD)
    qed
    then have rest: "check_for_ctcp (tl (dropWhile ?P r)) = Inr (if \<exists>t\<in>set (ctcp_texts (tl (dropWhile ?P r))). \<not> is_action t then 1 else 0)"
      using "1.IH" [OF Cons] r by blast
    have "check_for_ctcp [] = Inr 0" "ctcp_texts [] = []" by (simp_all add: check_for_ctcp.simps [of "[]"] ctcp_texts.simps [of "[]"])
    moreover have "strchr s CTCP = Some (x # r)" "ctcp_texts s = takeWhile ?P r # ctcp_texts (tl (dropWhile ?P r))"
      by (simp_all only: strchr_dropWhile [of s] ctcp_texts.simps [of s] Cons list.case)
    moreover have "strchr r CTCP = (if CTCP \<in> set r then Some (dropWhile ?P r) else None)" "CTCP \<notin> set r \<Longrightarrow> tl (dropWhile ?P r) = []"
      by (induction r) auto
    ultimately show ?thesis using k rest by (auto simp: check_for_ctcp.simps [of s])
  qed
qed

subsection \<open>Both sides of the lists\<close>

definition flud_ok :: "flud_state \<Rightarrow> bool" where
  "flud_ok s \<longleftrightarrow> (\<forall>t. distinct (map fluder (fluders s t))) \<and>
     (\<forall>t c. c \<in> fluder ` set (fluders s t) \<longleftrightarrow> t \<in> set (fludees s c)) \<and>
     (\<forall>d. fluders s (FludClient d) \<noteq> [] \<longrightarrow> MyConnect (clients (fl_irc s) d))"

lemma flud_okI:
  assumes "\<And>t. distinct (map fluder (fluders s t))" "\<And>t c. c \<in> fluder ` set (fluders s t) \<longleftrightarrow> t \<in> set (fludees s c)"
    and "\<And>d. fluders s (FludClient d) \<noteq> [] \<Longrightarrow> MyConnect (clients (fl_irc s) d)"
  shows "flud_ok s"
  using assms by (simp add: flud_ok_def)

lemma flud_okD:
  assumes "flud_ok s"
  shows "distinct (map fluder (fluders s t))" "c \<in> fluder ` set (fluders s t) \<longleftrightarrow> t \<in> set (fludees s c)"
    "fluders s (FludClient d) \<noteq> [] \<Longrightarrow> MyConnect (clients (fl_irc s) d)"
  using assms by (simp_all add: flud_ok_def)

lemma forget_senders:
  "fluders (fold (\<lambda>f. forget_sender t (fluder f)) fs s) = fluders s \<and> fl_irc (fold (\<lambda>f. forget_sender t (fluder f)) fs s) = fl_irc s \<and>
   set (fludees (fold (\<lambda>f. forget_sender t (fluder f)) fs s) c) = set (fludees s c) - (if c \<in> fluder ` set fs then {t} else {})"
  by (induction fs arbitrary: s) (auto simp: forget_sender_def remove_fludee_reference_def)

lemma collect_garbage_sel:
  "fluders (collect_garbage t s) = (fluders s)(t := filter (\<lambda>f. \<not> stale s f) (fluders s t))" "fl_irc (collect_garbage t s) = fl_irc s"
  "set (fludees (collect_garbage t s) c) = set (fludees s c) - (if c \<in> fluder ` set (filter (stale s) (fluders s t)) then {t} else {})"
  using forget_senders [of t "filter (stale s) (fluders s t)" s] by (simp_all add: collect_garbage_def Let_def)

lemma collect_garbage_ok:
  assumes "flud_ok s"
  shows "flud_ok (collect_garbage t s)"
proof (rule flud_okI)
  note d = flud_okD(1) [OF assms] and e = flud_okD(2) [OF assms]
  show "distinct (map fluder (fluders (collect_garbage t s) u))" for u
    using d by (simp add: collect_garbage_sel distinct_map_filter)
  have split: "c \<in> fluder ` set (filter (\<lambda>f. \<not> stale s f) (fluders s t)) \<longleftrightarrow>
      c \<in> fluder ` set (fluders s t) \<and> c \<notin> fluder ` set (filter (stale s) (fluders s t))" for c
    using d [of t] by (auto simp: distinct_map inj_on_def)
  show "c \<in> fluder ` set (fluders (collect_garbage t s) u) \<longleftrightarrow> u \<in> set (fludees (collect_garbage t s) c)" for u c
    using e [of c u] split [of c] unfolding collect_garbage_sel by (cases "u = t") simp_all
  show "MyConnect (clients (fl_irc (collect_garbage t s)) e)" if "fluders (collect_garbage t s) (FludClient e) \<noteq> []" for e
    using that flud_okD(3) [OF assms, of e] by (cases "fluders s (FludClient e) = []") (auto simp: collect_garbage_sel split: if_splits)
qed

lemma announce_fluder_sel [simp]: "fluders (announce_fluder t c s) = fluders s" "fludees (announce_fluder t c s) = fludees s"
  "clients (fl_irc (announce_fluder t c s)) = clients (fl_irc s)" "fludblock (announce_fluder t c s) = fludblock s"
  "FLUDNUM (announce_fluder t c s) = FLUDNUM s" "FLUDTIME (announce_fluder t c s) = FLUDTIME s" "FLUDBLOCK (announce_fluder t c s) = FLUDBLOCK s"
  "fl_now (announce_fluder t c s) = fl_now s"
  by (simp_all add: announce_fluder_def fl_send_def Let_def)

lemma fl_send_sel [simp]: "fluders (fl_send t m s) = fluders s" "fludees (fl_send t m s) = fludees s"
  "clients (fl_irc (fl_send t m s)) = clients (fl_irc s)" "fludblock (fl_send t m s) = fludblock s"
  "FLUDNUM (fl_send t m s) = FLUDNUM s" "FLUDTIME (fl_send t m s) = FLUDTIME s" "FLUDBLOCK (fl_send t m s) = FLUDBLOCK s"
  "fl_now (fl_send t m s) = fl_now s"
  by (simp_all add: fl_send_def)

definition flud_same :: "flud_state \<Rightarrow> flud_state \<Rightarrow> bool" where
  "flud_same s t \<longleftrightarrow> fluders t = fluders s \<and> fludees t = fludees s \<and> clients (fl_irc t) = clients (fl_irc s) \<and> fludblock t = fludblock s \<and>
     FLUDNUM t = FLUDNUM s \<and> FLUDTIME t = FLUDTIME s \<and> FLUDBLOCK t = FLUDBLOCK s \<and> fl_now t = fl_now s"

lemma flud_same_trans: "flud_same s t \<Longrightarrow> flud_same t u \<Longrightarrow> flud_same s u"
  by (simp add: flud_same_def)

lemma flud_same_fold: "(\<And>x s. flud_same s (f x s)) \<Longrightarrow> flud_same s (fold f xs s)"
proof (induction xs arbitrary: s)
  case (Cons x xs)
  have "flud_same (f x s) (fold f xs (f x s))" using Cons by blast
  then show ?case using Cons.prems [of s x] by (simp add: flud_same_def)
qed (simp add: flud_same_def)

lemma raise_alarm_same: "flud_same s (raise_alarm t s)"
proof -
  have "flud_same v (fold (\<lambda>f. announce_fluder t (fluder f)) fs v)" for fs v
    by (rule flud_same_fold) (simp add: flud_same_def)
  moreover have "flud_same s (fl_send a b (s\<lparr>is_flud := is_flud s + 1\<rparr>))" for a b by (simp add: flud_same_def)
  ultimately show ?thesis unfolding raise_alarm_def Let_def by (rule flud_same_trans [rotated])
qed

lemma flud_same_ok: "flud_same s t \<Longrightarrow> flud_ok t = flud_ok s"
  by (simp add: flud_same_def flud_ok_def)

lemma count_message_ok:
  assumes "flud_ok s" "\<And>d. t = FludClient d \<Longrightarrow> MyConnect (clients (fl_irc s) d)"
  shows "flud_ok (fst (count_message t c blocking s))"
proof -
  let ?fs = "map (note_message c (fl_now s)) (fluders s t)"
  have fl: "map fluder ?fs = map fluder (fluders s t)" by (simp add: note_message_def)
  then have set: "fluder ` set ?fs = fluder ` set (fluders s t)" by (metis list.set_map)
  note d = flud_okD(1) [OF assms(1)] and e = flud_okD(2) [OF assms(1)]
  show ?thesis
  proof (cases "c \<in> fluder ` set ?fs")
    case True
    have "flud_ok (s\<lparr>fluders := (fluders s)(t := ?fs)\<rparr>)"
    proof (rule flud_okI)
      show "distinct (map fluder (fluders (s\<lparr>fluders := (fluders s)(t := ?fs)\<rparr>) u))" for u
        using d [of u] d [of t, folded fl] by (cases "u = t") simp_all
      show "x \<in> fluder ` set (fluders (s\<lparr>fluders := (fluders s)(t := ?fs)\<rparr>) u) \<longleftrightarrow> u \<in> set (fludees (s\<lparr>fluders := (fluders s)(t := ?fs)\<rparr>) x)" for u x
        using e [of x u] set by (cases "u = t") simp_all
    qed (use assms(2) flud_okD(3) [OF assms(1)] in \<open>auto split: if_splits\<close>)
    then show ?thesis using True by (simp add: count_message_def Let_def)
  next
    case False
    let ?f = "\<lparr>fluder = c, fl_count = 1, first_msg = fl_now s, last_msg = fl_now s\<rparr>"
    let ?s = "s\<lparr>fluders := (fluders s)(t := ?f # ?fs), fludees := (fludees s)(c := t # fludees s c)\<rparr>"
    have "flud_ok ?s"
    proof (rule flud_okI)
      show "distinct (map fluder (fluders ?s u))" for u
        using d [of u] d [of t, folded fl] False by (cases "u = t") auto
      show "x \<in> fluder ` set (fluders ?s u) \<longleftrightarrow> u \<in> set (fludees ?s x)" for u x
        using e [of x u] e [of x t] set by auto
    qed (use assms flud_okD(3) [OF assms(1)] in \<open>auto split: if_splits\<close>)
    moreover have "flud_same ?s (if blocking then announce_fluder t c ?s else ?s)" by (simp add: flud_same_def)
    ultimately show ?thesis using False flud_same_ok by (simp add: count_message_def Let_def)
  qed
qed

lemma local_case: "(case t of FludClient d \<Rightarrow> \<not> MyConnect (clients (fl_irc s) d) | FludChan _ \<Rightarrow> False) \<longleftrightarrow>
    (\<exists>d. t = FludClient d \<and> \<not> MyConnect (clients (fl_irc s) d))"
  by (cases t) auto

lemma check_for_flud_ok:
  assumes "flud_ok s"
  shows "flud_ok (fst (check_for_flud c to s))"
proof (cases "FLUDBLOCK s \<noteq> 0 \<and> (\<exists>t. to = Some t \<and> \<not> (\<exists>d. t = FludClient d \<and> \<not> MyConnect (clients (fl_irc s) d)))")
  case False
  then show ?thesis using assms flud_same_ok [of s "fl_send ToOps ''check_for_flud() called for non-local client'' s"]
    by (auto simp: check_for_flud_def local_case flud_same_def split: option.split)
next
  case True
  then obtain t where t: "to = Some t" "\<And>d. t = FludClient d \<Longrightarrow> MyConnect (clients (fl_irc s) d)" by auto
  let ?b = "fludblock s t > fl_now s - FLUDBLOCK s"
  define s1 where "s1 = (if \<not> ?b then collect_garbage t s else s)"
  obtain s2 n where s2: "count_message t c ?b s1 = (s2, n)" by fastforce
  have s1: "flud_ok s1" "\<And>d. t = FludClient d \<Longrightarrow> MyConnect (clients (fl_irc s1) d)"
    using assms collect_garbage_ok [OF assms] t(2) by (auto simp: s1_def collect_garbage_sel)
  have "flud_ok s2" using count_message_ok [OF s1(1), of t c ?b] s1(2) s2 by simp
  then have ok: "flud_ok (raise_alarm t s2)" "flud_ok s2" using flud_same_ok [OF raise_alarm_same] by auto
  have blk: "flud_ok (u\<lparr>fludblock := x\<rparr>) = flud_ok u" for u x by (simp add: flud_ok_def)
  show ?thesis using True t ok s2 by (auto simp: check_for_flud_def local_case Let_def s1_def blk)
qed

lemma free_fluders_ok:
  assumes "flud_ok s"
  shows "flud_ok (free_fluders (Some t) s)" "fluders (free_fluders (Some t) s) = (fluders s)(t := [])"
    "t \<notin> set (fludees (free_fluders (Some t) s) c)" "fl_irc (free_fluders (Some t) s) = fl_irc s"
proof -
  note e = flud_okD(2) [OF assms]
  have r: "flud_ok (free_fluders (Some t) s) \<and> fluders (free_fluders (Some t) s) = (fluders s)(t := []) \<and>
    t \<notin> set (fludees (free_fluders (Some t) s) c) \<and> fl_irc (free_fluders (Some t) s) = fl_irc s" for c
  proof (cases "\<exists>d. t = FludClient d \<and> \<not> MyConnect (clients (fl_irc s) d)")
    case True
    then have "fluders s t = []" using flud_okD(3) [OF assms] by auto
    moreover have "t \<notin> set (fludees s c)" using e [of c t] calculation by simp
    ultimately show ?thesis using True assms by (auto simp: free_fluders_def local_case fun_upd_idem)
  next
    case False
    define u where "u = free_fluders (Some t) s"
    note f = forget_senders [of t "fluders s t" s]
    have u: "fluders u = (fluders s)(t := [])" "fl_irc u = fl_irc s"
      "set (fludees u c) = set (fludees s c) - (if c \<in> fluder ` set (fluders s t) then {t} else {})" for c
      using False f [of c] by (auto simp: u_def free_fluders_def local_case Let_def)
    have m: "x \<in> fluder ` set (fluders u v) \<longleftrightarrow> v \<in> set (fludees u x)" for x v
      using e [of x v] by (cases "v = t") (auto simp: u)
    have "flud_ok u"
      by (rule flud_okI) (use flud_okD(1,3) [OF assms] m in \<open>auto simp: u split: if_splits\<close>)
    moreover have "t \<notin> set (fludees u c)" using m [of c t] by (simp add: u)
    ultimately show ?thesis using u by (simp add: u_def)
  qed
  then show "flud_ok (free_fluders (Some t) s)" "fluders (free_fluders (Some t) s) = (fluders s)(t := [])"
    "t \<notin> set (fludees (free_fluders (Some t) s) c)" "fl_irc (free_fluders (Some t) s) = fl_irc s" by blast+
qed

lemma forget_targets:
  "\<forall>d. FludClient d \<in> set ts \<longrightarrow> MyConnect (clients (fl_irc s) d) \<Longrightarrow>
   fluders (fold (forget_target c) ts s) t = (if t \<in> set ts then remove_fluder_reference c (fluders s t) else fluders s t) \<and>
   fludees (fold (forget_target c) ts s) = fludees s \<and> fl_irc (fold (forget_target c) ts s) = fl_irc s"
proof (induction ts arbitrary: s)
  case (Cons u ts)
  have u: "forget_target c u s = s\<lparr>fluders := (fluders s)(u := remove_fluder_reference c (fluders s u))\<rparr>"
    using Cons.prems by (cases u) (auto simp: forget_target_def)
  show ?case using Cons.IH [of "forget_target c u s"] Cons.prems by (auto simp: u remove_fluder_reference_def)
qed simp

lemma free_fludees_ok:
  assumes "flud_ok s" "c \<noteq> 0"
  shows "flud_ok (free_fludees c s) \<and> fludees (free_fludees c s) = (fludees s)(c := []) \<and>
    fluders (free_fludees c s) t = remove_fluder_reference c (fluders s t) \<and> fl_irc (free_fludees c s) = fl_irc s"
proof -
  define u where "u = free_fludees c s"
  note e = flud_okD(2) [OF assms(1)]
  have "MyConnect (clients (fl_irc s) d)" if "FludClient d \<in> set (fludees s c)" for d
    using that e [of c "FludClient d"] flud_okD(3) [OF assms(1), of d] by (cases "fluders s (FludClient d) = []") auto
  then have f: "fluders (fold (forget_target c) (fludees s c) s) t = (if t \<in> set (fludees s c) then remove_fluder_reference c (fluders s t) else fluders s t)"
    "fludees (fold (forget_target c) (fludees s c) s) = fludees s" "fl_irc (fold (forget_target c) (fludees s c) s) = fl_irc s" for t
    using forget_targets [of "fludees s c" s c t] by blast+
  have id: "remove_fluder_reference c (fluders s t) = fluders s t" if "t \<notin> set (fludees s c)" for t
    using that e [of c t] by (auto simp: remove_fluder_reference_def filter_id_conv)
  have u: "fluders u t = remove_fluder_reference c (fluders s t)" "fludees u = (fludees s)(c := [])" "fl_irc u = fl_irc s" for t
    using assms(2) f id by (auto simp: u_def free_fludees_def Let_def)
  have "flud_ok u"
  proof (rule flud_okI)
    show "distinct (map fluder (fluders u t))" for t
      using flud_okD(1) [OF assms(1), of t] by (simp add: u remove_fluder_reference_def distinct_map_filter)
    show "x \<in> fluder ` set (fluders u t) \<longleftrightarrow> t \<in> set (fludees u x)" for t x
      using e [of x t] by (auto simp: u remove_fluder_reference_def)
    show "MyConnect (clients (fl_irc u) d)" if "fluders u (FludClient d) \<noteq> []" for d
      using that flud_okD(3) [OF assms(1), of d] by (cases "fluders s (FludClient d) = []") (auto simp: u remove_fluder_reference_def)
  qed
  then show ?thesis using u by (simp add: u_def)
qed

subsection \<open>A sequence of messages\<close>

fun flud_run :: "flud_target \<Rightarrow> (nat \<times> time_t) list \<Rightarrow> flud_state \<Rightarrow> bool list" where
  "flud_run t [] s = []"
| "flud_run t ((c, now) # ms) s = (let (s1, b) = check_for_flud c (Some t) (s\<lparr>fl_now := now\<rparr>) in b # flud_run t ms s1)"

text \<open>After \<open>j\<close> messages since \<open>t0\<close>.\<close>

definition flud_phase :: "flud_target \<Rightarrow> time_t \<Rightarrow> flud_state \<Rightarrow> nat \<Rightarrow> bool" where
  "flud_phase t t0 s j \<longleftrightarrow> flud_ok s \<and> (\<forall>f\<in>set (fluders s t). t0 \<le> first_msg f \<and> t0 \<le> last_msg f) \<and>
     sum_list (map fl_count (fluders s t)) = int j \<and>
     (if int j \<le> FLUDNUM s then fludblock s t \<le> t0 - FLUDBLOCK s else t0 \<le> fludblock s t) \<and>
     FLUDTIME s < FLUDBLOCK s \<and> 0 \<le> FLUDTIME s \<and> (\<forall>d. t = FludClient d \<longrightarrow> MyConnect (clients (fl_irc s) d))"

lemma note_sum: "distinct (map fluder fs) \<Longrightarrow>
    sum_list (map fl_count (map (note_message c now) fs)) = sum_list (map fl_count fs) + (if c \<in> fluder ` set fs then 1 else 0)"
proof (induction fs)
  case (Cons f fs)
  show ?case
  proof (cases "fluder f = c")
    case True
    then have "c \<notin> fluder ` set fs" using Cons.prems by auto
    then show ?thesis using Cons True by (simp add: note_message_def)
  next
    case False
    then show ?thesis using Cons by (auto simp: note_message_def)
  qed
qed simp

lemma count_phase:
  assumes ok: "flud_ok s" and late: "\<forall>f\<in>set (fluders s t). t0 \<le> first_msg f \<and> t0 \<le> last_msg f"
    and now: "t0 \<le> fl_now s" "fl_now s \<le> t0 + FLUDTIME s"
  shows "\<exists>s2. count_message t c b s = (s2, sum_list (map fl_count (fluders s t)) + 1) \<and>
    sum_list (map fl_count (fluders s2 t)) = sum_list (map fl_count (fluders s t)) + 1 \<and>
    (\<forall>f\<in>set (fluders s2 t). t0 \<le> first_msg f \<and> t0 \<le> last_msg f) \<and>
    clients (fl_irc s2) = clients (fl_irc s) \<and> fludblock s2 = fludblock s \<and> FLUDNUM s2 = FLUDNUM s \<and> FLUDTIME s2 = FLUDTIME s \<and>
    FLUDBLOCK s2 = FLUDBLOCK s \<and> fl_now s2 = fl_now s"
proof -
  let ?fs = "map (note_message c (fl_now s)) (fluders s t)"
  have l: "\<forall>f\<in>set ?fs. t0 \<le> first_msg f \<and> t0 \<le> last_msg f" using late now(1) by (auto simp: note_message_def)
  then have w: "sum_list (map (weight s) ?fs) = sum_list (map fl_count ?fs)"
    using now(2) by (intro arg_cong [where f = sum_list] map_cong refl) (auto simp: weight_def)
  have "map fluder ?fs = map fluder (fluders s t)" by (simp add: note_message_def)
  then have m: "fluder ` set ?fs = fluder ` set (fluders s t)" by (metis list.set_map)
  note sum = note_sum [OF flud_okD(1) [OF ok], of c "fl_now s" t]
  show ?thesis
  proof (cases "c \<in> fluder ` set ?fs")
    case True
    then show ?thesis using w sum l m by (simp add: count_message_def Let_def)
  next
    case False
    then show ?thesis using w sum l m now(1) by (simp add: count_message_def Let_def)
  qed
qed

lemma flud_step:
  assumes ph: "flud_phase t t0 s j" and now: "t0 \<le> now" "now \<le> t0 + FLUDTIME s"
  shows "\<exists>u. check_for_flud c (Some t) (s\<lparr>fl_now := now\<rparr>) = (u, FLUDNUM s < int (Suc j)) \<and> flud_phase t t0 u (Suc j) \<and>
    FLUDNUM u = FLUDNUM s \<and> FLUDTIME u = FLUDTIME s"
proof -
  let ?s = "s\<lparr>fl_now := now\<rparr>"
  let ?b = "fludblock s t > now - FLUDBLOCK s"
  have ok: "flud_ok ?s" and late: "\<forall>f\<in>set (fluders s t). t0 \<le> first_msg f \<and> t0 \<le> last_msg f" and sum: "sum_list (map fl_count (fluders s t)) = int j"
    and bl: "if int j \<le> FLUDNUM s then fludblock s t \<le> t0 - FLUDBLOCK s else t0 \<le> fludblock s t"
    and tm: "FLUDTIME s < FLUDBLOCK s" "0 \<le> FLUDTIME s" and my: "\<forall>d. t = FludClient d \<longrightarrow> MyConnect (clients (fl_irc s) d)"
    using ph by (auto simp: flud_phase_def flud_ok_def)
  have b: "?b \<longleftrightarrow> FLUDNUM s < int j" using bl now tm by (auto split: if_splits)
  define s1 where "s1 = (if \<not> ?b then collect_garbage t ?s else ?s)"
  have keep: "filter (\<lambda>f. \<not> stale ?s f) (fluders s t) = fluders s t" "filter (stale ?s) (fluders s t) = []"
    using late now by (auto simp: stale_def filter_empty_conv intro!: filter_True)
  have s1: "fluders s1 = fluders s" "clients (fl_irc s1) = clients (fl_irc s)" "fludblock s1 = fludblock s" "FLUDNUM s1 = FLUDNUM s"
    "FLUDTIME s1 = FLUDTIME s" "FLUDBLOCK s1 = FLUDBLOCK s" "fl_now s1 = now" "flud_ok s1"
    using keep collect_garbage_ok [OF ok] ok by (simp_all add: s1_def collect_garbage_def)
  have now1: "t0 \<le> fl_now s1" "fl_now s1 \<le> t0 + FLUDTIME s1" "\<forall>f\<in>set (fluders s1 t). t0 \<le> first_msg f \<and> t0 \<le> last_msg f"
    using now late s1 by simp_all
  obtain s2 where s2: "count_message t c ?b s1 = (s2, int j + 1)" "sum_list (map fl_count (fluders s2 t)) = int j + 1"
    "\<forall>f\<in>set (fluders s2 t). t0 \<le> first_msg f \<and> t0 \<le> last_msg f"
    "clients (fl_irc s2) = clients (fl_irc s)" "fludblock s2 = fludblock s" "FLUDNUM s2 = FLUDNUM s" "FLUDTIME s2 = FLUDTIME s"
    "FLUDBLOCK s2 = FLUDBLOCK s" "fl_now s2 = now"
    using count_phase [OF s1(8) now1(3,1,2), of c ?b] s1 sum by auto
  have "flud_ok s2" using count_message_ok [OF s1(8), of t c ?b] s2(1) my s1(2) by simp
  define s3 where "s3 = (if \<not> ?b \<and> FLUDNUM s < int j + 1 then raise_alarm t s2 else s2)"
  have s3: "flud_same s2 s3" using raise_alarm_same by (simp add: s3_def flud_same_def)
  let ?u = "if FLUDNUM s < int (Suc j) then s3\<lparr>fludblock := (fludblock s3)(t := now)\<rparr> else s3"
  have c1: "check_for_flud c (Some t) ?s = (?u, FLUDNUM s < int (Suc j))"
  proof -
    have "FLUDBLOCK s \<noteq> 0" using tm by simp
    moreover have "(?b \<or> \<not> ?b \<and> FLUDNUM s < int j + 1) = (FLUDNUM s < int (Suc j))" using b by auto
    ultimately show ?thesis using my s2(1) by (cases ?b) (auto simp: check_for_flud_def local_case Let_def s1_def s3_def)
  qed
  have "flud_phase t t0 ?u (Suc j)"
    using s2 s3 \<open>flud_ok s2\<close> flud_same_ok [OF s3] now tm my bl
    by (auto simp: flud_phase_def flud_same_def flud_ok_def)
  with c1 s2 s3 show ?thesis by (intro exI [of _ ?u]) (auto simp: flud_same_def)
qed

lemma flud_run_phase:
  "flud_phase t t0 s j \<Longrightarrow> \<forall>(c, now)\<in>set ms. t0 \<le> now \<and> now \<le> t0 + FLUDTIME s \<Longrightarrow>
    flud_run t ms s = map (\<lambda>k. FLUDNUM s < int (Suc k)) [j..<j + length ms]"
proof (induction ms arbitrary: s j)
  case (Cons m ms)
  obtain c now where m: "m = (c, now)" by fastforce
  obtain u where u: "check_for_flud c (Some t) (s\<lparr>fl_now := now\<rparr>) = (u, FLUDNUM s < int (Suc j))" "flud_phase t t0 u (Suc j)"
    "FLUDNUM u = FLUDNUM s" "FLUDTIME u = FLUDTIME s"
    using flud_step [OF Cons.prems(1), of now c] Cons.prems(2) by (auto simp: m)
  have "flud_run t ms u = map (\<lambda>k. FLUDNUM u < int (Suc k)) [Suc j..<Suc j + length ms]"
    using Cons.IH [OF u(2)] Cons.prems(2) u(4) by auto
  moreover have "[j..<j + length (m # ms)] = j # [Suc j..<Suc j + length ms]" by (simp add: upt_conv_Cons del: upt_Suc)
  ultimately show ?case using u(1,3) by (simp add: m del: upt_Suc)
qed simp

subsection \<open>Properties\<close>

text \<open>
  \<open>check_for_ctcp\<close> looks at every quoted text of a line, never reads outside it, and says yes exactly when one of them
  does not begin with \<open>ACTION\<close> in any case.
\<close>

theorem ctcp_found:
  assumes "NUL \<notin> set str"
  shows "check_for_ctcp str = Inr (if \<exists>t\<in>set (ctcp_texts str). map ToUpper (take 6 t) \<noteq> ''ACTION'' then 1 else 0)"
  using check_for_ctcp_spec [OF assms] by (simp add: is_action_def)

text \<open>
  Messages to a quiet target from whatever senders, all within FLUDTIME of the first: the first FLUDNUM pass, all
  later ones are blocked.
\<close>

theorem flud_alarm:
  assumes "flud_ok s" "fluders s t = []" "\<forall>d. t = FludClient d \<longrightarrow> MyConnect (clients (fl_irc s) d)"
    and "0 \<le> FLUDNUM s" "0 \<le> FLUDTIME s" "FLUDTIME s < FLUDBLOCK s" "fludblock s t \<le> t0 - FLUDBLOCK s"
    and "\<forall>(c, now)\<in>set ms. t0 \<le> now \<and> now \<le> t0 + FLUDTIME s"
  shows "flud_run t ms s = map (\<lambda>k. FLUDNUM s \<le> int k) [0..<length ms]"
proof -
  have "flud_phase t t0 s 0" using assms by (simp add: flud_phase_def)
  moreover have "(\<lambda>k. FLUDNUM s < int (Suc k)) = (\<lambda>k. FLUDNUM s \<le> int k)" by auto
  ultimately show ?thesis using flud_run_phase [of t t0 s 0 ms] assms(8) by simp
qed

text \<open>
  C26. The two sides of the lists agree after every operation, and when a client is freed (\<open>free_fluders\<close> when it is
  local, then \<open>free_fludees\<close>) nothing points to it any more.
\<close>

theorem flud_no_dangling:
  assumes "flud_ok s" "c \<noteq> 0"
  defines "u \<equiv> free_fludees c (if MyConnect (clients (fl_irc s) c) then free_fluders (Some (FludClient c)) s else s)"
  shows "flud_ok (fst (check_for_flud d to s)) \<and> flud_ok u \<and> fluders u (FludClient c) = [] \<and> fludees u c = [] \<and>
    (\<forall>t. c \<notin> fluder ` set (fluders u t)) \<and> (\<forall>d. FludClient c \<notin> set (fludees u d))"
proof -
  define v where "v = (if MyConnect (clients (fl_irc s) c) then free_fluders (Some (FludClient c)) s else s)"
  have v: "flud_ok v" "fluders v (FludClient c) = []"
    using free_fluders_ok [OF assms(1), of "FludClient c"] assms(1) flud_okD(3) [OF assms(1), of c] by (auto simp: v_def)
  have u: "flud_ok u" "fludees u c = []" "fluders u t = remove_fluder_reference c (fluders v t)" for t
    using free_fludees_ok [OF v(1) assms(2), of t] by (simp_all add: u_def v_def)
  moreover have "fluders u (FludClient c) = []" by (simp add: u(3) v(2) remove_fluder_reference_def)
  moreover have "FludClient c \<notin> set (fludees u d)" for d
    using flud_okD(2) [OF u(1), of d "FludClient c"] calculation(4) by simp
  moreover have "c \<notin> fluder ` set (fluders u t)" for t by (auto simp: u(3) remove_fluder_reference_def)
  ultimately show ?thesis using check_for_flud_ok [OF assms(1), of d to] by blast
qed

subsection \<open>Concrete runs\<close>

theorem ctcp_found_witness: "check_for_ctcp (CTCP # ''action'' @ CTCP # '' and '' @ CTCP # ''PING'' @ [CTCP]) = Inr 1"
proof -
  have "ctcp_texts (CTCP # ''action'' @ CTCP # '' and '' @ CTCP # ''PING'' @ [CTCP]) = [''action'', ''PING'']"
    by (simp add: ctcp_texts.simps [of "_ # _"] ctcp_texts.simps [of "[]"])
  moreover have "map ToUpper (take 6 ''PING'') \<noteq> ''ACTION''" by simp
  ultimately show ?thesis using ctcp_found [of "CTCP # ''action'' @ CTCP # '' and '' @ CTCP # ''PING'' @ [CTCP]"] by simp
qed

definition quiet :: flud_state where
  "quiet = \<lparr>fl_irc = room, fluders = (\<lambda>_. []), fludblock = (\<lambda>_. 0), fludees = (\<lambda>_. []), FLUDBLOCK = 20, FLUDNUM = 2, FLUDTIME = 10,
     fl_now = 0, is_flud = 0\<rparr>"

lemma quiet_ok: "flud_ok quiet"
  by (simp add: flud_ok_def quiet_def)

theorem flud_alarm_witness:
  "flud_run (FludChan 5) [(2, 100), (3, 101), (2, 102), (4, 103)] quiet = [False, False, True, True]"
  using flud_alarm [OF quiet_ok, of "FludChan 5" 100 "[(2, 100), (3, 101), (2, 102), (4, 103)]"]
  by (simp add: quiet_def upt_conv_Cons)

theorem flud_no_dangling_witness:
  "let s = fst (check_for_flud 2 (Some (FludChan 5)) (quiet\<lparr>fl_now := 100\<rparr>)) in
     fludees s 2 = [FludChan 5] \<and> fluders (free_fludees 2 (if MyConnect (clients (fl_irc s) 2) then free_fluders (Some (FludClient 2)) s else s)) (FludChan 5) = []"
proof -
  let ?q = "quiet\<lparr>fl_now := 100\<rparr>"
  let ?s = "fst (check_for_flud 2 (Some (FludChan 5)) ?q)"
  have "flud_ok ?q" using quiet_ok by (simp add: flud_ok_def)
  then have "flud_ok ?s" by (rule check_for_flud_ok)
  from flud_no_dangling [OF this, of 2] have
    "2 \<notin> fluder ` set (fluders (free_fludees 2 (if MyConnect (clients (fl_irc ?s) 2) then free_fluders (Some (FludClient 2)) ?s else ?s)) (FludChan 5))"
    by simp
  moreover have s: "?s = ?q\<lparr>fluders := (\<lambda>_. [])(FludChan 5 := [\<lparr>fluder = 2, fl_count = 1, first_msg = 100, last_msg = 100\<rparr>]),
      fludees := (\<lambda>_. [])(2 := [FludChan 5])\<rparr>"
    by (simp add: check_for_flud_def collect_garbage_def count_message_def quiet_def Let_def)
  moreover have "MyConnect (clients room 2)" by (simp add: room_sel plain_user_def MyConnect_def)
  ultimately show ?thesis unfolding s Let_def
    by (simp add: quiet_def free_fludees_def free_fluders_def forget_target_def remove_fluder_reference_def Let_def)
qed

end
