(* ===== verification/Packet.thy ===== *)
theory Packet
  imports Dbuf IrcString
begin

text \<open>
  From bytes to lines, \<open>src/packet.c\<close>, and the reader of a client's queue, \<open>parse_client_queued\<close> of
  \<open>src/s_bsd.c\<close>. The links are not compressed. The rest of the daemon is the state \<open>l_env\<close>; \<open>parse\<close>,
  \<open>exit_client\<close> and the tests on the client are functions of it, gathered in \<open>callbacks\<close>. The answer
  \<open>True\<close> stands for \<open>CLIENT_EXITED\<close>.
\<close>

subsection \<open>Data\<close>

definition CLIENT_BUFSIZE :: nat where "CLIENT_BUFSIZE = 512"
definition READBUF_SIZE :: nat where "READBUF_SIZE = 16384"

record 'e callbacks =
  cb_parse :: "cstr \<Rightarrow> 'e \<Rightarrow> 'e \<times> bool"
  cb_exit :: "cstr \<Rightarrow> 'e \<Rightarrow> 'e"
  cb_dead :: "'e \<Rightarrow> bool"
  cb_sendqex :: "'e \<Rightarrow> bool"
  cb_listing :: "'e \<Rightarrow> bool"
  cb_server :: "'e \<Rightarrow> bool"
  cb_may_parse :: "'e \<Rightarrow> bool"

text \<open>
  The statistics of a client: bytes below 1024, kilobytes, messages. \<open>l_buf\<close> are the bytes before
  \<open>cptr->buffer + cptr->count\<close>, \<open>l_queue\<close> is the receive queue, \<open>nonl\<close> the flag \<open>FLAGS_NONL\<close>.
\<close>

record received =
  receiveB :: "16 word"
  receiveK :: "32 word"
  receiveM :: "32 word"

record 'e link =
  l_env :: 'e
  l_buf :: "char list"
  l_client :: received
  l_me :: received
  l_queue :: "dbuf \<times> pool"
  nonl :: bool

subsection \<open>Server links\<close>

definition add_bytes :: "nat \<Rightarrow> received \<Rightarrow> received" where
  "add_bytes n r =
     (let b = receiveB r + word_of_nat n in
      if 1023 < b then r\<lparr>receiveK := receiveK r + ucast (drop_bit 10 b), receiveB := b AND 0x3ff\<rparr>
      else r\<lparr>receiveB := b\<rparr>)"

definition add_message :: "received \<Rightarrow> received" where
  "add_message r = r\<lparr>receiveM := receiveM r + 1\<rparr>"

definition dead_reason :: "'e callbacks \<Rightarrow> 'e \<Rightarrow> cstr" where
  "dead_reason cb e =
     (if cb_sendqex cb e then (if cb_listing cb e then ''Local kill by /list (so many channels!)'' else ''SendQ exceeded'')
      else ''Dead socket'')"

text \<open>The end of a line: the message is counted and parsed, a dead socket is closed.\<close>

definition end_line :: "'e callbacks \<Rightarrow> 'e link \<Rightarrow> 'e link \<times> bool" where
  "end_line cb s =
     (let s1 = s\<lparr>l_me := add_message (l_me s), l_client := add_message (l_client s), l_buf := []\<rparr>;
          (e, gone) = cb_parse cb (l_buf s) (l_env s); s2 = s1\<lparr>l_env := e\<rparr>
      in if gone then (s2, True)
         else if cb_dead cb e then (s2\<lparr>l_env := cb_exit cb (dead_reason cb e) e\<rparr>, True)
         else (s2, False))"

fun feed :: "'e callbacks \<Rightarrow> char list \<Rightarrow> 'e link \<Rightarrow> 'e link \<times> bool" where
  "feed cb [] s = (s, False)"
| "feed cb (g # gs) s =
     (if byte g = 10 \<or> byte g = 13 then
        (if l_buf s = [] then feed cb gs s
         else let (s1, gone) = end_line cb s in if gone then (s1, True) else feed cb gs s1)
      else feed cb gs (if length (l_buf s) < CLIENT_BUFSIZE - 1 then s\<lparr>l_buf := l_buf s @ [g]\<rparr> else s))"

definition dopacket :: "'e callbacks \<Rightarrow> char list \<Rightarrow> 'e link \<Rightarrow> 'e link \<times> bool" where
  "dopacket cb bytes s =
     feed cb bytes (s\<lparr>l_me := add_bytes (length bytes) (l_me s), l_client := add_bytes (length bytes) (l_client s)\<rparr>)"

subsection \<open>Clients\<close>

text \<open>\<open>strncpy_irc\<close> leaves a line of 512 bytes or more without a terminator, and \<open>strlen\<close> reads on.\<close>

definition client_dopacket :: "'e callbacks \<Rightarrow> char list \<Rightarrow> 'e link \<Rightarrow> ub + 'e link \<times> bool" where
  "client_dopacket cb line s =
     (let stored = strncpy_irc line CLIENT_BUFSIZE in
      if NUL \<notin> set stored then Inl OutOfBounds
      else
        let msg = cut stored;
            s1 = s\<lparr>l_me := add_bytes (length msg) (add_message (l_me s)), l_client := add_bytes (length msg) (add_message (l_client s)), l_buf := []\<rparr>;
            (e, gone) = cb_parse cb msg (l_env s); s2 = s1\<lparr>l_env := e\<rparr>
        in if gone then Inr (s2, True)
           else if cb_dead cb e then
             Inr (s2\<lparr>l_env := cb_exit cb (if cb_sendqex cb e then ''SendQ exceeded'' else ''Dead socket'') e\<rparr>, True)
           else Inr (s2, False))"

text \<open>\<open>mx\<close> is \<open>DBUF_USUAL_MAX_COUNT\<close>. The loop is a partial function: \<open>None\<close> would be a loop that does not end.\<close>

partial_function (option) parse_client_queued :: "'e callbacks \<Rightarrow> int \<Rightarrow> 'e link \<Rightarrow> (ub + 'e link \<times> bool) option" where
  "parse_client_queued cb mx s =
     (if dlen (fst (l_queue s)) = 0 \<or> nonl s \<or> \<not> cb_may_parse cb (l_env s) then Some (Inr (s, False))
      else if cb_server cb (l_env s) then
        (let (bytes, q) = dbuf_get mx READBUF_SIZE (l_queue s); s1 = s\<lparr>l_queue := q\<rparr>
         in Some (Inr (if bytes = [] then (s1, False) else dopacket cb bytes s1)))
      else
        (let (m, q) = dbuf_getmsg mx READBUF_SIZE (l_queue s); s1 = s\<lparr>l_queue := q\<rparr>
         in if m = None \<or> m = Some [] then
              Some (Inr (if dlen (fst q) < 510 then s1\<lparr>nonl := True\<rparr> else s1\<lparr>l_queue := dbuf_delete mx (dlen (fst q)) q\<rparr>, False))
            else case client_dopacket cb (the m) s1 of
                Inl e \<Rightarrow> Some (Inl e)
              | Inr (s2, gone) \<Rightarrow> if gone then Some (Inr (s2, True)) else parse_client_queued cb mx s2))"

subsection \<open>Counters\<close>

definition total_bytes :: "received \<Rightarrow> nat" where
  "total_bytes r = 1024 * unat (receiveK r) + unat (receiveB r)"

lemma add_bytes_total:
  assumes "receiveB r \<le> 1023" "n \<le> READBUF_SIZE" "unat (receiveK r) + 17 < 2 ^ 32"
  shows "total_bytes (add_bytes n r) = total_bytes r + n \<and> receiveB (add_bytes n r) \<le> 1023"
proof -
  let ?b = "receiveB r + word_of_nat n"
  have b: "unat (receiveB r) \<le> 1023" using assms(1) by (simp add: word_le_nat_alt)
  have n: "unat (word_of_nat n :: 16 word) = n" using assms(2) by (simp add: READBUF_SIZE_def unat_of_nat)
  have u: "unat ?b = unat (receiveB r) + n"
    using b assms(2) n unat_add_lem [of "receiveB r" "word_of_nat n"] by (simp add: READBUF_SIZE_def)
  have k: "unat (ucast (drop_bit 10 ?b) :: 32 word) = unat ?b div 1024"
  proof -
    have "unat (drop_bit 10 ?b) = unat ?b div 1024" by (simp add: drop_bit_eq_div unat_div)
    moreover have "unat (drop_bit 10 ?b) < 2 ^ 32" by (rule less_trans [OF unsigned_less]) simp
    ultimately show ?thesis by (simp only: unsigned_ucast_eq take_bit_nat_eq_self) (simp add: take_bit_nat_eq_self)
  qed
  have "?b AND 0x3ff = take_bit 10 ?b" by (simp add: take_bit_eq_mask mask_eq_exp_minus_1)
  then have m: "unat (?b AND 0x3ff) = unat ?b mod 1024" by (simp add: take_bit_eq_mod unat_mod)
  have d: "unat ?b div 1024 \<le> 17" using u b assms(2) by (simp add: READBUF_SIZE_def)
  have kk: "unat (receiveK r + ucast (drop_bit 10 ?b)) = unat (receiveK r) + unat ?b div 1024"
    using assms(3) d k unat_add_lem [of "receiveK r" "ucast (drop_bit 10 ?b)"] by simp
  have "1023 < ?b \<longleftrightarrow> 1023 < unat ?b" by (simp add: word_less_nat_alt)
  then show ?thesis
    using kk m u by (auto simp: add_bytes_def Let_def total_bytes_def word_le_nat_alt)
qed

subsection \<open>The lines of a stream\<close>

text \<open>Specification: the pieces between line ends, and what follows the last one.\<close>

fun pieces :: "char list \<Rightarrow> char list \<Rightarrow> char list list \<times> char list" where
  "pieces acc [] = ([], acc)"
| "pieces acc (g # gs) =
     (if byte g = 10 \<or> byte g = 13 then (let (ls, r) = pieces [] gs in (acc # ls, r)) else pieces (acc @ [g]) gs)"

definition parsed :: "char list list \<Rightarrow> cstr list" where
  "parsed ls = filter (\<lambda>l. l \<noteq> []) (map (take (CLIENT_BUFSIZE - 1)) ls)"

text \<open>A \<open>parse\<close> that never closes the link, on a socket that stays alive.\<close>

definition stays :: "'e callbacks \<Rightarrow> bool" where
  "stays cb \<longleftrightarrow> (\<forall>l e. \<not> snd (cb_parse cb l e)) \<and> (\<forall>e. \<not> cb_dead cb e)"

definition run_lines :: "'e callbacks \<Rightarrow> cstr list \<Rightarrow> 'e \<Rightarrow> 'e" where
  "run_lines cb ls e = fold (\<lambda>l e. fst (cb_parse cb l e)) ls e"

lemma run_lines_simps [simp]:
  "run_lines cb [] e = e" "run_lines cb (l # ls) e = run_lines cb ls (fst (cb_parse cb l e))"
  "run_lines cb (ls @ ms) e = run_lines cb ms (run_lines cb ls e)"
  by (simp_all add: run_lines_def)

lemma end_line_stays: "stays cb \<Longrightarrow> \<exists>s1. end_line cb s = (s1, False) \<and> l_env s1 = fst (cb_parse cb (l_buf s) (l_env s)) \<and> l_buf s1 = []"
  by (auto simp: end_line_def stays_def Let_def split: prod.splits) (metis snd_conv)+

lemma feed_pieces:
  assumes "stays cb" "l_buf s = take (CLIENT_BUFSIZE - 1) acc"
  shows "\<exists>t. feed cb gs s = (t, False) \<and> l_env t = run_lines cb (parsed (fst (pieces acc gs))) (l_env s) \<and>
    l_buf t = take (CLIENT_BUFSIZE - 1) (snd (pieces acc gs))"
  using assms(2)
proof (induction gs arbitrary: acc s)
  case (Cons g gs)
  show ?case
  proof (cases "byte g = 10 \<or> byte g = 13")
    case eol: True
    obtain ls r where p: "pieces [] gs = (ls, r)" by fastforce
    show ?thesis
    proof (cases "l_buf s = []")
      case True
      then have "acc = []" using Cons.prems by (simp add: CLIENT_BUFSIZE_def)
      then show ?thesis using Cons.IH [of s "[]"] True eol p by (simp add: parsed_def)
    next
      case False
      obtain s1 where s1: "end_line cb s = (s1, False)" "l_env s1 = fst (cb_parse cb (l_buf s) (l_env s))" "l_buf s1 = []"
        using end_line_stays [OF assms(1)] by blast
      have "take (CLIENT_BUFSIZE - 1) acc \<noteq> []" using False Cons.prems by simp
      then show ?thesis using Cons.IH [of s1 "[]"] False eol p s1 Cons.prems by (simp add: parsed_def)
    qed
  next
    case False
    let ?s = "if length (l_buf s) < CLIENT_BUFSIZE - 1 then s\<lparr>l_buf := l_buf s @ [g]\<rparr> else s"
    have "l_buf ?s = take (CLIENT_BUFSIZE - 1) (acc @ [g])" using Cons.prems by auto
    from Cons.IH [OF this] show ?thesis using False by (simp split: if_splits)
  qed
qed (simp add: parsed_def)

lemma pieces_append:
  "pieces acc (as @ bs) = (let (ls, r) = pieces acc as; (ms, t) = pieces r bs in (ls @ ms, t))"
  by (induction acc as rule: pieces.induct) (auto simp: Let_def split: prod.splits)

subsection \<open>A client's queue\<close>

lemma cut_stored: "NUL \<in> set (strncpy_irc line n) \<longleftrightarrow> length (cut line) < n"
proof (induction line n rule: strncpy_irc.induct)
  case (3 c s n)
  then show ?case by (auto simp: cut_Cons)
qed simp_all

lemma cut_strncpy: "cut (strncpy_irc line n) = take n (cut line)"
  by (induction line n rule: strncpy_irc.induct) (auto simp: cut_Cons)

text \<open>What one line of a client does.\<close>

lemma client_dopacket_stays:
  assumes "stays cb"
  shows "if length (cut line) < CLIENT_BUFSIZE
    then \<exists>t. client_dopacket cb line s = Inr (t, False) \<and> l_env t = fst (cb_parse cb (cut line) (l_env s)) \<and>
      l_queue t = l_queue s \<and> nonl t = nonl s
    else client_dopacket cb line s = Inl OutOfBounds"
  using assms
  by (auto simp: client_dopacket_def cut_stored cut_strncpy stays_def Let_def split: prod.splits) (metis snd_conv)+

lemma client_dopacket_queue: "client_dopacket cb line s = Inr (t, b) \<Longrightarrow> l_queue t = l_queue s"
  by (auto simp: client_dopacket_def Let_def split: if_splits prod.splits)

text \<open>What \<open>dbuf_getmsg\<close> takes makes the queue shorter.\<close>

lemma getmsg_shorter:
  assumes "queue_ok q" "dbuf_getmsg mx n q = (Some m, q')" "m \<noteq> []"
  shows "queue_ok q' \<and> length (content q') < length (content q)"
proof -
  let ?c = "dropWhile IsEol (content q)"
  have m: "m = takeWhile (\<lambda>x. \<not> IsEol x) ?c" "content q' = dropWhile IsEol (drop (length m) ?c)" "queue_ok q'"
  proof -
    note spec = dbuf_getmsg_spec [OF assms(1), of mx n, unfolded Let_def assms(2) fst_conv snd_conv]
    have ex: "\<exists>x\<in>set (take n ?c). IsEol x" using spec by (metis option.distinct(1))
    show m: "m = takeWhile (\<lambda>x. \<not> IsEol x) ?c" "queue_ok q'" using spec unfolding if_P [OF ex] by (simp_all only: option.inject)
    show "content q' = dropWhile IsEol (drop (length m) ?c)" using spec unfolding if_P [OF ex] m(1) by (simp only:)
  qed
  have "length m \<le> length ?c" unfolding m(1) by (rule length_takeWhile_le)
  moreover have "length (content q') \<le> length ?c - length m" unfolding m(2) using length_dropWhile_le [of IsEol "drop (length m) ?c"] by simp
  moreover have "length ?c \<le> length (content q)" by (rule length_dropWhile_le)
  ultimately show ?thesis using m(3) assms(3) by (cases m) auto
qed

lemma parse_client_queued_ends:
  "queue_ok (l_queue s) \<Longrightarrow> \<exists>r. parse_client_queued cb mx s = Some r"
proof (induction "length (content (l_queue s))" arbitrary: s rule: less_induct)
  case less
  obtain m q where g: "dbuf_getmsg mx READBUF_SIZE (l_queue s) = (m, q)" by (meson surj_pair)
  let ?s1 = "s\<lparr>l_queue := q\<rparr>"
  note unfold = parse_client_queued.simps [of cb mx s]
  show ?case
  proof (cases "dlen (fst (l_queue s)) = 0 \<or> nonl s \<or> \<not> cb_may_parse cb (l_env s) \<or> cb_server cb (l_env s) \<or> m = None \<or> m = Some []")
    case True
    then show ?thesis by (subst unfold) (auto simp: g Let_def split: prod.splits)
  next
    case False
    then obtain l where m: "m = Some l" "l \<noteq> []" by auto
    have q: "queue_ok q" "length (content q) < length (content (l_queue s))"
      using getmsg_shorter [OF less.prems g [unfolded m(1)] m(2)] by blast+
    show ?thesis
    proof (cases "client_dopacket cb l ?s1")
      case (Inl e)
      then show ?thesis using False m by (subst unfold) (simp add: g Let_def)
    next
      case (Inr r)
      obtain s2 gone where r: "r = (s2, gone)" by fastforce
      have s2: "l_queue s2 = q" using client_dopacket_queue [of cb l ?s1 s2 gone] Inr r by simp
      have "parse_client_queued cb mx s = (if gone then Some (Inr (s2, True)) else parse_client_queued cb mx s2)"
        using False m Inr r by (subst unfold) (simp add: g Let_def)
      moreover have "\<exists>r. parse_client_queued cb mx s2 = Some r" using less.hyps [of s2] q s2 by simp
      ultimately show ?thesis by (cases gone) auto
    qed
  qed
qed

text \<open>One line at the head of the queue.\<close>

definition reads_client :: "'e callbacks \<Rightarrow> bool" where
  "reads_client cb \<longleftrightarrow> stays cb \<and> (\<forall>e. \<not> cb_server cb e) \<and> (\<forall>e. cb_may_parse cb e)"

lemma read_line:
  assumes cb: "reads_client cb" and q: "queue_ok (l_queue s)" "\<not> nonl s"
    and c: "content (l_queue s) = line @ e # es @ rest" "line \<noteq> []" "length line < READBUF_SIZE" "\<forall>x\<in>set line. \<not> IsEol x"
      "\<forall>x\<in>set (e # es). IsEol x" "rest = [] \<or> \<not> IsEol (hd rest)" "NUL \<notin> set line"
  shows "if length line < CLIENT_BUFSIZE
    then \<exists>t. parse_client_queued cb mx s = parse_client_queued cb mx t \<and> l_env t = fst (cb_parse cb line (l_env s)) \<and>
      queue_ok (l_queue t) \<and> content (l_queue t) = rest \<and> \<not> nonl t
    else parse_client_queued cb mx s = Some (Inl OutOfBounds)"
proof -
  obtain m q where g: "dbuf_getmsg mx READBUF_SIZE (l_queue s) = (m, q)" by (meson surj_pair)
  let ?c = "line @ e # es @ rest" and ?s1 = "s\<lparr>l_queue := q\<rparr>"
  have dw: "dropWhile IsEol ?c = ?c" using c(2,4) by (cases line) auto
  have tw: "takeWhile (\<lambda>x. \<not> IsEol x) ?c = line" using c(4,5) by (subst takeWhile_append2) auto
  have "dropWhile IsEol ((e # es) @ rest) = dropWhile IsEol rest" by (rule dropWhile_append2) (use c(5) in auto)
  also have "\<dots> = rest" using c(6) by (cases rest) auto
  finally have dr: "dropWhile IsEol (drop (length line) ?c) = rest" by simp
  have "e \<in> set (take READBUF_SIZE ?c)" using c(3) by (cases "READBUF_SIZE - length line") auto
  then have ex: "\<exists>x\<in>set (take READBUF_SIZE ?c). IsEol x" using c(5) by auto
  have m: "m = Some line" "queue_ok q" "content q = rest"
    using dbuf_getmsg_spec [OF q(1), of mx READBUF_SIZE] unfolding c(1) dw tw dr Let_def g using ex by simp_all
  have d: "dlen (fst (l_queue s)) \<noteq> 0" using q(1) c(1,2) by (simp add: queue_ok_def)
  have go: "parse_client_queued cb mx s = (case client_dopacket cb line ?s1 of Inl e \<Rightarrow> Some (Inl e)
      | Inr (s2, gone) \<Rightarrow> if gone then Some (Inr (s2, True)) else parse_client_queued cb mx s2)"
    using d cb q(2) c(2) by (subst parse_client_queued.simps) (simp add: g m(1) Let_def reads_client_def)
  have stays: "stays cb" using cb by (simp add: reads_client_def)
  have cut: "cut line = line" using c(7) by simp
  show ?thesis
  proof (cases "length line < CLIENT_BUFSIZE")
    case True
    then obtain t where t: "client_dopacket cb line ?s1 = Inr (t, False)" "l_env t = fst (cb_parse cb line (l_env s))" "l_queue t = q" "nonl t = nonl s"
      using client_dopacket_stays [OF stays, of line ?s1] cut by auto
    then show ?thesis using True m(2,3) q(2) by (auto simp: go intro: exI [of _ t])
  next
    case False
    then show ?thesis using client_dopacket_stays [OF stays, of line ?s1] cut by (simp add: go)
  qed
qed

lemma read_lines:
  assumes cb: "reads_client cb"
  shows "queue_ok (l_queue s) \<Longrightarrow> \<not> nonl s \<Longrightarrow> list_all (line_ok CLIENT_BUFSIZE) ls \<Longrightarrow> \<forall>l\<in>set ls. NUL \<notin> set (fst l) \<Longrightarrow>
    content (l_queue s) = concat (map (\<lambda>l. fst l @ snd l) ls) @ rest \<Longrightarrow> rest = [] \<or> \<not> IsEol (hd rest) \<Longrightarrow>
    \<exists>t. parse_client_queued cb mx s = parse_client_queued cb mx t \<and> l_env t = run_lines cb (map fst ls) (l_env s) \<and>
      queue_ok (l_queue t) \<and> content (l_queue t) = rest \<and> \<not> nonl t"
proof (induction ls arbitrary: s)
  case (Cons l ls)
  obtain line e es where l: "l = (line, e # es)" "line \<noteq> []" "length line < CLIENT_BUFSIZE" "\<forall>x\<in>set line. \<not> IsEol x" "\<forall>x\<in>set (e # es). IsEol x"
    using Cons.prems(3) by (cases l; cases "snd l") (auto simp: line_ok_def list_all_iff)
  let ?rest = "concat (map (\<lambda>l. fst l @ snd l) ls) @ rest"
  have "?rest = [] \<or> \<not> IsEol (hd ?rest)"
    using Cons.prems(3,6) by (cases ls) (auto simp: line_ok_def list_all_iff hd_append)
  then obtain t where t: "parse_client_queued cb mx s = parse_client_queued cb mx t" "l_env t = fst (cb_parse cb line (l_env s))"
    "queue_ok (l_queue t)" "content (l_queue t) = ?rest" "\<not> nonl t"
    using read_line [OF cb Cons.prems(1,2), of line e es ?rest mx] Cons.prems(4,5) l
    by (auto simp: CLIENT_BUFSIZE_def READBUF_SIZE_def)
  show ?case using Cons.IH [OF t(3,5) _ _ t(4)] Cons.prems(3,4,6) t(1,2) by (auto simp: l(1))
qed auto

subsection \<open>Properties\<close>

fun dopackets :: "'e callbacks \<Rightarrow> char list list \<Rightarrow> 'e link \<Rightarrow> 'e link \<times> bool" where
  "dopackets cb [] s = (s, False)"
| "dopackets cb (b # bs) s = (let (s1, gone) = dopacket cb b s in if gone then (s1, True) else dopackets cb bs s1)"

lemma dopackets_pieces:
  assumes "stays cb" "l_buf s = take (CLIENT_BUFSIZE - 1) acc"
  shows "\<exists>t. dopackets cb bs s = (t, False) \<and> l_env t = run_lines cb (parsed (fst (pieces acc (concat bs)))) (l_env s) \<and>
    l_buf t = take (CLIENT_BUFSIZE - 1) (snd (pieces acc (concat bs)))"
  using assms(2)
proof (induction bs arbitrary: s acc)
  case (Cons b bs)
  let ?s = "s\<lparr>l_me := add_bytes (length b) (l_me s), l_client := add_bytes (length b) (l_client s)\<rparr>"
  obtain t where t: "dopacket cb b s = (t, False)" "l_env t = run_lines cb (parsed (fst (pieces acc b))) (l_env s)"
    "l_buf t = take (CLIENT_BUFSIZE - 1) (snd (pieces acc b))"
    using feed_pieces [OF assms(1), of ?s acc b] Cons.prems by (auto simp: dopacket_def)
  show ?case using Cons.IH [OF t(3)] t(1,2) by (auto simp: pieces_append parsed_def Let_def split: prod.splits)
qed (simp add: parsed_def)

text \<open>
  C23. As long as \<open>parse\<close> does not close the link, what a server link parses does not depend on how the bytes were
  cut into packets: it is the lines of the whole stream, each cut to 511 bytes, the empty ones left out, in order;
  the unfinished line is kept, cut to 511 bytes.
\<close>

theorem packets_are_a_stream:
  assumes "stays cb" "l_buf s = []"
  shows "\<exists>t. dopackets cb bs s = (t, False) \<and>
    l_env t = run_lines cb (filter (\<lambda>l. l \<noteq> []) (map (take 511) (fst (pieces [] (concat bs))))) (l_env s) \<and>
    l_buf t = take 511 (snd (pieces [] (concat bs)))"
  using dopackets_pieces [OF assms(1), of s "[]" bs] assms(2) by (simp add: parsed_def CLIENT_BUFSIZE_def)

text \<open>
  The loop over a client's queue always ends, whatever \<open>parse\<close> does, on every well-formed queue.
\<close>

theorem client_loop_ends:
  assumes "queue_ok (l_queue s)"
  shows "\<exists>r. parse_client_queued cb mx s = Some r"
  using assms by (rule parse_client_queued_ends)

text \<open>
  Every line of fewer than 512 bytes that waits in a client's queue is parsed, once and in order, and the queue
  is empty afterwards.
\<close>

theorem client_lines_parsed:
  assumes "reads_client cb" "queue_ok (l_queue s)" "\<not> nonl s" "list_all (line_ok CLIENT_BUFSIZE) ls" "\<forall>l\<in>set ls. NUL \<notin> set (fst l)"
    and "content (l_queue s) = concat (map (\<lambda>l. fst l @ snd l) ls)"
  shows "\<exists>t. parse_client_queued cb mx s = Some (Inr (t, False)) \<and> l_env t = run_lines cb (map fst ls) (l_env s) \<and> content (l_queue t) = []"
proof -
  obtain t where t: "parse_client_queued cb mx s = parse_client_queued cb mx t" "l_env t = run_lines cb (map fst ls) (l_env s)"
    "queue_ok (l_queue t)" "content (l_queue t) = []"
    using read_lines [OF assms(1-5), of "[]" mx] assms(6) by auto
  moreover have "dlen (fst (l_queue t)) = 0" using t(3,4) by (simp add: queue_ok_def)
  ultimately show ?thesis by (subst (asm) parse_client_queued.simps [of cb mx t]) auto
qed

text \<open>
  C24. A line of 512 bytes or more in the queue of a client makes the daemon read past the end of the client's
  buffer, whatever well-formed lines of up to 511 bytes are in the queue before it; the line is one that fits the
  read buffer, and no line holds a null byte.
\<close>

theorem long_line_overrun:
  assumes "reads_client cb" "queue_ok (l_queue s)" "\<not> nonl s" "list_all (line_ok CLIENT_BUFSIZE) ls" "\<forall>l\<in>set ls. NUL \<notin> set (fst l)"
    and "content (l_queue s) = concat (map (\<lambda>l. fst l @ snd l) ls) @ line @ [eol]"
    and "512 \<le> length line" "length line < READBUF_SIZE" "\<forall>x\<in>set line. \<not> IsEol x" "IsEol eol" "NUL \<notin> set line"
  shows "parse_client_queued cb mx s = Some (Inl OutOfBounds)"
proof -
  have "line \<noteq> []" using assms(7) by auto
  then have h: "\<not> IsEol (hd (line @ [eol]))" using assms(9) by (simp add: hd_append)
  obtain t where t: "parse_client_queued cb mx s = parse_client_queued cb mx t" "queue_ok (l_queue t)" "content (l_queue t) = line @ [eol]" "\<not> nonl t"
    using read_lines [OF assms(1-6)] h by blast
  show ?thesis
    using read_line [OF assms(1) t(2,4), of line eol "[]" "[]" mx] t(1,3) \<open>line \<noteq> []\<close> assms(7-11) by (simp add: CLIENT_BUFSIZE_def)
qed

subsection \<open>Concrete runs\<close>

definition log_cb :: "cstr list callbacks" where
  "log_cb = \<lparr>cb_parse = (\<lambda>l e. (e @ [l], False)), cb_exit = (\<lambda>m e. e), cb_dead = (\<lambda>_. False), cb_sendqex = (\<lambda>_. False),
     cb_listing = (\<lambda>_. False), cb_server = (\<lambda>_. False), cb_may_parse = (\<lambda>_. True)\<rparr>"

definition new_link :: "char list \<Rightarrow> cstr list link" where
  "new_link bytes = \<lparr>l_env = [], l_buf = [], l_client = \<lparr>receiveB = 0, receiveK = 0, receiveM = 0\<rparr>,
     l_me = \<lparr>receiveB = 0, receiveK = 0, receiveM = 0\<rparr>, l_queue = dbuf_put bytes (dbuf_empty, dbuf_init 2), nonl = False\<rparr>"

lemma new_link_ok: "queue_ok (l_queue (new_link b))" "content (l_queue (new_link b)) = b" "l_buf (new_link b) = []" "l_env (new_link b) = []"
  "\<not> nonl (new_link b)"
proof -
  have "queue_ok (dbuf_empty, dbuf_init 2)" "content (dbuf_empty, dbuf_init 2) = []"
    by (simp_all add: queue_ok_def content_def dbuf_empty_def pool_ok_def dbuf_init_def)
  then show "queue_ok (l_queue (new_link b))" "content (l_queue (new_link b)) = b" "l_buf (new_link b) = []" "l_env (new_link b) = []" "\<not> nonl (new_link b)"
    using dbuf_put_spec [of "(dbuf_empty, dbuf_init 2)" b] by (simp_all add: new_link_def)
qed

lemma log_cb_ok: "stays log_cb" "reads_client log_cb"
  by (simp_all add: stays_def reads_client_def log_cb_def)

lemma log_parse: "cb_parse log_cb l e = (e @ [l], False)"
  by (simp add: log_cb_def)

theorem packets_are_a_stream_witness:
  "\<exists>t. dopackets log_cb [''PI'', ''NG a'' @ [chr 13], [chr 10] @ ''PO''] (new_link []) = (t, False) \<and> l_env t = [''PING a''] \<and> l_buf t = ''PO''"
  using packets_are_a_stream [OF log_cb_ok(1) new_link_ok(3), of "[''PI'', ''NG a'' @ [chr 13], [chr 10] @ ''PO'']" "[]"]
  by (simp add: new_link_ok log_parse del: dopackets.simps)

theorem client_loop_ends_witness: "\<exists>r. parse_client_queued log_cb 8 (new_link ''abc'') = Some r"
  by (rule client_loop_ends [OF new_link_ok(1)])

lemma eol_10: "IsEol (chr 10)" "\<not> IsEol (CHR ''A'')" "\<not> IsEol (CHR ''B'')"
  by (simp_all add: IsEol_iff)

theorem client_lines_parsed_witness:
  "\<exists>t. parse_client_queued log_cb 8 (new_link (''A'' @ [chr 10] @ ''B'' @ [chr 10])) = Some (Inr (t, False)) \<and> l_env t = [''A'', ''B'']"
  using client_lines_parsed [OF log_cb_ok(2) new_link_ok(1,5), where ls = "[(''A'', [chr 10]), (''B'', [chr 10])]" and mx = 8]
  by (auto simp: new_link_ok log_parse line_ok_def CLIENT_BUFSIZE_def eol_10)

theorem long_line_overrun_witness:
  "parse_client_queued log_cb 8 (new_link (replicate 512 (CHR ''A'') @ [chr 10])) = Some (Inl OutOfBounds)"
  using long_line_overrun [OF log_cb_ok(2) new_link_ok(1,5), where ls = "[]" and line = "replicate 512 (CHR ''A'')" and eol = "chr 10" and mx = 8]
  by (simp add: new_link_ok eol_10 READBUF_SIZE_def)

end
