(* ===== verification/IpHash.thy ===== *)
theory IpHash
  imports Prelude
begin

text \<open>
  The table that counts the local connections of every address: \<open>ip_hash_table\<close> of \<open>src/s_conf.c\<close>, with the
  free list of its entries. A bucket is its chain; a pointer to an entry is its position in its chain. An
  address is the \<open>unsigned long\<close> of 64 bits the code copies it to (without IPV6 and LIMIT_UH). Running out of
  entries ends the process: the operation has no result.
\<close>

subsection \<open>Data\<close>

definition IP_HASH_SIZE :: nat where "IP_HASH_SIZE = 0x1000"

record ip_entry =
  ie_ip :: "64 word"
  ie_count :: int

record ip_table =
  ip_hash_table :: "nat \<Rightarrow> ip_entry list"
  free_ip_entries :: nat
  ip_notices :: "cstr list"

text \<open>\<open>ntohl\<close> of the C library on a little-endian machine: it takes 32 bits and reverses their bytes.\<close>

definition ntohl :: "64 word \<Rightarrow> 64 word" where
  "ntohl x = (push_bit 24 (x AND 0xff)) OR (push_bit 8 (x AND 0xff00)) OR
             (drop_bit 8 (x AND 0xff0000)) OR (drop_bit 24 (x AND 0xff000000))"

definition hash_ip :: "64 word \<Rightarrow> nat" where
  "hash_ip x = (let ip = ntohl x in unat ((drop_bit 12 ip + ip) AND (of_nat IP_HASH_SIZE - 1)))"

subsection \<open>Operations\<close>

text \<open>The free list holds \<open>n\<close> entries, MAXCONNECTIONS of them in the program.\<close>

definition clear_ip_hash_table :: "nat \<Rightarrow> ip_table \<Rightarrow> ip_table" where
  "clear_ip_hash_table n t = t\<lparr>ip_hash_table := (\<lambda>_. []), free_ip_entries := n\<rparr>"

fun chain_pos :: "64 word \<Rightarrow> ip_entry list \<Rightarrow> nat option" where
  "chain_pos a [] = None"
| "chain_pos a (e # es) = (if ie_ip e = a then Some 0 else map_option Suc (chain_pos a es))"

definition find_or_add_ip :: "64 word \<Rightarrow> ip_table \<Rightarrow> (ip_table \<times> nat) option" where
  "find_or_add_ip a t =
     (let h = hash_ip a in
      case chain_pos a (ip_hash_table t h) of
        Some i \<Rightarrow> Some (t, i)
      | None \<Rightarrow>
          if free_ip_entries t = 0 then None
          else Some (t\<lparr>ip_hash_table := (ip_hash_table t)
                         (h := \<lparr>ie_ip = a, ie_count = 0\<rparr> # ip_hash_table t h),
                       free_ip_entries := free_ip_entries t - 1\<rparr>, 0))"

text \<open>\<open>ip_found->count++\<close> of \<open>attach_iline\<close>; the result is the new count.\<close>

definition count_connection :: "64 word \<Rightarrow> ip_table \<Rightarrow> (ip_table \<times> int) option" where
  "count_connection a t =
     (case find_or_add_ip a t of
        None \<Rightarrow> None
      | Some (t', i) \<Rightarrow>
          let h = hash_ip a; es = ip_hash_table t' h; n = ie_count (es ! i) + 1 in
          Some (t'\<lparr>ip_hash_table := (ip_hash_table t')(h := es[i := (es ! i)\<lparr>ie_count := n\<rparr>])\<rparr>, n))"

definition remove_one_ip :: "64 word \<Rightarrow> ip_table \<Rightarrow> ip_table" where
  "remove_one_ip a t =
     (let h = hash_ip a; es = ip_hash_table t h in
      case chain_pos a es of
        Some i \<Rightarrow>
          (let n = ie_count (es ! i); n' = (if n \<noteq> 0 then n - 1 else n) in
           if n' = 0 then t\<lparr>ip_hash_table := (ip_hash_table t)(h := take i es @ drop (Suc i) es),
                            free_ip_entries := free_ip_entries t + 1\<rparr>
           else t\<lparr>ip_hash_table := (ip_hash_table t)(h := es[i := (es ! i)\<lparr>ie_count := n'\<rparr>])\<rparr>)
      | None \<Rightarrow> t\<lparr>ip_notices := ip_notices t @
          [''s_conf.c couldn't find ip# in hash table in remove_one_ip()'',
           ''Please report to the hybrid team! ircd-hybrid@the-project.org'']\<rparr>)"

text \<open>The number of entries \<open>count_ip_hash\<close> adds up over the buckets.\<close>

definition count_ip_hash :: "ip_table \<Rightarrow> nat" where
  "count_ip_hash t = sum_list (map (\<lambda>i. length (ip_hash_table t i)) [0..<IP_HASH_SIZE])"

subsection \<open>What the table stands for\<close>

text \<open>The table stands for the number of connections of every address; a connection adds one, a
  disconnection takes one away.\<close>

definition conns :: "ip_table \<Rightarrow> 64 word \<Rightarrow> int" where
  "conns t a = (case chain_pos a (ip_hash_table t (hash_ip a)) of
                  None \<Rightarrow> 0 | Some i \<Rightarrow> ie_count (ip_hash_table t (hash_ip a) ! i))"

definition chain_ok :: "nat \<Rightarrow> ip_entry list \<Rightarrow> bool" where
  "chain_ok h es \<longleftrightarrow> distinct (map ie_ip es) \<and> (\<forall>e\<in>set es. hash_ip (ie_ip e) = h \<and> 0 < ie_count e)"

definition ip_inv :: "nat \<Rightarrow> ip_table \<Rightarrow> bool" where
  "ip_inv n t \<longleftrightarrow> (\<forall>h. chain_ok h (ip_hash_table t h)) \<and> count_ip_hash t + free_ip_entries t = n"

datatype ip_event = Connect "64 word" | Disconnect "64 word"

fun ip_run :: "ip_event list \<Rightarrow> ip_table \<Rightarrow> ip_table option" where
  "ip_run [] t = Some t"
| "ip_run (Connect a # ev) t = (case count_connection a t of None \<Rightarrow> None | Some (t', _) \<Rightarrow> ip_run ev t')"
| "ip_run (Disconnect a # ev) t = ip_run ev (remove_one_ip a t)"

fun balance :: "ip_event list \<Rightarrow> (64 word \<Rightarrow> int) \<Rightarrow> 64 word \<Rightarrow> int" where
  "balance [] f = f"
| "balance (Connect a # ev) f = balance ev (f(a := f a + 1))"
| "balance (Disconnect a # ev) f = balance ev (f(a := f a - 1))"

text \<open>No address disconnects more often than it connected.\<close>

fun paired :: "ip_event list \<Rightarrow> (64 word \<Rightarrow> int) \<Rightarrow> bool" where
  "paired [] f \<longleftrightarrow> True"
| "paired (Connect a # ev) f \<longleftrightarrow> paired ev (f(a := f a + 1))"
| "paired (Disconnect a # ev) f \<longleftrightarrow> 0 < f a \<and> paired ev (f(a := f a - 1))"

text \<open>At most \<open>n\<close> connections at a time.\<close>

fun at_most :: "nat \<Rightarrow> nat \<Rightarrow> ip_event list \<Rightarrow> bool" where
  "at_most n k [] \<longleftrightarrow> True"
| "at_most n k (Connect a # ev) \<longleftrightarrow> k < n \<and> at_most n (Suc k) ev"
| "at_most n k (Disconnect a # ev) \<longleftrightarrow> at_most n (k - 1) ev"

subsection \<open>Lemmas\<close>

lemma hash_ip_take_bit: "hash_ip a = take_bit 12 (unat (drop_bit 12 (ntohl a) + ntohl a))"
proof -
  have "(of_nat IP_HASH_SIZE - 1 :: 64 word) = mask 12"
    by (simp add: IP_HASH_SIZE_def mask_eq_exp_minus_1)
  then have "hash_ip a = unat (take_bit 12 (drop_bit 12 (ntohl a) + ntohl a))"
    by (simp only: hash_ip_def Let_def take_bit_eq_mask)
  also have "\<dots> = take_bit 12 (unat (drop_bit 12 (ntohl a) + ntohl a))"
    by (rule unsigned_take_bit_eq)
  finally show ?thesis .
qed

lemma hash_ip_less: "hash_ip a < IP_HASH_SIZE"
  unfolding hash_ip_take_bit IP_HASH_SIZE_def by (rule order.strict_trans2[OF take_bit_nat_less_exp]) simp

lemma chain_pos_None [simp]: "chain_pos a es = None \<longleftrightarrow> a \<notin> ie_ip ` set es"
  by (induction es) auto

lemma chain_pos_SomeD: "chain_pos a es = Some i \<Longrightarrow> i < length es \<and> ie_ip (es ! i) = a"
  by (induction es arbitrary: i) (auto split: if_splits)

lemma map_ip_update: "i < length es \<Longrightarrow> map ie_ip (es[i := (es ! i)\<lparr>ie_count := n\<rparr>]) = map ie_ip es"
  by (rule nth_equalityI) (auto simp: nth_list_update)

lemma chain_ok_update:
  assumes "chain_ok h es" "i < length es" "0 < n"
  shows "chain_ok h (es[i := (es ! i)\<lparr>ie_count := n\<rparr>])"
proof -
  have "e \<in> set es \<or> e = (es ! i)\<lparr>ie_count := n\<rparr>" if "e \<in> set (es[i := (es ! i)\<lparr>ie_count := n\<rparr>])" for e
    using that set_update_subset_insert by fast
  then have "\<forall>e\<in>set (es[i := (es ! i)\<lparr>ie_count := n\<rparr>]). hash_ip (ie_ip e) = h \<and> 0 < ie_count e"
    using assms(1,3) nth_mem[OF assms(2)] unfolding chain_ok_def by fastforce
  then show ?thesis
    using assms(1) map_ip_update[OF assms(2), of n] unfolding chain_ok_def by metis
qed

lemma chain_ok_drop:
  assumes "chain_ok h es"
  shows "chain_ok h (take i es @ drop (Suc i) es)"
proof -
  have s: "set (take i es @ drop (Suc i) es) \<subseteq> set es"
    by (auto dest: in_set_takeD in_set_dropD)
  have "distinct (take i (map ie_ip es) @ drop (Suc i) (map ie_ip es))"
    using assms set_take_disj_set_drop_if_distinct[of "map ie_ip es" i "Suc i"]
    unfolding chain_ok_def by simp
  then show ?thesis
    using assms s unfolding chain_ok_def by (auto simp: take_map drop_map)
qed

text \<open>The count an address has in a chain.\<close>

fun cnt :: "64 word \<Rightarrow> ip_entry list \<Rightarrow> int" where
  "cnt a [] = 0"
| "cnt a (e # es) = (if ie_ip e = a then ie_count e else cnt a es)"

lemma cnt_chain_pos: "cnt a es = (case chain_pos a es of None \<Rightarrow> 0 | Some i \<Rightarrow> ie_count (es ! i))"
proof (induction es)
  case (Cons e es)
  then show ?case by (cases "chain_pos a es") (auto split: option.splits dest: chain_pos_SomeD)
qed simp

lemma conns_cnt: "conns t a = cnt a (ip_hash_table t (hash_ip a))"
  by (simp add: conns_def cnt_chain_pos)

lemma cnt_absent: "a \<notin> ie_ip ` set es \<Longrightarrow> cnt a es = 0"
  by (induction es) auto

lemma ip_other: "ie_ip e \<notin> ie_ip ` set es \<Longrightarrow> n < length es \<Longrightarrow> ie_ip (es ! n) \<noteq> ie_ip e"
  by (metis imageI nth_mem)

lemma cnt_update:
  "distinct (map ie_ip es) \<Longrightarrow> i < length es \<Longrightarrow>
   cnt a (es[i := (es ! i)\<lparr>ie_count := n\<rparr>]) = (if ie_ip (es ! i) = a then n else cnt a es)"
proof (induction es arbitrary: i)
  case (Cons e es)
  then show ?case by (cases i) (auto simp: ip_other)
qed simp

lemma cnt_drop:
  "distinct (map ie_ip es) \<Longrightarrow> i < length es \<Longrightarrow>
   cnt a (take i es @ drop (Suc i) es) = (if ie_ip (es ! i) = a then 0 else cnt a es)"
proof (induction es arbitrary: i)
  case (Cons e es)
  then show ?case by (cases i) (auto simp: cnt_absent ip_other)
qed simp

lemma cnt_pos: "chain_ok h es \<Longrightarrow> 0 < cnt a es \<longleftrightarrow> a \<in> ie_ip ` set es"
  unfolding chain_ok_def by (induction es) auto

lemma cnt_nonneg: "chain_ok h es \<Longrightarrow> 0 \<le> cnt a es"
  unfolding chain_ok_def by (induction es) auto

subsection \<open>The operations on the counts\<close>

text \<open>Only the chain of the address changes.\<close>

lemma count_ip_hash_upd:
  assumes "h < IP_HASH_SIZE"
  shows "count_ip_hash (t\<lparr>ip_hash_table := (ip_hash_table t)(h := es)\<rparr>) + length (ip_hash_table t h) =
         count_ip_hash t + length es"
proof -
  let ?f = "\<lambda>i. length (ip_hash_table t i)"
  have "(\<Sum>i\<in>{0..<IP_HASH_SIZE}. (?f(h := length es)) i) + ?f h = (\<Sum>i\<in>{0..<IP_HASH_SIZE}. ?f i) + length es"
    using assms sum.remove[of "{0..<IP_HASH_SIZE}" h "?f(h := length es)"]
      sum.remove[of "{0..<IP_HASH_SIZE}" h ?f] by simp
  moreover have "?f(h := length es) = (\<lambda>i. length (((ip_hash_table t)(h := es)) i))"
    by auto
  ultimately show ?thesis
    by (simp add: count_ip_hash_def sum_set_upt_conv_sum_list_nat[symmetric] del: fun_upd_apply)
qed

lemma count_ip_hash_free [simp]: "count_ip_hash (t\<lparr>free_ip_entries := n\<rparr>) = count_ip_hash t"
  by (simp add: count_ip_hash_def)

lemma count_ip_hash_notices [simp]: "count_ip_hash (t\<lparr>ip_notices := n\<rparr>) = count_ip_hash t"
  by (simp add: count_ip_hash_def)

lemma ip_inv_chain: "ip_inv n t \<Longrightarrow> chain_ok h (ip_hash_table t h)"
  by (simp add: ip_inv_def)

lemma ip_inv_clear: "ip_inv n (clear_ip_hash_table n t)" "conns (clear_ip_hash_table n t) = (\<lambda>_. 0)"
  by (auto simp: ip_inv_def clear_ip_hash_table_def chain_ok_def count_ip_hash_def conns_cnt)

text \<open>A connection adds one to its address.\<close>

lemma count_connection_step:
  assumes I: "ip_inv n t" and r: "count_connection a t = Some (t', k)"
  shows "ip_inv n t' \<and> conns t' = (conns t)(a := conns t a + 1) \<and> k = conns t a + 1"
proof -
  let ?h = "hash_ip a" and ?es = "ip_hash_table t (hash_ip a)"
  have ok: "chain_ok ?h ?es" using I by (rule ip_inv_chain)
  show ?thesis
  proof (cases "chain_pos a ?es")
    case (Some i)
    let ?fs = "?es[i := (?es ! i)\<lparr>ie_count := ie_count (?es ! i) + 1\<rparr>]"
    have i: "i < length ?es" "ie_ip (?es ! i) = a" using chain_pos_SomeD[OF Some] by auto
    have c: "conns t a = ie_count (?es ! i)" by (simp add: conns_def Some)
    have p: "0 \<le> ie_count (?es ! i)" using cnt_nonneg[OF ok, of a] c by (simp add: conns_cnt)
    have t': "t' = t\<lparr>ip_hash_table := (ip_hash_table t)(?h := ?fs)\<rparr>" "k = ie_count (?es ! i) + 1"
      using r by (auto simp: count_connection_def find_or_add_ip_def Let_def Some)
    have "chain_ok ?h ?fs" using chain_ok_update[OF ok i(1)] p by simp
    moreover have "count_ip_hash t' = count_ip_hash t"
      using count_ip_hash_upd[OF hash_ip_less, of t a ?fs] t' by simp
    moreover have "conns t' b = ((conns t)(a := conns t a + 1)) b" for b
      using cnt_update[of ?es i b] ok i c by (auto simp: conns_cnt t' chain_ok_def)
    ultimately show ?thesis
      using I t' c by (auto simp: ip_inv_def)
  next
    case None
    let ?fs = "\<lparr>ie_ip = a, ie_count = 1\<rparr> # ?es"
    have f: "free_ip_entries t \<noteq> 0"
      using r None by (auto simp: count_connection_def find_or_add_ip_def Let_def split: if_splits)
    have c: "conns t a = 0" by (simp only: conns_def None option.case)
    have t': "t' = t\<lparr>ip_hash_table := (ip_hash_table t)(?h := ?fs), free_ip_entries := free_ip_entries t - 1\<rparr>"
      "k = 1"
      using r None f by (auto simp: count_connection_def find_or_add_ip_def Let_def)
    have "chain_ok ?h ?fs" using ok None by (auto simp: chain_ok_def)
    moreover have "count_ip_hash t' = count_ip_hash t + 1"
      using count_ip_hash_upd[OF hash_ip_less, of t a ?fs] t' by simp
    moreover have "conns t' b = ((conns t)(a := conns t a + 1)) b" for b
      using c by (auto simp: conns_cnt t')
    ultimately show ?thesis
      using I t' c f by (auto simp: ip_inv_def)
  qed
qed

lemma count_connection_None:
  assumes "count_connection a t = None"
  shows "free_ip_entries t = 0 \<and> conns t a = 0"
  using assms by (auto simp: count_connection_def find_or_add_ip_def Let_def conns_cnt cnt_absent
      split: option.splits if_splits)

text \<open>A disconnection of an address with a connection takes one away.\<close>

lemma remove_one_ip_step:
  assumes I: "ip_inv n t" and a: "0 < conns t a"
  shows "ip_inv n (remove_one_ip a t) \<and> conns (remove_one_ip a t) = (conns t)(a := conns t a - 1) \<and>
         ip_notices (remove_one_ip a t) = ip_notices t"
proof -
  let ?h = "hash_ip a" and ?es = "ip_hash_table t (hash_ip a)"
  have ok: "chain_ok ?h ?es" using I by (rule ip_inv_chain)
  obtain i where i: "chain_pos a ?es = Some i"
    using a by (cases "chain_pos a ?es") (auto simp: conns_cnt cnt_absent)
  have ii: "i < length ?es" "ie_ip (?es ! i) = a" using chain_pos_SomeD[OF i] by auto
  have c: "conns t a = ie_count (?es ! i)" by (simp add: conns_def i)
  show ?thesis
  proof (cases "ie_count (?es ! i) = 1")
    case True
    let ?fs = "take i ?es @ drop (Suc i) ?es"
    have t': "remove_one_ip a t = t\<lparr>ip_hash_table := (ip_hash_table t)(?h := ?fs),
        free_ip_entries := free_ip_entries t + 1\<rparr>"
      by (simp add: remove_one_ip_def Let_def i True)
    have "chain_ok ?h ?fs" by (rule chain_ok_drop[OF ok])
    moreover have "count_ip_hash (remove_one_ip a t) + 1 = count_ip_hash t"
      using count_ip_hash_upd[OF hash_ip_less, of t a ?fs] t' ii by simp
    moreover have "conns (remove_one_ip a t) b = ((conns t)(a := conns t a - 1)) b" for b
      using cnt_drop[of ?es i b] ok ii c True by (auto simp: conns_cnt t' chain_ok_def)
    ultimately show ?thesis
      using I t' by (auto simp: ip_inv_def)
  next
    case False
    let ?fs = "?es[i := (?es ! i)\<lparr>ie_count := ie_count (?es ! i) - 1\<rparr>]"
    have t': "remove_one_ip a t = t\<lparr>ip_hash_table := (ip_hash_table t)(?h := ?fs)\<rparr>"
      using a c False by (simp add: remove_one_ip_def Let_def i)
    have "chain_ok ?h ?fs" using chain_ok_update[OF ok ii(1)] a c False by simp
    moreover have "count_ip_hash (remove_one_ip a t) = count_ip_hash t"
      using count_ip_hash_upd[OF hash_ip_less, of t a ?fs] t' by simp
    moreover have "conns (remove_one_ip a t) b = ((conns t)(a := conns t a - 1)) b" for b
      using cnt_update[of ?es i b] ok ii c by (auto simp: conns_cnt t' chain_ok_def)
    ultimately show ?thesis
      using I t' by (auto simp: ip_inv_def)
  qed
qed

subsection \<open>The table never runs out of entries\<close>

definition chain_sum :: "ip_entry list \<Rightarrow> int" where
  "chain_sum es = sum_list (map ie_count es)"

definition total :: "ip_table \<Rightarrow> int" where
  "total t = (\<Sum>i\<in>{0..<IP_HASH_SIZE}. chain_sum (ip_hash_table t i))"

lemma total_upd:
  assumes "h < IP_HASH_SIZE"
  shows "total (t\<lparr>ip_hash_table := (ip_hash_table t)(h := es)\<rparr>) + chain_sum (ip_hash_table t h) =
         total t + chain_sum es"
proof -
  let ?f = "\<lambda>i. chain_sum (ip_hash_table t i)"
  have "(\<Sum>i\<in>{0..<IP_HASH_SIZE}. (?f(h := chain_sum es)) i) + ?f h =
        (\<Sum>i\<in>{0..<IP_HASH_SIZE}. ?f i) + chain_sum es"
    using assms sum.remove[of "{0..<IP_HASH_SIZE}" h "?f(h := chain_sum es)"]
      sum.remove[of "{0..<IP_HASH_SIZE}" h ?f] by simp
  moreover have "?f(h := chain_sum es) = (\<lambda>i. chain_sum (((ip_hash_table t)(h := es)) i))"
    by auto
  ultimately show ?thesis
    by (simp add: total_def del: fun_upd_apply)
qed

lemma total_free [simp]: "total (t\<lparr>free_ip_entries := n\<rparr>) = total t"
  by (simp add: total_def)

lemma chain_sum_length: "chain_ok h es \<Longrightarrow> int (length es) \<le> chain_sum es"
  unfolding chain_ok_def chain_sum_def by (induction es) auto

lemma count_ip_hash_total:
  assumes "ip_inv n t"
  shows "int (count_ip_hash t) \<le> total t"
proof -
  have "int (count_ip_hash t) = (\<Sum>i\<in>{0..<IP_HASH_SIZE}. int (length (ip_hash_table t i)))"
    by (simp add: count_ip_hash_def sum_set_upt_conv_sum_list_nat[symmetric])
  also have "\<dots> \<le> total t"
    unfolding total_def by (rule sum_mono) (rule chain_sum_length[OF ip_inv_chain[OF assms]])
  finally show ?thesis .
qed

lemma chain_sum_update:
  "i < length es \<Longrightarrow> chain_sum (es[i := (es ! i)\<lparr>ie_count := k\<rparr>]) = chain_sum es + k - ie_count (es ! i)"
proof (induction es arbitrary: i)
  case (Cons e es)
  then show ?case by (cases i) (auto simp: chain_sum_def)
qed simp

lemma chain_sum_drop: "i < length es \<Longrightarrow> chain_sum (take i es @ drop (Suc i) es) = chain_sum es - ie_count (es ! i)"
proof (induction es arbitrary: i)
  case (Cons e es)
  then show ?case by (cases i) (auto simp: chain_sum_def)
qed simp

lemma count_connection_total:
  assumes "count_connection a t = Some (t', k)"
  shows "total t' = total t + 1 \<and> ip_notices t' = ip_notices t"
proof -
  let ?h = "hash_ip a" and ?es = "ip_hash_table t (hash_ip a)"
  show ?thesis
  proof (cases "chain_pos a ?es")
    case (Some i)
    then show ?thesis
      using assms total_upd[OF hash_ip_less, of t a "?es[i := (?es ! i)\<lparr>ie_count := ie_count (?es ! i) + 1\<rparr>]"]
        chain_sum_update[of i ?es "ie_count (?es ! i) + 1"] chain_pos_SomeD[OF Some]
      by (auto simp: count_connection_def find_or_add_ip_def Let_def)
  next
    case None
    show ?thesis
      using assms total_upd[OF hash_ip_less, of "t\<lparr>free_ip_entries := free_ip_entries t - 1\<rparr>" a
          "\<lparr>ie_ip = a, ie_count = 1\<rparr> # ?es"]
      by (auto simp: count_connection_def find_or_add_ip_def Let_def chain_sum_def None split: if_splits)
  qed
qed

lemma remove_one_ip_total:
  assumes "0 < conns t a"
  shows "total (remove_one_ip a t) = total t - 1"
proof -
  let ?h = "hash_ip a" and ?es = "ip_hash_table t (hash_ip a)"
  obtain i where i: "chain_pos a ?es = Some i"
    using assms by (cases "chain_pos a ?es") (auto simp: conns_cnt cnt_absent)
  have c: "conns t a = ie_count (?es ! i)" by (simp add: conns_def i)
  show ?thesis
    using assms c chain_pos_SomeD[OF i]
      total_upd[OF hash_ip_less, of t a "take i ?es @ drop (Suc i) ?es"] chain_sum_drop[of i ?es]
      total_upd[OF hash_ip_less, of t a "?es[i := (?es ! i)\<lparr>ie_count := ie_count (?es ! i) - 1\<rparr>]"]
      chain_sum_update[of i ?es "ie_count (?es ! i) - 1"]
    by (auto simp: remove_one_ip_def Let_def i)
qed

lemma ip_run_balance:
  assumes "ip_inv n t" "total t = int k" "paired ev (conns t)" "at_most n k ev"
  shows "\<exists>t'. ip_run ev t = Some t' \<and> ip_inv n t' \<and> conns t' = balance ev (conns t) \<and> ip_notices t' = ip_notices t"
  using assms
proof (induction ev arbitrary: t k)
  case (Cons e ev)
  show ?case
  proof (cases e)
    case (Connect a)
    have "int (count_ip_hash t) \<le> int k" using count_ip_hash_total[OF Cons.prems(1)] Cons.prems(2) by simp
    then have "free_ip_entries t \<noteq> 0"
      using Cons.prems(1,4) Connect by (auto simp: ip_inv_def)
    then obtain t' m where r: "count_connection a t = Some (t', m)"
      using count_connection_None[of a t] by (cases "count_connection a t") auto
    have "total t' = int (Suc k)" "ip_notices t' = ip_notices t"
      using count_connection_total[OF r] Cons.prems(2) by auto
    then show ?thesis
      using count_connection_step[OF Cons.prems(1) r] Cons.IH[of t' "Suc k"] Cons.prems(3,4) Connect r
      by (auto simp del: fun_upd_apply)
  next
    case (Disconnect a)
    have p: "0 < conns t a" using Cons.prems(3) Disconnect by simp
    note s = remove_one_ip_step[OF Cons.prems(1) p]
    have "0 \<le> total (remove_one_ip a t)"
      using count_ip_hash_total[OF conjunct1[OF s]] by linarith
    then have "total (remove_one_ip a t) = int (k - 1)"
      using remove_one_ip_total[OF p] Cons.prems(2) by simp
    then show ?thesis
      using s Cons.IH[of "remove_one_ip a t" "k - 1"] Cons.prems(3,4) Disconnect
      by (auto simp del: fun_upd_apply)
  qed
qed auto

text \<open>
  C29. Started empty with room for n entries, the table of addresses is a faithful count of the
  local connections: as long as no address leaves more often than it came and at most n connections exist at
  a time, no operation runs out of entries or finds an address missing, the table holds for every address
  exactly the number of its open connections, and an entry is given back when the last one closes (used and
  free entries always add up to n).
\<close>

theorem ip_table_counts:
  assumes "paired ev (\<lambda>_. 0)" "at_most n 0 ev"
  shows "\<exists>t'. ip_run ev (clear_ip_hash_table n t) = Some t' \<and> ip_notices t' = ip_notices t \<and>
    conns t' = balance ev (\<lambda>_. 0) \<and> count_ip_hash t' + free_ip_entries t' = n \<and>
    (\<forall>a. a \<in> ie_ip ` set (ip_hash_table t' (hash_ip a)) \<longleftrightarrow> 0 < conns t' a)"
proof -
  have z: "total (clear_ip_hash_table n t) = int 0"
    by (simp add: total_def clear_ip_hash_table_def chain_sum_def)
  obtain t' where t': "ip_run ev (clear_ip_hash_table n t) = Some t'" "ip_inv n t'"
    "conns t' = balance ev (\<lambda>_. 0)" "ip_notices t' = ip_notices (clear_ip_hash_table n t)"
    using ip_run_balance[OF ip_inv_clear(1) z] assms by (auto simp: ip_inv_clear)
  then show ?thesis
    using cnt_pos[OF ip_inv_chain[OF t'(2)]]
    by (auto simp: ip_inv_def conns_cnt clear_ip_hash_table_def)
qed

theorem ip_table_counts_witness:
  "\<exists>t'. ip_run [Connect 1, Connect 1, Disconnect 1] (clear_ip_hash_table 2 \<lparr>ip_hash_table = (\<lambda>_. []), free_ip_entries = 0, ip_notices = []\<rparr>) = Some t' \<and>
    conns t' 1 = 1"
  using ip_table_counts[of "[Connect 1, Connect 1, Disconnect 1]" 2
      "\<lparr>ip_hash_table = (\<lambda>_. []), free_ip_entries = 0, ip_notices = []\<rparr>"] by fastforce

end
