(* ===== verification/ConfClass.thy ===== *)
theory ConfClass
  imports IrcMatch IpHash
begin

text \<open>
  Connection classes (\<open>src/class.c\<close>) and the configuration lines attached to local clients (\<open>attach_conf\<close>,
  \<open>detach_conf\<close>, the look-ups, and what a rehash does to the lines and classes in use, \<open>src/s_conf.c\<close>). Classes
  and lines are objects in a store, so that a pointer to a freed one is told from a live one: an access through
  it, or through a null pointer, has no result (\<open>None\<close>). The lines of the file are parsed elsewhere; the model
  starts from their fields.
\<close>

subsection \<open>Constants and data\<close>

definition CONF_ILLEGAL :: "32 word" where "CONF_ILLEGAL = 0x80000000"
definition CONF_CLIENT :: "32 word" where "CONF_CLIENT = 0x0002"
definition CONF_CONNECT_SERVER :: "32 word" where "CONF_CONNECT_SERVER = 0x0004"
definition CONF_NOCONNECT_SERVER :: "32 word" where "CONF_NOCONNECT_SERVER = 0x0008"
definition CONF_LOCOP :: "32 word" where "CONF_LOCOP = 0x0010"
definition CONF_OPERATOR :: "32 word" where "CONF_OPERATOR = 0x0020"
definition CONF_LEAF :: "32 word" where "CONF_LEAF = 0x0800"
definition CONF_HUB :: "32 word" where "CONF_HUB = 0x2000"
definition CONF_CLIENT_MASK :: "32 word" where "CONF_CLIENT_MASK = 0x003E"

definition CONF_FLAGS_F_LINED :: "32 word" where "CONF_FLAGS_F_LINED = 0x0040"

definition BAD_CONF_CLASS :: int where "BAD_CONF_CLASS = -1"
definition BAD_PING :: int where "BAD_PING = -2"
definition BAD_CLIENT_CLASS :: int where "BAD_CLIENT_CLASS = -3"

definition MAXSENDQLENGTH :: int where "MAXSENDQLENGTH = 9000000"
definition CONNECTFREQUENCY :: int where "CONNECTFREQUENCY = 600"
definition PINGFREQUENCY :: int where "PINGFREQUENCY = 120"
definition MAXIMUM_LINKS :: int where "MAXIMUM_LINKS = 1"

record aClass =
  ClassType :: int
  ConFreq :: int
  PingFreq :: int
  MaxLinks :: int
  MaxSendq :: int
  Links :: int

record aConfItem =
  ci_status :: "32 word"
  ci_flags :: "32 word"
  ci_clients :: int
  ci_name :: "cstr option"
  ci_host :: "cstr option"
  ci_user :: "cstr option"
  ci_ipnum :: "32 word"
  ClassPtr :: "nat option"

text \<open>\<open>ConfigItemList\<close> holds the lines from the newest on, \<open>trie_ilines\<close> the I-lines, which \<open>mtrie_conf.c\<close>
  keeps; \<open>attached c\<close> is \<open>cptr->confs\<close>.\<close>

record conf_state =
  class_mem :: "nat \<rightharpoonup> aClass"
  ClassList :: "nat list"
  conf_mem :: "nat \<rightharpoonup> aConfItem"
  ConfigItemList :: "nat list"
  trie_ilines :: "nat list"
  attached :: "nat \<Rightarrow> nat list"
  flined :: "nat list"

definition IsIllegal :: "aConfItem \<Rightarrow> bool" where
  "IsIllegal x = has (ci_status x) CONF_ILLEGAL"

definition IsConfFlined :: "aConfItem \<Rightarrow> bool" where
  "IsConfFlined x = has (ci_flags x) CONF_FLAGS_F_LINED"

text \<open>Reading the class of a line; the pointer must be set and live.\<close>

definition class_of :: "conf_state \<Rightarrow> aConfItem \<Rightarrow> (nat \<times> aClass) option" where
  "class_of s x = (case ClassPtr x of None \<Rightarrow> None | Some k \<Rightarrow> map_option (\<lambda>y. (k, y)) (class_mem s k))"

subsection \<open>Classes\<close>

definition initclass :: "nat \<Rightarrow> conf_state \<Rightarrow> conf_state" where
  "initclass k s = s\<lparr>class_mem := (class_mem s)(k \<mapsto>
     \<lparr>ClassType = 0, ConFreq = CONNECTFREQUENCY, PingFreq = PINGFREQUENCY, MaxLinks = MAXIMUM_LINKS,
      MaxSendq = MAXSENDQLENGTH, Links = 0\<rparr>), ClassList := [k]\<rparr>"

fun find_class_in :: "(nat \<rightharpoonup> aClass) \<Rightarrow> int \<Rightarrow> nat list \<Rightarrow> nat option" where
  "find_class_in m c [] = None"
| "find_class_in m c (k # ks) =
     (case m k of Some y \<Rightarrow> if ClassType y = c then Some k else find_class_in m c ks | None \<Rightarrow> find_class_in m c ks)"

definition find_class :: "int \<Rightarrow> conf_state \<Rightarrow> nat" where
  "find_class c s = (case find_class_in (class_mem s) c (ClassList s) of Some k \<Rightarrow> k | None \<Rightarrow> hd (ClassList s))"

text \<open>\<open>p\<close> is the record \<open>make_class\<close> would return.\<close>

definition add_class :: "nat \<Rightarrow> int \<Rightarrow> int \<Rightarrow> int \<Rightarrow> int \<Rightarrow> int \<Rightarrow> conf_state \<Rightarrow> conf_state option" where
  "add_class p cl png confreq maxli sendq s =
     (let t = find_class cl s;
          upd = (\<lambda>y. y\<lparr>ClassType := cl, ConFreq := confreq, PingFreq := png, MaxLinks := maxli,
                       MaxSendq := (if 0 < sendq then sendq else MAXSENDQLENGTH)\<rparr>) in
      if t = hd (ClassList s) \<and> cl \<noteq> 0 then
        Some (s\<lparr>class_mem := (class_mem s)(p \<mapsto> upd \<lparr>ClassType = 0, ConFreq = 0, PingFreq = 0, MaxLinks = 0,
                                                   MaxSendq = 0, Links = 0\<rparr>),
                ClassList := t # p # tl (ClassList s)\<rparr>)
      else map_option (\<lambda>y. s\<lparr>class_mem := (class_mem s)(t \<mapsto> upd y)\<rparr>) (class_mem s t))"

text \<open>\<open>check_class\<close> reads \<open>next\<close> of the record before the current one, which is the current one for the head.\<close>

fun sweep :: "(nat \<rightharpoonup> aClass) \<Rightarrow> nat list \<Rightarrow> ((nat \<rightharpoonup> aClass) \<times> nat list) option" where
  "sweep m [] = Some (m, [])"
| "sweep m (k # ks) =
     (case m k of None \<Rightarrow> None
      | Some y \<Rightarrow>
          if MaxLinks y < 0 then sweep (if Links y \<le> 0 then m(k := None) else m) ks
          else map_option (\<lambda>(m', ks'). (m', k # ks')) (sweep m ks))"

definition check_class :: "conf_state \<Rightarrow> conf_state option" where
  "check_class s =
     (case ClassList s of [] \<Rightarrow> Some s
      | k # ks \<Rightarrow>
         (case class_mem s k of None \<Rightarrow> None
          | Some y \<Rightarrow>
              if MaxLinks y < 0 \<and> Links y \<le> 0 then None
              else map_option (\<lambda>(m, ks'). s\<lparr>class_mem := m, ClassList := k # ks'\<rparr>) (sweep (class_mem s) ks)))"

definition get_conf_class :: "conf_state \<Rightarrow> aConfItem \<Rightarrow> int" where
  "get_conf_class s x = (case class_of s x of Some (_, y) \<Rightarrow> ClassType y | None \<Rightarrow> BAD_CONF_CLASS)"

definition get_conf_ping :: "conf_state \<Rightarrow> aConfItem \<Rightarrow> int" where
  "get_conf_ping s x = (case class_of s x of Some (_, y) \<Rightarrow> PingFreq y | None \<Rightarrow> BAD_PING)"

definition get_con_freq :: "aClass option \<Rightarrow> int" where
  "get_con_freq y = (case y of Some y \<Rightarrow> ConFreq y | None \<Rightarrow> CONNECTFREQUENCY)"

text \<open>The classes of the lines a client has, in the order of its list.\<close>

definition classes_of :: "conf_state \<Rightarrow> nat \<Rightarrow> aClass list" where
  "classes_of s c = List.map_filter (\<lambda>a. case conf_mem s a of None \<Rightarrow> None
     | Some x \<Rightarrow> map_option snd (class_of s x)) (attached s c)"

definition get_client_class :: "bool \<Rightarrow> conf_state \<Rightarrow> nat \<Rightarrow> int" where
  "get_client_class isme s c =
     (if isme then BAD_CLIENT_CLASS
      else foldl (\<lambda>retc cl. if retc < ClassType cl then ClassType cl else retc) BAD_CLIENT_CLASS (classes_of s c))"

definition get_sendq :: "bool \<Rightarrow> conf_state \<Rightarrow> nat \<Rightarrow> int" where
  "get_sendq isme s c =
     (if isme then MAXSENDQLENGTH
      else foldl (\<lambda>sendq cl. if BAD_CLIENT_CLASS < ClassType cl then MaxSendq cl else sendq)
             MAXSENDQLENGTH (classes_of s c))"

definition get_client_ping :: "conf_state \<Rightarrow> nat \<Rightarrow> int" where
  "get_client_ping s c =
     (let png =
        (case attached s c of [] \<Rightarrow> PINGFREQUENCY
         | as \<Rightarrow> foldl (\<lambda>png a. case conf_mem s a of None \<Rightarrow> png
             | Some x \<Rightarrow>
                 if has (ci_status x) (CONF_CLIENT OR CONF_CONNECT_SERVER OR CONF_NOCONNECT_SERVER) then
                   (let png2 = get_conf_ping s x in
                    if png2 \<noteq> BAD_PING \<and> (png2 < png \<or> png = 0) then png2 else png)
                 else png) 0 as) in
      if png \<le> 0 then PINGFREQUENCY else png)"

subsection \<open>Attaching and detaching lines\<close>

text \<open>The test of the limit reads the class only for an I-line (OLD_Y_LIMIT is not defined).\<close>

definition line_full :: "conf_state \<Rightarrow> aConfItem \<Rightarrow> bool option" where
  "line_full s x =
     (if has (ci_status x) (CONF_LOCOP OR CONF_OPERATOR) then Some False
      else if has (ci_status x) CONF_CLIENT then
        map_option (\<lambda>(_, y). MaxLinks y \<le> Links y \<and> 0 < MaxLinks y) (class_of s x)
      else Some False)"

definition link_conf :: "nat \<Rightarrow> nat \<Rightarrow> aConfItem \<Rightarrow> conf_state \<Rightarrow> conf_state option" where
  "link_conf c a x s =
     (let s' = s\<lparr>attached := (attached s)(c := a # attached s c),
                 conf_mem := (conf_mem s)(a \<mapsto> x\<lparr>ci_clients := ci_clients x + 1\<rparr>)\<rparr> in
      if has (ci_status x) CONF_CLIENT_MASK then
        map_option (\<lambda>(k, y). s'\<lparr>class_mem := (class_mem s')(k \<mapsto> y\<lparr>Links := Links y + 1\<rparr>)\<rparr>) (class_of s x)
      else Some s')"

definition attach_conf :: "nat \<Rightarrow> nat \<Rightarrow> conf_state \<Rightarrow> (conf_state \<times> int) option" where
  "attach_conf c a s =
     (if a \<in> set (attached s c) then Some (s, 1)
      else case conf_mem s a of None \<Rightarrow> None
      | Some x \<Rightarrow>
         if IsIllegal x then Some (s, -1)
         else case line_full s x of None \<Rightarrow> None
         | Some full \<Rightarrow>
            if full \<and> \<not> IsConfFlined x then Some (s, -3)
            else map_option (\<lambda>s'. (s', 0)) (link_conf c a x (if full then s\<lparr>flined := c # flined s\<rparr> else s)))"

text \<open>The two halves of \<open>detach_conf\<close>: the class gives up a link and goes when it is marked and unused; the
  line gives up a client and goes when it is illegal and unused.\<close>

definition unlink_class :: "nat \<Rightarrow> aConfItem \<Rightarrow> conf_state \<Rightarrow> (conf_state \<times> aConfItem) option" where
  "unlink_class a x s =
     (if ClassPtr x = None then Some (s, x)
      else case class_of s x of None \<Rightarrow> None
      | Some (k, y) \<Rightarrow>
         (let y' = (if has (ci_status x) CONF_CLIENT_MASK \<and> 0 < Links y then y\<lparr>Links := Links y - 1\<rparr> else y) in
          if MaxLinks y' = -1 \<and> Links y' = 0 then Some (s\<lparr>class_mem := (class_mem s)(k := None)\<rparr>, x\<lparr>ClassPtr := None\<rparr>)
          else Some (s\<lparr>class_mem := (class_mem s)(k \<mapsto> y')\<rparr>, x)))"

definition detach_conf :: "nat \<Rightarrow> nat \<Rightarrow> conf_state \<Rightarrow> (conf_state \<times> int) option" where
  "detach_conf c a s =
     (if a \<in> set (attached s c) then
        case conf_mem s a of None \<Rightarrow> None
        | Some x \<Rightarrow>
           (case unlink_class a x s of None \<Rightarrow> None
            | Some (s', x') \<Rightarrow>
               (let n = ci_clients x' - 1 in
                Some (s'\<lparr>conf_mem := (conf_mem s')(a := if n = 0 \<and> IsIllegal x' then None
                                                       else Some (x'\<lparr>ci_clients := n\<rparr>)),
                        attached := (attached s')(c := remove1 a (attached s' c))\<rparr>, 0)))
      else Some (s, -1))"

fun det_loop :: "nat \<Rightarrow> 32 word \<Rightarrow> nat list \<Rightarrow> conf_state \<Rightarrow> conf_state option" where
  "det_loop c msk [] s = Some s"
| "det_loop c msk (a # as) s =
     (case conf_mem s a of None \<Rightarrow> None
      | Some x \<Rightarrow>
          if ci_status x AND msk = 0 then
            (case detach_conf c a s of None \<Rightarrow> None | Some (s', _) \<Rightarrow> det_loop c msk as s')
          else det_loop c msk as s)"

definition det_confs_butmask :: "nat \<Rightarrow> 32 word \<Rightarrow> conf_state \<Rightarrow> conf_state option" where
  "det_confs_butmask c msk s = det_loop c msk (attached s c) s"


subsection \<open>Looking lines up\<close>

text \<open>Every list of lines holds live ones only (the invariant below).\<close>

definition first_line :: "(aConfItem \<Rightarrow> bool) \<Rightarrow> nat list \<Rightarrow> conf_state \<Rightarrow> nat option" where
  "first_line P as s = List.find (\<lambda>a. case conf_mem s a of None \<Rightarrow> False | Some x \<Rightarrow> P x) as"

definition find_first_nline :: "nat list \<Rightarrow> conf_state \<Rightarrow> nat option" where
  "find_first_nline = first_line (\<lambda>x. ci_status x = CONF_NOCONNECT_SERVER)"

definition find_conf_name :: "nat list \<Rightarrow> cstr \<Rightarrow> 32 word \<Rightarrow> conf_state \<Rightarrow> nat option" where
  "find_conf_name lp nm statmask = first_line (\<lambda>x. has (ci_status x) statmask \<and>
     (case ci_name x of None \<Rightarrow> False | Some n \<Rightarrow> irccmp n nm = 0 \<or> match n nm)) lp"

definition find_conf_host :: "nat list \<Rightarrow> cstr \<Rightarrow> 32 word \<Rightarrow> conf_state \<Rightarrow> nat option" where
  "find_conf_host lp host statmask = first_line (\<lambda>x. has (ci_status x) statmask \<and>
     (case ci_host x of None \<Rightarrow> False | Some h \<Rightarrow> match h host)) lp"

definition find_conf_ip :: "nat list \<Rightarrow> 32 word \<Rightarrow> cstr \<Rightarrow> 32 word \<Rightarrow> conf_state \<Rightarrow> nat option" where
  "find_conf_ip lp ip user statmask = first_line (\<lambda>x. has (ci_status x) statmask \<and>
     (case ci_user x of None \<Rightarrow> False | Some u \<Rightarrow> match u user) \<and> ci_ipnum x = ip) lp"

definition find_conf_by_name :: "cstr \<Rightarrow> 32 word \<Rightarrow> conf_state \<Rightarrow> nat option" where
  "find_conf_by_name nm status s = first_line (\<lambda>x. ci_status x = status \<and>
     (case ci_name x of None \<Rightarrow> False | Some n \<Rightarrow> match nm n)) (ConfigItemList s) s"

definition find_conf_by_host :: "cstr \<Rightarrow> 32 word \<Rightarrow> conf_state \<Rightarrow> nat option" where
  "find_conf_by_host host status s = first_line (\<lambda>x. ci_status x = status \<and>
     (case ci_host x of None \<Rightarrow> False | Some h \<Rightarrow> match host h)) (ConfigItemList s) s"

definition find_conf_exact :: "cstr \<Rightarrow> cstr \<Rightarrow> cstr \<Rightarrow> 32 word \<Rightarrow> conf_state \<Rightarrow> nat option" where
  "find_conf_exact nm user host statmask s = first_line (\<lambda>x. has (ci_status x) statmask \<and>
     (case ci_name x of None \<Rightarrow> False | Some n \<Rightarrow> irccmp n nm = 0) \<and>
     (case ci_host x of None \<Rightarrow> False | Some h \<Rightarrow> match h host) \<and>
     (case ci_user x of None \<Rightarrow> False | Some u \<Rightarrow> match u user) \<and>
     (has (ci_status x) (CONF_OPERATOR OR CONF_LOCOP) \<longrightarrow>
        (case class_of s x of None \<Rightarrow> False | Some (_, y) \<Rightarrow> ci_clients x < MaxLinks y))) (ConfigItemList s) s"

fun attach_loop :: "nat \<Rightarrow> (aConfItem \<Rightarrow> bool) \<Rightarrow> nat list \<Rightarrow> conf_state \<Rightarrow> (conf_state \<times> int) option" where
  "attach_loop c P [] s = Some (s, 0)"
| "attach_loop c P (a # as) s =
     (case conf_mem s a of None \<Rightarrow> None
      | Some x \<Rightarrow>
         if P x then
           (case attach_conf c a s of None \<Rightarrow> None
            | Some (s', r) \<Rightarrow> map_option (\<lambda>(s'', n). (s'', if -1 < r then n + 1 else n)) (attach_loop c P as s'))
         else attach_loop c P as s)"

definition attach_confs :: "nat \<Rightarrow> cstr \<Rightarrow> 32 word \<Rightarrow> conf_state \<Rightarrow> (conf_state \<times> int) option" where
  "attach_confs c nm statmask s = attach_loop c (\<lambda>x. has (ci_status x) statmask \<and> \<not> IsIllegal x \<and>
     (case ci_name x of None \<Rightarrow> False | Some n \<Rightarrow> match n nm \<or> irccmp n nm = 0)) (ConfigItemList s) s"

text \<open>The result of an attempt to attach a C- or N-line is not looked at.\<close>

fun cn_loop :: "nat \<Rightarrow> cstr \<Rightarrow> cstr \<Rightarrow> bool \<Rightarrow> bool \<Rightarrow> nat list \<Rightarrow> conf_state \<Rightarrow> (conf_state \<times> bool) option" where
  "cn_loop c nm host fc fn [] s = Some (s, False)"
| "cn_loop c nm host fc fn (a # as) s =
     (case conf_mem s a of None \<Rightarrow> None
      | Some x \<Rightarrow>
         (let named = (case ci_host x of None \<Rightarrow> False | Some h \<Rightarrow> irccmp h host = 0) \<and>
                      (case ci_name x of None \<Rightarrow> False | Some n \<Rightarrow> match n nm) in
          if \<not> IsIllegal x \<and> \<not> fc \<and> ci_status x = CONF_CONNECT_SERVER \<and> named then
            (case attach_conf c a s of None \<Rightarrow> None
             | Some (s', _) \<Rightarrow> if fn then Some (s', True) else cn_loop c nm host True fn as s')
          else if \<not> IsIllegal x \<and> \<not> fn \<and> ci_status x = CONF_NOCONNECT_SERVER \<and> named then
            (case attach_conf c a s of None \<Rightarrow> None
             | Some (s', _) \<Rightarrow> if fc then Some (s', True) else cn_loop c nm host fc True as s')
          else cn_loop c nm host fc fn as s))"

definition attach_cn_lines :: "nat \<Rightarrow> cstr \<Rightarrow> cstr \<Rightarrow> conf_state \<Rightarrow> (conf_state \<times> bool) option" where
  "attach_cn_lines c nm host s = cn_loop c nm host False False (ConfigItemList s) s"

subsection \<open>Reading and rereading the file\<close>

text \<open>The class of a new line: the one its class field names (class 0 when there is none of that number), and for
  lines of clients, operators and servers class 0 as well when the field is missing or the class is marked for
  deletion.\<close>

definition line_class :: "32 word \<Rightarrow> int option \<Rightarrow> conf_state \<Rightarrow> nat option option" where
  "line_class status fld s =
     (let p = map_option (\<lambda>n. find_class n s) fld in
      if has status CONF_CLIENT_MASK then
        (let k = (case p of None \<Rightarrow> find_class 0 s | Some k \<Rightarrow> k) in
         map_option (\<lambda>y. Some (if MaxLinks y < 0 then find_class 0 s else k)) (class_mem s k))
      else Some p)"

text \<open>For an I-line \<open>initconf\<close> first asks \<open>find_conf_entry\<close> for the same line in \<open>ConfigItemList\<close>; I-lines are kept in
  the trie only (\<open>lists_ok\<close> below), so nothing is found there and the new line is added.\<close>

definition add_conf_line :: "nat \<Rightarrow> aConfItem \<Rightarrow> int option \<Rightarrow> conf_state \<Rightarrow> conf_state option" where
  "add_conf_line a x fld s =
     (case line_class (ci_status x) fld s of None \<Rightarrow> None
      | Some p \<Rightarrow>
         (let s' = s\<lparr>conf_mem := (conf_mem s)(a \<mapsto> x\<lparr>ClassPtr := p, ci_clients := 0\<rparr>)\<rparr> in
          Some (if has (ci_status x) CONF_CLIENT then s'\<lparr>trie_ilines := a # trie_ilines s'\<rparr>
                else s'\<lparr>ConfigItemList := a # ConfigItemList s'\<rparr>)))"

text \<open>A line in use is marked illegal and, unless it is an I-line, taken off the list; an unused one is freed.\<close>

fun clear_list :: "(nat \<rightharpoonup> aConfItem) \<Rightarrow> nat list \<Rightarrow> ((nat \<rightharpoonup> aConfItem) \<times> nat list) option" where
  "clear_list m [] = Some (m, [])"
| "clear_list m (a # as) =
     (case m a of None \<Rightarrow> None
      | Some x \<Rightarrow>
         if ci_clients x \<noteq> 0 then
           map_option (\<lambda>(m', as'). (m', if has (ci_status x) CONF_CLIENT then a # as' else as'))
             (clear_list (m(a \<mapsto> x\<lparr>ci_status := ci_status x OR CONF_ILLEGAL\<rparr>)) as)
         else clear_list (m(a := None)) as)"

fun clear_ilines :: "(nat \<rightharpoonup> aConfItem) \<Rightarrow> nat list \<Rightarrow> (nat \<rightharpoonup> aConfItem) option" where
  "clear_ilines m [] = Some m"
| "clear_ilines m (a # as) =
     (case m a of None \<Rightarrow> None
      | Some x \<Rightarrow> clear_ilines (m(a := if ci_clients x \<noteq> 0
                                       then Some (x\<lparr>ci_status := ci_status x OR CONF_ILLEGAL\<rparr>) else None)) as)"

fun mark_classes :: "(nat \<rightharpoonup> aClass) \<Rightarrow> nat list \<Rightarrow> (nat \<rightharpoonup> aClass) option" where
  "mark_classes m [] = Some m"
| "mark_classes m (k # ks) = (case m k of None \<Rightarrow> None | Some y \<Rightarrow> mark_classes (m(k \<mapsto> y\<lparr>MaxLinks := -1\<rparr>)) ks)"

definition clear_out_old_conf :: "conf_state \<Rightarrow> conf_state option" where
  "clear_out_old_conf s =
     (case clear_list (conf_mem s) (ConfigItemList s) of None \<Rightarrow> None
      | Some (m, as) \<Rightarrow>
         (case mark_classes (class_mem s) (tl (ClassList s)) of None \<Rightarrow> None
          | Some cm \<Rightarrow>
             map_option (\<lambda>m'. s\<lparr>conf_mem := m', class_mem := cm, ConfigItemList := as, trie_ilines := []\<rparr>)
               (clear_ilines m (trie_ilines s))))"

fun flush_list :: "(nat \<rightharpoonup> aConfItem) \<Rightarrow> nat list \<Rightarrow> ((nat \<rightharpoonup> aConfItem) \<times> nat list) option" where
  "flush_list m [] = Some (m, [])"
| "flush_list m (a # as) =
     (case m a of None \<Rightarrow> None
      | Some x \<Rightarrow>
         if IsIllegal x then flush_list (if ci_clients x = 0 then m(a := None) else m) as
         else map_option (\<lambda>(m', as'). (m', a # as')) (flush_list m as))"

definition flush_deleted_I_P :: "conf_state \<Rightarrow> conf_state option" where
  "flush_deleted_I_P s =
     map_option (\<lambda>(m, as). s\<lparr>conf_mem := m, ConfigItemList := as\<rparr>) (flush_list (conf_mem s) (ConfigItemList s))"

text \<open>The daemon between two events (\<open>False\<close>) and while it reads its files (\<open>True\<close>). Lines of every kind may
  have a class field, also those the classes do not count, such as H- and L-lines. The one thing assumed of the
  files is that no Y-line has a negative limit: \<open>initconf\<close> passes what \<open>atoi\<close> makes of the field, and
  \<open>negative_limit_dangling\<close> below shows what a negative one does. A step that would read a freed class is not
  a step (\<open>detach_conf\<close> is then \<open>None\<close>): the daemon is undefined from there on.\<close>

inductive conf_reach :: "bool \<Rightarrow> conf_state \<Rightarrow> bool" where
  start: "conf_reach True (initclass k \<lparr>class_mem = Map.empty, ClassList = [], conf_mem = Map.empty,
     ConfigItemList = [], trie_ilines = [], attached = (\<lambda>_. []), flined = []\<rparr>)"
| class_line: "conf_reach True s \<Longrightarrow> class_mem s p = None \<Longrightarrow> 0 \<le> maxli \<Longrightarrow>
     add_class p cl png confreq maxli sendq s = Some s' \<Longrightarrow> conf_reach True s'"
| conf_line: "conf_reach True s \<Longrightarrow> conf_mem s a = None \<Longrightarrow> \<not> IsIllegal x \<Longrightarrow>
     add_conf_line a x fld s = Some s' \<Longrightarrow> conf_reach True s'"
| end_of_file: "conf_reach True s \<Longrightarrow> check_class s = Some s' \<Longrightarrow> conf_reach b s'"
| flush: "conf_reach False s \<Longrightarrow> flush_deleted_I_P s = Some s' \<Longrightarrow> conf_reach False s'"
| rehash: "conf_reach False s \<Longrightarrow> clear_out_old_conf s = Some s' \<Longrightarrow> conf_reach True s'"
| attach: "conf_reach False s \<Longrightarrow> a \<in> set (ConfigItemList s) \<union> set (trie_ilines s) \<Longrightarrow>
     attach_conf c a s = Some (s', r) \<Longrightarrow> conf_reach False s'"
| detach: "conf_reach False s \<Longrightarrow> detach_conf c a s = Some (s', r) \<Longrightarrow> conf_reach False s'"

subsection \<open>The accounts of classes and lines\<close>

definition holders :: "(nat \<Rightarrow> nat list) \<Rightarrow> nat \<Rightarrow> nat set" where
  "holders att a = {c. a \<in> set (att c)}"

definition uses :: "(nat \<rightharpoonup> aConfItem) \<Rightarrow> nat \<Rightarrow> nat \<Rightarrow> bool" where
  "uses m k a = (case m a of None \<Rightarrow> False | Some x \<Rightarrow> has (ci_status x) CONF_CLIENT_MASK \<and> ClassPtr x = Some k)"

definition users :: "(nat \<Rightarrow> nat list) \<Rightarrow> (nat \<rightharpoonup> aConfItem) \<Rightarrow> nat \<Rightarrow> (nat \<times> nat) set" where
  "users att m k = {(c, a). a \<in> set (att c) \<and> uses m k a}"

definition lines_of :: "conf_state \<Rightarrow> nat set" where
  "lines_of s = set (ConfigItemList s) \<union> set (trie_ilines s)"

definition att_ok :: "(nat \<Rightarrow> nat list) \<Rightarrow> (nat \<rightharpoonup> aConfItem) \<Rightarrow> bool" where
  "att_ok att m \<longleftrightarrow> finite {c. att c \<noteq> []} \<and> (\<forall>c. distinct (att c) \<and> set (att c) \<subseteq> dom m)"

definition class_ok :: "bool \<Rightarrow> conf_state \<Rightarrow> nat \<Rightarrow> aClass \<Rightarrow> bool" where
  "class_ok b s k y \<longleftrightarrow> Links y = int (card (users (attached s) (conf_mem s) k)) \<and>
     (if k \<in> set (ClassList s) then 0 \<le> MaxLinks y \<or> b \<and> MaxLinks y = -1 \<and> k \<noteq> hd (ClassList s)
      else MaxLinks y = -1 \<and> 0 < Links y)"

definition line_ok :: "conf_state \<Rightarrow> nat \<Rightarrow> aConfItem \<Rightarrow> bool" where
  "line_ok s a x \<longleftrightarrow> ci_clients x = int (card (holders (attached s) a)) \<and>
     (has (ci_status x) CONF_CLIENT_MASK \<longrightarrow>
        (\<exists>k y. ClassPtr x = Some k \<and> class_mem s k = Some y \<and> (\<not> IsIllegal x \<longrightarrow> 0 \<le> MaxLinks y))) \<and>
     (if IsIllegal x then 0 < ci_clients x \<and> a \<notin> lines_of s else a \<in> lines_of s)"

definition lists_ok :: "conf_state \<Rightarrow> bool" where
  "lists_ok s \<longleftrightarrow> distinct (ClassList s) \<and> ClassList s \<noteq> [] \<and> set (ClassList s) \<subseteq> dom (class_mem s) \<and>
     distinct (ConfigItemList s) \<and> distinct (trie_ilines s) \<and> lines_of s \<subseteq> dom (conf_mem s) \<and>
     (\<forall>a x. conf_mem s a = Some x \<longrightarrow> a \<in> set (ConfigItemList s) \<longrightarrow> \<not> has (ci_status x) CONF_CLIENT) \<and>
     (\<forall>a x. conf_mem s a = Some x \<longrightarrow> a \<in> set (trie_ilines s) \<longrightarrow> has (ci_status x) CONF_CLIENT)"

text \<open>The head of the list is class 0.\<close>

definition head0 :: "conf_state \<Rightarrow> bool" where
  "head0 s \<longleftrightarrow> map_option ClassType (class_mem s (hd (ClassList s))) = Some 0"

definition conf_inv :: "bool \<Rightarrow> conf_state \<Rightarrow> bool" where
  "conf_inv b s \<longleftrightarrow> lists_ok s \<and> head0 s \<and> att_ok (attached s) (conf_mem s) \<and>
     (\<forall>k y. class_mem s k = Some y \<longrightarrow> class_ok b s k y) \<and> (\<forall>a x. conf_mem s a = Some x \<longrightarrow> line_ok s a x)"

lemma conf_invI:
  assumes "lists_ok s" "head0 s" "att_ok (attached s) (conf_mem s)"
    "\<And>k y. class_mem s k = Some y \<Longrightarrow> class_ok b s k y" "\<And>a x. conf_mem s a = Some x \<Longrightarrow> line_ok s a x"
  shows "conf_inv b s"
  using assms by (auto simp: conf_inv_def)

lemma conf_invD:
  assumes "conf_inv b s"
  shows "lists_ok s" "att_ok (attached s) (conf_mem s)"
    "class_mem s k = Some y \<Longrightarrow> class_ok b s k y" "conf_mem s a = Some x \<Longrightarrow> line_ok s a x"
    "head0 s"
  using assms by (auto simp: conf_inv_def)

lemma conf_inv_flined [simp]: "conf_inv b (s\<lparr>flined := f\<rparr>) \<longleftrightarrow> conf_inv b s"
  by (simp add: conf_inv_def lists_ok_def class_ok_def line_ok_def lines_of_def head0_def)

subsubsection \<open>Holders and users\<close>

lemma holders_finite: "att_ok att m \<Longrightarrow> finite (holders att a)"
  unfolding att_ok_def holders_def by (elim conjE) (erule rev_finite_subset, auto)

lemma users_finite: "att_ok att m \<Longrightarrow> finite (users att m' k)"
proof -
  assume a: "att_ok att m"
  have "users att m' k \<subseteq> Sigma {c. att c \<noteq> []} (\<lambda>c. set (att c))"
    by (auto simp: users_def)
  moreover have "finite (Sigma {c. att c \<noteq> []} (\<lambda>c. set (att c)))"
    using a by (auto simp: att_ok_def)
  ultimately show ?thesis by (rule finite_subset)
qed

lemma holders_cons: "holders (att(c := a # att c)) b = (if b = a then insert c (holders att b) else holders att b)"
  by (auto simp: holders_def)

lemma users_cons:
  "users (att(c := a # att c)) m k = (if uses m k a then insert (c, a) (users att m k) else users att m k)"
  by (auto simp: users_def split: if_splits)

lemma holders_remove1:
  "distinct (att c) \<Longrightarrow> holders (att(c := remove1 a (att c))) b =
     (if b = a then holders att b - {c} else holders att b)"
  by (auto simp: holders_def)

lemma users_remove1:
  "distinct (att c) \<Longrightarrow> users (att(c := remove1 a (att c))) m k = users att m k - {(c, a)}"
  by (auto simp: users_def split: if_splits)

lemma users_cong:
  assumes "\<And>c a. a \<in> set (att c) \<Longrightarrow> uses m k a = uses m' k a"
  shows "users att m k = users att m' k"
  using assms by (auto simp: users_def)

lemma uses_upd:
  assumes "m a = Some x" "ci_status x AND CONF_CLIENT_MASK = ci_status x' AND CONF_CLIENT_MASK" "ClassPtr x' = ClassPtr x"
  shows "uses (m(a \<mapsto> x')) k b = uses m k b"
  using assms by (auto simp: uses_def has_def)

lemma has_illegal_mask [simp]:
  "has (x OR CONF_ILLEGAL) CONF_CLIENT_MASK = has x CONF_CLIENT_MASK"
  "has (x OR CONF_ILLEGAL) CONF_CLIENT = has x CONF_CLIENT"
  "has (x OR CONF_ILLEGAL) CONF_ILLEGAL"
  by (simp_all add: has_def CONF_ILLEGAL_def CONF_CLIENT_MASK_def CONF_CLIENT_def bit.conj_disj_distrib2)

lemma client_in_mask:
  assumes "has x CONF_CLIENT"
  shows "has x CONF_CLIENT_MASK"
proof -
  have "CONF_CLIENT = CONF_CLIENT_MASK AND CONF_CLIENT"
    by (simp add: CONF_CLIENT_def CONF_CLIENT_MASK_def)
  then have "x AND CONF_CLIENT = (x AND CONF_CLIENT_MASK) AND CONF_CLIENT"
    by (simp only: and.assoc)
  then show ?thesis
    using assms by (auto simp: has_def)
qed

lemma class_of_Some: "class_of s x = Some (k, y) \<longleftrightarrow> ClassPtr x = Some k \<and> class_mem s k = Some y"
  by (auto simp: class_of_def split: option.splits)

subsubsection \<open>Attaching\<close>

lemma attach_ok:
  assumes I: "conf_inv b s" and a: "a \<notin> set (attached s c)" and x: "conf_mem s a = Some x"
    and leg: "\<not> IsIllegal x" and l: "link_conf c a x s = Some s'"
  shows "conf_inv b s'"
proof -
  note att = conf_invD(2)[OF I]
  have xo: "line_ok s a x" using conf_invD(4)[OF I x] .
  let ?m = "(conf_mem s)(a \<mapsto> x\<lparr>ci_clients := ci_clients x + 1\<rparr>)"
  let ?att = "(attached s)(c := a # attached s c)"
  have c: "c \<notin> holders (attached s) a" using a by (simp add: holders_def)
  have u: "uses ?m k b = uses (conf_mem s) k b" for k b
    using uses_upd[of "conf_mem s" a x "x\<lparr>ci_clients := ci_clients x + 1\<rparr>"] x by simp
  have hol: "holders ?att e = (if e = a then insert c (holders (attached s) e) else holders (attached s) e)" for e
    by (rule holders_cons)
  have hc: "card (holders ?att a) = Suc (card (holders (attached s) a))"
    using c holders_finite[OF att] by (simp add: holders_cons)
  have use: "users ?att ?m k = (if uses (conf_mem s) k a then insert (c, a) (users (attached s) (conf_mem s) k)
      else users (attached s) (conf_mem s) k)" for k
    unfolding users_cons u using users_cong[of "attached s" ?m k "conf_mem s"] u by simp
  have ca: "(c, a) \<notin> users (attached s) (conf_mem s) k" for k using a by (simp add: users_def)
  have attok: "att_ok ?att ?m"
    using att a x unfolding att_ok_def by (auto intro: rev_finite_subset)
  obtain cm where s': "s' = s\<lparr>attached := ?att, conf_mem := ?m, class_mem := cm\<rparr>"
    and cm: "\<And>k. cm k = (if uses (conf_mem s) k a then map_option (\<lambda>y. y\<lparr>Links := Links y + 1\<rparr>) (class_mem s k) else class_mem s k)"
  proof (cases "has (ci_status x) CONF_CLIENT_MASK")
    case True
    then obtain k y where ky: "ClassPtr x = Some k" "class_mem s k = Some y"
      using xo by (auto simp: line_ok_def)
    have "s' = s\<lparr>attached := ?att, conf_mem := ?m, class_mem := (class_mem s)(k \<mapsto> y\<lparr>Links := Links y + 1\<rparr>)\<rparr>"
      using l True ky by (simp add: link_conf_def Let_def class_of_def)
    then show thesis
      using True ky x by (intro that[of "(class_mem s)(k \<mapsto> y\<lparr>Links := Links y + 1\<rparr>)"]) (auto simp: uses_def)
  next
    case False
    then have "s' = s\<lparr>attached := ?att, conf_mem := ?m\<rparr>"
      using l by (simp add: link_conf_def)
    also have "\<dots> = s\<lparr>attached := ?att, conf_mem := ?m, class_mem := class_mem s\<rparr>"
      by (cases s) simp
    finally have "s' = s\<lparr>attached := ?att, conf_mem := ?m, class_mem := class_mem s\<rparr>" .
    then show thesis
      using False x by (intro that[of "class_mem s"]) (auto simp: uses_def)
  qed
  have dom: "dom cm = dom (class_mem s)" by (auto simp: cm dom_def split: if_splits)
  have mx: "\<exists>y0. class_mem s k = Some y0 \<and> MaxLinks y = MaxLinks y0 \<and>
      Links y = Links y0 + (if uses (conf_mem s) k a then 1 else 0)" if "cm k = Some y" for k y
    using that by (auto simp: cm split: if_splits)
  show ?thesis
  proof (rule conf_invI)
    show "lists_ok s'"
      using conf_invD(1)[OF I] x by (auto simp: lists_ok_def s' lines_of_def dom split: if_splits)
    show "head0 s'"
      using conf_invD(5)[OF I] by (auto simp: head0_def s' cm split: if_splits)
    show "att_ok (attached s') (conf_mem s')" using attok by (simp add: s')
  next
    fix k y assume "class_mem s' k = Some y"
    then obtain y0 where y0: "class_mem s k = Some y0" "MaxLinks y = MaxLinks y0"
      "Links y = Links y0 + (if uses (conf_mem s) k a then 1 else 0)"
      using mx[of k y] by (auto simp: s')
    show "class_ok b s' k y"
      using conf_invD(3)[OF I y0(1)] y0 ca[of k] users_finite[OF att, of "conf_mem s" k]
      by (auto simp: class_ok_def s' use)
  next
    fix e z assume z: "conf_mem s' e = Some z"
    then obtain z0 where z0: "conf_mem s e = Some z0" "ci_status z = ci_status z0" "ClassPtr z = ClassPtr z0"
      "ci_clients z = ci_clients z0 + (if e = a then 1 else 0)"
      using x by (auto simp: s' split: if_splits)
    have ill: "IsIllegal z = IsIllegal z0" by (simp add: IsIllegal_def z0(2))
    have zc: "ci_clients z = int (card (holders ?att e))"
      using conf_invD(4)[OF I z0(1)] z0(4) hc by (auto simp: line_ok_def hol)
    have cl: "\<exists>y'. cm k = Some y' \<and> MaxLinks y' = MaxLinks y" if "class_mem s k = Some y" for k y
      using that by (auto simp: cm)
    show "line_ok s' e z"
      using conf_invD(4)[OF I z0(1)] z0 zc ill cl leg x unfolding line_ok_def
      by (auto simp: s' lines_of_def split: if_splits) fastforce+
  qed
qed

subsubsection \<open>Detaching\<close>

lemma detach_ok:
  assumes I: "conf_inv False s" and d: "detach_conf c a s = Some (s', r)"
  shows "conf_inv False s'"
proof (cases "a \<in> set (attached s c)")
  case False
  then show ?thesis using d I by (simp add: detach_conf_def)
next
  case True
  note att = conf_invD(2)[OF I]
  then obtain x where x: "conf_mem s a = Some x" using True by (auto simp: att_ok_def)
  have xo: "line_ok s a x" using conf_invD(4)[OF I x] .
  let ?att = "(attached s)(c := remove1 a (attached s c))"
  have dis: "distinct (attached s c)" using att by (simp add: att_ok_def)
  have c: "c \<in> holders (attached s) a" using True by (simp add: holders_def)
  let ?n = "ci_clients x - 1"
  have n: "?n = int (card (holders ?att a))"
    using xo c holders_finite[OF att, of a] dis by (simp add: line_ok_def holders_remove1 card_Diff_singleton)
      (metis One_nat_def Suc_pred card_gt_0_iff empty_iff of_nat_1 of_nat_diff Suc_leI)
  have use: "users ?att (conf_mem s) k = users (attached s) (conf_mem s) k - {(c, a)}" for k
    using dis by (rule users_remove1)
  have ca: "(c, a) \<in> users (attached s) (conf_mem s) k \<longleftrightarrow> uses (conf_mem s) k a" for k
    using True by (simp add: users_def)
  have cu: "card (users ?att (conf_mem s) k) =
      card (users (attached s) (conf_mem s) k) - (if uses (conf_mem s) k a then 1 else 0)" for k
    using users_finite[OF att, of "conf_mem s" k] ca by (simp add: use card_Diff_singleton)
  have hol: "holders ?att e = (if e = a then holders (attached s) e - {c} else holders (attached s) e)" for e
    using dis by (rule holders_remove1)
  define gone where "gone = (has (ci_status x) CONF_CLIENT_MASK \<and> (\<exists>k y. ClassPtr x = Some k \<and> class_mem s k = Some y \<and> MaxLinks y = -1 \<and> Links y = 1))"
  obtain cm x' where u: "unlink_class a x s = Some (s\<lparr>class_mem := cm\<rparr>, x')"
    and x': "x' = (if gone then x\<lparr>ClassPtr := None\<rparr> else x)"
    and cm: "\<And>k. cm k = (if uses (conf_mem s) k a then
        (if gone then None else map_option (\<lambda>y. y\<lparr>Links := Links y - 1\<rparr>) (class_mem s k)) else class_mem s k)"
  proof (cases "has (ci_status x) CONF_CLIENT_MASK")
    case True
    then obtain k y where ky: "ClassPtr x = Some k" "class_mem s k = Some y" using xo by (auto simp: line_ok_def)
    have "uses (conf_mem s) k a" using x ky True by (simp add: uses_def)
    then have "0 < card (users (attached s) (conf_mem s) k)"
      using ca[of k] users_finite[OF att, of "conf_mem s" k] by (auto simp: card_gt_0_iff)
    then have "0 < Links y" using conf_invD(3)[OF I ky(2)] by (simp add: class_ok_def)
    then show thesis
      using True ky x by (intro that[of "(class_mem s)(k := (if gone then None else Some (y\<lparr>Links := Links y - 1\<rparr>)))"])
        (auto simp: uses_def unlink_class_def class_of_def gone_def)
  next
    case False
    have nf: "\<not> (MaxLinks y = -1 \<and> Links y = 0)" if "class_mem s k = Some y" for k y
      using conf_invD(3)[OF I that] by (auto simp: class_ok_def split: if_splits)
    have c0: "class_of s x \<noteq> None" if "ClassPtr x \<noteq> None"
      using that d \<open>a \<in> set (attached s c)\<close> x by (auto simp: detach_conf_def unlink_class_def split: option.splits)
    then have "unlink_class a x s = Some (s, x)"
    proof (cases "class_of s x")
      case None
      then have "ClassPtr x = None" using c0 by blast
      then show ?thesis by (simp add: unlink_class_def)
    next
      case (Some ky)
      then obtain k y where c: "class_of s x = Some (k, y)" by (cases ky) simp
      then have p: "ClassPtr x = Some k" "class_mem s k = Some y" by (simp_all add: class_of_Some)
      show ?thesis
        unfolding unlink_class_def c using False nf[OF p(2)] p by (auto simp: Let_def fun_upd_idem)
    qed
    then show thesis
      using False x by (intro that[of "class_mem s"]) (auto simp: uses_def gone_def)
  qed
  define free where "free \<longleftrightarrow> ?n = 0 \<and> IsIllegal x"
  let ?m = "(conf_mem s)(a := if free then None else Some (x'\<lparr>ci_clients := ?n\<rparr>))"
  have ill: "IsIllegal x' = IsIllegal x" "ci_clients x' = ci_clients x" by (auto simp: x' IsIllegal_def)
  have s': "s' = s\<lparr>class_mem := cm, conf_mem := ?m, attached := ?att\<rparr>"
    using d True x u ill by (auto simp: detach_conf_def Let_def free_def)
  have gone: "card (users ?att (conf_mem s) k) = 0 \<and> k \<notin> set (ClassList s) \<and> free"
    if g: "gone" "uses (conf_mem s) k a" for k
  proof -
    obtain y where y: "class_mem s k = Some y" "MaxLinks y = -1" "Links y = 1" and k: "ClassPtr x = Some k"
      using g x by (auto simp: gone_def uses_def)
    have cls: "class_ok False s k y" using conf_invD(3)[OF I y(1)] .
    have z: "card (users ?att (conf_mem s) k) = 0"
      using cls y cu[of k] g(2) by (simp add: class_ok_def)
    have il: "IsIllegal x" using xo y k g(2) x by (auto simp: line_ok_def uses_def)
    have "holders ?att a = {}"
    proof (rule ccontr)
      assume "holders ?att a \<noteq> {}"
      then obtain c' where "(c', a) \<in> users ?att (conf_mem s) k"
        using g(2) by (auto simp: holders_def users_def)
      moreover have "finite (users ?att (conf_mem s) k)"
        unfolding use using users_finite[OF att, of "conf_mem s" k] by simp
      ultimately show False using z by auto
    qed
    then show ?thesis
      using z cls y(2) il n by (auto simp: class_ok_def free_def split: if_splits)
  qed
  have free0: "holders ?att a = {}" if free
  proof -
    have "finite (holders ?att a)" using holders_finite[OF att, of a] by (simp add: hol)
    then show ?thesis using that n by (simp add: free_def)
  qed
  have kept: "ClassPtr x' = ClassPtr x \<or> \<not> has (ci_status x) CONF_CLIENT_MASK" if "\<not> free"
  proof (rule ccontr)
    assume n: "\<not> ?thesis"
    then have "gone" by (auto simp: x' split: if_splits)
    moreover from this obtain k where "ClassPtr x = Some k" by (auto simp: gone_def)
    then have "uses (conf_mem s) k a" using n x by (simp add: uses_def)
    ultimately show False using gone that by blast
  qed
  have usesm: "uses ?m k e = uses (conf_mem s) k e" if "e \<noteq> a \<or> holders ?att a \<noteq> {}" for k e
  proof (cases "e = a")
    case True
    then have "\<not> free" using that free0 by auto
    then show ?thesis
      using kept True x by (auto simp: uses_def x' split: if_splits)
  qed (simp add: uses_def)
  have usem: "users ?att ?m k = users ?att (conf_mem s) k" for k
    by (rule users_cong, rule usesm, unfold holders_def, blast)
  show ?thesis
  proof (rule conf_invI)
    show "lists_ok s'"
    proof -
      have "set (ClassList s) \<subseteq> dom cm"
        using conf_invD(1)[OF I] gone by (auto simp: lists_ok_def cm dom_def split: if_splits)
      moreover have "lines_of s \<subseteq> dom ?m"
        using conf_invD(1)[OF I] xo by (auto simp: lists_ok_def line_ok_def free_def split: if_splits)
      moreover have "ci_status x' = ci_status x" by (simp add: x')
      ultimately show ?thesis
        using conf_invD(1)[OF I] x by (auto simp: lists_ok_def s' lines_of_def split: if_splits)
    qed
    show "head0 s'"
    proof -
      have "hd (ClassList s) \<in> set (ClassList s)" using conf_invD(1)[OF I] by (simp add: lists_ok_def)
      then have "\<not> (uses (conf_mem s) (hd (ClassList s)) a \<and> gone)" using gone by blast
      then show ?thesis
        using conf_invD(5)[OF I] by (auto simp: head0_def s' cm split: if_splits)
    qed
    show "att_ok (attached s') (conf_mem s')"
    proof -
      have "set (?att e) \<subseteq> dom ?m" for e
        using att free0 by (auto simp: att_ok_def holders_def split: if_splits dest: set_remove1_subset[THEN subsetD])
      moreover have "finite {e. ?att e \<noteq> []}"
        using att by (auto simp: att_ok_def elim: rev_finite_subset)
      moreover have "distinct (?att e)" for e using att by (simp add: att_ok_def)
      ultimately show ?thesis by (simp add: s' att_ok_def)
    qed
  next
    fix k y assume "class_mem s' k = Some y"
    then obtain y0 where y0: "class_mem s k = Some y0" "MaxLinks y = MaxLinks y0"
      "Links y = Links y0 - (if uses (conf_mem s) k a then 1 else 0)" "\<not> (uses (conf_mem s) k a \<and> gone)"
      by (auto simp: s' cm split: if_splits)
    have k: "class_ok False s k y0" using conf_invD(3)[OF I y0(1)] .
    have "0 < card (users (attached s) (conf_mem s) k)" if "uses (conf_mem s) k a"
      using that ca[of k] users_finite[OF att, of "conf_mem s" k] by (auto simp: card_gt_0_iff)
    then have l: "Links y = int (card (users (attached s') (conf_mem s') k))"
      using k y0(3) cu[of k] by (auto simp: class_ok_def s' usem)
    have "0 < Links y" if "k \<notin> set (ClassList s)"
    proof -
      have "MaxLinks y0 = -1" "0 < Links y0" using k that by (auto simp: class_ok_def)
      then show ?thesis
        using y0 x unfolding gone_def by (auto simp: uses_def split: if_splits)
    qed
    then show "class_ok False s' k y"
      using k l y0(2) by (auto simp: class_ok_def s' split: if_splits)
  next
    fix e z assume z: "conf_mem s' e = Some z"
    have fin: "finite (users ?att (conf_mem s) k)" for k
      unfolding use using users_finite[OF att, of "conf_mem s" k] by simp
    have cmS: "\<exists>y'. cm k = Some y' \<and> MaxLinks y' = MaxLinks y"
      if "class_mem s k = Some y" "\<not> (uses (conf_mem s) k a \<and> gone)" for k y
      using that by (auto simp: cm)
    show "line_ok s' e z"
    proof (cases "e = a")
      case True
      then have nf: "\<not> free" and zz: "z = x'\<lparr>ci_clients := ?n\<rparr>" using z by (auto simp: s' split: if_splits)
      have ng: "\<not> (uses (conf_mem s) k a \<and> gone)" for k using gone nf by blast
      have "IsIllegal x \<Longrightarrow> 0 < ?n" using nf n by (auto simp: free_def)
      then show ?thesis
        using xo kept[OF nf] n cmS[OF _ ng] zz True unfolding line_ok_def
        by (auto simp: s' lines_of_def IsIllegal_def x' split: if_splits) fastforce+
    next
      case False
      then have z0: "conf_mem s e = Some z" using z by (simp add: s')
      have zo: "line_ok s e z" using conf_invD(4)[OF I z0] .
      have ng: "\<not> (uses (conf_mem s) k a \<and> gone)" if k: "ClassPtr z = Some k" "has (ci_status z) CONF_CLIENT_MASK" for k
      proof
        assume g: "uses (conf_mem s) k a \<and> gone"
        then obtain y where y: "class_mem s k = Some y" "MaxLinks y = -1"
          using x by (auto simp: gone_def uses_def)
        then have "IsIllegal z" using zo k by (auto simp: line_ok_def)
        then have "holders (attached s) e \<noteq> {}" using zo by (auto simp: line_ok_def)
        then obtain c' where "(c', e) \<in> users ?att (conf_mem s) k"
          using False z0 k unfolding use by (auto simp: users_def holders_def uses_def)
        then show False using gone[of k] g fin[of k] by auto
      qed
      show ?thesis
        using zo False cmS[OF _ ng] unfolding line_ok_def
        by (auto simp: s' lines_of_def hol split: if_splits) fastforce+
    qed
  qed
qed

subsubsection \<open>Classes and lines of the file\<close>

lemma find_class_in_SomeD: "find_class_in m c ks = Some k \<Longrightarrow> k \<in> set ks \<and> (\<exists>y. m k = Some y \<and> ClassType y = c)"
  by (induction ks) (auto split: option.splits if_splits)

lemma find_class_mem: "ClassList s \<noteq> [] \<Longrightarrow> find_class c s \<in> set (ClassList s)"
  by (auto simp: find_class_def split: option.splits dest: find_class_in_SomeD)

lemma uses_None: "m a = None \<Longrightarrow> \<not> uses m k a"
  by (simp add: uses_def)

lemma users_dead:
  assumes "\<And>a x. m a = Some x \<Longrightarrow> has (ci_status x) CONF_CLIENT_MASK \<Longrightarrow> ClassPtr x \<noteq> Some k"
  shows "users att m k = {}"
  using assms by (auto simp: users_def uses_def split: option.splits)

text \<open>No line the classes count points to a class that is not there.\<close>

lemma line_class_live:
  assumes "conf_inv b s" "conf_mem s a = Some x" "has (ci_status x) CONF_CLIENT_MASK"
  shows "\<exists>k. ClassPtr x = Some k \<and> class_mem s k \<noteq> None"
  using conf_invD(4)[OF assms(1,2)] assms(3) by (auto simp: line_ok_def split: if_splits)

lemma add_class_ok:
  assumes I: "conf_inv True s" and p: "class_mem s p = None" and m: "0 \<le> maxli"
    and r: "add_class p cl png cf maxli sq s = Some s'"
  shows "conf_inv True s'"
proof -
  let ?t = "find_class cl s"
  have L: "lists_ok s" using conf_invD(1)[OF I] .
  have pn: "p \<notin> set (ClassList s)" using L p by (auto simp: lists_ok_def)
  have pu: "users (attached s) (conf_mem s) p = {}"
    by (rule users_dead) (use line_class_live[OF I] p in fastforce)
  obtain h ks where hk: "ClassList s = h # ks" using L by (cases "ClassList s") (auto simp: lists_ok_def)
  show ?thesis
  proof (cases "?t = h \<and> cl \<noteq> 0")
    case True
    then obtain y where s': "s' = s\<lparr>class_mem := (class_mem s)(p \<mapsto> y), ClassList := h # p # ks\<rparr>"
      and y: "MaxLinks y = maxli" "Links y = 0"
      using r hk by (auto simp: add_class_def Let_def)
    show ?thesis
    proof (rule conf_invI)
      show "lists_ok s'" using L pn hk by (auto simp: lists_ok_def s' lines_of_def)
      show "head0 s'" using conf_invD(5)[OF I] p hk pn by (auto simp: head0_def s')
      show "att_ok (attached s') (conf_mem s')" using conf_invD(2)[OF I] by (simp add: s')
      show "class_ok True s' k z" if "class_mem s' k = Some z" for k z
      proof (cases "k = p")
        case False
        then have "class_ok True s k z" using that conf_invD(3)[OF I] by (simp add: s')
        then show ?thesis using False hk by (auto simp: class_ok_def s')
      qed (use that pu y m hk in \<open>auto simp: class_ok_def s'\<close>)
      show "line_ok s' a x" if "conf_mem s' a = Some x" for a x
        using that conf_invD(4)[OF I, of a x] p by (auto simp: line_ok_def s' lines_of_def split: if_splits)
    qed
  next
    case False
    then obtain y0 y where y0: "class_mem s ?t = Some y0" and s': "s' = s\<lparr>class_mem := (class_mem s)(?t \<mapsto> y)\<rparr>"
      and y: "MaxLinks y = maxli" "Links y = Links y0" and ty: "ClassType y = cl"
      using r hk by (auto simp: add_class_def Let_def)
    have t: "?t \<in> set (ClassList s)" using find_class_mem L by (simp add: lists_ok_def)
    show ?thesis
    proof (rule conf_invI)
      show "lists_ok s'" using L by (auto simp: lists_ok_def s' lines_of_def)
      show "head0 s'" using conf_invD(5)[OF I] ty hk False by (auto simp: head0_def s')
      show "att_ok (attached s') (conf_mem s')" using conf_invD(2)[OF I] by (simp add: s')
      show "class_ok True s' k z" if "class_mem s' k = Some z" for k z
      proof (cases "k = ?t")
        case False
        then have "class_ok True s k z" using that conf_invD(3)[OF I] by (simp add: s')
        then show ?thesis by (auto simp: class_ok_def s' split: if_splits)
      next
        case True
        then show ?thesis using that conf_invD(3)[OF I y0] y m t by (simp add: class_ok_def s')
      qed
      show "line_ok s' a x" if "conf_mem s' a = Some x" for a x
        using that conf_invD(4)[OF I, of a x] y m by (auto simp: line_ok_def s' lines_of_def split: if_splits)
    qed
  qed
qed

lemma head_class:
  assumes "conf_inv b s"
  shows "\<exists>y. class_mem s (hd (ClassList s)) = Some y \<and> 0 \<le> MaxLinks y"
proof -
  have "hd (ClassList s) \<in> set (ClassList s)" "set (ClassList s) \<subseteq> dom (class_mem s)"
    using conf_invD(1)[OF assms] by (auto simp: lists_ok_def)
  then obtain y where y: "class_mem s (hd (ClassList s)) = Some y" and h: "hd (ClassList s) \<in> set (ClassList s)"
    by blast
  show ?thesis
    using conf_invD(3)[OF assms y] h y by (auto simp: class_ok_def)
qed

lemma find_class_0:
  assumes "conf_inv b s"
  shows "find_class 0 s = hd (ClassList s)"
proof -
  obtain h ks where "ClassList s = h # ks"
    using conf_invD(1)[OF assms] by (cases "ClassList s") (auto simp: lists_ok_def)
  then show ?thesis
    using conf_invD(5)[OF assms] by (auto simp: find_class_def head0_def)
qed

lemma line_class_ok:
  assumes I: "conf_inv True s"
  shows "\<exists>p. line_class st fld s = Some p \<and>
    (has st CONF_CLIENT_MASK \<longrightarrow> (\<exists>k y. p = Some k \<and> class_mem s k = Some y \<and> 0 \<le> MaxLinks y))"
proof (cases "has st CONF_CLIENT_MASK")
  case True
  let ?k = "case map_option (\<lambda>n. find_class n s) fld of None \<Rightarrow> find_class 0 s | Some k \<Rightarrow> k"
  have "?k \<in> set (ClassList s)"
    using find_class_mem conf_invD(1)[OF I] by (auto simp: lists_ok_def split: option.splits)
  then obtain y where y: "class_mem s ?k = Some y"
    using conf_invD(1)[OF I] by (auto simp: lists_ok_def)
  then show ?thesis
    using True head_class[OF I] find_class_0[OF I] by (auto simp: line_class_def Let_def)
qed (simp add: line_class_def)

lemma add_conf_line_ok:
  assumes I: "conf_inv True s" and a: "conf_mem s a = None" and leg: "\<not> IsIllegal x"
    and r: "add_conf_line a x fld s = Some s'"
  shows "conf_inv True s'"
proof -
  obtain p where lp: "line_class (ci_status x) fld s = Some p" and
    p: "has (ci_status x) CONF_CLIENT_MASK \<longrightarrow> (\<exists>k y. p = Some k \<and> class_mem s k = Some y \<and> 0 \<le> MaxLinks y)"
    using line_class_ok[OF I] by blast
  let ?m = "(conf_mem s)(a \<mapsto> x\<lparr>ClassPtr := p, ci_clients := 0\<rparr>)"
  have h0: "a \<notin> set (attached s c)" for c using conf_invD(2)[OF I] a by (auto simp: att_ok_def)
  have hol: "holders (attached s) a = {}" using h0 by (simp add: holders_def)
  have us: "users (attached s) ?m k = users (attached s) (conf_mem s) k" for k
    by (rule users_cong) (use h0 in \<open>auto simp: uses_def\<close>)
  have al: "a \<notin> lines_of s" using conf_invD(1)[OF I] a by (auto simp: lists_ok_def)
  obtain cl il where s': "s' = s\<lparr>conf_mem := ?m, ConfigItemList := cl, trie_ilines := il\<rparr>"
    and l: "cl = (if has (ci_status x) CONF_CLIENT then ConfigItemList s else a # ConfigItemList s)"
      "il = (if has (ci_status x) CONF_CLIENT then a # trie_ilines s else trie_ilines s)"
    using r lp by (cases s) (auto simp: add_conf_line_def Let_def split: if_splits)
  show ?thesis
  proof (rule conf_invI)
    show "lists_ok s'"
      using conf_invD(1)[OF I] al by (auto simp: lists_ok_def s' lines_of_def l split: if_splits)
    show "head0 s'" using conf_invD(5)[OF I] by (simp add: head0_def s')
    show "att_ok (attached s') (conf_mem s')" using conf_invD(2)[OF I] by (auto simp: s' att_ok_def)
    show "class_ok True s' k y" if "class_mem s' k = Some y" for k y
      using that conf_invD(3)[OF I, of k y] by (auto simp: class_ok_def s' us)
    show "line_ok s' e z" if z: "conf_mem s' e = Some z" for e z
    proof (cases "e = a")
      case True
      then show ?thesis using z p hol leg
        by (auto simp: line_ok_def s' lines_of_def l IsIllegal_def split: if_splits)
    next
      case False
      then show ?thesis using z conf_invD(4)[OF I, of e z]
        by (auto simp: line_ok_def s' lines_of_def l split: if_splits)
    qed
  qed
qed

lemma sweep_spec:
  assumes "set ks \<subseteq> dom m" "distinct ks"
  shows "\<exists>m' ks'. sweep m ks = Some (m', ks') \<and> ks' = filter (\<lambda>k. 0 \<le> MaxLinks (the (m k))) ks \<and>
    (\<forall>k. m' k = (if k \<in> set ks \<and> MaxLinks (the (m k)) < 0 \<and> Links (the (m k)) \<le> 0 then None else m k))"
  using assms
proof (induction ks arbitrary: m)
  case (Cons k ks)
  then obtain y where y: "m k = Some y" by auto
  show ?case
  proof (cases "MaxLinks y < 0")
    case True
    let ?m = "if Links y \<le> 0 then m(k := None) else m"
    have "set ks \<subseteq> dom ?m" using Cons.prems by auto
    then obtain m' where m': "sweep ?m ks = Some (m', filter (\<lambda>k. 0 \<le> MaxLinks (the (?m k))) ks)"
      "\<And>j. m' j = (if j \<in> set ks \<and> MaxLinks (the (?m j)) < 0 \<and> Links (the (?m j)) \<le> 0 then None else ?m j)"
      using Cons.IH[of ?m] Cons.prems by auto
    have "filter (\<lambda>k. 0 \<le> MaxLinks (the (?m k))) ks = filter (\<lambda>k. 0 \<le> MaxLinks (the (m k))) ks"
      using Cons.prems by (auto intro!: filter_cong)
    then show ?thesis
      using m' True y Cons.prems by (auto simp: fun_upd_apply)
  next
    case False
    then show ?thesis
      using Cons.IH[of m] Cons.prems y by auto
  qed
qed auto

lemma check_class_ok:
  assumes I: "conf_inv b s"
  shows "\<exists>s'. check_class s = Some s' \<and> conf_inv b' s'"
proof -
  have L: "lists_ok s" using conf_invD(1)[OF I] .
  obtain h ks where hk: "ClassList s = h # ks" using L by (cases "ClassList s") (auto simp: lists_ok_def)
  obtain y where y: "class_mem s h = Some y" "0 \<le> MaxLinks y" using head_class[OF I] hk by auto
  have d: "set ks \<subseteq> dom (class_mem s)" "distinct ks" "h \<notin> set ks" using L hk by (auto simp: lists_ok_def)
  obtain m ks' where sw: "sweep (class_mem s) ks = Some (m, ks')"
    and ks': "ks' = filter (\<lambda>k. 0 \<le> MaxLinks (the (class_mem s k))) ks"
    and m: "\<And>k. m k = (if k \<in> set ks \<and> MaxLinks (the (class_mem s k)) < 0 \<and> Links (the (class_mem s k)) \<le> 0
      then None else class_mem s k)"
    using sweep_spec[OF d(1,2)] by blast
  define s' where "s' = s\<lparr>class_mem := m, ClassList := h # ks'\<rparr>"
  have r: "check_class s = Some s'" using hk y sw by (simp add: check_class_def s'_def)
  have live: "m k = Some z" if "class_mem s k = Some z" "0 \<le> MaxLinks z \<or> 0 < Links z" for k z
    using that by (auto simp: m)
  have "conf_inv b' s'"
  proof (rule conf_invI)
    show "lists_ok s'" using L hk d y by (auto simp: lists_ok_def s'_def lines_of_def ks' m split: if_splits)
    show "head0 s'" using conf_invD(5)[OF I] hk d y by (auto simp: head0_def s'_def m)
    show "att_ok (attached s') (conf_mem s')" using conf_invD(2)[OF I] by (simp add: s'_def)
    show "class_ok b' s' k z" if "class_mem s' k = Some z" for k z
    proof -
      have k: "class_mem s k = Some z" "k \<in> set ks \<Longrightarrow> MaxLinks z < 0 \<Longrightarrow> 0 < Links z"
        using that by (auto simp: s'_def m split: if_splits)
      show ?thesis
        using conf_invD(3)[OF I k(1)] k d y hk by (auto simp: class_ok_def s'_def ks' split: if_splits)
    qed
    show "line_ok s' a x" if "conf_mem s' a = Some x" for a x
    proof -
      have a: "line_ok s a x" using that conf_invD(4)[OF I] by (simp add: s'_def)
      have "0 < Links z" if il: "IsIllegal x" and k: "ClassPtr x = Some k" "class_mem s k = Some z"
        and mk: "has (ci_status x) CONF_CLIENT_MASK" for k z
      proof -
        obtain c where "c \<in> holders (attached s) a" using a il by (fastforce simp: line_ok_def)
        then have "(c, a) \<in> users (attached s) (conf_mem s) k"
          using \<open>conf_mem s' a = Some x\<close> mk k by (simp add: users_def uses_def holders_def s'_def)
        then show ?thesis
          using conf_invD(3)[OF I k(2)] users_finite[OF conf_invD(2)[OF I], of "conf_mem s" k]
          by (auto simp: class_ok_def card_gt_0_iff)
      qed
      then show ?thesis
        using a live by (auto simp: line_ok_def s'_def lines_of_def split: if_splits)
    qed
  qed
  then show ?thesis using r by blast
qed

lemma flush_list_legal:
  assumes "\<forall>a\<in>set as. \<exists>x. m a = Some x \<and> \<not> IsIllegal x"
  shows "flush_list m as = Some (m, as)"
  using assms by (induction as) auto

lemma flush_ok:
  assumes I: "conf_inv b s"
  shows "flush_deleted_I_P s = Some s"
proof -
  have "flush_list (conf_mem s) (ConfigItemList s) = Some (conf_mem s, ConfigItemList s)"
  proof (rule flush_list_legal, rule ballI)
    fix a assume a: "a \<in> set (ConfigItemList s)"
    then obtain x where x: "conf_mem s a = Some x" using conf_invD(1)[OF I] by (auto simp: lists_ok_def lines_of_def)
    then show "\<exists>x. conf_mem s a = Some x \<and> \<not> IsIllegal x"
      using a conf_invD(4)[OF I x] by (auto simp: line_ok_def lines_of_def split: if_splits)
  qed
  then show ?thesis by (simp add: flush_deleted_I_P_def)
qed

text \<open>What a rehash leaves of a line.\<close>

definition retire :: "aConfItem \<Rightarrow> aConfItem option" where
  "retire x = (if ci_clients x \<noteq> 0 then Some (x\<lparr>ci_status := ci_status x OR CONF_ILLEGAL\<rparr>) else None)"

lemma clear_list_spec:
  assumes "set as \<subseteq> dom m" "distinct as"
    "\<And>a x. a \<in> set as \<Longrightarrow> m a = Some x \<Longrightarrow> \<not> has (ci_status x) CONF_CLIENT"
  shows "clear_list m as = Some (\<lambda>a. if a \<in> set as then Option.bind (m a) retire else m a, [])"
  using assms
proof (induction as arbitrary: m)
  case (Cons a as)
  then obtain x where x: "m a = Some x" by auto
  have "set as \<subseteq> dom (m(a := retire x))" using Cons.prems by auto
  then have "clear_list (m(a := retire x)) as =
      Some (\<lambda>b. if b \<in> set as then Option.bind ((m(a := retire x)) b) retire else (m(a := retire x)) b, [])"
    using Cons.prems by (intro Cons.IH) (auto split: if_splits)
  moreover have "(\<lambda>b. if b \<in> set as then Option.bind ((m(a := retire x)) b) retire else (m(a := retire x)) b) =
      (\<lambda>b. if b \<in> set (a # as) then Option.bind (m b) retire else m b)"
    using Cons.prems(2) x by (auto simp: fun_eq_iff)
  ultimately show ?case
    using x Cons.prems(3) by (auto simp: retire_def)
qed auto

lemma clear_ilines_spec:
  assumes "set as \<subseteq> dom m" "distinct as"
  shows "clear_ilines m as = Some (\<lambda>a. if a \<in> set as then Option.bind (m a) retire else m a)"
  using assms
proof (induction as arbitrary: m)
  case (Cons a as)
  then obtain x where x: "m a = Some x" by auto
  have "set as \<subseteq> dom (m(a := retire x))" using Cons.prems by auto
  then have "clear_ilines (m(a := retire x)) as =
      Some (\<lambda>b. if b \<in> set as then Option.bind ((m(a := retire x)) b) retire else (m(a := retire x)) b)"
    using Cons.prems by (intro Cons.IH) auto
  moreover have "(\<lambda>b. if b \<in> set as then Option.bind ((m(a := retire x)) b) retire else (m(a := retire x)) b) =
      (\<lambda>b. if b \<in> set (a # as) then Option.bind (m b) retire else m b)"
    using Cons.prems(2) x by (auto simp: fun_eq_iff)
  ultimately show ?case
    using x by (simp add: retire_def)
qed auto

lemma mark_classes_spec:
  assumes "set ks \<subseteq> dom m" "distinct ks"
  shows "mark_classes m ks = Some (\<lambda>k. if k \<in> set ks then map_option (\<lambda>y. y\<lparr>MaxLinks := -1\<rparr>) (m k) else m k)"
  using assms
proof (induction ks arbitrary: m)
  case (Cons k ks)
  then obtain y where y: "m k = Some y" by auto
  let ?m = "m(k \<mapsto> y\<lparr>MaxLinks := -1\<rparr>)"
  have "set ks \<subseteq> dom ?m" using Cons.prems by auto
  then have "mark_classes ?m ks = Some (\<lambda>j. if j \<in> set ks then map_option (\<lambda>y. y\<lparr>MaxLinks := -1\<rparr>) (?m j) else ?m j)"
    using Cons.prems by (intro Cons.IH) auto
  moreover have "(\<lambda>j. if j \<in> set ks then map_option (\<lambda>y. y\<lparr>MaxLinks := -1\<rparr>) (?m j) else ?m j) =
      (\<lambda>j. if j \<in> set (k # ks) then map_option (\<lambda>y. y\<lparr>MaxLinks := -1\<rparr>) (m j) else m j)"
    using Cons.prems(2) y by (auto simp: fun_eq_iff)
  ultimately show ?case
    using y by simp
qed auto

lemma clear_out_old_conf_ok:
  assumes I: "conf_inv False s"
  shows "\<exists>s'. clear_out_old_conf s = Some s' \<and> conf_inv True s'"
proof -
  have L: "lists_ok s" using conf_invD(1)[OF I] .
  obtain h ks where hk: "ClassList s = h # ks" using L by (cases "ClassList s") (auto simp: lists_ok_def)
  have disj: "set (ConfigItemList s) \<inter> set (trie_ilines s) = {}"
    using L unfolding lists_ok_def lines_of_def by blast
  let ?m1 = "\<lambda>a. if a \<in> set (ConfigItemList s) then Option.bind (conf_mem s a) retire else conf_mem s a"
  let ?m = "\<lambda>a. if a \<in> lines_of s then Option.bind (conf_mem s a) retire else conf_mem s a"
  let ?cm = "\<lambda>k. if k \<in> set ks then map_option (\<lambda>y. y\<lparr>MaxLinks := -1\<rparr>) (class_mem s k) else class_mem s k"
  have c1: "clear_list (conf_mem s) (ConfigItemList s) = Some (?m1, [])"
    using L by (intro clear_list_spec) (auto simp: lists_ok_def lines_of_def)
  have c2: "mark_classes (class_mem s) ks = Some ?cm"
    using L hk by (intro mark_classes_spec) (auto simp: lists_ok_def)
  have "clear_ilines ?m1 (trie_ilines s) =
      Some (\<lambda>a. if a \<in> set (trie_ilines s) then Option.bind (?m1 a) retire else ?m1 a)"
    using L disj by (intro clear_ilines_spec) (auto simp: lists_ok_def lines_of_def split: if_splits)
  also have "(\<lambda>a. if a \<in> set (trie_ilines s) then Option.bind (?m1 a) retire else ?m1 a) = ?m"
    using disj by (auto simp: fun_eq_iff lines_of_def)
  finally have c3: "clear_ilines ?m1 (trie_ilines s) = Some ?m" .
  define s' where "s' = s\<lparr>conf_mem := ?m, class_mem := ?cm, ConfigItemList := [], trie_ilines := []\<rparr>"
  have r: "clear_out_old_conf s = Some s'"
    using c1 c2 c3 hk by (simp add: clear_out_old_conf_def s'_def)
  have kept: "\<exists>x0. conf_mem s a = Some x0 \<and> 0 < ci_clients x0 \<and> ci_clients x = ci_clients x0 \<and>
      ClassPtr x = ClassPtr x0 \<and> IsIllegal x \<and> has (ci_status x) CONF_CLIENT_MASK = has (ci_status x0) CONF_CLIENT_MASK"
    if m: "?m a = Some x" for a x
  proof (cases "a \<in> lines_of s")
    case True
    then obtain x0 where x0: "conf_mem s a = Some x0" "retire x0 = Some x" using m by (auto simp: bind_eq_Some_conv)
    then have "0 \<le> ci_clients x0" using conf_invD(4)[OF I x0(1)] by (simp add: line_ok_def)
    then show ?thesis using x0 by (auto simp: retire_def IsIllegal_def split: if_splits)
  next
    case False
    then show ?thesis using m conf_invD(4)[OF I, of a x] by (auto simp: line_ok_def split: if_splits)
  qed
  have held: "?m a \<noteq> None" if a: "a \<in> set (attached s c)" for a c
  proof -
    obtain x where x: "conf_mem s a = Some x" using conf_invD(2)[OF I] a by (auto simp: att_ok_def)
    have "c \<in> holders (attached s) a" using a by (simp add: holders_def)
    then have "0 < card (holders (attached s) a)"
      using holders_finite[OF conf_invD(2)[OF I], of a] by (auto simp: card_gt_0_iff)
    then show ?thesis using conf_invD(4)[OF I x] x by (auto simp: line_ok_def retire_def)
  qed
  have us: "users (attached s) ?m k = users (attached s) (conf_mem s) k" for k
  proof (rule users_cong)
    fix c a assume "a \<in> set (attached s c)"
    then obtain x where x: "?m a = Some x" using held by fastforce
    then obtain x0 where "conf_mem s a = Some x0" "ClassPtr x = ClassPtr x0"
      "has (ci_status x) CONF_CLIENT_MASK = has (ci_status x0) CONF_CLIENT_MASK" using kept by blast
    then show "uses ?m k a = uses (conf_mem s) k a" using x by (simp add: uses_def)
  qed
  have "conf_inv True s'"
  proof (rule conf_invI)
    show "lists_ok s'" using L hk by (auto simp: lists_ok_def s'_def lines_of_def)
    show "head0 s'" using conf_invD(5)[OF I] L hk by (auto simp: head0_def s'_def lists_ok_def)
    show "att_ok (attached s') (conf_mem s')"
    proof -
      have "set (attached s c) \<subseteq> dom ?m" for c
        by (rule subsetI) (use held in \<open>simp only: dom_def mem_Collect_eq not_False_eq_True\<close>)
      then show ?thesis using conf_invD(2)[OF I] by (simp add: s'_def att_ok_def)
    qed
    show "class_ok True s' k y" if y: "class_mem s' k = Some y" for k y
    proof -
      obtain y0 where y0: "class_mem s k = Some y0" "Links y = Links y0"
        "MaxLinks y = (if k \<in> set ks then -1 else MaxLinks y0)"
        using y by (auto simp: s'_def split: if_splits)
      show ?thesis
        using conf_invD(3)[OF I y0(1)] y0 L hk by (auto simp: class_ok_def s'_def us lists_ok_def split: if_splits)
    qed
    show "line_ok s' a x" if x: "conf_mem s' a = Some x" for a x
    proof -
      obtain x0 where x0: "conf_mem s a = Some x0" "0 < ci_clients x0" "ci_clients x = ci_clients x0"
        "ClassPtr x = ClassPtr x0" "IsIllegal x"
        "has (ci_status x) CONF_CLIENT_MASK = has (ci_status x0) CONF_CLIENT_MASK"
        using kept x by (fastforce simp: s'_def)
      have "?cm k \<noteq> None" if "class_mem s k = Some y" for k y using that by simp
      then show ?thesis
        using conf_invD(4)[OF I x0(1)] x0 by (auto simp: line_ok_def s'_def lines_of_def split: if_splits)
    qed
  qed
  then show ?thesis using r by blast
qed

subsubsection \<open>Every reachable state\<close>

lemma start_ok:
  "conf_inv True (initclass k \<lparr>class_mem = Map.empty, ClassList = [], conf_mem = Map.empty,
     ConfigItemList = [], trie_ilines = [], attached = (\<lambda>_. []), flined = []\<rparr>)"
  by (rule conf_invI) (auto simp: initclass_def lists_ok_def lines_of_def head0_def att_ok_def class_ok_def
      users_def MAXIMUM_LINKS_def split: if_splits)

lemma attach_conf_cases:
  assumes "attach_conf c a s = Some (s', r)" "conf_inv b s"
  shows "conf_inv b s'"
proof (cases "a \<in> set (attached s c)")
  case False
  then obtain x full where x: "conf_mem s a = Some x" "IsIllegal x \<or> line_full s x = Some full"
    using assms(1) by (auto simp: attach_conf_def split: option.splits if_splits)
  show ?thesis
  proof (cases "IsIllegal x \<or> full \<and> \<not> IsConfFlined x")
    case True
    then show ?thesis
      using assms False x by (auto simp: attach_conf_def split: option.splits if_splits)
  next
    case nf: False
    let ?s = "if full then s\<lparr>flined := c # flined s\<rparr> else s"
    have "link_conf c a x ?s = Some s'"
      using assms(1) False x nf by (auto simp: attach_conf_def split: option.splits if_splits)
    moreover have "conf_inv b ?s" using assms(2) by simp
    ultimately show ?thesis
      using False x nf by (intro attach_ok[of b ?s a c x s']) auto
  qed
qed (use assms in \<open>simp add: attach_conf_def\<close>)

lemma conf_reach_inv: "conf_reach b s \<Longrightarrow> conf_inv b s"
proof (induction rule: conf_reach.induct)
  case (start k)
  show ?case by (rule start_ok)
next
  case (class_line s p maxli cl png confreq sendq s')
  then show ?case by (blast intro: add_class_ok)
next
  case (conf_line s a x fld s')
  then show ?case by (blast intro: add_conf_line_ok)
next
  case (end_of_file s s' b)
  then show ?case using check_class_ok[of True s b] by auto
next
  case (flush s s')
  then show ?case using flush_ok by simp
next
  case (rehash s s')
  then show ?case using clear_out_old_conf_ok[of s] by auto
next
  case (attach s a c s' r)
  then show ?case by (blast intro: attach_conf_cases)
next
  case (detach s c a s' r)
  then show ?case by (blast intro: detach_ok)
qed

text \<open>No operation on a reachable state goes through a pointer to a freed object.\<close>

lemma attach_conf_total:
  assumes I: "conf_inv b s" and a: "a \<in> lines_of s"
  shows "attach_conf c a s \<noteq> None"
proof -
  obtain x where x: "conf_mem s a = Some x" using conf_invD(1)[OF I] a by (auto simp: lists_ok_def)
  have "class_of s x \<noteq> None" if "has (ci_status x) CONF_CLIENT_MASK"
    using conf_invD(4)[OF I x] that by (auto simp: line_ok_def class_of_def)
  then show ?thesis
    using x client_in_mask[of "ci_status x"]
    by (auto simp: attach_conf_def line_full_def link_conf_def Let_def class_of_def split: option.splits if_splits)
qed

lemma detach_conf_total:
  assumes I: "conf_inv False s"
    and h: "\<And>x. conf_mem s a = Some x \<Longrightarrow> has (ci_status x) CONF_CLIENT_MASK \<or> ClassPtr x = None"
  shows "detach_conf c a s \<noteq> None"
proof (cases "a \<in> set (attached s c)")
  case True
  then obtain x where x: "conf_mem s a = Some x" using conf_invD(2)[OF I] by (auto simp: att_ok_def)
  have "ClassPtr x \<noteq> None \<longrightarrow> class_of s x \<noteq> None"
    using conf_invD(4)[OF I x] h[OF x] by (auto simp: line_ok_def class_of_def split: if_splits)
  then show ?thesis
    using True x by (auto simp: detach_conf_def unlink_class_def Let_def split: option.splits)
qed (simp add: detach_conf_def)

lemma detach_conf_attached:
  assumes "conf_inv False s" "detach_conf c a s = Some (s', r)" "b \<noteq> a" "b \<in> set (attached s c)"
  shows "b \<in> set (attached s' c) \<and> conf_mem s' b = conf_mem s b"
  using assms conf_invD(2)[OF assms(1)]
  by (auto simp: detach_conf_def unlink_class_def Let_def att_ok_def split: option.splits if_splits prod.splits)

lemma det_loop_total:
  assumes "conf_inv False s" "set as \<subseteq> set (attached s c)" "distinct as"
    and "\<And>a x. a \<in> set as \<Longrightarrow> conf_mem s a = Some x \<Longrightarrow> has (ci_status x) CONF_CLIENT_MASK \<or> ClassPtr x = None"
  shows "\<exists>s'. det_loop c msk as s = Some s' \<and> conf_inv False s'"
  using assms
proof (induction as arbitrary: s)
  case (Cons a as)
  have "set (attached s c) \<subseteq> dom (conf_mem s)"
    using conf_invD(2)[OF Cons.prems(1)] by (simp add: att_ok_def)
  then obtain x where x: "conf_mem s a = Some x" using Cons.prems(2) by auto
  obtain s1 r where d: "detach_conf c a s = Some (s1, r)"
    using detach_conf_total[OF Cons.prems(1), of a c] Cons.prems(4)[of a] by (cases "detach_conf c a s") auto
  have i: "conf_inv False s1" by (rule detach_ok[OF Cons.prems(1) d])
  have "set as \<subseteq> set (attached s1 c)"
  proof
    fix b assume "b \<in> set as"
    then show "b \<in> set (attached s1 c)"
      using detach_conf_attached[OF Cons.prems(1) d, of b] Cons.prems(2,3) by auto
  qed
  moreover have "has (ci_status z) CONF_CLIENT_MASK \<or> ClassPtr z = None" if "b \<in> set as" "conf_mem s1 b = Some z" for b z
  proof -
    have "b \<noteq> a" "b \<in> set (attached s c)" using that(1) Cons.prems(2,3) by auto
    then have "conf_mem s b = Some z" using detach_conf_attached[OF Cons.prems(1) d, of b] that(2) by simp
    then show ?thesis using that(1) Cons.prems(4)[of b z] by simp
  qed
  moreover have "has (ci_status z) CONF_CLIENT_MASK \<or> ClassPtr z = None" if "b \<in> set as" "conf_mem s b = Some z" for b z
    using that Cons.prems(4)[of b z] by simp
  ultimately show ?case
    using x d Cons.IH[OF i] Cons.IH[OF Cons.prems(1)] Cons.prems(2,3) by auto
qed simp


text \<open>\<open>get_sendq\<close> never raises \<open>retc\<close>, so the last line of the list decides, not the highest class.\<close>

lemma get_sendq_last:
  assumes "classes_of s c \<noteq> []" "\<forall>y\<in>set (classes_of s c). BAD_CLIENT_CLASS < ClassType y"
  shows "get_sendq False s c = MaxSendq (last (classes_of s c))"
proof -
  have "foldl (\<lambda>sendq cl. if BAD_CLIENT_CLASS < ClassType cl then MaxSendq cl else sendq) q ys = MaxSendq (last ys)"
    if "ys \<noteq> []" "\<forall>y\<in>set ys. BAD_CLIENT_CLASS < ClassType y" for q ys
    using that by (induction ys arbitrary: q) auto
  then show ?thesis using assms by (simp add: get_sendq_def)
qed

lemma get_client_class_highest:
  assumes "y \<in> set (classes_of s c)"
  shows "ClassType y \<le> get_client_class False s c"
proof -
  have k: "q \<le> foldl (\<lambda>retc cl. if retc < ClassType cl then ClassType cl else retc) q ys \<and>
      (\<forall>y\<in>set ys. ClassType y \<le> foldl (\<lambda>retc cl. if retc < ClassType cl then ClassType cl else retc) q ys)"
    for q ys
  proof (induction ys arbitrary: q)
    case (Cons y ys)
    show ?case using Cons[of "if q < ClassType y then ClassType y else q"] by (auto split: if_splits)
  qed simp
  show ?thesis using assms k[of BAD_CLIENT_CLASS "classes_of s c"] by (simp add: get_client_class_def)
qed

subsection \<open>Properties\<close>

definition one_class :: conf_state where
  "one_class = initclass 7 \<lparr>class_mem = Map.empty, ClassList = [], conf_mem = Map.empty,
     ConfigItemList = [], trie_ilines = [], attached = (\<lambda>_. []), flined = []\<rparr>"

definition some_line :: "32 word \<Rightarrow> aConfItem" where
  "some_line st = \<lparr>ci_status = st, ci_flags = 0, ci_clients = 0, ci_name = None, ci_host = None, ci_user = None,
     ci_ipnum = 0, ClassPtr = None\<rparr>"

text \<open>A client attached to the only I-line.\<close>

lemma served_client:
  "\<exists>s. conf_reach False s \<and> attached s 1 = [3] \<and> (\<forall>c. c \<noteq> 1 \<longrightarrow> attached s c = []) \<and> ClassList s = [7] \<and>
     (\<exists>x. conf_mem s = [3 \<mapsto> x] \<and> has (ci_status x) CONF_CLIENT_MASK \<and> ClassPtr x = Some 7) \<and> class_mem s 7 \<noteq> None"
proof -
  let ?x = "(some_line CONF_CLIENT)\<lparr>ClassPtr := Some 7\<rparr>"
  obtain s where s: "add_conf_line 3 (some_line CONF_CLIENT) None one_class = Some s"
    and m: "conf_mem s = [3 \<mapsto> ?x]" and k: "class_mem s = class_mem one_class" "ClassList s = [7]"
    and at: "attached s = (\<lambda>_. [])" and il: "trie_ilines s = [3]"
    by (auto simp: add_conf_line_def line_class_def find_class_def one_class_def initclass_def Let_def some_line_def
        has_def CONF_CLIENT_def CONF_CLIENT_MASK_def MAXIMUM_LINKS_def)
  have r: "conf_reach True s"
    by (rule conf_reach.conf_line[OF conf_reach.start[of 7, folded one_class_def] _ _ s])
      (auto simp: one_class_def initclass_def some_line_def IsIllegal_def has_def CONF_CLIENT_def CONF_ILLEGAL_def
        CONF_CLIENT_MASK_def)
  have "check_class s = Some s"
    using k by (simp add: check_class_def one_class_def initclass_def MAXIMUM_LINKS_def)
  then have r: "conf_reach False s" by (rule conf_reach.end_of_file[OF r])
  define x where "x = ?x"
  have x: "\<not> IsIllegal x" "has (ci_status x) CONF_CLIENT" "has (ci_status x) CONF_CLIENT_MASK"
    "\<not> has (ci_status x) (CONF_LOCOP OR CONF_OPERATOR)" "ClassPtr x = Some 7"
    by (simp_all add: x_def some_line_def IsIllegal_def has_def CONF_CLIENT_def CONF_LOCOP_def
        CONF_OPERATOR_def CONF_ILLEGAL_def CONF_CLIENT_MASK_def)
  obtain y where y: "class_of s x = Some (7, y)" "Links y = 0" "MaxLinks y = 1"
    using k x(5) by (simp add: class_of_def one_class_def initclass_def MAXIMUM_LINKS_def)
  then obtain s' where a: "attach_conf 1 3 s = Some (s', 0)"
    and s': "s' = s\<lparr>attached := (attached s)(1 := 3 # attached s 1),
      conf_mem := (conf_mem s)(3 \<mapsto> x\<lparr>ci_clients := ci_clients x + 1\<rparr>),
      class_mem := (class_mem s)(7 \<mapsto> y\<lparr>Links := Links y + 1\<rparr>)\<rparr>"
    using m[folded x_def] at x by (simp add: attach_conf_def line_full_def link_conf_def Let_def)
  have "conf_reach False s'"
    by (rule conf_reach.attach[OF r _ a]) (simp add: il)
  then show ?thesis
    using s' at m x k(2) by (intro exI[of _ s']) auto
qed




text \<open>
  In every state the daemon reaches between two events no operation on the lines and
  classes reads or frees an object twice, as long as the lines that the classes do not count name no class: a client can be detached from any line or from all of them, attached to
  any line of the lists, and the file can be reread, and while it is read the sweep of the classes succeeds.
\<close>

theorem conf_memory_safe:
  assumes "conf_reach False s"
    and h: "\<And>a x. conf_mem s a = Some x \<Longrightarrow> has (ci_status x) CONF_CLIENT_MASK \<or> ClassPtr x = None"
  shows "detach_conf c a s \<noteq> None \<and> det_confs_butmask c msk s \<noteq> None \<and>
    (a' \<in> set (ConfigItemList s) \<union> set (trie_ilines s) \<longrightarrow> attach_conf c a' s \<noteq> None) \<and>
    flush_deleted_I_P s \<noteq> None \<and> (\<exists>s'. clear_out_old_conf s = Some s' \<and> check_class s' \<noteq> None)"
proof -
  note I = conf_reach_inv[OF assms(1)]
  obtain s' where s': "clear_out_old_conf s = Some s'" "conf_inv True s'"
    using clear_out_old_conf_ok[OF I] by blast
  have "distinct (attached s c)" using conf_invD(2)[OF I] by (simp add: att_ok_def)
  then have "det_confs_butmask c msk s \<noteq> None"
    using det_loop_total[OF I order.refl, of c msk] h by (auto simp: det_confs_butmask_def)
  then show ?thesis
    using detach_conf_total[OF I h] attach_conf_total[OF I, of a' c] flush_ok[OF I] s'
      check_class_ok[OF s'(2), of False] by (auto simp: lines_of_def)
qed

theorem conf_memory_safe_witness:
  "\<exists>s :: conf_state. attached s 1 = [3] \<and> detach_conf 1 3 s \<noteq> None"
proof -
  obtain s x where s: "conf_reach False s" "attached s 1 = [3]" "conf_mem s = [3 \<mapsto> x]"
    "has (ci_status x) CONF_CLIENT_MASK" using served_client by blast
  have "has (ci_status z) CONF_CLIENT_MASK \<or> ClassPtr z = None" if "conf_mem s a = Some z" for a z
    using that s(3,4) by (simp split: if_splits)
  then have "detach_conf 1 3 s \<noteq> None"
    by (rule conf_memory_safe[of s 1 3 0 3, OF s(1), THEN conjunct1])
  then show ?thesis using s(2) by blast
qed




text \<open>
  An H- or L-line may name a class, but only lines of clients, operators and servers count
  as links of their class. A server with such a line is connected, the class is taken out of the file and the file
  is reread: the class is freed because it has no links, the line stays because the server holds it, and when
  the server leaves, the daemon reads the freed class.
\<close>

theorem hub_line_dangling:
  "\<exists>s1 s2 s3 s4 s5. add_class 8 5 90 0 10 0 one_class = Some s1 \<and>
    add_conf_line 3 (some_line CONF_HUB) (Some 5) s1 = Some s2 \<and> attach_conf 1 3 s2 = Some (s3, 0) \<and>
    clear_out_old_conf s3 = Some s4 \<and> check_class s4 = Some s5 \<and>
    class_mem s5 8 = None \<and> map_option ClassPtr (conf_mem s5 3) = Some (Some 8) \<and>
    detach_conf 1 3 s5 = None \<and> det_confs_butmask 1 0 s5 = None"
  by (simp add: add_class_def find_class_def one_class_def initclass_def Let_def add_conf_line_def some_line_def
      line_class_def attach_conf_def line_full_def link_conf_def clear_out_old_conf_def check_class_def
      detach_conf_def unlink_class_def det_confs_butmask_def class_of_def IsIllegal_def has_def
      CONF_HUB_def CONF_ILLEGAL_def CONF_CLIENT_def CONF_CLIENT_MASK_def CONF_LOCOP_def CONF_OPERATOR_def
      MAXIMUM_LINKS_def)

text \<open>
  A second Y-line of a class replaces its limit, and \<open>add_class\<close> takes any number: with a negative one the sweep
  after the file frees the class, which has no links yet, although an I-line between the two Y-lines points to
  it. The first client of that I-line makes the daemon read the freed class.
\<close>

theorem negative_limit_dangling:
  "\<exists>s1 s2 s3 s4. add_class 8 5 90 0 10 0 one_class = Some s1 \<and>
    add_conf_line 3 (some_line CONF_CLIENT) (Some 5) s1 = Some s2 \<and>
    add_class 9 5 90 0 (-1) 0 s2 = Some s3 \<and> check_class s3 = Some s4 \<and>
    class_mem s4 8 = None \<and> map_option ClassPtr (conf_mem s4 3) = Some (Some 8) \<and> attach_conf 1 3 s4 = None"
  by (simp add: add_class_def find_class_def one_class_def initclass_def Let_def add_conf_line_def some_line_def
      line_class_def attach_conf_def line_full_def check_class_def class_of_def IsIllegal_def has_def
      CONF_ILLEGAL_def CONF_CLIENT_def CONF_CLIENT_MASK_def CONF_LOCOP_def CONF_OPERATOR_def MAXIMUM_LINKS_def)

end
