(* ===== verification/SvLines.thy ===== *)
theory SvLines
  imports ChanState IrcString
begin

text \<open>
  The lists of bans that hold on the whole network: hosts (\<open>src/zline.c\<close>), nicks (\<open>src/sqline.c\<close>), file names and
  messages (\<open>src/svline.c\<close>) and real names (\<open>src/sxline.c\<close>). Each is a chain of lines, the newest first; the
  handlers run on the lists beside the state of the daemon. The counterparts of one operation in the four files
  share the walk along the chain. The notices of \<open>ts_warn\<close> are not limited in their rate here, and the reports to
  operators, which only list a chain, are left out.
\<close>

subsection \<open>Data\<close>

record xline =
  xl_name :: cstr
  xl_reason :: "cstr option"
  xl_hold :: time_t

record sv_lines =
  zlines :: "xline list"
  sqlines :: "xline list"
  svlines :: "xline list"
  sxlines :: "xline list"

type_synonym sv_state = "sv_lines \<times> ircd"

text \<open>The first line of that name, and the chain without it.\<close>

definition line_named :: "cstr \<Rightarrow> xline list \<Rightarrow> xline option" where
  "line_named n ls = List.find (\<lambda>l. irccmp (xl_name l) n = 0) ls"

fun unlink_line :: "cstr \<Rightarrow> xline list \<Rightarrow> xline list" where
  "unlink_line n [] = []"
| "unlink_line n (l # ls) = (if irccmp (xl_name l) n = 0 then ls else l # unlink_line n ls)"

definition reason_text :: "cstr option \<Rightarrow> cstr" where
  "reason_text r = (case r of Some t \<Rightarrow> t | None \<Rightarrow> [])"

definition sv_need_more :: "nat \<Rightarrow> cstr list \<Rightarrow> cstr \<Rightarrow> ircd \<Rightarrow> ircd" where
  "sv_need_more sptr parv cmd d =
     send (ToOne sptr) ('':'' @ me_name (cfg d) @ '' 461 '' @ parv ! 0 @ '' '' @ cmd @ '' :Not enough parameters'') d"

definition sv_denied :: "nat \<Rightarrow> cstr list \<Rightarrow> ircd \<Rightarrow> ircd" where
  "sv_denied sptr parv d =
     send (ToOne sptr) ('':'' @ me_name (cfg d) @ '' 481 '' @ parv ! 0 @
       '' :Permission Denied- You're not an IRC operator'') d"

subsection \<open>Z-lines\<close>

text \<open>\<open>valid_hostname\<close> of \<open>src/s_user.c\<close>.\<close>

fun host_loop :: "nat \<Rightarrow> nat \<Rightarrow> cstr \<Rightarrow> (nat \<times> nat) option" where
  "host_loop dots chars [] = Some (dots, chars)"
| "host_loop dots chars (c # s) =
     (if \<not> IsHostChar c then None
      else if c = CHR ''.'' \<or> c = CHR '':'' then host_loop (Suc dots) chars s
      else host_loop dots (Suc chars) s)"

definition valid_hostname :: "cstr \<Rightarrow> bool" where
  "valid_hostname h =
     (if hd0 h = CHR ''.'' then False
      else case host_loop 0 0 h of None \<Rightarrow> False | Some (dots, chars) \<Rightarrow> \<not> (dots = 0 \<or> chars < dots))"

text \<open>The walk drops every expired line it passes and stops at the first live one of that name.\<close>

fun zline_walk :: "time_t \<Rightarrow> cstr \<Rightarrow> xline list \<Rightarrow> xline list \<times> cstr list \<times> xline option" where
  "zline_walk now host [] = ([], [], None)"
| "zline_walk now host (z # zs) =
     (if xl_hold z < now then
        (case zline_walk now host zs of (zs', gone, r) \<Rightarrow> (zs', xl_name z # gone, r))
      else if irccmp (xl_name z) host = 0 then (z # zs, [], Some z)
      else (case zline_walk now host zs of (zs', gone, r) \<Rightarrow> (z # zs', gone, r)))"

definition find_zline :: "cstr \<Rightarrow> sv_state \<Rightarrow> sv_state \<times> xline option" where
  "find_zline host s =
     (case zline_walk (CurrentTime (snd s)) host (zlines (fst s)) of (zs, gone, r) \<Rightarrow>
        (((fst s)\<lparr>zlines := zs\<rparr>,
          foldl (\<lambda>d n. send ToOps (''Z:line for '' @ n @ '' has expired'') d) (snd s) gone), r))"

text \<open>The time of a Z-line in seconds, minutes, hours or days, as a 32-bit \<open>int\<close>. When the parameter is empty
  the last character is the colon before it in the line.\<close>

definition zline_secs :: "cstr \<Rightarrow> int" where
  "zline_secs t =
     (let k = (if t = [] then 1 else if last t = CHR ''m'' then 60 else if last t = CHR ''h'' then 3600
               else if last t = CHR ''d'' then 3600 * 24 else 1) in
      sint (word_of_int (strtol t * k) :: 32 word))"

definition m_zline :: "(time_t \<Rightarrow> cstr) \<Rightarrow> nat \<Rightarrow> nat \<Rightarrow> cstr list \<Rightarrow> sv_state \<Rightarrow> sv_state" where
  "m_zline smalldate cptr sptr parv s =
     (let (ls, d) = s; c = clients d sptr in
      if \<not> (IsAnOper (clients d cptr) \<or> IsServer (clients d cptr)) then (ls, sv_denied sptr parv d)
      else if length parv < 3 then (ls, sv_need_more sptr parv ''ZLINE'' d)
      else if \<not> valid_hostname (parv ! 1) then
        (ls, send (ToOne sptr) ('':'' @ me_name (cfg d) @ '' NOTICE '' @ c_name c @
               '' :*** Notice -- Invalid hostname for zline'') d)
      else
        (let ((ls1, d1), r) = find_zline (parv ! 1) s in
         case r of
           Some _ \<Rightarrow>
             (ls1, if MyClient c then send (ToOne sptr) ('':'' @ me_name (cfg d) @ '' NOTICE '' @ c_name c @
                     '' :*** Cannot add Z:Line - Host already exists!'') d1 else d1)
         | None \<Rightarrow>
             (let secs = zline_secs (parv ! 2);
                  z = \<lparr>xl_name = parv ! 1,
                       xl_reason = (if 3 < length parv \<and> parv ! 3 \<noteq> [] then Some (parv ! 3) else None),
                       xl_hold = CurrentTime d + secs\<rparr>;
                  d2 = (if IsPerson c then
                          send ToOps (c_name c @ ''!'' @ c_username c @ ''@'' @ c_realhost c @ '' on '' @ u_server c @
                            '' added zline for '' @ [chr 2] @ ''['' @ [chr 2] @ xl_name z @ [chr 2] @ '']'' @ [chr 2] @
                            '' '' @ [chr 2] @ ''['' @ [chr 2] @
                            (case xl_reason z of Some t \<Rightarrow> t | None \<Rightarrow> ''no reason'') @ [chr 2] @ '']'' @ [chr 2] @
                            '' expiring on '' @ smalldate (xl_hold z)) d1
                        else d1) in
              (ls1\<lparr>zlines := z # zlines ls1\<rparr>,
               send ToServers ('':'' @ parv ! 0 @ '' ZLINE '' @ parv ! 1 @ '' '' @ dec secs @ '' :'' @
                 (if 3 < length parv then parv ! 3 else [])) d2))))"

definition m_unzline :: "nat \<Rightarrow> nat \<Rightarrow> cstr list \<Rightarrow> sv_state \<Rightarrow> sv_state" where
  "m_unzline cptr sptr parv s =
     (let (ls, d) = s; c = clients d sptr in
      if \<not> (IsAnOper (clients d cptr) \<or> IsServer (clients d cptr)) then (ls, sv_denied sptr parv d)
      else if length parv < 2 then (ls, sv_need_more sptr parv ''UNZLINE'' d)
      else case line_named (parv ! 1) (zlines ls) of
        None \<Rightarrow> (ls, if MyClient c then send (ToOne sptr) ('':'' @ me_name (cfg d) @ '' NOTICE '' @ parv ! 0 @
                       '' :Z-Line was not found'') d else d)
      | Some _ \<Rightarrow>
          (let d1 = (if IsClient c then
                       send ToOps (c_name c @ ''!'' @ c_username c @ ''@'' @ c_host c @ '' on '' @ u_server c @
                         '' removed zline for '' @ [chr 2] @ ''['' @ [chr 2] @ parv ! 1 @ [chr 2] @ '']'' @ [chr 2]) d
                     else d) in
           (ls\<lparr>zlines := unlink_line (parv ! 1) (zlines ls)\<rparr>,
            send ToServers ('':'' @ parv ! 0 @ '' UNZLINE '' @ parv ! 1) d1)))"

definition send_all_zlines :: "nat \<Rightarrow> sv_state \<Rightarrow> ircd" where
  "send_all_zlines acptr s =
     foldl (\<lambda>d z. if 0 < xl_hold z - CurrentTime d then
         send (ToOne acptr) ('':'' @ me_name (cfg d) @ '' ZLINE '' @ xl_name z @ '' '' @
           dec (xl_hold z - CurrentTime d) @ '' :'' @ reason_text (xl_reason z)) d else d) (snd s) (zlines (fst s))"

subsection \<open>SQ-lines\<close>

definition find_sqline :: "cstr \<Rightarrow> sv_lines \<Rightarrow> xline option" where
  "find_sqline n ls = List.find (\<lambda>l. match (xl_name l) n) (sqlines ls)"

definition sq_ignored :: "cstr \<Rightarrow> nat \<Rightarrow> nat \<Rightarrow> ircd \<Rightarrow> ircd" where
  "sq_ignored cmd cptr sptr d =
     (if IsServer (clients d cptr) then
        send (ToOne cptr) ('':'' @ me_name (cfg d) @ '' WALLOPS :ignoring '' @ cmd @ '' from non-service/server '' @
            c_name (clients d sptr))
          (send ToOps (''Got '' @ cmd @ '' from non-service/server: '' @ c_name (clients d sptr)) d)
      else d)"

definition from_services :: "nat \<Rightarrow> ircd \<Rightarrow> bool" where
  "from_services sptr d \<longleftrightarrow> IsServer (clients d sptr) \<or> IsService (clients d sptr)"

definition m_sqline :: "nat \<Rightarrow> nat \<Rightarrow> cstr list \<Rightarrow> sv_state \<Rightarrow> sv_state" where
  "m_sqline cptr sptr parv s =
     (let (ls, d) = s in
      if \<not> from_services sptr d then (ls, sq_ignored ''SQLINE'' cptr sptr d)
      else if length parv < 2 then (ls, sv_need_more sptr parv ''SQLINE'' d)
      else if find_sqline (parv ! 1) ls \<noteq> None then (ls, d)
      else
        (ls\<lparr>sqlines := \<lparr>xl_name = parv ! 1,
             xl_reason = (if 2 < length parv \<and> parv ! 2 \<noteq> [] then Some (parv ! 2) else None), xl_hold = 0\<rparr> # sqlines ls\<rparr>,
         send ToServers ('':'' @ parv ! 0 @ '' SQLINE '' @ parv ! 1 @ '' :'' @
           (if 2 < length parv then parv ! 2 else [])) d))"

definition m_unsqline :: "nat \<Rightarrow> nat \<Rightarrow> cstr list \<Rightarrow> sv_state \<Rightarrow> sv_state" where
  "m_unsqline cptr sptr parv s =
     (let (ls, d) = s in
      if \<not> from_services sptr d then (ls, sq_ignored ''UNSQLINE'' cptr sptr d)
      else if length parv < 2 then s
      else (ls\<lparr>sqlines := unlink_line (parv ! 1) (sqlines ls)\<rparr>,
            send ToServers ('':'' @ parv ! 0 @ '' UNSQLINE '' @ parv ! 1) d))"

definition send_all_sqlines :: "nat \<Rightarrow> sv_state \<Rightarrow> ircd" where
  "send_all_sqlines acptr s =
     foldl (\<lambda>d l. send (ToOne acptr) ('':'' @ me_name (cfg d) @ '' SQLINE '' @ xl_name l @ '' :'' @
       reason_text (xl_reason l)) d) (snd s) (sqlines (fst s))"

definition clear_sqlines :: "sv_lines \<Rightarrow> sv_lines" where
  "clear_sqlines ls = ls\<lparr>sqlines := []\<rparr>"

subsection \<open>SV-lines\<close>

definition find_svline :: "cstr \<Rightarrow> sv_lines \<Rightarrow> xline option" where
  "find_svline n ls = line_named n (svlines ls)"

text \<open>A name that starts with an exclamation mark or a slash is for messages, any other for files.\<close>

definition is_svlined :: "cstr \<Rightarrow> sv_lines \<Rightarrow> xline option" where
  "is_svlined n ls = List.find (\<lambda>l. hd0 (xl_name l) \<noteq> CHR ''!'' \<and> hd0 (xl_name l) \<noteq> CHR ''/'' \<and> match (xl_name l) n)
     (svlines ls)"

definition is_msgvlined :: "cstr \<Rightarrow> sv_lines \<Rightarrow> xline option" where
  "is_msgvlined msg ls = List.find (\<lambda>l. hd0 (xl_name l) = CHR ''!'' \<and> strstr msg (tl (xl_name l)) \<or>
     hd0 (xl_name l) = CHR ''/'' \<and> match (tl (xl_name l)) msg) (svlines ls)"

definition sv_allowed :: "nat \<Rightarrow> nat \<Rightarrow> ircd \<Rightarrow> bool" where
  "sv_allowed cptr sptr d \<longleftrightarrow> IsService (clients d sptr) \<or> IsServer (clients d cptr)"

definition m_svline :: "nat \<Rightarrow> nat \<Rightarrow> cstr list \<Rightarrow> sv_state \<Rightarrow> sv_state" where
  "m_svline cptr sptr parv s =
     (let (ls, d) = s in
      if \<not> sv_allowed cptr sptr d then (ls, sv_denied sptr parv d)
      else if length parv < 2 then (ls, sv_need_more sptr parv ''SVLINE'' d)
      else
        (let reason = (if 2 < length parv then parv ! 2 else []); n = strip_control_codes_lower (parv ! 1) in
         if find_svline n ls \<noteq> None then (ls, d)
         else (ls\<lparr>svlines := \<lparr>xl_name = n, xl_reason = Some reason, xl_hold = 0\<rparr> # svlines ls\<rparr>,
               send ToServers ('':'' @ parv ! 0 @ '' SVLINE '' @ n @ '' :'' @ reason) d)))"

definition m_unsvline :: "nat \<Rightarrow> nat \<Rightarrow> cstr list \<Rightarrow> sv_state \<Rightarrow> sv_state" where
  "m_unsvline cptr sptr parv s =
     (let (ls, d) = s in
      if \<not> sv_allowed cptr sptr d then (ls, sv_denied sptr parv d)
      else if length parv < 2 then (ls, sv_need_more sptr parv ''UNSVLINE'' d)
      else if line_named (parv ! 1) (svlines ls) = None then s
      else (ls\<lparr>svlines := unlink_line (parv ! 1) (svlines ls)\<rparr>,
            send ToServers ('':'' @ parv ! 0 @ '' UNSVLINE '' @ parv ! 1) d))"

definition send_all_svlines :: "nat \<Rightarrow> sv_state \<Rightarrow> ircd" where
  "send_all_svlines acptr s =
     foldl (\<lambda>d l. send (ToOne acptr) ('':'' @ me_name (cfg d) @ '' SVLINE '' @ xl_name l @ '' :'' @
       reason_text (xl_reason l)) d) (snd s) (svlines (fst s))"

definition clear_svlines :: "sv_lines \<Rightarrow> sv_lines" where
  "clear_svlines ls = ls\<lparr>svlines := []\<rparr>"

subsection \<open>SX-lines\<close>

definition find_sxline :: "cstr \<Rightarrow> sv_lines \<Rightarrow> xline option" where
  "find_sxline n ls = line_named n (sxlines ls)"

definition is_sxlined :: "cstr \<Rightarrow> sv_lines \<Rightarrow> xline option" where
  "is_sxlined n ls = List.find (\<lambda>l. match (xl_name l) n) (sxlines ls)"

text \<open>The mask may hold blanks and colons, so its length comes first. A negative length is a large one after the
  conversion to \<open>size_t\<close>.\<close>

definition m_sxline :: "nat \<Rightarrow> nat \<Rightarrow> cstr list \<Rightarrow> sv_state \<Rightarrow> sv_state" where
  "m_sxline cptr sptr parv s =
     (let (ls, d) = s in
      if \<not> sv_allowed cptr sptr d then (ls, sv_denied sptr parv d)
      else if length parv < 3 then (ls, sv_need_more sptr parv ''SXLINE'' d)
      else
        (let n = atoi (parv ! 1); len = nat n; m = parv ! 2 in
         if \<not> (0 \<le> n \<and> len < length m \<and> m ! len = CHR '':'') then s
         else if find_sxline (take len m) ls \<noteq> None then (ls, d)
         else (ls\<lparr>sxlines := \<lparr>xl_name = take len m, xl_reason = Some (drop (Suc len) m), xl_hold = 0\<rparr> # sxlines ls\<rparr>,
               send ToServers ('':'' @ c_name (clients d sptr) @ '' SXLINE '' @ dec n @ '' :'' @ take len m @ '':'' @
                 drop (Suc len) m) d)))"

definition m_unsxline :: "nat \<Rightarrow> nat \<Rightarrow> cstr list \<Rightarrow> sv_state \<Rightarrow> sv_state" where
  "m_unsxline cptr sptr parv s =
     (let (ls, d) = s in
      if \<not> sv_allowed cptr sptr d then (ls, sv_denied sptr parv d)
      else if length parv < 2 then (ls, sv_need_more sptr parv ''UNSXLINE'' d)
      else if line_named (parv ! 1) (sxlines ls) = None then s
      else (ls\<lparr>sxlines := unlink_line (parv ! 1) (sxlines ls)\<rparr>,
            send ToServers ('':'' @ parv ! 0 @ '' UNSXLINE :'' @ parv ! 1) d))"

definition send_all_sxlines :: "nat \<Rightarrow> sv_state \<Rightarrow> ircd" where
  "send_all_sxlines acptr s =
     foldl (\<lambda>d l. send (ToOne acptr) ('':'' @ me_name (cfg d) @ '' SXLINE '' @ dec (int (length (xl_name l))) @ '' :'' @
       xl_name l @ '':'' @ reason_text (xl_reason l)) d) (snd s) (sxlines (fst s))"

definition clear_sxlines :: "sv_lines \<Rightarrow> sv_lines" where
  "clear_sxlines ls = ls\<lparr>sxlines := []\<rparr>"

subsection \<open>Names in a list\<close>

definition keys :: "xline list \<Rightarrow> cstr list" where
  "keys ls = map (\<lambda>l. irc_upper (xl_name l)) ls"

lemma line_named_None: "line_named n ls = None \<longleftrightarrow> irc_upper n \<notin> set (keys ls)"
  by (auto simp: line_named_def keys_def find_None_iff irc_eq_iff image_iff)

lemma unlink_line_absent: "irc_upper n \<notin> set (keys ls) \<Longrightarrow> unlink_line n ls = ls"
  by (induction ls) (auto simp: keys_def irc_eq_iff)

lemma keys_unlink: "distinct (keys ls) \<Longrightarrow> keys (unlink_line n ls) = remove1 (irc_upper n) (keys ls)"
  by (induction ls) (auto simp: keys_def irc_eq_iff)

lemma zline_walk_None:
  "zline_walk now h zs = (zs', gone, None) \<Longrightarrow>
     zs' = filter (\<lambda>z. now \<le> xl_hold z) zs \<and> irc_upper h \<notin> set (keys zs')"
  by (induction zs arbitrary: zs' gone) (auto simp: keys_def irc_eq_iff split: if_splits prod.splits)

lemma zline_walk_keys:
  "zline_walk now h zs = (zs', gone, r) \<Longrightarrow> distinct (keys zs) \<Longrightarrow>
     distinct (keys zs') \<and> set (keys zs') \<subseteq> set (keys zs) \<and> set zs' \<subseteq> set zs"
proof (induction zs arbitrary: zs' gone r)
  case (Cons z zs)
  obtain ws g q where w: "zline_walk now h zs = (ws, g, q)" by (metis surj_pair)
  have "distinct (keys ws) \<and> set (keys ws) \<subseteq> set (keys zs) \<and> set ws \<subseteq> set zs"
    using Cons.IH[of ws g q] Cons.prems w by (auto simp: keys_def split: if_splits)
  then show ?case
    using Cons.prems w by (auto simp: keys_def split: if_splits)
qed simp

lemma zline_walk_Some:
  "zline_walk now h zs = (zs', gone, Some z) \<Longrightarrow> z \<in> set zs' \<and> now \<le> xl_hold z \<and> irc_eq (xl_name z) h"
  by (induction zs arbitrary: zs' gone) (auto split: if_splits prod.splits)

lemma foldl_send_state:
  "clients (foldl (\<lambda>d n. send t (f n) d) d ns) = clients d \<and> cfg (foldl (\<lambda>d n. send t (f n) d) d ns) = cfg d \<and>
   CurrentTime (foldl (\<lambda>d n. send t (f n) d) d ns) = CurrentTime d"
  by (induction ns arbitrary: d) auto

lemma find_zline_parts:
  assumes "find_zline h (ls, d) = ((ls', d'), r)"
  obtains gone where "zline_walk (CurrentTime d) h (zlines ls) = (zlines ls', gone, r)"
    "ls' = ls\<lparr>zlines := zlines ls'\<rparr>" "clients d' = clients d" "cfg d' = cfg d" "CurrentTime d' = CurrentTime d"
proof -
  obtain zs gone q where w: "zline_walk (CurrentTime d) h (zlines ls) = (zs, gone, q)" by (metis surj_pair)
  then show thesis
    using assms foldl_send_state[of ToOps "\<lambda>n. ''Z:line for '' @ n @ '' has expired''" d gone]
    by (intro that[of gone]) (auto simp: find_zline_def)
qed

subsection \<open>Every name once\<close>

definition sv_inv :: "sv_lines \<Rightarrow> bool" where
  "sv_inv ls \<longleftrightarrow> distinct (keys (zlines ls)) \<and> distinct (keys (svlines ls)) \<and> distinct (keys (sxlines ls)) \<and>
     (\<forall>z\<in>set (zlines ls). valid_hostname (xl_name z))"

datatype sv_cmd = ZLINE | UNZLINE | SQLINE | UNSQLINE | SVLINE | UNSVLINE | SXLINE | UNSXLINE

fun sv_do :: "(time_t \<Rightarrow> cstr) \<Rightarrow> sv_cmd \<times> nat \<times> nat \<times> cstr list \<Rightarrow> sv_state \<Rightarrow> sv_state" where
  "sv_do sd (ZLINE, c, p, v) s = m_zline sd c p v s"
| "sv_do sd (UNZLINE, c, p, v) s = m_unzline c p v s"
| "sv_do sd (SQLINE, c, p, v) s = m_sqline c p v s"
| "sv_do sd (UNSQLINE, c, p, v) s = m_unsqline c p v s"
| "sv_do sd (SVLINE, c, p, v) s = m_svline c p v s"
| "sv_do sd (UNSVLINE, c, p, v) s = m_unsvline c p v s"
| "sv_do sd (SXLINE, c, p, v) s = m_sxline c p v s"
| "sv_do sd (UNSXLINE, c, p, v) s = m_unsxline c p v s"

lemma unlink_sub: "set (unlink_line n ls) \<subseteq> set ls"
  by (induction ls) auto

lemma zline_inv:
  assumes "sv_inv ls"
  shows "sv_inv (fst (m_zline sd c p v (ls, d)))"
proof -
  obtain ls' d' r where f: "find_zline (v ! 1) (ls, d) = ((ls', d'), r)" by (metis surj_pair)
  then obtain gone where w: "zline_walk (CurrentTime d) (v ! 1) (zlines ls) = (zlines ls', gone, r)"
    and ls': "ls' = ls\<lparr>zlines := zlines ls'\<rparr>" using find_zline_parts by blast
  have eq: "svlines ls' = svlines ls" "sxlines ls' = sxlines ls" by (subst ls', simp)+
  have "sv_inv ls'"
    using zline_walk_keys[OF w] assms eq by (auto simp: sv_inv_def)
  moreover have "r = None \<Longrightarrow> irc_upper (v ! 1) \<notin> set (keys (zlines ls'))"
    using zline_walk_None w by blast
  ultimately show ?thesis
    using assms f by (auto simp: m_zline_def Let_def sv_inv_def keys_def split: option.splits)
qed

lemma sv_do_inv:
  assumes "sv_inv (fst s)"
  shows "sv_inv (fst (sv_do sd e s))"
proof -
  obtain ls d where s: "s = (ls, d)" by (cases s)
  obtain k c p v where e: "e = (k, c, p, v)" by (metis surj_pair)
  have un: "distinct (keys (unlink_line n ls'))" if "distinct (keys ls')" for n ls'
    using keys_unlink[OF that, of n] that by simp
  have sx: "sv_inv (fst (m_sxline c p v (ls, d)))"
    using assms line_named_None s
    by (auto simp: m_sxline_def Let_def sv_inv_def keys_def find_sxline_def)
  show ?thesis
  proof (cases k)
    case UNZLINE
    then show ?thesis using assms un unlink_sub[of "v ! 1" "zlines ls"]
      by (auto simp: s e m_unzline_def Let_def sv_inv_def split: option.splits)
  next
    case SVLINE
    then show ?thesis using assms line_named_None
      by (auto simp: s e m_svline_def Let_def sv_inv_def keys_def find_svline_def)
  qed (use assms un sx zline_inv s in \<open>auto simp: e m_sqline_def m_unsqline_def m_unsvline_def m_unsxline_def
        Let_def sv_inv_def\<close>)
qed

lemma sv_run_inv: "sv_inv (fst s) \<Longrightarrow> sv_inv (fst (fold (sv_do sd) es s))"
proof (induction es arbitrary: s)
  case (Cons e es)
  then show ?case using sv_do_inv[OF Cons.prems] by simp
qed simp

subsection \<open>The burst to a new server\<close>

text \<open>The parameters of the line sent for an SX-line and for a Z-line, and what the other side stores.\<close>

definition sx_params :: "ircd \<Rightarrow> xline \<Rightarrow> cstr list" where
  "sx_params d l = [me_name (cfg d), dec (int (length (xl_name l))), xl_name l @ '':'' @ reason_text (xl_reason l)]"

definition z_params :: "ircd \<Rightarrow> xline \<Rightarrow> cstr list" where
  "z_params d z = [me_name (cfg d), xl_name z, dec (xl_hold z - CurrentTime d), reason_text (xl_reason z)]"

definition sx_stored :: "xline \<Rightarrow> xline" where
  "sx_stored l = \<lparr>xl_name = xl_name l, xl_reason = Some (reason_text (xl_reason l)), xl_hold = 0\<rparr>"

definition z_stored :: "xline \<Rightarrow> xline" where
  "z_stored z = z\<lparr>xl_reason := (if reason_text (xl_reason z) = [] then None else xl_reason z)\<rparr>"

lemma send_all_sent:
  "sent (foldl (\<lambda>d l. send (ToOne a) (f (cfg d) l) d) d ls) = sent d @ map (\<lambda>l. (ToOne a, f (cfg d) l)) ls"
  by (induction ls arbitrary: d) auto

lemma send_all_zlines_sent:
  "sent (send_all_zlines a (ls, d)) = sent d @ map (\<lambda>z. (ToOne a, '':'' @ z_params d z ! 0 @ '' ZLINE '' @
     z_params d z ! 1 @ '' '' @ z_params d z ! 2 @ '' :'' @ z_params d z ! 3))
     (filter (\<lambda>z. 0 < xl_hold z - CurrentTime d) (zlines ls))"
proof -
  have "sent (foldl (\<lambda>d z. if 0 < xl_hold z - CurrentTime d then send (ToOne a) ('':'' @ me_name (cfg d) @ '' ZLINE '' @
       xl_name z @ '' '' @ dec (xl_hold z - CurrentTime d) @ '' :'' @ reason_text (xl_reason z)) d else d) e zs) =
     sent e @ map (\<lambda>z. (ToOne a, '':'' @ z_params e z ! 0 @ '' ZLINE '' @
       z_params e z ! 1 @ '' '' @ z_params e z ! 2 @ '' :'' @ z_params e z ! 3))
       (filter (\<lambda>z. 0 < xl_hold z - CurrentTime e) zs)" for e zs
    by (induction zs arbitrary: e) (auto simp: z_params_def)
  then show ?thesis by (simp add: send_all_zlines_def)
qed

lemma sx_received:
  assumes "IsServer (clients d c)" "distinct (keys ls)" "\<forall>l\<in>set ls. length (xl_name l) < 2 ^ 31"
    "set (keys ls) \<inter> set (keys (sxlines r)) = {}"
  shows "sxlines (fst (fold (\<lambda>l. m_sxline c p (sx_params e l)) ls (r, d))) = rev (map sx_stored ls) @ sxlines r"
  using assms
proof (induction ls arbitrary: r d)
  case (Cons l ls)
  let ?n = "int (length (xl_name l))"
  have "int (length (xl_name l)) < 2 ^ 31" using Cons.prems(3) by (simp flip: of_nat_less_iff)
  then have a: "atoi (dec ?n) = ?n" by (intro atoi_dec) auto
  have f: "line_named (xl_name l) (sxlines r) = None"
    using Cons.prems(4) by (auto simp: line_named_None keys_def)
  obtain d' where st: "m_sxline c p (sx_params e l) (r, d) = (r\<lparr>sxlines := sx_stored l # sxlines r\<rparr>, d')"
    and d': "clients d' = clients d"
    using a f Cons.prems(1)
    by (auto simp: m_sxline_def sx_params_def sx_stored_def sv_allowed_def find_sxline_def Let_def)
  have "set (keys ls) \<inter> set (keys (sx_stored l # sxlines r)) = {}"
    using Cons.prems(2,4) by (auto simp: keys_def sx_stored_def)
  then show ?case
    using Cons.IH[of d' "r\<lparr>sxlines := sx_stored l # sxlines r\<rparr>"] Cons.prems st d' by (simp add: keys_def)
qed simp

lemma zline_secs_dec:
  assumes "0 \<le> i" "i < 2 ^ 31"
  shows "zline_secs (dec i) = i"
proof -
  have d: "dec i = dec_nat (nat i)" using assms(1) by (simp add: dec_def)
  then have "is_digit (last (dec i))" using dec_nat_digits last_in_set dec_nat_not_Nil by metis
  then have "last (dec i) \<noteq> CHR ''m'' \<and> last (dec i) \<noteq> CHR ''h'' \<and> last (dec i) \<noteq> CHR ''d''"
    by (auto simp: is_digit_def)
  moreover have "dec i \<noteq> []" using d by simp
  ultimately have "zline_secs (dec i) = atoi (dec i)" by (simp add: zline_secs_def atoi_def)
  then show ?thesis using atoi_dec[of i] assms by simp
qed

lemma zline_walk_live:
  assumes "\<forall>z\<in>set zs. now < xl_hold z" "irc_upper h \<notin> set (keys zs)"
  shows "zline_walk now h zs = (zs, [], None)"
  using assms by (induction zs) (auto simp: keys_def irc_eq_iff)

lemma z_received:
  assumes "IsServer (clients d c)" "distinct (keys zs)" "CurrentTime d = CurrentTime e"
    "\<forall>z\<in>set zs. CurrentTime e < xl_hold z \<and> xl_hold z - CurrentTime e < 2 ^ 31 \<and> valid_hostname (xl_name z)"
    "set (keys zs) \<inter> set (keys (zlines r)) = {}" "\<forall>z\<in>set (zlines r). CurrentTime e < xl_hold z"
  shows "zlines (fst (fold (\<lambda>z. m_zline sd c p (z_params e z)) zs (r, d))) = rev (map z_stored zs) @ zlines r"
  using assms
proof (induction zs arbitrary: r d)
  case (Cons z zs)
  have n: "CurrentTime d < xl_hold z" "xl_hold z - CurrentTime d < 2 ^ 31" "valid_hostname (xl_name z)"
    using Cons.prems by auto
  have w: "zline_walk (CurrentTime d) (xl_name z) (zlines r) = (zlines r, [], None)"
    using Cons.prems by (intro zline_walk_live) (auto simp: keys_def)
  then have f: "find_zline (xl_name z) (r, d) = ((r, d), None)" by (simp add: find_zline_def)
  have sec: "zline_secs (dec (xl_hold z - CurrentTime e)) = xl_hold z - CurrentTime e"
    using n Cons.prems(3) by (intro zline_secs_dec) auto
  obtain d' where st: "m_zline sd c p (z_params e z) (r, d) = (r\<lparr>zlines := z_stored z # zlines r\<rparr>, d')"
    and d': "clients d' = clients d" "CurrentTime d' = CurrentTime d"
    using f n sec Cons.prems(1,3)
    by (auto simp: m_zline_def z_params_def z_stored_def reason_text_def Let_def split: option.splits)
  have "set (keys zs) \<inter> set (keys (z_stored z # zlines r)) = {}"
    using Cons.prems(2,5) by (auto simp: keys_def z_stored_def)
  moreover have "\<forall>y\<in>set (z_stored z # zlines r). CurrentTime e < xl_hold y"
    using Cons.prems(4,6) by (auto simp: z_stored_def)
  ultimately show ?case
    using Cons.IH[of d' "r\<lparr>zlines := z_stored z # zlines r\<rparr>"] Cons.prems st d' by (simp add: keys_def)
qed simp

subsection \<open>Properties\<close>

definition demo_irc :: ircd where
  "demo_irc = \<lparr>clients = (\<lambda>_. (plain_user ''s'' ''u'' ''h'')\<lparr>c_status := STAT_SERVER\<rparr>), chans = undefined, channel = [],
     chan_table = undefined, count_chan = 0, CurrentTime = 1000, cfg = plain_config, sent = []\<rparr>"

definition no_lines :: sv_lines where
  "no_lines = \<lparr>zlines = [], sqlines = [], svlines = [], sxlines = []\<rparr>"

text \<open>
  C34. Whatever ZLINE, SQLINE, SVLINE, SXLINE and their opposites arrive, from whomever and in
  whatever order, the lists of Z-, SV- and SX-lines never hold a name twice (up to case), and every Z-line is for
  a valid host name. So one removal is enough: after an UNZLINE that comes from an operator's or a server's connection, and
  after an UNSVLINE or UNSXLINE from a service or over a server's connection, no line of that name is left, and all others
  are still there in their order. From anybody else these commands change nothing.
\<close>

theorem server_lines_unique:
  assumes "sv_inv ls0"
  shows "sv_inv (fst (fold (sv_do sd) es (ls0, d0))) \<and>
    (fold (sv_do sd) es (ls0, d0) = (ls, d) \<and> 2 \<le> length v \<longrightarrow>
      (if IsAnOper (clients d c) \<or> IsServer (clients d c)
       then keys (zlines (fst (m_unzline c p v (ls, d)))) = removeAll (irc_upper (v ! 1)) (keys (zlines ls))
       else fst (m_unzline c p v (ls, d)) = ls) \<and>
      (if IsService (clients d p) \<or> IsServer (clients d c)
       then keys (svlines (fst (m_unsvline c p v (ls, d)))) = removeAll (irc_upper (v ! 1)) (keys (svlines ls)) \<and>
         keys (sxlines (fst (m_unsxline c p v (ls, d)))) = removeAll (irc_upper (v ! 1)) (keys (sxlines ls))
       else fst (m_unsvline c p v (ls, d)) = ls \<and> fst (m_unsxline c p v (ls, d)) = ls))"
proof -
  have i: "sv_inv (fst (fold (sv_do sd) es (ls0, d0)))" using sv_run_inv[of "(ls0, d0)"] assms by simp
  have gone: "keys (unlink_line n zs) = removeAll (irc_upper n) (keys zs)" if "distinct (keys zs)" for n zs
    using that by (simp add: keys_unlink distinct_remove1_removeAll)
  have none: "removeAll (irc_upper n) (keys zs) = keys zs" if "line_named n zs = None" for n zs
    using that by (simp add: line_named_None)
  show ?thesis
  proof (intro conjI impI i, goal_cases)
    case 1
    then have "distinct (keys (zlines ls))" using i by (auto simp: sv_inv_def)
    with 1 gone none show ?case by (auto simp: m_unzline_def Let_def split: option.split)
  next
    case 2
    then have "distinct (keys (svlines ls))" "distinct (keys (sxlines ls))" using i by (auto simp: sv_inv_def)
    with 2 gone none show ?case by (auto simp: m_unsvline_def m_unsxline_def sv_allowed_def Let_def)
  qed
qed

text \<open>An operator takes a Z-line away.\<close>

theorem server_lines_unique_witness:
  "let ls = no_lines\<lparr>zlines := [\<lparr>xl_name = ''a.pt'', xl_reason = None, xl_hold = 2000\<rparr>]\<rparr>;
       d = demo_irc\<lparr>clients := (\<lambda>_. (plain_user ''op'' ''u'' ''h'')\<lparr>c_umodes := UMODE_OPER\<rparr>)\<rparr> in
   sv_inv ls \<and> keys (zlines (fst (m_unzline 1 1 [''op'', ''A.PT''] (ls, d)))) = []"
proof -
  let ?ls = "no_lines\<lparr>zlines := [\<lparr>xl_name = ''a.pt'', xl_reason = None, xl_hold = 2000\<rparr>]\<rparr>"
  let ?d = "demo_irc\<lparr>clients := (\<lambda>_. (plain_user ''op'' ''u'' ''h'')\<lparr>c_umodes := UMODE_OPER\<rparr>)\<rparr>"
  have "valid_hostname ''a.pt''" by code_simp
  then have i: "sv_inv ?ls" by (simp add: sv_inv_def keys_def no_lines_def)
  have "irccmp ''A.PT'' ''a.pt'' = 0" by code_simp
  then have "irc_upper ''A.PT'' = irc_upper ''a.pt''" by (simp add: irc_eq_iff)
  moreover have "IsAnOper (clients ?d 1)" by (simp add: IsAnOper_def has_def UMODE_OPER_def UMODE_LOCOP_def)
  moreover note server_lines_unique[OF i, of "\<lambda>_. []" "[]" ?d ?ls ?d "[''op'', ''A.PT'']" 1 1]
  ultimately show ?thesis using i by (simp add: keys_def no_lines_def)
qed

text \<open>
  C35. What a server tells a new neighbour about its Z- and SX-lines is understood: each line it
  sends is built from the parameters below, and a server with empty lists that gets these parameters from it,
  in the same second, ends up with the same lines in the opposite order: the same names, reasons and times of
  expiry, without the Z-lines that have expired. Masks with blanks and colons included.
\<close>

theorem server_lines_burst:
  assumes "IsServer (clients d c)" "CurrentTime d = CurrentTime e" "sxlines r = []" "zlines r = []"
    and "distinct (keys (sxlines ls))" "\<forall>l\<in>set (sxlines ls). length (xl_name l) < 2 ^ 31"
    and "distinct (keys (zlines ls))" "\<forall>z\<in>set (zlines ls). xl_hold z - CurrentTime e < 2 ^ 31 \<and> valid_hostname (xl_name z)"
  shows "sent (send_all_sxlines a (ls, e)) = sent e @ map (\<lambda>l. (ToOne a, '':'' @ sx_params e l ! 0 @ '' SXLINE '' @
      sx_params e l ! 1 @ '' :'' @ sx_params e l ! 2)) (sxlines ls) \<and>
    sxlines (fst (fold (\<lambda>l. m_sxline c p (sx_params e l)) (sxlines ls) (r, d))) = rev (map sx_stored (sxlines ls)) \<and>
    sent (send_all_zlines a (ls, e)) = sent e @ map (\<lambda>z. (ToOne a, '':'' @ z_params e z ! 0 @ '' ZLINE '' @
      z_params e z ! 1 @ '' '' @ z_params e z ! 2 @ '' :'' @ z_params e z ! 3))
      (filter (\<lambda>z. 0 < xl_hold z - CurrentTime e) (zlines ls)) \<and>
    zlines (fst (fold (\<lambda>z. m_zline sd c p (z_params e z))
      (filter (\<lambda>z. 0 < xl_hold z - CurrentTime e) (zlines ls)) (r, d))) =
    rev (map z_stored (filter (\<lambda>z. 0 < xl_hold z - CurrentTime e) (zlines ls)))"
proof -
  let ?zs = "filter (\<lambda>z. 0 < xl_hold z - CurrentTime e) (zlines ls)"
  have "distinct (keys ?zs)" using assms(7) by (simp add: keys_def distinct_map_filter)
  then have "zlines (fst (fold (\<lambda>z. m_zline sd c p (z_params e z)) ?zs (r, d))) = rev (map z_stored ?zs)"
  proof -
    assume k: "distinct (keys ?zs)"
    have l: "\<forall>z\<in>set ?zs. CurrentTime e < xl_hold z \<and> xl_hold z - CurrentTime e < 2 ^ 31 \<and> valid_hostname (xl_name z)"
      using assms(8) by simp
    have n: "set (keys ?zs) \<inter> set (keys (zlines r)) = {}" "\<forall>z\<in>set (zlines r). CurrentTime e < xl_hold z"
      using assms(4) by (simp_all add: keys_def)
    show ?thesis using z_received[OF assms(1) k assms(2) l n] assms(4) by simp
  qed
  moreover have "sxlines (fst (fold (\<lambda>l. m_sxline c p (sx_params e l)) (sxlines ls) (r, d))) =
      rev (map sx_stored (sxlines ls))"
    using sx_received[of d c "sxlines ls" r p e] assms by (simp add: keys_def)
  moreover have "sent (send_all_sxlines a (ls, e)) = sent e @ map (\<lambda>l. (ToOne a, '':'' @ sx_params e l ! 0 @ '' SXLINE '' @
      sx_params e l ! 1 @ '' :'' @ sx_params e l ! 2)) (sxlines ls)"
    using send_all_sent[of a "\<lambda>cf l. '':'' @ me_name cf @ '' SXLINE '' @ dec (int (length (xl_name l))) @ '' :'' @
       xl_name l @ '':'' @ reason_text (xl_reason l)" e "sxlines ls"]
    by (simp add: send_all_sxlines_def sx_params_def)
  ultimately show ?thesis using send_all_zlines_sent by simp
qed

theorem server_lines_burst_witness:
  "sxlines (fst (fold (\<lambda>l. m_sxline 1 1 (sx_params demo_irc l))
     [\<lparr>xl_name = ''a b:c'', xl_reason = Some ''x'', xl_hold = 0\<rparr>] (no_lines, demo_irc))) =
   [\<lparr>xl_name = ''a b:c'', xl_reason = Some ''x'', xl_hold = 0\<rparr>]"
proof -
  let ?l = "\<lparr>xl_name = ''a b:c'', xl_reason = Some ''x'', xl_hold = 0\<rparr>"
  have "IsServer (clients demo_irc 1)" by (simp add: demo_irc_def IsServer_def)
  then show ?thesis
    using server_lines_burst[of demo_irc 1 demo_irc no_lines "no_lines\<lparr>sxlines := [?l]\<rparr>"]
    by (simp add: no_lines_def keys_def sx_stored_def reason_text_def)
qed

text \<open>
  Two servers can disagree for good on the forbidden nicks. A new SQ-line is ignored when the
  masks there already match its text, and the burst sends the newest line first. A server that forbids
  \<open>abc*\<close>, then \<open>a*\<close>, holds both; its new neighbour ignores the second mask of the burst. After UNSQLINE of
  \<open>a*\<close> on both, the nick \<open>abcd\<close> is forbidden on one server only.
\<close>

theorem sqlines_diverge:
  "\<exists>d1 d2 d3 d4 ls ls'.
    fold (m_sqline 1 1) [[''s'', ''abc*'', ''x''], [''s'', ''a*'', ''x'']] (no_lines, demo_irc) = (ls, d1) \<and>
    map xl_name (sqlines ls) = [''a*'', ''abc*''] \<and>
    fold (\<lambda>l. m_sqline 1 1 [''s'', xl_name l, reason_text (xl_reason l)]) (sqlines ls) (no_lines, demo_irc) = (ls', d2) \<and>
    m_unsqline 1 1 [''s'', ''a*''] (ls, d1) = (ls\<lparr>sqlines := [\<lparr>xl_name = ''abc*'', xl_reason = Some ''x'', xl_hold = 0\<rparr>]\<rparr>, d3) \<and>
    m_unsqline 1 1 [''s'', ''a*''] (ls', d2) = (ls'\<lparr>sqlines := []\<rparr>, d4) \<and>
    find_sqline ''abcd'' (ls\<lparr>sqlines := [\<lparr>xl_name = ''abc*'', xl_reason = Some ''x'', xl_hold = 0\<rparr>]\<rparr>) \<noteq> None"
proof -
  have m: "\<not> match ''abc*'' ''a*''" "match ''a*'' ''abc*''" "match ''abc*'' ''abcd''" by code_simp+
  have e: "irccmp ''a*'' ''a*'' = 0" "irccmp ''abc*'' ''a*'' \<noteq> 0" by simp code_simp
  have "IsServer (clients demo_irc 1)" by (simp add: demo_irc_def IsServer_def)
  then show ?thesis
    using m e
    by (simp add: m_sqline_def m_unsqline_def no_lines_def from_services_def find_sqline_def Let_def reason_text_def)
qed

end
