(* ===== verification/SendQ.thy ===== *)
theory SendQ
  imports ChanState "HOL-Library.Sublist"
begin

text \<open>
  The output queue of a link, \<open>src/send.c\<close> (SENDQ_ALWAYS, without ZIP_LINKS): \<open>send_message\<close>, \<open>send_queued\<close> and
  \<open>dead_link\<close>. The queue is the byte string \<open>Dbuf\<close> refines it to. What the socket takes in the writes to come is
  a list of results of \<open>send()\<close>; once it is used up the socket blocks. The counters of \<open>me\<close> are left out. Parameters: \<open>sl\<close> for \<open>send_list\<close>, which
  goes on with a LIST that had to wait, and \<open>blk\<close> for the number of bytes \<open>dbuf_map\<close> shows.
\<close>

subsection \<open>Data\<close>

text \<open>\<open>limit\<close> is what \<open>get_sendq\<close> of \<open>src/class.c\<close> answers; \<open>written\<close> collects what has left through the socket, \<open>delivered\<close> (read by
  no operation) the calls of \<open>send_message\<close> in their order, \<open>exits\<close> the calls of \<open>exit_client\<close>. A notice to operators
  that \<open>send_message\<close> itself gives rise to is recorded in \<open>sent\<close> of the daemon's state.\<close>

record netio =
  nt_irc :: ircd
  nt_fd :: "nat \<Rightarrow> int"
  sendQ :: "nat \<Rightarrow> cstr"
  recvQ :: "nat \<Rightarrow> cstr"
  lastsq :: "nat \<Rightarrow> int"
  limit :: "nat \<Rightarrow> int"
  dead :: "nat \<Rightarrow> bool"
  closing :: "nat \<Rightarrow> bool"
  sendqex :: "nat \<Rightarrow> bool"
  doinglist :: "nat \<Rightarrow> bool"
  sendq_pop :: "nat \<Rightarrow> bool"
  sendM :: "nat \<Rightarrow> int"
  pool_ok :: bool
  socket :: "nat \<Rightarrow> int list"
  written :: "nat \<Rightarrow> cstr"
  sentalong :: "int \<Rightarrow> nat"
  current_serial :: nat
  serv_cptr_list :: "nat list"
  oper_cptr_list :: "nat list"
  local_cptr_list :: "nat list"
  GlobalClientList :: "nat list"
  caps :: "nat \<Rightarrow> 32 word"
  imodes :: "nat \<Rightarrow> 32 word"
  news_mask :: "nat \<Rightarrow> 32 word"
  sendbuf :: cstr
  exits :: "(nat \<times> cstr) list"
  delivered :: "(nat \<times> cstr) list"

abbreviation cl :: "netio \<Rightarrow> nat \<Rightarrow> client" where
  "cl n c \<equiv> clients (nt_irc n) c"

text \<open>\<open>if (to->from) to = to->from\<close>\<close>

definition link :: "netio \<Rightarrow> nat \<Rightarrow> nat" where
  "link n c = (if c_from (cl n c) \<noteq> 0 then c_from (cl n c) else c)"

definition nt_send :: "target \<Rightarrow> cstr \<Rightarrow> netio \<Rightarrow> netio" where
  "nt_send t m n = n\<lparr>nt_irc := send t m (nt_irc n)\<rparr>"

subsection \<open>Operations\<close>

text \<open>\<open>get_client_name\<close> of \<open>src/client.c\<close> with \<open>MASK_IP\<close> and with \<open>HIDE_IP\<close>.\<close>

definition get_client_name :: "bool \<Rightarrow> client \<Rightarrow> cstr" where
  "get_client_name MASK_IP c =
     (if local_flag c \<and> irccmp (c_name c) (c_host c) \<noteq> 0 then
        c_name c @ ''['' @ c_username c @ ''@'' @ (if MASK_IP then ''255.255.255.255'' else c_host c) @ '']''
      else c_name c)"

definition dead_link :: "nat \<Rightarrow> cstr \<Rightarrow> netio \<Rightarrow> netio" where
  "dead_link c txt n =
     (let n1 = n\<lparr>dead := (dead n)(c := True), recvQ := (recvQ n)(c := []), sendQ := (sendQ n)(c := [])\<rparr> in
      if \<not> IsPerson (cl n c) \<and> c_status (cl n c) \<noteq> STAT_UNKNOWN \<and> \<not> closing n c then nt_send ToOps txt n1 else n1)"

text \<open>One write: \<open>k\<close> bytes leave the queue (\<open>lastsq\<close> is a \<open>short\<close>); a LIST that waited goes on when the queue is empty.\<close>

definition take_out :: "nat \<Rightarrow> nat \<Rightarrow> netio \<Rightarrow> netio" where
  "take_out c k n =
     (let q = drop k (sendQ n c) in
      n\<lparr>written := (written n)(c := written n c @ take k (sendQ n c)), sendQ := (sendQ n)(c := q),
        lastsq := (lastsq n)(c := signed_take_bit 15 (int (length q) div 1024))\<rparr>)"

definition resume_list :: "(nat \<Rightarrow> netio \<Rightarrow> netio) \<Rightarrow> nat \<Rightarrow> netio \<Rightarrow> netio" where
  "resume_list sl c n =
     (if sendq_pop n c \<and> sendQ n c = [] then sl c (n\<lparr>sendq_pop := (sendq_pop n)(c := False)\<rparr>) else n)"

definition mapped :: "(cstr \<Rightarrow> nat) \<Rightarrow> nat \<Rightarrow> netio \<Rightarrow> nat" where
  "mapped blk c n = min (max 1 (blk (sendQ n c))) (length (sendQ n c))"

text \<open>The loop of \<open>send_queued\<close> over the writes to come.\<close>

fun send_loop :: "(nat \<Rightarrow> netio \<Rightarrow> netio) \<Rightarrow> (cstr \<Rightarrow> nat) \<Rightarrow> nat \<Rightarrow> int list \<Rightarrow> netio \<Rightarrow> netio" where
  "send_loop sl blk c [] n = n"
| "send_loop sl blk c (r # ws) n =
     (if sendQ n c = [] then n
      else if r < 0 then
        dead_link c (''Write error to '' @ get_client_name True (cl n c) @ '', closing link'') (n\<lparr>socket := (socket n)(c := ws)\<rparr>)
      else
        (let n1 = resume_list sl c (take_out c (min (nat r) (mapped blk c n)) (n\<lparr>socket := (socket n)(c := ws)\<rparr>)) in
         if nat r < mapped blk c n then n1 else send_loop sl blk c ws n1))"

definition send_queued :: "(nat \<Rightarrow> netio \<Rightarrow> netio) \<Rightarrow> (cstr \<Rightarrow> nat) \<Rightarrow> nat \<Rightarrow> netio \<Rightarrow> netio" where
  "send_queued sl blk c n = (if dead n c then n else send_loop sl blk c (socket n c) n)"

text \<open>The queue is over its limit: a link in the middle of a LIST only waits, any other is closed.\<close>

definition sendq_exceeded :: "nat \<Rightarrow> netio \<Rightarrow> netio" where
  "sendq_exceeded c n =
     (let n1 = (if IsServer (cl n c) then
                  nt_send ToOps (''Max SendQ limit exceeded for '' @ get_client_name False (cl n c) @ '': '' @
                    dec (int (length (sendQ n c))) @ '' > '' @ dec (limit n c)) n else n) in
      if doinglist n c then n1\<lparr>sendq_pop := (sendq_pop n1)(c := True)\<rparr>
      else dead_link c ''Max Sendq exceeded''
             (if IsClient (cl n c) then n1\<lparr>sendqex := (sendqex n1)(c := True)\<rparr> else n1))"

definition enqueue :: "nat \<Rightarrow> cstr \<Rightarrow> netio \<Rightarrow> netio" where
  "enqueue c msg n = n\<lparr>sendQ := (sendQ n)(c := sendQ n c @ msg), sendM := (sendM n)(c := sendM n c + 1)\<rparr>"

definition flush_now :: "nat \<Rightarrow> netio \<Rightarrow> bool" where
  "flush_now c n \<longleftrightarrow>
     (let SQinK = int (length (sendQ n c)) div 1024 in
      if IsServer (cl n c) then lastsq n c < SQinK else lastsq n c + 4 < SQinK)"

definition send_message :: "(nat \<Rightarrow> netio \<Rightarrow> netio) \<Rightarrow> (cstr \<Rightarrow> nat) \<Rightarrow> nat \<Rightarrow> cstr \<Rightarrow> netio \<Rightarrow> netio" where
  "send_message sl blk to msg n =
     (let c = link n to in
      if c_status (cl n c) = STAT_ME then nt_send ToOps (''Trying to send to myself! ['' @ msg @ '']'') n
      else if nt_fd n c < 0 \<or> dead n c then n
      else if limit n c < int (length (sendQ n c)) then sendq_exceeded c n
      else if \<not> pool_ok n then dead_link c (''Buffer allocation error for '' @ get_client_name True (cl n c)) n
      else let n1 = enqueue c msg n in if flush_now c n1 then send_queued sl blk c n1 else n1)"

text \<open>\<open>flush_server_connections\<close>\<close>

definition flush_server_connections :: "(nat \<Rightarrow> netio \<Rightarrow> netio) \<Rightarrow> (cstr \<Rightarrow> nat) \<Rightarrow> netio \<Rightarrow> netio" where
  "flush_server_connections sl blk n =
     fold (\<lambda>c m. if sendQ m c \<noteq> [] then send_queued sl blk c m else m) (serv_cptr_list n) n"

text \<open>\<open>flush_connections\<close>: one link, or all of them.\<close>

definition flush_connection :: "(nat \<Rightarrow> netio \<Rightarrow> netio) \<Rightarrow> (cstr \<Rightarrow> nat) \<Rightarrow> nat \<Rightarrow> netio \<Rightarrow> netio" where
  "flush_connection sl blk c n = (if -1 < nt_fd n c \<and> sendQ n c \<noteq> [] then send_queued sl blk c n else n)"

subsection \<open>The bound of a queue\<close>

definition q_bounded :: "netio \<Rightarrow> bool" where
  "q_bounded n \<longleftrightarrow> (\<forall>c. sendQ n c = [] \<or> int (length (sendQ n c)) \<le> limit n c + 512)"

lemma q_bounded_upd:
  "q_bounded n \<Longrightarrow> sendQ m = (sendQ n)(c := q) \<Longrightarrow> limit m = limit n \<Longrightarrow>
     q = [] \<or> int (length q) \<le> limit n c + 512 \<Longrightarrow> q_bounded m"
  by (simp add: q_bounded_def)

lemma q_bounded_cong: "sendQ m = sendQ n \<Longrightarrow> limit m = limit n \<Longrightarrow> q_bounded m = q_bounded n"
  by (simp add: q_bounded_def)

lemma nt_send_sel [simp]:
  "sendQ (nt_send t m n) = sendQ n" "limit (nt_send t m n) = limit n" "written (nt_send t m n) = written n"
  "dead (nt_send t m n) = dead n" "nt_fd (nt_send t m n) = nt_fd n" "socket (nt_send t m n) = socket n"
  "clients (nt_irc (nt_send t m n)) = clients (nt_irc n)" "doinglist (nt_send t m n) = doinglist n"
  "sentalong (nt_send t m n) = sentalong n" "current_serial (nt_send t m n) = current_serial n"
  by (simp_all add: nt_send_def)

lemma dead_link_sel [simp]:
  "sendQ (dead_link c txt n) = (sendQ n)(c := [])" "limit (dead_link c txt n) = limit n"
  "written (dead_link c txt n) = written n" "dead (dead_link c txt n) = (dead n)(c := True)"
  by (simp_all add: dead_link_def Let_def)

lemma take_out_sel [simp]:
  "sendQ (take_out c k n) = (sendQ n)(c := drop k (sendQ n c))" "limit (take_out c k n) = limit n"
  "written (take_out c k n) = (written n)(c := written n c @ take k (sendQ n c))" "dead (take_out c k n) = dead n"
  "socket (take_out c k n) = socket n"
  by (simp_all add: take_out_def Let_def)

lemma enqueue_sel [simp]:
  "sendQ (enqueue c msg n) = (sendQ n)(c := sendQ n c @ msg)" "limit (enqueue c msg n) = limit n"
  "written (enqueue c msg n) = written n" "dead (enqueue c msg n) = dead n"
  by (simp_all add: enqueue_def)

lemma sendq_exceeded_sel [simp]:
  "sendQ (sendq_exceeded c n) = (if doinglist n c then sendQ n else (sendQ n)(c := []))"
  "limit (sendq_exceeded c n) = limit n" "written (sendq_exceeded c n) = written n"
  "dead (sendq_exceeded c n) = (if doinglist n c then dead n else (dead n)(c := True))"
  by (simp_all add: sendq_exceeded_def Let_def)

lemma send_loop_bounded:
  assumes sl: "\<And>c m. q_bounded m \<Longrightarrow> q_bounded (sl c m)"
  shows "q_bounded n \<Longrightarrow> q_bounded (send_loop sl blk c ws n)"
proof (induction ws arbitrary: n)
  case (Cons r ws)
  define n1 where "n1 = n\<lparr>socket := (socket n)(c := ws)\<rparr>"
  have n1: "q_bounded n1" using Cons.prems by (simp add: q_bounded_def n1_def)
  have d: "q_bounded (dead_link c t n1)" for t
    by (rule q_bounded_upd[OF n1, of _ c "[]"]) simp_all
  define k where "k = min (nat r) (mapped blk c n)"
  define n2 where "n2 = take_out c k n1"
  have q: "sendQ n1 c = [] \<or> int (length (sendQ n1 c)) \<le> limit n1 c + 512"
    using n1 by (auto simp: q_bounded_def)
  have "q_bounded n2"
    unfolding n2_def by (rule q_bounded_upd[OF n1, of _ c "drop k (sendQ n1 c)"]) (use q in auto)
  then have "q_bounded (n2\<lparr>sendq_pop := p\<rparr>)" for p using q_bounded_cong[of "n2\<lparr>sendq_pop := p\<rparr>" n2] by simp
  then have "q_bounded (resume_list sl c n2)"
    using sl \<open>q_bounded n2\<close> by (simp add: resume_list_def)
  then show ?case
    using d Cons.IH Cons.prems
    by (cases "nat r < mapped blk c n") (simp_all add: Let_def n1_def n2_def k_def)
qed simp

lemma send_queued_bounded:
  "(\<And>c m. q_bounded m \<Longrightarrow> q_bounded (sl c m)) \<Longrightarrow> q_bounded n \<Longrightarrow> q_bounded (send_queued sl blk c n)"
  using send_loop_bounded[of sl n blk c] by (simp add: send_queued_def)

lemma send_message_bounded:
  assumes sl: "\<And>c m. q_bounded m \<Longrightarrow> q_bounded (sl c m)" and l: "length msg \<le> 512" and n: "q_bounded n"
  shows "q_bounded (send_message sl blk to msg n)"
proof -
  let ?c = "link n to"
  have d: "q_bounded (dead_link ?c t n)" for t
    by (rule q_bounded_upd[OF n, of _ ?c "[]"]) simp_all
  have s: "q_bounded (nt_send t x n)" for t x
    using n q_bounded_cong[of "nt_send t x n" n] by simp
  have e: "q_bounded (sendq_exceeded ?c n)"
    by (cases "doinglist n ?c") (use n in \<open>auto simp: q_bounded_def\<close>)
  have "q_bounded (enqueue ?c msg n)" if "int (length (sendQ n ?c)) \<le> limit n ?c"
    by (rule q_bounded_upd[OF n, of _ ?c "sendQ n ?c @ msg"]) (use that l in auto)
  then show ?thesis
    using n d s e send_queued_bounded[OF sl, where n = "enqueue ?c msg n" and blk = blk and c = ?c]
    by (simp add: send_message_def Let_def)
qed

subsection \<open>The stream of a link\<close>

text \<open>What has been written and what is queued, in this order. \<open>live\<close> says that the link was not given up.\<close>

definition stream :: "netio \<Rightarrow> nat \<Rightarrow> cstr" where
  "stream n c = written n c @ sendQ n c"

text \<open>An operation keeps the streams of the links that are still alive: it writes from the front of the queue and
  adds at its end.\<close>

definition keeps :: "netio \<Rightarrow> netio \<Rightarrow> bool" where
  "keeps n m \<longleftrightarrow> (\<forall>c. (dead n c \<longrightarrow> dead m c) \<and> prefix (written n c) (written m c) \<and>
     (dead m c \<or> prefix (stream n c) (stream m c)))"

lemma keeps_dead_link: "keeps n (dead_link c t n)"
  by (auto simp: keeps_def stream_def)

lemma keeps_trans: "keeps n m \<Longrightarrow> keeps m p \<Longrightarrow> keeps n p"
  unfolding keeps_def by (meson prefix_order.order_trans)

lemma keeps_same:
  "sendQ m = sendQ n \<Longrightarrow> written m = written n \<Longrightarrow> dead m = dead n \<Longrightarrow> keeps n m"
  by (simp add: keeps_def stream_def)

lemma keeps_refl: "keeps n n"
  by (simp add: keeps_same)

lemma keeps_take_out: "keeps n (take_out c k n)"
  by (auto simp: keeps_def stream_def)

lemma keeps_enqueue: "keeps n (enqueue c msg n)"
  by (auto simp: keeps_def stream_def)

lemma send_loop_keeps:
  assumes sl: "\<And>c m. keeps m (sl c m)"
  shows "keeps n (send_loop sl blk c ws n)"
proof (induction ws arbitrary: n)
  case (Cons r ws)
  define n1 where "n1 = n\<lparr>socket := (socket n)(c := ws)\<rparr>"
  define n2 where "n2 = take_out c (min (nat r) (mapped blk c n)) n1"
  have a: "keeps n n1" by (rule keeps_same) (simp_all add: n1_def)
  have d: "keeps n (dead_link c t n1)" for t
    by (rule keeps_trans[OF a keeps_dead_link])
  have p: "keeps n2 (n2\<lparr>sendq_pop := q\<rparr>)" for q by (rule keeps_same) simp_all
  have "keeps n n2" unfolding n2_def by (rule keeps_trans[OF a keeps_take_out])
  moreover have "keeps n2 (resume_list sl c n2)"
    using keeps_trans[OF p sl] keeps_refl by (simp add: resume_list_def)
  ultimately have e: "keeps n (resume_list sl c n2)" by (rule keeps_trans)
  then have "keeps n (send_loop sl blk c ws (resume_list sl c n2))"
    by (rule keeps_trans) (rule Cons.IH)
  then show ?case
    using d e keeps_refl by (cases "nat r < mapped blk c n") (simp_all add: Let_def n1_def n2_def)
qed (simp add: keeps_refl)

lemma send_queued_keeps:
  "(\<And>c m. keeps m (sl c m)) \<Longrightarrow> keeps n (send_queued sl blk c n)"
  using send_loop_keeps[of sl n blk c] keeps_refl by (simp add: send_queued_def)

lemma send_message_keeps:
  assumes "\<And>c m. keeps m (sl c m)"
  shows "keeps n (send_message sl blk to msg n)"
proof -
  have "keeps n (sendq_exceeded c n)" for c by (auto simp: keeps_def stream_def)
  moreover have "keeps n (nt_send t x n)" for t x by (rule keeps_same) simp_all
  ultimately show ?thesis
    using keeps_dead_link keeps_enqueue keeps_refl keeps_trans[OF keeps_enqueue send_queued_keeps[OF assms]]
    by (simp add: send_message_def Let_def)
qed

subsection \<open>Properties\<close>

text \<open>Any sequence of lines keeps the bound.\<close>

theorem sendq_bounded:
  assumes "\<And>c m. q_bounded m \<Longrightarrow> q_bounded (sl c m)" and "q_bounded n" and "\<And>to msg. (to, msg) \<in> set ms \<Longrightarrow> length msg \<le> 512"
  shows "q_bounded (fold (\<lambda>(to, msg). send_message sl blk to msg) ms n)"
  using assms(2,3)
proof (induction ms arbitrary: n)
  case (Cons m ms)
  obtain to msg where m: "m = (to, msg)" by (cases m)
  have "q_bounded (send_message sl blk to msg n)"
    by (rule send_message_bounded) (use assms(1) Cons.prems m in auto)
  then show ?case using Cons.IH[of "send_message sl blk to msg n"] Cons.prems(2) m by auto
qed simp

definition quiet_net :: netio where
  "quiet_net = \<lparr>nt_irc = \<lparr>clients = (\<lambda>c. (plain_user ''n'' ''u'' ''h'')\<lparr>c_from := c\<rparr>), chans = undefined, channel = [],
       chan_table = undefined, count_chan = 0, CurrentTime = 0, cfg = plain_config, sent = []\<rparr>,
     nt_fd = (\<lambda>c. int c), sendQ = (\<lambda>_. []), recvQ = (\<lambda>_. []), lastsq = (\<lambda>_. 0), limit = (\<lambda>_. 100), dead = (\<lambda>_. False),
     closing = (\<lambda>_. False), sendqex = (\<lambda>_. False), doinglist = (\<lambda>_. False), sendq_pop = (\<lambda>_. False),
     sendM = (\<lambda>_. 0), pool_ok = True, socket = (\<lambda>_. []), written = (\<lambda>_. []), sentalong = (\<lambda>_. 0),
     current_serial = 0, serv_cptr_list = [], oper_cptr_list = [], local_cptr_list = [], GlobalClientList = [],
     caps = (\<lambda>_. 0), imodes = (\<lambda>_. 0), news_mask = (\<lambda>_. 0),
     sendbuf = [], exits = [], delivered = []\<rparr>"

theorem sendq_bounded_witness:
  "q_bounded (fold (\<lambda>(to, msg). send_message (\<lambda>_ m. m) length to msg) [(1, replicate 90 CHR ''a''), (1, replicate 90 CHR ''b'')] quiet_net)"
  by (rule sendq_bounded) (auto simp: q_bounded_def quiet_net_def)

text \<open>
  C33. The bytes of a link that stays alive and is not compressed (\<open>ZIP_LINKS\<close> is off) are one stream, written from
  its front and extended at its end: a line given to a live link that is within its limit follows everything given before, nothing already
  written or queued is lost, repeated or reordered, and sending to one link does the same for every other.
\<close>

theorem link_stream:
  assumes "\<And>c m. keeps m (sl c m)" and "c = link n to" and "c_status (cl n c) \<noteq> STAT_ME" "0 \<le> nt_fd n c"
    and "int (length (sendQ n c)) \<le> limit n c" "pool_ok n" "\<not> dead n c"
    and "m = send_message sl blk to msg n"
  shows "(dead m c \<or> prefix (written n c @ sendQ n c @ msg) (written m c @ sendQ m c)) \<and>
    (\<forall>d. prefix (written n d) (written m d) \<and> (dead m d \<or> prefix (written n d @ sendQ n d) (written m d @ sendQ m d)))"
proof (intro conjI allI)
  have m: "m = (if flush_now c (enqueue c msg n) then send_queued sl blk c (enqueue c msg n) else enqueue c msg n)"
    using assms(2-8) by (simp add: send_message_def Let_def)
  have "keeps (enqueue c msg n) m"
    using m send_queued_keeps[OF assms(1)] keeps_refl by simp
  then have "dead m c \<or> prefix (stream (enqueue c msg n) c) (stream m c)" by (auto simp: keeps_def)
  then show "dead m c \<or> prefix (written n c @ sendQ n c @ msg) (written m c @ sendQ m c)"
    by (simp add: stream_def)
  have "keeps n m" unfolding assms(8) by (rule send_message_keeps[OF assms(1)])
  then show "prefix (written n d) (written m d)" "dead m d \<or> prefix (written n d @ sendQ n d) (written m d @ sendQ m d)" for d
    by (auto simp: keeps_def stream_def)
qed

theorem link_stream_witness:
  "prefix ''hello'' (written (send_message (\<lambda>_ m. m) length 1 ''hello'' quiet_net) 1 @
     sendQ (send_message (\<lambda>_ m. m) length 1 ''hello'' quiet_net) 1)"
proof -
  have d: "\<not> dead (send_message (\<lambda>_ m. m) length 1 ''hello'' quiet_net) 1"
    by (simp add: send_message_def quiet_net_def link_def Let_def plain_user_def enqueue_def flush_now_def IsServer_def)
  show ?thesis
    using link_stream[of "\<lambda>_ m. m" 1 quiet_net 1 "send_message (\<lambda>_ m. m) length 1 ''hello'' quiet_net" length "''hello''"] d
    by (simp add: keeps_refl quiet_net_def link_def plain_user_def)
qed

end
