(* ===== verification/Deliver.thy ===== *)
theory Deliver
  imports SendQ ChanFlags
begin

text \<open>
  Who gets a line: the fan-out of \<open>src/send.c\<close> over the queues of \<open>SendQ\<close>. A pattern of the form
  \<open>":%s COMMAND ..."\<close> is the value of its first argument and the rest of the line already formatted; any other
  pattern is the formatted line. \<open>sendto_channel_butone\<close> and \<open>sendto_channelops_butone\<close> read their \<open>va_list\<close> anew for every
  recipient without \<open>va_copy\<close>: what the \<open>k\<close>-th reading yields, \<open>va k\<close>, is a parameter. It is the same each time where
  \<open>va_list\<close> is a pointer passed by value, and undefined where it is an array. The other loops are modelled on a
  platform of the first kind: every recipient formats the same arguments. Clients have no code page here. \<open>sl\<close>, \<open>blk\<close> as in \<open>SendQ\<close>.
\<close>

subsection \<open>One line for one client\<close>

definition CRLF :: cstr where "CRLF = [CHR 0x0D, CHR 0x0A]"

text \<open>510 bytes of text at most, then CR and LF.\<close>

definition crlf_frame :: "cstr \<Rightarrow> cstr" where
  "crlf_frame m = (if 510 < length m then take 510 m else m) @ CRLF"

definition deliver :: "(nat \<Rightarrow> netio \<Rightarrow> netio) \<Rightarrow> (cstr \<Rightarrow> nat) \<Rightarrow> nat \<Rightarrow> cstr \<Rightarrow> netio \<Rightarrow> netio" where
  "deliver sl blk t ln n = send_message sl blk t ln (n\<lparr>delivered := delivered n @ [(t, ln)]\<rparr>)"

definition vsendto_one :: "(nat \<Rightarrow> netio \<Rightarrow> netio) \<Rightarrow> (cstr \<Rightarrow> nat) \<Rightarrow> nat \<Rightarrow> cstr \<Rightarrow> netio \<Rightarrow> netio" where
  "vsendto_one sl blk t m n =
     (let c = link n t in
      if \<not> nt_fd n c < 0 \<and> c_status (cl n c) = STAT_ME then
        nt_send ToOps (''Trying to send ['' @ sendbuf n @ ''] to myself!'') n
      else deliver sl blk c (crlf_frame m) (n\<lparr>sendbuf := crlf_frame m\<rparr>))"

definition vsendto_realops :: "(nat \<Rightarrow> netio \<Rightarrow> netio) \<Rightarrow> (cstr \<Rightarrow> nat) \<Rightarrow> cstr \<Rightarrow> netio \<Rightarrow> netio" where
  "vsendto_realops sl blk m n =
     fold (\<lambda>c k. vsendto_one sl blk c ('':'' @ me_name (cfg (nt_irc k)) @ '' NOTICE '' @ c_name (cl k c) @
       '' :*** Notice -- '' @ m) k) (oper_cptr_list n) n"

definition sendto_serv_butone :: "(nat \<Rightarrow> netio \<Rightarrow> netio) \<Rightarrow> (cstr \<Rightarrow> nat) \<Rightarrow> nat \<Rightarrow> cstr \<Rightarrow> netio \<Rightarrow> netio" where
  "sendto_serv_butone sl blk one m n =
     fold (\<lambda>c k. if one \<noteq> 0 \<and> c = c_from (cl k one) then k else vsendto_one sl blk c m k) (serv_cptr_list n) n"

text \<open>\<open>nick!user@host\<close>, the source that local clients see.\<close>

definition full_sender :: "client \<Rightarrow> cstr" where
  "full_sender f = c_name f @ (if c_username f \<noteq> [] then ''!'' @ c_username f else []) @
     (if c_host f \<noteq> [] then ''@'' @ c_host f else [])"

definition prefix_line :: "client \<Rightarrow> client \<Rightarrow> cstr \<Rightarrow> cstr \<Rightarrow> cstr" where
  "prefix_line t f par rest =
     '':'' @ (if MyClient t \<and> IsPerson f \<and> irccmp par (c_name f) = 0 then full_sender f else par) @ '' '' @ rest"

definition FLAG_KILLED :: "32 word" where "FLAG_KILLED = 4"

definition nt_upd_client :: "nat \<Rightarrow> (client \<Rightarrow> client) \<Rightarrow> netio \<Rightarrow> netio" where
  "nt_upd_client c f n = n\<lparr>nt_irc := (nt_irc n)\<lparr>clients := (clients (nt_irc n))(c := f (cl n c))\<rparr>\<rparr>"

text \<open>A line from a remote source for a user who is reached over the link it came from.\<close>

definition ghosted :: "(nat \<Rightarrow> netio \<Rightarrow> netio) \<Rightarrow> (cstr \<Rightarrow> nat) \<Rightarrow> nat \<Rightarrow> nat \<Rightarrow> cstr \<Rightarrow> netio \<Rightarrow> netio" where
  "ghosted sl blk to fr m n =
     (let t = cl n to; f = cl n fr; l = cl n (c_from t); me = me_name (cfg (nt_irc n)) in
      if IsServer f then
        vsendto_realops sl blk (''Send message ('' @ m @ '') to '' @ c_name t @ ''['' @ c_name l @ ''] dropped from '' @
          c_name f @ ''(Fake Dir)'') n
      else
        (let n1 = vsendto_realops sl blk (''Ghosted: '' @ c_name t @ ''['' @ c_username t @ ''@'' @ c_host t @ ''] from '' @
               c_name f @ ''['' @ c_username f @ ''@'' @ c_host f @ ''] ('' @ c_name l @ '')'') n;
             n2 = sendto_serv_butone sl blk 0 ('':'' @ me @ '' KILL '' @ c_name t @ '' :'' @ me @ '' ('' @ c_name t @ ''['' @
               c_username t @ ''@'' @ c_host t @ ''] Ghosted '' @ c_name l @ '')'') n1;
             n3 = nt_upd_client to (\<lambda>x. x\<lparr>c_flags := c_flags x OR FLAG_KILLED\<rparr>) n2;
             n4 = n3\<lparr>exits := exits n3 @ [(to, ''Ghosted client'')]\<rparr> in
         if IsPerson f then
           vsendto_one sl blk fr ('':'' @ me @ '' 503 '' @ c_name f @ '' :Message could not be delivered to '' @ c_name t) n4
         else n4))"

definition vsendto_prefix_one ::
  "(nat \<Rightarrow> netio \<Rightarrow> netio) \<Rightarrow> (cstr \<Rightarrow> nat) \<Rightarrow> nat \<Rightarrow> nat \<Rightarrow> cstr \<Rightarrow> cstr \<Rightarrow> netio \<Rightarrow> netio" where
  "vsendto_prefix_one sl blk to fr par rest n =
     (let t = cl n to; f = cl n fr in
      if \<not> MyClient f \<and> IsPerson t \<and> c_from t = c_from f then ghosted sl blk to fr ('':'' @ par @ '' '' @ rest) n
      else deliver sl blk to (crlf_frame (prefix_line t f par rest)) n)"

subsection \<open>The members of a channel\<close>

definition next_serial :: "netio \<Rightarrow> netio" where
  "next_serial n = n\<lparr>current_serial := Suc (current_serial n)\<rparr>"

definition note_sent :: "int \<Rightarrow> netio \<Rightarrow> netio" where
  "note_sent i n = n\<lparr>sentalong := (sentalong n)(i := current_serial n)\<rparr>"

definition is_local :: "netio \<Rightarrow> nat \<Rightarrow> bool" where
  "is_local n t \<longleftrightarrow> local_flag (cl n t) \<and> c_status (cl n t) = STAT_CLIENT"

text \<open>The body of the loops: a local member gets its own copy, a remote link one for all behind it.\<close>

definition member_copy ::
  "(nat \<Rightarrow> netio \<Rightarrow> netio) \<Rightarrow> (cstr \<Rightarrow> nat) \<Rightarrow> nat \<Rightarrow> nat \<Rightarrow> (nat \<Rightarrow> cstr \<times> cstr) \<Rightarrow> nat \<Rightarrow> nat \<times> netio \<Rightarrow> nat \<times> netio" where
  "member_copy sl blk one fr va t kn =
     (let (k, n) = kn; i = nt_fd n (c_from (cl n t));
          copied = (Suc k, note_sent i (vsendto_prefix_one sl blk t fr (fst (va k)) (snd (va k)) n)) in
      if c_from (cl n t) = one then kn
      else if is_local n t then copied
      else if sentalong n i \<noteq> current_serial n then copied
      else kn)"

definition chan_members :: "netio \<Rightarrow> nat \<Rightarrow> nat list" where
  "chan_members n ch = map mb_cptr (members (chans (nt_irc n) ch))"

definition chan_members_with :: "netio \<Rightarrow> nat \<Rightarrow> 32 word \<Rightarrow> nat list" where
  "chan_members_with n ch fl = map mb_cptr (filter (\<lambda>b. has (mb_flags b) fl) (members (chans (nt_irc n) ch)))"

definition sendto_channel_butone ::
  "(nat \<Rightarrow> netio \<Rightarrow> netio) \<Rightarrow> (cstr \<Rightarrow> nat) \<Rightarrow> nat \<Rightarrow> nat \<Rightarrow> nat \<Rightarrow> (nat \<Rightarrow> cstr \<times> cstr) \<Rightarrow> netio \<Rightarrow> netio" where
  "sendto_channel_butone sl blk one fr ch va n =
     snd (fold (member_copy sl blk one fr va) (chan_members n ch) (0, next_serial n))"

definition sendto_channelops_butone ::
  "(nat \<Rightarrow> netio \<Rightarrow> netio) \<Rightarrow> (cstr \<Rightarrow> nat) \<Rightarrow> nat \<Rightarrow> nat \<Rightarrow> nat \<Rightarrow> (nat \<Rightarrow> cstr \<times> cstr) \<Rightarrow> netio \<Rightarrow> netio" where
  "sendto_channelops_butone sl blk one fr ch va n =
     snd (fold (member_copy sl blk one fr va) (chan_members_with n ch CHFL_CHANOP) (0, next_serial n))"

text \<open>\<open>sendto_channel_type\<close>: the copy for another server is a NOTICE whatever the command was.\<close>

definition type_copy ::
  "(nat \<Rightarrow> netio \<Rightarrow> netio) \<Rightarrow> (cstr \<Rightarrow> nat) \<Rightarrow> nat \<Rightarrow> nat \<Rightarrow> cstr \<Rightarrow> cstr \<Rightarrow> nat \<Rightarrow> netio \<Rightarrow> netio" where
  "type_copy sl blk one fr cmd txt_of t n =
     (if c_from (cl n t) = one then n
      else let i = nt_fd n (c_from (cl n t)); par = c_name (cl n fr) in
        if is_local n t then vsendto_prefix_one sl blk t fr par (cmd @ '' '' @ txt_of) n
        else if sentalong n i \<noteq> current_serial n then
          note_sent i (vsendto_prefix_one sl blk t fr par (''NOTICE '' @ txt_of) n)
        else n)"

definition sendto_channel_type ::
  "(nat \<Rightarrow> netio \<Rightarrow> netio) \<Rightarrow> (cstr \<Rightarrow> nat) \<Rightarrow> nat \<Rightarrow> nat \<Rightarrow> nat \<Rightarrow> 32 word \<Rightarrow> cstr \<Rightarrow> cstr \<Rightarrow> cstr \<Rightarrow> netio \<Rightarrow> netio" where
  "sendto_channel_type sl blk one fr ch type nick cmd message n =
     fold (type_copy sl blk one fr cmd
         ((if has type MODE_CHANOP then CHR ''@'' else CHR ''+'') # nick @ '' :'' @ message))
       (chan_members_with n ch type) (next_serial n)"

definition sendto_channel_type_notice ::
  "(nat \<Rightarrow> netio \<Rightarrow> netio) \<Rightarrow> (cstr \<Rightarrow> nat) \<Rightarrow> nat \<Rightarrow> nat \<Rightarrow> 32 word \<Rightarrow> cstr \<Rightarrow> netio \<Rightarrow> netio" where
  "sendto_channel_type_notice sl blk fr ch type message n =
     fold (\<lambda>t k. if c_status (cl k t) = STAT_CLIENT then
         vsendto_prefix_one sl blk t fr (c_name (cl k fr)) (''NOTICE '' @ c_name (cl k t) @ '' :'' @ message) k else k)
       (chan_members_with n ch type) n"

definition send_knock ::
  "(nat \<Rightarrow> netio \<Rightarrow> netio) \<Rightarrow> (cstr \<Rightarrow> nat) \<Rightarrow> nat \<Rightarrow> nat \<Rightarrow> nat \<Rightarrow> 32 word \<Rightarrow> cstr \<Rightarrow> cstr \<Rightarrow> netio \<Rightarrow> netio" where
  "send_knock sl blk sptr cptr ch type message key n =
     fold (\<lambda>t k. if c_from (cl k t) = cptr then k
         else if MyClient (cl k t) then
           vsendto_prefix_one sl blk t sptr (c_name (cl k sptr)) (''NOTICE '' @ c_name (cl k t) @ '' :'' @ message) k
         else if sentalong k (nt_fd k (c_from (cl k t))) \<noteq> current_serial k then
           note_sent (nt_fd k (c_from (cl k t)))
             (vsendto_one sl blk t ('':'' @ c_name (cl k sptr) @ '' KNOCK '' @ chname (chans (nt_irc k) ch) @ '' '' @ key) k)
         else k)
       (chan_members_with n ch type) (next_serial n)"

text \<open>The members on this server; \<open>sendto_channel_chanops_butserv\<close> and its complement look at the operator flag.\<close>

definition sendto_channel_butserv ::
  "(nat \<Rightarrow> netio \<Rightarrow> netio) \<Rightarrow> (cstr \<Rightarrow> nat) \<Rightarrow> nat \<Rightarrow> nat \<Rightarrow> cstr \<Rightarrow> cstr \<Rightarrow> netio \<Rightarrow> netio" where
  "sendto_channel_butserv sl blk ch fr par rest n =
     fold (\<lambda>t k. if local_flag (cl k t) then vsendto_prefix_one sl blk t fr par rest k else k) (chan_members n ch) n"

definition sendto_channel_chanops_butserv ::
  "bool \<Rightarrow> (nat \<Rightarrow> netio \<Rightarrow> netio) \<Rightarrow> (cstr \<Rightarrow> nat) \<Rightarrow> nat \<Rightarrow> nat \<Rightarrow> cstr \<Rightarrow> cstr \<Rightarrow> netio \<Rightarrow> netio" where
  "sendto_channel_chanops_butserv ops sl blk ch fr par rest n =
     fold (\<lambda>t k. if local_flag (cl k t) \<and> (is_chan_op t ch (nt_irc k) \<noteq> 0) = ops then
         vsendto_prefix_one sl blk t fr par rest k else k) (chan_members n ch) n"

subsection \<open>Everyone who shares a channel\<close>

text \<open>The local members of the user's channels, each once; \<open>skip\<close> is the test of the \<open>+q\<close> channels.\<close>

definition common_copy ::
  "(nat \<Rightarrow> netio \<Rightarrow> netio) \<Rightarrow> (cstr \<Rightarrow> nat) \<Rightarrow> bool \<Rightarrow> nat \<Rightarrow> cstr \<Rightarrow> cstr \<Rightarrow> nat \<Rightarrow> netio \<Rightarrow> netio" where
  "common_copy sl blk skip user par rest t n =
     (if \<not> local_flag (cl n t) \<or> nt_fd n t < 0 \<or> sentalong n (nt_fd n t) = current_serial n then n
      else if skip then n
      else vsendto_prefix_one sl blk t user par rest (note_sent (nt_fd n t) n))"

definition note_user :: "nat \<Rightarrow> netio \<Rightarrow> netio" where
  "note_user user n = (if 0 \<le> nt_fd n user then note_sent (nt_fd n user) n else n)"

definition user_chans :: "netio \<Rightarrow> nat \<Rightarrow> nat list" where
  "user_chans n user = (if has_user (cl n user) then u_channel (cl n user) else [])"

definition sendto_common_channels ::
  "(nat \<Rightarrow> netio \<Rightarrow> netio) \<Rightarrow> (cstr \<Rightarrow> nat) \<Rightarrow> nat \<Rightarrow> cstr \<Rightarrow> cstr \<Rightarrow> netio \<Rightarrow> netio" where
  "sendto_common_channels sl blk user par rest n =
     (let n0 = note_user user (next_serial n);
          n1 = fold (\<lambda>ch. fold (common_copy sl blk False user par rest) (chan_members n ch)) (user_chans n user) n0 in
      if local_flag (cl n1 user) then vsendto_prefix_one sl blk user user par rest n1 else n1)"

definition FLAGS_NORMALEX :: "32 word" where "FLAGS_NORMALEX = 0x400"

definition quiet_quit :: "netio \<Rightarrow> nat \<Rightarrow> nat \<Rightarrow> bool" where
  "quiet_quit n ch user \<longleftrightarrow>
     has (md_mode (mode (chans (nt_irc n) ch))) MODE_NOQUITS \<and> has (c_flags (cl n user)) FLAGS_NORMALEX"

definition sendto_common_channels_quits ::
  "(nat \<Rightarrow> netio \<Rightarrow> netio) \<Rightarrow> (cstr \<Rightarrow> nat) \<Rightarrow> nat \<Rightarrow> cstr \<Rightarrow> cstr \<Rightarrow> netio \<Rightarrow> netio" where
  "sendto_common_channels_quits sl blk user par rest n =
     (let n0 = note_user user (next_serial n);
          n1 = fold (\<lambda>ch. fold (\<lambda>t k. common_copy sl blk (quiet_quit k ch user) user par rest t k) (chan_members n ch))
                 (user_chans n user) n0 in
      if local_flag (cl n1 user) then vsendto_prefix_one sl blk user user par rest n1 else n1)"

definition sendto_common_channels_part :: "(nat \<Rightarrow> netio \<Rightarrow> netio) \<Rightarrow> (cstr \<Rightarrow> nat) \<Rightarrow> nat \<Rightarrow> cstr \<Rightarrow> netio \<Rightarrow> netio" where
  "sendto_common_channels_part sl blk user msg n =
     fold (\<lambda>ch. fold (\<lambda>t k. if \<not> local_flag (cl k t) \<or> nt_fd k t < 0 then k
         else if \<not> quiet_quit k ch user then k
         else vsendto_prefix_one sl blk t user (c_name (cl k user))
                (''PART '' @ chname (chans (nt_irc k) ch) @ '' :'' @ msg) k) (chan_members n ch)) (user_chans n user) n"

subsection \<open>Servers\<close>

definition local_chan :: "netio \<Rightarrow> nat \<Rightarrow> bool" where
  "local_chan n ch \<longleftrightarrow> ch \<noteq> 0 \<and> take 1 (chname (chans (nt_irc n) ch)) = ''&''"

definition sendto_match_servs :: "(nat \<Rightarrow> netio \<Rightarrow> netio) \<Rightarrow> (cstr \<Rightarrow> nat) \<Rightarrow> nat \<Rightarrow> nat \<Rightarrow> cstr \<Rightarrow> netio \<Rightarrow> netio" where
  "sendto_match_servs sl blk ch fr m n =
     (if local_chan n ch then n
      else fold (\<lambda>c k. if c = fr then k else vsendto_one sl blk c m k) (serv_cptr_list n) n)"

text \<open>\<open>sendto_match_cap_servs\<close> (\<open>want\<close>) and \<open>sendto_nomatch_cap_servs\<close>\<close>

definition sendto_cap_servs ::
  "bool \<Rightarrow> (nat \<Rightarrow> netio \<Rightarrow> netio) \<Rightarrow> (cstr \<Rightarrow> nat) \<Rightarrow> nat \<Rightarrow> nat \<Rightarrow> 32 word \<Rightarrow> cstr \<Rightarrow> netio \<Rightarrow> netio" where
  "sendto_cap_servs want sl blk ch fr cap m n =
     (if local_chan n ch then n
      else fold (\<lambda>c k. if c = fr then k else if has (caps k c) cap \<noteq> want then k else vsendto_one sl blk c m k)
        (serv_cptr_list n) n)"

definition match_it :: "client \<Rightarrow> cstr \<Rightarrow> bool \<Rightarrow> bool" where
  "match_it c msk host = (if host then match msk (c_host c) else match msk (u_server c))"

definition sendto_match_butone ::
  "(nat \<Rightarrow> netio \<Rightarrow> netio) \<Rightarrow> (cstr \<Rightarrow> nat) \<Rightarrow> nat \<Rightarrow> nat \<Rightarrow> cstr \<Rightarrow> bool \<Rightarrow> cstr \<Rightarrow> cstr \<Rightarrow> netio \<Rightarrow> netio" where
  "sendto_match_butone sl blk one fr msk host par rest n =
     (let n1 = fold (\<lambda>c k. if c = one then k
            else if match_it (cl k c) msk host then vsendto_prefix_one sl blk c fr par rest k else k) (local_cptr_list n) n in
      fold (\<lambda>c k. if c = one then k else vsendto_prefix_one sl blk c fr par rest k) (serv_cptr_list n1) n1)"

subsection \<open>Operators\<close>

text \<open>A notice for the operators of this server that pass a test.\<close>

definition oper_notice ::
  "(nat \<Rightarrow> netio \<Rightarrow> netio) \<Rightarrow> (cstr \<Rightarrow> nat) \<Rightarrow> (netio \<Rightarrow> nat \<Rightarrow> bool) \<Rightarrow> cstr \<Rightarrow> cstr \<Rightarrow> netio \<Rightarrow> netio" where
  "oper_notice sl blk P kind m n =
     fold (\<lambda>c k. if P k c then vsendto_one sl blk c ('':'' @ me_name (cfg (nt_irc k)) @ '' NOTICE '' @ c_name (cl k c) @
       '' :*** '' @ kind @ '' -- '' @ m) k else k) (oper_cptr_list n) n"

definition sendto_ops :: "(nat \<Rightarrow> netio \<Rightarrow> netio) \<Rightarrow> (cstr \<Rightarrow> nat) \<Rightarrow> cstr \<Rightarrow> netio \<Rightarrow> netio" where
  "sendto_ops sl blk = oper_notice sl blk (\<lambda>_ _. True) ''Notice''"

definition sendto_globops :: "(nat \<Rightarrow> netio \<Rightarrow> netio) \<Rightarrow> (cstr \<Rightarrow> nat) \<Rightarrow> cstr \<Rightarrow> netio \<Rightarrow> netio" where
  "sendto_globops sl blk = oper_notice sl blk (\<lambda>_ _. True) ''Global''"

definition sendto_ops_flags :: "(nat \<Rightarrow> netio \<Rightarrow> netio) \<Rightarrow> (cstr \<Rightarrow> nat) \<Rightarrow> 32 word \<Rightarrow> cstr \<Rightarrow> netio \<Rightarrow> netio" where
  "sendto_ops_flags sl blk flags m n =
     (if flags \<noteq> 0 then oper_notice sl blk (\<lambda>k c. has (c_umodes (cl k c)) flags) ''Notice'' m n else n)"

definition sendto_ops_imodes :: "(nat \<Rightarrow> netio \<Rightarrow> netio) \<Rightarrow> (cstr \<Rightarrow> nat) \<Rightarrow> 32 word \<Rightarrow> cstr \<Rightarrow> netio \<Rightarrow> netio" where
  "sendto_ops_imodes sl blk im m n =
     (if im \<noteq> 0 then oper_notice sl blk (\<lambda>k c. has (imodes k c) im) ''Notice'' m n else n)"

definition sendto_realops_flags :: "(nat \<Rightarrow> netio \<Rightarrow> netio) \<Rightarrow> (cstr \<Rightarrow> nat) \<Rightarrow> 32 word \<Rightarrow> cstr \<Rightarrow> netio \<Rightarrow> netio" where
  "sendto_realops_flags sl blk flags = oper_notice sl blk (\<lambda>k c. has (c_umodes (cl k c)) flags) ''Notice''"

definition UMODE_WALLOP :: "32 word" where "UMODE_WALLOP = 1"

text \<open>The links behind which a client passes the test, each once: \<open>sendto_ops_butone\<close> and \<open>sendto_wallops_butone\<close>.\<close>

definition link_copy ::
  "(nat \<Rightarrow> netio \<Rightarrow> netio) \<Rightarrow> (cstr \<Rightarrow> nat) \<Rightarrow> nat \<Rightarrow> nat \<Rightarrow> cstr \<Rightarrow> cstr \<Rightarrow> nat \<Rightarrow> netio \<Rightarrow> netio" where
  "link_copy sl blk one fr par rest c n =
     (let l = c_from (cl n c) in
      if sentalong n (nt_fd n l) = current_serial n then n
      else if l = one then n
      else vsendto_prefix_one sl blk l fr par rest (note_sent (nt_fd n l) n))"

definition sendto_ops_butone ::
  "(nat \<Rightarrow> netio \<Rightarrow> netio) \<Rightarrow> (cstr \<Rightarrow> nat) \<Rightarrow> nat \<Rightarrow> nat \<Rightarrow> cstr \<Rightarrow> cstr \<Rightarrow> netio \<Rightarrow> netio" where
  "sendto_ops_butone sl blk one fr par rest n =
     fold (\<lambda>c k. if \<not> has (c_umodes (cl k c)) UMODE_WALLOP \<or> \<not> IsOper (cl k c) then k
         else link_copy sl blk one fr par rest c k) (GlobalClientList n) (next_serial n)"

definition sendto_wallops_butone ::
  "(nat \<Rightarrow> netio \<Rightarrow> netio) \<Rightarrow> (cstr \<Rightarrow> nat) \<Rightarrow> nat \<Rightarrow> nat \<Rightarrow> cstr \<Rightarrow> cstr \<Rightarrow> netio \<Rightarrow> netio" where
  "sendto_wallops_butone sl blk one fr par rest n =
     fold (\<lambda>c k. if \<not> has (c_umodes (cl k c)) UMODE_WALLOP then k
         else if MyClient (cl k c) \<and> \<not> IsOper (cl k c) then k
         else link_copy sl blk one fr par rest c k) (GlobalClientList n) (next_serial n)"

definition send_operwall :: "(nat \<Rightarrow> netio \<Rightarrow> netio) \<Rightarrow> (cstr \<Rightarrow> nat) \<Rightarrow> nat \<Rightarrow> cstr \<Rightarrow> cstr \<Rightarrow> netio \<Rightarrow> netio" where
  "send_operwall sl blk fr type_message message n =
     (if fr = 0 \<or> \<not> IsPerson (cl n fr) then n
      else fold (\<lambda>c k. if \<not> has (c_umodes (cl k c)) UMODE_WALLOP then k
             else vsendto_one sl blk c ('':'' @ full_sender (cl n fr) @ '' WALLOPS :'' @ type_message @ '' - '' @ message) k)
        (oper_cptr_list n) n)"

text \<open>News go to the users who asked for the topic, as a NOTICE or a PRIVMSG as bit 0 of their mask says.\<close>

definition sendto_news :: "(nat \<Rightarrow> netio \<Rightarrow> netio) \<Rightarrow> (cstr \<Rightarrow> nat) \<Rightarrow> nat \<Rightarrow> 32 word \<Rightarrow> cstr \<Rightarrow> netio \<Rightarrow> netio" where
  "sendto_news sl blk fr newsmask m n =
     (if fr = 0 \<or> \<not> has_user (cl n fr) then n
      else fold (\<lambda>c k. if IsPerson (cl k c) \<and> \<not> IsBot (cl k c) \<and> has (news_mask k c) newsmask then
             vsendto_one sl blk c ('':'' @ full_sender (cl n fr) @
               (if has (news_mask k c) 1 then '' NOTICE '' else '' PRIVMSG '') @ c_name (cl k c) @ '' :'' @ m) k else k)
        (local_cptr_list n) n)"

subsection \<open>What sending leaves alone\<close>

definition same :: "netio \<Rightarrow> netio \<Rightarrow> bool" where
  "same n m \<longleftrightarrow> clients (nt_irc m) = clients (nt_irc n) \<and> chans (nt_irc m) = chans (nt_irc n) \<and> nt_fd m = nt_fd n \<and>
     sentalong m = sentalong n \<and> current_serial m = current_serial n \<and> delivered m = delivered n"

lemma same_refl [simp]: "same n n"
  by (simp add: same_def)

lemma same_trans: "same n m \<Longrightarrow> same m p \<Longrightarrow> same n p"
  by (simp add: same_def)

lemma same_nt_send [simp]: "same n (nt_send t x n)"
  by (simp add: same_def nt_send_def send_def)

lemma same_dead_link [simp]: "same n (dead_link c t n)"
  by (simp add: same_def dead_link_def Let_def nt_send_def send_def)

lemma same_take_out [simp]: "same n (take_out c k n)"
  by (simp add: same_def take_out_def Let_def)

lemma same_socket [simp]: "same n (n\<lparr>socket := x\<rparr>)" "same n (n\<lparr>sendq_pop := y\<rparr>)"
  by (simp_all add: same_def)

lemma same_enqueue [simp]: "same n (enqueue c msg n)"
  by (simp add: same_def enqueue_def)

lemma same_exceeded [simp]: "same n (sendq_exceeded c n)"
  by (simp add: same_def sendq_exceeded_def dead_link_def Let_def nt_send_def send_def)

lemma same_send_loop:
  assumes sl: "\<And>c m. same m (sl c m)"
  shows "same n (send_loop sl blk c ws n)"
proof (induction ws arbitrary: n)
  case (Cons r ws)
  define n1 where "n1 = n\<lparr>socket := (socket n)(c := ws)\<rparr>"
  have a: "same n n1" unfolding n1_def by (rule same_socket)
  have b: "same n1 (resume_list sl c (take_out c k n1))" for k
    using same_trans[OF same_take_out same_trans[OF same_socket(2) sl]] same_take_out by (simp add: resume_list_def)
  have c: "same n (resume_list sl c (take_out c k n1))" for k by (rule same_trans[OF a b])
  have d: "same n (send_loop sl blk c ws (resume_list sl c (take_out c k n1)))" for k
    by (rule same_trans[OF c Cons.IH])
  have e: "same n (dead_link c t n1)" for t by (rule same_trans[OF a same_dead_link])
  show ?case using c d e by (simp add: Let_def n1_def)
qed simp

lemma same_send_message:
  assumes "\<And>c m. same m (sl c m)"
  shows "same n (send_message sl blk t ln n)"
proof -
  have "same n (send_queued sl blk c (enqueue c ln n))" for c
    using same_trans[OF same_enqueue same_send_loop[OF assms]] by (simp add: send_queued_def)
  then show ?thesis by (simp add: send_message_def Let_def)
qed

text \<open>The parts of a state that the loops read, and what one copy does to them.\<close>

lemma deliver_same:
  assumes "\<And>c m. same m (sl c m)"
  shows "same (n\<lparr>delivered := delivered n @ [(t, ln)]\<rparr>) (deliver sl blk t ln n)"
  unfolding deliver_def by (rule same_send_message[OF assms])

lemma deliver_sel:
  assumes "\<And>c m. same m (sl c m)"
  shows "clients (nt_irc (deliver sl blk t ln n)) = clients (nt_irc n)"
    "nt_fd (deliver sl blk t ln n) = nt_fd n" "sentalong (deliver sl blk t ln n) = sentalong n"
    "current_serial (deliver sl blk t ln n) = current_serial n"
    "delivered (deliver sl blk t ln n) = delivered n @ [(t, ln)]"
  using deliver_same[OF assms, where n = n and t = t and ln = ln and blk = blk] by (simp_all add: same_def)

subsection \<open>One copy for each link\<close>


definition no_ghost :: "netio \<Rightarrow> nat \<Rightarrow> nat \<Rightarrow> bool" where
  "no_ghost n fr t \<longleftrightarrow> MyClient (cl n fr) \<or> \<not> IsPerson (cl n t) \<or> c_from (cl n t) \<noteq> c_from (cl n fr)"

definition line_for :: "netio \<Rightarrow> nat \<Rightarrow> cstr \<Rightarrow> cstr \<Rightarrow> nat \<Rightarrow> nat \<times> cstr" where
  "line_for n fr par rest t = (t, crlf_frame (prefix_line (cl n t) (cl n fr) par rest))"

lemma prefix_one_delivers:
  "no_ghost n fr t \<Longrightarrow> vsendto_prefix_one sl blk t fr par rest n =
     deliver sl blk t (crlf_frame (prefix_line (cl n t) (cl n fr) par rest)) n"
  by (auto simp: vsendto_prefix_one_def no_ghost_def Let_def)

text \<open>The lines for the addressees \<open>ts\<close>, from the \<open>k\<close>-th reading of the arguments on.\<close>

fun lines_from :: "netio \<Rightarrow> nat \<Rightarrow> (nat \<Rightarrow> cstr \<times> cstr) \<Rightarrow> nat \<Rightarrow> nat list \<Rightarrow> (nat \<times> cstr) list" where
  "lines_from n fr va k [] = []"
| "lines_from n fr va k (t # ts) = line_for n fr (fst (va k)) (snd (va k)) t # lines_from n fr va (Suc k) ts"

lemma lines_from_same: "(\<And>k. va k = (par, rest)) \<Longrightarrow> lines_from n fr va k ts = map (line_for n fr par rest) ts"
  by (induction ts arbitrary: k) auto


lemma frame_line [simp]: "length (crlf_frame m) \<le> 512" "suffix CRLF (crlf_frame m)"
  by (auto simp: crlf_frame_def CRLF_def suffix_def)




subsection \<open>Everyone in common channels, once\<close>

fun comm :: "netio \<Rightarrow> int set \<Rightarrow> nat list \<Rightarrow> nat list" where
  "comm n seen [] = []"
| "comm n seen (t # ts) =
     (if \<not> local_flag (cl n t) \<or> nt_fd n t < 0 \<or> nt_fd n t \<in> seen then comm n seen ts
      else t # comm n (insert (nt_fd n t) seen) ts)"

text \<open>A client of this server is its own link and has its own descriptor, a remote one has none.\<close>

definition conns_ok :: "netio \<Rightarrow> bool" where
  "conns_ok n \<longleftrightarrow> (\<forall>t. if local_flag (cl n t) then c_from (cl n t) = t
     else nt_fd n t < 0 \<and> \<not> IsPerson (cl n (c_from (cl n t)))) \<and>
     (\<forall>t u. 0 \<le> nt_fd n t \<and> nt_fd n t = nt_fd n u \<longrightarrow> t = u)"

lemma comm_once:
  "conns_ok n \<Longrightarrow> length (filter ((=) u) (comm n seen ts)) =
     (if local_flag (cl n u) \<and> 0 \<le> nt_fd n u \<and> nt_fd n u \<notin> seen \<and> u \<in> set ts then 1 else 0)"
proof (induction ts arbitrary: seen)
  case (Cons t ts)
  have d: "u \<noteq> t \<Longrightarrow> 0 \<le> nt_fd n t \<Longrightarrow> nt_fd n u \<noteq> nt_fd n t" using Cons.prems unfolding conns_ok_def by metis
  show ?case
  proof (cases "u = t")
    case True then show ?thesis
      using Cons.IH[OF Cons.prems, of seen] Cons.IH[OF Cons.prems, of "insert (nt_fd n t) seen"] by auto
  next
    case False then show ?thesis
      using d Cons.IH[OF Cons.prems, of seen] Cons.IH[OF Cons.prems, of "insert (nt_fd n t) seen"] by auto
  qed
qed simp

lemma fold_comm:
  assumes sl: "\<And>c m. same m (sl c m)" and ok: "conns_ok n"
  shows "clients (nt_irc m) = clients (nt_irc n) \<Longrightarrow> nt_fd m = nt_fd n \<Longrightarrow>
     seen = {i. sentalong m i = current_serial m} \<Longrightarrow> (0 \<le> nt_fd n user \<Longrightarrow> nt_fd n user \<in> seen) \<Longrightarrow>
     delivered (fold (common_copy sl blk False user par rest) ts m) =
       delivered m @ map (line_for n user par rest) (comm n seen ts) \<and>
     clients (nt_irc (fold (common_copy sl blk False user par rest) ts m)) = clients (nt_irc n)"
proof (induction ts arbitrary: m seen)
  case (Cons t ts)
  show ?case
  proof (cases "\<not> local_flag (cl n t) \<or> nt_fd n t < 0 \<or> nt_fd n t \<in> seen")
    case True
    then have "common_copy sl blk False user par rest t m = m"
      using Cons.prems(1-3) by (auto simp: common_copy_def)
    then show ?thesis using Cons.IH[OF Cons.prems] True by simp
  next
    case False
    define m1 where "m1 = note_sent (nt_fd n t) m"
    have m1: "clients (nt_irc m1) = clients (nt_irc n)" "nt_fd m1 = nt_fd n" "delivered m1 = delivered m"
      "insert (nt_fd n t) seen = {i. sentalong m1 i = current_serial m1}"
      using Cons.prems(1-3) by (auto simp: m1_def note_sent_def)
    have t: "t \<noteq> user" "c_from (cl n t) = t" using False Cons.prems(4) ok by (auto simp: conns_ok_def)
    have "no_ghost n user t"
      using ok t by (cases "local_flag (cl n user)") (auto simp: no_ghost_def conns_ok_def split: if_splits)
    then have g: "no_ghost m1 user t" using m1(1) by (simp add: no_ghost_def)
    have e: "common_copy sl blk False user par rest t m = vsendto_prefix_one sl blk t user par rest m1"
      using False Cons.prems(1-3) by (auto simp: common_copy_def m1_def)
    show ?thesis
      unfolding fold_simps(2) e
      using Cons.IH[of "vsendto_prefix_one sl blk t user par rest m1" "insert (nt_fd n t) seen"] m1 False Cons.prems(4)
      by (auto simp: prefix_one_delivers[OF g] deliver_sel[OF sl] line_for_def)
  qed
qed simp

lemma fold_concat: "fold (\<lambda>x. fold f (g x)) xs s = fold f (concat (map g xs)) s"
  by (induction xs arbitrary: s) auto

subsection \<open>Queues stay bounded\<close>

lemma fold_bounded: "(\<And>x m. q_bounded m \<Longrightarrow> q_bounded (f x m)) \<Longrightarrow> q_bounded n \<Longrightarrow> q_bounded (fold f xs n)"
  by (induction xs arbitrary: n) auto

lemma deliver_bounded:
  assumes "\<And>c m. q_bounded m \<Longrightarrow> q_bounded (sl c m)" and "length ln \<le> 512" and "q_bounded n"
  shows "q_bounded (deliver sl blk t ln n)"
  unfolding deliver_def by (rule send_message_bounded) (use assms in \<open>simp_all add: q_bounded_def\<close>)

lemma vsendto_one_bounded:
  assumes "\<And>c m. q_bounded m \<Longrightarrow> q_bounded (sl c m)" and "q_bounded n"
  shows "q_bounded (vsendto_one sl blk t x n)"
  using deliver_bounded[OF assms(1), where ln = "crlf_frame x" and n = "n\<lparr>sendbuf := crlf_frame x\<rparr>" and t = "link n t" and blk = blk]
    assms(2)
  by (simp add: vsendto_one_def Let_def q_bounded_def)

lemma realops_bounded:
  assumes "\<And>c m. q_bounded m \<Longrightarrow> q_bounded (sl c m)" and "q_bounded n"
  shows "q_bounded (vsendto_realops sl blk x n)"
  unfolding vsendto_realops_def by (rule fold_bounded[OF vsendto_one_bounded[OF assms(1)] assms(2)])

lemma serv_butone_bounded:
  assumes "\<And>c m. q_bounded m \<Longrightarrow> q_bounded (sl c m)" and "q_bounded n"
  shows "q_bounded (sendto_serv_butone sl blk one x n)"
  unfolding sendto_serv_butone_def by (rule fold_bounded[OF _ assms(2)]) (use vsendto_one_bounded[OF assms(1)] in auto)

lemma ghosted_bounded:
  assumes sl: "\<And>c m. q_bounded m \<Longrightarrow> q_bounded (sl c m)" and n: "q_bounded n"
  shows "q_bounded (ghosted sl blk t f x n)"
proof -
  have u: "q_bounded m \<Longrightarrow> q_bounded (vsendto_one sl blk c z ((nt_upd_client d g m)\<lparr>exits := e\<rparr>))"
    "q_bounded m \<Longrightarrow> q_bounded ((nt_upd_client d g m)\<lparr>exits := e\<rparr>)" for m c z d g e
    by (rule vsendto_one_bounded[OF sl], assumption) (simp_all add: q_bounded_def nt_upd_client_def)
  show ?thesis
    by (simp add: ghosted_def Let_def realops_bounded[OF sl n] u serv_butone_bounded[OF sl])
qed

lemma prefix_one_bounded:
  assumes "\<And>c m. q_bounded m \<Longrightarrow> q_bounded (sl c m)" and "q_bounded n"
  shows "q_bounded (vsendto_prefix_one sl blk t f par rest n)"
  using ghosted_bounded[OF assms] deliver_bounded[OF assms(1) _ assms(2)]
  by (simp add: vsendto_prefix_one_def Let_def)

lemma note_bounded [simp]: "q_bounded (note_sent i n) = q_bounded n" "q_bounded (next_serial n) = q_bounded n"
  "q_bounded (note_user u n) = q_bounded n"
  by (simp_all add: q_bounded_def note_sent_def next_serial_def note_user_def)


subsection \<open>Properties\<close>

text \<open>
  No queue of a link outgrows the limit of its class by more than one line of 512 bytes, however a
  line of any length is fanned out: to a channel, to those in common channels, to all servers, to a mask; for ghosts
  and dead links too. The continuation of a LIST is a parameter that is assumed to keep the bound.
\<close>

theorem fanout_bounded:
  assumes "\<And>c m. q_bounded m \<Longrightarrow> q_bounded (sl c m)" and "q_bounded n"
  shows "q_bounded (sendto_channel_butone sl blk one fr ch va n) \<and>
    q_bounded (sendto_common_channels sl blk fr par rest n) \<and> q_bounded (sendto_serv_butone sl blk one m n) \<and>
    q_bounded (sendto_match_butone sl blk one fr msk host par rest n)"
proof (intro conjI)
  note p = prefix_one_bounded[OF assms(1)]
  have c: "q_bounded (snd kn) \<Longrightarrow> q_bounded (snd (member_copy sl blk one fr va t kn))"
    "q_bounded k \<Longrightarrow> q_bounded (common_copy sl blk False fr par rest t k)" for kn k t
    by (simp_all add: member_copy_def common_copy_def Let_def p split_beta)
  have "q_bounded (snd kn) \<Longrightarrow> q_bounded (snd (fold (member_copy sl blk one fr va) ts kn))" for ts kn
    by (induction ts arbitrary: kn) (simp_all add: c(1))
  then show "q_bounded (sendto_channel_butone sl blk one fr ch va n)"
    unfolding sendto_channel_butone_def by (simp add: assms(2))
  have "q_bounded (fold (\<lambda>ch. fold (common_copy sl blk False fr par rest) (chan_members n ch)) (user_chans n fr)
      (note_user fr (next_serial n)))"
    by (rule fold_bounded[OF fold_bounded[OF c(2)]]) (simp_all add: assms(2))
  then show "q_bounded (sendto_common_channels sl blk fr par rest n)"
    by (simp add: sendto_common_channels_def Let_def p)
  show "q_bounded (sendto_serv_butone sl blk one m n)" by (rule serv_butone_bounded[OF assms])
  show "q_bounded (sendto_match_butone sl blk one fr msk host par rest n)"
    unfolding sendto_match_butone_def Let_def
    by (rule fold_bounded, simp add: p, rule fold_bounded[OF _ assms(2)]) (simp_all add: p)
qed



definition chat_net :: netio where
  "chat_net = quiet_net\<lparr>nt_irc := (nt_irc quiet_net)\<lparr>
     clients := (\<lambda>c. (plain_user ''n'' ''u'' ''h'')\<lparr>c_from := if c < 3 then c else 9, local_flag := c < 3 \<or> c = 9,
       c_status := if c = 9 then STAT_SERVER else STAT_CLIENT\<rparr>),
     chans := (\<lambda>_. \<lparr>chname = ''#c'', mode = undefined, topic = [], topic_nick = [], topic_time = 0, users = 4, iusers = 0,
       members = map (\<lambda>c. \<lparr>mb_cptr = c, mb_flags = 0, nmsg = 0, lastmsg = 0, lmsg = None, lsize = 0, lmsg_time = 0\<rparr>) [1, 2, 3, 4], invites = [],
       banlist = [], num_bed = 0, channelts = 0\<rparr>)\<rparr>, nt_fd := (\<lambda>c. if c < 3 \<or> c = 9 then int c else -1)\<rparr>"

theorem fanout_bounded_witness:
  "q_bounded (sendto_channel_butone (\<lambda>_ m. m) length 1 1 5 (\<lambda>_. (''n'', replicate 600 CHR ''a'')) chat_net)"
proof -
  have "q_bounded chat_net" by (simp add: q_bounded_def chat_net_def quiet_net_def)
  then show ?thesis using fanout_bounded[of "\<lambda>_ m. m" chat_net] by blast
qed


text \<open>
  What a user's QUIT or change of nick shows: every client of this server that shares a channel
  with the user and has a descriptor gets exactly one line however many channels they share, the user one line if it
  is a client of this server, and nobody else anything.
\<close>

theorem common_channels_once:
  assumes "\<And>c m. same m (sl c m)" and "conns_ok n" and "\<And>i. sentalong n i \<le> current_serial n"
    and "m = sendto_common_channels sl blk user par rest n"
  shows "\<exists>rs. delivered m = delivered n @ map (line_for n user par rest) rs \<and>
    (\<forall>t. length (filter ((=) t) rs) =
       (if local_flag (cl n t) \<and>
           (t = user \<or> 0 \<le> nt_fd n t \<and> (\<exists>ch \<in> set (user_chans n user). t \<in> set (chan_members n ch))) then 1 else 0))"
proof -
  let ?ts = "concat (map (chan_members n) (user_chans n user))"
  define n0 where "n0 = note_user user (next_serial n)"
  define seen where "seen = {i. sentalong n0 i = current_serial n0}"
  have seen: "seen = (if 0 \<le> nt_fd n user then {nt_fd n user} else {})"
    using assms(3) by (auto simp: seen_def n0_def note_user_def note_sent_def next_serial_def) (metis Suc_n_not_le_n)+
  have n0: "clients (nt_irc n0) = clients (nt_irc n)" "nt_fd n0 = nt_fd n" "delivered n0 = delivered n"
    by (simp_all add: n0_def note_user_def note_sent_def next_serial_def)
  define n1 where "n1 = fold (common_copy sl blk False user par rest) ?ts n0"
  have n1: "delivered n1 = delivered n @ map (line_for n user par rest) (comm n seen ?ts)"
    "clients (nt_irc n1) = clients (nt_irc n)"
    using fold_comm[OF assms(1,2) n0(1,2) seen_def, where user = user and blk = blk and par = par and rest = rest and ts = ?ts]
      seen by (auto simp: n1_def n0(3))
  have m: "m = (if local_flag (cl n1 user) then vsendto_prefix_one sl blk user user par rest n1 else n1)"
    by (simp add: assms(4) sendto_common_channels_def n1_def n0_def fold_concat Let_def)
  define rs where "rs = comm n seen ?ts @ (if local_flag (cl n user) then [user] else [])"
  have "no_ghost n1 user user" if "local_flag (cl n user)"
    using that n1(2) by (auto simp: no_ghost_def MyClient_def IsPerson_def IsClient_def)
  then have d: "delivered m = delivered n @ map (line_for n user par rest) rs"
    using n1 prefix_one_delivers[of n1 user user sl blk par rest] deliver_sel(5)[OF assms(1)]
    by (auto simp: m rs_def line_for_def)
  have "length (filter ((=) t) rs) = (if local_flag (cl n t) \<and>
      (t = user \<or> 0 \<le> nt_fd n t \<and> (\<exists>ch \<in> set (user_chans n user). t \<in> set (chan_members n ch))) then 1 else 0)" for t
    using comm_once[OF assms(2), of t seen ?ts] assms(2) by (auto simp: rs_def seen conns_ok_def)
  with d show ?thesis by blast
qed

theorem common_channels_once_witness:
  "\<exists>rs. delivered (sendto_common_channels (\<lambda>_ m. m) length 1 ''n'' ''QUIT :bye'' chat_net) =
       map (line_for chat_net 1 ''n'' ''QUIT :bye'') rs \<and> length (filter ((=) 1) rs) = 1"
proof -
  have s: "sentalong chat_net i \<le> current_serial chat_net" "delivered chat_net = []" "local_flag (cl chat_net 1)" for i
    by (simp_all add: chat_net_def quiet_net_def)
  have c: "conns_ok chat_net"
    by (auto simp: conns_ok_def chat_net_def IsPerson_def IsClient_def split: if_splits)
  show ?thesis
    using common_channels_once[where sl = "\<lambda>_ m. m" and blk = length, OF same_refl c s(1) refl, of 1 "''n''" "''QUIT :bye''"] s
    by auto
qed

end
