(* ===== verification/Message.thy ===== *)
theory Message
  imports Private Flud SvLines Deliver
begin

text \<open>
  PRIVMSG and NOTICE, \<open>m_message\<close> of \<open>src/m_message.c\<close>, with \<open>MAX_MULTI_MESSAGES\<close> 1, \<open>FLUD\<close>, \<open>ANTI_SPAMBOT\<close>,
  \<open>ANTI_DRONE_FLOOD\<close>, \<open>NO_DUPE_MULTI_MESSAGES\<close> and \<open>MIRC_DCC_BUG_CHECK\<close>, and AWAY, \<open>src/m_away.c\<close>. What a message
  is handed to is a list of calls, which \<open>perform\<close> carries out on the queues of \<open>Deliver\<close>; replies and notices go to
  \<open>sent\<close>. Parameters, the look-ups of other files: \<open>fp\<close> for \<open>find_person\<close>, \<open>fs\<close> for \<open>find_server\<close>, \<open>fu\<close> for
  \<open>find_userhost\<close>; \<open>0\<close> is the null pointer.
\<close>

subsection \<open>Data\<close>

text \<open>The calls: of \<open>src/send.c\<close>, and of \<open>add_gline\<close> with \<open>apply_gline\<close>.\<close>

datatype outcall =
    ChannelButOne nat nat nat cstr cstr
  | ChannelType nat nat nat "32 word" cstr cstr cstr
  | PrefixOne nat nat cstr cstr
  | MatchButOne nat nat cstr bool cstr cstr
  | OneLine nat cstr
  | AddGline cstr cstr cstr time_t

record msg_conf =
  CheckTargetLimit :: bool
  ForceServicesAlias :: bool
  GLineOnSVline :: int
  DRONETIME :: int
  DRONECOUNT :: int
  Moderated_Msg :: cstr
  NoExternal_Msg :: cstr
  Banned_Msg :: cstr
  NoSpam_Msg :: cstr
  NoFlood_Msg :: cstr
  NoCTCP_Msg :: cstr
  NoDCCSend_Msg :: cstr
  ServicesInterval :: int
  ServicesUseCount :: int
  ServicesServer :: cstr

record msg_state =
  ms_flud :: flud_state
  ms_lines :: sv_lines
  ms_conf :: msg_conf
  ms_out :: "outcall list"
  received :: "nat \<Rightarrow> int"
  first_received :: "nat \<Rightarrow> time_t"
  drone_noticed :: "nat \<Rightarrow> int"
  queue_len :: "nat \<Rightarrow> int"
  queue_max :: "nat \<Rightarrow> int"
  global_clients :: "nat list"
  last_services_use :: "nat \<Rightarrow> time_t"
  number_of_services_use :: "nat \<Rightarrow> int"

abbreviation ms_irc :: "msg_state \<Rightarrow> ircd" where
  "ms_irc s \<equiv> fl_irc (ms_flud s)"

definition ms_upd :: "(ircd \<Rightarrow> ircd) \<Rightarrow> msg_state \<Rightarrow> msg_state" where
  "ms_upd f s = s\<lparr>ms_flud := (ms_flud s)\<lparr>fl_irc := f (ms_irc s)\<rparr>\<rparr>"

definition ms_call :: "outcall \<Rightarrow> msg_state \<Rightarrow> msg_state" where
  "ms_call c s = s\<lparr>ms_out := ms_out s @ [c]\<rparr>"

definition UMODE_NODCC :: "32 word" where "UMODE_NODCC = 0x00400000"
definition FLAGS_AUTOAWAY :: "32 word" where "FLAGS_AUTOAWAY = 0x20000"
definition MAX_JOIN_LEAVE_COUNT :: int where "MAX_JOIN_LEAVE_COUNT = 5"

subsection \<open>AWAY\<close>

definition unaway :: "nat \<Rightarrow> cstr \<Rightarrow> ircd \<Rightarrow> ircd" where
  "unaway sptr name s =
     (let s1 = send ToServers ('':'' @ name @ '' AWAY'') (upd_client sptr (\<lambda>c. c\<lparr>u_away := None\<rparr>) s) in
      if local_flag (clients s1 sptr) then numeric sptr ''305'' name '':You are no longer marked as being away'' s1 else s1)"

definition m_away :: "nat \<Rightarrow> cstr list \<Rightarrow> sv_lines \<Rightarrow> ircd \<Rightarrow> ircd" where
  "m_away sptr parv ls s =
     (let c = clients s sptr; name = parv ! 0; blank = (length parv < 2 \<or> parv ! 1 = []);
          hit = (\<lambda>m. if IsOper c then None else is_msgvlined (strip_control_codes_lower m) ls) in
      if \<not> has_user c then s
      else if \<not> blank \<and> hit (parv ! 1) \<noteq> None then
        send (ToOne sptr) ('':'' @ me_name (cfg s) @ '' NOTICE '' @ name @ '' :'' @
          reason_text (xl_reason (the (hit (parv ! 1))))) s
      else if blank then unaway sptr name s
      else
        (let a = take TOPICLEN (parv ! 1); awy = (if hit a \<noteq> None then [] else a);
             s1 = upd_client sptr (\<lambda>x. x\<lparr>u_away := Some awy\<rparr>) (send ToServers ('':'' @ name @ '' AWAY :'' @ awy) s) in
         if local_flag c then numeric sptr ''306'' name '':You have been marked as being away'' s1 else s1))"

definition remove_autoaway :: "nat \<Rightarrow> ircd \<Rightarrow> ircd" where
  "remove_autoaway u s =
     (let c = clients s u in
      if has (c_flags c) FLAGS_AUTOAWAY \<and> has_user c \<and> u_away c \<noteq> None then
        upd_client u (\<lambda>x. x\<lparr>c_flags := c_flags x AND NOT FLAGS_AUTOAWAY\<rparr>)
          (send (ToOne u) ('':'' @ me_name (cfg s) @ '' NOTICE '' @ c_name c @ '' :Auto-Away was removed'')
            (unaway u (c_name c) s))
      else s)"

subsection \<open>Before the target\<close>

definition cmd_of :: "bool \<Rightarrow> cstr" where
  "cmd_of notice = (if notice then ''NOTICE'' else ''PRIVMSG'')"

text \<open>A message that matches an SV-line is blocked; the host may be G-lined for a time.\<close>

definition blocked_message :: "nat \<Rightarrow> nat \<Rightarrow> cstr list \<Rightarrow> xline \<Rightarrow> msg_state \<Rightarrow> msg_state" where
  "blocked_message cptr sptr parv l s =
     (let me = me_name (cfg (ms_irc s)); c = clients (ms_irc s) sptr; cf = ms_conf s;
          host = c_realhost (clients (ms_irc s) cptr); why = ''Auto GLined for triggering a SVline'';
          s1 = ms_upd (\<lambda>x. send ToOps (''Blocked svlined message (from '' @ c_name c @ ''): '' @ parv ! 2)
                 (send (ToOne sptr) ('':'' @ me @ '' NOTICE '' @ parv ! 0 @ '' :'' @ reason_text (xl_reason l)) x)) s in
      if 0 < GLineOnSVline cf then
        ms_call (AddGline ''*'' host why (CurrentTime (ms_irc s) + GLineOnSVline cf))
          (ms_upd (send ToServers ('':'' @ me @ '' GLINE *@'' @ host @ '' '' @ dec (GLineOnSVline cf) @ '' '' @ me @ '' :'' @ why)) s1)
      else s1)"

text \<open>A CTCP to a channel is counted; only the state changes.\<close>

definition flud_channel :: "bool \<Rightarrow> nat \<Rightarrow> nat \<Rightarrow> cstr \<Rightarrow> msg_state \<Rightarrow> ub + msg_state" where
  "flud_channel notice sptr ch msg s =
     (if notice then Inr s
      else case check_for_ctcp msg of
        Inl e \<Rightarrow> Inl e
      | Inr r \<Rightarrow> Inr (if r \<noteq> 0 then s\<lparr>ms_flud := fst (check_for_flud sptr (Some (FludChan ch)) (ms_flud s))\<rparr> else s))"

definition target_limited :: "nat \<Rightarrow> nat \<Rightarrow> cstr \<Rightarrow> cstr \<Rightarrow> msg_state \<Rightarrow> msg_state \<times> bool" where
  "target_limited sptr t name msg s =
     (if CheckTargetLimit (ms_conf s) \<and> MyClient (clients (ms_irc s) sptr) then
        let (d, b) = check_target_limit sptr t name False msg (ms_irc s) in (ms_upd (\<lambda>_. d) s, b)
      else (s, False))"

subsection \<open>To a channel\<close>

definition refusal :: "msg_conf \<Rightarrow> int \<Rightarrow> cstr" where
  "refusal cf r =
     (if r = uint MODE_MODERATED then Moderated_Msg cf else if r = uint MODE_NOPRIVMSGS then NoExternal_Msg cf
      else if r = uint MODE_BAN then Banned_Msg cf else if r = uint MODE_NOSPAM then NoSpam_Msg cf
      else if r = uint MODE_NOFLOOD then NoFlood_Msg cf else NoCTCP_Msg cf)"

text \<open>The results: undefined behaviour, \<open>Inr (s, None)\<close> for the end of the loop body, \<open>Inr (s, Some r)\<close> for a return.\<close>

definition to_channel ::
  "bool \<Rightarrow> nat \<Rightarrow> nat \<Rightarrow> cstr list \<Rightarrow> cstr \<Rightarrow> nat \<Rightarrow> msg_state \<Rightarrow> ub + (msg_state \<times> int option)" where
  "to_channel notice cptr sptr parv nick ch s =
     (case flud_channel notice sptr ch (parv ! 2) (ms_upd (remove_autoaway sptr) s) of
        Inl e \<Rightarrow> Inl e
      | Inr s1 \<Rightarrow>
          let (d, r) = can_send sptr ch (parv ! 2) (ms_irc s1); s2 = ms_upd (\<lambda>_. d) s1 in
          if r = 0 then
            let (s3, limited) = target_limited sptr ch (chname (chans (ms_irc s2) ch)) (parv ! 2) s2 in
            if limited then Inr (s3, Some 0)
            else
              let msg = (if MyClient (clients (ms_irc s3) sptr) \<and> has (md_mode (mode (chans (ms_irc s3) ch))) MODE_NOCOLORS
                         then strip_control_codes (parv ! 2) else parv ! 2) in
              Inr (ms_call (ChannelButOne cptr sptr ch (parv ! 0) (cmd_of notice @ '' '' @ nick @ '' :'' @ msg)) s3, None)
          else if \<not> notice \<and> r \<noteq> uint MODE_FLOODLIMIT then
            Inr (ms_upd (numeric sptr ''404'' (parv ! 0)
              (nick @ '' :Cannot send to channel ('' @ refusal (ms_conf s2) r @ '')'')) s2, None)
          else Inr (s2, None))"

text \<open>A target that starts with \<open>@\<close> or \<open>+\<close>: to those with the rank. The line that refuses it lacks its last argument.\<close>

definition to_ranked ::
  "bool \<Rightarrow> nat \<Rightarrow> nat \<Rightarrow> cstr list \<Rightarrow> cstr \<Rightarrow> msg_state \<Rightarrow> ub + (msg_state \<times> int option)" where
  "to_ranked notice cptr sptr parv nick s =
     (let both = MODE_CHANOP OR CHFL_VOICE;
          twice = (at nick 1 = CHR ''@'' \<or> at nick 1 = CHR ''+'');
          type = (if twice then both else if hd0 nick = CHR ''@'' then MODE_CHANOP else both);
          nk = (if twice then CHR ''@'' # drop 2 nick else nick) in
      case lookup_channel (tl nk) (ms_irc s) of
        None \<Rightarrow> Inr (ms_upd (numeric sptr ''401'' (parv ! 0) (nk @ '' :No such nick/channel'')) s, None)
      | Some ch \<Rightarrow>
          (case flud_channel notice sptr ch (parv ! 2) (ms_upd (remove_autoaway sptr) s) of
             Inl e \<Rightarrow> Inl e
           | Inr s1 \<Rightarrow>
               let d = ms_irc s1 in
               if MyClient (clients d cptr) \<and> \<not> IsService (clients d sptr) \<and> is_chan_op sptr ch d = 0 then
                 (if \<not> notice then Inl MissingArgument else Inr (s1, None))
               else Inr (ms_call (ChannelType cptr sptr ch type (tl nk) (cmd_of notice) (parv ! 2)) s1, Some 0)))"

subsection \<open>To the services, \<open>src/s_services.c\<close>\<close>

definition exceed_services_usage :: "nat \<Rightarrow> msg_state \<Rightarrow> msg_state \<times> bool" where
  "exceed_services_usage u s =
     (let d = ms_irc s; c = clients d u; cf = ms_conf s;
          n = (if last_services_use s u + ServicesInterval cf < CurrentTime d then 0 else number_of_services_use s u) + 1;
          s1 = s\<lparr>last_services_use := (last_services_use s)(u := CurrentTime d),
                  number_of_services_use := (number_of_services_use s)(u := n)\<rparr> in
      if IsAnOper c then (s, False)
      else if ServicesUseCount cf < n then
        (ms_upd (send (ToOne u) ('':'' @ me_name (cfg d) @ '' NOTICE '' @ c_name c @
           '' :*** Notice -- Excessive services usage, wait '' @ dec (ServicesInterval cf) @
           '' seconds before using services again.'')) s1, True)
      else (s1, False))"

text \<open>The common body of the commands of the services below.\<close>

definition m_service ::
  "(cstr \<Rightarrow> ircd \<Rightarrow> nat) \<Rightarrow> cstr \<Rightarrow> cstr \<Rightarrow> nat \<Rightarrow> cstr list \<Rightarrow> msg_state \<Rightarrow> msg_state \<times> int" where
  "m_service fs nm pre sptr parv s =
     (if IsZombie (clients (ms_irc s) sptr) then (s, -1)
      else
        let (s1, over) = exceed_services_usage sptr s; d = ms_irc s1; srv = ServicesServer (ms_conf s1) in
        if over then (s1, -1)
        else if length parv < 2 \<or> parv ! 1 = [] then (ms_upd (numeric sptr ''412'' (parv ! 0) '':No text to send'') s1, -1)
        else if services_on (cfg d) \<and> fs srv d \<noteq> 0 then
          (ms_call (OneLine (fs srv d) ('':'' @ parv ! 0 @ '' PRIVMSG '' @ nm @ ''@'' @ srv @ '' :'' @ pre @ parv ! 1)) s1, 0)
        else (ms_upd (numeric sptr ''440'' (parv ! 0) (nm @ '' :Services is currently down. Please wait a few moments, and then try again.'')) s1, 0))"

definition m_operserv ::
  "(cstr \<Rightarrow> ircd \<Rightarrow> nat) \<Rightarrow> nat \<Rightarrow> nat \<Rightarrow> cstr list \<Rightarrow> msg_state \<Rightarrow> msg_state \<times> int" where
  "m_operserv fs cptr sptr parv s =
     (if \<not> IsPrivileged (clients (ms_irc s) cptr) then (ms_upd (sv_denied sptr parv) s, 0)
      else m_service fs ''OperServ'' [] sptr parv s)"

type_synonym service_cmd = "nat \<Rightarrow> cstr list \<Rightarrow> msg_state \<Rightarrow> msg_state \<times> int"

definition m_nickserv :: "(cstr \<Rightarrow> ircd \<Rightarrow> nat) \<Rightarrow> service_cmd" where "m_nickserv fs = m_service fs ''NickServ'' []"
definition m_chanserv :: "(cstr \<Rightarrow> ircd \<Rightarrow> nat) \<Rightarrow> service_cmd" where "m_chanserv fs = m_service fs ''ChanServ'' []"
definition m_statserv :: "(cstr \<Rightarrow> ircd \<Rightarrow> nat) \<Rightarrow> service_cmd" where "m_statserv fs = m_service fs ''StatServ'' []"
definition m_memoserv :: "(cstr \<Rightarrow> ircd \<Rightarrow> nat) \<Rightarrow> service_cmd" where "m_memoserv fs = m_service fs ''MemoServ'' []"
definition m_newsserv :: "(cstr \<Rightarrow> ircd \<Rightarrow> nat) \<Rightarrow> service_cmd" where "m_newsserv fs = m_service fs ''NewsServ'' []"
definition m_botserv :: "(cstr \<Rightarrow> ircd \<Rightarrow> nat) \<Rightarrow> service_cmd" where "m_botserv fs = m_service fs ''BotServ'' []"
definition m_helpserv :: "(cstr \<Rightarrow> ircd \<Rightarrow> nat) \<Rightarrow> service_cmd" where "m_helpserv fs = m_service fs ''HelpServ'' []"
definition m_identify :: "(cstr \<Rightarrow> ircd \<Rightarrow> nat) \<Rightarrow> service_cmd" where "m_identify fs = m_service fs ''NickServ'' ''IDENTIFY ''"

subsection \<open>To a user\<close>

text \<open>The services that have a command of their own; the lengths are those compared.\<close>

definition service_aliases :: "(cstr \<times> nat) list" where
  "service_aliases = [(''NickServ'', 8), (''ChanServ'', 8), (''MemoServ'', 8), (''NewsServ'', 8), (''OperServ'', 8),
     (''StatServ'', 8), (''BotServ'', 7)]"

text \<open>The command is run with the service itself as its source. The notice for \<open>StatServ\<close> passes the client block where
  its name is meant.\<close>

definition to_service ::
  "(cstr \<Rightarrow> ircd \<Rightarrow> nat) \<Rightarrow> nat \<Rightarrow> nat \<Rightarrow> nat \<Rightarrow> cstr list \<Rightarrow> msg_state \<Rightarrow> (ub + (msg_state \<times> int option)) option" where
  "to_service fs cptr sptr a parv s =
     (let d = ms_irc s; nm = c_name (clients d a) in
      case List.find (\<lambda>(sv, k). strncasecmp_eq nm sv k) service_aliases of
        None \<Rightarrow> None
      | Some (sv, k) \<Rightarrow> Some
          (if ForceServicesAlias (ms_conf s) \<and> hd0 (parv ! 2) \<noteq> CTCP then
             if sv = ''StatServ'' then Inl MissingArgument
             else Inr (ms_upd (send (ToOne cptr) ('':'' @ me_name (cfg d) @ '' NOTICE '' @ c_name (clients d sptr) @
               '' :For this service please use /'' @ nm)) s, Some (-1))
           else
             let (s1, r) = (if sv = ''OperServ'' then m_operserv fs cptr a [parv ! 0, parv ! 2] s
                            else m_service fs sv [] a [parv ! 0, parv ! 2] s) in Inr (s1, Some r)))"

definition pos_of :: "char \<Rightarrow> cstr \<Rightarrow> nat option" where
  "pos_of c xs = (if c \<in> set xs then Some (length (takeWhile (\<lambda>x. x \<noteq> c) xs)) else None)"

text \<open>The file name of a DCC, copied into a buffer of 255 bytes.\<close>

definition dcc_name :: "cstr \<Rightarrow> ub + cstr option" where
  "dcc_name msg =
     (let quoted = (at msg 10 = CHR 0x22); sfn = drop (if quoted then 11 else 10) msg;
          len = (case pos_of (if quoted then CHR 0x22 else CHR '' '') (tl sfn) of
                   None \<Rightarrow> length msg
                 | Some p \<Rightarrow> if quoted then p else Suc p);
          k = min len 255 in
      if k = 0 then Inr None else if k = 255 then Inl OutOfBounds else Inr (Some (take k sfn)))"

definition is_dcc :: "cstr \<Rightarrow> bool" where
  "is_dcc msg \<longleftrightarrow> hd0 msg = CTCP \<and> 11 < length msg \<and>
     (strncasecmp_eq (tl msg) ''DCC SEND'' 8 \<or> strncasecmp_eq (tl msg) ''DCC RESUME'' 10)"

definition space_count :: "cstr \<Rightarrow> nat" where
  "space_count m = length (filter (\<lambda>c. c = CHR '' '') m)"

definition dcc_denied :: "nat \<Rightarrow> cstr \<Rightarrow> cstr \<Rightarrow> xline \<Rightarrow> msg_state \<Rightarrow> msg_state" where
  "dcc_denied sptr name file l s =
     ms_upd (\<lambda>d. let c = clients d sptr; me = me_name (cfg d) in
       send ToServers ('':'' @ me @ '' DCCDENY '' @ name @ '' :SVLined on file '' @ file)
         (upd_client sptr (\<lambda>x. x\<lparr>c_umodes := c_umodes x OR UMODE_NODCC\<rparr>)
           (send ToOps (''DCC deny on '' @ [CHR 0x02] @ c_name c @ ''!'' @ c_username c @ ''@'' @ c_realhost c @ [CHR 0x02] @
              '' SVLined on file '' @ [CHR 0x02] @ ''['' @ [CHR 0x02] @ file @ [CHR 0x02] @ '']'' @ [CHR 0x02])
             (send (ToOne sptr) ('':'' @ me @ '' NOTICE '' @ c_name c @
                (case xl_reason l of Some r \<Rightarrow> '' :You can't send the file, reason: '' @ r
                 | None \<Rightarrow> '' :'' @ NoDCCSend_Msg (ms_conf s))) d)))) s"

text \<open>\<open>True\<close>: the message is dropped, with the result -1.\<close>

definition check_dcc :: "nat \<Rightarrow> cstr \<Rightarrow> cstr \<Rightarrow> msg_state \<Rightarrow> ub + (msg_state \<times> bool)" where
  "check_dcc sptr name msg s =
     (let d = ms_irc s; c = clients d sptr in
      if has (c_umodes c) UMODE_NODCC then
        Inr (ms_upd (send (ToOne sptr) ('':'' @ me_name (cfg d) @ '' NOTICE '' @ c_name c @ '' :'' @
          NoDCCSend_Msg (ms_conf s))) s, True)
      else case dcc_name msg of
        Inl e \<Rightarrow> Inl e
      | Inr None \<Rightarrow> Inr (s, False)
      | Inr (Some file) \<Rightarrow>
          if 10 < space_count (drop (if at msg 10 = CHR 0x22 then 11 else 10) msg) then
            Inr (ms_upd (send ToOps (''mIRC DCC bug exploit attempt from '' @ c_name c)) s, True)
          else case is_svlined file (ms_lines s) of
            None \<Rightarrow> Inr (s, False)
          | Some l \<Rightarrow> Inr (dcc_denied sptr name file l s, True))"

text \<open>The protection of a client that gets many messages while its queue is long; \<open>True\<close> drops the message.\<close>

definition drone_alarm :: "nat \<Rightarrow> nat \<Rightarrow> msg_state \<Rightarrow> msg_state" where
  "drone_alarm sptr a s =
     (let c = clients (ms_irc s) sptr; nm = c_name (clients (ms_irc s) a);
          said = (\<lambda>w. '':'' @ me_name (cfg (ms_irc s)) @ '' NOTICE '' @ nm @
             '' :*** Notice -- Server drone flood protection '' @ w @ '' for '' @ nm);
          s1 = (if drone_noticed s a = 0 then
                  (ms_upd (send ToOps (''Possible Drone Flooder '' @ c_name c @ '' ['' @ c_username c @ ''@'' @ c_host c @
                     ''] on '' @ u_server c @ '' target: '' @ nm)) s)\<lparr>drone_noticed := (drone_noticed s)(a := 1)\<rparr> else s);
          s2 = (if queue_max s a div 2 < queue_len s a \<and> drone_noticed s1 a = 1 then
                  (ms_upd (\<lambda>d. send (ToOne a) (said ''activated'')
                     (send ToOps (''ANTI_DRONE_FLOOD SendQ protection activated for '' @ nm) d)) s1)
                    \<lparr>drone_noticed := (drone_noticed s1)(a := 2)\<rparr> else s1);
          s3 = (if queue_len s a \<le> queue_max s a div 4 \<and> drone_noticed s2 a = 2 then
                  (ms_upd (send (ToOne a) (said ''de-activated'')) s2)\<lparr>drone_noticed := (drone_noticed s2)(a := 1)\<rparr> else s2) in
      s3)"

definition check_drone :: "nat \<Rightarrow> nat \<Rightarrow> msg_state \<Rightarrow> msg_state \<times> bool" where
  "check_drone sptr a s =
     (let c = clients (ms_irc s) sptr; now = CurrentTime (ms_irc s) in
      if \<not> (local_flag (clients (ms_irc s) a) \<and> IsClient c \<and> \<not> IsService c \<and> \<not> IsAnOper c \<and> DRONETIME (ms_conf s) \<noteq> 0)
      then (s, False)
      else if first_received s a + DRONETIME (ms_conf s) < now then
        (s\<lparr>received := (received s)(a := 1), first_received := (first_received s)(a := now),
           drone_noticed := (drone_noticed s)(a := 0)\<rparr>, False)
      else if DRONECOUNT (ms_conf s) < received s a then
        (let s1 = drone_alarm sptr a s in (s1, 1 < drone_noticed s1 a))
      else (s\<lparr>received := (received s)(a := received s a + 1)\<rparr>, False))"

text \<open>What is left once the message may go to a user: CTCP floods, drones, the AWAY reply, the line.\<close>

definition pass_on ::
  "bool \<Rightarrow> nat \<Rightarrow> nat \<Rightarrow> cstr list \<Rightarrow> cstr \<Rightarrow> msg_state \<Rightarrow> ub + (msg_state \<times> int option)" where
  "pass_on notice sptr a parv nick s =
     (let ctcp = (if \<not> notice \<and> local_flag (clients (ms_irc s) a) then check_for_ctcp (parv ! 2) else Inr 0) in
      case ctcp of
        Inl e \<Rightarrow> Inl e
      | Inr r \<Rightarrow>
          let (f, flood) = (if r \<noteq> 0 then check_for_flud sptr (Some (FludClient a)) (ms_flud s) else (ms_flud s, False));
              s1 = s\<lparr>ms_flud := f\<rparr> in
          if flood then Inr (s1, Some 0)
          else
            let (s2, drop_it) = check_drone sptr a s1 in
            if drop_it then Inr (s2, Some 0)
            else
              let t = clients (ms_irc s2) a;
                  s3 = (if \<not> notice \<and> local_flag (clients (ms_irc s2) sptr) \<and> has_user t \<and> u_away t \<noteq> None
                        then ms_upd (numeric sptr ''301'' (parv ! 0) (c_name t @ '' :'' @ the (u_away t))) s2 else s2) in
              Inr (ms_call (PrefixOne a sptr (parv ! 0) (cmd_of notice @ '' '' @ nick @ '' :'' @ parv ! 2)) s3, None))"

definition to_user ::
  "(cstr \<Rightarrow> ircd \<Rightarrow> nat) \<Rightarrow> bool \<Rightarrow> nat \<Rightarrow> nat \<Rightarrow> cstr list \<Rightarrow> cstr \<Rightarrow> nat \<Rightarrow> msg_state \<Rightarrow> ub + (msg_state \<times> int option)" where
  "to_user fs notice cptr sptr parv nick a s =
     (let s1 = ms_upd (remove_autoaway sptr) s; d = ms_irc s1; c = clients d sptr in
      if \<not> IsService c \<and> \<not> IsIdentified c \<and> (IsRegMsg (clients d a) \<or> secure_mode (cfg d)) then Inr (s1, Some (-1))
      else
        let (d1, silenced) = is_silenced sptr a d; s2 = ms_upd (\<lambda>_. d1) s1 in
        if silenced then Inr (s2, Some (-1))
        else
          let (s3, limited) = target_limited sptr a (c_name (clients (ms_irc s2) a)) (parv ! 2) s2;
              mine = MyClient (clients (ms_irc s3) sptr) in
          if limited then Inr (s3, Some 0)
          else case (if mine then to_service fs cptr sptr a parv s3 else None) of
            Some r \<Rightarrow> r
          | None \<Rightarrow>
              (case (if \<not> notice \<and> mine \<and> is_dcc (parv ! 2) then check_dcc sptr (parv ! 0) (parv ! 2) s3 else Inr (s3, False)) of
                 Inl e \<Rightarrow> Inl e
               | Inr (s4, denied) \<Rightarrow> if denied then Inr (s4, Some (-1)) else pass_on notice sptr a parv nick s4))"

subsection \<open>Masks, and users of a server\<close>

definition to_mask ::
  "bool \<Rightarrow> nat \<Rightarrow> nat \<Rightarrow> cstr list \<Rightarrow> cstr \<Rightarrow> msg_state \<Rightarrow> msg_state \<times> int option" where
  "to_mask notice cptr sptr parv nick s =
     (let d = ms_irc s; c = clients d sptr in
      if \<not> IsAnOper c \<and> \<not> IsService c then
        (ms_upd (numeric sptr ''401'' (parv ! 0) (nick @ '' :No such nick/channel'')) s, Some (-1))
      else (ms_call (MatchButOne (if IsServer (clients d cptr) then cptr else 0) sptr (tl nick) (hd0 nick = CHR ''#'')
              (parv ! 0) (cmd_of notice @ '' '' @ nick @ '' :'' @ parv ! 2)) s, None))"

text \<open>\<open>find_userhost\<close> of \<open>src/client.c\<close>: the last match and how many there are. \<open>collapse\<close> shortens the name in place.\<close>

definition find_userhost :: "cstr \<Rightarrow> cstr option \<Rightarrow> nat list \<Rightarrow> ircd \<Rightarrow> nat \<times> nat" where
  "find_userhost user host gs d =
     (let hits = filter (\<lambda>c. MyClient (clients d c) \<and> (case host of None \<Rightarrow> True | Some h \<Rightarrow> match h (c_host (clients d c))) \<and>
            irccmp (collapse user) (c_username (clients d c)) = 0) gs in
      (if hits = [] then 0 else last hits, length hits))"

definition to_address ::
  "(cstr \<Rightarrow> ircd \<Rightarrow> nat) \<Rightarrow> bool \<Rightarrow> nat \<Rightarrow> nat \<Rightarrow> cstr list \<Rightarrow> cstr \<Rightarrow> msg_state \<Rightarrow> msg_state" where
  "to_address fs notice cptr sptr parv nick s =
     (let d = ms_irc s; c = clients d sptr; line = (\<lambda>nk. cmd_of notice @ '' '' @ nk @ '' :'' @ parv ! 2);
          nobody = (\<lambda>nk. ms_upd (numeric sptr ''401'' (parv ! 0) (nk @ '' :No such nick/channel'')) s) in
      case strchr nick (CHR ''@'') of
        None \<Rightarrow> nobody nick
      | Some server \<Rightarrow>
          let a = fs (tl server) d; local = takeWhile (\<lambda>x. x \<noteq> CHR ''@'') nick in
          if a = 0 then nobody nick
          else if CHR ''%'' \<in> set nick \<and> \<not> IsAnOper c then nobody nick
          else if c_status (clients d a) \<noteq> STAT_ME then ms_call (OneLine a ('':'' @ parv ! 0 @ '' '' @ line nick)) s
          else if irccmp local ''opers'' = 0 \<and> IsAnOper c then
            ms_upd (send ToOps (''To opers: From '' @ c_name c @ '': '' @ parv ! 2)) s
          else
            let user = takeWhile (\<lambda>x. x \<noteq> CHR ''%'') local;
                host = map_option tl (strchr local (CHR ''%''));
                nk = (if collapse user = user then nick else collapse user);
                (t, k) = find_userhost user host (global_clients s) d in
            if t = 0 then nobody nk
            else if k = 1 then ms_call (PrefixOne t sptr (parv ! 0) (line nk)) s
            else if \<not> notice then ms_upd (numeric sptr ''407'' (parv ! 0) (nk @ '' :Too many recipients. Only 1 processed'')) s
            else s)"

subsection \<open>The command\<close>

definition one_target ::
  "(cstr \<Rightarrow> ircd \<Rightarrow> nat) \<Rightarrow> (cstr \<Rightarrow> ircd \<Rightarrow> nat) \<Rightarrow> bool \<Rightarrow> nat \<Rightarrow> nat \<Rightarrow> cstr list \<Rightarrow> cstr \<Rightarrow> msg_state \<Rightarrow>
     ub + (msg_state \<times> int option)" where
  "one_target fp fs notice cptr sptr parv nick s =
     (let d = ms_irc s;
          ch = (if IsChanPrefix (hd0 nick) \<and> IsPerson (clients d sptr) then lookup_channel nick d else None);
          nk = dropWhile (\<lambda>x. x \<in> {CHR ''.'', CHR ''@'', CHR ''+''}) nick in
      case ch of
        Some ch \<Rightarrow> to_channel notice cptr sptr parv nick ch s
      | None \<Rightarrow>
          if hd0 nick \<in> {CHR ''@'', CHR ''+''} then to_ranked notice cptr sptr parv nick s
          else if fp nk d \<noteq> 0 then to_user fs notice cptr sptr parv nk (fp nk d) s
          else if hd0 nk \<in> {CHR ''$'', CHR ''#''} then Inr (to_mask notice cptr sptr parv nk s)
          else Inr (to_address fs notice cptr sptr parv nk s, None))"

text \<open>What \<open>strtok\<close> makes of the list of targets, from which a local client's duplicates have gone.\<close>

definition target_items :: "client \<Rightarrow> cstr \<Rightarrow> cstr list" where
  "target_items c l =
     (let list = if local_flag c \<and> CHR '','' \<in> set l then canonize l else l; items = strtokens '','' (Some list) in
      if items = [] then [list] else items)"

definition m_message ::
  "(cstr \<Rightarrow> ircd \<Rightarrow> nat) \<Rightarrow> (cstr \<Rightarrow> ircd \<Rightarrow> nat) \<Rightarrow> bool \<Rightarrow> nat \<Rightarrow> nat \<Rightarrow> cstr list \<Rightarrow> msg_state \<Rightarrow>
     ub + (msg_state \<times> int)" where
  "m_message fp fs notice cptr sptr parv s =
     (let d = ms_irc s; c = clients d sptr;
          vline = (if local_flag c \<and> \<not> IsOper c then is_msgvlined (strip_control_codes_lower (parv ! 2)) (ms_lines s) else None);
          items = target_items c (parv ! 1) in
      if length parv < 2 \<or> parv ! 1 = [] then
        Inr (ms_upd (numeric sptr ''411'' (parv ! 0) ('':No recipient given ('' @ cmd_of notice @ '')'')) s, -1)
      else if length parv < 3 \<or> parv ! 2 = [] then Inr (ms_upd (numeric sptr ''412'' (parv ! 0) '':No text to send'') s, -1)
      else if IsZombie c \<or> IsStealth c then Inr (s, 0)
      else case vline of
        Some l \<Rightarrow> Inr (blocked_message cptr sptr parv l s, 0)
      | None \<Rightarrow>
          if local_flag c \<and> MAX_JOIN_LEAVE_COUNT \<le> join_leave_count c then Inr (s, 0)
          else
            (case one_target fp fs notice cptr sptr parv (hd items) s of
               Inl e \<Rightarrow> Inl e
             | Inr (s1, Some r) \<Rightarrow> Inr (s1, r)
             | Inr (s1, None) \<Rightarrow>
                 Inr (if notice \<and> 1 < length items then
                        ms_upd (send (ToOne sptr) ('':'' @ me_name (cfg d) @ '' NOTICE '' @ parv ! 0 @
                          '' :Too many targets on NOTICE, for ONOTICE please use /notice @#channel message'')) s1
                      else s1, 0)))"

definition m_private ::
  "(cstr \<Rightarrow> ircd \<Rightarrow> nat) \<Rightarrow> (cstr \<Rightarrow> ircd \<Rightarrow> nat) \<Rightarrow> nat \<Rightarrow> nat \<Rightarrow> cstr list \<Rightarrow> msg_state \<Rightarrow> ub + (msg_state \<times> int)" where
  "m_private fp fs = m_message fp fs False"

definition m_notice ::
  "(cstr \<Rightarrow> ircd \<Rightarrow> nat) \<Rightarrow> (cstr \<Rightarrow> ircd \<Rightarrow> nat) \<Rightarrow> nat \<Rightarrow> nat \<Rightarrow> cstr list \<Rightarrow> msg_state \<Rightarrow> ub + (msg_state \<times> int)" where
  "m_notice fp fs = m_message fp fs True"

subsection \<open>What a message can do\<close>

lemma ms_upd_sel [simp]:
  "ms_out (ms_upd f s) = ms_out s" "ms_irc (ms_upd f s) = f (ms_irc s)" "ms_conf (ms_upd f s) = ms_conf s"
  "ms_lines (ms_upd f s) = ms_lines s" "global_clients (ms_upd f s) = global_clients s"
  by (simp_all add: ms_upd_def)

lemma ms_call_sel [simp]:
  "ms_out (ms_call c s) = ms_out s @ [c]" "ms_irc (ms_call c s) = ms_irc s" "ms_conf (ms_call c s) = ms_conf s"
  by (simp_all add: ms_call_def)

text \<open>The daemon's state but for what was sent.\<close>

definition but_sent :: "ircd \<Rightarrow> ircd \<Rightarrow> bool" where
  "but_sent d e \<longleftrightarrow> (\<exists>l. e = d\<lparr>sent := l\<rparr>)"

lemma but_sent_refl [simp]: "but_sent d d"
  unfolding but_sent_def by (rule exI[of _ "sent d"]) simp

lemma but_sent_send [simp]: "but_sent d (send t m e) \<longleftrightarrow> but_sent d e"
proof -
  have "d\<lparr>sent := sent e\<rparr> = e" if "send t m e = d\<lparr>sent := l\<rparr>" for l
    using that by (cases d, cases e) (simp add: send_def)
  then show ?thesis unfolding but_sent_def by (metis send_def ircd.surjective ircd.update_convs(8))
qed

lemma but_sent_fold: "(\<And>x s. fl_irc (f x s) = fl_irc s \<or> (\<exists>t m. fl_irc (f x s) = send t m (fl_irc s))) \<Longrightarrow>
    but_sent d (fl_irc s) \<Longrightarrow> but_sent d (fl_irc (fold f xs s))"
proof (induction xs arbitrary: s)
  case (Cons x xs)
  have "but_sent d (fl_irc (f x s))" using Cons.prems(1)[of x s] Cons.prems(2) by auto
  then show ?case using Cons.IH[OF Cons.prems(1)] by simp
qed simp

lemma flud_but_sent: "but_sent (fl_irc s) (fl_irc (fst (check_for_flud c t s)))"
proof -
  have a: "\<exists>t m. fl_irc (announce_fluder k u x) = send t m (fl_irc x)" for k u x
    by (auto simp: announce_fluder_def Let_def fl_send_def)
  have g: "fl_irc (collect_garbage k x) = fl_irc x" for k x
  proof -
    have "fl_irc (fold (\<lambda>f. forget_sender k (fluder f)) fs x) = fl_irc x" for fs
      by (induction fs arbitrary: x) (simp_all add: forget_sender_def)
    then show ?thesis by (simp add: collect_garbage_def Let_def)
  qed
  have c: "but_sent d (fl_irc (fst (count_message k u b x))) \<longleftrightarrow> but_sent d (fl_irc x)" for k u b x d
    using a[of k u] by (auto simp: count_message_def Let_def announce_fluder_def fl_send_def)
  have r: "but_sent d (fl_irc x) \<Longrightarrow> but_sent d (fl_irc (raise_alarm k x))" for k x d
    unfolding raise_alarm_def Let_def
    by (rule but_sent_fold) (use a in \<open>auto simp: fl_send_def\<close>)
  show ?thesis
    by (auto simp: check_for_flud_def Let_def fl_send_def c g r split: option.splits prod.splits)
      (metis c g r fst_conv but_sent_refl)+
qed

lemma flud_channel_sel:
  "flud_channel notice u ch m s = Inr s1 \<Longrightarrow> ms_out s1 = ms_out s \<and> but_sent (ms_irc s) (ms_irc s1)"
  by (auto simp: flud_channel_def flud_but_sent split: if_splits sum.splits)

lemma target_limited_sel: "target_limited u t nm m s = (s1, b) \<Longrightarrow> ms_out s1 = ms_out s"
  by (auto simp: target_limited_def split: if_splits prod.splits)

lemma check_dcc_sel: "check_dcc u nm m s = Inr (s1, b) \<Longrightarrow> ms_out s1 = ms_out s"
  by (auto simp: check_dcc_def dcc_denied_def Let_def split: if_splits sum.splits option.splits)

lemma check_drone_sel: "check_drone u a s = (s1, b) \<Longrightarrow> ms_out s1 = ms_out s"
  by (auto simp: check_drone_def drone_alarm_def Let_def split: if_splits)

lemma usage_sel: "exceed_services_usage u s = (s1, b) \<Longrightarrow> ms_out s1 = ms_out s"
  by (auto simp: exceed_services_usage_def Let_def split: if_splits)

text \<open>At most one call, and that one allowed.\<close>

definition adds :: "(outcall \<Rightarrow> bool) \<Rightarrow> msg_state \<Rightarrow> msg_state \<Rightarrow> bool" where
  "adds P s s' \<longleftrightarrow> ms_out s' = ms_out s \<or> (\<exists>c. P c \<and> ms_out s' = ms_out s @ [c])"

lemma adds_same: "ms_out s' = ms_out s \<Longrightarrow> adds P s s'"
  by (simp add: adds_def)

lemma adds_call [simp]: "ms_out s1 = ms_out s \<Longrightarrow> adds P s (ms_call c s1) \<longleftrightarrow> P c"
  by (auto simp: adds_def)

lemma adds_upd [simp]: "adds P s (ms_upd f s1) \<longleftrightarrow> adds P s s1"
  by (simp add: adds_def)

text \<open>Who may have what done: \<open>e\<close> is the state when \<open>can_send\<close> is asked, the sender back from an automatic AWAY.\<close>

definition call_ok :: "nat \<Rightarrow> nat \<Rightarrow> cstr list \<Rightarrow> cstr \<Rightarrow> ircd \<Rightarrow> outcall \<Rightarrow> bool" where
  "call_ok cptr sptr parv targ d c =
     (let u = clients d sptr in
      case c of
        ChannelButOne one fr ch par rest \<Rightarrow> one = cptr \<and> fr = sptr \<and> par = parv ! 0 \<and> IsPerson u \<and>
          (\<exists>e. but_sent (remove_autoaway sptr d) e \<and> snd (can_send sptr ch (parv ! 2) e) = 0)
      | ChannelType one fr ch type nick cmd m \<Rightarrow> one = cptr \<and> fr = sptr \<and> m = parv ! 2 \<and>
          (MyClient (clients d cptr) \<longrightarrow> IsService u \<or> is_chan_op sptr ch d \<noteq> 0)
      | PrefixOne t fr par rest \<Rightarrow> fr = sptr \<and> par = parv ! 0 \<and>
          (\<not> snd (is_silenced sptr t d) \<and> (IsService u \<or> IsIdentified u \<or> \<not> IsRegMsg (clients d t) \<and> \<not> secure_mode (cfg d)) \<or>
           CHR ''@'' \<in> set targ)
      | MatchButOne one fr m host par rest \<Rightarrow> fr = sptr \<and> par = parv ! 0 \<and> (IsAnOper u \<or> IsService u)
      | OneLine t m \<Rightarrow> True
      | AddGline u h r t \<Rightarrow> h = c_realhost (clients d cptr))"

lemma autoaway_sel [simp]:
  "chans (remove_autoaway u d) = chans d" "cfg (remove_autoaway u d) = cfg d" "chan_table (remove_autoaway u d) = chan_table d"
  "clients (remove_autoaway u d) c = (if c = u \<and> has (c_flags (clients d u)) FLAGS_AUTOAWAY \<and> has_user (clients d u) \<and>
       u_away (clients d u) \<noteq> None
     then (clients d u)\<lparr>u_away := None, c_flags := c_flags (clients d u) AND NOT FLAGS_AUTOAWAY\<rparr> else clients d c)"
  by (auto simp: remove_autoaway_def unaway_def Let_def send_def upd_client_def numeric_def)

lemma service_autoaway: "has (f AND NOT FLAGS_AUTOAWAY) FLAGS_SERVICE = has f FLAGS_SERVICE"
proof -
  have "(NOT FLAGS_AUTOAWAY) AND FLAGS_SERVICE = FLAGS_SERVICE" by (simp add: FLAGS_AUTOAWAY_def FLAGS_SERVICE_def)
  then show ?thesis by (simp add: has_def and.assoc)
qed

lemma autoaway_preds [simp]:
  "IsService (clients (remove_autoaway u d) c) = IsService (clients d c)"
  "IsIdentified (clients (remove_autoaway u d) c) = IsIdentified (clients d c)"
  "IsRegMsg (clients (remove_autoaway u d) c) = IsRegMsg (clients d c)"
  "MyClient (clients (remove_autoaway u d) c) = MyClient (clients d c)"
  "is_chan_op c ch (remove_autoaway u d) = is_chan_op c ch d"
  "snd (is_silenced v c (remove_autoaway u d)) = snd (is_silenced v c d)"
  by (auto simp: IsService_def IsIdentified_def IsRegMsg_def MyClient_def IsClient_def is_chan_op_def is_silenced_def Let_def
    service_autoaway split: option.splits)

lemma to_channel_adds:
  assumes "IsPerson (clients (ms_irc s) sptr)" and "to_channel notice cptr sptr parv nick ch s = Inr (s', r)"
  shows "adds (call_ok cptr sptr parv targ (ms_irc s)) s s'"
proof -
  obtain s1 where f: "flud_channel notice sptr ch (parv ! 2) (ms_upd (remove_autoaway sptr) s) = Inr s1"
    using assms(2) by (auto simp: to_channel_def split: sum.splits)
  from flud_channel_sel[OF f] have s1: "ms_out s1 = ms_out s" "but_sent (remove_autoaway sptr (ms_irc s)) (ms_irc s1)"
    by simp_all
  obtain d k where c: "can_send sptr ch (parv ! 2) (ms_irc s1) = (d, k)" by fastforce
  have ok: "call_ok cptr sptr parv targ (ms_irc s) (ChannelButOne cptr sptr ch (parv ! 0) m)" if "k = 0" for m
    using assms(1) s1(2) c that by (auto simp: call_ok_def Let_def intro!: exI[of _ "ms_irc s1"])
  obtain s3 b where l: "target_limited sptr ch (chname (chans (ms_irc (ms_upd (\<lambda>_. d) s1)) ch)) (parv ! 2) (ms_upd (\<lambda>_. d) s1) = (s3, b)"
    by fastforce
  have "ms_out s3 = ms_out s" using target_limited_sel[OF l] s1(1) by simp
  then show ?thesis
    using assms(2) f c l s1(1) ok
    by (cases "k = 0"; cases b) (auto simp: to_channel_def Let_def split: if_splits simp: adds_same)
qed

lemma to_ranked_adds:
  assumes "to_ranked notice cptr sptr parv nick s = Inr (s', r)"
  shows "adds (call_ok cptr sptr parv targ (ms_irc s)) s s'"
proof -
  have e: "but_sent (remove_autoaway sptr (ms_irc s)) e \<Longrightarrow>
      MyClient (clients e c) = MyClient (clients (ms_irc s) c) \<and> IsService (clients e c) = IsService (clients (ms_irc s) c) \<and>
      is_chan_op c ch e = is_chan_op c ch (ms_irc s)" for e c ch
    by (auto simp: but_sent_def is_chan_op_def simp del: autoaway_sel(4))
  show ?thesis
    using assms unfolding to_ranked_def Let_def
    by (auto split: option.splits sum.splits if_splits dest!: flud_channel_sel simp: e call_ok_def simp: adds_same)
qed

lemma m_service_adds: "m_service fs nm pre u ps s = (s', r) \<Longrightarrow> adds (call_ok cptr sptr parv targ d) s s'"
  by (auto simp: m_service_def Let_def call_ok_def split: if_splits prod.splits dest: usage_sel simp: adds_same)

lemma to_service_adds: "to_service fs cptr u a ps s = Some (Inr (s', r)) \<Longrightarrow> adds (call_ok cptr sptr parv targ d) s s'"
  by (auto simp: to_service_def m_operserv_def Let_def split: option.splits if_splits prod.splits
    dest: m_service_adds intro: adds_same)

lemma pass_on_adds:
  assumes "pass_on notice sptr a parv nick s = Inr (s', r)" and "call_ok cptr sptr parv targ d (PrefixOne a sptr (parv ! 0) (cmd_of notice @ '' '' @ nick @ '' :'' @ parv ! 2))"
  shows "adds (call_ok cptr sptr parv targ d) s s'"
proof -
  have "check_drone sptr a s1 = (s2, b) \<Longrightarrow> ms_out s1 = ms_out s \<Longrightarrow> ms_out s2 = ms_out s" for s1 s2 b
    using check_drone_sel by simp
  then show ?thesis
    using assms unfolding pass_on_def Let_def
    by (auto split: sum.splits prod.splits if_splits simp: adds_same)
qed

lemma to_user_adds:
  assumes "to_user fs notice cptr sptr parv nick a s = Inr (s', r)"
  shows "adds (call_ok cptr sptr parv targ (ms_irc s)) s s'"
proof -
  define s1 where "s1 = ms_upd (remove_autoaway sptr) s"
  define c where "c = clients (ms_irc s) sptr"
  obtain d1 sil where sil: "is_silenced sptr a (ms_irc s1) = (d1, sil)" by fastforce
  obtain s3 lim where lim: "target_limited sptr a (c_name (clients d1 a)) (parv ! 2) (ms_upd (\<lambda>_. d1) s1) = (s3, lim)"
    by fastforce
  have s3: "ms_out s3 = ms_out s" "ms_out s1 = ms_out s" using target_limited_sel[OF lim] by (simp_all add: s1_def)
  define blocked where "blocked \<longleftrightarrow> \<not> IsService c \<and> \<not> IsIdentified c \<and> (IsRegMsg (clients (ms_irc s) a) \<or> secure_mode (cfg (ms_irc s)))"
  have p: "(\<not> IsService (clients (ms_irc s1) sptr) \<and> \<not> IsIdentified (clients (ms_irc s1) sptr) \<and>
      (IsRegMsg (clients (ms_irc s1) a) \<or> secure_mode (cfg (ms_irc s1)))) = blocked"
    by (simp add: s1_def blocked_def c_def del: autoaway_sel(4))
  let ?srv = "if MyClient (clients (ms_irc s3) sptr) then to_service fs cptr sptr a parv s3 else None"
  let ?dcc = "if \<not> notice \<and> MyClient (clients (ms_irc s3) sptr) \<and> is_dcc (parv ! 2)
    then check_dcc sptr (parv ! 0) (parv ! 2) s3 else Inr (s3, False)"
  have u: "to_user fs notice cptr sptr parv nick a s = (if blocked then Inr (s1, Some (-1))
      else if sil then Inr (ms_upd (\<lambda>_. d1) s1, Some (-1)) else if lim then Inr (s3, Some 0)
      else case ?srv of Some r \<Rightarrow> r | None \<Rightarrow> (case ?dcc of Inl e \<Rightarrow> Inl e
        | Inr (s4, denied) \<Rightarrow> if denied then Inr (s4, Some (-1)) else pass_on notice sptr a parv nick s4))"
    unfolding to_user_def s1_def[symmetric] Let_def p sil prod.case ms_upd_sel(2) lim by (rule refl)
  show ?thesis
  proof (cases "blocked \<or> sil \<or> lim")
    case True
    then show ?thesis using assms s3 unfolding u by (auto simp: adds_same split: if_splits)
  next
    case False
    have "\<not> snd (is_silenced sptr a (ms_irc s))" using False sil by (simp add: s1_def) (metis autoaway_preds(6) snd_conv)
    then have ok: "call_ok cptr sptr parv targ (ms_irc s) (PrefixOne a sptr (parv ! 0) m)" for m
      using False by (auto simp: call_ok_def Let_def c_def blocked_def)
    have t: "adds P s s2 \<longleftrightarrow> adds P s3 s2" for P s2 by (simp add: adds_def s3)
    have k: "adds P s4 s2 \<longleftrightarrow> adds P s3 s2" if "check_dcc v w x s3 = Inr (s4, b)" for P s2 s4 v w x b
      using check_dcc_sel[OF that] by (simp add: adds_def)
    show ?thesis
      using assms False unfolding u t
      by (auto simp: k split: sum.splits option.splits if_splits prod.splits
        dest: check_dcc_sel to_service_adds pass_on_adds[OF _ ok] intro: adds_same)
  qed
qed

lemma to_address_adds:
  assumes "set nick \<subseteq> set targ"
  shows "adds (call_ok cptr sptr parv targ (ms_irc s)) s (to_address fs notice cptr sptr parv nick s)"
proof -
  have a: "strchr nick (CHR ''@'') = Some x \<Longrightarrow> CHR ''@'' \<in> set targ" for x
    using assms by (metis subsetD strchr_SomeD(1) strchr_None_iff option.distinct(1))
  show ?thesis
    by (auto simp: to_address_def Let_def adds_same call_ok_def a split: option.splits prod.splits)
qed

lemma to_mask_adds: "to_mask notice cptr sptr parv nick s = (s', r) \<Longrightarrow> adds (call_ok cptr sptr parv targ (ms_irc s)) s s'"
  by (auto simp: to_mask_def Let_def adds_same call_ok_def split: if_splits)

lemma one_target_adds:
  assumes "one_target fp fs notice cptr sptr parv nick s = Inr (s', r)"
  shows "adds (call_ok cptr sptr parv nick (ms_irc s)) s s'"
proof -
  define nk where "nk = dropWhile (\<lambda>x. x \<in> {CHR ''.'', CHR ''@'', CHR ''+''}) nick"
  have "set nk \<subseteq> set nick" unfolding nk_def using set_dropWhileD by fastforce
  note a = to_address_adds[OF this]
  show ?thesis
    using assms unfolding one_target_def Let_def nk_def[symmetric]
    by (auto split: option.splits if_splits intro: to_channel_adds to_ranked_adds to_user_adds to_mask_adds a)
qed

text \<open>A local user's message to a channel where nothing stands in the way, up to the call.\<close>

definition plain_sender :: "nat \<Rightarrow> cstr \<Rightarrow> msg_state \<Rightarrow> bool" where
  "plain_sender u msg s \<longleftrightarrow>
     (let c = clients (ms_irc s) u in
      MyClient c \<and> IsPerson c \<and> \<not> IsZombie c \<and> \<not> IsStealth c \<and> \<not> has (c_flags c) FLAGS_AUTOAWAY \<and>
      join_leave_count c < MAX_JOIN_LEAVE_COUNT \<and> (IsOper c \<or> is_msgvlined (strip_control_codes_lower msg) (ms_lines s) = None))"

lemma no_autoaway: "\<not> has (c_flags (clients d u)) FLAGS_AUTOAWAY \<Longrightarrow> remove_autoaway u d = d"
  by (simp add: remove_autoaway_def)

lemma ms_upd_id [simp]: "ms_upd (\<lambda>d. d) s = s"
  by (simp add: ms_upd_def)

lemma message_to_channel:
  assumes "plain_sender u msg s" and "msg \<noteq> []" and "targ = hd (target_items (clients (ms_irc s) u) lst)" and "lst \<noteq> []"
    and "IsChanPrefix (hd0 targ)" and "lookup_channel targ (ms_irc s) = Some ch" and "check_for_ctcp msg = Inr 0"
    and "can_send u ch msg (ms_irc s) = (d, 0)" and "\<not> CheckTargetLimit (ms_conf s)"
    and "\<not> has (md_mode (mode (chans d ch))) MODE_NOCOLORS"
  shows "m_private fp fs u u [nm, lst, msg] s =
    Inr (ms_call (ChannelButOne u u ch nm (''PRIVMSG '' @ targ @ '' :'' @ msg)) (ms_upd (\<lambda>_. d) s), 0)"
proof -
  have a: "ms_upd (remove_autoaway u) s = s"
    using assms(1) no_autoaway[of "ms_irc s" u] by (simp add: plain_sender_def Let_def ms_upd_def)
  have "to_channel False u u [nm, lst, msg] targ ch s =
      Inr (ms_call (ChannelButOne u u ch nm (''PRIVMSG '' @ targ @ '' :'' @ msg)) (ms_upd (\<lambda>_. d) s), None)"
    using assms(7-10) a by (simp add: to_channel_def flud_channel_def target_limited_def cmd_of_def)
  then have "one_target fp fs False u u [nm, lst, msg] targ s =
      Inr (ms_call (ChannelButOne u u ch nm (''PRIVMSG '' @ targ @ '' :'' @ msg)) (ms_upd (\<lambda>_. d) s), None)"
    using assms(1,5,6) by (simp add: one_target_def plain_sender_def Let_def)
  then show ?thesis
    using assms(1-4) by (auto simp: m_private_def m_message_def plain_sender_def Let_def)
qed


subsection \<open>Properties\<close>

text \<open>
  C37. A PRIVMSG or NOTICE hands at most one thing on, and only what its sender may do: nothing for
  zombies and stealth users; a line to a channel if \<open>can_send\<close> lets the sender speak there; one to the operators of a
  channel if a local sender is one of them or a service; one to a user who has not silenced the sender, and does
  not want identified senders only when the sender is not; a mask only for operators and services. The exception is
  any target that holds an \<open>@\<close> and is no channel or mask, such as user@server or \<open>.@nick\<close>: it gets past SILENCE and
  the mode for identified senders.
\<close>

theorem message_policy:
  assumes "m_message fp fs notice cptr sptr parv s = Inr (s', r)"
  shows "ms_out s' = ms_out s \<or>
    (\<exists>c. ms_out s' = ms_out s @ [c] \<and> \<not> IsZombie (clients (ms_irc s) sptr) \<and> \<not> IsStealth (clients (ms_irc s) sptr) \<and>
       call_ok cptr sptr parv (hd (target_items (clients (ms_irc s) sptr) (parv ! 1))) (ms_irc s) c)"
proof -
  define t where "t = hd (target_items (clients (ms_irc s) sptr) (parv ! 1))"
  have b: "adds (call_ok cptr sptr parv t (ms_irc s)) s (blocked_message cptr sptr parv l s)" for l
    by (auto simp: blocked_message_def Let_def adds_same call_ok_def)
  have o: "adds (call_ok cptr sptr parv t (ms_irc s)) s s1" if "one_target fp fs notice cptr sptr parv t s = Inr (s1, k)" for s1 k
    using that by (rule one_target_adds)
  have "adds (call_ok cptr sptr parv t (ms_irc s)) s s'" if "\<not> IsZombie (clients (ms_irc s) sptr)" "\<not> IsStealth (clients (ms_irc s) sptr)"
  proof (cases "one_target fp fs notice cptr sptr parv t s")
    case (Inr x)
    obtain s1 k where x: "x = (s1, k)" by fastforce
    note a = o[OF Inr[unfolded x]]
    show ?thesis
      using assms a that unfolding m_message_def Let_def t_def[symmetric] Inr x
      by (auto split: if_splits option.splits simp: adds_same b)
  next
    case (Inl e)
    then show ?thesis
      using assms that unfolding m_message_def Let_def t_def[symmetric] by (auto split: if_splits option.splits simp: adds_same b)
  qed
  moreover have "ms_out s' = ms_out s" if "IsZombie (clients (ms_irc s) sptr) \<or> IsStealth (clients (ms_irc s) sptr)"
    using assms that unfolding m_message_def Let_def t_def[symmetric] by (auto split: if_splits)
  ultimately show ?thesis unfolding t_def[symmetric] by (auto simp: adds_def)
qed








definition demo_conf :: msg_conf where
  "demo_conf = \<lparr>CheckTargetLimit = False, ForceServicesAlias = False, GLineOnSVline = 0, DRONETIME = 0, DRONECOUNT = 0,
     Moderated_Msg = [], NoExternal_Msg = [], Banned_Msg = [], NoSpam_Msg = [], NoFlood_Msg = [], NoCTCP_Msg = [],
     NoDCCSend_Msg = [], ServicesInterval = 10, ServicesUseCount = 5, ServicesServer = ''services''\<rparr>"

text \<open>The room of \<open>ChanCmd\<close>, each client its own link.\<close>

definition hall :: ircd where
  "hall = room\<lparr>clients := (\<lambda>c. (clients room c)\<lparr>c_from := c\<rparr>)\<rparr>"

lemma hall_sel:
  "clients hall c = (clients room c)\<lparr>c_from := c\<rparr>" "cfg hall = plain_config" "chans hall = chans room"
  "clients room 3 = (plain_user ''op'' ''u'' ''h'')\<lparr>u_channel := [5], u_joined := 1\<rparr>"
  "clients room 2 = (plain_user ''bob'' ''u'' ''h'')\<lparr>u_channel := [5], u_joined := 1\<rparr>"
  "members (chans room 5) =
    [\<lparr>mb_cptr = 2, mb_flags = 0, nmsg = 0, lastmsg = 0, lmsg = None, lsize = 0, lmsg_time = 0\<rparr>,
     \<lparr>mb_cptr = 3, mb_flags = CHFL_CHANOP, nmsg = 0, lastmsg = 0, lmsg = None, lsize = 0, lmsg_time = 0\<rparr>]"
  "md_mode (mode (chans room 5)) = MODE_OPERONLY" "lookup_channel ''#c'' hall = Some 5"
  using room_lookup
  by (simp_all add: hall_def room_sel room_members lookup_channel_def chan_name_def[abs_def])

definition talk :: msg_state where
  "talk = \<lparr>ms_flud = quiet\<lparr>fl_irc := hall\<rparr>, ms_lines = no_lines, ms_conf = demo_conf, ms_out = [], received = (\<lambda>_. 0),
     first_received = (\<lambda>_. 0), drone_noticed = (\<lambda>_. 0), queue_len = (\<lambda>_. 0), queue_max = (\<lambda>_. 0), global_clients = [],
     last_services_use = (\<lambda>_. 0), number_of_services_use = (\<lambda>_. 0)\<rparr>"

lemma talk_sel: "ms_irc talk = hall" "ms_lines talk = no_lines" "ms_conf talk = demo_conf" "ms_out talk = []"
  by (simp_all add: talk_def quiet_def)

lemma talk_plain: "plain_sender 3 msg talk" "plain_sender 2 msg talk"
  by (simp_all add: plain_sender_def talk_sel hall_sel plain_user_def MyClient_def IsClient_def IsPerson_def IsZombie_def
    IsStealth_def has_def MAX_JOIN_LEAVE_COUNT_def is_msgvlined_def no_lines_def)

lemma op_may_speak: "can_send 3 5 msg hall = (hall, 0)"
  by (simp add: can_send_def Let_def hall_sel hall_sel find_user_link_def plain_user_def MyClient_def IsClient_def
    IsStealth_def IsService_def IsTechAdmin_def has_def plain_config_def mode_defs chfl_defs umode_defs)

lemma talk_targets: "target_items c ''#c'' = [''#c'']" "target_items c ''@#c'' = [''@#c'']"
proof -
  have "strtokens '','' (Some ''#c'') = [''#c'']" "strtokens '','' (Some ''@#c'') = [''@#c'']"
    by (simp_all add: strtokens.simps strtoken_def)
  then show "target_items c ''#c'' = [''#c'']" "target_items c ''@#c'' = [''@#c'']"
    by (simp_all add: target_items_def)
qed

lemma talk_hello: "m_private fp fs 3 3 [''op'', ''#c'', ''hello''] talk =
    Inr (ms_call (ChannelButOne 3 3 5 ''op'' ''PRIVMSG #c :hello'') (ms_upd (\<lambda>_. hall) talk), 0)"
  using message_to_channel[OF talk_plain(1), of "''hello''" "''#c''" "''#c''" 5 hall fp fs "''op''"]
  by (simp add: talk_sel talk_targets hall_sel op_may_speak demo_conf_def hall_sel check_for_ctcp.simps
    IsChanPrefix_iff has_def mode_defs)

theorem message_policy_witness:
  "ms_out (fst (case m_private (\<lambda>_ _. 0) (\<lambda>_ _. 0) 3 3 [''op'', ''#c'', ''hello''] talk of Inr x \<Rightarrow> x | Inl _ \<Rightarrow> (talk, 0))) =
     [ChannelButOne 3 3 5 ''op'' ''PRIVMSG #c :hello''] \<and>
   call_ok 3 3 [''op'', ''#c'', ''hello''] ''#c'' hall (ChannelButOne 3 3 5 ''op'' ''PRIVMSG #c :hello'')"
proof -
  have h: "m_message (\<lambda>_ _. 0) (\<lambda>_ _. 0) False 3 3 [''op'', ''#c'', ''hello''] talk =
      Inr (ms_call (ChannelButOne 3 3 5 ''op'' ''PRIVMSG #c :hello'') (ms_upd (\<lambda>_. hall) talk), 0)"
    using talk_hello[of "\<lambda>_ _. 0" "\<lambda>_ _. 0"] by (simp add: m_private_def)
  from message_policy[OF h] have "call_ok 3 3 [''op'', ''#c'', ''hello''] ''#c'' hall (ChannelButOne 3 3 5 ''op'' ''PRIVMSG #c :hello'')"
    by (simp add: talk_sel talk_targets)
  with h show ?thesis by (simp add: m_private_def talk_sel)
qed



text \<open>
  C39. A PRIVMSG to \<open>@#channel\<close> from a local user who is no operator there reads an argument that
  was never passed: the reply has one more \<open>%s\<close> than the call gives it. A NOTICE, which is not answered, is safe
  and sends nothing. The user is a plain one (\<open>plain_sender\<close>: a local person, no zombie, not
  stealth, not marked away for being idle, below the limit of joins and leaves, and an operator or with a text no
  SV-line matches), no service, and the text is no CTCP request.
\<close>

theorem ranked_refusal_undefined:
  assumes "plain_sender u msg s" and "msg \<noteq> []" and "targ = hd (target_items (clients (ms_irc s) u) lst)" and "lst \<noteq> []"
    and "targ = CHR ''@'' # CHR ''#'' # nm" and "lookup_channel (tl targ) (ms_irc s) = Some ch" and "check_for_ctcp msg = Inr 0"
    and "\<not> IsService (clients (ms_irc s) u)" and "is_chan_op u ch (ms_irc s) = 0"
  shows "m_private fp fs u u [par, lst, msg] s = Inl MissingArgument \<and>
    (\<exists>s'. m_notice fp fs u u [par, lst, msg] s = Inr (s', 0) \<and> ms_out s' = ms_out s)"
proof -
  have a: "ms_upd (remove_autoaway u) s = s"
    using assms(1) no_autoaway[of "ms_irc s" u] by (simp add: plain_sender_def Let_def ms_upd_def)
  have p: "MyClient (clients (ms_irc s) u)" using assms(1) by (simp add: plain_sender_def Let_def)
  have "to_ranked b u u [par, lst, msg] targ s = (if b then Inr (s, None) else Inl MissingArgument)" for b
    using assms(5-9) a p by (simp add: to_ranked_def flud_channel_def)
  moreover have "one_target fp fs b u u [par, lst, msg] targ s = to_ranked b u u [par, lst, msg] targ s" for b
    using assms(5) by (simp add: one_target_def IsChanPrefix_iff)
  ultimately show ?thesis
    using assms(1-4) by (auto simp: m_private_def m_notice_def m_message_def plain_sender_def Let_def)
qed

theorem ranked_refusal_undefined_witness:
  "m_private (\<lambda>_ _. 0) (\<lambda>_ _. 0) 2 2 [''bob'', ''@#c'', ''hi''] talk = Inl MissingArgument"
proof -
  have "\<not> IsService (clients (ms_irc talk) 2)" "is_chan_op 2 5 (ms_irc talk) = 0"
    by (simp_all add: talk_sel hall_sel plain_user_def IsService_def has_def is_chan_op_def find_user_link_def chfl_defs)
  moreover have "check_for_ctcp ''hi'' = Inr 0" by (simp add: check_for_ctcp.simps)
  ultimately show ?thesis
    using ranked_refusal_undefined[OF talk_plain(2), of "''hi''" "''@#c''" "''@#c''" "''c''" 5 "\<lambda>_ _. 0" "\<lambda>_ _. 0" "''bob''"]
    by (simp add: talk_sel talk_targets hall_sel(8))
qed

text \<open>
  The test of file names offered by DCC. A DCC SEND whose name has 255 bytes or more without a blank
  overruns the buffer of 255 bytes by its closing NUL; every DCC RESUME is looked up as a file of the one-letter name
  \<open>E\<close>, the last letter of the command, so no SV-line on a file name stops it.
\<close>

theorem dcc_check_gaps:
  assumes "\<not> has (c_umodes (clients (ms_irc s) u)) UMODE_NODCC"
    and "CHR '' '' \<notin> set fname" "255 \<le> length fname" "hd0 fname \<noteq> CHR 0x22"
  shows "check_dcc u nm (CTCP # ''DCC SEND '' @ fname) s = Inl OutOfBounds \<and>
    dcc_name (CTCP # ''DCC RESUME '' @ rest) = Inr (Some ''E'')"
proof -
  obtain c cs where f: "fname = c # cs" using assms(3) by (cases fname) auto
  have "pos_of (CHR '' '') cs = None" using assms(2) f by (simp add: pos_of_def)
  then have "dcc_name (CTCP # ''DCC SEND '' @ fname) = Inl OutOfBounds"
    using assms(3,4) f by (simp add: dcc_name_def Let_def at_def)
  moreover have "dcc_name (CTCP # ''DCC RESUME '' @ rest) = Inr (Some ''E'')"
    by (simp add: dcc_name_def Let_def at_def pos_of_def)
  ultimately show ?thesis using assms(1) by (simp add: check_dcc_def)
qed

theorem dcc_check_gaps_witness:
  "check_dcc 2 ''bob'' (CTCP # ''DCC SEND '' @ ''a'' @ replicate 254 CHR ''a'') talk = Inl OutOfBounds"
proof -
  have "\<not> has (c_umodes (clients (ms_irc talk) 2)) UMODE_NODCC"
    by (simp add: talk_sel hall_sel plain_user_def has_def)
  from dcc_check_gaps[OF this, where fname = "CHR ''a'' # replicate 254 CHR ''a''" and nm = "''bob''"] show ?thesis by simp
qed

end
