(* ===== verification/Exit.thy ===== *)
theory Exit
  imports ChanJoin
begin

text \<open>
  How clients leave, \<open>src/client.c\<close>: \<open>exit_client\<close>, \<open>exit_one_client\<close>, \<open>remove_dependents\<close>,
  \<open>recurse_remove_clients\<close>, \<open>recurse_send_quits\<close>. A server keeps lists of the servers and users behind it; when it goes,
  all of them go first. The address of \<open>me\<close> is a field. Calls into other parts (watch lists, history, flood
  counters, sockets) are recorded in \<open>ex_calls\<close>; those parts are modelled in theories of their own.
\<close>

subsection \<open>Data\<close>

datatype exit_call =
    CommonPart nat cstr
  | CommonQuits nat cstr
  | WatchOff nat
  | DelWatchList nat
  | RemoveOneIp nat
  | FdlistDelete nat
  | CloseConnection nat
  | ReleaseState nat

record exit_state =
  ex_irc :: ircd
  me_addr :: nat
  client_tab :: hash_table
  global_list :: "nat list"
  servptr :: "nat \<Rightarrow> nat"
  has_serv :: "nat \<Rightarrow> bool"
  serv_up :: "nat \<Rightarrow> cstr option"
  users_of :: "nat \<Rightarrow> nat list"
  servers_of :: "nat \<Rightarrow> nat list"
  oper_list :: "nat list"
  local_list :: "nat list"
  serv_list :: "nat list"
  fd_list :: "nat list"
  link_caps :: "nat \<Rightarrow> 32 word"
  link_name :: "nat \<Rightarrow> cstr"
  sockhost :: "nat \<Rightarrow> cstr"
  lch_connects :: nat
  count_local :: int
  count_myserver :: int
  count_server :: int
  count_total :: int
  count_oper :: int
  count_invisi :: int
  QModeMsg :: cstr
  OverrideNetsplitMessage :: "cstr option"
  ex_calls :: "exit_call list"

abbreviation xc :: "exit_state \<Rightarrow> nat \<Rightarrow> client" where
  "xc s c \<equiv> clients (ex_irc s) c"

definition ex_upd :: "(ircd \<Rightarrow> ircd) \<Rightarrow> exit_state \<Rightarrow> exit_state" where
  "ex_upd f s = s\<lparr>ex_irc := f (ex_irc s)\<rparr>"

definition ex_send :: "target \<Rightarrow> cstr \<Rightarrow> exit_state \<Rightarrow> exit_state" where
  "ex_send t m = ex_upd (send t m)"

definition ex_call :: "exit_call \<Rightarrow> exit_state \<Rightarrow> exit_state" where
  "ex_call c s = s\<lparr>ex_calls := ex_calls s @ [c]\<rparr>"

definition CAP_QS :: "32 word" where "CAP_QS = 2"
definition FLAG_KILL :: "32 word" where "FLAG_KILL = 4"
definition FLAG_CLOSING :: "32 word" where "FLAG_CLOSING = 0x20"

definition is_registered :: "client \<Rightarrow> bool" where
  "is_registered c \<longleftrightarrow> c_status c = STAT_SERVER \<or> c_status c = STAT_CLIENT"

definition mark_killed :: "nat \<Rightarrow> exit_state \<Rightarrow> exit_state" where
  "mark_killed a = ex_upd (upd_client a (\<lambda>c. c\<lparr>c_flags := c_flags c OR FLAG_KILL\<rparr>))"

subsection \<open>One client\<close>

text \<open>\<open>while ((lp = sptr->user->channel)) ...\<close> and the same for invitations: each call takes the head off the list.\<close>

function leave_channels :: "nat \<Rightarrow> ircd \<Rightarrow> ircd" where
  "leave_channels u s =
     (case u_channel (clients s u) of [] \<Rightarrow> s | ch # _ \<Rightarrow> leave_channels u (remove_user_from_channel u ch s))"
  by pat_completeness auto
termination
  by (relation "measure (\<lambda>(u, s). length (u_channel (clients s u)))") (auto simp: u_channel_remove)

function leave_invites :: "nat \<Rightarrow> ircd \<Rightarrow> ircd" where
  "leave_invites u s =
     (case u_invited (clients s u) of [] \<Rightarrow> s | ch # _ \<Rightarrow> leave_invites u (del_invite u ch s))"
  by pat_completeness auto
termination
  by (relation "measure (\<lambda>(u, s). length (u_invited (clients s u)))") (auto simp: del_invite_def)

declare leave_channels.simps [simp del] leave_invites.simps [simp del]

text \<open>Out of the list of its server.\<close>

definition unlink_dependent :: "nat \<Rightarrow> exit_state \<Rightarrow> exit_state" where
  "unlink_dependent a s =
     (let p = servptr s a; linked = (p \<noteq> 0 \<and> has_serv s p) in
      if IsServer (xc s a) then
        if linked then s\<lparr>servers_of := (servers_of s)(p := remove1 a (servers_of s p))\<rparr>
        else ex_send ToOps (''server '' @ c_name (xc s a) @ '' without servptr!'') s
      else if linked then s\<lparr>users_of := (users_of s)(p := remove1 a (users_of s p))\<rparr>
      else s)"

text \<open>The QUIT of a person: to the servers unless KILLs have gone, to those in common channels.\<close>

definition quit_person :: "nat \<Rightarrow> nat \<Rightarrow> cstr \<Rightarrow> exit_state \<Rightarrow> exit_state" where
  "quit_person cptr a comment s =
     (let c = xc s a; line = '':'' @ c_name c @ '' QUIT :'' @ comment;
          s1 = (if has (c_flags c) FLAG_KILL then s else ex_send ToServers line s);
          s2 = (if \<not> IsStealth c then ex_call (CommonQuits a line) (ex_call (CommonPart a (QModeMsg s1)) s1)
                else if MyClient c then ex_send (ToOne a) ('':'' @ c_name c @ '' QUIT :Stealth mode'') s1
                else s1) in
      ex_upd (\<lambda>d. upd_client a (\<lambda>x. x\<lparr>u_silence := []\<rparr>) (leave_invites a (leave_channels a d))) s2)"

definition exit_stats :: "nat \<Rightarrow> exit_state \<Rightarrow> exit_state" where
  "exit_stats a s =
     (let c = xc s a in
      if IsServer c then
        ex_send ToOps (''Server '' @ c_name c @ '' split from '' @ c_name (xc s (servptr s a)))
          (s\<lparr>count_server := count_server s - 1\<rparr>)
      else if IsClient c then
        s\<lparr>count_total := count_total s - 1, count_oper := count_oper s - (if IsAnOper c then 1 else 0),
          count_invisi := count_invisi s - (if has (c_umodes c) UMODE_INVISIBLE then 1 else 0)\<rparr>
      else s)"

text \<open>A client that is in the list no more is left alone; \<open>me\<close> is the last entry and never leaves.\<close>

definition remove_client_from_list :: "nat \<Rightarrow> exit_state \<Rightarrow> exit_state" where
  "remove_client_from_list a s =
     (if a \<notin> set (global_list s) then s
      else ex_call (ReleaseState a) (exit_stats a (s\<lparr>global_list := remove1 a (global_list s)\<rparr>)))"

definition exit_one_client :: "nat \<Rightarrow> nat \<Rightarrow> nat \<Rightarrow> cstr \<Rightarrow> exit_state \<Rightarrow> exit_state" where
  "exit_one_client cptr a fr comment s =
     (let s1 = unlink_dependent a s; c = xc s1 a; up = c_from c in
      if c_status c = STAT_ME then ex_send ToOps (''ERROR: tried to exit me! : '' @ comment) s1
      else
        let s2 = (if IsServer c then
                    if up \<noteq> 0 \<and> IsServer (xc s1 up) \<and> up \<noteq> cptr \<and> \<not> has (c_flags c) FLAG_KILL then
                      ex_send (ToOne up) ('':'' @ c_name (xc s1 fr) @ '' SQUIT '' @ c_name c @ '' :'' @ comment) s1
                    else s1
                  else if IsPerson c \<and> c_name c \<noteq> [] then quit_person cptr a comment s1
                  else s1);
            s3 = s2\<lparr>client_tab := del_from_client_hash_table (c_name c) a (client_tab s2)\<rparr>;
            s4 = (if is_registered c then ex_call (WatchOff a) s3 else s3) in
        remove_client_from_list a s4)"

subsection \<open>A server and all behind it\<close>

text \<open>The two loops of \<open>recurse_remove_clients\<close>, first over the servers, then over the users; each turn costs a unit
  of fuel.\<close>

fun recurse_remove_clients :: "nat \<Rightarrow> nat \<Rightarrow> cstr \<Rightarrow> exit_state \<Rightarrow> exit_state option" where
  "recurse_remove_clients 0 p comment s = None"
| "recurse_remove_clients (Suc k) p comment s =
     (if c_status (xc s p) = STAT_ME \<or> \<not> has_serv s p then Some s
      else case servers_of s p of
        a # _ \<Rightarrow>
          (case recurse_remove_clients k a comment s of
             None \<Rightarrow> None
           | Some s1 \<Rightarrow> recurse_remove_clients k p comment
               (exit_one_client 0 a (me_addr s1) (c_name (xc s1 (me_addr s1))) (mark_killed a s1)))
      | [] \<Rightarrow>
          (case users_of s p of
             a # _ \<Rightarrow> recurse_remove_clients k p comment (exit_one_client 0 a (me_addr s) comment (mark_killed a s))
           | [] \<Rightarrow> Some s))"

text \<open>The QUITs and SQUITs for one link; \<open>None\<close> when the tree is deeper than the fuel.\<close>

fun recurse_send_quits :: "nat \<Rightarrow> nat \<Rightarrow> nat \<Rightarrow> cstr \<Rightarrow> cstr \<Rightarrow> exit_state \<Rightarrow> exit_state option" where
  "recurse_send_quits 0 p to comment myname s = None"
| "recurse_send_quits (Suc k) p to comment myname s =
     (let hidden = match myname (c_name (xc s p));
          quits = (\<lambda>s. foldl (\<lambda>t a. ex_send (ToOne to) ('':'' @ c_name (xc t a) @ '' QUIT :'' @ comment) t) s (users_of s p));
          deeper = (\<lambda>s. foldl (\<lambda>t a. case t of None \<Rightarrow> None | Some t' \<Rightarrow> recurse_send_quits k a to comment myname t')
                     (Some s) (servers_of s p));
          squit = (\<lambda>s. ex_send (ToOne to) (''SQUIT '' @ c_name (xc s p) @ '' :'' @ c_name (xc s (me_addr s))) s) in
      if has (link_caps s to) CAP_QS then (if hidden then deeper (quits s) else Some (squit s))
      else map_option (\<lambda>t. if hidden then t else squit t) (deeper (quits s)))"

definition remove_dependents :: "nat \<Rightarrow> nat \<Rightarrow> nat \<Rightarrow> cstr \<Rightarrow> exit_state \<Rightarrow> exit_state option" where
  "remove_dependents k cptr a comment1 s =
     (let told = filter (\<lambda>to. IsServer (xc s to) \<and> to \<noteq> c_from (xc s a) \<and> \<not> (to = cptr \<and> has (link_caps s to) CAP_QS)) (fd_list s) in
      case foldl (\<lambda>t to. case t of None \<Rightarrow> None
               | Some t' \<Rightarrow> recurse_send_quits k a to comment1 (take HOSTLEN (link_name t' to)) t') (Some s) told of
        None \<Rightarrow> None
      | Some s1 \<Rightarrow> recurse_remove_clients k a comment1 s1)"

subsection \<open>\<open>exit_client\<close>\<close>

definition FLAGS_IPHASH :: "32 word" where "FLAGS_IPHASH = 0x1000"

text \<open>\<open>get_client_name\<close> with \<open>SHOW_IP\<close>.\<close>

definition client_name_ip :: "nat \<Rightarrow> exit_state \<Rightarrow> cstr" where
  "client_name_ip a s =
     (let c = xc s a in
      if local_flag c \<and> irccmp (c_name c) (c_host c) \<noteq> 0
      then c_name c @ ''['' @ c_username c @ ''@'' @ sockhost s a @ '']'' else c_name c)"

text \<open>\<open>close_connection\<close>: the descriptor is closed (\<open>fd_list\<close> holds the clients of \<open>local[]\<close>) and \<open>from\<close> becomes null;
  \<open>local_flag\<close>, which is \<open>MyConnect\<close>, stays. Statistics, rescheduling and buffers belong to the recorded call.\<close>

definition close_link :: "nat \<Rightarrow> exit_state \<Rightarrow> exit_state" where
  "close_link a s =
     ex_call (CloseConnection a) (ex_upd (upd_client a (\<lambda>c. c\<lparr>c_from := 0\<rparr>)) (s\<lparr>fd_list := remove1 a (fd_list s)\<rparr>))"

text \<open>The lists a connection of this server is taken off, without messages.\<close>

definition exit_lists :: "nat \<Rightarrow> exit_state \<Rightarrow> exit_state" where
  "exit_lists a s =
     (let c = xc s a;
          s1 = (if has (c_flags c) FLAGS_IPHASH then ex_call (RemoveOneIp a) s else s);
          s2 = (if IsAnOper c then ex_call (FdlistDelete a) (s1\<lparr>oper_list := remove1 a (oper_list s1)\<rparr>) else s1);
          s3 = (if IsClient c then s2\<lparr>count_local := count_local s2 - 1,
                  local_list := (if IsPerson c then remove1 a (local_list s2) else local_list s2)\<rparr> else s2) in
      if IsServer c then
        ex_call (FdlistDelete a) (s3\<lparr>count_myserver := count_myserver s3 - 1, serv_list := remove1 a (serv_list s3)\<rparr>)
      else s3)"

definition exit_local :: "nat \<Rightarrow> cstr \<Rightarrow> exit_state \<Rightarrow> exit_state" where
  "exit_local a comment s =
     (let s1 = ex_upd (upd_client a (\<lambda>c. c\<lparr>c_flags := c_flags c OR FLAG_CLOSING\<rparr>)) (exit_lists a s); c = xc s1 a;
          what = c_name c @ '' ('' @ c_username c @ ''@'' @ c_host c @ '') ['' @ comment @ ''] ['' @ c_realhost c @ '']'';
          me = c_name (xc s1 (me_addr s1));
          s2 = (if IsPerson c then
                  ex_send (ToChannel (lch_connects s1)) ('':'' @ me @ '' PRIVMSG &Connects :Client << '' @ what)
                    (ex_send ToOps (''Client exiting: '' @ what) (ex_call (DelWatchList a) s1))
                else if IsServer c then
                  ex_send ToServers ('':'' @ me @ '' GLOBOPS :Closing Link: '' @ c_name c @ '' ('' @ comment @ '')'') s1
                else s1);
          s3 = (if a \<in> set (fd_list s2)
                then ex_send (ToOne a) (''ERROR :Closing Link: '' @ client_name_ip a s2 @ '' ('' @ comment @ '')'') s2 else s2) in
      close_link a s3)"

text \<open>What C leaves undefined: a flag of a null \<open>cptr\<close>, a \<open>strcpy\<close> past the end of \<open>comment1\<close>.\<close>

datatype exit_fault = NullClient | Overrun | TooDeep

definition split_comment :: "nat \<Rightarrow> exit_state \<Rightarrow> exit_fault + cstr" where
  "split_comment a s =
     (let m = (case OverrideNetsplitMessage s of Some m \<Rightarrow> m
               | None \<Rightarrow> (case (if has_serv s a then serv_up s a else None) of Some u \<Rightarrow> u | None \<Rightarrow> ''<Unknown>'') @ '' '' @
                   c_name (xc s a)) in
      if length m < 2 * HOSTLEN + 2 then Inr m else Inl Overrun)"

text \<open>The two loops after \<open>remove_dependents\<close>: clients that still name the link as where they came from.\<close>

definition sweep_link :: "bool \<Rightarrow> nat \<Rightarrow> cstr \<Rightarrow> exit_state \<Rightarrow> exit_state" where
  "sweep_link srv a comment s =
     foldl (\<lambda>t x. if IsServer (xc t x) = srv \<and> c_from (xc t x) = a
       then exit_one_client 0 x (me_addr t) comment (ex_send ToOps (''Dependent '' @ (if srv then ''server '' else ''client '') @
              c_name (xc t x) @ '' not on llist!?'') t)
       else t) s (global_list s)"

text \<open>The flag is that of \<open>CLIENT_EXITED\<close>.\<close>

definition exit_client_full :: "nat \<Rightarrow> nat \<Rightarrow> nat \<Rightarrow> nat \<Rightarrow> cstr \<Rightarrow> exit_state \<Rightarrow> exit_fault + exit_state \<times> bool" where
  "exit_client_full k cptr a fr comment s =
     (let s1 = (if local_flag (xc s a) then exit_local a comment s else s) in
      if \<not> IsServer (xc s1 a) then Inr (exit_one_client cptr a fr comment s1, cptr = a)
      else if IsService (xc s1 a) \<and> cptr = 0 then Inl NullClient
      else
        let s2 = (if IsService (xc s1 a) then
                    ex_send ToOps ''Services DOWN or network split''
                      (ex_upd (\<lambda>d. d\<lparr>cfg := (cfg d)\<lparr>services_on := False\<rparr>\<rparr>)
                        (ex_upd (upd_client cptr (\<lambda>c. c\<lparr>c_flags := c_flags c AND NOT FLAGS_SPATH\<rparr>)) s1))
                  else s1) in
        case split_comment a s2 of
          Inl e \<Rightarrow> Inl e
        | Inr comment1 \<Rightarrow>
            (case remove_dependents k cptr a comment1 s2 of
               None \<Rightarrow> Inl TooDeep
             | Some s3 \<Rightarrow>
                 let me = me_addr s3;
                     s4 = (if servptr s3 a = me then
                             sweep_link True a (c_name (xc s3 me)) (sweep_link False a comment1
                               (ex_send ToOps (c_name (xc s3 a) @ '' was connected'') s3))
                           else s3) in
                 Inr (exit_one_client cptr a fr comment s4, cptr = a)))"

subsection \<open>What one exit changes\<close>

text \<open>The fields of a client that an exit leaves alone, its flags apart.\<close>

definition who_is :: "ircd \<Rightarrow> nat \<Rightarrow> cstr \<times> status \<times> bool \<times> nat" where
  "who_is d c = (c_name (clients d c), c_status (clients d c), has_user (clients d c), c_from (clients d c))"

lemma who_is_upd_client:
  "(\<And>c. c_name (f c) = c_name c \<and> c_status (f c) = c_status c \<and> has_user (f c) = has_user c \<and> c_from (f c) = c_from c) \<Longrightarrow>
     who_is (upd_client x f d) c = who_is d c"
  by (simp add: who_is_def)

lemma who_is_send [simp]: "who_is (send t m d) c = who_is d c"
  by (simp add: who_is_def send_def)

lemma who_is_upd_chan [simp]: "who_is (upd_chan ch f d) c = who_is d c"
  by (simp add: who_is_def upd_chan_def)

lemma who_is_del_invite [simp]: "who_is (del_invite u ch d) c = who_is d c"
  by (simp add: del_invite_def who_is_upd_client)

lemma who_is_free_invites [simp]: "who_is (free_invites ch d) c = who_is d c"
  by (induction ch d rule: free_invites.induct) (subst free_invites.simps, simp split: list.splits)

lemma who_is_remove_user [simp]: "who_is (remove_user_from_channel u ch d) c = who_is d c"
proof -
  have f: "who_is (free_channel ch t) c = who_is t c" for t by (simp add: free_channel_def who_is_def)
  have "who_is (sub1_from_channel ch t) c = who_is t c" for t
    by (simp add: sub1_from_channel_def Let_def free_bans_exceptions_denies_def f)
  then show ?thesis
    by (simp add: remove_user_from_channel_def Let_def unlink_member_def who_is_upd_client)
qed

lemma leave_channels_keeps:
  "chan_inv s \<Longrightarrow> u \<noteq> 0 \<Longrightarrow> chan_inv (leave_channels u s) \<and>
     (\<forall>x. u_channel (clients (leave_channels u s) x) = (if x = u then [] else u_channel (clients s x))) \<and>
     (\<forall>c. who_is (leave_channels u s) c = who_is s c)"
proof (induction u s rule: leave_channels.induct)
  case (1 u s)
  show ?case
  proof (cases "u_channel (clients s u)")
    case Nil
    then show ?thesis using "1.prems" by (simp add: leave_channels.simps[of u s])
  next
    case (Cons ch chs)
    let ?t = "remove_user_from_channel u ch s"
    note h = head_leaves[OF "1.prems"(1) Cons "1.prems"(2)]
    have "channels_of ?t x = channels_of s x" if "x \<noteq> u" for x
      using remove_user_links(1)[OF "1.prems"(1) h, of x] that by simp
    with "1.IH"[OF Cons remove_user_from_channel_inv[OF "1.prems"(1) h] "1.prems"(2)] Cons
    show ?thesis by (simp add: leave_channels.simps[of u s] channels_of_def)
  qed
qed

lemma leave_invites_keeps:
  "chan_inv s \<Longrightarrow> chan_inv (leave_invites u s) \<and> u_invited (clients (leave_invites u s) u) = [] \<and>
     (\<forall>x. u_channel (clients (leave_invites u s) x) = u_channel (clients s x)) \<and>
     (\<forall>c. who_is (leave_invites u s) c = who_is s c)"
proof (induction u s rule: leave_invites.induct)
  case (1 u s)
  show ?case
  proof (cases "u_invited (clients s u)")
    case Nil
    then show ?thesis using "1.prems" by (simp add: leave_invites.simps[of u s])
  next
    case (Cons ch chs)
    have "u_channel (clients (del_invite u ch s) x) = u_channel (clients s x)" for x by (simp add: del_invite_def)
    with "1.IH"[OF Cons del_invite_inv[OF "1.prems"]] Cons
    show ?thesis by (simp add: leave_invites.simps[of u s])
  qed
qed

text \<open>The shape of the tree, in which an exit changes the lists only.\<close>

definition shape :: "exit_state \<Rightarrow> nat \<times> (nat \<Rightarrow> nat) \<times> (nat \<Rightarrow> bool)" where
  "shape s = (me_addr s, servptr s, has_serv s)"

lemma ex_upd_sel [simp]:
  "ex_irc (ex_upd f s) = f (ex_irc s)" "shape (ex_upd f s) = shape s" "global_list (ex_upd f s) = global_list s"
  "users_of (ex_upd f s) = users_of s" "servers_of (ex_upd f s) = servers_of s" "client_tab (ex_upd f s) = client_tab s"
  "servptr (ex_upd f s) = servptr s" "has_serv (ex_upd f s) = has_serv s" "me_addr (ex_upd f s) = me_addr s"
  "serv_up (ex_upd f s) = serv_up s" "OverrideNetsplitMessage (ex_upd f s) = OverrideNetsplitMessage s"
  by (simp_all add: ex_upd_def shape_def)

lemma ex_call_sel [simp]:
  "ex_irc (ex_call k s) = ex_irc s" "shape (ex_call k s) = shape s" "global_list (ex_call k s) = global_list s"
  "users_of (ex_call k s) = users_of s" "servers_of (ex_call k s) = servers_of s" "client_tab (ex_call k s) = client_tab s"
  "servptr (ex_call k s) = servptr s" "has_serv (ex_call k s) = has_serv s" "me_addr (ex_call k s) = me_addr s"
  "serv_up (ex_call k s) = serv_up s" "OverrideNetsplitMessage (ex_call k s) = OverrideNetsplitMessage s"
  by (simp_all add: ex_call_def shape_def)

lemma ex_send_sel [simp]:
  "ex_irc (ex_send t m s) = send t m (ex_irc s)" "shape (ex_send t m s) = shape s" "global_list (ex_send t m s) = global_list s"
  "users_of (ex_send t m s) = users_of s" "servers_of (ex_send t m s) = servers_of s" "client_tab (ex_send t m s) = client_tab s"
  "servptr (ex_send t m s) = servptr s" "has_serv (ex_send t m s) = has_serv s" "me_addr (ex_send t m s) = me_addr s"
  "serv_up (ex_send t m s) = serv_up s" "OverrideNetsplitMessage (ex_send t m s) = OverrideNetsplitMessage s"
  by (simp_all add: ex_send_def)

lemma unlink_sel [simp]:
  "shape (unlink_dependent a s) = shape s" "global_list (unlink_dependent a s) = global_list s"
  "clients (ex_irc (unlink_dependent a s)) = clients (ex_irc s)" "client_tab (unlink_dependent a s) = client_tab s"
  "me_addr (unlink_dependent a s) = me_addr s"
  by (simp_all add: unlink_dependent_def Let_def shape_def send_def)

lemma unlink_lists:
  "servers_of (unlink_dependent a s) = (if IsServer (xc s a) \<and> servptr s a \<noteq> 0 \<and> has_serv s (servptr s a)
     then (servers_of s)(servptr s a := remove1 a (servers_of s (servptr s a))) else servers_of s)"
  "users_of (unlink_dependent a s) = (if \<not> IsServer (xc s a) \<and> servptr s a \<noteq> 0 \<and> has_serv s (servptr s a)
     then (users_of s)(servptr s a := remove1 a (users_of s (servptr s a))) else users_of s)"
  by (simp_all add: unlink_dependent_def Let_def)

text \<open>Nobody who is not in the list of clients is on a channel.\<close>

definition clean :: "exit_state \<Rightarrow> bool" where
  "clean s \<longleftrightarrow> chan_inv (ex_irc s) \<and>
     (\<forall>x. u_channel (xc s x) \<noteq> [] \<longrightarrow> x \<in> set (global_list s) \<and> IsPerson (xc s x) \<and> c_name (xc s x) \<noteq> [])"

lemma quit_person_keeps:
  assumes "chan_inv (ex_irc s)" "a \<noteq> 0"
  shows "chan_inv (ex_irc (quit_person cptr a comment s))"
    "u_channel (xc (quit_person cptr a comment s) x) = (if x = a then [] else u_channel (xc s x))"
    "who_is (ex_irc (quit_person cptr a comment s)) c = who_is (ex_irc s) c"
    "shape (quit_person cptr a comment s) = shape s" "global_list (quit_person cptr a comment s) = global_list s"
    "users_of (quit_person cptr a comment s) = users_of s" "servers_of (quit_person cptr a comment s) = servers_of s"
    "client_tab (quit_person cptr a comment s) = client_tab s"
proof -
  define s2 where "s2 = (let c = xc s a; line = '':'' @ c_name c @ '' QUIT :'' @ comment;
      s1 = (if has (c_flags c) FLAG_KILL then s else ex_send ToServers line s)
    in if \<not> IsStealth c then ex_call (CommonQuits a line) (ex_call (CommonPart a (QModeMsg s1)) s1)
       else if MyClient c then ex_send (ToOne a) ('':'' @ c_name c @ '' QUIT :Stealth mode'') s1 else s1)"
  have q: "quit_person cptr a comment s =
      ex_upd (\<lambda>d. upd_client a (\<lambda>x. x\<lparr>u_silence := []\<rparr>) (leave_invites a (leave_channels a d))) s2"
    by (simp add: quit_person_def s2_def Let_def)
  have s2: "chan_inv (ex_irc s2)" "clients (ex_irc s2) = clients (ex_irc s)" "shape s2 = shape s" "global_list s2 = global_list s"
    "users_of s2 = users_of s" "servers_of s2 = servers_of s" "client_tab s2 = client_tab s"
    using assms(1) by (simp_all add: s2_def Let_def send_def[of _ _ "ex_irc _"] chan_inv_send[unfolded send_def])
  note l = leave_channels_keeps[OF s2(1) assms(2)]
  note i = leave_invites_keeps[OF conjunct1[OF l], of a]
  show "chan_inv (ex_irc (quit_person cptr a comment s))"
    unfolding q ex_upd_sel by (rule chan_inv_upd_client[OF conjunct1[OF i]]) simp_all
  show "u_channel (xc (quit_person cptr a comment s) x) = (if x = a then [] else u_channel (xc s x))"
    using l i by (simp add: q s2(2))
  show "who_is (ex_irc (quit_person cptr a comment s)) c = who_is (ex_irc s) c"
    using l i by (simp add: q who_is_upd_client) (simp add: who_is_def s2(2))
qed (simp_all add: quit_person_def Let_def)

lemma exit_stats_sel [simp]:
  "clients (ex_irc (exit_stats a s)) = clients (ex_irc s)" "shape (exit_stats a s) = shape s"
  "global_list (exit_stats a s) = global_list s" "users_of (exit_stats a s) = users_of s"
  "servers_of (exit_stats a s) = servers_of s" "client_tab (exit_stats a s) = client_tab s"
  "chan_inv (ex_irc s) \<Longrightarrow> chan_inv (ex_irc (exit_stats a s))"
  by (simp_all add: exit_stats_def Let_def shape_def send_def[of _ _ "ex_irc _"] chan_inv_send[unfolded send_def])

lemma shape_upd [simp]: "shape (s\<lparr>global_list := g\<rparr>) = shape s" "shape (s\<lparr>client_tab := t\<rparr>) = shape s"
  by (simp_all add: shape_def)

lemma remove_list_sel [simp]:
  "clients (ex_irc (remove_client_from_list a s)) = clients (ex_irc s)" "shape (remove_client_from_list a s) = shape s"
  "global_list (remove_client_from_list a s) = remove1 a (global_list s)"
  "users_of (remove_client_from_list a s) = users_of s" "servers_of (remove_client_from_list a s) = servers_of s"
  "client_tab (remove_client_from_list a s) = client_tab s"
  "chan_inv (ex_irc s) \<Longrightarrow> chan_inv (ex_irc (remove_client_from_list a s))"
  by (simp_all add: remove_client_from_list_def remove1_idem)

lemma exit_one_effect:
  assumes "clean s" "a \<noteq> 0" "c_status (xc s a) \<noteq> STAT_ME" "distinct (global_list s)" "s' = exit_one_client cptr a fr comment s"
  shows "clean s'" "shape s' = shape s" "global_list s' = remove1 a (global_list s)"
    "users_of s' = users_of (unlink_dependent a s)" "servers_of s' = servers_of (unlink_dependent a s)"
    "who_is (ex_irc s') c = who_is (ex_irc s) c"
    "client_tab s' = del_from_client_hash_table (c_name (xc s a)) a (client_tab s)"
    "u_channel (xc s' x) = (if x = a then [] else u_channel (xc s x))"
proof -
  define s1 where "s1 = unlink_dependent a s"
  define c1 where "c1 = xc s1 a"
  define s2 where "s2 = (if IsServer c1 then
      (if c_from c1 \<noteq> 0 \<and> IsServer (xc s1 (c_from c1)) \<and> c_from c1 \<noteq> cptr \<and> \<not> has (c_flags c1) FLAG_KILL then
         ex_send (ToOne (c_from c1)) ('':'' @ c_name (xc s1 fr) @ '' SQUIT '' @ c_name c1 @ '' :'' @ comment) s1 else s1)
     else if IsPerson c1 \<and> c_name c1 \<noteq> [] then quit_person cptr a comment s1 else s1)"
  define s4 where "s4 = (let s3 = s2\<lparr>client_tab := del_from_client_hash_table (c_name c1) a (client_tab s2)\<rparr> in
     if is_registered c1 then ex_call (WatchOff a) s3 else s3)"
  have s': "s' = remove_client_from_list a s4"
    using assms(3) by (simp add: assms(5) exit_one_client_def s1_def c1_def s2_def s4_def Let_def)
  have c1: "c1 = xc s a" by (simp add: c1_def s1_def)
  have i1: "chan_inv (ex_irc s1)"
    using assms(1) by (simp add: s1_def clean_def unlink_dependent_def Let_def chan_inv_send)
  note qp = quit_person_keeps[OF i1 assms(2)]
  have s2: "chan_inv (ex_irc s2)" "shape s2 = shape s" "global_list s2 = global_list s" "users_of s2 = users_of s1"
    "servers_of s2 = servers_of s1" "client_tab s2 = client_tab s" "who_is (ex_irc s2) c = who_is (ex_irc s) c" for c
    using i1 by (simp_all add: s2_def qp chan_inv_send) (simp_all add: s1_def who_is_def)
  have u: "u_channel (xc s2 x) = (if x = a then [] else u_channel (xc s x))" for x
    using assms(1) by (auto simp: s2_def qp c1 clean_def) (auto simp: s1_def IsServer_def IsPerson_def IsClient_def)
  have s4: "chan_inv (ex_irc s4)" "shape s4 = shape s" "global_list s4 = global_list s" "users_of s4 = users_of s1"
    "servers_of s4 = servers_of s1" "clients (ex_irc s4) = clients (ex_irc s2)"
    "client_tab s4 = del_from_client_hash_table (c_name (xc s a)) a (client_tab s)"
    using s2 c1 by (simp_all add: s4_def Let_def)
  show w: "who_is (ex_irc s') c = who_is (ex_irc s) c" for c
    using s2(7)[of c] by (simp add: s' who_is_def s4(6))
  have p: "IsPerson (xc s' x) = IsPerson (xc s x)" "c_name (xc s' x) = c_name (xc s x)" for x
    using w[of x] by (auto simp: who_is_def IsPerson_def IsClient_def)
  show "clean s'"
    using assms(1,4) unfolding clean_def p
    by (auto simp: s' s4 u split: if_splits)
  show "u_channel (xc s' x) = (if x = a then [] else u_channel (xc s x))" by (simp add: s' s4 u)
  show "shape s' = shape s" "global_list s' = remove1 a (global_list s)" "users_of s' = users_of (unlink_dependent a s)"
    "servers_of s' = servers_of (unlink_dependent a s)" "client_tab s' = del_from_client_hash_table (c_name (xc s a)) a (client_tab s)"
    by (simp_all add: s' s4 s1_def)
qed

subsection \<open>The tree of servers\<close>

text \<open>Everything whose chain of servers leads to \<open>p\<close>.\<close>

definition behind :: "(nat \<Rightarrow> nat) \<Rightarrow> nat \<Rightarrow> nat set" where
  "behind up p = {a. \<exists>n. (up ^^ Suc n) a = p}"

definition servers_ok :: "exit_state \<Rightarrow> bool" where
  "servers_ok s \<longleftrightarrow>
     (let alive = set (global_list s); me = me_addr s; up = servptr s in
      distinct (global_list s) \<and> 0 \<notin> alive \<and> me \<noteq> 0 \<and> up 0 = 0 \<and> up me = me \<and>
      (\<forall>a. c_status (xc s a) = STAT_ME \<longleftrightarrow> a = me) \<and>
      (\<forall>a \<in> alive. IsServer (xc s a) \<longrightarrow> has_serv s a) \<and>
      (\<forall>a \<in> alive. up a \<noteq> 0 \<longrightarrow> up a \<in> alive \<and> has_serv s (up a) \<and> (up a = me \<or> IsServer (xc s (up a)))) \<and>
      (\<forall>a \<in> alive. a \<noteq> me \<longrightarrow> a \<notin> behind up a) \<and>
      (\<forall>p. p \<noteq> 0 \<longrightarrow> distinct (servers_of s p) \<and> distinct (users_of s p) \<and>
         set (servers_of s p) = {a \<in> alive. a \<noteq> me \<and> up a = p \<and> IsServer (xc s a)} \<and>
         set (users_of s p) = {a \<in> alive. a \<noteq> me \<and> up a = p \<and> \<not> IsServer (xc s a)}))"

lemma behind_child: "up a = p \<Longrightarrow> insert a (behind up a) \<subseteq> behind up p"
proof -
  assume p: "up a = p"
  have "\<exists>n. (up ^^ Suc n) x = p" if "(up ^^ Suc n) x = a" for x n
    using that p by (intro exI[of _ "Suc n"]) simp
  moreover have "(up ^^ Suc 0) a = p" using p by simp
  ultimately show ?thesis unfolding behind_def by blast
qed

lemma behind_cases: "x \<in> behind up p \<Longrightarrow> up x = p \<or> up x \<in> behind up p"
proof -
  assume "x \<in> behind up p"
  then obtain n where n: "(up ^^ Suc n) x = p" by (auto simp: behind_def)
  show ?thesis
  proof (cases n)
    case (Suc m)
    then have "(up ^^ Suc m) (up x) = p" using n by (simp add: funpow_swap1)
    then show ?thesis by (auto simp: behind_def)
  qed (use n in simp)
qed

lemma not_behind_zero: "up 0 = 0 \<Longrightarrow> p \<noteq> 0 \<Longrightarrow> 0 \<notin> behind up p"
proof -
  assume "up 0 = 0"
  then have "(up ^^ n) 0 = 0" for n by (induction n) auto
  then show "p \<noteq> 0 \<Longrightarrow> 0 \<notin> behind up p" by (auto simp: behind_def simp del: funpow.simps)
qed

lemma not_behind_me: "up m = m \<Longrightarrow> p \<noteq> m \<Longrightarrow> m \<notin> behind up p"
proof -
  assume "up m = m"
  then have "(up ^^ n) m = m" for n by (induction n) auto
  then show "p \<noteq> m \<Longrightarrow> m \<notin> behind up p" by (auto simp: behind_def simp del: funpow.simps)
qed

text \<open>A server whose two lists are empty has nothing behind it.\<close>

lemma leaf_when_empty:
  assumes t: "servers_ok s" and p: "p \<noteq> 0" "p \<noteq> me_addr s" and e: "servers_of s p = []" "users_of s p = []"
  shows "set (global_list s) \<inter> behind (servptr s) p = {}"
proof -
  have no_child: "a \<in> set (global_list s) \<Longrightarrow> servptr s a \<noteq> p" for a
  proof
    assume a: "a \<in> set (global_list s)" "servptr s a = p"
    have "a \<noteq> me_addr s" using t p(2) a(2) by (auto simp: servers_ok_def Let_def)
    then have "a \<in> set (servers_of s p) \<or> a \<in> set (users_of s p)"
      using t p(1) a by (simp add: servers_ok_def Let_def)
    then show False using e by simp
  qed
  have "a \<in> set (global_list s) \<Longrightarrow> (servptr s ^^ Suc n) a \<noteq> p" for a n
  proof (induction n arbitrary: a)
    case 0 then show ?case using no_child by simp
  next
    case (Suc n)
    show ?case
    proof (cases "servptr s a = 0")
      case True
      then have "(servptr s ^^ Suc (Suc n)) a = (servptr s ^^ Suc n) 0" by (simp add: funpow_swap1)
      moreover have "(servptr s ^^ m) 0 = 0" for m
        using t by (induction m) (auto simp: servers_ok_def Let_def)
      ultimately show ?thesis using p(1) by metis
    next
      case False
      then have "servptr s a \<in> set (global_list s)" using t Suc.prems by (simp add: servers_ok_def Let_def)
      from Suc.IH[OF this] show ?thesis by (simp add: funpow_swap1)
    qed
  qed
  then show ?thesis unfolding behind_def by blast
qed

text \<open>One leaf goes.\<close>

lemma tree_ok_exit:
  assumes t: "servers_ok s" and c: "clean s" and a: "a \<in> set (global_list s)" "a \<noteq> me_addr s"
    and leaf: "\<And>x. x \<in> set (global_list s) \<Longrightarrow> servptr s x \<noteq> a"
    and s': "s' = exit_one_client cptr a fr comment (mark_killed a s)"
  shows "servers_ok s'" "clean s'" "set (global_list s') = set (global_list s) - {a}" "shape s' = shape s"
    "who_is (ex_irc s') x = who_is (ex_irc s) x"
proof -
  let ?k = "mark_killed a s"
  have k: "shape ?k = shape s" "global_list ?k = global_list s" "users_of ?k = users_of s" "servers_of ?k = servers_of s"
    "who_is (ex_irc ?k) x = who_is (ex_irc s) x" "servptr ?k = servptr s" "has_serv ?k = has_serv s" for x
    by (simp_all add: mark_killed_def who_is_upd_client)
  have u: "u_channel (xc ?k x) = u_channel (xc s x)" for x by (simp add: mark_killed_def)
  have w: "IsPerson (xc ?k x) = IsPerson (xc s x)" "c_name (xc ?k x) = c_name (xc s x)" "c_status (xc ?k x) = c_status (xc s x)" for x
    using k(5)[of x] by (auto simp: who_is_def IsPerson_def IsClient_def)
  have "chan_inv (ex_irc ?k)" using c by (simp add: mark_killed_def clean_def chan_inv_upd_client)
  then have ck: "clean ?k" using c by (simp add: clean_def k u w)
  have a0: "a \<noteq> 0" "c_status (xc ?k a) \<noteq> STAT_ME" "distinct (global_list ?k)"
    using t a by (auto simp: servers_ok_def Let_def w k)
  note e = exit_one_effect[OF ck a0 s']
  show "clean s'" "shape s' = shape s" "who_is (ex_irc s') x = who_is (ex_irc s) x" for x using e by (simp_all add: k)
  show g: "set (global_list s') = set (global_list s) - {a}" using e(3) a0(3) by (simp add: k)
  have st: "c_status (xc s' x) = c_status (xc s x)" for x using e(6)[of x] k(5)[of x] by (simp add: who_is_def)
  have sh: "me_addr s' = me_addr s" "servptr s' = servptr s" "has_serv s' = has_serv s"
    using e(2) by (simp_all add: k shape_def mark_killed_def)
  have l: "servptr s a \<noteq> 0 \<Longrightarrow> has_serv s (servptr s a)" using t a by (simp add: servers_ok_def Let_def)
  have lists: "servers_of s' = (if IsServer (xc s a) \<and> servptr s a \<noteq> 0 then (servers_of s)(servptr s a := remove1 a (servers_of s (servptr s a))) else servers_of s)"
    "users_of s' = (if \<not> IsServer (xc s a) \<and> servptr s a \<noteq> 0 then (users_of s)(servptr s a := remove1 a (users_of s (servptr s a))) else users_of s)"
    using l by (auto simp: e(4,5) unlink_lists k w IsServer_def)
  have d: "distinct (servers_of s p)" "distinct (users_of s p)"
    "set (servers_of s p) = {b \<in> set (global_list s). b \<noteq> me_addr s \<and> servptr s b = p \<and> IsServer (xc s b)}"
    "set (users_of s p) = {b \<in> set (global_list s). b \<noteq> me_addr s \<and> servptr s b = p \<and> \<not> IsServer (xc s b)}" if "p \<noteq> 0" for p
    using t that by (simp_all add: servers_ok_def Let_def)
  have gd: "distinct (global_list s')" using e(3) a0(3) by (simp add: k)
  have "distinct (servers_of s' p) \<and> distinct (users_of s' p) \<and>
     set (servers_of s' p) = {b \<in> set (global_list s'). b \<noteq> me_addr s \<and> servptr s b = p \<and> IsServer (xc s b)} \<and>
     set (users_of s' p) = {b \<in> set (global_list s'). b \<noteq> me_addr s \<and> servptr s b = p \<and> \<not> IsServer (xc s b)}" if "p \<noteq> 0" for p
  proof -
    have "set (servers_of s' p) = {b \<in> set (global_list s'). b \<noteq> me_addr s \<and> servptr s b = p \<and> IsServer (xc s b)}"
      by (cases "IsServer (xc s a)"; cases "servptr s a = p") (simp_all add: lists g d[OF that], (use that in auto)+)
    moreover have "set (users_of s' p) = {b \<in> set (global_list s'). b \<noteq> me_addr s \<and> servptr s b = p \<and> \<not> IsServer (xc s b)}"
      by (cases "IsServer (xc s a)"; cases "servptr s a = p") (simp_all add: lists g d[OF that], (use that in auto)+)
    moreover have "distinct (servers_of s' p)" "distinct (users_of s' p)"
      using d(1,2)[OF that] by (auto simp: lists distinct_remove1)
    ultimately show ?thesis by blast
  qed
  moreover have "IsServer (xc s' x) = IsServer (xc s x)" for x by (simp add: IsServer_def st)
  ultimately show "servers_ok s'"
    using t leaf gd unfolding servers_ok_def Let_def sh st g by auto
qed

lemma shape_sel: "shape t = shape s \<Longrightarrow> me_addr t = me_addr s \<and> servptr t = servptr s \<and> has_serv t = has_serv s"
  by (simp add: shape_def)

text \<open>The head of a list of a server is one of the clients behind it.\<close>

lemma child_facts:
  assumes t: "servers_ok s" and p: "p \<noteq> 0" and a: "a \<in> set (servers_of s p) \<union> set (users_of s p)"
  shows "a \<in> set (global_list s)" "a \<noteq> me_addr s" "a \<noteq> 0" "servptr s a = p" "a \<notin> behind (servptr s) a"
    "a \<in> set (servers_of s p) \<Longrightarrow> has_serv s a"
    "a \<in> set (users_of s p) \<Longrightarrow> x \<in> set (global_list s) \<Longrightarrow> servptr s x \<noteq> a"
proof -
  show m: "a \<in> set (global_list s)" "a \<noteq> me_addr s" "servptr s a = p"
    using t p a by (auto simp: servers_ok_def Let_def)
  show a0: "a \<noteq> 0" using t m(1) unfolding servers_ok_def Let_def by metis
  show "a \<notin> behind (servptr s) a" using t m(1,2) by (simp add: servers_ok_def Let_def)
  show "has_serv s a" if "a \<in> set (servers_of s p)"
    using t p that by (simp add: servers_ok_def Let_def)
  show "servptr s x \<noteq> a" if u: "a \<in> set (users_of s p)" and x: "x \<in> set (global_list s)"
  proof
    assume "servptr s x = a"
    then have "a = me_addr s \<or> IsServer (xc s a)" using t x a0 by (auto simp: servers_ok_def Let_def)
    then show False using t p u m(2) by (simp add: servers_ok_def Let_def)
  qed
qed

lemma fewer_behind:
  assumes "a \<in> A" "a \<in> behind up p" "finite A"
  shows "card ((A - behind up a - {a}) \<inter> behind up p) < card (A \<inter> behind up p)"
  by (rule psubset_card_mono) (use assms in auto)

lemma fewer_behind_child:
  assumes "a \<in> A" "up a = p" "a \<notin> behind up a" "finite A"
  shows "card (A \<inter> behind up a) < card (A \<inter> behind up p)"
  by (rule psubset_card_mono) (use assms behind_child[of up a p] in auto)

lemma remove_clients_all:
  "servers_ok s \<Longrightarrow> clean s \<Longrightarrow> p \<noteq> 0 \<Longrightarrow> p \<noteq> me_addr s \<Longrightarrow> has_serv s p \<Longrightarrow>
   card (set (global_list s) \<inter> behind (servptr s) p) < k \<Longrightarrow>
   \<exists>s'. recurse_remove_clients k p comment s = Some s' \<and> servers_ok s' \<and> clean s' \<and> shape s' = shape s \<and>
     set (global_list s') = set (global_list s) - behind (servptr s) p \<and>
     (\<forall>x. who_is (ex_irc s') x = who_is (ex_irc s) x)"
proof (induction k arbitrary: p comment s)
  case (Suc k)
  note prem = Suc.prems
  have me: "c_status (xc s p) \<noteq> STAT_ME" using prem(1,4) by (simp add: servers_ok_def Let_def)
  let ?A = "set (global_list s)" and ?up = "servptr s"
  show ?case
  proof (cases "servers_of s p")
    case (Cons a rest)
    then have am: "a \<in> set (servers_of s p) \<union> set (users_of s p)" "a \<in> set (servers_of s p)" by auto
    note f = child_facts(1-5)[OF prem(1,3) am(1)] child_facts(6)[OF prem(1,3) am(1) am(2)]
    have "card (?A \<inter> behind ?up a) < k"
      using fewer_behind_child[of a ?A ?up p] f prem(6) by simp
    from Suc.IH[OF prem(1,2) f(3,2,6) this, of comment]
    obtain s1 where s1: "recurse_remove_clients k a comment s = Some s1" "servers_ok s1" "clean s1" "shape s1 = shape s"
      "set (global_list s1) = ?A - behind ?up a" "\<And>x. who_is (ex_irc s1) x = who_is (ex_irc s) x" by blast
    note h1 = shape_sel[OF s1(4)]
    define s2 where "s2 = exit_one_client 0 a (me_addr s1) (c_name (xc s1 (me_addr s1))) (mark_killed a s1)"
    have "a \<in> set (global_list s1)" "a \<noteq> me_addr s1" using f s1(5) h1 by auto
    moreover have "servptr s1 x \<noteq> a" if "x \<in> set (global_list s1)" for x
      using that s1(5) h1 behind_child[of ?up x a] by auto
    ultimately have s2: "servers_ok s2" "clean s2" "set (global_list s2) = ?A - behind ?up a - {a}" "shape s2 = shape s"
      "\<And>x. who_is (ex_irc s2) x = who_is (ex_irc s) x"
      using tree_ok_exit[OF s1(2,3) _ _ _ s2_def] s1(4,5,6) by metis+
    note h2 = shape_sel[OF s2(4)]
    have ap: "a \<in> behind ?up p" "behind ?up a \<subseteq> behind ?up p" using behind_child[of ?up a p] f(4) by auto
    have "card (set (global_list s2) \<inter> behind (servptr s2) p) < k"
      using fewer_behind[OF f(1) ap(1)] prem(6) s2(3) h2 by simp
    moreover have "p \<noteq> me_addr s2" "has_serv s2 p" using prem(4,5) h2 by auto
    ultimately obtain s3 where s3: "recurse_remove_clients k p comment s2 = Some s3" "servers_ok s3" "clean s3" "shape s3 = shape s2"
      "set (global_list s3) = set (global_list s2) - behind (servptr s2) p" "\<And>x. who_is (ex_irc s3) x = who_is (ex_irc s2) x"
      using Suc.IH[OF s2(1,2) prem(3), of comment] by blast
    have "recurse_remove_clients (Suc k) p comment s = Some s3"
      using me prem(5) Cons s1(1) s3(1) by (simp add: s2_def)
    moreover have "set (global_list s3) = ?A - behind ?up p" using s3(5) s2(3) h2 ap by auto
    ultimately show ?thesis using s3(2-4,6) s2(4,5) by auto
  next
    case Nil
    show ?thesis
    proof (cases "users_of s p")
      case (Cons a rest)
      then have am: "a \<in> set (servers_of s p) \<union> set (users_of s p)" "a \<in> set (users_of s p)" by auto
      note f = child_facts(1-5)[OF prem(1,3) am(1)]
      note no = child_facts(7)[OF prem(1,3) am(1) am(2)]
      define s2 where "s2 = exit_one_client 0 a (me_addr s) comment (mark_killed a s)"
      have s2: "servers_ok s2" "clean s2" "set (global_list s2) = ?A - {a}" "shape s2 = shape s"
        "\<And>x. who_is (ex_irc s2) x = who_is (ex_irc s) x"
        using tree_ok_exit[OF prem(1,2) f(1,2) no s2_def] by blast+
      note h2 = shape_sel[OF s2(4)]
      have ap: "a \<in> behind ?up p" using behind_child[of ?up a p] f(4) by auto
      have "set (global_list s2) \<inter> behind (servptr s2) p \<subset> ?A \<inter> behind ?up p" using s2(3) h2 ap f(1) by auto
      then have "card (set (global_list s2) \<inter> behind (servptr s2) p) < k"
        using psubset_card_mono[of "?A \<inter> behind ?up p"] prem(6) by (metis List.finite_set finite_Int less_Suc_eq_le order_less_le_trans)
      moreover have "p \<noteq> me_addr s2" "has_serv s2 p" using prem(4,5) h2 by auto
      ultimately obtain s3 where s3: "recurse_remove_clients k p comment s2 = Some s3" "servers_ok s3" "clean s3" "shape s3 = shape s2"
        "set (global_list s3) = set (global_list s2) - behind (servptr s2) p" "\<And>x. who_is (ex_irc s3) x = who_is (ex_irc s2) x"
        using Suc.IH[OF s2(1,2) prem(3), of comment] by blast
      have "recurse_remove_clients (Suc k) p comment s = Some s3"
        using me prem(5) Nil Cons s3(1) by (simp add: s2_def)
      moreover have "set (global_list s3) = ?A - behind ?up p" using s3(5) s2(3) h2 ap by auto
      ultimately show ?thesis using s3(2-4,6) s2(4,5) by auto
    next
      case Nil2: Nil
      have "recurse_remove_clients (Suc k) p comment s = Some s" using me prem(5) Nil Nil2 by simp
      with leaf_when_empty[OF prem(1,3,4) Nil Nil2] prem(1,2) show ?thesis by auto
    qed
  qed
qed simp

subsection \<open>The whole exit\<close>

text \<open>Steps that send and record only.\<close>

definition keeps_tree :: "exit_state \<Rightarrow> exit_state \<Rightarrow> bool" where
  "keeps_tree s t \<longleftrightarrow> shape t = shape s \<and> global_list t = global_list s \<and> users_of t = users_of s \<and> servers_of t = servers_of s \<and>
     client_tab t = client_tab s \<and> serv_up t = serv_up s \<and> OverrideNetsplitMessage t = OverrideNetsplitMessage s \<and>
     (chan_inv (ex_irc s) \<longrightarrow> chan_inv (ex_irc t)) \<and>
     (\<forall>x. c_name (xc t x) = c_name (xc s x) \<and> c_status (xc t x) = c_status (xc s x) \<and> has_user (xc t x) = has_user (xc s x) \<and>
       u_channel (xc t x) = u_channel (xc s x))"

lemma quiet_refl [simp]: "keeps_tree s s"
  by (simp add: keeps_tree_def)

lemma quiet_trans: "keeps_tree s t \<Longrightarrow> keeps_tree t r \<Longrightarrow> keeps_tree s r"
  by (simp add: keeps_tree_def)

lemma quiet_call [simp]: "keeps_tree s (ex_call c t) = keeps_tree s t"
  by (simp add: keeps_tree_def)

lemma quiet_send [simp]: "keeps_tree s t \<Longrightarrow> keeps_tree s (ex_send g m t)"
  by (simp add: keeps_tree_def chan_inv_send)

lemma quiet_upd:
  "keeps_tree s t \<Longrightarrow> (\<And>c. c_name (f c) = c_name c \<and> c_status (f c) = c_status c \<and> has_user (f c) = has_user c \<and>
     u_channel (f c) = u_channel c \<and> u_invited (f c) = u_invited c \<and> u_joined (f c) = u_joined c) \<Longrightarrow> keeps_tree s (ex_upd (upd_client x f) t)"
  by (auto simp: keeps_tree_def intro!: chan_inv_upd_client)

lemma quiet_tree: "keeps_tree s t \<Longrightarrow> servers_ok s \<Longrightarrow> servers_ok t"
  using shape_sel[of t s] by (simp add: keeps_tree_def servers_ok_def Let_def IsServer_def)

lemma quiet_clean: "keeps_tree s t \<Longrightarrow> clean s \<Longrightarrow> clean t"
  by (simp add: keeps_tree_def clean_def IsPerson_def IsClient_def)

text \<open>Steps that send only: the clients are untouched.\<close>

definition told :: "exit_state \<Rightarrow> exit_state \<Rightarrow> bool" where
  "told s t \<longleftrightarrow> keeps_tree s t \<and> clients (ex_irc t) = clients (ex_irc s)"

lemma told_refl [simp]: "told s s" by (simp add: told_def)

lemma told_trans: "told s t \<Longrightarrow> told t r \<Longrightarrow> told s r"
  by (auto simp: told_def intro: quiet_trans)

lemma told_send: "told s t \<Longrightarrow> told s (ex_send g m t)"
  by (simp add: told_def)

lemma told_fold: "told s t \<Longrightarrow> (\<And>t a. told s t \<Longrightarrow> told s (f t a)) \<Longrightarrow> told s (foldl f t xs)"
  by (induction xs arbitrary: t) auto

lemma told_fold_option:
  "told s t \<Longrightarrow> (\<And>t a. told s t \<Longrightarrow> a \<in> set xs \<Longrightarrow> \<exists>r. f t a = Some r \<and> told s r) \<Longrightarrow>
   \<exists>r. foldl (\<lambda>t a. case t of None \<Rightarrow> None | Some t' \<Rightarrow> f t' a) (Some t) xs = Some r \<and> told s r"
proof (induction xs arbitrary: t)
  case (Cons a xs)
  obtain r where "f t a = Some r" "told s r" using Cons.prems(2)[OF Cons.prems(1), of a] by auto
  with Cons.IH[of r] Cons.prems(2) show ?case by auto
qed simp

lemma send_quits_told:
  "servers_ok s \<Longrightarrow> p \<noteq> 0 \<Longrightarrow> p \<noteq> me_addr s \<Longrightarrow> card (set (global_list s) \<inter> behind (servptr s) p) < k \<Longrightarrow>
   \<exists>t. recurse_send_quits k p to comment myname s = Some t \<and> told s t"
proof (induction k arbitrary: p s)
  case (Suc k)
  have q: "told s (foldl (\<lambda>t a. ex_send (ToOne to) ('':'' @ c_name (xc t a) @ '' QUIT :'' @ comment) t) s (users_of s p))"
    by (rule told_fold) (auto intro: told_send)
  have d: "\<exists>r. foldl (\<lambda>t a. case t of None \<Rightarrow> None | Some t' \<Rightarrow> recurse_send_quits k a to comment myname t')
                     (Some u) (servers_of u p) = Some r \<and> told s r" if u: "told s u" for u
  proof (rule told_fold_option[OF u])
    fix t a assume t: "told s t" and a: "a \<in> set (servers_of u p)"
    have a': "a \<in> set (servers_of s p) \<union> set (users_of s p)" using a u by (simp add: told_def keeps_tree_def)
    note f = child_facts(1-5)[OF Suc.prems(1,2) a']
    have eq: "me_addr t = me_addr s" "servptr t = servptr s" "global_list t = global_list s"
      using t shape_sel[of t s] by (simp_all add: told_def keeps_tree_def)
    have "card (set (global_list t) \<inter> behind (servptr t) a) < k"
      using fewer_behind_child[of a "set (global_list s)" "servptr s" p] f Suc.prems(4) by (simp add: eq)
    moreover have "servers_ok t" using t Suc.prems(1) quiet_tree by (auto simp: told_def)
    ultimately obtain r where "recurse_send_quits k a to comment myname t = Some r" "told t r"
      using Suc.IH[of t a] f(2,3) eq by auto
    then show "\<exists>r. recurse_send_quits k a to comment myname t = Some r \<and> told s r" using told_trans[OF t] by blast
  qed
  show ?case
    using d[OF q] told_send by (auto simp: Let_def)
qed simp

lemma dependents_go:
  assumes "servers_ok s" "clean s" "p \<noteq> 0" "p \<noteq> me_addr s" "has_serv s p"
    "card (set (global_list s) \<inter> behind (servptr s) p) < k"
  shows "\<exists>s'. remove_dependents k cptr p comment s = Some s' \<and> servers_ok s' \<and> clean s' \<and> shape s' = shape s \<and>
     set (global_list s') = set (global_list s) - behind (servptr s) p \<and> (\<forall>x. who_is (ex_irc s') x = who_is (ex_irc s) x)"
proof -
  have keep: "me_addr t = me_addr s" "servptr t = servptr s" "global_list t = global_list s" "has_serv t = has_serv s" "servers_ok t" "clean t"
    "clients (ex_irc t) = clients (ex_irc s)"
    if "told s t" for t
    using that shape_sel[of t s] assms(1,2) quiet_tree quiet_clean by (auto simp: told_def keeps_tree_def)
  have "\<exists>r. foldl (\<lambda>t to. case t of None \<Rightarrow> None
               | Some t' \<Rightarrow> recurse_send_quits k p to comment (take HOSTLEN (link_name t' to)) t') (Some s) xs = Some r \<and> told s r" for xs
  proof (rule told_fold_option)
    fix t a assume t: "told s t"
    show "\<exists>r. recurse_send_quits k p a comment (take HOSTLEN (link_name t a)) t = Some r \<and> told s r"
      using send_quits_told[of t p k] keep[OF t] assms(3,4,6) told_trans[OF t] by metis
  qed simp
  then obtain r where r: "remove_dependents k cptr p comment s = recurse_remove_clients k p comment r" "told s r"
    unfolding remove_dependents_def Let_def by (metis (no_types, lifting) option.simps(5))
  show ?thesis
    using remove_clients_all[of r p k comment] keep[OF r(2)] r assms(3-6)
    by (auto simp: told_def keeps_tree_def who_is_def)
qed

lemma quiet_fields [simp]:
  "keeps_tree s (t\<lparr>oper_list := l\<rparr>) = keeps_tree s t" "keeps_tree s (t\<lparr>local_list := l, count_local := i\<rparr>) = keeps_tree s t"
  "keeps_tree s (t\<lparr>count_local := i, local_list := l\<rparr>) = keeps_tree s t"
  "keeps_tree s (t\<lparr>count_myserver := i, serv_list := l\<rparr>) = keeps_tree s t" "keeps_tree s (t\<lparr>fd_list := l\<rparr>) = keeps_tree s t"
  by (simp_all add: keeps_tree_def shape_def)

lemma chan_inv_cfg: "chan_inv s \<Longrightarrow> chan_inv (s\<lparr>cfg := f (cfg s)\<rparr>)"
proof -
  assume "chan_inv s"
  then have i: "links_inv s" "table_inv s" by (simp_all add: chan_inv_def)
  have "links_inv (s\<lparr>cfg := f (cfg s)\<rparr>)"
    by (rule links_inv_cong [OF i(1)]) (auto simp: members_of_def channels_of_def invites_of_def invited_of_def fun_eq_iff)
  moreover have "table_inv (s\<lparr>cfg := f (cfg s)\<rparr>) = table_inv s"
    by (rule table_inv_cong) (auto simp: chan_name_def fun_eq_iff)
  ultimately show ?thesis using i by (simp add: chan_inv_def)
qed

lemma exit_lists_quiet: "keeps_tree s (exit_lists a s)"
  by (simp add: exit_lists_def Let_def)

lemma exit_local_quiet: "keeps_tree s (exit_local a comment s)"
proof -
  define s1 where "s1 = ex_upd (upd_client a (\<lambda>c. c\<lparr>c_flags := c_flags c OR FLAG_CLOSING\<rparr>)) (exit_lists a s)"
  have "keeps_tree s s1" unfolding s1_def by (rule quiet_upd[OF exit_lists_quiet]) simp
  then show ?thesis
    unfolding exit_local_def Let_def s1_def[symmetric] close_link_def by (auto intro!: quiet_upd)
qed

lemma exit_local_from: "c_from (xc (exit_local a comment s) x) = (if x = a then 0 else c_from (xc s x))"
proof -
  have "clients (ex_irc (exit_lists a s)) = clients (ex_irc s)" by (simp add: exit_lists_def Let_def)
  then show ?thesis by (simp add: exit_local_def close_link_def Let_def)
qed

lemma sweep_nothing: "(\<And>x. x \<in> set (global_list s) \<Longrightarrow> c_from (xc s x) \<noteq> a) \<Longrightarrow> sweep_link srv a comment s = s"
proof -
  assume n: "\<And>x. x \<in> set (global_list s) \<Longrightarrow> c_from (xc s x) \<noteq> a"
  have "set xs \<subseteq> set (global_list s) \<Longrightarrow>
    foldl (\<lambda>t x. if IsServer (xc t x) = srv \<and> c_from (xc t x) = a then f t x else t) s xs = s" for xs f
    using n by (induction xs) auto
  then show ?thesis by (simp add: sweep_link_def)
qed

lemma exit_server_all:
  assumes t: "servers_ok s" and c: "clean s" and p: "p \<in> set (global_list s)" "p \<noteq> me_addr s" "IsServer (xc s p)"
    and svc: "cptr \<noteq> 0" and m: "split_comment p s = Inr m"
    and "from": "\<And>x. x \<in> set (global_list s) \<Longrightarrow> c_from (xc s x) = p \<Longrightarrow> x = p \<or> x \<in> behind (servptr s) p"
    and loc: "servptr s p = me_addr s \<Longrightarrow> local_flag (xc s p)"
    and k: "card (set (global_list s) \<inter> behind (servptr s) p) < k"
  shows "\<exists>s'. exit_client_full k cptr p fr comment s = Inr (s', cptr = p) \<and> clean s' \<and>
     set (global_list s') = set (global_list s) - insert p (behind (servptr s) p)"
proof -
  define s1 where "s1 = (if local_flag (xc s p) then exit_local p comment s else s)"
  define s2 where "s2 = (if IsService (xc s1 p) then ex_send ToOps ''Services DOWN or network split''
      (ex_upd (\<lambda>d. d\<lparr>cfg := (cfg d)\<lparr>services_on := False\<rparr>\<rparr>)
        (ex_upd (upd_client cptr (\<lambda>c. c\<lparr>c_flags := c_flags c AND NOT FLAGS_SPATH\<rparr>)) s1)) else s1)"
  have q1: "keeps_tree s s1" by (simp add: s1_def exit_local_quiet)
  have "keeps_tree s (ex_upd (\<lambda>d. d\<lparr>cfg := (cfg d)\<lparr>services_on := False\<rparr>\<rparr>) r)" if "keeps_tree s r" for r
    using that chan_inv_cfg[of "ex_irc r"] by (simp add: keeps_tree_def)
  note off = this
  have q2: "keeps_tree s s2"
  proof (cases "IsService (xc s1 p)")
    case True
    have "keeps_tree s (ex_upd (upd_client cptr (\<lambda>c. c\<lparr>c_flags := c_flags c AND NOT FLAGS_SPATH\<rparr>)) s1)"
      by (rule quiet_upd[OF q1]) simp
    from quiet_send[OF off[OF this]] show ?thesis by (simp add: s2_def True)
  qed (simp add: s2_def q1)
  have sh: "me_addr s2 = me_addr s" "servptr s2 = servptr s" "has_serv s2 = has_serv s" "global_list s2 = global_list s"
    "c_name (xc s2 x) = c_name (xc s x)" "c_status (xc s2 x) = c_status (xc s x)" for x
    using q2 shape_sel[of s2 s] by (simp_all add: keeps_tree_def)
  have "serv_up s2 = serv_up s" "OverrideNetsplitMessage s2 = OverrideNetsplitMessage s" using q2 by (simp_all add: keeps_tree_def)
  then have "split_comment p s2 = split_comment p s"
    by (simp add: split_comment_def sh split: option.split)
  then have m2: "split_comment p s2 = Inr m" using m by simp
  have p0: "p \<noteq> 0" "has_serv s p" using t p unfolding servers_ok_def Let_def by metis+
  obtain s3 where s3: "remove_dependents k cptr p m s2 = Some s3" "servers_ok s3" "clean s3" "shape s3 = shape s2"
    "set (global_list s3) = set (global_list s) - behind (servptr s) p" "\<And>x. who_is (ex_irc s3) x = who_is (ex_irc s2) x"
    using dependents_go[of s2 p k cptr m] quiet_tree[OF q2 t] quiet_clean[OF q2 c] p0 p k by (auto simp: sh)
  note h3 = shape_sel[OF s3(4)]
  have srv1: "IsServer (xc s1 p)" using q1 p(3) by (simp add: keeps_tree_def IsServer_def)
  define s4 where "s4 = (if servptr s3 p = me_addr s3 then
      sweep_link True p (c_name (xc s3 (me_addr s3))) (sweep_link False p m (ex_send ToOps (c_name (xc s3 p) @ '' was connected'') s3)) else s3)"
  have run: "exit_client_full k cptr p fr comment s = Inr (exit_one_client cptr p fr comment s4, cptr = p)"
    using svc by (simp add: exit_client_full_def s1_def[symmetric] srv1 s2_def[symmetric] m2 s3(1) Let_def s4_def[symmetric])
  have told3: "told s3 s4"
  proof (cases "servptr s3 p = me_addr s3")
    case True
    let ?r = "ex_send ToOps (c_name (xc s3 p) @ '' was connected'') s3"
    have lf: "local_flag (xc s p)" using loc True h3 sh by simp
    have no: "c_from (xc ?r x) \<noteq> p" if "x \<in> set (global_list ?r)" for x
    proof -
      have "c_from (xc s3 x) = c_from (xc s1 x)" using s3(6)[of x] by (simp add: who_is_def s2_def)
      moreover have "x \<in> set (global_list s)" "x \<notin> behind (servptr s) p" using that s3(5) by auto
      ultimately show ?thesis using "from"[of x] p0(1) lf by (auto simp: s1_def exit_local_from)
    qed
    have "sweep_link srv p c ?r = ?r" for srv c by (rule sweep_nothing) (rule no)
    then show ?thesis using True by (simp add: s4_def told_send)
  qed (simp add: s4_def)
  have q3: "keeps_tree s3 s4" using told3 by (simp add: told_def)
  have e: "clean s4" "servers_ok s4" "global_list s4 = global_list s3" "me_addr s4 = me_addr s"
    using quiet_clean[OF q3 s3(3)] quiet_tree[OF q3 s3(2)] q3 shape_sel[of s4 s3] h3 sh by (simp_all add: keeps_tree_def)
  have d: "distinct (global_list s4)" "c_status (xc s4 p) \<noteq> STAT_ME" using e p(2) by (simp_all add: servers_ok_def Let_def)
  show ?thesis
    using run exit_one_effect(1,3)[OF e(1) p0(1) d(2,1) refl] d(1) e(3) s3(5) by auto
qed

lemma clean_members: "clean s \<Longrightarrow> set (members_of (ex_irc s) ch) \<subseteq> set (global_list s)"
proof
  fix a assume c: "clean s" and a: "a \<in> set (members_of (ex_irc s) ch)"
  have "ch \<in> set (channels_of (ex_irc s) a)"
    using c a mem.agreeD[of "ex_irc s" a ch] by (simp add: clean_def chan_inv_def links_inv_def)
  then have "u_channel (xc s a) \<noteq> []" by (auto simp: channels_of_def)
  then show "a \<in> set (global_list s)" using c by (simp add: clean_def)
qed

lemma behind_iff: "x \<in> behind up p \<longleftrightarrow> up x = p \<or> up x \<in> behind up p"
proof -
  have "x \<in> behind up p" if b: "up x \<in> behind up p"
  proof -
    obtain n where "(up ^^ Suc n) (up x) = p" using b unfolding behind_def by blast
    then have "(up ^^ Suc (Suc n)) x = p" by (simp add: funpow_swap1)
    then show ?thesis unfolding behind_def by blast
  qed
  then show ?thesis using behind_cases[of x up p] behind_child[of up x p] by auto
qed

text \<open>A small network: this server is 1, server 4 is linked to it, server 6 to that; \<open>op\<close> (3) is on 4, \<open>bob\<close> (2) on 6; both
  are on \<open>#c\<close>.\<close>

definition far_client :: "cstr \<Rightarrow> status \<Rightarrow> client \<Rightarrow> client" where
  "far_client n st c = c\<lparr>c_name := n, c_status := st, local_flag := False, c_from := 4\<rparr>"

definition net_irc :: ircd where
  "net_irc = upd_client 1 (\<lambda>c. (far_client ''irc.pt'' STAT_ME c)\<lparr>c_from := 0\<rparr>) (upd_client 4 (\<lambda>c. (far_client ''hub'' STAT_SERVER c)\<lparr>local_flag := True\<rparr>)
     (upd_client 6 (far_client ''leaf'' STAT_SERVER) (upd_client 2 (far_client ''bob'' STAT_CLIENT) (upd_client 3 (far_client ''op'' STAT_CLIENT) room))))"

definition net_up :: "nat \<Rightarrow> nat" where
  "net_up x = (if x = 2 then 6 else if x = 3 \<or> x = 6 then 4 else if x = 1 \<or> x = 4 then 1 else 0)"

definition hub_net :: exit_state where
  "hub_net = \<lparr>ex_irc = net_irc, me_addr = 1, client_tab = clear_hash_table, global_list = [2, 3, 6, 4, 1], servptr = net_up,
     has_serv = (\<lambda>x. x \<in> {1, 4, 6}), serv_up = (\<lambda>x. Some ''irc.pt''), users_of = (\<lambda>x. if x = 4 then [3] else if x = 6 then [2] else []),
     servers_of = (\<lambda>x. if x = 1 then [4] else if x = 4 then [6] else []), oper_list = [], local_list = [], serv_list = [4], fd_list = [4],
     link_caps = (\<lambda>_. 0), link_name = (\<lambda>_. ''irc.pt''), sockhost = (\<lambda>_. ''127.0.0.1''), lch_connects = 9, count_local = 0,
     count_myserver = 1, count_server = 3, count_total = 2, count_oper = 0, count_invisi = 0, QModeMsg = [],
     OverrideNetsplitMessage = None, ex_calls = []\<rparr>"

lemma hub_sel:
  "global_list hub_net = [2, 3, 6, 4, 1]" "me_addr hub_net = 1" "servptr hub_net = net_up" "ex_irc hub_net = net_irc"
  "has_serv hub_net x = (x \<in> {1, 4, 6})" "OverrideNetsplitMessage hub_net = None" "serv_up hub_net x = Some ''irc.pt''"
  "users_of hub_net x = (if x = 4 then [3] else if x = 6 then [2] else [])"
  "servers_of hub_net x = (if x = 1 then [4] else if x = 4 then [6] else [])"
  by (simp_all add: hub_net_def)

lemma room_channels: "u_channel (clients room x) = (if x = 2 \<or> x = 3 then [5] else [])" "c_status (clients room x) = STAT_CLIENT"
  "has_user (clients room x)" "c_from (clients room x) = 0"
  by (auto simp: room_def add_user_to_channel_def link_member_def start_get)
    (simp_all add: start_def boot_def plain_user_def)

lemma net_clients:
  "u_channel (clients net_irc x) = (if x = 2 \<or> x = 3 then [5] else [])"
  "c_status (clients net_irc x) = (if x = 1 then STAT_ME else if x = 4 \<or> x = 6 then STAT_SERVER else STAT_CLIENT)"
  "has_user (clients net_irc x)" "c_from (clients net_irc x) = (if x \<in> {2, 3, 4, 6} then 4 else 0)"
  "local_flag (clients net_irc 4)" "c_name (clients net_irc 4) = ''hub''" "c_name (clients net_irc 2) = ''bob''" "c_name (clients net_irc 3) = ''op''"
  by (simp_all add: net_irc_def far_client_def room_channels)

lemma net_clean: "clean hub_net"
proof -
  have "chan_inv net_irc"
    unfolding net_irc_def by (intro chan_inv_upd_client room_inv) (simp_all add: far_client_def)
  then show ?thesis by (simp add: clean_def hub_sel net_clients IsPerson_def IsClient_def)
qed

lemma net_behind: "behind net_up 4 \<inter> {1, 2, 3, 4, 6} = {2, 3, 6}" "1 \<notin> behind net_up 4"
  and net_loops: "2 \<notin> behind net_up 2" "3 \<notin> behind net_up 3" "6 \<notin> behind net_up 6" "4 \<notin> behind net_up 4"
proof -
  have u: "net_up 1 = 1" "net_up 2 = 6" "net_up 3 = 4" "net_up 4 = 1" "net_up 6 = 4" by (simp_all add: net_up_def)
  have one: "1 \<notin> behind net_up p" if "p \<noteq> 1" for p using not_behind_me[of net_up 1 p] that u by simp
  have four: "4 \<notin> behind net_up p" if "p \<noteq> 1" for p using behind_iff[of 4 net_up p] that one u by simp
  have six: "6 \<in> behind net_up p \<longleftrightarrow> p = 4" if "p \<noteq> 1" for p using behind_iff[of 6 net_up p] that four u by auto
  show "1 \<notin> behind net_up 4" "4 \<notin> behind net_up 4" "6 \<notin> behind net_up 6" using one four six by auto
  show "2 \<notin> behind net_up 2" "3 \<notin> behind net_up 3"
    using behind_iff[of 2 net_up 2] behind_iff[of 3 net_up 3] six[of 2] four[of 3] u by auto
  have "2 \<in> behind net_up 4" "3 \<in> behind net_up 4" "6 \<in> behind net_up 4"
    using behind_iff[of 2 net_up 4] behind_iff[of 3 net_up 4] six[of 4] u by auto
  then show "behind net_up 4 \<inter> {1, 2, 3, 4, 6} = {2, 3, 6}" using one[of 4] four[of 4] by auto
qed

lemma net_tree: "servers_ok hub_net"
proof -
  have srv: "set (servers_of hub_net p) = {a \<in> set (global_list hub_net). a \<noteq> me_addr hub_net \<and> servptr hub_net a = p \<and> IsServer (xc hub_net a)}"
    if "p \<noteq> 0" for p
  proof -
    have "set (servers_of hub_net p) = set (filter (\<lambda>a. a \<noteq> 1 \<and> net_up a = p \<and> IsServer (clients net_irc a)) [2, 3, 6, 4, 1])"
      by (auto simp: hub_sel net_up_def IsServer_def net_clients)
    then show ?thesis by (simp only: set_filter hub_sel(1-4))
  qed
  have usr: "set (users_of hub_net p) = {a \<in> set (global_list hub_net). a \<noteq> me_addr hub_net \<and> servptr hub_net a = p \<and> \<not> IsServer (xc hub_net a)}"
    if "p \<noteq> 0" for p
  proof -
    have "set (users_of hub_net p) = set (filter (\<lambda>a. a \<noteq> 1 \<and> net_up a = p \<and> \<not> IsServer (clients net_irc a)) [2, 3, 6, 4, 1])"
      by (auto simp: hub_sel net_up_def IsServer_def net_clients)
    then show ?thesis by (simp only: set_filter hub_sel(1-4))
  qed
  have d: "distinct (servers_of hub_net p)" "distinct (users_of hub_net p)" for p by (simp_all add: hub_sel)
  have lists: "\<forall>p. p \<noteq> 0 \<longrightarrow> distinct (servers_of hub_net p) \<and> distinct (users_of hub_net p) \<and>
     set (servers_of hub_net p) = {a \<in> set (global_list hub_net). a \<noteq> me_addr hub_net \<and> servptr hub_net a = p \<and> IsServer (xc hub_net a)} \<and>
     set (users_of hub_net p) = {a \<in> set (global_list hub_net). a \<noteq> me_addr hub_net \<and> servptr hub_net a = p \<and> \<not> IsServer (xc hub_net a)}"
    by (intro allI impI conjI d srv usr)
  have basic: "distinct (global_list hub_net)" "0 \<notin> set (global_list hub_net)" "me_addr hub_net \<noteq> 0" "servptr hub_net 0 = 0"
    "servptr hub_net (me_addr hub_net) = me_addr hub_net" "\<forall>a. c_status (xc hub_net a) = STAT_ME \<longleftrightarrow> a = me_addr hub_net"
    "\<forall>a \<in> set (global_list hub_net). IsServer (xc hub_net a) \<longrightarrow> has_serv hub_net a"
    by (simp_all add: hub_sel net_up_def net_clients IsServer_def)
  have parents: "\<forall>a \<in> set (global_list hub_net). servptr hub_net a \<noteq> 0 \<longrightarrow> servptr hub_net a \<in> set (global_list hub_net) \<and>
     has_serv hub_net (servptr hub_net a) \<and> (servptr hub_net a = me_addr hub_net \<or> IsServer (xc hub_net (servptr hub_net a)))"
    by (simp add: hub_sel net_up_def net_clients IsServer_def)
  have loops: "\<forall>a \<in> set (global_list hub_net). a \<noteq> me_addr hub_net \<longrightarrow> a \<notin> behind (servptr hub_net) a"
    using net_loops by (simp add: hub_sel)
  show ?thesis unfolding servers_ok_def Let_def by (intro conjI basic parents loops lists)
qed

section \<open>Properties\<close>

text \<open>
  C4. When a server goes, all that is behind it goes with it, and nothing else. With fuel for the clients behind
  it, on a consistent tree of servers (in which clients that came over the link of \<open>p\<close> are behind \<open>p\<close>), if the
  caller's \<open>cptr\<close> is not null and the comment of the split, which names the two servers or is the
  configured message, fits the buffer it is written to (\<open>split_comment\<close>), \<open>exit_client\<close> of a server \<open>p\<close> other than this one returns, with
  \<open>CLIENT_EXITED\<close> exactly when \<open>cptr\<close> is \<open>p\<close>; the clients left are exactly those whose chain of servers does not
  lead to \<open>p\<close>, and no client that has left is a member of a channel.
\<close>

theorem server_exit:
  assumes "servers_ok s" "clean s" "p \<in> set (global_list s)" "p \<noteq> me_addr s" "IsServer (xc s p)" "cptr \<noteq> 0"
    "split_comment p s = Inr m"
    "\<And>x. x \<in> set (global_list s) \<Longrightarrow> c_from (xc s x) = p \<Longrightarrow> x = p \<or> x \<in> behind (servptr s) p"
    "servptr s p = me_addr s \<Longrightarrow> local_flag (xc s p)"
    "card (set (global_list s) \<inter> behind (servptr s) p) < k"
  shows "\<exists>s'. exit_client_full k cptr p fr comment s = Inr (s', cptr = p) \<and>
     set (global_list s') = set (global_list s) - insert p (behind (servptr s) p) \<and>
     (\<forall>ch. set (members_of (ex_irc s') ch) \<subseteq> set (global_list s'))"
proof -
  obtain s' where s': "exit_client_full k cptr p fr comment s = Inr (s', cptr = p)" "clean s'"
    "set (global_list s') = set (global_list s) - insert p (behind (servptr s) p)"
    using exit_server_all[OF assms, of fr comment] by blast
  have "\<forall>ch. set (members_of (ex_irc s') ch) \<subseteq> set (global_list s')" using clean_members[OF s'(2)] by blast
  with s' show ?thesis by blast
qed

theorem server_exit_witness:
  "\<exists>s'. exit_client_full 10 4 4 4 ''bye'' hub_net = Inr (s', True) \<and> set (global_list s') = {1} \<and> 2 \<notin> set (members_of (ex_irc s') 5)"
proof -
  have m: "split_comment 4 hub_net = Inr ''irc.pt hub''"
    by (simp add: split_comment_def hub_sel net_clients HOSTLEN_def)
  have b: "behind net_up 4 \<inter> {2, 3, 6, 4, 1} = {2, 3, 6}" using net_behind(1) by auto
  have g: "set (global_list hub_net) = {2, 3, 6, 4, 1}" by (simp add: hub_sel)
  have fr: "x = 4 \<or> x \<in> behind (servptr hub_net) 4" if "x \<in> set (global_list hub_net)" "c_from (xc hub_net x) = 4" for x
    using that b net_clients(4)[of x] unfolding g hub_sel(3,4) by (auto split: if_splits)
  have few: "card (set (global_list hub_net) \<inter> behind (servptr hub_net) 4) < 10"
    unfolding g hub_sel(3) using b by (simp add: Int_commute)
  have four: "4 \<in> set (global_list hub_net)" "4 \<noteq> me_addr hub_net" "IsServer (xc hub_net 4)" "(4::nat) \<noteq> 0"
    "servptr hub_net 4 = me_addr hub_net \<Longrightarrow> local_flag (xc hub_net 4)"
    by (simp_all add: hub_sel net_clients IsServer_def)
  obtain s' where s': "exit_client_full 10 4 4 4 ''bye'' hub_net = Inr (s', 4 = (4::nat))"
     "set (global_list s') = set (global_list hub_net) - insert 4 (behind (servptr hub_net) 4)"
     "\<forall>ch. set (members_of (ex_irc s') ch) \<subseteq> set (global_list s')"
    using server_exit[OF net_tree net_clean four(1-4) m fr four(5) few, of 4 "''bye''"] by blast
  have "{2, 3, 6} \<subseteq> behind net_up 4" by (subst b[symmetric]) (rule Int_lower1)
  then have "set (global_list s') = {1}" unfolding s'(2) g hub_sel(3) using net_behind(2) by auto
  moreover have "2 \<notin> set (members_of (ex_irc s') 5)" using s'(3) \<open>set (global_list s') = {1}\<close> by force
  ultimately show ?thesis using s'(1) by auto
qed

lemma exit_user_all:
  assumes "clean s" "distinct (global_list s)" "a \<noteq> 0" "c_status (xc s a) \<noteq> STAT_ME" "\<not> IsServer (xc s a)"
  shows "\<exists>s'. exit_client_full k cptr a fr comment s = Inr (s', cptr = a) \<and> clean s' \<and>
     global_list s' = remove1 a (global_list s) \<and>
     client_tab s' = del_from_client_hash_table (c_name (xc s a)) a (client_tab s) \<and>
     (\<forall>x. u_channel (xc s' x) = (if x = a then [] else u_channel (xc s x)))"
proof -
  define s1 where "s1 = (if local_flag (xc s a) then exit_local a comment s else s)"
  have q: "keeps_tree s s1" by (simp add: s1_def exit_local_quiet)
  have q': "global_list s1 = global_list s" "c_status (xc s1 a) = c_status (xc s a)" "c_name (xc s1 a) = c_name (xc s a)"
    "client_tab s1 = client_tab s" "u_channel (xc s1 x) = u_channel (xc s x)" for x
    using q by (simp_all add: keeps_tree_def)
  have run: "exit_client_full k cptr a fr comment s = Inr (exit_one_client cptr a fr comment s1, cptr = a)"
    using assms(5) q'(2) by (simp add: exit_client_full_def s1_def[symmetric] Let_def IsServer_def)
  have "c_status (xc s1 a) \<noteq> STAT_ME" "distinct (global_list s1)" using assms(2,4) q' by simp_all
  note e = exit_one_effect[OF quiet_clean[OF q assms(1)] assms(3) this refl]
  show ?thesis using run e(1,3,7,8) by (simp add: q')
qed

text \<open>
  C5. A client that is no server leaves without trace: \<open>exit_client\<close> always returns, with \<open>CLIENT_EXITED\<close>
  exactly when the client is the one whose line is being parsed; afterwards the client is not in the list of clients,
  the table of names is what \<open>del_from_client_hash_table\<close> makes of it for this client and its name, it is a member
  of no channel, and everyone else is in the channels they were in.
\<close>

theorem user_exit:
  assumes "clean s" "distinct (global_list s)" "a \<noteq> 0" "c_status (xc s a) \<noteq> STAT_ME" "\<not> IsServer (xc s a)"
  shows "\<exists>s'. exit_client_full k cptr a fr comment s = Inr (s', cptr = a) \<and> a \<notin> set (global_list s') \<and>
     client_tab s' = del_from_client_hash_table (c_name (xc s a)) a (client_tab s) \<and>
     (\<forall>ch. a \<notin> set (members_of (ex_irc s') ch)) \<and>
     (\<forall>x. x \<noteq> a \<longrightarrow> u_channel (xc s' x) = u_channel (xc s x))"
proof -
  obtain s' where s': "exit_client_full k cptr a fr comment s = Inr (s', cptr = a)" "clean s'"
     "global_list s' = remove1 a (global_list s)" "client_tab s' = del_from_client_hash_table (c_name (xc s a)) a (client_tab s)"
     "\<forall>x. u_channel (xc s' x) = (if x = a then [] else u_channel (xc s x))"
    using exit_user_all[OF assms, of k cptr fr comment] by blast
  have g: "a \<notin> set (global_list s')" using s'(3) assms(2) by simp
  then have "\<forall>ch. a \<notin> set (members_of (ex_irc s') ch)" using clean_members[OF s'(2)] by blast
  with s' g show ?thesis by (intro exI[of _ s']) simp
qed

theorem user_exit_witness:
  "\<exists>s'. exit_client_full 0 2 2 2 ''bye'' hub_net = Inr (s', True) \<and> 2 \<notin> set (members_of (ex_irc s') 5) \<and> u_channel (xc s' 3) = [5]"
proof -
  have h: "distinct (global_list hub_net)" "(2::nat) \<noteq> 0" "c_status (xc hub_net 2) \<noteq> STAT_ME" "\<not> IsServer (xc hub_net 2)"
    by (simp_all add: hub_sel net_clients IsServer_def)
  obtain s' where "exit_client_full 0 2 2 2 ''bye'' hub_net = Inr (s', 2 = (2::nat))" "\<forall>ch. 2 \<notin> set (members_of (ex_irc s') ch)"
    "\<forall>x. x \<noteq> 2 \<longrightarrow> u_channel (xc s' x) = u_channel (xc hub_net x)"
    using user_exit[OF net_clean h, of 0 2 2 "''bye''"] by blast
  then show ?thesis by (simp add: hub_sel net_clients)
qed

end
