(* ===== verification/Nick.thy ===== *)
theory Nick
  imports Exit
begin

text \<open>
  Nicks, \<open>src/s_user.c\<close>: \<open>m_nick\<close>, \<open>nickkilldone\<close>, \<open>clean_nick_name\<close>: how a nick is taken, and who stays
  when two users meet under one nick. A NICK line is a list of parameters, \<open>parv ! 0\<close> its source; \<open>parc\<close> is the
  length of the list and \<open>parv[parc]\<close> the null pointer.
\<close>

subsection \<open>Data\<close>

datatype nick_call =
    CommonChannels nat cstr
  | AddHistory nat
  | CheckWatch nat bool

record nick_state =
  nk :: exit_state
  tsinfo :: "nat \<Rightarrow> time_t"
  hopcount :: "nat \<Rightarrow> int"
  last_nick_change :: "nat \<Rightarrow> time_t"
  number_of_nick_changes :: "nat \<Rightarrow> int"
  info :: "nat \<Rightarrow> cstr"
  is_kill :: int
  LockNickChange :: bool
  CheckIdentd :: bool
  warn_last :: time_t
  warnings :: int
  nk_calls :: "nick_call list"

abbreviation nc :: "nick_state \<Rightarrow> nat \<Rightarrow> client" where
  "nc s c \<equiv> xc (nk s) c"

datatype nick_fault = NullString | ExitFault exit_fault

type_synonym nick_result = "nick_fault + nick_state \<times> bool"

text \<open>
  What a NICK needs from elsewhere: the Q-lines and the SQ-lines, the name \<open>fizzer_nick\<close> gives out, the block
  \<open>make_client\<close> returns, the flags of a link on the list \<open>user->channel\<close>, which \<open>make_link\<close> leaves
  uninitialised, whether a client came over the local web chat, its address as text, the time \<open>ts_warn\<close> reads from the clock, what an earlier line
  left in the static array of parameters one past the null pointer, fuel for \<open>exit_client\<close>, and the registration of a user (\<open>do_user\<close>, \<open>register_user\<close>).
\<close>

record nick_env =
  find_q_line :: "cstr \<Rightarrow> cstr \<Rightarrow> cstr \<Rightarrow> bool"
  sqline_of :: "cstr \<Rightarrow> (cstr \<times> cstr) option"
  fizzer_name :: cstr
  new_block :: nat
  link_flags :: "nat \<Rightarrow> nat \<Rightarrow> 32 word"
  exit_fuel :: nat
  do_user_of :: "cstr \<Rightarrow> nat \<Rightarrow> nat \<Rightarrow> cstr list \<Rightarrow> nick_state \<Rightarrow> nick_result"
  webchat_local :: "nat \<Rightarrow> bool"
  IPIdentifyMode :: bool
  ip_name :: "nat \<Rightarrow> cstr"
  wall_clock :: time_t
  stale_slot :: "cstr option"
  register_of :: "nat \<Rightarrow> nat \<Rightarrow> cstr \<Rightarrow> cstr \<Rightarrow> nick_state \<Rightarrow> nick_result"

definition nk_upd :: "(exit_state \<Rightarrow> exit_state) \<Rightarrow> nick_state \<Rightarrow> nick_state" where
  "nk_upd f s = s\<lparr>nk := f (nk s)\<rparr>"

definition nk_send :: "target \<Rightarrow> cstr \<Rightarrow> nick_state \<Rightarrow> nick_state" where
  "nk_send t m = nk_upd (ex_send t m)"

definition nk_client :: "nat \<Rightarrow> (client \<Rightarrow> client) \<Rightarrow> nick_state \<Rightarrow> nick_state" where
  "nk_client a f = nk_upd (ex_upd (upd_client a f))"

definition nk_call :: "nick_call \<Rightarrow> nick_state \<Rightarrow> nick_state" where
  "nk_call c s = s\<lparr>nk_calls := nk_calls s @ [c]\<rparr>"

definition my_name :: "nick_state \<Rightarrow> cstr" where
  "my_name s = c_name (nc s (me_addr (nk s)))"

definition nk_numeric :: "nat \<Rightarrow> cstr \<Rightarrow> cstr \<Rightarrow> cstr \<Rightarrow> nick_state \<Rightarrow> nick_state" where
  "nk_numeric a num name txt s = nk_send (ToOne a) ('':'' @ my_name s @ '' '' @ num @ '' '' @ name @ '' '' @ txt) s"

text \<open>\<open>get_client_name(cptr, FALSE)\<close>.\<close>

definition client_name_host :: "nat \<Rightarrow> nick_state \<Rightarrow> cstr" where
  "client_name_host a s =
     (let c = nc s a in
      if local_flag c \<and> irccmp (c_name c) (c_host c) \<noteq> 0
      then c_name c @ ''['' @ c_username c @ ''@'' @ c_host c @ '']'' else c_name c)"

definition src_name :: "nat \<Rightarrow> nick_state \<Rightarrow> cstr" where
  "src_name a s = c_name (nc s (c_from (nc s a)))"

fun bind_nick :: "nick_result \<Rightarrow> (nick_state \<Rightarrow> nick_result) \<Rightarrow> nick_result" where
  "bind_nick (Inl e) f = Inl e"
| "bind_nick (Inr (s, x)) f = f s"

text \<open>\<open>exit_client(cptr, a, &me, comment)\<close>.\<close>

definition nk_exit :: "nick_env \<Rightarrow> nat \<Rightarrow> nat \<Rightarrow> cstr \<Rightarrow> nick_state \<Rightarrow> nick_result" where
  "nk_exit e cptr a comment s =
     (case exit_client_full (exit_fuel e) cptr a (me_addr (nk s)) comment (nk s) of
        Inl f \<Rightarrow> Inl (ExitFault f)
      | Inr (x, gone) \<Rightarrow> Inr (s\<lparr>nk := x\<rparr>, gone))"

definition nk_find_client :: "cstr \<Rightarrow> nick_state \<Rightarrow> nat option" where
  "nk_find_client name s = hash_find_client (\<lambda>p. c_name (nc s p)) (client_tab (nk s)) name None"

definition nk_find_server :: "cstr \<Rightarrow> nick_state \<Rightarrow> nat option" where
  "nk_find_server name s =
     hash_find_server (\<lambda>p. c_name (nc s p)) (\<lambda>p. c_status (nc s p) = STAT_SERVER \<or> c_status (nc s p) = STAT_ME)
       (client_tab (nk s)) name"

subsection \<open>A legal nick\<close>

text \<open>The nick cut at the first bad character, and its length; 0 for a bad first character.\<close>

definition clean_nick_name :: "cstr \<Rightarrow> cstr \<times> nat" where
  "clean_nick_name nick =
     (if hd0 nick = CHR ''-'' \<or> IsDigit (hd0 nick) then (nick, 0)
      else let n = takeWhile IsNickChar (take NICKLEN nick) in (n, length n))"

subsection \<open>\<open>nickkilldone\<close>: the nick is free\<close>

definition UMODE_SPY :: "32 word" where "UMODE_SPY = 0x2000"
definition UMODE_HELPER :: "32 word" where "UMODE_HELPER = 0x00100000"
definition UMODE_PRIVATE :: "32 word" where "UMODE_PRIVATE = 0x00800000"
definition UMODE_HIDEOPER :: "32 word" where "UMODE_HIDEOPER = 0x04000000"
definition USER_NODCC :: "32 word" where "USER_NODCC = 0x00400000"
definition USER_WALLOP :: "32 word" where "USER_WALLOP = 1"
definition USER_ZOMBIE :: "32 word" where "USER_ZOMBIE = 4"

definition user_mode_bit :: "char \<Rightarrow> 32 word" where
  "user_mode_bit c =
     (case map_of
        [(CHR ''A'', UMODE_ADMIN), (CHR ''B'', UMODE_BOT), (CHR ''H'', UMODE_HIDEOPER), (CHR ''N'', UMODE_NETADMIN),
         (CHR ''O'', UMODE_LOCOP), (CHR ''R'', UMODE_REGMSG), (CHR ''S'', UMODE_STEALTH), (CHR ''T'', UMODE_TECHADMIN),
         (CHR ''a'', UMODE_SADMIN), (CHR ''f'', UMODE_FLOODEX), (CHR ''h'', UMODE_HELPER), (CHR ''i'', UMODE_INVISIBLE),
         (CHR ''o'', UMODE_OPER), (CHR ''p'', UMODE_PRIVATE), (CHR ''r'', UMODE_IDENTIFIED), (CHR ''s'', UMODE_SSL),
         (CHR ''v'', USER_NODCC), (CHR ''w'', USER_WALLOP), (CHR ''y'', UMODE_SPY), (CHR ''z'', USER_ZOMBIE)] c of
        Some b \<Rightarrow> b | None \<Rightarrow> 0)"

definition ALL_UMODES :: "32 word" where
  "ALL_UMODES = UMODE_INVISIBLE OR USER_WALLOP OR UMODE_HELPER OR UMODE_BOT OR UMODE_IDENTIFIED OR UMODE_PRIVATE OR
     UMODE_REGMSG OR UMODE_STEALTH OR UMODE_SSL OR UMODE_FLOODEX OR UMODE_LOCOP OR UMODE_SPY OR UMODE_OPER OR UMODE_SADMIN OR
     USER_ZOMBIE OR UMODE_HIDEOPER OR UMODE_ADMIN OR UMODE_TECHADMIN OR UMODE_NETADMIN"

text \<open>One letter of the modes of a user another server introduces.\<close>

definition intro_mode :: "nat \<Rightarrow> nick_state \<Rightarrow> char \<Rightarrow> nick_state" where
  "intro_mode a s c =
     (let b = user_mode_bit c;
          s1 = (if has b UMODE_INVISIBLE then nk_upd (\<lambda>x. x\<lparr>count_invisi := count_invisi x + 1\<rparr>) s else s);
          s2 = (if has b UMODE_OPER then nk_upd (\<lambda>x. x\<lparr>count_oper := count_oper x + 1\<rparr>) s1 else s1) in
      nk_client a (\<lambda>x. x\<lparr>c_umodes := c_umodes x OR (b AND ALL_UMODES)\<rparr>) s2)"

text \<open>\<open>make_client(cptr)\<close>, the list of clients, the name and the hash table.\<close>

definition intro_client :: "nat \<Rightarrow> nat \<Rightarrow> cstr list \<Rightarrow> time_t \<Rightarrow> cstr \<Rightarrow> nick_state \<Rightarrow> nick_state" where
  "intro_client a cptr parv newts nick s =
     (let s1 = nk_client a (\<lambda>_. \<lparr>c_name = nick, c_username = ''unknown'', c_host = [], c_realhost = [], c_umodes = 0, c_flags = 0,
            c_status = STAT_UNKNOWN, local_flag = False, c_since = 0, has_user = False, u_channel = [], u_invited = [],
            u_joined = 0, u_away = None, u_server = [], c_from = cptr, last_join_time = 0, last_leave_time = 0,
            join_leave_count = 0, oper_warn_count_down = 0, last_knock = 0, targets = [], nexttarget = 0, u_silence = []\<rparr>) s;
          s2 = nk_upd (\<lambda>x. x\<lparr>global_list := a # global_list x\<rparr>) s1;
          s3 = (if 2 < length parv then s2\<lparr>hopcount := (hopcount s2)(a := atoi (parv ! 2))\<rparr> else s2);
          s4 = (if newts \<noteq> 0 then s3\<lparr>tsinfo := (tsinfo s3)(a := newts)\<rparr>
                else nk_send ToOps (''Remote nick '' @ nick @ '' ('' @ parv ! 0 @ '') introduced without a TS'')
                  (s3\<lparr>tsinfo := (tsinfo s3)(a := CurrentTime (ex_irc (nk s3)))\<rparr>)) in
      nk_upd (\<lambda>x. x\<lparr>client_tab := add_to_client_hash_table nick a (client_tab x)\<rparr>) s4)"

definition MAX_NICK_TIME :: int where "MAX_NICK_TIME = 20"
definition MAX_NICK_CHANGES :: int where "MAX_NICK_CHANGES = 5"

text \<open>Why a channel of a local user forbids the change; the line that tells so.\<close>

definition nick_change_refused :: "nick_env \<Rightarrow> nat \<Rightarrow> cstr \<Rightarrow> cstr \<Rightarrow> nick_state \<Rightarrow> nat \<Rightarrow> (nick_state \<Rightarrow> nick_state) option" where
  "nick_change_refused e sptr src nick s ch =
     (let d = ex_irc (nk s); name = c_name (nc s sptr); chn = chname (chans d ch) in
      if is_banned sptr ch d = CHFL_BAN then
        Some (nk_numeric sptr ''435'' name (nick @ '' '' @ chn @ '' :Cannot change to a banned nickname''))
      else if nick_is_banned ch nick sptr d \<and> \<not> has (link_flags e sptr ch) (CHFL_CHANOP OR CHFL_VOICE) then
        Some (nk_numeric sptr ''437'' name (chn @ '' :Cannot change nickname while banned or moderated on channel''))
      else if has (md_mode (mode (chans d ch))) MODE_NONICKCH \<and> is_chan_op sptr ch d = 0 \<and> has_voice sptr ch d = 0 \<and>
          \<not> IsOper (nc s sptr) then
        Some (nk_send (ToOne sptr) ('':'' @ my_name s @ '' NOTICE '' @ src @ '' :*** Cannot change nickname. '' @ chn @
          '' is in No Nickname Change Mode [+N].''))
      else None)"

text \<open>The change is told to the channels and to the servers.\<close>

definition nick_told :: "nat \<Rightarrow> nat \<Rightarrow> cstr \<Rightarrow> cstr \<Rightarrow> nick_state \<Rightarrow> nick_state" where
  "nick_told cptr sptr src nick s =
     (if has_user (nc s sptr) then
        nk_send ToServers ('':'' @ src @ '' NICK '' @ nick @ '' :'' @ dec (tsinfo s sptr)) (nk_call (AddHistory sptr) s)
      else s)"

text \<open>The name of a client becomes \<open>nick\<close>.\<close>

definition set_nick :: "nat \<Rightarrow> bool \<Rightarrow> cstr \<Rightarrow> nick_state \<Rightarrow> nick_state" where
  "set_nick sptr real nick s =
     (let old = c_name (nc s sptr); watched = IsPerson (nc s sptr) \<and> real;
          s1 = (if old = [] then s
                else let t = nk_upd (\<lambda>x. x\<lparr>client_tab := del_from_client_hash_table old sptr (client_tab x)\<rparr>) s in
                  if watched then nk_call (CheckWatch sptr False) t else t);
          s2 = nk_upd (\<lambda>x. x\<lparr>client_tab := add_to_client_hash_table nick sptr (client_tab x)\<rparr>)
                 (nk_client sptr (\<lambda>c. c\<lparr>c_name := nick\<rparr>) s1) in
      if watched then nk_call (CheckWatch sptr True) s2 else s2)"

text \<open>A registered client of this server.\<close>

definition local_nick_change :: "nick_env \<Rightarrow> nat \<Rightarrow> nat \<Rightarrow> cstr \<Rightarrow> bool \<Rightarrow> cstr \<Rightarrow> nick_state \<Rightarrow> nick_state" where
  "local_nick_change e cptr sptr src real nick s =
     (let c = nc s sptr; now = CurrentTime (ex_irc (nk s)) in
      if LockNickChange s then
        nk_send (ToOne sptr) ('':'' @ my_name s @ '' NOTICE '' @ c_name c @ '' :*** Nick changes are not allowed on this server.'') s
      else case List.find (\<lambda>ch. nick_change_refused e sptr src nick s ch \<noteq> None) (u_channel c) of
        Some ch \<Rightarrow> the (nick_change_refused e sptr src nick s ch) s
      | None \<Rightarrow>
          let n = (if last_nick_change s sptr + MAX_NICK_TIME < now then 0 else number_of_nick_changes s sptr) + 1;
              s1 = s\<lparr>last_nick_change := (last_nick_change s)(sptr := now),
                     number_of_nick_changes := (number_of_nick_changes s)(sptr := n)\<rparr> in
          if n \<le> MAX_NICK_CHANGES then
            let s2 = (if IsIdentified c \<and> real then
                        nk_client sptr (\<lambda>x. x\<lparr>c_umodes := c_umodes x AND NOT UMODE_IDENTIFIED AND NOT UMODE_REGMSG\<rparr>)
                          (nk_send (ToOne sptr) ('':'' @ c_name c @ '' MODE '' @ c_name c @ (if IsRegMsg c then '' -rR'' else '' -r'')) s1)
                      else s1);
                s3 = (if \<not> IsStealth c then nk_call (CommonChannels sptr ('':'' @ src @ '' NICK :'' @ nick)) s2
                      else if MyClient c then nk_send (ToOne sptr) ('':'' @ src @ '' NICK :'' @ nick) s2 else s2) in
            set_nick sptr real nick (nick_told cptr sptr src nick s3)
          else
            nk_send (ToOne sptr) ('':'' @ my_name s @ '' NOTICE '' @ c_name c @ '' :*** Notice -- Too many nick changes wait '' @
              dec MAX_NICK_TIME @ '' seconds before trying to change it again.'') s1)"

text \<open>Any other client that has a name.\<close>

definition far_nick_change :: "nat \<Rightarrow> nat \<Rightarrow> cstr \<Rightarrow> bool \<Rightarrow> cstr \<Rightarrow> nick_state \<Rightarrow> nick_state" where
  "far_nick_change cptr sptr src real nick s =
     (let c = nc s sptr;
          s1 = (if IsIdentified c \<and> real then nk_client sptr (\<lambda>x. x\<lparr>c_umodes := c_umodes x AND NOT UMODE_IDENTIFIED\<rparr>) s else s);
          s2 = (if \<not> IsStealth c then nk_call (CommonChannels sptr ('':'' @ src @ '' NICK :'' @ nick)) s1 else s1) in
      set_nick sptr real nick (nick_told cptr sptr src nick s2))"

text \<open>The first NICK of a connection; the registration when USER came before.\<close>

definition first_nick :: "nick_env \<Rightarrow> nat \<Rightarrow> nat \<Rightarrow> bool \<Rightarrow> cstr \<Rightarrow> nick_state \<Rightarrow> nick_result" where
  "first_nick e cptr sptr real nick s =
     (let s1 = (nk_client sptr (\<lambda>c. c\<lparr>c_name := nick\<rparr>) s)\<lparr>tsinfo := (tsinfo s)(sptr := CurrentTime (ex_irc (nk s)))\<rparr>; c = nc s1 sptr in
      if has_user c then
        let host = (if MyClient c \<and> IPIdentifyMode e then ip_name e sptr else c_host c);
            s2 = (if MyClient c \<and> webchat_local e sptr then s1
                  else nk_client sptr (\<lambda>x. x\<lparr>c_realhost := take HOSTLEN host\<rparr>) s1) in
        (case register_of e cptr sptr nick (take USERLEN (c_username c)) s2 of
           Inl f \<Rightarrow> Inl f
         | Inr (s3, gone) \<Rightarrow> if gone then Inr (s3, True) else Inr (set_nick sptr real nick s3, False))
      else Inr (set_nick sptr real nick s1, False))"

definition nickkilldone :: "nick_env \<Rightarrow> nat \<Rightarrow> nat \<Rightarrow> cstr list \<Rightarrow> time_t \<Rightarrow> cstr \<Rightarrow> nick_state \<Rightarrow> nick_result" where
  "nickkilldone e cptr sptr parv newts nick s =
     (let src = parv ! 0; real = irccmp src nick \<noteq> 0; c = nc s sptr in
      if IsServer c then
        let a = new_block e; s1 = intro_client a cptr parv newts nick s in
        if 8 < length parv then do_user_of e nick cptr a (drop 5 parv) (foldl (intro_mode a) s1 (drop 1 (parv ! 4)))
        else Inr (set_nick a real nick s1, False)
      else if c_name c \<noteq> [] then
        let s1 = (if real then s\<lparr>tsinfo := (tsinfo s)(sptr := if newts \<noteq> 0 then newts else CurrentTime (ex_irc (nk s)))\<rparr> else s) in
        Inr (if local_flag c \<and> IsClient c then local_nick_change e cptr sptr src real nick s1
             else far_nick_change cptr sptr src real nick s1, False)
      else first_nick e cptr sptr real nick s)"

subsection \<open>Collisions\<close>

definition mark_dead :: "nat \<Rightarrow> nick_state \<Rightarrow> nick_state" where
  "mark_dead a = nk_client a (\<lambda>c. c\<lparr>c_flags := c_flags c OR FLAG_KILL\<rparr>)"

definition count_kill :: "nick_state \<Rightarrow> nick_state" where
  "count_kill s = s\<lparr>is_kill := is_kill s + 1\<rparr>"

text \<open>A KILL of the nick \<open>name\<close> for the other servers.\<close>

definition kill_line :: "target \<Rightarrow> cstr \<Rightarrow> cstr \<Rightarrow> nick_state \<Rightarrow> nick_state" where
  "kill_line t name why s =
     nk_send t ('':'' @ my_name s @ '' KILL '' @ name @ '' :'' @ my_name s @ '' ('' @ why @ '')'') s"

text \<open>The owner of the nick is killed: it is told, and the other servers are.\<close>

definition kill_owner :: "nat \<Rightarrow> nat \<Rightarrow> cstr \<Rightarrow> cstr \<Rightarrow> nick_state \<Rightarrow> nick_state" where
  "kill_owner cptr a note ending s =
     (let why = src_name a s @ '' <- '' @ client_name_host cptr s;
          s1 = count_kill (nk_send ToOps (''Nick collision on '' @ c_name (nc s a) @ ''('' @ why @ '')'' @ note) s);
          s2 = nk_numeric a ''436'' (c_name (nc s a)) (c_name (nc s a) @ '' :Nickname collision KILL'') s1 in
      mark_dead a (nk_send ToServers ('':'' @ my_name s @ '' KILL '' @ c_name (nc s a) @ '' :'' @ my_name s @ '' ('' @ why @ '')'' @ ending) s2))"

text \<open>Who stays when two clients claim a nick: \<open>newts\<close> is the time of the claim, \<open>oldts\<close> that of the owner.\<close>

datatype collision = BothGo | OwnerStays | ClaimWins

definition collide :: "time_t \<Rightarrow> time_t \<Rightarrow> bool \<Rightarrow> collision" where
  "collide newts oldts sameuser =
     (if newts = 0 \<or> oldts = 0 \<or> newts = oldts then BothGo
      else if sameuser \<and> newts < oldts \<or> \<not> sameuser \<and> newts > oldts then OwnerStays
      else ClaimWins)"

text \<open>A server introduces a user under the nick of \<open>a\<close>.\<close>

definition intro_clash :: "nick_env \<Rightarrow> nat \<Rightarrow> nat \<Rightarrow> cstr list \<Rightarrow> time_t \<Rightarrow> cstr \<Rightarrow> nat \<Rightarrow> nick_state \<Rightarrow> nick_result" where
  "intro_clash e cptr sptr parv newts nick a s =
     (let c = nc s a;
          services = (case nk_find_server (parv ! 8) s of None \<Rightarrow> False | Some p \<Rightarrow> IsService (nc s p));
          sameuser = 6 < length parv \<and> has_user c \<and> irccmp (c_username c) (parv ! 5) = 0 \<and> irccmp (c_realhost c) (parv ! 6) = 0 in
      if services then
        bind_nick (nk_exit e 0 a ''Services nick collision'' (kill_owner cptr a ''(Services nick killed)'' '' Services nick killed'' s))
          (nickkilldone e cptr sptr parv newts nick)
      else case collide newts (tsinfo s a) sameuser of
        BothGo \<Rightarrow> nk_exit e cptr a ''Nick collision'' (kill_owner cptr a ''(both killed)'' [] s)
      | OwnerStays \<Rightarrow> Inr (s, False)
      | ClaimWins \<Rightarrow>
          bind_nick (nk_exit e cptr a ''Nick collision''
              (kill_owner cptr a (if sameuser then ''(older killed)'' else ''(newer killed)'') [] s))
            (nickkilldone e cptr sptr parv newts nick))"

text \<open>A user of another server changes to the nick of \<open>a\<close>.\<close>

definition change_clash :: "nick_env \<Rightarrow> nat \<Rightarrow> nat \<Rightarrow> cstr list \<Rightarrow> time_t \<Rightarrow> cstr \<Rightarrow> nat \<Rightarrow> nick_state \<Rightarrow> nick_result" where
  "change_clash e cptr sptr parv newts nick a s =
     (let c = nc s a; d = nc s sptr; up = src_name a s; via = client_name_host cptr s;
          told = (\<lambda>note t. nk_send ToOps (''Nick change collision from '' @ c_name d @ '' to '' @ c_name c @ ''('' @ up @ '' <- '' @ via @ '')'' @ note) t);
          sameuser = irccmp (c_username c) (c_username d) = 0 \<and> irccmp (c_host c) (c_host d) = 0 in
      case (if has_user d then collide newts (tsinfo s a) sameuser else BothGo) of
        BothGo \<Rightarrow>
          (let s1 = nk_numeric a ''436'' (c_name c) (c_name c @ '' :Nickname collision KILL'') (count_kill (told ''(both killed)'' s));
               s2 = count_kill (kill_line ToServers (c_name d) (up @ ''('' @ c_name c @ '') <- '' @ via) s1);
               s3 = mark_dead a (kill_line ToServers (c_name c) (up @ '' <- '' @ via @ ''('' @ c_name d @ '')'') s2) in
           bind_nick (nk_exit e 0 a ''Nick collision(new)'' s3)
             (\<lambda>t. nk_exit e cptr sptr ''Nick collision(old)'' (mark_dead sptr t)))
      | OwnerStays \<Rightarrow>
          nk_exit e cptr sptr (if sameuser then ''Nick collision(old)'' else ''Nick collision(new)'')
            (mark_dead sptr (kill_line ToServers (c_name d) (up @ ''('' @ c_name c @ '') <- '' @ via)
              (count_kill (told (if sameuser then ''(older killed)'' else ''(newer killed)'') s))))
      | ClaimWins \<Rightarrow>
          bind_nick (nk_exit e cptr a ''Nick collision''
              (kill_owner cptr a (if sameuser then ''(older killed)'' else ''(newer killed)'') [] s))
            (nickkilldone e cptr sptr parv newts nick))"

definition shown_source :: "cstr list \<Rightarrow> cstr" where
  "shown_source parv = (if parv ! 0 = [] then ''*'' else parv ! 0)"

definition nick_in_use :: "nat \<Rightarrow> cstr list \<Rightarrow> cstr \<Rightarrow> nick_state \<Rightarrow> nick_state" where
  "nick_in_use sptr parv nick = nk_numeric sptr ''433'' (shown_source parv) (nick @ '' :Nickname is already in use.'')"

text \<open>Is the nick the name of somebody?\<close>

definition claim_nick :: "nick_env \<Rightarrow> nat \<Rightarrow> nat \<Rightarrow> cstr list \<Rightarrow> time_t \<Rightarrow> cstr \<Rightarrow> nick_state \<Rightarrow> nick_result" where
  "claim_nick e cptr sptr parv newts nick s =
     (case nk_find_server nick s of
        Some a \<Rightarrow>
          if local_flag (nc s sptr) then Inr (nick_in_use sptr parv nick s, False)
          else
            let why = src_name a s @ '' <- '' @ client_name_host cptr s; name = c_name (nc s sptr) in
            nk_exit e cptr sptr ''Nick/Server collision''
              (mark_dead sptr (kill_line (ToOne cptr) name why
                (count_kill (nk_send ToOps (''Nick collision on '' @ name @ ''('' @ why @ '')'') s))))
      | None \<Rightarrow>
          (case nk_find_client nick s of
             None \<Rightarrow> nickkilldone e cptr sptr parv newts nick s
           | Some a \<Rightarrow>
               let unknown = c_status (nc s a) = STAT_UNKNOWN in
               if a = sptr then
                 if c_name (nc s a) \<noteq> nick then nickkilldone e cptr sptr parv newts nick s else Inr (s, False)
               else if unknown \<and> local_flag (nc s a) then
                 bind_nick (nk_exit e 0 a ''Overridden'' s) (nickkilldone e cptr sptr parv newts nick)
               else if unknown \<and> 6 < length parv \<and> \<not> has_user (nc s a) then
                 let why = src_name a s @ ''(NOUSER) <- '' @ parv ! 1 @ ''!'' @ parv ! 5 @ ''@'' @ parv ! 6 @ '')(TS:'' @ c_name (nc s cptr) in
                 nk_exit e cptr a ''Got TS NICK before Non-TS USER''
                   (mark_dead a (kill_line ToServers (c_name (nc s a)) why
                     (nk_send ToOps (''Nick Collision on '' @ c_name (nc s a) @ ''('' @ why @ '')'') s)))
               else if \<not> IsServer (nc s cptr) then Inr (nick_in_use sptr parv nick s, False)
               else if IsServer (nc s sptr) then intro_clash e cptr sptr parv newts nick a s
               else change_clash e cptr sptr parv newts nick a s))"

subsection \<open>\<open>m_nick\<close>\<close>

text \<open>The first two words of a text, as two calls of \<open>strtok\<close> find them.\<close>

definition two_words :: "cstr \<Rightarrow> (cstr \<times> cstr) option" where
  "two_words t =
     (let sp = (\<lambda>c. c = CHR '' ''); t1 = dropWhile sp t; w1 = takeWhile (\<lambda>c. \<not> sp c) t1;
          t2 = dropWhile sp (dropWhile (\<lambda>c. \<not> sp c) t1); w2 = takeWhile (\<lambda>c. \<not> sp c) t2 in
      if w2 = [] then None else Some (w1, w2))"

definition is_fizzer :: "nat \<Rightarrow> nick_state \<Rightarrow> bool" where
  "is_fizzer sptr s =
     (case two_words (info s sptr) of
        None \<Rightarrow> False
      | Some (w1, w2) \<Rightarrow> take USERLEN ((if CheckIdentd s then ''~'' else []) @ w2 @ w1) = c_username (nc s sptr))"

definition bad_nick :: "nick_env \<Rightarrow> nat \<Rightarrow> nat \<Rightarrow> cstr list \<Rightarrow> cstr \<Rightarrow> nick_state \<Rightarrow> nick_result" where
  "bad_nick e cptr sptr parv nick s =
     (let asked = parv ! 1; link = c_name (nc s cptr);
          s1 = nk_numeric sptr ''432'' (shown_source parv) (asked @ '' :Erroneus Nickname'') s in
      if \<not> IsServer (nc s cptr) then Inr (s1, False)
      else
        let s2 = kill_line (ToOne cptr) asked (asked @ '' <- '' @ nick @ ''['' @ link @ '']'')
                   (nk_send ToOps (''Bad Nick: '' @ asked @ '' From: '' @ parv ! 0 @ '' '' @ link) (count_kill s1)) in
        if sptr = cptr then Inr (s2, False)
        else nk_exit e cptr sptr ''BadNick''
          (mark_dead sptr (kill_line ToServers (parv ! 0) (link @ '' <- '' @ parv ! 0 @ ''!'' @ c_username (nc s sptr) @ ''@'' @
             (if has_user (nc s sptr) then u_server (nc s sptr) else link)) s2)))"

definition nick_checked :: "nick_env \<Rightarrow> nat \<Rightarrow> nat \<Rightarrow> cstr list \<Rightarrow> time_t \<Rightarrow> nick_state \<Rightarrow> nick_result" where
  "nick_checked e cptr sptr parv0 newts s =
     (let c = nc s sptr; mine = local_flag c;
          parv = (if mine then parv0[1 := takeWhile (\<lambda>x. x \<noteq> CHR ''~'') (parv0 ! 1)] else parv0);
          (nick, n) = clean_nick_name (take NICKLEN (parv ! 1));
          quarantined = (\<lambda>txt. nk_numeric sptr ''432'' (parv ! 0) (parv ! 1 @ '' :Erroneus Nickname'') (nk_send ToOps txt s)) in
      if n = 0 \<or> IsServer (nc s cptr) \<and> nick \<noteq> parv ! 1 then bad_nick e cptr sptr parv nick s
      else if mine \<and> is_fizzer sptr s then
        nk_exit e cptr sptr ''Fizzer client''
          (nk_send ToOps (''Rejecting Fizzer client '' @ nick @ '' from user '' @ client_name_host cptr s)
            (nk_send (ToOne cptr) ('':'' @ fizzer_name e @ '' PRIVMSG '' @ nick @ '' :'' @ CHR 0x5C # ''uninstall'') s))
      else if mine \<and> \<not> IsServer c \<and> \<not> IsAnOper c \<and> find_q_line e nick (c_username c) (c_realhost c) then
        Inr (quarantined (''Quarantined nick ['' @ nick @ ''] from user '' @ client_name_host cptr s), False)
      else case (if mine \<and> \<not> IsServer c then sqline_of e nick else None) of
        Some (line, why) \<Rightarrow>
          Inr (quarantined (''Services quarantined nick ['' @ nick @ ''] ('' @ line @ '') from user '' @ client_name_host cptr s @
            '', reason: '' @ why), False)
      | None \<Rightarrow> claim_nick e cptr sptr parv newts nick s)"

text \<open>\<open>strchr(host, '.') || strchr(host, ':')\<close>\<close>

definition host_like :: "cstr \<Rightarrow> bool" where
  "host_like h \<longleftrightarrow> CHR ''.'' \<in> set h \<or> CHR '':'' \<in> set h"

definition arg_or_dash :: "cstr list \<Rightarrow> nat \<Rightarrow> cstr" where
  "arg_or_dash parv i = (if i < length parv then parv ! i else ''-'')"

text \<open>
  \<open>ts_warn\<close> of \<open>src/send.c\<close>: from the sixth warning within five seconds on it returns before it looks at its arguments.
  The text is \<open>None\<close> when one of them is a null pointer.
\<close>

definition ts_warn :: "nick_env \<Rightarrow> cstr option \<Rightarrow> nick_state \<Rightarrow> nick_fault + nick_state" where
  "ts_warn e line s =
     (let soon = wall_clock e - warn_last s < 5;
          s1 = (if soon then s\<lparr>warnings := warnings s + 1\<rparr> else s\<lparr>warn_last := wall_clock e, warnings := 0\<rparr>) in
      if soon \<and> 5 < warnings s1 then Inr s1
      else case line of None \<Rightarrow> Inl NullString | Some m \<Rightarrow> Inr (nk_send ToOps m s1))"

text \<open>
  The tests of the number of parameters and of the two host names. The test of the masked host reads \<open>parv[7]\<close> as soon as there
  are seven parameters, \<open>parv[6]\<close> being the last: then it is the null pointer. The warnings print \<open>parv[8]\<close>: the null pointer
  when there are eight parameters, the slot after it when there are seven. The result is the
  parameters to go on with, or none.
\<close>

definition para8 :: "nick_env \<Rightarrow> cstr list \<Rightarrow> cstr option" where
  "para8 e parv = (if 8 < length parv then Some (parv ! 8) else if length parv = 8 then None else stale_slot e)"

definition host_warning :: "nick_env \<Rightarrow> cstr \<Rightarrow> cstr \<Rightarrow> cstr list \<Rightarrow> cstr option" where
  "host_warning e what host parv =
     map_option (\<lambda>p8. what @ parv ! 0 @ ''['' @ parv ! 5 @ ''@'' @ host @ ''] on '' @ p8 @ '' (from '' @ parv ! 0 @ '')'') (para8 e parv)"

definition nick_header :: "nick_env \<Rightarrow> bool \<Rightarrow> cstr list \<Rightarrow> nick_state \<Rightarrow> nick_fault + nick_state \<times> cstr list option" where
  "nick_header e srv parv s =
     (let n = length parv; step = (\<lambda>w x. case w of Inl f \<Rightarrow> Inl f | Inr t \<Rightarrow> Inr (t, x)) in
      if srv \<and> n < 10 then
        step (ts_warn e (Some (''BAD NICK: '' @ parv ! 1 @ ''['' @ arg_or_dash parv 5 @ ''@'' @ arg_or_dash parv 6 @ ''] on '' @
          arg_or_dash parv 7 @ '' (from '' @ parv ! 0 @ '')'')) s) None
      else if n < 7 then Inr (s, Some parv)
      else if \<not> host_like (parv ! 6) then
        step (ts_warn e (host_warning e ''BAD HOSTNAME: '' (parv ! 6) parv) s) None
      else if n = 7 then Inl NullString
      else if \<not> host_like (parv ! 7) then
        step (ts_warn e (host_warning e ''BAD MASKED HOSTNAME: '' (parv ! 7) parv) s) (Some (parv[7 := parv ! 6]))
      else Inr (s, Some parv))"

text \<open>The parameters past the second count only from servers.\<close>

definition m_nick :: "nick_env \<Rightarrow> nat \<Rightarrow> nat \<Rightarrow> cstr list \<Rightarrow> nick_state \<Rightarrow> nick_result" where
  "m_nick e cptr sptr parv0 s =
     (if length parv0 < 2 then Inr (nk_numeric sptr ''431'' (parv0 ! 0) '':No nickname given'' s, False)
      else
        let srv = IsServer (nc s sptr);
            (parv, newts) = (if \<not> srv \<and> IsServer (nc s cptr) \<and> 2 < length parv0 then (parv0, strtol (parv0 ! 2))
                             else if srv \<and> 3 < length parv0 then (parv0, strtol (parv0 ! 3))
                             else (take 2 parv0, 0)) in
        case nick_header e srv parv s of
          Inl f \<Rightarrow> Inl f
        | Inr (t, None) \<Rightarrow> Inr (t, False)
        | Inr (t, Some p) \<Rightarrow> nick_checked e cptr sptr p newts t)"

subsection \<open>An introduction that meets a user\<close>

text \<open>The line of another server introduces a user under the nick of \<open>a\<close>, and is well formed.\<close>

definition clash_intro :: "nat \<Rightarrow> nat \<Rightarrow> cstr list \<Rightarrow> nat \<Rightarrow> nick_state \<Rightarrow> bool" where
  "clash_intro cptr sptr parv a s \<longleftrightarrow>
     IsServer (nc s cptr) \<and> IsServer (nc s sptr) \<and> 10 \<le> length parv \<and> host_like (parv ! 6) \<and> host_like (parv ! 7) \<and>
     clean_nick_name (take NICKLEN (parv ! 1)) = (parv ! 1, length (parv ! 1)) \<and> parv ! 1 \<noteq> [] \<and>
     (local_flag (nc s sptr) \<longrightarrow> CHR ''~'' \<notin> set (parv ! 1) \<and> \<not> is_fizzer sptr s) \<and>
     nk_find_server (parv ! 1) s = None \<and> nk_find_client (parv ! 1) s = Some a \<and> a \<noteq> sptr \<and>
     c_status (nc s a) \<noteq> STAT_UNKNOWN \<and> has_user (nc s a) \<and>
     (case nk_find_server (parv ! 8) s of None \<Rightarrow> True | Some p \<Rightarrow> \<not> IsService (nc s p))"

definition same_user :: "cstr list \<Rightarrow> nat \<Rightarrow> nick_state \<Rightarrow> bool" where
  "same_user parv a s \<longleftrightarrow> irccmp (c_username (nc s a)) (parv ! 5) = 0 \<and> irccmp (c_realhost (nc s a)) (parv ! 6) = 0"

text \<open>The owner goes; the line is carried out.\<close>

definition owner_goes :: "nick_env \<Rightarrow> nat \<Rightarrow> cstr list \<Rightarrow> nat \<Rightarrow> cstr \<Rightarrow> nick_state \<Rightarrow> nick_result" where
  "owner_goes e cptr parv a note s = nk_exit e cptr a ''Nick collision'' (kill_owner cptr a note [] s)"

definition claim_carried_out :: "nick_env \<Rightarrow> nat \<Rightarrow> nat \<Rightarrow> cstr list \<Rightarrow> nat \<Rightarrow> nick_state \<Rightarrow> nick_result" where
  "claim_carried_out e cptr sptr parv a s =
     bind_nick (owner_goes e cptr parv a (if same_user parv a s then ''(older killed)'' else ''(newer killed)'') s)
       (nickkilldone e cptr sptr parv (strtol (parv ! 3)) (parv ! 1))"

lemma intro_decided:
  assumes "clash_intro cptr sptr parv a s"
  shows "m_nick e cptr sptr parv s =
    (case collide (strtol (parv ! 3)) (tsinfo s a) (same_user parv a s) of
       BothGo \<Rightarrow> owner_goes e cptr parv a ''(both killed)'' s
     | OwnerStays \<Rightarrow> Inr (s, False)
     | ClaimWins \<Rightarrow> claim_carried_out e cptr sptr parv a s)"
proof -
  note c = assms[unfolded clash_intro_def]
  have same: "parv[Suc 0 := takeWhile (\<lambda>x. x \<noteq> CHR ''~'') (parv ! Suc 0)] = parv" if "local_flag (nc s sptr)"
  proof -
    have "takeWhile (\<lambda>x. x \<noteq> CHR ''~'') (parv ! Suc 0) = parv ! Suc 0"
      using that c by (auto simp: takeWhile_eq_all_conv)
    then show ?thesis by (simp only: list_update_id)
  qed
  have "m_nick e cptr sptr parv s = nick_checked e cptr sptr parv (strtol (parv ! 3)) s"
    using c by (simp add: m_nick_def nick_header_def Let_def)
  also have "\<dots> = claim_nick e cptr sptr parv (strtol (parv ! 3)) (parv ! 1) s"
    using c same by (simp add: nick_checked_def Let_def)
  also have "\<dots> = intro_clash e cptr sptr parv (strtol (parv ! 3)) (parv ! 1) a s"
    using c by (simp add: claim_nick_def Let_def)
  also have "\<dots> = (case collide (strtol (parv ! 3)) (tsinfo s a) (same_user parv a s) of
       BothGo \<Rightarrow> owner_goes e cptr parv a ''(both killed)'' s
     | OwnerStays \<Rightarrow> Inr (s, False)
     | ClaimWins \<Rightarrow> claim_carried_out e cptr sptr parv a s)"
  proof -
    have svc: "(case nk_find_server (parv ! 8) s of None \<Rightarrow> False | Some p \<Rightarrow> IsService (nc s p)) = False"
      using c by (simp split: option.splits)
    have same_eq: "(6 < length parv \<and> has_user (nc s a) \<and> irccmp (c_username (nc s a)) (parv ! 5) = 0 \<and>
       irccmp (c_realhost (nc s a)) (parv ! 6) = 0) = same_user parv a s"
      using c by (simp add: same_user_def)
    show ?thesis
      unfolding intro_clash_def Let_def svc same_eq if_False claim_carried_out_def owner_goes_def ..
  qed
  finally show ?thesis .
qed

lemma irccmp_sym: "irccmp x y = 0 \<longleftrightarrow> irccmp y x = 0"
  by (auto simp: irc_eq_iff)

lemma collide_dual:
  "collide x y b = BothGo \<longleftrightarrow> collide y x b = BothGo" "collide x y b = OwnerStays \<longleftrightarrow> collide y x b = ClaimWins"
  "collide x y b = ClaimWins \<longleftrightarrow> collide y x b = OwnerStays"
  by (auto simp: collide_def)

text \<open>The network of \<open>Exit\<close>, with \<open>bob\<close> in the table of names and \<open>op\<close> a local user.\<close>

definition nick_env0 :: nick_env where
  "nick_env0 = \<lparr>find_q_line = (\<lambda>_ _ _. False), sqline_of = (\<lambda>_. None), fizzer_name = ''mary'', new_block = 7, link_flags = (\<lambda>_ _. 0),
     exit_fuel = 10, do_user_of = (\<lambda>_ _ _ _ s. Inr (s, False)), webchat_local = (\<lambda>_. False), IPIdentifyMode = False,
     ip_name = (\<lambda>_. ''127.0.0.1''), wall_clock = 100, stale_slot = None, register_of = (\<lambda>_ _ _ _ s. Inr (s, False))\<rparr>"

definition nick_net :: "time_t \<Rightarrow> nick_state" where
  "nick_net ts = nk_client 3 (\<lambda>c. c\<lparr>local_flag := True\<rparr>) (nk_client 2 (\<lambda>c. c\<lparr>c_username := ''u'', c_realhost := ''h.x''\<rparr>)
     \<lparr>nk = hub_net\<lparr>client_tab := add_to_client_hash_table ''bob'' 2 clear_hash_table\<rparr>, tsinfo = (\<lambda>_. ts), hopcount = (\<lambda>_. 0),
      last_nick_change = (\<lambda>_. 0), number_of_nick_changes = (\<lambda>_. 0), info = (\<lambda>_. []), is_kill = 0, LockNickChange = False,
      CheckIdentd = False, warn_last = 0, warnings = 0, nk_calls = []\<rparr>)"

lemma nick_net_sel:
  "c_status (nc (nick_net ts) x) = (if x = 1 then STAT_ME else if x = 4 \<or> x = 6 then STAT_SERVER else STAT_CLIENT)"
  "has_user (nc (nick_net ts) x)" "c_name (nc (nick_net ts) 2) = ''bob''" "c_name (nc (nick_net ts) 3) = ''op''"
  "local_flag (nc (nick_net ts) 3)" "c_username (nc (nick_net ts) 2) = ''u''" "c_realhost (nc (nick_net ts) 2) = ''h.x''"
  "client_tab (nk (nick_net ts)) = add_to_client_hash_table ''bob'' 2 clear_hash_table" "tsinfo (nick_net ts) x = ts"
  "info (nick_net ts) x = []" "\<not> local_flag (nc (nick_net ts) 6)" "LockNickChange (nick_net ts) = False"
  "u_channel (nc (nick_net ts) 3) = [5]" "number_of_nick_changes (nick_net ts) x = 0"
  by (simp_all add: nick_net_def nk_client_def nk_upd_def hub_sel net_clients)
    (simp_all add: net_irc_def far_client_def)

lemma no_dot_no_server:
  assumes "list_all (\<lambda>c. c \<noteq> CHR ''.'') name"
  shows "nk_find_server name (nick_net ts) = None"
proof -
  have "masked_from look p = None" if "set p \<subseteq> set name" for look p
  proof -
    have "dropWhile (\<lambda>c. c \<noteq> CHR ''.'') p = []" using that assms by (auto simp: dropWhile_eq_Nil_conv list_all_iff)
    then show ?thesis by (subst masked_from.simps) (simp only: list.case)
  qed
  moreover have "set (take HOSTLEN (cut name)) \<subseteq> set name" by (auto simp: cut_def dest: in_set_takeD set_takeWhileD)
  ultimately have m: "hash_find_masked_server f tab name = None" for f tab by (simp add: hash_find_masked_server_def)
  have two: "x = 2" if "x \<in> set (chain (client_tab (nk (nick_net ts)) h))" for x h
    using that by (simp add: nick_net_sel add_to_client_hash_table_def bucket_add_def clear_hash_table_def split: if_splits)
  have st2: "c_status (nc (nick_net ts) 2) = STAT_CLIENT" by (simp add: nick_net_sel)
  have "List.find (\<lambda>p. (c_status (nc (nick_net ts) p) = STAT_SERVER \<or> c_status (nc (nick_net ts) p) = STAT_ME) \<and> Q p)
      (chain (client_tab (nk (nick_net ts)) h)) = None" for h Q
    using st2 by (auto simp: find_None_iff dest!: two)
  then show ?thesis by (simp add: nk_find_server_def hash_find_server_def m)
qed

lemma bob_found: "nk_find_client ''bob'' (nick_net ts) = Some 2"
  by (simp add: nk_find_client_def hash_find_client_def nick_net_sel add_to_client_hash_table_def bucket_add_def)

lemma bob_line:
  assumes "parv = [''leaf'', ''bob'', ''1'', t, ''+'', ''u'', ''h.x'', ''h.x'', ''leaf'', ''Bob'']"
  shows "clash_intro 4 6 parv 2 (nick_net ts)"
proof -
  have "clean_nick_name (take NICKLEN ''bob'') = (''bob'', length ''bob'')" by code_simp
  then show ?thesis
    using no_dot_no_server[of "''bob''" ts] no_dot_no_server[of "''leaf''" ts]
    by (simp add: clash_intro_def assms nick_net_sel IsServer_def host_like_def bob_found)
qed

section \<open>Properties\<close>

text \<open>
  C6. After a net split two servers \<open>s\<close> and \<open>t\<close> come together, each with a user under the same nick: \<open>a\<close>
  on \<open>s\<close>, \<open>b\<close> on \<open>t\<close>. Each gets the other's NICK line, which tells the time, the user name and the host of the
  other user truly. Then the two servers agree on who keeps the nick: either both kill the user they had and introduce nobody
  (the times are equal or missing), or one ignores the line and the other kills its user and carries the line out.
\<close>

theorem nick_collision_converges:
  assumes "clash_intro cptr sptr parv a s" "clash_intro cptr' sptr' parv' b t"
    "strtol (parv ! 3) = tsinfo t b" "strtol (parv' ! 3) = tsinfo s a"
    "parv ! 5 = c_username (nc t b)" "parv ! 6 = c_realhost (nc t b)"
    "parv' ! 5 = c_username (nc s a)" "parv' ! 6 = c_realhost (nc s a)"
  shows "case collide (tsinfo t b) (tsinfo s a) (same_user parv a s) of
      BothGo \<Rightarrow> m_nick e cptr sptr parv s = owner_goes e cptr parv a ''(both killed)'' s \<and>
        m_nick e' cptr' sptr' parv' t = owner_goes e' cptr' parv' b ''(both killed)'' t
    | OwnerStays \<Rightarrow> m_nick e cptr sptr parv s = Inr (s, False) \<and>
        m_nick e' cptr' sptr' parv' t = claim_carried_out e' cptr' sptr' parv' b t
    | ClaimWins \<Rightarrow> m_nick e cptr sptr parv s = claim_carried_out e cptr sptr parv a s \<and>
        m_nick e' cptr' sptr' parv' t = Inr (t, False)"
proof -
  have same: "same_user parv' b t = same_user parv a s"
    using irccmp_sym by (auto simp: same_user_def assms)
  show ?thesis
    using intro_decided[OF assms(1), of e] intro_decided[OF assms(2), of e'] collide_dual[of "tsinfo t b" "tsinfo s a"]
    by (simp add: assms(3,4) same split: collision.split)
qed

theorem nick_collision_converges_witness:
  "m_nick nick_env0 4 6 [''leaf'', ''bob'', ''1'', ''200'', ''+'', ''u'', ''h.x'', ''h.x'', ''leaf'', ''Bob''] (nick_net 100) =
     claim_carried_out nick_env0 4 6 [''leaf'', ''bob'', ''1'', ''200'', ''+'', ''u'', ''h.x'', ''h.x'', ''leaf'', ''Bob''] 2 (nick_net 100) \<and>
   m_nick nick_env0 4 6 [''leaf'', ''bob'', ''1'', ''100'', ''+'', ''u'', ''h.x'', ''h.x'', ''leaf'', ''Bob''] (nick_net 200) =
     Inr (nick_net 200, False)"
proof -
  define p q where "p = [''leaf'', ''bob'', ''1'', ''200'', ''+'', ''u'', ''h.x'', ''h.x'', ''leaf'', ''Bob'']"
    and "q = [''leaf'', ''bob'', ''1'', ''100'', ''+'', ''u'', ''h.x'', ''h.x'', ''leaf'', ''Bob'']"
  have n: "strtol ''200'' = 200" "strtol ''100'' = 100" by (simp_all add: strtol_def is_digit_def)
  have h: "strtol (p ! 3) = tsinfo (nick_net 200) 2" "strtol (q ! 3) = tsinfo (nick_net 100) 2"
    "p ! 5 = c_username (nc (nick_net 200) 2)" "p ! 6 = c_realhost (nc (nick_net 200) 2)"
    "q ! 5 = c_username (nc (nick_net 100) 2)" "q ! 6 = c_realhost (nc (nick_net 100) 2)"
    by (simp_all add: p_def q_def nick_net_sel n)
  have "same_user p 2 (nick_net 100)" by (simp add: same_user_def p_def nick_net_sel)
  then have "collide (tsinfo (nick_net 200) 2) (tsinfo (nick_net 100) 2) (same_user p 2 (nick_net 100)) = ClaimWins"
    by (simp add: collide_def nick_net_sel)
  with nick_collision_converges[OF bob_line[OF p_def] bob_line[OF q_def] h, of nick_env0 nick_env0]
  show ?thesis by (simp add: p_def q_def)
qed

text \<open>
  A NICK line of a user from a neighbour server with seven parameters, \<open>parv[6]\<close> a host name, makes
  \<open>strchr\<close> read the null pointer \<open>parv[7]\<close>.
\<close>

lemma short_nick_line:
  assumes "IsServer (nc s cptr)" "\<not> IsServer (nc s sptr)" "length parv = 7" "host_like (parv ! 6)"
  shows "m_nick e cptr sptr parv s = Inl NullString"
  using assms by (auto simp: m_nick_def nick_header_def Let_def)

subsection \<open>A local user\<close>

lemma nk_sel [simp]:
  "nc (nk_send t m s) = nc s" "nc (nk_call k s) = nc s" "nk (nk_call k s) = nk s"
  by (simp_all add: nk_send_def nk_upd_def nk_call_def)

lemma nk_client_sel [simp]: "nc (nk_client a f s) = (nc s)(a := f (nc s a))"
  by (auto simp: nk_client_def nk_upd_def upd_client_def)

lemma nk_numeric_sel [simp]: "nc (nk_numeric a n m t s) = nc s"
  by (simp add: nk_numeric_def)

lemma nk_tab_sel: "nc (nk_upd (\<lambda>x. x\<lparr>client_tab := f x\<rparr>) s) = nc s"
  by (simp add: nk_upd_def)

lemma set_nick_name: "c_name (nc (set_nick a real nick s) a) = nick"
  by (simp add: set_nick_def Let_def nk_tab_sel)

lemma nick_told_sel [simp]: "nc (nick_told cptr sptr src nick s) = nc s"
  by (simp add: nick_told_def)

lemma refused_names: "nick_change_refused e sptr src nick s ch = Some f \<Longrightarrow> nc (f t) = nc t"
  by (auto simp: nick_change_refused_def Let_def split: if_splits)

lemma local_change_name:
  "c_name (nc (local_nick_change e cptr sptr src real nick s) sptr) \<in> {c_name (nc s sptr), nick}"
  "LockNickChange s \<Longrightarrow> c_name (nc (local_nick_change e cptr sptr src real nick s) sptr) = c_name (nc s sptr)"
proof -
  have r: "nc (the (nick_change_refused e sptr src nick s ch) s) = nc s"
    if "List.find (\<lambda>ch. nick_change_refused e sptr src nick s ch \<noteq> None) xs = Some ch" for ch xs
  proof -
    have "nick_change_refused e sptr src nick s ch \<noteq> None" using that by (auto simp: find_Some_iff)
    then show ?thesis using refused_names by fastforce
  qed
  show "c_name (nc (local_nick_change e cptr sptr src real nick s) sptr) \<in> {c_name (nc s sptr), nick}"
    by (auto simp: local_nick_change_def Let_def set_nick_name r split: option.split)
  show "LockNickChange s \<Longrightarrow> c_name (nc (local_nick_change e cptr sptr src real nick s) sptr) = c_name (nc s sptr)"
    by (simp add: local_nick_change_def)
qed

text \<open>A connection that is not registered leaves without touching the names.\<close>

lemma unknown_leaves:
  assumes "c_status (nc s a) = STAT_UNKNOWN" "nk_exit e p a m s = Inr (t, r)"
  shows "c_name (nc t x) = c_name (nc s x)" "c_status (nc t x) = c_status (nc s x)" "x \<noteq> a \<Longrightarrow> local_flag (nc t x) = local_flag (nc s x)"
    "LockNickChange t = LockNickChange s"
proof -
  have st: "c_status (xc (exit_local a m y) x) = c_status (xc y x)" "c_name (xc (exit_local a m y) x) = c_name (xc y x)" for x y
    using exit_local_quiet[of y a m] by (simp_all add: keeps_tree_def)
  have lf: "local_flag (xc (exit_local a m y) x) = local_flag (xc y x)" for x y
  proof -
    have "clients (ex_irc (exit_lists a y)) = clients (ex_irc y)" by (simp add: exit_lists_def Let_def)
    then show ?thesis by (simp add: exit_local_def close_link_def Let_def)
  qed
  define y where "y = (if local_flag (xc (nk s) a) then exit_local a m (nk s) else nk s)"
  have y: "c_status (xc y a) = STAT_UNKNOWN" "c_name (xc y x) = c_name (nc s x)" "c_status (xc y x) = c_status (nc s x)"
    "local_flag (xc y x) = local_flag (nc s x)" for x
    using assms(1) by (simp_all add: y_def st lf)
  have "clients (ex_irc (exit_one_client p a fr m y)) = clients (ex_irc y)" for fr
    using y(1) by (simp add: exit_one_client_def Let_def IsServer_def IsPerson_def IsClient_def is_registered_def remove_list_sel)
  then have "nc t = clients (ex_irc y)" "LockNickChange t = LockNickChange s"
    using assms(2) y(1) by (auto simp: nk_exit_def exit_client_full_def y_def[symmetric] Let_def IsServer_def)
  then show "c_name (nc t x) = c_name (nc s x)" "c_status (nc t x) = c_status (nc s x)"
    "x \<noteq> a \<Longrightarrow> local_flag (nc t x) = local_flag (nc s x)" "LockNickChange t = LockNickChange s"
    using y by simp_all
qed

lemma killdone_local_name:
  assumes "local_flag (nc s a)" "IsClient (nc s a)" "c_name (nc s a) \<noteq> []" "nickkilldone e p a parv ts nick s = Inr (t, r)"
    "c_name (nc t a) \<noteq> c_name (nc s a)"
  shows "c_name (nc t a) = nick" "\<not> LockNickChange s"
proof -
  define s1 where "s1 = (if irccmp (parv ! 0) nick \<noteq> 0
    then s\<lparr>tsinfo := (tsinfo s)(a := if ts \<noteq> 0 then ts else CurrentTime (ex_irc (nk s)))\<rparr> else s)"
  have s1: "nk s1 = nk s" "LockNickChange s1 = LockNickChange s" by (simp_all add: s1_def)
  have "\<not> IsServer (nc s a)" using assms(2) by (simp add: IsServer_def IsClient_def)
  then have "t = local_nick_change e p a (parv ! 0) (irccmp (parv ! 0) nick \<noteq> 0) nick s1"
    using assms(1-4) by (simp add: nickkilldone_def Let_def s1_def)
  then show "c_name (nc t a) = nick" "\<not> LockNickChange s"
    using local_change_name[where e=e and cptr=p and sptr=a and src="parv ! 0" and real="irccmp (parv ! 0) nick \<noteq> 0" and nick=nick and s=s1] assms(5) by (auto simp: s1)
qed

lemma who_is_leave [simp]: "who_is (leave_channels u d) c = who_is d c" "who_is (leave_invites u d) c = who_is d c"
proof -
  show "who_is (leave_channels u d) c = who_is d c"
  proof (induction u d rule: leave_channels.induct)
    case (1 u s)
    then show ?case by (cases "u_channel (clients s u)") (simp_all add: leave_channels.simps[of u s])
  qed
  show "who_is (leave_invites u d) c = who_is d c"
  proof (induction u d rule: leave_invites.induct)
    case (1 u s)
    then show ?case by (cases "u_invited (clients s u)") (simp_all add: leave_invites.simps[of u s])
  qed
qed

text \<open>An exit leaves the names of a user as they are.\<close>

lemma user_exit_names:
  assumes "\<not> IsServer (nc s a)" "nk_exit e p a m s = Inr (t, r)"
  shows "c_name (nc t x) = c_name (nc s x)"
proof -
  have q: "who_is (ex_irc (quit_person p a m z)) x = who_is (ex_irc z) x" for z
    by (simp add: quit_person_def Let_def who_is_upd_client)
  have one: "c_name (xc (exit_one_client p a fr m y) x) = c_name (xc y x)" if "\<not> IsServer (xc y a)" for y fr
    using that q[of "unlink_dependent a y"] by (simp add: exit_one_client_def Let_def who_is_def)
  define y where "y = (if local_flag (xc (nk s) a) then exit_local a m (nk s) else nk s)"
  have y: "c_name (xc y x) = c_name (nc s x)" "IsServer (xc y a) = IsServer (nc s a)" for x
    using exit_local_quiet[of "nk s" a m] by (simp_all add: y_def keeps_tree_def IsServer_def)
  have "nk t = exit_one_client p a (me_addr (nk s)) m y"
    using assms y(2) by (auto simp: nk_exit_def exit_client_full_def y_def[symmetric] Let_def)
  then show ?thesis using one[of y] y assms(1) by simp
qed

lemma clean_legal:
  assumes "clean_nick_name w = (n, k)" "k \<noteq> 0"
  shows "n \<noteq> []" "length n \<le> NICKLEN" "list_all IsNickChar n" "\<not> IsDigit (hd n)" "hd n \<noteq> CHR ''-''"
proof -
  have n: "n = takeWhile IsNickChar (take NICKLEN w)" "k = length n" "\<not> IsDigit (hd0 w)" "hd0 w \<noteq> CHR ''-''"
    using assms by (auto simp: clean_nick_name_def Let_def split: if_splits)
  show ne: "n \<noteq> []" using n(2) assms(2) by auto
  show "length n \<le> NICKLEN" using n(1) length_takeWhile_le[of IsNickChar "take NICKLEN w"] by simp
  show "list_all IsNickChar n" using n(1) by (auto simp: list_all_iff dest: set_takeWhileD)
  have "w \<noteq> []" "hd n = hd w"
  proof -
    obtain x r where t: "take NICKLEN w = x # r" "IsNickChar x" "hd n = x"
      using ne n(1) by (cases "take NICKLEN w") (auto split: if_splits)
    then show "w \<noteq> []" by auto
    then obtain y v where "w = y # v" by (cases w) auto
    with t show "hd n = hd w" by (cases "NICKLEN = 0") (auto simp: take_Cons')
  qed
  then show "\<not> IsDigit (hd n)" "hd n \<noteq> CHR ''-''" using n(3,4) by (cases w; simp add: hd0_def)+
qed

lemma claim_local:
  assumes a: "MyClient (nc s a)" "c_name (nc s a) \<noteq> []" and c: "claim_nick e a a parv ts nick s = Inr (t, r)"
    "c_name (nc t a) \<noteq> c_name (nc s a)" "length parv \<le> 6"
  shows "c_name (nc t a) = nick \<and> \<not> LockNickChange s \<and> nk_find_server nick s = None \<and>
    (case nk_find_client nick s of None \<Rightarrow> True | Some b \<Rightarrow> b = a \<or> c_status (nc s b) = STAT_UNKNOWN)"
proof -
  have l: "local_flag (nc s a)" "IsClient (nc s a)" "\<not> IsServer (nc s a)" using a by (auto simp: MyClient_def IsClient_def IsServer_def)
  note done' = killdone_local_name[OF l(1,2) a(2) _ c(2)]
  show ?thesis
  proof (cases "nk_find_server nick s")
    case (Some z)
    then have "t = nick_in_use a parv nick s" using c(1) l by (simp add: claim_nick_def)
    then show ?thesis using c(2) by (simp add: nick_in_use_def)
  next
    case srv: None
    show ?thesis
    proof (cases "nk_find_client nick s")
      case None
      then have "nickkilldone e a a parv ts nick s = Inr (t, r)" using c(1) srv by (simp add: claim_nick_def)
      then show ?thesis using done' srv None by simp
    next
      case (Some b)
      show ?thesis
      proof (cases "b = a")
        case True
        then have "nickkilldone e a a parv ts nick s = Inr (t, r)"
          using c srv Some by (auto simp: claim_nick_def Let_def split: if_splits)
        then show ?thesis using done' srv Some True by simp
      next
        case False
        then have u: "c_status (nc s b) = STAT_UNKNOWN" "local_flag (nc s b)"
          using c srv Some l by (auto simp: claim_nick_def Let_def nick_in_use_def split: if_splits)
        then obtain t1 r1 where t1: "nk_exit e 0 b ''Overridden'' s = Inr (t1, r1)" "nickkilldone e a a parv ts nick t1 = Inr (t, r)"
          using c srv Some False by (cases "nk_exit e 0 b ''Overridden'' s") (auto simp: claim_nick_def Let_def)
        note k = unknown_leaves[OF u(1) t1(1)]
        have "local_flag (nc t1 a)" "IsClient (nc t1 a)" "c_name (nc t1 a) \<noteq> []" "c_name (nc t a) \<noteq> c_name (nc t1 a)"
          using k(1)[of a] k(2)[of a] k(3)[of a] False l a(2) c(2) by (simp_all add: IsClient_def)
        from killdone_local_name[OF this(1-3) t1(2) this(4)] show ?thesis using srv Some u k by simp
      qed
    qed
  qed
qed

text \<open>
  C7. The nick a registered local user ends up with by NICK is a legal one (1 to \<open>NICKLEN\<close>
  nick characters, no digit and no dash first), no name of a server, the name of no other registered user, not quarantined by
  the services, and for a user who is no operator not by a Q-line; and changes of nick are not locked.
\<close>

theorem local_nick_safe:
  assumes "MyClient (nc s a)" "c_name (nc s a) \<noteq> []" "m_nick e a a parv s = Inr (t, r)" "c_name (nc t a) \<noteq> c_name (nc s a)"
    "nick = c_name (nc t a)"
  shows "nick \<noteq> [] \<and> length nick \<le> NICKLEN \<and> list_all IsNickChar nick \<and> \<not> IsDigit (hd nick) \<and> hd nick \<noteq> CHR ''-'' \<and>
    nk_find_server nick s = None \<and>
    (case nk_find_client nick s of None \<Rightarrow> True | Some b \<Rightarrow> b = a \<or> c_status (nc s b) = STAT_UNKNOWN) \<and>
    sqline_of e nick = None \<and>
    (IsAnOper (nc s a) \<or> \<not> find_q_line e nick (c_username (nc s a)) (c_realhost (nc s a))) \<and> \<not> LockNickChange s"
proof -
  have l: "local_flag (nc s a)" "\<not> IsServer (nc s a)" using assms(1) by (auto simp: MyClient_def IsClient_def IsServer_def)
  have len: "2 \<le> length parv"
  proof (rule ccontr)
    assume "\<not> 2 \<le> length parv"
    then show False using assms(3,4) by (auto simp: m_nick_def)
  qed
  then have run: "nick_checked e a a (take 2 parv) 0 s = Inr (t, r)"
    using assms(3) l by (simp add: m_nick_def nick_header_def Let_def)
  define pv where "pv = (take 2 parv)[1 := takeWhile (\<lambda>x. x \<noteq> CHR ''~'') (take 2 parv ! 1)]"
  have pv: "length pv \<le> 6" by (simp add: pv_def)
  obtain w k where wk: "clean_nick_name (take NICKLEN (pv ! 1)) = (w, k)" by fastforce
  have names: "c_name (nc t' a) = c_name (nc s a)" if "nk_exit e a a ''Fizzer client'' s' = Inr (t', r')" "nc s' = nc s" for t' r' s'
    using user_exit_names[OF _ that(1), where x=a] l that(2) by simp
  have run2: "(if k = 0 then bad_nick e a a pv w s
      else if is_fizzer a s then
        nk_exit e a a ''Fizzer client''
          (nk_send ToOps (''Rejecting Fizzer client '' @ w @ '' from user '' @ client_name_host a s)
            (nk_send (ToOne a) ('':'' @ fizzer_name e @ '' PRIVMSG '' @ w @ '' :'' @ CHR 0x5C # ''uninstall'') s))
      else if \<not> IsAnOper (nc s a) \<and> find_q_line e w (c_username (nc s a)) (c_realhost (nc s a)) then
        Inr (nk_numeric a ''432'' (pv ! 0) (pv ! 1 @ '' :Erroneus Nickname'')
          (nk_send ToOps (''Quarantined nick ['' @ w @ ''] from user '' @ client_name_host a s) s), False)
      else case sqline_of e w of
        Some (line, why) \<Rightarrow>
          Inr (nk_numeric a ''432'' (pv ! 0) (pv ! 1 @ '' :Erroneus Nickname'')
            (nk_send ToOps (''Services quarantined nick ['' @ w @ ''] ('' @ line @ '') from user '' @ client_name_host a s @
            '', reason: '' @ why) s), False)
      | None \<Rightarrow> claim_nick e a a pv 0 w s) = Inr (t, r)"
    using run unfolding nick_checked_def
    by (simp only: Let_def l simp_thms if_True if_False wk split_conv pv_def[symmetric])
  have k0: "k \<noteq> 0"
  proof
    assume "k = 0"
    then show False using run2 l assms(4) by (auto simp: bad_nick_def Let_def)
  qed
  have nf: "\<not> is_fizzer a s"
  proof
    assume "is_fizzer a s"
    then show False using run2 k0 names assms(4) by (auto dest: names)
  qed
  have q: "IsAnOper (nc s a) \<or> \<not> find_q_line e w (c_username (nc s a)) (c_realhost (nc s a))"
    using run2 k0 nf assms(4) by (auto split: if_splits)
  then have sq: "sqline_of e w = None"
    using run2 k0 nf assms(4) by (auto split: if_splits option.splits)
  then have "claim_nick e a a pv 0 w s = Inr (t, r)" using run2 k0 nf q by (simp split: if_splits)
  from claim_local[OF assms(1,2) this assms(4)] pv clean_legal[OF wk k0] q sq
  show ?thesis by (simp add: assms(5))
qed

theorem local_nick_safe_witness:
  "\<exists>t r. m_nick nick_env0 3 3 [''op'', ''op2~x''] (nick_net 100) = Inr (t, r) \<and> c_name (nc t 3) = ''op2'' \<and>
     list_all IsNickChar ''op2'' \<and> nk_find_server ''op2'' (nick_net 100) = None"
proof -
  have cl: "clean_nick_name (take NICKLEN ''op2'') = (''op2'', 3)" by code_simp
  have real: "irccmp ''op'' ''op2'' \<noteq> 0" by code_simp
  have free: "nk_find_client ''op2'' (nick_net 100) = None"
  proof -
    have "irccmp ''op2'' ''bob'' \<noteq> 0" by code_simp
    then show ?thesis
      by (simp add: nk_find_client_def hash_find_client_def nick_net_sel add_to_client_hash_table_def bucket_add_def clear_hash_table_def)
  qed
  define s1 where "s1 = (nick_net 100)\<lparr>tsinfo := (tsinfo (nick_net 100))(3 := CurrentTime (ex_irc (nk (nick_net 100))))\<rparr>"
  have s1: "nk s1 = nk (nick_net 100)" "LockNickChange s1 = False" by (simp_all add: s1_def nick_net_sel)
  have run: "m_nick nick_env0 3 3 [''op'', ''op2~x''] (nick_net 100) =
      Inr (local_nick_change nick_env0 3 3 ''op'' True ''op2'' s1, False)"
    using cl real free no_dot_no_server[of "''op2''" 100]
    by (simp add: m_nick_def nick_header_def nick_checked_def claim_nick_def nickkilldone_def Let_def nick_net_sel IsServer_def IsClient_def
        is_fizzer_def two_words_def nick_env0_def s1_def)
  have room5: "banlist (chans (ex_irc (nk (nick_net 100))) 5) = []" "md_mode (mode (chans (ex_irc (nk (nick_net 100))) 5)) = MODE_OPERONLY"
    by (simp_all add: nick_net_def nk_client_def nk_upd_def hub_sel net_irc_def upd_client_def room_sel(3))
      (simp add: room_def add_user_to_channel_def link_member_def start_get new_chan_def)
  have "nick_change_refused nick_env0 3 src ''op2'' s1 5 = None" for src
    by (simp add: nick_change_refused_def Let_def s1 is_banned_def nick_is_banned_def room5 has_def MODE_OPERONLY_def MODE_NONICKCH_def)
  then have nm: "c_name (nc (local_nick_change nick_env0 3 3 ''op'' True ''op2'' s1) 3) = ''op2''"
    by (simp add: local_nick_change_def Let_def s1 nick_net_sel set_nick_name MAX_NICK_CHANGES_def MAX_NICK_TIME_def s1_def)
  have me: "MyClient (nc (nick_net 100) 3)" "c_name (nc (nick_net 100) 3) \<noteq> []"
    "c_name (nc (local_nick_change nick_env0 3 3 ''op'' True ''op2'' s1) 3) \<noteq> c_name (nc (nick_net 100) 3)"
    by (simp_all add: nick_net_sel MyClient_def IsClient_def nm)
  from local_nick_safe[OF me(1,2) run me(3) nm[symmetric]]
  have "list_all IsNickChar ''op2''" "nk_find_server ''op2'' (nick_net 100) = None" by blast+
  with run nm show ?thesis by blast
qed

end
