(* ===== verification/Umode.thy ===== *)
theory Umode
  imports Nick
begin

text \<open>
  The modes of a user, \<open>src/s_user.c\<close>: \<open>user_mode\<close>, \<open>send_umode\<close>, \<open>send_umode_out\<close>. A MODE line of a
  nick is read letter by letter; then the difference between the old and the new modes is sent as a line of its own.
\<close>

subsection \<open>Data\<close>

record umode_state =
  uq :: nick_state
  imodes :: "nat \<Rightarrow> 32 word"
  flags2 :: "nat \<Rightarrow> 32 word"
  confs :: "nat \<Rightarrow> nat list"
  HostSpoofing :: bool
  spoofed :: "nat \<Rightarrow> cstr"
  detached :: "(nat \<times> nat) list"

abbreviation uc :: "umode_state \<Rightarrow> nat \<Rightarrow> client" where
  "uc s c \<equiv> nc (uq s) c"

definition um_upd :: "(nick_state \<Rightarrow> nick_state) \<Rightarrow> umode_state \<Rightarrow> umode_state" where
  "um_upd f s = s\<lparr>uq := f (uq s)\<rparr>"

definition um_modes :: "nat \<Rightarrow> (32 word \<Rightarrow> 32 word) \<Rightarrow> umode_state \<Rightarrow> umode_state" where
  "um_modes a f = um_upd (nk_client a (\<lambda>c. c\<lparr>c_umodes := f (c_umodes c)\<rparr>))"

definition um_count_oper :: "int \<Rightarrow> umode_state \<Rightarrow> umode_state" where
  "um_count_oper d = um_upd (nk_upd (\<lambda>x. x\<lparr>count_oper := count_oper x + d\<rparr>))"

definition um_count_invisi :: "int \<Rightarrow> umode_state \<Rightarrow> umode_state" where
  "um_count_invisi d = um_upd (nk_upd (\<lambda>x. x\<lparr>count_invisi := count_invisi x + d\<rparr>))"

definition user_modes :: "(32 word \<times> char) list" where
  "user_modes =
    [(UMODE_SADMIN, CHR ''a''), (UMODE_ADMIN, CHR ''A''), (UMODE_BOT, CHR ''B''), (UMODE_FLOODEX, CHR ''f''),
     (UMODE_HELPER, CHR ''h''), (UMODE_HIDEOPER, CHR ''H''), (UMODE_INVISIBLE, CHR ''i''), (UMODE_NETADMIN, CHR ''N''),
     (UMODE_OPER, CHR ''o''), (UMODE_LOCOP, CHR ''O''), (UMODE_PRIVATE, CHR ''p''), (UMODE_IDENTIFIED, CHR ''r''),
     (UMODE_REGMSG, CHR ''R''), (UMODE_SSL, CHR ''s''), (UMODE_STEALTH, CHR ''S''), (UMODE_TECHADMIN, CHR ''T''),
     (USER_NODCC, CHR ''v''), (USER_WALLOP, CHR ''w''), (UMODE_SPY, CHR ''y''), (USER_ZOMBIE, CHR ''z'')]"

definition USER_UMODES :: "32 word" where
  "USER_UMODES = UMODE_INVISIBLE OR USER_WALLOP OR UMODE_HELPER OR UMODE_BOT OR UMODE_IDENTIFIED OR UMODE_PRIVATE OR
     UMODE_REGMSG OR UMODE_STEALTH OR UMODE_SSL OR UMODE_FLOODEX"

definition FLAGS2_OPER :: "32 word" where
  "FLAGS2_OPER = 0x20 OR 0x40 OR 0x80 OR 0x100 OR 0x400"

subsection \<open>One letter\<close>

text \<open>\<open>-o\<close> of an operator.\<close>

definition lose_oper :: "nat \<Rightarrow> umode_state \<Rightarrow> umode_state" where
  "lose_oper a s =
     (let s1 = (um_modes a (\<lambda>m. m AND USER_UMODES) (um_count_oper (-1) s))\<lparr>imodes := (imodes s)(a := 0)\<rparr> in
      if \<not> local_flag (uc s a) then s1
      else
        let s2 = um_upd (nk_upd (\<lambda>x. ex_call (FdlistDelete a) (x\<lparr>oper_list := remove1 a (oper_list x)\<rparr>))) s1;
            s3 = (case confs s2 a of [] \<Rightarrow> s2 | f # _ \<Rightarrow> s2\<lparr>detached := detached s2 @ [(a, f)]\<rparr>) in
        s3\<lparr>flags2 := (flags2 s3)(a := flags2 s3 a AND NOT FLAGS2_OPER)\<rparr>)"

type_synonym umode_loop = "umode_state \<times> bool \<times> bool"

definition umode_default :: "nat \<Rightarrow> char \<Rightarrow> umode_loop \<Rightarrow> umode_loop" where
  "umode_default a m l =
     (case l of (s, add, bad) \<Rightarrow>
        let b = user_mode_bit m in
        if b \<noteq> 0 then (um_modes a (\<lambda>x. if add then x OR b else x AND NOT b) s, add, bad)
        else (s, add, bad \<or> local_flag (uc s a)))"

definition umode_letter :: "nat \<Rightarrow> nat \<Rightarrow> cstr \<Rightarrow> umode_loop \<Rightarrow> char \<Rightarrow> umode_loop" where
  "umode_letter cptr a src l m =
     (case l of (s, add, bad) \<Rightarrow>
        let srv = IsServer (uc s cptr); u = uc s a in
        if m = CHR ''+'' then (s, True, bad)
        else if m = CHR ''-'' then (s, False, bad)
        else if m = CHR ''O'' \<or> m = CHR ''o'' then
          (if add then
             if srv \<and> \<not> IsOper u
             then (um_modes a (\<lambda>x. x OR (if m = CHR ''o'' then UMODE_OPER else UMODE_LOCOP)) (um_count_oper 1 s), add, bad)
             else l
           else if \<not> IsAnOper u then l
           else (lose_oper a s, add, bad))
        else if m = CHR '' '' \<or> m = CHR 0x0A \<or> m = CHR 0x0D \<or> m = CHR 0x09 then l
        else if m = CHR ''R'' then
          (if \<not> add then (um_modes a (\<lambda>x. x AND NOT UMODE_REGMSG) s, add, bad)
           else if MyClient (uc s cptr) \<and> \<not> IsIdentified (uc s cptr) then
             (um_upd (\<lambda>n. nk_send (ToOne cptr) ('':'' @ my_name n @ '' NOTICE '' @ src @
                '' :You need a registered and identified nick to set +R'') n) s, add, bad)
           else (um_modes a (\<lambda>x. x OR UMODE_REGMSG) s, add, bad))
        else if m = CHR ''s'' \<or> m = CHR ''f'' then l
        else if m \<in> set ''vzrB'' \<and> \<not> srv then l
        else if m \<in> set ''vzrBSNThAa'' \<and> \<not> srv \<and> add then l
        else umode_default a m l)"

subsection \<open>The line that tells a change\<close>

fun umode_change :: "bool \<Rightarrow> 32 word \<Rightarrow> 32 word \<Rightarrow> 32 word \<Rightarrow> (32 word \<times> char) list \<Rightarrow> bool option \<Rightarrow> cstr" where
  "umode_change mine sendmask old new [] what = []"
| "umode_change mine sendmask old new ((b, c) # tab) what =
     (if mine \<and> b AND sendmask = 0 then umode_change mine sendmask old new tab what
      else if has old b \<and> \<not> has new b then
        (if what = Some False then c # umode_change mine sendmask old new tab what
         else CHR ''-'' # c # umode_change mine sendmask old new tab (Some False))
      else if \<not> has old b \<and> has new b then
        (if what = Some True then c # umode_change mine sendmask old new tab what
         else CHR ''+'' # c # umode_change mine sendmask old new tab (Some True))
      else umode_change mine sendmask old new tab what)"

definition send_umode :: "nat \<Rightarrow> nat \<Rightarrow> 32 word \<Rightarrow> 32 word \<Rightarrow> umode_state \<Rightarrow> umode_state \<times> cstr" where
  "send_umode cptr a old sendmask s =
     (let u = uc s a; buf = umode_change (MyClient u) sendmask old (c_umodes u) user_modes None in
      (if buf \<noteq> [] \<and> cptr \<noteq> 0
       then um_upd (nk_send (ToOne cptr) ('':'' @ c_name u @ '' MODE '' @ c_name u @ '' :'' @ buf)) s else s, buf))"

definition send_umode_out :: "nat \<Rightarrow> nat \<Rightarrow> 32 word \<Rightarrow> umode_state \<Rightarrow> umode_state" where
  "send_umode_out cptr a old s =
     (let (s1, buf) = send_umode 0 a old ALL_UMODES s; u = uc s a;
          s2 = foldl (\<lambda>t to. if to \<noteq> cptr \<and> to \<noteq> a \<and> buf \<noteq> []
                 then um_upd (nk_send (ToOne to) ('':'' @ c_name u @ '' MODE '' @ c_name u @ '' :'' @ buf)) t else t)
               s1 (serv_list (nk (uq s1))) in
      if cptr \<noteq> 0 \<and> MyClient (uc s cptr) then fst (send_umode cptr a old (ALL_UMODES AND NOT USER_ZOMBIE) s2) else s2)"

subsection \<open>The command\<close>

definition um_find_person :: "cstr \<Rightarrow> umode_state \<Rightarrow> nat option" where
  "um_find_person name s =
     (case nk_find_client name (uq s) of
        Some a \<Rightarrow> if IsPerson (uc s a) then Some a else None
      | None \<Rightarrow> None)"

definition um_numeric :: "nat \<Rightarrow> cstr \<Rightarrow> cstr \<Rightarrow> cstr \<Rightarrow> umode_state \<Rightarrow> umode_state" where
  "um_numeric a num name txt = um_upd (nk_numeric a num name txt)"

text \<open>After the letters: those who are no operators keep the modes of users only, and lose the host of operators.\<close>

definition umode_settle :: "nat \<Rightarrow> nat \<Rightarrow> cstr \<Rightarrow> 32 word \<Rightarrow> umode_loop \<Rightarrow> umode_state" where
  "umode_settle cptr a src setflags l =
     (case l of (s, add, bad) \<Rightarrow>
        let s1 = (if IsAnOper (uc s a) then s
                  else
                    let t = um_modes a (\<lambda>x. x AND (USER_UMODES OR USER_ZOMBIE)) s in
                    if has setflags (UMODE_OPER OR UMODE_LOCOP) then
                      um_upd (nk_client a (\<lambda>c. c\<lparr>c_host := if HostSpoofing t then spoofed t a else c_realhost c\<rparr>)) t
                    else t);
            s2 = (if bad then um_numeric a ''501'' src '':Unknown MODE flag'' s1 else s1);
            invis = has (c_umodes (uc s2 a)) UMODE_INVISIBLE;
            s3 = (if \<not> has setflags UMODE_INVISIBLE \<and> invis then um_count_invisi 1 s2
                  else if has setflags UMODE_INVISIBLE \<and> \<not> invis then um_count_invisi (-1) s2 else s2) in
        send_umode_out cptr a setflags s3)"

definition user_mode :: "nat \<Rightarrow> nat \<Rightarrow> cstr list \<Rightarrow> umode_state \<Rightarrow> umode_state" where
  "user_mode cptr sptr parv s =
     (let src = parv ! 0 in
      if length parv < 2 then um_numeric sptr ''461'' src ''MODE :Not enough parameters'' s
      else case um_find_person (parv ! 1) s of
        None \<Rightarrow> (if local_flag (uc s sptr) then um_numeric sptr ''401'' src (parv ! 1 @ '' :No such nick/channel'') s else s)
      | Some a \<Rightarrow>
          if (IsServer (uc s sptr) \<or> sptr \<noteq> a \<or> c_from (uc s a) \<noteq> c_from (uc s sptr)) \<and> (2 < length parv \<or> \<not> IsOper (uc s sptr)) then
            (if IsServer (uc s cptr)
             then um_upd (\<lambda>n. nk_send ToOps ('':'' @ my_name n @ '' WALLOPS :MODE for User '' @ parv ! 1 @ '' From '' @
                    client_name_host cptr n @ ''!'' @ c_name (nc n sptr)) n) s
             else um_numeric sptr ''502'' src ('':Can'' @ [CHR 0x27] @ ''t change mode for other users'') s)
          else if length parv < 3 then
            um_numeric sptr ''221'' (c_name (uc s a)) (CHR ''+'' # map snd (filter (\<lambda>(b, c). has (c_umodes (uc s a)) b) user_modes)) s
          else
            umode_settle cptr sptr src (c_umodes (uc s sptr))
              (foldl (umode_letter cptr sptr src) (s, True, False) (concat (drop 2 parv))))"

subsection \<open>What a user can do to its modes\<close>

definition GRANTED :: "32 word" where
  "GRANTED = UMODE_OPER OR UMODE_LOCOP OR UMODE_ADMIN OR UMODE_TECHADMIN OR UMODE_NETADMIN OR UMODE_SADMIN OR UMODE_HELPER OR
     UMODE_STEALTH OR UMODE_IDENTIFIED OR UMODE_BOT OR USER_ZOMBIE OR USER_NODCC OR UMODE_SSL OR UMODE_FLOODEX"

definition no_gain :: "32 word \<Rightarrow> 32 word \<Rightarrow> bool" where
  "no_gain old new \<longleftrightarrow> new AND GRANTED AND NOT old = 0"

lemma no_gain_steps:
  "no_gain old old" "no_gain old new \<Longrightarrow> b AND GRANTED = 0 \<Longrightarrow> no_gain old (new OR b)"
  "no_gain old new \<Longrightarrow> no_gain old (new AND b)"
  by (auto simp: no_gain_def bit_eq_iff bit_simps)

lemma free_letter:
  "m \<notin> set ''OoRsfvzrBSNThAa'' \<Longrightarrow> user_mode_bit m AND GRANTED = 0"
  "UMODE_REGMSG AND GRANTED = 0"
proof -
  note d = umode_defs UMODE_HIDEOPER_def UMODE_INVISIBLE_def UMODE_PRIVATE_def USER_WALLOP_def UMODE_SPY_def GRANTED_def UMODE_HELPER_def
    UMODE_SADMIN_def USER_ZOMBIE_def USER_NODCC_def UMODE_FLOODEX_def
  have "UMODE_HIDEOPER AND GRANTED = 0" "UMODE_INVISIBLE AND GRANTED = 0" "UMODE_PRIVATE AND GRANTED = 0" "USER_WALLOP AND GRANTED = 0"
    "UMODE_SPY AND GRANTED = 0"
    by (simp_all add: d)
  then show "user_mode_bit m AND GRANTED = 0" if "m \<notin> set ''OoRsfvzrBSNThAa''"
    using that by (simp add: user_mode_bit_def split: if_splits)
  show "UMODE_REGMSG AND GRANTED = 0" by (simp add: d UMODE_REGMSG_def)
qed

lemma um_sel [simp]:
  "uc (um_modes a f s) c = (if c = a then (uc s a)\<lparr>c_umodes := f (c_umodes (uc s a))\<rparr> else uc s c)"
  "uc (um_count_oper d s) c = uc s c" "uc (um_count_invisi d s) c = uc s c" "uc (um_numeric b num nm txt s) c = uc s c"
  "uc (um_upd (nk_send t m) s) c = uc s c" "uc (um_upd (\<lambda>n. nk_send (h n) (g n) n) s) c = uc s c"
  "uc (um_upd (nk_client a fc) s) c = (if c = a then fc (uc s a) else uc s c)"
  by (simp_all add: um_modes_def um_upd_def um_count_oper_def um_count_invisi_def um_numeric_def)
    (simp_all add: nk_upd_def)

lemma lose_oper_sel [simp]:
  "uc (lose_oper a s) c = (if c = a then (uc s a)\<lparr>c_umodes := c_umodes (uc s a) AND USER_UMODES\<rparr> else uc s c)"
proof -
  have "uc (um_upd (nk_upd (\<lambda>x. ex_call k (x\<lparr>oper_list := f x\<rparr>))) t) c = uc t c" for k f t c
    by (simp add: um_upd_def nk_upd_def)
  then show ?thesis by (simp add: lose_oper_def Let_def split: list.split)
qed

lemma send_umode_sel [simp]: "uc (fst (send_umode q a old mk s)) c = uc s c"
  by (simp add: send_umode_def Let_def)

lemma send_out_sel [simp]: "uc (send_umode_out q a old s) c = uc s c"
proof -
  have f: "uc (foldl (\<lambda>t to. if Q to then um_upd (nk_send (ToOne to) m) t else t) t xs) c = uc t c" for Q m t xs
    by (induction xs arbitrary: t) auto
  obtain s1 buf where sb: "send_umode 0 a old ALL_UMODES s = (s1, buf)" by fastforce
  then have "uc s1 c = uc s c" using send_umode_sel[of 0 a old ALL_UMODES s c] by simp
  with f show ?thesis by (simp add: send_umode_out_def sb Let_def)
qed

text \<open>A letter of somebody who is no server.\<close>

lemma letter_no_gain:
  assumes "\<not> IsServer (uc s a)" "no_gain old (c_umodes (uc s a))" "umode_letter a a src (s, add, bad) m = (t, add', bad')"
  shows "\<not> IsServer (uc t a) \<and> no_gain old (c_umodes (uc t a))"
proof -
  have d: "IsServer (c\<lparr>c_umodes := x\<rparr>) = IsServer c" for c x by (simp add: IsServer_def)
  note steps = umode_letter_def umode_default_def Let_def d no_gain_steps free_letter(2)
  show ?thesis
  proof (cases "m \<in> set ''OoRsfvzrBSNThAa''")
    case True
    then have "m = CHR ''O'' \<or> m = CHR ''o'' \<or> m = CHR ''R'' \<or> m = CHR ''s'' \<or> m = CHR ''f'' \<or> m = CHR ''v'' \<or> m = CHR ''z'' \<or> m = CHR ''r'' \<or>
        m = CHR ''B'' \<or> m = CHR ''S'' \<or> m = CHR ''N'' \<or> m = CHR ''T'' \<or> m = CHR ''h'' \<or> m = CHR ''A'' \<or> m = CHR ''a''"
      by auto
    then show ?thesis using assms by (elim disjE) (auto simp: steps split: if_splits)
  next
    case False
    show ?thesis
    proof (cases "m = CHR ''+'' \<or> m = CHR ''-'' \<or> m = CHR '' '' \<or> m = CHR 0x0A \<or> m = CHR 0x0D \<or> m = CHR 0x09")
      case True
      then show ?thesis using assms by (elim disjE) (auto simp: umode_letter_def)
    next
      case other: False
      have "umode_letter a a src (s, add, bad) m = umode_default a m (s, add, bad)"
        using False other by (simp add: umode_letter_def)
      then show ?thesis
        using assms free_letter(1)[OF False] by (auto simp: umode_default_def Let_def d no_gain_steps split: if_splits)
    qed
  qed
qed

lemma letters_no_gain:
  "\<not> IsServer (uc s a) \<Longrightarrow> no_gain old (c_umodes (uc s a)) \<Longrightarrow>
   \<not> IsServer (uc (fst (foldl (umode_letter a a src) (s, add, bad) ms)) a) \<and>
   no_gain old (c_umodes (uc (fst (foldl (umode_letter a a src) (s, add, bad) ms)) a))"
proof (induction ms arbitrary: s add bad)
  case (Cons m ms)
  obtain t add' bad' where t: "umode_letter a a src (s, add, bad) m = (t, add', bad')" by (metis prod_cases3)
  from letter_no_gain[OF Cons.prems t] Cons.IH[of t add' bad'] t show ?case by simp
qed simp

lemma letter_others: "umode_letter cptr a src (s, add, bad) m = (t, add', bad') \<Longrightarrow> x \<noteq> a \<Longrightarrow> uc t x = uc s x"
  by (auto simp: umode_letter_def umode_default_def Let_def split: if_splits)

lemma letters_others: "x \<noteq> a \<Longrightarrow> uc (fst (foldl (umode_letter cptr a src) (s, add, bad) ms)) x = uc s x"
proof (induction ms arbitrary: s add bad)
  case (Cons m ms)
  obtain t add' bad' where t: "umode_letter cptr a src (s, add, bad) m = (t, add', bad')" by (metis prod_cases3)
  from letter_others[OF t Cons.prems] Cons.IH[OF Cons.prems, of t add' bad'] t show ?case by simp
qed simp

lemma settle_modes:
  "\<exists>k. c_umodes (uc (umode_settle cptr a src setflags (s, add, bad)) a) = c_umodes (uc s a) AND k"
  "x \<noteq> a \<Longrightarrow> uc (umode_settle cptr a src setflags (s, add, bad)) x = uc s x"
proof -
  show "\<exists>k. c_umodes (uc (umode_settle cptr a src setflags (s, add, bad)) a) = c_umodes (uc s a) AND k"
  proof (cases "IsAnOper (uc s a)")
    case True
    then show ?thesis by (intro exI[of _ "- 1"]) (simp add: umode_settle_def Let_def)
  next
    case False
    then show ?thesis by (intro exI[of _ "USER_UMODES OR USER_ZOMBIE"]) (simp add: umode_settle_def Let_def)
  qed
  show "x \<noteq> a \<Longrightarrow> uc (umode_settle cptr a src setflags (s, add, bad)) x = uc s x"
    by (simp add: umode_settle_def Let_def)
qed

subsection \<open>Reading a change back\<close>

text \<open>
  The letters a server accepts from another one without conditions act on the word of modes like this; that
  \<open>umode_letter\<close> does the same is proved below. \<open>o\<close> and \<open>O\<close> have effects of their own, \<open>s\<close> and \<open>f\<close> are ignored.
\<close>

fun read_modes :: "bool \<Rightarrow> 32 word \<Rightarrow> cstr \<Rightarrow> 32 word" where
  "read_modes add m [] = m"
| "read_modes add m (c # cs) =
     (if c = CHR ''+'' then read_modes True m cs
      else if c = CHR ''-'' then read_modes False m cs
      else read_modes add (if add then m OR user_mode_bit c else m AND NOT (user_mode_bit c)) cs)"

fun mode_bits :: "(32 word \<times> char) list \<Rightarrow> 32 word" where
  "mode_bits [] = 0"
| "mode_bits ((b, c) # tab) = b OR mode_bits tab"

text \<open>The bits that \<open>send_umode\<close> tells of.\<close>

fun told_bits :: "bool \<Rightarrow> 32 word \<Rightarrow> (32 word \<times> char) list \<Rightarrow> 32 word" where
  "told_bits mine mk [] = 0"
| "told_bits mine mk ((b, c) # tab) =
     (if mine \<and> b AND mk = 0 then told_bits mine mk tab else b OR told_bits mine mk tab)"

lemma told_sub: "b AND mode_bits tab = 0 \<Longrightarrow> b AND told_bits mine mk tab = 0"
proof (induction tab)
  case (Cons bc tab)
  obtain d c where bc: "bc = (d, c)" by fastforce
  have "b AND d = 0" "b AND mode_bits tab = 0"
    using Cons.prems by (auto simp: bc bit_eq_iff bit_simps)
  with Cons.IH show ?case by (auto simp: bc bit.conj_disj_distrib)
qed simp

text \<open>The bits of a table are single and distinct, and its letters are those of the other table.\<close>

fun mode_table :: "(32 word \<times> char) list \<Rightarrow> bool" where
  "mode_table [] \<longleftrightarrow> True"
| "mode_table ((b, c) # tab) \<longleftrightarrow> user_mode_bit c = b \<and> c \<noteq> CHR ''+'' \<and> c \<noteq> CHR ''-'' \<and> (\<exists>n<32. b = push_bit n 1) \<and>
     b AND mode_bits tab = 0 \<and> mode_table tab"

lemma one_bit: "(x :: 32 word) AND push_bit n 1 = 0 \<or> x AND push_bit n 1 = push_bit n 1"
proof (cases "bit x n")
  case True
  then have "x AND push_bit n 1 = push_bit n 1" by (intro bit_word_eqI) (auto simp: bit_and_iff bit_exp_iff bit_push_bit_iff bit_1_iff)
  then show ?thesis ..
next
  case False
  then have "x AND push_bit n 1 = 0" by (intro bit_word_eqI) (auto simp: bit_and_iff bit_exp_iff bit_push_bit_iff bit_1_iff)
  then show ?thesis ..
qed

lemma change_reads_back:
  "mode_table tab \<Longrightarrow> what = None \<or> what = Some w \<Longrightarrow> m AND told_bits mine mk tab = old AND told_bits mine mk tab \<Longrightarrow>
   read_modes w m (umode_change mine mk old new tab what) = (m AND NOT (told_bits mine mk tab)) OR (new AND told_bits mine mk tab)"
proof (induction tab arbitrary: what w m)
  case (Cons bc tab)
  obtain b c where bc: "bc = (b, c)" by fastforce
  let ?M = "told_bits mine mk tab"
  have p: "user_mode_bit c = b" "c \<noteq> CHR ''+''" "c \<noteq> CHR ''-''" "b AND ?M = 0" "mode_table tab" "\<exists>n<32. b = push_bit n 1"
    using Cons.prems(1) bc told_sub by auto
  show ?case
  proof (cases "mine \<and> b AND mk = 0")
    case True
    then show ?thesis using Cons.IH[OF p(5) Cons.prems(2)] Cons.prems(3) by (simp add: bc)
  next
  case False
  then have tb: "told_bits mine mk (bc # tab) = b OR ?M" "(mine \<longrightarrow> b AND mk \<noteq> 0)" by (auto simp: bc)
  have one: "x AND b = 0 \<or> x AND b = b" for x using p(6) one_bit by auto
  have m: "m AND ?M = old AND ?M" "m AND b = old AND b" using Cons.prems(3) p(4) unfolding tb
    by (auto simp: bit_eq_iff bit_simps)
  have dis: "(m AND NOT b) AND ?M = old AND ?M" "(m OR b) AND ?M = old AND ?M"
    using m(1) p(4) by (auto simp: bit_eq_iff bit_simps)
  consider (del) "has old b" "\<not> has new b" | (add) "\<not> has old b" "has new b" | (same) "has old b = has new b" by blast
  then show ?thesis
  proof cases
    case del
    then have n: "new AND b = 0" by (simp add: has_def)
    have "read_modes w m (umode_change mine mk old new (bc # tab) what) =
        read_modes False (m AND NOT b) (umode_change mine mk old new tab (Some False))"
      using del p Cons.prems(2) False by (auto simp: bc)
    also have "\<dots> = ((m AND NOT b) AND NOT ?M) OR (new AND ?M)" using Cons.IH[OF p(5) _ dis(1)] by simp
    also have "\<dots> = (m AND NOT (told_bits mine mk (bc # tab))) OR (new AND told_bits mine mk (bc # tab))"
      using n unfolding tb by (auto simp: bit_eq_iff bit_simps)
    finally show ?thesis .
  next
    case add
    then have n: "new AND b = b" using one[of new] by (auto simp: has_def)
    have "read_modes w m (umode_change mine mk old new (bc # tab) what) =
        read_modes True (m OR b) (umode_change mine mk old new tab (Some True))"
      using add p Cons.prems(2) False by (auto simp: bc)
    also have "\<dots> = ((m OR b) AND NOT ?M) OR (new AND ?M)" using Cons.IH[OF p(5) _ dis(2)] by simp
    also have "\<dots> = (m AND NOT (told_bits mine mk (bc # tab))) OR (new AND told_bits mine mk (bc # tab))"
      using n p(4) unfolding tb by (auto simp: bit_eq_iff bit_simps)
    finally show ?thesis .
  next
    case same
    then have n: "m AND b = new AND b" using one[of old] one[of new] m(2) by (auto simp: has_def)
    have "read_modes w m (umode_change mine mk old new (bc # tab) what) =
        read_modes w m (umode_change mine mk old new tab what)"
      using same False by (auto simp: bc)
    also have "\<dots> = (m AND NOT ?M) OR (new AND ?M)" by (rule Cons.IH[OF p(5) Cons.prems(2) m(1)])
    also have "\<dots> = (m AND NOT (told_bits mine mk (bc # tab))) OR (new AND told_bits mine mk (bc # tab))"
      using n p(4) unfolding tb by (auto simp: bit_eq_iff bit_simps)
    finally show ?thesis .
  qed
qed
qed simp

lemmas all_umode_defs = umode_defs UMODE_HIDEOPER_def UMODE_INVISIBLE_def UMODE_PRIVATE_def USER_WALLOP_def UMODE_SPY_def
  UMODE_HELPER_def UMODE_SADMIN_def USER_ZOMBIE_def USER_NODCC_def UMODE_FLOODEX_def UMODE_REGMSG_def

lemma umode_nonzero: "list_all (\<lambda>(b, c). b \<noteq> 0) user_modes"
  by (simp add: user_modes_def all_umode_defs)

lemma user_mode_letters: "list_all (\<lambda>(b, c). user_mode_bit c = b \<and> c \<noteq> CHR ''+'' \<and> c \<noteq> CHR ''-'') user_modes"
  by (simp add: user_modes_def user_mode_bit_def)

lemma user_modes_table: "mode_table user_modes"
proof -
  note d = umode_defs UMODE_HIDEOPER_def UMODE_INVISIBLE_def UMODE_PRIVATE_def USER_WALLOP_def UMODE_SPY_def UMODE_HELPER_def
    UMODE_SADMIN_def USER_ZOMBIE_def USER_NODCC_def UMODE_FLOODEX_def UMODE_REGMSG_def
  have p: "UMODE_SADMIN = push_bit 4 1"
    "UMODE_ADMIN = push_bit 17 1"
    "UMODE_BOT = push_bit 21 1"
    "UMODE_FLOODEX = push_bit 27 1"
    "UMODE_HELPER = push_bit 20 1"
    "UMODE_HIDEOPER = push_bit 26 1"
    "UMODE_INVISIBLE = push_bit 1 1"
    "UMODE_NETADMIN = push_bit 19 1"
    "UMODE_OPER = push_bit 14 1"
    "UMODE_LOCOP = push_bit 15 1"
    "UMODE_PRIVATE = push_bit 23 1"
    "UMODE_IDENTIFIED = push_bit 3 1"
    "UMODE_REGMSG = push_bit 24 1"
    "UMODE_SSL = push_bit 9 1"
    "UMODE_STEALTH = push_bit 25 1"
    "UMODE_TECHADMIN = push_bit 18 1"
    "USER_NODCC = push_bit 22 1"
    "USER_WALLOP = push_bit 0 1"
    "UMODE_SPY = push_bit 13 1"
    "USER_ZOMBIE = push_bit 2 1"
    by (simp_all add: d push_bit_eq_mult)
  have ex: "\<exists>n<32. push_bit k 1 = (push_bit n 1 :: 32 word)" if "k < 32" for k using that by blast
  have single: "\<exists>n<32. UMODE_SADMIN = push_bit n 1"
    "\<exists>n<32. UMODE_ADMIN = push_bit n 1"
    "\<exists>n<32. UMODE_BOT = push_bit n 1"
    "\<exists>n<32. UMODE_FLOODEX = push_bit n 1"
    "\<exists>n<32. UMODE_HELPER = push_bit n 1"
    "\<exists>n<32. UMODE_HIDEOPER = push_bit n 1"
    "\<exists>n<32. UMODE_INVISIBLE = push_bit n 1"
    "\<exists>n<32. UMODE_NETADMIN = push_bit n 1"
    "\<exists>n<32. UMODE_OPER = push_bit n 1"
    "\<exists>n<32. UMODE_LOCOP = push_bit n 1"
    "\<exists>n<32. UMODE_PRIVATE = push_bit n 1"
    "\<exists>n<32. UMODE_IDENTIFIED = push_bit n 1"
    "\<exists>n<32. UMODE_REGMSG = push_bit n 1"
    "\<exists>n<32. UMODE_SSL = push_bit n 1"
    "\<exists>n<32. UMODE_STEALTH = push_bit n 1"
    "\<exists>n<32. UMODE_TECHADMIN = push_bit n 1"
    "\<exists>n<32. USER_NODCC = push_bit n 1"
    "\<exists>n<32. USER_WALLOP = push_bit n 1"
    "\<exists>n<32. UMODE_SPY = push_bit n 1"
    "\<exists>n<32. USER_ZOMBIE = push_bit n 1"
    unfolding p by (rule ex; simp)+
  show ?thesis
    using user_mode_letters unfolding user_modes_def list.pred_inject mode_table.simps mode_bits.simps prod.case
    by (intro conjI single) (simp_all add: d)
qed

lemma change_letters:
  "x \<in> set (umode_change mine mk old new tab what) \<Longrightarrow>
     x = CHR ''+'' \<or> x = CHR ''-'' \<or> (\<exists>b. (b, x) \<in> set tab \<and> has old b \<noteq> has new b)"
proof (induction tab arbitrary: what)
  case (Cons bc tab)
  obtain b c where bc: "bc = (b, c)" by fastforce
  have "x = CHR ''+'' \<or> x = CHR ''-'' \<or> x = c \<and> has old b \<noteq> has new b \<or> (\<exists>w. x \<in> set (umode_change mine mk old new tab w))"
    using Cons.prems unfolding bc umode_change.simps
    by (cases "has old b"; cases "has new b") (auto simp only: if_True if_False simp_thms list.set split: if_splits)
  then show ?case using Cons.IH unfolding bc by (elim disjE exE) auto
qed simp

text \<open>What the letters from a server do.\<close>

lemma server_letter:
  assumes "IsServer (uc s cptr)" "cptr \<noteq> a" "c \<notin> set ''oOsf''" "user_mode_bit c \<noteq> 0 \<or> c = CHR ''+'' \<or> c = CHR ''-''"
  shows "\<exists>t add' bad'. umode_letter cptr a src (s, add, bad) c = (t, add', bad') \<and> IsServer (uc t cptr) \<and>
     (\<forall>cs. read_modes add' (c_umodes (uc t a)) cs = read_modes add (c_umodes (uc s a)) (c # cs))"
proof -
  have R: "user_mode_bit (CHR ''R'') = UMODE_REGMSG" by (simp add: user_mode_bit_def)
  have m: "\<not> MyClient (uc s cptr)" using assms(1) by (simp add: MyClient_def IsClient_def IsServer_def)
  have blank: "c \<notin> {CHR '' '', CHR 0x0A, CHR 0x0D, CHR 0x09}"
    using assms(4) by (auto simp: user_mode_bit_def)
  consider "c = CHR ''+''" | "c = CHR ''-''" | "c = CHR ''R''" | (plain) "c \<notin> {CHR ''+'', CHR ''-'', CHR ''R''}" by blast
  then show ?thesis
  proof cases
    case plain
    have "umode_letter cptr a src (s, add, bad) c = umode_default a c (s, add, bad)"
      using plain blank assms(1,3) by (simp add: umode_letter_def)
    with plain assms show ?thesis by (simp add: umode_default_def Let_def)
  next
    case 1
    with assms show ?thesis by (intro exI[of _ s] exI[of _ True] exI[of _ bad]) (simp add: umode_letter_def)
  next
    case 2
    with assms show ?thesis by (intro exI[of _ s] exI[of _ False] exI[of _ bad]) (simp add: umode_letter_def)
  next
    case 3
    have ex: "\<exists>p. p = b \<and> (\<forall>cs. read_modes p x cs = read_modes b x cs)" for b x by blast
    from 3 assms m R show ?thesis
      using ex[of True] ex[of False] by (cases add) (simp_all add: umode_letter_def)
  qed
qed

lemma server_letters:
  "IsServer (uc s cptr) \<Longrightarrow> cptr \<noteq> a \<Longrightarrow>
     \<forall>c\<in>set cs. c \<notin> set ''oOsf'' \<and> (user_mode_bit c \<noteq> 0 \<or> c = CHR ''+'' \<or> c = CHR ''-'') \<Longrightarrow>
   c_umodes (uc (fst (foldl (umode_letter cptr a src) (s, add, bad) cs)) a) = read_modes add (c_umodes (uc s a)) cs"
proof (induction cs arbitrary: s add bad)
  case (Cons c cs)
  obtain t add' bad' where t: "umode_letter cptr a src (s, add, bad) c = (t, add', bad')" "IsServer (uc t cptr)"
    "\<forall>cs. read_modes add' (c_umodes (uc t a)) cs = read_modes add (c_umodes (uc s a)) (c # cs)"
    using server_letter[OF Cons.prems(1,2)] Cons.prems(3) by (metis list.set_intros(1))
  show ?case using Cons.IH[OF t(2) Cons.prems(2)] Cons.prems(3) t(1,3) by simp
qed simp

lemma signs_plain: "CHR ''+'' \<notin> set ''oOsf''" "CHR ''-'' \<notin> set ''oOsf''"
  by simp_all

lemma settle_server:
  "c_umodes (uc (umode_settle cptr a src fl (s, add, bad)) a) =
     (if IsAnOper (uc s a) then c_umodes (uc s a) else c_umodes (uc s a) AND (USER_UMODES OR USER_ZOMBIE))"
  by (simp add: umode_settle_def Let_def)

section \<open>Properties\<close>

text \<open>
  C8. By MODE on its own nick a user gets none of the modes that others grant: operator and
  administrator modes, services administrator, helper, stealth, identified, bot, zombie, no-DCC, SSL, flood exemption. What
  it has of them it had before; and nobody else's state changes.
\<close>

theorem no_self_promotion:
  assumes "\<not> IsServer (uc s a)"
  shows "c_umodes (uc (user_mode a a parv s) a) AND GRANTED AND NOT (c_umodes (uc s a)) = 0 \<and> (x = a \<or> uc (user_mode a a parv s) x = uc s x)"
proof -
  obtain t add bad where t: "foldl (umode_letter a a (parv ! 0)) (s, True, False) (concat (drop 2 parv)) = (t, add, bad)"
    by (metis prod_cases3)
  note g = letters_no_gain[OF assms no_gain_steps(1), where ms = "concat (drop 2 parv)" and add = True and bad = False and src = "parv ! 0"]
  have o: "y \<noteq> a \<Longrightarrow> uc t y = uc s y" for y using letters_others[of y a a "parv ! 0" s True False "concat (drop 2 parv)"] t by simp
  define u where "u = umode_settle a a (parv ! 0) (c_umodes (uc s a)) (t, add, bad)"
  obtain k where k: "c_umodes (uc u a) = c_umodes (uc t a) AND k" using settle_modes(1) unfolding u_def by blast
  have gt: "no_gain (c_umodes (uc s a)) (c_umodes (uc t a))" using g t by simp
  have u1: "no_gain (c_umodes (uc s a)) (c_umodes (uc u a))" unfolding k by (rule no_gain_steps(3)[OF gt])
  have u2: "x = a \<or> uc u x = uc s x"
  proof (cases "x = a")
    case False
    from settle_modes(2)[OF this] o[OF False] show ?thesis by (simp add: u_def)
  qed simp
  have e: "umode_settle a a (parv ! 0) (c_umodes (uc s a)) (foldl (umode_letter a a (parv ! 0)) (s, True, False) (concat (drop 2 parv))) = u"
    by (simp only: t u_def)
  have "user_mode a a parv s = u \<or> (\<forall>y. uc (user_mode a a parv s) y = uc s y)"
    unfolding user_mode_def Let_def e by (cases "um_find_person (parv ! 1) s") simp_all
  then show ?thesis
  proof
    assume "user_mode a a parv s = u"
    with u1 u2 show ?thesis by (simp add: no_gain_def)
  next
    assume "\<forall>y. uc (user_mode a a parv s) y = uc s y"
    with no_gain_steps(1)[of "c_umodes (uc s a)"] show ?thesis by (simp add: no_gain_def)
  qed
qed

definition um_net :: umode_state where
  "um_net = \<lparr>uq = nick_net 100, imodes = (\<lambda>_. 0), flags2 = (\<lambda>_. 0), confs = (\<lambda>_. []), HostSpoofing = False, spoofed = (\<lambda>_. []),
     detached = []\<rparr>"

theorem no_self_promotion_witness:
  "c_umodes (uc (user_mode 3 3 [''op'', ''op'', ''+oASi-w''] um_net) 3) AND GRANTED AND NOT (c_umodes (uc um_net 3)) = 0 \<and>
   uc (user_mode 3 3 [''op'', ''op'', ''+oASi-w''] um_net) 2 = uc um_net 2"
proof -
  have "\<not> IsServer (uc um_net 3)" by (simp add: um_net_def IsServer_def nick_net_sel)
  from no_self_promotion[OF this, where parv = "[''op'', ''op'', ''+oASi-w'']" and x = 2] show ?thesis by simp
qed

text \<open>
  C36. A change of modes is understood by the other servers. The line \<open>send_umode_out\<close> makes from the old and the
  new modes of a user, read by \<open>user_mode\<close> of a server that has the user with the old modes, gives it the
  new ones, on every mode the line can tell of: all with a letter when the user is not of the sending server, all but the no-DCC
  mode (which \<open>ALL_UMODES\<close> lacks) when it is; no other client is touched. The modes are as \<open>user_mode\<close> leaves them for the sender:
  who is no operator has user modes only. Left out are changes of the two operator modes, and of the SSL mode and the
  flood exemption, whose letters the reader ignores.
\<close>

theorem umode_line_understood:
  assumes "IsServer (uc s cptr)" "um_find_person nm s = Some a" "c_umodes (uc s a) = old"
    and "(old XOR new) AND (UMODE_OPER OR UMODE_LOCOP OR UMODE_SSL OR UMODE_FLOODEX) = 0"
    and "has new (UMODE_OPER OR UMODE_LOCOP) \<or> new AND NOT (USER_UMODES OR USER_ZOMBIE) = 0"
    and "user_mode cptr a [src, nm, umode_change mine ALL_UMODES old new user_modes None] s = t"
  shows "c_umodes (uc t a) AND told_bits mine ALL_UMODES user_modes = new AND told_bits mine ALL_UMODES user_modes \<and>
    told_bits mine ALL_UMODES user_modes = ALL_UMODES OR (if mine then 0 else USER_NODCC) \<and> (x = a \<or> uc t x = uc s x)"
proof -
  let ?line = "umode_change mine ALL_UMODES old new user_modes None" and ?M = "told_bits mine ALL_UMODES user_modes"
  have p: "IsPerson (uc s a)" using assms(2) by (auto simp: um_find_person_def split: option.splits if_splits)
  then have a: "\<not> IsServer (uc s a)" "cptr \<noteq> a" using assms(1) by (auto simp: IsPerson_def IsClient_def IsServer_def)
  have "has old b = has new b" if "(b, c) \<in> set user_modes" "c \<in> set ''oOsf''" for b c
  proof -
    have "b \<in> {UMODE_OPER, UMODE_LOCOP, UMODE_SSL, UMODE_FLOODEX}" using that by (auto simp: user_modes_def)
    moreover have "old AND b = new AND b" if "b AND NOT (UMODE_OPER OR UMODE_LOCOP OR UMODE_SSL OR UMODE_FLOODEX) = 0" for b
      using assms(4) that by (auto simp: bit_eq_iff bit_simps)
    ultimately show ?thesis
      by (auto simp: has_def UMODE_OPER_def UMODE_LOCOP_def UMODE_SSL_def UMODE_FLOODEX_def)
  qed
  moreover have "user_mode_bit c \<noteq> 0" if "(b, c) \<in> set user_modes" for b c
    using that umode_nonzero user_mode_letters unfolding list_all_iff by fastforce
  ultimately have l: "\<forall>c\<in>set ?line. c \<notin> set ''oOsf'' \<and> (user_mode_bit c \<noteq> 0 \<or> c = CHR ''+'' \<or> c = CHR ''-'')"
    using change_letters[of _ mine ALL_UMODES old new user_modes None] signs_plain by metis
  obtain s1 add bad where s1: "foldl (umode_letter cptr a src) (s, True, False) ?line = (s1, add, bad)" by (metis prod_cases3)
  have "c_umodes (uc s1 a) = read_modes True old ?line"
    using server_letters[OF assms(1) a(2) l, of src True False] s1 assms(3) by simp
  also have "\<dots> = (old AND NOT ?M) OR (new AND ?M)"
    by (rule change_reads_back[OF user_modes_table]) simp_all
  finally have m: "c_umodes (uc s1 a) = (old AND NOT ?M) OR (new AND ?M)" .
  have t: "t = umode_settle cptr a src old (s1, add, bad)"
    using assms(2,3,6) a s1 by (auto simp: user_mode_def)
  have oper: "IsAnOper (uc s1 a) \<longleftrightarrow> has new (UMODE_OPER OR UMODE_LOCOP)"
  proof -
    have "((old AND NOT ?M) OR (new AND ?M)) AND (UMODE_OPER OR UMODE_LOCOP) = new AND (UMODE_OPER OR UMODE_LOCOP)"
      using assms(4) by (auto simp: bit_eq_iff bit_simps)
    then show ?thesis by (simp add: IsAnOper_def has_def m)
  qed
  have "c_umodes (uc t a) AND ?M = new AND ?M"
  proof (cases "has new (UMODE_OPER OR UMODE_LOCOP)")
    case True
    then show ?thesis by (simp add: t settle_server oper m) (auto simp: bit_eq_iff bit_simps)
  next
    case False
    then have "new AND NOT (USER_UMODES OR USER_ZOMBIE) = 0" using assms(5) by blast
    then show ?thesis using False by (simp add: t settle_server oper m) (auto simp: bit_eq_iff bit_simps)
  qed
  moreover have "?M = ALL_UMODES OR (if mine then 0 else USER_NODCC)"
    by (cases mine) (simp_all add: user_modes_def ALL_UMODES_def all_umode_defs)
  moreover have "x = a \<or> uc t x = uc s x"
    using settle_modes(2)[of x a cptr src old s1 add bad] letters_others[of x a cptr src s True False ?line] s1 t by auto
  ultimately show ?thesis by blast
qed

text \<open>Another server's user \<open>bob\<close> sets \<open>+iw\<close>.\<close>

lemma bob_modes: "c_umodes (nc (nick_net ts) 2) = 0"
  by (simp add: nick_net_def nk_client_def nk_upd_def hub_sel net_clients)
    (simp add: net_irc_def far_client_def room_sel start_def boot_def plain_user_def)

theorem umode_line_understood_witness:
  "umode_change True ALL_UMODES 0 (UMODE_INVISIBLE OR USER_WALLOP) user_modes None = ''+iw'' \<and>
   c_umodes (uc (user_mode 4 2 [''bob'', ''bob'', ''+iw''] um_net) 2) AND ALL_UMODES = UMODE_INVISIBLE OR USER_WALLOP"
proof -
  let ?new = "UMODE_INVISIBLE OR USER_WALLOP"
  have line: "umode_change True ALL_UMODES 0 ?new user_modes None = ''+iw''"
    by (simp add: user_modes_def ALL_UMODES_def has_def all_umode_defs)
  have h: "IsServer (uc um_net 4)" "um_find_person ''bob'' um_net = Some 2" "c_umodes (uc um_net 2) = 0"
    by (simp_all add: um_net_def um_find_person_def bob_found nick_net_sel IsServer_def IsPerson_def IsClient_def bob_modes)
  have n: "(0 XOR ?new) AND (UMODE_OPER OR UMODE_LOCOP OR UMODE_SSL OR UMODE_FLOODEX) = 0"
    "has ?new (UMODE_OPER OR UMODE_LOCOP) \<or> ?new AND NOT (USER_UMODES OR USER_ZOMBIE) = 0"
    by (simp_all add: USER_UMODES_def has_def all_umode_defs)
  from umode_line_understood[OF h n refl, of "''bob''" True 2, unfolded line]
  have m: "c_umodes (uc (user_mode 4 2 [''bob'', ''bob'', ''+iw''] um_net) 2) AND ALL_UMODES = ?new AND ALL_UMODES" by (elim conjE) (simp only: if_True or.right_neutral)
  have "?new AND ALL_UMODES = ?new" by (simp add: ALL_UMODES_def all_umode_defs)
  with m line show ?thesis by simp
qed

end
