(* ===== verification/Kill.thy ===== *)
theory Kill
  imports Umode
begin

text \<open>
  \<open>KILL\<close> (\<open>src/m_kill.c\<close>) and \<open>SVSNICK\<close> (\<open>src/s_user.c\<close>): how operators, servers and services take a
  user, or its nick, away.
\<close>

subsection \<open>KILL\<close>

definition KILLLEN :: nat where "KILLLEN = 90"
definition FLAGS2_OPER_GLOBAL_KILL :: "32 word" where "FLAGS2_OPER_GLOBAL_KILL = 0x20"
definition FLAGS2_OPER_K :: "32 word" where "FLAGS2_OPER_K = 0x400"

definition IsLocOp :: "client \<Rightarrow> bool" where "IsLocOp c \<longleftrightarrow> has (c_umodes c) UMODE_LOCOP"

definition um_line :: "target \<Rightarrow> cstr \<Rightarrow> umode_state \<Rightarrow> umode_state" where
  "um_line t m = um_upd (nk_send t m)"

definition um_notice :: "nat \<Rightarrow> cstr \<Rightarrow> cstr \<Rightarrow> umode_state \<Rightarrow> umode_state" where
  "um_notice a src txt s = um_line (ToOne a) ('':'' @ my_name (uq s) @ '' NOTICE '' @ src @ '' :'' @ txt) s"

type_synonym um_result = "exit_fault + umode_state \<times> bool"

text \<open>\<open>exit_client(cptr, a, fr, comment)\<close>.\<close>

definition um_exit :: "nat \<Rightarrow> nat \<Rightarrow> nat \<Rightarrow> nat \<Rightarrow> cstr \<Rightarrow> umode_state \<Rightarrow> um_result" where
  "um_exit k cptr a fr comment s =
     (case exit_client_full k cptr a fr comment (nk (uq s)) of
        Inl f \<Rightarrow> Inl f
      | Inr (x, gone) \<Rightarrow> Inr (s\<lparr>uq := (uq s)\<lparr>nk := x\<rparr>\<rparr>, gone))"

text \<open>The victim, and whether it was found by a nick it has left (\<open>get_history\<close>).\<close>

definition kill_victim :: "(cstr \<Rightarrow> nat option) \<Rightarrow> cstr \<Rightarrow> umode_state \<Rightarrow> (nat \<times> bool) option" where
  "kill_victim hist user s =
     (case nk_find_client user (uq s) of
        Some a \<Rightarrow> Some (a, False)
      | None \<Rightarrow> (case hist user of Some a \<Rightarrow> Some (a, True) | None \<Rightarrow> None))"

text \<open>Why a victim that was found is spared.\<close>

definition kill_refused :: "bool \<Rightarrow> nat \<Rightarrow> nat \<Rightarrow> cstr \<Rightarrow> nat \<Rightarrow> umode_state \<Rightarrow> (umode_state \<Rightarrow> umode_state) option" where
  "kill_refused self_ok cptr sptr src a s =
     (let v = uc s a; d = uc s sptr in
      if \<not> self_ok \<and> sptr = a then Some (um_notice sptr src ''Suicide is not allowed on this net'')
      else if \<not> local_flag v \<and> IsLocOp (uc s cptr) then Some (um_numeric sptr ''481'' src '':Permission Denied'')
      else if IsServer v \<or> c_status v = STAT_ME then Some (um_numeric sptr ''483'' src '':You cannot kill a server!'')
      else if local_flag d \<and> IsOper d \<and> \<not> local_flag v \<and> \<not> has (flags2 s sptr) FLAGS2_OPER_GLOBAL_KILL then
        Some (um_notice sptr src (''Nick '' @ c_name v @ '' isnt on your server''))
      else if IsLocOp d \<and> \<not> local_flag v then Some (um_numeric sptr ''481'' src '':Permission Denied'')
      else None)"

text \<open>\<open>path\<close> after the last \<open>!\<close> before its first blank. The source walks back from the blank until it finds a \<open>!\<close>
  or a null byte, with no test for the start of the string. It stops in time: a path with a blank is either the
  buffer of \<open>m_kill\<close>, which has a \<open>!\<close> after the user name, or the last parameter of the line, which \<open>parse\<close>
  makes the text after a colon in front of which it has just written a null byte; the walk then ends there and
  \<open>killer\<close> is the whole path.\<close>

definition kill_signer :: "cstr \<Rightarrow> cstr" where
  "kill_signer path =
     (let p = takeWhile (\<lambda>c. c \<noteq> CHR '' '') path in
      if CHR '' '' \<notin> set path \<or> CHR ''!'' \<notin> set p then path
      else drop (length p - length (takeWhile (\<lambda>c. c \<noteq> CHR ''!'') (rev p))) path)"

definition after_blank :: "cstr \<Rightarrow> cstr" where
  "after_blank t = (case dropWhile (\<lambda>c. c \<noteq> CHR '' '') t of [] \<Rightarrow> t | _ # r \<Rightarrow> r)"

definition kill_path :: "client \<Rightarrow> client \<Rightarrow> cstr option \<Rightarrow> cstr" where
  "kill_path c d arg =
     (if \<not> IsServer c then
        (if BadPtr arg then c_name c
         else c_username c @ ''!'' @ c_name c @ (if IsOper d then [] else ''(L)'') @ '' ('' @ the arg @ '')'')
      else if BadPtr arg then ''*no-path*'' else the arg)"

text \<open>Every KILL but that of a local user by a local operator goes to the other servers.\<close>

definition kill_wide :: "client \<Rightarrow> client \<Rightarrow> bool" where
  "kill_wide v d \<longleftrightarrow> \<not> local_flag v \<or> \<not> local_flag d \<or> \<not> IsAnOper d"

definition kill_told :: "nat \<Rightarrow> nat \<Rightarrow> cstr \<Rightarrow> cstr option \<Rightarrow> nat \<Rightarrow> bool \<Rightarrow> umode_state \<Rightarrow> umode_state" where
  "kill_told cptr sptr src arg a chasing s =
     (let c = uc s cptr; d = uc s sptr; v = uc s a;
          inpath = (if IsServer c then c_name c else c_host c); path = kill_path c d arg;
          reason = (if BadPtr arg then c_name d else if IsAnOper c then the arg else after_blank (the arg));
          s1 = (if IsService d then s
                else um_line ToOps (''Received KILL message for '' @ c_name v @ (if IsAnOper d then ''. From '' @ src else ''.'') @ '' Path: '' @
                  inpath @ ''!'' @ path) s);
          line = '' KILL '' @ c_name v @ '' :'' @ inpath @ ''!'' @ path;
          s2 = um_line ToServers ('':'' @ src @ line) s1;
          s3 = (if chasing \<and> IsServer c then um_line (ToOne cptr) ('':'' @ my_name (uq s2) @ line) s2 else s2);
          s4 = (if kill_wide v d then um_upd (mark_dead a) s3 else s1) in
      if local_flag v then um_line (ToOne a) ('':'' @ src @ '' KILL '' @ c_name v @ '' :'' @ reason) s4 else s4)"

definition kill_carried_out :: "nat \<Rightarrow> nat \<Rightarrow> nat \<Rightarrow> cstr \<Rightarrow> cstr option \<Rightarrow> nat \<Rightarrow> bool \<Rightarrow> umode_state \<Rightarrow> um_result" where
  "kill_carried_out k cptr sptr src arg a chasing s =
     (let c = uc s cptr; d = uc s sptr in
      um_exit k cptr a sptr
        (if kill_wide (uc s a) d then ''Killed ('' @ kill_signer (kill_path c d arg) @ '')''
         else ''Local kill by '' @ c_name d @ '' ('' @ (if BadPtr arg then c_name d else the arg) @ '')'')
        (kill_told cptr sptr src arg a chasing s))"

definition m_kill :: "(cstr \<Rightarrow> nat option) \<Rightarrow> bool \<Rightarrow> nat \<Rightarrow> nat \<Rightarrow> nat \<Rightarrow> cstr list \<Rightarrow> umode_state \<Rightarrow> um_result" where
  "m_kill hist self_ok k cptr sptr parv s =
     (let src = parv ! 0; c = uc s cptr; d = uc s sptr in
      if length parv < 2 \<or> parv ! 1 = [] then Inr (um_numeric sptr ''461'' src ''KILL :Not enough parameters'' s, False)
      else if \<not> IsPrivileged c then Inr (um_numeric sptr ''481'' src '':Permission Denied'' s, False)
      else if MyClient d \<and> IsAnOper d \<and> \<not> has (flags2 s sptr) FLAGS2_OPER_K then
        Inr (um_notice sptr src ''You have no K flag'' s, False)
      else case kill_victim hist (parv ! 1) s of
        None \<Rightarrow> Inr (um_numeric sptr ''401'' src (parv ! 1 @ '' :No such nick/channel'') s, False)
      | Some (a, chasing) \<Rightarrow>
          let s1 = (if chasing then um_notice sptr src (''KILL changed from '' @ parv ! 1 @ '' to '' @ c_name (uc s a)) s else s);
              arg = (if 2 < length parv then Some (if IsAnOper c then take KILLLEN (parv ! 2) else parv ! 2) else None) in
          (case kill_refused self_ok cptr sptr src a s1 of
             Some f \<Rightarrow> Inr (f s1, False)
           | None \<Rightarrow> kill_carried_out k cptr sptr src arg a chasing s1))"

subsection \<open>SVSNICK\<close>

text \<open>A line of the services that forces a nick on a user of this server; \<open>delay\<close> is \<open>services_nick_change\<close>.\<close>

definition svsnick_applied :: "nat \<Rightarrow> nat \<Rightarrow> nat \<Rightarrow> cstr \<Rightarrow> cstr \<Rightarrow> (nat \<Rightarrow> int) \<Rightarrow> nick_state \<Rightarrow> nick_state \<times> (nat \<Rightarrow> int)" where
  "svsnick_applied cptr sptr a old nick delay s =
     (let s1 = (if irccmp old nick \<noteq> 0 then nk_client a (\<lambda>c. c\<lparr>c_umodes := c_umodes c AND NOT UMODE_IDENTIFIED\<rparr>) s else s);
          s2 = nk_call (CommonChannels a ('':'' @ old @ '' NICK :'' @ nick)) s1;
          now = CurrentTime (ex_irc (nk s2));
          s3 = (if has_user (nc s2 a) then
                  nk_send ToServers ('':'' @ old @ '' NICK '' @ nick @ '' :'' @ dec now) (nk_call (AddHistory a) (s2\<lparr>tsinfo := (tsinfo s2)(a := now)\<rparr>))
                else s2);
          nm = c_name (nc s3 a);
          s4 = (if nm = [] then s3
                else nk_call (CheckWatch a False) (nk_upd (\<lambda>x. x\<lparr>client_tab := del_from_client_hash_table nm a (client_tab x)\<rparr>) s3));
          s5 = nk_call (CheckWatch a True)
                 (nk_upd (\<lambda>x. x\<lparr>client_tab := add_to_client_hash_table nick a (client_tab x)\<rparr>) (nk_client a (\<lambda>c. c\<lparr>c_name := nick\<rparr>) s4)) in
      if 1 < delay a + 1 then
        (s5\<lparr>number_of_nick_changes := (number_of_nick_changes s5)(a := MAX_NICK_CHANGES + 1),
            last_nick_change := (last_nick_change s5)(a := now)\<rparr>, delay(a := 0))
      else (s5, delay(a := delay a + 1)))"

text \<open>
  A missing or not numeric second parameter stands for no time stamp, and the parameters move one place up. The flag is that of
  \<open>CLIENT_EXITED\<close>; \<open>Inl\<close> is the fault of an exit.
\<close>

definition m_svsnick ::
  "nat \<Rightarrow> nat \<Rightarrow> nat \<Rightarrow> cstr list \<Rightarrow> (nat \<Rightarrow> int) \<Rightarrow> nick_state \<Rightarrow> exit_fault + (nick_state \<times> (nat \<Rightarrow> int)) \<times> bool" where
  "m_svsnick k cptr sptr parv0 delay s =
     (let stay = (\<lambda>t. Inr ((t, delay), False)) in
      if \<not> IsServer (nc s cptr) then stay s
      else if \<not> IsService (nc s sptr) then
        stay (nk_send (ToOne cptr) ('':'' @ my_name s @ '' WALLOPS :ignoring SVSNICK from non-service '' @ c_name (nc s sptr))
          (nk_send ToOps (''Got SVSNICK from non-service: '' @ c_name (nc s sptr)) s))
      else
        let shift = (length parv0 < 4 \<or> \<not> IsDigit (hd0 (parv0 ! 2)));
            parv = (if shift \<and> 2 < length parv0 then [parv0 ! 0, parv0 ! 1, ''0'', parv0 ! 2] else parv0) in
        if length parv < 4 then
          stay (nk_send ToOps (''Invalid SVSNICK (-) from '' @ parv ! 0) s)
        else
          let old = parv ! 1; want = parv ! 3; (nick, n) = clean_nick_name (take NICKLEN want) in
          if n = 0 \<or> nick \<noteq> want then
            stay (nk_send ToOps (''Bad Nick: '' @ parv ! 2 @ '' From: '' @ parv ! 0 @ '' '' @ client_name_host cptr s)
              (nk_numeric sptr ''432'' (shown_source parv) (want @ '' :Erroneus Nickname'') s))
          else case (case nk_find_client old s of Some a \<Rightarrow> if IsPerson (nc s a) then Some a else None | None \<Rightarrow> None) of
            None \<Rightarrow> stay s
          | Some a \<Rightarrow>
              if MyClient (nc s a) then
                let ts = strtol (parv ! 2) in
                if ts \<noteq> 0 \<and> ts \<noteq> tsinfo s a then stay (nk_send ToOps (''Unmatched SVSNICK tsinfo for '' @ old) s)
                else if irccmp old want \<noteq> 0 \<and> nk_find_client want s \<noteq> None then
                  (case exit_client_full k cptr a sptr ''Nickname collision due to Services enforced nickname change, your nick was overruled''
                      (nk (nk_send ToOps (''Nickname collision due to Services enforced for '' @ want) s)) of
                     Inl f \<Rightarrow> Inl f
                   | Inr (x, gone) \<Rightarrow> Inr ((s\<lparr>nk := x\<rparr>, delay), gone))
                else Inr (svsnick_applied cptr sptr a old nick delay s, False)
              else if a \<noteq> cptr \<and> c_from (nc s a) \<noteq> cptr then
                stay (nk_send (ToOne a) ('':'' @ parv ! 0 @ '' SVSNICK '' @ old @ '' '' @ parv ! 2 @ '' '' @ want) s)
              else stay s)"

subsection \<open>Who can kill whom\<close>

lemma um_line_sel [simp]:
  "nk (uq (um_line t m s)) = ex_send t m (nk (uq s))" "flags2 (um_line t m s) = flags2 s" "uc (um_line t m s) x = uc s x"
  by (simp_all add: um_line_def um_upd_def nk_send_def nk_upd_def)

lemma um_notice_sel [simp]:
  "keeps_tree x (nk (uq s)) \<Longrightarrow> keeps_tree x (nk (uq (um_notice a src t s)))" "flags2 (um_notice a src t s) = flags2 s"
  "uc (um_notice a src t s) y = uc s y" "global_list (nk (uq (um_notice a src t s))) = global_list (nk (uq s))"
  by (simp_all add: um_notice_def)

lemma um_numeric_list [simp]: "global_list (nk (uq (um_numeric a n m t s))) = global_list (nk (uq s))"
  by (simp add: um_numeric_def um_upd_def nk_numeric_def nk_send_def nk_upd_def)

lemma um_dead_tree: "keeps_tree x (nk (uq s)) \<Longrightarrow> keeps_tree x (nk (uq (um_upd (mark_dead a) s)))"
  by (auto simp: um_upd_def mark_dead_def nk_client_def nk_upd_def intro!: quiet_upd)

lemma refused_quiet:
  "kill_refused self_ok cptr sptr src a s = Some f \<Longrightarrow> uc (f t) y = uc t y \<and> global_list (nk (uq (f t))) = global_list (nk (uq t))"
  by (auto simp: kill_refused_def Let_def split: if_splits)

lemma kill_effect:
  assumes "clean (nk (uq s))" "distinct (global_list (nk (uq s)))" "a \<noteq> 0" "c_status (uc s a) \<noteq> STAT_ME" "\<not> IsServer (uc s a)"
  shows "\<exists>t. kill_carried_out k cptr sptr src arg a chasing s = Inr (t, cptr = a) \<and> a \<notin> set (global_list (nk (uq t))) \<and>
     (\<forall>ch. a \<notin> set (members_of (ex_irc (nk (uq t))) ch))"
proof -
  have "keeps_tree (nk (uq s)) (nk (uq (kill_told cptr sptr src arg a chasing s)))"
    by (simp add: kill_told_def Let_def um_dead_tree)
  moreover have "\<exists>m. kill_carried_out k cptr sptr src arg a chasing s =
      um_exit k cptr a sptr m (kill_told cptr sptr src arg a chasing s)"
    unfolding kill_carried_out_def Let_def by blast
  ultimately have "\<exists>u m. kill_carried_out k cptr sptr src arg a chasing s = um_exit k cptr a sptr m u \<and> keeps_tree (nk (uq s)) (nk (uq u))"
    by blast
  then obtain u m where u: "kill_carried_out k cptr sptr src arg a chasing s = um_exit k cptr a sptr m u"
    "keeps_tree (nk (uq s)) (nk (uq u))" by blast
  have h: "distinct (global_list (nk (uq u)))" "c_status (uc u a) \<noteq> STAT_ME" "\<not> IsServer (uc u a)"
    using u(2) assms(2,4,5) by (simp_all add: keeps_tree_def IsServer_def)
  obtain x where x: "exit_client_full k cptr a sptr m (nk (uq u)) = Inr (x, cptr = a)" "clean x"
     "global_list x = remove1 a (global_list (nk (uq u)))"
    using exit_user_all[OF quiet_clean[OF u(2) assms(1)] h(1) assms(3) h(2,3), of k cptr sptr m] by blast
  have g: "a \<notin> set (global_list x)" using x(3) h(1) by simp
  then have "\<forall>ch. a \<notin> set (members_of (ex_irc x) ch)" using clean_members[OF x(2)] by blast
  then show ?thesis using u(1) x(1) g by (simp add: um_exit_def)
qed

definition may_kill :: "bool \<Rightarrow> nat \<Rightarrow> nat \<Rightarrow> umode_state \<Rightarrow> bool" where
  "may_kill self_ok a v s \<longleftrightarrow>
     IsAnOper (uc s a) \<and> has (flags2 s a) FLAGS2_OPER_K \<and> (self_ok \<or> a \<noteq> v) \<and> \<not> IsServer (uc s v) \<and> c_status (uc s v) \<noteq> STAT_ME \<and>
     (local_flag (uc s v) \<or> \<not> IsLocOp (uc s a) \<and> has (flags2 s a) FLAGS2_OPER_GLOBAL_KILL)"

section \<open>Properties\<close>

text \<open>
  C9. What a local user's KILL of a nick that leads to a client \<open>v\<close> does. The victim goes exactly when the source is an
  operator with the K flag, the victim is no server, is not the source where suicide is forbidden, and is local unless the
  source is a global operator with the flag for remote kills; then it is gone from the list of clients and from every
  channel. In all other cases no client changes.
\<close>

theorem kill_policy:
  assumes "clean (nk (uq s))" "distinct (global_list (nk (uq s)))" "MyClient (uc s a)"
    "2 \<le> length parv" "parv ! 1 \<noteq> []" "kill_victim hist (parv ! 1) s = Some (v, chasing)" "v \<noteq> 0"
  shows "\<exists>t r. m_kill hist self_ok k a a parv s = Inr (t, r) \<and>
    (if may_kill self_ok a v s
     then v \<notin> set (global_list (nk (uq t))) \<and> (\<forall>ch. v \<notin> set (members_of (ex_irc (nk (uq t))) ch)) \<and> r = (a = v)
     else (\<forall>x. uc t x = uc s x) \<and> global_list (nk (uq t)) = global_list (nk (uq s)) \<and> \<not> r)"
proof -
  define s1 where "s1 = (if chasing then um_notice a (parv ! 0) (''KILL changed from '' @ parv ! 1 @ '' to '' @ c_name (uc s v)) s else s)"
  define arg where "arg = (if 2 < length parv then Some (if IsAnOper (uc s a) then take KILLLEN (parv ! 2) else parv ! 2) else None)"
  have s1: "uc s1 x = uc s x" "flags2 s1 = flags2 s" "global_list (nk (uq s1)) = global_list (nk (uq s))" "keeps_tree (nk (uq s)) (nk (uq s1))" for x
    by (simp_all add: s1_def)
  have ns: "\<not> IsServer (uc s a)" using assms(3) by (simp add: MyClient_def IsClient_def IsServer_def)
  have run: "m_kill hist self_ok k a a parv s =
      (if \<not> IsAnOper (uc s a) then Inr (um_numeric a ''481'' (parv ! 0) '':Permission Denied'' s, False)
       else if \<not> has (flags2 s a) FLAGS2_OPER_K then Inr (um_notice a (parv ! 0) ''You have no K flag'' s, False)
       else case kill_refused self_ok a a (parv ! 0) v s1 of
         Some f \<Rightarrow> Inr (f s1, False) | None \<Rightarrow> kill_carried_out k a a (parv ! 0) arg v chasing s1)"
    using assms(3-6) ns unfolding m_kill_def Let_def s1_def arg_def IsPrivileged_def by simp
  have o: "IsAnOper c \<Longrightarrow> \<not> IsLocOp c \<Longrightarrow> IsOper c" for c
    by (auto simp: IsAnOper_def IsLocOp_def IsOper_def has_def bit_eq_iff bit_simps)
  have loc: "local_flag (uc s a)" using assms(3) by (simp add: MyClient_def)
  show ?thesis
  proof (cases "may_kill self_ok a v s")
    case True
    then have "kill_refused self_ok a a (parv ! 0) v s1 = None"
      using o[of "uc s a"] by (auto simp: may_kill_def kill_refused_def Let_def s1)
    then have r: "m_kill hist self_ok k a a parv s = kill_carried_out k a a (parv ! 0) arg v chasing s1"
      using run True by (simp add: may_kill_def)
    have "clean (nk (uq s1))" "distinct (global_list (nk (uq s1)))" "c_status (uc s1 v) \<noteq> STAT_ME" "\<not> IsServer (uc s1 v)"
      using quiet_clean[OF s1(4) assms(1)] assms(2) True by (simp_all add: s1 may_kill_def)
    from kill_effect[OF this(1,2) assms(7) this(3,4)] show ?thesis using r True by auto
  next
    case False
    show ?thesis
    proof (cases "IsAnOper (uc s a) \<and> has (flags2 s a) FLAGS2_OPER_K")
      case True
      then have "kill_refused self_ok a a (parv ! 0) v s1 \<noteq> None"
        using False o[of "uc s a"] loc by (auto simp: may_kill_def kill_refused_def Let_def s1)
      then obtain f where f: "kill_refused self_ok a a (parv ! 0) v s1 = Some f" by blast
      with run True have "m_kill hist self_ok k a a parv s = Inr (f s1, False)" by simp
      with refused_quiet[OF f, of s1] False show ?thesis by (auto simp: s1)
    next
      case no: False
      with run False show ?thesis by (auto split: if_splits)
    qed
  qed
qed

definition kill_net :: umode_state where
  "kill_net = um_net\<lparr>uq := nk_client 3 (\<lambda>c. c\<lparr>c_umodes := UMODE_OPER\<rparr>) (nick_net 100), flags2 := (\<lambda>_. 0x420)\<rparr>"

lemma kill_net_ok:
  "clean (nk (uq kill_net))" "global_list (nk (uq kill_net)) = [2, 3, 6, 4, 1]" "may_kill False 3 2 kill_net"
  "kill_victim (\<lambda>_. None) ''bob'' kill_net = Some (2, False)" "MyClient (uc kill_net 3)"
proof -
  let ?b = "hub_net\<lparr>client_tab := add_to_client_hash_table ''bob'' 2 clear_hash_table\<rparr>"
  have "keeps_tree ?b (nk (uq kill_net))"
    by (auto simp: kill_net_def nick_net_def nk_client_def nk_upd_def intro!: quiet_upd)
  moreover have "clean ?b" using net_clean by (simp add: clean_def)
  ultimately show "clean (nk (uq kill_net))" by (rule quiet_clean)
  show "global_list (nk (uq kill_net)) = [2, 3, 6, 4, 1]"
    by (simp add: kill_net_def nick_net_def nk_client_def nk_upd_def hub_sel)
  have u: "uc kill_net 3 = (nc (nick_net 100) 3)\<lparr>c_umodes := UMODE_OPER\<rparr>" "uc kill_net 2 = nc (nick_net 100) 2" "flags2 kill_net 3 = 0x420"
    by (simp_all add: kill_net_def)
  show "may_kill False 3 2 kill_net"
    by (simp add: may_kill_def u IsAnOper_def IsLocOp_def IsServer_def nick_net_sel has_def umode_defs FLAGS2_OPER_K_def FLAGS2_OPER_GLOBAL_KILL_def)
  show "MyClient (uc kill_net 3)" by (simp add: u MyClient_def IsClient_def nick_net_sel)
  have "nk_find_client ''bob'' (uq kill_net) = Some 2"
    by (simp add: nk_find_client_def hash_find_client_def kill_net_def nk_client_def nk_upd_def nick_net_sel add_to_client_hash_table_def
        bucket_add_def upd_client_def)
  then show "kill_victim (\<lambda>_. None) ''bob'' kill_net = Some (2, False)" by (simp add: kill_victim_def)
qed

theorem kill_policy_witness:
  "\<exists>t. m_kill (\<lambda>_. None) False 0 3 3 [''op'', ''bob'', ''spam''] kill_net = Inr (t, False) \<and>
     2 \<notin> set (global_list (nk (uq t))) \<and> 2 \<notin> set (members_of (ex_irc (nk (uq t))) 5)"
proof -
  have h: "distinct (global_list (nk (uq kill_net)))" "2 \<le> length [''op'', ''bob'', ''spam'']" "[''op'', ''bob'', ''spam''] ! 1 \<noteq> []"
    "kill_victim (\<lambda>_. None) ([''op'', ''bob'', ''spam''] ! 1) kill_net = Some (2, False)" "(2::nat) \<noteq> 0"
    by (simp_all add: kill_net_ok)
  from kill_policy[OF kill_net_ok(1) h(1) kill_net_ok(5) h(2-5), of False 0] show ?thesis by (auto simp: kill_net_ok(3))
qed

end
