(* ===== verification/Spec2Isabelle.thy ===== *)
theory Spec2Isabelle
  imports ChanSteps Dline Dbuf ChanWire Watch Throttle Whowas Flud Packet ConfClass SvLines Message Kill
begin

text \<open>
  Verification library of the PTlink IRC daemon (\<open>src/src/*.c\<close>, \<open>src/include/*.h\<close>).

  The program. A line read from a socket is queued in a chain of buffers (\<open>dbuf.c\<close>), taken out line by
  line, split into prefix, command and parameters and handed to a handler (\<open>parse.c\<close>). The handlers of
  \<open>channel.c\<close> keep the channel store: the channels, their members, invitations, bans and modes, found by
  name through the hash tables (\<open>hash.c\<close>, over the case mapping and the masks of \<open>match.c\<close>). A new
  connection is checked against the networks of the D-lines (\<open>dline_conf.c\<close>, with the addresses read by
  \<open>s_conf.c\<close>) and against the throttle of its address (\<open>throttle.c\<close>). The configuration lines
  it matches are attached to it and counted in their connection classes, its address in a table of addresses
  (\<open>class.c\<close>, \<open>s_conf.c\<close>). Nicks that come and go are remembered
  (\<open>whowas.c\<close>) and told to who watches them (\<open>hash.c\<close>, \<open>m_watch.c\<close>); CTCP floods are counted (\<open>flud.c\<close>). A PRIVMSG or
  NOTICE passes the tests of \<open>m_message.c\<close>, among them the lines the services set (\<open>svline.c\<close> and its like), and is
  fanned out by \<open>send.c\<close> over the output queues of the links.

  The theories, in the order they build on each other.
  \<^item> \<open>Prelude\<close>: C strings, the undefined behaviours \<open>ub\<close>, the lemma collections.
  \<^item> \<open>IrcChar\<close>, \<open>CLib\<close>, \<open>IrcMatch\<close>, \<open>IrcString\<close>: the character tables, the C library functions the source
    uses, \<open>match\<close> and the comparison functions, the string utilities. \<open>match\<close> is refined to a declarative
    matching relation, its reads of memory are checked and its limit of 512 rounds is made explicit.
  \<^item> \<open>NameHash\<close>, \<open>HashTab\<close>: a locale of bucket tables for any hash that respects the equality of names, and its
    two interpretations, the tables of clients and of channels: which blocks are filed after an insertion or a
    removal, and what a look-up then answers.
  \<^item> \<open>TwoWay\<close>: a locale for links kept on both sides, interpreted in \<open>ChanMember\<close> for membership and for
    invitations and in \<open>Watch\<close> for the watch lists.
  \<^item> \<open>ChanState\<close>: the records of \<open>struct Channel\<close>, \<open>struct Client\<close>, of the configuration and of the
    daemon. Blocks are numbers (their addresses); a line sent is recorded with whom it goes to.
  \<^item> \<open>ChanMember\<close>, \<open>ChanBan\<close>, \<open>ChanFlags\<close>, \<open>ChanAccess\<close>, \<open>ChanBurst\<close>: the operations on the store and its
    invariant \<open>chan_inv\<close>, the ban list, the flags of a member, who may speak and enter, the burst.
  \<^item> \<open>ChanMode\<close>, \<open>ChanCmd\<close>, \<open>ChanNames\<close>, \<open>ChanJoin\<close>: the handlers \<open>MODE\<close>, \<open>PART\<close>, \<open>KICK\<close>, \<open>KNOCK\<close>, \<open>TOPIC\<close>,
    \<open>INVITE\<close>, \<open>SAMODE\<close>, \<open>NAMES\<close> and \<open>JOIN\<close>, each as one function on the state.
  \<^item> \<open>ChanSjoin\<close>: \<open>SJOIN\<close> and \<open>NJOIN\<close>, by which servers agree on a channel: the rules of the time stamps, the
    modes both sides keep, the ranks the newcomers get.
  \<^item> \<open>Private\<close>: the limit of new targets and the silence lists.
  \<^item> \<open>ChanSteps\<close>: the transition system of all these operations, what holds in every reachable state.
  \<^item> \<open>IpTree\<close>, \<open>Dline\<close>: the trees of networks and the D-lines over them.
  \<^item> \<open>Dbuf\<close>: the buffer pool and queues, refined to byte strings; \<open>queue_ok\<close> says that the blocks in use are within
    the count of the pool, \<open>queue_exact\<close> how the count changes with a queue.
  \<^item> \<open>CmdTree\<close>, \<open>Parse\<close>: the command tree against the table it is built from; parsing and dispatch
    (with \<open>FLOOD_DELAY\<close>, which \<open>configure\<close> turns on).
  \<^item> \<open>Packet\<close>: how the bytes of a link become the lines \<open>parse\<close> gets, for servers (\<open>dopacket\<close>) and for the queue
    of a client (\<open>parse_client_queued\<close> over the queue of \<open>Dbuf\<close>).
  \<^item> \<open>ChanWire\<close>: the burst of a channel as \<open>ChanBurst\<close> writes it, split by \<open>Parse\<close>, read by \<open>ChanSjoin\<close>.
  \<^item> \<open>Watch\<close>, \<open>Whowas\<close>, \<open>Throttle\<close>, \<open>Flud\<close>: the watch table as a set of pairs, the nickname history as a log, the
    throttle of an address as a count, the flood counters of a target. Each has its own small state around the
    parts of the daemon it reads, and the invariant that ties its lists together.
  \<^item> \<open>IpHash\<close>, \<open>ConfClass\<close>: the connections per address, refined to a count; the connection classes and the lines
    attached to clients as objects in a store, through connections and rehashes, with the accounts that keep the
    pointers of client, operator and server lines valid as long as no limit of a class is negative.
  \<^item> \<open>SvLines\<close>: the Z-, SQ-, SV- and SX-lines that servers and services set, their bursts to a new server.
  \<^item> \<open>SendQ\<close>, \<open>Deliver\<close>: the output queue of a link, one stream of bytes with a bound, and over it every fan-out of
    \<open>send.c\<close>; who gets how many copies of a line is read off the list of calls of \<open>send_message\<close>. \<open>send.c\<close> hands one
    \<open>va_list\<close> to every recipient of a channel line without \<open>va_copy\<close>; what the k-th reading of it yields is a
    parameter, so the lines are those of the addressee only where all readings agree.
  \<^item> \<open>Message\<close>: PRIVMSG and NOTICE from their parameters to a call of \<open>send.c\<close>, with AWAY and the aliases of the
    services; the call carried out by \<open>Deliver\<close> on the state \<open>Message\<close> leaves.
  \<^item> \<open>Exit\<close>: \<open>exit_client\<close> of \<open>client.c\<close> over the tree of servers. Fuel above the number of clients behind a server is
    enough, since each turn of \<open>recurse_remove_clients\<close> takes one of them away; everything behind the server goes and
    nothing else, and nobody who has left is on a channel.
  \<^item> \<open>Nick\<close>: \<open>m_nick\<close> of \<open>s_user.c\<close> over \<open>Exit\<close>: which nicks a user can take, and who keeps a nick when two users meet
    under it; two servers that join decide the same. The warnings of a bad NICK line follow the limit of
    \<open>ts_warn\<close>; what \<open>parv\<close> holds behind the last parameter is part of the environment.
  \<^item> \<open>Umode\<close>: \<open>user_mode\<close> and \<open>send_umode\<close>: no user gives itself a mode that others grant; the line that tells a
    change, carried out by \<open>user_mode\<close> on another server, brings it to the modes the line is about.
  \<^item> \<open>Kill\<close>: \<open>m_kill\<close> and \<open>m_svsnick\<close>: who can kill whom, on top of what \<open>Exit\<close> shows of an exit.

  Integers. Flags and hashes are words of their width. Counters and times are \<open>int\<close>; where the source
  can overflow a buffer or read outside one the model returns \<open>Inl\<close> of the undefined behaviour.

  Bounds and fuel. \<open>match\<close> stops after 512 rounds as the source does. The walk over the members of a burst
  has fuel for two rounds more than there are members, which \<open>ChanBurst\<close> shows to be enough. The loop over a
  client's queue is a partial function, \<open>Packet\<close> shows that it returns on every well-formed queue. What a socket
  takes is a list of the results of its writes; when the list is used up the socket blocks. All other loops
  are recursive functions with a termination proof.

  Parameters. Look-ups of clients by name, the nick history in the channel commands, the forwarding of a query to
  another server, the continuation of a LIST that had to wait, the address of a new block, the content of
  memory the source leaves uninitialised, the printing of dates, and the handlers of a parsed line are arguments
  of the definitions.

  Not modelled: sockets, name resolution, TLS, compression and the event loop (system calls and other
  libraries); code pages; the parsing of the configuration files; the handlers that only print tables; the registration of users
  and server links.
\<close>

end
